(* ===== verification/OS_Prelude.thy ===== *)
theory OS_Prelude
  imports Main "HOL-Library.Word"
begin

text \<open>
  Shared vocabulary of the OS/161 development: the kernel's error numbers
  (\<^verbatim>\<open>kern/include/kern/errno.h\<close>), the C integer conversions the sources rely on, the
  monad in which every kernel routine is written, its weakest-precondition calculus, the
  model of \<^verbatim>\<open>kmalloc\<close> as its callers see it, and generic list lemmas.

  A kernel routine of type \<open>('s, 'a) kern\<close> reads and writes a state \<open>'s\<close>. It either
  does not come back (a \<^verbatim>\<open>panic\<close>, a failed \<^verbatim>\<open>assert\<close>, or an endless wait: \<open>None\<close>), or
  comes back with an \<^verbatim>\<open>errno\<close> (\<open>Inl e\<close>, the C convention of a non-zero \<^verbatim>\<open>int\<close>), or with
  a result (\<open>Inr a\<close>). In the last two cases the state it leaves behind is returned too,
  since a C function that fails half way keeps the changes it has made.
\<close>

section \<open>Error numbers\<close>

datatype errno =
    EINVAL | EFAULT | ENAMETOOLONG | ENOMEM | EIO | ENOENT | ENOTDIR | EISDIR | EEXIST
  | EXDEV | EAGAIN | ESPIPE | EUNIMP | ENXIO | ENODEV | EBUSY | EIOCTL | ENOTEMPTY
  | ERANGE | ENOSPC | EMFILE | ENFILE | ENOSYS | ENOEXEC | E2BIG | EBADF

section \<open>C integers\<close>

type_synonym byte = "8 word"

text \<open>Conversion to \<^verbatim>\<open>u_int32_t\<close>, \<^verbatim>\<open>u_int16_t\<close> and (two's complement) \<^verbatim>\<open>int32_t\<close>.\<close>

definition u32 :: "nat \<Rightarrow> nat" where
  "u32 n = n mod 4294967296"

definition u16 :: "nat \<Rightarrow> nat" where
  "u16 n = n mod 65536"

definition s32 :: "int \<Rightarrow> int" where
  "s32 i = (i + 2147483648) mod 4294967296 - 2147483648"

text \<open>The C operator \<^verbatim>\<open>%\<close> on \<^verbatim>\<open>int\<close>: the remainder of the division that rounds towards zero.\<close>

definition crem :: "int \<Rightarrow> int \<Rightarrow> int" where
  "crem a b = sgn a * (\<bar>a\<bar> mod \<bar>b\<bar>)"

text \<open>The C operator \<^verbatim>\<open>/\<close> on \<^verbatim>\<open>int\<close>, rounding towards zero, and the conversion of \<^verbatim>\<open>int\<close> to \<^verbatim>\<open>u_int32_t\<close>.\<close>

definition cdiv :: "int \<Rightarrow> int \<Rightarrow> int" where
  "cdiv a b = sgn a * sgn b * (\<bar>a\<bar> div \<bar>b\<bar>)"

definition i2u32 :: "int \<Rightarrow> nat" where
  "i2u32 i = nat (i mod 4294967296)"

text \<open>\<^verbatim>\<open>DIVROUNDUP(a,b)\<close> of \<^verbatim>\<open>kern/include/lib.h\<close>, on \<^verbatim>\<open>u_int32_t\<close>.\<close>

definition divroundup :: "nat \<Rightarrow> nat \<Rightarrow> nat" where
  "divroundup a b = u32 (a + b - 1) div b"

section \<open>The kernel monad\<close>

type_synonym ('s, 'a) kern = "'s \<Rightarrow> ((errno + 'a) \<times> 's) option"

definition retK :: "'a \<Rightarrow> ('s, 'a) kern" where
  "retK a s = Some (Inr a, s)"

definition failK :: "errno \<Rightarrow> ('s, 'a) kern" where
  "failK e s = Some (Inl e, s)"

definition panicK :: "('s, 'a) kern" where
  "panicK s = None"

definition bindK :: "('s, 'a) kern \<Rightarrow> ('a \<Rightarrow> ('s, 'b) kern) \<Rightarrow> ('s, 'b) kern" where
  "bindK m f s = (case m s of
       None \<Rightarrow> None
     | Some (Inl e, s') \<Rightarrow> Some (Inl e, s')
     | Some (Inr a, s') \<Rightarrow> f a s')"

definition getK :: "('s \<Rightarrow> 'a) \<Rightarrow> ('s, 'a) kern" where
  "getK f s = Some (Inr (f s), s)"

definition modK :: "('s \<Rightarrow> 's) \<Rightarrow> ('s, unit) kern" where
  "modK f s = Some (Inr (), f s)"

text \<open>\<^verbatim>\<open>assert(cond)\<close>.\<close>

definition assertK :: "bool \<Rightarrow> ('s, unit) kern" where
  "assertK b s = (if b then Some (Inr (), s) else None)"

text \<open>The C idiom \<^verbatim>\<open>result = f(...)\<close> where the caller looks at \<^verbatim>\<open>result\<close> itself.\<close>

definition tryK :: "('s, 'a) kern \<Rightarrow> ('s, errno + 'a) kern" where
  "tryK m s = (case m s of None \<Rightarrow> None | Some (r, s') \<Rightarrow> Some (Inr r, s'))"

text \<open>\<^verbatim>\<open>return result;\<close> for a result obtained through \<open>tryK\<close>.\<close>

definition resultK :: "errno + 'a \<Rightarrow> ('s, 'a) kern" where
  "resultK r s = Some (r, s)"

text \<open>A routine that works on one field of a larger state.\<close>

definition zoomK :: "('s \<Rightarrow> 't) \<Rightarrow> ('t \<Rightarrow> 's \<Rightarrow> 's) \<Rightarrow> ('t, 'a) kern \<Rightarrow> ('s, 'a) kern" where
  "zoomK get put m s = (case m (get s) of
       None \<Rightarrow> None | Some (r, t) \<Rightarrow> Some (r, put t s))"

text \<open>\<^verbatim>\<open>for\<close> loops over a list of indices, with the local variables the body updates.\<close>

fun foldK :: "('x \<Rightarrow> 'b \<Rightarrow> ('s, 'b) kern) \<Rightarrow> 'x list \<Rightarrow> 'b \<Rightarrow> ('s, 'b) kern" where
  "foldK f [] b = retK b"
| "foldK f (x # xs) b = bindK (f x b) (foldK f xs)"

section \<open>Weakest preconditions\<close>

text \<open>
  \<open>wpK m Q E s\<close>: run from \<open>s\<close>, the routine comes back, its result satisfies \<open>Q\<close> if it
  succeeds and its error satisfies \<open>E\<close> if it fails. The equations in \<open>wp\<close> push it
  through the monad's operations.
\<close>

definition wpK :: "('s, 'a) kern \<Rightarrow> ('a \<Rightarrow> 's \<Rightarrow> bool) \<Rightarrow> (errno \<Rightarrow> 's \<Rightarrow> bool) \<Rightarrow> 's \<Rightarrow> bool" where
  "wpK m Q E s \<longleftrightarrow> (case m s of
       None \<Rightarrow> False
     | Some (Inl e, s') \<Rightarrow> E e s'
     | Some (Inr a, s') \<Rightarrow> Q a s')"

named_theorems wp \<open>weakest-precondition equations\<close>

section \<open>kmalloc as its callers see it\<close>

text \<open>
  \<^verbatim>\<open>kmalloc(sz)\<close> may return \<^verbatim>\<open>NULL\<close> at any call. A routine that allocates takes the outcome
  as an oracle: the size asked for is mapped to whether the call succeeds. A state that
  makes several calls carries a \<open>kmem\<close>, whose oracle also depends on how many calls came
  before, so that any pattern of failures can occur.
\<close>

type_synonym kmalloc_oracle = "nat \<Rightarrow> bool"

record kmem =
  km_oracle :: "nat \<Rightarrow> kmalloc_oracle"
  km_calls :: nat
  km_pages :: "nat \<rightharpoonup> nat"

definition kmalloc :: "nat \<Rightarrow> (kmem, bool) kern" where
  "kmalloc sz m = Some (Inr (km_oracle m (km_calls m) sz), m\<lparr>km_calls := Suc (km_calls m)\<rparr>)"

text \<open>
  \<^verbatim>\<open>kfree(ptr)\<close>, as far as its caller can tell: \<open>km_pages\<close> maps the address of each page the subpage
  allocator manages to the size of the blocks on it. A pointer into such a page must be at a
  block boundary, any other pointer must be page aligned.
\<close>

definition kfree :: "nat \<Rightarrow> (kmem, unit) kern" where
  "kfree ptr m =
     (if ptr = 0 then Some (Inr (), m)
      else case km_pages m (ptr - ptr mod 4096) of
        None \<Rightarrow> if ptr mod 4096 = 0 then Some (Inr (), m) else None
      | Some sz \<Rightarrow> if ptr mod 4096 mod sz = 0 then Some (Inr (), m) else None)"

section \<open>Lemmas\<close>

text \<open>The equations are between predicates on the state, so that they apply under a binder too.\<close>

lemma wp_ret [wp]: "wpK (retK a) Q E = Q a"
  by (rule ext) (simp add: wpK_def retK_def)

lemma wp_fail [wp]: "wpK (failK e) Q E = E e"
  by (rule ext) (simp add: wpK_def failK_def)

lemma wp_panic [wp]: "wpK panicK Q E = (\<lambda>s. False)"
  by (rule ext) (simp add: wpK_def panicK_def)

lemma wp_bind [wp]: "wpK (bindK m f) Q E = wpK m (\<lambda>a. wpK (f a) Q E) E"
  by (rule ext) (auto simp: wpK_def bindK_def split: option.splits sum.splits prod.splits)

lemma wp_get [wp]: "wpK (getK f) Q E = (\<lambda>s. Q (f s) s)"
  by (rule ext) (simp add: wpK_def getK_def)

lemma wp_mod [wp]: "wpK (modK f) Q E = (\<lambda>s. Q () (f s))"
  by (rule ext) (simp add: wpK_def modK_def)

lemma wp_assert [wp]: "wpK (assertK b) Q E = (\<lambda>s. b \<and> Q () s)"
  by (rule ext) (simp add: wpK_def assertK_def)

lemma wp_try [wp]: "wpK (tryK m) Q E = wpK m (\<lambda>a. Q (Inr a)) (\<lambda>e. Q (Inl e))"
  by (rule ext) (auto simp: wpK_def tryK_def split: option.splits sum.splits prod.splits)

lemma wp_result_Inl [wp]: "wpK (resultK (Inl e)) Q E = E e"
  by (rule ext) (simp add: wpK_def resultK_def)

lemma wp_result_Inr [wp]: "wpK (resultK (Inr a)) Q E = Q a"
  by (rule ext) (simp add: wpK_def resultK_def)

lemma wp_zoom [wp]:
  "wpK (zoomK get put m) Q E =
   (\<lambda>s. wpK m (\<lambda>a t. Q a (put t s)) (\<lambda>e t. E e (put t s)) (get s))"
  by (rule ext) (auto simp: wpK_def zoomK_def split: option.splits sum.splits prod.splits)

lemma wp_if [wp]:
  "wpK (if b then m else n) Q E = (\<lambda>s. if b then wpK m Q E s else wpK n Q E s)"
  by (rule ext) simp

lemma wp_kmalloc [wp]:
  "wpK (kmalloc sz) Q E =
   (\<lambda>m. Q (km_oracle m (km_calls m) sz) (m\<lparr>km_calls := Suc (km_calls m)\<rparr>))"
  by (rule ext) (simp add: wpK_def kmalloc_def)

lemma wp_mono:
  assumes "wpK m Q E s"
    and "\<And>a s'. Q a s' \<Longrightarrow> Q' a s'" and "\<And>e s'. E e s' \<Longrightarrow> E' e s'"
  shows "wpK m Q' E' s"
  using assms by (auto simp: wpK_def split: option.splits sum.splits prod.splits)

lemma wp_conj:
  assumes "wpK m Q E s" and "wpK m Q' E' s"
  shows "wpK m (\<lambda>a s'. Q a s' \<and> Q' a s') (\<lambda>e s'. E e s' \<and> E' e s') s"
  using assms by (auto simp: wpK_def split: option.splits sum.splits prod.splits)

text \<open>The same with panics allowed under a condition \<open>P\<close>.\<close>

definition wpP :: "bool \<Rightarrow> ('s, 'a) kern \<Rightarrow> ('a \<Rightarrow> 's \<Rightarrow> bool) \<Rightarrow> (errno \<Rightarrow> 's \<Rightarrow> bool) \<Rightarrow> 's \<Rightarrow> bool" where
  "wpP P m Q E s \<longleftrightarrow> (case m s of
       None \<Rightarrow> P
     | Some (Inl e, s') \<Rightarrow> E e s'
     | Some (Inr a, s') \<Rightarrow> Q a s')"

lemma wpP_wp: "wpK m Q E s \<Longrightarrow> wpP P m Q E s"
  by (auto simp: wpK_def wpP_def split: option.splits sum.splits prod.splits)

lemma wpP_bind: "wpK m (\<lambda>a. wpP P (f a) Q E) E s \<Longrightarrow> wpP P (bindK m f) Q E s"
  by (auto simp: wpK_def wpP_def bindK_def split: option.splits sum.splits prod.splits)

lemma wpP_bindP: "wpP P m (\<lambda>a. wpP P (f a) Q E) E s \<Longrightarrow> wpP P (bindK m f) Q E s"
  by (auto simp: wpP_def bindK_def split: option.splits sum.splits prod.splits)

lemma wpP_try: "wpP P m (\<lambda>a. Q (Inr a)) (\<lambda>e. Q (Inl e)) s \<Longrightarrow> wpP P (tryK m) Q E s"
  by (auto simp: wpP_def tryK_def split: option.splits sum.splits prod.splits) (metis sum.exhaust)

lemma wpP_weaken: "wpP P m Q E s \<Longrightarrow> (P \<Longrightarrow> P') \<Longrightarrow> wpP P' m Q E s"
  by (auto simp: wpP_def split: option.splits)

lemma wpP_mono:
  assumes "wpP P m Q E s"
    and "\<And>a s'. Q a s' \<Longrightarrow> Q' a s'" and "\<And>e s'. E e s' \<Longrightarrow> E' e s'"
  shows "wpP P m Q' E' s"
  using assms by (auto simp: wpP_def split: option.splits sum.splits prod.splits)

text \<open>The equations for it, as for \<open>wpK\<close>.\<close>

named_theorems wpp \<open>equations for runs that may panic\<close>

lemma wpP_ret_eq [wpp]: "wpP P (retK a) Q E = Q a"
  by (rule ext) (simp add: wpP_def retK_def)

lemma wpP_fail_eq [wpp]: "wpP P (failK e) Q E = E e"
  by (rule ext) (simp add: wpP_def failK_def)

lemma wpP_panic_eq [wpp]: "wpP P panicK Q E = (\<lambda>s. P)"
  by (rule ext) (simp add: wpP_def panicK_def)

lemma wpP_bind_eq [wpp]: "wpP P (bindK m f) Q E = wpP P m (\<lambda>a. wpP P (f a) Q E) E"
  by (rule ext) (auto simp: wpP_def bindK_def split: option.splits sum.splits prod.splits)

lemma wpP_get_eq [wpp]: "wpP P (getK f) Q E = (\<lambda>s. Q (f s) s)"
  by (rule ext) (simp add: wpP_def getK_def)

lemma wpP_mod_eq [wpp]: "wpP P (modK f) Q E = (\<lambda>s. Q () (f s))"
  by (rule ext) (simp add: wpP_def modK_def)

lemma wpP_assert_eq [wpp]: "wpP P (assertK b) Q E = (\<lambda>s. if b then Q () s else P)"
  by (rule ext) (simp add: wpP_def assertK_def)

lemma wpP_try_eq [wpp]: "wpP P (tryK m) Q E = wpP P m (\<lambda>a. Q (Inr a)) (\<lambda>e. Q (Inl e))"
  by (rule ext) (auto simp: wpP_def tryK_def split: option.splits sum.splits prod.splits)

lemma wpP_zoom_eq [wpp]:
  "wpP P (zoomK get put m) Q E = (\<lambda>s. wpP P m (\<lambda>a t. Q a (put t s)) (\<lambda>e t. E e (put t s)) (get s))"
  by (rule ext) (auto simp: wpP_def zoomK_def split: option.splits sum.splits prod.splits)

lemma wpP_if_eq [wpp]: "wpP P (if b then m else n) Q E = (\<lambda>s. if b then wpP P m Q E s else wpP P n Q E s)"
  by (rule ext) simp

lemma wpP_kmalloc_eq [wpp]:
  "wpP P (kmalloc sz) Q E = (\<lambda>s. Q (km_oracle s (km_calls s) sz) (s\<lparr>km_calls := Suc (km_calls s)\<rparr>))"
  by (rule ext) (simp add: wpP_def kmalloc_def)

text \<open>The rule for a loop that counts from \<open>a\<close> to \<open>c\<close>, with the invariant \<open>I\<close>.\<close>

lemma foldK_upt_wp:
  assumes "\<And>k b s. a \<le> k \<Longrightarrow> k < c \<Longrightarrow> I k b s \<Longrightarrow> wpK (f k b) (I (Suc k)) E s" and "a \<le> c" and "I a b s"
  shows "wpK (foldK f [a..<c] b) (I c) E s"
  using assms
proof (induction "c - a" arbitrary: a b s)
  case 0
  then show ?case by (simp add: wp_ret)
next
  case (Suc m)
  then have *: "[a..<c] = a # [Suc a..<c]" "a < c" by (simp_all add: upt_conv_Cons)
  show ?case unfolding *(1) foldK.simps wp_bind
    by (rule wp_mono [OF Suc.prems(1) [OF order_refl *(2) Suc.prems(3)]]) (use Suc *(2) in auto)
qed

text \<open>From a weakest precondition to the value the routine returns, and back.\<close>

lemma wp_returns: "wpK m Q E s \<Longrightarrow> \<exists>r s'. m s = Some (r, s')"
  by (auto simp: wpK_def split: option.splits)

lemma wp_Inr: "wpK m Q E s \<Longrightarrow> m s = Some (Inr a, s') \<Longrightarrow> Q a s'"
  by (simp add: wpK_def)

lemma wp_Inl: "wpK m Q E s \<Longrightarrow> m s = Some (Inl e, s') \<Longrightarrow> E e s'"
  by (simp add: wpK_def)

lemma wp_record: "wpK m Q E s \<Longrightarrow> wpK m Q (\<lambda>e s'. E e s' \<and> m s = Some (Inl e, s')) s"
  by (auto simp: wpK_def split: option.splits sum.splits prod.splits)

lemma wp_run:
  assumes "wpK m (\<lambda>a s'. m s = Some (Inr a, s') \<longrightarrow> Q a s') E s"
  shows "wpK m Q E s"
  using assms by (auto simp: wpK_def split: option.splits sum.splits prod.splits)

lemma wp_no_error:
  assumes "wpK m Q (\<lambda>_ _. False) s"
  shows "\<exists>a s'. m s = Some (Inr a, s') \<and> Q a s'"
  using assms
  by (auto simp: wpK_def split: option.splits sum.splits prod.splits) (metis sum.exhaust)

lemma wp_at: "m s = m' s \<Longrightarrow> wpK m Q E s = wpK m' Q E s"
  by (simp add: wpK_def)

lemma wp_eqI: "m s = Some (Inr a, s') \<Longrightarrow> Q a s' \<Longrightarrow> wpK m Q E s"
  by (simp add: wpK_def)

lemmas kern_defs =
  retK_def failK_def panicK_def bindK_def getK_def modK_def assertK_def tryK_def
  resultK_def zoomK_def

text \<open>C integers.\<close>

lemma u32_id [simp]: "n < 4294967296 \<Longrightarrow> u32 n = n"
  by (simp add: u32_def)

lemma u32_less [simp]: "u32 n < 4294967296"
  by (simp add: u32_def)

lemma u16_id [simp]: "n < 65536 \<Longrightarrow> u16 n = n"
  by (simp add: u16_def)

lemma s32_id [simp]: "- 2147483648 \<le> i \<Longrightarrow> i < 2147483648 \<Longrightarrow> s32 i = i"
  by (simp add: s32_def)

lemma s32_bounds: "- 2147483648 \<le> s32 i \<and> s32 i < 2147483648"
  by (simp add: s32_def)

lemma crem_nat [simp]: "crem (int a) (int b) = int (a mod b)"
  by (simp add: crem_def of_nat_mod sgn_if)

lemma cdiv_nat [simp]: "cdiv (int a) (int b) = int (a div b)"
  by (simp add: cdiv_def of_nat_div sgn_if)

lemma i2u32_nat [simp]: "i2u32 (int n) = u32 n"
  by (simp add: i2u32_def u32_def nat_mod_distrib)

lemma i2u32_less [simp]: "i2u32 i < 4294967296"
  using pos_mod_bound [of 4294967296 i] by (simp add: i2u32_def nat_less_iff)

lemma s32_add_left [simp]: "s32 (s32 i + j) = s32 (i + j)"
proof -
  have "(s32 i + j + 2147483648) mod 4294967296 = (i + 2147483648 + j) mod 4294967296"
    unfolding s32_def by (simp add: mod_add_left_eq)
  then show ?thesis by (simp add: s32_def ac_simps)
qed

lemma s32_u32: "s32 (int (u32 n)) = s32 (int n)"
  unfolding s32_def u32_def of_nat_mod by (simp add: mod_add_left_eq)

text \<open>Loops that count upwards: peel off the first index.\<close>

lemma all_from_Suc:
  "(a :: nat) < b \<Longrightarrow>
     (\<forall>j. a \<le> j \<and> j < b \<longrightarrow> P j) \<longleftrightarrow> P a \<and> (\<forall>j. Suc a \<le> j \<and> j < b \<longrightarrow> P j)"
  by (metis Suc_leD Suc_leI le_neq_implies_less order_refl)

text \<open>Lists.\<close>

lemma list_update_split:
  "i < length xs \<Longrightarrow> xs[i := v] = take i xs @ v # drop (Suc i) xs"
  by (rule upd_conv_take_nth_drop)

end
