(* ===== verification/Klock.thy ===== *)
theory Klock
  imports OS_Prelude
begin

text \<open>
  The lock structure of \<^verbatim>\<open>kern/include/synch.h\<close> and its creation and destruction,
  \<^verbatim>\<open>kern/thread/synch.c\<close>. \<^verbatim>\<open>available\<close> is declared as a pointer but holds the numbers 0 and 1;
  \<^verbatim>\<open>holder\<close> is the address of a thread, 0 for \<^verbatim>\<open>NULL\<close>. The name and the structure itself come from
  \<^verbatim>\<open>kmalloc\<close>, so that freeing them returns; they are not part of the model.
\<close>

record lock =
  lk_available :: nat
  lk_holder :: nat

definition lock_create :: "nat \<Rightarrow> (kmem, lock option) kern" where
  "lock_create namelen =
     bindK (kmalloc 12) (\<lambda>ok.
     if \<not> ok then retK None else
     bindK (kmalloc (Suc namelen)) (\<lambda>ok.
     if \<not> ok then retK None else
     retK (Some \<lparr>lk_available = 1, lk_holder = 0\<rparr>)))"

definition lock_destroy :: "lock \<Rightarrow> (kmem, unit) kern" where
  "lock_destroy lk =
     bindK (kfree (lk_available lk)) (\<lambda>_.
     kfree (lk_holder lk))"

text \<open>
  Property C34. Destroying a lock that nobody holds panics: \<^verbatim>\<open>lock_destroy\<close> passes the number 1 that
  marks the lock as available to \<^verbatim>\<open>kfree\<close>, which refuses it. (No page of the kernel heap is at
  address 0.)
\<close>

theorem lock_destroy_free_panics:
  assumes "km_pages m 0 = None" and "lk_available lk = 1"
  shows "lock_destroy lk m = None"
  using assms by (simp add: lock_destroy_def kfree_def bindK_def)

theorem lock_destroy_free_panics_witness:
  "(case lock_create 15 \<lparr>km_oracle = (\<lambda>_ _. True), km_calls = 0, km_pages = [2147483648 \<mapsto> 16]\<rparr> of
      Some (Inr (Some lk), m) \<Rightarrow> lock_destroy lk m = None
    | _ \<Rightarrow> False)"
  using lock_destroy_free_panics [of "\<lparr>km_oracle = (\<lambda>_ _. True), km_calls = Suc (Suc 0), km_pages = [2147483648 \<mapsto> 16]\<rparr>"
      "\<lparr>lk_available = 1, lk_holder = 0\<rparr>"]
  by (simp add: lock_create_def kmalloc_def bindK_def retK_def)

end
