(* ===== verification/Bitmap.thy ===== *)
theory Bitmap
  imports OS_Prelude
begin

unbundle bit_operations_syntax

text \<open>
  The bitmap manager, \<^verbatim>\<open>kern/lib/bitmap.c\<close>: an array of bits kept in bytes, used by SFS as
  the map of blocks in use. \<open>bits b\<close> is the set of bits that are on, \<open>bitmap_ok\<close> the
  representation invariant (the array has the right length, no 32-bit overflow in the size
  computation, and the leftover bits of the last byte are on, so that they are never handed
  out). The locale \<open>block_allocator\<close> is the contract SFS relies on; it is interpreted on
  the functions of this theory.

  An access to \<^verbatim>\<open>b->v\<close> outside the array is undefined in C; the model does not return.
\<close>

section \<open>Definitions\<close>

record bitmap =
  nbits :: nat
  bm_v :: "byte list"

definition bitmap_create :: "nat \<Rightarrow> (kmem, bitmap option) kern" where
  "bitmap_create nb =
     (let words = divroundup nb 8 in
      bindK (kmalloc 8) (\<lambda>ok.
      if \<not> ok then retK None else
      bindK (kmalloc words) (\<lambda>ok2.
      if \<not> ok2 then retK None else
      (let vs = replicate words 0 in
       if nb div 8 < words then
         (let ix = words - 1; overbits = nb - ix * 8 in
          bindK (assertK (nb div 8 = words - 1)) (\<lambda>_.
          bindK (assertK (overbits > 0 \<and> overbits < 8)) (\<lambda>_.
          retK (Some \<lparr>nbits = nb,
            bm_v = vs[ix := fold (\<lambda>j w. w OR push_bit j 1) [overbits..<8] (vs ! ix)]\<rparr>))))
       else retK (Some \<lparr>nbits = nb, bm_v = vs\<rparr>)))))"

definition bitmap_getdata :: "bitmap \<Rightarrow> byte list" where
  "bitmap_getdata b = bm_v b"

text \<open>The inner loop of \<^verbatim>\<open>bitmap_alloc\<close>: the first clear bit of a byte, from \<open>offset\<close> on.\<close>

function bitmap_alloc_bit :: "byte \<Rightarrow> nat \<Rightarrow> nat option" where
  "bitmap_alloc_bit w offset =
     (if offset < 8
      then if w AND push_bit offset 1 = 0 then Some offset else bitmap_alloc_bit w (Suc offset)
      else None)"
  by pat_completeness auto
termination
  by (relation "measure (\<lambda>(w, offset). 8 - offset)") auto

function bitmap_alloc_from :: "nat \<Rightarrow> nat \<Rightarrow> (bitmap, nat) kern" where
  "bitmap_alloc_from ix maxix b =
     (if ix < maxix then
        if length (bm_v b) \<le> ix then None
        else if bm_v b ! ix \<noteq> 0xff then
          (case bitmap_alloc_bit (bm_v b ! ix) 0 of
             None \<Rightarrow> None
           | Some offset \<Rightarrow>
               (let index = u32 (ix * 8 + offset);
                    b' = b\<lparr>bm_v := (bm_v b)[ix := bm_v b ! ix OR push_bit offset 1]\<rparr>
                in if index < nbits b then Some (Inr index, b') else None))
        else bitmap_alloc_from (Suc ix) maxix b
      else Some (Inl ENOSPC, b))"
  by pat_completeness auto
termination
  by (relation "measure (\<lambda>(ix, maxix, b). maxix - ix)") auto

definition bitmap_alloc :: "(bitmap, nat) kern" where
  "bitmap_alloc b = bitmap_alloc_from 0 (divroundup (nbits b) 8) b"

definition bitmap_translate :: "nat \<Rightarrow> nat \<times> byte" where
  "bitmap_translate bitno = (bitno div 8, push_bit (bitno mod 8) 1)"

definition bitmap_mark :: "nat \<Rightarrow> (bitmap, unit) kern" where
  "bitmap_mark index b =
     (case bitmap_translate index of (ix, msk) \<Rightarrow>
        if index < nbits b \<and> ix < length (bm_v b) \<and> bm_v b ! ix AND msk = 0
        then Some (Inr (), b\<lparr>bm_v := (bm_v b)[ix := bm_v b ! ix OR msk]\<rparr>)
        else None)"

definition bitmap_unmark :: "nat \<Rightarrow> (bitmap, unit) kern" where
  "bitmap_unmark index b =
     (case bitmap_translate index of (ix, msk) \<Rightarrow>
        if index < nbits b \<and> ix < length (bm_v b) \<and> bm_v b ! ix AND msk \<noteq> 0
        then Some (Inr (), b\<lparr>bm_v := (bm_v b)[ix := bm_v b ! ix AND NOT msk]\<rparr>)
        else None)"

definition bitmap_isset :: "nat \<Rightarrow> (bitmap, bool) kern" where
  "bitmap_isset index b =
     (case bitmap_translate index of (ix, msk) \<Rightarrow>
        if ix < length (bm_v b) then Some (Inr (bm_v b ! ix AND msk \<noteq> 0), b) else None)"

section \<open>Abstraction and invariant\<close>

definition bitat :: "bitmap \<Rightarrow> nat \<Rightarrow> bool" where
  "bitat b i \<longleftrightarrow> i div 8 < length (bm_v b) \<and> bit (bm_v b ! (i div 8)) (i mod 8)"

definition bits :: "bitmap \<Rightarrow> nat set" where
  "bits b = {i. i < nbits b \<and> bitat b i}"

definition bitmap_ok :: "bitmap \<Rightarrow> bool" where
  "bitmap_ok b \<longleftrightarrow> nbits b \<le> 4294967288 \<and> length (bm_v b) = (nbits b + 7) div 8 \<and>
     (\<forall>i. nbits b \<le> i \<and> i < 8 * length (bm_v b) \<longrightarrow> bitat b i)"

text \<open>Setting or clearing one bit, as a change of the abstract set.\<close>

definition bm_set :: "nat \<Rightarrow> bitmap \<Rightarrow> bitmap" where
  "bm_set i b = b\<lparr>bm_v := (bm_v b)[i div 8 := bm_v b ! (i div 8) OR 2 ^ (i mod 8)]\<rparr>"

definition bm_clear :: "nat \<Rightarrow> bitmap \<Rightarrow> bitmap" where
  "bm_clear i b = b\<lparr>bm_v := (bm_v b)[i div 8 := bm_v b ! (i div 8) AND NOT (2 ^ (i mod 8))]\<rparr>"

text \<open>What an allocator of block numbers promises its client.\<close>

locale block_allocator =
  fixes alloc :: "('m, nat) kern"
    and release :: "nat \<Rightarrow> ('m, unit) kern"
    and inuse :: "nat \<Rightarrow> ('m, bool) kern"
    and used :: "'m \<Rightarrow> nat set"
    and size_of :: "'m \<Rightarrow> nat"
    and invar :: "'m \<Rightarrow> bool"
  assumes alloc_spec: "invar m \<Longrightarrow>
      wpK alloc (\<lambda>i m'. i < size_of m \<and> i \<notin> used m \<and> used m' = insert i (used m) \<and>
                         size_of m' = size_of m \<and> invar m')
                (\<lambda>e m'. e = ENOSPC \<and> m' = m \<and> used m = {..<size_of m}) m"
    and release_spec: "invar m \<Longrightarrow> i \<in> used m \<Longrightarrow>
      wpK (release i) (\<lambda>_ m'. used m' = used m - {i} \<and> size_of m' = size_of m \<and> invar m')
                      (\<lambda>_ _. False) m"
    and inuse_spec: "invar m \<Longrightarrow> i < size_of m \<Longrightarrow> inuse i m = Some (Inr (i \<in> used m), m)"
    and used_bound: "invar m \<Longrightarrow> used m \<subseteq> {..<size_of m}"

text \<open>Allocating \<open>n\<close> times in a row, collecting the numbers handed out.\<close>

fun alloc_many :: "('m, nat) kern \<Rightarrow> nat \<Rightarrow> ('m, nat list) kern" where
  "alloc_many al 0 = retK []"
| "alloc_many al (Suc n) = bindK al (\<lambda>i. bindK (alloc_many al n) (\<lambda>is. retK (i # is)))"

section \<open>Lemmas\<close>

declare bitmap_alloc_bit.simps [simp del] bitmap_alloc_from.simps [simp del]

lemma byte_eq_iff: "(v :: byte) = w \<longleftrightarrow> (\<forall>j < 8. bit v j = bit w j)"
  using bit_word_eqI [of v w] by auto

lemma bit_pow2_byte: "bit ((2 :: byte) ^ j) k \<longleftrightarrow> j = k \<and> k < 8"
  by (auto simp: bit_exp_iff)

lemma and_mask_bit: "j < 8 \<Longrightarrow> (w AND (2 :: byte) ^ j = 0) \<longleftrightarrow> \<not> bit w j"
  by (auto simp: byte_eq_iff bit_and_iff bit_pow2_byte)

lemma bit_or_mask: "j < 8 \<Longrightarrow> bit (w OR (2 :: byte) ^ j) k \<longleftrightarrow> bit w k \<or> k = j"
  by (auto simp: bit_or_iff bit_pow2_byte)

lemma bit_andnot_mask:
  "k < 8 \<Longrightarrow> j < 8 \<Longrightarrow> bit (w AND NOT ((2 :: byte) ^ j)) k \<longleftrightarrow> bit w k \<and> k \<noteq> j"
  by (auto simp: bit_and_iff bit_not_iff bit_pow2_byte)

lemma byte_full: "(w :: byte) = 0xff \<longleftrightarrow> (\<forall>j < 8. bit w j)"
proof -
  have "(0xff :: byte) = mask 8"
    by (simp add: mask_eq_exp_minus_1)
  then show ?thesis
    by (auto simp: byte_eq_iff bit_mask_iff)
qed

lemma bitmap_alloc_bit_None:
  "bitmap_alloc_bit w off = None \<longleftrightarrow> (\<forall>j. off \<le> j \<and> j < 8 \<longrightarrow> bit w j)"
proof (induction w off rule: bitmap_alloc_bit.induct)
  case (1 w off)
  show ?case
  proof (cases "off < 8 \<and> bit w off")
    case True
    then have "bitmap_alloc_bit w off = bitmap_alloc_bit w (Suc off)"
      by (subst bitmap_alloc_bit.simps) (simp add: and_mask_bit)
    moreover have "(\<forall>j. Suc off \<le> j \<and> j < 8 \<longrightarrow> bit w j) \<longleftrightarrow> (\<forall>j. off \<le> j \<and> j < 8 \<longrightarrow> bit w j)"
      using True by (simp add: all_from_Suc [of off])
    moreover have "bitmap_alloc_bit w (Suc off) = None \<longleftrightarrow> (\<forall>j. Suc off \<le> j \<and> j < 8 \<longrightarrow> bit w j)"
      using True by (intro "1.IH") (simp_all add: and_mask_bit)
    ultimately show ?thesis
      by simp
  next
    case False
    then show ?thesis
      by (subst bitmap_alloc_bit.simps) (auto simp: and_mask_bit)
  qed
qed

lemma bitmap_alloc_bit_Some:
  "bitmap_alloc_bit w off = Some k \<Longrightarrow>
     off \<le> k \<and> k < 8 \<and> \<not> bit w k \<and> (\<forall>j. off \<le> j \<and> j < k \<longrightarrow> bit w j)"
proof (induction w off rule: bitmap_alloc_bit.induct)
  case (1 w off)
  show ?case
  proof (cases "off < 8 \<and> bit w off")
    case True
    then have "bitmap_alloc_bit w off = bitmap_alloc_bit w (Suc off)"
      by (subst bitmap_alloc_bit.simps) (simp add: and_mask_bit)
    with "1.prems" have eq: "bitmap_alloc_bit w (Suc off) = Some k"
      by simp
    have "Suc off \<le> k \<and> k < 8 \<and> \<not> bit w k \<and> (\<forall>j. Suc off \<le> j \<and> j < k \<longrightarrow> bit w j)"
      using True eq by (intro "1.IH") (simp_all add: and_mask_bit)
    with True show ?thesis
      using all_from_Suc [of off k "bit w"] by (simp add: Suc_le_eq)
  next
    case False
    with "1.prems" show ?thesis
      by (subst (asm) bitmap_alloc_bit.simps) (auto simp: and_mask_bit split: if_splits)
  qed
qed

lemma bitat_set:
  assumes "i div 8 < length (bm_v b)"
  shows "bitat (b\<lparr>bm_v := (bm_v b)[i div 8 := bm_v b ! (i div 8) OR 2 ^ (i mod 8)]\<rparr>) j \<longleftrightarrow>
    bitat b j \<or> j = i"
proof -
  have "j div 8 = i div 8 \<Longrightarrow> j mod 8 = i mod 8 \<Longrightarrow> j = i"
    by (metis div_mult_mod_eq)
  with assms show ?thesis
    by (auto simp: bitat_def nth_list_update bit_or_mask)
qed

lemma bitat_clear:
  assumes "i div 8 < length (bm_v b)"
  shows "bitat (b\<lparr>bm_v := (bm_v b)[i div 8 := bm_v b ! (i div 8) AND NOT (2 ^ (i mod 8))]\<rparr>) j \<longleftrightarrow>
    bitat b j \<and> j \<noteq> i"
proof -
  have "j div 8 = i div 8 \<Longrightarrow> j mod 8 = i mod 8 \<Longrightarrow> j = i"
    by (metis div_mult_mod_eq)
  with assms show ?thesis
    by (auto simp: bitat_def nth_list_update bit_andnot_mask)
qed

lemma bitmap_ok_index: "bitmap_ok b \<Longrightarrow> i < nbits b \<Longrightarrow> i div 8 < length (bm_v b)"
  by (auto simp: bitmap_ok_def)

lemma divroundup_8: "n \<le> 4294967288 \<Longrightarrow> divroundup n 8 = (n + 7) div 8"
  by (simp add: divroundup_def)

lemma bm_set_simps [simp]:
  "nbits (bm_set i b) = nbits b" "length (bm_v (bm_set i b)) = length (bm_v b)"
  by (simp_all add: bm_set_def)

lemma bm_clear_simps [simp]:
  "nbits (bm_clear i b) = nbits b" "length (bm_v (bm_clear i b)) = length (bm_v b)"
  by (simp_all add: bm_clear_def)

lemma bits_bm_set:
  "bitmap_ok b \<Longrightarrow> i < nbits b \<Longrightarrow> bits (bm_set i b) = insert i (bits b)"
  by (auto simp: bits_def bm_set_def bitat_set bitmap_ok_index)

lemma bits_bm_clear:
  "bitmap_ok b \<Longrightarrow> i < nbits b \<Longrightarrow> bits (bm_clear i b) = bits b - {i}"
  by (auto simp: bits_def bm_clear_def bitat_clear bitmap_ok_index)

lemma bitmap_ok_bm_set: "bitmap_ok b \<Longrightarrow> i < nbits b \<Longrightarrow> bitmap_ok (bm_set i b)"
  using bitmap_ok_index [of b i] by (auto simp: bitmap_ok_def bm_set_def bitat_set)

lemma bitmap_ok_bm_clear: "bitmap_ok b \<Longrightarrow> i < nbits b \<Longrightarrow> bitmap_ok (bm_clear i b)"
  using bitmap_ok_index [of b i] by (auto simp: bitmap_ok_def bm_clear_def bitat_clear)

lemma bits_bound: "bits b \<subseteq> {..<nbits b}"
  by (auto simp: bits_def)

subsection \<open>Allocation\<close>

lemma bitat_byte: "k < 8 \<Longrightarrow> ix < length (bm_v b) \<Longrightarrow> bitat b (ix * 8 + k) \<longleftrightarrow> bit (bm_v b ! ix) k"
  by (simp add: bitat_def)

lemma bitat_below_Suc:
  assumes "\<forall>i < 8 * ix. bitat b i" and "\<forall>k < n. bit (bm_v b ! ix) k" and "n \<le> 8"
    and "ix < length (bm_v b)"
  shows "\<forall>i < ix * 8 + n. bitat b i"
proof (intro allI impI)
  fix i assume i: "i < ix * 8 + n"
  show "bitat b i"
  proof (cases "i < 8 * ix")
    case True
    with assms(1) show ?thesis by simp
  next
    case False
    then obtain k where "i = ix * 8 + k"
      by (metis le_Suc_ex linorder_not_le mult.commute)
    with i assms(2-4) bitat_byte [of k ix b] show ?thesis by simp
  qed
qed

lemma bitmap_full: "bitmap_ok b \<Longrightarrow> bits b = {..<nbits b} \<longleftrightarrow> (\<forall>i < 8 * length (bm_v b). bitat b i)"
  by (fastforce simp: bits_def bitmap_ok_def set_eq_iff not_le)

text \<open>The scan from byte \<open>ix\<close> on, when everything below is in use: the lowest free bit, or full.\<close>

lemma bitmap_alloc_from_spec:
  assumes "bitmap_ok b" and "m = length (bm_v b)" and "\<forall>i < 8 * ix. bitat b i" and "ix \<le> m"
  shows "(bits b = {..<nbits b} \<and> bitmap_alloc_from ix m b = Some (Inl ENOSPC, b)) \<or>
         (\<exists>i < nbits b. bitmap_alloc_from ix m b = Some (Inr i, bm_set i b) \<and> \<not> bitat b i \<and>
            (\<forall>j < i. bitat b j))"
  using assms
proof (induction ix m b rule: bitmap_alloc_from.induct)
  case (1 ix m b)
  note ok = "1.prems"(1) and m = "1.prems"(2) and below = "1.prems"(3)
  consider (past) "m \<le> ix" | (full) "ix < m" "bm_v b ! ix = 0xff" | (free) "ix < m" "bm_v b ! ix \<noteq> 0xff"
    by linarith
  then show ?case
  proof cases
    case past
    with "1.prems" have "bits b = {..<nbits b}"
      by (simp add: bitmap_full)
    moreover have "bitmap_alloc_from ix m b = Some (Inl ENOSPC, b)"
      using past by (subst bitmap_alloc_from.simps) simp
    ultimately show ?thesis by simp
  next
    case full
    then have "\<forall>i < 8 * Suc ix. bitat b i"
      using bitat_below_Suc [OF below, of 8] m byte_full [of "bm_v b ! ix"] by simp
    moreover have "bitmap_alloc_from ix m b = bitmap_alloc_from (Suc ix) m b"
      using full m by (subst bitmap_alloc_from.simps) simp
    ultimately show ?thesis
      using "1.IH" full ok m by simp
  next
    case free
    then obtain k where k: "bitmap_alloc_bit (bm_v b ! ix) 0 = Some k"
      using bitmap_alloc_bit_None [of "bm_v b ! ix" 0] byte_full [of "bm_v b ! ix"]
      by (cases "bitmap_alloc_bit (bm_v b ! ix) 0") auto
    let ?i = "ix * 8 + k"
    have kprops: "k < 8" "\<not> bit (bm_v b ! ix) k" "\<forall>j < k. bit (bm_v b ! ix) j"
      using bitmap_alloc_bit_Some [OF k] by auto
    have clear: "\<not> bitat b ?i" and low: "\<forall>j < ?i. bitat b j"
      using kprops free m bitat_byte [of k ix b] bitat_below_Suc [OF below kprops(3)] by auto
    have "?i < 8 * length (bm_v b)"
      using free m kprops(1) by simp
    with clear ok have lt: "?i < nbits b"
      unfolding bitmap_ok_def by (metis linorder_not_le)
    with ok have "u32 ?i = ?i"
      by (simp add: bitmap_ok_def)
    with free m k lt kprops(1) have "bitmap_alloc_from ix m b = Some (Inr ?i, bm_set ?i b)"
      by (subst bitmap_alloc_from.simps) (simp add: bm_set_def)
    with lt clear low show ?thesis by blast
  qed
qed

lemma bitmap_alloc_cases:
  assumes "bitmap_ok b"
  shows "(bits b = {..<nbits b} \<and> bitmap_alloc b = Some (Inl ENOSPC, b)) \<or>
         (\<exists>i < nbits b. bitmap_alloc b = Some (Inr i, bm_set i b) \<and> i \<notin> bits b \<and> (\<forall>j < i. j \<in> bits b))"
  using assms bitmap_alloc_from_spec [OF assms, of "length (bm_v b)" 0]
  by (auto simp: bitmap_alloc_def bitmap_ok_def divroundup_8 bits_def)

subsection \<open>Marking, unmarking, testing\<close>

lemma bitmap_isset_eq:
  "bitmap_ok b \<Longrightarrow> i < nbits b \<Longrightarrow> bitmap_isset i b = Some (Inr (i \<in> bits b), b)"
  by (simp add: bitmap_isset_def bitmap_translate_def bits_def bitat_def and_mask_bit bitmap_ok_index)

lemma bitmap_mark_eq:
  "bitmap_ok b \<Longrightarrow> i < nbits b \<Longrightarrow> i \<notin> bits b \<Longrightarrow> bitmap_mark i b = Some (Inr (), bm_set i b)"
  by (simp add: bitmap_mark_def bitmap_translate_def bits_def bitat_def and_mask_bit bitmap_ok_index
      bm_set_def)

lemma bitmap_unmark_eq:
  "bitmap_ok b \<Longrightarrow> i \<in> bits b \<Longrightarrow> bitmap_unmark i b = Some (Inr (), bm_clear i b)"
  by (simp add: bitmap_unmark_def bitmap_translate_def bits_def bitat_def and_mask_bit bm_clear_def)

subsection \<open>Creation\<close>

lemma bit_fold_or:
  "n \<le> 8 \<Longrightarrow> bit (fold (\<lambda>j w. w OR (2 :: byte) ^ j) [a..<n] w) k \<longleftrightarrow> bit w k \<or> (a \<le> k \<and> k < n)"
  by (induction n) (auto simp: bit_or_mask less_Suc_eq)

text \<open>The map \<^verbatim>\<open>bitmap_create\<close> builds: all bits off, the leftover ones on.\<close>

definition bm_new :: "nat \<Rightarrow> bitmap" where
  "bm_new nb = \<lparr>nbits = nb, bm_v = (replicate ((nb + 7) div 8) 0)
      [nb div 8 := fold (\<lambda>j w. w OR 2 ^ j) [nb mod 8..<8] 0]\<rparr>"

lemma bitat_bm_new:
  "bitat (bm_new nb) i \<longleftrightarrow> nb \<le> i \<and> i < 8 * ((nb + 7) div 8)"
proof (cases "i div 8 < (nb + 7) div 8")
  case True
  then have lt: "i < 8 * ((nb + 7) div 8)"
    by (simp add: div_less_iff_less_mult mult.commute)
  have "(nb + 7) div 8 \<le> Suc (nb div 8)" by presburger
  with True have "i div 8 \<le> nb div 8" by linarith
  then consider "i div 8 = nb div 8" | "i div 8 < nb div 8" by linarith
  then show ?thesis
  proof cases
    case 1
    then have "nb mod 8 \<le> i mod 8 \<longleftrightarrow> nb \<le> i"
      by (metis add_le_cancel_left mult_div_mod_eq)
    with 1 True lt show ?thesis by (simp add: bitat_def bm_new_def bit_fold_or)
  next
    case 2
    then have "\<not> nb \<le> i" by (auto dest: div_le_mono [of nb i 8])
    with 2 True show ?thesis by (simp add: bitat_def bm_new_def)
  qed
next
  case False
  then have "\<not> i < 8 * ((nb + 7) div 8)"
    by (simp add: div_less_iff_less_mult mult.commute)
  with False show ?thesis by (simp add: bitat_def bm_new_def)
qed

lemma bitmap_ok_new: "nb \<le> 4294967288 \<Longrightarrow> bitmap_ok (bm_new nb) \<and> bits (bm_new nb) = {}"
  by (auto simp: bitmap_ok_def bits_def bitat_bm_new) (simp_all add: bm_new_def)

lemma bm_new_whole: "nb mod 8 = 0 \<Longrightarrow> bm_new nb = \<lparr>nbits = nb, bm_v = replicate (nb div 8) 0\<rparr>"
  by (auto simp: bm_new_def list_update_beyond)

lemma bitmap_create_eq:
  assumes "nb \<le> 4294967288"
  shows "wpK (bitmap_create nb) (\<lambda>r m'. r = (if km_oracle m (km_calls m) 8 \<and>
             km_oracle m (Suc (km_calls m)) ((nb + 7) div 8) then Some (bm_new nb) else None))
           (\<lambda>_ _. False) m"
proof (cases "nb mod 8 = 0")
  case True
  then have "(nb + 7) div 8 = nb div 8" by presburger
  then show ?thesis
    using True assms by (simp add: bitmap_create_def divroundup_8 Let_def wp bm_new_whole)
next
  case False
  then have "(nb + 7) div 8 = Suc (nb div 8)" "8 * (nb div 8) < nb" by presburger+
  then show ?thesis
    using False assms
    by (simp add: bitmap_create_def divroundup_8 Let_def wp bm_new_def minus_mult_div_eq_mod
        mult.commute [of _ 8] del: replicate.simps)
qed

section \<open>The allocator contract\<close>

context block_allocator begin

lemma alloc_many_spec:
  "invar m \<Longrightarrow>
     wpK (alloc_many alloc n)
       (\<lambda>is m'. length is = n \<and> distinct is \<and> set is \<subseteq> {..<size_of m} - used m \<and>
          used m' = used m \<union> set is \<and> size_of m' = size_of m \<and> invar m')
       (\<lambda>e m'. e = ENOSPC \<and> used m' = {..<size_of m} \<and> size_of m' = size_of m \<and> invar m') m"
proof (induction n arbitrary: m)
  case 0
  then show ?case by (simp add: wp)
next
  case (Suc n)
  show ?case
    unfolding alloc_many.simps wp_bind wp_ret
  proof (rule wp_mono [OF alloc_spec [OF Suc.prems]])
    fix i m'
    assume m': "i < size_of m \<and> i \<notin> used m \<and> used m' = insert i (used m) \<and>
      size_of m' = size_of m \<and> invar m'"
    then have "invar m'" by simp
    from Suc.IH [OF this]
    show "wpK (alloc_many alloc n) (\<lambda>is m''. length (i # is) = Suc n \<and> distinct (i # is) \<and>
        set (i # is) \<subseteq> {..<size_of m} - used m \<and> used m'' = used m \<union> set (i # is) \<and>
        size_of m'' = size_of m \<and> invar m'')
      (\<lambda>e m''. e = ENOSPC \<and> used m'' = {..<size_of m} \<and> size_of m'' = size_of m \<and> invar m'') m'"
      by (rule wp_mono) (use m' in auto)
  qed (use Suc.prems in auto)
qed

lemma alloc_release:
  assumes "invar m"
  shows "wpK (bindK alloc release) (\<lambda>_ m'. used m' = used m \<and> invar m') (\<lambda>e m'. e = ENOSPC \<and> m' = m) m"
  unfolding wp_bind
proof (rule wp_mono [OF alloc_spec [OF assms]])
  fix i m'
  assume m': "i < size_of m \<and> i \<notin> used m \<and> used m' = insert i (used m) \<and>
    size_of m' = size_of m \<and> invar m'"
  then have "wpK (release i) (\<lambda>_ m''. used m'' = used m' - {i} \<and> size_of m'' = size_of m' \<and> invar m'')
      (\<lambda>_ _. False) m'"
    by (intro release_spec) auto
  then show "wpK (release i) (\<lambda>_ m'. used m' = used m \<and> invar m') (\<lambda>e m'. e = ENOSPC \<and> m' = m) m'"
    by (rule wp_mono) (use m' in auto)
qed auto

end

lemma bitmap_alloc_wp:
  assumes ok: "bitmap_ok m"
  shows "wpK bitmap_alloc (\<lambda>i m'. i < nbits m \<and> i \<notin> bits m \<and> bits m' = insert i (bits m) \<and>
          nbits m' = nbits m \<and> bitmap_ok m')
        (\<lambda>e m'. e = ENOSPC \<and> m' = m \<and> bits m = {..<nbits m}) m"
  using bitmap_alloc_cases [OF ok]
proof
  assume "bits m = {..<nbits m} \<and> bitmap_alloc m = Some (Inl ENOSPC, m)"
  then show ?thesis by (simp add: wpK_def)
next
  assume "\<exists>i < nbits m. bitmap_alloc m = Some (Inr i, bm_set i m) \<and> i \<notin> bits m \<and> (\<forall>j < i. j \<in> bits m)"
  then obtain i where i: "i < nbits m" "bitmap_alloc m = Some (Inr i, bm_set i m)" "i \<notin> bits m"
    by blast
  moreover have "nbits (bm_set i m) = nbits m" by (simp add: bm_set_def)
  ultimately show ?thesis
    using bits_bm_set [OF ok i(1)] bitmap_ok_bm_set [OF ok i(1)] by (simp add: wpK_def)
qed

lemma bitmap_unmark_wp:
  assumes "bitmap_ok m" "i \<in> bits m"
  shows "wpK (bitmap_unmark i) (\<lambda>_ m'. bits m' = bits m - {i} \<and> nbits m' = nbits m \<and> bitmap_ok m')
      (\<lambda>_ _. False) m"
proof -
  have "i < nbits m" using assms by (simp add: bits_def)
  moreover have "nbits (bm_clear i m) = nbits m" by (simp add: bm_clear_def)
  ultimately show ?thesis
    using assms by (simp add: wpK_def bitmap_unmark_eq bits_bm_clear bitmap_ok_bm_clear)
qed

interpretation bmap: block_allocator bitmap_alloc bitmap_unmark bitmap_isset bits nbits bitmap_ok
  by unfold_locales (simp_all only: bitmap_alloc_wp bitmap_unmark_wp bitmap_isset_eq bits_bound)

section \<open>Properties\<close>

text \<open>
  Allocation from a map that has a free bit returns the lowest one, in range, turns on
  exactly that bit and keeps the invariant; it does not panic and does not fail.
\<close>

theorem bitmap_alloc_lowest:
  assumes "bitmap_ok b" and "bits b \<noteq> {..<nbits b}"
  shows "\<exists>i b'. bitmap_alloc b = Some (Inr i, b') \<and> i < nbits b \<and> i = (LEAST j. j \<notin> bits b) \<and>
     bits b' = insert i (bits b) \<and> nbits b' = nbits b \<and> bitmap_ok b'"
proof -
  obtain i where i: "i < nbits b" "bitmap_alloc b = Some (Inr i, bm_set i b)" "i \<notin> bits b"
      "\<forall>j < i. j \<in> bits b"
    using bitmap_alloc_cases [OF assms(1)] assms(2) by blast
  then have "(LEAST j. j \<notin> bits b) = i"
    by (intro Least_equality) (auto simp: not_less [symmetric])
  moreover have "nbits (bm_set i b) = nbits b" by (simp add: bm_set_def)
  ultimately show ?thesis
    using i bits_bm_set [OF assms(1) i(1)] bitmap_ok_bm_set [OF assms(1) i(1)] by blast
qed

lemma bitmap_ok_11: "bitmap_ok \<lparr>nbits = 11, bm_v = [255, 0xf9]\<rparr>"
proof -
  have "bitat \<lparr>nbits = 11, bm_v = [255, 0xf9]\<rparr> i" if "11 \<le> i" "i < 16" for i :: nat
  proof -
    have "i = 11 \<or> i = 12 \<or> i = 13 \<or> i = 14 \<or> i = 15" using that by arith
    then show ?thesis by (elim disjE) (simp_all add: bitat_def bit_iff_odd_drop_bit)
  qed
  then show ?thesis by (simp add: bitmap_ok_def)
qed

theorem bitmap_alloc_lowest_witness:
  "\<exists>i b'. bitmap_alloc \<lparr>nbits = 11, bm_v = [255, 0xf9]\<rparr> = Some (Inr i, b') \<and> i < 11 \<and>
     i = (LEAST j. j \<notin> bits \<lparr>nbits = 11, bm_v = [255, 0xf9]\<rparr>) \<and> bitmap_ok b'"
proof -
  let ?b = "\<lparr>nbits = 11, bm_v = [255, 0xf9]\<rparr>"
  have "9 \<notin> bits ?b"
    by (simp add: bits_def bitat_def bit_iff_odd_drop_bit)
  moreover have "9 \<in> {..<nbits ?b}" by simp
  ultimately have "bits ?b \<noteq> {..<nbits ?b}" by metis
  from bitmap_alloc_lowest [OF bitmap_ok_11 this] show ?thesis
    unfolding bitmap.select_convs(1) by blast
qed

text \<open>
  Property C27. However often the map is asked for a bit, it never hands out the same one twice, never one
  that was on or one out of range; when it reports \<^verbatim>\<open>ENOSPC\<close> every bit is on.
\<close>

theorem bitmap_alloc_distinct:
  assumes "bitmap_ok b"
  shows "wpK (alloc_many bitmap_alloc n)
       (\<lambda>is b'. length is = n \<and> distinct is \<and> set is \<subseteq> {..<nbits b} - bits b \<and>
          bits b' = bits b \<union> set is \<and> nbits b' = nbits b \<and> bitmap_ok b')
       (\<lambda>e b'. e = ENOSPC \<and> bits b' = {..<nbits b} \<and> nbits b' = nbits b \<and> bitmap_ok b') b"
  by (rule bmap.alloc_many_spec [OF assms])

theorem bitmap_alloc_distinct_witness:
  "wpK (alloc_many bitmap_alloc 2) (\<lambda>is b'. length is = 2 \<and> distinct is \<and> set is \<subseteq> {..<11}) (\<lambda>e b'. e = ENOSPC)
     \<lparr>nbits = 11, bm_v = [255, 0xf9]\<rparr>"
  by (rule wp_mono [OF bitmap_alloc_distinct [OF bitmap_ok_11]]) auto

text \<open>
  A fresh map of up to 2^32 - 8 bits has every bit off and satisfies the invariant, leftover
  bits included; the only other outcome is \<^verbatim>\<open>NULL\<close>, and only when an allocation failed.
\<close>

theorem bitmap_create_empty:
  assumes "nb \<le> 4294967288"
  shows "wpK (bitmap_create nb)
      (\<lambda>r m'. (\<exists>b. r = Some b \<and> nbits b = nb \<and> bits b = {} \<and> bitmap_ok b) \<or>
         (r = None \<and> (\<exists>c sz. \<not> km_oracle m c sz)))
      (\<lambda>_ _. False) m"
proof (rule wp_mono [OF bitmap_create_eq [OF assms]])
  have "nbits (bm_new nb) = nb" by (simp add: bm_new_def)
  then show "(\<exists>b. r = Some b \<and> nbits b = nb \<and> bits b = {} \<and> bitmap_ok b) \<or>
         (r = None \<and> (\<exists>c sz. \<not> km_oracle m c sz))"
    if "r = (if km_oracle m (km_calls m) 8 \<and> km_oracle m (Suc (km_calls m)) ((nb + 7) div 8)
             then Some (bm_new nb) else None)" for r
    using that bitmap_ok_new [OF assms] by (auto split: if_splits)
qed

theorem bitmap_create_empty_witness:
  "wpK (bitmap_create 1003) (\<lambda>r m'. \<exists>b. r = Some b \<and> nbits b = 1003 \<and> bits b = {}) (\<lambda>_ _. False)
     \<lparr>km_oracle = (\<lambda>_ _. True), km_calls = 0, km_pages = Map.empty\<rparr>"
proof (rule wp_mono [OF bitmap_create_empty])
  show "(1003 :: nat) \<le> 4294967288" by simp
qed (unfold kmem.select_convs, blast+)

end
