(* ===== verification/Karray.thy ===== *)
theory Karray
  imports OS_Prelude
begin

text \<open>
  The resizable array of pointers, \<^verbatim>\<open>kern/lib/array.c\<close>. The block \<^verbatim>\<open>a->v\<close> points to is a list of
  cells; a cell is \<open>None\<close> as long as nothing was stored in it (memory from \<^verbatim>\<open>kmalloc\<close> is not
  cleared), and reading such a cell, or one outside the block, does not return in the model.
  \<^verbatim>\<open>int\<close> arithmetic that can leave the 32-bit range is wrapped by \<open>s32\<close>. Every function that
  allocates takes the outcome of \<^verbatim>\<open>kmalloc\<close> as an oracle.

  \<open>array_rep a xs\<close> relates the concrete array to the list it holds; the locale \<open>dyn_array\<close>
  is the contract clients rely on, interpreted on the functions below.
\<close>

section \<open>Definitions\<close>

record 'a karray =
  arr_num :: int
  arr_max :: int
  arr_v :: "'a option list option"

definition array_create :: "kmalloc_oracle \<Rightarrow> 'a karray option" where
  "array_create km = (if km 12 then Some \<lparr>arr_num = 0, arr_max = 0, arr_v = None\<rparr> else None)"

definition array_getnum :: "'a karray \<Rightarrow> int" where
  "array_getnum a = arr_num a"

text \<open>\<^verbatim>\<open>a->v[i]\<close> as an rvalue and as an lvalue.\<close>

definition cell_read :: "'a option list option \<Rightarrow> int \<Rightarrow> 'a option" where
  "cell_read v i = (case v of
       None \<Rightarrow> None
     | Some c \<Rightarrow> if 0 \<le> i \<and> i < int (length c) then c ! nat i else None)"

definition cell_write :: "'a option list option \<Rightarrow> int \<Rightarrow> 'a \<Rightarrow> 'a option list option" where
  "cell_write v i x = (case v of
       None \<Rightarrow> None
     | Some c \<Rightarrow> if 0 \<le> i \<and> i < int (length c) then Some (c[nat i := Some x]) else None)"

definition array_getguy :: "int \<Rightarrow> ('a karray, 'a) kern" where
  "array_getguy index a =
     (if arr_num a \<le> arr_max a \<and> 0 \<le> index \<and> index < arr_num a
      then (case cell_read (arr_v a) index of None \<Rightarrow> None | Some x \<Rightarrow> Some (Inr x, a))
      else None)"

text \<open>The loop \<^verbatim>\<open>while (nguys > newmax) newmax = (newmax+1)*2\<close>.\<close>

partial_function (option) array_newmax :: "int \<Rightarrow> int \<Rightarrow> int option" where
  "array_newmax nguys newmax =
     (if nguys > newmax then array_newmax nguys (s32 ((newmax + 1) * 2)) else Some newmax)"

text \<open>The loop \<^verbatim>\<open>for (i=0; i<a->num; i++) newv[i] = a->v[i]\<close>, from the \<open>i\<close>th cell on.\<close>

fun array_copy :: "nat \<Rightarrow> nat \<Rightarrow> 'a option list \<Rightarrow> 'a option list \<Rightarrow> 'a option list option" where
  "array_copy 0 i oldv newv = Some newv"
| "array_copy (Suc n) i oldv newv =
     (if i < length oldv \<and> i < length newv
      then array_copy n (Suc i) oldv (newv[i := oldv ! i])
      else None)"

definition array_preallocate :: "kmalloc_oracle \<Rightarrow> int \<Rightarrow> ('a karray, unit) kern" where
  "array_preallocate km nguys a =
     (if \<not> (0 \<le> arr_num a \<and> arr_num a \<le> arr_max a) then None else
      case array_newmax nguys (arr_max a) of
        None \<Rightarrow> None
      | Some newmax \<Rightarrow>
          (let bytes = nat (newmax * 4 mod 4294967296) in
           if \<not> km bytes then Some (Inl ENOMEM, a) else
           case array_copy (nat (arr_num a)) 0 (case arr_v a of None \<Rightarrow> [] | Some c \<Rightarrow> c)
                  (replicate (bytes div 4) None) of
             None \<Rightarrow> None
           | Some newv \<Rightarrow> Some (Inr (), a\<lparr>arr_max := newmax, arr_v := Some newv\<rparr>)))"

definition array_setsize :: "kmalloc_oracle \<Rightarrow> int \<Rightarrow> ('a karray, unit) kern" where
  "array_setsize km nguys a =
     (if \<not> (0 \<le> arr_num a \<and> arr_num a \<le> arr_max a) then None
      else if nguys > arr_max a then
        bindK (array_preallocate km nguys) (\<lambda>_. modK (\<lambda>a. a\<lparr>arr_num := nguys\<rparr>)) a
      else if nguys = 0 \<and> arr_max a > 16 then
        bindK (assertK (arr_v a \<noteq> None)) (\<lambda>_.
          modK (\<lambda>a. a\<lparr>arr_v := None, arr_max := 0, arr_num := nguys\<rparr>)) a
      else modK (\<lambda>a. a\<lparr>arr_num := nguys\<rparr>) a)"

definition array_setguy :: "int \<Rightarrow> 'a \<Rightarrow> ('a karray, unit) kern" where
  "array_setguy index ptr a =
     (if arr_num a \<le> arr_max a \<and> 0 \<le> index \<and> index < arr_num a
      then (case cell_write (arr_v a) index ptr of
              None \<Rightarrow> None | Some c \<Rightarrow> Some (Inr (), a\<lparr>arr_v := Some c\<rparr>))
      else None)"

definition array_add :: "kmalloc_oracle \<Rightarrow> 'a \<Rightarrow> ('a karray, unit) kern" where
  "array_add km guy a =
     (let ix = arr_num a in
      bindK (array_setsize km (s32 (ix + 1))) (\<lambda>_ a.
        case cell_write (arr_v a) ix guy of
          None \<Rightarrow> None | Some c \<Rightarrow> Some (Inr (), a\<lparr>arr_v := Some c\<rparr>)) a)"

text \<open>\<^verbatim>\<open>memmove(v + dst, v + src, n * sizeof(void *))\<close> inside one block.\<close>

definition cells_move :: "nat \<Rightarrow> nat \<Rightarrow> nat \<Rightarrow> 'a list \<Rightarrow> 'a list option" where
  "cells_move dst src n c =
     (if n = 0 then Some c
      else if dst + n \<le> length c \<and> src + n \<le> length c
      then Some (take dst c @ take n (drop src c) @ drop (dst + n) c) else None)"

definition array_remove :: "int \<Rightarrow> ('a karray, unit) kern" where
  "array_remove index a =
     (if arr_num a \<le> arr_max a \<and> 0 \<le> index \<and> index < arr_num a
      then (let nmove = arr_num a - (index + 1) in
            case arr_v a of
              None \<Rightarrow> None
            | Some c \<Rightarrow> (case cells_move (nat index) (nat (index + 1)) (nat nmove) c of
                 None \<Rightarrow> None
               | Some c' \<Rightarrow> Some (Inr (), a\<lparr>arr_v := Some c', arr_num := arr_num a - 1\<rparr>)))
      else None)"

section \<open>Abstraction and contract\<close>

definition array_cells :: "'a karray \<Rightarrow> 'a option list" where
  "array_cells a = (case arr_v a of None \<Rightarrow> [] | Some c \<Rightarrow> c)"

text \<open>The array is well formed and holds \<open>xs\<close>.\<close>

definition array_ok :: "'a karray \<Rightarrow> bool" where
  "array_ok a \<longleftrightarrow> 0 \<le> arr_num a \<and> arr_num a \<le> arr_max a \<and> arr_max a < 1073741824 \<and>
     (arr_v a = None \<longrightarrow> arr_max a = 0) \<and> int (length (array_cells a)) = arr_max a"

definition array_rep :: "'a karray \<Rightarrow> 'a list \<Rightarrow> bool" where
  "array_rep a xs \<longleftrightarrow> array_ok a \<and> arr_num a = int (length xs) \<and>
     take (length xs) (array_cells a) = map Some xs"

text \<open>
  The contract: \<open>limit\<close> bounds the number of elements up to which \<open>add\<close> cannot overflow.
\<close>

locale dyn_array =
  fixes rep :: "'t \<Rightarrow> 'a list \<Rightarrow> bool"
    and add :: "'a \<Rightarrow> ('t, unit) kern"
    and remove :: "int \<Rightarrow> ('t, unit) kern"
    and getguy :: "int \<Rightarrow> ('t, 'a) kern"
    and setguy :: "int \<Rightarrow> 'a \<Rightarrow> ('t, unit) kern"
    and getnum :: "'t \<Rightarrow> int"
    and limit :: nat
  assumes add_spec: "rep a xs \<Longrightarrow> length xs < limit \<Longrightarrow>
      wpK (add x) (\<lambda>_ a'. rep a' (xs @ [x])) (\<lambda>e a'. e = ENOMEM \<and> a' = a) a"
    and remove_spec: "rep a xs \<Longrightarrow> i < length xs \<Longrightarrow>
      wpK (remove (int i)) (\<lambda>_ a'. rep a' (take i xs @ drop (Suc i) xs)) (\<lambda>_ _. False) a"
    and getguy_spec: "rep a xs \<Longrightarrow> i < length xs \<Longrightarrow> getguy (int i) a = Some (Inr (xs ! i), a)"
    and setguy_spec: "rep a xs \<Longrightarrow> i < length xs \<Longrightarrow>
      wpK (setguy (int i) x) (\<lambda>_ a'. rep a' (xs[i := x])) (\<lambda>_ _. False) a"
    and getnum_spec: "rep a xs \<Longrightarrow> getnum a = int (length xs)"

text \<open>
  Two ways the kernel uses such an array: filling it one element at a time, and walking it
  from the front for the first element a test accepts.
\<close>

fun add_each :: "('a \<Rightarrow> ('t, unit) kern) \<Rightarrow> 'a list \<Rightarrow> ('t, unit) kern" where
  "add_each ad [] = retK ()"
| "add_each ad (x # xs) = bindK (ad x) (\<lambda>_. add_each ad xs)"

fun search_from :: "(int \<Rightarrow> ('t, 'a) kern) \<Rightarrow> ('a \<Rightarrow> bool) \<Rightarrow> nat \<Rightarrow> nat \<Rightarrow> ('t, nat option) kern" where
  "search_from get p 0 i = retK None"
| "search_from get p (Suc n) i =
     bindK (get (int i)) (\<lambda>x. if p x then retK (Some i) else search_from get p n (Suc i))"

section \<open>Lemmas\<close>

lemma array_newmax_spec:
  assumes "0 \<le> m" "m < 1073741824" "n < 536870912"
  shows "\<exists>r. array_newmax n m = Some r \<and> n \<le> r \<and> m \<le> r \<and> r < 1073741824"
  using assms
proof (induction "nat (n - m)" arbitrary: m rule: less_induct)
  case less
  show ?case
  proof (cases "n > m")
    case True
    with less.prems have eq: "s32 ((m + 1) * 2) = (m + 1) * 2" by simp
    with less.prems True have "\<exists>r. array_newmax n ((m + 1) * 2) = Some r \<and> n \<le> r \<and>
        (m + 1) * 2 \<le> r \<and> r < 1073741824"
      by (intro less.hyps) auto
    then obtain r where "array_newmax n ((m + 1) * 2) = Some r" "n \<le> r" "(m + 1) * 2 \<le> r"
      "r < 1073741824" by blast
    with True less.prems eq show ?thesis
      by (subst array_newmax.simps) auto
  next
    case False
    with less.prems show ?thesis by (subst array_newmax.simps) auto
  qed
qed

lemma array_copy_spec:
  "i + n \<le> length oldv \<Longrightarrow> i + n \<le> length newv \<Longrightarrow>
     array_copy n i oldv newv = Some (take i newv @ take n (drop i oldv) @ drop (i + n) newv)"
proof (induction n arbitrary: i newv)
  case (Suc n)
  then have "i < length newv" "i < length oldv" by auto
  then have "take (Suc i) (newv[i := oldv ! i]) = take i newv @ [oldv ! i]"
    and "take (Suc n) (drop i oldv) = oldv ! i # take n (drop (Suc i) oldv)"
    by (simp_all add: take_Suc_conv_app_nth Cons_nth_drop_Suc [symmetric])
  with Suc show ?case by simp
qed simp

lemma array_preallocate_spec:
  assumes "array_rep a xs" "n < 536870912"
  shows "wpK (array_preallocate km n)
      (\<lambda>_ a'. array_rep a' xs \<and> n \<le> arr_max a' \<and> arr_v a' \<noteq> None)
      (\<lambda>e a'. e = ENOMEM \<and> a' = a \<and> (\<exists>sz. \<not> km sz)) a"
proof -
  have ok: "0 \<le> arr_num a" "arr_num a \<le> arr_max a" "arr_max a < 1073741824"
      "int (length (array_cells a)) = arr_max a" "arr_num a = int (length xs)"
      "take (length xs) (array_cells a) = map Some xs"
    using assms(1) by (auto simp: array_rep_def array_ok_def)
  then obtain r where r: "array_newmax n (arr_max a) = Some r" "n \<le> r" "arr_max a \<le> r" "r < 1073741824"
    using array_newmax_spec [of "arr_max a" n] assms(2) by auto
  then have sz: "nat (r * 4 mod 4294967296) div 4 = nat r"
    using ok by (simp add: nat_mult_distrib)
  have "length xs \<le> nat r" "length xs \<le> length (array_cells a)"
    using ok r by linarith+
  then have "array_copy (length xs) 0 (array_cells a) (replicate (nat r) None) =
      Some (map Some xs @ replicate (nat r - length xs) None)"
    using ok(6) by (simp add: array_copy_spec)
  then show ?thesis
    using r sz ok
    by (auto simp: wpK_def array_preallocate_def array_rep_def array_ok_def array_cells_def Let_def)
qed

lemma array_setsize_grow:
  assumes "array_rep a xs" "n < 536870912" "arr_max a < n" "int (length xs) \<le> n"
  shows "wpK (array_setsize km n)
      (\<lambda>_ a'. array_rep (a'\<lparr>arr_num := int (length xs)\<rparr>) xs \<and> arr_num a' = n \<and> n \<le> arr_max a')
      (\<lambda>e a'. e = ENOMEM \<and> a' = a \<and> (\<exists>sz. \<not> km sz)) a"
proof -
  have "array_setsize km n a = bindK (array_preallocate km n) (\<lambda>_. modK (\<lambda>a. a\<lparr>arr_num := n\<rparr>)) a"
    using assms by (auto simp: array_setsize_def array_rep_def array_ok_def)
  moreover have "wpK (bindK (array_preallocate km n) (\<lambda>_. modK (\<lambda>a. a\<lparr>arr_num := n\<rparr>)))
      (\<lambda>_ a'. array_rep (a'\<lparr>arr_num := int (length xs)\<rparr>) xs \<and> arr_num a' = n \<and> n \<le> arr_max a')
      (\<lambda>e a'. e = ENOMEM \<and> a' = a \<and> (\<exists>sz. \<not> km sz)) a"
    unfolding wp_bind wp_mod
    by (rule wp_mono [OF array_preallocate_spec [OF assms(1,2)]])
      (auto simp: array_rep_def array_ok_def array_cells_def)
  ultimately show ?thesis by (simp add: wpK_def)
qed

text \<open>Storing behind the last element of a block with room for it.\<close>

lemma array_rep_append:
  assumes "array_rep (a\<lparr>arr_num := int (length xs)\<rparr>) xs" "arr_num a = int (length xs) + 1"
    "arr_num a \<le> arr_max a"
  shows "\<exists>c. cell_write (arr_v a) (int (length xs)) x = Some c \<and>
     array_rep (a\<lparr>arr_v := Some c\<rparr>) (xs @ [x])"
proof -
  obtain c where c: "arr_v a = Some c"
    using assms by (cases "arr_v a") (auto simp: array_rep_def array_ok_def)
  then have len: "length xs < length c" and pre: "take (length xs) c = map Some xs"
    using assms by (auto simp: array_rep_def array_ok_def array_cells_def)
  then have "take (Suc (length xs)) (c[length xs := Some x]) = map Some xs @ [Some x]"
    by (simp add: take_Suc_conv_app_nth)
  with assms c len show ?thesis
    by (auto simp: cell_write_def array_rep_def array_ok_def array_cells_def)
qed

lemma array_add_strong:
  assumes "array_rep a xs" "length xs < 536870911"
  shows "wpK (array_add km x) (\<lambda>_ a'. array_rep a' (xs @ [x])) (\<lambda>e a'. e = ENOMEM \<and> a' = a \<and> arr_num a = arr_max a \<and> (\<exists>sz. \<not> km sz)) a"
proof -
  let ?n = "int (length xs)"
  have num: "arr_num a = ?n" "0 \<le> arr_num a" "arr_num a \<le> arr_max a"
    using assms(1) by (auto simp: array_rep_def array_ok_def)
  have "wpK (array_setsize km (?n + 1))
      (\<lambda>_ a'. array_rep (a'\<lparr>arr_num := ?n\<rparr>) xs \<and> arr_num a' = ?n + 1 \<and> arr_num a' \<le> arr_max a')
      (\<lambda>e a'. e = ENOMEM \<and> a' = a \<and> arr_num a = arr_max a \<and> (\<exists>sz. \<not> km sz)) a"
  proof (cases "arr_max a < ?n + 1")
    case True
    show ?thesis
      by (rule wp_mono [OF array_setsize_grow [OF assms(1)]]) (use True assms num in auto)
  next
    case False
    then show ?thesis
      using num assms(1)
      by (auto simp: wpK_def array_setsize_def modK_def array_rep_def array_ok_def array_cells_def)
  qed
  then have "wpK (bindK (array_setsize km (?n + 1)) (\<lambda>_ a.
        case cell_write (arr_v a) ?n x of
          None \<Rightarrow> None | Some c \<Rightarrow> Some (Inr (), a\<lparr>arr_v := Some c\<rparr>)))
      (\<lambda>_ a'. array_rep a' (xs @ [x])) (\<lambda>e a'. e = ENOMEM \<and> a' = a \<and> arr_num a = arr_max a \<and> (\<exists>sz. \<not> km sz)) a"
    unfolding wp_bind
    by (rule wp_mono) (auto simp: wpK_def dest: array_rep_append [where x = x])
  then show ?thesis
    using num assms(2) by (simp add: wpK_def array_add_def Let_def)
qed

lemma array_add_spec:
  assumes "array_rep a xs" "length xs < 536870911"
  shows "wpK (array_add km x) (\<lambda>_ a'. array_rep a' (xs @ [x])) (\<lambda>e a'. e = ENOMEM \<and> a' = a) a"
  by (rule wp_mono [OF array_add_strong [OF assms]]) auto

lemma array_getguy_spec:
  assumes "array_rep a xs" "i < length xs"
  shows "array_getguy (int i) a = Some (Inr (xs ! i), a)"
proof -
  have "array_cells a ! i = Some (xs ! i)"
    using assms by (metis array_rep_def nth_map nth_take)
  with assms show ?thesis
    by (auto simp: array_getguy_def cell_read_def array_rep_def array_ok_def array_cells_def
        split: option.splits)
qed

lemma array_setguy_spec:
  assumes "array_rep a xs" "i < length xs"
  shows "wpK (array_setguy (int i) x) (\<lambda>_ a'. array_rep a' (xs[i := x])) (\<lambda>_ _. False) a"
proof -
  obtain c where "arr_v a = Some c"
    using assms by (cases "arr_v a") (auto simp: array_rep_def array_ok_def)
  with assms show ?thesis
    by (auto simp: wpK_def array_setguy_def cell_write_def array_rep_def array_ok_def
        array_cells_def take_update_swap map_update)
qed

lemma array_getnum_spec: "array_rep a xs \<Longrightarrow> array_getnum a = int (length xs)"
  by (simp add: array_getnum_def array_rep_def)

lemma array_remove_spec:
  assumes "array_rep a xs" "i < length xs"
  shows "wpK (array_remove (int i)) (\<lambda>_ a'. array_rep a' (take i xs @ drop (Suc i) xs))
     (\<lambda>_ _. False) a"
proof -
  obtain c where c: "arr_v a = Some c"
    using assms by (cases "arr_v a") (auto simp: array_rep_def array_ok_def)
  let ?m = "length xs - Suc i"
  let ?c = "take i c @ take ?m (drop (Suc i) c) @ drop (i + ?m) c"
  have ok: "length xs \<le> length c" "take (length xs) c = map Some xs" "arr_num a = int (length xs)"
    using assms c by (auto simp: array_rep_def array_ok_def array_cells_def)
  have "nat (arr_num a - (int i + 1)) = ?m"
    using ok(3) by simp
  moreover have "cells_move i (Suc i) ?m c = Some ?c"
  proof (cases "?m = 0")
    case False
    moreover have "i + ?m \<le> length c" "Suc i + ?m \<le> length c" using ok assms(2) by linarith+
    ultimately show ?thesis unfolding cells_move_def by presburger
  qed (simp add: cells_move_def)
  ultimately have "cells_move i (Suc i) (nat (arr_num a - (int i + 1))) c = Some ?c"
    by simp
  moreover have "take (length xs - 1) ?c = map Some (take i xs @ drop (Suc i) xs)"
  proof -
    have "take i c = take i (take (length xs) c)" using assms(2) by (simp add: min_def)
    moreover have "take ?m (drop (Suc i) c) = drop (Suc i) (take (length xs) c)"
      using assms(2) by (simp add: drop_take)
    ultimately show ?thesis
      using ok assms(2) by (simp add: take_map drop_map)
  qed
  moreover have "length ?c = length c" using ok assms(2) by simp
  ultimately show ?thesis
    using assms c ok
    by (auto simp: wpK_def array_remove_def array_rep_def array_ok_def array_cells_def Let_def
        nat_add_distrib)
qed

section \<open>Clients of the contract\<close>

context dyn_array begin

lemma add_each_spec:
  "rep a xs \<Longrightarrow> length xs + length ys \<le> limit \<Longrightarrow>
     wpK (add_each add ys) (\<lambda>_ a'. rep a' (xs @ ys))
       (\<lambda>e a'. e = ENOMEM \<and> (\<exists>k < length ys. rep a' (xs @ take k ys))) a"
proof (induction ys arbitrary: a xs)
  case (Cons y ys)
  show ?case
    unfolding add_each.simps wp_bind
  proof (rule wp_mono [OF add_spec [OF Cons.prems(1)]])
    fix a'
    assume "rep a' (xs @ [y])"
    with Cons have "wpK (add_each add ys) (\<lambda>_ a''. rep a'' ((xs @ [y]) @ ys))
       (\<lambda>e a''. e = ENOMEM \<and> (\<exists>k < length ys. rep a'' ((xs @ [y]) @ take k ys))) a'"
      by (intro Cons.IH) auto
    then show "wpK (add_each add ys) (\<lambda>_ a''. rep a'' (xs @ y # ys))
       (\<lambda>e a''. e = ENOMEM \<and> (\<exists>k < length (y # ys). rep a'' (xs @ take k (y # ys)))) a'"
      by (rule wp_mono) (simp, metis Suc_less_eq append.assoc append_Cons append_Nil length_Cons
          take_Suc_Cons)
  qed (use Cons.prems in \<open>auto intro!: exI [of _ 0]\<close>)
qed (simp add: wp)

lemma search_spec:
  "rep a xs \<Longrightarrow> i + n = length xs \<Longrightarrow>
     search_from getguy p n i a =
       Some (Inr (if \<exists>x \<in> set (drop i xs). p x
                  then Some (i + length (takeWhile (\<lambda>x. \<not> p x) (drop i xs))) else None), a)"
proof (induction n arbitrary: i)
  case (Suc n)
  then have "drop i xs = xs ! i # drop (Suc i) xs" by (simp add: Cons_nth_drop_Suc)
  with Suc show ?case by (simp add: bindK_def retK_def getguy_spec)
qed (simp add: retK_def)

end

interpretation arr: dyn_array array_rep "array_add km" array_remove array_getguy array_setguy
    array_getnum 536870911 for km
  by unfold_locales
    (rule array_add_spec array_remove_spec array_getguy_spec array_setguy_spec array_getnum_spec;
      assumption)+

lemma array_create_rep: "array_create km = Some a \<Longrightarrow> array_rep a []"
  by (auto simp: array_create_def array_rep_def array_ok_def array_cells_def split: if_splits)

section \<open>Properties\<close>

text \<open>
  Elements added one after the other to an array holding \<open>xs\<close> are stored behind
  \<open>xs\<close>, in order, through every reallocation, for up to 2^29 - 1 elements; when \<^verbatim>\<open>kmalloc\<close>
  fails the array still holds \<open>xs\<close> and the elements added before. No assertion fails.
\<close>

theorem array_add_appends:
  assumes "array_rep a xs" and "length xs + length ys \<le> 536870911"
  shows "wpK (add_each (array_add km) ys) (\<lambda>_ a'. array_rep a' (xs @ ys))
     (\<lambda>e a'. e = ENOMEM \<and> (\<exists>k < length ys. array_rep a' (xs @ take k ys))) a"
  by (rule arr.add_each_spec [OF assms])

theorem array_add_appends_witness:
  "wpK (add_each (array_add (\<lambda>sz. sz < 24)) [7, 8, 9 :: nat]) (\<lambda>_ a'. array_rep a' [7, 8, 9])
     (\<lambda>e a'. e = ENOMEM \<and> (\<exists>k < length [7, 8, 9 :: nat]. array_rep a' (take k [7, 8, 9])))
     \<lparr>arr_num = 0, arr_max = 0, arr_v = None\<rparr>"
proof -
  have "array_rep \<lparr>arr_num = 0, arr_max = 0, arr_v = None\<rparr> ([] :: nat list)"
    by (simp add: array_rep_def array_ok_def array_cells_def)
  moreover have "length [] + length [7, 8, 9 :: nat] \<le> 536870911" by simp
  ultimately show ?thesis
    by (rule wp_mono [OF array_add_appends]) (simp_all only: append_Nil)
qed

text \<open>
  On an array holding \<open>xs\<close>, removing index \<open>i\<close> closes the gap and keeps the order of
  the others, storing at \<open>i\<close> replaces that element only, and both leave a well-formed array.
\<close>

theorem array_remove_set:
  assumes "array_rep a xs" and "i < length xs"
  shows "wpK (array_remove (int i)) (\<lambda>_ a'. array_rep a' (take i xs @ drop (Suc i) xs))
       (\<lambda>_ _. False) a \<and>
     wpK (array_setguy (int i) x) (\<lambda>_ a'. array_rep a' (xs[i := x])) (\<lambda>_ _. False) a"
  using array_remove_spec [OF assms] array_setguy_spec [OF assms] by blast

theorem array_remove_set_witness:
  "wpK (array_remove 1) (\<lambda>_ a'. array_rep a' [5, 7 :: nat]) (\<lambda>_ _. False)
     \<lparr>arr_num = 3, arr_max = 6, arr_v = Some [Some 5, Some 6, Some 7, None, None, None]\<rparr>"
proof -
  have "array_rep \<lparr>arr_num = 3, arr_max = 6, arr_v = Some [Some 5, Some 6, Some 7, None, None, None]\<rparr>
      [5, 6, 7 :: nat]"
    by (simp add: array_rep_def array_ok_def array_cells_def)
  from array_remove_set [OF this, of 1] show ?thesis by simp
qed

end
