(* ===== verification/Kqueue.thy ===== *)
theory Kqueue
  imports OS_Prelude
begin

text \<open>
  The circular queue of pointers, \<^verbatim>\<open>kern/lib/queue.c\<close>. \<^verbatim>\<open>q_grow\<close> and \<^verbatim>\<open>q_addtail\<close> call each
  other, so both carry the depth of calls they may still make; running out of it is not
  returning. The lemmas show that with any depth of three or more the calls return. The copying loop of \<^verbatim>\<open>q_grow\<close> runs through the indices modulo \<^verbatim>\<open>osize\<close>, so it either
  ends within \<^verbatim>\<open>osize\<close> rounds or never; the model gives it that many rounds.

  \<open>q_rep q xs\<close> relates the ring buffer to the list of waiting elements. The locale \<open>fifo\<close> is
  the contract the scheduler relies on, interpreted on the functions below.
\<close>

section \<open>Definitions\<close>

record 'a kqueue =
  q_size :: int
  q_nextwrite :: int
  q_nextread :: int
  q_data :: "'a option list"

text \<open>\<^verbatim>\<open>q->data[i]\<close>: a cell outside the block or never written is not read successfully.\<close>

definition data_read :: "'a option list \<Rightarrow> int \<Rightarrow> 'a option" where
  "data_read d i = (if 0 \<le> i \<and> i < int (length d) then d ! nat i else None)"

text \<open>The loop \<^verbatim>\<open>while (nsize < targetsize) { nsize *= 2; assert(nsize > 0); }\<close>.\<close>

partial_function (option) q_nsize :: "int \<Rightarrow> int \<Rightarrow> int option" where
  "q_nsize targetsize nsize =
     (if nsize < targetsize
      then if s32 (nsize * 2) > 0 then q_nsize targetsize (s32 (nsize * 2)) else None
      else Some nsize)"

definition q_empty :: "'a kqueue \<Rightarrow> bool" where
  "q_empty q \<longleftrightarrow> q_nextwrite q = q_nextread q"

text \<open>
  The loop \<^verbatim>\<open>for (i=onr; i!=onw; i = (i+1)%osize) { result = q_addtail(q, olddata[i]);
  assert(result==0); }\<close>, with \<open>rounds\<close> rounds left and \<open>addtail\<close> for the call it makes.
\<close>

fun q_copy :: "('a \<Rightarrow> ('a kqueue, unit) kern) \<Rightarrow> 'a option list \<Rightarrow> int \<Rightarrow> int \<Rightarrow> nat \<Rightarrow> int
    \<Rightarrow> ('a kqueue, unit) kern" where
  "q_copy addtail olddata onw osize rounds i q =
     (if i = onw then Some (Inr (), q)
      else case rounds of
        0 \<Rightarrow> None
      | Suc r \<Rightarrow> (case data_read olddata i of
            None \<Rightarrow> None
          | Some x \<Rightarrow> (case addtail x q of
                Some (Inr _, q') \<Rightarrow> q_copy addtail olddata onw osize r (crem (i + 1) osize) q'
              | _ \<Rightarrow> None)))"

fun q_grow :: "nat \<Rightarrow> kmalloc_oracle \<Rightarrow> int \<Rightarrow> ('a kqueue, unit) kern"
  and q_addtail :: "nat \<Rightarrow> kmalloc_oracle \<Rightarrow> 'a \<Rightarrow> ('a kqueue, unit) kern" where
  "q_grow 0 km targetsize q = None"
| "q_grow (Suc depth) km targetsize q =
     (case q_nsize targetsize (q_size q) of
        None \<Rightarrow> None
      | Some nsize \<Rightarrow>
          (let bytes = nat (nsize * 4 mod 4294967296) in
           if \<not> km bytes then Some (Inl ENOMEM, q) else
           q_copy (q_addtail depth km) (q_data q) (q_nextwrite q) (q_size q) (nat (q_size q))
             (q_nextread q)
             (q\<lparr>q_size := nsize, q_data := replicate (bytes div 4) None,
                 q_nextwrite := 0, q_nextread := 0\<rparr>)))"
| "q_addtail 0 km ptr q = None"
| "q_addtail (Suc depth) km ptr q =
     (if \<not> q_size q > 0 then None else
      bindK
        (\<lambda>q. if crem (s32 (q_nextwrite q + 1)) (q_size q) = q_nextread q
             then q_grow depth km (s32 (q_size q + 1)) q else Some (Inr (), q))
        (\<lambda>_ q.
          let nextnext = crem (s32 (q_nextwrite q + 1)) (q_size q) in
          if 0 \<le> q_nextwrite q \<and> q_nextwrite q < int (length (q_data q))
          then Some (Inr (), q\<lparr>q_data := (q_data q)[nat (q_nextwrite q) := Some ptr],
                               q_nextwrite := nextnext\<rparr>)
          else None) q)"

definition q_create :: "int \<Rightarrow> (kmem, 'a kqueue option) kern" where
  "q_create sz =
     bindK (kmalloc 16) (\<lambda>ok.
     if \<not> ok then retK None else
     bindK (kmalloc (nat (sz * 4 mod 4294967296))) (\<lambda>ok2.
     if \<not> ok2 then retK None else
     retK (Some \<lparr>q_size = sz, q_nextwrite = 0, q_nextread = 0,
                 q_data = replicate (nat (sz * 4 mod 4294967296) div 4) None\<rparr>)))"

definition q_preallocate :: "nat \<Rightarrow> kmalloc_oracle \<Rightarrow> int \<Rightarrow> ('a kqueue, unit) kern" where
  "q_preallocate depth km sz q =
     (if \<not> q_size q > 0 then None
      else if sz > q_size q then q_grow depth km sz q else Some (Inr (), q))"

definition q_remhead :: "('a kqueue, 'a) kern" where
  "q_remhead q =
     (if \<not> q_size q > 0 \<or> q_empty q then None else
      case data_read (q_data q) (q_nextread q) of
        None \<Rightarrow> None
      | Some ret \<Rightarrow> Some (Inr ret, q\<lparr>q_nextread := crem (s32 (q_nextread q + 1)) (q_size q)\<rparr>))"

definition q_getstart :: "'a kqueue \<Rightarrow> int" where
  "q_getstart q = q_nextread q"

definition q_getend :: "'a kqueue \<Rightarrow> int" where
  "q_getend q = q_nextwrite q"

definition q_getsize :: "'a kqueue \<Rightarrow> int" where
  "q_getsize q = q_size q"

definition q_getguy :: "int \<Rightarrow> ('a kqueue, 'a) kern" where
  "q_getguy index q =
     (if 0 \<le> index \<and> index < q_size q
      then (case data_read (q_data q) index of None \<Rightarrow> None | Some x \<Rightarrow> Some (Inr x, q))
      else None)"

section \<open>Abstraction and contract\<close>

text \<open>
  The queue holds \<open>xs\<close>: they lie one after the other, modulo the size, from \<^verbatim>\<open>nextread\<close> up to
  \<^verbatim>\<open>nextwrite\<close>. One cell is always left free, or a full queue would look empty.
\<close>

definition q_rep :: "'a kqueue \<Rightarrow> 'a list \<Rightarrow> bool" where
  "q_rep q xs \<longleftrightarrow> (\<exists>n r. q_size q = int n \<and> n < 1073741824 \<and> length (q_data q) = n \<and>
     q_nextread q = int r \<and> r < n \<and> length xs < n \<and>
     q_nextwrite q = int ((r + length xs) mod n) \<and>
     (\<forall>k < length xs. q_data q ! ((r + k) mod n) = Some (xs ! k)))"

locale fifo =
  fixes rep :: "'t \<Rightarrow> 'a list \<Rightarrow> bool"
    and addtail :: "'a \<Rightarrow> ('t, unit) kern"
    and remhead :: "('t, 'a) kern"
    and empty :: "'t \<Rightarrow> bool"
    and limit :: nat
  assumes addtail_spec: "rep q xs \<Longrightarrow> length xs < limit \<Longrightarrow>
      wpK (addtail x) (\<lambda>_ q'. rep q' (xs @ [x])) (\<lambda>e q'. e = ENOMEM \<and> q' = q) q"
    and remhead_spec: "rep q (x # xs) \<Longrightarrow> wpK remhead (\<lambda>y q'. y = x \<and> rep q' xs) (\<lambda>_ _. False) q"
    and empty_spec: "rep q xs \<Longrightarrow> empty q \<longleftrightarrow> xs = []"

text \<open>Draining a queue, and putting elements in, one call after the other.\<close>

fun enq_all :: "('a \<Rightarrow> ('t, unit) kern) \<Rightarrow> 'a list \<Rightarrow> ('t, unit) kern" where
  "enq_all enq [] = retK ()"
| "enq_all enq (x # xs) = bindK (enq x) (\<lambda>_. enq_all enq xs)"

fun deq_all :: "('t, 'a) kern \<Rightarrow> ('t \<Rightarrow> bool) \<Rightarrow> nat \<Rightarrow> ('t, 'a list) kern" where
  "deq_all deq emp 0 = retK []"
| "deq_all deq emp (Suc n) = (\<lambda>q. if emp q then Some (Inr [], q) else
     bindK deq (\<lambda>x. bindK (deq_all deq emp n) (\<lambda>xs. retK (x # xs))) q)"

section \<open>Lemmas\<close>

declare q_copy.simps [simp del] q_grow.simps [simp del] q_addtail.simps [simp del]

lemma ring_inj:
  assumes "j < n" "k < n" "(r + j) mod n = (r + k) mod (n :: nat)"
  shows "j = k"
proof -
  have "a = b" if "a \<le> b" "b < n" "(r + b) mod n = (r + a) mod n" for a b
  proof -
    have "n dvd (r + b) - (r + a)"
      using that mod_eq_dvd_iff_nat [of "r + a" "r + b" n] by simp
    then have "n dvd b - a" by simp
    with that show ?thesis by (meson dvd_imp_le less_imp_diff_less not_le zero_less_diff le_neq_implies_less)
  qed
  with assms show ?thesis by (metis nat_le_linear)
qed

lemma ring_self: "r < n \<Longrightarrow> k < n \<Longrightarrow> (r + k) mod n = r \<longleftrightarrow> k = (0 :: nat)"
  using ring_inj [of k n 0 r] by auto

lemma crem_Suc [simp]: "crem (int a + 1) (int b) = int (Suc a mod b)"
  using crem_nat [of "Suc a" b] by (simp add: add.commute)

lemma ring_step:
  assumes "0 < n" "n < 1073741824"
  shows "crem (s32 (int (k mod n) + 1)) (int n) = int (Suc k mod n)"
proof -
  have "k mod n < n" using assms by simp
  then have "s32 (int (k mod n) + 1) = int (k mod n) + 1"
    using assms by (intro s32_id) linarith+
  then show ?thesis by (simp only: crem_Suc mod_Suc_eq)
qed

lemma q_repI:
  "q_size q = int n \<Longrightarrow> n < 1073741824 \<Longrightarrow> length (q_data q) = n \<Longrightarrow> q_nextread q = int r \<Longrightarrow>
   r < n \<Longrightarrow> length xs < n \<Longrightarrow> q_nextwrite q = int ((r + length xs) mod n) \<Longrightarrow>
   (\<And>k. k < length xs \<Longrightarrow> q_data q ! ((r + k) mod n) = Some (xs ! k)) \<Longrightarrow> q_rep q xs"
  by (auto simp: q_rep_def)

lemma q_repE:
  assumes "q_rep q xs"
  obtains n r where "q_size q = int n" "n < 1073741824" "length (q_data q) = n"
    "q_nextread q = int r" "r < n" "length xs < n" "q_nextwrite q = int ((r + length xs) mod n)"
    "\<And>k. k < length xs \<Longrightarrow> q_data q ! ((r + k) mod n) = Some (xs ! k)"
  using assms by (auto simp: q_rep_def)

lemma q_empty_iff:
  assumes "q_rep q xs"
  shows "q_empty q \<longleftrightarrow> xs = []"
  using assms by (rule q_repE) (auto simp: q_empty_def ring_self)

lemma q_full_iff:
  assumes "q_rep q xs"
  shows "crem (s32 (q_nextwrite q + 1)) (q_size q) = q_nextread q \<longleftrightarrow> int (length xs) + 1 = q_size q"
proof -
  obtain n r where q: "q_size q = int n" "n < 1073741824" "q_nextread q = int r" "r < n"
      "length xs < n" "q_nextwrite q = int ((r + length xs) mod n)"
    using assms by (rule q_repE)
  then have "crem (s32 (q_nextwrite q + 1)) (q_size q) = int ((r + Suc (length xs)) mod n)"
    using ring_step [of n "r + length xs"] by simp
  moreover have "(r + Suc (length xs)) mod n = r \<longleftrightarrow> Suc (length xs) = n"
  proof (cases "Suc (length xs) = n")
    case True
    then show ?thesis using q(4) by auto
  next
    case False
    then show ?thesis using q ring_self [of r n "Suc (length xs)"] by simp
  qed
  ultimately show ?thesis using q by auto
qed

text \<open>Storing at \<^verbatim>\<open>nextwrite\<close> while a second free cell remains.\<close>

lemma q_store:
  assumes "q_rep q xs" "int (length xs) + 1 < q_size q"
  shows "0 \<le> q_nextwrite q \<and> q_nextwrite q < int (length (q_data q)) \<and>
     q_rep (q\<lparr>q_data := (q_data q)[nat (q_nextwrite q) := Some x],
               q_nextwrite := crem (s32 (q_nextwrite q + 1)) (q_size q)\<rparr>) (xs @ [x])"
proof -
  obtain n r where q: "q_size q = int n" "n < 1073741824" "length (q_data q) = n"
      "q_nextread q = int r" "r < n" "length xs < n" "q_nextwrite q = int ((r + length xs) mod n)"
      "\<And>k. k < length xs \<Longrightarrow> q_data q ! ((r + k) mod n) = Some (xs ! k)"
    using assms(1) by (auto simp: q_rep_def)
  have w: "(r + length xs) mod n < n" using q by simp
  have nw: "crem (s32 (q_nextwrite q + 1)) (q_size q) = int ((r + length (xs @ [x])) mod n)"
    using ring_step [of n "r + length xs"] q(1,2,5,7) by simp
  have ne: "(r + k) mod n \<noteq> (r + length xs) mod n" if "k < length xs" for k
    using ring_inj [of k n "length xs" r] that q(6) by auto
  have "q_rep (q\<lparr>q_data := (q_data q)[nat (q_nextwrite q) := Some x],
      q_nextwrite := crem (s32 (q_nextwrite q + 1)) (q_size q)\<rparr>) (xs @ [x])"
  proof (rule q_repI [where n = n and r = r])
    fix k
    assume k: "k < length (xs @ [x])"
    show "q_data (q\<lparr>q_data := (q_data q)[nat (q_nextwrite q) := Some x],
        q_nextwrite := crem (s32 (q_nextwrite q + 1)) (q_size q)\<rparr>) ! ((r + k) mod n) =
      Some ((xs @ [x]) ! k)"
    proof (cases "k = length xs")
      case True
      then show ?thesis using q(3,7) w by simp
    next
      case False
      then have "k < length xs" using k by simp
      with ne [OF this] q(3,7,8) w show ?thesis by (simp add: nth_append)
    qed
  qed (use q assms(2) nw in simp_all)
  with q w show ?thesis by simp
qed

lemma q_addtail_room:
  assumes "q_rep q xs" "int (length xs) + 1 < q_size q"
  shows "\<exists>q'. q_addtail (Suc depth) km x q = Some (Inr (), q') \<and> q_rep q' (xs @ [x]) \<and>
     q_size q' = q_size q"
  using q_store [OF assms, of x] q_full_iff [OF assms(1)] assms(2)
  by (auto simp: bindK_def Let_def q_addtail.simps)

subsection \<open>Growing\<close>

lemma q_nsize_spec:
  assumes "0 < m" "m < 1073741824" "t \<le> 536870912"
  shows "\<exists>r. q_nsize t m = Some r \<and> t \<le> r \<and> m \<le> r \<and> r < 1073741824"
  using assms
proof (induction "nat (t - m)" arbitrary: m rule: less_induct)
  case less
  show ?case
  proof (cases "m < t")
    case True
    with less.prems have eq: "s32 (m * 2) = m * 2" by simp
    with less.prems True have "\<exists>r. q_nsize t (m * 2) = Some r \<and> t \<le> r \<and> m * 2 \<le> r \<and> r < 1073741824"
      by (intro less.hyps) auto
    then obtain r where "q_nsize t (m * 2) = Some r" "t \<le> r" "m * 2 \<le> r" "r < 1073741824" by blast
    with True less.prems eq show ?thesis by (subst q_nsize.simps) auto
  next
    case False
    with less.prems show ?thesis by (subst q_nsize.simps) auto
  qed
qed

lemma q_copy_spec:
  assumes old: "length old = n" "r < n" "length xs < n"
      "\<And>k. k < length xs \<Longrightarrow> old ! ((r + k) mod n) = Some (xs ! k)"
    and "k \<le> length xs" "length xs - k \<le> rounds" "q_rep q (take k xs)" "int (length xs) < q_size q"
  shows "\<exists>q'. q_copy (q_addtail (Suc depth) km) old (int ((r + length xs) mod n)) (int n) rounds
             (int ((r + k) mod n)) q = Some (Inr (), q') \<and> q_rep q' xs \<and> q_size q' = q_size q"
  using assms(5-)
proof (induction rounds arbitrary: k q)
  case 0
  then show ?case by (subst q_copy.simps) simp
next
  case (Suc rounds)
  show ?case
  proof (cases "k = length xs")
    case True
    with Suc.prems show ?thesis by (subst q_copy.simps) simp
  next
    case False
    with Suc.prems have k: "k < length xs" by simp
    then have "(r + k) mod n \<noteq> (r + length xs) mod n"
      using ring_inj [OF less_trans [OF k old(3)] old(3)] by (metis less_irrefl)
    then have go: "int ((r + k) mod n) \<noteq> int ((r + length xs) mod n)" by (metis of_nat_eq_iff)
    have "(r + k) mod n < n" using old(2) by simp
    then have rd: "data_read old (int ((r + k) mod n)) = Some (xs ! k)"
      using old(1) old(4) [OF k] by (simp only: data_read_def nat_int) simp
    have "int (length (take k xs)) + 1 < q_size q" using Suc.prems k by simp
    from q_addtail_room [OF Suc.prems(3) this, of depth km "xs ! k"] obtain q' where
      q': "q_addtail (Suc depth) km (xs ! k) q = Some (Inr (), q')" "q_rep q' (take (Suc k) xs)"
        "q_size q' = q_size q"
      using k by (auto simp: take_Suc_conv_app_nth)
    have "crem (int ((r + k) mod n) + 1) (int n) = int ((r + Suc k) mod n)"
      by (simp only: crem_Suc mod_Suc_eq add_Suc_right)
    moreover have "Suc k \<le> length xs" "length xs - Suc k \<le> rounds" "int (length xs) < q_size q'"
      using Suc.prems k q'(3) by auto
    from Suc.IH [OF this(1,2) q'(2) this(3)] obtain q'' where
      "q_copy (q_addtail (Suc depth) km) old (int ((r + length xs) mod n)) (int n) rounds
         (int ((r + Suc k) mod n)) q' = Some (Inr (), q'')" "q_rep q'' xs" "q_size q'' = q_size q'"
      by blast
    ultimately show ?thesis
      using q'(1,3) rd go by (subst q_copy.simps) (simp del: of_nat_mod)
  qed
qed

lemma q_grow_spec:
  assumes "q_rep q xs" "t \<le> 536870912"
  shows "wpK (q_grow (Suc (Suc depth)) km t) (\<lambda>_ q'. q_rep q' xs \<and> t \<le> q_size q' \<and> q_size q \<le> q_size q')
     (\<lambda>e q'. e = ENOMEM \<and> q' = q \<and> (\<exists>sz. \<not> km sz)) q"
proof -
  obtain n r where q: "q_size q = int n" "n < 1073741824" "length (q_data q) = n"
      "q_nextread q = int r" "r < n" "length xs < n" "q_nextwrite q = int ((r + length xs) mod n)"
      "\<And>k. k < length xs \<Longrightarrow> q_data q ! ((r + k) mod n) = Some (xs ! k)"
    using assms(1) by (auto simp: q_rep_def)
  obtain m where m: "q_nsize t (q_size q) = Some m" "t \<le> m" "int n \<le> m" "m < 1073741824"
    using q_nsize_spec [of "int n" t] q assms(2) by auto
  then have sz: "nat (m * 4 mod 4294967296) div 4 = nat m"
    by (simp add: nat_mult_distrib)
  let ?q = "q\<lparr>q_size := m, q_data := replicate (nat m) None, q_nextwrite := 0, q_nextread := 0\<rparr>"
  have "q_rep ?q (take 0 xs)"
    using m q by (intro q_repI [where n = "nat m" and r = 0]) auto
  from q_copy_spec [OF q(3,5,6,8) _ _ this, of n depth km] obtain q' where
    "q_copy (q_addtail (Suc depth) km) (q_data q) (q_nextwrite q) (q_size q) (nat (q_size q))
       (q_nextread q) ?q = Some (Inr (), q')" "q_rep q' xs" "q_size q' = m"
    using q m by (auto simp del: of_nat_mod)
  then show ?thesis
    using m sz q(1) by (auto simp: wpK_def Let_def q_grow.simps)
qed

lemma q_addtail_strong:
  assumes "q_rep q xs" "length xs < 536870911"
  shows "wpK (q_addtail (Suc (Suc (Suc depth))) km x) (\<lambda>_ q'. q_rep q' (xs @ [x]))
     (\<lambda>e q'. e = ENOMEM \<and> q' = q \<and> (\<exists>sz. \<not> km sz)) q"
proof (cases "int (length xs) + 1 = q_size q")
  case False
  then have "int (length xs) + 1 < q_size q" using assms(1) by (auto simp: q_rep_def)
  from q_addtail_room [OF assms(1) this, of "Suc (Suc depth)" km x] show ?thesis
    by (auto simp: wpK_def)
next
  case True
  then have grow: "crem (s32 (q_nextwrite q + 1)) (q_size q) = q_nextread q"
    and sz: "s32 (q_size q + 1) = q_size q + 1" "q_size q + 1 \<le> 536870912" "0 < q_size q"
    using q_full_iff [OF assms(1)] assms(2) by auto
  have "wpK (bindK (q_grow (Suc (Suc depth)) km (q_size q + 1)) (\<lambda>_ q.
          let nextnext = crem (s32 (q_nextwrite q + 1)) (q_size q) in
          if 0 \<le> q_nextwrite q \<and> q_nextwrite q < int (length (q_data q))
          then Some (Inr (), q\<lparr>q_data := (q_data q)[nat (q_nextwrite q) := Some x],
                               q_nextwrite := nextnext\<rparr>)
          else None)) (\<lambda>_ q'. q_rep q' (xs @ [x])) (\<lambda>e q'. e = ENOMEM \<and> q' = q \<and> (\<exists>sz. \<not> km sz)) q"
    unfolding wp_bind
  proof (rule wp_mono [OF q_grow_spec [OF assms(1) sz(2)]])
    fix q'
    assume "q_rep q' xs \<and> q_size q + 1 \<le> q_size q' \<and> q_size q \<le> q_size q'"
    then have "q_rep q' xs" "int (length xs) + 1 < q_size q'" using True by auto
    from q_store [OF this, of x] show "wpK (\<lambda>q.
          let nextnext = crem (s32 (q_nextwrite q + 1)) (q_size q) in
          if 0 \<le> q_nextwrite q \<and> q_nextwrite q < int (length (q_data q))
          then Some (Inr (), q\<lparr>q_data := (q_data q)[nat (q_nextwrite q) := Some x],
                               q_nextwrite := nextnext\<rparr>)
          else None) (\<lambda>_ q'. q_rep q' (xs @ [x])) (\<lambda>e q'. e = ENOMEM \<and> q' = q \<and> (\<exists>sz. \<not> km sz)) q'"
      by (simp add: wpK_def Let_def)
  qed
  then show ?thesis
    using grow sz by (simp add: wpK_def bindK_def q_addtail.simps)
qed

lemma q_addtail_spec:
  assumes "q_rep q xs" "length xs < 536870911"
  shows "wpK (q_addtail (Suc (Suc (Suc depth))) km x) (\<lambda>_ q'. q_rep q' (xs @ [x]))
     (\<lambda>e q'. e = ENOMEM \<and> q' = q) q"
  by (rule wp_mono [OF q_addtail_strong [OF assms]]) auto

lemma q_remhead_spec:
  assumes "q_rep q (x # xs)"
  shows "wpK q_remhead (\<lambda>y q'. y = x \<and> q_rep q' xs) (\<lambda>_ _. False) q"
proof -
  obtain n r where q: "q_size q = int n" "n < 1073741824" "length (q_data q) = n"
      "q_nextread q = int r" "r < n" "length (x # xs) < n" "q_nextwrite q = int ((r + length (x # xs)) mod n)"
      "\<And>k. k < length (x # xs) \<Longrightarrow> q_data q ! ((r + k) mod n) = Some ((x # xs) ! k)"
    using assms by (auto simp: q_rep_def)
  have rd: "data_read (q_data q) (q_nextread q) = Some x"
    using q(8) [of 0] q(3-5) by (simp add: data_read_def)
  have nr: "crem (s32 (q_nextread q + 1)) (q_size q) = int (Suc r mod n)"
    using ring_step [of n r] q(1,2,4,5) by simp
  have "q_rep (q\<lparr>q_nextread := int (Suc r mod n)\<rparr>) xs"
  proof (rule q_repI [where n = n and r = "Suc r mod n"])
    fix k
    assume "k < length xs"
    then show "q_data (q\<lparr>q_nextread := int (Suc r mod n)\<rparr>) ! ((Suc r mod n + k) mod n) = Some (xs ! k)"
      using q(8) [of "Suc k"] by (simp add: mod_add_left_eq)
  qed (use q in \<open>auto simp: mod_add_left_eq\<close>)
  then show ?thesis
    using rd nr q(1,5) q_empty_iff [OF assms] by (simp add: wpK_def q_remhead_def)
qed

section \<open>Clients of the contract\<close>

context fifo begin

lemma enq_all_spec:
  "rep q xs \<Longrightarrow> length xs + length ys \<le> limit \<Longrightarrow>
     wpK (enq_all addtail ys) (\<lambda>_ q'. rep q' (xs @ ys))
       (\<lambda>e q'. e = ENOMEM \<and> (\<exists>k < length ys. rep q' (xs @ take k ys))) q"
proof (induction ys arbitrary: q xs)
  case (Cons y ys)
  show ?case
    unfolding enq_all.simps wp_bind
  proof (rule wp_mono [OF addtail_spec [OF Cons.prems(1)]])
    fix q'
    assume "rep q' (xs @ [y])"
    with Cons have "wpK (enq_all addtail ys) (\<lambda>_ q''. rep q'' ((xs @ [y]) @ ys))
       (\<lambda>e q''. e = ENOMEM \<and> (\<exists>k < length ys. rep q'' ((xs @ [y]) @ take k ys))) q'"
      by (intro Cons.IH) auto
    then show "wpK (enq_all addtail ys) (\<lambda>_ q''. rep q'' (xs @ y # ys))
       (\<lambda>e q''. e = ENOMEM \<and> (\<exists>k < length (y # ys). rep q'' (xs @ take k (y # ys)))) q'"
      by (rule wp_mono) (simp, metis Suc_less_eq append.assoc append_Cons append_Nil length_Cons
          take_Suc_Cons)
  qed (use Cons.prems in \<open>auto intro!: exI [of _ 0]\<close>)
qed (simp add: wp)

lemma deq_all_spec:
  "rep q xs \<Longrightarrow> length xs \<le> n \<Longrightarrow>
     wpK (deq_all remhead empty n) (\<lambda>ys q'. ys = xs \<and> rep q' []) (\<lambda>_ _. False) q"
proof (induction n arbitrary: q xs)
  case (Suc n)
  show ?case
  proof (cases xs)
    case Nil
    with Suc.prems show ?thesis by (simp add: wpK_def empty_spec)
  next
    case (Cons x xs')
    have "wpK (bindK remhead (\<lambda>x. bindK (deq_all remhead empty n) (\<lambda>xs. retK (x # xs))))
        (\<lambda>ys q'. ys = xs \<and> rep q' []) (\<lambda>_ _. False) q"
      unfolding wp_bind wp_ret
    proof (rule wp_mono [OF remhead_spec])
      show "rep q (x # xs')" using Suc.prems Cons by simp
      show "wpK (deq_all remhead empty n) (\<lambda>ys q'. y # ys = xs \<and> rep q' []) (\<lambda>_ _. False) q'"
        if "y = x \<and> rep q' xs'" for y q'
        by (rule wp_mono [OF Suc.IH [of q' xs']]) (use that Suc.prems Cons in auto)
    qed
    with Cons Suc.prems show ?thesis by (simp add: wpK_def empty_spec)
  qed
qed (simp add: wp)

lemma enq_deq:
  assumes "rep q xs" "length xs + length ys \<le> limit"
  shows "wpK (bindK (enq_all addtail ys) (\<lambda>_. deq_all remhead empty (length (xs @ ys))))
     (\<lambda>zs q'. zs = xs @ ys \<and> rep q' []) (\<lambda>e _. e = ENOMEM) q"
  unfolding wp_bind
proof (rule wp_mono [OF enq_all_spec [OF assms]])
  show "wpK (deq_all remhead empty (length (xs @ ys))) (\<lambda>zs q'. zs = xs @ ys \<and> rep q' [])
      (\<lambda>e _. e = ENOMEM) q'" if "rep q' (xs @ ys)" for q'
    by (rule wp_mono [OF deq_all_spec [OF that order_refl]]) auto
qed auto

end

interpretation rq: fifo q_rep "q_addtail (Suc (Suc (Suc depth))) km" q_remhead q_empty 536870911
  for depth km
  by unfold_locales (rule q_addtail_spec q_remhead_spec q_empty_iff; assumption)+

section \<open>Properties\<close>

text \<open>
  Property C26. The ring buffer is a first-in first-out queue: elements added behind \<open>xs\<close> come out
  after \<open>xs\<close>, in the order they went in, through wrap-around and every reallocation, and
  the queue is then empty; the only failure is \<^verbatim>\<open>ENOMEM\<close>. No assertion fails and the loops
  end, for any permitted call depth of three or more.
\<close>

theorem queue_fifo:
  assumes "q_rep q xs" and "length xs + length ys \<le> 536870911"
  shows "wpK (bindK (enq_all (q_addtail (Suc (Suc (Suc depth))) km) ys)
                (\<lambda>_. deq_all q_remhead q_empty (length (xs @ ys))))
     (\<lambda>zs q'. zs = xs @ ys \<and> q_rep q' []) (\<lambda>e _. e = ENOMEM) q"
  by (rule rq.enq_deq [OF assms])

lemma q_rep_example:
  "q_rep \<lparr>q_size = 4, q_nextwrite = 1, q_nextread = 3, q_data = [Some 6, None, None, Some 5]\<rparr> [5, 6 :: nat]"
proof (rule q_repI [where n = 4 and r = 3])
  fix k
  assume "k < length [5, 6 :: nat]"
  then have "k = 0 \<or> k = 1" by auto
  then show "q_data \<lparr>q_size = 4, q_nextwrite = 1, q_nextread = 3, q_data = [Some 6, None, None, Some 5]\<rparr>
      ! ((3 + k) mod 4) = Some ([5, 6] ! k)"
    by auto
qed simp_all

theorem queue_fifo_witness:
  "wpK (bindK (enq_all (q_addtail 3 (\<lambda>_. True)) [7, 8 :: nat]) (\<lambda>_. deq_all q_remhead q_empty 4))
     (\<lambda>zs q'. zs = [5, 6, 7, 8] \<and> q_rep q' []) (\<lambda>e _. e = ENOMEM)
     \<lparr>q_size = 4, q_nextwrite = 1, q_nextread = 3, q_data = [Some 6, None, None, Some 5]\<rparr>"
proof -
  have "length [5, 6 :: nat] + length [7, 8 :: nat] \<le> 536870911" by simp
  from queue_fifo [OF q_rep_example this, of 0 "\<lambda>_. True"] show ?thesis
    by (simp add: numeral_3_eq_3 numeral_eq_Suc)
qed

lemma q_preallocate_spec:
  assumes "q_rep q xs" and "n \<le> 536870912"
  shows "wpK (q_preallocate (Suc (Suc depth)) km n) (\<lambda>_ q'. q_rep q' xs \<and> n \<le> q_size q')
      (\<lambda>e q'. e = ENOMEM \<and> q' = q) q"
proof (cases "n > q_size q")
  case True
  have "wpK (q_grow (Suc (Suc depth)) km n) (\<lambda>_ q'. q_rep q' xs \<and> n \<le> q_size q')
      (\<lambda>e q'. e = ENOMEM \<and> q' = q) q"
    by (rule wp_mono [OF q_grow_spec [OF assms]]) auto
  with True assms(1) show ?thesis by (auto simp: wpK_def q_preallocate_def q_rep_def)
next
  case False
  with assms(1) show ?thesis by (auto simp: wpK_def q_preallocate_def q_rep_def)
qed

text \<open>
  A successful \<^verbatim>\<open>q_preallocate(q, n)\<close> keeps the contents and makes room for \<open>n - 1\<close>
  elements in all: as long as fewer are waiting, \<^verbatim>\<open>q_addtail\<close> succeeds even when every
  \<^verbatim>\<open>kmalloc\<close> fails.
\<close>

theorem q_preallocate_room:
  assumes "q_rep q xs" and "n \<le> 536870912"
  shows "wpK (q_preallocate (Suc (Suc depth)) km n)
     (\<lambda>_ q'. q_rep q' xs \<and>
        (int (length xs) + 1 < n \<longrightarrow>
          (\<exists>q''. q_addtail (Suc (Suc (Suc depth))) (\<lambda>_. False) x q' = Some (Inr (), q'') \<and>
             q_rep q'' (xs @ [x]))))
     (\<lambda>e q'. e = ENOMEM \<and> q' = q) q"
  by (rule wp_mono [OF q_preallocate_spec [OF assms]]) (auto dest: q_addtail_room [where x = x and km = "\<lambda>_. False"
        and depth = "Suc (Suc depth)"])

theorem q_preallocate_room_witness:
  "wpK (q_preallocate 2 (\<lambda>_. True) 7)
     (\<lambda>_ q'. \<exists>q''. q_addtail 3 (\<lambda>_. False) 9 q' = Some (Inr (), q'') \<and> q_rep q'' [5, 6, 9 :: nat])
     (\<lambda>e q'. e = ENOMEM)
     \<lparr>q_size = 4, q_nextwrite = 1, q_nextread = 3, q_data = [Some 6, None, None, Some 5]\<rparr>"
  unfolding numeral_2_eq_2 numeral_3_eq_3
  by (rule wp_mono [OF q_preallocate_room [OF q_rep_example, where x = 9]]) auto

text \<open>
  A queue of \<^verbatim>\<open>size\<close> cells takes \<open>size - 1\<close> elements: \<^verbatim>\<open>q_preallocate(q, size)\<close> on a
  queue that has \<open>size - 1\<close> waiting does nothing and reports success, yet the next
  \<^verbatim>\<open>q_addtail\<close> has to allocate, and fails with \<^verbatim>\<open>ENOMEM\<close> when it cannot.
\<close>

theorem q_preallocate_one_short:
  assumes "q_rep q xs" and "q_size q = int (length xs) + 1" and "length xs < 536870911"
  shows "q_preallocate depth km (q_size q) q = Some (Inr (), q) \<and>
     q_addtail (Suc (Suc depth)) (\<lambda>_. False) x q = Some (Inl ENOMEM, q)"
proof -
  obtain m where "q_nsize (q_size q + 1) (q_size q) = Some m"
    using q_nsize_spec [of "q_size q" "q_size q + 1"] assms by auto
  moreover have "s32 (q_size q + 1) = q_size q + 1" using assms by simp
  moreover have "crem (s32 (q_nextwrite q + 1)) (q_size q) = q_nextread q"
    using q_full_iff [OF assms(1)] assms(2) by simp
  ultimately show ?thesis
    using assms(2) by (simp add: q_preallocate_def q_addtail.simps q_grow.simps bindK_def Let_def)
qed

theorem q_preallocate_one_short_witness:
  "q_addtail 2 (\<lambda>_. False) 9
      \<lparr>q_size = 2, q_nextwrite = 1, q_nextread = 0, q_data = [Some 5, None]\<rparr> =
     Some (Inl ENOMEM, \<lparr>q_size = 2, q_nextwrite = 1, q_nextread = 0, q_data = [Some (5 :: nat), None]\<rparr>)"
proof -
  have "q_rep \<lparr>q_size = 2, q_nextwrite = 1, q_nextread = 0, q_data = [Some (5 :: nat), None]\<rparr> [5]"
    by (rule q_repI [where n = 2 and r = 0]) auto
  from q_preallocate_one_short [OF this, of 0 "\<lambda>_. True" 9] show ?thesis
    by (simp add: numeral_2_eq_2)
qed

end
