(* ===== verification/Copyinout.thy ===== *)
theory Copyinout
  imports OS_Prelude
begin

text \<open>
  Copying between kernel and user memory, \<^verbatim>\<open>kern/lib/copyinout.c\<close>. The memory the processor
  sees is a byte per address together with which addresses can be read and written without a
  fatal fault. A fatal fault while \<^verbatim>\<open>pcb_badfaultfunc\<close> is set resumes in \<^verbatim>\<open>copyfail\<close>, that is,
  at the \<^verbatim>\<open>setjmp\<close> of the copying function, which returns \<^verbatim>\<open>EFAULT\<close>; without it the kernel dies.
  Bytes are copied in ascending order, so the bytes before the faulting one have been copied.
\<close>

section \<open>Definitions\<close>

record mem =
  m_byte :: "nat \<Rightarrow> byte"
  m_readable :: "nat \<Rightarrow> bool"
  m_writable :: "nat \<Rightarrow> bool"
  pcb_badfaultfunc :: bool

definition USERTOP :: nat where
  "USERTOP = 2147483648"

text \<open>Single accesses through a user pointer. A fault that is recovered is the error \<^verbatim>\<open>EFAULT\<close>.\<close>

definition mem_load :: "nat \<Rightarrow> (mem, byte) kern" where
  "mem_load a m =
     (if m_readable m a then Some (Inr (m_byte m a), m)
      else if pcb_badfaultfunc m then Some (Inl EFAULT, m) else None)"

definition mem_store :: "nat \<Rightarrow> byte \<Rightarrow> (mem, unit) kern" where
  "mem_store a b m =
     (if m_writable m a then Some (Inr (), m\<lparr>m_byte := (m_byte m)(a := b)\<rparr>)
      else if pcb_badfaultfunc m then Some (Inl EFAULT, m) else None)"

text \<open>\<^verbatim>\<open>memcpy\<close> from and to user memory.\<close>

fun load_bytes :: "nat \<Rightarrow> nat \<Rightarrow> (mem, byte list) kern" where
  "load_bytes a 0 = retK []"
| "load_bytes a (Suc n) =
     bindK (mem_load a) (\<lambda>b. bindK (load_bytes (Suc a) n) (\<lambda>bs. retK (b # bs)))"

fun store_bytes :: "nat \<Rightarrow> byte list \<Rightarrow> (mem, unit) kern" where
  "store_bytes a [] = retK ()"
| "store_bytes a (b # bs) = bindK (mem_store a b) (\<lambda>_. store_bytes (Suc a) bs)"

text \<open>
  Run a body with \<^verbatim>\<open>pcb_badfaultfunc\<close> set: \<^verbatim>\<open>copyfail\<close> jumps back to the \<^verbatim>\<open>setjmp\<close>, which clears the
  field and returns \<^verbatim>\<open>EFAULT\<close>; the normal path clears it too.
\<close>

definition with_copyfail :: "(mem, 'a) kern \<Rightarrow> (mem, 'a) kern" where
  "with_copyfail body =
     bindK (modK (\<lambda>m. m\<lparr>pcb_badfaultfunc := True\<rparr>)) (\<lambda>_.
     bindK (tryK body) (\<lambda>r.
     bindK (modK (\<lambda>m. m\<lparr>pcb_badfaultfunc := False\<rparr>)) (\<lambda>_. resultK r)))"

text \<open>\<^verbatim>\<open>copycheck\<close>: the error, or the value of \<^verbatim>\<open>*stoplen\<close>.\<close>

definition copycheck :: "nat \<Rightarrow> nat \<Rightarrow> errno + nat" where
  "copycheck userptr len =
     (let bot = userptr; top = u32 (bot + len + 4294967295) in
      if top < bot then Inl EFAULT
      else if bot \<ge> USERTOP then Inl EFAULT
      else if top \<ge> USERTOP then Inr (USERTOP - bot)
      else Inr len)"

definition copyin :: "nat \<Rightarrow> nat \<Rightarrow> (mem, byte list) kern" where
  "copyin usersrc len =
     (case copycheck usersrc len of
        Inl e \<Rightarrow> failK e
      | Inr stoplen \<Rightarrow>
          if stoplen \<noteq> len then failK EFAULT else with_copyfail (load_bytes usersrc len))"

definition copyout :: "byte list \<Rightarrow> nat \<Rightarrow> (mem, unit) kern" where
  "copyout src userdest =
     (case copycheck userdest (length src) of
        Inl e \<Rightarrow> failK e
      | Inr stoplen \<Rightarrow>
          if stoplen \<noteq> length src then failK EFAULT else with_copyfail (store_bytes userdest src))"

text \<open>
  \<^verbatim>\<open>copystr\<close> with its two pointers as accessors: \<open>get i\<close> is \<^verbatim>\<open>src[i]\<close>, \<open>put i\<close> stores \<^verbatim>\<open>dest[i]\<close>.
  The result is \<^verbatim>\<open>*gotlen\<close>.
\<close>

function copystr_from :: "nat \<Rightarrow> (nat \<Rightarrow> ('s, byte) kern) \<Rightarrow> (nat \<Rightarrow> byte \<Rightarrow> ('s, unit) kern)
    \<Rightarrow> nat \<Rightarrow> nat \<Rightarrow> ('s, nat) kern" where
  "copystr_from i get put maxlen stoplen =
     (if i < maxlen \<and> i < stoplen then
        bindK (get i) (\<lambda>b. bindK (put i b) (\<lambda>_.
          if b = 0 then retK (i + 1) else copystr_from (Suc i) get put maxlen stoplen))
      else if stoplen < maxlen then failK EFAULT else failK ENAMETOOLONG)"
  by pat_completeness auto
termination
  by (relation "measure (\<lambda>(i, get, put, maxlen, stoplen). maxlen - i)") auto

declare copystr_from.simps [simp del]

definition copystr :: "(nat \<Rightarrow> ('s, byte) kern) \<Rightarrow> (nat \<Rightarrow> byte \<Rightarrow> ('s, unit) kern)
    \<Rightarrow> nat \<Rightarrow> nat \<Rightarrow> ('s, nat) kern" where
  "copystr get put maxlen stoplen = copystr_from 0 get put maxlen stoplen"

text \<open>A kernel buffer next to the memory: storing outside of it is undefined.\<close>

definition kbuf_put :: "nat \<Rightarrow> byte \<Rightarrow> (mem \<times> byte list, unit) kern" where
  "kbuf_put i b s = (case s of (m, d) \<Rightarrow>
     if i < length d then Some (Inr (), (m, d[i := b])) else None)"

definition kbuf_get :: "nat \<Rightarrow> (mem \<times> byte list, byte) kern" where
  "kbuf_get i s = (case s of (m, d) \<Rightarrow> if i < length d then Some (Inr (d ! i), s) else None)"

definition on_mem :: "(mem, 'a) kern \<Rightarrow> (mem \<times> byte list, 'a) kern" where
  "on_mem = zoomK fst (\<lambda>m s. (m, snd s))"

definition copyinstr :: "nat \<Rightarrow> nat \<Rightarrow> (mem \<times> byte list, nat) kern" where
  "copyinstr usersrc len =
     (case copycheck usersrc len of
        Inl e \<Rightarrow> failK e
      | Inr stoplen \<Rightarrow>
          bindK (on_mem (modK (\<lambda>m. m\<lparr>pcb_badfaultfunc := True\<rparr>))) (\<lambda>_.
          bindK (tryK (copystr (\<lambda>i. on_mem (mem_load (usersrc + i))) kbuf_put len stoplen)) (\<lambda>r.
          bindK (on_mem (modK (\<lambda>m. m\<lparr>pcb_badfaultfunc := False\<rparr>))) (\<lambda>_. resultK r))))"

definition copyoutstr :: "nat \<Rightarrow> nat \<Rightarrow> (mem \<times> byte list, nat) kern" where
  "copyoutstr userdest len =
     (case copycheck userdest len of
        Inl e \<Rightarrow> failK e
      | Inr stoplen \<Rightarrow>
          bindK (on_mem (modK (\<lambda>m. m\<lparr>pcb_badfaultfunc := True\<rparr>))) (\<lambda>_.
          bindK (tryK (copystr kbuf_get (\<lambda>i b. on_mem (mem_store (userdest + i) b)) len stoplen)) (\<lambda>r.
          bindK (on_mem (modK (\<lambda>m. m\<lparr>pcb_badfaultfunc := False\<rparr>))) (\<lambda>_. resultK r))))"

section \<open>Blocks of memory\<close>

definition get_at :: "nat \<Rightarrow> nat \<Rightarrow> (nat \<Rightarrow> byte) \<Rightarrow> byte list" where
  "get_at a n f = map f [a..<a + n]"

definition put_at :: "nat \<Rightarrow> byte list \<Rightarrow> (nat \<Rightarrow> byte) \<Rightarrow> nat \<Rightarrow> byte" where
  "put_at a bs f = (\<lambda>x. if a \<le> x \<and> x < a + length bs then bs ! (x - a) else f x)"

lemma length_get_at [simp]: "length (get_at a n f) = n"
  by (simp add: get_at_def)

lemma nth_get_at [simp]: "i < n \<Longrightarrow> get_at a n f ! i = f (a + i)"
  by (simp add: get_at_def)

lemma put_at_Nil [simp]: "put_at a [] f = f"
  by (rule ext) (auto simp: put_at_def)

lemma put_at_outside [simp]: "x < a \<or> a + length bs \<le> x \<Longrightarrow> put_at a bs f x = f x"
  by (auto simp: put_at_def)

lemma get_put_at [simp]: "get_at a (length bs) (put_at a bs f) = bs"
  by (rule nth_equalityI) (simp_all add: put_at_def)

lemma get_put_disjoint:
  "a + n \<le> b \<or> b + length bs \<le> a \<Longrightarrow> get_at a n (put_at b bs f) = get_at a n f"
  by (auto simp: get_at_def put_at_def)

lemma put_at_append: "put_at (a + length bs) cs (put_at a bs f) = put_at a (bs @ cs) f"
  by (auto simp: put_at_def nth_append fun_eq_iff)

lemma put_at_Cons: "put_at (Suc a) bs (f(a := b)) = put_at a (b # bs) f"
  by (auto simp: put_at_def fun_eq_iff nth_Cons' Suc_le_eq)

lemma get_at_Suc: "get_at a (Suc n) f = f a # get_at (Suc a) n f"
  by (rule nth_equalityI) (simp_all add: nth_Cons split: nat.split)

lemma get_at_append: "get_at a m f @ get_at (a + m) n f = get_at a (m + n) f"
  by (rule nth_equalityI) (auto simp: nth_append)

lemma take_get_at: "take k (get_at a n f) = get_at a (min k n) f"
  by (rule nth_equalityI) (simp_all add: min.commute)

section \<open>Lemmas\<close>

lemma wp_load [wp]:
  "wpK (mem_load a) Q E =
     (\<lambda>m. if m_readable m a then Q (m_byte m a) m else pcb_badfaultfunc m \<and> E EFAULT m)"
  by (rule ext) (simp add: wpK_def mem_load_def)

lemma wp_store [wp]:
  "wpK (mem_store a b) Q E =
     (\<lambda>m. if m_writable m a then Q () (m\<lparr>m_byte := (m_byte m)(a := b)\<rparr>)
      else pcb_badfaultfunc m \<and> E EFAULT m)"
  by (rule ext) (simp add: wpK_def mem_store_def)

lemma load_bytes_wp:
  "pcb_badfaultfunc m \<Longrightarrow>
     wpK (load_bytes a n) (\<lambda>bs m'. m' = m \<and> bs = get_at a n (m_byte m))
       (\<lambda>e m'. e = EFAULT \<and> m' = m \<and> (\<exists>x \<ge> a. x < a + n \<and> \<not> m_readable m x)) m"
proof (induction n arbitrary: a)
  case 0
  then show ?case by (simp add: wp get_at_def)
next
  case (Suc n)
  from Suc.IH [of "Suc a"] Suc.prems have "wpK (load_bytes (Suc a) n)
      (\<lambda>bs m'. m' = m \<and> m_byte m a # bs = get_at a (Suc n) (m_byte m))
      (\<lambda>e m'. e = EFAULT \<and> m' = m \<and> (\<exists>x \<ge> a. x < a + Suc n \<and> \<not> m_readable m x)) m"
    by (intro wp_mono [OF Suc.IH [of "Suc a"]]) (auto simp: get_at_Suc intro: Suc_leD)
  with Suc.prems show ?case
    by (auto simp: wp)
qed

lemma store_bytes_wp:
  "pcb_badfaultfunc m \<Longrightarrow>
     wpK (store_bytes a bs)
       (\<lambda>_ m'. (\<forall>j < length bs. m_writable m (a + j)) \<and> m' = m\<lparr>m_byte := put_at a bs (m_byte m)\<rparr>)
       (\<lambda>e m'. e = EFAULT \<and> (\<exists>k < length bs. (\<forall>j < k. m_writable m (a + j)) \<and> \<not> m_writable m (a + k) \<and>
          m' = m\<lparr>m_byte := put_at a (take k bs) (m_byte m)\<rparr>)) m"
proof (induction bs arbitrary: a m)
  case Nil
  then show ?case by (simp add: wp)
next
  case (Cons b bs)
  show ?case
  proof (cases "m_writable m a")
    case True
    let ?m = "m\<lparr>m_byte := (m_byte m)(a := b)\<rparr>"
    have more: "(\<forall>j < Suc k. m_writable m (a + j)) \<longleftrightarrow> (\<forall>j < k. m_writable m (Suc a + j))" for k
      using True by (auto simp: less_Suc_eq_0_disj)
    have "wpK (store_bytes (Suc a) bs)
       (\<lambda>_ m'. (\<forall>j < Suc (length bs). m_writable m (a + j)) \<and> m' = m\<lparr>m_byte := put_at a (b # bs) (m_byte m)\<rparr>)
       (\<lambda>e m'. e = EFAULT \<and> (\<exists>k < length (b # bs). (\<forall>j < k. m_writable m (a + j)) \<and> \<not> m_writable m (a + k) \<and>
          m' = m\<lparr>m_byte := put_at a (take k (b # bs)) (m_byte m)\<rparr>)) ?m"
    proof (rule wp_mono [OF Cons.IH [of ?m "Suc a"]])
      fix e m'
      assume "e = EFAULT \<and> (\<exists>k < length bs. (\<forall>j < k. m_writable ?m (Suc a + j)) \<and> \<not> m_writable ?m (Suc a + k) \<and>
          m' = ?m\<lparr>m_byte := put_at (Suc a) (take k bs) (m_byte ?m)\<rparr>)"
      then obtain k where "e = EFAULT" "k < length bs" "\<forall>j < Suc k. m_writable m (a + j)" "\<not> m_writable m (a + Suc k)"
          "m' = m\<lparr>m_byte := put_at a (take (Suc k) (b # bs)) (m_byte m)\<rparr>"
        unfolding more by (auto simp: put_at_Cons)
      then show "e = EFAULT \<and> (\<exists>k < length (b # bs). (\<forall>j < k. m_writable m (a + j)) \<and> \<not> m_writable m (a + k) \<and>
          m' = m\<lparr>m_byte := put_at a (take k (b # bs)) (m_byte m)\<rparr>)"
        by (metis Suc_less_eq length_Cons)
    qed (use Cons.prems more put_at_Cons [of a bs "m_byte m" b] in \<open>simp_all add: fun_upd_def\<close>)
    with True show ?thesis
      by (simp add: wp)
  next
    case False
    with Cons.prems show ?thesis
      by (auto simp: wp intro!: exI [of _ 0])
  qed
qed

lemma copycheck_cases:
  assumes "p < 4294967296" "0 < len" "len < 4294967296"
  shows "copycheck p len = (if USERTOP \<le> p \<or> 4294967296 < p + len then Inl EFAULT
     else if USERTOP < p + len then Inr (USERTOP - p) else Inr len)"
proof -
  have "u32 (p + len + 4294967295) = (if p + len \<le> 4294967296 then p + len - 1 else p + len - 1 - 4294967296)"
  proof (cases "p + len \<le> 4294967296")
    case True
    have "p + len + 4294967295 = (p + len - 1) + 4294967296" using assms by simp
    then have "u32 (p + len + 4294967295) = (p + len - 1) mod 4294967296"
      by (simp only: u32_def mod_add_self2)
    with True assms show ?thesis by simp
  next
    case False
    have "p + len + 4294967295 = (p + len - 1 - 4294967296) + 4294967296 * 2" using False by simp
    moreover have "p + len - 1 - 4294967296 < 4294967296" using assms by simp
    ultimately show ?thesis using False by (simp only: u32_def mod_mult_self2 mod_less) simp
  qed
  then show ?thesis using assms by (auto simp: copycheck_def Let_def USERTOP_def)
qed

lemma copycheck_zero: "p < 4294967296 \<Longrightarrow> copycheck p 0 \<in> {Inl EFAULT, Inr USERTOP}"
proof (cases "p = 0")
  case False
  assume "p < 4294967296"
  have "p + 0 + 4294967295 = (p - 1) + 4294967296" using False by simp
  then have "u32 (p + 0 + 4294967295) = (p - 1) mod 4294967296"
    by (simp only: u32_def mod_add_self2)
  moreover have "(p - 1) mod 4294967296 = p - 1" using \<open>p < 4294967296\<close> by simp
  ultimately have "u32 (p + 4294967295) = p - 1" by simp
  then show ?thesis using False by (simp add: copycheck_def Let_def)
qed (simp add: copycheck_def USERTOP_def)

lemma wp_with_copyfail:
  "wpK (with_copyfail body) Q E =
     (\<lambda>m. wpK body (\<lambda>a m'. Q a (m'\<lparr>pcb_badfaultfunc := False\<rparr>))
       (\<lambda>e m'. E e (m'\<lparr>pcb_badfaultfunc := False\<rparr>)) (m\<lparr>pcb_badfaultfunc := True\<rparr>))"
  by (simp add: with_copyfail_def wp)

lemma copyin_wp:
  assumes "p < 4294967296" "0 < len" "len < 4294967296" and bf: "\<not> pcb_badfaultfunc m"
  shows "wpK (copyin p len)
     (\<lambda>bs m'. p + len \<le> USERTOP \<and> bs = get_at p len (m_byte m) \<and> m' = m)
     (\<lambda>e m'. e = EFAULT \<and> m' = m \<and>
        (USERTOP < p + len \<or> (\<exists>x \<ge> p. x < p + len \<and> \<not> m_readable m x))) m"
proof (cases "p + len \<le> USERTOP")
  case True
  then have eq: "copyin p len = with_copyfail (load_bytes p len)"
    using assms by (simp add: copyin_def copycheck_cases USERTOP_def)
  have m: "m\<lparr>pcb_badfaultfunc := False\<rparr> = m" using bf by simp
  have "wpK (load_bytes p len)
      (\<lambda>bs m'. m' = m\<lparr>pcb_badfaultfunc := True\<rparr> \<and> bs = get_at p len (m_byte (m\<lparr>pcb_badfaultfunc := True\<rparr>)))
      (\<lambda>e m'. e = EFAULT \<and> m' = m\<lparr>pcb_badfaultfunc := True\<rparr> \<and>
         (\<exists>x \<ge> p. x < p + len \<and> \<not> m_readable (m\<lparr>pcb_badfaultfunc := True\<rparr>) x))
      (m\<lparr>pcb_badfaultfunc := True\<rparr>)"
    by (rule load_bytes_wp) simp
  then show ?thesis
    unfolding eq wp_with_copyfail by (rule wp_mono) (use True m in auto)
next
  case False
  then show ?thesis
    using assms by (auto simp: copyin_def copycheck_cases wp USERTOP_def)
qed

text \<open>
  A copy to user memory that fails has stored the bytes before the first it could not store, and
  none at all if the range leaves user space.
\<close>

lemma copyout_wp:
  assumes "p < 4294967296" "src \<noteq> []" "length src < 4294967296" and bf: "\<not> pcb_badfaultfunc m"
  shows "wpK (copyout src p)
     (\<lambda>_ m'. p + length src \<le> USERTOP \<and> (\<forall>j < length src. m_writable m (p + j)) \<and>
        m' = m\<lparr>m_byte := put_at p src (m_byte m)\<rparr>)
     (\<lambda>e m'. e = EFAULT \<and> (\<exists>k < length src. m' = m\<lparr>m_byte := put_at p (take k src) (m_byte m)\<rparr> \<and>
          (if USERTOP < p + length src then k = 0 else (\<forall>j < k. m_writable m (p + j)) \<and> \<not> m_writable m (p + k)))) m"
proof (cases "p + length src \<le> USERTOP")
  case True
  moreover have "0 < length src" using assms(2) by simp
  ultimately have eq: "copyout src p = with_copyfail (store_bytes p src)"
    using assms(1,3) by (simp add: copyout_def copycheck_cases USERTOP_def del: length_greater_0_conv)
  have m: "m\<lparr>m_byte := f, pcb_badfaultfunc := False\<rparr> = m\<lparr>m_byte := f\<rparr>" for f using bf by simp
  have "wpK (store_bytes p src)
      (\<lambda>_ m'. (\<forall>j < length src. m_writable m (p + j)) \<and>
         m' = m\<lparr>pcb_badfaultfunc := True, m_byte := put_at p src (m_byte m)\<rparr>)
      (\<lambda>e m'. e = EFAULT \<and> (\<exists>k < length src. (\<forall>j < k. m_writable m (p + j)) \<and> \<not> m_writable m (p + k) \<and>
         m' = m\<lparr>pcb_badfaultfunc := True, m_byte := put_at p (take k src) (m_byte m)\<rparr>))
      (m\<lparr>pcb_badfaultfunc := True\<rparr>)"
    using store_bytes_wp [of "m\<lparr>pcb_badfaultfunc := True\<rparr>" p src] by simp
  then show ?thesis
    unfolding eq wp_with_copyfail by (rule wp_mono) (use True m in auto)
next
  case False
  then show ?thesis
    using assms by (auto simp: copyout_def copycheck_cases wp USERTOP_def intro!: exI [of _ 0])
qed

text \<open>The string loop reading user memory into a kernel buffer.\<close>

lemma copystr_in_step:
  assumes "i < maxlen" "i < stoplen" "i < length d" "pcb_badfaultfunc m"
  shows "wpK (copystr_from i (\<lambda>i. on_mem (mem_load (p + i))) kbuf_put maxlen stoplen) Q E (m, d) =
    (if m_readable m (p + i)
     then if m_byte m (p + i) = 0 then Q (i + 1) (m, d[i := 0])
       else wpK (copystr_from (Suc i) (\<lambda>i. on_mem (mem_load (p + i))) kbuf_put maxlen stoplen) Q E
              (m, d[i := m_byte m (p + i)])
     else E EFAULT (m, d))"
proof -
  have "wpK (kbuf_put i b) Q' E' (m, d) = Q' () (m, d[i := b])" for b Q' E'
    using assms(3) by (simp add: wpK_def kbuf_put_def)
  then show ?thesis
    using assms by (subst copystr_from.simps) (simp add: wp on_mem_def)
qed

lemma copystr_in_stop:
  assumes "\<not> (i < maxlen \<and> i < stoplen)"
  shows "wpK (copystr_from i get put maxlen stoplen) Q E s =
    E (if stoplen < maxlen then EFAULT else ENAMETOOLONG) s"
  using assms by (subst copystr_from.simps) (auto simp: wp)

text \<open>What \<^verbatim>\<open>copyinstr\<close> may report, and when.\<close>

definition instr_error :: "mem \<Rightarrow> nat \<Rightarrow> nat \<Rightarrow> nat \<Rightarrow> errno \<Rightarrow> bool" where
  "instr_error m p maxlen stoplen e \<longleftrightarrow>
     (e = ENAMETOOLONG \<and> maxlen \<le> stoplen \<and> (\<forall>k < maxlen. m_byte m (p + k) \<noteq> 0)) \<or>
     (e = EFAULT \<and> stoplen < maxlen \<and> (\<forall>k < stoplen. m_byte m (p + k) \<noteq> 0)) \<or>
     (e = EFAULT \<and> (\<exists>k < min maxlen stoplen. \<not> m_readable m (p + k) \<and> (\<forall>j < k. m_byte m (p + j) \<noteq> 0)))"

definition instr_result :: "mem \<Rightarrow> nat \<Rightarrow> nat \<Rightarrow> bool" where
  "instr_result m p n \<longleftrightarrow> 0 < n \<and> m_byte m (p + (n - 1)) = 0 \<and> (\<forall>k < n - 1. m_byte m (p + k) \<noteq> 0)"

lemma copystr_in_wp:
  assumes "maxlen \<le> length d" "pcb_badfaultfunc m" "i \<le> maxlen" "i \<le> stoplen"
    "\<forall>k < i. m_byte m (p + k) \<noteq> 0"
  shows "wpK (copystr_from i (\<lambda>i. on_mem (mem_load (p + i))) kbuf_put maxlen stoplen)
     (\<lambda>n s. n \<le> min maxlen stoplen \<and> i < n \<and> instr_result m p n \<and>
        s = (m, take i d @ get_at (p + i) (n - i) (m_byte m) @ drop n d))
     (\<lambda>e s. fst s = m \<and> instr_error m p maxlen stoplen e) (m, d)"
  using assms
proof (induction "maxlen - i" arbitrary: i d)
  case 0
  then show ?case by (subst copystr_in_stop) (auto simp: instr_error_def)
next
  case (Suc c)
  show ?case
  proof (cases "i < maxlen \<and> i < stoplen")
    case False
    with Suc.prems have "i = stoplen \<and> stoplen < maxlen" using Suc.hyps(2) by auto
    with Suc.prems show ?thesis by (subst copystr_in_stop) (auto simp: instr_error_def)
  next
    case True
    let ?b = "m_byte m (p + i)"
    have upd: "d[i := ?b] = take i d @ ?b # drop (Suc i) d"
      using True Suc.prems(1) by (simp add: upd_conv_take_nth_drop)
    have d: "take (Suc i) (d[i := ?b]) = take i d @ [?b]"
      using True Suc.prems(1) by (simp add: take_Suc_conv_app_nth)
    have step: "get_at (p + i) (n - i) (m_byte m) = ?b # get_at (Suc (p + i)) (n - Suc i) (m_byte m)"
      if "i < n" for n
      using that get_at_Suc [of "p + i" "n - Suc i" "m_byte m"] by (simp add: Suc_diff_Suc)
    consider (fault) "\<not> m_readable m (p + i)" | (nul) "m_readable m (p + i)" "?b = 0"
      | (more) "m_readable m (p + i)" "?b \<noteq> 0" by blast
    then show ?thesis
    proof cases
      case fault
      then show ?thesis
        using True Suc.prems by (subst copystr_in_step) (auto simp: instr_error_def)
    next
      case nul
      then show ?thesis
        using True Suc.prems upd by (subst copystr_in_step) (auto simp: instr_result_def get_at_def)
    next
      case more
      have "wpK (copystr_from (Suc i) (\<lambda>i. on_mem (mem_load (p + i))) kbuf_put maxlen stoplen)
         (\<lambda>n s. n \<le> min maxlen stoplen \<and> i < n \<and> instr_result m p n \<and>
            s = (m, take i d @ get_at (p + i) (n - i) (m_byte m) @ drop n d))
         (\<lambda>e s. fst s = m \<and> instr_error m p maxlen stoplen e) (m, d[i := ?b])"
      proof (rule wp_mono [OF Suc.hyps(1)])
        show "\<forall>k < Suc i. m_byte m (p + k) \<noteq> 0" using Suc.prems(5) more(2) by (simp add: less_Suc_eq)
      qed (use Suc.hyps(2) Suc.prems True d step in auto)
      then show ?thesis
        using more True Suc.prems(1,2) by (subst copystr_in_step) auto
    qed
  qed
qed

lemma copy_zero:
  assumes "p < 4294967296"
  shows "copyin p 0 = failK EFAULT" "copyout [] p = failK EFAULT"
  using copycheck_zero [OF assms] by (auto simp: copyin_def copyout_def USERTOP_def)

lemma copyinstr_wp:
  assumes "p < 4294967296" "0 < len" "len < 4294967296" "len \<le> length d"
  shows "wpK (copyinstr p len)
     (\<lambda>n s. n \<le> len \<and> p + n \<le> USERTOP \<and> instr_result m p n \<and>
        s = (m\<lparr>pcb_badfaultfunc := False\<rparr>, get_at p n (m_byte m) @ drop n d))
     (\<lambda>e s. m_byte (fst s) = m_byte m \<and>
        (if USERTOP \<le> p \<or> 4294967296 < p + len then e = EFAULT
         else instr_error m p len (min len (USERTOP - p)) e)) (m, d)"
proof (cases "USERTOP \<le> p \<or> 4294967296 < p + len")
  case True
  then show ?thesis
    using assms by (simp add: copyinstr_def copycheck_cases wp)
next
  case False
  let ?m = "m\<lparr>pcb_badfaultfunc := True\<rparr>"
  let ?stop = "min len (USERTOP - p)"
  have chk: "copycheck p len = Inr ?stop"
    using False assms by (auto simp: copycheck_cases min_def)
  have "wpK (copystr_from 0 (\<lambda>i. on_mem (mem_load (p + i))) kbuf_put len ?stop)
     (\<lambda>n s. n \<le> min len ?stop \<and> 0 < n \<and> instr_result ?m p n \<and>
        s = (?m, take 0 d @ get_at (p + 0) (n - 0) (m_byte ?m) @ drop n d))
     (\<lambda>e s. fst s = ?m \<and> instr_error ?m p len ?stop e) (?m, d)"
    using assms(4) by (intro copystr_in_wp) auto
  then have "wpK (copystr (\<lambda>i. on_mem (mem_load (p + i))) kbuf_put len ?stop)
     (\<lambda>n s. n \<le> len \<and> p + n \<le> USERTOP \<and> instr_result m p n \<and>
        (fst s)\<lparr>pcb_badfaultfunc := False\<rparr> = m\<lparr>pcb_badfaultfunc := False\<rparr> \<and>
        snd s = get_at p n (m_byte m) @ drop n d)
     (\<lambda>e s. m_byte (fst s) = m_byte m \<and> instr_error m p len ?stop e) (?m, d)"
    unfolding copystr_def
    by (rule wp_mono) (use False in \<open>auto simp: instr_result_def instr_error_def\<close>)
  then show ?thesis
    using False unfolding copyinstr_def chk sum.case
    by (simp add: wp on_mem_def prod_eq_iff)
qed

section \<open>Properties\<close>

text \<open>
  Property C25. \<^verbatim>\<open>copyout\<close>, called with \<^verbatim>\<open>pcb_badfaultfunc\<close> clear, whatever address and length it is
  given: when it succeeds, the whole block lies below \<^verbatim>\<open>USERTOP\<close> in writable memory and has been
  stored, and no other byte of memory has changed. Otherwise it reports \<^verbatim>\<open>EFAULT\<close>, and memory is as
  before but for a prefix of the block: nothing of it if the block is empty or does not lie below
  \<^verbatim>\<open>USERTOP\<close>, and otherwise the bytes before the first that cannot be written. So no byte outside the block, nor
  one at or above \<^verbatim>\<open>USERTOP\<close>, is ever changed. On both paths \<^verbatim>\<open>pcb_badfaultfunc\<close> is clear again, so
  a later kernel fault is not mistaken for one of a copy.
\<close>

theorem copyout_confined:
  assumes "p < 4294967296" and "length src < 4294967296" and "\<not> pcb_badfaultfunc m"
  shows "wpK (copyout src p)
     (\<lambda>_ m'. p + length src \<le> USERTOP \<and> (\<forall>j < length src. m_writable m (p + j)) \<and>
        m' = m\<lparr>m_byte := put_at p src (m_byte m)\<rparr> \<and> get_at p (length src) (m_byte m') = src \<and>
        (\<forall>x. x < p \<or> p + length src \<le> x \<or> USERTOP \<le> x \<longrightarrow> m_byte m' x = m_byte m x) \<and> \<not> pcb_badfaultfunc m')
     (\<lambda>e m'. e = EFAULT \<and> \<not> pcb_badfaultfunc m' \<and>
        (\<forall>x. x < p \<or> p + length src \<le> x \<or> USERTOP \<le> x \<longrightarrow> m_byte m' x = m_byte m x) \<and>
        (\<exists>k \<le> length src. m' = m\<lparr>m_byte := put_at p (take k src) (m_byte m)\<rparr> \<and>
           (if src = [] \<or> USERTOP < p + length src then k = 0 else k < length src \<and> (\<forall>j < k. m_writable m (p + j)) \<and> \<not> m_writable m (p + k)))) m"
proof (cases "src = []")
  case True
  then show ?thesis using copy_zero [OF assms(1)] assms(3) by (simp add: wp)
next
  case False
  show ?thesis
  proof (rule wp_mono [OF copyout_wp [OF assms(1) False assms(2,3)]])
    fix e m'
    assume "e = EFAULT \<and> (\<exists>k < length src. m' = m\<lparr>m_byte := put_at p (take k src) (m_byte m)\<rparr> \<and>
          (if USERTOP < p + length src then k = 0 else (\<forall>j < k. m_writable m (p + j)) \<and> \<not> m_writable m (p + k)))"
    then obtain k where k: "e = EFAULT" "k < length src" "m' = m\<lparr>m_byte := put_at p (take k src) (m_byte m)\<rparr>"
      "if USERTOP < p + length src then k = 0 else (\<forall>j < k. m_writable m (p + j)) \<and> \<not> m_writable m (p + k)" by blast
    then have "m_byte m' x = m_byte m x" if "x < p \<or> p + length src \<le> x \<or> USERTOP \<le> x" for x
      using that by (cases "k = 0") (auto intro!: put_at_outside split: if_splits)
    with k False assms(3) show "e = EFAULT \<and> \<not> pcb_badfaultfunc m' \<and>
        (\<forall>x. x < p \<or> p + length src \<le> x \<or> USERTOP \<le> x \<longrightarrow> m_byte m' x = m_byte m x) \<and>
        (\<exists>k \<le> length src. m' = m\<lparr>m_byte := put_at p (take k src) (m_byte m)\<rparr> \<and>
           (if src = [] \<or> USERTOP < p + length src then k = 0 else k < length src \<and> (\<forall>j < k. m_writable m (p + j)) \<and> \<not> m_writable m (p + k)))"
      by (auto intro!: exI [of _ k])
  qed (use assms(3) in auto)
qed

definition example_mem :: mem where
  "example_mem = \<lparr>m_byte = (\<lambda>a. of_nat a), m_readable = (\<lambda>a. a < 5000), m_writable = (\<lambda>a. a < 5000),
     pcb_badfaultfunc = False\<rparr>"

theorem copyout_confined_witness:
  "wpK (copyout [1, 2, 3] 4096)
     (\<lambda>_ m'. get_at 4096 3 (m_byte m') = [1, 2, 3] \<and> m_byte m' 4099 = m_byte example_mem 4099) (\<lambda>_ _. False) example_mem \<and>
   wpK (copyout [1, 2, 3] 4998) (\<lambda>_ _. False)
     (\<lambda>e m'. e = EFAULT \<and> m' = example_mem\<lparr>m_byte := put_at 4998 [1, 2] (m_byte example_mem)\<rparr>) example_mem"
proof
  show "wpK (copyout [1, 2, 3] 4096)
     (\<lambda>_ m'. get_at 4096 3 (m_byte m') = [1, 2, 3] \<and> m_byte m' 4099 = m_byte example_mem 4099) (\<lambda>_ _. False) example_mem"
    by (rule wp_mono [OF copyout_confined]) (auto simp: example_mem_def USERTOP_def numeral_3_eq_3)
  have two: "k = 2" if "\<forall>j < k. m_writable example_mem (4998 + j)" "\<not> m_writable example_mem (4998 + k)" for k
    using that(1) [rule_format, of 2] that(2) by (cases "2 < k") (auto simp: example_mem_def)
  have none: "\<not> (\<forall>j < length [1, 2, 3 :: byte]. m_writable example_mem (4998 + j))"
    by (rule notI, drule spec [of _ 2]) (simp add: example_mem_def)
  have part: "m' = example_mem\<lparr>m_byte := put_at 4998 [1, 2] (m_byte example_mem)\<rparr>"
    if "\<exists>k \<le> length [1, 2, 3 :: byte]. m' = example_mem\<lparr>m_byte := put_at 4998 (take k [1, 2, 3]) (m_byte example_mem)\<rparr> \<and>
      (if [1, 2, 3 :: byte] = [] \<or> USERTOP < 4998 + length [1, 2, 3 :: byte] then k = 0
       else k < length [1, 2, 3 :: byte] \<and> (\<forall>j < k. m_writable example_mem (4998 + j)) \<and> \<not> m_writable example_mem (4998 + k))" for m'
    using that by (auto simp: USERTOP_def dest!: two)
  show "wpK (copyout [1, 2, 3] 4998) (\<lambda>_ _. False)
     (\<lambda>e m'. e = EFAULT \<and> m' = example_mem\<lparr>m_byte := put_at 4998 [1, 2] (m_byte example_mem)\<rparr>) example_mem"
  proof (rule wp_mono [OF copyout_confined], goal_cases)
    case (4 a m')
    with none show ?case by (elim conjE) (erule (1) notE)
  next
    case (5 e m')
    then show ?case by (elim conjE) (intro conjI part)
  qed (simp_all add: example_mem_def)
qed

text \<open>
  Property C28. \<^verbatim>\<open>copyinstr\<close> delivers the bytes of the user string up to and including its first
  NUL, and the length counting the NUL, only if they all lie below \<^verbatim>\<open>USERTOP\<close> and within the
  buffer. It reports \<^verbatim>\<open>ENAMETOOLONG\<close> exactly when the whole allowed length, inside user space,
  holds no NUL, and \<^verbatim>\<open>EFAULT\<close> for a bad address, a fault, or a string that runs into the kernel.
\<close>

theorem copyinstr_exact:
  assumes "p < 4294967296" and "0 < len" and "len < 4294967296" and "len \<le> length d"
  shows "wpK (copyinstr p len)
     (\<lambda>n s. n \<le> len \<and> p + n \<le> USERTOP \<and> instr_result m p n \<and>
        s = (m\<lparr>pcb_badfaultfunc := False\<rparr>, get_at p n (m_byte m) @ drop n d))
     (\<lambda>e s. m_byte (fst s) = m_byte m \<and>
        (if USERTOP \<le> p \<or> 4294967296 < p + len then e = EFAULT
         else instr_error m p len (min len (USERTOP - p)) e)) (m, d)"
  by (rule copyinstr_wp [OF assms])

theorem copyinstr_exact_witness:
  "wpK (copyinstr 250 10) (\<lambda>n s. n \<le> 10 \<and> instr_result example_mem 250 n)
     (\<lambda>e s. e = EFAULT \<or> e = ENAMETOOLONG) (example_mem, replicate 16 0)"
  by (rule wp_mono [OF copyinstr_exact]) (auto simp: USERTOP_def instr_error_def)

text \<open>
  A copy of no bytes is refused with \<^verbatim>\<open>EFAULT\<close> at every address, although an empty
  block lies in user space wherever it starts below \<^verbatim>\<open>USERTOP\<close>: the end address
  \<^verbatim>\<open>bot + len - 1\<close> of \<^verbatim>\<open>copycheck\<close> lies below \<^verbatim>\<open>bot\<close>, or wraps to the top of memory.
\<close>

theorem copy_empty_refused:
  assumes "p < USERTOP"
  shows "copyin p 0 m = Some (Inl EFAULT, m) \<and> copyout [] p m = Some (Inl EFAULT, m)"
  using copy_zero [of p] assms by (simp add: failK_def USERTOP_def)

theorem copy_empty_refused_witness: "copyin 4096 0 example_mem = Some (Inl EFAULT, example_mem)"
  using copy_empty_refused [of 4096 example_mem] by (simp add: USERTOP_def)

end
