(* ===== verification/Uio.thy ===== *)
theory Uio
  imports Copyinout
begin

text \<open>
  The descriptors of a transfer, \<^verbatim>\<open>kern/include/uio.h\<close>, and \<^verbatim>\<open>kern/userprog/uio.c\<close>. The buffer an
  iovec names is the range of addresses from \<^verbatim>\<open>iov_base\<close> in \<open>uio_mem\<close>: kernel memory for
  \<^verbatim>\<open>UIO_SYSSPACE\<close>, the current address space otherwise. \<open>uio_curspace\<close> is
  \<^verbatim>\<open>curthread->t_vmspace\<close>. The kernel buffer \<^verbatim>\<open>ptr\<close> of \<^verbatim>\<open>uiomove\<close> is a list of bytes: a function
  that may change it returns its new contents.
\<close>

section \<open>Definitions\<close>

datatype uio_rw = UIO_READ | UIO_WRITE

datatype uio_seg = UIO_USERSPACE | UIO_SYSSPACE | UIO_USERISPACE

record uio =
  iov_base :: nat
  iov_len :: nat
  uio_offset :: int
  uio_resid :: nat
  uio_segflg :: uio_seg
  uio_rw :: uio_rw
  uio_space :: "nat option"
  uio_curspace :: "nat option"
  uio_mem :: mem

text \<open>The \<^verbatim>\<open>switch\<close> of \<^verbatim>\<open>uiomove\<close>: move \<open>n\<close> bytes between \<^verbatim>\<open>ptr\<close> and the iovec.\<close>

definition uio_xfer :: "byte list \<Rightarrow> nat \<Rightarrow> (uio, byte list) kern" where
  "uio_xfer ptr n u =
     (if length ptr < n then None else
      case uio_segflg u of
        UIO_SYSSPACE \<Rightarrow>
          (case uio_rw u of
             UIO_READ \<Rightarrow> Some (Inr ptr, u\<lparr>uio_mem := (uio_mem u)
                \<lparr>m_byte := put_at (iov_base u) (take n ptr) (m_byte (uio_mem u))\<rparr>\<rparr>)
           | UIO_WRITE \<Rightarrow> Some (Inr (get_at (iov_base u) n (m_byte (uio_mem u)) @ drop n ptr), u))
      | _ \<Rightarrow>
          (case uio_rw u of
             UIO_READ \<Rightarrow> bindK (zoomK uio_mem (\<lambda>m u. u\<lparr>uio_mem := m\<rparr>) (copyout (take n ptr) (iov_base u)))
                (\<lambda>_. retK ptr) u
           | UIO_WRITE \<Rightarrow> bindK (zoomK uio_mem (\<lambda>m u. u\<lparr>uio_mem := m\<rparr>) (copyin (iov_base u) n))
                (\<lambda>bs. retK (bs @ drop n ptr)) u))"

text \<open>The bookkeeping after a transfer of \<open>n\<close> bytes.\<close>

definition uio_advance :: "nat \<Rightarrow> uio \<Rightarrow> uio" where
  "uio_advance n u = u\<lparr>iov_base := u32 (iov_base u + n), iov_len := iov_len u - n,
     uio_resid := u32 (uio_resid u + 4294967296 - n), uio_offset := s32 (uio_offset u + int n)\<rparr>"

function uiomove_loop :: "byte list \<Rightarrow> nat \<Rightarrow> (uio, byte list) kern" where
  "uiomove_loop ptr n u =
     (if n > 0 \<and> uio_resid u > 0 then
        (let sz = min (iov_len u) n in
         if sz = 0 then None else
         (case uio_xfer ptr sz u of
            None \<Rightarrow> None
          | Some (Inl e, u') \<Rightarrow> Some (Inl e, u')
          | Some (Inr ptr', u') \<Rightarrow>
              (case uiomove_loop (drop sz ptr') (n - sz) (uio_advance sz u') of
                 Some (Inr rest, u'') \<Rightarrow> Some (Inr (take sz ptr' @ rest), u'')
               | r \<Rightarrow> r)))
      else Some (Inr ptr, u))"
  by pat_completeness auto
termination
  by (relation "measure (\<lambda>(ptr, n, u). n)") auto

declare uiomove_loop.simps [simp del]

definition uiomove :: "byte list \<Rightarrow> nat \<Rightarrow> (uio, byte list) kern" where
  "uiomove ptr n u =
     (if uio_segflg u = UIO_SYSSPACE \<and> uio_space u \<noteq> None then None
      else if uio_segflg u \<noteq> UIO_SYSSPACE \<and> uio_space u \<noteq> uio_curspace u then None
      else uiomove_loop ptr n u)"

text \<open>\<^verbatim>\<open>uiomovezeros\<close>, whose static buffer holds 16 zeros.\<close>

function uiomovezeros_loop :: "nat \<Rightarrow> (uio, unit) kern" where
  "uiomovezeros_loop n u =
     (if n > 0 then
        (let amt = min 16 n in
         case uiomove (replicate 16 0) amt u of
           None \<Rightarrow> None
         | Some (Inl e, u') \<Rightarrow> Some (Inl e, u')
         | Some (Inr _, u') \<Rightarrow> uiomovezeros_loop (n - amt) u')
      else Some (Inr (), u))"
  by pat_completeness auto
termination
  by (relation "measure (\<lambda>(n, u). n)") auto

declare uiomovezeros_loop.simps [simp del]

definition uiomovezeros :: "nat \<Rightarrow> (uio, unit) kern" where
  "uiomovezeros n u = (if uio_rw u = UIO_READ then uiomovezeros_loop n u else None)"

definition mk_kuio :: "nat \<Rightarrow> nat \<Rightarrow> int \<Rightarrow> uio_rw \<Rightarrow> mem \<Rightarrow> nat option \<Rightarrow> uio" where
  "mk_kuio kbuf len pos rw kmem cur =
     \<lparr>iov_base = kbuf, iov_len = len, uio_offset = pos, uio_resid = len, uio_segflg = UIO_SYSSPACE,
      uio_rw = rw, uio_space = None, uio_curspace = cur, uio_mem = kmem\<rparr>"

text \<open>Routines on one half of a state that consists of some object and a descriptor.\<close>

definition on_fst :: "('d, 'a) kern \<Rightarrow> ('d \<times> uio, 'a) kern" where
  "on_fst = zoomK fst (\<lambda>d s. (d, snd s))"

definition on_uio :: "(uio, 'a) kern \<Rightarrow> ('d \<times> uio, 'a) kern" where
  "on_uio = zoomK snd (\<lambda>u s. (fst s, u))"

section \<open>Well-formed descriptors\<close>

definition uio_ok :: "uio \<Rightarrow> bool" where
  "uio_ok u \<longleftrightarrow> (if uio_segflg u = UIO_SYSSPACE then uio_space u = None else uio_space u = uio_curspace u) \<and>
     uio_resid u \<le> iov_len u \<and> iov_base u + iov_len u < 4294967296 \<and> \<not> pcb_badfaultfunc (uio_mem u) \<and>
     - 2147483648 \<le> uio_offset u \<and> uio_offset u < 2147483648"

text \<open>The next \<open>n\<close> bytes of the buffer, and the descriptor after bytes were put there.\<close>

definition uio_next :: "nat \<Rightarrow> uio \<Rightarrow> byte list" where
  "uio_next n u = get_at (iov_base u) n (m_byte (uio_mem u))"

definition uio_skip :: "nat \<Rightarrow> uio \<Rightarrow> uio" where
  "uio_skip n u = u\<lparr>iov_base := iov_base u + n, iov_len := iov_len u - n,
     uio_resid := uio_resid u - n, uio_offset := s32 (uio_offset u + int n)\<rparr>"

definition uio_put :: "byte list \<Rightarrow> uio \<Rightarrow> uio" where
  "uio_put bs u = uio_skip (length bs) (u\<lparr>uio_mem := (uio_mem u)
     \<lparr>m_byte := put_at (iov_base u) bs (m_byte (uio_mem u))\<rparr>\<rparr>)"

text \<open>
  The descriptor with some bytes stored in its buffer and its fields as before; and what clients
  rely on when a transfer has faulted. The buffer faults if it leaves user space or has an
  address that cannot be accessed in the direction of the transfer.
\<close>

definition uio_poke :: "byte list \<Rightarrow> uio \<Rightarrow> uio" where
  "uio_poke bs u = u\<lparr>uio_mem := (uio_mem u)\<lparr>m_byte := put_at (iov_base u) bs (m_byte (uio_mem u))\<rparr>\<rparr>"

definition uio_bad :: "nat \<Rightarrow> uio \<Rightarrow> bool" where
  "uio_bad n u \<longleftrightarrow> uio_segflg u \<noteq> UIO_SYSSPACE \<and> (USERTOP < iov_base u + n \<or>
     (\<exists>x. iov_base u \<le> x \<and> x < iov_base u + n \<and>
        \<not> (case uio_rw u of UIO_READ \<Rightarrow> m_writable (uio_mem u) x | UIO_WRITE \<Rightarrow> m_readable (uio_mem u) x)))"

definition uio_faulted :: "uio \<Rightarrow> uio \<Rightarrow> bool" where
  "uio_faulted u u' \<longleftrightarrow> uio_segflg u \<noteq> UIO_SYSSPACE \<and> uio_rw u' = uio_rw u \<and> uio_segflg u' = uio_segflg u \<and>
     uio_resid u' = uio_resid u \<and> uio_offset u' = uio_offset u"

section \<open>Lemmas\<close>

lemma wp_on_fst [wp]:
  "wpK (on_fst m) Q E = (\<lambda>s. wpK m (\<lambda>a d. Q a (d, snd s)) (\<lambda>e d. E e (d, snd s)) (fst s))"
  by (simp add: on_fst_def wp)

lemma wp_on_uio [wp]:
  "wpK (on_uio m) Q E = (\<lambda>s. wpK m (\<lambda>a u. Q a (fst s, u)) (\<lambda>e u. E e (fst s, u)) (snd s))"
  by (simp add: on_uio_def wp)

lemma uio_skip_simps [simp]:
  "iov_base (uio_skip n u) = iov_base u + n" "iov_len (uio_skip n u) = iov_len u - n"
  "uio_resid (uio_skip n u) = uio_resid u - n" "uio_offset (uio_skip n u) = s32 (uio_offset u + int n)"
  "uio_segflg (uio_skip n u) = uio_segflg u" "uio_rw (uio_skip n u) = uio_rw u"
  "uio_space (uio_skip n u) = uio_space u" "uio_curspace (uio_skip n u) = uio_curspace u"
  "uio_mem (uio_skip n u) = uio_mem u"
  by (simp_all add: uio_skip_def)

lemma uio_put_simps [simp]:
  "iov_base (uio_put bs u) = iov_base u + length bs" "iov_len (uio_put bs u) = iov_len u - length bs"
  "uio_resid (uio_put bs u) = uio_resid u - length bs"
  "uio_offset (uio_put bs u) = s32 (uio_offset u + int (length bs))"
  "uio_segflg (uio_put bs u) = uio_segflg u" "uio_rw (uio_put bs u) = uio_rw u"
  "uio_space (uio_put bs u) = uio_space u" "uio_curspace (uio_put bs u) = uio_curspace u"
  "m_byte (uio_mem (uio_put bs u)) = put_at (iov_base u) bs (m_byte (uio_mem u))"
  "pcb_badfaultfunc (uio_mem (uio_put bs u)) = pcb_badfaultfunc (uio_mem u)"
  by (simp_all add: uio_put_def)

lemma uio_ok_skip [simp]: "uio_ok u \<Longrightarrow> n \<le> uio_resid u \<Longrightarrow> uio_ok (uio_skip n u)"
  by (auto simp: uio_ok_def s32_bounds)

lemma uio_ok_put [simp]: "uio_ok u \<Longrightarrow> length bs \<le> uio_resid u \<Longrightarrow> uio_ok (uio_put bs u)"
  by (auto simp: uio_ok_def s32_bounds)

lemma s32_add_s32 [simp]: "s32 (s32 a + b) = s32 (a + b)"
proof -
  have "(s32 a + b + 2147483648) mod 4294967296 = ((a + 2147483648) mod 4294967296 + b) mod 4294967296"
    by (simp add: s32_def)
  also have "\<dots> = (a + b + 2147483648) mod 4294967296"
    unfolding mod_add_left_eq by (simp only: ac_simps)
  finally show ?thesis by (simp only: s32_def)
qed

lemma uio_skip_add: "uio_skip n (uio_skip m u) = uio_skip (m + n) u"
  by (simp add: uio_skip_def add.assoc)

lemma uio_put_append: "uio_put cs (uio_put bs u) = uio_put (bs @ cs) u"
  by (simp add: uio_put_def uio_skip_def put_at_append add.assoc)

lemma uio_put_Nil [simp]: "uio_ok u \<Longrightarrow> uio_put [] u = u"
  by (simp add: uio_put_def uio_skip_def uio_ok_def)

lemma uio_skip_0 [simp]: "uio_ok u \<Longrightarrow> uio_skip 0 u = u"
  by (simp add: uio_skip_def uio_ok_def)

lemma uio_advance_eq: "uio_ok u \<Longrightarrow> n \<le> uio_resid u \<Longrightarrow> uio_advance n u = uio_skip n u"
proof -
  assume ok: "uio_ok u" "n \<le> uio_resid u"
  then have "uio_resid u + 4294967296 - n = (uio_resid u - n) + 4294967296"
    "uio_resid u - n < 4294967296" by (auto simp: uio_ok_def)
  then have "u32 (uio_resid u + 4294967296 - n) = uio_resid u - n"
    by (simp only: u32_def mod_add_self2 mod_less)
  with ok show ?thesis by (simp add: uio_advance_def uio_skip_def uio_ok_def)
qed

lemma uiomove_0: "uio_ok u \<Longrightarrow> uiomove ptr 0 u = Some (Inr ptr, u)"
  by (auto simp: uiomove_def uio_ok_def uiomove_loop.simps split: if_splits)

lemma uiomove_once:
  assumes "uio_ok u" "0 < n" "n \<le> uio_resid u"
  shows "uiomove ptr n u = bindK (uio_xfer ptr n) (\<lambda>p. bindK (modK (uio_advance n)) (\<lambda>_. retK p)) u"
proof -
  have min: "min (iov_len u) n = n" using assms by (auto simp: uio_ok_def)
  have stop: "uiomove_loop p 0 u' = Some (Inr p, u')" for p u'
    by (simp add: uiomove_loop.simps)
  have "uiomove ptr n u = uiomove_loop ptr n u"
    using assms(1) by (auto simp: uiomove_def uio_ok_def split: if_splits)
  also have "\<dots> = (case uio_xfer ptr n u of
            None \<Rightarrow> None
          | Some (Inl e, u') \<Rightarrow> Some (Inl e, u')
          | Some (Inr ptr', u') \<Rightarrow> Some (Inr ptr', uio_advance n u'))"
    using assms by (subst uiomove_loop.simps)
      (simp add: min stop Let_def split: option.splits sum.splits prod.splits)
  finally show ?thesis
    by (simp add: bindK_def modK_def retK_def split: option.splits sum.splits prod.splits)
qed

lemma uio_poke_simps [simp]:
  "iov_base (uio_poke bs u) = iov_base u" "iov_len (uio_poke bs u) = iov_len u" "uio_resid (uio_poke bs u) = uio_resid u"
  "uio_offset (uio_poke bs u) = uio_offset u" "uio_segflg (uio_poke bs u) = uio_segflg u" "uio_rw (uio_poke bs u) = uio_rw u"
  by (simp_all add: uio_poke_def)

lemma uio_put_poke: "uio_put bs u = uio_skip (length bs) (uio_poke bs u)"
  by (simp add: uio_put_def uio_poke_def)

lemma uio_ok_poke [simp]: "uio_ok (uio_poke bs u) \<longleftrightarrow> uio_ok u"
  by (simp add: uio_ok_def uio_poke_def)

lemma uio_xfer_read:
  assumes "uio_ok u" "uio_rw u = UIO_READ" "0 < n" "n \<le> uio_resid u" "n \<le> length ptr"
  shows "wpK (uio_xfer ptr n) (\<lambda>p u'. p = ptr \<and> u' = uio_poke (take n ptr) u)
     (\<lambda>e u'. e = EFAULT \<and> uio_bad n u \<and> (\<exists>k < n. u' = uio_poke (take k ptr) u)) u"
proof (cases "uio_segflg u = UIO_SYSSPACE")
  case True
  with assms show ?thesis by (simp add: wpK_def uio_xfer_def uio_poke_def)
next
  case False
  have base: "iov_base u < 4294967296" "take n ptr \<noteq> []" "length (take n ptr) < 4294967296"
    "\<not> pcb_badfaultfunc (uio_mem u)" and len: "min (length ptr) n = n"
    using assms by (auto simp: uio_ok_def)
  have "wpK (bindK (zoomK uio_mem (\<lambda>m u. u\<lparr>uio_mem := m\<rparr>) (copyout (take n ptr) (iov_base u)))
      (\<lambda>_. retK ptr)) (\<lambda>p u'. p = ptr \<and> u' = uio_poke (take n ptr) u)
      (\<lambda>e u'. e = EFAULT \<and> uio_bad n u \<and> (\<exists>k < n. u' = uio_poke (take k ptr) u)) u"
    unfolding wp_bind wp_zoom wp_ret
  proof (rule wp_mono [OF copyout_wp [OF base]])
    fix e m'
    assume "e = EFAULT \<and> (\<exists>k < length (take n ptr). m' = (uio_mem u)
        \<lparr>m_byte := put_at (iov_base u) (take k (take n ptr)) (m_byte (uio_mem u))\<rparr> \<and>
        (if USERTOP < iov_base u + length (take n ptr) then k = 0
         else (\<forall>j < k. m_writable (uio_mem u) (iov_base u + j)) \<and> \<not> m_writable (uio_mem u) (iov_base u + k)))"
    then obtain k where "e = EFAULT" "k < n" "u\<lparr>uio_mem := m'\<rparr> = uio_poke (take k ptr) u"
        "USERTOP < iov_base u + n \<or> \<not> m_writable (uio_mem u) (iov_base u + k)"
      using len by (auto simp: uio_poke_def min_absorb1 split: if_splits)
    then show "e = EFAULT \<and> uio_bad n u \<and> (\<exists>k < n. u\<lparr>uio_mem := m'\<rparr> = uio_poke (take k ptr) u)"
      using False assms(2) by (auto simp: uio_bad_def)
  qed (simp add: uio_poke_def)
  with False assms show ?thesis
    by (cases "uio_segflg u") (simp_all add: wpK_def uio_xfer_def)
qed

lemma uio_xfer_write:
  assumes "uio_ok u" "uio_rw u = UIO_WRITE" "0 < n" "n \<le> uio_resid u" "n \<le> length ptr"
  shows "wpK (uio_xfer ptr n) (\<lambda>p u'. p = uio_next n u @ drop n ptr \<and> u' = u)
      (\<lambda>e u'. e = EFAULT \<and> uio_bad n u \<and> u' = u) u"
proof (cases "uio_segflg u = UIO_SYSSPACE")
  case True
  with assms show ?thesis by (simp add: wpK_def uio_xfer_def uio_next_def)
next
  case False
  have base: "iov_base u < 4294967296" "0 < n" "n < 4294967296" "\<not> pcb_badfaultfunc (uio_mem u)"
    using assms by (auto simp: uio_ok_def)
  have "wpK (bindK (zoomK uio_mem (\<lambda>m u. u\<lparr>uio_mem := m\<rparr>) (copyin (iov_base u) n))
      (\<lambda>bs. retK (bs @ drop n ptr))) (\<lambda>p u'. p = uio_next n u @ drop n ptr \<and> u' = u)
      (\<lambda>e u'. e = EFAULT \<and> uio_bad n u \<and> u' = u) u"
    unfolding wp_bind wp_zoom wp_ret
    by (rule wp_mono [OF copyin_wp [OF base]]) (use False assms(2) in \<open>auto simp: uio_next_def uio_bad_def\<close>)
  with False assms show ?thesis
    by (cases "uio_segflg u") (simp_all add: wpK_def uio_xfer_def)
qed

lemma wp_uiomove_once:
  assumes "uio_ok u" "0 < n" "n \<le> uio_resid u"
    and "wpK (uio_xfer ptr n) (\<lambda>p u'. Q p (uio_advance n u')) E u"
  shows "wpK (uiomove ptr n) Q E u"
proof -
  have "wpK (bindK (uio_xfer ptr n) (\<lambda>p. bindK (modK (uio_advance n)) (\<lambda>_. retK p))) Q E u"
    using assms(4) by (simp add: wp)
  then show ?thesis using uiomove_once [OF assms(1-3)] by (simp add: wpK_def)
qed

lemma uiomove_read_exact:
  assumes "uio_ok u" "uio_rw u = UIO_READ" "n \<le> uio_resid u" "n \<le> length ptr" "0 < n"
  shows "wpK (uiomove ptr n) (\<lambda>p u'. p = ptr \<and> u' = uio_put (take n ptr) u)
     (\<lambda>e u'. e = EFAULT \<and> uio_bad n u \<and> (\<exists>k < n. u' = uio_poke (take k ptr) u)) u"
  by (rule wp_uiomove_once [OF assms(1,5,3)], rule wp_mono [OF uio_xfer_read [OF assms(1,2,5,3,4)]])
    (use assms in \<open>auto simp: uio_advance_eq uio_put_poke\<close>)

lemma uiomove_write_exact:
  assumes "uio_ok u" "uio_rw u = UIO_WRITE" "n \<le> uio_resid u" "n \<le> length ptr" "0 < n"
  shows "wpK (uiomove ptr n) (\<lambda>p u'. p = uio_next n u @ drop n ptr \<and> u' = uio_skip n u)
     (\<lambda>e u'. e = EFAULT \<and> uio_bad n u \<and> u' = u) u"
  by (rule wp_uiomove_once [OF assms(1,5,3)], rule wp_mono [OF uio_xfer_write [OF assms(1,2,5,3,4)]])
    (use assms in \<open>auto simp: uio_advance_eq\<close>)

lemma uiomove_read:
  assumes "uio_ok u" "uio_rw u = UIO_READ" "n \<le> uio_resid u" "n \<le> length ptr" "0 < n"
  shows "wpK (uiomove ptr n) (\<lambda>p u'. p = ptr \<and> u' = uio_put (take n ptr) u)
     (\<lambda>e u'. e = EFAULT \<and> uio_faulted u u') u"
  by (rule wp_mono [OF uiomove_read_exact [OF assms]]) (auto simp: uio_faulted_def uio_bad_def)

lemma uiomove_write:
  assumes "uio_ok u" "uio_rw u = UIO_WRITE" "n \<le> uio_resid u" "n \<le> length ptr" "0 < n"
  shows "wpK (uiomove ptr n) (\<lambda>p u'. p = uio_next n u @ drop n ptr \<and> u' = uio_skip n u)
     (\<lambda>e u'. e = EFAULT \<and> uio_faulted u u') u"
  by (rule wp_mono [OF uiomove_write_exact [OF assms]]) (auto simp: uio_faulted_def uio_bad_def)

lemma uiomovezeros_loop_wp:
  assumes "uio_ok u" "uio_rw u = UIO_READ" "n \<le> uio_resid u" "0 < n"
  shows "wpK (uiomovezeros_loop n) (\<lambda>_ u'. u' = uio_put (replicate n 0) u)
     (\<lambda>e u'. e = EFAULT \<and> uio_segflg u \<noteq> UIO_SYSSPACE \<and> uio_rw u' = UIO_READ) u"
  using assms
proof (induction n arbitrary: u rule: less_induct)
  case (less n)
  let ?amt = "min 16 n"
  have amt: "0 < ?amt" "?amt \<le> uio_resid u" "?amt \<le> length (replicate 16 (0 :: byte))"
    "take ?amt (replicate 16 0) = (replicate ?amt 0 :: byte list)" using less.prems by auto
  have "wpK (bindK (uiomove (replicate 16 0) ?amt) (\<lambda>_. uiomovezeros_loop (n - ?amt)))
      (\<lambda>_ u'. u' = uio_put (replicate n 0) u) (\<lambda>e u'. e = EFAULT \<and> uio_segflg u \<noteq> UIO_SYSSPACE \<and> uio_rw u' = UIO_READ) u"
    unfolding wp_bind
  proof (rule wp_mono [OF uiomove_read [OF less.prems(1,2) amt(2,3,1)]])
    fix p u'
    assume "p = replicate 16 0 \<and> u' = uio_put (take ?amt (replicate 16 0)) u"
    then have u': "u' = uio_put (replicate ?amt 0) u" using amt(4) by simp
    show "wpK (uiomovezeros_loop (n - ?amt)) (\<lambda>_ u'. u' = uio_put (replicate n 0) u)
        (\<lambda>e u'. e = EFAULT \<and> uio_segflg u \<noteq> UIO_SYSSPACE \<and> uio_rw u' = UIO_READ) u'"
    proof (cases "n \<le> 16")
      case True
      then show ?thesis using u' by (simp add: wpK_def uiomovezeros_loop.simps min_def)
    next
      case False
      have "replicate 16 0 @ replicate (n - 16) 0 = (replicate n 0 :: byte list)"
        using False by (simp flip: replicate_add)
      then show ?thesis
        using False less.prems u'
        by (intro wp_mono [OF less.IH [of "n - ?amt" u']]) (auto simp: uio_put_append)
    qed
  qed (use less.prems(2) in \<open>auto simp: uio_faulted_def\<close>)
  moreover have "uiomovezeros_loop n u =
      bindK (uiomove (replicate 16 0) ?amt) (\<lambda>_. uiomovezeros_loop (n - ?amt)) u"
    using less.prems by (subst uiomovezeros_loop.simps) (simp add: bindK_def Let_def)
  ultimately show ?case by (simp add: wpK_def)
qed

lemma uiomovezeros_wp:
  assumes "uio_ok u" "uio_rw u = UIO_READ" "n \<le> uio_resid u" "0 < n"
  shows "wpK (uiomovezeros n) (\<lambda>_ u'. u' = uio_put (replicate n 0) u)
     (\<lambda>e u'. e = EFAULT \<and> uio_segflg u \<noteq> UIO_SYSSPACE \<and> uio_rw u' = UIO_READ) u"
  using uiomovezeros_loop_wp [OF assms] assms(2) by (simp add: wpK_def uiomovezeros_def)

lemma mk_kuio_ok:
  "base + n < 4294967296 \<Longrightarrow> \<not> pcb_badfaultfunc m \<Longrightarrow> - 2147483648 \<le> pos \<Longrightarrow> pos < 2147483648 \<Longrightarrow>
     uio_ok (mk_kuio base n pos rw m cur)"
  by (simp add: mk_kuio_def uio_ok_def)

section \<open>Properties\<close>

text \<open>
  Property C29. On a well-formed descriptor that has room for them, \<^verbatim>\<open>uiomove\<close> in the reading
  direction stores exactly the \<open>n\<close> bytes of the kernel buffer at the iovec's address, every other
  byte of memory staying as it is, and in the writing direction replaces the first \<open>n\<close> bytes of
  the kernel buffer by those at the iovec's address and leaves memory alone. In both it moves
  \<^verbatim>\<open>iov_base\<close>, \<^verbatim>\<open>iov_len\<close>, \<^verbatim>\<open>uio_resid\<close> and \<^verbatim>\<open>uio_offset\<close> by \<open>n\<close>, changes no other field and leaves a
  well-formed descriptor. The only error is \<^verbatim>\<open>EFAULT\<close>, for a user buffer that leaves user space or
  has an address that cannot be accessed; then every field of the descriptor is as before, and
  memory too, but for a proper prefix of the \<open>n\<close> bytes in the reading direction.
\<close>

theorem uiomove_exact:
  assumes "uio_ok u" and "0 < n" and "n \<le> uio_resid u" and "n \<le> length ptr"
  shows "wpK (uiomove ptr n)
     (\<lambda>p u'. uio_ok u' \<and>
        (case uio_rw u of
           UIO_READ \<Rightarrow> p = ptr \<and> get_at (iov_base u) n (m_byte (uio_mem u')) = take n ptr \<and>
             (\<forall>x. x < iov_base u \<or> iov_base u + n \<le> x \<longrightarrow> m_byte (uio_mem u') x = m_byte (uio_mem u) x)
         | UIO_WRITE \<Rightarrow> p = get_at (iov_base u) n (m_byte (uio_mem u)) @ drop n ptr \<and>
             m_byte (uio_mem u') = m_byte (uio_mem u)) \<and>
        u' = u\<lparr>iov_base := iov_base u + n, iov_len := iov_len u - n, uio_resid := uio_resid u - n,
          uio_offset := s32 (uio_offset u + int n), uio_mem := (uio_mem u)\<lparr>m_byte := m_byte (uio_mem u')\<rparr>\<rparr>)
     (\<lambda>e u'. e = EFAULT \<and> uio_segflg u \<noteq> UIO_SYSSPACE \<and>
        (USERTOP < iov_base u + n \<or> (\<exists>x. iov_base u \<le> x \<and> x < iov_base u + n \<and>
           \<not> (case uio_rw u of UIO_READ \<Rightarrow> m_writable (uio_mem u) x | UIO_WRITE \<Rightarrow> m_readable (uio_mem u) x))) \<and>
        (case uio_rw u of
           UIO_READ \<Rightarrow> \<exists>k < n. u' = u\<lparr>uio_mem := (uio_mem u)
             \<lparr>m_byte := put_at (iov_base u) (take k ptr) (m_byte (uio_mem u))\<rparr>\<rparr>
         | UIO_WRITE \<Rightarrow> u' = u)) u"
proof (cases "uio_rw u")
  case UIO_READ
  have "get_at (iov_base u) n (put_at (iov_base u) (take n ptr) f) = take n ptr" for f
    using get_put_at [of "iov_base u" "take n ptr" f] assms(4) by simp
  moreover have "uio_put (take n ptr) u = u\<lparr>iov_base := iov_base u + n, iov_len := iov_len u - n,
      uio_resid := uio_resid u - n, uio_offset := s32 (uio_offset u + int n), uio_mem := (uio_mem u)
        \<lparr>m_byte := put_at (iov_base u) (take n ptr) (m_byte (uio_mem u))\<rparr>\<rparr>"
    using assms(4) by (simp add: uio_put_def uio_skip_def min_absorb2)
  moreover have "uio_ok (uio_put (take n ptr) u)" using assms by simp
  ultimately show ?thesis
    by (intro wp_mono [OF uiomove_read_exact [OF assms(1) UIO_READ assms(3,4,2)]])
      (use assms UIO_READ in \<open>auto simp: uio_bad_def uio_poke_def min_absorb2\<close>)
next
  case UIO_WRITE
  have "uio_ok (uio_skip n u)" using assms by simp
  then show ?thesis
    by (intro wp_mono [OF uiomove_write_exact [OF assms(1) UIO_WRITE assms(3,4,2)]])
      (use UIO_WRITE in \<open>auto simp: uio_bad_def uio_next_def uio_skip_def\<close>)
qed

definition example_uio :: uio where
  "example_uio = mk_kuio 100 16 512 UIO_READ example_mem None"

theorem uiomove_exact_witness:
  "wpK (uiomove [9, 8, 7] 2)
     (\<lambda>p u'. uio_resid u' = 14 \<and> uio_offset u' = 514 \<and> get_at 100 2 (m_byte (uio_mem u')) = [9, 8] \<and>
        m_byte (uio_mem u') 102 = 102)
     (\<lambda>e u'. False) example_uio"
proof (rule wp_mono [OF uiomove_exact], goal_cases)
  case (5 p u')
  then have eq: "u' = example_uio\<lparr>iov_base := 102, iov_len := 14, uio_resid := 14,
      uio_offset := s32 514, uio_mem := example_mem\<lparr>m_byte := m_byte (uio_mem u')\<rparr>\<rparr>"
    by (simp add: example_uio_def mk_kuio_def)
  have "uio_resid u' = 14" "uio_offset u' = 514"
    by (subst eq, simp add: s32_def)+
  with 5 show ?case by (auto simp: example_uio_def mk_kuio_def example_mem_def)
qed (auto simp: example_uio_def example_mem_def mk_kuio_def uio_ok_def)

text \<open>
  \<^verbatim>\<open>uio_resid\<close> does not limit a transfer: when the iovec is longer, \<^verbatim>\<open>uiomove\<close> moves all
  \<open>n\<close> bytes asked for and the residue wraps around to a huge value. A caller must never ask
  for more than the residue on such a descriptor.
\<close>

theorem uiomove_overruns_resid:
  assumes "uio_segflg u = UIO_SYSSPACE" and "uio_space u = None" and "uio_rw u = UIO_READ"
    and "0 < uio_resid u" and "uio_resid u < n" and "n \<le> iov_len u" and "n \<le> length ptr"
    and "n < 4294967296"
  shows "\<exists>u'. uiomove ptr n u = Some (Inr ptr, u') \<and> uio_resid u' = 4294967296 - (n - uio_resid u) \<and>
     m_byte (uio_mem u') = put_at (iov_base u) (take n ptr) (m_byte (uio_mem u))"
proof -
  have "uiomove_loop p 0 u' = Some (Inr p, u')" for p u'
    by (simp add: uiomove_loop.simps)
  moreover have "u32 (uio_resid u + 4294967296 - n) = 4294967296 - (n - uio_resid u)"
    using assms by (simp add: u32_def)
  ultimately show ?thesis
    using assms by (subst uiomove_def, subst uiomove_loop.simps)
      (simp add: Let_def min_absorb2 uio_xfer_def uio_advance_def)
qed

theorem uiomove_overruns_resid_witness:
  "\<exists>u'. uiomove [9, 8, 7] 3 (example_uio\<lparr>uio_resid := 1\<rparr>) = Some (Inr [9, 8, 7], u') \<and>
     uio_resid u' = 4294967294"
  using uiomove_overruns_resid [of "example_uio\<lparr>uio_resid := 1\<rparr>" 3 "[9, 8, 7]"]
  by (auto simp: example_uio_def mk_kuio_def)

end
