(* ===== verification/Lhd.thy ===== *)
theory Lhd
  imports Uio
begin

unbundle bit_operations_syntax

text \<open>
  The LAMEbus hard disk driver, \<^verbatim>\<open>kern/dev/lamebus/lhd.c\<close>, and the device structure of
  \<^verbatim>\<open>kern/include/dev.h\<close>. The disk hardware is outside the sources: it is a parameter \<open>hw\<close> that
  says what reading and writing its registers and its on-card buffer does, and in which state
  it next raises its interrupt. What the driver relies on is the locale \<open>lhd_hardware\<close>.

  The driver is modelled as one thread runs it: a \<^verbatim>\<open>P\<close> on \<^verbatim>\<open>lh_done\<close> lets time pass until the
  disk interrupts, runs \<^verbatim>\<open>lhd_irq\<close>, and looks again; if the disk never interrupts it does not
  return. A \<^verbatim>\<open>P\<close> on \<^verbatim>\<open>lh_clear\<close> that finds the count at 0 does not return either, since nobody
  else is there to raise it.

  \<open>block_device\<close> is the contract of \<^verbatim>\<open>d_io\<close> for one sector, which the file system relies on, on a
  disk that never refuses a write; it follows for the driver below from \<open>lhd_reliable\<close>, which is \<open>lhd_hardware\<close> with writes
  that succeed. That a refused write is not reported at all by \<^verbatim>\<open>sfs_wblock\<close> is shown with \<open>lhd_hardware\<close> alone.
\<close>

section \<open>Registers, codes and state\<close>

definition LHD_SECTSIZE :: nat where "LHD_SECTSIZE = 512"
definition LHD_REG_NSECT :: nat where "LHD_REG_NSECT = 0"
definition LHD_REG_STAT :: nat where "LHD_REG_STAT = 4"
definition LHD_REG_SECT :: nat where "LHD_REG_SECT = 8"
definition LHD_IDLE :: nat where "LHD_IDLE = 0"
definition LHD_WORKING :: nat where "LHD_WORKING = 1"
definition LHD_OK :: nat where "LHD_OK = 4"
definition LHD_INVSECT :: nat where "LHD_INVSECT = 12"
definition LHD_MEDIA :: nat where "LHD_MEDIA = 20"
definition LHD_ISWRITE :: nat where "LHD_ISWRITE = 2"
definition LHD_STATEMASK :: nat where "LHD_STATEMASK = 29"

lemmas lhd_consts = LHD_SECTSIZE_def LHD_REG_NSECT_def LHD_REG_STAT_def LHD_REG_SECT_def
  LHD_IDLE_def LHD_WORKING_def LHD_OK_def LHD_INVSECT_def LHD_MEDIA_def LHD_ISWRITE_def
  LHD_STATEMASK_def

record 'h lhd_hw =
  hw_rdreg :: "nat \<Rightarrow> 'h \<Rightarrow> nat"
  hw_wreg :: "nat \<Rightarrow> nat \<Rightarrow> 'h \<Rightarrow> 'h"
  hw_buf :: "'h \<Rightarrow> byte list"
  hw_setbuf :: "byte list \<Rightarrow> 'h \<Rightarrow> 'h"
  hw_irq :: "'h \<Rightarrow> 'h option"

text \<open>\<^verbatim>\<open>struct lhd_softc\<close>, with the state of the card in place of its bus address; no result is 0.\<close>

record 'h lhd_softc =
  lh_card :: 'h
  lh_result :: "errno option"
  lh_clear :: nat
  lh_done :: nat
  lh_blocks :: nat

section \<open>The driver\<close>

definition lhd_rdreg :: "'h lhd_hw \<Rightarrow> nat \<Rightarrow> ('h lhd_softc, nat) kern" where
  "lhd_rdreg hw reg = getK (\<lambda>lh. hw_rdreg hw reg (lh_card lh))"

definition lhd_wreg :: "'h lhd_hw \<Rightarrow> nat \<Rightarrow> nat \<Rightarrow> ('h lhd_softc, unit) kern" where
  "lhd_wreg hw reg val = modK (\<lambda>lh. lh\<lparr>lh_card := hw_wreg hw reg val (lh_card lh)\<rparr>)"

definition lhd_code_to_errno :: "nat \<Rightarrow> errno option" where
  "lhd_code_to_errno code =
     (let c = code AND LHD_STATEMASK in
      if c = LHD_OK then None
      else if c = LHD_INVSECT then Some EINVAL
      else if c = LHD_MEDIA then Some EIO
      else Some EAGAIN)"

definition lhd_iodone :: "errno option \<Rightarrow> ('h lhd_softc, unit) kern" where
  "lhd_iodone err = modK (\<lambda>lh. lh\<lparr>lh_result := err, lh_done := lh_done lh + 1\<rparr>)"

definition lhd_irq :: "'h lhd_hw \<Rightarrow> ('h lhd_softc, unit) kern" where
  "lhd_irq hw =
     bindK (lhd_rdreg hw LHD_REG_STAT) (\<lambda>val.
       let c = val AND LHD_STATEMASK in
       if c = LHD_IDLE \<or> c = LHD_WORKING then retK ()
       else if c = LHD_OK \<or> c = LHD_INVSECT \<or> c = LHD_MEDIA then
         bindK (lhd_wreg hw LHD_REG_STAT 0) (\<lambda>_. lhd_iodone (lhd_code_to_errno val))
       else retK ())"

text \<open>\<^verbatim>\<open>P(lh->lh_done)\<close>.\<close>

partial_function (option) lhd_wait :: "'h lhd_hw \<Rightarrow> 'h lhd_softc \<Rightarrow> 'h lhd_softc option" where
  "lhd_wait hw lh =
     (if lh_done lh > 0 then Some (lh\<lparr>lh_done := lh_done lh - 1\<rparr>)
      else case hw_irq hw (lh_card lh) of
        None \<Rightarrow> None
      | Some h \<Rightarrow> (case lhd_irq hw (lh\<lparr>lh_card := h\<rparr>) of
            None \<Rightarrow> None | Some (r, lh') \<Rightarrow> lhd_wait hw lh'))"

definition lhd_P_done :: "'h lhd_hw \<Rightarrow> ('h lhd_softc, unit) kern" where
  "lhd_P_done hw lh = (case lhd_wait hw lh of None \<Rightarrow> None | Some lh' \<Rightarrow> Some (Inr (), lh'))"

definition lhd_P_clear :: "('h lhd_softc, unit) kern" where
  "lhd_P_clear lh = (if lh_clear lh > 0 then Some (Inr (), lh\<lparr>lh_clear := lh_clear lh - 1\<rparr>) else None)"

definition lhd_V_clear :: "('h lhd_softc, unit) kern" where
  "lhd_V_clear = modK (\<lambda>lh. lh\<lparr>lh_clear := lh_clear lh + 1\<rparr>)"

definition lhd_open :: "int \<Rightarrow> ('h lhd_softc, unit) kern" where
  "lhd_open openflags = retK ()"

definition lhd_close :: "('h lhd_softc, unit) kern" where
  "lhd_close = retK ()"

definition lhd_ioctl :: "int \<Rightarrow> nat \<Rightarrow> ('h lhd_softc, unit) kern" where
  "lhd_ioctl op data = failK EIOCTL"

text \<open>\<^verbatim>\<open>uiomove(lh->lh_buf, LHD_SECTSIZE, uio)\<close>.\<close>

definition lhd_uiomove :: "'h lhd_hw \<Rightarrow> ('h lhd_softc \<times> uio, unit) kern" where
  "lhd_uiomove hw =
     bindK (getK (\<lambda>s. hw_buf hw (lh_card (fst s)))) (\<lambda>buf.
     bindK (on_uio (uiomove buf LHD_SECTSIZE)) (\<lambda>buf'.
     on_fst (modK (\<lambda>lh. lh\<lparr>lh_card := hw_setbuf hw buf' (lh_card lh)\<rparr>))))"

text \<open>One round of the loop of \<^verbatim>\<open>lhd_io\<close>, for sector \<open>sect\<close>.\<close>

definition lhd_sector :: "'h lhd_hw \<Rightarrow> nat \<Rightarrow> nat \<Rightarrow> ('h lhd_softc \<times> uio, unit) kern" where
  "lhd_sector hw statval sect =
     bindK (on_fst lhd_P_clear) (\<lambda>_.
     bindK (getK (\<lambda>s. uio_rw (snd s))) (\<lambda>rw.
     bindK (if rw = UIO_WRITE then tryK (lhd_uiomove hw) else retK (Inr ())) (\<lambda>r.
     case r of
       Inl e \<Rightarrow> bindK (on_fst lhd_V_clear) (\<lambda>_. failK e)
     | Inr _ \<Rightarrow>
         bindK (on_fst (lhd_wreg hw LHD_REG_SECT sect)) (\<lambda>_.
         bindK (on_fst (lhd_wreg hw LHD_REG_STAT statval)) (\<lambda>_.
         bindK (on_fst (lhd_P_done hw)) (\<lambda>_.
         bindK (getK (\<lambda>s. lh_result (fst s))) (\<lambda>result.
         bindK (if result = None \<and> rw = UIO_READ then tryK (lhd_uiomove hw)
                else retK (case result of None \<Rightarrow> Inr () | Some e \<Rightarrow> Inl e)) (\<lambda>r.
         bindK (on_fst lhd_V_clear) (\<lambda>_. resultK r)))))))))"

fun lhd_loop :: "'h lhd_hw \<Rightarrow> nat \<Rightarrow> nat \<Rightarrow> nat \<Rightarrow> nat \<Rightarrow> ('h lhd_softc \<times> uio, unit) kern" where
  "lhd_loop hw statval sector 0 i = retK ()"
| "lhd_loop hw statval sector (Suc n) i =
     bindK (lhd_sector hw statval (u32 (sector + i))) (\<lambda>_. lhd_loop hw statval sector n (Suc i))"

definition lhd_io :: "'h lhd_hw \<Rightarrow> ('h lhd_softc \<times> uio, unit) kern" where
  "lhd_io hw s =
     (case s of (lh, u) \<Rightarrow>
      let sector = i2u32 (cdiv (uio_offset u) (int LHD_SECTSIZE));
          sectoff = i2u32 (crem (uio_offset u) (int LHD_SECTSIZE));
          len = uio_resid u div LHD_SECTSIZE;
          lenoff = uio_resid u mod LHD_SECTSIZE;
          statval = (if uio_rw u = UIO_WRITE then LHD_WORKING OR LHD_ISWRITE else LHD_WORKING)
      in if sectoff \<noteq> 0 \<or> lenoff \<noteq> 0 then Some (Inl EINVAL, s)
         else if u32 (sector + len) > lh_blocks lh then Some (Inl EINVAL, s)
         else lhd_loop hw statval sector len 0 s)"

section \<open>What the driver relies on and what it promises\<close>

text \<open>Starting an operation on a sector, and acknowledging its completion.\<close>

definition hw_start :: "'h lhd_hw \<Rightarrow> nat \<Rightarrow> nat \<Rightarrow> 'h \<Rightarrow> 'h" where
  "hw_start hw statval sect h = hw_wreg hw LHD_REG_STAT statval (hw_wreg hw LHD_REG_SECT sect h)"

definition hw_ack :: "'h lhd_hw \<Rightarrow> 'h \<Rightarrow> 'h" where
  "hw_ack hw h = hw_wreg hw LHD_REG_STAT 0 h"

text \<open>
  The documented behaviour of the card. \<open>dsk h\<close> is what the sectors hold, \<open>idle h\<close> that no
  operation is in progress. A read leaves the sector in the buffer or reports a media error; a
  write stores the buffer or reports a media error, after which that sector holds something;
  an operation on a sector the disk does not have reports it. Each ends with an interrupt.
\<close>

locale lhd_hardware =
  fixes hw :: "'h lhd_hw"
    and dsk :: "'h \<Rightarrow> nat \<Rightarrow> byte list"
    and nsect :: nat
    and idle :: "'h \<Rightarrow> bool"
  assumes buf_len: "idle h \<Longrightarrow> length (hw_buf hw h) = 512"
    and sect_len: "idle h \<Longrightarrow> s < nsect \<Longrightarrow> length (dsk h s) = 512"
    and setbuf: "idle h \<Longrightarrow> length bs = 512 \<Longrightarrow>
      idle (hw_setbuf hw bs h) \<and> hw_buf hw (hw_setbuf hw bs h) = bs \<and> dsk (hw_setbuf hw bs h) = dsk h"
    and rd: "idle h \<Longrightarrow> s < nsect \<Longrightarrow>
      \<exists>h'. hw_irq hw (hw_start hw LHD_WORKING s h) = Some h' \<and> idle (hw_ack hw h') \<and>
        dsk (hw_ack hw h') = dsk h \<and>
        (hw_rdreg hw LHD_REG_STAT h' = 4 \<and> hw_buf hw (hw_ack hw h') = dsk h s \<or>
         hw_rdreg hw LHD_REG_STAT h' = 20)"
    and wr: "idle h \<Longrightarrow> s < nsect \<Longrightarrow>
      \<exists>h'. hw_irq hw (hw_start hw (LHD_WORKING OR LHD_ISWRITE) s h) = Some h' \<and> idle (hw_ack hw h') \<and>
        (hw_rdreg hw LHD_REG_STAT h' = 6 \<and> dsk (hw_ack hw h') = (dsk h)(s := hw_buf hw h) \<or>
         hw_rdreg hw LHD_REG_STAT h' = 22 \<and> (\<forall>t. t \<noteq> s \<longrightarrow> dsk (hw_ack hw h') t = dsk h t))"
    and bad: "idle h \<Longrightarrow> nsect \<le> s \<Longrightarrow> st \<in> {LHD_WORKING, LHD_WORKING OR LHD_ISWRITE} \<Longrightarrow>
      \<exists>h'. hw_irq hw (hw_start hw st s h) = Some h' \<and> idle (hw_ack hw h') \<and>
        dsk (hw_ack hw h') = dsk h \<and> hw_rdreg hw LHD_REG_STAT h' \<in> {12, 14}"

text \<open>A disk whose writes succeed. (Reads may still fail.)\<close>

locale lhd_reliable = lhd_hardware +
  assumes wr_ok: "idle h \<Longrightarrow> s < nsect \<Longrightarrow>
      hw_irq hw (hw_start hw (LHD_WORKING OR LHD_ISWRITE) s h) = Some h' \<Longrightarrow>
      hw_rdreg hw LHD_REG_STAT h' = 6"
    and small: "nsect \<le> 4194304"

text \<open>
  What the file system relies on of \<^verbatim>\<open>d_io\<close>, for transfers of one sector. \<open>sec d\<close> is what the
  sectors of the device hold, \<open>nsec\<close> how many there are; the last byte of the device has an
  offset that fits \<^verbatim>\<open>off_t\<close>.
\<close>

locale block_device =
  fixes dio :: "('d \<times> uio, unit) kern"
    and sec :: "'d \<Rightarrow> nat \<Rightarrow> byte list"
    and nsec :: nat
    and dinv :: "'d \<Rightarrow> bool"
  assumes sec_len: "dinv d \<Longrightarrow> s < nsec \<Longrightarrow> length (sec d s) = 512"
    and nsec_bound: "nsec \<le> 4194304"
    and dio_read: "dinv d \<Longrightarrow> uio_ok u \<Longrightarrow> uio_rw u = UIO_READ \<Longrightarrow> uio_offset u = int (s * 512) \<Longrightarrow>
      uio_resid u = 512 \<Longrightarrow> s < nsec \<Longrightarrow>
      wpK dio (\<lambda>_ (d', u'). dinv d' \<and> sec d' = sec d \<and> u' = uio_put (sec d s) u)
        (\<lambda>e (d', u'). dinv d' \<and> sec d' = sec d \<and>
           (e = EIO \<and> u' = u \<or> e = EFAULT \<and> uio_faulted u u')) (d, u)"
    and dio_write: "dinv d \<Longrightarrow> uio_ok u \<Longrightarrow> uio_rw u = UIO_WRITE \<Longrightarrow> uio_offset u = int (s * 512) \<Longrightarrow>
      uio_resid u = 512 \<Longrightarrow> s < nsec \<Longrightarrow>
      wpK dio (\<lambda>_ (d', u'). dinv d' \<and> sec d' = (sec d)(s := uio_next 512 u) \<and> u' = uio_skip 512 u)
        (\<lambda>e (d', u'). dinv d' \<and> e = EFAULT \<and> sec d' = sec d \<and> uio_faulted u u') (d, u)"

section \<open>Lemmas\<close>

lemma wp_P_clear [wp]:
  "wpK lhd_P_clear Q E = (\<lambda>lh. lh_clear lh > 0 \<and> Q () (lh\<lparr>lh_clear := lh_clear lh - 1\<rparr>))"
  by (rule ext) (simp add: wpK_def lhd_P_clear_def)

lemma lhd_statuses:
  "lhd_code_to_errno 4 = None" "lhd_code_to_errno 6 = None" "lhd_code_to_errno 12 = Some EINVAL"
  "lhd_code_to_errno 14 = Some EINVAL" "lhd_code_to_errno 20 = Some EIO" "lhd_code_to_errno 22 = Some EIO"
  by (simp_all add: lhd_code_to_errno_def lhd_consts Let_def)

lemma lhd_wait_irq:
  assumes "lh_done lh = 0" "hw_irq hw (lh_card lh) = Some h"
    "hw_rdreg hw LHD_REG_STAT h \<in> {4, 6, 12, 14, 20, 22}"
  shows "lhd_wait hw lh = Some (lh\<lparr>lh_card := hw_ack hw h, lh_done := 0,
     lh_result := lhd_code_to_errno (hw_rdreg hw LHD_REG_STAT h)\<rparr>)"
proof -
  have "hw_rdreg hw LHD_REG_STAT h AND 29 \<in> {4, 12, 20}"
    using assms(3) by auto
  then have "lhd_irq hw (lh\<lparr>lh_card := h\<rparr>) = Some (Inr (), lh\<lparr>lh_card := hw_ack hw h,
      lh_result := lhd_code_to_errno (hw_rdreg hw LHD_REG_STAT h), lh_done := lh_done lh + 1\<rparr>)"
    by (auto simp: lhd_irq_def lhd_rdreg_def lhd_wreg_def lhd_iodone_def bindK_def getK_def modK_def
        Let_def LHD_OK_def LHD_INVSECT_def LHD_MEDIA_def LHD_IDLE_def LHD_WORKING_def
        LHD_STATEMASK_def hw_ack_def)
  then show ?thesis
    using assms(1,2) by (subst lhd_wait.simps, simp, subst lhd_wait.simps) simp
qed

lemma wp_P_done:
  assumes "lh_done lh = 0" "hw_irq hw (lh_card lh) = Some h"
    "hw_rdreg hw LHD_REG_STAT h \<in> {4, 6, 12, 14, 20, 22}"
  shows "wpK (lhd_P_done hw) Q E lh = Q () (lh\<lparr>lh_card := hw_ack hw h, lh_done := 0,
     lh_result := lhd_code_to_errno (hw_rdreg hw LHD_REG_STAT h)\<rparr>)"
  by (simp add: wpK_def lhd_P_done_def lhd_wait_irq [OF assms])

definition lhd_inv :: "('h \<Rightarrow> bool) \<Rightarrow> nat \<Rightarrow> 'h lhd_softc \<Rightarrow> bool" where
  "lhd_inv idl n lh \<longleftrightarrow> idl (lh_card lh) \<and> lh_clear lh = 1 \<and> lh_done lh = 0 \<and> lh_blocks lh = n"

definition lhd_sec :: "('h \<Rightarrow> nat \<Rightarrow> byte list) \<Rightarrow> 'h lhd_softc \<Rightarrow> nat \<Rightarrow> byte list" where
  "lhd_sec dk lh = dk (lh_card lh)"

lemma lhd_uiomove_read:
  assumes "length (hw_buf hw (lh_card lh)) = 512" "uio_ok u" "uio_rw u = UIO_READ" "512 \<le> uio_resid u"
  shows "wpK (lhd_uiomove hw)
     (\<lambda>_ s. s = (lh\<lparr>lh_card := hw_setbuf hw (hw_buf hw (lh_card lh)) (lh_card lh)\<rparr>,
                 uio_put (hw_buf hw (lh_card lh)) u))
     (\<lambda>e s. e = EFAULT \<and> fst s = lh \<and> uio_faulted u (snd s)) (lh, u)"
  unfolding lhd_uiomove_def wp_bind wp_get wp_on_uio LHD_SECTSIZE_def fst_conv snd_conv
  by (rule wp_mono [OF uiomove_read [OF assms(2-4)]]) (use assms(1) in \<open>auto simp: wp\<close>)

lemma lhd_uiomove_write:
  assumes "length (hw_buf hw (lh_card lh)) = 512" "uio_ok u" "uio_rw u = UIO_WRITE" "512 \<le> uio_resid u"
  shows "wpK (lhd_uiomove hw)
     (\<lambda>_ s. s = (lh\<lparr>lh_card := hw_setbuf hw (uio_next 512 u) (lh_card lh)\<rparr>, uio_skip 512 u))
     (\<lambda>e s. e = EFAULT \<and> fst s = lh \<and> uio_faulted u (snd s)) (lh, u)"
  unfolding lhd_uiomove_def wp_bind wp_get wp_on_uio LHD_SECTSIZE_def fst_conv snd_conv
  by (rule wp_mono [OF uiomove_write [OF assms(2-4)]]) (use assms(1) in \<open>auto simp: wp\<close>)

lemma length_uio_next [simp]: "length (uio_next n u) = n"
  by (simp add: uio_next_def)

context lhd_hardware begin

text \<open>One round of the loop, reading and writing.\<close>

lemma sector_read:
  assumes inv: "lhd_inv idle n lh" and u: "uio_ok u" "uio_rw u = UIO_READ" "512 \<le> uio_resid u"
    and s: "s < nsect"
  shows "wpK (lhd_sector hw LHD_WORKING s)
     (\<lambda>_ (lh', u'). lhd_inv idle n lh' \<and> lhd_sec dsk lh' = lhd_sec dsk lh \<and> u' = uio_put (lhd_sec dsk lh s) u)
     (\<lambda>e (lh', u'). lhd_inv idle n lh' \<and> lhd_sec dsk lh' = lhd_sec dsk lh \<and>
        (e = EIO \<and> u' = u \<or> e = EFAULT \<and> uio_faulted u u')) (lh, u)"
proof -
  obtain h where h: "hw_irq hw (hw_start hw LHD_WORKING s (lh_card lh)) = Some h" "idle (hw_ack hw h)"
      "dsk (hw_ack hw h) = dsk (lh_card lh)"
      "hw_rdreg hw LHD_REG_STAT h = 4 \<and> hw_buf hw (hw_ack hw h) = dsk (lh_card lh) s \<or>
       hw_rdreg hw LHD_REG_STAT h = 20"
    using rd [OF _ s] inv by (auto simp: lhd_inv_def)
  let ?lh = "lh\<lparr>lh_clear := 0, lh_card := hw_start hw LHD_WORKING s (lh_card lh)\<rparr>"
  let ?lh' = "?lh\<lparr>lh_card := hw_ack hw h, lh_done := 0,
     lh_result := lhd_code_to_errno (hw_rdreg hw LHD_REG_STAT h)\<rparr>"
  have P: "wpK (lhd_P_done hw) Q E ?lh = Q () ?lh'" for Q E
    using inv h by (intro wp_P_done) (auto simp: lhd_inv_def)
  have "wpK (lhd_uiomove hw)
     (\<lambda>_ s. s = (?lh'\<lparr>lh_card := hw_setbuf hw (hw_buf hw (hw_ack hw h)) (hw_ack hw h)\<rparr>,
                 uio_put (hw_buf hw (hw_ack hw h)) u))
     (\<lambda>e s. e = EFAULT \<and> fst s = ?lh' \<and> uio_faulted u (snd s)) (?lh', u)"
    using lhd_uiomove_read [of hw ?lh' u] u buf_len [OF h(2)] by simp
  then have mv: "wpK (lhd_uiomove hw)
     (\<lambda>_ (lh', u'). lhd_inv idle n (lh'\<lparr>lh_clear := lh_clear lh' + 1\<rparr>) \<and> lhd_sec dsk lh' = lhd_sec dsk lh \<and>
        u' = uio_put (hw_buf hw (hw_ack hw h)) u)
     (\<lambda>e (lh', u'). lhd_inv idle n (lh'\<lparr>lh_clear := lh_clear lh' + 1\<rparr>) \<and> lhd_sec dsk lh' = lhd_sec dsk lh \<and>
        e = EFAULT \<and> uio_faulted u u') (?lh', u)"
    by (rule wp_mono)
      (use inv h setbuf [OF h(2) buf_len [OF h(2)]] in \<open>auto simp: lhd_inv_def lhd_sec_def\<close>)
  from h(4) show ?thesis
  proof
    assume "hw_rdreg hw LHD_REG_STAT h = 4 \<and> hw_buf hw (hw_ack hw h) = dsk (lh_card lh) s"
    then show ?thesis
      using inv P mv
      by (auto simp: lhd_sector_def wp u(2) lhd_wreg_def hw_start_def lhd_statuses lhd_V_clear_def
          lhd_inv_def lhd_sec_def case_prod_unfold elim!: wp_mono)
  next
    assume "hw_rdreg hw LHD_REG_STAT h = 20"
    then show ?thesis
      using inv P h
      by (auto simp: lhd_sector_def wp u(2) lhd_wreg_def hw_start_def lhd_statuses lhd_V_clear_def
          lhd_inv_def lhd_sec_def)
  qed
qed

lemma sector_write_outcome:
  assumes inv: "lhd_inv idle n lh" and u: "uio_ok u" "uio_rw u = UIO_WRITE" "512 \<le> uio_resid u"
    and h: "hw_irq hw (hw_start hw (LHD_WORKING OR LHD_ISWRITE) s (hw_setbuf hw (uio_next 512 u) (lh_card lh))) = Some h"
      "idle (hw_ack hw h)" "hw_rdreg hw LHD_REG_STAT h \<in> {6, 22}"
  shows "wpK (lhd_sector hw (LHD_WORKING OR LHD_ISWRITE) s)
     (\<lambda>_ (lh', u'). hw_rdreg hw LHD_REG_STAT h = 6 \<and> lhd_inv idle n lh' \<and>
        lhd_sec dsk lh' = dsk (hw_ack hw h) \<and> u' = uio_skip 512 u)
     (\<lambda>e (lh', u'). lhd_inv idle n lh' \<and>
        (e = EFAULT \<and> lhd_sec dsk lh' = lhd_sec dsk lh \<and> uio_faulted u u' \<or>
         e = EIO \<and> hw_rdreg hw LHD_REG_STAT h = 22 \<and> lhd_sec dsk lh' = dsk (hw_ack hw h) \<and>
           u' = uio_skip 512 u)) (lh, u)"
proof -
  let ?c = "hw_setbuf hw (uio_next 512 u) (lh_card lh)"
  let ?lh = "lh\<lparr>lh_clear := 0, lh_card := hw_start hw (LHD_WORKING OR LHD_ISWRITE) s ?c\<rparr>"
  let ?lh' = "?lh\<lparr>lh_card := hw_ack hw h, lh_done := 0,
     lh_result := lhd_code_to_errno (hw_rdreg hw LHD_REG_STAT h)\<rparr>"
  have P: "wpK (lhd_P_done hw) Q E ?lh = Q () ?lh'" for Q E
    using inv h by (intro wp_P_done) (auto simp: lhd_inv_def)
  have "wpK (lhd_uiomove hw)
     (\<lambda>_ s. s = (lh\<lparr>lh_clear := 0, lh_card := ?c\<rparr>, uio_skip 512 u))
     (\<lambda>e s. e = EFAULT \<and> fst s = lh\<lparr>lh_clear := 0\<rparr> \<and> uio_faulted u (snd s)) (lh\<lparr>lh_clear := 0\<rparr>, u)"
    using lhd_uiomove_write [of hw "lh\<lparr>lh_clear := 0\<rparr>" u] u buf_len [of "lh_card lh"] inv
    by (simp add: lhd_inv_def)
  then have mv: "wpK (lhd_uiomove hw) Q E (lh\<lparr>lh_clear := 0\<rparr>, u)"
    if "Q () (lh\<lparr>lh_clear := 0, lh_card := ?c\<rparr>, uio_skip 512 u)"
      "\<And>u'. uio_faulted u u' \<Longrightarrow> E EFAULT (lh\<lparr>lh_clear := 0\<rparr>, u')" for Q E
    by (rule wp_mono) (use that in auto)
  show ?thesis
    unfolding lhd_sector_def
    using inv h(3) P
    by (auto simp: wp u(2) lhd_wreg_def hw_start_def lhd_statuses lhd_V_clear_def lhd_inv_def
        lhd_sec_def h(2) intro!: mv)
qed

lemma sector_write:
  assumes inv: "lhd_inv idle n lh" and u: "uio_ok u" "uio_rw u = UIO_WRITE" "512 \<le> uio_resid u"
    and s: "s < nsect"
  shows "wpK (lhd_sector hw (LHD_WORKING OR LHD_ISWRITE) s)
     (\<lambda>_ (lh', u'). lhd_inv idle n lh' \<and> lhd_sec dsk lh' = (lhd_sec dsk lh)(s := uio_next 512 u) \<and>
        u' = uio_skip 512 u)
     (\<lambda>e (lh', u'). lhd_inv idle n lh' \<and>
        (e = EFAULT \<and> lhd_sec dsk lh' = lhd_sec dsk lh \<and> uio_faulted u u' \<or>
         e = EIO \<and> u' = uio_skip 512 u \<and> (\<forall>t. t \<noteq> s \<longrightarrow> lhd_sec dsk lh' t = lhd_sec dsk lh t) \<and>
         \<not> lhd_reliable hw dsk nsect idle)) (lh, u)"
proof -
  let ?c = "hw_setbuf hw (uio_next 512 u) (lh_card lh)"
  have c: "idle ?c" "hw_buf hw ?c = uio_next 512 u" "dsk ?c = dsk (lh_card lh)"
    using setbuf [of "lh_card lh" "uio_next 512 u"] inv by (auto simp: lhd_inv_def)
  obtain h where h: "hw_irq hw (hw_start hw (LHD_WORKING OR LHD_ISWRITE) s ?c) = Some h" "idle (hw_ack hw h)"
      "hw_rdreg hw LHD_REG_STAT h = 6 \<and> dsk (hw_ack hw h) = (dsk (lh_card lh))(s := uio_next 512 u) \<or>
       hw_rdreg hw LHD_REG_STAT h = 22 \<and> (\<forall>t. t \<noteq> s \<longrightarrow> dsk (hw_ack hw h) t = dsk (lh_card lh) t)"
    using wr [OF c(1) s] c by auto
  have rel: "\<not> lhd_reliable hw dsk nsect idle" if "hw_rdreg hw LHD_REG_STAT h = 22"
    using that h(1) c(1) s lhd_reliable.wr_ok [of hw dsk nsect idle ?c s h] by auto
  show ?thesis
    by (rule wp_mono [OF sector_write_outcome [OF inv u h(1,2)]]) (use h(3) rel in \<open>auto simp: lhd_sec_def\<close>)
qed

text \<open>On a disk that reports a media error for every write to a sector and stores nothing there.\<close>

lemma sector_write_bad:
  assumes inv: "lhd_inv idle n lh" and u: "uio_ok u" "uio_rw u = UIO_WRITE" "512 \<le> uio_resid u"
    and bad: "\<And>h. idle h \<Longrightarrow> \<exists>h'. hw_irq hw (hw_start hw (LHD_WORKING OR LHD_ISWRITE) s h) = Some h' \<and>
      idle (hw_ack hw h') \<and> hw_rdreg hw LHD_REG_STAT h' = 22 \<and> dsk (hw_ack hw h') = dsk h"
  shows "wpK (lhd_sector hw (LHD_WORKING OR LHD_ISWRITE) s) (\<lambda>_ _. False)
     (\<lambda>e (lh', u'). lhd_inv idle n lh' \<and> lhd_sec dsk lh' = lhd_sec dsk lh \<and>
        (e = EFAULT \<and> uio_faulted u u' \<or> e = EIO \<and> u' = uio_skip 512 u)) (lh, u)"
proof -
  let ?c = "hw_setbuf hw (uio_next 512 u) (lh_card lh)"
  have c: "idle ?c" "dsk ?c = dsk (lh_card lh)"
    using setbuf [of "lh_card lh" "uio_next 512 u"] inv by (auto simp: lhd_inv_def)
  obtain h where h: "hw_irq hw (hw_start hw (LHD_WORKING OR LHD_ISWRITE) s ?c) = Some h" "idle (hw_ack hw h)"
      "hw_rdreg hw LHD_REG_STAT h = 22" "dsk (hw_ack hw h) = dsk ?c"
    using bad [OF c(1)] by auto
  show ?thesis
    by (rule wp_mono [OF sector_write_outcome [OF inv u h(1,2)]]) (use h(3,4) c(2) in \<open>auto simp: lhd_sec_def\<close>)
qed

lemma loop_read:
  assumes "lhd_inv idle n lh" "uio_ok u" "uio_rw u = UIO_READ" "512 * k \<le> uio_resid u"
    "sector + i + k \<le> nsect" "nsect < 4294967296"
  shows "wpK (lhd_loop hw LHD_WORKING sector k i)
     (\<lambda>_ (lh', u'). lhd_inv idle n lh' \<and> lhd_sec dsk lh' = lhd_sec dsk lh \<and>
        u' = uio_put (concat (map (lhd_sec dsk lh) [sector + i..<sector + i + k])) u)
     (\<lambda>e (lh', u'). lhd_inv idle n lh' \<and> lhd_sec dsk lh' = lhd_sec dsk lh \<and> e \<in> {EIO, EFAULT}) (lh, u)"
  using assms
proof (induction k arbitrary: i lh u)
  case 0
  then show ?case by (simp add: wp)
next
  case (Suc k)
  let ?s = "sector + i"
  have len: "length (lhd_sec dsk lh ?s) = 512"
    using sect_len [of "lh_card lh" ?s] Suc.prems by (simp add: lhd_inv_def lhd_sec_def)
  have sect: "u32 ?s = ?s" using Suc.prems by simp
  have s: "?s < nsect" "512 \<le> uio_resid u" using Suc.prems by auto
  have upt: "[?s..<?s + Suc k] = ?s # [sector + Suc i..<sector + Suc i + k]"
    by (simp add: upt_conv_Cons del: upt_Suc)
  show ?case
    unfolding lhd_loop.simps wp_bind sect upt list.map concat.simps
  proof (rule wp_mono [OF sector_read [OF Suc.prems(1-3) s(2,1)]])
    fix r x
    assume "case x of (lh', u') \<Rightarrow> lhd_inv idle n lh' \<and> lhd_sec dsk lh' = lhd_sec dsk lh \<and>
      u' = uio_put (lhd_sec dsk lh ?s) u"
    then obtain lh' where x: "x = (lh', uio_put (lhd_sec dsk lh ?s) u)" "lhd_inv idle n lh'"
        "lhd_sec dsk lh' = lhd_sec dsk lh" by auto
    show "wpK (lhd_loop hw LHD_WORKING sector k (Suc i))
     (\<lambda>_ (lh', u'). lhd_inv idle n lh' \<and> lhd_sec dsk lh' = lhd_sec dsk lh \<and>
        u' = uio_put (lhd_sec dsk lh ?s @
           concat (map (lhd_sec dsk lh) [sector + Suc i..<sector + Suc i + k])) u)
     (\<lambda>e (lh', u'). lhd_inv idle n lh' \<and> lhd_sec dsk lh' = lhd_sec dsk lh \<and> e \<in> {EIO, EFAULT}) x"
      unfolding x(1)
      by (rule wp_mono [OF Suc.IH [of lh' _ "Suc i"]])
        (use Suc.prems x len in \<open>auto simp: uio_put_append\<close>)
  qed auto
qed

lemma loop_write:
  assumes "lhd_inv idle n lh" "uio_ok u" "uio_rw u = UIO_WRITE" "512 * k \<le> uio_resid u"
    "sector + i + k \<le> nsect" "nsect < 4294967296"
  shows "wpK (lhd_loop hw (LHD_WORKING OR LHD_ISWRITE) sector k i)
     (\<lambda>_ (lh', u'). lhd_inv idle n lh' \<and> u' = uio_skip (512 * k) u \<and>
        lhd_sec dsk lh' = (\<lambda>t. if sector + i \<le> t \<and> t < sector + i + k
           then uio_next 512 (uio_skip (512 * (t - (sector + i))) u) else lhd_sec dsk lh t))
     (\<lambda>e (lh', u'). lhd_inv idle n lh' \<and> e \<in> {EIO, EFAULT} \<and>
        (\<forall>t. t < sector + i \<or> sector + i + k \<le> t \<longrightarrow> lhd_sec dsk lh' t = lhd_sec dsk lh t)) (lh, u)"
  using assms
proof (induction k arbitrary: i lh u)
  case 0
  then show ?case by (auto simp: wp fun_eq_iff)
next
  case (Suc k)
  let ?s = "sector + i"
  have sect: "u32 ?s = ?s" using Suc.prems by simp
  have s: "?s < nsect" "512 \<le> uio_resid u" using Suc.prems by auto
  show ?case
    unfolding lhd_loop.simps wp_bind sect
  proof (rule wp_mono [OF sector_write [OF Suc.prems(1-3) s(2,1)]])
    fix r x
    assume "case x of (lh', u') \<Rightarrow> lhd_inv idle n lh' \<and>
      lhd_sec dsk lh' = (lhd_sec dsk lh)(?s := uio_next 512 u) \<and> u' = uio_skip 512 u"
    then obtain lh' where x: "x = (lh', uio_skip 512 u)" "lhd_inv idle n lh'"
        "lhd_sec dsk lh' = (lhd_sec dsk lh)(?s := uio_next 512 u)" by auto
    have skip: "uio_skip (512 * (t - Suc ?s)) (uio_skip 512 u) = uio_skip (512 * (t - ?s)) u"
      if "Suc ?s \<le> t" for t
      using that by (simp add: uio_skip_add) (simp add: algebra_simps flip: diff_Suc_eq_diff_pred)
    show "wpK (lhd_loop hw (LHD_WORKING OR LHD_ISWRITE) sector k (Suc i))
     (\<lambda>_ (lh', u'). lhd_inv idle n lh' \<and> u' = uio_skip (512 * Suc k) u \<and>
        lhd_sec dsk lh' = (\<lambda>t. if sector + i \<le> t \<and> t < sector + i + Suc k
           then uio_next 512 (uio_skip (512 * (t - (sector + i))) u) else lhd_sec dsk lh t))
     (\<lambda>e (lh', u'). lhd_inv idle n lh' \<and> e \<in> {EIO, EFAULT} \<and>
        (\<forall>t. t < sector + i \<or> sector + i + Suc k \<le> t \<longrightarrow> lhd_sec dsk lh' t = lhd_sec dsk lh t)) x"
      unfolding x(1)
      by (rule wp_mono [OF Suc.IH [of lh' _ "Suc i"]])
        (use Suc.prems x skip in \<open>auto simp: uio_skip_add fun_eq_iff\<close>)
  qed auto
qed

end

lemma lhd_io_aligned:
  assumes "uio_offset u = int (s * 512)" "uio_resid u = 512 * k" "s + k \<le> lh_blocks lh"
    "lh_blocks lh < 4294967296"
  shows "lhd_io hw (lh, u) =
     lhd_loop hw (if uio_rw u = UIO_WRITE then LHD_WORKING OR LHD_ISWRITE else LHD_WORKING) s k 0 (lh, u)"
proof -
  have "cdiv (int (s * 512)) (int 512) = int s" "crem (int (s * 512)) (int 512) = 0"
    by (simp_all only: cdiv_nat crem_nat) simp_all
  moreover have "u32 s = s" "u32 (s + k) = s + k" using assms by auto
  ultimately show ?thesis
    using assms by (simp add: lhd_io_def Let_def LHD_SECTSIZE_def i2u32_def [of 0])
qed

text \<open>A single sector.\<close>

lemma lhd_loop_1: "u32 s = s \<Longrightarrow> wpK (lhd_loop hw st s 1 0) Q E = wpK (lhd_sector hw st s) (\<lambda>_. Q ()) E"
  by (simp add: wp)

context lhd_hardware begin

lemma io_read:
  assumes "lhd_inv idle nsect lh" "uio_ok u" "uio_rw u = UIO_READ" "uio_offset u = int (s * 512)"
    "uio_resid u = 512 * k" "s + k \<le> nsect" "nsect < 4294967296"
  shows "wpK (lhd_io hw)
     (\<lambda>_ (lh', u'). lhd_inv idle nsect lh' \<and> lhd_sec dsk lh' = lhd_sec dsk lh \<and>
        u' = uio_put (concat (map (lhd_sec dsk lh) [s..<s + k])) u)
     (\<lambda>e (lh', u'). lhd_inv idle nsect lh' \<and> lhd_sec dsk lh' = lhd_sec dsk lh \<and> e \<in> {EIO, EFAULT}) (lh, u)"
  using loop_read [OF assms(1-3), of k s 0] lhd_io_aligned [OF assms(4,5), of lh hw] assms
  by (simp add: wpK_def lhd_inv_def)

lemma io_write:
  assumes "lhd_inv idle nsect lh" "uio_ok u" "uio_rw u = UIO_WRITE" "uio_offset u = int (s * 512)"
    "uio_resid u = 512 * k" "s + k \<le> nsect" "nsect < 4294967296"
  shows "wpK (lhd_io hw)
     (\<lambda>_ (lh', u'). lhd_inv idle nsect lh' \<and> u' = uio_skip (512 * k) u \<and>
        lhd_sec dsk lh' = (\<lambda>t. if s \<le> t \<and> t < s + k
           then uio_next 512 (uio_skip (512 * (t - s)) u) else lhd_sec dsk lh t))
     (\<lambda>e (lh', u'). lhd_inv idle nsect lh' \<and> e \<in> {EIO, EFAULT} \<and>
        (\<forall>t. t < s \<or> s + k \<le> t \<longrightarrow> lhd_sec dsk lh' t = lhd_sec dsk lh t)) (lh, u)"
  using loop_write [OF assms(1-3), of k s 0, unfolded add_0_right] lhd_io_aligned [OF assms(4,5), of lh hw] assms
  by (simp add: wpK_def lhd_inv_def)

lemma io_none:
  assumes "lhd_inv idle nsect lh" "uio_offset u = int (s * 512)" "uio_resid u = 0" "s \<le> nsect"
    "nsect < 4294967296"
  shows "lhd_io hw (lh, u) = Some (Inr (), (lh, u))"
  using assms lhd_io_aligned [OF assms(2), of 0 lh hw] by (simp add: lhd_inv_def retK_def)

lemma io_one:
  assumes "lhd_inv idle nsect lh" "uio_offset u = int (s * 512)" "uio_resid u = 512" "s < nsect"
    "nsect < 4294967296"
  shows "wpK (lhd_io hw) Q E (lh, u) =
     wpK (lhd_sector hw (if uio_rw u = UIO_WRITE then LHD_WORKING OR LHD_ISWRITE else LHD_WORKING) s)
       (\<lambda>_. Q ()) E (lh, u)"
proof -
  have "lhd_io hw (lh, u) = lhd_loop hw
      (if uio_rw u = UIO_WRITE then LHD_WORKING OR LHD_ISWRITE else LHD_WORKING) s 1 0 (lh, u)"
    using assms lhd_io_aligned [OF assms(2), of 1 lh hw] by (simp add: lhd_inv_def)
  then have "wpK (lhd_io hw) Q E (lh, u) = wpK (lhd_loop hw
      (if uio_rw u = UIO_WRITE then LHD_WORKING OR LHD_ISWRITE else LHD_WORKING) s 1 0) Q E (lh, u)"
    by (rule wp_at)
  moreover have "u32 s = s" using assms by simp
  ultimately show ?thesis by (simp only: lhd_loop_1)
qed

end

sublocale lhd_reliable \<subseteq> bd: block_device "lhd_io hw" "lhd_sec dsk" nsect "lhd_inv idle nsect"
proof
  have bound: "nsect < 4294967296" using small by simp
  show "length (lhd_sec dsk d s) = 512" if "lhd_inv idle nsect d" "s < nsect" for d s
    using that sect_len by (simp add: lhd_inv_def lhd_sec_def)
  show "nsect \<le> 4194304" by (rule small)
  show "wpK (lhd_io hw) (\<lambda>_ (d', u'). lhd_inv idle nsect d' \<and> lhd_sec dsk d' = lhd_sec dsk d \<and>
          u' = uio_put (lhd_sec dsk d s) u)
        (\<lambda>e (d', u'). lhd_inv idle nsect d' \<and> lhd_sec dsk d' = lhd_sec dsk d \<and>
           (e = EIO \<and> u' = u \<or> e = EFAULT \<and> uio_faulted u u')) (d, u)"
    if "lhd_inv idle nsect d" "uio_ok u" "uio_rw u = UIO_READ" "uio_offset u = int (s * 512)"
      "uio_resid u = 512" "s < nsect" for d u s
    using sector_read [OF that(1-3) _ that(6)] that io_one [OF that(1,4,5,6) bound] by simp
  show "wpK (lhd_io hw) (\<lambda>_ (d', u'). lhd_inv idle nsect d' \<and>
          lhd_sec dsk d' = (lhd_sec dsk d)(s := uio_next 512 u) \<and> u' = uio_skip 512 u)
        (\<lambda>e (d', u'). lhd_inv idle nsect d' \<and> e = EFAULT \<and> lhd_sec dsk d' = lhd_sec dsk d \<and>
           uio_faulted u u') (d, u)"
    if "lhd_inv idle nsect d" "uio_ok u" "uio_rw u = UIO_WRITE" "uio_offset u = int (s * 512)"
      "uio_resid u = 512" "s < nsect" for d u s
    using sector_write [OF that(1-3) _ that(6)] that io_one [OF that(1,4,5,6) bound] lhd_reliable_axioms
    by simp
qed

section \<open>A disk in software\<close>

text \<open>
  An executable card with 2048 sectors that behaves as documented: reads fail on the sectors
  \<open>rbad\<close>, writes on the sectors \<open>wbad\<close>, leaving them as they were.
\<close>

record simdisk =
  sd_disk :: "nat \<Rightarrow> byte list"
  sd_buf :: "byte list"
  sd_sect :: nat
  sd_stat :: nat

definition sim_irq :: "(nat \<Rightarrow> bool) \<Rightarrow> (nat \<Rightarrow> bool) \<Rightarrow> simdisk \<Rightarrow> simdisk option" where
  "sim_irq rbad wbad h =
     (if sd_stat h = 1 then
        if 2048 \<le> sd_sect h then Some (h\<lparr>sd_stat := 12\<rparr>)
        else if rbad (sd_sect h) then Some (h\<lparr>sd_stat := 20\<rparr>)
        else Some (h\<lparr>sd_buf := sd_disk h (sd_sect h), sd_stat := 4\<rparr>)
      else if sd_stat h = 3 then
        if 2048 \<le> sd_sect h then Some (h\<lparr>sd_stat := 14\<rparr>)
        else if wbad (sd_sect h) then Some (h\<lparr>sd_stat := 22\<rparr>)
        else Some (h\<lparr>sd_disk := (sd_disk h)(sd_sect h := sd_buf h), sd_stat := 6\<rparr>)
      else None)"

definition sim_hw :: "(nat \<Rightarrow> bool) \<Rightarrow> (nat \<Rightarrow> bool) \<Rightarrow> simdisk lhd_hw" where
  "sim_hw rbad wbad =
     \<lparr>hw_rdreg = (\<lambda>r h. if r = LHD_REG_NSECT then 2048 else if r = LHD_REG_STAT then sd_stat h
        else if r = LHD_REG_SECT then sd_sect h else 0),
      hw_wreg = (\<lambda>r v h. if r = LHD_REG_STAT then h\<lparr>sd_stat := v\<rparr>
        else if r = LHD_REG_SECT then h\<lparr>sd_sect := v\<rparr> else h),
      hw_buf = sd_buf,
      hw_setbuf = (\<lambda>bs h. h\<lparr>sd_buf := bs\<rparr>),
      hw_irq = sim_irq rbad wbad\<rparr>"

definition sim_idle :: "simdisk \<Rightarrow> bool" where
  "sim_idle h \<longleftrightarrow> sd_stat h = 0 \<and> length (sd_buf h) = 512 \<and> (\<forall>s < 2048. length (sd_disk h s) = 512)"

lemmas sim_defs = sim_hw_def sim_irq_def sim_idle_def hw_start_def hw_ack_def lhd_consts

interpretation simf: lhd_hardware "sim_hw rbad wbad" sd_disk 2048 sim_idle for rbad wbad
  by unfold_locales (auto simp: sim_defs)

interpretation simd: lhd_reliable "sim_hw rbad (\<lambda>_. False)" sd_disk 2048 sim_idle for rbad
  by unfold_locales (auto simp: sim_defs split: if_splits)

definition example_disk :: "simdisk lhd_softc" where
  "example_disk = \<lparr>lh_card = \<lparr>sd_disk = (\<lambda>s. replicate 512 (of_nat s)), sd_buf = replicate 512 0,
     sd_sect = 0, sd_stat = 0\<rparr>, lh_result = None, lh_clear = 1, lh_done = 0, lh_blocks = 2048\<rparr>"

lemma example_disk_inv: "lhd_inv sim_idle 2048 example_disk"
  by (simp add: lhd_inv_def example_disk_def sim_idle_def)

section \<open>Properties\<close>

text \<open>
  Property C30. A sector-aligned read that lies on the disk delivers, in order, what the sectors
  hold, for any number of sectors; it changes no sector, returns even when the disk reports a
  media error (with \<^verbatim>\<open>EIO\<close>) or the user buffer faults (with \<^verbatim>\<open>EFAULT\<close>), and leaves both
  semaphores as it found them.
\<close>

theorem lhd_io_reads:
  assumes "lhd_hardware hw dsk nsect idle" and "lhd_inv idle nsect lh" and "nsect < 4294967296"
    and "uio_ok u" and "uio_rw u = UIO_READ" and "uio_offset u = int (s * 512)"
    and "uio_resid u = 512 * k" and "s + k \<le> nsect"
  shows "wpK (lhd_io hw)
     (\<lambda>_ (lh', u'). lhd_inv idle nsect lh' \<and> dsk (lh_card lh') = dsk (lh_card lh) \<and>
        u' = uio_put (concat (map (dsk (lh_card lh)) [s..<s + k])) u)
     (\<lambda>e (lh', u'). lhd_inv idle nsect lh' \<and> dsk (lh_card lh') = dsk (lh_card lh) \<and> e \<in> {EIO, EFAULT})
     (lh, u)"
  using lhd_hardware.io_read [OF assms(1,2,4-8,3)] by (simp add: lhd_sec_def)

theorem lhd_io_reads_witness:
  "wpK (lhd_io (sim_hw (\<lambda>s. s = 5) (\<lambda>_. False)))
     (\<lambda>_ (lh', u'). u' = uio_put (replicate 512 3 @ replicate 512 4)
        (mk_kuio 4096 1024 1536 UIO_READ example_mem None))
     (\<lambda>e (lh', u'). e \<in> {EIO, EFAULT}) (example_disk, mk_kuio 4096 1024 1536 UIO_READ example_mem None)"
proof -
  have "uio_ok (mk_kuio 4096 1024 1536 UIO_READ example_mem None)"
    by (rule mk_kuio_ok) (simp_all add: example_mem_def)
  moreover have "concat (map (sd_disk (lh_card example_disk)) [3..<3 + 2]) =
      replicate 512 3 @ replicate 512 4"
    by (simp add: example_disk_def upt_rec)
  ultimately show ?thesis
    using lhd_io_reads [OF simf.lhd_hardware_axioms example_disk_inv, where s = 3 and k = 2
        and u = "mk_kuio 4096 1024 1536 UIO_READ example_mem None" and rbad1 = "\<lambda>s. s = 5"
        and wbad1 = "\<lambda>_. False"]
    by (simp add: mk_kuio_def) (rule wp_mono, assumption, auto)
qed

text \<open>
  Property C31. A sector-aligned write that lies on the disk and succeeds stores, sector by sector,
  exactly the bytes of the caller's buffer, and touches no other sector; when it fails, with
  \<^verbatim>\<open>EIO\<close> or \<^verbatim>\<open>EFAULT\<close>, the sectors outside the range are unchanged and the driver is ready for
  the next request.
\<close>

theorem lhd_io_writes:
  assumes "lhd_hardware hw dsk nsect idle" and "lhd_inv idle nsect lh" and "nsect < 4294967296"
    and "uio_ok u" and "uio_rw u = UIO_WRITE" and "uio_offset u = int (s * 512)"
    and "uio_resid u = 512 * k" and "s + k \<le> nsect"
  shows "wpK (lhd_io hw)
     (\<lambda>_ (lh', u'). lhd_inv idle nsect lh' \<and> u' = uio_skip (512 * k) u \<and>
        (\<forall>t. dsk (lh_card lh') t = (if s \<le> t \<and> t < s + k
           then get_at (iov_base u + 512 * (t - s)) 512 (m_byte (uio_mem u)) else dsk (lh_card lh) t)))
     (\<lambda>e (lh', u'). lhd_inv idle nsect lh' \<and> e \<in> {EIO, EFAULT} \<and>
        (\<forall>t. t < s \<or> s + k \<le> t \<longrightarrow> dsk (lh_card lh') t = dsk (lh_card lh) t)) (lh, u)"
  by (rule wp_mono [OF lhd_hardware.io_write [OF assms(1,2,4-8,3)]])
    (auto simp: lhd_sec_def uio_next_def)

theorem lhd_io_writes_witness:
  "wpK (lhd_io (sim_hw (\<lambda>_. False) (\<lambda>s. s = 9)))
     (\<lambda>_ (lh', u'). sd_disk (lh_card lh') 7 = get_at 4096 512 (m_byte example_mem) \<and>
        sd_disk (lh_card lh') 6 = replicate 512 6)
     (\<lambda>e (lh', u'). sd_disk (lh_card lh') 6 = replicate 512 6)
     (example_disk, mk_kuio 4096 1024 3584 UIO_WRITE example_mem None)"
proof -
  have "uio_ok (mk_kuio 4096 1024 3584 UIO_WRITE example_mem None)"
    by (rule mk_kuio_ok) (simp_all add: example_mem_def)
  then show ?thesis
    by (intro wp_mono [OF lhd_io_writes [OF simf.lhd_hardware_axioms example_disk_inv, where s = 7 and k = 2]])
      (auto simp: mk_kuio_def example_disk_def)
qed

text \<open>
  The driver refuses, with \<^verbatim>\<open>EINVAL\<close> and without touching card or descriptor, every
  request at a non-negative offset that is not aligned to sectors or reaches past the end of
  the disk, as long as the sector numbers do not overflow 32 bits.
\<close>

theorem lhd_io_rejects:
  assumes "uio_offset u = int off" and "off div 512 + uio_resid u div 512 < 4294967296"
    and "off mod 512 \<noteq> 0 \<or> uio_resid u mod 512 \<noteq> 0 \<or> lh_blocks lh < off div 512 + uio_resid u div 512"
  shows "lhd_io hw (lh, u) = Some (Inl EINVAL, (lh, u))"
proof -
  have "cdiv (int off) (int 512) = int (off div 512)" "crem (int off) (int 512) = int (off mod 512)"
    by (simp_all only: cdiv_nat crem_nat)
  moreover have "u32 (off div 512) = off div 512" "u32 (off mod 512) = off mod 512" using assms(2) by auto
  ultimately show ?thesis
    using assms by (auto simp: lhd_io_def Let_def LHD_SECTSIZE_def simp del: of_nat_div of_nat_mod)
qed

theorem lhd_io_rejects_witness:
  "lhd_io (sim_hw (\<lambda>_. False) (\<lambda>_. False)) (example_disk, mk_kuio 4096 1024 1048064 UIO_READ example_mem None) =
     Some (Inl EINVAL, (example_disk, mk_kuio 4096 1024 1048064 UIO_READ example_mem None))"
  by (rule lhd_io_rejects [where off = 1048064]) (simp_all add: mk_kuio_def example_disk_def)

end
