(* ===== verification/SFS_Layout.thy ===== *)
theory SFS_Layout
  imports OS_Prelude
begin

text \<open>
  The on-disk layout of SFS, \<^verbatim>\<open>kern/include/kern/sfs.h\<close>: superblock, inode and directory entry
  as records, and the bytes they occupy. The machine is big-endian. A block is 128 words of 32
  bits; the two 16-bit fields of an inode share its second word. The round trips show that a
  structure written to a block and read back is the same structure.
\<close>

section \<open>Constants and structures\<close>

definition SFS_MAGIC :: nat where "SFS_MAGIC = 0xabadf001"
definition SFS_BLOCKSIZE :: nat where "SFS_BLOCKSIZE = 512"
definition SFS_VOLNAME_SIZE :: nat where "SFS_VOLNAME_SIZE = 32"
definition SFS_NDIRECT :: nat where "SFS_NDIRECT = 15"
definition SFS_DBPERIDB :: nat where "SFS_DBPERIDB = 128"
definition SFS_NAMELEN :: nat where "SFS_NAMELEN = 60"
definition SFS_SB_LOCATION :: nat where "SFS_SB_LOCATION = 0"
definition SFS_ROOT_LOCATION :: nat where "SFS_ROOT_LOCATION = 1"
definition SFS_MAP_LOCATION :: nat where "SFS_MAP_LOCATION = 2"
definition SFS_NOINO :: nat where "SFS_NOINO = 0"
definition SFS_BLOCKBITS :: nat where "SFS_BLOCKBITS = 4096"
definition SFS_TYPE_INVAL :: nat where "SFS_TYPE_INVAL = 0"
definition SFS_TYPE_FILE :: nat where "SFS_TYPE_FILE = 1"
definition SFS_TYPE_DIR :: nat where "SFS_TYPE_DIR = 2"

lemmas sfs_consts = SFS_MAGIC_def SFS_BLOCKSIZE_def SFS_VOLNAME_SIZE_def SFS_NDIRECT_def
  SFS_DBPERIDB_def SFS_NAMELEN_def SFS_SB_LOCATION_def SFS_ROOT_LOCATION_def
  SFS_MAP_LOCATION_def SFS_NOINO_def SFS_BLOCKBITS_def SFS_TYPE_INVAL_def SFS_TYPE_FILE_def
  SFS_TYPE_DIR_def

text \<open>The macros, on 32-bit unsigned operands.\<close>

definition SFS_ROUNDUP :: "nat \<Rightarrow> nat \<Rightarrow> nat" where
  "SFS_ROUNDUP a b = u32 (u32 (a + b - 1) div b * b)"

definition SFS_BITMAPSIZE :: "nat \<Rightarrow> nat" where
  "SFS_BITMAPSIZE nblocks = SFS_ROUNDUP nblocks SFS_BLOCKBITS"

definition SFS_BITBLOCKS :: "nat \<Rightarrow> nat" where
  "SFS_BITBLOCKS nblocks = SFS_BITMAPSIZE nblocks div SFS_BLOCKBITS"

record sfs_super =
  sp_magic :: nat
  sp_nblocks :: nat
  sp_volname :: "byte list"
  sp_reserved :: "nat list"

record sfs_inode =
  sfi_size :: nat
  sfi_type :: nat
  sfi_linkcount :: nat
  sfi_direct :: "nat list"
  sfi_indirect :: nat
  sfi_waste :: "nat list"

record sfs_dir =
  sfd_ino :: nat
  sfd_name :: "byte list"

section \<open>Bytes\<close>

definition be32 :: "nat \<Rightarrow> byte list" where
  "be32 n = [of_nat (n div 16777216), of_nat (n div 65536), of_nat (n div 256), of_nat n]"

fun de32 :: "byte list \<Rightarrow> nat" where
  "de32 [a, b, c, d] = unat a * 16777216 + unat b * 65536 + unat c * 256 + unat d"
| "de32 _ = 0"

text \<open>An array of 32-bit words and the bytes it occupies.\<close>

definition enc_words :: "nat list \<Rightarrow> byte list" where
  "enc_words ws = concat (map be32 ws)"

fun dec_words :: "nat \<Rightarrow> byte list \<Rightarrow> nat list" where
  "dec_words 0 bs = []"
| "dec_words (Suc n) bs = de32 (take 4 bs) # dec_words n (drop 4 bs)"

definition enc_super :: "sfs_super \<Rightarrow> byte list" where
  "enc_super sp = be32 (sp_magic sp) @ be32 (sp_nblocks sp) @ sp_volname sp @ enc_words (sp_reserved sp)"

definition dec_super :: "byte list \<Rightarrow> sfs_super" where
  "dec_super bs = \<lparr>sp_magic = de32 (take 4 bs), sp_nblocks = de32 (take 4 (drop 4 bs)),
     sp_volname = take 32 (drop 8 bs), sp_reserved = dec_words 118 (drop 40 bs)\<rparr>"

definition enc_inode :: "sfs_inode \<Rightarrow> byte list" where
  "enc_inode i = enc_words (sfi_size i # (sfi_type i * 65536 + sfi_linkcount i) #
     sfi_direct i @ sfi_indirect i # sfi_waste i)"

definition dec_inode :: "byte list \<Rightarrow> sfs_inode" where
  "dec_inode bs = (let ws = dec_words 128 bs in
     \<lparr>sfi_size = ws ! 0, sfi_type = ws ! 1 div 65536, sfi_linkcount = ws ! 1 mod 65536,
      sfi_direct = take 15 (drop 2 ws), sfi_indirect = ws ! 17, sfi_waste = drop 18 ws\<rparr>)"

definition enc_dir :: "sfs_dir \<Rightarrow> byte list" where
  "enc_dir d = be32 (sfd_ino d) @ sfd_name d"

definition dec_dir :: "byte list \<Rightarrow> sfs_dir" where
  "dec_dir bs = \<lparr>sfd_ino = de32 (take 4 bs), sfd_name = take 60 (drop 4 bs)\<rparr>"

text \<open>Structures whose fields fit their C types.\<close>

definition super_wf :: "sfs_super \<Rightarrow> bool" where
  "super_wf sp \<longleftrightarrow> sp_magic sp < 4294967296 \<and> sp_nblocks sp < 4294967296 \<and>
     length (sp_volname sp) = 32 \<and> length (sp_reserved sp) = 118 \<and>
     (\<forall>w \<in> set (sp_reserved sp). w < 4294967296)"

definition inode_wf :: "sfs_inode \<Rightarrow> bool" where
  "inode_wf i \<longleftrightarrow> sfi_size i < 4294967296 \<and> sfi_type i < 65536 \<and> sfi_linkcount i < 65536 \<and>
     length (sfi_direct i) = 15 \<and> (\<forall>w \<in> set (sfi_direct i). w < 4294967296) \<and>
     sfi_indirect i < 4294967296 \<and> length (sfi_waste i) = 110 \<and>
     (\<forall>w \<in> set (sfi_waste i). w < 4294967296)"

definition dir_wf :: "sfs_dir \<Rightarrow> bool" where
  "dir_wf d \<longleftrightarrow> sfd_ino d < 4294967296 \<and> length (sfd_name d) = 60"

section \<open>Round trips\<close>

lemma length_be32 [simp]: "length (be32 n) = 4"
  by (simp add: be32_def)

lemma de32_be32 [simp]: "n < 4294967296 \<Longrightarrow> de32 (be32 n) = n"
proof -
  assume "n < 4294967296"
  then have top: "n div 16777216 mod 256 = n div 16777216" by simp
  have "n div 16777216 = n div 65536 div 256" "n div 65536 = n div 256 div 256"
    by (simp_all add: div_mult2_eq [symmetric])
  then have "n div 16777216 * 256 + n div 65536 mod 256 = n div 65536"
    "n div 65536 * 256 + n div 256 mod 256 = n div 256"
    "n div 256 * 256 + n mod 256 = n"
    by (metis div_mult_mod_eq)+
  then have "n div 16777216 * 16777216 + n div 65536 mod 256 * 65536 + n div 256 mod 256 * 256 + n mod 256 = n"
    by linarith
  with top show ?thesis by (simp add: be32_def unat_of_nat)
qed

lemma be32_digits:
  fixes a b c d :: nat
  assumes "b < 256" "c < 256" "d < 256"
  shows "(a * 16777216 + b * 65536 + c * 256 + d) div 256 = a * 65536 + b * 256 + c"
    "(a * 16777216 + b * 65536 + c * 256 + d) div 65536 = a * 256 + b"
    "(a * 16777216 + b * 65536 + c * 256 + d) div 16777216 = a"
proof -
  have "(a * 16777216 + b * 65536 + c * 256 + d) = (a * 65536 + b * 256 + c) * 256 + d" by simp
  then show 1: "(a * 16777216 + b * 65536 + c * 256 + d) div 256 = a * 65536 + b * 256 + c"
    using assms by simp
  have "(a * 65536 + b * 256 + c) = (a * 256 + b) * 256 + c" by simp
  then have "(a * 65536 + b * 256 + c) div 256 = a * 256 + b" using assms by simp
  then show 2: "(a * 16777216 + b * 65536 + c * 256 + d) div 65536 = a * 256 + b"
    using 1 div_mult2_eq [of "a * 16777216 + b * 65536 + c * 256 + d" 256 256] by simp
  show "(a * 16777216 + b * 65536 + c * 256 + d) div 16777216 = a"
    using 2 div_mult2_eq [of "a * 16777216 + b * 65536 + c * 256 + d" 65536 256] assms by simp
qed

lemma byte_less: "unat (w :: byte) < 256"
proof -
  have "unat w < 2 ^ LENGTH(8)" by (rule unsigned_less)
  then show ?thesis by simp
qed

lemma byte_digit: "of_nat (x * 256 + unat y) = (y :: byte)"
  unfolding word_unat_eq_iff unat_of_nat using byte_less [of y] by simp

lemma be32_de32 [simp]:
  assumes "length bs = 4"
  shows "be32 (de32 bs) = bs" "de32 bs < 4294967296"
proof -
  obtain a b c d where bs: "bs = [a, b, c, d]"
    using assms by (auto simp: eval_nat_numeral length_Suc_conv)
  note digits = be32_digits [OF byte_less byte_less byte_less, of "unat a" b c d]
  have "unat a * 65536 + unat b * 256 + unat c = (unat a * 256 + unat b) * 256 + unat c"
    "unat a * 16777216 + unat b * 65536 + unat c * 256 + unat d =
       (unat a * 65536 + unat b * 256 + unat c) * 256 + unat d" by simp_all
  then show "be32 (de32 bs) = bs"
    using byte_digit [of 0 a] unfolding bs be32_def de32.simps digits
    by (simp only: byte_digit mult_0 add_0)
  show "de32 bs < 4294967296"
    using byte_less [of a] byte_less [of b] byte_less [of c] byte_less [of d] by (simp add: bs)
qed

lemma length_enc_words [simp]: "length (enc_words ws) = 4 * length ws"
  by (induction ws) (simp_all add: enc_words_def)

lemma length_dec_words [simp]: "length (dec_words n bs) = n"
  by (induction n arbitrary: bs) simp_all

lemma enc_words_simps [simp]:
  "enc_words [] = []" "enc_words (w # ws) = be32 w @ enc_words ws"
  "enc_words (us @ vs) = enc_words us @ enc_words vs"
  by (simp_all add: enc_words_def)

lemma dec_enc_words:
  "(\<forall>w \<in> set ws. w < 4294967296) \<Longrightarrow> dec_words (length ws) (enc_words ws @ bs) = ws"
  by (induction ws) simp_all

lemma enc_dec_words: "length bs = 4 * n \<Longrightarrow> enc_words (dec_words n bs) = bs"
  by (induction n arbitrary: bs) simp_all

lemma dec_words_bound: "length bs = 4 * n \<Longrightarrow> w \<in> set (dec_words n bs) \<Longrightarrow> w < 4294967296"
proof (induction n arbitrary: bs)
  case (Suc n)
  then show ?case using Suc.IH [of "drop 4 bs"] by auto
qed simp

lemma dec_words_nth: "length bs = 4 * n \<Longrightarrow> k < n \<Longrightarrow> dec_words n bs ! k < 4294967296"
  using dec_words_bound [of bs n "dec_words n bs ! k"] nth_mem [of k "dec_words n bs"] by simp

lemma length_enc_inode [simp]: "inode_wf i \<Longrightarrow> length (enc_inode i) = 512"
  by (simp add: enc_inode_def inode_wf_def)

lemma length_enc_super [simp]: "super_wf sp \<Longrightarrow> length (enc_super sp) = 512"
  by (simp add: enc_super_def super_wf_def)

lemma length_enc_dir [simp]: "dir_wf d \<Longrightarrow> length (enc_dir d) = 64"
  by (simp add: enc_dir_def dir_wf_def)

lemma dec_enc_inode [simp]:
  assumes "inode_wf i"
  shows "dec_inode (enc_inode i) = i"
proof -
  let ?ws = "sfi_size i # (sfi_type i * 65536 + sfi_linkcount i) #
     sfi_direct i @ sfi_indirect i # sfi_waste i"
  have "\<forall>w \<in> set ?ws. w < 4294967296" "length ?ws = 128"
    using assms by (auto simp: inode_wf_def)
  then have "dec_words 128 (enc_inode i) = ?ws"
    using dec_enc_words [of ?ws "[]"] unfolding enc_inode_def by simp
  with assms show ?thesis
    by (simp add: dec_inode_def Let_def inode_wf_def nth_append)
qed

lemma dec_inode_wf [simp]: "length bs = 512 \<Longrightarrow> inode_wf (dec_inode bs)"
proof -
  assume len: "length bs = 512"
  then have "w \<in> set (dec_words 128 bs) \<Longrightarrow> w < 4294967296" for w
    using dec_words_bound [of bs 128 w] by simp
  then show ?thesis
    by (auto simp: inode_wf_def dec_inode_def Let_def less_mult_imp_div_less dest: in_set_takeD in_set_dropD)
qed

lemma enc_dec_inode [simp]:
  assumes "length bs = 512"
  shows "enc_inode (dec_inode bs) = bs"
proof -
  have "(128 :: nat) = Suc (Suc 126)" by simp
  then have "dec_words 128 bs = de32 (take 4 bs) # de32 (take 4 (drop 4 bs)) # dec_words 126 (drop 4 (drop 4 bs))"
    by (simp only: dec_words.simps)
  then obtain u v r where ws: "dec_words 128 bs = u # v # r" "length r = 126"
    by (metis length_dec_words)
  have "take 15 r @ r ! 15 # drop 16 r = r"
    using id_take_nth_drop [of 15 r] ws(2) by simp
  then have "sfi_size (dec_inode bs) # (sfi_type (dec_inode bs) * 65536 + sfi_linkcount (dec_inode bs)) #
     sfi_direct (dec_inode bs) @ sfi_indirect (dec_inode bs) # sfi_waste (dec_inode bs) = dec_words 128 bs"
    by (simp add: dec_inode_def ws(1))
  then show ?thesis
    using enc_dec_words [of bs 128] assms by (simp only: enc_inode_def)
qed

lemma dec_enc_super [simp]:
  assumes "super_wf sp"
  shows "dec_super (enc_super sp) = sp"
  using assms dec_enc_words [of "sp_reserved sp" "[]"] by (simp add: dec_super_def enc_super_def super_wf_def)

lemma dec_enc_dir [simp]: "dir_wf d \<Longrightarrow> dec_dir (enc_dir d) = d"
  by (simp add: dec_dir_def enc_dir_def dir_wf_def)

lemma enc_dec_dir [simp]: "length bs = 64 \<Longrightarrow> enc_dir (dec_dir bs) = bs \<and> dir_wf (dec_dir bs)"
  by (simp add: dec_dir_def enc_dir_def dir_wf_def)

section \<open>Properties\<close>

text \<open>
  An inode, a superblock and a directory entry fill exactly a block, a block and an
  eighth of a block; what is written is read back unchanged; and every block is the image of
  exactly one inode structure.
\<close>

theorem sfs_layout_roundtrip:
  assumes "inode_wf i" and "super_wf sp" and "dir_wf d" and "length bs = 512"
  shows "length (enc_inode i) = SFS_BLOCKSIZE \<and> dec_inode (enc_inode i) = i \<and>
     length (enc_super sp) = SFS_BLOCKSIZE \<and> dec_super (enc_super sp) = sp \<and>
     8 * length (enc_dir d) = SFS_BLOCKSIZE \<and> dec_dir (enc_dir d) = d \<and>
     inode_wf (dec_inode bs) \<and> enc_inode (dec_inode bs) = bs"
  using assms by (simp add: SFS_BLOCKSIZE_def)

theorem sfs_layout_roundtrip_witness:
  "dec_inode (enc_inode \<lparr>sfi_size = 1000, sfi_type = 1, sfi_linkcount = 2, sfi_direct = replicate 15 7,
      sfi_indirect = 9, sfi_waste = replicate 110 0\<rparr>) =
     \<lparr>sfi_size = 1000, sfi_type = 1, sfi_linkcount = 2, sfi_direct = replicate 15 7,
      sfi_indirect = 9, sfi_waste = replicate 110 0\<rparr>"
proof -
  have "inode_wf \<lparr>sfi_size = 1000, sfi_type = 1, sfi_linkcount = 2, sfi_direct = replicate 15 7,
      sfi_indirect = 9, sfi_waste = replicate 110 0\<rparr>"
    by (simp add: inode_wf_def)
  moreover have "super_wf \<lparr>sp_magic = SFS_MAGIC, sp_nblocks = 100, sp_volname = replicate 32 0,
      sp_reserved = replicate 118 0\<rparr>"
    by (simp add: super_wf_def SFS_MAGIC_def)
  moreover have "dir_wf \<lparr>sfd_ino = 3, sfd_name = replicate 60 0\<rparr>"
    by (simp add: dir_wf_def)
  moreover have "length (replicate 512 (0 :: byte)) = 512" by simp
  ultimately show ?thesis by (rule sfs_layout_roundtrip [THEN conjunct2, THEN conjunct1])
qed

end
