(* ===== verification/SFS_Core.thy ===== *)
theory SFS_Core
  imports Karray Bitmap Lhd SFS_Layout
begin

text \<open>
  SFS, the part below files: the in-memory state (\<^verbatim>\<open>kern/include/sfs.h\<close>), block I/O
  (\<^verbatim>\<open>kern/fs/sfs/sfs_io.c\<close>), space allocation and block mapping (the first part of
  \<^verbatim>\<open>kern/fs/sfs/sfs_vnode.c\<close>).

  The device is reached through a record of its operations, as the C code reaches it through
  \<^verbatim>\<open>sfs->sfs_device->d_io\<close>; its state is part of the file system state. Vnodes live in an
  explicit store \<open>sfs_heap\<close> from addresses to structures; \<^verbatim>\<open>sfs_vnodes\<close> is the array of their
  addresses. An access through an address that is not in the store is undefined and does not
  return. The kernel runs these routines one thread at a time: \<^verbatim>\<open>vn_countlock\<close> protects single
  updates of the counts only, and is not part of the state.

  Static I/O buffers (\<^verbatim>\<open>idbuf\<close>, \<^verbatim>\<open>iobuf\<close>, \<^verbatim>\<open>zeros\<close>) are always filled before they are read, so
  they are local values of the model.
\<close>

section \<open>State\<close>

datatype vnode_ops = SFS_FILEOPS | SFS_DIROPS

record sfs_vnode =
  vn_refcount :: int
  vn_opencount :: int
  vn_ops :: vnode_ops
  sv_i :: sfs_inode
  sv_ino :: nat
  sv_dirty :: bool

record 'd sfs_fs =
  sfs_super :: sfs_super
  sfs_superdirty :: bool
  sfs_device :: 'd
  sfs_vnodes :: "nat karray"
  sfs_freemap :: bitmap
  sfs_freemapdirty :: bool
  sfs_heap :: "nat \<rightharpoonup> sfs_vnode"
  sfs_newptr :: nat
  sfs_km :: kmem

text \<open>\<^verbatim>\<open>struct device\<close>.\<close>

record 'd device =
  d_io :: "('d \<times> uio, unit) kern"
  d_blocks :: nat
  d_blocksize :: nat

definition lhd_device :: "'h lhd_hw \<Rightarrow> nat \<Rightarrow> ('h lhd_softc) device" where
  "lhd_device hw nsect = \<lparr>d_io = lhd_io hw, d_blocks = nsect, d_blocksize = LHD_SECTSIZE\<rparr>"

text \<open>Reading and updating \<^verbatim>\<open>*sv\<close>, and the parts of the state other components work on.\<close>

definition svget :: "nat \<Rightarrow> (sfs_vnode \<Rightarrow> 'a) \<Rightarrow> ('d sfs_fs, 'a) kern" where
  "svget sv f s = (case sfs_heap s sv of None \<Rightarrow> None | Some v \<Rightarrow> Some (Inr (f v), s))"

definition svmod :: "nat \<Rightarrow> (sfs_vnode \<Rightarrow> sfs_vnode) \<Rightarrow> ('d sfs_fs, unit) kern" where
  "svmod sv f s = (case sfs_heap s sv of
     None \<Rightarrow> None | Some v \<Rightarrow> Some (Inr (), s\<lparr>sfs_heap := (sfs_heap s)(sv \<mapsto> f v)\<rparr>))"

definition on_freemap :: "(bitmap, 'a) kern \<Rightarrow> ('d sfs_fs, 'a) kern" where
  "on_freemap = zoomK sfs_freemap (\<lambda>b s. s\<lparr>sfs_freemap := b\<rparr>)"

definition on_km :: "(kmem, 'a) kern \<Rightarrow> ('d sfs_fs, 'a) kern" where
  "on_km = zoomK sfs_km (\<lambda>k s. s\<lparr>sfs_km := k\<rparr>)"

definition on_device :: "('d \<times> uio, 'a) kern \<Rightarrow> ('d sfs_fs \<times> uio, 'a) kern" where
  "on_device = zoomK (\<lambda>x. (sfs_device (fst x), snd x))
     (\<lambda>y x. ((fst x)\<lparr>sfs_device := fst y\<rparr>, snd y))"

section \<open>Block I/O\<close>

function sfs_rwblock_try :: "'d device \<Rightarrow> nat \<Rightarrow> ('d sfs_fs \<times> uio, unit) kern" where
  "sfs_rwblock_try dv tries =
     bindK (tryK (on_device (d_io dv))) (\<lambda>result.
       if result = Inl EINVAL then panicK
       else if result = Inl EIO \<and> tries < 10 then sfs_rwblock_try dv (Suc tries)
       else resultK result)"
  by pat_completeness auto
termination
  by (relation "measure (\<lambda>(dv, tries). 10 - tries)") auto

declare sfs_rwblock_try.simps [simp del]

definition sfs_rwblock :: "'d device \<Rightarrow> ('d sfs_fs \<times> uio, unit) kern" where
  "sfs_rwblock dv = sfs_rwblock_try dv 0"

text \<open>
  A kernel buffer of one block at some kernel address, and the macro \<^verbatim>\<open>SFSUIO\<close>. The product
  \<^verbatim>\<open>((off_t)(block))*SFS_BLOCKSIZE\<close> is one of 32-bit signed integers.
\<close>

definition KBUF :: nat where
  "KBUF = 2147549184"

definition kbuf_mem :: "byte list \<Rightarrow> mem" where
  "kbuf_mem bs = \<lparr>m_byte = put_at KBUF bs (\<lambda>_. 0), m_readable = (\<lambda>_. True), m_writable = (\<lambda>_. True),
     pcb_badfaultfunc = False\<rparr>"

definition SFSUIO :: "byte list \<Rightarrow> nat \<Rightarrow> uio_rw \<Rightarrow> uio" where
  "SFSUIO bs block rw =
     mk_kuio KBUF SFS_BLOCKSIZE (s32 (s32 (int block) * int SFS_BLOCKSIZE)) rw (kbuf_mem bs) None"

definition sfs_rblock :: "'d device \<Rightarrow> nat \<Rightarrow> ('d sfs_fs, byte list) kern" where
  "sfs_rblock dv block s =
     (case sfs_rwblock dv (s, SFSUIO (replicate 512 0) block UIO_READ) of
        None \<Rightarrow> None
      | Some (Inl e, (s', u)) \<Rightarrow> Some (Inl e, s')
      | Some (Inr _, (s', u)) \<Rightarrow> Some (Inr (get_at KBUF 512 (m_byte (uio_mem u))), s'))"

definition sfs_wblock :: "'d device \<Rightarrow> byte list \<Rightarrow> nat \<Rightarrow> ('d sfs_fs, unit) kern" where
  "sfs_wblock dv bs block s =
     (case sfs_rwblock dv (s, SFSUIO bs block UIO_WRITE) of
        None \<Rightarrow> None
      | Some (r, (s', u)) \<Rightarrow> Some (r, s'))"

definition sfs_clearblock :: "'d device \<Rightarrow> nat \<Rightarrow> ('d sfs_fs, unit) kern" where
  "sfs_clearblock dv block = sfs_wblock dv (replicate 512 0) block"

definition sfs_sync_inode :: "'d device \<Rightarrow> nat \<Rightarrow> ('d sfs_fs, unit) kern" where
  "sfs_sync_inode dv sv =
     bindK (svget sv id) (\<lambda>v.
       if sv_dirty v then
         bindK (sfs_wblock dv (enc_inode (sv_i v)) (sv_ino v)) (\<lambda>_.
         svmod sv (\<lambda>v. v\<lparr>sv_dirty := False\<rparr>))
       else retK ())"

section \<open>Space allocation\<close>

definition sfs_balloc :: "'d device \<Rightarrow> ('d sfs_fs, nat) kern" where
  "sfs_balloc dv =
     bindK (on_freemap bitmap_alloc) (\<lambda>diskblock.
     bindK (modK (\<lambda>s. s\<lparr>sfs_freemapdirty := True\<rparr>)) (\<lambda>_.
     bindK (getK (\<lambda>s. sp_nblocks (sfs_super s))) (\<lambda>nblocks.
       if diskblock \<ge> nblocks then panicK
       else bindK (sfs_clearblock dv diskblock) (\<lambda>_. retK diskblock))))"

definition sfs_bfree :: "nat \<Rightarrow> ('d sfs_fs, unit) kern" where
  "sfs_bfree diskblock =
     bindK (on_freemap (bitmap_unmark diskblock)) (\<lambda>_.
     modK (\<lambda>s. s\<lparr>sfs_freemapdirty := True\<rparr>))"

definition sfs_bused :: "nat \<Rightarrow> ('d sfs_fs, bool) kern" where
  "sfs_bused diskblock =
     bindK (getK (\<lambda>s. sp_nblocks (sfs_super s))) (\<lambda>nblocks.
       if diskblock \<ge> nblocks then panicK else on_freemap (bitmap_isset diskblock))"

section \<open>Block mapping\<close>

text \<open>\<^verbatim>\<open>if (block != 0 && !sfs_bused(sfs, block)) panic(...)\<close>, then hand back the block.\<close>

definition sfs_bmap_check :: "nat \<Rightarrow> ('d sfs_fs, nat) kern" where
  "sfs_bmap_check block =
     (if block \<noteq> 0 then bindK (sfs_bused block) (\<lambda>used. if used then retK block else panicK)
      else retK block)"

definition sfs_bmap :: "'d device \<Rightarrow> nat \<Rightarrow> nat \<Rightarrow> bool \<Rightarrow> ('d sfs_fs, nat) kern" where
  "sfs_bmap dv sv fileblock doalloc =
     (if fileblock < SFS_NDIRECT then
        bindK (svget sv (\<lambda>v. sfi_direct (sv_i v) ! fileblock)) (\<lambda>block.
        bindK (if block = 0 \<and> doalloc then
                 bindK (sfs_balloc dv) (\<lambda>block.
                 bindK (svmod sv (\<lambda>v. v\<lparr>sv_i := (sv_i v)\<lparr>sfi_direct := (sfi_direct (sv_i v))[fileblock := block]\<rparr>,
                                       sv_dirty := True\<rparr>)) (\<lambda>_. retK block))
               else retK block)
          sfs_bmap_check)
      else
        (let fileblock = fileblock - SFS_NDIRECT;
             idnum = fileblock div SFS_DBPERIDB;
             idoff = fileblock mod SFS_DBPERIDB in
         if idnum > 0 then failK EINVAL else
         bindK (svget sv (\<lambda>v. sfi_indirect (sv_i v))) (\<lambda>idblock.
         if idblock = 0 \<and> \<not> doalloc then retK 0 else
         bindK (if idblock = 0 then
                  bindK (sfs_balloc dv) (\<lambda>idblock.
                  bindK (svmod sv (\<lambda>v. v\<lparr>sv_i := (sv_i v)\<lparr>sfi_indirect := idblock\<rparr>, sv_dirty := True\<rparr>)) (\<lambda>_.
                  retK (idblock, replicate 128 0)))
                else
                  bindK (sfs_rblock dv idblock) (\<lambda>bs. retK (idblock, dec_words 128 bs)))
           (\<lambda>(idblock, idbuf).
             bindK (if idbuf ! idoff = 0 \<and> doalloc then
                      bindK (sfs_balloc dv) (\<lambda>block.
                      bindK (sfs_wblock dv (enc_words (idbuf[idoff := block])) idblock) (\<lambda>_.
                      retK block))
                    else retK (idbuf ! idoff))
               sfs_bmap_check))))"

end
