(* ===== verification/SFS_Block.thy ===== *)
theory SFS_Block
  imports SFS_Core
begin

text \<open>
  Lemmas on the block layer of SFS: what \<^verbatim>\<open>sfs_rblock\<close>, \<^verbatim>\<open>sfs_wblock\<close> and the retry loop do on a
  device that keeps the contract \<open>block_device\<close>. The state of the device itself may change with
  every access; \<open>dev_step\<close> says that nothing else does and how the sectors change.
\<close>

locale sfs_disk = block_device "d_io dv" sec nsec dinv
  for dv :: "'d device" and sec :: "'d \<Rightarrow> nat \<Rightarrow> byte list" and nsec :: nat and dinv :: "'d \<Rightarrow> bool"

definition dev_step :: "('d \<Rightarrow> bool) \<Rightarrow> ('d \<Rightarrow> nat \<Rightarrow> byte list) \<Rightarrow> ((nat \<Rightarrow> byte list) \<Rightarrow> nat \<Rightarrow> byte list)
    \<Rightarrow> 'd sfs_fs \<Rightarrow> 'd sfs_fs \<Rightarrow> bool" where
  "dev_step din sc f s s' \<longleftrightarrow>
     (\<exists>d'. s' = s\<lparr>sfs_device := d'\<rparr> \<and> din d' \<and> sc d' = f (sc (sfs_device s)))"

lemma dev_stepD:
  assumes "dev_step din sc f s s'"
  shows "din (sfs_device s')" "sc (sfs_device s') = f (sc (sfs_device s))"
    "sfs_super s' = sfs_super s" "sfs_superdirty s' = sfs_superdirty s" "sfs_vnodes s' = sfs_vnodes s"
    "sfs_freemap s' = sfs_freemap s" "sfs_freemapdirty s' = sfs_freemapdirty s"
    "sfs_heap s' = sfs_heap s" "sfs_newptr s' = sfs_newptr s" "sfs_km s' = sfs_km s"
  using assms by (auto simp: dev_step_def)

lemma wp_on_device [wp]:
  "wpK (on_device m) Q E = (\<lambda>x. wpK m (\<lambda>a y. Q a ((fst x)\<lparr>sfs_device := fst y\<rparr>, snd y))
     (\<lambda>e y. E e ((fst x)\<lparr>sfs_device := fst y\<rparr>, snd y)) (sfs_device (fst x), snd x))"
  by (simp add: on_device_def wp)

lemma wp_svget [wp]:
  "wpK (svget sv f) Q E = (\<lambda>s. case sfs_heap s sv of None \<Rightarrow> False | Some v \<Rightarrow> Q (f v) s)"
  by (rule ext) (simp add: wpK_def svget_def split: option.split)

lemma wp_svmod [wp]:
  "wpK (svmod sv f) Q E = (\<lambda>s. case sfs_heap s sv of None \<Rightarrow> False
     | Some v \<Rightarrow> Q () (s\<lparr>sfs_heap := (sfs_heap s)(sv \<mapsto> f v)\<rparr>))"
  by (rule ext) (simp add: wpK_def svmod_def split: option.split)

lemma SFSUIO_simps [simp]:
  "uio_rw (SFSUIO bs b rw) = rw" "uio_resid (SFSUIO bs b rw) = 512"
  "uio_segflg (SFSUIO bs b rw) = UIO_SYSSPACE" "iov_base (SFSUIO bs b rw) = KBUF"
  "m_byte (uio_mem (SFSUIO bs b rw)) = put_at KBUF bs (\<lambda>_. 0)"
  by (simp_all add: SFSUIO_def mk_kuio_def SFS_BLOCKSIZE_def kbuf_mem_def)

lemma SFSUIO_offset: "b < 4194304 \<Longrightarrow> uio_offset (SFSUIO bs b rw) = int (b * 512)"
  by (simp add: SFSUIO_def mk_kuio_def SFS_BLOCKSIZE_def)

lemma SFSUIO_ok: "b < 4194304 \<Longrightarrow> uio_ok (SFSUIO bs b rw)"
  unfolding SFSUIO_def by (rule mk_kuio_ok) (simp_all add: KBUF_def SFS_BLOCKSIZE_def kbuf_mem_def)

lemma SFSUIO_next: "length bs = 512 \<Longrightarrow> uio_next 512 (SFSUIO bs b rw) = bs"
  using get_put_at [of KBUF bs "\<lambda>_. 0"] by (simp add: uio_next_def)

context sfs_disk begin

lemma rwblock_read:
  assumes "dinv (sfs_device s)" "uio_ok u" "uio_rw u = UIO_READ" "uio_offset u = int (b * 512)"
    "uio_resid u = 512" "b < nsec"
  shows "wpK (sfs_rwblock_try dv tries)
     (\<lambda>_ (s', u'). dev_step dinv sec (\<lambda>f. f) s s' \<and> u' = uio_put (sec (sfs_device s) b) u)
     (\<lambda>e (s', u'). dev_step dinv sec (\<lambda>f. f) s s' \<and> (e = EIO \<and> u' = u \<or> e = EFAULT \<and> uio_faulted u u')) (s, u)"
  using assms(1)
proof (induction "10 - tries" arbitrary: tries s rule: less_induct)
  case less
  show ?case
    apply (subst sfs_rwblock_try.simps)
    unfolding wp_bind wp_try wp_on_device fst_conv snd_conv
  proof (rule wp_mono [OF dio_read [OF less.prems assms(2-)]])
    fix e y
    assume "case y of (d', u') \<Rightarrow> dinv d' \<and> sec d' = sec (sfs_device s) \<and>
      (e = EIO \<and> u' = u \<or> e = EFAULT \<and> uio_faulted u u')"
    then obtain d' u' where y: "y = (d', u')" "dinv d'" "sec d' = sec (sfs_device s)"
        "e = EIO \<and> u' = u \<or> e = EFAULT \<and> uio_faulted u u'" by auto
    have step: "dev_step dinv sec (\<lambda>f. f) s (s\<lparr>sfs_device := d'\<rparr>)"
      using y by (auto simp: dev_step_def)
    have again: "wpK (sfs_rwblock_try dv (Suc tries))
     (\<lambda>_ (s', u'). dev_step dinv sec (\<lambda>f. f) s s' \<and> u' = uio_put (sec (sfs_device s) b) u)
     (\<lambda>e (s', u'). dev_step dinv sec (\<lambda>f. f) s s' \<and> (e = EIO \<and> u' = u \<or> e = EFAULT \<and> uio_faulted u u'))
     (s\<lparr>sfs_device := d'\<rparr>, u)" if "tries < 10"
      by (rule wp_mono [OF less.hyps [of "Suc tries" "s\<lparr>sfs_device := d'\<rparr>"]])
        (use that y in \<open>auto simp: dev_step_def\<close>)
    show "wpK (if Inl e = Inl EINVAL then panicK
         else if Inl e = Inl EIO \<and> tries < 10 then sfs_rwblock_try dv (Suc tries) else resultK (Inl e))
     (\<lambda>_ (s', u'). dev_step dinv sec (\<lambda>f. f) s s' \<and> u' = uio_put (sec (sfs_device s) b) u)
     (\<lambda>e (s', u'). dev_step dinv sec (\<lambda>f. f) s s' \<and> (e = EIO \<and> u' = u \<or> e = EFAULT \<and> uio_faulted u u'))
     (s\<lparr>sfs_device := fst y\<rparr>, snd y)"
      using y step again by (auto simp: wp)
  qed (auto simp: wp dev_step_def)
qed

lemma rwblock_write:
  assumes "dinv (sfs_device s)" "uio_ok u" "uio_rw u = UIO_WRITE" "uio_offset u = int (b * 512)"
    "uio_resid u = 512" "b < nsec"
  shows "wpK (sfs_rwblock dv)
     (\<lambda>_ (s', u'). dev_step dinv sec (\<lambda>f. f(b := uio_next 512 u)) s s' \<and> u' = uio_skip 512 u)
     (\<lambda>e (s', u'). dev_step dinv sec (\<lambda>f. f) s s' \<and> e = EFAULT \<and> uio_faulted u u') (s, u)"
  unfolding sfs_rwblock_def
  apply (subst sfs_rwblock_try.simps)
  unfolding wp_bind wp_try wp_on_device fst_conv snd_conv
  by (rule wp_mono [OF dio_write [OF assms]]) (auto simp: wp dev_step_def)

lemma rblock_wp:
  assumes "dinv (sfs_device s)" "b < nsec"
  shows "wpK (sfs_rblock dv b)
     (\<lambda>bs s'. bs = sec (sfs_device s) b \<and> dev_step dinv sec (\<lambda>f. f) s s')
     (\<lambda>e s'. e = EIO \<and> dev_step dinv sec (\<lambda>f. f) s s') s"
proof -
  let ?u = "SFSUIO (replicate 512 0) b UIO_READ"
  have b: "b < 4194304" using assms(2) nsec_bound by simp
  have "wpK (sfs_rwblock dv)
     (\<lambda>_ (s', u'). dev_step dinv sec (\<lambda>f. f) s s' \<and> u' = uio_put (sec (sfs_device s) b) ?u)
     (\<lambda>e (s', u'). dev_step dinv sec (\<lambda>f. f) s s' \<and> (e = EIO \<and> u' = ?u \<or> e = EFAULT \<and> uio_faulted ?u u')) (s, ?u)"
    unfolding sfs_rwblock_def
    using rwblock_read [OF assms(1) SFSUIO_ok [OF b] _ SFSUIO_offset [OF b] _ assms(2)] by simp
  moreover have "get_at KBUF 512 (put_at KBUF (sec (sfs_device s) b) f) = sec (sfs_device s) b" for f
    using get_put_at [of KBUF "sec (sfs_device s) b" f] sec_len [OF assms] by simp
  ultimately show ?thesis
    by (auto simp: wpK_def sfs_rblock_def uio_faulted_def split: option.splits sum.splits prod.splits)
qed

lemma wblock_wp:
  assumes "dinv (sfs_device s)" "b < nsec" "length bs = 512"
  shows "wpK (sfs_wblock dv bs b) (\<lambda>_ s'. dev_step dinv sec (\<lambda>f. f(b := bs)) s s') (\<lambda>_ _. False) s"
proof -
  let ?u = "SFSUIO bs b UIO_WRITE"
  have b: "b < 4194304" using assms(2) nsec_bound by simp
  have "wpK (sfs_rwblock dv)
     (\<lambda>_ (s', u'). dev_step dinv sec (\<lambda>f. f(b := uio_next 512 ?u)) s s' \<and> u' = uio_skip 512 ?u)
     (\<lambda>e (s', u'). dev_step dinv sec (\<lambda>f. f) s s' \<and> e = EFAULT \<and> uio_faulted ?u u') (s, ?u)"
    using rwblock_write [OF assms(1) SFSUIO_ok [OF b] _ SFSUIO_offset [OF b] _ assms(2)] by simp
  then show ?thesis
    using SFSUIO_next [OF assms(3)]
    by (auto simp: wpK_def sfs_wblock_def uio_faulted_def split: option.splits sum.splits prod.splits)
qed

end

sublocale lhd_reliable \<subseteq> sd: sfs_disk "lhd_device hw nsect" "lhd_sec dsk" nsect "lhd_inv idle nsect"
  by (rule sfs_disk.intro) (simp add: lhd_device_def bd.block_device_axioms)

section \<open>Media errors on writes\<close>

text \<open>
  \<^verbatim>\<open>lhd_io\<close> consumes the descriptor before it knows whether the disk stored the sector. When it
  reports \<^verbatim>\<open>EIO\<close>, the retry of \<^verbatim>\<open>sfs_rwblock\<close> finds nothing left to transfer, and succeeds.
\<close>

context lhd_hardware begin

lemma wblock_any:
  assumes inv: "lhd_inv idle nsect (sfs_device s)" and b: "b < nsect" "nsect < 4194304" and len: "length bs = 512"
    and once: "wpK (lhd_sector hw (LHD_WORKING OR LHD_ISWRITE) b) (\<lambda>_ (lh', u'). u' = uio_skip 512 (SFSUIO bs b UIO_WRITE) \<and> R lh')
      (\<lambda>e (lh', u'). lhd_inv idle nsect lh' \<and> R lh' \<and>
        (e = EFAULT \<and> uio_faulted (SFSUIO bs b UIO_WRITE) u' \<or> e = EIO \<and> u' = uio_skip 512 (SFSUIO bs b UIO_WRITE)))
      (sfs_device s, SFSUIO bs b UIO_WRITE)"
  shows "wpK (sfs_wblock (lhd_device hw nsect) bs b) (\<lambda>_ s'. R (sfs_device s')) (\<lambda>_ _. False) s"
proof -
  let ?u = "SFSUIO bs b UIO_WRITE" and ?dv = "lhd_device hw nsect"
  have d_io: "d_io ?dv = lhd_io hw" by (simp add: lhd_device_def)
  have b32: "b < 4194304" "nsect < 4294967296" using b by simp_all
  have again: "wpK (sfs_rwblock_try ?dv (Suc 0)) (\<lambda>_ (s', u'). R (sfs_device s')) (\<lambda>_ _. False) (s\<lparr>sfs_device := lh\<rparr>, uio_skip 512 ?u)"
    if "lhd_inv idle nsect lh" "R lh" for lh
  proof -
    have "lhd_io hw (lh, uio_skip 512 ?u) = Some (Inr (), (lh, uio_skip 512 ?u))"
      by (rule io_none [OF that(1), of _ "Suc b"]) (use b SFSUIO_offset [OF b32(1)] in simp_all)
    then show ?thesis
      apply (subst sfs_rwblock_try.simps)
      using that(2) by (simp add: wp d_io) (simp add: wpK_def)
  qed
  have "wpK (sfs_rwblock ?dv) (\<lambda>_ (s', u'). R (sfs_device s')) (\<lambda>_ _. False) (s, ?u)"
    unfolding sfs_rwblock_def
    apply (subst sfs_rwblock_try.simps)
    unfolding wp_bind wp_try wp_on_device fst_conv snd_conv d_io
      io_one [OF inv SFSUIO_offset [OF b32(1)] SFSUIO_simps(2) b(1) b32(2)]
    by (simp add: wp, rule wp_mono [OF once]) (auto simp: wp uio_faulted_def intro: again)
  then show ?thesis
    by (auto simp: wpK_def sfs_wblock_def split: option.splits sum.splits prod.splits)
qed

end

end
