(* ===== verification/SFS_Inv.thy ===== *)
theory SFS_Inv
  imports SFS_Block
begin

text \<open>
  The invariant of a mounted SFS. \<open>N\<close> maps each inode number in use to the current inode: the one
  in memory if its vnode is loaded, the one on disk otherwise. \<open>dk\<close> is what the sectors hold.

  \<open>fs_ok\<close> says: the free map has the right shape, with the superblock, the map itself and
  everything past the end marked in use; the blocks an inode refers to, and its own, are
  marked in use, lie on the volume, and occur once; different inodes share no block; and the
  loaded vnodes agree with \<open>N\<close>, clean ones also with the disk. \<open>fblk\<close> is the abstract contents
  of a file, block by block, with zeros for holes.
\<close>

section \<open>The blocks of an inode\<close>

definition id_words :: "(nat \<Rightarrow> byte list) \<Rightarrow> sfs_inode \<Rightarrow> nat list" where
  "id_words dk i = (if sfi_indirect i = 0 then replicate 128 0 else dec_words 128 (dk (sfi_indirect i)))"

definition ptrs :: "(nat \<Rightarrow> byte list) \<Rightarrow> sfs_inode \<Rightarrow> nat list" where
  "ptrs dk i = sfi_direct i @ sfi_indirect i # id_words dk i"

definition nzdistinct :: "nat list \<Rightarrow> bool" where
  "nzdistinct xs \<longleftrightarrow> distinct (filter (\<lambda>b. b \<noteq> 0) xs)"

definition own :: "(nat \<Rightarrow> byte list) \<Rightarrow> nat \<Rightarrow> sfs_inode \<Rightarrow> nat set" where
  "own dk n i = insert n (set (ptrs dk i) - {0})"

definition bmap_of :: "(nat \<Rightarrow> byte list) \<Rightarrow> sfs_inode \<Rightarrow> nat \<Rightarrow> nat" where
  "bmap_of dk i k = (if k < 15 then sfi_direct i ! k else if k < 143 then id_words dk i ! (k - 15) else 0)"

definition fblk :: "(nat \<Rightarrow> byte list) \<Rightarrow> sfs_inode \<Rightarrow> nat \<Rightarrow> byte list" where
  "fblk dk i k = (if bmap_of dk i k = 0 then replicate 512 0 else dk (bmap_of dk i k))"

section \<open>The invariant\<close>

definition sys_blocks :: "nat \<Rightarrow> nat set" where
  "sys_blocks nb = insert 0 {2..<2 + SFS_BITBLOCKS nb}"

definition inode_ok :: "nat set \<Rightarrow> nat \<Rightarrow> (nat \<Rightarrow> byte list) \<Rightarrow> nat \<Rightarrow> sfs_inode \<Rightarrow> bool" where
  "inode_ok used nb dk n i \<longleftrightarrow> inode_wf i \<and> sfi_type i \<in> {SFS_TYPE_FILE, SFS_TYPE_DIR} \<and>
     nzdistinct (n # ptrs dk i) \<and> own dk n i \<subseteq> used \<inter> {..<nb} - sys_blocks nb"

definition map_ok :: "nat \<Rightarrow> 'd sfs_fs \<Rightarrow> bool" where
  "map_ok nsec s \<longleftrightarrow> bitmap_ok (sfs_freemap s) \<and> sp_nblocks (sfs_super s) \<le> nsec \<and>
     sp_nblocks (sfs_super s) \<le> nbits (sfs_freemap s) \<and>
     {sp_nblocks (sfs_super s)..<nbits (sfs_freemap s)} \<subseteq> bits (sfs_freemap s) \<and>
     sys_blocks (sp_nblocks (sfs_super s)) \<subseteq> bits (sfs_freemap s)"

definition heap_ok :: "(nat \<Rightarrow> byte list) \<Rightarrow> (nat \<rightharpoonup> sfs_inode) \<Rightarrow> (nat \<rightharpoonup> sfs_vnode) \<Rightarrow> bool" where
  "heap_ok dk N h \<longleftrightarrow>
     (\<forall>p v. h p = Some v \<longrightarrow> N (sv_ino v) = Some (sv_i v) \<and>
        (\<not> sv_dirty v \<longrightarrow> dk (sv_ino v) = enc_inode (sv_i v))) \<and>
     (\<forall>p q v w. h p = Some v \<and> h q = Some w \<and> sv_ino v = sv_ino w \<longrightarrow> p = q) \<and>
     (\<forall>n i. N n = Some i \<and> (\<forall>p v. h p = Some v \<longrightarrow> sv_ino v \<noteq> n) \<longrightarrow> dk n = enc_inode i)"

definition fs_ok :: "nat \<Rightarrow> (nat \<Rightarrow> byte list) \<Rightarrow> (nat \<rightharpoonup> sfs_inode) \<Rightarrow> 'd sfs_fs \<Rightarrow> bool" where
  "fs_ok nsec dk N s \<longleftrightarrow> map_ok nsec s \<and>
     (\<forall>n i. N n = Some i \<longrightarrow> inode_ok (bits (sfs_freemap s)) (sp_nblocks (sfs_super s)) dk n i) \<and>
     (\<forall>n m i j. N n = Some i \<and> N m = Some j \<and> n \<noteq> m \<longrightarrow> own dk n i \<inter> own dk m j = {}) \<and>
     heap_ok dk N (sfs_heap s)"

section \<open>Lemmas on the blocks of an inode\<close>

lemma length_id_words [simp]: "length (id_words dk i) = 128"
  by (simp add: id_words_def)

lemma ptrs_cong: "sfi_indirect i = 0 \<or> dk' (sfi_indirect i) = dk (sfi_indirect i) \<Longrightarrow> ptrs dk' i = ptrs dk i"
  by (auto simp: ptrs_def id_words_def)

lemma indirect_own: "sfi_indirect i \<noteq> 0 \<Longrightarrow> sfi_indirect i \<in> own dk n i"
  by (simp add: own_def ptrs_def)

lemma self_own [simp]: "n \<in> own dk n i"
  by (simp add: own_def)

lemma ptrs_cong_own: "(\<And>b. b \<in> own dk n i \<Longrightarrow> dk' b = dk b) \<Longrightarrow> ptrs dk' i = ptrs dk i"
  using indirect_own [of i dk n] by (intro ptrs_cong) auto

lemma own_cong: "ptrs dk' i = ptrs dk i \<Longrightarrow> own dk' n i = own dk n i"
  by (simp add: own_def)

lemma bmap_of_ptrs:
  "length (sfi_direct i) = 15 \<Longrightarrow> k < 143 \<Longrightarrow> bmap_of dk i k = ptrs dk i ! (if k < 15 then k else Suc k)"
  by (auto simp: bmap_of_def ptrs_def nth_append nth_Cons' Suc_diff_le)

lemma length_ptrs [simp]: "length (sfi_direct i) = 15 \<Longrightarrow> length (ptrs dk i) = 144"
  by (simp add: ptrs_def)

lemma bmap_of_own:
  "length (sfi_direct i) = 15 \<Longrightarrow> k < 143 \<Longrightarrow> bmap_of dk i k \<noteq> 0 \<Longrightarrow> bmap_of dk i k \<in> own dk n i"
  by (simp add: bmap_of_ptrs own_def)

lemma bmap_of_0: "143 \<le> k \<Longrightarrow> bmap_of dk i k = 0"
  by (simp add: bmap_of_def)

lemma nzdistinct_nth:
  assumes "nzdistinct xs" "j < length xs" "k < length xs" "j \<noteq> k" "xs ! j \<noteq> 0"
  shows "xs ! j \<noteq> xs ! k"
proof
  assume eq: "xs ! j = xs ! k"
  have "x \<noteq> y" if "x \<noteq> 0" "y \<noteq> (0 :: nat)" "distinct (filter (\<lambda>b. b \<noteq> 0) (as @ x # bs @ y # cs))" for x y as bs cs
    using that by auto
  moreover have "\<exists>as bs cs. xs = as @ xs ! a # bs @ xs ! b # cs" if "a < b" "b < length xs" for a b
  proof -
    have "xs = take a xs @ xs ! a # drop (Suc a) xs" using that by (simp add: id_take_nth_drop [symmetric])
    moreover have "drop (Suc a) xs = take (b - Suc a) (drop (Suc a) xs) @ xs ! b # drop (Suc b) xs"
      using that id_take_nth_drop [of "b - Suc a" "drop (Suc a) xs"] by simp
    ultimately show ?thesis by metis
  qed
  ultimately have "\<not> (a < b \<and> b < length xs \<and> xs ! a \<noteq> 0 \<and> xs ! a = xs ! b)" for a b
    using assms(1) unfolding nzdistinct_def by metis
  from this [of j k] this [of k j] eq assms show False by (metis linorder_neqE_nat)
qed

lemma nzdistinct_update:
  assumes "nzdistinct xs" "k < length xs" "b \<notin> set xs"
  shows "nzdistinct (xs[k := b])"
proof -
  have "xs = take k xs @ xs ! k # drop (Suc k) xs" using assms(2) by (rule id_take_nth_drop)
  then have "distinct (filter (\<lambda>b. b \<noteq> 0) (take k xs @ xs ! k # drop (Suc k) xs))"
    using assms(1) by (simp add: nzdistinct_def)
  moreover have "b \<notin> set (take k xs)" "b \<notin> set (drop (Suc k) xs)"
    using assms(3) by (auto dest: in_set_takeD in_set_dropD)
  ultimately show ?thesis
    using assms(2) by (auto simp: nzdistinct_def upd_conv_take_nth_drop split: if_splits)
qed

lemma nzdistinct_zero:
  assumes "nzdistinct xs" "k < length xs"
  shows "nzdistinct (xs[k := 0])"
proof -
  have "xs = take k xs @ xs ! k # drop (Suc k) xs" using assms(2) by (rule id_take_nth_drop)
  then have "distinct (filter (\<lambda>b. b \<noteq> 0) (take k xs @ xs ! k # drop (Suc k) xs))"
    using assms(1) by (simp add: nzdistinct_def)
  then show ?thesis
    using assms(2) by (auto simp: nzdistinct_def upd_conv_take_nth_drop split: if_splits)
qed

lemma nzdistinct_tl: "nzdistinct (x # xs) \<Longrightarrow> nzdistinct xs"
  by (auto simp: nzdistinct_def split: if_splits)

lemma nzdistinct_hd: "nzdistinct (x # xs) \<Longrightarrow> x \<noteq> 0 \<Longrightarrow> x \<notin> set xs"
  by (simp add: nzdistinct_def)

lemma nzdistinct_Cons: "nzdistinct xs \<Longrightarrow> x \<notin> set xs \<Longrightarrow> nzdistinct (x # xs)"
  by (simp add: nzdistinct_def)

lemma inode_okD:
  assumes "inode_ok used nb dk n i"
  shows "inode_wf i" "length (sfi_direct i) = 15" "n \<noteq> 0" "nzdistinct (ptrs dk i)" "n \<notin> set (ptrs dk i)"
    "own dk n i \<subseteq> used" "own dk n i \<subseteq> {..<nb}" "own dk n i \<inter> sys_blocks nb = {}"
    "sfi_type i \<in> {SFS_TYPE_FILE, SFS_TYPE_DIR}"
proof -
  show "n \<noteq> 0" using assms by (auto simp: inode_ok_def own_def sys_blocks_def)
  then show "n \<notin> set (ptrs dk i)" using assms nzdistinct_hd by (auto simp: inode_ok_def)
qed (use assms nzdistinct_tl in \<open>auto simp: inode_ok_def inode_wf_def\<close>)

lemma bmap_of_inj:
  assumes "inode_ok used nb dk n i" "k < 143" "bmap_of dk i k \<noteq> 0" "k \<noteq> k'"
  shows "bmap_of dk i k \<noteq> bmap_of dk i k'"
proof (cases "k' < 143")
  case True
  note ok = inode_okD [OF assms(1)]
  have "ptrs dk i ! (if k < 15 then k else Suc k) \<noteq> ptrs dk i ! (if k' < 15 then k' else Suc k')"
    using assms ok True bmap_of_ptrs [OF ok(2), of k dk]
    by (intro nzdistinct_nth [OF ok(4)]) auto
  then show ?thesis using bmap_of_ptrs [OF ok(2) assms(2)] bmap_of_ptrs [OF ok(2) True] by metis
next
  case False
  then show ?thesis using assms(3) by (simp add: bmap_of_def [of dk i k'])
qed

lemma bmap_of_indirect:
  assumes "inode_ok used nb dk n i" "k < 143" "bmap_of dk i k \<noteq> 0"
  shows "bmap_of dk i k \<noteq> sfi_indirect i" "bmap_of dk i k \<noteq> n"
proof -
  note ok = inode_okD [OF assms(1)]
  have "ptrs dk i ! (if k < 15 then k else Suc k) \<noteq> ptrs dk i ! 15"
    using assms ok bmap_of_ptrs [OF ok(2), of k dk]
    by (intro nzdistinct_nth [OF ok(4)]) auto
  moreover have "ptrs dk i ! 15 = sfi_indirect i" using ok(2) by (simp add: ptrs_def nth_append)
  ultimately show "bmap_of dk i k \<noteq> sfi_indirect i"
    using bmap_of_ptrs [OF ok(2) assms(2)] by metis
  have "bmap_of dk i k \<in> set (ptrs dk i)"
    using bmap_of_ptrs [OF ok(2) assms(2), of dk] ok(2) assms(2) by simp
  then show "bmap_of dk i k \<noteq> n" using ok(5) by auto
qed

text \<open>The contents of a file depend on the blocks its inode owns only.\<close>

lemma bmap_of_cong: "ptrs dk' i = ptrs dk i \<Longrightarrow> length (sfi_direct i) = 15 \<Longrightarrow> bmap_of dk' i k = bmap_of dk i k"
  by (cases "k < 143") (simp_all add: bmap_of_ptrs bmap_of_0)

lemma fblk_cong:
  assumes "length (sfi_direct i) = 15" "\<And>b. b \<in> own dk n i \<Longrightarrow> dk' b = dk b"
  shows "fblk dk' i k = fblk dk i k"
proof -
  have "bmap_of dk' i k = bmap_of dk i k"
    using assms ptrs_cong_own [of dk n i dk'] by (intro bmap_of_cong) auto
  moreover have "bmap_of dk i k \<noteq> 0 \<Longrightarrow> dk' (bmap_of dk i k) = dk (bmap_of dk i k)"
    using assms bmap_of_own [of i k dk n] bmap_of_0 [of k dk i] by (cases "k < 143") auto
  ultimately show ?thesis by (simp add: fblk_def)
qed

lemma inode_ok_cong:
  assumes "inode_ok used nb dk n i" "\<And>b. b \<in> own dk n i \<Longrightarrow> dk' b = dk b" "own dk n i \<subseteq> used'"
  shows "inode_ok used' nb dk' n i"
proof -
  have "ptrs dk' i = ptrs dk i" using assms(2) by (rule ptrs_cong_own)
  with assms show ?thesis by (auto simp: inode_ok_def own_def)
qed

lemma fs_okD:
  assumes "fs_ok nsec dk N s"
  shows "map_ok nsec s" "heap_ok dk N (sfs_heap s)"
    "N n = Some i \<Longrightarrow> inode_ok (bits (sfs_freemap s)) (sp_nblocks (sfs_super s)) dk n i"
    "N n = Some i \<Longrightarrow> N m = Some j \<Longrightarrow> n \<noteq> m \<Longrightarrow> own dk n i \<inter> own dk m j = {}"
  using assms unfolding fs_ok_def by blast+

lemma heap_okD:
  assumes "heap_ok dk N h"
  shows "h p = Some v \<Longrightarrow> N (sv_ino v) = Some (sv_i v)"
    "h p = Some v \<Longrightarrow> \<not> sv_dirty v \<Longrightarrow> dk (sv_ino v) = enc_inode (sv_i v)"
    "h p = Some v \<Longrightarrow> h q = Some w \<Longrightarrow> sv_ino v = sv_ino w \<Longrightarrow> p = q"
    "N n = Some i \<Longrightarrow> (\<And>p v. h p = Some v \<Longrightarrow> sv_ino v \<noteq> n) \<Longrightarrow> dk n = enc_inode i"
  using assms unfolding heap_ok_def by blast+

section \<open>Changing one file\<close>

lemma heap_ok_update:
  assumes H: "heap_ok dk N h" and p: "h p = Some v" "sv_ino v = n"
    and same: "\<And>m j. m \<noteq> n \<Longrightarrow> N m = Some j \<Longrightarrow> dk' m = dk m"
    and v': "sv_ino v' = n" "sv_i v' = i'" "sv_dirty v' \<or> dk' n = enc_inode i'"
  shows "heap_ok dk' (N(n \<mapsto> i')) (h(p \<mapsto> v'))"
proof -
  have other: "sv_ino w \<noteq> n" if "h q = Some w" "q \<noteq> p" for q w
    using heap_okD(3) [OF H that(1) p(1)] that(2) p(2) by auto
  have "(N(n \<mapsto> i')) (sv_ino w) = Some (sv_i w) \<and> (\<not> sv_dirty w \<longrightarrow> dk' (sv_ino w) = enc_inode (sv_i w))"
    if "(h(p \<mapsto> v')) q = Some w" for q w
  proof (cases "q = p")
    case True
    with that have "w = v'" by simp
    with v' show ?thesis by auto
  next
    case False
    with that have w: "h q = Some w" by simp
    note other [OF w False]
    moreover have "N (sv_ino w) = Some (sv_i w)" using H w by (rule heap_okD)
    moreover have "\<not> sv_dirty w \<Longrightarrow> dk (sv_ino w) = enc_inode (sv_i w)" using H w by (rule heap_okD)
    ultimately show ?thesis using same by simp
  qed
  moreover have "q = r"
    if "(h(p \<mapsto> v')) q = Some w" "(h(p \<mapsto> v')) r = Some x" "sv_ino w = sv_ino x" for q r w x
  proof (cases "q = p"; cases "r = p")
    assume "q \<noteq> p" "r \<noteq> p"
    then show ?thesis using that heap_okD(3) [OF H, of q w r x] by simp
  qed (use that other v'(1) in auto)
  moreover have "dk' m = enc_inode j"
    if "(N(n \<mapsto> i')) m = Some j" "\<And>q w. (h(p \<mapsto> v')) q = Some w \<Longrightarrow> sv_ino w \<noteq> m" for m j
  proof -
    have m: "m \<noteq> n" using that(2) [of p v'] v'(1) by auto
    have "sv_ino w \<noteq> m" if "h q = Some w" for q w
      using that \<open>\<And>q w. (h(p \<mapsto> v')) q = Some w \<Longrightarrow> sv_ino w \<noteq> m\<close> [of q w] p m by (cases "q = p") auto
    with that(1) m show ?thesis using heap_okD(4) [OF H, of m j] same [of m j] by simp
  qed
  ultimately show ?thesis unfolding heap_ok_def by blast
qed

text \<open>
  A step that changes what the inode \<open>n\<close> owns, and nothing another inode or the file system
  itself owns, keeps the invariant if it leaves \<open>n\<close> well formed.
\<close>

lemma fs_ok_update:
  assumes ok: "fs_ok nsec dk N s" and p: "sfs_heap s p = Some v" "sv_ino v = n"
    and map: "map_ok nsec s'" "sp_nblocks (sfs_super s') = sp_nblocks (sfs_super s)"
    and others: "\<And>m j. m \<noteq> n \<Longrightarrow> N m = Some j \<Longrightarrow>
      own dk m j \<subseteq> bits (sfs_freemap s') \<and> (\<forall>b \<in> own dk m j. dk' b = dk b) \<and> own dk' n i' \<inter> own dk m j = {}"
    and n': "inode_ok (bits (sfs_freemap s')) (sp_nblocks (sfs_super s')) dk' n i'"
    and p': "sfs_heap s' = (sfs_heap s)(p \<mapsto> v')" "sv_ino v' = n" "sv_i v' = i'"
      "sv_dirty v' \<or> dk' n = enc_inode i'"
  shows "fs_ok nsec dk' (N(n \<mapsto> i')) s'"
proof -
  have own: "own dk' m j = own dk m j" if "m \<noteq> n" "N m = Some j" for m j
    using others [OF that] by (intro own_cong ptrs_cong_own [of dk m j]) blast
  have 1: "inode_ok (bits (sfs_freemap s')) (sp_nblocks (sfs_super s')) dk' m j"
    if "(N(n \<mapsto> i')) m = Some j" for m j
  proof (cases "m = n")
    case False
    with that have m: "m \<noteq> n" "N m = Some j" by auto
    show ?thesis unfolding map(2)
      by (rule inode_ok_cong [OF fs_okD(3) [OF ok m(2)]]) (use others [OF m] in blast)+
  qed (use that n' in auto)
  have 2: "own dk' m j \<inter> own dk' l k = {}"
    if "(N(n \<mapsto> i')) m = Some j" "(N(n \<mapsto> i')) l = Some k" "m \<noteq> l" for m l j k
  proof -
    note n = that(1,2) [unfolded fun_upd_apply]
    show ?thesis
    proof (cases "m = n")
      case True
      then have l: "l \<noteq> n" "N l = Some k" "j = i'" using n that(3) by auto
      then show ?thesis using others [OF l(1,2)] own [OF l(1,2)] True by simp
    next
      case False
      then have m: "m \<noteq> n" "N m = Some j" using n by auto
      show ?thesis
      proof (cases "l = n")
        case True
        then show ?thesis using others [OF m] own [OF m] n by (auto simp: Int_commute)
      next
        case False
        then have l: "l \<noteq> n" "N l = Some k" using n by auto
        then show ?thesis using fs_okD(4) [OF ok m(2) l(2) that(3)] own [OF m] own [OF l] by simp
      qed
    qed
  qed
  have 3: "heap_ok dk' (N(n \<mapsto> i')) (sfs_heap s')"
    unfolding p'(1)
  proof (rule heap_ok_update [OF fs_okD(2) [OF ok] p])
    show "sv_ino v' = n" "sv_i v' = i'" "sv_dirty v' \<or> dk' n = enc_inode i'" by fact+
    show "dk' m = dk m" if "m \<noteq> n" "N m = Some j" for m j
      using others [OF that] self_own [of m dk j] by blast
  qed
  from 1 2 3 map(1) show ?thesis unfolding fs_ok_def by blast
qed

text \<open>
  The vnode at \<open>p\<close> is the one of inode \<open>n\<close>, holds the inode \<open>i\<close>, and the invariant holds; and a
  step on that file: the invariant holds afterwards with \<open>i'\<close> in place of \<open>i\<close>, and nothing that
  belongs to other files or to the file system itself has changed.
\<close>

definition fs_at :: "('d \<Rightarrow> bool) \<Rightarrow> ('d \<Rightarrow> nat \<Rightarrow> byte list) \<Rightarrow> nat \<Rightarrow> (nat \<rightharpoonup> sfs_inode) \<Rightarrow> nat \<Rightarrow> nat
    \<Rightarrow> sfs_inode \<Rightarrow> 'd sfs_fs \<Rightarrow> bool" where
  "fs_at din sc ns N n p i s \<longleftrightarrow> din (sfs_device s) \<and> fs_ok ns (sc (sfs_device s)) N s \<and>
     (\<exists>v. sfs_heap s p = Some v \<and> sv_ino v = n \<and> sv_i v = i)"

definition same_vn :: "sfs_vnode \<Rightarrow> sfs_vnode \<Rightarrow> bool" where
  "same_vn v v' \<longleftrightarrow> vn_refcount v' = vn_refcount v \<and> vn_opencount v' = vn_opencount v \<and>
     vn_ops v' = vn_ops v \<and> sv_ino v' = sv_ino v"

definition same_fs :: "'d sfs_fs \<Rightarrow> 'd sfs_fs \<Rightarrow> bool" where
  "same_fs s s' \<longleftrightarrow> sfs_super s' = sfs_super s \<and> sfs_superdirty s' = sfs_superdirty s \<and>
     sfs_vnodes s' = sfs_vnodes s \<and> sfs_newptr s' = sfs_newptr s \<and> sfs_km s' = sfs_km s \<and>
     nbits (sfs_freemap s') = nbits (sfs_freemap s)"

definition file_frame :: "('d \<Rightarrow> nat \<Rightarrow> byte list) \<Rightarrow> (nat \<rightharpoonup> sfs_inode) \<Rightarrow> nat \<Rightarrow> nat \<Rightarrow> 'd sfs_fs \<Rightarrow> 'd sfs_fs \<Rightarrow> bool" where
  "file_frame sc N n p s s' \<longleftrightarrow>
     (\<exists>v v'. sfs_heap s p = Some v \<and> sfs_heap s' = (sfs_heap s)(p \<mapsto> v') \<and> same_vn v v') \<and>
     same_fs s s' \<and>
     (\<forall>m j. m \<noteq> n \<and> N m = Some j \<longrightarrow> (\<forall>b \<in> own (sc (sfs_device s)) m j. sc (sfs_device s') b = sc (sfs_device s) b)) \<and>
     (\<forall>b \<in> sys_blocks (sp_nblocks (sfs_super s)). sc (sfs_device s') b = sc (sfs_device s) b)"

definition file_step :: "('d \<Rightarrow> bool) \<Rightarrow> ('d \<Rightarrow> nat \<Rightarrow> byte list) \<Rightarrow> nat \<Rightarrow> (nat \<rightharpoonup> sfs_inode) \<Rightarrow> nat \<Rightarrow> nat
    \<Rightarrow> 'd sfs_fs \<Rightarrow> sfs_inode \<Rightarrow> 'd sfs_fs \<Rightarrow> bool" where
  "file_step din sc ns N n p s i' s' \<longleftrightarrow> fs_at din sc ns (N(n \<mapsto> i')) n p i' s' \<and> file_frame sc N n p s s'"

lemma fs_atD:
  assumes "fs_at din sc ns N n p i s"
  shows "din (sfs_device s)" "fs_ok ns (sc (sfs_device s)) N s" "N n = Some i" "N(n \<mapsto> i) = N"
    "\<exists>v. sfs_heap s p = Some v \<and> sv_ino v = n \<and> sv_i v = i"
    "inode_ok (bits (sfs_freemap s)) (sp_nblocks (sfs_super s)) (sc (sfs_device s)) n i"
    "map_ok ns s"
proof -
  show N: "N n = Some i"
    using assms heap_okD(1) [OF fs_okD(2)] by (fastforce simp: fs_at_def)
  then show "N(n \<mapsto> i) = N" by auto
  show "inode_ok (bits (sfs_freemap s)) (sp_nblocks (sfs_super s)) (sc (sfs_device s)) n i"
    using N assms fs_okD(3) by (auto simp: fs_at_def)
qed (use assms fs_okD(1) in \<open>auto simp: fs_at_def\<close>)

lemma file_stepD:
  assumes "file_step din sc ns N n p s i' s'"
  shows "fs_at din sc ns (N(n \<mapsto> i')) n p i' s'" "sfs_super s' = sfs_super s"
    "file_frame sc N n p s s'"
  using assms by (auto simp: file_step_def file_frame_def same_fs_def)

lemma file_frameI:
  assumes "sfs_heap s p = Some v" "sfs_heap s' = (sfs_heap s)(p \<mapsto> v')" "same_vn v v'" "same_fs s s'"
    "\<And>m j b. m \<noteq> n \<Longrightarrow> N m = Some j \<Longrightarrow> b \<in> own (sc (sfs_device s)) m j \<Longrightarrow>
       sc (sfs_device s') b = sc (sfs_device s) b"
    "\<And>b. b \<in> sys_blocks (sp_nblocks (sfs_super s)) \<Longrightarrow> sc (sfs_device s') b = sc (sfs_device s) b"
  shows "file_frame sc N n p s s'"
  using assms unfolding file_frame_def by blast

lemma file_frameE:
  assumes "file_frame sc N n p s s'"
  obtains v v' where "sfs_heap s p = Some v" "sfs_heap s' = (sfs_heap s)(p \<mapsto> v')" "same_vn v v'" "same_fs s s'"
    "\<And>b. b \<in> sys_blocks (sp_nblocks (sfs_super s)) \<Longrightarrow> sc (sfs_device s') b = sc (sfs_device s) b"
  using assms unfolding file_frame_def by blast

lemma file_frame_others:
  assumes "file_frame sc N n p s s'" "m \<noteq> n" "N m = Some j"
  shows "b \<in> own (sc (sfs_device s)) m j \<Longrightarrow> sc (sfs_device s') b = sc (sfs_device s) b"
    "own (sc (sfs_device s')) m j = own (sc (sfs_device s)) m j"
proof -
  have *: "\<And>b. b \<in> own (sc (sfs_device s)) m j \<Longrightarrow> sc (sfs_device s') b = sc (sfs_device s) b"
    using assms by (auto simp: file_frame_def)
  show "b \<in> own (sc (sfs_device s)) m j \<Longrightarrow> sc (sfs_device s') b = sc (sfs_device s) b" by (rule *)
  show "own (sc (sfs_device s')) m j = own (sc (sfs_device s)) m j"
    by (intro own_cong ptrs_cong_own [OF *])
qed

lemma file_step_trans:
  assumes 1: "file_step din sc ns N n p s i1 s1" and 2: "file_step din sc ns (N(n \<mapsto> i1)) n p s1 i2 s2"
  shows "file_step din sc ns N n p s i2 s2"
proof -
  have f1: "file_frame sc N n p s s1" and f2: "file_frame sc (N(n \<mapsto> i1)) n p s1 s2"
    using 1 2 by (auto simp: file_step_def)
  obtain v v' where v: "sfs_heap s p = Some v" "sfs_heap s1 = (sfs_heap s)(p \<mapsto> v')" "same_vn v v'"
      "same_fs s s1" "\<And>b. b \<in> sys_blocks (sp_nblocks (sfs_super s)) \<Longrightarrow> sc (sfs_device s1) b = sc (sfs_device s) b"
    using f1 by (rule file_frameE) blast
  obtain u w where w: "sfs_heap s1 p = Some u" "sfs_heap s2 = (sfs_heap s1)(p \<mapsto> w)" "same_vn u w" "same_fs s1 s2"
      "\<And>b. b \<in> sys_blocks (sp_nblocks (sfs_super s1)) \<Longrightarrow> sc (sfs_device s2) b = sc (sfs_device s1) b"
    using f2 by (rule file_frameE) blast
  have "file_frame sc N n p s s2"
  proof (rule file_frameI)
    show "sfs_heap s p = Some v" by fact
    show "sfs_heap s2 = (sfs_heap s)(p \<mapsto> w)" using v w by simp
    show "same_vn v w" "same_fs s s2" using v w by (auto simp: same_vn_def same_fs_def)
    show "sc (sfs_device s2) b = sc (sfs_device s) b"
      if "m \<noteq> n" "N m = Some j" "b \<in> own (sc (sfs_device s)) m j" for m j b
      using file_frame_others [OF f1 that(1,2)] file_frame_others(1) [OF f2 that(1), of j b] that by simp
    show "sc (sfs_device s2) b = sc (sfs_device s) b" if "b \<in> sys_blocks (sp_nblocks (sfs_super s))" for b
      using v(4,5) w(5) that by (simp add: same_fs_def)
  qed
  with 2 show ?thesis by (simp add: file_step_def)
qed

lemma fs_ok_state:
  "sfs_freemap s' = sfs_freemap s \<Longrightarrow> sfs_super s' = sfs_super s \<Longrightarrow> sfs_heap s' = sfs_heap s \<Longrightarrow>
     fs_ok ns dk N s' = fs_ok ns dk N s"
  by (simp add: fs_ok_def map_ok_def)

lemma heap_self: "sfs_heap s p = Some v \<Longrightarrow> sfs_heap s = (sfs_heap s)(p \<mapsto> v)"
  by auto

lemma file_step_read:
  assumes "fs_at din sc ns N n p i s" "dev_step din sc (\<lambda>f. f) s s'"
  shows "file_step din sc ns N n p s i s'"
proof -
  note d = dev_stepD [OF assms(2)]
  have "fs_at din sc ns N n p i s'"
    using assms(1) d by (auto simp: fs_at_def fs_ok_state [of s' s])
  moreover obtain v where v: "sfs_heap s p = Some v" using fs_atD(5) [OF assms(1)] by auto
  have "sfs_heap s' = (sfs_heap s)(p \<mapsto> v)" using d heap_self [OF v] by simp
  then have "file_frame sc N n p s s'"
    by (rule file_frameI [OF v]) (use d in \<open>simp_all add: same_vn_def same_fs_def\<close>)
  ultimately show ?thesis
    using fs_atD(4) [OF assms(1)] by (simp add: file_step_def)
qed

text \<open>The contents of every other file are unchanged by such a step.\<close>

lemma file_frame_fblk:
  assumes "file_frame sc N n p s s'" "m \<noteq> n" "N m = Some j" "fs_ok ns (sc (sfs_device s)) N s"
  shows "fblk (sc (sfs_device s')) j k = fblk (sc (sfs_device s)) j k"
  using file_frame_others(1) [OF assms(1-3)] inode_okD(2) [OF fs_okD(3) [OF assms(4,3)]] by (intro fblk_cong)

section \<open>An example volume\<close>

text \<open>
  A volume of 64 blocks on a disk in software, with one file: inode 3, loaded at address 100,
  700 bytes long, with data in blocks 4 and 5.
\<close>

definition example_inode :: sfs_inode where
  "example_inode = \<lparr>sfi_size = 700, sfi_type = SFS_TYPE_FILE, sfi_linkcount = 1,
     sfi_direct = [4, 5, 0, 0, 0, 0, 0, 0, 0, 0, 0, 0, 0, 0, 0], sfi_indirect = 0, sfi_waste = replicate 110 0\<rparr>"

definition example_fs :: "(simdisk lhd_softc) sfs_fs" where
  "example_fs = \<lparr>sfs_super = \<lparr>sp_magic = SFS_MAGIC, sp_nblocks = 64, sp_volname = replicate 32 0,
       sp_reserved = replicate 118 0\<rparr>,
     sfs_superdirty = False, sfs_device = example_disk, sfs_vnodes = \<lparr>arr_num = 1, arr_max = 2, arr_v = Some [Some 100, None]\<rparr>,
     sfs_freemap = \<lparr>nbits = 4096, bm_v = 63 # replicate 7 0 @ replicate 504 255\<rparr>, sfs_freemapdirty = False,
     sfs_heap = [100 \<mapsto> \<lparr>vn_refcount = 1, vn_opencount = 1, vn_ops = SFS_FILEOPS, sv_i = example_inode,
       sv_ino = 3, sv_dirty = True\<rparr>],
     sfs_newptr = 101, sfs_km = \<lparr>km_oracle = (\<lambda>_ _. True), km_calls = 0, km_pages = Map.empty\<rparr>\<rparr>"

lemma example_bits: "bits (sfs_freemap example_fs) = {..<6} \<union> {64..<4096}"
proof -
  have 63: "bit (63 :: byte) i \<longleftrightarrow> i < 6" if "i < 8" for i
    using that by (auto simp: less_Suc_eq numeral_eq_Suc bit_numeral_simps)
  have 255: "bit (255 :: byte) i" if "i < 8" for i
    using that by (auto simp: less_Suc_eq numeral_eq_Suc)
  have v: "bm_v (sfs_freemap example_fs) ! j = (if j = 0 then 63 else if j < 8 then 0 else 255)" if "j < 512" for j
    using that by (auto simp: example_fs_def nth_Cons' nth_append)
  have len: "length (bm_v (sfs_freemap example_fs)) = 512" "nbits (sfs_freemap example_fs) = 4096"
    by (simp_all add: example_fs_def)
  have "bitat (sfs_freemap example_fs) i \<longleftrightarrow> i < 6 \<or> 64 \<le> i" if "i < 4096" for i
  proof -
    have d: "i div 8 < 512" "i div 8 = 0 \<longleftrightarrow> i < 8" "i div 8 < 8 \<longleftrightarrow> i < 64" using that by auto
    show ?thesis
      using 63 [of i] 255 [of "i mod 8"] d by (simp add: bitat_def len v)
  qed
  then show ?thesis unfolding bits_def len by auto
qed

lemma example_map: "map_ok 2048 example_fs"
proof -
  have "bitmap_ok (sfs_freemap example_fs)" by (auto simp: bitmap_ok_def example_fs_def)
  then show ?thesis
    by (simp add: map_ok_def example_bits sys_blocks_def SFS_BITBLOCKS_def SFS_BITMAPSIZE_def SFS_ROUNDUP_def
        sfs_consts) (auto simp: example_fs_def)
qed

lemma example_ok: "fs_at (lhd_inv sim_idle 2048) (lhd_sec sd_disk) 2048 [3 \<mapsto> example_inode] 3 100 example_inode example_fs"
proof -
  have p: "ptrs dk example_inode = [4, 5] @ replicate 142 0" for dk
    by (simp add: ptrs_def example_inode_def id_words_def numeral_eq_Suc)
  have wf: "inode_wf example_inode" by (simp add: inode_wf_def example_inode_def sfs_consts)
  have "inode_ok (bits (sfs_freemap example_fs)) 64 dk 3 example_inode" for dk
    unfolding inode_ok_def own_def p example_bits
    using wf by (auto simp: nzdistinct_def example_inode_def sfs_consts sys_blocks_def SFS_BITBLOCKS_def
        SFS_BITMAPSIZE_def SFS_ROUNDUP_def)
  then show ?thesis
    using example_map example_disk_inv
    by (auto simp: fs_at_def fs_ok_def heap_ok_def example_fs_def split: if_splits)
qed

end
