(* ===== verification/SFS_Bmap.thy ===== *)
theory SFS_Bmap
  imports SFS_Inv
begin

text \<open>
  Block allocation and block mapping of SFS on a state that satisfies the invariant: \<^verbatim>\<open>sfs_balloc\<close>
  hands out a block nobody owns, zeroed; \<^verbatim>\<open>sfs_bmap\<close> finds the block of a file position, or
  allocates it without changing the contents of any file.
\<close>

section \<open>Entering a fresh block into an inode\<close>

lemma map_ok_grow:
  assumes "map_ok ns s" "same_fs s s'" "bitmap_ok (sfs_freemap s')"
    "bits (sfs_freemap s) \<subseteq> bits (sfs_freemap s')"
  shows "map_ok ns s'"
  using assms by (auto simp: map_ok_def same_fs_def)

lemma fresh_not_owned:
  assumes "fs_ok ns dk N s" "N m = Some j" "b \<notin> bits (sfs_freemap s)"
  shows "b \<notin> own dk m j"
  using inode_okD(6) [OF fs_okD(3) [OF assms(1,2)]] assms(3) by auto

lemma fresh_not_sys:
  assumes "map_ok ns s" "b \<notin> bits (sfs_freemap s)"
  shows "b \<notin> sys_blocks (sp_nblocks (sfs_super s))" "b \<noteq> 0"
proof -
  have "sys_blocks (sp_nblocks (sfs_super s)) \<subseteq> bits (sfs_freemap s)" using assms(1) by (simp add: map_ok_def)
  with assms(2) show "b \<notin> sys_blocks (sp_nblocks (sfs_super s))" by blast
  then show "b \<noteq> 0" by (auto simp: sys_blocks_def)
qed

lemma own_update:
  "set ((ptrs dk i)[x := b]) \<subseteq> insert b (set (ptrs dk i))"
  by (rule set_update_subset_insert)

lemma step_alloc_ptr:
  fixes s s' :: "'d sfs_fs" and sc :: "'d \<Rightarrow> nat \<Rightarrow> byte list"
  defines "dk \<equiv> sc (sfs_device s)" and "dk' \<equiv> sc (sfs_device s')"
  assumes at: "fs_at din sc ns N n p i s"
    and b: "b \<notin> bits (sfs_freemap s)" "b < sp_nblocks (sfs_super s)"
    and s': "din (sfs_device s')" "same_fs s s'" "bitmap_ok (sfs_freemap s')"
      "bits (sfs_freemap s') = insert b (bits (sfs_freemap s))"
    and h: "sfs_heap s p = Some v" "sfs_heap s' = (sfs_heap s)(p \<mapsto> v')" "same_vn v v'" "sv_i v' = i'"
      "sv_dirty v' \<or> sv_dirty v' = sv_dirty v \<and> i' = i"
    and same: "\<And>c. c \<noteq> b \<Longrightarrow> sfi_indirect i = 0 \<or> c \<noteq> sfi_indirect i \<Longrightarrow> dk' c = dk c"
    and ptr: "ptrs dk' i' = (ptrs dk i)[x := b]" "x < 144"
    and wf: "inode_wf i'" "sfi_type i' = sfi_type i"
  shows "file_step din sc ns N n p s i' s'"
proof -
  note ok = fs_atD(2) [OF at, folded dk_def] and N = fs_atD(3) [OF at]
  note io = fs_atD(6) [OF at, folded dk_def] and mp = fs_atD(7) [OF at]
  note iD = inode_okD [OF io]
  have v: "sv_ino v = n" "sv_i v = i" using fs_atD(5) [OF at] h(1) by auto
  have nb: "sp_nblocks (sfs_super s') = sp_nblocks (sfs_super s)" using s'(2) by (simp add: same_fs_def)
  have map': "map_ok ns s'" using mp s' by (intro map_ok_grow [OF mp]) auto
  have fresh: "b \<notin> own dk m j" if "N m = Some j" for m j
    using ok that b(1) by (rule fresh_not_owned)
  have bn: "b \<noteq> 0" "b \<notin> sys_blocks (sp_nblocks (sfs_super s))" using fresh_not_sys [OF mp b(1)] by auto
  have bp: "b \<notin> set (ptrs dk i)" using fresh [OF N] bn(1) by (simp add: own_def)
  have own': "own dk' n i' \<subseteq> insert b (own dk n i)"
    using own_update [of dk i x b] by (auto simp: own_def ptr(1))
  have others: "own dk m j \<subseteq> bits (sfs_freemap s') \<and> (\<forall>c \<in> own dk m j. dk' c = dk c) \<and>
      own dk' n i' \<inter> own dk m j = {}" if m: "m \<noteq> n" "N m = Some j" for m j
  proof -
    have disj: "own dk n i \<inter> own dk m j = {}" using fs_okD(4) [OF ok N m(2)] m(1) by auto
    moreover have "own dk m j \<subseteq> bits (sfs_freemap s)" using inode_okD(6) [OF fs_okD(3) [OF ok m(2)]] .
    moreover have "dk' c = dk c" if "c \<in> own dk m j" for c
      using that fresh [OF m(2)] disj indirect_own [of i dk n] by (intro same) auto
    ultimately show ?thesis using own' fresh [OF m(2)] s'(4) by blast
  qed
  have n': "inode_ok (bits (sfs_freemap s')) (sp_nblocks (sfs_super s')) dk' n i'"
  proof -
    have "nzdistinct (n # ptrs dk' i')"
      using iD(4,5) bp ptr own_update [of dk i x b] fresh [OF N] iD(2)
      by (intro nzdistinct_Cons) (auto simp: nzdistinct_update own_def)
    moreover have "own dk' n i' \<subseteq> bits (sfs_freemap s') \<inter> {..<sp_nblocks (sfs_super s')} - sys_blocks (sp_nblocks (sfs_super s'))"
      unfolding nb s'(4) using own' iD(6-8) b(2) bn(2) by blast
    ultimately show ?thesis using wf iD(9) by (simp add: inode_ok_def)
  qed
  have "dk' n = dk n" using iD(5) fresh [OF N] by (intro same) (auto simp: ptrs_def own_def)
  then have clean: "sv_dirty v' \<or> dk' n = enc_inode i'"
    using h(5) v heap_okD(2) [OF fs_okD(2) [OF ok] h(1)] by auto
  have "fs_ok ns dk' (N(n \<mapsto> i')) s'"
    by (rule fs_ok_update [OF ok h(1) v(1) map' nb others n' h(2) _ h(4) clean])
      (use h(3) v in \<open>auto simp: same_vn_def\<close>)
  moreover have "file_frame sc N n p s s'"
  proof (rule file_frameI [OF h(1,2,3) s'(2)], fold dk_def dk'_def)
    show "dk' c = dk c" if "m \<noteq> n" "N m = Some j" "c \<in> own dk m j" for m j c
      using others [OF that(1,2)] that(3) by blast
    show "dk' c = dk c" if "c \<in> sys_blocks (sp_nblocks (sfs_super s))" for c
      using that bn(2) iD(8) indirect_own [of i dk n] by (intro same) auto
  qed
  ultimately show ?thesis
    using s'(1) h(2,3,4) v(1) by (simp add: file_step_def fs_at_def dk'_def same_vn_def)
qed

lemma fblk_alloc_ptr:
  assumes io: "inode_ok used nb dk n i" and b: "b \<notin> own dk n i" "b \<noteq> 0"
    and same: "\<And>c. c \<noteq> b \<Longrightarrow> sfi_indirect i = 0 \<or> c \<noteq> sfi_indirect i \<Longrightarrow> dk' c = dk c"
    and zero: "dk' b = replicate 512 0"
    and ptr: "ptrs dk' i' = (ptrs dk i)[x := b]" "x < 144" "ptrs dk i ! x = 0"
    and len: "length (sfi_direct i') = 15"
  shows "fblk dk' i' k = fblk dk i k"
proof (cases "k < 143")
  case True
  let ?y = "if k < 15 then k else Suc k"
  note iD = inode_okD [OF io]
  have old: "bmap_of dk i k = ptrs dk i ! ?y" and new: "bmap_of dk' i' k = (ptrs dk i)[x := b] ! ?y"
    using bmap_of_ptrs [OF iD(2) True] bmap_of_ptrs [OF len True] ptr(1) by simp_all
  show ?thesis
  proof (cases "?y = x")
    case True
    then have "bmap_of dk i k = 0" "bmap_of dk' i' k = b" using old new ptr iD(2) by auto
    then show ?thesis using zero b(2) by (simp add: fblk_def)
  next
    case False
    then have eq: "bmap_of dk' i' k = bmap_of dk i k" using old new by simp
    moreover have "dk' (bmap_of dk i k) = dk (bmap_of dk i k)" if nz: "bmap_of dk i k \<noteq> 0"
      using b(1) bmap_of_own [OF iD(2) True nz, of n] bmap_of_indirect(1) [OF io True nz]
      by (intro same) auto
    ultimately show ?thesis by (simp add: fblk_def)
  qed
qed (simp add: fblk_def bmap_of_0)

text \<open>The fields of an inode that block mapping leaves alone.\<close>

definition same_meta :: "sfs_inode \<Rightarrow> sfs_inode \<Rightarrow> bool" where
  "same_meta i i' \<longleftrightarrow> sfi_size i' = sfi_size i \<and> sfi_type i' = sfi_type i \<and> sfi_linkcount i' = sfi_linkcount i"

lemma same_meta_refl [simp]: "same_meta i i"
  by (simp add: same_meta_def)

lemma same_meta_trans: "same_meta i j \<Longrightarrow> same_meta j k \<Longrightarrow> same_meta i k"
  by (simp add: same_meta_def)

section \<open>Allocation\<close>

lemma wp_on_freemap [wp]:
  "wpK (on_freemap m) Q E =
     (\<lambda>s. wpK m (\<lambda>a b. Q a (s\<lparr>sfs_freemap := b\<rparr>)) (\<lambda>e b. E e (s\<lparr>sfs_freemap := b\<rparr>)) (sfs_freemap s))"
  by (simp add: on_freemap_def wp)

text \<open>The state after a block \<open>b\<close> was taken from the free map and zeroed.\<close>

definition alloc_step :: "('d \<Rightarrow> bool) \<Rightarrow> ('d \<Rightarrow> nat \<Rightarrow> byte list) \<Rightarrow> nat \<Rightarrow> 'd sfs_fs \<Rightarrow> 'd sfs_fs \<Rightarrow> bool" where
  "alloc_step din sc b s s' \<longleftrightarrow> b \<notin> bits (sfs_freemap s) \<and> b < sp_nblocks (sfs_super s) \<and>
     (\<exists>d' m'. s' = s\<lparr>sfs_freemap := m', sfs_freemapdirty := True, sfs_device := d'\<rparr> \<and> din d' \<and>
        sc d' = (sc (sfs_device s))(b := replicate 512 0) \<and> bitmap_ok m' \<and> nbits m' = nbits (sfs_freemap s) \<and>
        bits m' = insert b (bits (sfs_freemap s)))"

lemma alloc_stepD:
  assumes "alloc_step din sc b s s'"
  shows "b \<notin> bits (sfs_freemap s)" "b < sp_nblocks (sfs_super s)" "din (sfs_device s')"
    "sc (sfs_device s') = (sc (sfs_device s))(b := replicate 512 0)" "bitmap_ok (sfs_freemap s')"
    "bits (sfs_freemap s') = insert b (bits (sfs_freemap s))" "same_fs s s'" "sfs_heap s' = sfs_heap s"
proof -
  obtain d' m' where s': "s' = s\<lparr>sfs_freemap := m', sfs_freemapdirty := True, sfs_device := d'\<rparr>" "din d'"
      "sc d' = (sc (sfs_device s))(b := replicate 512 0)" "bitmap_ok m'" "nbits m' = nbits (sfs_freemap s)"
      "bits m' = insert b (bits (sfs_freemap s))"
    using assms unfolding alloc_step_def by blast
  then show "din (sfs_device s')" "sc (sfs_device s') = (sc (sfs_device s))(b := replicate 512 0)"
    "bitmap_ok (sfs_freemap s')" "bits (sfs_freemap s') = insert b (bits (sfs_freemap s))"
    "same_fs s s'" "sfs_heap s' = sfs_heap s"
    by (simp_all add: same_fs_def)
qed (use assms in \<open>simp_all add: alloc_step_def\<close>)

context sfs_disk begin

lemma balloc_wp:
  assumes "dinv (sfs_device s)" "map_ok nsec s"
  shows "wpK (sfs_balloc dv) (\<lambda>b s'. alloc_step dinv sec b s s') (\<lambda>e s'. e = ENOSPC \<and> s' = s) s"
  unfolding sfs_balloc_def wp_bind wp_on_freemap wp_mod wp_get
proof (rule wp_mono [OF bmap.alloc_spec])
  show "bitmap_ok (sfs_freemap s)" using assms(2) by (simp add: map_ok_def)
next
  fix b m'
  assume b: "b < nbits (sfs_freemap s) \<and> b \<notin> bits (sfs_freemap s) \<and> bits m' = insert b (bits (sfs_freemap s)) \<and>
    nbits m' = nbits (sfs_freemap s) \<and> bitmap_ok m'"
  let ?s = "s\<lparr>sfs_freemap := m', sfs_freemapdirty := True\<rparr>"
  have lt: "b < sp_nblocks (sfs_super s)"
    using b assms(2) by (meson atLeastLessThan_iff map_ok_def not_le subsetD)
  then have "b < nsec" using assms(2) by (simp add: map_ok_def)
  then have "wpK (sfs_clearblock dv b) (\<lambda>_ s'. dev_step dinv sec (\<lambda>f. f(b := replicate 512 0)) ?s s') (\<lambda>_ _. False) ?s"
    unfolding sfs_clearblock_def using assms(1) by (intro wblock_wp) auto
  then have "wpK (sfs_clearblock dv b) (\<lambda>_ s'. alloc_step dinv sec b s s') (\<lambda>e s'. e = ENOSPC \<and> s' = s) ?s"
    by (rule wp_mono) (use b lt in \<open>auto simp: dev_step_def alloc_step_def\<close>)
  then show "wpK (if sp_nblocks (sfs_super (s\<lparr>sfs_freemap := m'\<rparr>\<lparr>sfs_freemapdirty := True\<rparr>)) \<le> b then panicK
         else bindK (sfs_clearblock dv b) (\<lambda>_. retK b)) (\<lambda>b s'. alloc_step dinv sec b s s')
        (\<lambda>e s'. e = ENOSPC \<and> s' = s) (s\<lparr>sfs_freemap := m'\<rparr>\<lparr>sfs_freemapdirty := True\<rparr>)"
    using lt by (simp add: wp)
qed simp

lemma bused_wp:
  assumes "map_ok nsec s" "b < sp_nblocks (sfs_super s)"
  shows "sfs_bused b s = Some (Inr (b \<in> bits (sfs_freemap s)), s)"
proof -
  have "bitmap_isset b (sfs_freemap s) = Some (Inr (b \<in> bits (sfs_freemap s)), sfs_freemap s)"
    using assms by (intro bmap.inuse_spec) (auto simp: map_ok_def)
  then show ?thesis
    using assms(2) by (simp add: sfs_bused_def bindK_def getK_def on_freemap_def zoomK_def)
qed

lemma bmap_check:
  assumes "map_ok nsec s" "b \<noteq> 0 \<Longrightarrow> b < sp_nblocks (sfs_super s) \<and> b \<in> bits (sfs_freemap s)"
  shows "sfs_bmap_check b s = Some (Inr b, s)"
proof (cases "b = 0")
  case False
  then show ?thesis
    using assms bused_wp [of s b] by (simp add: sfs_bmap_check_def bindK_def retK_def)
qed (simp add: sfs_bmap_check_def retK_def)

lemma bmap_check_at:
  assumes "fs_at dinv sec nsec N n p i s" "b = bmap_of (sec (sfs_device s)) i k"
  shows "sfs_bmap_check b s = Some (Inr b, s)"
proof (rule bmap_check [OF fs_atD(7) [OF assms(1)]])
  note io = inode_okD [OF fs_atD(6) [OF assms(1)]]
  assume "b \<noteq> 0"
  moreover from this have "k < 143" using assms(2) bmap_of_0 by (metis not_le)
  ultimately have "b \<in> own (sec (sfs_device s)) n i" using bmap_of_own [OF io(2)] assms(2) by simp
  then show "b < sp_nblocks (sfs_super s) \<and> b \<in> bits (sfs_freemap s)" using io(6,7) by auto
qed

end

section \<open>Block mapping\<close>

lemma dec_words_zeros: "dec_words n (replicate (4 * n) 0) = replicate n 0"
proof (induction n)
  case (Suc n)
  have "replicate (4 * Suc n) (0 :: byte) = replicate 4 0 @ replicate (4 * n) 0"
    by (simp flip: replicate_add)
  moreover have "de32 [0, 0, 0, 0] = 0" by simp
  moreover have "replicate 4 (0 :: byte) = [0, 0, 0, 0]" by (simp add: numeral_eq_Suc)
  ultimately show ?case using Suc by simp
qed simp

lemma dec_block_zeros: "dec_words 128 (replicate 512 0) = replicate 128 0"
  using dec_words_zeros [of 128] by simp

text \<open>
  A step on file \<open>n\<close> that leaves its contents alone, and the outcome of \<^verbatim>\<open>sfs_bmap\<close> for position
  \<open>k\<close>, which without \<^verbatim>\<open>doalloc\<close> changes nothing at all.
\<close>

definition keeps :: "('d \<Rightarrow> bool) \<Rightarrow> ('d \<Rightarrow> nat \<Rightarrow> byte list) \<Rightarrow> nat \<Rightarrow> (nat \<rightharpoonup> sfs_inode) \<Rightarrow> nat \<Rightarrow> nat
    \<Rightarrow> sfs_inode \<Rightarrow> 'd sfs_fs \<Rightarrow> sfs_inode \<Rightarrow> 'd sfs_fs \<Rightarrow> bool" where
  "keeps din sc ns N n p i s i' s' \<longleftrightarrow> file_step din sc ns N n p s i' s' \<and> same_meta i i' \<and>
     (\<forall>k. fblk (sc (sfs_device s')) i' k = fblk (sc (sfs_device s)) i k)"

lemma keeps_trans:
  "keeps din sc ns N n p i s i1 s1 \<Longrightarrow> keeps din sc ns (N(n \<mapsto> i1)) n p i1 s1 i2 s2 \<Longrightarrow>
     keeps din sc ns N n p i s i2 s2"
  unfolding keeps_def by (auto intro: file_step_trans same_meta_trans)

lemma keeps_at: "keeps din sc ns N n p i s i' s' \<Longrightarrow> fs_at din sc ns (N(n \<mapsto> i')) n p i' s'"
  by (simp add: keeps_def file_step_def)

lemma keeps_read:
  assumes "fs_at din sc ns N n p i s" "dev_step din sc (\<lambda>f. f) s s'"
  shows "keeps din sc ns N n p i s i s'"
  using file_step_read [OF assms] dev_stepD(2) [OF assms(2)] by (simp add: keeps_def)

lemma keeps_refl: "fs_at din sc ns N n p i s \<Longrightarrow> keeps din sc ns N n p i s i s"
  by (rule keeps_read) (auto simp: dev_step_def fs_at_def intro!: exI [of _ "sfs_device s"])

text \<open>The three places a fresh block can be entered.\<close>

lemma alloc_direct:
  assumes at: "fs_at din sc ns N n p i s" and a: "alloc_step din sc b s s1"
    and k: "k < 15" "sfi_direct i ! k = 0" and v: "sfs_heap s p = Some v" and ns: "ns < 4294967296"
  defines "i' \<equiv> i\<lparr>sfi_direct := (sfi_direct i)[k := b]\<rparr>"
  defines "s' \<equiv> s1\<lparr>sfs_heap := (sfs_heap s1)(p \<mapsto> v\<lparr>sv_i := i', sv_dirty := True\<rparr>)\<rparr>"
  shows "keeps din sc ns N n p i s i' s'" "bmap_of (sc (sfs_device s')) i' k = b" "b \<noteq> 0"
proof -
  let ?dk = "sc (sfs_device s)" and ?dk' = "sc (sfs_device s')"
  note io = fs_atD(6) [OF at] and aD = alloc_stepD [OF a]
  note iD = inode_okD [OF io]
  note b = fresh_not_sys [OF fs_atD(7) [OF at] aD(1)]
  have fresh: "b \<notin> own ?dk n i" using fs_atD(2,3) [OF at] aD(1) by (rule fresh_not_owned)
  have dk': "?dk' = ?dk(b := replicate 512 0)" using aD(4) by (simp add: s'_def)
  have "sfi_indirect i \<noteq> b" using fresh indirect_own [of i ?dk n] b by auto
  then have ptr: "ptrs ?dk' i' = (ptrs ?dk i)[k := b]"
    using k(1) iD(2) by (simp add: ptrs_def i'_def id_words_def dk' list_update_append1)
  have pk: "ptrs ?dk i ! k = 0" using k iD(2) by (simp add: ptrs_def nth_append)
  have "b < 4294967296" using aD(2) fs_atD(7) [OF at] ns by (simp add: map_ok_def)
  then have wf: "inode_wf i'" using iD(1) by (auto simp: inode_wf_def i'_def dest!: set_update_subset_insert [THEN subsetD])
  have "file_step din sc ns N n p s i' s'"
    by (rule step_alloc_ptr [OF at aD(1,2) _ _ _ _ v, where x = k and v' = "v\<lparr>sv_i := i', sv_dirty := True\<rparr>"])
      (use aD ptr wf k(1) in \<open>auto simp: s'_def same_fs_def same_vn_def i'_def\<close>)
  moreover have "fblk ?dk' i' j = fblk ?dk i j" for j
    by (rule fblk_alloc_ptr [OF io fresh b(2) _ _ ptr _ pk])
      (use wf k(1) in \<open>auto simp: dk' inode_wf_def\<close>)
  ultimately show "keeps din sc ns N n p i s i' s'"
    by (simp add: keeps_def same_meta_def i'_def)
  show "bmap_of ?dk' i' k = b" using k(1) iD(2) by (simp add: bmap_of_def i'_def)
  show "b \<noteq> 0" by fact
qed

lemma alloc_indirect:
  assumes at: "fs_at din sc ns N n p i s" and a: "alloc_step din sc b s s1"
    and ind: "sfi_indirect i = 0" and v: "sfs_heap s p = Some v" and ns: "ns < 4294967296"
  defines "i' \<equiv> i\<lparr>sfi_indirect := b\<rparr>"
  defines "s' \<equiv> s1\<lparr>sfs_heap := (sfs_heap s1)(p \<mapsto> v\<lparr>sv_i := i', sv_dirty := True\<rparr>)\<rparr>"
  shows "keeps din sc ns N n p i s i' s'" "id_words (sc (sfs_device s')) i' = replicate 128 0" "b \<noteq> 0"
proof -
  let ?dk = "sc (sfs_device s)" and ?dk' = "sc (sfs_device s')"
  note io = fs_atD(6) [OF at] and aD = alloc_stepD [OF a]
  note iD = inode_okD [OF io]
  note b = fresh_not_sys [OF fs_atD(7) [OF at] aD(1)]
  have fresh: "b \<notin> own ?dk n i" using fs_atD(2,3) [OF at] aD(1) by (rule fresh_not_owned)
  have dk': "?dk' = ?dk(b := replicate 512 0)" using aD(4) by (simp add: s'_def)
  show ws: "id_words ?dk' i' = replicate 128 0" using b(2) by (simp add: id_words_def i'_def dk' dec_block_zeros)
  then have ptr: "ptrs ?dk' i' = (ptrs ?dk i)[15 := b]"
    using iD(2) ind by (simp add: ptrs_def i'_def id_words_def list_update_append)
  have pk: "ptrs ?dk i ! 15 = 0" using iD(2) ind by (simp add: ptrs_def nth_append)
  have "b < 4294967296" using aD(2) fs_atD(7) [OF at] ns by (simp add: map_ok_def)
  then have wf: "inode_wf i'" using iD(1) by (auto simp: inode_wf_def i'_def)
  have "file_step din sc ns N n p s i' s'"
    by (rule step_alloc_ptr [OF at aD(1,2) _ _ _ _ v, where x = 15 and v' = "v\<lparr>sv_i := i', sv_dirty := True\<rparr>"])
      (use aD ptr wf in \<open>auto simp: s'_def same_fs_def same_vn_def i'_def\<close>)
  moreover have "fblk ?dk' i' j = fblk ?dk i j" for j
    by (rule fblk_alloc_ptr [OF io fresh b(2) _ _ ptr _ pk])
      (use wf in \<open>auto simp: dk' inode_wf_def\<close>)
  ultimately show "keeps din sc ns N n p i s i' s'"
    by (simp add: keeps_def same_meta_def i'_def)
  show "b \<noteq> 0" by fact
qed

lemma alloc_entry:
  assumes at: "fs_at din sc ns N n p i s" and a: "alloc_step din sc b s s1"
    and ind: "sfi_indirect i \<noteq> 0" and off: "off < 128" "id_words (sc (sfs_device s)) i ! off = 0"
    and w: "dev_step din sc (\<lambda>f. f(sfi_indirect i := enc_words ((id_words (sc (sfs_device s)) i)[off := b]))) s1 s'"
    and ns: "ns < 4294967296" and len: "\<And>c. c < ns \<Longrightarrow> length (sc (sfs_device s) c) = 512"
  shows "keeps din sc ns N n p i s i s'" "bmap_of (sc (sfs_device s')) i (15 + off) = b" "b \<noteq> 0"
proof -
  let ?dk = "sc (sfs_device s)" and ?dk' = "sc (sfs_device s')"
  let ?ws = "(id_words ?dk i)[off := b]"
  note io = fs_atD(6) [OF at] and aD = alloc_stepD [OF a] and wD = dev_stepD [OF w]
  note iD = inode_okD [OF io]
  note b = fresh_not_sys [OF fs_atD(7) [OF at] aD(1)]
  have fresh: "b \<notin> own ?dk n i" using fs_atD(2,3) [OF at] aD(1) by (rule fresh_not_owned)
  have nb: "sp_nblocks (sfs_super s) \<le> ns" using fs_atD(7) [OF at] by (simp add: map_ok_def)
  have ib: "sfi_indirect i \<noteq> b" "sfi_indirect i < ns"
    using fresh indirect_own [OF ind, of ?dk n] iD(7) nb by auto
  have dk': "?dk' = ?dk(b := replicate 512 0, sfi_indirect i := enc_words ?ws)" using aD(4) wD(2) by simp
  have "\<forall>x \<in> set (id_words ?dk i). x < 4294967296"
    using ind len [OF ib(2)] dec_words_bound [of "?dk (sfi_indirect i)" 128] by (auto simp: id_words_def)
  moreover have "b < 4294967296" using aD(2) nb ns by simp
  ultimately have "\<forall>x \<in> set ?ws. x < 4294967296" by (auto dest!: set_update_subset_insert [THEN subsetD])
  then have "dec_words 128 (enc_words ?ws) = ?ws" using dec_enc_words [of ?ws "[]"] by simp
  then have ws: "id_words ?dk' i = ?ws" using ind by (simp add: id_words_def dk')
  then have ptr: "ptrs ?dk' i = (ptrs ?dk i)[16 + off := b]"
    using iD(2) by (simp add: ptrs_def list_update_append)
  have pk: "ptrs ?dk i ! (16 + off) = 0" using iD(2) off by (simp add: ptrs_def nth_append)
  obtain v where v: "sfs_heap s p = Some v" "sv_i v = i" using fs_atD(5) [OF at] by auto
  have hp: "sfs_heap s' = (sfs_heap s)(p \<mapsto> v)" using wD(8) aD(8) heap_self [OF v(1)] by simp
  have "file_step din sc ns N n p s i s'"
    by (rule step_alloc_ptr [OF at aD(1,2) _ _ _ _ v(1) hp, where x = "16 + off"])
      (use aD wD ptr iD(1) off(1) dk' v(2) ind in \<open>auto simp: same_fs_def same_vn_def\<close>)
  moreover have "fblk ?dk' i j = fblk ?dk i j" for j
    by (rule fblk_alloc_ptr [OF io fresh b(2) _ _ ptr _ pk])
      (use iD(2) off(1) ib(1) ind in \<open>auto simp: dk'\<close>)
  ultimately show "keeps din sc ns N n p i s i s'" by (simp add: keeps_def)
  show "bmap_of ?dk' i (15 + off) = b" using off(1) by (simp add: bmap_of_def ws)
  show "b \<noteq> 0" by fact
qed

context sfs_disk begin

lemma wp_bmap_check:
  "fs_at dinv sec nsec N n p i s \<Longrightarrow> b = bmap_of (sec (sfs_device s)) i k \<Longrightarrow>
     wpK (sfs_bmap_check b) Q E s = Q b s"
  by (simp add: wpK_def bmap_check_at)

lemma nsec_32: "nsec < 4294967296"
  using nsec_bound by simp

text \<open>The second half of the indirect case: the indirect block is there and has been read.\<close>

lemma bmap_entry:
  assumes at: "fs_at dinv sec nsec N n p i s" and ind: "sfi_indirect i \<noteq> 0" and off: "off < 128"
  shows "wpK (bindK (if id_words (sec (sfs_device s)) i ! off = 0 \<and> al then
                bindK (sfs_balloc dv) (\<lambda>block.
                bindK (sfs_wblock dv (enc_words ((id_words (sec (sfs_device s)) i)[off := block])) (sfi_indirect i)) (\<lambda>_.
                retK block))
              else retK (id_words (sec (sfs_device s)) i ! off)) sfs_bmap_check)
     (\<lambda>b s'. keeps dinv sec nsec N n p i s i s' \<and> bmap_of (sec (sfs_device s')) i (15 + off) = b \<and>
        (al \<longrightarrow> b \<noteq> 0) \<and> (\<not> al \<longrightarrow> sec (sfs_device s') = sec (sfs_device s)))
     (\<lambda>e s'. e = ENOSPC \<and> al \<and> keeps dinv sec nsec N n p i s i s') s" (is "wpK _ ?Q ?E s")
proof (cases "id_words (sec (sfs_device s)) i ! off = 0 \<and> al")
  case False
  have "id_words (sec (sfs_device s)) i ! off = bmap_of (sec (sfs_device s)) i (15 + off)"
    using off by (simp add: bmap_of_def)
  then show ?thesis
    using False wp_bmap_check [OF at] keeps_refl [OF at] by (auto simp: wp)
next
  case True
  let ?ws = "id_words (sec (sfs_device s)) i"
  note mp = fs_atD(7) [OF at] and dv = fs_atD(1) [OF at]
  have lt: "sfi_indirect i < nsec"
    using indirect_own [OF ind, of "sec (sfs_device s)" n] inode_okD(7) [OF fs_atD(6) [OF at]] mp
    by (auto simp: map_ok_def)
  show ?thesis
    unfolding if_P [OF True] wp_bind wp_ret
  proof (rule wp_mono [OF balloc_wp [OF dv mp]])
    fix b s1
    assume a: "alloc_step dinv sec b s s1"
    show "wpK (sfs_wblock dv (enc_words (?ws[off := b])) (sfi_indirect i)) (\<lambda>_. wpK (sfs_bmap_check b) ?Q ?E) ?E s1"
    proof (rule wp_mono [OF wblock_wp [OF alloc_stepD(3) [OF a] lt]])
      fix s'
      assume w: "dev_step dinv sec (\<lambda>f. f(sfi_indirect i := enc_words (?ws[off := b]))) s1 s'"
      have e: "keeps dinv sec nsec N n p i s i s'" "bmap_of (sec (sfs_device s')) i (15 + off) = b" "b \<noteq> 0"
        using alloc_entry [OF at a ind off _ w nsec_32 sec_len [OF dv]] True by auto
      show "wpK (sfs_bmap_check b) ?Q ?E s'"
        using wp_bmap_check [OF keeps_at [OF e(1)], of b "15 + off"] e True by auto
    qed simp_all
  qed (use keeps_refl [OF at] True in auto)
qed

lemma bmap_direct:
  assumes at: "fs_at dinv sec nsec N n p i s" and k: "k < 15"
  shows "wpK (sfs_bmap dv p k al)
     (\<lambda>b s'. \<exists>i'. keeps dinv sec nsec N n p i s i' s' \<and> bmap_of (sec (sfs_device s')) i' k = b \<and>
        (al \<longrightarrow> b \<noteq> 0) \<and> (\<not> al \<longrightarrow> i' = i \<and> sec (sfs_device s') = sec (sfs_device s)))
     (\<lambda>e s'. e \<in> {ENOSPC, EIO} \<and> (\<exists>i'. keeps dinv sec nsec N n p i s i' s' \<and>
        (\<not> al \<longrightarrow> e = EIO \<and> i' = i \<and> sec (sfs_device s') = sec (sfs_device s)))) s"
    (is "wpK _ ?Q ?E s")
proof -
  note mp = fs_atD(7) [OF at] and dv = fs_atD(1) [OF at]
  obtain v where v: "sfs_heap s p = Some v" "sv_i v = i" using fs_atD(5) [OF at] by auto
  have k': "k < SFS_NDIRECT" using k by (simp add: SFS_NDIRECT_def)
  show ?thesis
  proof (cases "sfi_direct i ! k = 0 \<and> al")
    case False
    have "sfi_direct i ! k = bmap_of (sec (sfs_device s)) i k" using k by (simp add: bmap_of_def)
    then show ?thesis
      using False k' v wp_bmap_check [OF at] keeps_refl [OF at]
      by (auto simp: sfs_bmap_def wp)
  next
    case al: True
    show ?thesis
      unfolding sfs_bmap_def if_P [OF k'] wp_bind wp_svget v option.case if_P [OF al] wp_svmod wp_ret
    proof (rule wp_mono [OF balloc_wp [OF dv mp]])
      fix b s1
      assume a: "alloc_step dinv sec b s s1"
      let ?i = "i\<lparr>sfi_direct := (sfi_direct i)[k := b]\<rparr>"
      let ?s = "s1\<lparr>sfs_heap := (sfs_heap s1)(p \<mapsto> v\<lparr>sv_i := ?i, sv_dirty := True\<rparr>)\<rparr>"
      have e: "keeps dinv sec nsec N n p i s ?i ?s" "bmap_of (sec (sfs_device ?s)) ?i k = b" "b \<noteq> 0"
        using alloc_direct [OF at a k _ v(1) nsec_32] al by auto
      have "wpK (sfs_bmap_check b) ?Q ?E ?s"
        using wp_bmap_check [OF keeps_at [OF e(1)], of b k] e al by auto
      then show "case sfs_heap s1 p of None \<Rightarrow> False
        | Some v \<Rightarrow> wpK (sfs_bmap_check b) ?Q ?E
            (s1\<lparr>sfs_heap := (sfs_heap s1)(p \<mapsto> v\<lparr>sv_i := (sv_i v)\<lparr>sfi_direct := (sfi_direct (sv_i v))[k := b]\<rparr>,
               sv_dirty := True\<rparr>)\<rparr>)"
        using alloc_stepD(8) [OF a] v by simp
    qed (use keeps_refl [OF at] al in auto)
  qed
qed

lemma bmap_indirect:
  assumes at: "fs_at dinv sec nsec N n p i s" and k: "\<not> k < 15" "k < 143"
  shows "wpK (sfs_bmap dv p k al)
     (\<lambda>b s'. \<exists>i'. keeps dinv sec nsec N n p i s i' s' \<and> bmap_of (sec (sfs_device s')) i' k = b \<and>
        (al \<longrightarrow> b \<noteq> 0) \<and> (\<not> al \<longrightarrow> i' = i \<and> sec (sfs_device s') = sec (sfs_device s)))
     (\<lambda>e s'. e \<in> {ENOSPC, EIO} \<and> (\<exists>i'. keeps dinv sec nsec N n p i s i' s' \<and>
        (\<not> al \<longrightarrow> e = EIO \<and> i' = i \<and> sec (sfs_device s') = sec (sfs_device s)))) s"
    (is "wpK _ ?Q ?E s")
proof -
  note mp = fs_atD(7) [OF at] and dv = fs_atD(1) [OF at]
  obtain v where v: "sfs_heap s p = Some v" "sv_i v = i" using fs_atD(5) [OF at] by auto
  let ?off = "k - 15"
  have off: "?off < 128" "15 + ?off = k" "?off mod 128 = ?off" "\<not> 0 < ?off div 128" using k by auto
  let ?rest = "\<lambda>idblock idbuf. bindK (if idbuf ! ?off = 0 \<and> al then
                      bindK (sfs_balloc dv) (\<lambda>block.
                      bindK (sfs_wblock dv (enc_words (idbuf[?off := block])) idblock) (\<lambda>_.
                      retK block))
                    else retK (idbuf ! ?off)) sfs_bmap_check"
  have rest: "wpK (?rest (sfi_indirect i1) (id_words (sec (sfs_device s1)) i1)) ?Q ?E s1"
    if k1: "keeps dinv sec nsec N n p i s i1 s1" and ind: "sfi_indirect i1 \<noteq> 0"
      and al: "\<not> al \<Longrightarrow> i1 = i \<and> sec (sfs_device s1) = sec (sfs_device s)" for i1 s1
  proof (rule wp_mono [OF bmap_entry [OF keeps_at [OF k1] ind off(1), unfolded off(2)]])
    fix b s'
    assume "keeps dinv sec nsec (N(n \<mapsto> i1)) n p i1 s1 i1 s' \<and> bmap_of (sec (sfs_device s')) i1 k = b \<and>
        (al \<longrightarrow> b \<noteq> 0) \<and> (\<not> al \<longrightarrow> sec (sfs_device s') = sec (sfs_device s1))"
    then show "?Q b s'" using keeps_trans [OF k1] al by metis
  next
    fix e s'
    assume "e = ENOSPC \<and> al \<and> keeps dinv sec nsec (N(n \<mapsto> i1)) n p i1 s1 i1 s'"
    then show "?E e s'" using keeps_trans [OF k1] by auto
  qed
  have eq: "wpK (sfs_bmap dv p k al) ?Q ?E s = wpK
      (if sfi_indirect i = 0 \<and> \<not> al then retK 0 else
         bindK (if sfi_indirect i = 0 then
                  bindK (sfs_balloc dv) (\<lambda>idblock.
                  bindK (svmod p (\<lambda>v. v\<lparr>sv_i := (sv_i v)\<lparr>sfi_indirect := idblock\<rparr>, sv_dirty := True\<rparr>)) (\<lambda>_.
                  retK (idblock, replicate 128 0)))
                else
                  bindK (sfs_rblock dv (sfi_indirect i)) (\<lambda>bs. retK (sfi_indirect i, dec_words 128 bs)))
           (\<lambda>(idblock, idbuf). ?rest idblock idbuf)) ?Q ?E s"
    unfolding sfs_bmap_def SFS_NDIRECT_def SFS_DBPERIDB_def if_not_P [OF k(1)] Let_def if_not_P [OF off(4)]
      wp_bind wp_svget v option.case off(3) ..
  consider (hole) "sfi_indirect i = 0" "\<not> al" | (new) "sfi_indirect i = 0" al | (old) "sfi_indirect i \<noteq> 0" by blast
  then show ?thesis
  proof cases
    case hole
    then have "bmap_of (sec (sfs_device s)) i k = 0" using k by (simp add: bmap_of_def id_words_def)
    with hole show ?thesis unfolding eq using keeps_refl [OF at] by (auto simp: wp)
  next
    case new
    then have c: "\<not> (sfi_indirect i = 0 \<and> \<not> al)" by simp
    show ?thesis
      unfolding eq if_not_P [OF c] if_P [OF new(1)] wp_bind wp_svmod wp_ret
    proof (rule wp_mono [OF balloc_wp [OF dv mp]])
      fix b s1
      assume a: "alloc_step dinv sec b s s1"
      let ?i = "i\<lparr>sfi_indirect := b\<rparr>"
      let ?s = "s1\<lparr>sfs_heap := (sfs_heap s1)(p \<mapsto> v\<lparr>sv_i := ?i, sv_dirty := True\<rparr>)\<rparr>"
      note e = alloc_indirect [OF at a new(1) v(1) nsec_32]
      have ib: "sfi_indirect ?i = b" by simp
      have "wpK (?rest (sfi_indirect ?i) (id_words (sec (sfs_device ?s)) ?i)) ?Q ?E ?s"
        using e(3) new(2) by (intro rest [OF e(1)]) auto
      then have "wpK (?rest b (replicate 128 0)) ?Q ?E ?s" unfolding e(2) ib .
      then show "case sfs_heap s1 p of None \<Rightarrow> False
        | Some v \<Rightarrow> wpK (case (b, replicate 128 0) of (idblock, idbuf) \<Rightarrow> ?rest idblock idbuf) ?Q ?E
            (s1\<lparr>sfs_heap := (sfs_heap s1)(p \<mapsto> v\<lparr>sv_i := (sv_i v)\<lparr>sfi_indirect := b\<rparr>, sv_dirty := True\<rparr>)\<rparr>)"
        unfolding alloc_stepD(8) [OF a] v option.case prod.case .
    qed (use keeps_refl [OF at] new in auto)
  next
    case old
    then have c: "\<not> (sfi_indirect i = 0 \<and> \<not> al)" by simp
    have lt: "sfi_indirect i < nsec"
      using indirect_own [OF old, of "sec (sfs_device s)" n] inode_okD(7) [OF fs_atD(6) [OF at]] mp
      by (auto simp: map_ok_def)
    show ?thesis
      unfolding eq if_not_P [OF c] if_not_P [OF old] wp_bind wp_ret
    proof (rule wp_mono [OF rblock_wp [OF dv lt]])
      fix bs s1
      assume "bs = sec (sfs_device s) (sfi_indirect i) \<and> dev_step dinv sec (\<lambda>f. f) s s1"
      then have s1: "dev_step dinv sec (\<lambda>f. f) s s1" "sec (sfs_device s1) = sec (sfs_device s)"
        and bs: "dec_words 128 bs = id_words (sec (sfs_device s1)) i"
        using old dev_stepD(2) [of dinv sec "\<lambda>f. f" s s1] by (auto simp: id_words_def)
      show "wpK (case (sfi_indirect i, dec_words 128 bs) of (idblock, idbuf) \<Rightarrow> ?rest idblock idbuf) ?Q ?E s1"
        unfolding prod.case bs using s1(2) by (intro rest [OF keeps_read [OF at s1(1)] old]) simp
    next
      fix e s1
      assume "e = EIO \<and> dev_step dinv sec (\<lambda>f. f) s s1"
      then show "?E e s1" using keeps_read [OF at] dev_stepD(2) [of dinv sec "\<lambda>f. f" s s1] by auto
    qed
  qed
qed

lemma bmap_wp:
  assumes "fs_at dinv sec nsec N n p i s" "k < 143"
  shows "wpK (sfs_bmap dv p k al)
     (\<lambda>b s'. \<exists>i'. keeps dinv sec nsec N n p i s i' s' \<and> bmap_of (sec (sfs_device s')) i' k = b \<and>
        (al \<longrightarrow> b \<noteq> 0) \<and> (\<not> al \<longrightarrow> i' = i \<and> sec (sfs_device s') = sec (sfs_device s)))
     (\<lambda>e s'. e \<in> {ENOSPC, EIO} \<and> (\<exists>i'. keeps dinv sec nsec N n p i s i' s' \<and>
        (\<not> al \<longrightarrow> e = EIO \<and> i' = i \<and> sec (sfs_device s') = sec (sfs_device s)))) s"
  using bmap_direct [OF assms(1)] bmap_indirect [OF assms(1) _ assms(2)] by (cases "k < 15") blast+

end

lemma bmap_beyond: "143 \<le> k \<Longrightarrow> sfs_bmap dv p k al s = Some (Inl EINVAL, s)"
  by (cases "128 \<le> k - 15") (simp_all add: sfs_bmap_def sfs_consts failK_def Let_def div_greater_zero_iff)

section \<open>Properties\<close>

text \<open>
  Property C32. On a device that keeps the block contract (its writes do not fail), \<^verbatim>\<open>sfs_bmap\<close> of a block within the reach of
  the inode returns (it never hits its panics), keeps the invariant of the volume, and hands
  back the disk block the inode maps that block to, an allocated one if asked to allocate.
  Whatever it allocates, the contents of every file, this one included, are unchanged; the
  same holds when it fails, which it does with \<^verbatim>\<open>ENOSPC\<close> or \<^verbatim>\<open>EIO\<close> only.
\<close>

theorem sfs_bmap_preserves:
  assumes "sfs_disk dv sec nsec dinv" and "fs_at dinv sec nsec N n p i s" and "k < 143"
  shows "wpK (sfs_bmap dv p k doalloc)
     (\<lambda>b s'. \<exists>i'. fs_at dinv sec nsec (N(n \<mapsto> i')) n p i' s' \<and>
        b = bmap_of (sec (sfs_device s')) i' k \<and> (doalloc \<longrightarrow> b \<noteq> 0) \<and>
        (\<forall>k. fblk (sec (sfs_device s')) i' k = fblk (sec (sfs_device s)) i k) \<and>
        (\<forall>m j k. m \<noteq> n \<and> N m = Some j \<longrightarrow> fblk (sec (sfs_device s')) j k = fblk (sec (sfs_device s)) j k))
     (\<lambda>e s'. e \<in> {ENOSPC, EIO} \<and> (\<exists>i'. fs_at dinv sec nsec (N(n \<mapsto> i')) n p i' s' \<and>
        (\<forall>k. fblk (sec (sfs_device s')) i' k = fblk (sec (sfs_device s)) i k) \<and>
        (\<forall>m j k. m \<noteq> n \<and> N m = Some j \<longrightarrow> fblk (sec (sfs_device s')) j k = fblk (sec (sfs_device s)) j k))) s"
proof -
  have "fs_at dinv sec nsec (N(n \<mapsto> i')) n p i' s' \<and>
      (\<forall>k. fblk (sec (sfs_device s')) i' k = fblk (sec (sfs_device s)) i k) \<and>
      (\<forall>m j k. m \<noteq> n \<and> N m = Some j \<longrightarrow> fblk (sec (sfs_device s')) j k = fblk (sec (sfs_device s)) j k)"
    if "keeps dinv sec nsec N n p i s i' s'" for i' s'
    using that file_frame_fblk [where sc = sec and s = s, OF _ _ _ fs_atD(2) [OF assms(2)]]
    by (auto simp: keeps_def file_step_def)
  then show ?thesis
    by (intro wp_mono [OF sfs_disk.bmap_wp [OF assms]]) blast+
qed

theorem sfs_bmap_preserves_witness:
  "wpK (sfs_bmap (lhd_device (sim_hw (\<lambda>_. False) (\<lambda>_. False)) 2048) 100 20 True) (\<lambda>b s'. b \<noteq> 0)
     (\<lambda>e s'. e \<in> {ENOSPC, EIO}) example_fs"
  by (rule wp_mono [OF sfs_bmap_preserves [OF simd.sd.sfs_disk_axioms example_ok]]) auto

text \<open>
  Property C33. A disk that refuses every write to a block goes unnoticed: \<^verbatim>\<open>lhd_io\<close> reports \<^verbatim>\<open>EIO\<close> but
  has consumed the descriptor, so the retry in \<^verbatim>\<open>sfs_rwblock\<close> transfers nothing and succeeds.
  \<^verbatim>\<open>sfs_wblock\<close> returns success although no sector has changed.
\<close>

theorem sfs_wblock_hides_errors:
  assumes "lhd_hardware hw dsk nsect idle" and "lhd_inv idle nsect (sfs_device s)"
    and "b < nsect" and "nsect < 4194304" and "length bs = 512"
    and "\<And>h. idle h \<Longrightarrow> \<exists>h'. hw_irq hw (hw_start hw (LHD_WORKING OR LHD_ISWRITE) b h) = Some h' \<and>
      idle (hw_ack hw h') \<and> hw_rdreg hw LHD_REG_STAT h' = 22 \<and> dsk (hw_ack hw h') = dsk h"
  shows "wpK (sfs_wblock (lhd_device hw nsect) bs b)
     (\<lambda>_ s'. lhd_sec dsk (sfs_device s') = lhd_sec dsk (sfs_device s)) (\<lambda>_ _. False) s"
proof -
  have b: "b < 4194304" using assms(3,4) by simp
  show ?thesis
    by (rule lhd_hardware.wblock_any [OF assms(1-5)],
        rule wp_mono [OF lhd_hardware.sector_write_bad [OF assms(1,2) SFSUIO_ok [OF b] _ _ assms(6)]]) auto
qed

theorem sfs_wblock_hides_errors_witness:
  "wpK (sfs_wblock (lhd_device (sim_hw (\<lambda>_. False) (\<lambda>t. t = 4)) 2048) (replicate 512 9) 4)
     (\<lambda>_ s'. lhd_sec sd_disk (sfs_device s') 4 = replicate 512 4) (\<lambda>_ _. False) example_fs"
proof -
  have dev: "sfs_device example_fs = example_disk" by (simp add: example_fs_def)
  show ?thesis
    by (rule wp_mono [OF sfs_wblock_hides_errors [OF simf.lhd_hardware_axioms]])
      (use example_disk_inv in \<open>auto simp: dev sim_defs example_disk_def lhd_sec_def\<close>)
qed

end
