(* ===== verification/SFS_File.thy ===== *)
theory SFS_File
  imports SFS_Bmap
begin

text \<open>
  File I/O of SFS, \<^verbatim>\<open>kern/fs/sfs/sfs_vnode.c\<close>: \<^verbatim>\<open>sfs_partialio\<close>, \<^verbatim>\<open>sfs_blockio\<close>, \<^verbatim>\<open>sfs_io\<close>, \<^verbatim>\<open>sfs_read\<close>
  and \<^verbatim>\<open>sfs_write\<close>. The state is that of the file system and the caller's \<^verbatim>\<open>uio\<close>.

  \<^verbatim>\<open>off_t\<close> is a 32-bit signed integer and \<^verbatim>\<open>size_t\<close> a 32-bit unsigned one; where the code mixes
  them, the model converts as the C rules say. The lemmas show that a read delivers the bytes of
  the file and a write replaces exactly the range it was asked to, whatever the alignment.
\<close>

section \<open>Definitions\<close>

definition sfs_partialio :: "'d device \<Rightarrow> nat \<Rightarrow> nat \<Rightarrow> nat \<Rightarrow> ('d sfs_fs \<times> uio, unit) kern" where
  "sfs_partialio dv sv skipstart len =
     bindK (on_uio (getK uio_rw)) (\<lambda>rw.
     bindK (assertK (u32 (skipstart + len) \<le> SFS_BLOCKSIZE)) (\<lambda>_.
     bindK (on_uio (getK (\<lambda>u. i2u32 (cdiv (uio_offset u) (int SFS_BLOCKSIZE))))) (\<lambda>fileblock.
     bindK (on_fst (sfs_bmap dv sv fileblock (rw = UIO_WRITE))) (\<lambda>diskblock.
     bindK (if diskblock = 0 then bindK (assertK (rw = UIO_READ)) (\<lambda>_. retK (replicate 512 0))
            else on_fst (sfs_rblock dv diskblock)) (\<lambda>iobuf.
     bindK (on_uio (uiomove (drop skipstart iobuf) len)) (\<lambda>ptr.
       if rw = UIO_WRITE then on_fst (sfs_wblock dv (take skipstart iobuf @ ptr) diskblock)
       else retK ()))))))"

text \<open>
  \<^verbatim>\<open>diskoff\<close> is the 32-bit product \<^verbatim>\<open>diskblock * SFS_BLOCKSIZE\<close> read as an \<^verbatim>\<open>off_t\<close>. The offset and
  the residue are restored whether or not the transfer succeeded.
\<close>

definition sfs_blockio :: "'d device \<Rightarrow> nat \<Rightarrow> ('d sfs_fs \<times> uio, unit) kern" where
  "sfs_blockio dv sv =
     bindK (on_uio (getK uio_rw)) (\<lambda>rw.
     bindK (on_uio (getK (\<lambda>u. i2u32 (cdiv (uio_offset u) (int SFS_BLOCKSIZE))))) (\<lambda>fileblock.
     bindK (on_fst (sfs_bmap dv sv fileblock (rw = UIO_WRITE))) (\<lambda>diskblock.
       if diskblock = 0 then
         bindK (assertK (rw = UIO_READ)) (\<lambda>_. on_uio (uiomovezeros SFS_BLOCKSIZE))
       else
         bindK (on_uio (getK uio_offset)) (\<lambda>saveoff.
         (let diskoff = s32 (int (u32 (diskblock * SFS_BLOCKSIZE))) in
          bindK (on_uio (modK (\<lambda>u. u\<lparr>uio_offset := diskoff\<rparr>))) (\<lambda>_.
          bindK (on_uio (getK uio_resid)) (\<lambda>saveres.
          bindK (assertK (saveres \<ge> SFS_BLOCKSIZE)) (\<lambda>_.
          bindK (on_uio (modK (\<lambda>u. u\<lparr>uio_resid := SFS_BLOCKSIZE\<rparr>))) (\<lambda>_.
          bindK (tryK (sfs_rwblock dv)) (\<lambda>result.
          bindK (on_uio (modK (\<lambda>u. u\<lparr>uio_offset := s32 (uio_offset u - diskoff + saveoff),
                   uio_resid := u32 (uio_resid u + 4294967296 - SFS_BLOCKSIZE + saveres)\<rparr>))) (\<lambda>_.
          resultK result)))))))))))"

fun sfs_io_blocks :: "'d device \<Rightarrow> nat \<Rightarrow> nat \<Rightarrow> ('d sfs_fs \<times> uio, unit) kern" where
  "sfs_io_blocks dv sv 0 = retK ()"
| "sfs_io_blocks dv sv (Suc n) = bindK (sfs_blockio dv sv) (\<lambda>_. sfs_io_blocks dv sv n)"

text \<open>The part of \<^verbatim>\<open>sfs_io\<close> after the leading partial block, and with it, up to the label \<^verbatim>\<open>out\<close>.\<close>

definition sfs_io_rest :: "'d device \<Rightarrow> nat \<Rightarrow> ('d sfs_fs \<times> uio, unit) kern" where
  "sfs_io_rest dv sv =
     bindK (on_uio (getK uio_resid)) (\<lambda>resid.
       if resid = 0 then retK ()
       else
         bindK (on_uio (getK (\<lambda>u. crem (uio_offset u) (int SFS_BLOCKSIZE)))) (\<lambda>blkoff.
         bindK (assertK (blkoff = 0)) (\<lambda>_.
         bindK (sfs_io_blocks dv sv (resid div SFS_BLOCKSIZE)) (\<lambda>_.
         bindK (on_uio (getK uio_resid)) (\<lambda>resid.
         bindK (assertK (resid < SFS_BLOCKSIZE)) (\<lambda>_.
           if resid > 0 then sfs_partialio dv sv 0 resid else retK ()))))))"

definition sfs_io_body :: "'d device \<Rightarrow> nat \<Rightarrow> ('d sfs_fs \<times> uio, unit) kern" where
  "sfs_io_body dv sv =
     bindK (on_uio (getK (\<lambda>u. i2u32 (crem (uio_offset u) (int SFS_BLOCKSIZE))))) (\<lambda>blkoff.
     bindK (if blkoff \<noteq> 0 then
              bindK (on_uio (getK uio_resid)) (\<lambda>resid.
              sfs_partialio dv sv blkoff (min (u32 (SFS_BLOCKSIZE + 4294967296 - blkoff)) resid))
            else retK ()) (\<lambda>_.
     sfs_io_rest dv sv))"

text \<open>From \<^verbatim>\<open>out\<close> on.\<close>

definition sfs_io_out :: "nat \<Rightarrow> nat \<Rightarrow> ('d sfs_fs \<times> uio, unit) kern" where
  "sfs_io_out sv extraresid =
     bindK (on_uio (getK id)) (\<lambda>u.
     bindK (on_fst (svget sv (\<lambda>v. s32 (int (sfi_size (sv_i v)))))) (\<lambda>sz.
     bindK (if uio_rw u = UIO_WRITE \<and> uio_offset u > sz then
              on_fst (svmod sv (\<lambda>v. v\<lparr>sv_i := (sv_i v)\<lparr>sfi_size := i2u32 (uio_offset u)\<rparr>, sv_dirty := True\<rparr>))
            else retK ()) (\<lambda>_.
     on_uio (modK (\<lambda>u. u\<lparr>uio_resid := u32 (uio_resid u + extraresid)\<rparr>)))))"

definition sfs_io :: "'d device \<Rightarrow> nat \<Rightarrow> ('d sfs_fs \<times> uio, unit) kern" where
  "sfs_io dv sv =
     bindK (on_uio (getK id)) (\<lambda>u.
     bindK (on_fst (svget sv (\<lambda>v. s32 (int (sfi_size (sv_i v)))))) (\<lambda>sz.
       if uio_rw u = UIO_READ \<and> uio_offset u \<ge> sz then retK ()
       else
         (let endpos = s32 (uio_offset u + int (uio_resid u));
              extraresid = (if uio_rw u = UIO_READ \<and> endpos > sz then i2u32 (endpos - sz) else 0) in
          bindK (if uio_rw u = UIO_READ \<and> endpos > sz then
                   bindK (assertK (uio_resid u > extraresid)) (\<lambda>_.
                   on_uio (modK (\<lambda>u. u\<lparr>uio_resid := uio_resid u - extraresid\<rparr>)))
                 else retK ()) (\<lambda>_.
          bindK (tryK (sfs_io_body dv sv)) (\<lambda>result.
          bindK (sfs_io_out sv extraresid) (\<lambda>_.
          resultK result))))))"

definition sfs_read :: "'d device \<Rightarrow> nat \<Rightarrow> ('d sfs_fs \<times> uio, unit) kern" where
  "sfs_read dv v =
     bindK (on_uio (getK uio_rw)) (\<lambda>rw.
     bindK (assertK (rw = UIO_READ)) (\<lambda>_.
     sfs_io dv v))"

definition sfs_write :: "'d device \<Rightarrow> nat \<Rightarrow> ('d sfs_fs \<times> uio, unit) kern" where
  "sfs_write dv v =
     bindK (on_uio (getK uio_rw)) (\<lambda>rw.
     bindK (assertK (rw = UIO_WRITE)) (\<lambda>_.
     sfs_io dv v))"

section \<open>The bytes of a file\<close>

definition fbyte :: "(nat \<Rightarrow> byte list) \<Rightarrow> sfs_inode \<Rightarrow> nat \<Rightarrow> byte" where
  "fbyte dk i x = fblk dk i (x div 512) ! (x mod 512)"

definition fbytes :: "(nat \<Rightarrow> byte list) \<Rightarrow> sfs_inode \<Rightarrow> nat \<Rightarrow> nat \<Rightarrow> byte list" where
  "fbytes dk i x len = map (fbyte dk i) [x..<x + len]"

lemma length_fbytes [simp]: "length (fbytes dk i x len) = len"
  by (simp add: fbytes_def)

lemma fbytes_0 [simp]: "fbytes dk i x 0 = []"
  by (simp add: fbytes_def)

lemma fbytes_append: "fbytes dk i x a @ fbytes dk i (x + a) b = fbytes dk i x (a + b)"
  using upt_add_eq_append [of x "x + a" b] by (simp only: fbytes_def map_append add.assoc le_add1)

lemma block_offset:
  fixes x j :: nat
  assumes "x mod 512 + j < 512"
  shows "(x + j) div 512 = x div 512" "(x + j) mod 512 = x mod 512 + j"
proof -
  have x: "512 * (x div 512) + x mod 512 = x" by (rule mult_div_mod_eq)
  have "x + j < 512 * Suc (x div 512)" unfolding mult_Suc_right using x assms by linarith
  then show d: "(x + j) div 512 = x div 512" by (intro div_nat_eqI) (use x in linarith)+
  show "(x + j) mod 512 = x mod 512 + j"
    unfolding minus_mult_div_eq_mod [of "x + j" 512, symmetric] d using x by linarith
qed

lemma fbytes_block:
  assumes "x mod 512 + len \<le> 512" "length (fblk dk i (x div 512)) = 512"
  shows "fbytes dk i x len = take len (drop (x mod 512) (fblk dk i (x div 512)))"
proof (rule nth_equalityI)
  show "length (fbytes dk i x len) = length (take len (drop (x mod 512) (fblk dk i (x div 512))))"
    using assms by simp
  fix j assume "j < length (fbytes dk i x len)"
  then have j: "j < len" by simp
  have m: "x mod 512 + j < 512" using j assms(1) by linarith
  have "(x + j) div 512 = x div 512" "(x + j) mod 512 = x mod 512 + j"
    using m by (rule block_offset)+
  then show "fbytes dk i x len ! j = take len (drop (x mod 512) (fblk dk i (x div 512))) ! j"
    using j assms by (simp add: fbytes_def fbyte_def)
qed

section \<open>Writing a data block\<close>

lemma write_data:
  assumes at: "fs_at din sc ns N n p i s" and b: "bmap_of (sc (sfs_device s)) i k = b" "b \<noteq> 0" "k < 143"
    and step: "dev_step din sc (\<lambda>f. f(b := bs)) s s'"
  shows "file_step din sc ns N n p s i s'"
    "fblk (sc (sfs_device s')) i k' = (if k' = k then bs else fblk (sc (sfs_device s)) i k')"
proof -
  let ?dk = "sc (sfs_device s)" and ?dk' = "sc (sfs_device s')"
  note io = fs_atD(6) [OF at] and d = dev_stepD [OF step] and ok = fs_atD(2) [OF at]
  note iD = inode_okD [OF io]
  have bo: "b \<in> own ?dk n i" using bmap_of_own [OF iD(2) b(3)] b(1,2) by blast
  have ne: "b \<noteq> sfi_indirect i" "b \<noteq> n" using bmap_of_indirect [OF io b(3)] b(1,2) by auto
  have dk': "?dk' = ?dk(b := bs)" by (rule d(2))
  have ptr: "ptrs ?dk' i = ptrs ?dk i" using ne by (intro ptrs_cong) (simp add: dk')
  obtain v where v: "sfs_heap s p = Some v" "sv_ino v = n" "sv_i v = i" using fs_atD(5) [OF at] by auto
  have other: "\<forall>c \<in> own ?dk m j. ?dk' c = ?dk c" if "m \<noteq> n" "N m = Some j" for m j
    using fs_okD(4) [OF ok fs_atD(3) [OF at] that(2)] that(1) bo by (auto simp: dk')
  have heap: "sfs_heap s' = (sfs_heap s)(p \<mapsto> v)" using d heap_self [OF v(1)] by simp
  have "fs_ok ns ?dk' (N(n \<mapsto> i)) s'"
  proof (rule fs_ok_update [OF ok v(1,2) _ _ _ _ heap v(2,3)])
    show "map_ok ns s'" using fs_atD(7) [OF at] d by (simp add: map_ok_def)
    show "sp_nblocks (sfs_super s') = sp_nblocks (sfs_super s)" using d by simp
    show "own ?dk m j \<subseteq> bits (sfs_freemap s') \<and> (\<forall>b\<in>own ?dk m j. ?dk' b = ?dk b) \<and> own ?dk' n i \<inter> own ?dk m j = {}"
      if "m \<noteq> n" "N m = Some j" for m j
      using other [OF that] inode_okD(6) [OF fs_okD(3) [OF ok that(2)]] d own_cong [OF ptr, of n]
        fs_okD(4) [OF ok fs_atD(3) [OF at] that(2)] that(1) by simp
    show "inode_ok (bits (sfs_freemap s')) (sp_nblocks (sfs_super s')) ?dk' n i"
      using io d ptr own_cong [OF ptr, of n] by (simp add: inode_ok_def)
    show "sv_dirty v \<or> ?dk' n = enc_inode i"
      using heap_okD(2) [OF fs_okD(2) [OF ok] v(1)] v ne by (auto simp: dk')
  qed
  then have "fs_at din sc ns (N(n \<mapsto> i)) n p i s'"
    using d v by (simp add: fs_at_def)
  moreover have "file_frame sc N n p s s'"
  proof (rule file_frameI [OF v(1) heap])
    show "same_vn v v" "same_fs s s'" using d by (simp_all add: same_vn_def same_fs_def)
    show "?dk' c = ?dk c" if "c \<in> sys_blocks (sp_nblocks (sfs_super s))" for c
      using that iD(8) bo by (auto simp: dk')
  qed (use other in blast)
  ultimately show "file_step din sc ns N n p s i s'" by (simp add: file_step_def)
  have map: "bmap_of ?dk' i k' = bmap_of ?dk i k'" for k' using bmap_of_cong [OF ptr iD(2)] .
  show "fblk ?dk' i k' = (if k' = k then bs else fblk ?dk i k')"
    unfolding fblk_def map using bmap_of_inj [OF io b(3), of k'] b(1,2) by (auto simp: dk')
qed

text \<open>From one state to another the bytes \<open>bs\<close> were stored at offset \<open>x\<close> of the file.\<close>

definition wrote :: "(nat \<Rightarrow> byte list) \<Rightarrow> sfs_inode \<Rightarrow> nat \<Rightarrow> byte list \<Rightarrow> (nat \<Rightarrow> byte list) \<Rightarrow> sfs_inode \<Rightarrow> bool" where
  "wrote dk i x bs dk' i' \<longleftrightarrow>
     (\<forall>y. fbyte dk' i' y = (if x \<le> y \<and> y < x + length bs then bs ! (y - x) else fbyte dk i y))"

lemma wrote_Nil: "wrote dk i x [] dk' i' \<longleftrightarrow> (\<forall>y. fbyte dk' i' y = fbyte dk i y)"
  by (auto simp: wrote_def)

lemma wrote_append:
  assumes "wrote dk i x bs dk1 i1" "wrote dk1 i1 (x + length bs) cs dk2 i2"
  shows "wrote dk i x (bs @ cs) dk2 i2"
  using assms by (auto simp: wrote_def nth_append)

lemma wrote_block:
  assumes "\<And>k. fblk dk' i' k = (if k = x div 512 then take (x mod 512) (fblk dk i k) @ bs @
      drop (x mod 512 + length bs) (fblk dk i k) else fblk dk i k)"
    and "x mod 512 + length bs \<le> 512" "length (fblk dk i (x div 512)) = 512"
  shows "wrote dk i x bs dk' i'"
  unfolding wrote_def
proof
  fix y
  let ?m = "x mod 512" and ?n = "length bs"
  show "fbyte dk' i' y = (if x \<le> y \<and> y < x + ?n then bs ! (y - x) else fbyte dk i y)"
  proof (cases "y div 512 = x div 512")
    case True
    have "x = 512 * (x div 512) + x mod 512" "y = 512 * (y div 512) + y mod 512" by simp_all
    then have r: "x \<le> y \<longleftrightarrow> ?m \<le> y mod 512" "y < x + ?n \<longleftrightarrow> y mod 512 < ?m + ?n" "y - x = y mod 512 - ?m"
      using True by linarith+
    show ?thesis
      using assms True by (auto simp: fbyte_def r nth_append min_absorb1)
  next
    case False
    have "\<not> (x \<le> y \<and> y < x + ?n)"
    proof
      assume y: "x \<le> y \<and> y < x + ?n"
      then have "?m + (y - x) < 512" using assms(2) by linarith
      then show False using block_offset(1) [of x "y - x"] y False by simp
    qed
    then show ?thesis using assms(1) False by (auto simp: fbyte_def)
  qed
qed

section \<open>One block\<close>

text \<open>A step that only read, and a step that stored \<open>bs\<close> at offset \<open>x\<close>.\<close>

definition rd_step :: "('d \<Rightarrow> bool) \<Rightarrow> ('d \<Rightarrow> nat \<Rightarrow> byte list) \<Rightarrow> nat \<Rightarrow> (nat \<rightharpoonup> sfs_inode) \<Rightarrow> nat \<Rightarrow> nat
    \<Rightarrow> sfs_inode \<Rightarrow> 'd sfs_fs \<Rightarrow> 'd sfs_fs \<Rightarrow> bool" where
  "rd_step din sc ns N n p i s s' \<longleftrightarrow> keeps din sc ns N n p i s i s' \<and> sc (sfs_device s') = sc (sfs_device s)"

definition wr_step :: "('d \<Rightarrow> bool) \<Rightarrow> ('d \<Rightarrow> nat \<Rightarrow> byte list) \<Rightarrow> nat \<Rightarrow> (nat \<rightharpoonup> sfs_inode) \<Rightarrow> nat \<Rightarrow> nat
    \<Rightarrow> sfs_inode \<Rightarrow> 'd sfs_fs \<Rightarrow> nat \<Rightarrow> byte list \<Rightarrow> sfs_inode \<Rightarrow> 'd sfs_fs \<Rightarrow> bool" where
  "wr_step din sc ns N n p i s x bs i' s' \<longleftrightarrow> file_step din sc ns N n p s i' s' \<and> same_meta i i' \<and>
     wrote (sc (sfs_device s)) i x bs (sc (sfs_device s')) i'"

lemma rd_step_at: "fs_at din sc ns N n p i s \<Longrightarrow> rd_step din sc ns N n p i s s' \<Longrightarrow> fs_at din sc ns N n p i s'"
  using keeps_at [of din sc ns N n p i s i s'] fs_atD(4) [of din sc ns N n p i s] by (simp add: rd_step_def)

lemma rd_step_refl: "fs_at din sc ns N n p i s \<Longrightarrow> rd_step din sc ns N n p i s s"
  by (simp add: rd_step_def keeps_refl)

lemma rd_step_trans:
  assumes "fs_at din sc ns N n p i s" "rd_step din sc ns N n p i s s1" "rd_step din sc ns N n p i s1 s2"
  shows "rd_step din sc ns N n p i s s2"
  using assms keeps_trans [of din sc ns N n p i s i s1 i s2] fs_atD(4) [OF assms(1)] by (simp add: rd_step_def)

lemma rd_step_dev: "fs_at din sc ns N n p i s \<Longrightarrow> dev_step din sc (\<lambda>f. f) s s' \<Longrightarrow> rd_step din sc ns N n p i s s'"
  using dev_stepD(2) [of din sc "\<lambda>f. f" s s'] by (simp add: rd_step_def keeps_read)

lemma keeps_wr: "keeps din sc ns N n p i s i' s' \<Longrightarrow> wr_step din sc ns N n p i s x [] i' s'"
  by (auto simp: wr_step_def keeps_def wrote_Nil fbyte_def)

lemma wr_step_at: "wr_step din sc ns N n p i s x bs i' s' \<Longrightarrow> fs_at din sc ns (N(n \<mapsto> i')) n p i' s'"
  by (simp add: wr_step_def file_step_def)

lemma wr_step_trans:
  assumes "wr_step din sc ns N n p i s x bs i1 s1" "wr_step din sc ns (N(n \<mapsto> i1)) n p i1 s1 (x + length bs) cs i2 s2"
  shows "wr_step din sc ns N n p i s x (bs @ cs) i2 s2"
  using assms unfolding wr_step_def by (auto intro: file_step_trans same_meta_trans wrote_append)

lemma file_block: "x < 73216 \<Longrightarrow> i2u32 (cdiv (int x) (int SFS_BLOCKSIZE)) = x div 512" "x < 73216 \<Longrightarrow> x div 512 < 143"
  by (simp_all only: cdiv_nat SFS_BLOCKSIZE_def) auto

lemma partialio_start:
  assumes "uio_offset u = int x" "x < 73216" "x mod 512 + len \<le> 512"
  shows "wpK (sfs_partialio dv p (x mod 512) len) Q E (s, u) =
    wpK (sfs_bmap dv p (x div 512) (uio_rw u = UIO_WRITE))
      (\<lambda>b s1. wpK (bindK (if b = 0 then bindK (assertK (uio_rw u = UIO_READ)) (\<lambda>_. retK (replicate 512 0))
                           else on_fst (sfs_rblock dv b)) (\<lambda>iobuf.
                   bindK (on_uio (uiomove (drop (x mod 512) iobuf) len)) (\<lambda>ptr.
                     if uio_rw u = UIO_WRITE then on_fst (sfs_wblock dv (take (x mod 512) iobuf @ ptr) b)
                     else retK ()))) Q E (s1, u))
      (\<lambda>e s1. E e (s1, u)) s"
proof -
  have "u32 (x mod 512 + len) \<le> SFS_BLOCKSIZE" using assms(3) by (simp add: SFS_BLOCKSIZE_def)
  then show ?thesis
    unfolding sfs_partialio_def wp_bind wp_on_uio wp_on_fst wp_get wp_assert fst_conv snd_conv assms(1)
      file_block(1) [OF assms(2)] by simp
qed

text \<open>
  What a read of \<open>len\<close> bytes at \<open>x\<close> leaves behind, and what a write does, completely or up to
  some point.
\<close>

definition rd_done :: "('d \<Rightarrow> bool) \<Rightarrow> ('d \<Rightarrow> nat \<Rightarrow> byte list) \<Rightarrow> nat \<Rightarrow> (nat \<rightharpoonup> sfs_inode) \<Rightarrow> nat \<Rightarrow> nat
    \<Rightarrow> sfs_inode \<Rightarrow> 'd sfs_fs \<Rightarrow> nat \<Rightarrow> nat \<Rightarrow> uio \<Rightarrow> 'd sfs_fs \<times> uio \<Rightarrow> bool" where
  "rd_done din sc ns N n p i s x len u y \<longleftrightarrow> rd_step din sc ns N n p i s (fst y) \<and>
     snd y = uio_put (fbytes (sc (sfs_device s)) i x len) u"

definition rd_part :: "('d \<Rightarrow> bool) \<Rightarrow> ('d \<Rightarrow> nat \<Rightarrow> byte list) \<Rightarrow> nat \<Rightarrow> (nat \<rightharpoonup> sfs_inode) \<Rightarrow> nat \<Rightarrow> nat
    \<Rightarrow> sfs_inode \<Rightarrow> 'd sfs_fs \<Rightarrow> errno \<Rightarrow> 'd sfs_fs \<times> uio \<Rightarrow> bool" where
  "rd_part din sc ns N n p i s e y \<longleftrightarrow> e \<in> {EIO, EFAULT} \<and> rd_step din sc ns N n p i s (fst y) \<and>
     uio_rw (snd y) = UIO_READ"

definition wr_done :: "('d \<Rightarrow> bool) \<Rightarrow> ('d \<Rightarrow> nat \<Rightarrow> byte list) \<Rightarrow> nat \<Rightarrow> (nat \<rightharpoonup> sfs_inode) \<Rightarrow> nat \<Rightarrow> nat
    \<Rightarrow> sfs_inode \<Rightarrow> 'd sfs_fs \<Rightarrow> nat \<Rightarrow> nat \<Rightarrow> uio \<Rightarrow> 'd sfs_fs \<times> uio \<Rightarrow> bool" where
  "wr_done din sc ns N n p i s x len u y \<longleftrightarrow>
     (\<exists>i'. wr_step din sc ns N n p i s x (uio_next len u) i' (fst y)) \<and> snd y = uio_skip len u"

definition wr_part :: "('d \<Rightarrow> bool) \<Rightarrow> ('d \<Rightarrow> nat \<Rightarrow> byte list) \<Rightarrow> nat \<Rightarrow> (nat \<rightharpoonup> sfs_inode) \<Rightarrow> nat \<Rightarrow> nat
    \<Rightarrow> sfs_inode \<Rightarrow> 'd sfs_fs \<Rightarrow> nat \<Rightarrow> nat \<Rightarrow> uio \<Rightarrow> errno \<Rightarrow> 'd sfs_fs \<times> uio \<Rightarrow> bool" where
  "wr_part din sc ns N n p i s x len u e y \<longleftrightarrow> e \<in> {ENOSPC, EIO, EFAULT} \<and>
     (\<exists>d i'. d < len \<and> (d = 0 \<or> (x + d) mod 512 = 0) \<and> wr_step din sc ns N n p i s x (uio_next d u) i' (fst y) \<and>
        uio_rw (snd y) = UIO_WRITE \<and> uio_resid (snd y) = uio_resid u - d \<and> uio_offset (snd y) = int (x + d))"

lemma uio_next_length [simp]: "length (uio_next n u) = n"
  by (simp add: uio_next_def)

lemma uio_next_0 [simp]: "uio_next 0 u = []"
  by (simp add: uio_next_def get_at_def)

lemma uio_next_add: "uio_next (a + b) u = uio_next a u @ uio_next b (uio_skip a u)"
  by (rule nth_equalityI) (auto simp: uio_next_def get_at_def nth_append)

text \<open>The descriptor with the offset on the disk and a residue of one block, and its restoration.\<close>

definition disk_uio :: "nat \<Rightarrow> uio \<Rightarrow> uio" where
  "disk_uio b u = u\<lparr>uio_offset := int (b * 512), uio_resid := 512\<rparr>"

definition file_uio :: "nat \<Rightarrow> uio \<Rightarrow> uio \<Rightarrow> uio" where
  "file_uio b u u' = u'\<lparr>uio_offset := s32 (uio_offset u' - int (b * 512) + uio_offset u),
     uio_resid := u32 (uio_resid u' + 4294967296 - SFS_BLOCKSIZE + uio_resid u)\<rparr>"

lemma disk_uio_simps [simp]:
  "uio_rw (disk_uio b u) = uio_rw u" "uio_offset (disk_uio b u) = int (b * 512)" "uio_resid (disk_uio b u) = 512"
  "uio_next k (disk_uio b u) = uio_next k u" "uio_segflg (disk_uio b u) = uio_segflg u"
  by (simp_all add: disk_uio_def uio_next_def)

lemma disk_uio_ok: "uio_ok u \<Longrightarrow> 512 \<le> uio_resid u \<Longrightarrow> b < 4194304 \<Longrightarrow> uio_ok (disk_uio b u)"
  by (auto simp: uio_ok_def disk_uio_def)

lemma file_uio_skip:
  assumes "uio_ok u" "512 \<le> uio_resid u"
  shows "file_uio b u (uio_skip 512 (disk_uio b u)) = uio_skip 512 u"
proof -
  have "s32 (s32 (int (b * 512) + 512) - int (b * 512) + uio_offset u) = s32 (uio_offset u + 512)"
    using s32_add_s32 [of "int (b * 512) + 512" "uio_offset u - int (b * 512)"] by (simp add: algebra_simps)
  moreover have "u32 (4294967296 - 512 + uio_resid u) = uio_resid u - 512"
    using assms mod_add_self1 [of 4294967296 "uio_resid u - 512"] by (auto simp: u32_def uio_ok_def)
  ultimately show ?thesis
    by (simp add: file_uio_def disk_uio_def uio_skip_def SFS_BLOCKSIZE_def)
qed

lemma file_uio_put:
  assumes "uio_ok u" "512 \<le> uio_resid u" "length bs = 512"
  shows "file_uio b u (uio_put bs (disk_uio b u)) = uio_put bs u"
proof -
  let ?u = "u\<lparr>uio_mem := (uio_mem u)\<lparr>m_byte := put_at (iov_base u) bs (m_byte (uio_mem u))\<rparr>\<rparr>"
  have "uio_put bs (disk_uio b u) = uio_skip 512 (disk_uio b ?u)" "uio_put bs u = uio_skip 512 ?u"
    using assms(3) by (simp_all add: uio_put_def disk_uio_def)
  moreover have "file_uio b u w = file_uio b ?u w" for w by (simp add: file_uio_def)
  moreover have "uio_ok ?u" using assms(1) by (simp add: uio_ok_def)
  ultimately show ?thesis using file_uio_skip [of ?u b] assms(2) by simp
qed

lemma file_uio_fail:
  assumes "uio_ok u" "uio_offset u' = uio_offset (disk_uio b u)" "uio_resid u' = uio_resid (disk_uio b u)"
  shows "uio_offset (file_uio b u u') = uio_offset u" "uio_resid (file_uio b u u') = uio_resid u"
proof -
  have "u32 (4294967296 + uio_resid u) = uio_resid u"
    using assms(1) by (auto simp: u32_def uio_ok_def)
  then show "uio_resid (file_uio b u u') = uio_resid u" using assms by (simp add: file_uio_def SFS_BLOCKSIZE_def)
  show "uio_offset (file_uio b u u') = uio_offset u" using assms by (simp add: file_uio_def uio_ok_def)
qed

lemma file_uio_rw [simp]: "uio_rw (file_uio b u u') = uio_rw u'"
  by (simp add: file_uio_def)

lemma blockio_start:
  assumes "uio_offset u = int x" "x < 73216" "512 \<le> uio_resid u"
  shows "wpK (sfs_blockio dv p) Q E (s, u) =
    wpK (sfs_bmap dv p (x div 512) (uio_rw u = UIO_WRITE))
      (\<lambda>b s1. if b = 0 then uio_rw u = UIO_READ \<and> wpK (on_uio (uiomovezeros 512)) Q E (s1, u)
        else wpK (sfs_rwblock dv) (\<lambda>a y. Q a (fst y, (snd y)\<lparr>uio_offset := s32 (uio_offset (snd y) - s32 (int (u32 (b * 512))) + uio_offset u),
               uio_resid := u32 (uio_resid (snd y) + 4294967296 - SFS_BLOCKSIZE + uio_resid u)\<rparr>))
          (\<lambda>e y. E e (fst y, (snd y)\<lparr>uio_offset := s32 (uio_offset (snd y) - s32 (int (u32 (b * 512))) + uio_offset u),
               uio_resid := u32 (uio_resid (snd y) + 4294967296 - SFS_BLOCKSIZE + uio_resid u)\<rparr>))
          (s1, u\<lparr>uio_offset := s32 (int (u32 (b * 512))), uio_resid := 512\<rparr>))
      (\<lambda>e s1. E e (s1, u)) s"
  unfolding sfs_blockio_def wp_bind wp_on_uio wp_on_fst wp_get wp_if wp_assert wp_mod wp_try wp_result_Inl
    wp_result_Inr Let_def fst_conv snd_conv assms(1) file_block(1) [OF assms(2)]
  using assms(3) by (simp add: SFS_BLOCKSIZE_def cong: if_cong)

lemma rd_done_trans:
  assumes "fs_at din sc ns N n p i s" "rd_done din sc ns N n p i s x a u y1"
    "rd_done din sc ns N n p i (fst y1) (x + a) b (snd y1) y2"
  shows "rd_done din sc ns N n p i s x (a + b) u y2"
proof -
  have "sc (sfs_device (fst y1)) = sc (sfs_device s)" using assms(2) by (simp add: rd_done_def rd_step_def)
  then show ?thesis
    using assms rd_step_trans [OF assms(1), of "fst y1" "fst y2"] by (simp add: rd_done_def uio_put_append fbytes_append)
qed

lemma rd_part_trans:
  "fs_at din sc ns N n p i s \<Longrightarrow> rd_done din sc ns N n p i s x a u y1 \<Longrightarrow>
     rd_part din sc ns N n p i (fst y1) e y2 \<Longrightarrow> rd_part din sc ns N n p i s e y2"
  using rd_step_trans [of din sc ns N n p i s "fst y1" "fst y2"] by (simp add: rd_done_def rd_part_def)

lemma wr_step_next:
  assumes "wr_step din sc ns N n p i s x (uio_next a u) i1 s1"
    "wr_step din sc ns (N(n \<mapsto> i1)) n p i1 s1 (x + a) (uio_next d (uio_skip a u)) i2 s2"
  shows "wr_step din sc ns N n p i s x (uio_next (a + d) u) i2 s2"
  using wr_step_trans [OF assms(1)] assms(2) by (simp add: uio_next_add)

lemma wr_part_mono: "wr_part din sc ns N n p i s x a u e y \<Longrightarrow> wr_part din sc ns N n p i s x (a + b) u e y"
  unfolding wr_part_def by (elim conjE exE, intro conjI exI) (assumption | erule trans_less_add1)+

lemma wr_partE:
  assumes "wr_part din sc ns N n p i s x len u e y"
  obtains d i' where "d < len" "d = 0 \<or> (x + d) mod 512 = 0" "wr_step din sc ns N n p i s x (uio_next d u) i' (fst y)"
    "uio_rw (snd y) = UIO_WRITE" "uio_resid (snd y) = uio_resid u - d" "uio_offset (snd y) = int (x + d)"
    "e \<in> {ENOSPC, EIO, EFAULT}"
  using assms unfolding wr_part_def by (elim conjE exE) (rule that, assumption+)

lemma wr_part_next:
  assumes "wr_step din sc ns N n p i s x (uio_next a u) i1 s1" "(x + a) mod 512 = 0"
    "wr_part din sc ns (N(n \<mapsto> i1)) n p i1 s1 (x + a) b (uio_skip a u) e y"
  shows "wr_part din sc ns N n p i s x (a + b) u e y"
proof -
  obtain d i2 where "d < b" "d = 0 \<or> (x + a + d) mod 512 = 0"
      "wr_step din sc ns (N(n \<mapsto> i1)) n p i1 s1 (x + a) (uio_next d (uio_skip a u)) i2 (fst y)"
      "uio_rw (snd y) = UIO_WRITE" "uio_resid (snd y) = uio_resid u - a - d" "uio_offset (snd y) = int (x + a + d)"
      "e \<in> {ENOSPC, EIO, EFAULT}"
    using assms(3) by (rule wr_partE) (unfold uio_skip_simps, rule that)
  then show ?thesis
    unfolding wr_part_def using wr_step_next [OF assms(1)] assms(2)
    by (intro conjI exI [of _ "a + d"] exI [of _ i2]) (auto simp: add.assoc)
qed

context sfs_disk begin

lemma fblk_len:
  assumes "fs_at dinv sec nsec N n p i s"
  shows "length (fblk (sec (sfs_device s)) i k) = 512"
proof (cases "bmap_of (sec (sfs_device s)) i k = 0")
  case False
  then have k: "k < 143" using bmap_of_0 [of k] by (meson not_le)
  note iD = inode_okD [OF fs_atD(6) [OF assms]]
  have "bmap_of (sec (sfs_device s)) i k < nsec"
    using bmap_of_own [OF iD(2) k False, of n] iD(7) fs_atD(7) [OF assms] by (auto simp: map_ok_def)
  then show ?thesis using False sec_len [OF fs_atD(1) [OF assms]] by (simp add: fblk_def)
qed (simp add: fblk_def)

lemma mapped_block:
  assumes "fs_at dinv sec nsec N n p i s" "bmap_of (sec (sfs_device s)) i k = b" "b \<noteq> 0"
  shows "b < nsec" "k < 143" "fblk (sec (sfs_device s)) i k = sec (sfs_device s) b"
proof -
  show k: "k < 143" using assms bmap_of_0 [of k] by (metis not_le)
  note iD = inode_okD [OF fs_atD(6) [OF assms(1)]]
  show "b < nsec"
    using bmap_of_own [OF iD(2) k, of "sec (sfs_device s)" n] assms(2,3) iD(7) fs_atD(7) [OF assms(1)]
    by (auto simp: map_ok_def)
  show "fblk (sec (sfs_device s)) i k = sec (sfs_device s) b" using assms by (simp add: fblk_def)
qed

lemma partialio_read:
  assumes at: "fs_at dinv sec nsec N n p i s" and u: "uio_ok u" "uio_rw u = UIO_READ" "uio_offset u = int x"
    and x: "x < 73216" "x mod 512 + len \<le> 512" "0 < len" "len \<le> uio_resid u"
  shows "wpK (sfs_partialio dv p (x mod 512) len)
     (\<lambda>_. rd_done dinv sec nsec N n p i s x len u) (rd_part dinv sec nsec N n p i s) (s, u)"
    (is "wpK _ ?Q ?E _")
proof -
  let ?dk = "sec (sfs_device s)" and ?b = "fblk (sec (sfs_device s)) i (x div 512)"
  have rw: "(uio_rw u = UIO_WRITE) = False" using u(2) by simp
  have len: "len \<le> length (drop (x mod 512) ?b)" using fblk_len [OF at] x(2) by simp
  have mv: "wpK (bindK (on_uio (uiomove (drop (x mod 512) ?b) len)) (\<lambda>ptr. retK ())) ?Q ?E (s', u)"
    if "rd_step dinv sec nsec N n p i s s'" for s'
    unfolding wp_bind wp_on_uio wp_ret fst_conv snd_conv
    by (rule wp_mono [OF uiomove_read [OF u(1,2) x(4) len x(3)]])
      (use that u(2) fbytes_block [OF x(2) fblk_len [OF at]] in \<open>auto simp: uio_faulted_def rd_done_def rd_part_def\<close>)
  show ?thesis
    unfolding partialio_start [OF u(3) x(1,2)] rw if_False
  proof (rule wp_mono [OF bmap_wp [OF at file_block(2) [OF x(1)]]])
    fix b s1
    assume "\<exists>i'. keeps dinv sec nsec N n p i s i' s1 \<and> bmap_of (sec (sfs_device s1)) i' (x div 512) = b \<and>
       (False \<longrightarrow> b \<noteq> 0) \<and> (\<not> False \<longrightarrow> i' = i \<and> sec (sfs_device s1) = ?dk)"
    then have s1: "rd_step dinv sec nsec N n p i s s1" "bmap_of ?dk i (x div 512) = b" by (auto simp: rd_step_def)
    show "wpK (bindK (if b = 0 then bindK (assertK (uio_rw u = UIO_READ)) (\<lambda>_. retK (replicate 512 0))
                else on_fst (sfs_rblock dv b)) (\<lambda>iobuf.
              bindK (on_uio (uiomove (drop (x mod 512) iobuf) len)) (\<lambda>ptr. retK ()))) ?Q ?E (s1, u)"
    proof (cases "b = 0")
      case True
      then have "?b = replicate 512 0" using s1(2) by (simp add: fblk_def)
      with mv [OF s1(1)] True u(2) show ?thesis by (simp only: wp) simp
    next
      case False
      note b = mapped_block [OF at s1(2) False] and at1 = rd_step_at [OF at s1(1)]
      have dk1: "sec (sfs_device s1) = ?dk" using s1(1) by (simp add: rd_step_def)
      show ?thesis
        unfolding if_not_P [OF False] wp_bind wp_on_fst fst_conv snd_conv
      proof (rule wp_mono [OF rblock_wp [OF fs_atD(1) [OF at1] b(1)]])
        fix iobuf s2
        assume "iobuf = sec (sfs_device s1) b \<and> dev_step dinv sec (\<lambda>f. f) s1 s2"
        then have s2: "iobuf = ?b" "rd_step dinv sec nsec N n p i s s2"
          using dk1 b(3) rd_step_trans [OF at s1(1) rd_step_dev [OF at1]] by auto
        show "wpK (on_uio (uiomove (drop (x mod 512) iobuf) len)) (\<lambda>a. wpK (retK ()) ?Q ?E) ?E (s2, u)"
          using mv [OF s2(2)] unfolding s2(1) wp_bind .
      next
        fix e s2
        assume "e = EIO \<and> dev_step dinv sec (\<lambda>f. f) s1 s2"
        then show "?E e (s2, u)" using rd_step_trans [OF at s1(1) rd_step_dev [OF at1]] u(2) by (auto simp: rd_part_def)
      qed
    qed
  qed (use u(2) in \<open>auto simp: rd_step_def rd_part_def\<close>)
qed

text \<open>The block that was mapped, or newly allocated, is overwritten with part of it replaced.\<close>

lemma write_block_step:
  assumes k1: "keeps dinv sec nsec N n p i s i1 s1" and b: "bmap_of (sec (sfs_device s1)) i1 (x div 512) = b" "b \<noteq> 0"
    and x: "x mod 512 + length bs \<le> 512" and rd: "rd_step dinv sec nsec (N(n \<mapsto> i1)) n p i1 s1 s2"
    and w: "dev_step dinv sec (\<lambda>f. f(b := take (x mod 512) (sec (sfs_device s1) b) @ bs @
      drop (x mod 512 + length bs) (sec (sfs_device s1) b))) s2 s'"
  shows "wr_step dinv sec nsec N n p i s x bs i1 s'"
proof -
  note at1 = keeps_at [OF k1]
  note at2 = rd_step_at [OF at1 rd] and m = mapped_block [OF at1 b]
  have dk: "sec (sfs_device s2) = sec (sfs_device s1)" using rd by (simp add: rd_step_def)
  note wd = write_data [OF at2 _ b(2) m(2) w, unfolded dk, OF b(1)]
  have "wrote (sec (sfs_device s1)) i1 x bs (sec (sfs_device s')) i1"
    by (rule wrote_block [OF _ x fblk_len [OF at1]]) (simp add: wd(2) m(3))
  then have "wr_step dinv sec nsec (N(n \<mapsto> i1)) n p i1 s1 x bs i1 s'"
    using file_step_trans [of dinv sec nsec "N(n \<mapsto> i1)" n p s1 i1 s2 i1 s'] rd wd(1)
    by (simp add: wr_step_def rd_step_def keeps_def)
  then show ?thesis using wr_step_trans [OF keeps_wr [OF k1, of x]] by simp
qed

lemma partialio_write:
  assumes at: "fs_at dinv sec nsec N n p i s" and u: "uio_ok u" "uio_rw u = UIO_WRITE" "uio_offset u = int x"
    and x: "x < 73216" "x mod 512 + len \<le> 512" "0 < len" "len \<le> uio_resid u"
  shows "wpK (sfs_partialio dv p (x mod 512) len)
     (\<lambda>_. wr_done dinv sec nsec N n p i s x len u) (wr_part dinv sec nsec N n p i s x len u) (s, u)"
    (is "wpK _ ?Q ?E _")
proof -
  have rw: "(uio_rw u = UIO_WRITE) = True" using u(2) by simp
  have fail: "?E e (s', u')" if "keeps dinv sec nsec N n p i s i' s'" "e \<in> {ENOSPC, EIO, EFAULT}"
      "u' = u \<or> uio_faulted u u'" for e s' i' u'
    unfolding wr_part_def using that keeps_wr [OF that(1), of x] u x(3)
    by (intro conjI exI [of _ 0] exI [of _ i']) (auto simp: uio_faulted_def)
  show ?thesis
    unfolding partialio_start [OF u(3) x(1,2)] rw if_True
  proof (rule wp_mono [OF bmap_wp [OF at file_block(2) [OF x(1)]]])
    fix b s1
    assume "\<exists>i'. keeps dinv sec nsec N n p i s i' s1 \<and> bmap_of (sec (sfs_device s1)) i' (x div 512) = b \<and>
       (True \<longrightarrow> b \<noteq> 0) \<and> (\<not> True \<longrightarrow> i' = i \<and> sec (sfs_device s1) = sec (sfs_device s))"
    then obtain i1 where k1: "keeps dinv sec nsec N n p i s i1 s1" and
      b: "bmap_of (sec (sfs_device s1)) i1 (x div 512) = b" "b \<noteq> 0" by auto
    note at1 = keeps_at [OF k1]
    note m = mapped_block [OF at1 b]
    have len: "length (sec (sfs_device s1) b) = 512" using fblk_len [OF at1, of "x div 512"] m(3) by simp
    show "wpK (bindK (if b = 0 then bindK (assertK (uio_rw u = UIO_READ)) (\<lambda>_. retK (replicate 512 0))
                else on_fst (sfs_rblock dv b)) (\<lambda>iobuf.
              bindK (on_uio (uiomove (drop (x mod 512) iobuf) len)) (\<lambda>ptr.
                on_fst (sfs_wblock dv (take (x mod 512) iobuf @ ptr) b)))) ?Q ?E (s1, u)"
      unfolding if_not_P [OF b(2)] wp_bind wp_on_fst wp_on_uio fst_conv snd_conv
    proof (rule wp_mono [OF rblock_wp [OF fs_atD(1) [OF at1] m(1)]])
      fix iobuf s2
      assume "iobuf = sec (sfs_device s1) b \<and> dev_step dinv sec (\<lambda>f. f) s1 s2"
      then have io: "iobuf = sec (sfs_device s1) b" and s2: "rd_step dinv sec nsec (N(n \<mapsto> i1)) n p i1 s1 s2"
        using rd_step_dev [OF at1] by auto
      have k2: "keeps dinv sec nsec N n p i s i1 s2" using keeps_trans [OF k1] s2 by (simp add: rd_step_def)
      have l2: "len \<le> length (drop (x mod 512) iobuf)" using io len x(2) by simp
      show "wpK (uiomove (drop (x mod 512) iobuf) len) (\<lambda>ptr u'. wpK (sfs_wblock dv (take (x mod 512) iobuf @ ptr) b)
          (\<lambda>a s'. ?Q a (s', u')) (\<lambda>e s'. ?E e (s', u')) s2) (\<lambda>e u'. ?E e (s2, u')) u"
      proof (rule wp_mono [OF uiomove_write [OF u(1,2) x(4) l2 x(3)]])
        fix ptr u'
        assume pu: "ptr = uio_next len u @ drop len (drop (x mod 512) iobuf) \<and> u' = uio_skip len u"
        have "length (take (x mod 512) iobuf @ ptr) = 512" using pu io len x(2) by simp
        then show "wpK (sfs_wblock dv (take (x mod 512) iobuf @ ptr) b) (\<lambda>a s'. ?Q a (s', u')) (\<lambda>e s'. ?E e (s', u')) s2"
        proof (rule wp_mono [OF wblock_wp [OF fs_atD(1) [OF keeps_at [OF k2]] m(1)]])
          fix a s'
          assume "dev_step dinv sec (\<lambda>f. f(b := take (x mod 512) iobuf @ ptr)) s2 s'"
          then show "?Q a (s', u')"
            using write_block_step [OF k1 b _ s2, of "uio_next len u" s'] x(2) pu io
            by (auto simp: wr_done_def add.commute)
        qed simp
      qed (use fail [OF k2] in auto)
    next
      fix e s2
      assume "e = EIO \<and> dev_step dinv sec (\<lambda>f. f) s1 s2"
      then show "?E e (s2, u)"
        using fail [OF keeps_trans [OF k1, of i1 s2]] rd_step_dev [OF at1, of s2] by (auto simp: rd_step_def)
    qed
  qed (use fail in auto)
qed

end

end
