(* ===== verification/SFS_Rw.thy ===== *)
theory SFS_Rw
  imports SFS_File
begin

text \<open>
  \<^verbatim>\<open>sfs_io\<close>, and with it \<^verbatim>\<open>sfs_read\<close> and \<^verbatim>\<open>sfs_write\<close>: whole blocks, then the composition of a leading
  partial block, whole blocks and a trailing partial block.
\<close>

section \<open>Whole blocks\<close>

context sfs_disk begin

lemma blockio_mapped:
  assumes b: "b < nsec"
  shows "s32 (int (u32 (b * 512))) = int (b * 512)" "b < 4194304"
  using assms nsec_bound by auto

lemma blockio_read:
  assumes at: "fs_at dinv sec nsec N n p i s" and u: "uio_ok u" "uio_rw u = UIO_READ" "uio_offset u = int x"
    and x: "x < 73216" "x mod 512 = 0" "512 \<le> uio_resid u"
  shows "wpK (sfs_blockio dv p)
     (\<lambda>_. rd_done dinv sec nsec N n p i s x 512 u) (rd_part dinv sec nsec N n p i s) (s, u)"
    (is "wpK _ ?Q ?E _")
proof -
  let ?dk = "sec (sfs_device s)" and ?b = "fblk (sec (sfs_device s)) i (x div 512)"
  have rw: "(uio_rw u = UIO_WRITE) = False" using u(2) by simp
  have fb: "fbytes ?dk i x 512 = ?b" using fbytes_block [OF _ fblk_len [OF at], of x 512] fblk_len [OF at] x(2) by simp
  show ?thesis
    unfolding blockio_start [OF u(3) x(1,3)] rw
  proof (rule wp_mono [OF bmap_wp [OF at file_block(2) [OF x(1)]]])
    fix b s1
    assume "\<exists>i'. keeps dinv sec nsec N n p i s i' s1 \<and> bmap_of (sec (sfs_device s1)) i' (x div 512) = b \<and>
       (False \<longrightarrow> b \<noteq> 0) \<and> (\<not> False \<longrightarrow> i' = i \<and> sec (sfs_device s1) = ?dk)"
    then have s1: "rd_step dinv sec nsec N n p i s s1" "bmap_of ?dk i (x div 512) = b" "sec (sfs_device s1) = ?dk"
      by (auto simp: rd_step_def)
    show "if b = 0 then uio_rw u = UIO_READ \<and> wpK (on_uio (uiomovezeros 512)) ?Q ?E (s1, u)
        else wpK (sfs_rwblock dv) (\<lambda>a y. ?Q a (fst y, (snd y)\<lparr>uio_offset := s32 (uio_offset (snd y) - s32 (int (u32 (b * 512))) + uio_offset u),
               uio_resid := u32 (uio_resid (snd y) + 4294967296 - SFS_BLOCKSIZE + uio_resid u)\<rparr>))
          (\<lambda>e y. ?E e (fst y, (snd y)\<lparr>uio_offset := s32 (uio_offset (snd y) - s32 (int (u32 (b * 512))) + uio_offset u),
               uio_resid := u32 (uio_resid (snd y) + 4294967296 - SFS_BLOCKSIZE + uio_resid u)\<rparr>))
          (s1, u\<lparr>uio_offset := s32 (int (u32 (b * 512))), uio_resid := 512\<rparr>)"
    proof (cases "b = 0")
      case True
      then have "?b = replicate 512 0" using s1(2) by (simp add: fblk_def)
      then have "wpK (on_uio (uiomovezeros 512)) ?Q ?E (s1, u)"
        unfolding wp_on_uio fst_conv snd_conv
        by (intro wp_mono [OF uiomovezeros_wp [OF u(1,2) x(3)]])
          (use s1(1) fb in \<open>auto simp: rd_done_def rd_part_def\<close>)
      with True u(2) show ?thesis by simp
    next
      case False
      note b = mapped_block [OF at s1(2) False] and at1 = rd_step_at [OF at s1(1)]
      note b' = blockio_mapped [OF b(1)]
      have len: "length (?dk b) = 512" using fblk_len [OF at, of "x div 512"] b(3) by simp
      have "wpK (sfs_rwblock dv) (\<lambda>a y. ?Q a (fst y, file_uio b u (snd y)))
          (\<lambda>e y. ?E e (fst y, file_uio b u (snd y))) (s1, disk_uio b u)"
        unfolding sfs_rwblock_def
      proof (rule wp_mono [OF rwblock_read [OF fs_atD(1) [OF at1] disk_uio_ok [OF u(1) x(3) b'(2)] _ _ _ b(1)]])
        fix a y
        assume "case y of (s', u') \<Rightarrow> dev_step dinv sec (\<lambda>f. f) s1 s' \<and> u' = uio_put (sec (sfs_device s1) b) (disk_uio b u)"
        then show "?Q a (fst y, file_uio b u (snd y))"
          using rd_step_trans [OF at s1(1) rd_step_dev [OF at1]] file_uio_put [OF u(1) x(3) len, of b] fb b(3) s1(3)
          by (auto simp: rd_done_def)
      next
        fix e y
        assume "case y of (s', u') \<Rightarrow> dev_step dinv sec (\<lambda>f. f) s1 s' \<and>
          (e = EIO \<and> u' = disk_uio b u \<or> e = EFAULT \<and> uio_faulted (disk_uio b u) u')"
        then show "?E e (fst y, file_uio b u (snd y))"
          using rd_step_trans [OF at s1(1) rd_step_dev [OF at1]] u(2) by (auto simp: rd_part_def uio_faulted_def)
      qed (use u in simp_all)
      with False show ?thesis by (simp add: file_uio_def disk_uio_def b')
    qed
  qed (use u(2) in \<open>auto simp: rd_step_def rd_part_def\<close>)
qed

lemma blockio_write:
  assumes at: "fs_at dinv sec nsec N n p i s" and u: "uio_ok u" "uio_rw u = UIO_WRITE" "uio_offset u = int x"
    and x: "x < 73216" "x mod 512 = 0" "512 \<le> uio_resid u"
  shows "wpK (sfs_blockio dv p)
     (\<lambda>_. wr_done dinv sec nsec N n p i s x 512 u) (wr_part dinv sec nsec N n p i s x 512 u) (s, u)"
    (is "wpK _ ?Q ?E _")
proof -
  have rw: "(uio_rw u = UIO_WRITE) = True" using u(2) by simp
  show ?thesis
    unfolding blockio_start [OF u(3) x(1,3)] rw
  proof (rule wp_mono [OF bmap_wp [OF at file_block(2) [OF x(1)]]])
    fix b s1
    assume "\<exists>i'. keeps dinv sec nsec N n p i s i' s1 \<and> bmap_of (sec (sfs_device s1)) i' (x div 512) = b \<and>
       (True \<longrightarrow> b \<noteq> 0) \<and> (\<not> True \<longrightarrow> i' = i \<and> sec (sfs_device s1) = sec (sfs_device s))"
    then obtain i1 where k1: "keeps dinv sec nsec N n p i s i1 s1" and
      b: "bmap_of (sec (sfs_device s1)) i1 (x div 512) = b" "b \<noteq> 0" by auto
    note at1 = keeps_at [OF k1]
    note m = mapped_block [OF at1 b]
    note b' = blockio_mapped [OF m(1)]
    have len: "length (sec (sfs_device s1) b) = 512" using fblk_len [OF at1, of "x div 512"] m(3) by simp
    have "wpK (sfs_rwblock dv) (\<lambda>a y. ?Q a (fst y, file_uio b u (snd y)))
        (\<lambda>e y. ?E e (fst y, file_uio b u (snd y))) (s1, disk_uio b u)"
    proof (rule wp_mono [OF rwblock_write [OF fs_atD(1) [OF at1] disk_uio_ok [OF u(1) x(3) b'(2)] _ _ _ m(1)]])
      fix a y
      assume "case y of (s', u') \<Rightarrow> dev_step dinv sec (\<lambda>f. f(b := uio_next 512 (disk_uio b u))) s1 s' \<and>
        u' = uio_skip 512 (disk_uio b u)"
      then show "?Q a (fst y, file_uio b u (snd y))"
        using write_block_step [OF k1 b _ rd_step_refl [OF at1], of "uio_next 512 u"] x(2) len
          file_uio_skip [OF u(1) x(3), of b] by (auto simp: wr_done_def intro!: exI [of _ i1])
    next
      fix e y
      assume "case y of (s', u') \<Rightarrow> dev_step dinv sec (\<lambda>f. f) s1 s' \<and> e = EFAULT \<and> uio_faulted (disk_uio b u) u'"
      then obtain s' u' where y: "y = (s', u')" "rd_step dinv sec nsec (N(n \<mapsto> i1)) n p i1 s1 s'"
          "e = EFAULT" "uio_faulted (disk_uio b u) u'"
        using rd_step_dev [OF at1] by auto
      have "wr_step dinv sec nsec N n p i s x [] i1 s'"
        using keeps_wr [OF keeps_trans [OF k1, of i1 s']] y(2) by (simp add: rd_step_def)
      then show "?E e (fst y, file_uio b u (snd y))"
        unfolding wr_part_def using y(1,3,4) file_uio_fail [OF u(1), of u' b] u
        by (intro conjI exI [of _ 0] exI [of _ i1]) (auto simp: uio_faulted_def)
    qed (use u in simp_all)
    with b(2) show "if b = 0 then uio_rw u = UIO_READ \<and> wpK (on_uio (uiomovezeros 512)) ?Q ?E (s1, u)
        else wpK (sfs_rwblock dv) (\<lambda>a y. ?Q a (fst y, (snd y)\<lparr>uio_offset := s32 (uio_offset (snd y) - s32 (int (u32 (b * 512))) + uio_offset u),
               uio_resid := u32 (uio_resid (snd y) + 4294967296 - SFS_BLOCKSIZE + uio_resid u)\<rparr>))
          (\<lambda>e y. ?E e (fst y, (snd y)\<lparr>uio_offset := s32 (uio_offset (snd y) - s32 (int (u32 (b * 512))) + uio_offset u),
               uio_resid := u32 (uio_resid (snd y) + 4294967296 - SFS_BLOCKSIZE + uio_resid u)\<rparr>))
          (s1, u\<lparr>uio_offset := s32 (int (u32 (b * 512))), uio_resid := 512\<rparr>)"
      by (simp add: file_uio_def disk_uio_def b')
  next
    fix e s1
    assume "e \<in> {ENOSPC, EIO} \<and> (\<exists>i'. keeps dinv sec nsec N n p i s i' s1 \<and>
        (\<not> True \<longrightarrow> e = EIO \<and> i' = i \<and> sec (sfs_device s1) = sec (sfs_device s)))"
    then obtain i1 where "e \<in> {ENOSPC, EIO}" "keeps dinv sec nsec N n p i s i1 s1" by auto
    then show "?E e (s1, u)"
      unfolding wr_part_def using keeps_wr u by (intro conjI exI [of _ 0] exI [of _ i1]) auto
  qed
qed

end

section \<open>Any range\<close>

text \<open>
  What \<^verbatim>\<open>sfs_io\<close> needs of the routines for one block: from a state with \<open>r\<close> bytes left to transfer
  at offset \<open>x\<close> they transfer a piece, \<open>T\<close>, or fail, \<open>F\<close>, and both compose. It is met by reading and
  by writing.
\<close>

locale file_io =
  fixes dv :: "'d device" and p :: nat
    and Pre :: "nat \<Rightarrow> nat \<Rightarrow> 'd sfs_fs \<times> uio \<Rightarrow> bool"
    and T :: "nat \<Rightarrow> nat \<Rightarrow> 'd sfs_fs \<times> uio \<Rightarrow> 'd sfs_fs \<times> uio \<Rightarrow> bool"
    and F :: "nat \<Rightarrow> nat \<Rightarrow> 'd sfs_fs \<times> uio \<Rightarrow> errno \<Rightarrow> 'd sfs_fs \<times> uio \<Rightarrow> bool"
  assumes pre_uio: "Pre x r y \<Longrightarrow> uio_offset (snd y) = int x \<and> uio_resid (snd y) = r"
    and T_refl: "Pre x r y \<Longrightarrow> T x 0 y y"
    and T_pre: "Pre x r y \<Longrightarrow> T x a y y1 \<Longrightarrow> a \<le> r \<Longrightarrow> x + r \<le> 73216 \<Longrightarrow> Pre (x + a) (r - a) y1"
    and T_trans: "Pre x r y \<Longrightarrow> T x a y y1 \<Longrightarrow> T (x + a) b y1 y2 \<Longrightarrow> T x (a + b) y y2"
    and F_mono: "F x a y e z \<Longrightarrow> F x (a + b) y e z"
    and F_trans: "Pre x r y \<Longrightarrow> T x a y y1 \<Longrightarrow> (x + a) mod 512 = 0 \<Longrightarrow> F (x + a) b y1 e z \<Longrightarrow> F x (a + b) y e z"
    and partialio: "Pre x r y \<Longrightarrow> x < 73216 \<Longrightarrow> 0 < len \<Longrightarrow> len \<le> r \<Longrightarrow> x mod 512 + len \<le> 512 \<Longrightarrow>
      wpK (sfs_partialio dv p (x mod 512) len) (\<lambda>_. T x len y) (F x len y) y"
    and blockio: "Pre x r y \<Longrightarrow> x < 73216 \<Longrightarrow> x mod 512 = 0 \<Longrightarrow> 512 \<le> r \<Longrightarrow>
      wpK (sfs_blockio dv p) (\<lambda>_. T x 512 y) (F x 512 y) y"
begin

lemma seq:
  assumes pre: "Pre x r y" "a \<le> r" "x + r \<le> 73216" "(x + a) mod 512 = 0"
    and m1: "wpK m1 (\<lambda>_. T x a y) (F x a y) y"
    and m2: "\<And>y1. Pre (x + a) (r - a) y1 \<Longrightarrow> wpK m2 (\<lambda>_. T (x + a) b y1) (F (x + a) b y1) y1"
  shows "wpK m1 (\<lambda>_. wpK m2 (\<lambda>_. T x (a + b) y) (F x (a + b) y)) (F x (a + b) y) y"
proof (rule wp_mono [OF m1])
  fix y1
  assume t: "T x a y y1"
  show "wpK m2 (\<lambda>_. T x (a + b) y) (F x (a + b) y) y1"
    by (rule wp_mono [OF m2 [OF T_pre [OF pre(1) t pre(2,3)]]]) (use T_trans [OF pre(1) t] F_trans [OF pre(1) t pre(4)] in auto)
qed (rule F_mono)

lemma blocks:
  assumes "Pre x r y" "x + r \<le> 73216" "x mod 512 = 0" "512 * k \<le> r"
  shows "wpK (sfs_io_blocks dv p k) (\<lambda>_. T x (512 * k) y) (F x (512 * k) y) y"
  using assms
proof (induction k arbitrary: x r y)
  case 0
  then show ?case using T_refl by (simp add: wp)
next
  case (Suc k)
  have "wpK (sfs_blockio dv p) (\<lambda>_. wpK (sfs_io_blocks dv p k) (\<lambda>_. T x (512 + 512 * k) y) (F x (512 + 512 * k) y))
      (F x (512 + 512 * k) y) y"
  proof (rule seq [OF Suc.prems(1) _ Suc.prems(2)])
    show "(x + 512) mod 512 = 0" using Suc.prems(3) by simp
    show "wpK (sfs_blockio dv p) (\<lambda>_. T x 512 y) (F x 512 y) y"
      using Suc.prems by (intro blockio [of x r]) auto
    show "wpK (sfs_io_blocks dv p k) (\<lambda>_. T (x + 512) (512 * k) y1) (F (x + 512) (512 * k) y1) y1"
      if "Pre (x + 512) (r - 512) y1" for y1
      using Suc.prems by (intro Suc.IH [OF that]) auto
  qed (use Suc.prems in auto)
  then show ?case by (simp add: wp)
qed

lemma rest:
  assumes pre: "Pre x r y" and x: "x + r \<le> 73216" "r = 0 \<or> x mod 512 = 0"
  shows "wpK (sfs_io_rest dv p) (\<lambda>_. T x r y) (F x r y) y"
proof (cases "r = 0")
  case True
  then show ?thesis using pre T_refl [OF pre] pre_uio [OF pre] by (simp add: sfs_io_rest_def wp)
next
  case False
  let ?n = "512 * (r div 512)" and ?r = "r mod 512"
  have n: "?n + ?r = r" "?n \<le> r" "r - ?n = ?r" by (simp_all add: minus_mult_div_eq_mod)
  have x0: "x mod 512 = 0" "(x + ?n) mod 512 = 0" "crem (int x) 512 = 0"
    using False x(2) crem_nat [of x 512] by auto
  let ?m = "bindK (on_uio (getK uio_resid)) (\<lambda>resid. bindK (assertK (resid < SFS_BLOCKSIZE)) (\<lambda>_.
           if resid > 0 then sfs_partialio dv p 0 resid else retK ()))"
  have "wpK (sfs_io_blocks dv p (r div 512)) (\<lambda>_. wpK ?m (\<lambda>_. T x (?n + ?r) y) (F x (?n + ?r) y)) (F x (?n + ?r) y) y"
  proof (rule seq [OF pre n(2) x(1) x0(2) blocks [OF pre x(1) x0(1) n(2)]])
    fix y1
    assume "Pre (x + ?n) (r - ?n) y1"
    then have p1: "Pre (x + ?n) ?r y1" using n by simp
    have "x + ?n < 73216" if "0 < ?r" using that x n by linarith
    then show "wpK ?m (\<lambda>_. T (x + ?n) ?r y1) (F (x + ?n) ?r y1) y1"
      using pre_uio [OF p1] partialio [OF p1, of ?r] T_refl [OF p1] x0(2)
      by (auto simp: wp SFS_BLOCKSIZE_def)
  qed
  then show ?thesis
    unfolding n(1) using pre_uio [OF pre] False x0(3)
    by (simp add: sfs_io_rest_def SFS_BLOCKSIZE_def wp)
qed

lemma body:
  assumes pre: "Pre x r y" and x: "x + r \<le> 73216" "0 < r"
  shows "wpK (sfs_io_body dv p) (\<lambda>_. T x r y) (F x r y) y"
proof -
  let ?k = "x mod 512" and ?l = "min (512 - x mod 512) r"
  have k: "i2u32 (crem (int x) 512) = ?k" using crem_nat [of x 512] by (simp add: i2u32_nat)
  have "512 + 4294967296 - ?k = (512 - ?k) + 4294967296" by simp
  then have l: "min (u32 (512 + 4294967296 - ?k)) r = ?l"
    by (simp only: u32_def mod_add_self2) simp
  have off: "uio_offset (snd y) = int x" "uio_resid (snd y) = r" using pre_uio [OF pre] by auto
  have eq: "wpK (sfs_io_body dv p) Q E y = (if ?k \<noteq> 0 then
      wpK (sfs_partialio dv p ?k ?l) (\<lambda>_. wpK (sfs_io_rest dv p) Q E) E y else wpK (sfs_io_rest dv p) Q E y)" for Q E
    unfolding sfs_io_body_def wp_bind wp_on_uio wp_get wp_if wp_ret SFS_BLOCKSIZE_def of_nat_numeral off k l prod.collapse ..
  show ?thesis
  proof (cases "?k = 0")
    case True
    then have c: "\<not> ?k \<noteq> 0" by blast
    show ?thesis unfolding eq if_not_P [OF c] by (rule rest [OF pre x(1) disjI2 [OF True]])
  next
    case False
    have l0: "0 < ?l" "?l \<le> r" "?k + ?l \<le> 512" "x < 73216" using x by auto
    note part = partialio [OF pre l0(4,1,2,3)]
    show ?thesis
    proof (cases "512 - ?k \<le> r")
      case True
      then have l': "?l = 512 - ?k" by (rule min_absorb1)
      have "x + (512 - ?k) = 512 * Suc (x div 512)"
        using mod_mult_div_eq [of x 512] mod_less_divisor [of 512 x] unfolding mult_Suc_right by linarith
      then have al: "(x + ?l) mod 512 = 0" unfolding l' by simp
      have "wpK (sfs_partialio dv p ?k ?l) (\<lambda>_. wpK (sfs_io_rest dv p) (\<lambda>_. T x (?l + (r - ?l)) y) (F x (?l + (r - ?l)) y))
          (F x (?l + (r - ?l)) y) y"
        by (rule seq [OF pre l0(2) x(1) al part], rule rest) (use x l0 al in auto)
      then show ?thesis unfolding eq if_P [OF False] using l0 by simp
    next
      case short: False
      then have l': "?l = r" by (intro min_absorb2) simp
      show ?thesis
        unfolding eq if_P [OF False] l'
      proof (rule wp_mono [OF part [unfolded l']])
        fix y1
        assume t: "T x r y y1"
        have "Pre (x + r) (r - r) y1" using T_pre [OF pre t _ x(1)] by simp
        then have "uio_resid (snd y1) = 0" using pre_uio by fastforce
        then show "wpK (sfs_io_rest dv p) (\<lambda>_. T x r y) (F x r y) y1" using t by (simp add: sfs_io_rest_def wp)
      qed
    qed
  qed
qed

end

lemma wp_all2:
  assumes "P a b" "\<And>a b. P a b \<Longrightarrow> wpK m (Q a b) (E a b) s"
  shows "wpK m (\<lambda>r s'. \<forall>a b. P a b \<longrightarrow> Q a b r s') (\<lambda>e s'. \<forall>a b. P a b \<longrightarrow> E a b e s') s"
  using assms(2) [OF assms(1)] assms(2) by (auto simp: wpK_def split: option.splits sum.splits prod.splits)

definition rd_pre :: "('d \<Rightarrow> bool) \<Rightarrow> ('d \<Rightarrow> nat \<Rightarrow> byte list) \<Rightarrow> nat \<Rightarrow> (nat \<rightharpoonup> sfs_inode) \<Rightarrow> nat \<Rightarrow> nat
    \<Rightarrow> sfs_inode \<Rightarrow> nat \<Rightarrow> nat \<Rightarrow> 'd sfs_fs \<times> uio \<Rightarrow> bool" where
  "rd_pre din sc ns N n p i x r y \<longleftrightarrow> fs_at din sc ns N n p i (fst y) \<and> uio_ok (snd y) \<and>
     uio_rw (snd y) = UIO_READ \<and> uio_offset (snd y) = int x \<and> uio_resid (snd y) = r"

definition wr_pre :: "('d \<Rightarrow> bool) \<Rightarrow> ('d \<Rightarrow> nat \<Rightarrow> byte list) \<Rightarrow> nat \<Rightarrow> nat \<Rightarrow> nat
    \<Rightarrow> nat \<Rightarrow> nat \<Rightarrow> 'd sfs_fs \<times> uio \<Rightarrow> bool" where
  "wr_pre din sc ns n p x r y \<longleftrightarrow> (\<exists>N i. fs_at din sc ns N n p i (fst y)) \<and> uio_ok (snd y) \<and>
     uio_rw (snd y) = UIO_WRITE \<and> uio_offset (snd y) = int x \<and> uio_resid (snd y) = r"

sublocale sfs_disk \<subseteq> rd: file_io dv p "rd_pre dinv sec nsec N n p i"
    "\<lambda>x len y. rd_done dinv sec nsec N n p i (fst y) x len (snd y)"
    "\<lambda>x len y. rd_part dinv sec nsec N n p i (fst y)" for N n p i
proof
  fix x r y a y1 b y2 e z len
  assume pre: "rd_pre dinv sec nsec N n p i x r y"
  then have p: "fs_at dinv sec nsec N n p i (fst y)" "uio_ok (snd y)" "uio_rw (snd y) = UIO_READ"
    "uio_offset (snd y) = int x" "uio_resid (snd y) = r" and y: "y = (fst y, snd y)" by (auto simp: rd_pre_def)
  show "uio_offset (snd y) = int x \<and> uio_resid (snd y) = r" using p by simp
  show "rd_done dinv sec nsec N n p i (fst y) x 0 (snd y) y"
    using p by (simp add: rd_done_def rd_step_refl)
  show "rd_pre dinv sec nsec N n p i (x + a) (r - a) y1"
    if "rd_done dinv sec nsec N n p i (fst y) x a (snd y) y1" "a \<le> r" "x + r \<le> 73216"
    using that p rd_step_at [OF p(1), of "fst y1"] by (simp add: rd_pre_def rd_done_def)
  show "rd_done dinv sec nsec N n p i (fst y) x (a + b) (snd y) y2"
    if "rd_done dinv sec nsec N n p i (fst y) x a (snd y) y1" "rd_done dinv sec nsec N n p i (fst y1) (x + a) b (snd y1) y2"
    using p(1) that by (rule rd_done_trans)
  show "rd_part dinv sec nsec N n p i (fst y) e z"
    if "rd_done dinv sec nsec N n p i (fst y) x a (snd y) y1" "rd_part dinv sec nsec N n p i (fst y1) e z"
    using p(1) that by (rule rd_part_trans)
  show "wpK (sfs_partialio dv p (x mod 512) len) (\<lambda>_. rd_done dinv sec nsec N n p i (fst y) x len (snd y))
     (rd_part dinv sec nsec N n p i (fst y)) y" if "x < 73216" "0 < len" "len \<le> r" "x mod 512 + len \<le> 512"
    by (subst (3) y, rule partialio_read) (use p that in auto)
  show "wpK (sfs_blockio dv p) (\<lambda>_. rd_done dinv sec nsec N n p i (fst y) x 512 (snd y))
     (rd_part dinv sec nsec N n p i (fst y)) y" if "x < 73216" "x mod 512 = 0" "512 \<le> r"
    by (subst (3) y, rule blockio_read) (use p that in auto)
qed

sublocale sfs_disk \<subseteq> wr: file_io dv p "wr_pre dinv sec nsec n p"
    "\<lambda>x len y y'. \<forall>N i. fs_at dinv sec nsec N n p i (fst y) \<longrightarrow> wr_done dinv sec nsec N n p i (fst y) x len (snd y) y'"
    "\<lambda>x len y e y'. \<forall>N i. fs_at dinv sec nsec N n p i (fst y) \<longrightarrow> wr_part dinv sec nsec N n p i (fst y) x len (snd y) e y'"
    for n p
proof
  fix x r y a y1 b y2 e z len
  let ?T = "\<lambda>x len y y'. \<forall>N i. fs_at dinv sec nsec N n p i (fst y) \<longrightarrow> wr_done dinv sec nsec N n p i (fst y) x len (snd y) y'"
  let ?F = "\<lambda>x len y e y'. \<forall>N i. fs_at dinv sec nsec N n p i (fst y) \<longrightarrow> wr_part dinv sec nsec N n p i (fst y) x len (snd y) e y'"
  show "?F x (a + b) y e z" if "?F x a y e z" using that wr_part_mono by blast
  assume "wr_pre dinv sec nsec n p x r y"
  then obtain N0 i0 where p: "fs_at dinv sec nsec N0 n p i0 (fst y)" "uio_ok (snd y)" "uio_rw (snd y) = UIO_WRITE"
    "uio_offset (snd y) = int x" "uio_resid (snd y) = r" and y: "y = (fst y, snd y)" by (auto simp: wr_pre_def)
  have step: "\<exists>i1. wr_step dinv sec nsec N n p i (fst y) x (uio_next a (snd y)) i1 (fst y1) \<and>
      fs_at dinv sec nsec (N(n \<mapsto> i1)) n p i1 (fst y1) \<and> snd y1 = uio_skip a (snd y)"
    if "?T x a y y1" "fs_at dinv sec nsec N n p i (fst y)" for N i
    using that wr_step_at by (fastforce simp: wr_done_def)
  show "uio_offset (snd y) = int x \<and> uio_resid (snd y) = r" using p by simp
  show "?T x 0 y y" using p(2) keeps_wr [OF keeps_refl] by (fastforce simp: wr_done_def)
  show "wr_pre dinv sec nsec n p (x + a) (r - a) y1" if "?T x a y y1" "a \<le> r" "x + r \<le> 73216"
    using step [OF that(1) p(1)] p that(2,3) by (auto simp: wr_pre_def)
  show "?T x (a + b) y y2" if t: "?T x a y y1" "?T (x + a) b y1 y2"
  proof (intro allI impI)
    fix N i
    assume at: "fs_at dinv sec nsec N n p i (fst y)"
    obtain i1 where i1: "wr_step dinv sec nsec N n p i (fst y) x (uio_next a (snd y)) i1 (fst y1)"
        "fs_at dinv sec nsec (N(n \<mapsto> i1)) n p i1 (fst y1)" "snd y1 = uio_skip a (snd y)"
      using step [OF t(1) at] by auto
    have "wr_done dinv sec nsec (N(n \<mapsto> i1)) n p i1 (fst y1) (x + a) b (snd y1) y2"
      using t(2) i1(2) by blast
    then show "wr_done dinv sec nsec N n p i (fst y) x (a + b) (snd y) y2"
      using wr_step_next [OF i1(1)] i1(3) by (auto simp: wr_done_def uio_skip_add)
  qed
  show "?F x (a + b) y e z" if t: "?T x a y y1" "(x + a) mod 512 = 0" "?F (x + a) b y1 e z"
  proof (intro allI impI)
    fix N i
    assume at: "fs_at dinv sec nsec N n p i (fst y)"
    obtain i1 where i1: "wr_step dinv sec nsec N n p i (fst y) x (uio_next a (snd y)) i1 (fst y1)"
        "fs_at dinv sec nsec (N(n \<mapsto> i1)) n p i1 (fst y1)" "snd y1 = uio_skip a (snd y)"
      using step [OF t(1) at] by auto
    have "wr_part dinv sec nsec (N(n \<mapsto> i1)) n p i1 (fst y1) (x + a) b (snd y1) e z"
      using t(3) i1(2) by blast
    then show "wr_part dinv sec nsec N n p i (fst y) x (a + b) (snd y) e z"
      using wr_part_next [OF i1(1) t(2)] i1(3) by simp
  qed
  show "wpK (sfs_partialio dv p (x mod 512) len) (\<lambda>_. ?T x len y) (?F x len y) y"
    if "x < 73216" "0 < len" "len \<le> r" "x mod 512 + len \<le> 512"
    by (rule wp_all2 [where P = "\<lambda>N i. fs_at dinv sec nsec N n p i (fst y)", OF p(1)], subst (3) y, rule partialio_write) (use p that in auto)
  show "wpK (sfs_blockio dv p) (\<lambda>_. ?T x 512 y) (?F x 512 y) y" if "x < 73216" "x mod 512 = 0" "512 \<le> r"
    by (rule wp_all2 [where P = "\<lambda>N i. fs_at dinv sec nsec N n p i (fst y)", OF p(1)], subst (3) y, rule blockio_write) (use p that in auto)
qed

section \<open>The end of the transfer\<close>

text \<open>A change of the inode that leaves its blocks alone.\<close>

lemma meta_step:
  assumes at: "fs_at din sc ns N n p i s" and v: "sfs_heap s p = Some v"
    and i': "inode_wf i'" "sfi_direct i' = sfi_direct i" "sfi_indirect i' = sfi_indirect i" "sfi_type i' = sfi_type i"
    and v': "same_vn v v'" "sv_i v' = i'" "sv_dirty v'"
  defines "s' \<equiv> s\<lparr>sfs_heap := (sfs_heap s)(p \<mapsto> v')\<rparr>"
  shows "file_step din sc ns N n p s i' s'" "fblk dk i' k = fblk dk i k"
proof -
  let ?dk = "sc (sfs_device s)"
  note io = fs_atD(6) [OF at] and ok = fs_atD(2) [OF at]
  have ptr: "ptrs dk i' = ptrs dk i" for dk using i' by (simp add: ptrs_def id_words_def)
  have n: "sv_ino v = n" "sv_ino v' = n" using fs_atD(5) [OF at] v v' by (auto simp: same_vn_def)
  have "fs_ok ns ?dk (N(n \<mapsto> i')) s'"
  proof (rule fs_ok_update [OF ok v n(1) _ _ _ _ _ n(2) v'(2)])
    show "map_ok ns s'" using fs_atD(7) [OF at] by (simp add: map_ok_def s'_def)
    show "own ?dk m j \<subseteq> bits (sfs_freemap s') \<and> (\<forall>b\<in>own ?dk m j. ?dk b = ?dk b) \<and> own ?dk n i' \<inter> own ?dk m j = {}"
      if "m \<noteq> n" "N m = Some j" for m j
      using inode_okD(6) [OF fs_okD(3) [OF ok that(2)]] fs_okD(4) [OF ok fs_atD(3) [OF at] that(2)] that(1)
      by (simp add: s'_def own_def ptr)
    show "inode_ok (bits (sfs_freemap s')) (sp_nblocks (sfs_super s')) ?dk n i'"
      using io i' by (simp add: inode_ok_def own_def ptr s'_def)
  qed (use v' in \<open>simp_all add: s'_def\<close>)
  then have "fs_at din sc ns (N(n \<mapsto> i')) n p i' s'"
    using fs_atD(1) [OF at] n v'(2) by (simp add: fs_at_def s'_def)
  moreover have "file_frame sc N n p s s'"
    by (rule file_frameI [OF v _ v'(1)]) (simp_all add: s'_def same_fs_def)
  ultimately show "file_step din sc ns N n p s i' s'" by (simp add: file_step_def)
  show "fblk dk i' k = fblk dk i k" using i' by (simp add: fblk_def bmap_of_def id_words_def)
qed

lemma wp_io_out:
  "wpK (sfs_io_out p ex) Q E (s, u) = (case sfs_heap s p of None \<Rightarrow> False
     | Some v \<Rightarrow> Q () ((if uio_rw u = UIO_WRITE \<and> uio_offset u > s32 (int (sfi_size (sv_i v)))
         then s\<lparr>sfs_heap := (sfs_heap s)(p \<mapsto> v\<lparr>sv_i := (sv_i v)\<lparr>sfi_size := i2u32 (uio_offset u)\<rparr>, sv_dirty := True\<rparr>)\<rparr>
         else s), u\<lparr>uio_resid := u32 (uio_resid u + ex)\<rparr>))"
  by (simp add: sfs_io_out_def wp split: option.split)

lemma uio_put_resid:
  "(uio_put bs (u\<lparr>uio_resid := a\<rparr>))\<lparr>uio_resid := uio_resid u - length bs\<rparr> = uio_put bs u"
  by (simp add: uio_put_def uio_skip_def)

text \<open>A completed step of writing: the file has the bytes and, if they reach beyond its end, is longer.\<close>

definition wr_file :: "('d \<Rightarrow> bool) \<Rightarrow> ('d \<Rightarrow> nat \<Rightarrow> byte list) \<Rightarrow> nat \<Rightarrow> (nat \<rightharpoonup> sfs_inode) \<Rightarrow> nat \<Rightarrow> nat
    \<Rightarrow> sfs_inode \<Rightarrow> 'd sfs_fs \<Rightarrow> nat \<Rightarrow> byte list \<Rightarrow> sfs_inode \<Rightarrow> 'd sfs_fs \<Rightarrow> bool" where
  "wr_file din sc ns N n p i s x bs i' s' \<longleftrightarrow> file_step din sc ns N n p s i' s' \<and>
     sfi_size i' = max (sfi_size i) (x + length bs) \<and> sfi_type i' = sfi_type i \<and>
     sfi_linkcount i' = sfi_linkcount i \<and> wrote (sc (sfs_device s)) i x bs (sc (sfs_device s')) i'"

lemma io_out_write:
  assumes w: "wr_step din sc ns N n p i s x bs i1 s1" and u: "uio_rw u = UIO_WRITE" "uio_offset u = int (x + length bs)"
      "uio_resid u < 4294967296"
    and z: "sfi_size i \<le> 73216" "x + length bs \<le> 73216"
    and Q: "\<And>i' s'. wr_file din sc ns N n p i s x bs i' s' \<Longrightarrow> Q () (s', u)"
  shows "wpK (sfs_io_out p 0) Q E (s1, u)"
proof -
  note at1 = wr_step_at [OF w]
  obtain v where v: "sfs_heap s1 p = Some v" "sv_i v = i1" using fs_atD(5) [OF at1] by auto
  have m: "sfi_size i1 = sfi_size i" "sfi_type i1 = sfi_type i" "sfi_linkcount i1 = sfi_linkcount i"
    using w by (auto simp: wr_step_def same_meta_def)
  have c: "(int (x + length bs) > s32 (int (sfi_size i1))) = (sfi_size i < x + length bs)"
    using z m by auto
  have u0: "u\<lparr>uio_resid := u32 (uio_resid u + 0)\<rparr> = u" using u(3) by simp
  show ?thesis
  proof (cases "sfi_size i < x + length bs")
    case False
    then have "wr_file din sc ns N n p i s x bs i1 s1" using w m by (simp add: wr_file_def wr_step_def)
    with Q show ?thesis unfolding wp_io_out v u(2) u0 option.case c using False v by simp
  next
    case True
    let ?i = "i1\<lparr>sfi_size := x + length bs\<rparr>"
    let ?v = "v\<lparr>sv_i := ?i, sv_dirty := True\<rparr>"
    let ?s = "s1\<lparr>sfs_heap := (sfs_heap s1)(p \<mapsto> ?v)\<rparr>"
    have wf: "inode_wf ?i" using inode_okD(1) [OF fs_atD(6) [OF at1]] z(2) by (simp add: inode_wf_def)
    have st: "file_step din sc ns (N(n \<mapsto> i1)) n p s1 ?i ?s" "fblk dk ?i k = fblk dk i1 k" for dk k
      using meta_step [OF at1 v(1) wf, of ?v] v by (auto simp: same_vn_def)
    have "wr_file din sc ns N n p i s x bs ?i ?s"
      using w m True file_step_trans [OF _ st(1), of s] st(2)
      by (simp add: wr_file_def wr_step_def wrote_def fbyte_def)
    moreover have "i2u32 (int (x + length bs)) = x + length bs" using z(2) by (simp only: i2u32_nat) simp
    ultimately show ?thesis unfolding wp_io_out v u(2) u0 option.case c using True v u(1) Q by simp
  qed
qed

context sfs_disk begin

lemma io_read:
  assumes at: "fs_at dinv sec nsec N n p i s" and u: "uio_ok u" "uio_rw u = UIO_READ" "uio_offset u = int x"
    and x: "0 < uio_resid u" "x + uio_resid u < 2147483648" "sfi_size i \<le> 73216"
  shows "wpK (sfs_io dv p) (\<lambda>_. rd_done dinv sec nsec N n p i s x (min (uio_resid u) (sfi_size i - x)) u)
     (rd_part dinv sec nsec N n p i s) (s, u)" (is "wpK _ ?Q ?E _")
proof -
  obtain v where v: "sfs_heap s p = Some v" "sv_i v = i" using fs_atD(5) [OF at] by auto
  let ?r = "uio_resid u" and ?z = "sfi_size i"
  let ?l = "min ?r (?z - x)"
  have z: "s32 (int ?z) = int ?z" "s32 (int x + int ?r) = int x + int ?r" using x by auto
  show ?thesis
  proof (cases "?z \<le> x")
    case True
    then show ?thesis
      using u z v rd_step_refl [OF at] by (simp add: sfs_io_def wp rd_done_def)
  next
    case False
    let ?u = "u\<lparr>uio_resid := ?l\<rparr>"
    let ?ex = "?r - ?l"
    have pre: "rd_pre dinv sec nsec N n p i x ?l (s, ?u)"
      using at u by (auto simp: rd_pre_def uio_ok_def)
    have out: "wpK (sfs_io_out p ?ex) Q E y = Q () (fst y, (snd y)\<lparr>uio_resid := u32 (uio_resid (snd y) + ?ex)\<rparr>)"
      if "rd_step dinv sec nsec N n p i s (fst y)" "uio_rw (snd y) = UIO_READ" for Q E y
      using fs_atD(5) [OF rd_step_at [OF at that(1)]] that(2) wp_io_out [of p ?ex Q E "fst y" "snd y"] by auto
    have body: "wpK (sfs_io_body dv p) (\<lambda>_. wpK (sfs_io_out p ?ex) (\<lambda>_. ?Q ()) ?E)
        (\<lambda>e. wpK (sfs_io_out p ?ex) (\<lambda>_. ?E e) ?E) (s, ?u)"
    proof (rule wp_mono [OF rd.body [OF pre]])
      fix y
      assume "rd_done dinv sec nsec N n p i (fst (s, ?u)) x ?l (snd (s, ?u)) y"
      then have y: "rd_step dinv sec nsec N n p i s (fst y)" "snd y = uio_put (fbytes (sec (sfs_device s)) i x ?l) ?u"
        by (auto simp: rd_done_def)
      have "u32 ?ex = ?r - length (fbytes (sec (sfs_device s)) i x ?l)" using x by simp
      then show "wpK (sfs_io_out p ?ex) (\<lambda>_. ?Q ()) ?E y"
        using out [OF y(1)] y u(2) uio_put_resid [where u = u and a = ?l and bs = "fbytes (sec (sfs_device s)) i x ?l"]
        by (simp add: rd_done_def)
    next
      fix e y
      assume "rd_part dinv sec nsec N n p i (fst (s, ?u)) e y"
      then show "wpK (sfs_io_out p ?ex) (\<lambda>_. ?E e) ?E y"
        using out [of y "\<lambda>_. ?E e" ?E] by (auto simp: rd_part_def)
    qed (use x False in auto)
    have "(if uio_rw u = UIO_READ \<and> int x + int ?r > int ?z then i2u32 (int x + int ?r - int ?z) else 0) = ?ex"
    proof (cases "?z < x + ?r")
      case True
      then have "int x + int ?r - int ?z = int (x + ?r - ?z)" by simp
      moreover have "i2u32 (int (x + ?r - ?z)) = x + ?r - ?z" using x by (simp only: i2u32_nat) simp
      ultimately show ?thesis using True False u(2) by simp
    qed (use False in auto)
    then show ?thesis
      using u z v False x body
      by (auto simp: sfs_io_def wp Let_def split: if_splits)
  qed
qed

lemma io_write:
  assumes at: "fs_at dinv sec nsec N n p i s" and u: "uio_ok u" "uio_rw u = UIO_WRITE" "uio_offset u = int x"
    and x: "0 < uio_resid u" "x + uio_resid u \<le> 73216" "sfi_size i \<le> 73216"
  shows "wpK (sfs_io dv p)
     (\<lambda>_ y. (\<exists>i'. wr_file dinv sec nsec N n p i s x (uio_next (uio_resid u) u) i' (fst y)) \<and> snd y = uio_skip (uio_resid u) u)
     (\<lambda>e y. e \<in> {ENOSPC, EIO, EFAULT} \<and> (\<exists>d i'. d < uio_resid u \<and> (d = 0 \<or> (x + d) mod 512 = 0) \<and>
        wr_file dinv sec nsec N n p i s x (uio_next d u) i' (fst y) \<and> uio_resid (snd y) = uio_resid u - d \<and> uio_offset (snd y) = int (x + d))) (s, u)" (is "wpK _ ?Q ?E _")
proof -
  obtain v where v: "sfs_heap s p = Some v" "sv_i v = i" using fs_atD(5) [OF at] by auto
  let ?r = "uio_resid u"
  have r32: "?r < 4294967296" using x by simp
  have pre: "wr_pre dinv sec nsec n p x ?r (s, u)"
    using at u by (auto simp: wr_pre_def)
  have "wpK (sfs_io_body dv p) (\<lambda>_. wpK (sfs_io_out p 0) (\<lambda>_. ?Q ()) ?E)
      (\<lambda>e. wpK (sfs_io_out p 0) (\<lambda>_. ?E e) ?E) (s, u)"
  proof (rule wp_mono [OF wr.body [OF pre x(2,1)]])
    fix y
    assume "\<forall>N i. fs_at dinv sec nsec N n p i (fst (s, u)) \<longrightarrow> wr_done dinv sec nsec N n p i (fst (s, u)) x ?r (snd (s, u)) y"
    then have "wr_done dinv sec nsec N n p i s x ?r u y" using at by simp
    then obtain i1 s1 where y: "y = (s1, uio_skip ?r u)" and w: "wr_step dinv sec nsec N n p i s x (uio_next ?r u) i1 s1"
      by (cases y) (auto simp: wr_done_def)
    show "wpK (sfs_io_out p 0) (\<lambda>_. ?Q ()) ?E y"
      unfolding y by (rule io_out_write [OF w]) (use u x in auto)
  next
    fix e y
    assume "\<forall>N i. fs_at dinv sec nsec N n p i (fst (s, u)) \<longrightarrow> wr_part dinv sec nsec N n p i (fst (s, u)) x ?r (snd (s, u)) e y"
    then have "wr_part dinv sec nsec N n p i s x ?r u e y" using at by simp
    then obtain d i1 where d: "d < ?r" "d = 0 \<or> (x + d) mod 512 = 0" "wr_step dinv sec nsec N n p i s x (uio_next d u) i1 (fst y)"
        "uio_rw (snd y) = UIO_WRITE" "uio_resid (snd y) = ?r - d" "uio_offset (snd y) = int (x + d)" "e \<in> {ENOSPC, EIO, EFAULT}"
      by (rule wr_partE)
    obtain s1 u1 where y: "y = (s1, u1)" by (cases y)
    note d = d [unfolded y fst_conv snd_conv]
    show "wpK (sfs_io_out p 0) (\<lambda>_. ?E e) ?E y"
      unfolding y by (rule io_out_write [OF d(3)]) (use u x d r32 in auto)
  qed
  then show ?thesis
    using u v by (simp add: sfs_io_def wp Let_def)
qed

end

section \<open>Properties\<close>

lemma wr_file_others:
  assumes "fs_at din sc ns N n p i s" "wr_file din sc ns N n p i s x bs i' s'" "m \<noteq> n" "N m = Some j"
  shows "fblk (sc (sfs_device s')) j k = fblk (sc (sfs_device s)) j k"
  using assms(2) file_frame_fblk [where sc = sc and s = s, OF _ assms(3,4) fs_atD(2) [OF assms(1)]]
  by (auto simp: wr_file_def file_step_def)

lemma wr_file_at: "wr_file din sc ns N n p i s x bs i' s' \<Longrightarrow> fs_at din sc ns (N(n \<mapsto> i')) n p i' s'"
  by (simp add: wr_file_def file_step_def)

lemma wr_file_fbytes:
  assumes "wr_file din sc ns N n p i s x bs i' s'"
  shows "fbytes (sc (sfs_device s')) i' x (length bs) = bs"
  using assms by (intro nth_equalityI) (auto simp: wr_file_def wrote_def fbytes_def)






text \<open>
  Property C2. Writing to a file, on a disk whose writes do not fail. A \<^verbatim>\<open>sfs_write\<close> within the largest size a file can have, at any
  offset and of any length, replaces exactly the bytes of the range by those of the caller's
  buffer, extends the file if the range reaches beyond its end, and keeps the invariant of the
  volume; every other file has the contents it had. When it fails, with \<^verbatim>\<open>ENOSPC\<close>, \<^verbatim>\<open>EIO\<close> or
  \<^verbatim>\<open>EFAULT\<close>, the same holds of the part of the range the descriptor has advanced over.
\<close>

theorem sfs_write_bytes:
  assumes "sfs_disk dv sec nsec dinv" and "fs_at dinv sec nsec N n p i s"
    and "uio_ok u" and "uio_rw u = UIO_WRITE" and "uio_offset u = int x"
    and "0 < uio_resid u" and "x + uio_resid u \<le> 73216" and "sfi_size i \<le> 73216"
  shows "wpK (sfs_write dv p)
     (\<lambda>_ (s', u'). u' = uio_skip (uio_resid u) u \<and>
        (\<exists>i'. fs_at dinv sec nsec (N(n \<mapsto> i')) n p i' s' \<and> sfi_size i' = max (sfi_size i) (x + uio_resid u) \<and>
           (\<forall>y. fbyte (sec (sfs_device s')) i' y = (if x \<le> y \<and> y < x + uio_resid u
              then uio_next (uio_resid u) u ! (y - x) else fbyte (sec (sfs_device s)) i y))) \<and>
        (\<forall>m j k. m \<noteq> n \<and> N m = Some j \<longrightarrow> fblk (sec (sfs_device s')) j k = fblk (sec (sfs_device s)) j k))
     (\<lambda>e (s', u'). e \<in> {ENOSPC, EIO, EFAULT} \<and>
        (\<exists>d i'. d < uio_resid u \<and> uio_resid u' = uio_resid u - d \<and>
           fs_at dinv sec nsec (N(n \<mapsto> i')) n p i' s' \<and> sfi_size i' = max (sfi_size i) (x + d) \<and>
           (\<forall>y. fbyte (sec (sfs_device s')) i' y = (if x \<le> y \<and> y < x + d
              then uio_next d u ! (y - x) else fbyte (sec (sfs_device s)) i y))) \<and>
        (\<forall>m j k. m \<noteq> n \<and> N m = Some j \<longrightarrow> fblk (sec (sfs_device s')) j k = fblk (sec (sfs_device s)) j k))
     (s, u)" (is "wpK _ ?Q ?E _")
proof -
  have "wpK (sfs_write dv p) Q E (s, u) = wpK (sfs_io dv p) Q E (s, u)" for Q E
    using assms(4) by (simp add: sfs_write_def wp)
  moreover have "wpK (sfs_io dv p) ?Q ?E (s, u)"
  proof (rule wp_mono [OF sfs_disk.io_write [OF assms]])
    fix y
    assume "(\<exists>i'. wr_file dinv sec nsec N n p i s x (uio_next (uio_resid u) u) i' (fst y)) \<and> snd y = uio_skip (uio_resid u) u"
    then obtain i' s' where y: "y = (s', uio_skip (uio_resid u) u)"
        and w: "wr_file dinv sec nsec N n p i s x (uio_next (uio_resid u) u) i' s'" by (cases y) auto
    show "?Q () y"
      unfolding y prod.case using wr_file_at [OF w] wr_file_others [OF assms(2) w] w
      by (intro conjI exI [of _ i']) (auto simp: wr_file_def wrote_def)
  next
    fix e and y :: "'a sfs_fs \<times> uio"
    assume "e \<in> {ENOSPC, EIO, EFAULT} \<and> (\<exists>d i'. d < uio_resid u \<and> (d = 0 \<or> (x + d) mod 512 = 0) \<and>
        wr_file dinv sec nsec N n p i s x (uio_next d u) i' (fst y) \<and>
        uio_resid (snd y) = uio_resid u - d \<and> uio_offset (snd y) = int (x + d))"
    then obtain d i' where "e \<in> {ENOSPC, EIO, EFAULT}" "d < uio_resid u" "uio_resid (snd y) = uio_resid u - d"
        "wr_file dinv sec nsec N n p i s x (uio_next d u) i' (fst y)" by blast
    then obtain s' u' where y: "y = (s', u')" and e: "e \<in> {ENOSPC, EIO, EFAULT}" "d < uio_resid u"
        "uio_resid u' = uio_resid u - d" and w: "wr_file dinv sec nsec N n p i s x (uio_next d u) i' s'" by (cases y) auto
    show "?E e y"
      unfolding y prod.case using e wr_file_at [OF w] wr_file_others [OF assms(2) w] w
      by (intro conjI exI [of _ d] exI [of _ i']) (auto simp: wr_file_def wrote_def)
  qed
  ultimately show ?thesis by simp
qed

definition example_write :: uio where
  "example_write = mk_kuio 100 16 4000 UIO_WRITE example_mem None"

lemma example_write_ok: "uio_ok example_write"
  unfolding example_write_def by (rule mk_kuio_ok) (simp_all add: example_mem_def)

theorem sfs_write_bytes_witness:
  "wpK (sfs_write (lhd_device (sim_hw (\<lambda>_. False) (\<lambda>_. False)) 2048) 100)
     (\<lambda>_ (s', u'). u' = uio_skip 16 example_write) (\<lambda>e (s', u'). e \<in> {ENOSPC, EIO, EFAULT}) (example_fs, example_write)"
proof -
  have r: "uio_rw example_write = UIO_WRITE" "uio_offset example_write = int 4000" "uio_resid example_write = 16"
    "sfi_size example_inode = 700" by (simp_all add: example_write_def mk_kuio_def example_inode_def)
  show ?thesis
    by (rule wp_mono [OF sfs_write_bytes [OF simd.sd.sfs_disk_axioms example_ok example_write_ok r(1,2)]])
      (use r in auto)
qed

text \<open>
  Property C20. What was written is read back, on a disk whose writes do not fail: a \<^verbatim>\<open>sfs_write\<close> that succeeds, followed by a \<^verbatim>\<open>sfs_read\<close> of
  the same range into another buffer, delivers the bytes that were written.
\<close>

theorem sfs_write_then_read:
  assumes "sfs_disk dv sec nsec dinv" and "fs_at dinv sec nsec N n p i s"
    and "uio_ok u" and "uio_rw u = UIO_WRITE" and "uio_offset u = int x"
    and "0 < uio_resid u" and "x + uio_resid u \<le> 73216" and "sfi_size i \<le> 73216"
    and "uio_ok w" and "uio_rw w = UIO_READ" and "uio_offset w = int x" and "uio_resid w = uio_resid u"
  shows "wpK (bindK (sfs_write dv p) (\<lambda>_. bindK (on_uio (modK (\<lambda>_. w))) (\<lambda>_. sfs_read dv p)))
     (\<lambda>_ (s', u'). u' = uio_put (uio_next (uio_resid u) u) w)
     (\<lambda>e (s', u'). e \<in> {ENOSPC, EIO, EFAULT}) (s, u)" (is "wpK _ ?Q ?E _")
proof -
  have "wpK (sfs_io dv p) (\<lambda>_ y. wpK (sfs_io dv p) ?Q ?E (fst y, w)) ?E (s, u)"
  proof (rule wp_mono [OF sfs_disk.io_write [OF assms(1-8)]])
    fix y
    assume "(\<exists>i'. wr_file dinv sec nsec N n p i s x (uio_next (uio_resid u) u) i' (fst y)) \<and> snd y = uio_skip (uio_resid u) u"
    then obtain i' where w: "wr_file dinv sec nsec N n p i s x (uio_next (uio_resid u) u) i' (fst y)" by auto
    then have z: "sfi_size i' = max (sfi_size i) (x + uio_resid u)" by (simp add: wr_file_def)
    have "min (uio_resid w) (sfi_size i' - x) = uio_resid u" using assms(12) by (simp add: z)
    then have f: "fbytes (sec (sfs_device (fst y))) i' x (min (uio_resid w) (sfi_size i' - x)) = uio_next (uio_resid u) u"
      using wr_file_fbytes [OF w] by simp
    show "wpK (sfs_io dv p) ?Q ?E (fst y, w)"
      by (rule wp_mono [OF sfs_disk.io_read [OF assms(1) wr_file_at [OF w] assms(9-11)]])
        (use assms z f in \<open>auto simp: rd_done_def rd_part_def\<close>)
  qed auto
  then show ?thesis using assms(4,10) by (simp add: sfs_write_def sfs_read_def wp)
qed

theorem sfs_write_then_read_witness:
  "wpK (bindK (sfs_write (lhd_device (sim_hw (\<lambda>_. False) (\<lambda>_. False)) 2048) 100)
       (\<lambda>_. bindK (on_uio (modK (\<lambda>_. example_write\<lparr>uio_rw := UIO_READ\<rparr>)))
       (\<lambda>_. sfs_read (lhd_device (sim_hw (\<lambda>_. False) (\<lambda>_. False)) 2048) 100)))
     (\<lambda>_ (s', u'). u' = uio_put (uio_next 16 example_write) (example_write\<lparr>uio_rw := UIO_READ\<rparr>))
     (\<lambda>e (s', u'). e \<in> {ENOSPC, EIO, EFAULT}) (example_fs, example_write)"
proof -
  have r: "uio_rw example_write = UIO_WRITE" "uio_offset example_write = int 4000" "uio_resid example_write = 16"
    "sfi_size example_inode = 700" by (simp_all add: example_write_def mk_kuio_def example_inode_def)
  have w: "uio_ok (example_write\<lparr>uio_rw := UIO_READ\<rparr>)" using example_write_ok by (simp add: uio_ok_def)
  show ?thesis
    by (rule wp_mono [OF sfs_write_then_read [OF simd.sd.sfs_disk_axioms example_ok example_write_ok r(1,2) _ _ _ w]])
      (use r in auto)
qed

end
