(* ===== verification/SFS_Dir.thy ===== *)
theory SFS_Dir
  imports SFS_Rw
begin

text \<open>
  Directories of SFS, the section ``Directory I/O'' of \<^verbatim>\<open>kern/fs/sfs/sfs_vnode.c\<close>. A directory is a file of
  64-byte entries, an inode number and a name; entries with inode number 0 are free slots.

  A C string is the list of its bytes without the terminator. The out-parameters of
  \<^verbatim>\<open>sfs_dir_findname\<close> are the fields of a record; its result code is returned next to them,
  since a caller looks at both when the name was not found.
\<close>

section \<open>Definitions\<close>

definition cstr :: "byte list \<Rightarrow> byte list" where
  "cstr bs = takeWhile (\<lambda>b. b \<noteq> 0) bs"

text \<open>Running an operation with a \<^verbatim>\<open>struct uio\<close> on the stack.\<close>

definition with_kuio :: "uio \<Rightarrow> ('d sfs_fs \<times> uio, unit) kern \<Rightarrow> ('d sfs_fs, uio) kern" where
  "with_kuio ku m s =
     (case m (s, ku) of
        None \<Rightarrow> None
      | Some (Inl e, (s', u')) \<Rightarrow> Some (Inl e, s')
      | Some (Inr _, (s', u')) \<Rightarrow> Some (Inr u', s'))"

definition sfs_readdir :: "'d device \<Rightarrow> nat \<Rightarrow> int \<Rightarrow> ('d sfs_fs, sfs_dir) kern" where
  "sfs_readdir dv sv slot =
     (let actualpos = s32 (slot * 64) in
      bindK (with_kuio (mk_kuio KBUF 64 actualpos UIO_READ (kbuf_mem (replicate 64 0)) None) (sfs_io dv sv)) (\<lambda>ku.
        if uio_resid ku > 0 then panicK
        else retK (dec_dir (get_at KBUF 64 (m_byte (uio_mem ku))))))"

definition sfs_writedir :: "'d device \<Rightarrow> nat \<Rightarrow> sfs_dir \<Rightarrow> int \<Rightarrow> ('d sfs_fs, unit) kern" where
  "sfs_writedir dv sv sd slot =
     bindK (assertK (slot \<ge> 0)) (\<lambda>_.
     (let actualpos = s32 (slot * 64) in
      bindK (with_kuio (mk_kuio KBUF 64 actualpos UIO_WRITE (kbuf_mem (enc_dir sd)) None) (sfs_io dv sv)) (\<lambda>ku.
        if uio_resid ku > 0 then panicK else retK ())))"

definition sfs_dir_nentries :: "nat \<Rightarrow> ('d sfs_fs, int) kern" where
  "sfs_dir_nentries sv =
     bindK (svget sv sv_i) (\<lambda>i.
     bindK (assertK (sfi_type i = SFS_TYPE_DIR)) (\<lambda>_.
       if sfi_size i mod 64 \<noteq> 0 then panicK else retK (s32 (int (sfi_size i div 64)))))"

record dirsearch =
  ds_ino :: "nat option"
  ds_slot :: "int option"
  ds_empty :: int

text \<open>The loop over the slots; \<open>n\<close> of them are left, starting with slot \<open>i\<close>.\<close>

fun sfs_dir_scan :: "'d device \<Rightarrow> nat \<Rightarrow> byte list \<Rightarrow> nat \<Rightarrow> nat \<Rightarrow> dirsearch
    \<Rightarrow> ('d sfs_fs, errno option \<times> dirsearch) kern" where
  "sfs_dir_scan dv sv name 0 i d = retK (if ds_slot d \<noteq> None then None else Some ENOENT, d)"
| "sfs_dir_scan dv sv name (Suc n) i d =
     bindK (tryK (sfs_readdir dv sv (int i))) (\<lambda>r.
       case r of
         Inl e \<Rightarrow> retK (Some e, d)
       | Inr tsd \<Rightarrow>
           if sfd_ino tsd = SFS_NOINO then sfs_dir_scan dv sv name n (Suc i) (d\<lparr>ds_empty := int i\<rparr>)
           else if cstr ((sfd_name tsd)[59 := 0]) = name then
             bindK (assertK (ds_slot d = None)) (\<lambda>_.
             sfs_dir_scan dv sv name n (Suc i) (d\<lparr>ds_slot := Some (int i), ds_ino := Some (sfd_ino tsd)\<rparr>))
           else sfs_dir_scan dv sv name n (Suc i) d)"

definition sfs_dir_findname :: "'d device \<Rightarrow> nat \<Rightarrow> byte list \<Rightarrow> ('d sfs_fs, errno option \<times> dirsearch) kern" where
  "sfs_dir_findname dv sv name =
     bindK (sfs_dir_nentries sv) (\<lambda>nentries.
     sfs_dir_scan dv sv name (nat nentries) 0 \<lparr>ds_ino = None, ds_slot = None, ds_empty = - 1\<rparr>)"

text \<open>\<^verbatim>\<open>sfs_dir_link\<close> returns the slot it used.\<close>

definition sfs_dir_link :: "'d device \<Rightarrow> nat \<Rightarrow> byte list \<Rightarrow> nat \<Rightarrow> ('d sfs_fs, int) kern" where
  "sfs_dir_link dv sv name ino =
     bindK (sfs_dir_findname dv sv name) (\<lambda>(result, d).
       if result \<noteq> None \<and> result \<noteq> Some ENOENT then failK (the result)
       else if result = None then failK EEXIST
       else if length name + 1 > SFS_NAMELEN then failK ENAMETOOLONG
       else
         bindK (if ds_empty d < 0 then sfs_dir_nentries sv else retK (ds_empty d)) (\<lambda>emptyslot.
         bindK (sfs_writedir dv sv \<lparr>sfd_ino = ino, sfd_name = name @ replicate (SFS_NAMELEN - length name) 0\<rparr> emptyslot) (\<lambda>_.
         retK emptyslot)))"

definition sfs_dir_unlink :: "'d device \<Rightarrow> nat \<Rightarrow> int \<Rightarrow> ('d sfs_fs, unit) kern" where
  "sfs_dir_unlink dv sv slot =
     sfs_writedir dv sv \<lparr>sfd_ino = SFS_NOINO, sfd_name = replicate SFS_NAMELEN 0\<rparr> slot"

section \<open>Directories as lists of entries and as maps\<close>

definition dent :: "(nat \<Rightarrow> byte list) \<Rightarrow> sfs_inode \<Rightarrow> nat \<Rightarrow> sfs_dir" where
  "dent dk i j = dec_dir (fbytes dk i (64 * j) 64)"

definition dents :: "(nat \<Rightarrow> byte list) \<Rightarrow> sfs_inode \<Rightarrow> sfs_dir list" where
  "dents dk i = map (dent dk i) [0..<sfi_size i div 64]"

definition dname :: "sfs_dir \<Rightarrow> byte list" where
  "dname sd = cstr ((sfd_name sd)[59 := 0])"

definition used :: "sfs_dir \<Rightarrow> bool" where
  "used sd \<longleftrightarrow> sfd_ino sd \<noteq> SFS_NOINO"

definition dir_map :: "sfs_dir list \<Rightarrow> byte list \<rightharpoonup> nat" where
  "dir_map ds = map_of (map (\<lambda>sd. (dname sd, sfd_ino sd)) (filter used ds))"

definition dir_distinct :: "sfs_dir list \<Rightarrow> bool" where
  "dir_distinct ds \<longleftrightarrow> distinct (map dname (filter used ds))"

text \<open>A directory that can be searched: whole entries, and each name at most once.\<close>

definition dir_ok :: "(nat \<Rightarrow> byte list) \<Rightarrow> sfs_inode \<Rightarrow> bool" where
  "dir_ok dk i \<longleftrightarrow> sfi_type i = SFS_TYPE_DIR \<and> sfi_size i mod 64 = 0 \<and> sfi_size i \<le> 73216 \<and> dir_distinct (dents dk i)"

lemma length_dents [simp]: "length (dents dk i) = sfi_size i div 64"
  by (simp add: dents_def)

lemma dents_nth: "j < sfi_size i div 64 \<Longrightarrow> dents dk i ! j = dent dk i j"
  by (simp add: dents_def)

lemma dir_map_None: "dir_map ds name = None \<longleftrightarrow> (\<forall>sd \<in> set ds. used sd \<longrightarrow> dname sd \<noteq> name)"
  by (auto simp: dir_map_def map_of_eq_None_iff image_image)

lemma dir_map_Some:
  assumes "dir_distinct ds" "sd \<in> set ds" "used sd"
  shows "dir_map ds (dname sd) = Some (sfd_ino sd)"
  unfolding dir_map_def
proof (rule map_of_is_SomeI)
  show "distinct (map fst (map (\<lambda>sd. (dname sd, sfd_ino sd)) (filter used ds)))"
    using assms(1) by (simp add: dir_distinct_def comp_def)
  show "(dname sd, sfd_ino sd) \<in> set (map (\<lambda>sd. (dname sd, sfd_ino sd)) (filter used ds))"
    using assms(2,3) by auto
qed

text \<open>Two used entries with one name are the same entry.\<close>

lemma dir_distinct_nth:
  assumes "dir_distinct ds" "j < length ds" "k < length ds" "used (ds ! j)" "used (ds ! k)" "dname (ds ! j) = dname (ds ! k)"
  shows "j = k"
proof -
  have "\<not> (a < b \<and> b < length ds \<and> used (ds ! a) \<and> used (ds ! b) \<and> dname (ds ! a) = dname (ds ! b))" for a b
  proof
    assume ab: "a < b \<and> b < length ds \<and> used (ds ! a) \<and> used (ds ! b) \<and> dname (ds ! a) = dname (ds ! b)"
    have "ds = take b ds @ ds ! b # drop (Suc b) ds" using ab by (simp add: id_take_nth_drop)
    then have "distinct (map dname (filter used (take b ds @ ds ! b # drop (Suc b) ds)))"
      using assms(1) by (simp add: dir_distinct_def)
    moreover have "ds ! a \<in> set (take b ds)" using ab by (metis in_set_conv_nth length_take min_less_iff_conj nth_take less_trans)
    ultimately show False using ab by (auto simp: image_iff)
  qed
  from this [of j k] this [of k j] assms show ?thesis by (metis linorder_neqE_nat)
qed

section \<open>Reading\<close>

lemma wp_with_kuio [wp]:
  "wpK (with_kuio u m) Q E = (\<lambda>s. wpK m (\<lambda>_ y. Q (snd y) (fst y)) (\<lambda>e y. E e (fst y)) (s, u))"
  by (rule ext) (auto simp: wpK_def with_kuio_def split: option.splits sum.splits prod.splits)

lemma wp_nentries:
  assumes "sfs_heap s p = Some v" "sv_i v = i" "sfi_type i = SFS_TYPE_DIR" "sfi_size i mod 64 = 0" "sfi_size i \<le> 73216"
  shows "wpK (sfs_dir_nentries p) Q E s = Q (int (sfi_size i div 64)) s"
  using assms by (simp add: sfs_dir_nentries_def wp)

definition dir_uio :: "byte list \<Rightarrow> nat \<Rightarrow> uio_rw \<Rightarrow> uio" where
  "dir_uio bs j rw = mk_kuio KBUF 64 (int (64 * j)) rw (kbuf_mem bs) None"

lemma dir_uio_simps [simp]:
  "uio_rw (dir_uio bs j rw) = rw" "uio_offset (dir_uio bs j rw) = int (64 * j)" "uio_resid (dir_uio bs j rw) = 64"
  "iov_base (dir_uio bs j rw) = KBUF"
  by (simp_all add: dir_uio_def mk_kuio_def)

lemma dir_uio_ok: "j < 1145 \<Longrightarrow> uio_ok (dir_uio bs j rw)"
  unfolding dir_uio_def by (rule mk_kuio_ok) (simp_all add: KBUF_def kbuf_mem_def)

lemma dir_uio_next: "length bs = 64 \<Longrightarrow> uio_next 64 (dir_uio bs j rw) = bs"
  using get_put_at [of KBUF bs "\<lambda>_. 0"] by (simp add: uio_next_def dir_uio_def mk_kuio_def kbuf_mem_def)

lemma dir_pos: "j < 1145 \<Longrightarrow> s32 (int j * 64) = int (64 * j)"
  by simp

text \<open>The state of the search after the first \<open>i\<close> slots.\<close>

definition scanned :: "sfs_dir list \<Rightarrow> byte list \<Rightarrow> nat \<Rightarrow> dirsearch \<Rightarrow> bool" where
  "scanned ds name i d \<longleftrightarrow>
     (case ds_slot d of
        None \<Rightarrow> (\<forall>j < i. used (ds ! j) \<longrightarrow> dname (ds ! j) \<noteq> name)
      | Some z \<Rightarrow> \<exists>j < i. z = int j \<and> used (ds ! j) \<and> dname (ds ! j) = name \<and> ds_ino d = Some (sfd_ino (ds ! j))) \<and>
     (ds_empty d = - 1 \<and> (\<forall>j < i. used (ds ! j)) \<or> (\<exists>j < i. ds_empty d = int j \<and> \<not> used (ds ! j)))"

lemma scanned_free:
  "scanned ds name i d \<Longrightarrow> \<not> used (ds ! i) \<Longrightarrow> scanned ds name (Suc i) (d\<lparr>ds_empty := int i\<rparr>)"
  by (auto simp: scanned_def less_Suc_eq split: option.splits)

lemma scanned_other:
  "scanned ds name i d \<Longrightarrow> used (ds ! i) \<Longrightarrow> dname (ds ! i) \<noteq> name \<Longrightarrow> scanned ds name (Suc i) d"
  by (auto simp: scanned_def less_Suc_eq split: option.splits)

lemma scanned_hit:
  "scanned ds name i d \<Longrightarrow> used (ds ! i) \<Longrightarrow> dname (ds ! i) = name \<Longrightarrow>
     scanned ds name (Suc i) (d\<lparr>ds_slot := Some (int i), ds_ino := Some (sfd_ino (ds ! i))\<rparr>)"
  by (auto simp: scanned_def less_Suc_eq split: option.splits)

lemma scanned_once:
  assumes "dir_distinct ds" "scanned ds name i d" "used (ds ! i)" "dname (ds ! i) = name" "i < length ds"
  shows "ds_slot d = None"
proof (rule ccontr)
  assume "ds_slot d \<noteq> None"
  then obtain j where "j < i" "used (ds ! j)" "dname (ds ! j) = name"
    using assms(2) by (auto simp: scanned_def)
  then show False using dir_distinct_nth [OF assms(1), of j i] assms(3-5) by auto
qed

context sfs_disk begin

lemma readdir_wp:
  assumes at: "fs_at dinv sec nsec N n p i s" and j: "64 * j + 64 \<le> sfi_size i" "sfi_size i \<le> 73216"
  shows "wpK (sfs_readdir dv p (int j)) (\<lambda>sd s'. sd = dent (sec (sfs_device s)) i j \<and> rd_step dinv sec nsec N n p i s s')
     (\<lambda>e s'. e \<in> {EIO, EFAULT} \<and> rd_step dinv sec nsec N n p i s s') s"
proof -
  have j': "j < 1145" using j by simp
  have len: "min 64 (sfi_size i - 64 * j) = 64" using j by simp
  have g: "get_at KBUF 64 (put_at KBUF bs f) = bs" if "length bs = 64" for bs f
    using get_put_at [of KBUF bs f] that by simp
  show ?thesis
    unfolding sfs_readdir_def Let_def wp_bind wp_with_kuio dir_pos [OF j'] dir_uio_def [symmetric]
    by (rule wp_mono [OF io_read [OF at dir_uio_ok [OF j'] dir_uio_simps(1,2)]])
      (use j len in \<open>auto simp: rd_done_def rd_part_def wp g dent_def\<close>)
qed

lemma scan_wp:
  assumes at: "fs_at dinv sec nsec N n p i s" and ok: "dir_ok (sec (sfs_device s)) i"
    and d: "scanned (dents (sec (sfs_device s)) i) name j d" and k: "j + k = sfi_size i div 64"
  shows "wpK (sfs_dir_scan dv p name k j d)
     (\<lambda>(r, d') s'. rd_step dinv sec nsec N n p i s s' \<and>
        (r \<in> {Some EIO, Some EFAULT} \<or> r = (if ds_slot d' = None then Some ENOENT else None) \<and>
           scanned (dents (sec (sfs_device s)) i) name (sfi_size i div 64) d'))
     (\<lambda>_ _. False) s"
  using at ok d k
proof (induction k arbitrary: s j d)
  case 0
  then show ?case using rd_step_refl by (auto simp: wp)
next
  case (Suc k)
  let ?ds = "dents (sec (sfs_device s)) i"
  let ?Q = "\<lambda>(r, d') s'. rd_step dinv sec nsec N n p i s s' \<and>
        (r \<in> {Some EIO, Some EFAULT} \<or> r = (if ds_slot d' = None then Some ENOENT else None) \<and>
           scanned ?ds name (sfi_size i div 64) d')"
  have j: "j < sfi_size i div 64" "64 * j + 64 \<le> sfi_size i" "sfi_size i \<le> 73216"
    using Suc.prems(2,4) by (auto simp: dir_ok_def)
  have ent: "dent (sec (sfs_device s)) i j = ?ds ! j" using dents_nth [OF j(1)] by simp
  have dist: "dir_distinct ?ds" using Suc.prems(2) by (simp add: dir_ok_def)
  show ?case
    unfolding sfs_dir_scan.simps wp_bind wp_try
  proof (rule wp_mono [OF readdir_wp [OF Suc.prems(1) j(2,3)]])
    fix sd s1
    assume "sd = dent (sec (sfs_device s)) i j \<and> rd_step dinv sec nsec N n p i s s1"
    then have sd: "sd = ?ds ! j" and s1: "rd_step dinv sec nsec N n p i s s1" using ent by auto
    note at1 = rd_step_at [OF Suc.prems(1) s1]
    have dk: "sec (sfs_device s1) = sec (sfs_device s)" using s1 by (simp add: rd_step_def)
    have go: "wpK (sfs_dir_scan dv p name k (Suc j) d') ?Q (\<lambda>_ _. False) s1" if "scanned ?ds name (Suc j) d'" for d'
      by (rule wp_mono [OF Suc.IH [OF at1, unfolded dk, OF Suc.prems(2) that]])
        (use Suc.prems(4) rd_step_trans [OF Suc.prems(1) s1] in auto)
    show "wpK (case Inr sd of Inl e \<Rightarrow> retK (Some e, d)
       | Inr tsd \<Rightarrow>
           if sfd_ino tsd = SFS_NOINO then sfs_dir_scan dv p name k (Suc j) (d\<lparr>ds_empty := int j\<rparr>)
           else if cstr ((sfd_name tsd)[59 := 0]) = name then
             bindK (assertK (ds_slot d = None)) (\<lambda>_.
             sfs_dir_scan dv p name k (Suc j) (d\<lparr>ds_slot := Some (int j), ds_ino := Some (sfd_ino tsd)\<rparr>))
           else sfs_dir_scan dv p name k (Suc j) d) ?Q (\<lambda>_ _. False) s1"
      unfolding sum.case dname_def [symmetric] sd wp_if wp_bind wp_assert
      using go scanned_free [OF Suc.prems(3)] scanned_other [OF Suc.prems(3)] scanned_hit [OF Suc.prems(3)]
        scanned_once [OF dist Suc.prems(3)] j(1)
      by (simp add: used_def)
  qed (auto simp: wp)
qed

lemma findname_wp:
  assumes at: "fs_at dinv sec nsec N n p i s" and ok: "dir_ok (sec (sfs_device s)) i"
  shows "wpK (sfs_dir_findname dv p name)
     (\<lambda>(r, d) s'. rd_step dinv sec nsec N n p i s s' \<and>
        (r \<in> {Some EIO, Some EFAULT} \<or> r = (if ds_slot d = None then Some ENOENT else None) \<and>
           scanned (dents (sec (sfs_device s)) i) name (sfi_size i div 64) d))
     (\<lambda>_ _. False) s"
proof -
  obtain v where v: "sfs_heap s p = Some v" "sv_i v = i" using fs_atD(5) [OF at] by auto
  have o: "sfi_type i = SFS_TYPE_DIR" "sfi_size i mod 64 = 0" "sfi_size i \<le> 73216" using ok by (auto simp: dir_ok_def)
  have "scanned (dents (sec (sfs_device s)) i) name 0 \<lparr>ds_ino = None, ds_slot = None, ds_empty = - 1\<rparr>"
    by (simp add: scanned_def)
  from scan_wp [OF at ok this] show ?thesis
    unfolding sfs_dir_findname_def wp_bind wp_nentries [OF v o] by simp
qed

end

section \<open>Changing one entry\<close>

lemma dir_split: "j < length ds \<Longrightarrow> ds = take j ds @ ds ! j # drop (Suc j) ds \<and> ds[j := sd] = take j ds @ sd # drop (Suc j) ds"
  by (simp add: id_take_nth_drop upd_conv_take_nth_drop)

lemma dir_map_append: "dir_map (xs @ ys) = dir_map ys ++ dir_map xs"
  by (simp add: dir_map_def)

lemma dir_map_Cons: "dir_map (sd # ds) = (if used sd then (dir_map ds)(dname sd \<mapsto> sfd_ino sd) else dir_map ds)"
  by (simp add: dir_map_def)

lemma dir_map_dom: "dir_map ds name = None \<Longrightarrow> sd \<in> set ds \<Longrightarrow> used sd \<Longrightarrow> dname sd \<noteq> name"
  by (auto simp: dir_map_None)

text \<open>A free slot is filled with a name that is not in the directory.\<close>

lemma dir_insert:
  assumes ds: "dir_distinct (xs @ ys)" and new: "dir_map (xs @ ys) (dname sd) = None" "used sd"
  shows "dir_map (xs @ sd # ys) = (dir_map (xs @ ys))(dname sd \<mapsto> sfd_ino sd)" "dir_distinct (xs @ sd # ys)"
proof -
  have "dir_map xs (dname sd) = None" using new(1) by (auto simp: dir_map_append map_add_None)
  then show "dir_map (xs @ sd # ys) = (dir_map (xs @ ys))(dname sd \<mapsto> sfd_ino sd)"
    using new(2) by (auto simp: dir_map_append dir_map_Cons map_add_def fun_eq_iff split: option.splits)
  show "dir_distinct (xs @ sd # ys)"
  proof -
    have "dname sd \<notin> dname ` {x \<in> set (xs @ ys). used x}" using dir_map_dom [OF new(1)] by (metis (mono_tags, lifting) imageE mem_Collect_eq)
    then show ?thesis using ds new(2) by (auto simp: dir_distinct_def)
  qed
qed

lemma dir_drop_free:
  "\<not> used sd \<Longrightarrow> dir_map (xs @ sd # ys) = dir_map (xs @ ys) \<and> dir_distinct (xs @ sd # ys) = dir_distinct (xs @ ys)"
  by (simp add: dir_map_append dir_map_Cons dir_distinct_def)

lemma dir_fill:
  assumes "dir_distinct ds" "j < length ds" "\<not> used (ds ! j)" "dir_map ds (dname sd) = None" "used sd"
  shows "dir_map (ds[j := sd]) = (dir_map ds)(dname sd \<mapsto> sfd_ino sd)" "dir_distinct (ds[j := sd])"
proof -
  let ?xs = "take j ds" and ?ys = "drop (Suc j) ds"
  note sp = dir_split [OF assms(2), of sd]
  have old: "dir_map ds = dir_map (?xs @ ?ys)" "dir_distinct ds = dir_distinct (?xs @ ?ys)"
    using sp dir_drop_free [OF assms(3), of ?xs ?ys] by metis+
  show "dir_map (ds[j := sd]) = (dir_map ds)(dname sd \<mapsto> sfd_ino sd)" "dir_distinct (ds[j := sd])"
    using dir_insert [of ?xs ?ys sd] assms old sp by auto
qed

lemma dir_extend:
  assumes "dir_distinct ds" "dir_map ds (dname sd) = None" "used sd"
  shows "dir_map (ds @ [sd]) = (dir_map ds)(dname sd \<mapsto> sfd_ino sd)" "dir_distinct (ds @ [sd])"
  using dir_insert [of ds "[]" sd] assms by auto

text \<open>A slot is freed.\<close>

lemma dir_erase:
  assumes ds: "dir_distinct ds" "j < length ds" "used (ds ! j)" and sd: "\<not> used sd"
  shows "dir_map (ds[j := sd]) = (dir_map ds)(dname (ds ! j) := None)" "dir_distinct (ds[j := sd])"
proof -
  let ?xs = "take j ds" and ?ys = "drop (Suc j) ds"
  note sp = dir_split [OF ds(2), of sd]
  have d: "dir_distinct (?xs @ ds ! j # ?ys)" using ds(1) sp by metis
  have none: "dir_map (?xs @ ?ys) (dname (ds ! j)) = None"
    using d ds(3) by (auto simp: dir_map_None dir_distinct_def image_iff)
  have d': "dir_distinct (?xs @ ?ys)" using d ds(3) by (auto simp: dir_distinct_def)
  have old: "dir_map ds = (dir_map (?xs @ ?ys))(dname (ds ! j) \<mapsto> sfd_ino (ds ! j))"
    using dir_insert(1) [OF d' none ds(3)] sp by metis
  have new: "dir_map (ds[j := sd]) = dir_map (?xs @ ?ys)" "dir_distinct (ds[j := sd])"
    using dir_drop_free [OF sd, of ?xs ?ys] sp d' by auto
  show "dir_map (ds[j := sd]) = (dir_map ds)(dname (ds ! j) := None)"
    unfolding new old using none by auto
  show "dir_distinct (ds[j := sd])" by (rule new)
qed

section \<open>Writing\<close>

lemma fbytes_wrote:
  assumes "wrote dk i x bs dk' i'" "y + len \<le> x \<or> x + length bs \<le> y"
  shows "fbytes dk' i' y len = fbytes dk i y len"
  using assms by (intro nth_equalityI) (auto simp: fbytes_def wrote_def)

lemma wr_dents:
  assumes w: "wr_file din sc ns N n p i s (64 * j) (enc_dir sd) i' s'" and sd: "dir_wf sd"
    and i: "sfi_size i = 64 * m" "j \<le> m"
  shows "dents (sc (sfs_device s')) i' = (if j < m then (dents (sc (sfs_device s)) i)[j := sd] else dents (sc (sfs_device s)) i @ [sd])"
    "sfi_size i' = 64 * max m (Suc j)" "sfi_type i' = sfi_type i"
proof -
  let ?dk = "sc (sfs_device s)" and ?dk' = "sc (sfs_device s')"
  have wr: "wrote ?dk i (64 * j) (enc_dir sd) ?dk' i'" using w by (simp add: wr_file_def)
  show sz: "sfi_size i' = 64 * max m (Suc j)" "sfi_type i' = sfi_type i"
    using w i sd by (auto simp: wr_file_def max_def)
  have j: "dent ?dk' i' j = sd" using wr_file_fbytes [OF w] sd by (simp add: dent_def)
  have k: "dent ?dk' i' k = dent ?dk i k" if "k \<noteq> j" for k
    unfolding dent_def using that sd by (subst fbytes_wrote [OF wr]) auto
  show "dents ?dk' i' = (if j < m then (dents ?dk i)[j := sd] else dents ?dk i @ [sd])"
  proof (cases "j < m")
    case True
    then have "max m (Suc j) = m" by simp
    with True show ?thesis using sz i j k by (intro nth_equalityI) (auto simp: dents_nth nth_list_update)
  next
    case False
    then have "max m (Suc j) = Suc m" "j = m" using i by auto
    with False show ?thesis using sz i j k by (intro nth_equalityI) (auto simp: dents_nth nth_append less_Suc_eq)
  qed
qed

lemma wr_nothing:
  assumes "wr_file din sc ns N n p i s x [] i' s'" "x \<le> sfi_size i"
  shows "dents (sc (sfs_device s')) i' = dents (sc (sfs_device s)) i" "sfi_size i' = sfi_size i" "sfi_type i' = sfi_type i"
proof -
  have wr: "wrote (sc (sfs_device s)) i x [] (sc (sfs_device s')) i'" using assms by (simp add: wr_file_def)
  show sz: "sfi_size i' = sfi_size i" "sfi_type i' = sfi_type i" using assms by (auto simp: wr_file_def)
  have "dent (sc (sfs_device s')) i' k = dent (sc (sfs_device s)) i k" for k
    using wr unfolding dent_def fbytes_def wrote_Nil by presburger
  then show "dents (sc (sfs_device s')) i' = dents (sc (sfs_device s)) i" using sz by (simp add: dents_def)
qed

lemma cstr_name: "0 \<notin> set name \<Longrightarrow> cstr (name @ replicate k 0) = name"
  by (induction name) (auto simp: cstr_def takeWhile_replicate)

lemma dname_new:
  assumes "0 \<notin> set name" "length name < 60"
  shows "dname \<lparr>sfd_ino = ino, sfd_name = name @ replicate (60 - length name) 0\<rparr> = name"
proof -
  have "(name @ replicate (60 - length name) 0)[59 := 0] = name @ replicate (60 - length name) 0"
    using assms(2) by (intro nth_equalityI) (auto simp: nth_list_update nth_append)
  then show ?thesis using cstr_name [OF assms(1)] by (simp add: dname_def)
qed

lemma scanned_lookup:
  assumes "dir_distinct ds" "scanned ds name (length ds) d"
  shows "ds_slot d = None \<longleftrightarrow> dir_map ds name = None"
    "ds_slot d = Some z \<Longrightarrow> \<exists>j < length ds. z = int j \<and> used (ds ! j) \<and> dname (ds ! j) = name \<and>
       ds_ino d = Some (sfd_ino (ds ! j)) \<and> dir_map ds name = Some (sfd_ino (ds ! j))"
proof -
  have some: "\<exists>j < length ds. z = int j \<and> used (ds ! j) \<and> dname (ds ! j) = name \<and>
       ds_ino d = Some (sfd_ino (ds ! j)) \<and> dir_map ds name = Some (sfd_ino (ds ! j))" if "ds_slot d = Some z" for z
    using assms(2) that dir_map_Some [OF assms(1)] by (fastforce simp: scanned_def)
  have none: "dir_map ds name = None" if "ds_slot d = None"
    using assms(2) that by (auto simp: scanned_def dir_map_None in_set_conv_nth)
  show "ds_slot d = None \<longleftrightarrow> dir_map ds name = None" using some none by (cases "ds_slot d") auto
  show "ds_slot d = Some z \<Longrightarrow> \<exists>j < length ds. z = int j \<and> used (ds ! j) \<and> dname (ds ! j) = name \<and>
       ds_ino d = Some (sfd_ino (ds ! j)) \<and> dir_map ds name = Some (sfd_ino (ds ! j))" by (rule some)
qed

lemma scanned_empty:
  "scanned ds name (length ds) d \<Longrightarrow> ds_empty d < 0 \<or> (\<exists>j < length ds. ds_empty d = int j \<and> \<not> used (ds ! j))"
  by (auto simp: scanned_def)

text \<open>A step after which the directory \<open>p\<close> is in order and has the entries \<open>M\<close>.\<close>

definition dir_step :: "('d \<Rightarrow> bool) \<Rightarrow> ('d \<Rightarrow> nat \<Rightarrow> byte list) \<Rightarrow> nat \<Rightarrow> (nat \<rightharpoonup> sfs_inode) \<Rightarrow> nat \<Rightarrow> nat
    \<Rightarrow> 'd sfs_fs \<Rightarrow> (byte list \<rightharpoonup> nat) \<Rightarrow> sfs_inode \<Rightarrow> 'd sfs_fs \<Rightarrow> bool" where
  "dir_step din sc ns N n p s M i' s' \<longleftrightarrow> file_step din sc ns N n p s i' s' \<and>
     dir_ok (sc (sfs_device s')) i' \<and> dir_map (dents (sc (sfs_device s')) i') = M"

lemma rd_file_step: "rd_step din sc ns N n p i s s' \<Longrightarrow> file_step din sc ns N n p s i s'"
  by (simp add: rd_step_def keeps_def)

lemma dir_step_rd:
  "rd_step din sc ns N n p i s s' \<Longrightarrow> dir_ok (sc (sfs_device s)) i \<Longrightarrow>
     dir_step din sc ns N n p s (dir_map (dents (sc (sfs_device s)) i)) i s'"
  using rd_file_step [of din sc ns N n p i s s'] by (simp add: dir_step_def rd_step_def)

lemma rd_wr_file:
  assumes "fs_at din sc ns N n p i s" "rd_step din sc ns N n p i s s1" "wr_file din sc ns N n p i s1 x bs i' s'"
  shows "wr_file din sc ns N n p i s x bs i' s'"
  using assms file_step_trans [OF rd_file_step [OF assms(2)], of i' s'] fs_atD(4) [OF assms(1)]
  by (simp add: wr_file_def rd_step_def)

text \<open>One entry written into a free slot or at the end, and one erased.\<close>

lemma dir_step_link:
  assumes ok: "dir_ok (sc (sfs_device s)) i" and w: "wr_file din sc ns N n p i s (64 * j) (enc_dir sd) i' s'"
    and sd: "dir_wf sd" "used sd" "dir_map (dents (sc (sfs_device s)) i) (dname sd) = None"
    and j: "j = sfi_size i div 64 \<or> j < sfi_size i div 64 \<and> \<not> used (dents (sc (sfs_device s)) i ! j)"
      "sfi_size i + 64 \<le> 73216"
  shows "dir_step din sc ns N n p s ((dir_map (dents (sc (sfs_device s)) i))(dname sd \<mapsto> sfd_ino sd)) i' s'"
    "j < sfi_size i' div 64" "dents (sc (sfs_device s')) i' ! j = sd"
    "\<forall>l < sfi_size i div 64. used (dents (sc (sfs_device s)) i ! l) \<longrightarrow>
       l < sfi_size i' div 64 \<and> dents (sc (sfs_device s')) i' ! l = dents (sc (sfs_device s)) i ! l"
proof -
  let ?ds = "dents (sc (sfs_device s)) i"
  define m where "m = sfi_size i div 64"
  have m: "sfi_size i = 64 * m" "j \<le> m" "length ?ds = m" using ok j by (auto simp: dir_ok_def m_def)
  have dist: "dir_distinct ?ds" using ok by (simp add: dir_ok_def)
  note d = wr_dents [OF w sd(1) m(1,2)]
  have M: "dir_map (dents (sc (sfs_device s')) i') = (dir_map ?ds)(dname sd \<mapsto> sfd_ino sd) \<and>
      dir_distinct (dents (sc (sfs_device s')) i')"
  proof (cases "j < m")
    case True
    then show ?thesis using dir_fill [OF dist _ _ sd(3,2), of j] j d(1) m by (auto simp: m_def [symmetric])
  next
    case False
    then show ?thesis using dir_extend [OF dist sd(3,2)] d(1) by auto
  qed
  then show "dir_step din sc ns N n p s ((dir_map ?ds)(dname sd \<mapsto> sfd_ino sd)) i' s'"
    using w ok d(2,3) m j by (auto simp: dir_step_def dir_ok_def wr_file_def)
  show "j < sfi_size i' div 64" using d(2) by simp
  show "dents (sc (sfs_device s')) i' ! j = sd" using d(1) m by (auto simp: nth_append)
  show "\<forall>l < sfi_size i div 64. used (?ds ! l) \<longrightarrow>
       l < sfi_size i' div 64 \<and> dents (sc (sfs_device s')) i' ! l = ?ds ! l"
    using d(1,2) m j by (auto simp: m_def [symmetric] nth_append nth_list_update)
qed

lemma dir_step_unlink:
  assumes ok: "dir_ok (sc (sfs_device s)) i" and w: "wr_file din sc ns N n p i s (64 * j) (enc_dir sd) i' s'"
    and sd: "dir_wf sd" "\<not> used sd" and j: "j < sfi_size i div 64" "used (dents (sc (sfs_device s)) i ! j)"
  shows "dir_step din sc ns N n p s ((dir_map (dents (sc (sfs_device s)) i))(dname (dents (sc (sfs_device s)) i ! j) := None)) i' s'"
proof -
  let ?ds = "dents (sc (sfs_device s)) i"
  define m where "m = sfi_size i div 64"
  have m: "sfi_size i = 64 * m" "j \<le> m" "length ?ds = m" using ok j by (auto simp: dir_ok_def m_def)
  have dist: "dir_distinct ?ds" using ok by (simp add: dir_ok_def)
  note d = wr_dents [OF w sd(1) m(1,2)]
  have "dir_map (dents (sc (sfs_device s')) i') = (dir_map ?ds)(dname (?ds ! j) := None) \<and>
      dir_distinct (dents (sc (sfs_device s')) i')"
    using dir_erase [OF dist _ j(2) sd(2)] d(1) m(3) j(1) by (simp add: m_def [symmetric])
  moreover have "max m (Suc j) = m" using j(1) by (simp add: m_def)
  ultimately show ?thesis
    using w ok d(2,3) m by (auto simp: dir_step_def dir_ok_def wr_file_def)
qed

lemma dir_step_none:
  assumes ok: "dir_ok (sc (sfs_device s)) i" and w: "wr_file din sc ns N n p i s (64 * j) [] i' s'"
    and j: "j \<le> sfi_size i div 64"
  shows "dir_step din sc ns N n p s (dir_map (dents (sc (sfs_device s)) i)) i' s'"
    "dents (sc (sfs_device s')) i' = dents (sc (sfs_device s)) i"
proof -
  have "64 * j \<le> sfi_size i" using j by simp
  note d = wr_nothing [OF w this]
  show "dir_step din sc ns N n p s (dir_map (dents (sc (sfs_device s)) i)) i' s'"
    using w ok d by (auto simp: dir_step_def dir_ok_def wr_file_def)
  show "dents (sc (sfs_device s')) i' = dents (sc (sfs_device s)) i" by (rule d)
qed

context sfs_disk begin

lemma writedir_wp:
  assumes at: "fs_at dinv sec nsec N n p i s" and sd: "dir_wf sd"
    and j: "64 * j + 64 \<le> 73216" "sfi_size i \<le> 73216"
  shows "wpK (sfs_writedir dv p sd (int j)) (\<lambda>_ s'. \<exists>i'. wr_file dinv sec nsec N n p i s (64 * j) (enc_dir sd) i' s')
     (\<lambda>e s'. e \<in> {ENOSPC, EIO, EFAULT} \<and> (\<exists>i'. wr_file dinv sec nsec N n p i s (64 * j) [] i' s')) s"
proof -
  let ?u = "dir_uio (enc_dir sd) j UIO_WRITE"
  have j': "j < 1145" using j by simp
  have len: "length (enc_dir sd) = 64" using sd by simp
  have zero: "d = 0" if "d < 64" "d = 0 \<or> (64 * j + d) mod 512 = 0" for d
  proof (rule ccontr)
    assume "d \<noteq> 0"
    with that have "(512 :: nat) dvd 64 * j + d" by auto
    then have "(64 :: nat) dvd 64 * j + d" by (rule dvd_trans [rotated]) simp
    then have "64 dvd d" by (simp add: dvd_add_right_iff)
    with that(1) \<open>d \<noteq> 0\<close> show False by (auto dest: dvd_imp_le)
  qed
  show ?thesis
    unfolding sfs_writedir_def Let_def wp_bind wp_assert wp_with_kuio dir_pos [OF j'] dir_uio_def [symmetric]
  proof (intro conjI, simp, rule wp_mono [OF io_write [OF at dir_uio_ok [OF j'] dir_uio_simps(1,2)]])
    fix y :: "'d sfs_fs \<times> uio"
    assume "(\<exists>i'. wr_file dinv sec nsec N n p i s (64 * j) (uio_next (uio_resid ?u) ?u) i' (fst y)) \<and>
      snd y = uio_skip (uio_resid ?u) ?u"
    then show "wpK (if 0 < uio_resid (snd y) then panicK else retK ())
        (\<lambda>_ s'. \<exists>i'. wr_file dinv sec nsec N n p i s (64 * j) (enc_dir sd) i' s')
        (\<lambda>e s'. e \<in> {ENOSPC, EIO, EFAULT} \<and> (\<exists>i'. wr_file dinv sec nsec N n p i s (64 * j) [] i' s')) (fst y)"
      by (simp add: wp dir_uio_next [OF len])
  next
    fix e and y :: "'d sfs_fs \<times> uio"
    assume a: "e \<in> {ENOSPC, EIO, EFAULT} \<and> (\<exists>d i'. d < uio_resid ?u \<and> (d = 0 \<or> (64 * j + d) mod 512 = 0) \<and>
        wr_file dinv sec nsec N n p i s (64 * j) (uio_next d ?u) i' (fst y) \<and>
        uio_resid (snd y) = uio_resid ?u - d \<and> uio_offset (snd y) = int (64 * j + d))"
    then obtain d i' where "d < 64" "d = 0 \<or> (64 * j + d) mod 512 = 0"
        "wr_file dinv sec nsec N n p i s (64 * j) (uio_next d ?u) i' (fst y)"
      unfolding dir_uio_simps by (elim conjE exE) (rule that)
    with zero [of d] a show "e \<in> {ENOSPC, EIO, EFAULT} \<and> (\<exists>i'. wr_file dinv sec nsec N n p i s (64 * j) [] i' (fst y))"
      by auto
  qed (use j in simp_all)
qed

lemma link_put_wp:
  assumes at: "fs_at dinv sec nsec N n p i s" and ok: "dir_ok (sec (sfs_device s)) i" and room: "sfi_size i + 64 \<le> 73216"
    and name: "0 \<notin> set name" "length name < 60" "dir_map (dents (sec (sfs_device s)) i) name = None"
    and ino: "0 < ino" "ino < 4294967296" and d: "scanned (dents (sec (sfs_device s)) i) nm (sfi_size i div 64) d"
  shows "wpK (bindK (if ds_empty d < 0 then sfs_dir_nentries p else retK (ds_empty d)) (\<lambda>emptyslot.
         bindK (sfs_writedir dv p \<lparr>sfd_ino = ino, sfd_name = name @ replicate (60 - length name) 0\<rparr> emptyslot) (\<lambda>_.
         retK emptyslot)))
     (\<lambda>slot s'. \<exists>i' j. slot = int j \<and>
        dir_step dinv sec nsec N n p s ((dir_map (dents (sec (sfs_device s)) i))(name \<mapsto> ino)) i' s' \<and>
        j < sfi_size i' div 64 \<and> used (dents (sec (sfs_device s')) i' ! j) \<and> dname (dents (sec (sfs_device s')) i' ! j) = name \<and>
        (\<forall>l < sfi_size i div 64. used (dents (sec (sfs_device s)) i ! l) \<longrightarrow>
           l < sfi_size i' div 64 \<and> dents (sec (sfs_device s')) i' ! l = dents (sec (sfs_device s)) i ! l))
     (\<lambda>e s'. e \<in> {ENOSPC, EIO, EFAULT} \<and>
        (\<exists>i'. dir_step dinv sec nsec N n p s (dir_map (dents (sec (sfs_device s)) i)) i' s')) s" (is "wpK _ ?Q ?E s")
proof -
  let ?ds = "dents (sec (sfs_device s)) i"
  let ?sd = "\<lparr>sfd_ino = ino, sfd_name = name @ replicate (60 - length name) 0\<rparr>"
  obtain v where v: "sfs_heap s p = Some v" "sv_i v = i" using fs_atD(5) [OF at] by auto
  have o: "sfi_type i = SFS_TYPE_DIR" "sfi_size i mod 64 = 0" "sfi_size i \<le> 73216" using ok by (auto simp: dir_ok_def)
  have sd: "dir_wf ?sd" "used ?sd" "dname ?sd = name" using ino name dname_new by (auto simp: dir_wf_def used_def SFS_NOINO_def)
  have put: "wpK (bindK (sfs_writedir dv p ?sd (int j)) (\<lambda>_. retK (int j))) ?Q ?E s"
    if j: "j = sfi_size i div 64 \<or> j < sfi_size i div 64 \<and> \<not> used (?ds ! j)" for j
    unfolding wp_bind wp_ret
  proof (rule wp_mono [OF writedir_wp [OF at sd(1) _ o(3)]])
    have "j \<le> sfi_size i div 64" using j by auto
    then show "64 * j + 64 \<le> 73216" using room by linarith
    fix u s' assume "\<exists>i'. wr_file dinv sec nsec N n p i s (64 * j) (enc_dir ?sd) i' s'"
    then obtain i' where w: "wr_file dinv sec nsec N n p i s (64 * j) (enc_dir ?sd) i' s'" ..
    have none: "dir_map ?ds (dname ?sd) = None" using name(3) sd(3) by simp
    note l = dir_step_link [where sc = sec and s = s, OF ok w sd(1,2) none j room]
    show "?Q (int j) s'" using l sd by (intro exI [of _ i'] exI [of _ j]) (simp add: sd(3))
  next
    fix e s' assume "e \<in> {ENOSPC, EIO, EFAULT} \<and> (\<exists>i'. wr_file dinv sec nsec N n p i s (64 * j) [] i' s')"
    moreover have "j \<le> sfi_size i div 64" using j by auto
    ultimately show "?E e s'" using dir_step_none [where sc = sec and s = s, OF ok, of dinv nsec N n p j] by blast
  qed
  have len: "length ?ds = sfi_size i div 64" by simp
  show ?thesis
  proof (cases "ds_empty d < 0")
    case True
    show ?thesis unfolding if_P [OF True] wp_bind [of "sfs_dir_nentries p"] wp_nentries [OF v o] by (rule put) simp
  next
    case False
    from scanned_empty [of ?ds nm d] d False len obtain j where j: "j < sfi_size i div 64" "ds_empty d = int j" "\<not> used (?ds ! j)"
      by auto
    show ?thesis unfolding if_not_P [OF False] unfolding j(2) wp_bind [of "retK _"] wp_ret [of "int j"] by (rule put) (use j in simp)
  qed
qed

lemma dir_step_after_rd:
  assumes "fs_at dinv sec nsec N n p i s" "rd_step dinv sec nsec N n p i s s1" "dir_step dinv sec nsec N n p s1 M i' s'"
  shows "dir_step dinv sec nsec N n p s M i' s'"
  using assms file_step_trans [OF rd_file_step [OF assms(2)], of i' s'] fs_atD(4) [OF assms(1)]
  by (simp add: dir_step_def)

lemma dir_link_wp:
  assumes at: "fs_at dinv sec nsec N n p i s" and ok: "dir_ok (sec (sfs_device s)) i" and room: "sfi_size i + 64 \<le> 73216"
    and name: "0 \<notin> set name" and ino: "0 < ino" "ino < 4294967296"
  shows "wpK (sfs_dir_link dv p name ino)
     (\<lambda>slot s'. \<exists>i' j. slot = int j \<and> dir_map (dents (sec (sfs_device s)) i) name = None \<and>
        dir_step dinv sec nsec N n p s ((dir_map (dents (sec (sfs_device s)) i))(name \<mapsto> ino)) i' s' \<and>
        j < sfi_size i' div 64 \<and> used (dents (sec (sfs_device s')) i' ! j) \<and> dname (dents (sec (sfs_device s')) i' ! j) = name \<and>
        (\<forall>l < sfi_size i div 64. used (dents (sec (sfs_device s)) i ! l) \<longrightarrow>
           l < sfi_size i' div 64 \<and> dents (sec (sfs_device s')) i' ! l = dents (sec (sfs_device s)) i ! l))
     (\<lambda>e s'. (\<exists>i'. dir_step dinv sec nsec N n p s (dir_map (dents (sec (sfs_device s)) i)) i' s') \<and>
        (e = EEXIST \<and> dir_map (dents (sec (sfs_device s)) i) name \<noteq> None \<or> e = ENAMETOOLONG \<and> 60 \<le> length name \<or>
         e \<in> {ENOSPC, EIO, EFAULT})) s" (is "wpK _ ?Q ?E s")
proof -
  let ?ds = "dents (sec (sfs_device s)) i"
  have dist: "dir_distinct ?ds" and len: "length ?ds = sfi_size i div 64" using ok by (auto simp: dir_ok_def)
  show ?thesis
    unfolding sfs_dir_link_def wp_bind [of "sfs_dir_findname dv p name"] SFS_NAMELEN_def
  proof (rule wp_mono [OF findname_wp [OF at ok]], clarify)
    fix r d s1
    assume rd: "rd_step dinv sec nsec N n p i s s1"
      and r: "r \<in> {Some EIO, Some EFAULT} \<or> r = (if ds_slot d = None then Some ENOENT else None) \<and>
           scanned ?ds name (sfi_size i div 64) d"
    have dk: "sec (sfs_device s1) = sec (sfs_device s)" and at1: "fs_at dinv sec nsec N n p i s1"
      using rd rd_step_at [OF at rd] by (auto simp: rd_step_def)
    note same = dir_step_rd [OF rd ok]
    consider (err) e where "r = Some e" "e \<in> {EIO, EFAULT}" | (found) z where "r = None" "ds_slot d = Some z"
        "scanned ?ds name (sfi_size i div 64) d" | (new) "r = Some ENOENT" "ds_slot d = None" "scanned ?ds name (sfi_size i div 64) d"
      using r by (auto split: if_splits)
    then show "wpK (if r \<noteq> None \<and> r \<noteq> Some ENOENT then failK (the r) else if r = None then failK EEXIST
         else if 60 < length name + 1 then failK ENAMETOOLONG
         else bindK (if ds_empty d < 0 then sfs_dir_nentries p else retK (ds_empty d)) (\<lambda>emptyslot.
           bindK (sfs_writedir dv p \<lparr>sfd_ino = ino, sfd_name = name @ replicate (60 - length name) 0\<rparr> emptyslot) (\<lambda>_.
           retK emptyslot))) ?Q ?E s1"
    proof cases
      case err
      then show ?thesis using same by (auto simp: wp)
    next
      case found
      then show ?thesis using same scanned_lookup(1) [OF dist, of name d] len by (auto simp: wp)
    next
      case new
      have none: "dir_map ?ds name = None" using scanned_lookup(1) [OF dist, of name d] new len by simp
      show ?thesis
      proof (cases "length name < 60")
        case True
        have go: "wpK (bindK (if ds_empty d < 0 then sfs_dir_nentries p else retK (ds_empty d)) (\<lambda>emptyslot.
           bindK (sfs_writedir dv p \<lparr>sfd_ino = ino, sfd_name = name @ replicate (60 - length name) 0\<rparr> emptyslot) (\<lambda>_.
           retK emptyslot))) ?Q ?E s1"
          by (rule wp_mono [OF link_put_wp [OF at1 _ room name True _ ino, unfolded dk, OF ok none new(3)]])
            (use none dir_step_after_rd [OF at rd] in blast)+
        then show ?thesis using new(1) True by simp
      next
        case False
        then show ?thesis using new(1) same by (auto simp: wp)
      qed
    qed
  qed simp
qed

lemma dir_unlink_wp:
  assumes at: "fs_at dinv sec nsec N n p i s" and ok: "dir_ok (sec (sfs_device s)) i"
    and j: "j < sfi_size i div 64" "used (dents (sec (sfs_device s)) i ! j)"
  shows "wpK (sfs_dir_unlink dv p (int j))
     (\<lambda>_ s'. \<exists>i'. dir_step dinv sec nsec N n p s
        ((dir_map (dents (sec (sfs_device s)) i))(dname (dents (sec (sfs_device s)) i ! j) := None)) i' s')
     (\<lambda>e s'. e \<in> {ENOSPC, EIO, EFAULT} \<and>
        (\<exists>i'. dir_step dinv sec nsec N n p s (dir_map (dents (sec (sfs_device s)) i)) i' s' \<and>
           dents (sec (sfs_device s')) i' = dents (sec (sfs_device s)) i)) s"
  unfolding sfs_dir_unlink_def
proof (rule wp_mono [OF writedir_wp [OF at]])
  let ?sd = "\<lparr>sfd_ino = SFS_NOINO, sfd_name = replicate SFS_NAMELEN 0\<rparr>"
  show sd: "dir_wf ?sd" by (simp add: dir_wf_def SFS_NOINO_def SFS_NAMELEN_def)
  have n: "\<not> used ?sd" by (simp add: used_def)
  show o: "sfi_size i \<le> 73216" using ok by (simp add: dir_ok_def)
  then show "64 * j + 64 \<le> 73216" using j by linarith
  fix u s' assume "\<exists>i'. wr_file dinv sec nsec N n p i s (64 * j) (enc_dir ?sd) i' s'"
  then show "\<exists>i'. dir_step dinv sec nsec N n p s
        ((dir_map (dents (sec (sfs_device s)) i))(dname (dents (sec (sfs_device s)) i ! j) := None)) i' s'"
    using dir_step_unlink [where sc = sec and s = s, OF ok _ sd n j, of dinv nsec N n p] by blast
next
  fix e s' assume "e \<in> {ENOSPC, EIO, EFAULT} \<and> (\<exists>i'. wr_file dinv sec nsec N n p i s (64 * j) [] i' s')"
  moreover have "j \<le> sfi_size i div 64" using j by auto
  ultimately show "e \<in> {ENOSPC, EIO, EFAULT} \<and>
        (\<exists>i'. dir_step dinv sec nsec N n p s (dir_map (dents (sec (sfs_device s)) i)) i' s' \<and>
           dents (sec (sfs_device s')) i' = dents (sec (sfs_device s)) i)"
    using dir_step_none [where sc = sec and s = s, OF ok, of dinv nsec N n p j] by blast
qed

end

section \<open>A directory with one entry\<close>

definition example_dir :: sfs_inode where
  "example_dir = \<lparr>sfi_size = 64, sfi_type = SFS_TYPE_DIR, sfi_linkcount = 1,
     sfi_direct = [4, 0, 0, 0, 0, 0, 0, 0, 0, 0, 0, 0, 0, 0, 0], sfi_indirect = 0, sfi_waste = replicate 110 0\<rparr>"

definition example_dir_fs :: "(simdisk lhd_softc) sfs_fs" where
  "example_dir_fs = example_fs\<lparr>sfs_heap := [100 \<mapsto> \<lparr>vn_refcount = 1, vn_opencount = 1, vn_ops = SFS_DIROPS,
     sv_i = example_dir, sv_ino = 3, sv_dirty = True\<rparr>]\<rparr>"

lemma example_dir_ok: "fs_at (lhd_inv sim_idle 2048) (lhd_sec sd_disk) 2048 [3 \<mapsto> example_dir] 3 100 example_dir example_dir_fs"
proof -
  have p: "ptrs dk example_dir = [4] @ replicate 143 0" for dk
    by (simp add: ptrs_def example_dir_def id_words_def numeral_eq_Suc)
  have wf: "inode_wf example_dir" by (simp add: inode_wf_def example_dir_def sfs_consts)
  have io: "inode_ok (bits (sfs_freemap example_fs)) 64 dk 3 example_dir" for dk
    unfolding inode_ok_def own_def p example_bits
    using wf by (auto simp: nzdistinct_def example_dir_def sfs_consts sys_blocks_def SFS_BITBLOCKS_def
        SFS_BITMAPSIZE_def SFS_ROUNDUP_def)
  have m: "map_ok 2048 example_dir_fs" using example_map by (simp add: map_ok_def example_dir_fs_def)
  show ?thesis
    using io m example_disk_inv
    by (auto simp: fs_at_def fs_ok_def heap_ok_def example_dir_fs_def example_fs_def split: if_splits)
qed

lemma example_dents: "dents (lhd_sec sd_disk (sfs_device example_dir_fs)) example_dir =
    [\<lparr>sfd_ino = 67372036, sfd_name = replicate 60 4\<rparr>]"
proof -
  have "fbyte (lhd_sec sd_disk (sfs_device example_dir_fs)) example_dir x = 4" if "x < 512" for x
    using that by (simp add: fbyte_def fblk_def bmap_of_def ptrs_def example_dir_def example_dir_fs_def example_fs_def
        lhd_sec_def example_disk_def)
  then have f: "fbytes (lhd_sec sd_disk (sfs_device example_dir_fs)) example_dir 0 64 = replicate 64 4"
    by (intro nth_equalityI) (auto simp: fbytes_def)
  have "replicate 4 4 = [4, 4, 4, 4 :: byte]" by (simp add: numeral_eq_Suc)
  then have "de32 (replicate 4 4) = 67372036" by simp
  moreover have "sfi_size example_dir div 64 = 1" by (simp add: example_dir_def)
  ultimately show ?thesis using f by (simp add: dents_def dent_def dec_dir_def)
qed

lemma example_dir_dir: "dir_ok (lhd_sec sd_disk (sfs_device example_dir_fs)) example_dir"
  using example_dents by (simp add: dir_ok_def example_dir_def dir_distinct_def)

lemma example_lookup: "dir_map (dents (lhd_sec sd_disk (sfs_device example_dir_fs)) example_dir) =
    [replicate 59 4 \<mapsto> 67372036]"
proof -
  have r: "replicate 60 (4 :: byte) = replicate 59 4 @ [4]" by (simp add: replicate_append_same [symmetric] numeral_eq_Suc)
  have "cstr ((replicate 60 4)[59 := 0]) = replicate 59 4"
    unfolding r using cstr_name [of "replicate 59 4" 1] by (simp add: list_update_append)
  then show ?thesis unfolding example_dents by (simp add: dir_map_def used_def dname_def SFS_NOINO_def)
qed

section \<open>Properties\<close>

text \<open>
  Searching a directory finds a name exactly when the directory has it, with its inode number and the slot
  of its entry, and reports ENOENT otherwise, unless the disk fails; the search changes nothing.
\<close>

theorem sfs_dir_findname_exact:
  assumes "sfs_disk dv sec nsec dinv" and "fs_at dinv sec nsec N n p i s" and "dir_ok (sec (sfs_device s)) i"
  shows "wpK (sfs_dir_findname dv p name)
     (\<lambda>(r, d) s'. fs_at dinv sec nsec N n p i s' \<and> sec (sfs_device s') = sec (sfs_device s) \<and>
        (case dir_map (dents (sec (sfs_device s)) i) name of
           None \<Rightarrow> r \<in> {Some ENOENT, Some EIO, Some EFAULT}
         | Some ino \<Rightarrow> r \<in> {Some EIO, Some EFAULT} \<or> r = None \<and> ds_ino d = Some ino \<and>
             (\<exists>j < sfi_size i div 64. ds_slot d = Some (int j) \<and> dname (dents (sec (sfs_device s)) i ! j) = name)))
     (\<lambda>_ _. False) s"
proof (rule wp_mono [OF sfs_disk.findname_wp [OF assms]], clarify)
  let ?ds = "dents (sec (sfs_device s)) i"
  have dist: "dir_distinct ?ds" using assms(3) by (simp add: dir_ok_def)
  fix r d s1
  assume rd: "rd_step dinv sec nsec N n p i s s1"
    and r: "r \<in> {Some EIO, Some EFAULT} \<or> r = (if ds_slot d = None then Some ENOENT else None) \<and>
      scanned ?ds name (sfi_size i div 64) d"
  have "case dir_map ?ds name of None \<Rightarrow> r \<in> {Some ENOENT, Some EIO, Some EFAULT}
         | Some ino \<Rightarrow> r \<in> {Some EIO, Some EFAULT} \<or> r = None \<and> ds_ino d = Some ino \<and>
             (\<exists>j < sfi_size i div 64. ds_slot d = Some (int j) \<and> dname (?ds ! j) = name)"
    using r scanned_lookup [OF dist, of name d] by (auto split: option.splits)
  then show "fs_at dinv sec nsec N n p i s1 \<and> sec (sfs_device s1) = sec (sfs_device s) \<and>
      (case dir_map ?ds name of None \<Rightarrow> r \<in> {Some ENOENT, Some EIO, Some EFAULT}
         | Some ino \<Rightarrow> r \<in> {Some EIO, Some EFAULT} \<or> r = None \<and> ds_ino d = Some ino \<and>
             (\<exists>j < sfi_size i div 64. ds_slot d = Some (int j) \<and> dname (?ds ! j) = name))"
    using rd rd_step_at [OF assms(2) rd] by (simp add: rd_step_def)
qed simp

theorem sfs_dir_findname_exact_witness:
  "wpK (sfs_dir_findname (lhd_device (sim_hw (\<lambda>_. False) (\<lambda>_. False)) 2048) 100 (replicate 59 4))
     (\<lambda>(r, d) s'. r = None \<and> ds_ino d = Some 67372036 \<or> r \<in> {Some EIO, Some EFAULT}) (\<lambda>_ _. False) example_dir_fs"
  by (rule wp_mono [OF sfs_dir_findname_exact [OF simd.sd.sfs_disk_axioms example_dir_ok example_dir_dir]])
    (auto simp: example_lookup)

text \<open>
  Linking a name into a directory that has room adds exactly that name with that inode number and returns
  the slot of the new entry; a name that is there already is refused with EEXIST, a name that does not fit the entry
  with ENAMETOOLONG, and on every error the directory has the entries it had. The volume stays consistent, no other
  file changes, and every name is still there at most once.
\<close>

theorem sfs_dir_link_exact:
  assumes "sfs_disk dv sec nsec dinv" and "fs_at dinv sec nsec N n p i s" and "dir_ok (sec (sfs_device s)) i"
    and "sfi_size i + 64 \<le> 73216" and "0 \<notin> set name" and "0 < ino" and "ino < 4294967296"
  shows "wpK (sfs_dir_link dv p name ino)
     (\<lambda>slot s'. \<exists>i' j. slot = int j \<and> dir_map (dents (sec (sfs_device s)) i) name = None \<and>
        dir_step dinv sec nsec N n p s ((dir_map (dents (sec (sfs_device s)) i))(name \<mapsto> ino)) i' s' \<and>
        j < sfi_size i' div 64 \<and> used (dents (sec (sfs_device s')) i' ! j) \<and> dname (dents (sec (sfs_device s')) i' ! j) = name \<and>
        (\<forall>l < sfi_size i div 64. used (dents (sec (sfs_device s)) i ! l) \<longrightarrow>
           l < sfi_size i' div 64 \<and> dents (sec (sfs_device s')) i' ! l = dents (sec (sfs_device s)) i ! l))
     (\<lambda>e s'. (\<exists>i'. dir_step dinv sec nsec N n p s (dir_map (dents (sec (sfs_device s)) i)) i' s') \<and>
        (e = EEXIST \<and> dir_map (dents (sec (sfs_device s)) i) name \<noteq> None \<or> e = ENAMETOOLONG \<and> 60 \<le> length name \<or>
         e \<in> {ENOSPC, EIO, EFAULT})) s"
  by (rule sfs_disk.dir_link_wp [OF assms])

theorem sfs_dir_link_exact_witness:
  "wpK (sfs_dir_link (lhd_device (sim_hw (\<lambda>_. False) (\<lambda>_. False)) 2048) 100 [97] 7)
     (\<lambda>slot s'. \<exists>i'. dir_step (lhd_inv sim_idle 2048) (lhd_sec sd_disk) 2048 [3 \<mapsto> example_dir] 3 100 example_dir_fs
         [replicate 59 4 \<mapsto> 67372036, [97] \<mapsto> 7] i' s')
     (\<lambda>e s'. e \<in> {ENOSPC, EIO, EFAULT}) example_dir_fs"
proof -
  have "length [97 :: byte] \<noteq> length (replicate 59 (4 :: byte))" by simp
  then have n: "[97] \<noteq> replicate 59 (4 :: byte)" "sfi_size example_dir = 64" by (metis, simp add: example_dir_def)
  show ?thesis
    by (rule wp_mono [OF sfs_dir_link_exact [OF simd.sd.sfs_disk_axioms example_dir_ok example_dir_dir]])
      (use n in \<open>auto simp: example_lookup\<close>)
qed

text \<open>
  Unlinking a slot removes exactly the name of that slot; an error leaves the entries of the directory as
  they were.
\<close>

theorem sfs_dir_unlink_exact:
  assumes "sfs_disk dv sec nsec dinv" and "fs_at dinv sec nsec N n p i s" and "dir_ok (sec (sfs_device s)) i"
    and "j < sfi_size i div 64" and "used (dents (sec (sfs_device s)) i ! j)"
  shows "wpK (sfs_dir_unlink dv p (int j))
     (\<lambda>_ s'. \<exists>i'. dir_step dinv sec nsec N n p s
        ((dir_map (dents (sec (sfs_device s)) i))(dname (dents (sec (sfs_device s)) i ! j) := None)) i' s')
     (\<lambda>e s'. e \<in> {ENOSPC, EIO, EFAULT} \<and>
        (\<exists>i'. dir_step dinv sec nsec N n p s (dir_map (dents (sec (sfs_device s)) i)) i' s' \<and>
           dents (sec (sfs_device s')) i' = dents (sec (sfs_device s)) i)) s"
  by (rule sfs_disk.dir_unlink_wp [OF assms])

theorem sfs_dir_unlink_exact_witness:
  "wpK (sfs_dir_unlink (lhd_device (sim_hw (\<lambda>_. False) (\<lambda>_. False)) 2048) 100 0)
     (\<lambda>_ s'. \<exists>i'. dir_step (lhd_inv sim_idle 2048) (lhd_sec sd_disk) 2048 [3 \<mapsto> example_dir] 3 100 example_dir_fs
         Map.empty i' s')
     (\<lambda>e s'. e \<in> {ENOSPC, EIO, EFAULT}) example_dir_fs"
proof -
  have d: "dir_distinct (dents (lhd_sec sd_disk (sfs_device example_dir_fs)) example_dir)" using example_dir_dir by (simp add: dir_ok_def)
  have z: "0 < sfi_size example_dir div 64" "used (dents (lhd_sec sd_disk (sfs_device example_dir_fs)) example_dir ! 0)"
    by (simp add: example_dir_def, simp add: example_dents used_def SFS_NOINO_def)
  have "dir_map (dents (lhd_sec sd_disk (sfs_device example_dir_fs)) example_dir)
      (dname (dents (lhd_sec sd_disk (sfs_device example_dir_fs)) example_dir ! 0)) \<noteq> None"
    using dir_map_Some [OF d _ z(2)] z(1) by simp
  then have n: "dname (dents (lhd_sec sd_disk (sfs_device example_dir_fs)) example_dir ! 0) = replicate 59 4"
    by (simp add: example_lookup split: if_splits)
  show ?thesis
    by (rule wp_mono [OF sfs_dir_unlink_exact [OF simd.sd.sfs_disk_axioms example_dir_ok example_dir_dir z, simplified]])
      (auto simp: n example_lookup)
qed

end
