(* ===== verification/SFS_Trunc.thy ===== *)
theory SFS_Trunc
  imports SFS_Rw
begin

text \<open>
  Truncation, \<^verbatim>\<open>sfs_truncate\<close> of \<^verbatim>\<open>kern/fs/sfs/sfs_vnode.c\<close>: the loop over the direct pointers, the loop over
  the entries of the indirect block, and the release or the writing back of that block.

  \<open>zap P xs\<close> is the list of pointers \<open>xs\<close> with zeros at the positions \<open>P\<close>; \<open>step_shrink\<close> shows that
  giving up pointers, and the blocks behind them, keeps the invariant of the volume.
\<close>

section \<open>Definitions\<close>

text \<open>\<^verbatim>\<open>DIVROUNDUP(len, SFS_BLOCKSIZE)\<close> with the \<^verbatim>\<open>int\<close> arithmetic of \<^verbatim>\<open>off_t\<close>.\<close>

definition trunc_blocklen :: "int \<Rightarrow> nat" where
  "trunc_blocklen len = i2u32 (cdiv (s32 (len + 511)) 512)"

definition sfs_truncate_direct :: "nat \<Rightarrow> nat \<Rightarrow> nat \<Rightarrow> ('d sfs_fs, unit) kern" where
  "sfs_truncate_direct sv blocklen i =
     bindK (svget sv (\<lambda>v. sfi_direct (sv_i v) ! i)) (\<lambda>block.
     if i \<ge> blocklen \<and> block \<noteq> 0 then
       bindK (sfs_bfree block) (\<lambda>_.
       svmod sv (\<lambda>v. v\<lparr>sv_i := (sv_i v)\<lparr>sfi_direct := (sfi_direct (sv_i v))[i := 0]\<rparr>, sv_dirty := True\<rparr>))
     else retK ())"

definition sfs_truncate_entry :: "nat \<Rightarrow> nat \<Rightarrow> nat list \<times> bool \<times> bool \<Rightarrow> ('d sfs_fs, nat list \<times> bool \<times> bool) kern" where
  "sfs_truncate_entry blocklen j = (\<lambda>(idbuf, hasnonzero, iddirty).
     if blocklen < SFS_NDIRECT + j \<and> idbuf ! j \<noteq> 0 then
       bindK (sfs_bfree (idbuf ! j)) (\<lambda>_. retK (idbuf[j := 0], hasnonzero, True))
     else retK (idbuf, hasnonzero \<or> idbuf ! j \<noteq> 0, iddirty))"

definition sfs_truncate_indirect :: "'d device \<Rightarrow> nat \<Rightarrow> nat \<Rightarrow> nat \<Rightarrow> ('d sfs_fs, unit) kern" where
  "sfs_truncate_indirect dv sv blocklen idblock =
     bindK (sfs_rblock dv idblock) (\<lambda>bs.
     bindK (foldK (sfs_truncate_entry blocklen) [0..<SFS_DBPERIDB] (dec_words 128 bs, False, False))
       (\<lambda>(idbuf, hasnonzero, iddirty).
         if \<not> hasnonzero then
           bindK (sfs_bfree idblock) (\<lambda>_.
           svmod sv (\<lambda>v. v\<lparr>sv_i := (sv_i v)\<lparr>sfi_indirect := 0\<rparr>, sv_dirty := True\<rparr>))
         else if iddirty then sfs_wblock dv (enc_words idbuf) idblock
         else retK ()))"

definition sfs_truncate :: "'d device \<Rightarrow> nat \<Rightarrow> int \<Rightarrow> ('d sfs_fs, unit) kern" where
  "sfs_truncate dv sv len =
     (let blocklen = trunc_blocklen len; highblock = SFS_NDIRECT + SFS_DBPERIDB - 1 in
      bindK (foldK (\<lambda>i _. sfs_truncate_direct sv blocklen i) [0..<SFS_NDIRECT] ()) (\<lambda>_.
      bindK (svget sv (\<lambda>v. sfi_indirect (sv_i v))) (\<lambda>idblock.
      bindK (if blocklen < highblock \<and> idblock \<noteq> 0 then sfs_truncate_indirect dv sv blocklen idblock else retK ()) (\<lambda>_.
      svmod sv (\<lambda>v. v\<lparr>sv_i := (sv_i v)\<lparr>sfi_size := i2u32 len\<rparr>, sv_dirty := True\<rparr>)))))"

section \<open>Giving up pointers\<close>

definition zap :: "(nat \<Rightarrow> bool) \<Rightarrow> nat list \<Rightarrow> nat list" where
  "zap P xs = map (\<lambda>l. if P l then 0 else xs ! l) [0..<length xs]"

definition zapped :: "(nat \<Rightarrow> bool) \<Rightarrow> nat list \<Rightarrow> nat set" where
  "zapped P xs = {xs ! l |l. l < length xs \<and> P l} - {0}"

lemma length_zap [simp]: "length (zap P xs) = length xs"
  by (simp add: zap_def)

lemma zap_nth [simp]: "l < length xs \<Longrightarrow> zap P xs ! l = (if P l then 0 else xs ! l)"
  by (simp add: zap_def)

lemma zap_none: "(\<And>l. l < length xs \<Longrightarrow> P l \<Longrightarrow> xs ! l = 0) \<Longrightarrow> zap P xs = xs"
  by (intro nth_equalityI) auto

lemma zap_append: "zap P (xs @ ys) = zap P xs @ zap (\<lambda>l. P (length xs + l)) ys"
  by (intro nth_equalityI) (auto simp: nth_append)

lemma zap_Cons: "zap P (x # xs) = (if P 0 then 0 else x) # zap (\<lambda>l. P (Suc l)) xs"
  by (intro nth_equalityI) (auto simp: nth_Cons split: nat.splits)

lemma set_zap_sub: "set (zap P xs) \<subseteq> insert 0 (set xs)"
  by (auto simp: in_set_conv_nth split: if_splits) (metis nth_mem)

lemma nzdistinct_zap: "nzdistinct xs \<Longrightarrow> nzdistinct (zap P xs)"
proof (induction xs arbitrary: P)
  case (Cons x xs)
  show ?case
    using set_zap_sub [of "\<lambda>l. P (Suc l)" xs] Cons.IH [OF nzdistinct_tl [OF Cons.prems], of "\<lambda>l. P (Suc l)"] nzdistinct_hd [OF Cons.prems]
    by (auto simp: zap_Cons nzdistinct_def)
qed (simp add: zap_def)

lemma set_zap:
  assumes "nzdistinct xs"
  shows "set (zap P xs) - {0} = set xs - {0} - zapped P xs"
proof (rule set_eqI)
  fix x
  have inj: "l = m" if "xs ! l = x" "xs ! m = x" "x \<noteq> 0" "l < length xs" "m < length xs" for l m
    using nzdistinct_nth [OF assms that(4,5)] that(1-3) by auto
  have "x \<in> set (zap P xs) - {0} \<longleftrightarrow> x \<noteq> 0 \<and> (\<exists>l < length xs. \<not> P l \<and> xs ! l = x)"
    by (auto simp: in_set_conv_nth)
  also have "\<dots> \<longleftrightarrow> x \<noteq> 0 \<and> (\<exists>l < length xs. xs ! l = x) \<and> \<not> (\<exists>l < length xs. P l \<and> xs ! l = x)"
    using inj by metis
  also have "\<dots> \<longleftrightarrow> x \<in> set xs - {0} - zapped P xs"
    by (auto simp: zapped_def in_set_conv_nth)
  finally show "x \<in> set (zap P xs) - {0} \<longleftrightarrow> x \<in> set xs - {0} - zapped P xs" .
qed

lemma zapped_iff: "y \<in> zapped P xs \<longleftrightarrow> y \<noteq> 0 \<and> (\<exists>l < length xs. P l \<and> xs ! l = y)"
  by (auto simp: zapped_def)

lemma zapped_Cons: "zapped P (x # xs) = (if P 0 \<and> x \<noteq> 0 then {x} else {}) \<union> zapped (\<lambda>l. P (Suc l)) xs"
  by (rule set_eqI) (auto simp: zapped_iff Ex_less_Suc2)

lemma zapped_append: "zapped P (xs @ ys) = zapped P xs \<union> zapped (\<lambda>l. P (length xs + l)) ys"
proof (induction xs arbitrary: P)
  case Nil
  then show ?case by (simp add: zapped_def)
next
  case (Cons x xs)
  then show ?case by (simp add: zapped_Cons Un_assoc)
qed

lemma zapped_none: "(\<And>l. l < length xs \<Longrightarrow> \<not> P l) \<Longrightarrow> zapped P xs = {}"
  by (auto simp: zapped_def)

lemma zapped_cong: "(\<And>l. l < length xs \<Longrightarrow> xs ! l \<noteq> 0 \<Longrightarrow> P l = Q l) \<Longrightarrow> zapped P xs = zapped Q xs"
  unfolding zapped_def by blast

lemma zapped_sub: "zapped P xs \<subseteq> set xs - {0}"
  by (auto simp: zapped_def)

lemma step_shrink:
  fixes s s' :: "'d sfs_fs" and sc :: "'d \<Rightarrow> nat \<Rightarrow> byte list"
  defines "dk \<equiv> sc (sfs_device s)" and "dk' \<equiv> sc (sfs_device s')"
  assumes at: "fs_at din sc ns N n p i s"
    and s': "din (sfs_device s')" "same_fs s s'" "bitmap_ok (sfs_freemap s')"
      "bits (sfs_freemap s') = bits (sfs_freemap s) - zapped P (ptrs dk i)"
    and h: "sfs_heap s p = Some v" "sfs_heap s' = (sfs_heap s)(p \<mapsto> v')" "same_vn v v'" "sv_i v' = i'"
      "sv_dirty v' \<or> sv_dirty v' = sv_dirty v \<and> i' = i"
    and same: "\<And>c. sfi_indirect i = 0 \<or> c \<noteq> sfi_indirect i \<Longrightarrow> dk' c = dk c"
    and ptr: "ptrs dk' i' = zap P (ptrs dk i)"
    and wf: "inode_wf i'" "sfi_type i' = sfi_type i"
  shows "file_step din sc ns N n p s i' s'"
proof -
  note ok = fs_atD(2) [OF at, folded dk_def] and N = fs_atD(3) [OF at]
  note io = fs_atD(6) [OF at, folded dk_def] and mp = fs_atD(7) [OF at]
  note iD = inode_okD [OF io]
  have v: "sv_ino v = n" "sv_i v = i" using fs_atD(5) [OF at] h(1) by auto
  have nb: "sp_nblocks (sfs_super s') = sp_nblocks (sfs_super s)" "nbits (sfs_freemap s') = nbits (sfs_freemap s)"
    using s'(2) by (simp_all add: same_fs_def)
  note sz = set_zap [OF iD(4), of P] and sub = zapped_sub [of P "ptrs dk i"]
  have zo: "zapped P (ptrs dk i) \<subseteq> own dk n i" using sub by (auto simp: own_def)
  have own': "own dk' n i' = own dk n i - zapped P (ptrs dk i)"
    using sz iD(3,5) sub by (auto simp: own_def ptr)
  have map': "map_ok ns s'"
    using mp s'(3) nb zo iD(7,8) unfolding map_ok_def s'(4) by fastforce
  have disj: "own dk n i \<inter> own dk m j = {}" if "m \<noteq> n" "N m = Some j" for m j
    using fs_okD(4) [OF ok N that(2)] that(1) by auto
  have others: "own dk m j \<subseteq> bits (sfs_freemap s') \<and> (\<forall>c \<in> own dk m j. dk' c = dk c) \<and>
      own dk' n i' \<inter> own dk m j = {}" if m: "m \<noteq> n" "N m = Some j" for m j
  proof -
    have "own dk m j \<subseteq> bits (sfs_freemap s)" using inode_okD(6) [OF fs_okD(3) [OF ok m(2)]] .
    moreover have "dk' c = dk c" if "c \<in> own dk m j" for c
      using that disj [OF m] indirect_own [of i dk n] by (intro same) auto
    ultimately show ?thesis using own' zo disj [OF m] s'(4) by blast
  qed
  have n': "inode_ok (bits (sfs_freemap s')) (sp_nblocks (sfs_super s')) dk' n i'"
  proof -
    have "n \<notin> set (zap P (ptrs dk i))" using sz iD(3,5) by auto
    then have "nzdistinct (n # ptrs dk' i')"
      unfolding ptr using nzdistinct_zap [OF iD(4)] by (intro nzdistinct_Cons)
    moreover have "own dk' n i' \<subseteq> bits (sfs_freemap s') \<inter> {..<sp_nblocks (sfs_super s')} - sys_blocks (sp_nblocks (sfs_super s'))"
      unfolding nb s'(4) own' using iD(6-8) by blast
    ultimately show ?thesis using wf iD(9) by (simp add: inode_ok_def)
  qed
  have "dk' n = dk n" using iD(5) by (intro same) (auto simp: ptrs_def)
  then have clean: "sv_dirty v' \<or> dk' n = enc_inode i'"
    using h(5) v heap_okD(2) [OF fs_okD(2) [OF ok] h(1)] by auto
  have "fs_ok ns dk' (N(n \<mapsto> i')) s'"
    by (rule fs_ok_update [OF ok h(1) v(1) map' nb(1) others n' h(2) _ h(4) clean])
      (use h(3) v in \<open>auto simp: same_vn_def\<close>)
  moreover have "file_frame sc N n p s s'"
  proof (rule file_frameI [OF h(1,2,3) s'(2)], fold dk_def dk'_def)
    show "dk' c = dk c" if "m \<noteq> n" "N m = Some j" "c \<in> own dk m j" for m j c
      using others [OF that(1,2)] that(3) by blast
    show "dk' c = dk c" if "c \<in> sys_blocks (sp_nblocks (sfs_super s))" for c
      using that iD(8) indirect_own [of i dk n] by (intro same) auto
  qed
  ultimately show ?thesis
    using s'(1) h(2,3,4) v(1) by (simp add: file_step_def fs_at_def dk'_def same_vn_def)
qed

text \<open>The blocks a file gives up are exactly those that return to the free map.\<close>

definition let_go :: "('d \<Rightarrow> nat \<Rightarrow> byte list) \<Rightarrow> nat \<Rightarrow> sfs_inode \<Rightarrow> 'd sfs_fs \<Rightarrow> sfs_inode \<Rightarrow> 'd sfs_fs \<Rightarrow> bool" where
  "let_go sc n i s i' s' \<longleftrightarrow> own (sc (sfs_device s')) n i' \<subseteq> own (sc (sfs_device s)) n i \<and>
     bits (sfs_freemap s') = bits (sfs_freemap s) - (own (sc (sfs_device s)) n i - own (sc (sfs_device s')) n i')"

lemma let_go_trans: "let_go sc n i s i1 s1 \<Longrightarrow> let_go sc n i1 s1 i2 s2 \<Longrightarrow> let_go sc n i s i2 s2"
  unfolding let_go_def by auto

lemma let_go_same:
  "ptrs (sc (sfs_device s')) i' = ptrs (sc (sfs_device s)) i \<Longrightarrow> bits (sfs_freemap s') = bits (sfs_freemap s) \<Longrightarrow> let_go sc n i s i' s'"
  by (simp add: let_go_def own_def)

lemma let_go_shrink:
  assumes io: "inode_ok used nb (sc (sfs_device s)) n i"
    and ptr: "ptrs (sc (sfs_device s')) i' = zap P (ptrs (sc (sfs_device s)) i)"
    and b: "bits (sfs_freemap s') = bits (sfs_freemap s) - zapped P (ptrs (sc (sfs_device s)) i)"
  shows "let_go sc n i s i' s'"
proof -
  note iD = inode_okD [OF io]
  let ?p = "ptrs (sc (sfs_device s)) i"
  have "own (sc (sfs_device s')) n i' = own (sc (sfs_device s)) n i - zapped P ?p" "zapped P ?p \<subseteq> own (sc (sfs_device s)) n i"
    using set_zap [OF iD(4), of P] zapped_sub [of P ?p] iD(3,5) by (auto simp: own_def ptr)
  then show ?thesis using b unfolding let_go_def by auto
qed

lemma bmap_shrink:
  assumes io: "inode_ok used nb dk n i" and ptr: "ptrs dk' i' = zap P (ptrs dk i)"
    and len: "length (sfi_direct i') = 15" and k: "k < 143"
  shows "bmap_of dk' i' k = (if P (if k < 15 then k else Suc k) then 0 else bmap_of dk i k)"
proof -
  let ?y = "if k < 15 then k else Suc k"
  note iD = inode_okD [OF io]
  have "bmap_of dk i k = ptrs dk i ! ?y" and "bmap_of dk' i' k = zap P (ptrs dk i) ! ?y"
    using bmap_of_ptrs [OF iD(2) k] bmap_of_ptrs [OF len k] ptr by simp_all
  moreover have "?y < length (ptrs dk i)" using k iD(2) by simp
  ultimately show ?thesis by simp
qed

section \<open>The loops\<close>

text \<open>The blocks \<open>B\<close> were returned to the free map.\<close>

definition freed :: "nat set \<Rightarrow> 'd sfs_fs \<Rightarrow> 'd sfs_fs \<Rightarrow> bool" where
  "freed B s s' \<longleftrightarrow> (\<exists>m' fd. s' = s\<lparr>sfs_freemap := m', sfs_freemapdirty := fd\<rparr> \<and> bitmap_ok m' \<and>
     nbits m' = nbits (sfs_freemap s) \<and> bits m' = bits (sfs_freemap s) - B)"

lemma freedD:
  assumes "freed B s s'"
  shows "bitmap_ok (sfs_freemap s')" "bits (sfs_freemap s') = bits (sfs_freemap s) - B" "same_fs s s'"
    "sfs_heap s' = sfs_heap s" "sfs_device s' = sfs_device s"
  using assms unfolding freed_def same_fs_def by fastforce+

lemma freed_refl: "bitmap_ok (sfs_freemap s) \<Longrightarrow> freed {} s s"
  unfolding freed_def by (intro exI [of _ "sfs_freemap s"] exI [of _ "sfs_freemapdirty s"]) simp

lemma bfree_wp:
  assumes "freed B s s1" "b \<in> bits (sfs_freemap s)" "b \<notin> B"
  shows "wpK (sfs_bfree b) (\<lambda>_ s'. freed (insert b B) s s') (\<lambda>_ _. False) s1"
  unfolding sfs_bfree_def wp_bind wp_on_freemap wp_mod
proof (rule wp_mono [OF bitmap_unmark_wp])
  note f = freedD [OF assms(1)]
  show "bitmap_ok (sfs_freemap s1)" "b \<in> bits (sfs_freemap s1)" using f assms by auto
  fix u m'
  assume m': "bits m' = bits (sfs_freemap s1) - {b} \<and> nbits m' = nbits (sfs_freemap s1) \<and> bitmap_ok m'"
  obtain m fd where s1: "s1 = s\<lparr>sfs_freemap := m, sfs_freemapdirty := fd\<rparr>" "nbits m = nbits (sfs_freemap s)"
      "bits m = bits (sfs_freemap s) - B"
    using assms(1) unfolding freed_def by blast
  show "freed (insert b B) s (s1\<lparr>sfs_freemap := m'\<rparr>\<lparr>sfs_freemapdirty := True\<rparr>)"
    unfolding freed_def by (intro exI [of _ m'] exI [of _ True]) (use m' s1 in auto)
qed simp

definition cutd :: "nat \<Rightarrow> nat \<Rightarrow> sfs_inode \<Rightarrow> sfs_inode" where
  "cutd bl k i = i\<lparr>sfi_direct := zap (\<lambda>l. l < k \<and> bl \<le> l) (sfi_direct i)\<rparr>"

lemma cutd_simps [simp]:
  "sfi_size (cutd bl k i) = sfi_size i" "sfi_type (cutd bl k i) = sfi_type i" "sfi_linkcount (cutd bl k i) = sfi_linkcount i"
  "sfi_indirect (cutd bl k i) = sfi_indirect i" "sfi_waste (cutd bl k i) = sfi_waste i"
  "sfi_direct (cutd bl k i) = zap (\<lambda>l. l < k \<and> bl \<le> l) (sfi_direct i)" "id_words dk (cutd bl k i) = id_words dk i"
  by (simp_all add: cutd_def id_words_def)

lemma cutd_0: "cutd bl 0 i = i"
  by (simp add: cutd_def zap_none)

lemma inode_wf_cutd: "inode_wf i \<Longrightarrow> inode_wf (cutd bl k i)"
  using set_zap_sub [of "\<lambda>l. l < k \<and> bl \<le> l" "sfi_direct i"] by (auto simp: inode_wf_def)

lemma bmap_cutd:
  assumes "inode_ok used nb dk n i" "k < 143"
  shows "bmap_of dk (cutd bl 15 i) k = (if k < 15 \<and> bl \<le> k then 0 else bmap_of dk i k)"
  using assms inode_okD(2) [OF assms(1)] by (simp add: bmap_of_def)

lemma fblk_cutd:
  assumes "inode_ok used nb dk n i" "k < 143"
  shows "fblk dk (cutd bl 15 i) k = (if k < 15 \<and> bl \<le> k then replicate 512 0 else fblk dk i k)"
  using bmap_cutd [OF assms] by (simp add: fblk_def)

lemma truncate_direct_wp:
  assumes at: "fs_at din sc ns N n p i s" and st: "file_step din sc ns N n p s (cutd bl k i) s1" and k: "k < 15"
    and dk: "sc (sfs_device s1) = sc (sfs_device s)" and lg: "let_go sc n i s (cutd bl k i) s1"
  shows "wpK (sfs_truncate_direct p bl k)
     (\<lambda>_ s'. file_step din sc ns N n p s (cutd bl (Suc k) i) s' \<and> sc (sfs_device s') = sc (sfs_device s) \<and>
        let_go sc n i s (cutd bl (Suc k) i) s') (\<lambda>_ _. False) s1"
proof -
  let ?i = "cutd bl k i" and ?j = "cutd bl (Suc k) i" and ?N = "N(n \<mapsto> cutd bl k i)" and ?dk = "sc (sfs_device s1)"
  have at1: "fs_at din sc ns ?N n p ?i s1" using st by (simp add: file_step_def)
  note io = inode_okD [OF fs_atD(6) [OF at1]]
  have len: "length (sfi_direct i) = 15" using io(2) by simp
  obtain v where v: "sfs_heap s1 p = Some v" "sv_ino v = n" "sv_i v = ?i" using fs_atD(5) [OF at1] by blast
  define b where "b = sfi_direct i ! k"
  have b: "sfi_direct (sv_i v) ! k = b" using k len by (simp add: v(3) b_def)
  show ?thesis
  proof (cases "bl \<le> k \<and> b \<noteq> 0")
    case False
    then have "zap (\<lambda>l. l < Suc k \<and> bl \<le> l) (sfi_direct i) = zap (\<lambda>l. l < k \<and> bl \<le> l) (sfi_direct i)"
      using k len by (auto simp: b_def less_Suc_eq intro!: nth_equalityI)
    then have "?j = ?i" by (simp add: cutd_def)
    then show ?thesis
      unfolding sfs_truncate_direct_def wp_bind wp_svget v(1) option.case b if_not_P [OF False] wp_ret using st dk lg by simp
  next
    case True
    have P: "zap (\<lambda>l. l < Suc k \<and> bl \<le> l) (sfi_direct i) = zap (\<lambda>l. l = k) (sfi_direct ?i)"
      "(sfi_direct ?i)[k := 0] = zap (\<lambda>l. l < Suc k \<and> bl \<le> l) (sfi_direct i)"
      using True k len by (auto simp: less_Suc_eq nth_list_update intro!: nth_equalityI)
    have ptr: "ptrs dk ?j = zap (\<lambda>l. l = k) (ptrs dk ?i)" for dk
      using P(1) k len by (simp add: ptrs_def zap_append zap_Cons zap_none)
    have kb: "ptrs ?dk ?i ! k = b" using k len by (simp add: ptrs_def nth_append b_def)
    have z: "zapped (\<lambda>l. l = k) (ptrs ?dk ?i) = {b}" using True k len kb by (auto simp: zapped_def)
    then have "b \<in> bits (sfs_freemap s1)" using zapped_sub [of "\<lambda>l. l = k" "ptrs ?dk ?i"] io(6) by (auto simp: own_def)
    note free = bfree_wp [OF freed_refl this]
    show ?thesis
      unfolding sfs_truncate_direct_def wp_bind wp_svget v(1) option.case b if_P [OF True]
    proof (rule wp_mono [OF free])
      fix u s2 assume "freed {b} s1 s2"
      note f = freedD [OF this]
      let ?v = "v\<lparr>sv_i := (sv_i v)\<lparr>sfi_direct := (sfi_direct (sv_i v))[k := 0]\<rparr>, sv_dirty := True\<rparr>"
      let ?s3 = "s2\<lparr>sfs_heap := (sfs_heap s2)(p \<mapsto> ?v)\<rparr>"
      have "ptrs (sc (sfs_device ?s3)) ?j = zap (\<lambda>l. l = k) (ptrs ?dk ?i)" using ptr f(5) by simp
      note q = this
      have vj: "sv_i ?v = ?j" using P(2) by (simp add: v(3) cutd_def)
      have wf: "inode_wf ?j" using inode_okD(1) [OF fs_atD(6) [OF at]] by (rule inode_wf_cutd)
      have bits3: "bits (sfs_freemap ?s3) = bits (sfs_freemap s1) - zapped (\<lambda>l. l = k) (ptrs ?dk ?i)"
        unfolding z using f(2) by simp
      have "let_go sc n ?i s1 ?j ?s3" by (rule let_go_shrink [OF fs_atD(6) [OF at1] q bits3])
      note lg3 = let_go_trans [OF lg this]
      have "file_step din sc ns ?N n p s1 ?j ?s3"
      proof (rule step_shrink [where P = "\<lambda>l. l = k" and v' = ?v and s' = ?s3, OF at1 _ _ _ _ v(1) _ _ vj _ _ q wf])
        show "bits (sfs_freemap ?s3) = bits (sfs_freemap s1) - zapped (\<lambda>l. l = k) (ptrs ?dk ?i)" by (rule bits3)
        show "same_fs s1 ?s3" using f(3) by (simp add: same_fs_def)
      qed (use f fs_atD(1) [OF at1] in \<open>simp_all add: same_vn_def\<close>)
      then show "wpK (svmod p (\<lambda>v. v\<lparr>sv_i := (sv_i v)\<lparr>sfi_direct := (sfi_direct (sv_i v))[k := 0]\<rparr>, sv_dirty := True\<rparr>))
         (\<lambda>_ s'. file_step din sc ns N n p s ?j s' \<and> sc (sfs_device s') = sc (sfs_device s) \<and> let_go sc n i s ?j s') (\<lambda>_ _. False) s2"
        using file_step_trans [OF st] f dk v(1) lg3 by (simp add: wp)
    next
      show "bitmap_ok (sfs_freemap s1)" using fs_atD(7) [OF at1] by (simp add: map_ok_def)
    qed simp_all
  qed
qed

definition entry_inv :: "nat \<Rightarrow> nat list \<Rightarrow> 'd sfs_fs \<Rightarrow> nat \<Rightarrow> nat list \<times> bool \<times> bool \<Rightarrow> 'd sfs_fs \<Rightarrow> bool" where
  "entry_inv bl w s j = (\<lambda>(idbuf, hasnonzero, iddirty) s'. idbuf = zap (\<lambda>l. l < j \<and> bl < 15 + l) w \<and>
     (hasnonzero \<longleftrightarrow> (\<exists>l < j. idbuf ! l \<noteq> 0)) \<and> (\<not> iddirty \<longrightarrow> idbuf = w) \<and>
     freed (zapped (\<lambda>l. l < j \<and> bl < 15 + l) w) s s')"

lemma truncate_entry_wp:
  assumes w: "length w = 128" "nzdistinct w" "set w - {0} \<subseteq> bits (sfs_freemap s)" and j: "j < 128"
    and inv: "entry_inv bl w s j t s'"
  shows "wpK (sfs_truncate_entry bl j t) (entry_inv bl w s (Suc j)) E s'"
proof -
  obtain idbuf hnz idd where t: "t = (idbuf, hnz, idd)" by (cases t)
  let ?P = "\<lambda>l. l < j \<and> bl < 15 + l" and ?Q = "\<lambda>l. l < Suc j \<and> bl < 15 + l"
  have i: "idbuf = zap ?P w" "hnz \<longleftrightarrow> (\<exists>l < j. idbuf ! l \<noteq> 0)" "\<not> idd \<longrightarrow> idbuf = w" "freed (zapped ?P w) s s'"
    using inv unfolding entry_inv_def t case_prod_conv by blast+
  have j': "idbuf ! j = w ! j" using i(1) w(1) j by simp
  show ?thesis
  proof (cases "bl < 15 + j \<and> w ! j \<noteq> 0")
    case True
    have nz: "w ! j \<in> bits (sfs_freemap s)" using w j True by auto
    have new: "w ! j \<notin> zapped ?P w"
      using nzdistinct_nth [OF w(2), of j] w(1) j True by (auto simp: zapped_def)
    have z: "zapped ?Q w = insert (w ! j) (zapped ?P w)"
      using True j w(1) by (auto simp: zapped_def less_Suc_eq)
    have b: "idbuf[j := 0] = zap ?Q w"
      using True j w(1) by (auto simp: i(1) nth_list_update less_Suc_eq intro!: nth_equalityI)
    have h: "hnz \<longleftrightarrow> (\<exists>l < Suc j. idbuf[j := 0] ! l \<noteq> 0)"
      using i(1,2) j w(1) by (auto simp: less_Suc_eq)
    have c: "bl < SFS_NDIRECT + j \<and> idbuf ! j \<noteq> 0" using True j' by (simp add: SFS_NDIRECT_def)
    show ?thesis
      unfolding sfs_truncate_entry_def t case_prod_conv if_P [OF c] wp_bind wp_ret
      by (rule wp_mono [OF bfree_wp [OF i(4)]]) (use nz new z b h j' in \<open>auto simp: entry_inv_def\<close>)
  next
    case False
    then have b: "zap ?Q w = zap ?P w" "zapped ?Q w = zapped ?P w"
      using j w(1) by (auto simp: less_Suc_eq zapped_def intro!: nth_equalityI)
    have "\<not> (bl < SFS_NDIRECT + j \<and> idbuf ! j \<noteq> 0)" using False j' by (simp add: SFS_NDIRECT_def)
    then show ?thesis
      unfolding sfs_truncate_entry_def t case_prod_conv using i b by (simp only: if_False wp_ret) (auto simp: entry_inv_def less_Suc_eq)
  qed
qed

lemma truncate_entries_wp:
  assumes w: "length w = 128" "nzdistinct w" "set w - {0} \<subseteq> bits (sfs_freemap s)" and ok: "bitmap_ok (sfs_freemap s)"
  shows "wpK (foldK (sfs_truncate_entry bl) [0..<128] (w, False, False)) (entry_inv bl w s 128) (\<lambda>_ _. False) s"
proof (rule foldK_upt_wp)
  have "zapped (\<lambda>l. False) w = {}" by (simp add: zapped_def)
  then show "entry_inv bl w s 0 (w, False, False) s" using freed_refl [OF ok] by (simp add: entry_inv_def zap_none)
qed (use truncate_entry_wp [OF w] in auto)

text \<open>
  What the indirect part leaves: the file without its blocks past \<open>bl\<close>, and without its indirect
  block if the entries that stay are all 0.
\<close>

definition id_empty :: "(nat \<Rightarrow> byte list) \<Rightarrow> sfs_inode \<Rightarrow> nat \<Rightarrow> bool" where
  "id_empty dk i bl \<longleftrightarrow> bl < 142 \<and> (\<forall>k. 15 \<le> k \<and> k \<le> bl \<longrightarrow> bmap_of dk i k = 0)"

definition shrunk :: "('d \<Rightarrow> bool) \<Rightarrow> ('d \<Rightarrow> nat \<Rightarrow> byte list) \<Rightarrow> nat \<Rightarrow> (nat \<rightharpoonup> sfs_inode) \<Rightarrow> nat \<Rightarrow> nat
    \<Rightarrow> sfs_inode \<Rightarrow> 'd sfs_fs \<Rightarrow> nat \<Rightarrow> sfs_inode \<Rightarrow> 'd sfs_fs \<Rightarrow> bool" where
  "shrunk din sc ns N n p i s bl i' s' \<longleftrightarrow> file_step din sc ns N n p s i' s' \<and> same_meta i i' \<and>
     (\<forall>k < 143. fblk (sc (sfs_device s')) i' k =
        (if 15 \<le> k \<and> bl < k then replicate 512 0 else fblk (sc (sfs_device s)) i k)) \<and>
     (\<forall>k < 143. bmap_of (sc (sfs_device s')) i' k = (if 15 \<le> k \<and> bl < k then 0 else bmap_of (sc (sfs_device s)) i k)) \<and>
     sfi_indirect i' = (if id_empty (sc (sfs_device s)) i bl then 0 else sfi_indirect i) \<and> let_go sc n i s i' s'"

lemma shrunkI:
  assumes "file_step din sc ns N n p s i' s'" "same_meta i i'" and io: "inode_ok used nb (sc (sfs_device s)) n i"
    and same: "\<And>c. sfi_indirect i = 0 \<or> c \<noteq> sfi_indirect i \<Longrightarrow> sc (sfs_device s') c = sc (sfs_device s) c"
    and bm: "\<And>k. k < 143 \<Longrightarrow> bmap_of (sc (sfs_device s')) i' k = (if 15 \<le> k \<and> bl < k then 0 else bmap_of (sc (sfs_device s)) i k)"
    and "sfi_indirect i' = (if id_empty (sc (sfs_device s)) i bl then 0 else sfi_indirect i)" "let_go sc n i s i' s'"
  shows "shrunk din sc ns N n p i s bl i' s'"
proof -
  have "sc (sfs_device s') (bmap_of (sc (sfs_device s)) i k) = sc (sfs_device s) (bmap_of (sc (sfs_device s)) i k)"
    if "k < 143" "bmap_of (sc (sfs_device s)) i k \<noteq> 0" for k
    using bmap_of_indirect(1) [OF io that] by (intro same) auto
  then have "fblk (sc (sfs_device s')) i' k = (if 15 \<le> k \<and> bl < k then replicate 512 0 else fblk (sc (sfs_device s)) i k)"
    if "k < 143" for k using bm [OF that] that by (simp add: fblk_def)
  then show ?thesis using assms by (simp add: shrunk_def)
qed

lemma id_emptyI:
  assumes "bl < 142" "\<And>l. l < 128 \<Longrightarrow> \<not> bl < 15 + l \<Longrightarrow> id_words dk i ! l = 0"
  shows "id_empty dk i bl"
  using assms(1) assms(2) [of "k - 15" for k] by (auto simp: id_empty_def bmap_of_def)

lemma id_emptyD: "id_empty dk i bl \<Longrightarrow> l < 128 \<Longrightarrow> \<not> bl < 15 + l \<Longrightarrow> id_words dk i ! l = 0"
  unfolding id_empty_def by (drule conjunct2, drule spec [of _ "15 + l"]) (simp add: bmap_of_def)

lemma shrunk_release:
  fixes s :: "'d sfs_fs" and sc :: "'d \<Rightarrow> nat \<Rightarrow> byte list" and i :: sfs_inode
  defines "w \<equiv> id_words (sc (sfs_device s)) i" and "ib \<equiv> sfi_indirect i"
  assumes at: "fs_at din sc ns N n p i s" and ib: "ib \<noteq> 0"
    and f: "freed (insert ib (zapped (\<lambda>l. l < 128 \<and> bl < 15 + l) w)) s s1"
    and z: "\<forall>l < 128. zap (\<lambda>l. l < 128 \<and> bl < 15 + l) w ! l = 0"
    and v: "sfs_heap s p = Some v" and v': "same_vn v v'" "sv_i v' = i\<lparr>sfi_indirect := 0\<rparr>" "sv_dirty v'" and bl: "bl < 142"
    and s': "s' = s1\<lparr>sfs_heap := (sfs_heap s1)(p \<mapsto> v')\<rparr>"
  shows "shrunk din sc ns N n p i s bl (i\<lparr>sfi_indirect := 0\<rparr>) s'"
proof -
  let ?dk = "sc (sfs_device s)" and ?i = "i\<lparr>sfi_indirect := 0\<rparr>" and ?P = "\<lambda>l. 15 \<le> l"
  note f = freedD [OF f]
  note io = inode_okD [OF fs_atD(6) [OF at]]
  have lw: "length w = 128" by (simp add: w_def)
  have w0: "w ! l = 0" if "l < 128" "\<not> bl < 15 + l" for l using z that lw by auto
  have p: "ptrs ?dk i = sfi_direct i @ ib # w" by (simp add: ptrs_def ib_def w_def)
  have zp: "zapped ?P (ptrs ?dk i) = insert ib (zapped (\<lambda>l. l < 128 \<and> bl < 15 + l) w)"
  proof -
    have "bl < 15 + l" if "l < 128" "w ! l \<noteq> 0" for l
      using w0 [OF that(1)] that(2) by (cases "bl < 15 + l") simp_all
    then have "zapped (\<lambda>_. True) w = zapped (\<lambda>l. l < 128 \<and> bl < 15 + l) w"
      using lw by (intro zapped_cong) simp
    then show ?thesis using ib io(2) by (simp add: p zapped_append zapped_Cons zapped_none)
  qed
  have ptr: "ptrs (sc (sfs_device s')) ?i = zap ?P (ptrs ?dk i)"
    using io(2) lw by (auto simp: p ptrs_def id_words_def zap_append zap_Cons zap_none intro!: nth_equalityI)
  have dk: "sc (sfs_device s') = ?dk" using f(5) by (simp add: s')
  have bits': "bits (sfs_freemap s') = bits (sfs_freemap s) - zapped ?P (ptrs ?dk i)" unfolding zp using f(2) by (simp add: s')
  have st: "file_step din sc ns N n p s ?i s'"
  proof (rule step_shrink [where P = ?P and v' = v' and s' = s', OF at _ _ _ bits' v _ v'(1,2) _ _ ptr])
    show "same_fs s s'" using f(3) by (simp add: same_fs_def s')
    show "inode_wf ?i" using io(1) by (simp add: inode_wf_def)
  qed (use f fs_atD(1) [OF at] v'(3) in \<open>simp_all add: s'\<close>)
  show ?thesis
  proof (rule shrunkI [OF st _ fs_atD(6) [OF at] _ _ _ let_go_shrink [OF fs_atD(6) [OF at] ptr bits']])
    fix k :: nat assume k: "k < 143"
    have "bmap_of ?dk i k = 0" if "15 \<le> k" "\<not> bl < k"
      using that k w0 [of "k - 15"] by (simp add: w_def bmap_of_def)
    then show "bmap_of (sc (sfs_device s')) ?i k = (if 15 \<le> k \<and> bl < k then 0 else bmap_of ?dk i k)"
      using bmap_shrink [OF fs_atD(6) [OF at] ptr _ k] io(2) by auto
  next
    have "id_empty ?dk i bl" using w0 by (intro id_emptyI [OF bl]) (simp add: w_def)
    then show "sfi_indirect ?i = (if id_empty ?dk i bl then 0 else sfi_indirect i)" by simp
  qed (simp_all add: same_meta_def dk)
qed

lemma shrunk_write:
  fixes s :: "'d sfs_fs" and sc :: "'d \<Rightarrow> nat \<Rightarrow> byte list" and i :: sfs_inode
  defines "w \<equiv> id_words (sc (sfs_device s)) i" and "ib \<equiv> sfi_indirect i"
  assumes at: "fs_at din sc ns N n p i s" and ib: "ib \<noteq> 0" and w: "\<forall>x \<in> set w. x < 4294967296"
    and f: "freed (zapped (\<lambda>l. l < 128 \<and> bl < 15 + l) w) s s1"
    and d: "dev_step din sc (\<lambda>g. g(ib := enc_words (zap (\<lambda>l. l < 128 \<and> bl < 15 + l) w))) s1 s'"
    and ne: "\<not> id_empty (sc (sfs_device s)) i bl"
  shows "shrunk din sc ns N n p i s bl i s'"
proof -
  let ?dk = "sc (sfs_device s)" and ?Q = "\<lambda>l. l < 128 \<and> bl < 15 + l" and ?P = "\<lambda>l. 16 \<le> l \<and> Suc bl < l"
  note f = freedD [OF f] and d = dev_stepD [OF d]
  note io = inode_okD [OF fs_atD(6) [OF at]]
  have lw: "length w = 128" by (simp add: w_def)
  have p: "ptrs ?dk i = sfi_direct i @ ib # w" by (simp add: ptrs_def ib_def w_def)
  have PQ: "zap (\<lambda>l. Suc bl < 16 + l) w = zap ?Q w" "zapped (\<lambda>l. Suc bl < 16 + l) w = zapped ?Q w"
    using lw by (auto intro!: nth_equalityI zapped_cong)
  have dir: "zap ?P (sfi_direct i) = sfi_direct i" using io(2) by (intro zap_none) auto
  have zp: "zapped ?P (ptrs ?dk i) = zapped ?Q w"
    using io(2) PQ(2) by (simp add: p zapped_append zapped_Cons zapped_none)
  have "\<forall>x \<in> set (zap ?Q w). x < 4294967296" using w set_zap_sub [of ?Q w] by auto
  then have "id_words (sc (sfs_device s')) i = zap ?Q w"
    using d(2) ib dec_enc_words [of "zap ?Q w" "[]"] lw by (simp add: id_words_def ib_def)
  then have ptr: "ptrs (sc (sfs_device s')) i = zap ?P (ptrs ?dk i)"
    using io(2) PQ(1) by (simp add: p zap_append zap_Cons dir) (simp add: ptrs_def ib_def)
  have same: "sc (sfs_device s') c = ?dk c" if "sfi_indirect i = 0 \<or> c \<noteq> sfi_indirect i" for c
    using that d(2) f(5) ib by (auto simp: ib_def)
  obtain v where v: "sfs_heap s p = Some v" "sv_i v = i" using fs_atD(5) [OF at] by blast
  have bits': "bits (sfs_freemap s') = bits (sfs_freemap s) - zapped ?P (ptrs ?dk i)" unfolding zp using f(2) d(6) by simp
  have st: "file_step din sc ns N n p s i s'"
  proof (rule step_shrink [where P = ?P and v' = v and s' = s', OF at _ _ _ bits' v(1) _ _ v(2) _ same ptr])
    show "same_fs s s'" using f(3) d by (simp add: same_fs_def)
    show "bitmap_ok (sfs_freemap s')" "sfs_heap s' = (sfs_heap s)(p \<mapsto> v)" using f d v(1) by auto
  qed (use d(1) io(1) in \<open>simp_all add: same_vn_def\<close>)
  show ?thesis
  proof (rule shrunkI [OF st _ fs_atD(6) [OF at] same _ _ let_go_shrink [OF fs_atD(6) [OF at] ptr bits']])
    fix k :: nat assume k: "k < 143"
    show "bmap_of (sc (sfs_device s')) i k = (if 15 \<le> k \<and> bl < k then 0 else bmap_of ?dk i k)"
      using bmap_shrink [OF fs_atD(6) [OF at] ptr io(2) k] by auto
  qed (use ne in simp_all)
qed

lemma shrunk_nothing:
  assumes at: "fs_at din sc ns N n p i s" and f: "freed {} s s'" and ne: "sfi_indirect i = 0 \<or> \<not> id_empty (sc (sfs_device s)) i bl"
    and w: "\<And>l. l < 128 \<Longrightarrow> bl < 15 + l \<Longrightarrow> id_words (sc (sfs_device s)) i ! l = 0"
  shows "shrunk din sc ns N n p i s bl i s'"
proof -
  note f = freedD [OF f]
  obtain v where v: "sfs_heap s p = Some v" "sv_i v = i" using fs_atD(5) [OF at] by blast
  have ptr: "ptrs (sc (sfs_device s')) i = zap (\<lambda>_. False) (ptrs (sc (sfs_device s)) i)" by (simp add: zap_none f(5))
  have z: "zapped (\<lambda>_. False) xs = {}" for xs by (simp add: zapped_none)
  have st: "file_step din sc ns N n p s i s'"
  proof (rule step_shrink [where P = "\<lambda>_. False" and v' = v and s' = s', OF at _ _ _ _ v(1) _ _ v(2) _ _ ptr])
    show "sfs_heap s' = (sfs_heap s)(p \<mapsto> v)" using f v(1) by auto
  qed (use f z fs_atD(1) [OF at] inode_okD(1) [OF fs_atD(6) [OF at]] in \<open>simp_all add: same_vn_def\<close>)
  show ?thesis
  proof (rule shrunkI [OF st _ fs_atD(6) [OF at]])
    fix k :: nat assume k: "k < 143"
    have "bmap_of (sc (sfs_device s)) i k = 0" if "15 \<le> k" "bl < k"
      using that k w [of "k - 15"] by (simp add: bmap_of_def)
    then show "bmap_of (sc (sfs_device s')) i k = (if 15 \<le> k \<and> bl < k then 0 else bmap_of (sc (sfs_device s)) i k)"
      by (simp add: f(5))
  qed (use f ne in \<open>auto intro: let_go_same\<close>)
qed

lemma shrunk_rd:
  assumes "rd_step din sc ns N n p i s s1" "fs_at din sc ns N n p i s" "shrunk din sc ns N n p i s1 bl i' s'"
    and "sfs_freemap s1 = sfs_freemap s"
  shows "shrunk din sc ns N n p i s bl i' s'"
  using assms file_step_trans [of din sc ns N n p s i s1 i' s'] fs_atD(4) [OF assms(2)]
  by (simp add: shrunk_def rd_step_def keeps_def let_go_def)

context sfs_disk begin

lemma truncate_finish_wp:
  assumes at: "fs_at dinv sec nsec N n p i s" and ib: "sfi_indirect i \<noteq> 0" and w: "w = id_words (sec (sfs_device s)) i"
    and wb: "\<forall>x \<in> set w. x < 4294967296" and inv: "entry_inv bl w s 128 (idbuf, hnz, idd) s1"
    and bl: "bl < 142"
  shows "wpK (if \<not> hnz then bindK (sfs_bfree (sfi_indirect i))
             (\<lambda>_. svmod p (\<lambda>v. v\<lparr>sv_i := (sv_i v)\<lparr>sfi_indirect := 0\<rparr>, sv_dirty := True\<rparr>))
          else if idd then sfs_wblock dv (enc_words idbuf) (sfi_indirect i) else retK ())
       (\<lambda>_ s'. \<exists>i'. shrunk dinv sec nsec N n p i s bl i' s') (\<lambda>_ _. False) s1" (is "wpK _ ?Q ?E s1")
proof -
  let ?ib = "sfi_indirect i" and ?P = "\<lambda>l. l < 128 \<and> bl < 15 + l"
  note io = inode_okD [OF fs_atD(6) [OF at]]
  have I: "idbuf = zap ?P w" "hnz \<longleftrightarrow> (\<exists>l < 128. idbuf ! l \<noteq> 0)" "\<not> idd \<longrightarrow> idbuf = w" "freed (zapped ?P w) s s1"
    using inv unfolding entry_inv_def case_prod_conv by blast+
  note f = freedD [OF I(4)]
  have lw: "length w = 128" by (simp add: w)
  have ibo: "?ib \<in> own (sec (sfs_device s)) n i" using ib by (rule indirect_own)
  have "nzdistinct (sfi_direct i @ ?ib # w)" using io(4) by (simp add: ptrs_def w)
  then have ibw: "?ib \<notin> zapped ?P w" using ib zapped_sub [of ?P w] by (auto simp: nzdistinct_def)
  obtain v where v: "sfs_heap s p = Some v" "sv_i v = i" "sfs_heap s1 p = Some v" using fs_atD(5) [OF at] f(4) by auto
  have ne: "\<not> id_empty (sec (sfs_device s)) i bl" if "hnz"
  proof
    assume em: "id_empty (sec (sfs_device s)) i bl"
    have "zap ?P w ! l = 0" if "l < 128" for l using id_emptyD [OF em that] that lw by (auto simp: w)
    then show False using \<open>hnz\<close> I(1,2) by auto
  qed
  consider (release) "\<not> hnz" | (store) "hnz" "idd" | (none) "hnz" "\<not> idd" by blast
  then show ?thesis
  proof cases
    case release
    have z: "\<forall>l < 128. zap ?P w ! l = 0" using I(1,2) release by simp
    show ?thesis unfolding if_P [OF release] wp_bind
    proof (rule wp_mono [OF bfree_wp [OF I(4)]])
      fix u s2 assume fr: "freed (insert ?ib (zapped ?P w)) s s2"
      have "sfs_heap s2 p = Some v" using freedD(4) [OF fr] v(1) by simp
      then show "wpK (svmod p (\<lambda>v. v\<lparr>sv_i := (sv_i v)\<lparr>sfi_indirect := 0\<rparr>, sv_dirty := True\<rparr>)) ?Q ?E s2"
        unfolding wp_svmod
        using shrunk_release [OF at ib fr [unfolded w] z [unfolded w] v(1), of "v\<lparr>sv_i := (sv_i v)\<lparr>sfi_indirect := 0\<rparr>, sv_dirty := True\<rparr>"] bl
        by (auto simp: same_vn_def v(2))
    qed (use ibo io(6) ibw in auto)
  next
    case store
    have n: "\<not> \<not> hnz" using store by simp
    have "?ib < nsec" using ibo io(7) fs_atD(7) [OF at] by (auto simp: map_ok_def)
    moreover have "length (enc_words idbuf) = 512" using I(1) lw by simp
    ultimately show ?thesis unfolding if_not_P [OF n] if_P [OF store(2)]
      by (intro wp_mono [OF wblock_wp]) (use f(5) fs_atD(1) [OF at] shrunk_write [OF at ib wb [unfolded w] I(4) [unfolded w] _ ne] store(1) I(1) w in auto)
  next
    case none
    have n: "\<not> \<not> hnz" using none by simp
    have z: "w ! l = 0" if "l < 128" "bl < 15 + l" for l using I(1,3) none(2) that lw zap_nth [of l w ?P] by simp
    then have "zapped ?P w = {}" by (auto simp: zapped_iff)
    then show ?thesis unfolding if_not_P [OF n] if_not_P [OF none(2)] wp_ret
      using shrunk_nothing [OF at, of s1 bl] ne [OF none(1)] I(4) z w by auto
  qed
qed

lemma truncate_indirect_wp:
  assumes at: "fs_at dinv sec nsec N n p i s" and ib: "sfi_indirect i \<noteq> 0" and bl: "bl < 142"
  shows "wpK (sfs_truncate_indirect dv p bl (sfi_indirect i)) (\<lambda>_ s'. \<exists>i'. shrunk dinv sec nsec N n p i s bl i' s')
     (\<lambda>e s'. e = EIO \<and> rd_step dinv sec nsec N n p i s s' \<and> sfs_freemap s' = sfs_freemap s) s" (is "wpK _ ?Q ?E s")
  unfolding sfs_truncate_indirect_def wp_bind SFS_DBPERIDB_def
proof (rule wp_mono [OF rblock_wp])
  note io = inode_okD [OF fs_atD(6) [OF at]] and mp = fs_atD(7) [OF at]
  let ?ib = "sfi_indirect i"
  show dv: "dinv (sfs_device s)" using fs_atD(1) [OF at] .
  have ibo: "?ib \<in> own (sec (sfs_device s)) n i" using ib by (rule indirect_own)
  then show ns: "?ib < nsec" using io(7) mp by (auto simp: map_ok_def)
  have len: "length (sec (sfs_device s) ?ib) = 512" using sec_len [OF dv ns] .
  {
    fix e s1 assume "e = EIO \<and> dev_step dinv sec (\<lambda>f. f) s s1"
    then show "?E e s1" using rd_step_dev [OF at] dev_stepD(6) by blast
  next
    fix bs s1 assume "bs = sec (sfs_device s) ?ib \<and> dev_step dinv sec (\<lambda>f. f) s s1"
    then have bs: "bs = sec (sfs_device s) ?ib" and rd: "rd_step dinv sec nsec N n p i s s1"
      and fm: "sfs_freemap s1 = sfs_freemap s" using rd_step_dev [OF at] dev_stepD(6) by auto
    define w where "w = id_words (sec (sfs_device s1)) i"
    have dk: "sec (sfs_device s1) = sec (sfs_device s)" using rd by (simp add: rd_step_def)
    have at1: "fs_at dinv sec nsec N n p i s1" using rd_step_at [OF at rd] .
    note io1 = inode_okD [OF fs_atD(6) [OF at1]]
    have w: "dec_words 128 bs = w" "length w = 128" "\<forall>x \<in> set w. x < 4294967296"
      using ib bs dec_words_bound [of bs 128] len by (auto simp: w_def id_words_def dk)
    have sub: "set w \<subseteq> set (ptrs (sec (sfs_device s1)) i)" by (auto simp: ptrs_def w_def)
    have nd: "nzdistinct (sfi_direct i @ ?ib # w)" using io1(4) by (simp add: ptrs_def w_def)
    then have ndw: "nzdistinct w" "?ib \<notin> set w" using ib by (auto simp: nzdistinct_def)
    have used: "set w - {0} \<subseteq> bits (sfs_freemap s1)" using io1(6) sub by (auto simp: own_def)
    have bmok: "bitmap_ok (sfs_freemap s1)" using fs_atD(7) [OF at1] by (simp add: map_ok_def)
    show "wpK (foldK (sfs_truncate_entry bl) [0..<128] (dec_words 128 bs, False, False))
       (\<lambda>a. wpK (case a of (idbuf, hasnonzero, iddirty) \<Rightarrow>
          if \<not> hasnonzero then bindK (sfs_bfree ?ib) (\<lambda>_. svmod p (\<lambda>v. v\<lparr>sv_i := (sv_i v)\<lparr>sfi_indirect := 0\<rparr>, sv_dirty := True\<rparr>))
          else if iddirty then sfs_wblock dv (enc_words idbuf) ?ib else retK ()) ?Q ?E) ?E s1"
      unfolding w(1)
    proof (rule wp_mono [OF truncate_entries_wp [OF w(2) ndw(1) used bmok]])
      fix t s2 assume inv: "entry_inv bl w s1 128 t s2"
      obtain idbuf hnz idd where t: "t = (idbuf, hnz, idd)" by (cases t)
      show "wpK (case t of (idbuf, hasnonzero, iddirty) \<Rightarrow>
          if \<not> hasnonzero then bindK (sfs_bfree ?ib) (\<lambda>_. svmod p (\<lambda>v. v\<lparr>sv_i := (sv_i v)\<lparr>sfi_indirect := 0\<rparr>, sv_dirty := True\<rparr>))
          else if iddirty then sfs_wblock dv (enc_words idbuf) ?ib else retK ()) ?Q ?E s2"
        unfolding t case_prod_conv
        by (rule wp_mono [OF truncate_finish_wp [OF at1 ib w_def w(3) inv [unfolded t] bl]]) (use shrunk_rd [OF rd at _ fm] in auto)
    qed simp
  }
qed

lemma truncate_directs_wp:
  assumes at: "fs_at dinv sec nsec N n p i s"
  shows "wpK (foldK (\<lambda>i _. sfs_truncate_direct p bl i) [0..<15] ())
     (\<lambda>_ s'. file_step dinv sec nsec N n p s (cutd bl 15 i) s' \<and> sec (sfs_device s') = sec (sfs_device s) \<and>
        let_go sec n i s (cutd bl 15 i) s') (\<lambda>_ _. False) s"
proof (rule foldK_upt_wp [where I = "\<lambda>k _ s'. file_step dinv sec nsec N n p s (cutd bl k i) s' \<and>
    sec (sfs_device s') = sec (sfs_device s) \<and> let_go sec n i s (cutd bl k i) s'"])
  show "file_step dinv sec nsec N n p s (cutd bl 0 i) s \<and> sec (sfs_device s) = sec (sfs_device s) \<and> let_go sec n i s (cutd bl 0 i) s"
    using rd_step_refl [OF at] by (simp add: cutd_0 rd_step_def keeps_def let_go_same)
qed (use truncate_direct_wp [OF at] in auto)

lemma truncate_high_wp:
  assumes at: "fs_at dinv sec nsec N n p i s"
  shows "wpK (if bl < 142 \<and> sfi_indirect i \<noteq> 0 then sfs_truncate_indirect dv p bl (sfi_indirect i) else retK ())
     (\<lambda>_ s'. \<exists>i'. shrunk dinv sec nsec N n p i s bl i' s') (\<lambda>e s'. e = EIO \<and> rd_step dinv sec nsec N n p i s s' \<and> sfs_freemap s' = sfs_freemap s) s"
proof (cases "bl < 142 \<and> sfi_indirect i \<noteq> 0")
  case True
  then show ?thesis unfolding if_P [OF True] by (intro truncate_indirect_wp [OF at]) simp_all
next
  case False
  have "id_words (sec (sfs_device s)) i ! l = 0" if "l < 128" "bl < 15 + l" for l
    using that False by (simp add: id_words_def)
  moreover have "sfi_indirect i = 0 \<or> \<not> id_empty (sec (sfs_device s)) i bl" using False by (auto simp: id_empty_def)
  ultimately have "shrunk dinv sec nsec N n p i s bl i s"
    using fs_atD(7) [OF at] by (intro shrunk_nothing [OF at] freed_refl) (auto simp: map_ok_def)
  then show ?thesis unfolding if_not_P [OF False] wp_ret by blast
qed

end

text \<open>
  The blocks a truncation to \<open>bl\<close> blocks gives up: those the inode maps from the cut on, and the
  indirect block if nothing of it stays.
\<close>

definition cut_off :: "nat \<Rightarrow> nat \<Rightarrow> bool" where
  "cut_off bl k \<longleftrightarrow> (if k < 15 then bl \<le> k else bl < k)"

definition given_up :: "(nat \<Rightarrow> byte list) \<Rightarrow> sfs_inode \<Rightarrow> nat \<Rightarrow> nat set" where
  "given_up dk i bl = ({bmap_of dk i k |k. k < 143 \<and> cut_off bl k} \<union>
     (if id_empty dk i bl then {sfi_indirect i} else {})) - {0}"

definition truncated :: "('d \<Rightarrow> nat \<Rightarrow> byte list) \<Rightarrow> sfs_inode \<Rightarrow> 'd sfs_fs \<Rightarrow> nat \<Rightarrow> sfs_inode \<Rightarrow> 'd sfs_fs \<Rightarrow> bool" where
  "truncated sc i s bl i' s' \<longleftrightarrow>
     (\<forall>k < 143. bmap_of (sc (sfs_device s')) i' k = (if cut_off bl k then 0 else bmap_of (sc (sfs_device s)) i k)) \<and>
     sfi_indirect i' = (if id_empty (sc (sfs_device s)) i bl then 0 else sfi_indirect i) \<and>
     bits (sfs_freemap s') = bits (sfs_freemap s) - given_up (sc (sfs_device s)) i bl"

lemma own_bmap: "length (sfi_direct i) = 15 \<Longrightarrow> own dk n i = insert n (insert (sfi_indirect i) (bmap_of dk i ` {..<143}) - {0})"
proof -
  assume len: "length (sfi_direct i) = 15"
  have "set (ptrs dk i) = insert (sfi_indirect i) (bmap_of dk i ` {..<143})"
  proof -
    have "set (sfi_direct i) = bmap_of dk i ` {..<15}" using len by (auto simp: bmap_of_def in_set_conv_nth image_iff)
    moreover have "{15..<143} = (+) 15 ` {0..<128 :: nat}" by simp
    then have "bmap_of dk i ` {15..<143} = (!) (id_words dk i) ` {0..<128}"
      by (simp only: image_image) (simp add: bmap_of_def)
    then have "set (id_words dk i) = bmap_of dk i ` {15..<143}"
      by (auto simp: set_conv_nth)
    moreover have "{..<143} = {..<15} \<union> {15..<143 :: nat}" by auto
    ultimately show ?thesis by (simp add: ptrs_def image_Un)
  qed
  then show ?thesis by (simp add: own_def)
qed

lemma given_up_own:
  assumes io: "inode_ok used nb dk n i" and len: "length (sfi_direct i') = 15"
    and bm: "\<And>k. k < 143 \<Longrightarrow> bmap_of dk' i' k = (if cut_off bl k then 0 else bmap_of dk i k)"
    and ind: "sfi_indirect i' = (if id_empty dk i bl then 0 else sfi_indirect i)"
  shows "own dk n i - own dk' n i' = given_up dk i bl"
proof -
  have bl: "x \<in> given_up dk i bl \<longleftrightarrow> x \<noteq> 0 \<and> ((\<exists>k < 143. cut_off bl k \<and> x = bmap_of dk i k) \<or> id_empty dk i bl \<and> x = sfi_indirect i)" for x
    by (auto simp: given_up_def)
  have o: "x \<in> own dk n i \<longleftrightarrow> x = n \<or> x \<noteq> 0 \<and> (x = sfi_indirect i \<or> (\<exists>k < 143. x = bmap_of dk i k))" for x
    using own_bmap [OF inode_okD(2) [OF io]] by auto
  have o': "x \<in> own dk' n i' \<longleftrightarrow> x = n \<or> x \<noteq> 0 \<and>
      (\<not> id_empty dk i bl \<and> x = sfi_indirect i \<or> (\<exists>k < 143. \<not> cut_off bl k \<and> x = bmap_of dk i k))" for x
    using own_bmap [OF len, of dk' n] bm ind by (auto simp: image_iff)
  have n: "sfi_indirect i \<noteq> 0 \<Longrightarrow> sfi_indirect i \<noteq> n" using inode_okD(5) [OF io] by (auto simp: ptrs_def)
  show ?thesis
    using bmap_of_inj [OF io] bmap_of_indirect [OF io] n unfolding set_eq_iff Diff_iff o o' bl by metis
qed

lemma set_size_simps [simp]:
  "bmap_of dk (i\<lparr>sfi_size := x\<rparr>) k = bmap_of dk i k" "fblk dk (i\<lparr>sfi_size := x\<rparr>) k = fblk dk i k"
  by (simp_all add: fblk_def bmap_of_def id_words_def)

lemma shrunk_truncated:
  assumes at: "fs_at din sc ns N n p i s" and lg: "let_go sc n i s (cutd bl 15 i) s1"
    and dk: "sc (sfs_device s1) = sc (sfs_device s)" and sh: "shrunk din sc ns N' n p (cutd bl 15 i) s1 bl i' s2"
  shows "truncated sc i s bl (i'\<lparr>sfi_size := x\<rparr>) (s2\<lparr>sfs_heap := h\<rparr>)"
    "\<And>k. k < 143 \<Longrightarrow> fblk (sc (sfs_device s2)) i' k = (if cut_off bl k then replicate 512 0 else fblk (sc (sfs_device s)) i k)"
proof -
  let ?i = "cutd bl 15 i"
  note io = fs_atD(6) [OF at]
  have len: "length (sfi_direct i') = 15"
    using sh inode_okD(2) [OF fs_atD(6)] by (fastforce simp: shrunk_def file_step_def)
  have em: "id_empty (sc (sfs_device s1)) ?i bl \<longleftrightarrow> id_empty (sc (sfs_device s)) i bl"
    by (auto simp: id_empty_def dk bmap_of_def)
  have bm: "bmap_of (sc (sfs_device s2)) i' k = (if cut_off bl k then 0 else bmap_of (sc (sfs_device s)) i k)" if "k < 143" for k
    using sh that bmap_cutd [OF io that, of bl] by (auto simp: shrunk_def dk cut_off_def)
  have ind: "sfi_indirect i' = (if id_empty (sc (sfs_device s)) i bl then 0 else sfi_indirect i)"
    using sh em by (simp add: shrunk_def)
  have "let_go sc n i s i' s2" using let_go_trans [OF lg] sh by (simp add: shrunk_def)
  then show "truncated sc i s bl (i'\<lparr>sfi_size := x\<rparr>) (s2\<lparr>sfs_heap := h\<rparr>)"
    using given_up_own [OF io len bm ind] bm ind by (simp add: truncated_def let_go_def)
  show "fblk (sc (sfs_device s2)) i' k = (if cut_off bl k then replicate 512 0 else fblk (sc (sfs_device s)) i k)" if "k < 143" for k
    using sh that fblk_cutd [OF io that, of bl] by (auto simp: shrunk_def dk cut_off_def)
qed

text \<open>Setting the size, the last step, changes neither the blocks of the file nor the free map.\<close>

lemma truncate_size:
  assumes st: "file_step din sc ns N n p s i' s2" and v: "sfs_heap s2 p = Some v" "sv_i v = i'" and x: "x < 4294967296"
  defines "s3 \<equiv> s2\<lparr>sfs_heap := (sfs_heap s2)(p \<mapsto> v\<lparr>sv_i := (sv_i v)\<lparr>sfi_size := x\<rparr>, sv_dirty := True\<rparr>)\<rparr>"
  shows "file_step din sc ns N n p s (i'\<lparr>sfi_size := x\<rparr>) s3"
proof -
  have at2: "fs_at din sc ns (N(n \<mapsto> i')) n p i' s2" using st by (simp add: file_step_def)
  have wf: "inode_wf (i'\<lparr>sfi_size := x\<rparr>)" using inode_okD(1) [OF fs_atD(6) [OF at2]] x by (simp add: inode_wf_def)
  have "file_step din sc ns (N(n \<mapsto> i')) n p s2 (i'\<lparr>sfi_size := x\<rparr>) s3"
    unfolding s3_def by (rule meta_step(1) [OF at2 v(1) wf]; simp add: same_vn_def v(2))
  then show ?thesis using file_step_trans [OF st] by blast
qed

context sfs_disk begin

lemma truncate_full_wp:
  assumes at: "fs_at dinv sec nsec N n p i s" and bl: "trunc_blocklen len = bl" and len: "i2u32 len = x"
  shows "wpK (sfs_truncate dv p len)
     (\<lambda>_ s'. \<exists>i'. file_step dinv sec nsec N n p s i' s' \<and>
        sfi_size i' = x \<and> sfi_type i' = sfi_type i \<and> sfi_linkcount i' = sfi_linkcount i \<and>
        (\<forall>k < 143. fblk (sec (sfs_device s')) i' k =
           (if cut_off bl k then replicate 512 0 else fblk (sec (sfs_device s)) i k)) \<and> truncated sec i s bl i' s')
     (\<lambda>e s'. e = EIO \<and> (\<exists>i'. file_step dinv sec nsec N n p s i' s' \<and> same_meta i i' \<and>
        (\<forall>k < 143. fblk (sec (sfs_device s')) i' k =
           (if k < 15 \<and> bl \<le> k then replicate 512 0 else fblk (sec (sfs_device s)) i k)) \<and>
        sfi_indirect i' = sfi_indirect i \<and>
        (\<forall>k < 143. bmap_of (sec (sfs_device s')) i' k = (if k < 15 \<and> bl \<le> k then 0 else bmap_of (sec (sfs_device s)) i k)) \<and>
        let_go sec n i s i' s')) s" (is "wpK _ ?Q ?E s")
proof -
  let ?i = "cutd bl 15 i"
  have x: "x < 4294967296" using len by (auto simp: i2u32_def nat_less_iff)
  have c: "(15 :: nat) + 128 - 1 = 142" by simp
  show ?thesis
    unfolding sfs_truncate_def Let_def bl len wp_bind SFS_NDIRECT_def SFS_DBPERIDB_def c
  proof (rule wp_mono [OF truncate_directs_wp [OF at]])
    fix u s1 assume "file_step dinv sec nsec N n p s ?i s1 \<and> sec (sfs_device s1) = sec (sfs_device s) \<and> let_go sec n i s ?i s1"
    then have st: "file_step dinv sec nsec N n p s ?i s1" and dk: "sec (sfs_device s1) = sec (sfs_device s)"
      and lg: "let_go sec n i s ?i s1" by auto
    have at1: "fs_at dinv sec nsec (N(n \<mapsto> ?i)) n p ?i s1" using st by (simp add: file_step_def)
    obtain v where v: "sfs_heap s1 p = Some v" "sv_i v = ?i" using fs_atD(5) [OF at1] by blast
    have fb: "fblk (sec (sfs_device s1)) ?i k = (if k < 15 \<and> bl \<le> k then replicate 512 0 else fblk (sec (sfs_device s)) i k)"
      and bm: "bmap_of (sec (sfs_device s1)) ?i k = (if k < 15 \<and> bl \<le> k then 0 else bmap_of (sec (sfs_device s)) i k)"
      if "k < 143" for k using fblk_cutd [OF fs_atD(6) [OF at] that] bmap_cutd [OF fs_atD(6) [OF at] that] by (simp_all add: dk)
    show "wpK (svget p (\<lambda>v. sfi_indirect (sv_i v))) (\<lambda>idblock. wpK (if bl < 142 \<and> idblock \<noteq> 0
         then sfs_truncate_indirect dv p bl idblock else retK ())
         (\<lambda>_. wpK (svmod p (\<lambda>v. v\<lparr>sv_i := (sv_i v)\<lparr>sfi_size := x\<rparr>, sv_dirty := True\<rparr>)) ?Q ?E) ?E) ?E s1"
      unfolding wp_svget v(1) option.case v(2)
    proof (rule wp_mono [OF truncate_high_wp [OF at1]])
      fix e s2 assume e: "e = EIO \<and> rd_step dinv sec nsec (N(n \<mapsto> ?i)) n p ?i s1 s2 \<and> sfs_freemap s2 = sfs_freemap s1"
      then have "file_step dinv sec nsec N n p s ?i s2" "sec (sfs_device s2) = sec (sfs_device s1)" "let_go sec n i s ?i s2"
        using file_step_trans [OF st, of ?i s2] lg by (auto simp: rd_step_def keeps_def let_go_def)
      then show "?E e s2" using e fb bm by (intro conjI exI [of _ ?i]) (auto simp: same_meta_def)
    next
      fix u s2 assume "\<exists>i'. shrunk dinv sec nsec (N(n \<mapsto> ?i)) n p ?i s1 bl i' s2"
      then obtain i' where sh: "shrunk dinv sec nsec (N(n \<mapsto> ?i)) n p ?i s1 bl i' s2" ..
      have fs: "file_step dinv sec nsec N n p s i' s2" "same_meta i i'"
        using sh file_step_trans [OF st] by (auto simp: shrunk_def same_meta_def)
      have "?Q () (s2\<lparr>sfs_heap := (sfs_heap s2)(p \<mapsto> v\<lparr>sv_i := (sv_i v)\<lparr>sfi_size := x\<rparr>, sv_dirty := True\<rparr>)\<rparr>)"
        if "sfs_heap s2 p = Some v" "sv_i v = i'" for v
        using truncate_size [OF fs(1) that x] shrunk_truncated [OF at lg dk sh] fs(2) by (auto simp: same_meta_def)
      moreover obtain v where "sfs_heap s2 p = Some v" "sv_i v = i'"
        using fs(1) fs_atD(5) by (fastforce simp: file_step_def)
      ultimately show "wpK (svmod p (\<lambda>v. v\<lparr>sv_i := (sv_i v)\<lparr>sfi_size := x\<rparr>, sv_dirty := True\<rparr>)) ?Q ?E s2"
        unfolding wp_svmod by simp
    qed
  qed simp
qed

lemma truncate_wp:
  assumes at: "fs_at dinv sec nsec N n p i s" and bl: "trunc_blocklen len = bl" and len: "i2u32 len = x"
  shows "wpK (sfs_truncate dv p len)
     (\<lambda>_ s'. \<exists>i'. file_step dinv sec nsec N n p s i' s' \<and>
        sfi_size i' = x \<and> sfi_type i' = sfi_type i \<and> sfi_linkcount i' = sfi_linkcount i \<and>
        (\<forall>k < 143. fblk (sec (sfs_device s')) i' k =
           (if (if k < 15 then bl \<le> k else bl < k) then replicate 512 0 else fblk (sec (sfs_device s)) i k)))
     (\<lambda>e s'. e = EIO \<and> (\<exists>i'. file_step dinv sec nsec N n p s i' s' \<and> same_meta i i' \<and>
        (\<forall>k < 143. fblk (sec (sfs_device s')) i' k =
           (if k < 15 \<and> bl \<le> k then replicate 512 0 else fblk (sec (sfs_device s)) i k)))) s"
  by (rule wp_mono [OF truncate_full_wp [OF assms]]) (unfold cut_off_def, blast+)

end

section \<open>Properties\<close>

lemma let_go_directs:
  assumes io: "inode_ok used nb (sc (sfs_device s)) n i" and st: "file_step din sc ns N n p s i' s'"
    and ind: "sfi_indirect i' = sfi_indirect i" and lg: "let_go sc n i s i' s'"
    and bm: "\<forall>k < 143. bmap_of (sc (sfs_device s')) i' k = (if k < 15 \<and> bl \<le> k then 0 else bmap_of (sc (sfs_device s)) i k)"
  shows "bits (sfs_freemap s') = bits (sfs_freemap s) - ({sfi_direct i ! k |k. bl \<le> k \<and> k < 15} - {0})"
proof -
  have len: "length (sfi_direct i') = 15" using st inode_okD(2) [OF fs_atD(6)] by (fastforce simp: file_step_def)
  have d: "x \<in> {sfi_direct i ! k |k. bl \<le> k \<and> k < 15} - {0} \<longleftrightarrow>
      x \<noteq> 0 \<and> (\<exists>k < 143. k < 15 \<and> bl \<le> k \<and> x = bmap_of (sc (sfs_device s)) i k)" for x
    by (auto simp: bmap_of_def)
  have o: "x \<in> own (sc (sfs_device s)) n i \<longleftrightarrow> x = n \<or> x \<noteq> 0 \<and> (x = sfi_indirect i \<or> (\<exists>k < 143. x = bmap_of (sc (sfs_device s)) i k))" for x
    using own_bmap [OF inode_okD(2) [OF io]] by auto
  have o': "x \<in> own (sc (sfs_device s')) n i' \<longleftrightarrow> x = n \<or> x \<noteq> 0 \<and>
      (x = sfi_indirect i \<or> (\<exists>k < 143. \<not> (k < 15 \<and> bl \<le> k) \<and> x = bmap_of (sc (sfs_device s)) i k))" for x
    using own_bmap [OF len, of "sc (sfs_device s')" n] bm ind by (auto simp: image_iff)
  have "own (sc (sfs_device s)) n i - own (sc (sfs_device s')) n i' = {sfi_direct i ! k |k. bl \<le> k \<and> k < 15} - {0}"
    using bmap_of_inj [OF io] bmap_of_indirect [OF io] unfolding set_eq_iff d unfolding Diff_iff o o' by metis
  with lg show ?thesis by (simp add: let_go_def)
qed

lemma trunc_blocklen_nat: "x + 511 < 2147483648 \<Longrightarrow> trunc_blocklen (int x) = (x + 511) div 512"
proof -
  assume x: "x + 511 < 2147483648"
  have "s32 (int x + 511) = int (x + 511)" using x by simp
  then have "trunc_blocklen (int x) = i2u32 (cdiv (int (x + 511)) (int 512))" by (simp add: trunc_blocklen_def)
  also have "\<dots> = (x + 511) div 512" unfolding cdiv_nat i2u32_nat using x by (intro u32_id) linarith
  finally show ?thesis .
qed

text \<open>
  Property C21. On a disk whose writes do not fail, truncating a file to \<open>x\<close> bytes (less than 2^31 - 511), that is \<open>bl\<close> blocks, sets its size and
  cuts off the direct blocks from number \<open>bl\<close> on and the indirect ones after number \<open>bl\<close>: these are unmapped and read
  as zeros, the others stay mapped where they were with their contents. The indirect block itself goes exactly if \<open>bl\<close>
  is below 142 and no entry of it stays. In the free map exactly the blocks so given up, each of them and no
  other, become free. The volume stays consistent (no block that is still referenced is free) and every other file is
  left alone. If the indirect block cannot be read, EIO is reported with the size unchanged, and exactly the direct
  blocks from \<open>bl\<close> on are gone and free.
\<close>

theorem sfs_truncate_blocks:
  assumes "sfs_disk dv sec nsec dinv" and "fs_at dinv sec nsec N n p i s" and "x + 511 < 2147483648"
    and "bl = (x + 511) div 512"
  shows "wpK (sfs_truncate dv p (int x))
     (\<lambda>_ s'. \<exists>i'. file_step dinv sec nsec N n p s i' s' \<and>
        sfi_size i' = x \<and> sfi_type i' = sfi_type i \<and> sfi_linkcount i' = sfi_linkcount i \<and>
        (\<forall>k < 143. fblk (sec (sfs_device s')) i' k =
           (if cut_off bl k then replicate 512 0 else fblk (sec (sfs_device s)) i k)) \<and>
        (\<forall>k < 143. bmap_of (sec (sfs_device s')) i' k = (if cut_off bl k then 0 else bmap_of (sec (sfs_device s)) i k)) \<and>
        sfi_indirect i' = (if id_empty (sec (sfs_device s)) i bl then 0 else sfi_indirect i) \<and>
        bits (sfs_freemap s') = bits (sfs_freemap s) - given_up (sec (sfs_device s)) i bl)
     (\<lambda>e s'. e = EIO \<and> (\<exists>i'. file_step dinv sec nsec N n p s i' s' \<and> same_meta i i' \<and>
        (\<forall>k < 143. fblk (sec (sfs_device s')) i' k =
           (if k < 15 \<and> bl \<le> k then replicate 512 0 else fblk (sec (sfs_device s)) i k)) \<and>
        bits (sfs_freemap s') = bits (sfs_freemap s) - ({sfi_direct i ! k |k. bl \<le> k \<and> k < 15} - {0}))) s"
proof (rule wp_mono [OF sfs_disk.truncate_full_wp [OF assms(1,2) trunc_blocklen_nat [OF assms(3), folded assms(4)]]])
  show "i2u32 (int x) = x" using assms(3) by simp
next
  fix e s'
  assume "e = EIO \<and> (\<exists>i'. file_step dinv sec nsec N n p s i' s' \<and> same_meta i i' \<and>
        (\<forall>k < 143. fblk (sec (sfs_device s')) i' k =
           (if k < 15 \<and> bl \<le> k then replicate 512 0 else fblk (sec (sfs_device s)) i k)) \<and>
        sfi_indirect i' = sfi_indirect i \<and>
        (\<forall>k < 143. bmap_of (sec (sfs_device s')) i' k = (if k < 15 \<and> bl \<le> k then 0 else bmap_of (sec (sfs_device s)) i k)) \<and>
        let_go sec n i s i' s')"
  then show "e = EIO \<and> (\<exists>i'. file_step dinv sec nsec N n p s i' s' \<and> same_meta i i' \<and>
        (\<forall>k < 143. fblk (sec (sfs_device s')) i' k =
           (if k < 15 \<and> bl \<le> k then replicate 512 0 else fblk (sec (sfs_device s)) i k)) \<and>
        bits (sfs_freemap s') = bits (sfs_freemap s) - ({sfi_direct i ! k |k. bl \<le> k \<and> k < 15} - {0}))"
    using let_go_directs [of _ _ sec s, OF fs_atD(6) [OF assms(2)]] by blast
qed (auto simp: truncated_def)

theorem sfs_truncate_blocks_witness:
  "wpK (sfs_truncate (lhd_device (sim_hw (\<lambda>_. False) (\<lambda>_. False)) 2048) 100 100)
     (\<lambda>_ s'. \<exists>i'. file_step (lhd_inv sim_idle 2048) (lhd_sec sd_disk) 2048 [3 \<mapsto> example_inode] 3 100 example_fs i' s' \<and>
        sfi_size i' = 100 \<and> fblk (lhd_sec sd_disk (sfs_device s')) i' 0 = replicate 512 4 \<and>
        fblk (lhd_sec sd_disk (sfs_device s')) i' 1 = replicate 512 0 \<and>
        4 \<in> bits (sfs_freemap s') \<and> 5 \<notin> bits (sfs_freemap s')) (\<lambda>e s'. e = EIO) example_fs"
proof -
  let ?dk = "lhd_sec sd_disk (sfs_device example_fs)"
  have f: "fblk ?dk example_inode 0 = replicate 512 4"
    by (simp add: fblk_def bmap_of_def example_inode_def example_fs_def lhd_sec_def example_disk_def)
  have b: "bmap_of ?dk example_inode 0 = 4" "bmap_of ?dk example_inode 1 = 5" "sfi_indirect example_inode = 0"
    by (simp_all add: bmap_of_def example_inode_def)
  have "4 \<notin> given_up ?dk example_inode 1"
    using bmap_of_inj [OF fs_atD(6) [OF example_ok], of 0] b by (auto simp: given_up_def cut_off_def split: if_splits)
  moreover have "5 \<in> given_up ?dk example_inode 1"
    using b(2) by (auto simp: given_up_def cut_off_def intro!: exI [of _ 1])
  ultimately have g: "4 \<in> bits (sfs_freemap example_fs) - given_up ?dk example_inode 1"
    "5 \<notin> bits (sfs_freemap example_fs) - given_up ?dk example_inode 1" by (simp_all add: example_bits)
  have x: "100 + 511 < (2147483648 :: nat)" "1 = (100 + 511) div (512 :: nat)" by simp_all
  have c: "\<not> cut_off 1 0" "cut_off 1 1" by (simp_all add: cut_off_def)
  show ?thesis
    by (rule wp_mono [OF sfs_truncate_blocks [OF simd.sd.sfs_disk_axioms example_ok x, simplified of_nat_numeral]])
      (use f g c in auto)
qed

text \<open>
  Property C35. The comparison for the entries of the indirect block is off by one: truncating to \<open>k\<close> blocks, for \<open>k\<close> at
  least 15, leaves the contents of block number \<open>k\<close> in place although all of it lies past the new end, so that
  extending the file later brings the old data back.
\<close>

theorem sfs_truncate_keeps_block:
  assumes "sfs_disk dv sec nsec dinv" and "fs_at dinv sec nsec N n p i s" and "15 \<le> k" and "k < 143"
  shows "wpK (sfs_truncate dv p (int (512 * k)))
     (\<lambda>_ s'. \<exists>i'. fs_at dinv sec nsec (N(n \<mapsto> i')) n p i' s' \<and> sfi_size i' = 512 * k \<and>
        fblk (sec (sfs_device s')) i' k = fblk (sec (sfs_device s)) i k)
     (\<lambda>e s'. e = EIO) s"
proof -
  have "512 * k + 511 < 2147483648" "(512 * k + 511) div 512 = k" using assms(4) by simp_all
  note bl = trunc_blocklen_nat [OF this(1), unfolded this(2)]
  have x: "i2u32 (int (512 * k)) = 512 * k" unfolding i2u32_nat using assms(4) by (intro u32_id) simp
  have "(if (if k < 15 then k \<le> k else k < k) then a else b) = b" for a b :: "byte list" using assms(3) by simp
  then show ?thesis
    using assms(4) by (intro wp_mono [OF sfs_disk.truncate_wp [OF assms(1,2) bl x]]) (auto simp: file_step_def)
qed

theorem sfs_truncate_keeps_block_witness:
  "wpK (sfs_truncate (lhd_device (sim_hw (\<lambda>_. False) (\<lambda>_. False)) 2048) 100 7680)
     (\<lambda>_ s'. \<exists>i'. sfi_size i' = 7680 \<and> fblk (lhd_sec sd_disk (sfs_device s')) i' 15 =
        fblk (lhd_sec sd_disk (sfs_device example_fs)) example_inode 15) (\<lambda>e s'. e = EIO) example_fs"
  by (rule wp_mono [OF sfs_truncate_keeps_block [OF simd.sd.sfs_disk_axioms example_ok, of 15, simplified]]) auto

end
