(* ===== verification/SFS_Vnode.thy ===== *)
theory SFS_Vnode
  imports SFS_Dir SFS_Trunc Klock
begin

text \<open>
  The vnodes of SFS: the reference and open counts (\<^verbatim>\<open>kern/fs/vfs/vnode.c\<close>, on vnodes of this file system), loading
  and reclaiming of inodes, and the vnode operations of \<^verbatim>\<open>kern/fs/sfs/sfs_vnode.c\<close> with their two operation
  tables. A pointer to a vnode is its address in \<open>sfs_heap\<close>.

  \<^verbatim>\<open>VOP_FOO(vn, ...)\<close> runs \<^verbatim>\<open>vnode_check\<close> and then the entry of the operation table of the vnode; the
  entries \<^verbatim>\<open>NOTDIR\<close>, \<^verbatim>\<open>ISDIR\<close> and \<^verbatim>\<open>UNIMP\<close> are routines that return ENOTDIR, EISDIR and EUNIMP.
  \<^verbatim>\<open>vn_countlock\<close> is free whenever no count is being changed, which is how \<^verbatim>\<open>vnode_kill\<close> finds it.
\<close>

section \<open>Counts\<close>

definition on_vnodes :: "(nat karray, 'a) kern \<Rightarrow> ('d sfs_fs, 'a) kern" where
  "on_vnodes = zoomK sfs_vnodes (\<lambda>a s. s\<lparr>sfs_vnodes := a\<rparr>)"

definition vnode_check :: "bool \<Rightarrow> nat \<Rightarrow> ('d sfs_fs, unit) kern" where
  "vnode_check reclaim vn =
     bindK (svget vn id) (\<lambda>v.
       if vn_refcount v < 0 then panicK
       else if vn_refcount v = 0 \<and> \<not> reclaim then panicK
       else if vn_opencount v < 0 then panicK
       else retK ())"

definition vnode_init :: "vnode_ops \<Rightarrow> sfs_inode \<Rightarrow> nat \<Rightarrow> bool \<Rightarrow> ('d sfs_fs, nat) kern" where
  "vnode_init ops i ino dirty =
     bindK (on_km (lock_create 15)) (\<lambda>countlock.
     case countlock of
       None \<Rightarrow> failK ENOMEM
     | Some _ \<Rightarrow>
         bindK (getK sfs_newptr) (\<lambda>p.
         bindK (modK (\<lambda>s. s\<lparr>sfs_newptr := Suc p, sfs_heap := (sfs_heap s)(p \<mapsto>
            \<lparr>vn_refcount = 1, vn_opencount = 0, vn_ops = ops, sv_i = i, sv_ino = ino, sv_dirty = dirty\<rparr>)\<rparr>)) (\<lambda>_.
         retK p)))"

definition vnode_kill :: "nat \<Rightarrow> ('d sfs_fs, unit) kern" where
  "vnode_kill vn =
     bindK (svget vn id) (\<lambda>v.
     bindK (assertK (vn_refcount v = 1)) (\<lambda>_.
     bindK (assertK (vn_opencount v = 0)) (\<lambda>_.
     bindK (on_km (lock_destroy \<lparr>lk_available = 1, lk_holder = 0\<rparr>)) (\<lambda>_.
     svmod vn (\<lambda>v. v\<lparr>vn_refcount := 0, vn_opencount := 0\<rparr>)))))"

definition vnode_incref :: "nat \<Rightarrow> ('d sfs_fs, unit) kern" where
  "vnode_incref vn = svmod vn (\<lambda>v. v\<lparr>vn_refcount := s32 (vn_refcount v + 1)\<rparr>)"

definition vnode_incopen :: "nat \<Rightarrow> ('d sfs_fs, unit) kern" where
  "vnode_incopen vn = svmod vn (\<lambda>v. v\<lparr>vn_opencount := s32 (vn_opencount v + 1)\<rparr>)"

section \<open>Operations that need no other vnode\<close>

definition sfs_open :: "nat \<Rightarrow> ('d sfs_fs, unit) kern" where
  "sfs_open openflags = (if and openflags 32 \<noteq> 0 then failK EUNIMP else retK ())"

definition sfs_opendir :: "nat \<Rightarrow> ('d sfs_fs, unit) kern" where
  "sfs_opendir openflags =
     (if and openflags 3 \<noteq> 0 then failK EISDIR
      else if and openflags 32 \<noteq> 0 then failK EISDIR
      else retK ())"

definition sfs_fsync :: "'d device \<Rightarrow> nat \<Rightarrow> ('d sfs_fs, unit) kern" where
  "sfs_fsync dv vn = sfs_sync_inode dv vn"

definition VOP_FSYNC :: "'d device \<Rightarrow> nat \<Rightarrow> ('d sfs_fs, unit) kern" where
  "VOP_FSYNC dv vn = bindK (vnode_check False vn) (\<lambda>_. sfs_fsync dv vn)"

definition sfs_close :: "'d device \<Rightarrow> nat \<Rightarrow> ('d sfs_fs, unit) kern" where
  "sfs_close dv vn = VOP_FSYNC dv vn"

definition sfs_ioctl :: "int \<Rightarrow> ('d sfs_fs, unit) kern" where
  "sfs_ioctl op = failK EINVAL"

definition sfs_gettype :: "nat \<Rightarrow> ('d sfs_fs, nat) kern" where
  "sfs_gettype vn =
     bindK (svget vn (\<lambda>v. sfi_type (sv_i v))) (\<lambda>t.
       if t = SFS_TYPE_FILE then retK 4096
       else if t = SFS_TYPE_DIR then retK 8192
       else panicK)"

definition VOP_GETTYPE :: "nat \<Rightarrow> ('d sfs_fs, nat) kern" where
  "VOP_GETTYPE vn = bindK (vnode_check False vn) (\<lambda>_. sfs_gettype vn)"

record stat =
  st_mode :: nat
  st_nlink :: nat
  st_size :: int
  st_blocks :: nat

definition sfs_stat :: "nat \<Rightarrow> ('d sfs_fs, stat) kern" where
  "sfs_stat vn =
     bindK (VOP_GETTYPE vn) (\<lambda>mode.
     bindK (svget vn (\<lambda>v. sfi_size (sv_i v))) (\<lambda>sz.
     retK \<lparr>st_mode = mode, st_nlink = 0, st_size = s32 (int sz), st_blocks = 0\<rparr>))"

definition sfs_tryseek :: "int \<Rightarrow> ('d sfs_fs, unit) kern" where
  "sfs_tryseek pos = (if pos < 0 then failK EINVAL else retK ())"

definition sfs_mmap :: "('d sfs_fs, unit) kern" where
  "sfs_mmap = failK EUNIMP"

text \<open>\<^verbatim>\<open>sfs_namefile\<close> hands back the empty string.\<close>

definition sfs_namefile :: "nat \<Rightarrow> ('d sfs_fs, byte list) kern" where
  "sfs_namefile vn =
     bindK (svget vn sv_ino) (\<lambda>ino. bindK (assertK (ino = SFS_ROOT_LOCATION)) (\<lambda>_. retK []))"

definition VOP_TRUNCATE :: "'d device \<Rightarrow> nat \<Rightarrow> int \<Rightarrow> ('d sfs_fs, unit) kern" where
  "VOP_TRUNCATE dv vn len =
     bindK (vnode_check False vn) (\<lambda>_.
     bindK (svget vn vn_ops) (\<lambda>ops.
       case ops of SFS_FILEOPS \<Rightarrow> sfs_truncate dv vn len | SFS_DIROPS \<Rightarrow> failK EISDIR))"

definition VOP_CLOSE :: "'d device \<Rightarrow> nat \<Rightarrow> ('d sfs_fs, unit) kern" where
  "VOP_CLOSE dv vn = bindK (vnode_check False vn) (\<lambda>_. sfs_close dv vn)"

definition vnode_decopen :: "'d device \<Rightarrow> nat \<Rightarrow> ('d sfs_fs, unit) kern" where
  "vnode_decopen dv vn =
     bindK (svget vn vn_opencount) (\<lambda>n.
     bindK (assertK (n > 0)) (\<lambda>_.
     bindK (svmod vn (\<lambda>v. v\<lparr>vn_opencount := n - 1\<rparr>)) (\<lambda>_.
       if n - 1 > 0 then retK ()
       else bindK (tryK (VOP_CLOSE dv vn)) (\<lambda>_. retK ()))))"

section \<open>Loading and reclaiming\<close>

text \<open>The search through the table of loaded vnodes; \<open>k\<close> cells are left, starting with cell \<open>i\<close>.\<close>

fun sfs_loadvnode_find :: "nat \<Rightarrow> nat \<Rightarrow> nat \<Rightarrow> ('d sfs_fs, nat option) kern" where
  "sfs_loadvnode_find ino i 0 = retK None"
| "sfs_loadvnode_find ino i (Suc k) =
     bindK (on_vnodes (array_getguy (int i))) (\<lambda>sv.
     bindK (svget sv sv_ino) (\<lambda>n.
     bindK (sfs_bused n) (\<lambda>used.
       if \<not> used then panicK
       else if n = ino then retK (Some sv)
       else sfs_loadvnode_find ino (Suc i) k)))"

text \<open>\<^verbatim>\<open>array_add(sfs->sfs_vnodes, sv)\<close>, which may call \<^verbatim>\<open>kmalloc\<close> once.\<close>

definition sfs_vnodes_add :: "nat \<Rightarrow> ('d sfs_fs, unit) kern" where
  "sfs_vnodes_add sv s =
     (let km = sfs_km s in
      on_vnodes (array_add (km_oracle km (km_calls km)) sv) (s\<lparr>sfs_km := km\<lparr>km_calls := Suc (km_calls km)\<rparr>\<rparr>))"

definition sfs_loadvnode_new :: "'d device \<Rightarrow> nat \<Rightarrow> nat \<Rightarrow> ('d sfs_fs, nat) kern" where
  "sfs_loadvnode_new dv ino forcetype =
     bindK (on_km (kmalloc 544)) (\<lambda>ok.
     if \<not> ok then failK ENOMEM else
     bindK (sfs_bused ino) (\<lambda>used.
     if \<not> used then panicK else
     bindK (sfs_rblock dv ino) (\<lambda>bs.
     bindK (if forcetype \<noteq> SFS_TYPE_INVAL then
              bindK (assertK (sfi_type (dec_inode bs) = SFS_TYPE_INVAL)) (\<lambda>_.
              retK ((dec_inode bs)\<lparr>sfi_type := u16 forcetype\<rparr>, True))
            else retK (dec_inode bs, False)) (\<lambda>(i, dirty).
     bindK (if sfi_type i = SFS_TYPE_FILE then retK SFS_FILEOPS
            else if sfi_type i = SFS_TYPE_DIR then retK SFS_DIROPS
            else panicK) (\<lambda>ops.
     bindK (vnode_init ops i ino dirty) (\<lambda>sv.
     bindK (tryK (sfs_vnodes_add sv)) (\<lambda>result.
     case result of
       Inl e \<Rightarrow> bindK (vnode_kill sv) (\<lambda>_. failK e)
     | Inr _ \<Rightarrow> retK sv)))))))"

definition sfs_loadvnode :: "'d device \<Rightarrow> nat \<Rightarrow> nat \<Rightarrow> ('d sfs_fs, nat) kern" where
  "sfs_loadvnode dv ino forcetype =
     bindK (getK (\<lambda>s. array_getnum (sfs_vnodes s))) (\<lambda>num.
     bindK (sfs_loadvnode_find ino 0 (nat num)) (\<lambda>found.
     case found of
       Some sv \<Rightarrow>
         bindK (assertK (forcetype = SFS_TYPE_INVAL)) (\<lambda>_.
         bindK (vnode_incref sv) (\<lambda>_. retK sv))
     | None \<Rightarrow> sfs_loadvnode_new dv ino forcetype))"

definition sfs_getroot :: "'d device \<Rightarrow> ('d sfs_fs, nat) kern" where
  "sfs_getroot dv =
     bindK (tryK (sfs_loadvnode dv SFS_ROOT_LOCATION SFS_TYPE_INVAL)) (\<lambda>result.
     case result of Inl _ \<Rightarrow> panicK | Inr sv \<Rightarrow> retK sv)"

fun sfs_reclaim_index :: "nat \<Rightarrow> nat \<Rightarrow> nat \<Rightarrow> ('d sfs_fs, int) kern" where
  "sfs_reclaim_index sv i 0 = retK (- 1)"
| "sfs_reclaim_index sv i (Suc k) =
     bindK (on_vnodes (array_getguy (int i))) (\<lambda>sv2.
       if sv2 = sv then retK (int i) else sfs_reclaim_index sv (Suc i) k)"

text \<open>Up to the removal from the table, for the last reference; and the whole routine.\<close>

definition sfs_reclaim_detach :: "'d device \<Rightarrow> nat \<Rightarrow> ('d sfs_fs, unit) kern" where
  "sfs_reclaim_detach dv vn =
     bindK (svget vn (\<lambda>v. sfi_linkcount (sv_i v))) (\<lambda>lc.
     bindK (if lc = 0 then VOP_TRUNCATE dv vn 0 else retK ()) (\<lambda>_.
     bindK (sfs_sync_inode dv vn) (\<lambda>_.
     bindK (svget vn id) (\<lambda>v.
     bindK (if sfi_linkcount (sv_i v) = 0 then sfs_bfree (sv_ino v) else retK ()) (\<lambda>_.
     bindK (getK (\<lambda>s. array_getnum (sfs_vnodes s))) (\<lambda>num.
     bindK (sfs_reclaim_index vn 0 (nat num)) (\<lambda>ix.
       if ix < 0 then panicK else on_vnodes (array_remove ix))))))))"

definition sfs_reclaim :: "'d device \<Rightarrow> nat \<Rightarrow> ('d sfs_fs, unit) kern" where
  "sfs_reclaim dv vn =
     bindK (svget vn vn_refcount) (\<lambda>rc.
     if rc \<noteq> 1 then
       bindK (assertK (rc > 1)) (\<lambda>_.
       bindK (svmod vn (\<lambda>v. v\<lparr>vn_refcount := rc - 1\<rparr>)) (\<lambda>_. failK EBUSY))
     else
       bindK (sfs_reclaim_detach dv vn) (\<lambda>_.
       bindK (vnode_kill vn) (\<lambda>_.
       modK (\<lambda>s. s\<lparr>sfs_heap := (sfs_heap s)(vn := None)\<rparr>))))"

definition VOP_RECLAIM :: "'d device \<Rightarrow> nat \<Rightarrow> ('d sfs_fs, unit) kern" where
  "VOP_RECLAIM dv vn = bindK (vnode_check True vn) (\<lambda>_. sfs_reclaim dv vn)"

definition vnode_decref :: "'d device \<Rightarrow> nat \<Rightarrow> ('d sfs_fs, unit) kern" where
  "vnode_decref dv vn =
     bindK (svget vn vn_refcount) (\<lambda>rc.
     bindK (assertK (rc > 0)) (\<lambda>_.
       if rc > 1 then svmod vn (\<lambda>v. v\<lparr>vn_refcount := rc - 1\<rparr>)
       else bindK (tryK (VOP_RECLAIM dv vn)) (\<lambda>_. retK ())))"

section \<open>Names\<close>

definition sfs_lookonce :: "'d device \<Rightarrow> nat \<Rightarrow> byte list \<Rightarrow> ('d sfs_fs, nat \<times> int) kern" where
  "sfs_lookonce dv sv name =
     bindK (sfs_dir_findname dv sv name) (\<lambda>(result, d).
     case result of
       Some e \<Rightarrow> failK e
     | None \<Rightarrow>
         bindK (sfs_loadvnode dv (the (ds_ino d)) SFS_TYPE_INVAL) (\<lambda>ret.
         bindK (svget ret (\<lambda>v. sfi_linkcount (sv_i v))) (\<lambda>lc.
           if lc = 0 then panicK else retK (ret, the (ds_slot d)))))"

definition sfs_makeobj :: "'d device \<Rightarrow> nat \<Rightarrow> ('d sfs_fs, nat) kern" where
  "sfs_makeobj dv type = bindK (sfs_balloc dv) (\<lambda>ino. sfs_loadvnode dv ino type)"

text \<open>Changing the link count of an inode, and marking it dirty.\<close>

definition sv_link :: "(nat \<Rightarrow> nat) \<Rightarrow> nat \<Rightarrow> ('d sfs_fs, unit) kern" where
  "sv_link f sv = svmod sv (\<lambda>v. v\<lparr>sv_i := (sv_i v)\<lparr>sfi_linkcount := f (sfi_linkcount (sv_i v))\<rparr>, sv_dirty := True\<rparr>)"

definition sfs_creat :: "'d device \<Rightarrow> nat \<Rightarrow> byte list \<Rightarrow> bool \<Rightarrow> ('d sfs_fs, nat) kern" where
  "sfs_creat dv sv name excl =
     bindK (sfs_dir_findname dv sv name) (\<lambda>(result, d).
     if result \<noteq> None \<and> result \<noteq> Some ENOENT then failK (the result)
     else if result = None \<and> excl then failK EEXIST
     else if result = None then sfs_loadvnode dv (the (ds_ino d)) SFS_TYPE_INVAL
     else
       bindK (sfs_makeobj dv SFS_TYPE_FILE) (\<lambda>newguy.
       bindK (svget newguy sv_ino) (\<lambda>ino.
       bindK (tryK (sfs_dir_link dv sv name ino)) (\<lambda>result.
       case result of
         Inl e \<Rightarrow> bindK (vnode_decref dv newguy) (\<lambda>_. failK e)
       | Inr _ \<Rightarrow>
           bindK (sv_link (\<lambda>lc. u16 (lc + 1)) newguy) (\<lambda>_. retK newguy)))))"

definition sfs_link :: "'d device \<Rightarrow> nat \<Rightarrow> byte list \<Rightarrow> nat \<Rightarrow> ('d sfs_fs, unit) kern" where
  "sfs_link dv sv name f =
     bindK (svget f sv_ino) (\<lambda>ino.
     bindK (sfs_dir_link dv sv name ino) (\<lambda>_.
     sv_link (\<lambda>lc. u16 (lc + 1)) f))"

definition sfs_remove :: "'d device \<Rightarrow> nat \<Rightarrow> byte list \<Rightarrow> ('d sfs_fs, unit) kern" where
  "sfs_remove dv sv name =
     bindK (sfs_lookonce dv sv name) (\<lambda>(victim, slot).
     bindK (tryK (sfs_dir_unlink dv sv slot)) (\<lambda>result.
     bindK (case result of
              Inl _ \<Rightarrow> retK ()
            | Inr _ \<Rightarrow>
                bindK (svget victim (\<lambda>v. sfi_linkcount (sv_i v))) (\<lambda>lc.
                bindK (assertK (lc > 0)) (\<lambda>_. sv_link (\<lambda>lc. lc - 1) victim))) (\<lambda>_.
     bindK (vnode_decref dv victim) (\<lambda>_.
     resultK result))))"

text \<open>
  \<^verbatim>\<open>sfs_rename\<close> in the order of the source: the part after the new name is in (\<^verbatim>\<open>sfs_rename_swap\<close>) and the
  recovery from the label \<^verbatim>\<open>puke_harder\<close> on (\<^verbatim>\<open>sfs_rename_undo\<close>) have names of their own.
\<close>

definition sfs_rename_undo :: "'d device \<Rightarrow> nat \<Rightarrow> int \<Rightarrow> nat \<Rightarrow> errno \<Rightarrow> ('d sfs_fs, unit) kern" where
  "sfs_rename_undo dv sv slot2 g1 result =
     bindK (tryK (sfs_dir_unlink dv sv slot2)) (\<lambda>result2.
     case result2 of
       Inl _ \<Rightarrow> panicK
     | Inr _ \<Rightarrow>
         bindK (svmod g1 (\<lambda>v. v\<lparr>sv_i := (sv_i v)\<lparr>sfi_linkcount := u16 (sfi_linkcount (sv_i v) + 65535)\<rparr>\<rparr>)) (\<lambda>_.
         bindK (vnode_decref dv g1) (\<lambda>_. failK result)))"

definition sfs_rename_swap :: "'d device \<Rightarrow> nat \<Rightarrow> int \<Rightarrow> int \<Rightarrow> nat \<Rightarrow> ('d sfs_fs, unit) kern" where
  "sfs_rename_swap dv sv slot1 slot2 g1 =
     bindK (tryK (sfs_dir_unlink dv sv slot1)) (\<lambda>result.
     case result of
       Inl e \<Rightarrow> sfs_rename_undo dv sv slot2 g1 e
     | Inr _ \<Rightarrow>
         bindK (svget g1 (\<lambda>v. sfi_linkcount (sv_i v))) (\<lambda>lc.
         bindK (assertK (lc > 0)) (\<lambda>_.
         bindK (sv_link (\<lambda>lc. lc - 1) g1) (\<lambda>_.
         vnode_decref dv g1))))"

definition sfs_rename_link :: "'d device \<Rightarrow> nat \<Rightarrow> byte list \<Rightarrow> nat \<Rightarrow> int \<Rightarrow> ('d sfs_fs, unit) kern" where
  "sfs_rename_link dv sv n2 g1 slot1 =
     bindK (svget g1 id) (\<lambda>g.
     bindK (assertK (sfi_type (sv_i g) = SFS_TYPE_FILE)) (\<lambda>_.
     bindK (tryK (sfs_dir_link dv sv n2 (sv_ino g))) (\<lambda>result.
     case result of
       Inl e \<Rightarrow> bindK (vnode_decref dv g1) (\<lambda>_. failK e)
     | Inr slot2 \<Rightarrow>
         bindK (sv_link (\<lambda>lc. u16 (lc + 1)) g1) (\<lambda>_.
         sfs_rename_swap dv sv slot1 slot2 g1))))"

definition sfs_rename :: "'d device \<Rightarrow> nat \<Rightarrow> byte list \<Rightarrow> nat \<Rightarrow> byte list \<Rightarrow> ('d sfs_fs, unit) kern" where
  "sfs_rename dv d1 n1 d2 n2 =
     bindK (assertK (d1 = d2)) (\<lambda>_.
     bindK (svget d1 sv_ino) (\<lambda>dino.
     bindK (assertK (dino = SFS_ROOT_LOCATION)) (\<lambda>_.
     bindK (sfs_lookonce dv d1 n1) (\<lambda>(g1, slot1). sfs_rename_link dv d1 n2 g1 slot1))))"

text \<open>\<^verbatim>\<open>sfs_lookparent\<close> returns the directory and the string copied to \<^verbatim>\<open>buf\<close>.\<close>

definition sfs_lookparent :: "nat \<Rightarrow> byte list \<Rightarrow> nat \<Rightarrow> ('d sfs_fs, nat \<times> byte list) kern" where
  "sfs_lookparent sv path buflen =
     bindK (svget sv (\<lambda>v. sfi_type (sv_i v))) (\<lambda>t.
       if t \<noteq> SFS_TYPE_DIR then failK ENOTDIR
       else if length path + 1 > buflen then failK ENAMETOOLONG
       else bindK (vnode_incref sv) (\<lambda>_. retK (sv, path)))"

definition sfs_lookup :: "'d device \<Rightarrow> nat \<Rightarrow> byte list \<Rightarrow> ('d sfs_fs, nat) kern" where
  "sfs_lookup dv sv path =
     bindK (svget sv (\<lambda>v. sfi_type (sv_i v))) (\<lambda>t.
       if t \<noteq> SFS_TYPE_DIR then failK ENOTDIR
       else bindK (sfs_lookonce dv sv path) (\<lambda>(final, slot). retK final))"

section \<open>The operation tables\<close>

definition sfs_notdir :: "('s, 'a) kern" where
  "sfs_notdir = failK ENOTDIR"

definition sfs_isdir :: "('s, 'a) kern" where
  "sfs_isdir = failK EISDIR"

definition sfs_unimp :: "('s, 'a) kern" where
  "sfs_unimp = failK EUNIMP"

text \<open>\<^verbatim>\<open>__VOP(vn, sym)\<close>: the entry of \<^verbatim>\<open>sfs_fileops\<close> or of \<^verbatim>\<open>sfs_dirops\<close>.\<close>

definition vop :: "nat \<Rightarrow> ('d sfs_fs, 'a) kern \<Rightarrow> ('d sfs_fs, 'a) kern \<Rightarrow> ('d sfs_fs, 'a) kern" where
  "vop vn fileop dirop =
     bindK (vnode_check False vn) (\<lambda>_.
     bindK (svget vn vn_ops) (\<lambda>ops.
       case ops of SFS_FILEOPS \<Rightarrow> fileop | SFS_DIROPS \<Rightarrow> dirop))"

definition vop_uio :: "nat \<Rightarrow> ('d sfs_fs \<times> uio, 'a) kern \<Rightarrow> ('d sfs_fs \<times> uio, 'a) kern \<Rightarrow> ('d sfs_fs \<times> uio, 'a) kern" where
  "vop_uio vn fileop dirop =
     bindK (on_fst (vnode_check False vn)) (\<lambda>_.
     bindK (on_fst (svget vn vn_ops)) (\<lambda>ops.
       case ops of SFS_FILEOPS \<Rightarrow> fileop | SFS_DIROPS \<Rightarrow> dirop))"

definition VOP_OPEN :: "nat \<Rightarrow> nat \<Rightarrow> ('d sfs_fs, unit) kern" where
  "VOP_OPEN vn flags = vop vn (sfs_open flags) (sfs_opendir flags)"

definition VOP_READ :: "'d device \<Rightarrow> nat \<Rightarrow> ('d sfs_fs \<times> uio, unit) kern" where
  "VOP_READ dv vn = vop_uio vn (sfs_read dv vn) sfs_isdir"

definition VOP_READLINK :: "nat \<Rightarrow> ('d sfs_fs \<times> uio, unit) kern" where
  "VOP_READLINK vn = vop_uio vn sfs_notdir sfs_isdir"

definition VOP_GETDIRENTRY :: "nat \<Rightarrow> ('d sfs_fs \<times> uio, unit) kern" where
  "VOP_GETDIRENTRY vn = vop_uio vn sfs_notdir sfs_unimp"

definition VOP_WRITE :: "'d device \<Rightarrow> nat \<Rightarrow> ('d sfs_fs \<times> uio, unit) kern" where
  "VOP_WRITE dv vn = vop_uio vn (sfs_write dv vn) sfs_isdir"

definition VOP_IOCTL :: "nat \<Rightarrow> int \<Rightarrow> ('d sfs_fs, unit) kern" where
  "VOP_IOCTL vn code = vop vn (sfs_ioctl code) (sfs_ioctl code)"

definition VOP_STAT :: "nat \<Rightarrow> ('d sfs_fs, stat) kern" where
  "VOP_STAT vn = vop vn (sfs_stat vn) (sfs_stat vn)"

definition VOP_TRYSEEK :: "nat \<Rightarrow> int \<Rightarrow> ('d sfs_fs, unit) kern" where
  "VOP_TRYSEEK vn pos = vop vn (sfs_tryseek pos) sfs_unimp"

definition VOP_MMAP :: "nat \<Rightarrow> ('d sfs_fs, unit) kern" where
  "VOP_MMAP vn = vop vn sfs_mmap sfs_isdir"

definition VOP_NAMEFILE :: "nat \<Rightarrow> ('d sfs_fs, byte list) kern" where
  "VOP_NAMEFILE vn = vop vn sfs_notdir (sfs_namefile vn)"

definition VOP_CREAT :: "'d device \<Rightarrow> nat \<Rightarrow> byte list \<Rightarrow> bool \<Rightarrow> ('d sfs_fs, nat) kern" where
  "VOP_CREAT dv vn name excl = vop vn sfs_notdir (sfs_creat dv vn name excl)"

definition VOP_SYMLINK :: "nat \<Rightarrow> byte list \<Rightarrow> byte list \<Rightarrow> ('d sfs_fs, unit) kern" where
  "VOP_SYMLINK vn name content = vop vn sfs_notdir sfs_unimp"

definition VOP_MKDIR :: "nat \<Rightarrow> byte list \<Rightarrow> ('d sfs_fs, unit) kern" where
  "VOP_MKDIR vn name = vop vn sfs_notdir sfs_unimp"

definition VOP_LINK :: "'d device \<Rightarrow> nat \<Rightarrow> byte list \<Rightarrow> nat \<Rightarrow> ('d sfs_fs, unit) kern" where
  "VOP_LINK dv vn name vn2 = vop vn sfs_notdir (sfs_link dv vn name vn2)"

definition VOP_REMOVE :: "'d device \<Rightarrow> nat \<Rightarrow> byte list \<Rightarrow> ('d sfs_fs, unit) kern" where
  "VOP_REMOVE dv vn name = vop vn sfs_notdir (sfs_remove dv vn name)"

definition VOP_RMDIR :: "nat \<Rightarrow> byte list \<Rightarrow> ('d sfs_fs, unit) kern" where
  "VOP_RMDIR vn name = vop vn sfs_notdir sfs_unimp"

definition VOP_RENAME :: "'d device \<Rightarrow> nat \<Rightarrow> byte list \<Rightarrow> nat \<Rightarrow> byte list \<Rightarrow> ('d sfs_fs, unit) kern" where
  "VOP_RENAME dv vn1 name1 vn2 name2 = vop vn1 sfs_notdir (sfs_rename dv vn1 name1 vn2 name2)"

definition VOP_LOOKUP :: "'d device \<Rightarrow> nat \<Rightarrow> byte list \<Rightarrow> ('d sfs_fs, nat) kern" where
  "VOP_LOOKUP dv vn path = vop vn sfs_notdir (sfs_lookup dv vn path)"

definition VOP_LOOKPARENT :: "nat \<Rightarrow> byte list \<Rightarrow> nat \<Rightarrow> ('d sfs_fs, nat \<times> byte list) kern" where
  "VOP_LOOKPARENT vn path buflen = vop vn sfs_notdir (sfs_lookparent vn path buflen)"

end
