(* ===== verification/SFS_Load.thy ===== *)
theory SFS_Load
  imports SFS_Vnode
begin

text \<open>
  The table of loaded vnodes: its invariant, and what loading an inode does. An inode is in memory at most once;
  \<^verbatim>\<open>sfs_loadvnode\<close> returns the vnode that is there with one more reference, or a fresh one with the inode read from
  its block.

  When the table has to grow and there is no memory for that, \<^verbatim>\<open>sfs_loadvnode\<close> calls \<^verbatim>\<open>vnode_kill\<close>, which panics
  (it destroys a lock); \<open>vroom\<close> excludes that case.
\<close>

section \<open>The table of vnodes\<close>

definition ops_of :: "nat \<Rightarrow> vnode_ops" where
  "ops_of t = (if t = SFS_TYPE_DIR then SFS_DIROPS else SFS_FILEOPS)"

definition vnode_ok :: "sfs_vnode \<Rightarrow> bool" where
  "vnode_ok v \<longleftrightarrow> 1 \<le> vn_refcount v \<and> 0 \<le> vn_opencount v \<and> vn_ops v = ops_of (sfi_type (sv_i v))"

definition vt_ok :: "'d sfs_fs \<Rightarrow> bool" where
  "vt_ok s \<longleftrightarrow> (\<exists>ps. array_rep (sfs_vnodes s) ps \<and> distinct ps \<and> set ps = dom (sfs_heap s)) \<and>
     (\<forall>p v. sfs_heap s p = Some v \<longrightarrow> p < sfs_newptr s \<and> vnode_ok v)"

definition vroom :: "'d sfs_fs \<Rightarrow> bool" where
  "vroom s \<longleftrightarrow> arr_num (sfs_vnodes s) < arr_max (sfs_vnodes s) \<or> (\<forall>k sz. km_oracle (sfs_km s) k sz)"

lemma vt_okE:
  assumes "vt_ok s"
  obtains ps where "array_rep (sfs_vnodes s) ps" "distinct ps" "set ps = dom (sfs_heap s)"
  using assms unfolding vt_ok_def by blast

lemma vt_okD: "vt_ok s \<Longrightarrow> sfs_heap s p = Some v \<Longrightarrow> p < sfs_newptr s" "vt_ok s \<Longrightarrow> sfs_heap s p = Some v \<Longrightarrow> vnode_ok v"
  unfolding vt_ok_def by blast+

lemma vt_ok_new: "vt_ok s \<Longrightarrow> sfs_heap s (sfs_newptr s) = None"
  using vt_okD(1) [of s "sfs_newptr s"] by (cases "sfs_heap s (sfs_newptr s)") auto

lemma vt_ok_update:
  assumes "vt_ok s" "sfs_heap s p = Some v" "sfs_heap s' = (sfs_heap s)(p \<mapsto> v')" "vnode_ok v'"
    "sfs_vnodes s' = sfs_vnodes s" "sfs_newptr s' = sfs_newptr s"
  shows "vt_ok s'"
proof -
  have "dom (sfs_heap s') = dom (sfs_heap s)" using assms(2,3) by auto
  then show ?thesis using assms unfolding vt_ok_def by auto
qed

lemma vt_ok_cong:
  "vt_ok s \<Longrightarrow> sfs_heap s' = sfs_heap s \<Longrightarrow> sfs_vnodes s' = sfs_vnodes s \<Longrightarrow> sfs_newptr s' = sfs_newptr s \<Longrightarrow> vt_ok s'"
  by (simp add: vt_ok_def)

lemma inode_ok_self:
  assumes "inode_ok U nb dk n i"
  shows "n \<in> U" "n < nb" "n \<notin> sys_blocks nb"
  using inode_okD(6-8) [OF assms] self_own [of n dk i] by blast+

text \<open>There are no more loaded vnodes than blocks.\<close>

lemma vt_ok_length:
  assumes ok: "fs_ok ns dk N s" and "set ps = dom (sfs_heap s)" "distinct ps"
  shows "length ps \<le> sp_nblocks (sfs_super s)"
proof -
  let ?f = "\<lambda>p. sv_ino (the (sfs_heap s p))"
  have "inj_on ?f (set ps)"
  proof (rule inj_onI)
    fix p q assume pq: "p \<in> set ps" "q \<in> set ps" "?f p = ?f q"
    then obtain v w where "sfs_heap s p = Some v" "sfs_heap s q = Some w" using assms(2) by auto
    then show "p = q" using heap_okD(3) [OF fs_okD(2) [OF ok]] pq(3) by simp
  qed
  moreover have "?f ` set ps \<subseteq> {..<sp_nblocks (sfs_super s)}"
  proof
    fix n assume "n \<in> ?f ` set ps"
    then obtain p v where v: "sfs_heap s p = Some v" "n = sv_ino v" using assms(2) by auto
    then show "n \<in> {..<sp_nblocks (sfs_super s)}"
      using inode_ok_self(2) [OF fs_okD(3) [OF ok heap_okD(1) [OF fs_okD(2) [OF ok] v(1)]]] by simp
  qed
  ultimately have "card (set ps) \<le> card {..<sp_nblocks (sfs_super s)}" by (intro card_inj_on_le) auto
  then show ?thesis using assms(3) by (simp add: distinct_card)
qed

section \<open>Changes of the counts\<close>

lemma wp_on_vnodes [wp]:
  "wpK (on_vnodes m) Q E =
     (\<lambda>s. wpK m (\<lambda>a b. Q a (s\<lparr>sfs_vnodes := b\<rparr>)) (\<lambda>e b. E e (s\<lparr>sfs_vnodes := b\<rparr>)) (sfs_vnodes s))"
  by (simp add: on_vnodes_def wp)

lemma wp_on_km [wp]:
  "wpK (on_km m) Q E = (\<lambda>s. wpK m (\<lambda>a b. Q a (s\<lparr>sfs_km := b\<rparr>)) (\<lambda>e b. E e (s\<lparr>sfs_km := b\<rparr>)) (sfs_km s))"
  by (simp add: on_km_def wp)

lemma fs_ok_counts:
  assumes ok: "fs_ok ns dk N s" and v: "sfs_heap s p = Some v" "sv_i v' = sv_i v" "sv_ino v' = sv_ino v" "sv_dirty v' = sv_dirty v"
    and s': "sfs_heap s' = (sfs_heap s)(p \<mapsto> v')" "sfs_freemap s' = sfs_freemap s" "sfs_super s' = sfs_super s"
  shows "fs_ok ns dk N s'"
proof -
  have "heap_ok dk N (sfs_heap s')"
  proof -
    note h = fs_okD(2) [OF ok]
    have "N(sv_ino v \<mapsto> sv_i v) = N" using heap_okD(1) [OF h v(1)] by auto
    then show ?thesis using heap_ok_update [OF h v(1) refl, of dk v' "sv_i v"] heap_okD(2) [OF h v(1)] v by (auto simp: s'(1))
  qed
  then show ?thesis using ok s' by (simp add: fs_ok_def map_ok_def)
qed

section \<open>Loading\<close>

text \<open>
  \<open>settled\<close>: the device is in order, the volume and the table satisfy their invariants, and no reference count is about
  to overflow. \<open>loaded\<close>: what \<^verbatim>\<open>sfs_loadvnode\<close> leaves for the inode number \<open>ino\<close>.
\<close>

definition settled :: "('d \<Rightarrow> bool) \<Rightarrow> ('d \<Rightarrow> nat \<Rightarrow> byte list) \<Rightarrow> nat \<Rightarrow> (nat \<rightharpoonup> sfs_inode) \<Rightarrow> 'd sfs_fs \<Rightarrow> bool" where
  "settled din sc ns N s \<longleftrightarrow> din (sfs_device s) \<and> fs_ok ns (sc (sfs_device s)) N s \<and> vt_ok s"

definition rc_ok :: "'d sfs_fs \<Rightarrow> bool" where
  "rc_ok s \<longleftrightarrow> (\<forall>p v. sfs_heap s p = Some v \<longrightarrow> vn_refcount v < 2147483647)"

text \<open>Nothing but the device, the allocator and the vnodes has changed, and the disk has the contents it had.\<close>

definition same_vol :: "('d \<Rightarrow> nat \<Rightarrow> byte list) \<Rightarrow> 'd sfs_fs \<Rightarrow> 'd sfs_fs \<Rightarrow> bool" where
  "same_vol sc s s' \<longleftrightarrow> sc (sfs_device s') = sc (sfs_device s) \<and> sfs_super s' = sfs_super s \<and>
     sfs_superdirty s' = sfs_superdirty s \<and> sfs_freemap s' = sfs_freemap s \<and> sfs_freemapdirty s' = sfs_freemapdirty s"

definition loaded :: "'d sfs_fs \<Rightarrow> nat \<Rightarrow> sfs_inode \<Rightarrow> nat \<Rightarrow> 'd sfs_fs \<Rightarrow> bool" where
  "loaded s ino i p s' \<longleftrightarrow> (\<exists>v'. sfs_heap s' = (sfs_heap s)(p \<mapsto> v') \<and> sv_ino v' = ino \<and> sv_i v' = i \<and>
     (case sfs_heap s p of
        Some v \<Rightarrow> v' = v\<lparr>vn_refcount := vn_refcount v + 1\<rparr>
      | None \<Rightarrow> vn_refcount v' = 1 \<and> vn_opencount v' = 0 \<and> (\<forall>q v. sfs_heap s q = Some v \<longrightarrow> sv_ino v \<noteq> ino)))"

lemma bused_vnode:
  assumes "fs_ok ns dk N s" "N n = Some i"
  shows "sfs_bused n s = Some (Inr True, s)"
proof -
  note io = inode_ok_self [OF fs_okD(3) [OF assms]]
  have "bitmap_isset n (sfs_freemap s) = Some (Inr True, sfs_freemap s)"
    using bmap.inuse_spec [of "sfs_freemap s" n] io fs_okD(1) [OF assms(1)] by (auto simp: map_ok_def)
  then show ?thesis
    using io by (simp add: sfs_bused_def on_freemap_def kern_defs)
qed

lemma loadvnode_find_spec:
  assumes ok: "fs_ok ns dk N s" and ps: "array_rep (sfs_vnodes s) ps" "set ps = dom (sfs_heap s)"
  shows "i + k = length ps \<Longrightarrow> sfs_loadvnode_find ino i k s =
     Some (Inr (List.find (\<lambda>p. sv_ino (the (sfs_heap s p)) = ino) (drop i ps)), s)"
proof (induction k arbitrary: i)
  case 0
  then show ?case by (simp add: retK_def)
next
  case (Suc k)
  then have i: "i < length ps" "drop i ps = ps ! i # drop (Suc i) ps" by (simp_all add: Cons_nth_drop_Suc)
  then obtain v where v: "sfs_heap s (ps ! i) = Some v" using ps(2) nth_mem [of i ps] by auto
  have "sfs_bused (sv_ino v) s = Some (Inr True, s)"
    using bused_vnode [OF ok heap_okD(1) [OF fs_okD(2) [OF ok] v]] .
  moreover have "on_vnodes (array_getguy (int i)) s = Some (Inr (ps ! i), s)"
    by (simp add: on_vnodes_def zoomK_def array_getguy_spec [OF ps(1) i(1)])
  ultimately show ?case
    using Suc v i(2) by (simp add: bindK_def svget_def retK_def)
qed

lemma loadvnode_find:
  assumes ok: "fs_ok ns dk N s" and vt: "vt_ok s"
  shows "(\<exists>p v. sfs_loadvnode_find ino 0 (nat (array_getnum (sfs_vnodes s))) s = Some (Inr (Some p), s) \<and>
       sfs_heap s p = Some v \<and> sv_ino v = ino) \<or>
     sfs_loadvnode_find ino 0 (nat (array_getnum (sfs_vnodes s))) s = Some (Inr None, s) \<and>
       (\<forall>p v. sfs_heap s p = Some v \<longrightarrow> sv_ino v \<noteq> ino)"
proof -
  obtain ps where ps: "array_rep (sfs_vnodes s) ps" "distinct ps" "set ps = dom (sfs_heap s)" using vt by (rule vt_okE)
  let ?P = "\<lambda>p. sv_ino (the (sfs_heap s p)) = ino"
  have eq: "sfs_loadvnode_find ino 0 (nat (array_getnum (sfs_vnodes s))) s = Some (Inr (List.find ?P ps), s)"
    using loadvnode_find_spec [OF ok ps(1,3), of 0 "length ps" ino] array_getnum_spec [OF ps(1)] by simp
  show ?thesis
  proof (cases "List.find ?P ps")
    case None
    then have "\<not> ?P p" if "p \<in> set ps" for p using that by (auto simp: find_None_iff)
    then have "\<forall>p v. sfs_heap s p = Some v \<longrightarrow> sv_ino v \<noteq> ino" using ps(3) by fastforce
    then show ?thesis using eq None by simp
  next
    case (Some p)
    then have "p \<in> set ps" "?P p" by (auto simp: find_Some_iff)
    then obtain v where "sfs_heap s p = Some v" "sv_ino v = ino" using ps(3) by fastforce
    then show ?thesis using eq Some by auto
  qed
qed

lemma incref_loaded:
  assumes st: "settled din sc ns N s" and v: "sfs_heap s p = Some v" "sv_ino v = ino" and rc: "rc_ok s" and N: "N ino = Some i"
  shows "wpK (vnode_incref p) (\<lambda>_ s'. settled din sc ns N s' \<and> loaded s ino i p s' \<and> same_vol sc s s') E s"
proof -
  let ?v = "v\<lparr>vn_refcount := vn_refcount v + 1\<rparr>" and ?s = "s\<lparr>sfs_heap := (sfs_heap s)(p \<mapsto> v\<lparr>vn_refcount := vn_refcount v + 1\<rparr>)\<rparr>"
  have ok: "fs_ok ns (sc (sfs_device s)) N s" and vt: "vt_ok s" using st by (auto simp: settled_def)
  have vo: "vnode_ok v" using vt_okD(2) [OF vt v(1)] .
  then have r: "s32 (vn_refcount v + 1) = vn_refcount v + 1" using rc v(1) by (auto simp: rc_ok_def vnode_ok_def)
  have "fs_ok ns (sc (sfs_device s)) N ?s" using fs_ok_counts [OF ok v(1), of ?v ?s] by simp
  moreover have "vt_ok ?s" using vt_ok_update [OF vt v(1), of ?s ?v] vo by (simp add: vnode_ok_def)
  moreover have "sv_i v = i" using heap_okD(1) [OF fs_okD(2) [OF ok] v(1)] N v(2) by simp
  ultimately show ?thesis
    using st v by (simp add: vnode_incref_def wp r settled_def loaded_def same_vol_def)
qed

definition quiet :: "('d \<Rightarrow> nat \<Rightarrow> byte list) \<Rightarrow> 'd sfs_fs \<Rightarrow> 'd sfs_fs \<Rightarrow> bool" where
  "quiet sc s s' \<longleftrightarrow> same_vol sc s s' \<and> sfs_heap s' = sfs_heap s \<and> sfs_vnodes s' = sfs_vnodes s \<and>
     sfs_newptr s' = sfs_newptr s \<and> km_oracle (sfs_km s') = km_oracle (sfs_km s) \<and> km_pages (sfs_km s') = km_pages (sfs_km s)"

lemma quiet_refl [simp]: "quiet sc s s"
  by (simp add: quiet_def same_vol_def)

lemma quiet_trans: "quiet sc s s' \<Longrightarrow> quiet sc s' s'' \<Longrightarrow> quiet sc s s''"
  by (simp add: quiet_def same_vol_def)

lemma quiet_dev: "dev_step din sc (\<lambda>f. f) s s' \<Longrightarrow> quiet sc s s'"
  by (auto simp: dev_step_def quiet_def same_vol_def)

lemma quiet_fs_ok: "quiet sc s s' \<Longrightarrow> fs_ok ns (sc (sfs_device s')) N s' = fs_ok ns (sc (sfs_device s)) N s"
  by (simp add: quiet_def same_vol_def fs_ok_state [of s' s])

lemma quiet_settled: "quiet sc s s' \<Longrightarrow> settled din sc ns N s \<Longrightarrow> din (sfs_device s') \<Longrightarrow> settled din sc ns N s'"
  using vt_ok_cong [of s s'] by (simp add: settled_def quiet_fs_ok) (simp add: quiet_def)

lemma quiet_vroom: "quiet sc s s' \<Longrightarrow> vroom s' = vroom s"
  by (simp add: quiet_def vroom_def)

lemma lock_create_wp:
  "wpK (lock_create n) (\<lambda>r m'. km_oracle m' = km_oracle m \<and> km_pages m' = km_pages m) (\<lambda>_ _. False) m"
  by (simp add: lock_create_def wp)

lemma heap_ok_insert:
  assumes H: "heap_ok dk N h" and p: "h p = None" and new: "\<And>q v. h q = Some v \<Longrightarrow> sv_ino v \<noteq> n"
    and same: "\<And>m j. m \<noteq> n \<Longrightarrow> N m = Some j \<Longrightarrow> dk' m = dk m"
    and v': "sv_ino v' = n" "sv_i v' = i" "sv_dirty v' \<or> dk' n = enc_inode i"
  shows "heap_ok dk' (N(n \<mapsto> i)) (h(p \<mapsto> v'))"
proof -
  have "(N(n \<mapsto> i)) (sv_ino w) = Some (sv_i w) \<and> (\<not> sv_dirty w \<longrightarrow> dk' (sv_ino w) = enc_inode (sv_i w))"
    if "(h(p \<mapsto> v')) q = Some w" for q w
  proof (cases "q = p")
    case True
    with that v' show ?thesis by auto
  next
    case False
    with that have w: "h q = Some w" by simp
    show ?thesis using new [OF w] heap_okD(1,2) [OF H w] same [OF new [OF w]] by simp
  qed
  moreover have "q = r" if "(h(p \<mapsto> v')) q = Some w" "(h(p \<mapsto> v')) r = Some x" "sv_ino w = sv_ino x" for q r w x
  proof (cases "q = p"; cases "r = p")
    assume "q \<noteq> p" "r \<noteq> p"
    then show ?thesis using that heap_okD(3) [OF H, of q w r x] by simp
  qed (use that new v'(1) in \<open>auto dest: new\<close>)
  moreover have "dk' m = enc_inode j"
    if "(N(n \<mapsto> i)) m = Some j" "\<And>q w. (h(p \<mapsto> v')) q = Some w \<Longrightarrow> sv_ino w \<noteq> m" for m j
  proof -
    have m: "m \<noteq> n" using that(2) [of p v'] v'(1) by auto
    have "sv_ino w \<noteq> m" if "h q = Some w" for q w
      using that \<open>\<And>q w. (h(p \<mapsto> v')) q = Some w \<Longrightarrow> sv_ino w \<noteq> m\<close> [of q w] p by (cases "q = p") auto
    with that(1) m show ?thesis using heap_okD(4) [OF H, of m j] same [of m j] by simp
  qed
  ultimately show ?thesis unfolding heap_ok_def by blast
qed

text \<open>The end of \<^verbatim>\<open>sfs_loadvnode\<close>: the vnode is initialised and entered into the table.\<close>

definition fresh_vnode :: "vnode_ops \<Rightarrow> sfs_inode \<Rightarrow> nat \<Rightarrow> bool \<Rightarrow> sfs_vnode" where
  "fresh_vnode ops i ino dirty =
     \<lparr>vn_refcount = 1, vn_opencount = 0, vn_ops = ops, sv_i = i, sv_ino = ino, sv_dirty = dirty\<rparr>"

lemma vnode_init_wp:
  "wpK (vnode_init ops i ino dirty)
     (\<lambda>p s'. p = sfs_newptr s \<and> (\<exists>s1. quiet sc s s1 \<and> sfs_device s1 = sfs_device s \<and>
        s' = s1\<lparr>sfs_newptr := Suc p, sfs_heap := (sfs_heap s)(p \<mapsto> fresh_vnode ops i ino dirty)\<rparr>))
     (\<lambda>e s'. e = ENOMEM \<and> quiet sc s s' \<and> sfs_device s' = sfs_device s) s" (is "wpK _ ?Q ?E s")
  unfolding vnode_init_def wp_bind wp_on_km
proof (rule wp_mono [OF lock_create_wp])
  fix r :: "lock option" and m' :: kmem assume m': "km_oracle m' = km_oracle (sfs_km s) \<and> km_pages m' = km_pages (sfs_km s)"
  then have q: "quiet sc s (s\<lparr>sfs_km := m'\<rparr>)" by (simp add: quiet_def same_vol_def)
  show "wpK (case r of None \<Rightarrow> failK ENOMEM
      | Some _ \<Rightarrow> bindK (getK sfs_newptr) (\<lambda>p. bindK (modK (\<lambda>s. s\<lparr>sfs_newptr := Suc p, sfs_heap := (sfs_heap s)(p \<mapsto>
            \<lparr>vn_refcount = 1, vn_opencount = 0, vn_ops = ops, sv_i = i, sv_ino = ino, sv_dirty = dirty\<rparr>)\<rparr>)) (\<lambda>_.
         retK p))) ?Q ?E (s\<lparr>sfs_km := m'\<rparr>)"
    using q by (cases r) (auto simp: wp fresh_vnode_def intro!: exI [of _ "s\<lparr>sfs_km := m'\<rparr>"])
qed simp

lemma vnodes_add_wp:
  assumes ps: "array_rep (sfs_vnodes s) ps" "length ps < 536870911" and room: "vroom s"
  shows "wpK (sfs_vnodes_add p) (\<lambda>_ s'. \<exists>a m'. s' = s\<lparr>sfs_vnodes := a, sfs_km := m'\<rparr> \<and> array_rep a (ps @ [p]) \<and>
      km_oracle m' = km_oracle (sfs_km s) \<and> km_pages m' = km_pages (sfs_km s)) (\<lambda>_ _. False) s"
proof -
  let ?km = "sfs_km s"
  let ?s = "s\<lparr>sfs_km := ?km\<lparr>km_calls := Suc (km_calls ?km)\<rparr>\<rparr>"
  have "wpK (on_vnodes (array_add (km_oracle ?km (km_calls ?km)) p))
      (\<lambda>_ s'. \<exists>a m'. s' = s\<lparr>sfs_vnodes := a, sfs_km := m'\<rparr> \<and> array_rep a (ps @ [p]) \<and>
      km_oracle m' = km_oracle ?km \<and> km_pages m' = km_pages ?km) (\<lambda>_ _. False) ?s"
    unfolding wp_on_vnodes
  proof (rule wp_mono [OF array_add_strong [where xs = ps]])
    fix u a assume "array_rep a (ps @ [p])"
    then show "\<exists>a' m'. ?s\<lparr>sfs_vnodes := a\<rparr> = s\<lparr>sfs_vnodes := a', sfs_km := m'\<rparr> \<and> array_rep a' (ps @ [p]) \<and>
        km_oracle m' = km_oracle ?km \<and> km_pages m' = km_pages ?km"
      by (intro exI [of _ a] exI [of _ "?km\<lparr>km_calls := Suc (km_calls ?km)\<rparr>"]) simp
  qed (use ps room in \<open>auto simp: vroom_def\<close>)
  then show ?thesis by (simp add: wpK_def sfs_vnodes_add_def Let_def)
qed

lemma vt_ok_insert:
  assumes vt: "vt_ok s" and ps: "array_rep (sfs_vnodes s) ps" "distinct ps" "set ps = dom (sfs_heap s)"
    and a: "array_rep (sfs_vnodes s') (ps @ [p])" and p: "p = sfs_newptr s" "sfs_newptr s' = Suc p"
    and h: "sfs_heap s' = (sfs_heap s)(p \<mapsto> v)" "vnode_ok v"
  shows "vt_ok s'"
proof -
  have n: "sfs_heap s p = None" using vt_ok_new [OF vt] p(1) by simp
  have "distinct (ps @ [p])" "set (ps @ [p]) = dom (sfs_heap s')" using ps n h(1) by (auto simp: dom_def)
  moreover have "q < sfs_newptr s' \<and> vnode_ok w" if "sfs_heap s' q = Some w" for q w
    using that h p vt_okD [OF vt, of q w] by (auto split: if_splits)
  ultimately show ?thesis using a unfolding vt_ok_def by blast
qed

definition entered :: "('d \<Rightarrow> nat \<Rightarrow> byte list) \<Rightarrow> 'd sfs_fs \<Rightarrow> sfs_vnode \<Rightarrow> nat \<Rightarrow> 'd sfs_fs \<Rightarrow> bool" where
  "entered sc s v p s' \<longleftrightarrow> p = sfs_newptr s \<and> sfs_heap s' = (sfs_heap s)(p \<mapsto> v) \<and> vt_ok s' \<and> same_vol sc s s' \<and>
     sfs_device s' = sfs_device s \<and> km_pages (sfs_km s') = km_pages (sfs_km s)"

lemma enter_wp:
  assumes vt: "vt_ok s" and len: "\<And>ps. set ps = dom (sfs_heap s) \<Longrightarrow> distinct ps \<Longrightarrow> length ps < 536870911"
    and room: "vroom s" and v: "vnode_ok (fresh_vnode ops i ino dirty)"
  shows "wpK (bindK (vnode_init ops i ino dirty) (\<lambda>sv. bindK (tryK (sfs_vnodes_add sv)) (\<lambda>result.
     case result of Inl e \<Rightarrow> bindK (vnode_kill sv) (\<lambda>_. failK e) | Inr _ \<Rightarrow> retK sv)))
     (entered sc s (fresh_vnode ops i ino dirty))
     (\<lambda>e s'. e = ENOMEM \<and> quiet sc s s' \<and> sfs_device s' = sfs_device s) s" (is "wpK _ ?Q ?E s")
  unfolding wp_bind wp_try
proof (rule wp_mono [OF vnode_init_wp [where sc = sc]])
  obtain ps where ps: "array_rep (sfs_vnodes s) ps" "distinct ps" "set ps = dom (sfs_heap s)" using vt by (rule vt_okE)
  fix p s2
  assume "p = sfs_newptr s \<and> (\<exists>s1. quiet sc s s1 \<and> sfs_device s1 = sfs_device s \<and>
      s2 = s1\<lparr>sfs_newptr := Suc p, sfs_heap := (sfs_heap s)(p \<mapsto> fresh_vnode ops i ino dirty)\<rparr>)"
  then obtain s1 where p: "p = sfs_newptr s" and q: "quiet sc s s1" "sfs_device s1 = sfs_device s"
    and s2: "s2 = s1\<lparr>sfs_newptr := Suc p, sfs_heap := (sfs_heap s)(p \<mapsto> fresh_vnode ops i ino dirty)\<rparr>" by blast
  have vn: "sfs_vnodes s2 = sfs_vnodes s" using q by (simp add: s2 quiet_def)
  have r: "vroom s2" using room q by (simp add: s2 vroom_def quiet_def)
  show "wpK (sfs_vnodes_add p) (\<lambda>a. wpK (case Inr a of Inl e \<Rightarrow> bindK (vnode_kill p) (\<lambda>_. failK e) | Inr _ \<Rightarrow> retK p) ?Q ?E)
      (\<lambda>e. wpK (case Inl e of Inl e \<Rightarrow> bindK (vnode_kill p) (\<lambda>_. failK e) | Inr _ \<Rightarrow> retK p) ?Q ?E) s2"
    unfolding sum.case wp_ret
  proof (rule wp_mono [OF vnodes_add_wp [OF ps(1) [folded vn] _ r]])
    fix u s3
    assume "\<exists>a m'. s3 = s2\<lparr>sfs_vnodes := a, sfs_km := m'\<rparr> \<and> array_rep a (ps @ [p]) \<and>
      km_oracle m' = km_oracle (sfs_km s2) \<and> km_pages m' = km_pages (sfs_km s2)"
    then obtain a m' where s3: "s3 = s2\<lparr>sfs_vnodes := a, sfs_km := m'\<rparr>" and a: "array_rep a (ps @ [p])"
        "km_oracle m' = km_oracle (sfs_km s2)" "km_pages m' = km_pages (sfs_km s2)" by blast
    have "vt_ok s3"
      by (rule vt_ok_insert [OF vt ps]) (use a p v in \<open>simp_all add: s3 s2\<close>)
    then show "entered sc s (fresh_vnode ops i ino dirty) p s3"
      using q p a by (simp add: entered_def s3 s2 quiet_def same_vol_def)
  qed (use len ps in auto)
qed simp

lemma loaded_new:
  assumes st: "settled din sc ns N s" and e: "entered sc s1 (fresh_vnode (ops_of (sfi_type i)) i ino dirty) p s'" and q: "quiet sc s s1"
    and d: "din (sfs_device s1)" and new: "\<forall>q v. sfs_heap s q = Some v \<longrightarrow> sv_ino v \<noteq> ino" and N: "N ino = Some i"
  shows "settled din sc ns N s'" "loaded s ino i p s'" "same_vol sc s s'"
proof -
  let ?v = "fresh_vnode (ops_of (sfi_type i)) i ino dirty"
  have ok: "fs_ok ns (sc (sfs_device s)) N s" and vt: "vt_ok s" using st by (auto simp: settled_def)
  have p: "p = sfs_newptr s" "sfs_heap s' = (sfs_heap s)(p \<mapsto> ?v)" "vt_ok s'" "same_vol sc s1 s'" "sfs_device s' = sfs_device s1"
    using e q by (auto simp: entered_def quiet_def)
  show sv: "same_vol sc s s'" using p(4) q by (simp add: quiet_def same_vol_def)
  have pn: "sfs_heap s p = None" using vt_ok_new [OF vt] p(1) by simp
  have "N(ino \<mapsto> i) = N" using N by auto
  moreover have "sc (sfs_device s) ino = enc_inode i" using heap_okD(4) [OF fs_okD(2) [OF ok] N] new by blast
  ultimately have "heap_ok (sc (sfs_device s)) N (sfs_heap s')"
    using heap_ok_insert [where dk' = "sc (sfs_device s)" and v' = ?v and i = i, OF fs_okD(2) [OF ok] pn new [rule_format]] by (simp add: p(2) fresh_vnode_def)
  then have "fs_ok ns (sc (sfs_device s')) N s'"
    using ok sv by (simp add: fs_ok_def map_ok_def same_vol_def)
  then show "settled din sc ns N s'" using p(3,5) d by (simp add: settled_def)
  show "loaded s ino i p s'" unfolding loaded_def using p(2) pn new by (intro exI [of _ ?v]) (auto simp: fresh_vnode_def)
qed

context sfs_disk begin

lemma vt_bound:
  assumes "settled dinv sec nsec N s" "set ps = dom (sfs_heap s)" "distinct ps"
  shows "length ps < 536870911"
  using vt_ok_length [of nsec "sec (sfs_device s)" N s ps] assms nsec_bound fs_okD(1) [of nsec "sec (sfs_device s)" N s]
  by (auto simp: settled_def map_ok_def)

lemma loadvnode_new_wp:
  assumes st: "settled dinv sec nsec N s" and new: "\<forall>q v. sfs_heap s q = Some v \<longrightarrow> sv_ino v \<noteq> ino"
    and N: "N ino = Some i" and room: "vroom s"
  shows "wpK (sfs_loadvnode_new dv ino SFS_TYPE_INVAL)
     (\<lambda>p s'. settled dinv sec nsec N s' \<and> loaded s ino i p s' \<and> same_vol sec s s')
     (\<lambda>e s'. e \<in> {ENOMEM, EIO} \<and> settled dinv sec nsec N s' \<and> quiet sec s s') s" (is "wpK _ ?Q ?E s")
proof -
  have ok: "fs_ok nsec (sec (sfs_device s)) N s" and vt: "vt_ok s" and dn: "dinv (sfs_device s)"
    using st by (auto simp: settled_def)
  note io = fs_okD(3) [OF ok N]
  define s1 where "s1 = s\<lparr>sfs_km := (sfs_km s)\<lparr>km_calls := Suc (km_calls (sfs_km s))\<rparr>\<rparr>"
  have q1: "quiet sec s s1" by (simp add: s1_def quiet_def same_vol_def)
  have st1: "settled dinv sec nsec N s1" using quiet_settled [OF q1 st] dn by (simp add: s1_def)
  have ok1: "fs_ok nsec (sec (sfs_device s1)) N s1" using st1 by (simp add: settled_def)
  have disk: "sec (sfs_device s1) ino = enc_inode i"
    using heap_okD(4) [OF fs_okD(2) [OF ok] N] new by (auto simp: s1_def)
  have ty: "sfi_type i = SFS_TYPE_FILE \<or> sfi_type i = SFS_TYPE_DIR" using inode_okD(9) [OF io] by simp
  have ns: "ino < nsec" using inode_ok_self(2) [OF io] fs_okD(1) [OF ok] by (simp add: map_ok_def)
  define body where "body = (\<lambda>bs. bindK (retK (dec_inode bs, False)) (\<lambda>(i, dirty).
     bindK (if sfi_type i = SFS_TYPE_FILE then retK SFS_FILEOPS
            else if sfi_type i = SFS_TYPE_DIR then retK SFS_DIROPS
            else panicK) (\<lambda>ops.
     bindK (vnode_init ops i ino dirty) (\<lambda>sv.
     bindK (tryK (sfs_vnodes_add sv)) (\<lambda>result.
     case result of
       Inl e \<Rightarrow> bindK (vnode_kill sv) (\<lambda>_. failK e)
     | Inr _ \<Rightarrow> retK sv)))) :: ('d sfs_fs, nat) kern)"
  have fin: "wpK (body (enc_inode i)) ?Q ?E s2" if d: "dev_step dinv sec (\<lambda>f. f) s1 s2" for s2
  proof -
    have q2: "quiet sec s s2" using quiet_trans [OF q1 quiet_dev [OF d]] .
    have d2: "dinv (sfs_device s2)" using d by (auto simp: dev_step_def)
    have st2: "settled dinv sec nsec N s2" using quiet_settled [OF q2 st d2] .
    have vt2: "vt_ok s2" using st2 by (simp add: settled_def)
    have v: "vnode_ok (fresh_vnode (ops_of (sfi_type i)) i ino False)" by (simp add: vnode_ok_def fresh_vnode_def)
    have b: "wpK (body (enc_inode i)) Q E s2 = wpK (bindK (vnode_init (ops_of (sfi_type i)) i ino False) (\<lambda>sv.
       bindK (tryK (sfs_vnodes_add sv)) (\<lambda>result.
       case result of Inl e \<Rightarrow> bindK (vnode_kill sv) (\<lambda>_. failK e) | Inr _ \<Rightarrow> retK sv))) Q E s2" for Q E
      using ty inode_okD(1) [OF io] by (auto simp: body_def wp ops_of_def sfs_consts)
    show ?thesis unfolding b
    proof (rule wp_mono [OF enter_wp [where sc = sec, OF vt2 vt_bound [OF st2] _ v]])
      show "vroom s2" using room quiet_vroom [OF q2] by simp
    next
      fix p s' assume "entered sec s2 (fresh_vnode (ops_of (sfi_type i)) i ino False) p s'"
      then show "?Q p s'" using loaded_new [OF st _ q2 d2 new N] by blast
    next
      fix e s' assume "e = ENOMEM \<and> quiet sec s2 s' \<and> sfs_device s' = sfs_device s2"
      then show "?E e s'" using quiet_settled [of sec s2 s'] st2 d2 quiet_trans [OF q2] by auto
    qed
  qed
  have rd: "wpK (sfs_rblock dv ino) (\<lambda>bs. wpK (body bs) ?Q ?E) ?E s1"
  proof (rule wp_mono [OF rblock_wp [OF _ ns]])
    show "dinv (sfs_device s1)" using dn by (simp add: s1_def)
  next
    fix e s' assume e: "e = EIO \<and> dev_step dinv sec (\<lambda>f. f) s1 s'"
    then have "dinv (sfs_device s')" by (auto simp: dev_step_def)
    then show "?E e s'" using quiet_settled [OF quiet_trans [OF q1 quiet_dev] st] quiet_trans [OF q1 quiet_dev] e by auto
  qed (use fin disk in auto)
  show ?thesis
    unfolding sfs_loadvnode_new_def wp_bind wp_on_km wp_kmalloc
    using rd bused_vnode [OF ok1 N] q1 st1
    by (simp add: wp wpK_def [of "sfs_bused ino"] s1_def [symmetric] sfs_consts body_def)
qed

lemma loadvnode_wp:
  assumes st: "settled dinv sec nsec N s" and N: "N ino = Some i" and room: "vroom s" and rc: "rc_ok s"
  shows "wpK (sfs_loadvnode dv ino SFS_TYPE_INVAL)
     (\<lambda>p s'. settled dinv sec nsec N s' \<and> loaded s ino i p s' \<and> same_vol sec s s')
     (\<lambda>e s'. e \<in> {ENOMEM, EIO} \<and> settled dinv sec nsec N s' \<and> quiet sec s s') s"
proof -
  have ok: "fs_ok nsec (sec (sfs_device s)) N s" and vt: "vt_ok s" using st by (auto simp: settled_def)
  from loadvnode_find [OF ok vt, of ino] show ?thesis
  proof
    assume "\<exists>p v. sfs_loadvnode_find ino 0 (nat (array_getnum (sfs_vnodes s))) s = Some (Inr (Some p), s) \<and>
       sfs_heap s p = Some v \<and> sv_ino v = ino"
    then obtain p v where f: "sfs_loadvnode_find ino 0 (nat (array_getnum (sfs_vnodes s))) s = Some (Inr (Some p), s)"
      and v: "sfs_heap s p = Some v" "sv_ino v = ino" by blast
    show ?thesis
      unfolding sfs_loadvnode_def wp_bind wp_get wpK_def [of "sfs_loadvnode_find _ _ _"] f
      using incref_loaded [OF st v rc N] by (simp add: wp)
  next
    assume "sfs_loadvnode_find ino 0 (nat (array_getnum (sfs_vnodes s))) s = Some (Inr None, s) \<and>
       (\<forall>p v. sfs_heap s p = Some v \<longrightarrow> sv_ino v \<noteq> ino)"
    then have f: "sfs_loadvnode_find ino 0 (nat (array_getnum (sfs_vnodes s))) s = Some (Inr None, s)"
      and new: "\<forall>p v. sfs_heap s p = Some v \<longrightarrow> sv_ino v \<noteq> ino" by auto
    show ?thesis
      unfolding sfs_loadvnode_def wp_bind wp_get wpK_def [of "sfs_loadvnode_find _ _ _"] f
      using loadvnode_new_wp [OF st new N room] by simp
  qed
qed

end

section \<open>Making a new file\<close>

definition new_inode :: sfs_inode where
  "new_inode = \<lparr>sfi_size = 0, sfi_type = SFS_TYPE_FILE, sfi_linkcount = 0, sfi_direct = replicate 15 0,
     sfi_indirect = 0, sfi_waste = replicate 110 0\<rparr>"

lemma dec_zero_inode: "dec_inode (replicate 512 0) = new_inode\<lparr>sfi_type := SFS_TYPE_INVAL\<rparr>"
  by (simp add: dec_inode_def dec_block_zeros new_inode_def sfs_consts Let_def)

lemma new_inode_ptrs: "set (ptrs dk new_inode) = {0}"
  by (simp add: ptrs_def new_inode_def id_words_def)

lemma inode_wf_new: "inode_wf new_inode"
  by (simp add: inode_wf_def new_inode_def sfs_consts)

lemma heap_ok_cong:
  assumes H: "heap_ok dk N h" and same: "\<And>m j. N m = Some j \<Longrightarrow> dk' m = dk m"
  shows "heap_ok dk' N h"
proof -
  have "dk' (sv_ino v) = enc_inode (sv_i v)" if "h p = Some v" "\<not> sv_dirty v" for p v
    using heap_okD(1,2) [OF H that(1)] same that(2) by simp
  moreover have "dk' n = enc_inode i" if "N n = Some i" "\<forall>p v. h p = Some v \<longrightarrow> sv_ino v \<noteq> n" for n i
    using heap_okD(4) [OF H that(1)] same [OF that(1)] that(2) by simp
  ultimately show ?thesis using heap_okD(1,3) [OF H] unfolding heap_ok_def by blast
qed

text \<open>A block that was just allocated belongs to nobody; entering it as an inode keeps the invariant.\<close>

lemma fs_ok_alloc:
  assumes ok: "fs_ok ns (sc (sfs_device s)) N s" and a: "alloc_step din sc b s s'"
  shows "fs_ok ns (sc (sfs_device s')) N s'" "N b = None" "b \<notin> sys_blocks (sp_nblocks (sfs_super s))" "b \<noteq> 0"
proof -
  note a = alloc_stepD [OF a]
  let ?dk = "sc (sfs_device s)" and ?dk' = "sc (sfs_device s')"
  have fresh: "b \<notin> own ?dk m j" if "N m = Some j" for m j using fresh_not_owned [OF ok that a(1)] .
  have same: "?dk' c = ?dk c" if "N m = Some j" "c \<in> own ?dk m j" for m j c using fresh [OF that(1)] that(2) a(4) by auto
  show Nb: "N b = None" using fresh [of b] self_own [of b ?dk] by (cases "N b") blast+
  show "b \<notin> sys_blocks (sp_nblocks (sfs_super s))" "b \<noteq> 0" using fresh_not_sys [OF fs_okD(1) [OF ok] a(1)] by auto
  have map': "map_ok ns s'" using a by (intro map_ok_grow [OF fs_okD(1) [OF ok]]) auto
  have nb: "sp_nblocks (sfs_super s') = sp_nblocks (sfs_super s)" using a(7) by (simp add: same_fs_def)
  have own: "own ?dk' m j = own ?dk m j" if "N m = Some j" for m j
    using same [OF that] by (intro own_cong ptrs_cong_own [of ?dk m j]) blast
  have "inode_ok (bits (sfs_freemap s')) (sp_nblocks (sfs_super s')) ?dk' m j" if "N m = Some j" for m j
    unfolding nb by (rule inode_ok_cong [OF fs_okD(3) [OF ok that]])
      (use same [OF that] inode_okD(6) [OF fs_okD(3) [OF ok that]] a(6) in auto)
  moreover have "own ?dk' m j \<inter> own ?dk' l k = {}" if "N m = Some j" "N l = Some k" "m \<noteq> l" for m l j k
    using fs_okD(4) [OF ok that] own that by simp
  moreover have "heap_ok ?dk' N (sfs_heap s')"
  proof -
    have "?dk' m = ?dk m" if "N m = Some j" for m j using same [OF that] self_own by blast
    then show ?thesis unfolding a(8) by (rule heap_ok_cong [OF fs_okD(2) [OF ok]])
  qed
  ultimately show "fs_ok ns ?dk' N s'" using map' unfolding fs_ok_def by blast
qed

lemma fs_ok_newfile:
  assumes ok: "fs_ok ns dk N s" and b: "b \<in> bits (sfs_freemap s)" "b < sp_nblocks (sfs_super s)"
      "b \<notin> sys_blocks (sp_nblocks (sfs_super s))" "b \<noteq> 0"
    and fresh: "\<And>m j. N m = Some j \<Longrightarrow> b \<notin> own dk m j"
    and s': "sfs_heap s' = (sfs_heap s)(p \<mapsto> v)" "sfs_freemap s' = sfs_freemap s" "sfs_super s' = sfs_super s" "sfs_heap s p = None"
    and v: "sv_ino v = b" "sv_i v = new_inode" "sv_dirty v"
  shows "fs_ok ns dk (N(b \<mapsto> new_inode)) s'"
proof -
  have ob: "own dk b new_inode = {b}" by (simp add: own_def new_inode_ptrs)
  have Nb: "N b = None" using fresh [of b] self_own [of b dk] by (cases "N b") blast+
  have "inode_ok (bits (sfs_freemap s')) (sp_nblocks (sfs_super s')) dk m j" if "(N(b \<mapsto> new_inode)) m = Some j" for m j
  proof (cases "m = b")
    case True
    have "nzdistinct (ptrs dk new_inode)" by (simp add: nzdistinct_def ptrs_def new_inode_def id_words_def)
    then have "nzdistinct (b # ptrs dk new_inode)" using b(4) by (intro nzdistinct_Cons) (auto simp: new_inode_ptrs)
    moreover have "sfi_type new_inode = SFS_TYPE_FILE" by (simp add: new_inode_def)
    ultimately show ?thesis using that True b inode_wf_new ob s' by (simp add: inode_ok_def)
  next
    case False
    then show ?thesis using that fs_okD(3) [OF ok, of m j] s' by simp
  qed
  moreover have "own dk m j \<inter> own dk l k = {}"
    if "(N(b \<mapsto> new_inode)) m = Some j" "(N(b \<mapsto> new_inode)) l = Some k" "m \<noteq> l" for m l j k
    using that fs_okD(4) [OF ok, of m j l k] fresh [of m j] fresh [of l k] ob by (auto split: if_splits)
  moreover have "heap_ok dk (N(b \<mapsto> new_inode)) (sfs_heap s')"
    unfolding s'(1)
  proof (rule heap_ok_insert [OF fs_okD(2) [OF ok] s'(4)])
    show "sv_ino w \<noteq> b" if "sfs_heap s q = Some w" for q w using heap_okD(1) [OF fs_okD(2) [OF ok] that] Nb by auto
  qed (use v in auto)
  moreover have "map_ok ns s'" using fs_okD(1) [OF ok] s' by (simp add: map_ok_def)
  ultimately show ?thesis unfolding fs_ok_def by blast
qed

definition made :: "('d \<Rightarrow> nat \<Rightarrow> byte list) \<Rightarrow> 'd sfs_fs \<Rightarrow> nat \<Rightarrow> nat \<Rightarrow> 'd sfs_fs \<Rightarrow> bool" where
  "made sc s b p s' \<longleftrightarrow> sfs_heap s p = None \<and> sfs_heap s' = (sfs_heap s)(p \<mapsto> fresh_vnode SFS_FILEOPS new_inode b True) \<and>
     sfs_super s' = sfs_super s \<and> sfs_superdirty s' = sfs_superdirty s \<and>
     nbits (sfs_freemap s') = nbits (sfs_freemap s) \<and> (\<forall>c. c \<noteq> b \<longrightarrow> sc (sfs_device s') c = sc (sfs_device s) c) \<and>
     km_pages (sfs_km s') = km_pages (sfs_km s)"

text \<open>
  \<^verbatim>\<open>sfs_makeobj\<close>: on success there is a new inode with a vnode of its own. When loading fails, the block just allocated
  is not returned; the volume is consistent, but the block is lost.
\<close>

definition leaked :: "('d \<Rightarrow> nat \<Rightarrow> byte list) \<Rightarrow> 'd sfs_fs \<Rightarrow> 'd sfs_fs \<Rightarrow> bool" where
  "leaked sc s s' \<longleftrightarrow> sfs_heap s' = sfs_heap s \<and> sfs_super s' = sfs_super s \<and> sfs_superdirty s' = sfs_superdirty s \<and>
     (\<exists>b. b \<notin> bits (sfs_freemap s) \<and> bits (sfs_freemap s') = insert b (bits (sfs_freemap s)) \<and>
        (\<forall>c. c \<noteq> b \<longrightarrow> sc (sfs_device s') c = sc (sfs_device s) c))"

context sfs_disk begin

lemma loadvnode_force_wp:
  assumes st: "settled dinv sec nsec N s" and room: "vroom s" and zero: "sec (sfs_device s) b = replicate 512 0"
    and b: "b \<in> bits (sfs_freemap s)" "b < sp_nblocks (sfs_super s)" "b \<notin> sys_blocks (sp_nblocks (sfs_super s))" "b \<noteq> 0"
    and fresh: "\<And>m j. N m = Some j \<Longrightarrow> b \<notin> own (sec (sfs_device s)) m j"
  shows "wpK (sfs_loadvnode dv b SFS_TYPE_FILE)
     (\<lambda>p s'. settled dinv sec nsec (N(b \<mapsto> new_inode)) s' \<and> made sec s b p s')
     (\<lambda>e s'. e \<in> {ENOMEM, EIO} \<and> settled dinv sec nsec N s' \<and> quiet sec s s') s" (is "wpK _ ?Q ?E s")
proof -
  have ok: "fs_ok nsec (sec (sfs_device s)) N s" and vt: "vt_ok s" and dn: "dinv (sfs_device s)"
    using st by (auto simp: settled_def)
  have Nb: "N b = None" using fresh [of b] self_own [of b "sec (sfs_device s)"] by (cases "N b") blast+
  have new: "sv_ino v \<noteq> b" if "sfs_heap s p = Some v" for p v using heap_okD(1) [OF fs_okD(2) [OF ok] that] Nb by auto
  have f: "sfs_loadvnode_find b 0 (nat (array_getnum (sfs_vnodes s))) s = Some (Inr None, s)"
    using loadvnode_find [OF ok vt, of b] new by blast
  define s1 where "s1 = s\<lparr>sfs_km := (sfs_km s)\<lparr>km_calls := Suc (km_calls (sfs_km s))\<rparr>\<rparr>"
  have q1: "quiet sec s s1" by (simp add: s1_def quiet_def same_vol_def)
  have st1: "settled dinv sec nsec N s1" using quiet_settled [OF q1 st] dn by (simp add: s1_def)
  have u: "sfs_bused b s1 = Some (Inr True, s1)"
  proof -
    have "map_ok nsec s1" using st1 fs_okD(1) by (auto simp: settled_def)
    then show ?thesis using bused_wp [of s1 b] b by (simp add: s1_def)
  qed
  have ns: "b < nsec" using b(2) fs_okD(1) [OF ok] by (simp add: map_ok_def)
  let ?enter = "bindK (vnode_init SFS_FILEOPS new_inode b True) (\<lambda>sv. bindK (tryK (sfs_vnodes_add sv)) (\<lambda>result.
     case result of Inl e \<Rightarrow> bindK (vnode_kill sv) (\<lambda>_. failK e) | Inr _ \<Rightarrow> retK sv))"
  have fin: "wpK ?enter ?Q ?E s2" if d: "dev_step dinv sec (\<lambda>f. f) s1 s2" for s2
  proof -
    have q2: "quiet sec s s2" using quiet_trans [OF q1 quiet_dev [OF d]] .
    have d2: "dinv (sfs_device s2)" using d by (auto simp: dev_step_def)
    have st2: "settled dinv sec nsec N s2" using quiet_settled [OF q2 st d2] .
    have vt2: "vt_ok s2" using st2 by (simp add: settled_def)
    have v: "vnode_ok (fresh_vnode SFS_FILEOPS new_inode b True)"
      by (simp add: vnode_ok_def fresh_vnode_def ops_of_def new_inode_def sfs_consts)
    show ?thesis
    proof (rule wp_mono [OF enter_wp [where sc = sec, OF vt2 vt_bound [OF st2] _ v]])
      show "vroom s2" using room quiet_vroom [OF q2] by simp
    next
      fix p s' assume e: "entered sec s2 (fresh_vnode SFS_FILEOPS new_inode b True) p s'"
      have ok2: "fs_ok nsec (sec (sfs_device s2)) N s2" using st2 by (simp add: settled_def)
      have pn: "sfs_heap s2 p = None" using vt_ok_new [OF vt2] e by (simp add: entered_def)
      have "fs_ok nsec (sec (sfs_device s2)) (N(b \<mapsto> new_inode)) s'"
        by (rule fs_ok_newfile [OF ok2, where v = "fresh_vnode SFS_FILEOPS new_inode b True" and p = p])
          (use b fresh q2 e pn in \<open>simp_all add: quiet_def same_vol_def entered_def fresh_vnode_def\<close>)
      then show "?Q p s'"
        using e q2 d2 pn by (auto simp: settled_def made_def entered_def quiet_def same_vol_def)
    next
      fix e s' assume "e = ENOMEM \<and> quiet sec s2 s' \<and> sfs_device s' = sfs_device s2"
      then show "?E e s'" using quiet_settled [of sec s2 s'] st2 d2 quiet_trans [OF q2] by auto
    qed
  qed
  have rd: "wpK (sfs_rblock dv b) (\<lambda>bs. wpK (bindK (assertK (sfi_type (dec_inode bs) = SFS_TYPE_INVAL)) (\<lambda>_.
        bindK (retK ((dec_inode bs)\<lparr>sfi_type := u16 SFS_TYPE_FILE\<rparr>, True)) (\<lambda>(i, dirty).
     bindK (if sfi_type i = SFS_TYPE_FILE then retK SFS_FILEOPS
            else if sfi_type i = SFS_TYPE_DIR then retK SFS_DIROPS else panicK) (\<lambda>ops.
     bindK (vnode_init ops i b dirty) (\<lambda>sv. bindK (tryK (sfs_vnodes_add sv)) (\<lambda>result.
     case result of Inl e \<Rightarrow> bindK (vnode_kill sv) (\<lambda>_. failK e) | Inr _ \<Rightarrow> retK sv)))))) ?Q ?E) ?E s1"
  proof (rule wp_mono [OF rblock_wp [OF _ ns]])
    show "dinv (sfs_device s1)" using dn by (simp add: s1_def)
  next
    fix e s' assume e: "e = EIO \<and> dev_step dinv sec (\<lambda>f. f) s1 s'"
    then have "dinv (sfs_device s')" by (auto simp: dev_step_def)
    then show "?E e s'" using quiet_settled [OF quiet_trans [OF q1 quiet_dev] st] quiet_trans [OF q1 quiet_dev] e by auto
  next
    have new: "new_inode\<lparr>sfi_type := SFS_TYPE_FILE\<rparr> = new_inode" by (simp add: new_inode_def)
    have ft: "sfi_type new_inode = SFS_TYPE_FILE" "u16 SFS_TYPE_FILE = SFS_TYPE_FILE" by (simp_all add: new_inode_def sfs_consts)
    fix bs s' assume bs: "bs = sec (sfs_device s1) b \<and> dev_step dinv sec (\<lambda>f. f) s1 s'"
    then have "dec_inode bs = new_inode\<lparr>sfi_type := SFS_TYPE_INVAL\<rparr>" using zero dec_zero_inode by (simp add: s1_def)
    then show "wpK (bindK (assertK (sfi_type (dec_inode bs) = SFS_TYPE_INVAL)) (\<lambda>_.
        bindK (retK ((dec_inode bs)\<lparr>sfi_type := u16 SFS_TYPE_FILE\<rparr>, True)) (\<lambda>(i, dirty).
     bindK (if sfi_type i = SFS_TYPE_FILE then retK SFS_FILEOPS
            else if sfi_type i = SFS_TYPE_DIR then retK SFS_DIROPS else panicK) (\<lambda>ops.
     bindK (vnode_init ops i b dirty) (\<lambda>sv. bindK (tryK (sfs_vnodes_add sv)) (\<lambda>result.
     case result of Inl e \<Rightarrow> bindK (vnode_kill sv) (\<lambda>_. failK e) | Inr _ \<Rightarrow> retK sv)))))) ?Q ?E s'"
      using fin [of s'] bs by (simp add: wp ft new)
  qed
  have inv: "SFS_TYPE_FILE \<noteq> SFS_TYPE_INVAL" by (simp add: sfs_consts)
  show ?thesis
    unfolding sfs_loadvnode_def wp_bind wp_get wpK_def [of "sfs_loadvnode_find _ _ _"] f sfs_loadvnode_new_def
    using rd u q1 st1 inv
    by (simp add: wp wpK_def [of "sfs_bused b"] s1_def [symmetric])
qed

lemma makeobj_wp:
  assumes st: "settled dinv sec nsec N s" and room: "vroom s"
  shows "wpK (sfs_makeobj dv SFS_TYPE_FILE)
     (\<lambda>p s'. \<exists>b. N b = None \<and> b \<noteq> 0 \<and> b < sp_nblocks (sfs_super s) \<and> b \<notin> bits (sfs_freemap s) \<and>
        settled dinv sec nsec (N(b \<mapsto> new_inode)) s' \<and> made sec s b p s')
     (\<lambda>e s'. settled dinv sec nsec N s' \<and> (e = ENOSPC \<and> s' = s \<or> e \<in> {ENOMEM, EIO} \<and> leaked sec s s')) s"
  unfolding sfs_makeobj_def wp_bind
proof (rule wp_mono [OF balloc_wp])
  have ok: "fs_ok nsec (sec (sfs_device s)) N s" and vt: "vt_ok s" using st by (auto simp: settled_def)
  show "dinv (sfs_device s)" "map_ok nsec s" using st fs_okD(1) by (auto simp: settled_def)
  fix b s1 assume a: "alloc_step dinv sec b s s1"
  note aD = alloc_stepD [OF a] and k = fs_ok_alloc [OF ok a]
  have st1: "settled dinv sec nsec N s1"
    using k(1) aD vt_ok_cong [OF vt, of s1] by (simp add: settled_def same_fs_def)
  have sup: "sfs_super s1 = sfs_super s" using aD(7) by (simp add: same_fs_def)
  have "vroom s1" using room aD(7) by (simp add: vroom_def same_fs_def)
  moreover have "b \<notin> own (sec (sfs_device s1)) m j" if "N m = Some j" for m j
  proof -
    have "own (sec (sfs_device s1)) m j = own (sec (sfs_device s)) m j"
      using fresh_not_owned [OF ok that aD(1)] aD(4) by (intro own_cong ptrs_cong_own [of _ m]) auto
    then show ?thesis using fresh_not_owned [OF ok that aD(1)] by simp
  qed
  ultimately have load: "wpK (sfs_loadvnode dv b SFS_TYPE_FILE)
     (\<lambda>p s'. settled dinv sec nsec (N(b \<mapsto> new_inode)) s' \<and> made sec s1 b p s')
     (\<lambda>e s'. e \<in> {ENOMEM, EIO} \<and> settled dinv sec nsec N s' \<and> quiet sec s1 s') s1"
    using aD k(3,4) sup by (intro loadvnode_force_wp [OF st1]) auto
  show "wpK (sfs_loadvnode dv b SFS_TYPE_FILE)
     (\<lambda>p s'. \<exists>b. N b = None \<and> b \<noteq> 0 \<and> b < sp_nblocks (sfs_super s) \<and> b \<notin> bits (sfs_freemap s) \<and>
        settled dinv sec nsec (N(b \<mapsto> new_inode)) s' \<and> made sec s b p s')
     (\<lambda>e s'. settled dinv sec nsec N s' \<and> (e = ENOSPC \<and> s' = s \<or> e \<in> {ENOMEM, EIO} \<and> leaked sec s s')) s1"
  proof (rule wp_mono [OF load])
    fix p s' assume p: "settled dinv sec nsec (N(b \<mapsto> new_inode)) s' \<and> made sec s1 b p s'"
    have "made sec s b p s'" using p aD by (simp add: made_def same_fs_def)
    then show "\<exists>b. N b = None \<and> b \<noteq> 0 \<and> b < sp_nblocks (sfs_super s) \<and> b \<notin> bits (sfs_freemap s) \<and>
        settled dinv sec nsec (N(b \<mapsto> new_inode)) s' \<and> made sec s b p s'"
      using p k(2,4) aD(1,2) by blast
  next
    fix e s' assume e: "e \<in> {ENOMEM, EIO} \<and> settled dinv sec nsec N s' \<and> quiet sec s1 s'"
    then have "leaked sec s s'" unfolding leaked_def
      using aD by (intro conjI exI [of _ b]) (auto simp: quiet_def same_vol_def same_fs_def)
    then show "settled dinv sec nsec N s' \<and> (e = ENOSPC \<and> s' = s \<or> e \<in> {ENOMEM, EIO} \<and> leaked sec s s')"
      using e by blast
  qed
qed (use st in auto)

end

end
