(* ===== verification/SFS_Names.thy ===== *)
theory SFS_Names
  imports SFS_Load
begin

text \<open>
  Names: what looking up, creating, linking, removing and renaming files does to a volume as a whole. The abstract
  state of a volume is the map \<open>M\<close> from names to inode numbers (the root directory) and the map \<open>N\<close> from inode
  numbers to inodes; \<open>vol\<close> ties it to the concrete state, and includes that the link count of every file is the number
  of its names. \<open>vref\<close> are the counts of the loaded vnodes.
\<close>

section \<open>Volumes\<close>

definition links :: "(byte list \<rightharpoonup> nat) \<Rightarrow> nat \<Rightarrow> nat" where
  "links M ino = card {nm. M nm = Some ino}"

text \<open>\<open>X\<close> are the inodes whose link count is out of date.\<close>

definition vol :: "('d \<Rightarrow> bool) \<Rightarrow> ('d \<Rightarrow> nat \<Rightarrow> byte list) \<Rightarrow> nat \<Rightarrow> (byte list \<rightharpoonup> nat) \<Rightarrow> (nat \<rightharpoonup> sfs_inode) \<Rightarrow> nat set
    \<Rightarrow> 'd sfs_fs \<Rightarrow> bool" where
  "vol din sc ns M N X s \<longleftrightarrow> settled din sc ns N s \<and>
     (\<exists>ri. N 1 = Some ri \<and> dir_ok (sc (sfs_device s)) ri \<and> dir_map (dents (sc (sfs_device s)) ri) = M) \<and>
     (\<forall>nm ino. M nm = Some ino \<longrightarrow> ino \<noteq> 1 \<and> ino \<in> dom N) \<and>
     (\<forall>ino i. N ino = Some i \<and> ino \<noteq> 1 \<longrightarrow> sfi_type i = SFS_TYPE_FILE \<and> (ino \<notin> X \<longrightarrow> sfi_linkcount i = links M ino))"

definition vref :: "'d sfs_fs \<Rightarrow> nat \<rightharpoonup> int \<times> int \<times> vnode_ops \<times> nat" where
  "vref s p = map_option (\<lambda>v. (vn_refcount v, vn_opencount v, vn_ops v, sv_ino v)) (sfs_heap s p)"

text \<open>The contents of all files but the root directory are the same.\<close>

definition data_kept :: "('d \<Rightarrow> nat \<Rightarrow> byte list) \<Rightarrow> (nat \<rightharpoonup> sfs_inode) \<Rightarrow> 'd sfs_fs \<Rightarrow> 'd sfs_fs \<Rightarrow> bool" where
  "data_kept sc N s s' \<longleftrightarrow> (\<forall>n i k. n \<noteq> 1 \<and> N n = Some i \<longrightarrow> fblk (sc (sfs_device s')) i k = fblk (sc (sfs_device s)) i k)"

text \<open>What a change of the root directory, whose vnode is at \<open>p\<close>, leaves alone.\<close>

definition kept :: "('d \<Rightarrow> nat \<Rightarrow> byte list) \<Rightarrow> (nat \<rightharpoonup> sfs_inode) \<Rightarrow> nat \<Rightarrow> 'd sfs_fs \<Rightarrow> 'd sfs_fs \<Rightarrow> bool" where
  "kept sc N p s s' \<longleftrightarrow> vref s' = vref s \<and> data_kept sc N s s' \<and> km_pages (sfs_km s') = km_pages (sfs_km s) \<and>
     (\<forall>q. q \<noteq> p \<longrightarrow> sfs_heap s' q = sfs_heap s q)"

lemma volE:
  assumes "vol din sc ns M N X s"
  obtains ri where "N 1 = Some ri" "dir_ok (sc (sfs_device s)) ri" "dir_map (dents (sc (sfs_device s)) ri) = M"
  using assms unfolding vol_def by blast

lemma volD:
  assumes "vol din sc ns M N X s"
  shows "settled din sc ns N s" "M nm = Some ino \<Longrightarrow> ino \<noteq> 1 \<and> ino \<in> dom N"
    "N ino = Some i \<Longrightarrow> ino \<noteq> 1 \<Longrightarrow> sfi_type i = SFS_TYPE_FILE"
    "N ino = Some i \<Longrightarrow> ino \<noteq> 1 \<Longrightarrow> ino \<notin> X \<Longrightarrow> sfi_linkcount i = links M ino"
  using assms unfolding vol_def by blast+

lemma vol_at:
  assumes v: "vol din sc ns M N X s" and p: "sfs_heap s p = Some v" "sv_ino v = n" and N: "N n = Some i"
  shows "fs_at din sc ns N n p i s" "sv_i v = i"
proof -
  have ok: "fs_ok ns (sc (sfs_device s)) N s" and dn: "din (sfs_device s)" using volD(1) [OF v] by (auto simp: settled_def)
  show "sv_i v = i" using heap_okD(1) [OF fs_okD(2) [OF ok] p(1)] N p(2) by simp
  then show "fs_at din sc ns N n p i s" using ok dn p by (auto simp: fs_at_def)
qed

lemma dir_map_finite: "finite (dom (dir_map ds))" "card (dom (dir_map ds)) \<le> length ds"
proof -
  have d: "dom (dir_map ds) = dname ` set (filter used ds)"
    unfolding dir_map_def dom_map_of_conv_image_fst by (simp add: image_image)
  then show "finite (dom (dir_map ds))" by simp
  have "card (dom (dir_map ds)) \<le> card (set (filter used ds))" unfolding d by (rule card_image_le) simp
  also have "\<dots> \<le> length (filter used ds)" by (rule card_length)
  also have "\<dots> \<le> length ds" by simp
  finally show "card (dom (dir_map ds)) \<le> length ds" .
qed

lemma vol_finite:
  assumes "vol din sc ns M N X s"
  shows "finite (dom M)" "links M ino \<le> 1144"
proof -
  obtain ri where r: "dir_ok (sc (sfs_device s)) ri" "dir_map (dents (sc (sfs_device s)) ri) = M" using assms by (rule volE)
  have "sfi_size ri \<le> 73216" using r(1) by (simp add: dir_ok_def)
  then have l: "length (dents (sc (sfs_device s)) ri) \<le> 1144" by simp
  show f: "finite (dom M)" using dir_map_finite(1) [of "dents (sc (sfs_device s)) ri"] r(2) by simp
  have "links M ino \<le> card (dom M)" unfolding links_def using f by (intro card_mono) auto
  then show "links M ino \<le> 1144" using dir_map_finite(2) [of "dents (sc (sfs_device s)) ri"] r(2) l by simp
qed

lemma links_add:
  assumes "finite (dom M)" "M nm = None"
  shows "links (M(nm \<mapsto> ino)) ino = links M ino + 1" "n \<noteq> ino \<Longrightarrow> links (M(nm \<mapsto> ino)) n = links M n"
proof -
  have "{x. (M(nm \<mapsto> ino)) x = Some ino} = insert nm {x. M x = Some ino}" using assms(2) by auto
  moreover have "finite {x. M x = Some ino}" by (rule finite_subset [OF _ assms(1)]) auto
  ultimately show "links (M(nm \<mapsto> ino)) ino = links M ino + 1" using assms(2) by (simp add: links_def)
  assume "n \<noteq> ino"
  then have "{x. (M(nm \<mapsto> ino)) x = Some n} = {x. M x = Some n}" using assms(2) by auto
  then show "links (M(nm \<mapsto> ino)) n = links M n" by (simp add: links_def)
qed

lemma links_del:
  assumes "finite (dom M)" "M nm = Some ino"
  shows "links M ino = links (M(nm := None)) ino + 1" "n \<noteq> ino \<Longrightarrow> links (M(nm := None)) n = links M n"
proof -
  have eq: "(M(nm := None))(nm \<mapsto> ino) = M" using assms(2) by auto
  have f: "finite (dom (M(nm := None)))" using assms(1) by simp
  show "links M ino = links (M(nm := None)) ino + 1" using links_add(1) [OF f, of nm ino] eq by simp
  show "n \<noteq> ino \<Longrightarrow> links (M(nm := None)) n = links M n" using links_add(2) [OF f, of nm n ino] eq by simp
qed

lemma links_fresh:
  assumes "vol din sc ns M N X s" "N b = None"
  shows "links M b = 0"
proof -
  have "M nm \<noteq> Some b" for nm using volD(2) [OF assms(1), of nm b] assms(2) by auto
  then show ?thesis by (simp add: links_def)
qed

section \<open>Steps on a volume\<close>

lemma settled_step:
  assumes st: "settled din sc ns N s" and f: "file_step din sc ns N n p s i' s'" and N: "N n = Some i" "sfi_type i' = sfi_type i"
  shows "settled din sc ns (N(n \<mapsto> i')) s'" "vref s' = vref s" "km_pages (sfs_km s') = km_pages (sfs_km s)"
proof -
  have at: "fs_at din sc ns (N(n \<mapsto> i')) n p i' s'" and fr: "file_frame sc N n p s s'" using f by (auto simp: file_step_def)
  obtain v v' where v: "sfs_heap s p = Some v" "sfs_heap s' = (sfs_heap s)(p \<mapsto> v')" "same_vn v v'" "same_fs s s'"
    using fr by (rule file_frameE) blast
  have vt: "vt_ok s" and ok: "fs_ok ns (sc (sfs_device s)) N s" using st by (auto simp: settled_def)
  have v': "sv_ino v' = n" "sv_i v' = i'" using fs_atD(5) [OF at] v(2) by auto
  have "sv_i v = i" using heap_okD(1) [OF fs_okD(2) [OF ok] v(1)] v(3) v' N(1) by (simp add: same_vn_def)
  then have "vnode_ok v'" using vt_okD(2) [OF vt v(1)] v(3) v' N(2) by (simp add: vnode_ok_def same_vn_def)
  then have "vt_ok s'" using v(4) by (intro vt_ok_update [OF vt v(1,2)]) (auto simp: same_fs_def)
  then show "settled din sc ns (N(n \<mapsto> i')) s'" using fs_atD(1,2) [OF at] by (simp add: settled_def)
  show "vref s' = vref s" using v by (auto simp: vref_def same_vn_def)
  show "km_pages (sfs_km s') = km_pages (sfs_km s)" using v(4) by (simp add: same_fs_def)
qed

lemma data_step:
  assumes "fs_ok ns (sc (sfs_device s)) N s" "file_step din sc ns N 1 p s i' s'"
  shows "data_kept sc N s s'"
  unfolding data_kept_def using file_frame_fblk [where sc = sc and s = s and n = 1 and p = p and s' = s', OF _ _ _ assms(1)] assms(2)
  by (auto simp: file_step_def)

lemma kept_step:
  assumes st: "settled din sc ns N s" and f: "file_step din sc ns N 1 p s i' s'" and N: "N 1 = Some i" "sfi_type i' = sfi_type i"
  shows "kept sc N p s s'"
proof -
  have "sfs_heap s' q = sfs_heap s q" if "q \<noteq> p" for q
    using f that by (auto simp: file_step_def elim!: file_frameE)
  moreover have "data_kept sc N s s'" using data_step [OF _ f] st by (simp add: settled_def)
  ultimately show ?thesis using settled_step(2,3) [OF st f N] by (simp add: kept_def)
qed

text \<open>The directory changes; only names of \<open>x\<close> come or go.\<close>

lemma vol_dir_step:
  assumes v: "vol din sc ns M N X s" and ri: "N 1 = Some ri" "sfi_type ri = SFS_TYPE_DIR"
    and d: "dir_step din sc ns N 1 p s M' ri' s'"
    and x: "x \<noteq> 1" "x \<in> dom N" "\<And>nm. M' nm \<noteq> M nm \<Longrightarrow> M nm \<in> {None, Some x} \<and> M' nm \<in> {None, Some x}"
    and X: "M' = M \<or> x \<in> X'" "X \<subseteq> X'"
  shows "vol din sc ns M' (N(1 \<mapsto> ri')) X' s'" "kept sc N p s s'"
proof -
  have f: "file_step din sc ns N 1 p s ri' s'" and dk: "dir_ok (sc (sfs_device s')) ri'" "dir_map (dents (sc (sfs_device s')) ri') = M'"
    using d by (auto simp: dir_step_def)
  have ty: "sfi_type ri' = sfi_type ri" using dk(1) ri(2) by (simp add: dir_ok_def)
  note st = settled_step [OF volD(1) [OF v] f ri(1) ty]
  have names: "ino \<noteq> 1 \<and> ino \<in> dom N" if "M' nm = Some ino" for nm ino
    using that x(1,2) x(3) [of nm] volD(2) [OF v, of nm ino] by (cases "M' nm = M nm") auto
  have l: "links M' ino = links M ino" if "ino \<notin> X'" for ino
  proof (cases "M' = M")
    case False
    then have "ino \<noteq> x" using X(1) that by auto
    then have "{nm. M' nm = Some ino} = {nm. M nm = Some ino}"
      using x(3) by (metis (no_types, opaque_lifting) insertE option.distinct(1) option.sel singletonD)
    then show ?thesis by (simp add: links_def)
  qed simp
  have "sfi_type i = SFS_TYPE_FILE \<and> (ino \<notin> X' \<longrightarrow> sfi_linkcount i = links M' ino)"
    if "(N(1 \<mapsto> ri')) ino = Some i" "ino \<noteq> 1" for ino i
    using that volD(3,4) [OF v, of ino i] l [of ino] X(2) by auto
  then show "vol din sc ns M' (N(1 \<mapsto> ri')) X' s'"
    unfolding vol_def using st(1) dk names by (intro conjI exI [of _ ri']) auto
  show "kept sc N p s s'" by (rule kept_step [OF volD(1) [OF v] f ri(1) ty])
qed

lemma vol_dir_same:
  assumes v: "vol din sc ns M N X s" and ri: "N 1 = Some ri" "sfi_type ri = SFS_TYPE_DIR" and d: "dir_step din sc ns N 1 p s M ri' s'"
  shows "vol din sc ns M (N(1 \<mapsto> ri')) X s'" "kept sc N p s s'"
proof -
  have f: "file_step din sc ns N 1 p s ri' s'" and dk: "dir_ok (sc (sfs_device s')) ri'" "dir_map (dents (sc (sfs_device s')) ri') = M"
    using d by (auto simp: dir_step_def)
  have ty: "sfi_type ri' = sfi_type ri" using dk(1) ri(2) by (simp add: dir_ok_def)
  note st = settled_step [OF volD(1) [OF v] f ri(1) ty]
  show "vol din sc ns M (N(1 \<mapsto> ri')) X s'"
    unfolding vol_def using st(1) dk volD(2,3,4) [OF v] by (intro conjI exI [of _ ri']) auto
  show "kept sc N p s s'" by (rule kept_step [OF volD(1) [OF v] f ri(1) ty])
qed

text \<open>The link count of a loaded file is brought up to date.\<close>

lemma vol_sv_link:
  assumes v: "vol din sc ns M N X s" and q: "sfs_heap s q = Some w" "sv_ino w = x" and x: "x \<noteq> 1" "N x = Some i"
    and c: "f (sfi_linkcount i) = links M x"
  shows "wpK (sv_link f q) (\<lambda>_ s'. vol din sc ns M (N(x \<mapsto> i\<lparr>sfi_linkcount := links M x\<rparr>)) (X - {x}) s' \<and> vref s' = vref s \<and>
     sfs_device s' = sfs_device s \<and> km_pages (sfs_km s') = km_pages (sfs_km s) \<and>
     sfs_heap s' = (sfs_heap s)(q \<mapsto> w\<lparr>sv_i := i\<lparr>sfi_linkcount := links M x\<rparr>, sv_dirty := True\<rparr>)) E s"
proof -
  let ?i = "i\<lparr>sfi_linkcount := links M x\<rparr>"
  let ?w = "w\<lparr>sv_i := ?i, sv_dirty := True\<rparr>"
  let ?s = "s\<lparr>sfs_heap := (sfs_heap s)(q \<mapsto> ?w)\<rparr>"
  note at = vol_at [OF v q x(2)]
  have "links M x < 65536" using vol_finite(2) [OF v, of x] by simp
  then have wf: "inode_wf ?i" using inode_okD(1) [OF fs_atD(6) [OF at(1)]] by (simp add: inode_wf_def)
  have f: "file_step din sc ns N x q s ?i ?s"
    by (rule meta_step(1) [OF at(1) q(1) wf]) (simp_all add: same_vn_def)
  note st = settled_step [OF volD(1) [OF v] f x(2)]
  obtain ri where r: "N 1 = Some ri" "dir_ok (sc (sfs_device s)) ri" "dir_map (dents (sc (sfs_device s)) ri) = M" using v by (rule volE)
  have "vol din sc ns M (N(x \<mapsto> ?i)) (X - {x}) ?s"
    unfolding vol_def using st(1) r x volD(2,3,4) [OF v] by (intro conjI exI [of _ ri]) auto
  then show ?thesis
    using q(1) at(2) c st(2) unfolding sv_link_def wp_svmod by simp
qed

text \<open>Reference counts do not matter.\<close>

lemma vol_refs:
  assumes v: "vol din sc ns M N X s" and q: "sfs_heap s q = Some w" and r: "1 \<le> r"
  shows "vol din sc ns M N X (s\<lparr>sfs_heap := (sfs_heap s)(q \<mapsto> w\<lparr>vn_refcount := r\<rparr>)\<rparr>)"
proof -
  let ?w = "w\<lparr>vn_refcount := r\<rparr>" and ?s = "s\<lparr>sfs_heap := (sfs_heap s)(q \<mapsto> w\<lparr>vn_refcount := r\<rparr>)\<rparr>"
  have ok: "fs_ok ns (sc (sfs_device s)) N s" and vt: "vt_ok s" and dn: "din (sfs_device s)"
    using volD(1) [OF v] by (auto simp: settled_def)
  have "fs_ok ns (sc (sfs_device s)) N ?s" using fs_ok_counts [OF ok q, of ?w ?s] by simp
  moreover have "vt_ok ?s" using vt_ok_update [OF vt q, of ?s ?w] vt_okD(2) [OF vt q] r by (simp add: vnode_ok_def)
  ultimately show ?thesis using v dn by (simp add: vol_def settled_def)
qed

lemma decref_wp:
  assumes v: "vol din sc ns M N X s" and q: "sfs_heap s q = Some w" "1 < vn_refcount w"
  shows "wpK (vnode_decref dv q) (\<lambda>_ s'. vol din sc ns M N X s' \<and> sfs_device s' = sfs_device s \<and> sfs_km s' = sfs_km s \<and>
     vref s' = (vref s)(q \<mapsto> (vn_refcount w - 1, vn_opencount w, vn_ops w, sv_ino w))) E s"
proof -
  have "vol din sc ns M N X (s\<lparr>sfs_heap := (sfs_heap s)(q \<mapsto> w\<lparr>vn_refcount := vn_refcount w - 1\<rparr>)\<rparr>)"
    using q(2) by (intro vol_refs [OF v q(1)]) simp
  moreover have "vref (s\<lparr>sfs_heap := (sfs_heap s)(q \<mapsto> w\<lparr>vn_refcount := vn_refcount w - 1\<rparr>)\<rparr>) =
      (vref s)(q \<mapsto> (vn_refcount w - 1, vn_opencount w, vn_ops w, sv_ino w))"
    by (rule ext) (simp add: vref_def)
  ultimately show ?thesis using q by (simp add: vnode_decref_def wp)
qed

section \<open>Looking up\<close>

definition grab :: "(nat \<rightharpoonup> int \<times> int \<times> vnode_ops \<times> nat) \<Rightarrow> nat \<Rightarrow> nat \<Rightarrow> (nat \<rightharpoonup> int \<times> int \<times> vnode_ops \<times> nat)" where
  "grab R ino q = R(q \<mapsto> (case R q of Some (rc, x) \<Rightarrow> (rc + 1, x) | None \<Rightarrow> (1, 0, SFS_FILEOPS, ino)))"

text \<open>\<open>q\<close> is where \<open>ino\<close> is loaded, or a fresh address if it is not.\<close>

definition place :: "(nat \<rightharpoonup> int \<times> int \<times> vnode_ops \<times> nat) \<Rightarrow> nat \<Rightarrow> nat \<Rightarrow> bool" where
  "place R ino q \<longleftrightarrow> (case R q of
     Some (rc, oc, ops, n) \<Rightarrow> n = ino
   | None \<Rightarrow> \<forall>p rc oc ops n. R p = Some (rc, oc, ops, n) \<longrightarrow> n \<noteq> ino)"

lemma rc_ok_vref: "rc_ok s \<longleftrightarrow> (\<forall>p rc x. vref s p = Some (rc, x) \<longrightarrow> rc < 2147483647)"
  by (force simp: rc_ok_def vref_def)

lemma step_room:
  assumes "file_step din sc ns N n p s i' s'"
  shows "vroom s' = vroom s"
  using assms by (auto simp: file_step_def vroom_def same_fs_def elim!: file_frameE)

lemma vol_loaded:
  assumes v: "vol din sc ns M N X s" and l: "loaded s ino i q s'" and sv: "same_vol sc s s'" and st: "settled din sc ns N s'"
    and N: "N ino = Some i" "ino \<noteq> 1"
  shows "vol din sc ns M N X s'" "vref s' = grab (vref s) ino q" "place (vref s) ino q"
    "\<exists>w. sfs_heap s' q = Some w \<and> sv_ino w = ino \<and> sv_i w = i"
proof -
  show "vol din sc ns M N X s'" using v st sv by (simp add: vol_def same_vol_def)
  obtain w where w: "sfs_heap s' = (sfs_heap s)(q \<mapsto> w)" "sv_ino w = ino" "sv_i w = i"
      "case sfs_heap s q of Some v \<Rightarrow> w = v\<lparr>vn_refcount := vn_refcount v + 1\<rparr>
      | None \<Rightarrow> vn_refcount w = 1 \<and> vn_opencount w = 0 \<and> (\<forall>q v. sfs_heap s q = Some v \<longrightarrow> sv_ino v \<noteq> ino)"
    using l by (auto simp: loaded_def)
  show "\<exists>w. sfs_heap s' q = Some w \<and> sv_ino w = ino \<and> sv_i w = i" using w by simp
  have "vnode_ok w" using st w(1) vt_okD(2) [of s' q w] by (simp add: settled_def)
  then have ops: "vn_ops w = SFS_FILEOPS" using volD(3) [OF v N] w(3) by (simp add: vnode_ok_def ops_of_def sfs_consts)
  show "vref s' = grab (vref s) ino q"
    using w ops by (cases "sfs_heap s q") (auto simp: vref_def grab_def fun_eq_iff)
  show "place (vref s) ino q"
    using w by (cases "sfs_heap s q") (auto simp: vref_def place_def)
qed

context sfs_disk begin

lemma vol_findname_wp:
  assumes v: "vol dinv sec nsec M N X s" and p: "sfs_heap s p = Some pv" "sv_ino pv = 1" and ri: "N 1 = Some ri"
  shows "wpK (sfs_dir_findname dv p name)
     (\<lambda>(r, d) s'. vol dinv sec nsec M N X s' \<and> kept sec N p s s' \<and> sec (sfs_device s') = sec (sfs_device s) \<and> vroom s' = vroom s \<and>
        (r \<in> {Some EIO, Some EFAULT} \<or> r = Some ENOENT \<and> M name = None \<or>
         r = None \<and> (\<exists>ino j. M name = Some ino \<and> ds_ino d = Some ino \<and> ds_slot d = Some (int j) \<and> j < sfi_size ri div 64 \<and>
           used (dents (sec (sfs_device s)) ri ! j) \<and> dname (dents (sec (sfs_device s)) ri ! j) = name)))
     (\<lambda>_ _. False) s"
proof -
  note at = vol_at(1) [OF v p ri]
  obtain ri' where "N 1 = Some ri'" "dir_ok (sec (sfs_device s)) ri'" "dir_map (dents (sec (sfs_device s)) ri') = M"
    using v by (rule volE)
  then have dok: "dir_ok (sec (sfs_device s)) ri" and dm: "dir_map (dents (sec (sfs_device s)) ri) = M" using ri by auto
  let ?ds = "dents (sec (sfs_device s)) ri"
  have dist: "dir_distinct ?ds" and ty: "sfi_type ri = SFS_TYPE_DIR" using dok by (auto simp: dir_ok_def)
  show ?thesis
  proof (rule wp_mono [OF findname_wp [OF at dok]], clarify)
    fix r d s1
    assume rd: "rd_step dinv sec nsec N 1 p ri s s1"
      and r: "r \<in> {Some EIO, Some EFAULT} \<or> r = (if ds_slot d = None then Some ENOENT else None) \<and> scanned ?ds name (sfi_size ri div 64) d"
    have N1: "N(1 \<mapsto> ri) = N" using ri by auto
    have "vol dinv sec nsec M N X s1" "kept sec N p s s1"
      using vol_dir_same [OF v ri ty dir_step_rd [OF rd dok, unfolded dm]] N1 by auto
    moreover have "sec (sfs_device s1) = sec (sfs_device s)" using rd by (simp add: rd_step_def)
    moreover have "vroom s1 = vroom s" using step_room [OF rd_file_step [OF rd]] .
    moreover have "r \<in> {Some EIO, Some EFAULT} \<or> r = Some ENOENT \<and> M name = None \<or>
         r = None \<and> (\<exists>ino j. M name = Some ino \<and> ds_ino d = Some ino \<and> ds_slot d = Some (int j) \<and> j < sfi_size ri div 64 \<and>
           used (?ds ! j) \<and> dname (?ds ! j) = name)"
      using r scanned_lookup [OF dist, of name d] dm by (cases "ds_slot d") auto
    ultimately show "vol dinv sec nsec M N X s1 \<and> kept sec N p s s1 \<and> sec (sfs_device s1) = sec (sfs_device s) \<and> vroom s1 = vroom s \<and>
        (r \<in> {Some EIO, Some EFAULT} \<or> r = Some ENOENT \<and> M name = None \<or>
         r = None \<and> (\<exists>ino j. M name = Some ino \<and> ds_ino d = Some ino \<and> ds_slot d = Some (int j) \<and> j < sfi_size ri div 64 \<and>
           used (?ds ! j) \<and> dname (?ds ! j) = name))" by blast
  qed simp
qed

lemma vol_load_wp:
  assumes v: "vol dinv sec nsec M N X s" and i: "N ino = Some i" "ino \<noteq> 1" and room: "vroom s" and rc: "rc_ok s"
  shows "wpK (sfs_loadvnode dv ino SFS_TYPE_INVAL)
     (\<lambda>q s'. vol dinv sec nsec M N X s' \<and> vref s' = grab (vref s) ino q \<and> place (vref s) ino q \<and>
        sec (sfs_device s') = sec (sfs_device s) \<and> (\<exists>w. sfs_heap s' q = Some w \<and> sv_ino w = ino \<and> sv_i w = i))
     (\<lambda>e s'. e \<in> {ENOMEM, EIO} \<and> vol dinv sec nsec M N X s' \<and> vref s' = vref s \<and> sec (sfs_device s') = sec (sfs_device s)) s"
proof (rule wp_mono [OF loadvnode_wp [OF volD(1) [OF v] i(1) room rc]])
  fix q s' assume "settled dinv sec nsec N s' \<and> loaded s ino i q s' \<and> same_vol sec s s'"
  then have l: "settled dinv sec nsec N s'" "loaded s ino i q s'" "same_vol sec s s'" by auto
  show "vol dinv sec nsec M N X s' \<and> vref s' = grab (vref s) ino q \<and> place (vref s) ino q \<and>
        sec (sfs_device s') = sec (sfs_device s) \<and> (\<exists>w. sfs_heap s' q = Some w \<and> sv_ino w = ino \<and> sv_i w = i)"
    using vol_loaded [OF v l(2,3,1) i] l(3) by (simp add: same_vol_def)
next
  fix e s' assume "e \<in> {ENOMEM, EIO} \<and> settled dinv sec nsec N s' \<and> quiet sec s s'"
  then show "e \<in> {ENOMEM, EIO} \<and> vol dinv sec nsec M N X s' \<and> vref s' = vref s \<and> sec (sfs_device s') = sec (sfs_device s)"
    using v by (auto simp: vol_def quiet_def same_vol_def vref_def)
qed

lemma lookonce_wp:
  assumes v: "vol dinv sec nsec M N {} s" and p: "sfs_heap s p = Some pv" "sv_ino pv = 1" and ri: "N 1 = Some ri"
    and room: "vroom s" and rc: "rc_ok s"
  shows "wpK (sfs_lookonce dv p name)
     (\<lambda>(q, slot) s'. \<exists>ino j. M name = Some ino \<and> slot = int j \<and> j < sfi_size ri div 64 \<and>
        used (dents (sec (sfs_device s)) ri ! j) \<and> dname (dents (sec (sfs_device s)) ri ! j) = name \<and>
        vol dinv sec nsec M N {} s' \<and> vref s' = grab (vref s) ino q \<and> place (vref s) ino q \<and>
        sec (sfs_device s') = sec (sfs_device s))
     (\<lambda>e s'. (M name = None \<and> e = ENOENT \<or> e \<in> {EIO, EFAULT, ENOMEM}) \<and> vol dinv sec nsec M N {} s' \<and>
        vref s' = vref s \<and> sec (sfs_device s') = sec (sfs_device s)) s" (is "wpK _ ?Q ?E s")
  unfolding sfs_lookonce_def wp_bind
proof (rule wp_mono [OF vol_findname_wp [OF v p ri]])
  fix a s1
  let ?ds = "dents (sec (sfs_device s)) ri"
  let ?body = "\<lambda>r d. case r of Some e \<Rightarrow> failK e
     | None \<Rightarrow> bindK (sfs_loadvnode dv (the (ds_ino d)) SFS_TYPE_INVAL) (\<lambda>ret.
         bindK (svget ret (\<lambda>v. sfi_linkcount (sv_i v))) (\<lambda>lc. if lc = 0 then panicK else retK (ret, the (ds_slot d))))"
  assume f: "(case a of (r, d) \<Rightarrow> \<lambda>s'. vol dinv sec nsec M N {} s' \<and> kept sec N p s s' \<and> sec (sfs_device s') = sec (sfs_device s) \<and>
        vroom s' = vroom s \<and> (r \<in> {Some EIO, Some EFAULT} \<or> r = Some ENOENT \<and> M name = None \<or>
         r = None \<and> (\<exists>ino j. M name = Some ino \<and> ds_ino d = Some ino \<and> ds_slot d = Some (int j) \<and> j < sfi_size ri div 64 \<and>
           used (?ds ! j) \<and> dname (?ds ! j) = name))) s1"
  obtain r d where a: "a = (r, d)" by (cases a)
  have v1: "vol dinv sec nsec M N {} s1" "vref s1 = vref s" "sec (sfs_device s1) = sec (sfs_device s)" "vroom s1" "rc_ok s1"
    using f a room rc by (auto simp: kept_def rc_ok_vref)
  consider (err) e where "r = Some e" "e \<in> {EIO, EFAULT} \<or> e = ENOENT \<and> M name = None"
    | (found) ino j where "r = None" "M name = Some ino" "ds_ino d = Some ino" "ds_slot d = Some (int j)" "j < sfi_size ri div 64"
        "used (?ds ! j)" "dname (?ds ! j) = name"
    using f a by auto
  then have "wpK (?body r d) ?Q ?E s1"
  proof cases
    case err
    then show ?thesis using v1 by (auto simp: wp)
  next
    case found
    have n1: "ino \<noteq> 1" using volD(2) [OF v found(2)] by simp
    obtain i where i: "N ino = Some i" using volD(2) [OF v found(2)] by auto
    have "finite {nm. M nm = Some ino}" using vol_finite(1) [OF v] by (rule rev_finite_subset) auto
    then have "links M ino > 0" using found(2) by (auto simp: links_def card_gt_0_iff)
    then have lc: "sfi_linkcount i \<noteq> 0" using volD(4) [OF v i n1] by simp
    have "wpK (sfs_loadvnode dv ino SFS_TYPE_INVAL) (\<lambda>ret. wpK (bindK (svget ret (\<lambda>v. sfi_linkcount (sv_i v)))
          (\<lambda>lc. if lc = 0 then panicK else retK (ret, int j))) ?Q ?E) ?E s1"
      by (rule wp_mono [OF vol_load_wp [OF v1(1) i n1 v1(4,5)]]) (use v1 found lc in \<open>auto simp: wp\<close>)
    moreover have "the (ds_ino d) = ino" "the (ds_slot d) = int j" using found by simp_all
    ultimately show ?thesis unfolding found(1) option.case by (simp only: wp_bind)
  qed
  then show "wpK (case a of (r, d) \<Rightarrow> ?body r d) ?Q ?E s1" by (simp add: a)
qed simp

end

lemma vrefE:
  assumes "vref s p = Some (rc, oc, ops, n)"
  obtains w where "sfs_heap s p = Some w" "vn_refcount w = rc" "vn_opencount w = oc" "vn_ops w = ops" "sv_ino w = n"
  using assms by (auto simp: vref_def)

lemma vol_root:
  assumes v: "vol din sc ns M N X s" and p: "vref s p = Some (rc, oc, ops, 1)"
  obtains ri where "N 1 = Some ri" "fs_at din sc ns N 1 p ri s" "dir_ok (sc (sfs_device s)) ri"
    "dir_map (dents (sc (sfs_device s)) ri) = M" "sfi_type ri = SFS_TYPE_DIR" "dir_distinct (dents (sc (sfs_device s)) ri)"
proof -
  obtain w where w: "sfs_heap s p = Some w" "sv_ino w = 1" using p by (rule vrefE)
  obtain ri where r: "N 1 = Some ri" "dir_ok (sc (sfs_device s)) ri" "dir_map (dents (sc (sfs_device s)) ri) = M" using v by (rule volE)
  show thesis by (rule that [OF r(1) vol_at(1) [OF v w r(1)] r(2,3)]) (use r(2) in \<open>auto simp: dir_ok_def\<close>)
qed

lemma vol_ino_bounds:
  assumes "vol din sc ns M N X s" "N ino = Some i"
  shows "0 < ino" "ino < sp_nblocks (sfs_super s)" "sp_nblocks (sfs_super s) \<le> ns"
proof -
  have ok: "fs_ok ns (sc (sfs_device s)) N s" using volD(1) [OF assms(1)] by (simp add: settled_def)
  note io = fs_okD(3) [OF ok assms(2)]
  show "0 < ino" "ino < sp_nblocks (sfs_super s)" "sp_nblocks (sfs_super s) \<le> ns"
    using inode_okD(3) [OF io] inode_ok_self(2) [OF io] fs_okD(1) [OF ok] by (auto simp: map_ok_def)
qed

text \<open>The directory has room for one more entry, and is not larger than SFS files can be.\<close>

definition dir_room :: "(nat \<rightharpoonup> sfs_inode) \<Rightarrow> bool" where
  "dir_room N \<longleftrightarrow> (\<forall>ri. N 1 = Some ri \<longrightarrow> sfi_size ri + 64 \<le> 73216)"

context sfs_disk begin

lemma ino_32: "ino < sp_nblocks (sfs_super s) \<Longrightarrow> sp_nblocks (sfs_super s) \<le> nsec \<Longrightarrow> ino < 4294967296"
  using nsec_bound by simp

text \<open>\<^verbatim>\<open>sfs_dir_link\<close> and \<^verbatim>\<open>sfs_dir_unlink\<close> on the root directory of a volume.\<close>

lemma vol_dir_link_wp:
  assumes v: "vol dinv sec nsec M N X s" and p: "vref s p = Some (rc, oc, ops, 1)" and room: "dir_room N"
    and name: "0 \<notin> set name" and x: "x \<noteq> 1" "x \<in> dom N"
  shows "wpK (sfs_dir_link dv p name x)
     (\<lambda>slot s'. \<exists>ri' j. slot = int j \<and> M name = None \<and> vol dinv sec nsec (M(name \<mapsto> x)) (N(1 \<mapsto> ri')) (insert x X) s' \<and>
        kept sec N p s s' \<and> j < sfi_size ri' div 64 \<and> used (dents (sec (sfs_device s')) ri' ! j) \<and> dname (dents (sec (sfs_device s')) ri' ! j) = name \<and>
        (\<forall>ri l. N 1 = Some ri \<and> l < sfi_size ri div 64 \<and> used (dents (sec (sfs_device s)) ri ! l) \<longrightarrow>
           l < sfi_size ri' div 64 \<and> dents (sec (sfs_device s')) ri' ! l = dents (sec (sfs_device s)) ri ! l))
     (\<lambda>e s'. (e = EEXIST \<and> M name \<noteq> None \<or> e = ENAMETOOLONG \<and> 60 \<le> length name \<or> e \<in> {ENOSPC, EIO, EFAULT}) \<and>
        (\<exists>ri'. vol dinv sec nsec M (N(1 \<mapsto> ri')) X s' \<and> kept sec N p s s')) s" (is "wpK _ ?Q ?E s")
proof -
  obtain ri where ri: "N 1 = Some ri" "fs_at dinv sec nsec N 1 p ri s" "dir_ok (sec (sfs_device s)) ri"
    "dir_map (dents (sec (sfs_device s)) ri) = M" "sfi_type ri = SFS_TYPE_DIR" using v p by (rule vol_root)
  obtain i where i: "N x = Some i" using x(2) by auto
  note b = vol_ino_bounds [OF v i]
  have r: "sfi_size ri + 64 \<le> 73216" using room ri(1) by (simp add: dir_room_def)
  show ?thesis
  proof (rule wp_mono [OF dir_link_wp [OF ri(2,3) r name b(1) ino_32 [OF b(2,3)], unfolded ri(4)]])
    fix slot s'
    assume "\<exists>ri' j. slot = int j \<and> M name = None \<and> dir_step dinv sec nsec N 1 p s (M(name \<mapsto> x)) ri' s' \<and>
        j < sfi_size ri' div 64 \<and> used (dents (sec (sfs_device s')) ri' ! j) \<and> dname (dents (sec (sfs_device s')) ri' ! j) = name \<and>
        (\<forall>l < sfi_size ri div 64. used (dents (sec (sfs_device s)) ri ! l) \<longrightarrow>
           l < sfi_size ri' div 64 \<and> dents (sec (sfs_device s')) ri' ! l = dents (sec (sfs_device s)) ri ! l)"
    then obtain ri' j where h: "slot = int j" "M name = None" "dir_step dinv sec nsec N 1 p s (M(name \<mapsto> x)) ri' s'"
        "j < sfi_size ri' div 64" "used (dents (sec (sfs_device s')) ri' ! j)" "dname (dents (sec (sfs_device s')) ri' ! j) = name"
        "\<forall>l < sfi_size ri div 64. used (dents (sec (sfs_device s)) ri ! l) \<longrightarrow>
           l < sfi_size ri' div 64 \<and> dents (sec (sfs_device s')) ri' ! l = dents (sec (sfs_device s)) ri ! l" by blast
    have c: "(M(name \<mapsto> x)) nm \<noteq> M nm \<Longrightarrow> M nm \<in> {None, Some x} \<and> (M(name \<mapsto> x)) nm \<in> {None, Some x}" for nm
      using h(2) by (auto split: if_splits)
    have vd: "vol dinv sec nsec (M(name \<mapsto> x)) (N(1 \<mapsto> ri')) (insert x X) s'" "kept sec N p s s'"
      using vol_dir_step [where M' = "M(name \<mapsto> x)" and X' = "insert x X", OF v ri(1,5) h(3) x c] by (simp_all add: subset_insertI)
    show "?Q slot s'"
      by (intro exI [of _ ri'] exI [of _ j] conjI vd h(1,2,4-6)) (use h(7) ri(1) in auto)
  next
    fix e s'
    assume "(\<exists>ri'. dir_step dinv sec nsec N 1 p s M ri' s') \<and>
        (e = EEXIST \<and> M name \<noteq> None \<or> e = ENAMETOOLONG \<and> 60 \<le> length name \<or> e \<in> {ENOSPC, EIO, EFAULT})"
    then show "?E e s'" using vol_dir_same [OF v ri(1,5)] by blast
  qed
qed

lemma vol_dir_unlink_wp:
  assumes v: "vol dinv sec nsec M N X s" and p: "vref s p = Some (rc, oc, ops, 1)" and ri: "N 1 = Some ri"
    and j: "j < sfi_size ri div 64" "used (dents (sec (sfs_device s)) ri ! j)" "dname (dents (sec (sfs_device s)) ri ! j) = name"
    and x: "M name = Some x"
  shows "wpK (sfs_dir_unlink dv p (int j))
     (\<lambda>_ s'. \<exists>ri'. vol dinv sec nsec (M(name := None)) (N(1 \<mapsto> ri')) (insert x X) s' \<and> kept sec N p s s')
     (\<lambda>e s'. e \<in> {ENOSPC, EIO, EFAULT} \<and>
        (\<exists>ri'. vol dinv sec nsec M (N(1 \<mapsto> ri')) X s' \<and> kept sec N p s s' \<and>
           dents (sec (sfs_device s')) ri' = dents (sec (sfs_device s)) ri)) s" (is "wpK _ ?Q ?E s")
proof -
  obtain ri2 where "N 1 = Some ri2" "fs_at dinv sec nsec N 1 p ri2 s" "dir_ok (sec (sfs_device s)) ri2"
    "dir_map (dents (sec (sfs_device s)) ri2) = M" "sfi_type ri2 = SFS_TYPE_DIR" using v p by (rule vol_root)
  then have r: "fs_at dinv sec nsec N 1 p ri s" "dir_ok (sec (sfs_device s)) ri"
    "dir_map (dents (sec (sfs_device s)) ri) = M" "sfi_type ri = SFS_TYPE_DIR" using ri by auto
  have xx: "x \<noteq> 1" "x \<in> dom N" using volD(2) [OF v x] by auto
  have c: "(M(name := None)) nm \<noteq> M nm \<Longrightarrow> M nm \<in> {None, Some x} \<and> (M(name := None)) nm \<in> {None, Some x}" for nm
    using x by (auto split: if_splits)
  show ?thesis
  proof (rule wp_mono [OF dir_unlink_wp [OF r(1,2) j(1,2), unfolded j(3) r(3)]])
    fix u s' assume "\<exists>ri'. dir_step dinv sec nsec N 1 p s (M(name := None)) ri' s'"
    then obtain ri' where d: "dir_step dinv sec nsec N 1 p s (M(name := None)) ri' s'" ..
    show "?Q u s'" using vol_dir_step [where M' = "M(name := None)" and X' = "insert x X", OF v ri r(4) d xx c] by (intro exI [of _ ri']) (simp add: subset_insertI)
  next
    fix e s' assume "e \<in> {ENOSPC, EIO, EFAULT} \<and> (\<exists>ri'. dir_step dinv sec nsec N 1 p s M ri' s' \<and>
        dents (sec (sfs_device s')) ri' = dents (sec (sfs_device s)) ri)"
    then show "?E e s'" using vol_dir_same [OF v ri r(4)] by blast
  qed
qed

end

end
