(* ===== verification/SFS_Ops.thy ===== *)
theory SFS_Ops
  imports SFS_Names
begin

text \<open>
  The operations on names, \<^verbatim>\<open>sfs_lookup\<close>, \<^verbatim>\<open>sfs_link\<close>, \<^verbatim>\<open>sfs_creat\<close>, \<^verbatim>\<open>sfs_remove\<close> and \<^verbatim>\<open>sfs_rename\<close>, on a volume with the
  names \<open>M\<close> and the inodes \<open>N\<close>. The properties also say how the reference counts change.

  Giving up the last reference of a vnode panics (\<^verbatim>\<open>sfs_reclaim\<close> destroys a lock), so the operations that do this on some
  path are specified with \<open>wpP\<close>, which names the cases in which they may panic.
\<close>

section \<open>The last reference\<close>

text \<open>Routines that return no error and leave the allocator alone.\<close>

definition tame :: "('d sfs_fs, 'a) kern \<Rightarrow> bool" where
  "tame m \<longleftrightarrow> (\<forall>s r s'. m s = Some (r, s') \<longrightarrow> (\<exists>a. r = Inr a) \<and> sfs_km s' = sfs_km s)"

lemma tame_bind: "tame m \<Longrightarrow> (\<And>a. tame (f a)) \<Longrightarrow> tame (bindK m f)"
  unfolding tame_def bindK_def by (auto split: option.splits sum.splits prod.splits)

lemma tame_if: "tame m \<Longrightarrow> tame n \<Longrightarrow> tame (if b then m else n)"
  by simp

lemma tame_basic: "tame (retK a)" "tame panicK" "tame (getK g)" "tame (svget p f)" "tame (svmod p h)"
  by (auto simp: tame_def retK_def panicK_def getK_def svget_def svmod_def split: option.splits)

lemma tame_bfree: "tame (sfs_bfree b)"
  by (auto simp: tame_def sfs_bfree_def on_freemap_def kern_defs bitmap_unmark_def Let_def split: prod.splits if_splits option.splits sum.splits)

lemma tame_vnodes: "tame (on_vnodes (array_getguy i))" "tame (on_vnodes (array_remove i))"
  by (auto simp: tame_def on_vnodes_def zoomK_def array_getguy_def array_remove_def Let_def split: option.splits if_splits)

lemma tame_index: "tame (sfs_reclaim_index sv i k)"
proof (induction k arbitrary: i)
  case (Suc k)
  then show ?case
    unfolding sfs_reclaim_index.simps by (intro tame_bind tame_if tame_vnodes tame_basic)
qed (simp add: tame_basic)

lemma tame_wpP: "tame m \<Longrightarrow> (\<And>a s'. sfs_km s' = sfs_km s \<Longrightarrow> Q a s') \<Longrightarrow> wpP True m Q E s"
  unfolding tame_def wpP_def by (auto split: option.splits sum.splits prod.splits)

lemma kill_panics:
  assumes "km_pages (sfs_km s) 0 = None"
  shows "vnode_kill p s = None"
  using assms by (auto simp: vnode_kill_def kern_defs svget_def on_km_def lock_destroy_def kfree_def split: option.splits)

lemma reclaim_tail:
  fixes s :: "'d sfs_fs"
  assumes "km_pages (sfs_km s) 0 = None"
  shows "wpP True (bindK (bindK (svget q id) (\<lambda>v.
     bindK (if sfi_linkcount (sv_i v) = 0 then sfs_bfree (sv_ino v) else retK ()) (\<lambda>_.
     bindK (getK (\<lambda>s. array_getnum (sfs_vnodes s))) (\<lambda>num.
     bindK (sfs_reclaim_index q 0 (nat num)) (\<lambda>ix.
       if ix < 0 then panicK else on_vnodes (array_remove ix)))))) (\<lambda>_. bindK (vnode_kill q) f)) Q E s"
proof (rule wpP_bindP, rule tame_wpP)
  show "tame (bindK (svget q id) (\<lambda>v.
     bindK (if sfi_linkcount (sv_i v) = 0 then sfs_bfree (sv_ino v) else retK ()) (\<lambda>_.
     bindK (getK (\<lambda>s. array_getnum (sfs_vnodes s))) (\<lambda>num.
     bindK (sfs_reclaim_index q 0 (nat num)) (\<lambda>ix.
       if ix < 0 then panicK else on_vnodes (array_remove ix))))))"
    by (intro tame_bind tame_if tame_bfree tame_basic tame_index tame_vnodes)
  fix a and s' :: "'d sfs_fs" assume "sfs_km s' = sfs_km s"
  then have "vnode_kill q s' = None" using assms by (intro kill_panics) simp
  then show "wpP True (bindK (vnode_kill q) f) Q E s'" by (simp add: wpP_def bindK_def)
qed

lemma bindK_assoc: "bindK (bindK m f) g = bindK m (\<lambda>a. bindK (f a) g)"
  by (rule ext) (auto simp: bindK_def split: option.splits sum.splits prod.splits)

lemma bind_svget: "sfs_heap s p = Some w \<Longrightarrow> bindK (svget p f) g s = g (f w) s"
  by (simp add: bindK_def svget_def)

lemma bind_ret: "bindK (retK a) g = g a"
  by (rule ext) (simp add: bindK_def retK_def)

context sfs_disk begin

lemma sync_inode_noerr:
  assumes st: "settled dinv sec nsec N s" and q: "sfs_heap s q = Some w"
  shows "wpK (sfs_sync_inode dv q) (\<lambda>_ s'. sfs_km s' = sfs_km s) (\<lambda>_ _. False) s"
proof -
  have ok: "fs_ok nsec (sec (sfs_device s)) N s" and dn: "dinv (sfs_device s)" using st by (auto simp: settled_def)
  note io = fs_okD(3) [OF ok heap_okD(1) [OF fs_okD(2) [OF ok] q]]
  have ns: "sv_ino w < nsec" using inode_ok_self(2) [OF io] fs_okD(1) [OF ok] by (simp add: map_ok_def)
  have "wpK (sfs_wblock dv (enc_inode (sv_i w)) (sv_ino w))
      (\<lambda>_. wpK (svmod q (\<lambda>v. v\<lparr>sv_dirty := False\<rparr>)) (\<lambda>_ s'. sfs_km s' = sfs_km s) (\<lambda>_ _. False)) (\<lambda>_ _. False) s"
    by (rule wp_mono [OF wblock_wp [OF dn ns]]) (use inode_okD(1) [OF io] q in \<open>auto simp: wp dev_step_def\<close>)
  then show ?thesis using q by (simp add: sfs_sync_inode_def wp)
qed

lemma vol_meta_step:
  assumes v: "vol dinv sec nsec M N X s" and f: "file_step dinv sec nsec N x q s i' s'" and N: "N x = Some i" "x \<noteq> 1"
    and m: "sfi_type i' = sfi_type i" "sfi_linkcount i' = sfi_linkcount i"
  shows "vol dinv sec nsec M (N(x \<mapsto> i')) X s'" "vref s' = vref s" "km_pages (sfs_km s') = km_pages (sfs_km s)"
proof -
  note st = settled_step [OF volD(1) [OF v] f N(1) m(1)]
  obtain ri where r: "N 1 = Some ri" "dir_ok (sec (sfs_device s)) ri" "dir_map (dents (sec (sfs_device s)) ri) = M" using v by (rule volE)
  have ok: "fs_ok nsec (sec (sfs_device s)) N s" using volD(1) [OF v] by (simp add: settled_def)
  have fb: "fblk (sec (sfs_device s')) ri k = fblk (sec (sfs_device s)) ri k" for k
    using file_frame_fblk [where sc = sec and s = s and n = x and p = q and s' = s' and m = 1, OF _ _ r(1) ok] f N(2)
    by (simp add: file_step_def)
  have "dents (sec (sfs_device s')) ri = dents (sec (sfs_device s)) ri"
  proof -
    have "fbyte (sec (sfs_device s')) ri = fbyte (sec (sfs_device s)) ri" by (rule ext) (simp add: fbyte_def fb)
    then show ?thesis by (simp add: dents_def dent_def fbytes_def)
  qed
  then show "vol dinv sec nsec M (N(x \<mapsto> i')) X s'"
    unfolding vol_def using st(1) r N m volD(2,3,4) [OF v] by (intro conjI exI [of _ ri]) (auto simp: dir_ok_def)
  show "vref s' = vref s" "km_pages (sfs_km s') = km_pages (sfs_km s)" by (fact st)+
qed

lemma decref_last_wp:
  assumes v: "vol dinv sec nsec M N X s" and q: "vref s q = Some (1, oc, ops, x)" and x: "x \<noteq> 1" and km: "km_pages (sfs_km s) 0 = None"
  shows "wpP True (vnode_decref dv q) (\<lambda>_ s'. \<exists>N'. vol dinv sec nsec M N' X s' \<and> vref s' = vref s \<and> N' 1 = N 1) (\<lambda>_ _. False) s"
proof -
  obtain w where w: "sfs_heap s q = Some w" "vn_refcount w = 1" "sv_ino w = x" using q by (rule vrefE)
  have st: "settled dinv sec nsec N s" using volD(1) [OF v] .
  have ok: "fs_ok nsec (sec (sfs_device s)) N s" and vt: "vt_ok s" using st by (auto simp: settled_def)
  define i where "i = sv_i w"
  have N: "N x = Some i" using heap_okD(1) [OF fs_okD(2) [OF ok] w(1)] w(3) by (simp add: i_def)
  have vo: "vnode_ok w" using vt_okD(2) [OF vt w(1)] .
  have ops: "vn_ops w = SFS_FILEOPS" using vo volD(3) [OF v N x] by (simp add: vnode_ok_def ops_of_def i_def sfs_consts)
  let ?tail = "\<lambda>_. bindK (bindK (svget q id) (\<lambda>v.
     bindK (if sfi_linkcount (sv_i v) = 0 then sfs_bfree (sv_ino v) else retK ()) (\<lambda>_.
     bindK (getK (\<lambda>s. array_getnum (sfs_vnodes s))) (\<lambda>num.
     bindK (sfs_reclaim_index q 0 (nat num)) (\<lambda>ix.
       if ix < 0 then panicK else on_vnodes (array_remove ix)))))) (\<lambda>_.
       bindK (vnode_kill q) (\<lambda>_. modK (\<lambda>s. s\<lparr>sfs_heap := (sfs_heap s)(q := None)\<rparr>)))"
  let ?Q = "\<lambda>r s'. r = Inl EIO \<and> (\<exists>N'. vol dinv sec nsec M N' X s' \<and> vref s' = vref s \<and> N' 1 = N 1)"
  have tail: "wpP True (bindK (sfs_sync_inode dv q) ?tail) (\<lambda>a. ?Q (Inr a)) (\<lambda>e. ?Q (Inl e)) s1"
    if "settled dinv sec nsec N1 s1" "sfs_heap s1 q = Some w1" "km_pages (sfs_km s1) 0 = None" for s1 w1 N1
    by (rule wpP_bind, rule wp_mono [OF sync_inode_noerr [OF that(1,2)]], rule reclaim_tail) (use that(3) in simp_all)
  have tr: "wpP True (bindK (VOP_TRUNCATE dv q 0) (\<lambda>_. bindK (sfs_sync_inode dv q) ?tail)) (\<lambda>a. ?Q (Inr a)) (\<lambda>e. ?Q (Inl e)) s"
  proof (rule wpP_bind)
    have b: "trunc_blocklen 0 = 0" using trunc_blocklen_nat [of 0] by simp
    have at: "fs_at dinv sec nsec N x q i s" using vol_at(1) [OF v w(1,3) N] .
    have "wpK (sfs_truncate dv q 0) (\<lambda>_. wpP True (bindK (sfs_sync_inode dv q) ?tail) (\<lambda>a. ?Q (Inr a)) (\<lambda>e. ?Q (Inl e))) (\<lambda>e. ?Q (Inl e)) s"
    proof (rule wp_mono [OF truncate_wp [OF at b, of 0]])
      fix u s1 assume "\<exists>i'. file_step dinv sec nsec N x q s i' s1 \<and> sfi_size i' = 0 \<and> sfi_type i' = sfi_type i \<and>
         sfi_linkcount i' = sfi_linkcount i \<and> (\<forall>k<143. fblk (sec (sfs_device s1)) i' k =
           (if if k < 15 then 0 \<le> k else 0 < k then replicate 512 0 else fblk (sec (sfs_device s)) i k))"
      then obtain i' where f: "file_step dinv sec nsec N x q s i' s1" "sfi_type i' = sfi_type i" "sfi_linkcount i' = sfi_linkcount i" by blast
      note vm = vol_meta_step [OF v f(1) N x f(2,3)]
      obtain w1 where "sfs_heap s1 q = Some w1" using vm(2) q by (metis vrefE)
      then show "wpP True (bindK (sfs_sync_inode dv q) ?tail) (\<lambda>a. ?Q (Inr a)) (\<lambda>e. ?Q (Inl e)) s1"
        using tail [OF volD(1) [OF vm(1)]] vm(3) km by simp
    next
      fix e s1 assume "e = EIO \<and> (\<exists>i'. file_step dinv sec nsec N x q s i' s1 \<and> same_meta i i' \<and>
        (\<forall>k<143. fblk (sec (sfs_device s1)) i' k = (if k < 15 \<and> 0 \<le> k then replicate 512 0 else fblk (sec (sfs_device s)) i k)))"
      then obtain i' where f: "file_step dinv sec nsec N x q s i' s1" "sfi_type i' = sfi_type i" "sfi_linkcount i' = sfi_linkcount i" "e = EIO"
        by (auto simp: same_meta_def)
      note vm = vol_meta_step [OF v f(1) N x f(2,3)]
      show "?Q (Inl e) s1" using vm f(4) x by (intro conjI exI [of _ "N(x \<mapsto> i')"]) auto
    qed (simp add: i2u32_def)
    then show "wpK (VOP_TRUNCATE dv q 0) (\<lambda>_. wpP True (bindK (sfs_sync_inode dv q) ?tail) (\<lambda>a. ?Q (Inr a)) (\<lambda>e. ?Q (Inl e))) (\<lambda>e. ?Q (Inl e)) s"
      using w vo ops by (simp add: VOP_TRUNCATE_def vnode_check_def wp vnode_ok_def)
  qed
  have "VOP_RECLAIM dv q s = (if sfi_linkcount i = 0
      then bindK (VOP_TRUNCATE dv q 0) (\<lambda>_. bindK (sfs_sync_inode dv q) ?tail) s else bindK (sfs_sync_inode dv q) ?tail s)"
    using w vo by (simp add: VOP_RECLAIM_def vnode_check_def sfs_reclaim_def sfs_reclaim_detach_def bind_svget bindK_assoc bind_ret
        vnode_ok_def i_def)
  then have "wpP True (VOP_RECLAIM dv q) (\<lambda>a. ?Q (Inr a)) (\<lambda>e. ?Q (Inl e)) s"
    using tr tail [OF st w(1) km] by (cases "sfi_linkcount i = 0") (simp_all add: wpP_def)
  then have "wpP True (bindK (tryK (VOP_RECLAIM dv q)) (\<lambda>_. retK ()))
      (\<lambda>_ s'. \<exists>N'. vol dinv sec nsec M N' X s' \<and> vref s' = vref s \<and> N' 1 = N 1) (\<lambda>_ _. False) s"
    by (intro wpP_bindP wpP_try) (erule wpP_mono, auto simp: wpP_def retK_def)
  moreover have "vnode_decref dv q s = bindK (tryK (VOP_RECLAIM dv q)) (\<lambda>_. retK ()) s"
    using w by (simp add: vnode_decref_def bind_svget) (simp add: bindK_def assertK_def)
  ultimately show ?thesis by (simp add: wpP_def)
qed

end

section \<open>Looking up, linking, removing\<close>

definition in_core :: "'d sfs_fs \<Rightarrow> nat \<Rightarrow> bool" where
  "in_core s x \<longleftrightarrow> (\<exists>q rc oc ops. vref s q = Some (rc, oc, ops, x))"

lemma in_core_place:
  assumes "place (vref s) x q" "in_core s x"
  obtains rc oc ops where "vref s q = Some (rc, oc, ops, x)"
proof (cases "vref s q")
  case None
  then show ?thesis using assms unfolding place_def in_core_def by fastforce
next
  case (Some y)
  then show ?thesis using assms(1) that by (cases y) (auto simp: place_def)
qed

lemma vref_count: "vol din sc ns M N X s \<Longrightarrow> vref s q = Some (rc, oc, ops, x) \<Longrightarrow> 1 \<le> rc"
  using volD(1) [of din sc ns M N X s] vt_okD(2) [of s q] by (auto simp: settled_def vnode_ok_def elim!: vrefE)

lemma data_kept_trans: "data_kept sc N s s1 \<Longrightarrow> data_kept sc N s1 s2 \<Longrightarrow> data_kept sc N s s2"
  by (simp add: data_kept_def)

lemma data_kept_dev: "sc (sfs_device s') = sc (sfs_device s) \<Longrightarrow> data_kept sc N s s'"
  by (simp add: data_kept_def)

lemma grab_other: "p \<noteq> q \<Longrightarrow> grab R x q p = R p"
  by (simp add: grab_def)

lemma grab_at: "R q = Some (rc, y) \<Longrightarrow> grab R x q q = Some (rc + 1, y)"
  by (simp add: grab_def)

context sfs_disk begin

lemma link_wp:
  assumes v: "vol dinv sec nsec M N {} s" and p: "vref s p = Some (rc, oc, ops, 1)" and room: "dir_room N" and name: "0 \<notin> set name"
    and f: "vref s q = Some (rq, oq, opq, x)" and x: "x \<noteq> 1" "N x = Some i"
  shows "wpK (sfs_link dv p name q)
     (\<lambda>_ s'. \<exists>ri'. M name = None \<and>
        vol dinv sec nsec (M(name \<mapsto> x)) (N(1 \<mapsto> ri', x \<mapsto> i\<lparr>sfi_linkcount := links M x + 1\<rparr>)) {} s' \<and>
        vref s' = vref s \<and> data_kept sec N s s')
     (\<lambda>e s'. (e = EEXIST \<and> M name \<noteq> None \<or> e = ENAMETOOLONG \<and> 60 \<le> length name \<or> e \<in> {ENOSPC, EIO, EFAULT}) \<and>
        (\<exists>ri'. vol dinv sec nsec M (N(1 \<mapsto> ri')) {} s' \<and> vref s' = vref s \<and> data_kept sec N s s')) s" (is "wpK _ ?Q ?E s")
proof -
  obtain w where w: "sfs_heap s q = Some w" "sv_ino w = x" using f by (rule vrefE)
  have dm: "x \<in> dom N" using x(2) by auto
  have "wpK (sfs_dir_link dv p name x) (\<lambda>_. wpK (sv_link (\<lambda>lc. u16 (lc + 1)) q) ?Q ?E) ?E s"
  proof (rule wp_mono [OF vol_dir_link_wp [OF v p room name x(1) dm]])
    fix slot s1
    assume "\<exists>ri' j. slot = int j \<and> M name = None \<and> vol dinv sec nsec (M(name \<mapsto> x)) (N(1 \<mapsto> ri')) {x} s1 \<and> kept sec N p s s1 \<and>
        j < sfi_size ri' div 64 \<and> used (dents (sec (sfs_device s1)) ri' ! j) \<and> dname (dents (sec (sfs_device s1)) ri' ! j) = name \<and>
        (\<forall>ri l. N 1 = Some ri \<and> l < sfi_size ri div 64 \<and> used (dents (sec (sfs_device s)) ri ! l) \<longrightarrow>
           l < sfi_size ri' div 64 \<and> dents (sec (sfs_device s1)) ri' ! l = dents (sec (sfs_device s)) ri ! l)"
    then obtain ri' where h: "M name = None" "vol dinv sec nsec (M(name \<mapsto> x)) (N(1 \<mapsto> ri')) {x} s1" "kept sec N p s s1" by blast
    obtain w1 where w1: "sfs_heap s1 q = Some w1" "sv_ino w1 = x" using h(3) f by (metis kept_def vrefE)
    have Nx: "(N(1 \<mapsto> ri')) x = Some i" using x by simp
    note la = links_add(1) [OF vol_finite(1) [OF v] h(1), of x]
    have c: "u16 (sfi_linkcount i + 1) = links (M(name \<mapsto> x)) x"
      using la volD(4) [OF v x(2,1)] vol_finite(2) [OF v, of x] by simp
    show "wpK (sv_link (\<lambda>lc. u16 (lc + 1)) q) ?Q ?E s1"
      by (rule wp_mono [OF vol_sv_link [where f = "\<lambda>lc. u16 (lc + 1)" and N = "N(1 \<mapsto> ri')", OF h(2) w1 x(1) Nx c]])
        (use h la in \<open>auto simp: kept_def data_kept_def\<close>)
  next
    fix e s'
    assume "(e = EEXIST \<and> M name \<noteq> None \<or> e = ENAMETOOLONG \<and> 60 \<le> length name \<or> e \<in> {ENOSPC, EIO, EFAULT}) \<and>
        (\<exists>ri'. vol dinv sec nsec M (N(1 \<mapsto> ri')) {} s' \<and> kept sec N p s s')"
    then show "?E e s'" unfolding kept_def by blast
  qed
  then show ?thesis using w by (simp add: sfs_link_def wp)
qed

lemma lookup_wp:
  assumes v: "vol dinv sec nsec M N {} s" and p: "vref s p = Some (rc, oc, ops, 1)" and room: "vroom s" and rcs: "rc_ok s"
  shows "wpK (sfs_lookup dv p path)
     (\<lambda>q s'. \<exists>ino. M path = Some ino \<and> vol dinv sec nsec M N {} s' \<and> vref s' = grab (vref s) ino q \<and> place (vref s) ino q \<and>
        sec (sfs_device s') = sec (sfs_device s))
     (\<lambda>e s'. (M path = None \<and> e = ENOENT \<or> e \<in> {EIO, EFAULT, ENOMEM}) \<and> vol dinv sec nsec M N {} s' \<and>
        vref s' = vref s \<and> sec (sfs_device s') = sec (sfs_device s)) s" (is "wpK _ ?Q ?E s")
proof -
  obtain w where w: "sfs_heap s p = Some w" "sv_ino w = 1" using p by (rule vrefE)
  obtain ri where ri: "N 1 = Some ri" "sfi_type ri = SFS_TYPE_DIR" using v p by (rule vol_root)
  have ty: "sfi_type (sv_i w) = SFS_TYPE_DIR" using vol_at(2) [OF v w ri(1)] ri(2) by simp
  have "wpK (sfs_lookonce dv p path) (\<lambda>(q, slot). ?Q q) ?E s"
    by (rule wp_mono [OF lookonce_wp [OF v w ri(1) room rcs]]) auto
  then show ?thesis using w(1) ty by (simp add: sfs_lookup_def wp case_prod_unfold)
qed

lemma remove_wp:
  assumes v: "vol dinv sec nsec M N {} s" and p: "vref s p = Some (rc, oc, ops, 1)" and room: "vroom s" and rcs: "rc_ok s"
    and core: "\<And>x. M name = Some x \<Longrightarrow> in_core s x"
  shows "wpK (sfs_remove dv p name)
     (\<lambda>_ s'. \<exists>x i ri'. M name = Some x \<and> N x = Some i \<and>
        vol dinv sec nsec (M(name := None)) (N(1 \<mapsto> ri', x \<mapsto> i\<lparr>sfi_linkcount := links M x - 1\<rparr>)) {} s' \<and>
        vref s' = vref s \<and> data_kept sec N s s')
     (\<lambda>e s'. (M name = None \<and> e = ENOENT \<or> e \<in> {ENOSPC, EIO, EFAULT, ENOMEM}) \<and>
        (\<exists>ri'. vol dinv sec nsec M (N(1 \<mapsto> ri')) {} s' \<and> vref s' = vref s \<and> data_kept sec N s s')) s" (is "wpK _ ?Q ?E s")
proof -
  obtain w where w: "sfs_heap s p = Some w" "sv_ino w = 1" using p by (rule vrefE)
  obtain ri where ri: "N 1 = Some ri" "sfi_type ri = SFS_TYPE_DIR" using v p by (rule vol_root)
  have N1: "N(1 \<mapsto> ri) = N" using ri(1) by auto
  show ?thesis
    unfolding sfs_remove_def wp_bind [of "sfs_lookonce dv p name"]
  proof (rule wp_mono [OF lookonce_wp [OF v w ri(1) room rcs]])
    fix a s1
    assume a: "(case a of (q, slot) \<Rightarrow> \<lambda>s'. \<exists>ino j. M name = Some ino \<and> slot = int j \<and> j < sfi_size ri div 64 \<and>
        used (dents (sec (sfs_device s)) ri ! j) \<and> dname (dents (sec (sfs_device s)) ri ! j) = name \<and>
        vol dinv sec nsec M N {} s' \<and> vref s' = grab (vref s) ino q \<and> place (vref s) ino q \<and>
        sec (sfs_device s') = sec (sfs_device s)) s1"
    obtain q x j where aq: "a = (q, int j)" and Mx: "M name = Some x" and j: "j < sfi_size ri div 64" "used (dents (sec (sfs_device s)) ri ! j)"
        "dname (dents (sec (sfs_device s)) ri ! j) = name"
      and v1: "vol dinv sec nsec M N {} s1" "vref s1 = grab (vref s) x q" "place (vref s) x q" "sec (sfs_device s1) = sec (sfs_device s)"
      using a by (cases a) auto
    obtain rq oq opq where q: "vref s q = Some (rq, oq, opq, x)" using v1(3) core [OF Mx] by (rule in_core_place)
    have rq: "1 \<le> rq" using vref_count [OF v q] .
    have x: "x \<noteq> 1" using volD(2) [OF v Mx] by simp
    obtain i where i: "N x = Some i" using volD(2) [OF v Mx] by auto
    have pq: "p \<noteq> q" using p q x by auto
    have p1: "vref s1 p = Some (rc, oc, ops, 1)" using p v1(2) grab_other [of p q, OF pq] by simp
    have q1: "vref s1 q = Some (rq + 1, oq, opq, x)" using v1(2) grab_at [of "vref s" q, OF q] by simp
    have bk: "(vref s1)(q \<mapsto> (rq, oq, opq, x)) = vref s" using v1(2) q by (auto simp: grab_def)
    let ?rest = "\<lambda>result. bindK (case result of Inl _ \<Rightarrow> retK ()
        | Inr _ \<Rightarrow> bindK (svget q (\<lambda>v. sfi_linkcount (sv_i v))) (\<lambda>lc. bindK (assertK (lc > 0)) (\<lambda>_. sv_link (\<lambda>lc. lc - 1) q))) (\<lambda>_.
      bindK (vnode_decref dv q) (\<lambda>_. resultK result))"
    have "wpK (sfs_dir_unlink dv p (int j)) (\<lambda>u. wpK (?rest (Inr u)) ?Q ?E) (\<lambda>e. wpK (?rest (Inl e)) ?Q ?E) s1"
    proof (rule wp_mono [OF vol_dir_unlink_wp [where name = name, OF v1(1) p1 ri(1) j(1) _ _ Mx]])
      fix u s2
      assume "\<exists>ri'. vol dinv sec nsec (M(name := None)) (N(1 \<mapsto> ri')) {x} s2 \<and> kept sec N p s1 s2"
      then obtain ri' where v2: "vol dinv sec nsec (M(name := None)) (N(1 \<mapsto> ri')) {x} s2" and k: "kept sec N p s1 s2" by blast
      have q2: "vref s2 q = Some (rq + 1, oq, opq, x)" using q1 k by (simp add: kept_def)
      obtain w2 where w2: "sfs_heap s2 q = Some w2" "sv_ino w2 = x" using q2 by (rule vrefE)
      have Nx: "(N(1 \<mapsto> ri')) x = Some i" using x i by simp
      note ld = links_del(1) [OF vol_finite(1) [OF v] Mx]
      have lc: "sfi_linkcount i = links M x" using volD(4) [OF v i x] by simp
      have c: "sfi_linkcount i - 1 = links (M(name := None)) x" using lc ld by simp
      have i2: "sv_i w2 = i" using vol_at(2) [OF v2 w2 Nx] .
      have "wpK (sv_link (\<lambda>lc. lc - 1) q) (\<lambda>_. wpK (bindK (vnode_decref dv q) (\<lambda>_. resultK (Inr u))) ?Q ?E) ?E s2"
      proof (rule wp_mono [OF vol_sv_link [where f = "\<lambda>lc. lc - 1" and N = "N(1 \<mapsto> ri')", OF v2 w2 x Nx c]])
        fix t s3
        let ?N = "N(1 \<mapsto> ri', x \<mapsto> i\<lparr>sfi_linkcount := links (M(name := None)) x\<rparr>)"
        assume "vol dinv sec nsec (M(name := None)) ?N ({x} - {x}) s3 \<and> vref s3 = vref s2 \<and> sfs_device s3 = sfs_device s2 \<and>
          km_pages (sfs_km s3) = km_pages (sfs_km s2) \<and>
          sfs_heap s3 = (sfs_heap s2)(q \<mapsto> w2\<lparr>sv_i := i\<lparr>sfi_linkcount := links (M(name := None)) x\<rparr>, sv_dirty := True\<rparr>)"
        then have v3: "vol dinv sec nsec (M(name := None)) ?N {} s3" "vref s3 = vref s2" "sfs_device s3 = sfs_device s2" by auto
        have q3: "vref s3 q = Some (rq + 1, oq, opq, x)" using q2 v3(2) by simp
        obtain w3 where w3: "sfs_heap s3 q = Some w3" "vn_refcount w3 = rq + 1" "vn_opencount w3 = oq" "vn_ops w3 = opq" "sv_ino w3 = x"
          using q3 by (rule vrefE)
        have "data_kept sec N s s3"
          using k v1(4) v3(3) by (simp add: kept_def data_kept_def)
        moreover have "links (M(name := None)) x = links M x - 1" using ld by simp
        ultimately show "wpK (bindK (vnode_decref dv q) (\<lambda>_. resultK (Inr u))) ?Q ?E s3"
          unfolding wp_bind wp_result_Inr
          by (intro wp_mono [OF decref_wp [where dv = dv and E = "\<lambda>_ _. False", OF v3(1) w3(1)]])
            (use rq w3 Mx i v3 k bk in \<open>auto simp: kept_def data_kept_def\<close>)
      qed simp
      then show "wpK (?rest (Inr u)) ?Q ?E s2"
        using w2 i2 lc ld by (simp add: wp)
    next
      fix e s2
      assume "e \<in> {ENOSPC, EIO, EFAULT} \<and> (\<exists>ri'. vol dinv sec nsec M (N(1 \<mapsto> ri')) {} s2 \<and> kept sec N p s1 s2 \<and>
           dents (sec (sfs_device s2)) ri' = dents (sec (sfs_device s1)) ri)"
      then obtain ri' where e: "e \<in> {ENOSPC, EIO, EFAULT}" and v2: "vol dinv sec nsec M (N(1 \<mapsto> ri')) {} s2" and k: "kept sec N p s1 s2" by blast
      have q2: "vref s2 q = Some (rq + 1, oq, opq, x)" using q1 k by (simp add: kept_def)
      obtain w2 where w2: "sfs_heap s2 q = Some w2" "vn_refcount w2 = rq + 1" "vn_opencount w2 = oq" "vn_ops w2 = opq" "sv_ino w2 = x"
        using q2 by (rule vrefE)
      show "wpK (?rest (Inl e)) ?Q ?E s2"
        unfolding sum.case wp_bind wp_ret wp_result_Inl
        by (rule wp_mono [OF decref_wp [where dv = dv and E = "\<lambda>_ _. False", OF v2 w2(1)]])
          (use rq w2 e v2 k bk v1(4) in \<open>auto simp: kept_def data_kept_def\<close>)
    qed (use j v1(4) in auto)
    then show "wpK (case a of (victim, slot) \<Rightarrow> bindK (tryK (sfs_dir_unlink dv p slot)) (\<lambda>result.
       bindK (case result of Inl _ \<Rightarrow> retK ()
        | Inr _ \<Rightarrow> bindK (svget victim (\<lambda>v. sfi_linkcount (sv_i v))) (\<lambda>lc.
            bindK (assertK (lc > 0)) (\<lambda>_. sv_link (\<lambda>lc. lc - 1) victim))) (\<lambda>_.
       bindK (vnode_decref dv victim) (\<lambda>_. resultK result)))) ?Q ?E s1"
      unfolding aq case_prod_conv wp_bind [of "tryK _"] wp_try .
  next
    fix e s'
    assume "(M name = None \<and> e = ENOENT \<or> e \<in> {EIO, EFAULT, ENOMEM}) \<and> vol dinv sec nsec M N {} s' \<and>
        vref s' = vref s \<and> sec (sfs_device s') = sec (sfs_device s)"
    then show "?E e s'" using N1 by (auto simp: data_kept_def intro!: exI [of _ ri])
  qed
qed

end

section \<open>Creating\<close>

text \<open>A block that belongs to nobody does not matter.\<close>

lemma fblk_fresh:
  assumes ok: "fs_ok ns dk N s" and N: "N n = Some i" and b: "b \<notin> bits (sfs_freemap s)" "\<forall>c. c \<noteq> b \<longrightarrow> dk' c = dk c"
  shows "fblk dk' i k = fblk dk i k" "dents dk' i = dents dk i"
proof -
  have fb: "fblk dk' i k = fblk dk i k" for k
  proof (rule fblk_cong [where n = n])
    show "length (sfi_direct i) = 15" using inode_okD(2) [OF fs_okD(3) [OF ok N]] .
    show "dk' c = dk c" if "c \<in> own dk n i" for c using b(2) fresh_not_owned [OF ok N b(1)] that by auto
  qed
  then show "fblk dk' i k = fblk dk i k" .
  have "fbyte dk' i = fbyte dk i" by (rule ext) (simp add: fbyte_def fb)
  then show "dents dk' i = dents dk i" by (simp add: dents_def dent_def fbytes_def)
qed

lemma data_kept_ext:
  assumes "data_kept sc N s s1" "data_kept sc N' s1 s2" "\<And>n i. N n = Some i \<Longrightarrow> n \<noteq> 1 \<Longrightarrow> N' n = Some i"
  shows "data_kept sc N s s2"
  unfolding data_kept_def
proof (intro allI impI)
  fix n i k assume n: "n \<noteq> 1 \<and> N n = Some i"
  then show "fblk (sc (sfs_device s2)) i k = fblk (sc (sfs_device s)) i k"
    using assms(3) [of n i] assms(1,2) unfolding data_kept_def by metis
qed

lemma vol_made:
  assumes v: "vol din sc ns M N {} s" and m: "made sc s b q s'" and b: "N b = None" "b \<notin> bits (sfs_freemap s)"
    and st: "settled din sc ns (N(b \<mapsto> new_inode)) s'"
  shows "vol din sc ns M (N(b \<mapsto> new_inode)) {} s'" "vref s' = (vref s)(q \<mapsto> (1, 0, SFS_FILEOPS, b))" "vref s q = None"
    "data_kept sc N s s'"
proof -
  obtain ri where r: "N 1 = Some ri" "dir_ok (sc (sfs_device s)) ri" "dir_map (dents (sc (sfs_device s)) ri) = M" using v by (rule volE)
  have b1: "b \<noteq> 1" using r(1) b(1) by auto
  have ok: "fs_ok ns (sc (sfs_device s)) N s" using volD(1) [OF v] by (simp add: settled_def)
  have dk: "\<forall>c. c \<noteq> b \<longrightarrow> sc (sfs_device s') c = sc (sfs_device s) c" using m by (simp add: made_def)
  note ds = fblk_fresh(2) [OF ok r(1) b(2) dk]
  have nt: "sfi_type new_inode = SFS_TYPE_FILE" "sfi_linkcount new_inode = 0" by (simp_all add: new_inode_def)
  show "vol din sc ns M (N(b \<mapsto> new_inode)) {} s'"
    unfolding vol_def using st r b1 ds nt links_fresh [OF v b(1)] volD(2,3,4) [OF v]
    by (intro conjI exI [of _ ri]) (auto simp: dir_ok_def)
  show "vref s' = (vref s)(q \<mapsto> (1, 0, SFS_FILEOPS, b))" "vref s q = None"
    using m by (auto simp: made_def vref_def fresh_vnode_def)
  show "data_kept sc N s s'" unfolding data_kept_def using fblk_fresh(1) [OF ok _ b(2) dk] by blast
qed

lemma vol_leaked:
  assumes v: "vol din sc ns M N {} s" and l: "leaked sc s s'" and st: "settled din sc ns N s'"
  shows "vol din sc ns M N {} s'" "vref s' = vref s" "data_kept sc N s s'"
proof -
  obtain ri where r: "N 1 = Some ri" "dir_ok (sc (sfs_device s)) ri" "dir_map (dents (sc (sfs_device s)) ri) = M" using v by (rule volE)
  have ok: "fs_ok ns (sc (sfs_device s)) N s" using volD(1) [OF v] by (simp add: settled_def)
  obtain b where b: "b \<notin> bits (sfs_freemap s)" "\<forall>c. c \<noteq> b \<longrightarrow> sc (sfs_device s') c = sc (sfs_device s) c"
    using l by (auto simp: leaked_def)
  note ds = fblk_fresh(2) [OF ok r(1) b]
  show "vol din sc ns M N {} s'"
    unfolding vol_def using st r ds volD(2,3,4) [OF v] by (intro conjI exI [of _ ri]) (auto simp: dir_ok_def)
  show "vref s' = vref s" using l by (auto simp: leaked_def vref_def)
  show "data_kept sc N s s'" unfolding data_kept_def using fblk_fresh(1) [OF ok _ b] by blast
qed

text \<open>The run of \<^verbatim>\<open>sfs_creat\<close> from this state gets as far as a failing \<^verbatim>\<open>sfs_dir_link\<close>.\<close>

definition new_fails :: "'d device \<Rightarrow> nat \<Rightarrow> byte list \<Rightarrow> 'd sfs_fs \<Rightarrow> bool" where
  "new_fails dv p name s \<longleftrightarrow> (\<exists>q t v e t'. sfs_makeobj dv SFS_TYPE_FILE s = Some (Inr q, t) \<and> sfs_heap t q = Some v \<and>
     sfs_dir_link dv p name (sv_ino v) t = Some (Inl e, t'))"

definition creat_fails :: "'d device \<Rightarrow> nat \<Rightarrow> byte list \<Rightarrow> 'd sfs_fs \<Rightarrow> bool" where
  "creat_fails dv p name s \<longleftrightarrow> (\<exists>d t. sfs_dir_findname dv p name s = Some (Inr (Some ENOENT, d), t) \<and> new_fails dv p name t)"

context sfs_disk begin

lemma creat_new_wp:
  assumes v: "vol dinv sec nsec M N {} s" and p: "vref s p = Some (rc, oc, ops, 1)" and room: "vroom s" "dir_room N"
    and name: "0 \<notin> set name" and km: "km_pages (sfs_km s) 0 = None" and new: "M name = None"
  shows "wpP (new_fails dv p name s) (bindK (sfs_makeobj dv SFS_TYPE_FILE) (\<lambda>newguy.
       bindK (svget newguy sv_ino) (\<lambda>ino.
       bindK (tryK (sfs_dir_link dv p name ino)) (\<lambda>result.
       case result of
         Inl e \<Rightarrow> bindK (vnode_decref dv newguy) (\<lambda>_. failK e)
       | Inr _ \<Rightarrow> bindK (sv_link (\<lambda>lc. u16 (lc + 1)) newguy) (\<lambda>_. retK newguy)))))
     (\<lambda>q s'. \<exists>b ri'. N b = None \<and> vref s q = None \<and>
        vol dinv sec nsec (M(name \<mapsto> b)) (N(1 \<mapsto> ri', b \<mapsto> new_inode\<lparr>sfi_linkcount := 1\<rparr>)) {} s' \<and>
        vref s' = (vref s)(q \<mapsto> (1, 0, SFS_FILEOPS, b)) \<and> data_kept sec N s s')
     (\<lambda>e s'. e \<in> {ENOSPC, ENOMEM, EIO, EFAULT, ENAMETOOLONG} \<and> (\<exists>N'. vol dinv sec nsec M N' {} s')) s" (is "wpP ?P _ ?Q ?E s")
proof (rule wpP_bind, rule wp_run, rule wp_mono [OF makeobj_wp [OF volD(1) [OF v] room(1)]])
  fix q s1
  assume "\<exists>b. N b = None \<and> b \<noteq> 0 \<and> b < sp_nblocks (sfs_super s) \<and> b \<notin> bits (sfs_freemap s) \<and>
     settled dinv sec nsec (N(b \<mapsto> new_inode)) s1 \<and> made sec s b q s1"
  then obtain b where b: "N b = None" "b \<notin> bits (sfs_freemap s)" "settled dinv sec nsec (N(b \<mapsto> new_inode)) s1" "made sec s b q s1" by blast
  let ?body = "\<lambda>q result. case result of Inl e \<Rightarrow> bindK (vnode_decref dv q) (\<lambda>_. failK e)
       | Inr _ \<Rightarrow> bindK (sv_link (\<lambda>lc. u16 (lc + 1)) q) (\<lambda>_. retK q)"
  show "sfs_makeobj dv SFS_TYPE_FILE s = Some (Inr q, s1) \<longrightarrow>
     wpP ?P (bindK (svget q sv_ino) (\<lambda>ino. bindK (tryK (sfs_dir_link dv p name ino)) (?body q))) ?Q ?E s1"
  proof
    assume mk: "sfs_makeobj dv SFS_TYPE_FILE s = Some (Inr q, s1)"
    note m = vol_made [OF v b(4,1,2,3)]
    let ?N = "N(b \<mapsto> new_inode)"
    obtain ri where ri: "N 1 = Some ri" using v by (rule volE)
    have b1: "b \<noteq> 1" using ri b(1) by auto
    have pq: "p \<noteq> q" using m(3) p by auto
    have p1: "vref s1 p = Some (rc, oc, ops, 1)" using p pq m(2) by simp
    have q1: "vref s1 q = Some (1, 0, SFS_FILEOPS, b)" using m(2) by simp
    have r1: "dir_room ?N" using room(2) b1 by (simp add: dir_room_def)
    have km1: "km_pages (sfs_km s1) 0 = None" using km b(4) by (simp add: made_def)
    obtain w where w: "sfs_heap s1 q = Some w" "sv_ino w = b" using q1 by (rule vrefE)
    have "wpK (sfs_dir_link dv p name b) (\<lambda>sl. wpP ?P (?body q (Inr sl)) ?Q ?E) (\<lambda>e. wpP ?P (?body q (Inl e)) ?Q ?E) s1"
    proof (rule wp_mono [OF wp_record [OF vol_dir_link_wp [OF m(1) p1 r1 name b1]]])
      show "b \<in> dom ?N" by simp
    next
      fix slot s2
      assume "\<exists>ri' j. slot = int j \<and> M name = None \<and> vol dinv sec nsec (M(name \<mapsto> b)) (?N(1 \<mapsto> ri')) {b} s2 \<and> kept sec ?N p s1 s2 \<and>
          j < sfi_size ri' div 64 \<and> used (dents (sec (sfs_device s2)) ri' ! j) \<and> dname (dents (sec (sfs_device s2)) ri' ! j) = name \<and>
          (\<forall>ri l. ?N 1 = Some ri \<and> l < sfi_size ri div 64 \<and> used (dents (sec (sfs_device s1)) ri ! l) \<longrightarrow>
             l < sfi_size ri' div 64 \<and> dents (sec (sfs_device s2)) ri' ! l = dents (sec (sfs_device s1)) ri ! l)"
      then obtain ri' where h: "vol dinv sec nsec (M(name \<mapsto> b)) (?N(1 \<mapsto> ri')) {b} s2" "kept sec ?N p s1 s2" by blast
      have q2: "vref s2 q = Some (1, 0, SFS_FILEOPS, b)" using h(2) q1 by (simp add: kept_def)
      obtain w2 where w2: "sfs_heap s2 q = Some w2" "sv_ino w2 = b" using q2 by (rule vrefE)
      have Nb: "(?N(1 \<mapsto> ri')) b = Some new_inode" using b1 by simp
      have l1: "links (M(name \<mapsto> b)) b = 1" using links_add(1) [OF vol_finite(1) [OF v] new, of b] links_fresh [OF v b(1)] by simp
      have c: "u16 (sfi_linkcount new_inode + 1) = links (M(name \<mapsto> b)) b" using l1 by (simp add: new_inode_def)
      have N': "?N(1 \<mapsto> ri', b \<mapsto> i') = N(1 \<mapsto> ri', b \<mapsto> i')" for i' by auto
      have dk: "data_kept sec N s s2"
        by (rule data_kept_ext [OF m(4), of ?N]) (use h(2) b(1) in \<open>auto simp: kept_def\<close>)
      show "wpP ?P (?body q (Inr slot)) ?Q ?E s2"
        unfolding sum.case
        by (rule wpP_wp, unfold wp_bind wp_ret,
            rule wp_mono [OF vol_sv_link [where f = "\<lambda>lc. u16 (lc + 1)" and N = "?N(1 \<mapsto> ri')", OF h(1) w2 b1 Nb c]])
          (use b(1) m(2,3) h(2) dk in \<open>auto simp: N' l1 kept_def data_kept_def\<close>)
    next
      fix e s2
      assume e: "((e = EEXIST \<and> M name \<noteq> None \<or> e = ENAMETOOLONG \<and> 60 \<le> length name \<or> e \<in> {ENOSPC, EIO, EFAULT}) \<and>
          (\<exists>ri'. vol dinv sec nsec M (?N(1 \<mapsto> ri')) {} s2 \<and> kept sec ?N p s1 s2)) \<and> sfs_dir_link dv p name b s1 = Some (Inl e, s2)"
      then obtain ri' where h: "vol dinv sec nsec M (?N(1 \<mapsto> ri')) {} s2" "kept sec ?N p s1 s2" by blast
      have P: "?P = True" unfolding new_fails_def using mk w e by blast
      have q2: "vref s2 q = Some (1, 0, SFS_FILEOPS, b)" using h(2) q1 by (simp add: kept_def)
      have km2: "km_pages (sfs_km s2) 0 = None" using h(2) km1 by (simp add: kept_def)
      show "wpP ?P (?body q (Inl e)) ?Q ?E s2"
        unfolding sum.case P
        by (rule wpP_bindP, rule wpP_mono [OF decref_last_wp [OF h(1) q2 b1 km2]])
          (use e new in \<open>auto simp: wpP_def failK_def\<close>)
    qed
    then have "wpK (tryK (sfs_dir_link dv p name b)) (\<lambda>r. wpP ?P (?body q r) ?Q ?E) ?E s1" by (simp only: wp_try)
    then have "wpP ?P (bindK (tryK (sfs_dir_link dv p name b)) (?body q)) ?Q ?E s1" by (rule wpP_bind)
    then show "wpP ?P (bindK (svget q sv_ino) (\<lambda>ino. bindK (tryK (sfs_dir_link dv p name ino)) (?body q))) ?Q ?E s1"
      unfolding wpP_def bind_svget [OF w(1)] w(2) .
  qed
next
  fix e s' assume "settled dinv sec nsec N s' \<and> (e = ENOSPC \<and> s' = s \<or> e \<in> {ENOMEM, EIO} \<and> leaked sec s s')"
  then show "?E e s'" using v vol_leaked(1) [OF v, of s'] by auto
qed

text \<open>
  The whole of \<^verbatim>\<open>sfs_creat\<close>: an existing name is opened (or refused, with \<^verbatim>\<open>excl\<close>), a new name gets a file of its own.
  The only way not to return is a failed \<^verbatim>\<open>sfs_dir_link\<close>, since the vnode just made is then reclaimed.
\<close>

lemma creat_wp:
  assumes v: "vol dinv sec nsec M N {} s" and p: "vref s p = Some (rc, oc, ops, 1)" and room: "vroom s" "dir_room N" and rcs: "rc_ok s"
    and name: "0 \<notin> set name" and km: "km_pages (sfs_km s) 0 = None"
  shows "wpP (creat_fails dv p name s) (sfs_creat dv p name excl)
     (\<lambda>q s'. data_kept sec N s s' \<and>
        (case M name of
           Some ino \<Rightarrow> \<not> excl \<and> vol dinv sec nsec M N {} s' \<and> vref s' = grab (vref s) ino q \<and> place (vref s) ino q
         | None \<Rightarrow> \<exists>b ri'. N b = None \<and> vref s q = None \<and>
             vol dinv sec nsec (M(name \<mapsto> b)) (N(1 \<mapsto> ri', b \<mapsto> new_inode\<lparr>sfi_linkcount := 1\<rparr>)) {} s' \<and>
             vref s' = (vref s)(q \<mapsto> (1, 0, SFS_FILEOPS, b))))
     (\<lambda>e s'. (excl \<and> M name \<noteq> None \<and> e = EEXIST \<or> e \<in> {ENOSPC, ENOMEM, EIO, EFAULT, ENAMETOOLONG}) \<and>
        (\<exists>N'. vol dinv sec nsec M N' {} s')) s" (is "wpP ?P _ ?Q ?E s")
proof -
  obtain w where w: "sfs_heap s p = Some w" "sv_ino w = 1" using p by (rule vrefE)
  obtain ri where ri: "N 1 = Some ri" using v by (rule volE)
  show ?thesis
    unfolding sfs_creat_def
  proof (rule wpP_bind, rule wp_run, rule wp_mono [OF vol_findname_wp [OF v w ri]])
    fix a :: "errno option \<times> dirsearch" and s1
    assume a: "(case a of (r, d) \<Rightarrow> \<lambda>s'. vol dinv sec nsec M N {} s' \<and> kept sec N p s s' \<and> sec (sfs_device s') = sec (sfs_device s) \<and> vroom s' = vroom s \<and>
        (r \<in> {Some EIO, Some EFAULT} \<or> r = Some ENOENT \<and> M name = None \<or>
         r = None \<and> (\<exists>ino j. M name = Some ino \<and> ds_ino d = Some ino \<and> ds_slot d = Some (int j) \<and> j < sfi_size ri div 64 \<and>
           used (dents (sec (sfs_device s)) ri ! j) \<and> dname (dents (sec (sfs_device s)) ri ! j) = name))) s1"
    obtain r d where ar: "a = (r, d)" by (cases a)
    have v1: "vol dinv sec nsec M N {} s1" and k: "kept sec N p s s1" and dv: "sec (sfs_device s1) = sec (sfs_device s)" and room1: "vroom s1"
      using a room(1) by (auto simp: ar)
    have vr: "vref s1 = vref s" and dk: "data_kept sec N s s1" using k by (auto simp: kept_def)
    have rc1: "rc_ok s1" using rcs vr by (simp add: rc_ok_vref)
    consider (err) "r \<in> {Some EIO, Some EFAULT}" | (new) "r = Some ENOENT" "M name = None"
      | (old) ino where "r = None" "M name = Some ino" "ds_ino d = Some ino" using a by (auto simp: ar)
    then show "sfs_dir_findname dv p name s = Some (Inr a, s1) \<longrightarrow> wpP ?P (case a of (result, d) \<Rightarrow>
     if result \<noteq> None \<and> result \<noteq> Some ENOENT then failK (the result)
     else if result = None \<and> excl then failK EEXIST
     else if result = None then sfs_loadvnode dv (the (ds_ino d)) SFS_TYPE_INVAL
     else
       bindK (sfs_makeobj dv SFS_TYPE_FILE) (\<lambda>newguy.
       bindK (svget newguy sv_ino) (\<lambda>ino.
       bindK (tryK (sfs_dir_link dv p name ino)) (\<lambda>result.
       case result of
         Inl e \<Rightarrow> bindK (vnode_decref dv newguy) (\<lambda>_. failK e)
       | Inr _ \<Rightarrow>
           bindK (sv_link (\<lambda>lc. u16 (lc + 1)) newguy) (\<lambda>_. retK newguy))))) ?Q ?E s1"
    proof cases
      case err
      then show ?thesis using v1 by (auto simp: ar wpP_def failK_def)
    next
      case new
      have p1: "vref s1 p = Some (rc, oc, ops, 1)" using p vr by simp
      have km1: "km_pages (sfs_km s1) 0 = None" using km k by (simp add: kept_def)
      note c = creat_new_wp [OF v1 p1 room1 room(2) name km1 new(2)]
      show ?thesis
        unfolding ar case_prod_conv new(1)
      proof
        assume "sfs_dir_findname dv p name s = Some (Inr (Some ENOENT, d), s1)"
        then have P: "new_fails dv p name s1 \<Longrightarrow> ?P" unfolding creat_fails_def by blast
        show "wpP ?P (if Some ENOENT \<noteq> None \<and> Some ENOENT \<noteq> Some ENOENT then failK (the (Some ENOENT))
     else if Some ENOENT = None \<and> excl then failK EEXIST
     else if Some ENOENT = None then sfs_loadvnode dv (the (ds_ino d)) SFS_TYPE_INVAL
     else
       bindK (sfs_makeobj dv SFS_TYPE_FILE) (\<lambda>newguy.
       bindK (svget newguy sv_ino) (\<lambda>ino.
       bindK (tryK (sfs_dir_link dv p name ino)) (\<lambda>result.
       case result of
         Inl e \<Rightarrow> bindK (vnode_decref dv newguy) (\<lambda>_. failK e)
       | Inr _ \<Rightarrow>
           bindK (sv_link (\<lambda>lc. u16 (lc + 1)) newguy) (\<lambda>_. retK newguy))))) ?Q ?E s1"
          using wpP_mono [OF wpP_weaken [OF c P], where Q' = ?Q and E' = ?E] new(2) vr data_kept_trans [OF dk] by auto
      qed
    next
      case old
      obtain i where i: "N ino = Some i" "ino \<noteq> 1" using volD(2) [OF v old(2)] by auto
      show ?thesis
      proof (cases excl)
        case True
        then show ?thesis using old v1 by (auto simp: ar wpP_def failK_def)
      next
        case False
        have "wpK (sfs_loadvnode dv ino SFS_TYPE_INVAL) ?Q ?E s1"
          by (rule wp_mono [OF vol_load_wp [OF v1 i room1 rc1]]) (use old(2) False vr dv in \<open>auto simp: data_kept_def\<close>)
        then have "wpP ?P (sfs_loadvnode dv ino SFS_TYPE_INVAL) ?Q ?E s1" by (rule wpP_wp)
        then show ?thesis using old(1,3) False by (simp add: ar)
      qed
    qed
  qed simp
qed

end

section \<open>Renaming\<close>

lemma data_kept_meta:
  assumes dk: "data_kept sc N s s1" and d2: "data_kept sc N' s2 s3" and dv: "sfs_device s2 = sfs_device s1" and N: "N x = Some i"
    "\<And>n. n \<noteq> 1 \<Longrightarrow> n \<noteq> x \<Longrightarrow> N' n = N n" "x \<noteq> 1 \<Longrightarrow> N' x = Some (i\<lparr>sfi_linkcount := c\<rparr>)"
  shows "data_kept sc N s s3"
  unfolding data_kept_def
proof (intro allI impI)
  fix n j k assume n: "n \<noteq> 1 \<and> N n = Some j"
  have m: "fblk d (i\<lparr>sfi_linkcount := c\<rparr>) k = fblk d i k" for d by (simp add: fblk_def bmap_of_def id_words_def)
  have d2': "\<And>j'. N' n = Some j' \<Longrightarrow> fblk (sc (sfs_device s3)) j' k = fblk (sc (sfs_device s2)) j' k"
    using d2 n unfolding data_kept_def by blast
  have "fblk (sc (sfs_device s3)) j k = fblk (sc (sfs_device s2)) j k"
  proof (cases "n = x")
    case True
    then show ?thesis using d2' [of "i\<lparr>sfi_linkcount := c\<rparr>"] n N(1,3) m by simp
  next
    case False
    then show ?thesis using d2' [of j] n N(2) by simp
  qed
  then show "fblk (sc (sfs_device s3)) j k = fblk (sc (sfs_device s)) j k"
    using dk n dv unfolding data_kept_def by metis
qed

lemma bindK_assert_True: "b \<Longrightarrow> bindK (assertK b) f = f ()"
  by (rule ext) (simp add: bindK_def assertK_def retK_def)

text \<open>
  The run of \<^verbatim>\<open>sfs_rename\<close> from this state takes both names out in vain, the old one first, the new one in the recovery.
\<close>

definition swap_fails :: "'d device \<Rightarrow> nat \<Rightarrow> int \<Rightarrow> int \<Rightarrow> 'd sfs_fs \<Rightarrow> bool" where
  "swap_fails dv p slot1 slot2 s \<longleftrightarrow> (\<exists>e t e' t'. sfs_dir_unlink dv p slot1 s = Some (Inl e, t) \<and>
     sfs_dir_unlink dv p slot2 t = Some (Inl e', t'))"

definition relink_fails :: "'d device \<Rightarrow> nat \<Rightarrow> byte list \<Rightarrow> nat \<Rightarrow> int \<Rightarrow> 'd sfs_fs \<Rightarrow> bool" where
  "relink_fails dv p n2 q slot1 s \<longleftrightarrow> (\<exists>v slot2 t t'. sfs_heap s q = Some v \<and>
     sfs_dir_link dv p n2 (sv_ino v) s = Some (Inr slot2, t) \<and> sv_link (\<lambda>lc. u16 (lc + 1)) q t = Some (Inr (), t') \<and>
     swap_fails dv p slot1 slot2 t')"

definition rename_fails :: "'d device \<Rightarrow> nat \<Rightarrow> byte list \<Rightarrow> byte list \<Rightarrow> 'd sfs_fs \<Rightarrow> bool" where
  "rename_fails dv p n1 n2 s \<longleftrightarrow> (\<exists>q slot1 t. sfs_lookonce dv p n1 s = Some (Inr (q, slot1), t) \<and> relink_fails dv p n2 q slot1 t)"

text \<open>The last steps of a rename: one link less, and the reference goes.\<close>

context sfs_disk begin

lemma drop_link_wp:
  assumes v: "vol dinv sec nsec M N X s" and q: "vref s q = Some (rq + 1, oq, opq, x)" "1 \<le> rq" and x: "x \<noteq> 1" "N x = Some i"
    and lc: "sfi_linkcount i = links M x + 1" and f: "f (sfi_linkcount i) = links M x"
  shows "wpK (bindK (sv_link f q) (\<lambda>_. vnode_decref dv q))
     (\<lambda>_ s'. vol dinv sec nsec M (N(x \<mapsto> i\<lparr>sfi_linkcount := links M x\<rparr>)) (X - {x}) s' \<and>
        vref s' = (vref s)(q \<mapsto> (rq, oq, opq, x)) \<and> sfs_device s' = sfs_device s) (\<lambda>_ _. False) s"
proof -
  obtain w where w: "sfs_heap s q = Some w" "sv_ino w = x" using q(1) by (rule vrefE)
  show ?thesis
    unfolding wp_bind
  proof (rule wp_mono [OF vol_sv_link [where f = f, OF v w x f, where E = "\<lambda>_ _. False"]])
    fix t s1
    let ?N = "N(x \<mapsto> i\<lparr>sfi_linkcount := links M x\<rparr>)"
    assume "vol dinv sec nsec M ?N (X - {x}) s1 \<and> vref s1 = vref s \<and> sfs_device s1 = sfs_device s \<and>
      km_pages (sfs_km s1) = km_pages (sfs_km s) \<and>
      sfs_heap s1 = (sfs_heap s)(q \<mapsto> w\<lparr>sv_i := i\<lparr>sfi_linkcount := links M x\<rparr>, sv_dirty := True\<rparr>)"
    then have h: "vol dinv sec nsec M ?N (X - {x}) s1" "vref s1 = vref s" "sfs_device s1 = sfs_device s" by auto
    have "vref s1 q = Some (rq + 1, oq, opq, x)" using h(2) q(1) by simp
    then obtain w1 where w1: "sfs_heap s1 q = Some w1" "vn_refcount w1 = rq + 1" "vn_opencount w1 = oq" "vn_ops w1 = opq" "sv_ino w1 = x"
      by (rule vrefE)
    show "wpK (vnode_decref dv q) (\<lambda>_ s'. vol dinv sec nsec M ?N (X - {x}) s' \<and>
        vref s' = (vref s)(q \<mapsto> (rq, oq, opq, x)) \<and> sfs_device s' = sfs_device s) (\<lambda>_ _. False) s1"
      by (rule wp_mono [OF decref_wp [OF h(1) w1(1), where E = "\<lambda>_ _. False"]]) (use q(2) w1 h in auto)
  qed simp
qed

text \<open>The recovery path takes the new name out again. It does not mark the inode, but the inode is marked already.\<close>

lemma svmod_dirty:
  assumes w: "sfs_heap s q = Some w" "sv_dirty w" and lc: "0 < sfi_linkcount (sv_i w)" "sfi_linkcount (sv_i w) < 65536"
  shows "bindK (svmod q (\<lambda>v. v\<lparr>sv_i := (sv_i v)\<lparr>sfi_linkcount := u16 (sfi_linkcount (sv_i v) + 65535)\<rparr>\<rparr>)) g s =
     bindK (sv_link (\<lambda>lc. lc - 1) q) g s"
proof -
  have "u16 (sfi_linkcount (sv_i w) + 65535) = sfi_linkcount (sv_i w) - 1" using lc by (simp add: u16_def mod_if)
  moreover have "w\<lparr>sv_i := j\<rparr> = w\<lparr>sv_i := j, sv_dirty := True\<rparr>" for j using w(2) by (cases w) simp
  ultimately show ?thesis using w(1) by (simp add: bindK_def sv_link_def svmod_def)
qed

lemma rename_undo_wp:
  assumes v: "vol dinv sec nsec M N {} s" and p: "vref s p = Some (rc, oc, ops, 1)" and ri: "N 1 = Some ri"
    and j: "j < sfi_size ri div 64" "used (dents (sec (sfs_device s)) ri ! j)" "dname (dents (sec (sfs_device s)) ri ! j) = n2"
    and M: "M n2 = Some x" and q: "vref s q = Some (rq + 1, oq, opq, x)" "1 \<le> rq" and x: "x \<noteq> 1" "N x = Some i"
    and w: "sfs_heap s q = Some w" "sv_dirty w"
  shows "wpP (\<exists>e t. sfs_dir_unlink dv p (int j) s = Some (Inl e, t))
     (sfs_rename_undo dv p (int j) q e)
     (\<lambda>_ _. False)
     (\<lambda>e' s'. e' = e \<and> (\<exists>N'. vol dinv sec nsec (M(n2 := None)) N' {} s') \<and> vref s' = (vref s)(q \<mapsto> (rq, oq, opq, x))) s"
    (is "wpP ?P _ ?Q ?E s")
proof -
  let ?tail = "bindK (svmod q (\<lambda>v. v\<lparr>sv_i := (sv_i v)\<lparr>sfi_linkcount := u16 (sfi_linkcount (sv_i v) + 65535)\<rparr>\<rparr>)) (\<lambda>_.
            bindK (vnode_decref dv q) (\<lambda>_. failK e))"
  have pq: "p \<noteq> q" using p q(1) x(1) by auto
  have run: "wpK (sfs_dir_unlink dv p (int j)) (\<lambda>_. wpP ?P ?tail ?Q ?E) (\<lambda>_ _. ?P) s"
  proof (rule wp_mono [OF wp_record [OF vol_dir_unlink_wp [OF v p ri j M]]])
    fix u s1
    assume "\<exists>ri'. vol dinv sec nsec (M(n2 := None)) (N(1 \<mapsto> ri')) {x} s1 \<and> kept sec N p s s1"
    then obtain ri' where v1: "vol dinv sec nsec (M(n2 := None)) (N(1 \<mapsto> ri')) {x} s1" and k: "kept sec N p s s1" by blast
    have w1: "sfs_heap s1 q = Some w" using k pq w(1) by (simp add: kept_def)
    have q1: "vref s1 q = Some (rq + 1, oq, opq, x)" using k q(1) by (simp add: kept_def)
    have wx: "sv_ino w = x" using q(1) w(1) by (auto simp: vref_def)
    have Nx: "(N(1 \<mapsto> ri')) x = Some i" using x by simp
    have wi: "sv_i w = i" using vol_at(2) [OF v1 w1 wx Nx] .
    have ld: "links M x = links (M(n2 := None)) x + 1" by (rule links_del(1) [OF vol_finite(1) [OF v] M])
    have lc: "sfi_linkcount i = links (M(n2 := None)) x + 1" using volD(4) [OF v x(2,1)] ld by simp
    have lt: "sfi_linkcount i < 65536" using lc ld vol_finite(2) [OF v, of x] by simp
    have pos: "0 < sfi_linkcount (sv_i w)" "sfi_linkcount (sv_i w) < 65536" using wi lc lt by auto
    have "wpK (bindK (sv_link (\<lambda>lc. lc - 1) q) (\<lambda>_. vnode_decref dv q))
      (\<lambda>_ s'. (\<exists>N'. vol dinv sec nsec (M(n2 := None)) N' {} s') \<and> vref s' = (vref s)(q \<mapsto> (rq, oq, opq, x))) (\<lambda>_ _. False) s1"
      by (rule wp_mono [OF drop_link_wp [where f = "\<lambda>lc. lc - 1" and N = "N(1 \<mapsto> ri')", OF v1 q1 q(2) x(1) Nx lc]]) (use lc k in \<open>auto simp: kept_def\<close>)
    then have "wpK (bindK (sv_link (\<lambda>lc. lc - 1) q) (\<lambda>_. bindK (vnode_decref dv q) (\<lambda>_. failK e))) ?Q ?E s1"
      by (simp add: wp_bind wp_fail) (rule wp_mono, assumption, (rule wp_mono, assumption, auto)+)
    then have "wpK ?tail ?Q ?E s1" unfolding wpK_def svmod_dirty [OF w1 w(2) pos] .
    then show "wpP ?P ?tail ?Q ?E s1" by (rule wpP_wp)
  qed blast
  have pn: "wpP ?P panicK ?Q ?E t" if ?P for t using that by (simp add: wpP_def panicK_def)
  have "wpK (tryK (sfs_dir_unlink dv p (int j))) (\<lambda>r. wpP ?P (case r of Inl _ \<Rightarrow> panicK | Inr _ \<Rightarrow> ?tail) ?Q ?E) ?E s"
    unfolding wp_try by (rule wp_mono [OF run]) (use pn in auto)
  then show ?thesis unfolding sfs_rename_undo_def by (rule wpP_bind)
qed

text \<open>From the moment both names exist.\<close>

lemma rename_swap_wp:
  assumes v: "vol dinv sec nsec M N {} s" and p: "vref s p = Some (rc, oc, ops, 1)" and ri: "N 1 = Some ri"
    and j1: "j1 < sfi_size ri div 64" "used (dents (sec (sfs_device s)) ri ! j1)" "dname (dents (sec (sfs_device s)) ri ! j1) = n1"
    and j2: "j2 < sfi_size ri div 64" "used (dents (sec (sfs_device s)) ri ! j2)" "dname (dents (sec (sfs_device s)) ri ! j2) = n2"
    and M: "M n1 = Some x" "M n2 = Some x" and q: "vref s q = Some (rq + 1, oq, opq, x)" "1 \<le> rq" and x: "x \<noteq> 1" "N x = Some i"
    and w: "sfs_heap s q = Some w" "sv_dirty w"
  shows "wpP (swap_fails dv p (int j1) (int j2) s)
     (sfs_rename_swap dv p (int j1) (int j2) q)
     (\<lambda>_ s'. (\<exists>ri'. vol dinv sec nsec (M(n1 := None)) (N(1 \<mapsto> ri', x \<mapsto> i\<lparr>sfi_linkcount := links (M(n1 := None)) x\<rparr>)) {} s') \<and>
        data_kept sec N s s' \<and> vref s' = (vref s)(q \<mapsto> (rq, oq, opq, x)))
     (\<lambda>e s'. e \<in> {ENOSPC, EIO, EFAULT} \<and> (\<exists>N'. vol dinv sec nsec (M(n2 := None)) N' {} s') \<and>
        vref s' = (vref s)(q \<mapsto> (rq, oq, opq, x))) s"
    (is "wpP ?P _ ?Q ?E s")
proof -
  let ?body = "\<lambda>result. case result of Inl e \<Rightarrow> sfs_rename_undo dv p (int j2) q e
     | Inr _ \<Rightarrow>
         bindK (svget q (\<lambda>v. sfi_linkcount (sv_i v))) (\<lambda>lc.
         bindK (assertK (lc > 0)) (\<lambda>_.
         bindK (sv_link (\<lambda>lc. lc - 1) q) (\<lambda>_.
         vnode_decref dv q)))"
  have pq: "p \<noteq> q" using p q(1) x(1) by auto
  have "wpK (sfs_dir_unlink dv p (int j1)) (\<lambda>u. wpP ?P (?body (Inr u)) ?Q ?E) (\<lambda>e. wpP ?P (?body (Inl e)) ?Q ?E) s"
  proof (rule wp_mono [OF wp_record [OF vol_dir_unlink_wp [OF v p ri j1 M(1)]]])
    fix u s1
    assume "\<exists>ri'. vol dinv sec nsec (M(n1 := None)) (N(1 \<mapsto> ri')) {x} s1 \<and> kept sec N p s s1"
    then obtain ri' where v1: "vol dinv sec nsec (M(n1 := None)) (N(1 \<mapsto> ri')) {x} s1" and k: "kept sec N p s s1" by blast
    have q1: "vref s1 q = Some (rq + 1, oq, opq, x)" using k q(1) by (simp add: kept_def)
    have w1: "sfs_heap s1 q = Some w" "sv_ino w = x" using k pq w(1) q(1) by (auto simp: kept_def vref_def)
    have Nx: "(N(1 \<mapsto> ri')) x = Some i" using x by simp
    have lc: "sfi_linkcount i = links (M(n1 := None)) x + 1"
      using volD(4) [OF v x(2,1)] links_del(1) [OF vol_finite(1) [OF v] M(1)] by simp
    have wi: "sv_i w = i" using vol_at(2) [OF v1 w1 Nx] .
    have "wpK (bindK (sv_link (\<lambda>lc. lc - 1) q) (\<lambda>_. vnode_decref dv q)) ?Q ?E s1"
      by (rule wp_mono [OF drop_link_wp [where f = "\<lambda>lc. lc - 1" and N = "N(1 \<mapsto> ri')", OF v1 q1 q(2) x(1) Nx lc]])
        (use lc k in \<open>auto simp: kept_def data_kept_def\<close>)
    then have "wpK (?body (Inr u)) ?Q ?E s1"
      unfolding sum.case using w1(1) wi lc by (simp add: wp)
    then show "wpP ?P (?body (Inr u)) ?Q ?E s1" by (rule wpP_wp)
  next
    fix e s1
    assume a: "(e \<in> {ENOSPC, EIO, EFAULT} \<and> (\<exists>ri'. vol dinv sec nsec M (N(1 \<mapsto> ri')) {} s1 \<and> kept sec N p s s1 \<and>
           dents (sec (sfs_device s1)) ri' = dents (sec (sfs_device s)) ri)) \<and> sfs_dir_unlink dv p (int j1) s = Some (Inl e, s1)"
    then obtain ri' where v1: "vol dinv sec nsec M (N(1 \<mapsto> ri')) {} s1" and k: "kept sec N p s s1"
      and ds: "dents (sec (sfs_device s1)) ri' = dents (sec (sfs_device s)) ri" by blast
    have kv: "vref s1 = vref s" and w1: "sfs_heap s1 q = Some w" using k pq w(1) by (auto simp: kept_def)
    have p1: "vref s1 p = Some (rc, oc, ops, 1)" and q1: "vref s1 q = Some (rq + 1, oq, opq, x)" using p q(1) kv by auto
    have len: "length (dents dk r) = sfi_size r div 64" for dk r by (simp add: dents_def)
    have sz: "sfi_size ri' div 64 = sfi_size ri div 64" using arg_cong [OF ds, of length] by (simp add: len)
    have j: "j2 < sfi_size ri' div 64" "used (dents (sec (sfs_device s1)) ri' ! j2)" "dname (dents (sec (sfs_device s1)) ri' ! j2) = n2"
      using j2 ds sz by auto
    have R: "(N(1 \<mapsto> ri')) 1 = Some ri'" "(N(1 \<mapsto> ri')) x = Some i" using x by auto
    have u: "wpP (\<exists>e t. sfs_dir_unlink dv p (int j2) s1 = Some (Inl e, t)) (?body (Inl e)) (\<lambda>_ _. False)
      (\<lambda>e' s'. e' = e \<and> (\<exists>N'. vol dinv sec nsec (M(n2 := None)) N' {} s') \<and> vref s' = (vref s)(q \<mapsto> (rq, oq, opq, x))) s1"
      using rename_undo_wp [OF v1 p1 R(1) j M(2) q1 q(2) x(1) R(2) w1 w(2), where e = e] unfolding kv sum.case .
    have P: "\<exists>e t. sfs_dir_unlink dv p (int j2) s1 = Some (Inl e, t) \<Longrightarrow> ?P" unfolding swap_fails_def using a by blast
    show "wpP ?P (?body (Inl e)) ?Q ?E s1"
      by (rule wpP_mono [OF wpP_weaken [OF u P]]) (use a in auto)
  qed
  then have "wpK (tryK (sfs_dir_unlink dv p (int j1))) (\<lambda>r. wpP ?P (?body r) ?Q ?E) ?E s" by (simp only: wp_try)
  then show ?thesis unfolding sfs_rename_swap_def by (rule wpP_bind)
qed

lemma rename_link_wp:
  assumes v: "vol dinv sec nsec M N {} s" and p: "vref s p = Some (rc, oc, ops, 1)" and room: "dir_room N" and name: "0 \<notin> set n2"
    and ri: "N 1 = Some ri"
    and j: "j < sfi_size ri div 64" "used (dents (sec (sfs_device s)) ri ! j)" "dname (dents (sec (sfs_device s)) ri ! j) = n1"
    and M: "M n1 = Some x" and q: "vref s q = Some (rq + 1, oq, opq, x)" "1 \<le> rq"
  shows "wpP (relink_fails dv p n2 q (int j) s)
     (sfs_rename_link dv p n2 q (int j))
     (\<lambda>_ s'. \<exists>ri'. M n2 = None \<and> vol dinv sec nsec (M(n1 := None, n2 \<mapsto> x)) (N(1 \<mapsto> ri')) {} s' \<and>
        vref s' = (vref s)(q \<mapsto> (rq, oq, opq, x)) \<and> data_kept sec N s s')
     (\<lambda>e s'. (M n2 \<noteq> None \<and> e = EEXIST \<or> 60 \<le> length n2 \<and> e = ENAMETOOLONG \<or> e \<in> {ENOSPC, EIO, EFAULT}) \<and>
        (\<exists>N'. vol dinv sec nsec M N' {} s') \<and> vref s' = (vref s)(q \<mapsto> (rq, oq, opq, x))) s"
    (is "wpP ?P _ ?Q ?E s")
proof -
  let ?body = "\<lambda>result. case result of Inl e \<Rightarrow> bindK (vnode_decref dv q) (\<lambda>_. failK e)
     | Inr slot2 \<Rightarrow>
         bindK (sv_link (\<lambda>lc. u16 (lc + 1)) q) (\<lambda>_.
         sfs_rename_swap dv p (int j) slot2 q)"
  obtain w where w: "sfs_heap s q = Some w" "sv_ino w = x" using q(1) by (rule vrefE)
  have x: "x \<noteq> 1" using volD(2) [OF v M] by simp
  obtain i where i: "N x = Some i" using volD(2) [OF v M] by auto
  have dm: "x \<in> dom N" using i by auto
  have wi: "sv_i w = i" using vol_at(2) [OF v w i] .
  have ty: "sfi_type i = SFS_TYPE_FILE" using volD(3) [OF v i x] .
  have pq: "p \<noteq> q" using p q(1) x by auto
  have lc: "sfi_linkcount i = links M x" using volD(4) [OF v i x] by simp
  have "wpK (sfs_dir_link dv p n2 x) (\<lambda>sl. wpP ?P (?body (Inr sl)) ?Q ?E) (\<lambda>e. wpP ?P (?body (Inl e)) ?Q ?E) s"
  proof (rule wp_run, rule wp_mono [OF vol_dir_link_wp [OF v p room name x dm]])
    fix slot s1
    assume "\<exists>ri' j. slot = int j \<and> M n2 = None \<and> vol dinv sec nsec (M(n2 \<mapsto> x)) (N(1 \<mapsto> ri')) {x} s1 \<and> kept sec N p s s1 \<and>
        j < sfi_size ri' div 64 \<and> used (dents (sec (sfs_device s1)) ri' ! j) \<and> dname (dents (sec (sfs_device s1)) ri' ! j) = n2 \<and>
        (\<forall>ri l. N 1 = Some ri \<and> l < sfi_size ri div 64 \<and> used (dents (sec (sfs_device s)) ri ! l) \<longrightarrow>
           l < sfi_size ri' div 64 \<and> dents (sec (sfs_device s1)) ri' ! l = dents (sec (sfs_device s)) ri ! l)"
    then obtain ri' j2 where sl: "slot = int j2" and h: "M n2 = None" "vol dinv sec nsec (M(n2 \<mapsto> x)) (N(1 \<mapsto> ri')) {x} s1" "kept sec N p s s1"
      and j2: "j2 < sfi_size ri' div 64" "used (dents (sec (sfs_device s1)) ri' ! j2)" "dname (dents (sec (sfs_device s1)) ri' ! j2) = n2"
      and st: "j < sfi_size ri' div 64" "dents (sec (sfs_device s1)) ri' ! j = dents (sec (sfs_device s)) ri ! j" using ri j by blast
    have ne: "n1 \<noteq> n2" using M h(1) by auto
    have vr: "vref s1 = vref s" and dk: "data_kept sec N s s1" using h(3) by (auto simp: kept_def)
    have w1: "sfs_heap s1 q = Some w" using h(3) pq w(1) by (simp add: kept_def)
    have Nx: "(N(1 \<mapsto> ri')) x = Some i" using x i by simp
    note la = links_add(1) [OF vol_finite(1) [OF v] h(1), of x]
    have c: "u16 (sfi_linkcount i + 1) = links (M(n2 \<mapsto> x)) x" using la lc vol_finite(2) [OF v, of x] by simp
    show "sfs_dir_link dv p n2 x s = Some (Inr slot, s1) \<longrightarrow> wpP ?P (?body (Inr slot)) ?Q ?E s1"
      unfolding sum.case sl
    proof (rule impI, rule wpP_bind, rule wp_run, rule wp_mono [OF vol_sv_link [where f = "\<lambda>lc. u16 (lc + 1)" and N = "N(1 \<mapsto> ri')", OF h(2) w1 w(2) x Nx c, where E = ?E]])
      fix t s2
      let ?i = "i\<lparr>sfi_linkcount := links (M(n2 \<mapsto> x)) x\<rparr>"
      let ?N = "N(1 \<mapsto> ri', x \<mapsto> ?i)"
      assume "vol dinv sec nsec (M(n2 \<mapsto> x)) ?N ({x} - {x}) s2 \<and> vref s2 = vref s1 \<and> sfs_device s2 = sfs_device s1 \<and>
        km_pages (sfs_km s2) = km_pages (sfs_km s1) \<and> sfs_heap s2 = (sfs_heap s1)(q \<mapsto> w\<lparr>sv_i := ?i, sv_dirty := True\<rparr>)"
      then have g: "vol dinv sec nsec (M(n2 \<mapsto> x)) ?N {} s2" "vref s2 = vref s" "sfs_device s2 = sfs_device s1"
        "sfs_heap s2 q = Some (w\<lparr>sv_i := ?i, sv_dirty := True\<rparr>)" using vr by auto
      have p2: "vref s2 p = Some (rc, oc, ops, 1)" and q2: "vref s2 q = Some (rq + 1, oq, opq, x)" using p q(1) g(2) by auto
      have dkN: "data_kept sec N s s'" if "data_kept sec ?N s2 s'" for s'
        by (rule data_kept_meta [OF dk that g(3), of x i]) (use i in auto)
      have dy: "sv_dirty (w\<lparr>sv_i := ?i, sv_dirty := True\<rparr>)" by simp
      have R: "?N 1 = Some ri'" and R2: "?N x = Some ?i" using x by auto
      have j1': "j < sfi_size ri' div 64" "used (dents (sec (sfs_device s2)) ri' ! j)" "dname (dents (sec (sfs_device s2)) ri' ! j) = n1"
        and j2': "j2 < sfi_size ri' div 64" "used (dents (sec (sfs_device s2)) ri' ! j2)" "dname (dents (sec (sfs_device s2)) ri' ! j2) = n2"
        using st j j2 g(3) by auto
      have M2: "(M(n2 \<mapsto> x)) n1 = Some x" "(M(n2 \<mapsto> x)) n2 = Some x" using M ne by auto
      have e1: "M(n2 \<mapsto> x, n1 := None) = M(n1 := None, n2 \<mapsto> x)" using ne by (rule fun_upd_twist [symmetric])
      have e2: "M(n2 \<mapsto> x, n2 := None) = M" using h(1) by auto
      have "links (M(n2 \<mapsto> x, n1 := None)) x = links M x"
        using links_del(1) [of "M(n2 \<mapsto> x)" n1 x] M2(1) la vol_finite(1) [OF v] by simp
      then have e3: "?N(1 \<mapsto> r, x \<mapsto> ?i\<lparr>sfi_linkcount := links (M(n2 \<mapsto> x, n1 := None)) x\<rparr>) = N(1 \<mapsto> r)" for r
        using x i lc by auto
      assume dl: "sfs_dir_link dv p n2 x s = Some (Inr (int j2), s1)"
      have P: "swap_fails dv p (int j) (int j2) s2 \<Longrightarrow> ?P" if "sv_link (\<lambda>lc. u16 (lc + 1)) q s1 = Some (Inr t, s2)"
        unfolding relink_fails_def using w dl that by (intro exI [of _ w] exI [of _ "int j2"] exI [of _ s1] exI [of _ s2]) simp
      show "sv_link (\<lambda>lc. u16 (lc + 1)) q s1 = Some (Inr t, s2) \<longrightarrow> wpP ?P (sfs_rename_swap dv p (int j) (int j2) q) ?Q ?E s2"
        by (rule impI, rule wpP_mono [OF wpP_weaken [OF rename_swap_wp [where N = ?N and M = "M(n2 \<mapsto> x)", OF g(1) p2 R j1' j2' M2 q2 q(2) x R2 g(4) dy] P]])
          (use e1 e2 e3 dkN g(2) h(1) in auto)
    qed simp
  next
    fix e s1
    assume "(e = EEXIST \<and> M n2 \<noteq> None \<or> e = ENAMETOOLONG \<and> 60 \<le> length n2 \<or> e \<in> {ENOSPC, EIO, EFAULT}) \<and>
        (\<exists>ri'. vol dinv sec nsec M (N(1 \<mapsto> ri')) {} s1 \<and> kept sec N p s s1)"
    then obtain ri' where e: "e = EEXIST \<and> M n2 \<noteq> None \<or> e = ENAMETOOLONG \<and> 60 \<le> length n2 \<or> e \<in> {ENOSPC, EIO, EFAULT}"
      and v1: "vol dinv sec nsec M (N(1 \<mapsto> ri')) {} s1" and k: "kept sec N p s s1" by blast
    have q1: "vref s1 q = Some (rq + 1, oq, opq, x)" using q k by (simp add: kept_def)
    obtain w1 where w1: "sfs_heap s1 q = Some w1" "vn_refcount w1 = rq + 1" "vn_opencount w1 = oq" "vn_ops w1 = opq" "sv_ino w1 = x"
      using q1 by (rule vrefE)
    have "wpK (vnode_decref dv q) (\<lambda>_. ?E e) ?E s1"
      by (rule wp_mono [OF decref_wp [where dv = dv and E = "\<lambda>_ _. False", OF v1 w1(1)]]) (use q(2) w1 e k in \<open>auto simp: kept_def\<close>)
    then show "wpP ?P (?body (Inl e)) ?Q ?E s1" unfolding sum.case by (intro wpP_wp) (simp add: wp)
  qed
  then have "wpK (tryK (sfs_dir_link dv p n2 x)) (\<lambda>r. wpP ?P (?body r) ?Q ?E) ?E s" by (simp only: wp_try)
  then have "wpP ?P (bindK (tryK (sfs_dir_link dv p n2 x)) ?body) ?Q ?E s" by (rule wpP_bind)
  then show ?thesis
    unfolding sfs_rename_link_def wpP_def bind_svget [OF w(1)] id_apply w(2) wi using ty by (simp add: bindK_assert_True)
qed

text \<open>
  The whole of \<^verbatim>\<open>sfs_rename\<close>, for a file some vnode of which is loaded. It moves the name or changes no name at all; it
  gives up with a panic only when removing the old name fails and then removing the new one fails as well.
\<close>

lemma rename_wp:
  assumes v: "vol dinv sec nsec M N {} s" and p: "vref s p = Some (rc, oc, ops, 1)" and room: "vroom s" "dir_room N" and rcs: "rc_ok s"
    and name: "0 \<notin> set n2" and core: "\<And>x. M n1 = Some x \<Longrightarrow> in_core s x"
  shows "wpP (rename_fails dv p n1 n2 s)
     (sfs_rename dv p n1 p n2)
     (\<lambda>_ s'. \<exists>x ri'. M n1 = Some x \<and> M n2 = None \<and> vol dinv sec nsec (M(n1 := None, n2 \<mapsto> x)) (N(1 \<mapsto> ri')) {} s' \<and>
        vref s' = vref s \<and> data_kept sec N s s')
     (\<lambda>e s'. (M n1 = None \<and> e = ENOENT \<or> M n2 \<noteq> None \<and> e = EEXIST \<or> 60 \<le> length n2 \<and> e = ENAMETOOLONG \<or>
          e \<in> {ENOSPC, EIO, EFAULT, ENOMEM}) \<and>
        (\<exists>N'. vol dinv sec nsec M N' {} s') \<and> vref s' = vref s) s" (is "wpP ?P _ ?Q ?E s")
proof -
  obtain w where w: "sfs_heap s p = Some w" "sv_ino w = 1" using p by (rule vrefE)
  obtain ri where ri: "N 1 = Some ri" using v by (rule volE)
  have "wpK (sfs_lookonce dv p n1) (\<lambda>(g1, slot1). wpP ?P (sfs_rename_link dv p n2 g1 slot1) ?Q ?E) ?E s"
  proof (rule wp_run, rule wp_mono [OF lookonce_wp [OF v w ri room(1) rcs]])
    fix a s1
    assume a: "(case a of (q, slot) \<Rightarrow> \<lambda>s'. \<exists>ino j. M n1 = Some ino \<and> slot = int j \<and> j < sfi_size ri div 64 \<and>
        used (dents (sec (sfs_device s)) ri ! j) \<and> dname (dents (sec (sfs_device s)) ri ! j) = n1 \<and>
        vol dinv sec nsec M N {} s' \<and> vref s' = grab (vref s) ino q \<and> place (vref s) ino q \<and>
        sec (sfs_device s') = sec (sfs_device s)) s1"
    obtain q x j where aq: "a = (q, int j)" and Mx: "M n1 = Some x" and j: "j < sfi_size ri div 64" "used (dents (sec (sfs_device s)) ri ! j)"
        "dname (dents (sec (sfs_device s)) ri ! j) = n1"
      and v1: "vol dinv sec nsec M N {} s1" "vref s1 = grab (vref s) x q" "place (vref s) x q" "sec (sfs_device s1) = sec (sfs_device s)"
      using a by (cases a) auto
    obtain rq oq opq where q: "vref s q = Some (rq, oq, opq, x)" using v1(3) core [OF Mx] by (rule in_core_place)
    have rq: "1 \<le> rq" using vref_count [OF v q] .
    have x: "x \<noteq> 1" using volD(2) [OF v Mx] by simp
    have pq: "p \<noteq> q" using p q x by auto
    have p1: "vref s1 p = Some (rc, oc, ops, 1)" using p v1(2) grab_other [of p q, OF pq] by simp
    have q1: "vref s1 q = Some (rq + 1, oq, opq, x)" using v1(2) grab_at [of "vref s" q, OF q] by simp
    have bk: "(vref s1)(q \<mapsto> (rq, oq, opq, x)) = vref s" using v1(2) q by (auto simp: grab_def)
    have j1: "j < sfi_size ri div 64" "used (dents (sec (sfs_device s1)) ri ! j)" "dname (dents (sec (sfs_device s1)) ri ! j) = n1"
      using j v1(4) by auto
    have "wpP (relink_fails dv p n2 q (int j) s1) (sfs_rename_link dv p n2 q (int j)) (\<lambda>_ s'. \<exists>ri'. M n2 = None \<and> vol dinv sec nsec (M(n1 := None, n2 \<mapsto> x)) (N(1 \<mapsto> ri')) {} s' \<and>
        vref s' = (vref s1)(q \<mapsto> (rq, oq, opq, x)) \<and> data_kept sec N s1 s')
      (\<lambda>e s'. (M n2 \<noteq> None \<and> e = EEXIST \<or> 60 \<le> length n2 \<and> e = ENAMETOOLONG \<or> e \<in> {ENOSPC, EIO, EFAULT}) \<and>
        (\<exists>N'. vol dinv sec nsec M N' {} s') \<and> vref s' = (vref s1)(q \<mapsto> (rq, oq, opq, x))) s1"
      by (rule rename_link_wp [OF v1(1) p1 room(2) name ri j1 Mx q1 rq])
    then have rl: "wpP (relink_fails dv p n2 q (int j) s1) (sfs_rename_link dv p n2 q (int j)) ?Q ?E s1"
      by (rule wpP_mono) (use bk Mx v1(4) in \<open>auto simp: data_kept_def\<close>)
    have "wpP ?P (sfs_rename_link dv p n2 q (int j)) ?Q ?E s1" if "sfs_lookonce dv p n1 s = Some (Inr (q, int j), s1)"
      by (rule wpP_weaken [OF rl]) (use that in \<open>auto simp: rename_fails_def\<close>)
    then show "sfs_lookonce dv p n1 s = Some (Inr a, s1) \<longrightarrow> (case a of (g1, slot1) \<Rightarrow> wpP ?P (sfs_rename_link dv p n2 g1 slot1) ?Q ?E) s1"
      unfolding aq case_prod_conv by (rule impI)
  qed auto
  then have "wpP ?P (bindK (sfs_lookonce dv p n1) (\<lambda>(g1, slot1). sfs_rename_link dv p n2 g1 slot1)) ?Q ?E s"
    by (intro wpP_bind) (simp add: case_prod_unfold)
  then show ?thesis
    unfolding sfs_rename_def wpP_def bindK_assert_True [OF refl] bind_svget [OF w(1)]
    using w(2) by (simp add: SFS_ROOT_LOCATION_def bindK_assert_True)
qed

end

section \<open>A volume with one file\<close>

text \<open>The root directory, inode 1, has the name \<^verbatim>\<open>a\<close> for inode 3; both are loaded.\<close>

definition example_file :: sfs_inode where
  "example_file = \<lparr>sfi_size = 100, sfi_type = SFS_TYPE_FILE, sfi_linkcount = 1,
     sfi_direct = [5, 0, 0, 0, 0, 0, 0, 0, 0, 0, 0, 0, 0, 0, 0], sfi_indirect = 0, sfi_waste = replicate 110 0\<rparr>"

definition example_vol_disk :: "simdisk lhd_softc" where
  "example_vol_disk = \<lparr>lh_card = \<lparr>sd_disk = (\<lambda>b. if b = 4 then [0, 0, 0, 3, 97] @ replicate 507 0 else replicate 512 (of_nat b)),
     sd_buf = replicate 512 0, sd_sect = 0, sd_stat = 0\<rparr>, lh_result = None, lh_clear = 1, lh_done = 0, lh_blocks = 2048\<rparr>"

definition example_vol :: "(simdisk lhd_softc) sfs_fs" where
  "example_vol = example_fs\<lparr>sfs_device := example_vol_disk,
     sfs_vnodes := \<lparr>arr_num = 2, arr_max = 2, arr_v = Some [Some 100, Some 101]\<rparr>,
     sfs_heap := [100 \<mapsto> \<lparr>vn_refcount = 1, vn_opencount = 0, vn_ops = SFS_DIROPS, sv_i = example_dir, sv_ino = 1, sv_dirty = True\<rparr>,
       101 \<mapsto> \<lparr>vn_refcount = 1, vn_opencount = 0, vn_ops = SFS_FILEOPS, sv_i = example_file, sv_ino = 3, sv_dirty = True\<rparr>],
     sfs_newptr := 102\<rparr>"

definition example_inodes :: "nat \<rightharpoonup> sfs_inode" where
  "example_inodes = [1 \<mapsto> example_dir, 3 \<mapsto> example_file]"

lemma example_vol_inodes: "fs_ok 2048 dk example_inodes example_vol"
proof -
  have p: "ptrs dk example_dir = [4] @ replicate 143 0" "ptrs dk example_file = [5] @ replicate 143 0"
    by (simp_all add: ptrs_def example_dir_def example_file_def id_words_def numeral_eq_Suc)
  have wf: "inode_wf example_dir" "inode_wf example_file"
    by (simp_all add: inode_wf_def example_dir_def example_file_def sfs_consts)
  have bits: "bits (sfs_freemap example_vol) = {..<6} \<union> {64..<4096}" using example_bits by (simp add: example_vol_def)
  have io: "inode_ok (bits (sfs_freemap example_vol)) 64 dk 1 example_dir" "inode_ok (bits (sfs_freemap example_vol)) 64 dk 3 example_file"
    unfolding inode_ok_def own_def p bits
    using wf by (auto simp: nzdistinct_def example_dir_def example_file_def sfs_consts sys_blocks_def SFS_BITBLOCKS_def
        SFS_BITMAPSIZE_def SFS_ROUNDUP_def)
  have m: "map_ok 2048 example_vol" using example_map by (simp add: map_ok_def example_vol_def)
  have own: "own dk 1 example_dir = {1, 4}" "own dk 3 example_file = {3, 5}" by (auto simp: own_def p)
  have nb: "sp_nblocks (sfs_super example_vol) = 64" by (simp add: example_vol_def example_fs_def)
  have h: "sfs_heap example_vol 100 = Some \<lparr>vn_refcount = 1, vn_opencount = 0, vn_ops = SFS_DIROPS, sv_i = example_dir, sv_ino = 1, sv_dirty = True\<rparr>"
    "sfs_heap example_vol 101 = Some \<lparr>vn_refcount = 1, vn_opencount = 0, vn_ops = SFS_FILEOPS, sv_i = example_file, sv_ino = 3, sv_dirty = True\<rparr>"
    by (simp_all add: example_vol_def)
  have dom: "dk n = enc_inode i" if "example_inodes n = Some i" "\<forall>p v. sfs_heap example_vol p = Some v \<longrightarrow> sv_ino v \<noteq> n" for n i
    using that(1) that(2) [rule_format, OF h(1)] that(2) [rule_format, OF h(2)] by (simp add: example_inodes_def split: if_splits)
  have heap: "heap_ok dk example_inodes (sfs_heap example_vol)"
    unfolding heap_ok_def
  proof (intro conjI)
    show "\<forall>n i. example_inodes n = Some i \<and> (\<forall>p v. sfs_heap example_vol p = Some v \<longrightarrow> sv_ino v \<noteq> n) \<longrightarrow> dk n = enc_inode i"
      using dom by blast
  qed (auto simp: example_inodes_def example_vol_def split: if_splits)
  show ?thesis
    unfolding fs_ok_def nb using m heap io own by (auto simp: example_inodes_def split: if_splits)
qed

lemma example_vol_dents: "dents (lhd_sec sd_disk (sfs_device example_vol)) example_dir =
    [\<lparr>sfd_ino = 3, sfd_name = 97 # replicate 59 0\<rparr>]"
proof -
  have blk: "fblk (lhd_sec sd_disk (sfs_device example_vol)) example_dir 0 = [0, 0, 0, 3, 97] @ replicate 507 0"
    by (simp add: fblk_def bmap_of_def example_dir_def example_vol_def lhd_sec_def example_vol_disk_def)
  have "fbytes (lhd_sec sd_disk (sfs_device example_vol)) example_dir 0 64 = [0, 0, 0, 3, 97] @ replicate 59 0"
    by (intro nth_equalityI) (auto simp: fbytes_def fbyte_def blk nth_append nth_Cons' split: if_splits)
  moreover have "sfi_size example_dir div 64 = 1" by (simp add: example_dir_def)
  ultimately show ?thesis by (simp add: dents_def dent_def dec_dir_def)
qed

lemma example_vol_map: "dir_map (dents (lhd_sec sd_disk (sfs_device example_vol)) example_dir) = [[97] \<mapsto> 3]"
proof -
  have u: "(97 # replicate 59 0)[59 := 0] = [97 :: byte] @ replicate 59 0"
    by (intro nth_equalityI) (auto simp: nth_list_update nth_Cons')
  have "cstr ((97 # replicate 59 0)[59 := 0]) = [97 :: byte]"
    unfolding u by (rule cstr_name) simp_all
  then show ?thesis unfolding example_vol_dents by (simp add: dir_map_def used_def dname_def SFS_NOINO_def)
qed

lemma example_vol_ok: "vol (lhd_inv sim_idle 2048) (lhd_sec sd_disk) 2048 [[97] \<mapsto> 3] example_inodes {} example_vol"
proof -
  have dv: "lhd_inv sim_idle 2048 (sfs_device example_vol)" by (simp add: lhd_inv_def example_vol_def example_vol_disk_def sim_idle_def)
  have vn: "array_rep (sfs_vnodes example_vol) [100, 101]" by (simp add: array_rep_def array_ok_def array_cells_def example_vol_def)
  have "vnode_ok v" if "sfs_heap example_vol p = Some v" for p v
    using that by (auto simp: vnode_ok_def ops_of_def example_vol_def example_dir_def example_file_def sfs_consts split: if_splits)
  moreover have "p < sfs_newptr example_vol" if "sfs_heap example_vol p = Some v" for p v
    using that by (auto simp: example_vol_def split: if_splits)
  moreover have "dom (sfs_heap example_vol) = {100, 101}" by (auto simp: example_vol_def)
  ultimately have "vt_ok example_vol" unfolding vt_ok_def using vn by (intro conjI exI [of _ "[100, 101]"]) auto
  then have st: "settled (lhd_inv sim_idle 2048) (lhd_sec sd_disk) 2048 example_inodes example_vol"
    using dv example_vol_inodes by (simp add: settled_def)
  have dk: "dir_ok (lhd_sec sd_disk (sfs_device example_vol)) example_dir"
    using example_vol_dents by (simp add: dir_ok_def example_dir_def dir_distinct_def)
  have "{nm :: byte list. [[97] \<mapsto> 3 :: nat] nm = Some 3} = {[97]}" by auto
  then have "links [[97] \<mapsto> 3] 3 = 1" by (simp add: links_def)
  then show ?thesis
    unfolding vol_def using st dk example_vol_map
    by (auto simp: example_inodes_def example_file_def split: if_splits)
qed

lemma example_vol_facts:
  "vref example_vol 100 = Some (1, 0, SFS_DIROPS, 1)" "vref example_vol 101 = Some (1, 0, SFS_FILEOPS, 3)" "vroom example_vol" "rc_ok example_vol"
  "dir_room example_inodes" "km_pages (sfs_km example_vol) 0 = None" "in_core example_vol 3"
proof -
  show f: "vref example_vol 101 = Some (1, 0, SFS_FILEOPS, 3)" by (simp add: vref_def example_vol_def)
  show "in_core example_vol 3" unfolding in_core_def using f by blast
  show "rc_ok example_vol" by (auto simp: rc_ok_def example_vol_def split: if_splits)
  show "vroom example_vol" by (simp add: vroom_def example_vol_def example_fs_def)
qed (simp_all add: vref_def example_vol_def example_fs_def dir_room_def example_inodes_def example_dir_def)

section \<open>Properties\<close>

text \<open>
  The operations are stated on a volume in order, on a disk whose writes do not fail, with the root directory in core at \<open>p\<close>. Where they may load a
  vnode, \<open>vroom\<close> says that the table of vnodes has a spare cell or memory does not run out: otherwise \<^verbatim>\<open>array_add\<close> can fail in
  \<^verbatim>\<open>sfs_loadvnode\<close>, which then destroys a lock nobody holds, a panic. \<open>rc_ok\<close> says that no reference count is at the largest \<^verbatim>\<open>int\<close>, \<open>dir_room\<close>
  that the directory is not at the largest size a file can have, and \<open>in_core\<close> that a vnode of the file is in use, so that the reference an
  operation drops is not the last: dropping the last one reclaims the vnode, which panics in the same way.
\<close>

text \<open>
  Property C16. With a spare cell in the table of vnodes or memory that does not run out, looking up a name gives the vnode of the inode the directory has for it, with one reference more, and
  ENOENT when the directory does not have it; otherwise it fails only for lack of memory or because the disk fails. The names,
  the link counts and the disk are as before.
\<close>

theorem sfs_lookup_exact:
  assumes "sfs_disk dv sec nsec dinv" and "vol dinv sec nsec M N {} s" and "vref s p = Some (rc, oc, ops, 1)" and "vroom s" and "rc_ok s"
  shows "wpK (sfs_lookup dv p path)
     (\<lambda>q s'. \<exists>ino. M path = Some ino \<and> vol dinv sec nsec M N {} s' \<and> vref s' = grab (vref s) ino q \<and> place (vref s) ino q \<and>
        sec (sfs_device s') = sec (sfs_device s))
     (\<lambda>e s'. (M path = None \<and> e = ENOENT \<or> e \<in> {EIO, EFAULT, ENOMEM}) \<and> vol dinv sec nsec M N {} s' \<and>
        vref s' = vref s \<and> sec (sfs_device s') = sec (sfs_device s)) s"
  by (rule sfs_disk.lookup_wp [OF assms])

theorem sfs_lookup_exact_witness:
  "wpK (sfs_lookup (lhd_device (sim_hw (\<lambda>_. False) (\<lambda>_. False)) 2048) 100 [97])
     (\<lambda>q s'. vref s' 101 = Some (2, 0, SFS_FILEOPS, 3)) (\<lambda>e s'. e \<in> {EIO, EFAULT, ENOMEM}) example_vol"
proof (rule wp_mono [OF sfs_lookup_exact [OF simd.sd.sfs_disk_axioms example_vol_ok example_vol_facts(1,3,4)]])
  fix q s'
  assume "\<exists>ino. [[97] \<mapsto> 3] [97] = Some ino \<and> vol (lhd_inv sim_idle 2048) (lhd_sec sd_disk) 2048 [[97] \<mapsto> 3] example_inodes {} s' \<and>
     vref s' = grab (vref example_vol) ino q \<and> place (vref example_vol) ino q \<and>
     lhd_sec sd_disk (sfs_device s') = lhd_sec sd_disk (sfs_device example_vol)"
  then have q: "vref s' = grab (vref example_vol) 3 q" "place (vref example_vol) 3 q" by auto
  have "in_core example_vol 3" by (rule example_vol_facts)
  with q(2) obtain rq oq opq where "vref example_vol q = Some (rq, oq, opq, 3)" by (rule in_core_place)
  then have "q = 101" by (auto simp: vref_def example_vol_def split: if_splits)
  then show "vref s' 101 = Some (2, 0, SFS_FILEOPS, 3)" using q(1) example_vol_facts(2) by (simp add: grab_def)
qed auto

text \<open>
  Property C36. On a disk whose writes do not fail, and with a directory that can grow, a successful link adds exactly that name for the file and counts it; a name that exists is refused. An error
  leaves the names and counts as they were. The contents of the files are untouched either way.
\<close>

theorem sfs_link_exact:
  assumes "sfs_disk dv sec nsec dinv" and "vol dinv sec nsec M N {} s" and "vref s p = Some (rc, oc, ops, 1)" and "dir_room N"
    and "0 \<notin> set name" and "vref s q = Some (rq, oq, opq, x)" and "x \<noteq> 1" and "N x = Some i"
  shows "wpK (sfs_link dv p name q)
     (\<lambda>_ s'. \<exists>ri'. M name = None \<and>
        vol dinv sec nsec (M(name \<mapsto> x)) (N(1 \<mapsto> ri', x \<mapsto> i\<lparr>sfi_linkcount := links M x + 1\<rparr>)) {} s' \<and>
        vref s' = vref s \<and> data_kept sec N s s')
     (\<lambda>e s'. (e = EEXIST \<and> M name \<noteq> None \<or> e = ENAMETOOLONG \<and> 60 \<le> length name \<or> e \<in> {ENOSPC, EIO, EFAULT}) \<and>
        (\<exists>ri'. vol dinv sec nsec M (N(1 \<mapsto> ri')) {} s' \<and> vref s' = vref s \<and> data_kept sec N s s')) s"
  by (rule sfs_disk.link_wp [OF assms])

theorem sfs_link_exact_witness:
  "wpK (sfs_link (lhd_device (sim_hw (\<lambda>_. False) (\<lambda>_. False)) 2048) 100 [98] 101)
     (\<lambda>_ s'. \<exists>N'. vol (lhd_inv sim_idle 2048) (lhd_sec sd_disk) 2048 [[97] \<mapsto> 3, [98] \<mapsto> 3] N' {} s')
     (\<lambda>e s'. e \<in> {ENOSPC, EIO, EFAULT}) example_vol"
  by (rule wp_mono [OF sfs_link_exact [OF simd.sd.sfs_disk_axioms example_vol_ok example_vol_facts(1,5) _ example_vol_facts(2)]])
    (auto simp: example_inodes_def)

text \<open>
  Property C14. On a disk whose writes do not fail, with a directory that can grow, and with a spare cell in the table of vnodes or memory that does
  not run out: creating a name that does not exist makes a new inode of type file, with one link, and binds the name to
  it; an existing name is opened, or refused with EEXIST under \<open>excl\<close>. An error leaves the names as they were. Under these
  conditions the call does not return only when entering the name in the directory fails, since the vnode just made is then reclaimed.
  (Without the room for a vnode it can panic earlier, in loading it.)
\<close>

theorem sfs_creat_exact:
  assumes "sfs_disk dv sec nsec dinv" and "vol dinv sec nsec M N {} s" and "vref s p = Some (rc, oc, ops, 1)" and "vroom s" and "dir_room N"
    and "rc_ok s" and "0 \<notin> set name" and "km_pages (sfs_km s) 0 = None"
  shows "wpP (creat_fails dv p name s) (sfs_creat dv p name excl)
     (\<lambda>q s'. data_kept sec N s s' \<and>
        (case M name of
           Some ino \<Rightarrow> \<not> excl \<and> vol dinv sec nsec M N {} s' \<and> vref s' = grab (vref s) ino q \<and> place (vref s) ino q
         | None \<Rightarrow> \<exists>b ri'. N b = None \<and> vref s q = None \<and>
             vol dinv sec nsec (M(name \<mapsto> b)) (N(1 \<mapsto> ri', b \<mapsto> new_inode\<lparr>sfi_linkcount := 1\<rparr>)) {} s' \<and>
             vref s' = (vref s)(q \<mapsto> (1, 0, SFS_FILEOPS, b))))
     (\<lambda>e s'. (excl \<and> M name \<noteq> None \<and> e = EEXIST \<or> e \<in> {ENOSPC, ENOMEM, EIO, EFAULT, ENAMETOOLONG}) \<and>
        (\<exists>N'. vol dinv sec nsec M N' {} s')) s"
  by (rule sfs_disk.creat_wp [OF assms])

theorem sfs_creat_exact_witness:
  "wpP (creat_fails (lhd_device (sim_hw (\<lambda>_. False) (\<lambda>_. False)) 2048) 100 [98] example_vol)
     (sfs_creat (lhd_device (sim_hw (\<lambda>_. False) (\<lambda>_. False)) 2048) 100 [98] True)
     (\<lambda>q s'. \<exists>b N'. vol (lhd_inv sim_idle 2048) (lhd_sec sd_disk) 2048 [[97] \<mapsto> 3, [98] \<mapsto> b] N' {} s' \<and> vref s' q = Some (1, 0, SFS_FILEOPS, b))
     (\<lambda>e s'. e \<in> {ENOSPC, ENOMEM, EIO, EFAULT, ENAMETOOLONG}) example_vol"
  by (rule wpP_mono [OF sfs_creat_exact [OF simd.sd.sfs_disk_axioms example_vol_ok example_vol_facts(1,3,5,4) _ example_vol_facts(6)]]) auto

text \<open>
  Property C15. On a disk whose writes do not fail, and with a spare cell in the table of vnodes or memory that does not run out, removing a name of
  a file that is in use takes away exactly that name and one link, and keeps the inode, its
  contents and every vnode; ENOENT when there is no such name. An error leaves the names and counts as they were.
\<close>

theorem sfs_remove_exact:
  assumes "sfs_disk dv sec nsec dinv" and "vol dinv sec nsec M N {} s" and "vref s p = Some (rc, oc, ops, 1)" and "vroom s" and "rc_ok s"
    and "\<And>x. M name = Some x \<Longrightarrow> in_core s x"
  shows "wpK (sfs_remove dv p name)
     (\<lambda>_ s'. \<exists>x i ri'. M name = Some x \<and> N x = Some i \<and>
        vol dinv sec nsec (M(name := None)) (N(1 \<mapsto> ri', x \<mapsto> i\<lparr>sfi_linkcount := links M x - 1\<rparr>)) {} s' \<and>
        vref s' = vref s \<and> data_kept sec N s s')
     (\<lambda>e s'. (M name = None \<and> e = ENOENT \<or> e \<in> {ENOSPC, EIO, EFAULT, ENOMEM}) \<and>
        (\<exists>ri'. vol dinv sec nsec M (N(1 \<mapsto> ri')) {} s' \<and> vref s' = vref s \<and> data_kept sec N s s')) s"
  using sfs_disk.remove_wp [OF assms] .

theorem sfs_remove_exact_witness:
  "wpK (sfs_remove (lhd_device (sim_hw (\<lambda>_. False) (\<lambda>_. False)) 2048) 100 [97])
     (\<lambda>_ s'. \<exists>N'. vol (lhd_inv sim_idle 2048) (lhd_sec sd_disk) 2048 Map.empty N' {} s' \<and> vref s' = vref example_vol)
     (\<lambda>e s'. e \<in> {ENOSPC, EIO, EFAULT, ENOMEM}) example_vol"
  by (rule wp_mono [OF sfs_remove_exact [OF simd.sd.sfs_disk_axioms example_vol_ok example_vol_facts(1,3,4)]])
    (use example_vol_facts(7) in \<open>auto split: if_splits\<close>)

text \<open>
  Property C6. On a disk whose writes do not fail, with a directory that can grow, and with a spare cell in the table of vnodes or memory that does
  not run out: renaming a file that is in use, which has a vnode in core, moves its name to one that did not exist and changes nothing else: no count, no
  contents, no other name. On an error every name is as it was. Under
  these conditions it stops the system only when taking out the old name fails and
  taking out the new one, to undo the work, fails as well. (For a file not in core, dropping the last reference at the end panics.)
\<close>

theorem sfs_rename_exact:
  assumes "sfs_disk dv sec nsec dinv" and "vol dinv sec nsec M N {} s" and "vref s p = Some (rc, oc, ops, 1)" and "vroom s" and "dir_room N"
    and "rc_ok s" and "0 \<notin> set n2" and "\<And>x. M n1 = Some x \<Longrightarrow> in_core s x"
  shows "wpP (rename_fails dv p n1 n2 s)
     (sfs_rename dv p n1 p n2)
     (\<lambda>_ s'. \<exists>x ri'. M n1 = Some x \<and> M n2 = None \<and> vol dinv sec nsec (M(n1 := None, n2 \<mapsto> x)) (N(1 \<mapsto> ri')) {} s' \<and>
        vref s' = vref s \<and> data_kept sec N s s')
     (\<lambda>e s'. (M n1 = None \<and> e = ENOENT \<or> M n2 \<noteq> None \<and> e = EEXIST \<or> 60 \<le> length n2 \<and> e = ENAMETOOLONG \<or>
          e \<in> {ENOSPC, EIO, EFAULT, ENOMEM}) \<and>
        (\<exists>N'. vol dinv sec nsec M N' {} s') \<and> vref s' = vref s) s"
  using sfs_disk.rename_wp [OF assms] .

theorem sfs_rename_exact_witness:
  "wpP (rename_fails (lhd_device (sim_hw (\<lambda>_. False) (\<lambda>_. False)) 2048) 100 [97] [98] example_vol)
     (sfs_rename (lhd_device (sim_hw (\<lambda>_. False) (\<lambda>_. False)) 2048) 100 [97] 100 [98])
     (\<lambda>_ s'. \<exists>N'. vol (lhd_inv sim_idle 2048) (lhd_sec sd_disk) 2048 [[98] \<mapsto> 3] N' {} s')
     (\<lambda>e s'. e \<in> {ENOSPC, EIO, EFAULT, ENOMEM}) example_vol"
proof -
  have c: "in_core example_vol x" if "[[97 :: byte] \<mapsto> 3] [97] = Some x" for x using that example_vol_facts(7) by simp
  have m: "[[97 :: byte] \<mapsto> 3 :: nat]([97] := None, [98] \<mapsto> x) = [[98] \<mapsto> x]" for x by auto
  show ?thesis
    by (rule wpP_mono [OF sfs_rename_exact [where M = "[[97] \<mapsto> 3]", OF simd.sd.sfs_disk_axioms example_vol_ok example_vol_facts(1,3,5,4) _ c]])
      (use m in auto)
qed

end
