(* ===== verification/SFS_Fs.thy ===== *)
theory SFS_Fs
  imports SFS_Ops
begin

text \<open>
  SFS as a whole (\<^verbatim>\<open>kern/fs/sfs/sfs_fs.c\<close>): reading and writing the free block map, sync, unmount and mount; and that what
  sync leaves on the disk is the volume: mounting it again gives the same names, inodes and contents.

  \<^verbatim>\<open>sfs_domount\<close> works on the object it allocates: its state is that object, with whatever was in memory there, on the device
  to be mounted. Freeing memory has no effect the model could show.
\<close>

section \<open>Operations\<close>

text \<open>
  One sector of the map: \<^verbatim>\<open>ptr = bitdata + j*SFS_BLOCKSIZE\<close>. An access beyond the map's memory is undefined.
\<close>

definition sfs_map_sector :: "'d device \<Rightarrow> uio_rw \<Rightarrow> nat \<Rightarrow> ('d sfs_fs, unit) kern" where
  "sfs_map_sector dv rw j =
     bindK (getK (\<lambda>s. bitmap_getdata (sfs_freemap s))) (\<lambda>bitdata.
       if j * SFS_BLOCKSIZE + SFS_BLOCKSIZE > length bitdata then panicK
       else if rw = UIO_READ then
         bindK (sfs_rblock dv (SFS_MAP_LOCATION + j)) (\<lambda>bs.
         modK (\<lambda>s. s\<lparr>sfs_freemap := (sfs_freemap s)\<lparr>bm_v :=
            take (j * SFS_BLOCKSIZE) bitdata @ bs @ drop (j * SFS_BLOCKSIZE + SFS_BLOCKSIZE) bitdata\<rparr>\<rparr>))
       else sfs_wblock dv (take SFS_BLOCKSIZE (drop (j * SFS_BLOCKSIZE) bitdata)) (SFS_MAP_LOCATION + j))"

definition sfs_mapio :: "'d device \<Rightarrow> uio_rw \<Rightarrow> ('d sfs_fs, unit) kern" where
  "sfs_mapio dv rw =
     bindK (getK (\<lambda>s. SFS_BITBLOCKS (sp_nblocks (sfs_super s)))) (\<lambda>mapsize.
     foldK (\<lambda>j _. sfs_map_sector dv rw j) [0..<mapsize] ())"

text \<open>The loop over the loaded vnodes; what \<^verbatim>\<open>VOP_FSYNC\<close> returns is not looked at.\<close>

definition sfs_sync_vnode :: "'d device \<Rightarrow> nat \<Rightarrow> ('d sfs_fs, unit) kern" where
  "sfs_sync_vnode dv i =
     bindK (on_vnodes (array_getguy (int i))) (\<lambda>sv.
     bindK (tryK (VOP_FSYNC dv sv)) (\<lambda>_. retK ()))"

definition sfs_sync :: "'d device \<Rightarrow> ('d sfs_fs, unit) kern" where
  "sfs_sync dv =
     bindK (getK (\<lambda>s. array_getnum (sfs_vnodes s))) (\<lambda>num.
     bindK (foldK (\<lambda>i _. sfs_sync_vnode dv i) [0..<nat num] ()) (\<lambda>_.
     bindK (getK sfs_freemapdirty) (\<lambda>mapdirty.
     bindK (if mapdirty then
         bindK (sfs_mapio dv UIO_WRITE) (\<lambda>_.
         modK (\<lambda>s. s\<lparr>sfs_freemapdirty := False\<rparr>))
       else retK ()) (\<lambda>_.
     bindK (getK sfs_superdirty) (\<lambda>superdirty.
       if superdirty then
         bindK (getK sfs_super) (\<lambda>super.
         bindK (sfs_wblock dv (enc_super super) SFS_SB_LOCATION) (\<lambda>_.
         modK (\<lambda>s. s\<lparr>sfs_superdirty := False\<rparr>)))
       else retK ())))))"

definition sfs_getvolname :: "('d sfs_fs, byte list) kern" where
  "sfs_getvolname = getK (\<lambda>s. cstr (sp_volname (sfs_super s)))"

definition sfs_unmount :: "('d sfs_fs, unit) kern" where
  "sfs_unmount =
     bindK (getK (\<lambda>s. array_getnum (sfs_vnodes s))) (\<lambda>num.
       if num > 0 then failK EBUSY
       else
         bindK (getK sfs_superdirty) (\<lambda>sd.
         bindK (assertK (\<not> sd)) (\<lambda>_.
         bindK (getK sfs_freemapdirty) (\<lambda>md.
         assertK (\<not> md)))))"

definition sfs_domount :: "'d device \<Rightarrow> ('d sfs_fs, unit) kern" where
  "sfs_domount dv =
     (if d_blocksize dv \<noteq> SFS_BLOCKSIZE then failK ENXIO
      else
        bindK (on_km (kmalloc 552)) (\<lambda>sfs.
        if \<not> sfs then failK ENOMEM else
        bindK (on_km (kmalloc 12)) (\<lambda>ok.
        case array_create (\<lambda>_. ok) of
          None \<Rightarrow> failK ENOMEM
        | Some a \<Rightarrow>
            bindK (modK (\<lambda>s. s\<lparr>sfs_vnodes := a\<rparr>)) (\<lambda>_.
            bindK (sfs_rblock dv SFS_SB_LOCATION) (\<lambda>bs.
            bindK (modK (\<lambda>s. s\<lparr>sfs_super := dec_super bs\<rparr>)) (\<lambda>_.
            if sp_magic (dec_super bs) \<noteq> SFS_MAGIC then failK EINVAL
            else
              bindK (modK (\<lambda>s. s\<lparr>sfs_super := (sfs_super s)\<lparr>sp_volname := (sp_volname (sfs_super s))[31 := 0]\<rparr>\<rparr>)) (\<lambda>_.
              bindK (getK (\<lambda>s. SFS_BITMAPSIZE (sp_nblocks (sfs_super s)))) (\<lambda>nbits.
              bindK (on_km (bitmap_create nbits)) (\<lambda>b.
              case b of
                None \<Rightarrow> failK ENOMEM
              | Some freemap \<Rightarrow>
                  bindK (modK (\<lambda>s. s\<lparr>sfs_freemap := freemap\<rparr>)) (\<lambda>_.
                  bindK (sfs_mapio dv UIO_READ) (\<lambda>_.
                  modK (\<lambda>s. s\<lparr>sfs_superdirty := False, sfs_freemapdirty := False\<rparr>))))))))))))"

section \<open>Blocks that are not file data\<close>

text \<open>The inodes and the blocks of the file system itself are not where files keep their data.\<close>

lemma own_not_meta:
  assumes ok: "fs_ok ns dk N s" and n: "N n = Some i" and b: "b \<in> own dk n i" "b \<noteq> n"
  shows "b \<notin> dom N" "b \<notin> sys_blocks (sp_nblocks (sfs_super s))"
proof -
  show "b \<notin> sys_blocks (sp_nblocks (sfs_super s))" using inode_okD(8) [OF fs_okD(3) [OF ok n]] b(1) by blast
  show "b \<notin> dom N"
  proof
    assume "b \<in> dom N"
    then obtain j where "N b = Some j" by auto
    then have "own dk n i \<inter> own dk b j = {}" using fs_okD(4) [OF ok n] b(2) by blast
    then show False using b(1) self_own [of b dk j] by blast
  qed
qed

text \<open>The disk changed in such blocks only.\<close>

definition meta_only :: "(nat \<rightharpoonup> sfs_inode) \<Rightarrow> nat \<Rightarrow> (nat \<Rightarrow> byte list) \<Rightarrow> (nat \<Rightarrow> byte list) \<Rightarrow> bool" where
  "meta_only N nb dk dk' \<longleftrightarrow> (\<forall>b. b \<notin> dom N \<and> b \<notin> sys_blocks nb \<longrightarrow> dk' b = dk b)"

lemma meta_only_refl [simp]: "meta_only N nb dk dk"
  by (simp add: meta_only_def)

lemma meta_only_trans: "meta_only N nb dk dk' \<Longrightarrow> meta_only N nb dk' dk'' \<Longrightarrow> meta_only N nb dk dk''"
  by (simp add: meta_only_def)

lemma meta_only_ptrs:
  assumes ok: "fs_ok ns dk N s" and m: "meta_only N (sp_nblocks (sfs_super s)) dk dk'" and n: "N n = Some i"
  shows "ptrs dk' i = ptrs dk i" "own dk' n i = own dk n i" "fblk dk' i k = fblk dk i k"
proof -
  note io = fs_okD(3) [OF ok n]
  have e: "dk' b = dk b" if "b \<in> own dk n i" "b \<noteq> n" for b
    using m own_not_meta [OF ok n that] by (simp add: meta_only_def)
  have ne: "b \<in> set (ptrs dk i) \<Longrightarrow> b \<noteq> n" for b using inode_okD(5) [OF io] by auto
  have ind: "sfi_indirect i \<in> set (ptrs dk i)" by (simp add: ptrs_def)
  have "sfi_indirect i = 0 \<or> dk' (sfi_indirect i) = dk (sfi_indirect i)"
    using e [of "sfi_indirect i"] ne [OF ind] ind by (auto simp: own_def)
  then show p: "ptrs dk' i = ptrs dk i" by (rule ptrs_cong)
  then show "own dk' n i = own dk n i" by (rule own_cong)
  have bm: "bmap_of dk' i k = bmap_of dk i k" using p inode_okD(2) [OF io] by (intro bmap_of_cong)
  have "dk' (bmap_of dk i k) = dk (bmap_of dk i k)" if "bmap_of dk i k \<noteq> 0"
  proof -
    have "k < 143" using that bmap_of_0 [of k dk i] by (cases "k < 143") auto
    then have "bmap_of dk i k \<in> set (ptrs dk i)"
      using bmap_of_ptrs [OF inode_okD(2) [OF io], of k dk] length_ptrs [OF inode_okD(2) [OF io], of dk] by auto
    then show ?thesis using e ne that by (auto simp: own_def)
  qed
  then show "fblk dk' i k = fblk dk i k" by (simp add: fblk_def bm)
qed

text \<open>So the invariant stands as long as the inodes on the disk do.\<close>

lemma fs_ok_meta:
  assumes ok: "fs_ok ns dk N s" and m: "meta_only N (sp_nblocks (sfs_super s)) dk dk'"
    and s': "sfs_super s' = sfs_super s" "sfs_freemap s' = sfs_freemap s" and h: "heap_ok dk' N (sfs_heap s')"
  shows "fs_ok ns dk' N s'"
proof -
  note p = meta_only_ptrs [OF ok m]
  have "inode_ok (bits (sfs_freemap s)) (sp_nblocks (sfs_super s)) dk' n i" if "N n = Some i" for n i
    using fs_okD(3) [OF ok that] p(1,2) [OF that] by (simp add: inode_ok_def)
  moreover have "own dk' n i \<inter> own dk' m j = {}" if "N n = Some i" "N m = Some j" "n \<noteq> m" for n m i j
    using fs_okD(4) [OF ok that] p(2) [OF that(1)] p(2) [OF that(2)] by simp
  moreover have "map_ok ns s'" using fs_okD(1) [OF ok] s' by (simp add: map_ok_def)
  ultimately show ?thesis unfolding fs_ok_def using s' h by auto
qed

section \<open>Sync\<close>

definition map_sector :: "nat \<Rightarrow> byte list \<Rightarrow> byte list" where
  "map_sector j v = take 512 (drop (j * 512) v)"

definition map_on_disk :: "(nat \<Rightarrow> byte list) \<Rightarrow> nat \<Rightarrow> byte list \<Rightarrow> bool" where
  "map_on_disk dk nb v \<longleftrightarrow> (\<forall>j < SFS_BITBLOCKS nb. dk (2 + j) = map_sector j v)"

text \<open>The shape of a volume that can be mounted.\<close>

definition geom :: "sfs_super \<Rightarrow> bitmap \<Rightarrow> bool" where
  "geom sp bm \<longleftrightarrow> super_wf sp \<and> sp_magic sp = SFS_MAGIC \<and> sp_volname sp ! 31 = 0 \<and>
     nbits bm = SFS_BITMAPSIZE (sp_nblocks sp) \<and> 2 + SFS_BITBLOCKS (sp_nblocks sp) \<le> sp_nblocks sp"

text \<open>What the dirty flags mean.\<close>

definition flags_ok :: "('d \<Rightarrow> nat \<Rightarrow> byte list) \<Rightarrow> 'd sfs_fs \<Rightarrow> bool" where
  "flags_ok sc s \<longleftrightarrow> (\<not> sfs_superdirty s \<longrightarrow> sc (sfs_device s) 0 = enc_super (sfs_super s)) \<and>
     (\<not> sfs_freemapdirty s \<longrightarrow> map_on_disk (sc (sfs_device s)) (sp_nblocks (sfs_super s)) (bm_v (sfs_freemap s)))"

lemma geom_length:
  assumes "geom sp bm" "bitmap_ok bm"
  shows "length (bm_v bm) = SFS_BITBLOCKS (sp_nblocks sp) * 512"
proof -
  have "SFS_BITMAPSIZE nb = SFS_BITBLOCKS nb * 4096" for nb
  proof -
    define y where "y = u32 (nb + 4095)"
    have "y div 4096 * 4096 < 4294967296" by (rule le_less_trans [of _ y]) (simp_all add: y_def u32_def)
    then have "u32 (y div 4096 * 4096) = y div 4096 * 4096" by (simp add: u32_def)
    then show ?thesis by (simp add: SFS_BITBLOCKS_def SFS_BITMAPSIZE_def SFS_ROUNDUP_def SFS_BLOCKBITS_def sfs_consts y_def add.commute)
  qed
  then have "nbits bm = SFS_BITBLOCKS (sp_nblocks sp) * 4096" using assms(1) by (simp add: geom_def)
  then show ?thesis using assms(2) by (simp add: bitmap_ok_def)
qed

text \<open>After a sync the disk alone has the volume.\<close>

definition on_disk :: "('d \<Rightarrow> nat \<Rightarrow> byte list) \<Rightarrow> (nat \<rightharpoonup> sfs_inode) \<Rightarrow> 'd sfs_fs \<Rightarrow> bool" where
  "on_disk sc N s \<longleftrightarrow> sc (sfs_device s) 0 = enc_super (sfs_super s) \<and>
     map_on_disk (sc (sfs_device s)) (sp_nblocks (sfs_super s)) (bm_v (sfs_freemap s)) \<and>
     (\<forall>n i. N n = Some i \<longrightarrow> sc (sfs_device s) n = enc_inode i)"

text \<open>All vnodes as before, but for the dirty flags.\<close>

definition flushed :: "'d sfs_fs \<Rightarrow> (nat \<rightharpoonup> sfs_vnode) \<Rightarrow> bool" where
  "flushed s h' \<longleftrightarrow> (\<forall>p. map_option (\<lambda>v. v\<lparr>sv_dirty := False\<rparr>) (h' p) = map_option (\<lambda>v. v\<lparr>sv_dirty := False\<rparr>) (sfs_heap s p))"

context sfs_disk begin

lemma sync_inode_wp:
  assumes st: "settled dinv sec nsec N s" and q: "sfs_heap s q = Some w"
  shows "wpK (sfs_sync_inode dv q)
     (\<lambda>_ s'. \<exists>d'. s' = s\<lparr>sfs_device := d', sfs_heap := (sfs_heap s)(q \<mapsto> w\<lparr>sv_dirty := False\<rparr>)\<rparr> \<and>
        settled dinv sec nsec N s' \<and> (\<forall>b. b \<notin> dom N \<longrightarrow> sec d' b = sec (sfs_device s) b)) (\<lambda>_ _. False) s" (is "wpK _ ?Q _ s")
proof (cases "sv_dirty w")
  case False
  then have "w\<lparr>sv_dirty := False\<rparr> = w" by (cases w) simp
  then have "s = s\<lparr>sfs_device := sfs_device s, sfs_heap := (sfs_heap s)(q \<mapsto> w\<lparr>sv_dirty := False\<rparr>)\<rparr>"
    using q by (cases s) (simp add: fun_upd_idem)
  then have "?Q () s" using st by (intro exI [of _ "sfs_device s"]) simp
  then show ?thesis using q False by (simp add: sfs_sync_inode_def wp)
next
  case True
  have ok: "fs_ok nsec (sec (sfs_device s)) N s" and dn: "dinv (sfs_device s)" and vt: "vt_ok s" using st by (auto simp: settled_def)
  note hp = fs_okD(2) [OF ok]
  have N: "N (sv_ino w) = Some (sv_i w)" using heap_okD(1) [OF hp q] .
  note io = fs_okD(3) [OF ok N]
  have ns: "sv_ino w < nsec" using inode_ok_self(2) [OF io] fs_okD(1) [OF ok] by (simp add: map_ok_def)
  have len: "length (enc_inode (sv_i w)) = 512" using inode_okD(1) [OF io] by simp
  have "wpK (sfs_wblock dv (enc_inode (sv_i w)) (sv_ino w)) (\<lambda>_. wpK (svmod q (\<lambda>v. v\<lparr>sv_dirty := False\<rparr>)) ?Q (\<lambda>_ _. False)) (\<lambda>_ _. False) s"
  proof (rule wp_mono [OF wblock_wp [OF dn ns len]])
    fix u s1 assume "dev_step dinv sec (\<lambda>f. f(sv_ino w := enc_inode (sv_i w))) s s1"
    then obtain d' where d: "s1 = s\<lparr>sfs_device := d'\<rparr>" "dinv d'" "sec d' = (sec (sfs_device s))(sv_ino w := enc_inode (sv_i w))"
      by (auto simp: dev_step_def)
    let ?w = "w\<lparr>sv_dirty := False\<rparr>"
    let ?h = "(sfs_heap s)(q \<mapsto> ?w)"
    let ?s = "s\<lparr>sfs_device := d', sfs_heap := ?h\<rparr>"
    have same: "\<forall>b. b \<notin> dom N \<longrightarrow> sec d' b = sec (sfs_device s) b" using d(3) N by auto
    have "heap_ok (sec d') N ?h"
      unfolding heap_ok_def
    proof (intro conjI allI impI)
      fix p v assume v: "?h p = Some v"
      show "N (sv_ino v) = Some (sv_i v)" using v heap_okD(1) [OF hp] N by (auto split: if_splits)
      assume nd: "\<not> sv_dirty v"
      show "sec d' (sv_ino v) = enc_inode (sv_i v)"
        using v nd d(3) heap_okD(2,3) [OF hp] q by (auto split: if_splits)
    next
      fix p r v u assume "?h p = Some v \<and> ?h r = Some u \<and> sv_ino v = sv_ino u"
      then show "p = r" using heap_okD(3) [OF hp] q by (auto split: if_splits)
    next
      fix n i assume a: "N n = Some i \<and> (\<forall>p v. ?h p = Some v \<longrightarrow> sv_ino v \<noteq> n)"
      then have a2: "?h p = Some v \<Longrightarrow> sv_ino v \<noteq> n" for p v by blast
      have nq: "n \<noteq> sv_ino w" using a2 [of q ?w] by simp
      have "sv_ino v \<noteq> n" if "sfs_heap s p = Some v" for p v
        using a2 [of p v] that nq q by (cases "p = q") auto
      then show "sec d' n = enc_inode i" using heap_okD(4) [OF hp, of n i] a d(3) nq by auto
    qed
    then have "fs_ok nsec (sec d') N ?s"
      by (intro fs_ok_meta [OF ok]) (use same in \<open>auto simp: meta_only_def\<close>)
    moreover have "vt_ok ?s" using vt_ok_update [OF vt q, of ?s ?w] vt_okD(2) [OF vt q] by (simp add: vnode_ok_def)
    ultimately have "settled dinv sec nsec N ?s" using d(2) by (simp add: settled_def)
    then show "wpK (svmod q (\<lambda>v. v\<lparr>sv_dirty := False\<rparr>)) ?Q (\<lambda>_ _. False) s1"
      using same q by (auto simp: wp d(1))
  qed simp
  then show ?thesis using q True by (simp add: sfs_sync_inode_def wp)
qed

lemma sync_vnodes_wp:
  assumes st: "settled dinv sec nsec N s"
  shows "wpK (foldK (\<lambda>i _. sfs_sync_vnode dv i) [0..<nat (array_getnum (sfs_vnodes s))] ())
     (\<lambda>_ s'. \<exists>d' h'. s' = s\<lparr>sfs_device := d', sfs_heap := h'\<rparr> \<and> settled dinv sec nsec N s' \<and>
        (\<forall>b. b \<notin> dom N \<longrightarrow> sec d' b = sec (sfs_device s) b) \<and> flushed s h' \<and> (\<forall>p v. h' p = Some v \<longrightarrow> \<not> sv_dirty v))
     (\<lambda>_ _. False) s"
proof -
  obtain ps where ps: "array_rep (sfs_vnodes s) ps" "set ps = dom (sfs_heap s)" using st unfolding settled_def by (auto elim: vt_okE)
  define I where "I k (u :: unit) s' \<longleftrightarrow> (\<exists>d' h'. s' = s\<lparr>sfs_device := d', sfs_heap := h'\<rparr> \<and> settled dinv sec nsec N s' \<and>
        (\<forall>b. b \<notin> dom N \<longrightarrow> sec d' b = sec (sfs_device s) b) \<and> flushed s h' \<and>
        (\<forall>j < k. \<forall>v. h' (ps ! j) = Some v \<longrightarrow> \<not> sv_dirty v))" for k u s'
  have num: "nat (array_getnum (sfs_vnodes s)) = length ps" using array_getnum_spec [OF ps(1)] by simp
  have "wpK (foldK (\<lambda>i _. sfs_sync_vnode dv i) [0..<length ps] ()) (I (length ps)) (\<lambda>_ _. False) s"
  proof (rule foldK_upt_wp)
    show "I 0 () s" unfolding I_def using st by (intro exI [of _ "sfs_device s"] exI [of _ "sfs_heap s"]) (simp add: flushed_def)
  next
    fix k u s1 assume k: "k < length ps" and "I k u s1"
    then obtain d' h' where s1: "s1 = s\<lparr>sfs_device := d', sfs_heap := h'\<rparr>" and st1: "settled dinv sec nsec N s1"
      and dk: "\<forall>b. b \<notin> dom N \<longrightarrow> sec d' b = sec (sfs_device s) b" and fl: "flushed s h'"
      and cl: "\<forall>j < k. \<forall>v. h' (ps ! j) = Some v \<longrightarrow> \<not> sv_dirty v" by (auto simp: I_def)
    obtain v0 where "sfs_heap s (ps ! k) = Some v0" using k ps(2) nth_mem [OF k] by auto
    then obtain w where w: "h' (ps ! k) = Some w" using fl unfolding flushed_def by (metis map_option_eq_Some)
    then have w1: "sfs_heap s1 (ps ! k) = Some w" by (simp add: s1)
    have "vnode_ok w" using st1 w1 vt_okD(2) by (auto simp: settled_def)
    then have chk: "vnode_check False (ps ! k) s1 = Some (Inr (), s1)"
      using w1 by (simp add: vnode_check_def bind_svget retK_def vnode_ok_def)
    have "wpK (sfs_sync_inode dv (ps ! k)) (\<lambda>_. I (Suc k) ()) (\<lambda>_. I (Suc k) ()) s1"
    proof (rule wp_mono [OF sync_inode_wp [OF st1 w1]])
      fix t s2 assume "\<exists>d2. s2 = s1\<lparr>sfs_device := d2, sfs_heap := (sfs_heap s1)(ps ! k \<mapsto> w\<lparr>sv_dirty := False\<rparr>)\<rparr> \<and>
        settled dinv sec nsec N s2 \<and> (\<forall>b. b \<notin> dom N \<longrightarrow> sec d2 b = sec (sfs_device s1) b)"
      then obtain d2 where s2: "s2 = s\<lparr>sfs_device := d2, sfs_heap := h'(ps ! k \<mapsto> w\<lparr>sv_dirty := False\<rparr>)\<rparr>"
        and st2: "settled dinv sec nsec N s2" "\<forall>b. b \<notin> dom N \<longrightarrow> sec d2 b = sec (sfs_device s) b" using dk by (auto simp: s1)
      have "Some (w\<lparr>sv_dirty := False\<rparr>) = map_option (\<lambda>v. v\<lparr>sv_dirty := False\<rparr>) (sfs_heap s (ps ! k))"
        using fl w unfolding flushed_def by (metis option.simps(9))
      then have "flushed s (h'(ps ! k \<mapsto> w\<lparr>sv_dirty := False\<rparr>))" using fl by (auto simp: flushed_def option.map_comp comp_def)
      moreover have "\<forall>j < Suc k. \<forall>v. (h'(ps ! k \<mapsto> w\<lparr>sv_dirty := False\<rparr>)) (ps ! j) = Some v \<longrightarrow> \<not> sv_dirty v"
        using cl by (auto simp: less_Suc_eq)
      ultimately show "I (Suc k) () s2"
        unfolding I_def using s2 st2 by blast
    qed simp
    then have "wpK (VOP_FSYNC dv (ps ! k)) (\<lambda>_. I (Suc k) ()) (\<lambda>_. I (Suc k) ()) s1"
      using chk by (simp add: VOP_FSYNC_def sfs_fsync_def wp wpK_def [of "vnode_check _ _"])
    then show "wpK (sfs_sync_vnode dv k) (I (Suc k)) (\<lambda>_ _. False) s1"
      using array_getguy_spec [OF ps(1) k] by (simp add: sfs_sync_vnode_def wp wpK_def [of "array_getguy _"] s1)
  qed simp
  then show ?thesis
    unfolding num
  proof (rule wp_mono)
    fix u s' assume "I (length ps) u s'"
    then obtain d' h' where s1: "s' = s\<lparr>sfs_device := d', sfs_heap := h'\<rparr>" "settled dinv sec nsec N s'"
      "\<forall>b. b \<notin> dom N \<longrightarrow> sec d' b = sec (sfs_device s) b" "flushed s h'"
      and cl: "\<forall>j < length ps. \<forall>v. h' (ps ! j) = Some v \<longrightarrow> \<not> sv_dirty v" by (auto simp: I_def)
    have "\<not> sv_dirty v" if v: "h' p = Some v" for p v
    proof -
      have "p \<in> set ps" using v s1(4) ps(2) unfolding flushed_def by (metis domIff map_option_is_None option.distinct(1))
      then show ?thesis using cl v by (auto simp: in_set_conv_nth)
    qed
    then show "\<exists>d' h'. s' = s\<lparr>sfs_device := d', sfs_heap := h'\<rparr> \<and> settled dinv sec nsec N s' \<and>
        (\<forall>b. b \<notin> dom N \<longrightarrow> sec d' b = sec (sfs_device s) b) \<and> flushed s h' \<and> (\<forall>p v. h' p = Some v \<longrightarrow> \<not> sv_dirty v)"
      using s1 by blast
  qed simp
qed

text \<open>The map.\<close>

lemma mapio_write_wp:
  assumes dn: "dinv (sfs_device s)" and len: "length (bm_v (sfs_freemap s)) = SFS_BITBLOCKS (sp_nblocks (sfs_super s)) * 512"
    and ns: "2 + SFS_BITBLOCKS (sp_nblocks (sfs_super s)) \<le> nsec"
  shows "wpK (sfs_mapio dv UIO_WRITE)
     (\<lambda>_. dev_step dinv sec (\<lambda>f b. if 2 \<le> b \<and> b < 2 + SFS_BITBLOCKS (sp_nblocks (sfs_super s)) then map_sector (b - 2) (bm_v (sfs_freemap s)) else f b) s)
     (\<lambda>_ _. False) s"
proof -
  let ?v = "bm_v (sfs_freemap s)" and ?m = "SFS_BITBLOCKS (sp_nblocks (sfs_super s))"
  define I where "I k (u :: unit) s' \<longleftrightarrow> dev_step dinv sec (\<lambda>f b. if 2 \<le> b \<and> b < 2 + k then map_sector (b - 2) ?v else f b) s s'" for k u s'
  have "wpK (foldK (\<lambda>j _. sfs_map_sector dv UIO_WRITE j) [0..<?m] ()) (I ?m) (\<lambda>_ _. False) s"
  proof (rule foldK_upt_wp)
    show "I 0 () s" unfolding I_def dev_step_def using dn by (intro exI [of _ "sfs_device s"]) (auto intro!: ext)
  next
    fix k u s1 assume k: "k < ?m" and I: "I k u s1"
    note d = dev_stepD [OF I [unfolded I_def]]
    have l: "length (map_sector k ?v) = 512" using k len by (simp add: map_sector_def)
    have b: "2 + k < nsec" using k ns by simp
    have "wpK (sfs_wblock dv (map_sector k ?v) (2 + k)) (I (Suc k)) (\<lambda>_ _. False) s1"
    proof (rule wp_mono [OF wblock_wp [OF d(1) b l]])
      fix t s2 assume "dev_step dinv sec (\<lambda>f. f(2 + k := map_sector k ?v)) s1 s2"
      then obtain d2 where d2: "s2 = s1\<lparr>sfs_device := d2\<rparr>" "dinv d2" "sec d2 = (sec (sfs_device s1))(2 + k := map_sector k ?v)"
        by (auto simp: dev_step_def)
      have "sec d2 = (\<lambda>b. if 2 \<le> b \<and> b < 2 + Suc k then map_sector (b - 2) ?v else sec (sfs_device s) b)"
        unfolding d2(3) d(2) by (rule ext) auto
      then show "I (Suc k) t s2"
        using I d2(1,2) unfolding I_def dev_step_def by (intro exI [of _ d2]) auto
    qed simp
    moreover have "\<not> length (bitmap_getdata (sfs_freemap s1)) < k * 512 + 512" "bitmap_getdata (sfs_freemap s1) = ?v"
      using k len d(6) by (auto simp: bitmap_getdata_def)
    ultimately show "wpK (sfs_map_sector dv UIO_WRITE k) (I (Suc k)) (\<lambda>_ _. False) s1"
      by (simp add: sfs_map_sector_def wp sfs_consts SFS_MAP_LOCATION_def map_sector_def)
  qed simp
  then have "wpK (sfs_mapio dv UIO_WRITE) (I ?m) (\<lambda>_ _. False) s" by (simp add: sfs_mapio_def wp)
  then show ?thesis unfolding I_def .
qed

lemma settled_flags [simp]:
  "settled dinv sec nsec N (s\<lparr>sfs_superdirty := b\<rparr>) = settled dinv sec nsec N s"
  "settled dinv sec nsec N (s\<lparr>sfs_freemapdirty := b\<rparr>) = settled dinv sec nsec N s"
  by (simp_all add: settled_def fs_ok_def map_ok_def vt_ok_def)

lemma settled_sys:
  assumes st: "settled dinv sec nsec N s" and d: "dev_step dinv sec f s s'"
    and f: "\<And>b. b \<notin> sys_blocks (sp_nblocks (sfs_super s)) \<Longrightarrow> f (sec (sfs_device s)) b = sec (sfs_device s) b"
  shows "settled dinv sec nsec N s'" "meta_only N (sp_nblocks (sfs_super s)) (sec (sfs_device s)) (sec (sfs_device s'))"
    "N n = Some i \<Longrightarrow> sec (sfs_device s') n = sec (sfs_device s) n"
proof -
  note dd = dev_stepD [OF d]
  have ok: "fs_ok nsec (sec (sfs_device s)) N s" and vt: "vt_ok s" using st by (auto simp: settled_def)
  show m: "meta_only N (sp_nblocks (sfs_super s)) (sec (sfs_device s)) (sec (sfs_device s'))" using f by (simp add: meta_only_def dd(2))
  have same: "sec (sfs_device s') n = sec (sfs_device s) n" if "N n = Some i" for n i
    using f inode_ok_self(3) [OF fs_okD(3) [OF ok that]] by (simp add: dd(2))
  then show "N n = Some i \<Longrightarrow> sec (sfs_device s') n = sec (sfs_device s) n" .
  have "heap_ok (sec (sfs_device s')) N (sfs_heap s')"
    unfolding dd(8) heap_ok_def
  proof (intro conjI allI impI)
    fix p v assume v: "sfs_heap s p = Some v"
    show N: "N (sv_ino v) = Some (sv_i v)" using heap_okD(1) [OF fs_okD(2) [OF ok] v] .
    assume "\<not> sv_dirty v"
    then show "sec (sfs_device s') (sv_ino v) = enc_inode (sv_i v)" using heap_okD(2) [OF fs_okD(2) [OF ok] v] same [OF N] by simp
  next
    fix p q v w assume "sfs_heap s p = Some v \<and> sfs_heap s q = Some w \<and> sv_ino v = sv_ino w"
    then show "p = q" using heap_okD(3) [OF fs_okD(2) [OF ok]] by blast
  next
    fix n i assume "N n = Some i \<and> (\<forall>p v. sfs_heap s p = Some v \<longrightarrow> sv_ino v \<noteq> n)"
    then show "sec (sfs_device s') n = enc_inode i" using heap_okD(4) [OF fs_okD(2) [OF ok], of n i] same [of n i] by auto
  qed
  then have "fs_ok nsec (sec (sfs_device s')) N s'" by (rule fs_ok_meta [OF ok m dd(3,6)])
  moreover have "vt_ok s'" by (rule vt_ok_cong [OF vt dd(8,5,9)])
  ultimately show "settled dinv sec nsec N s'" using dd(1) by (simp add: settled_def)
qed

lemma sync_wp:
  assumes st: "settled dinv sec nsec N s" and g: "geom (sfs_super s) (sfs_freemap s)" and fl: "flags_ok sec s"
  shows "wpK (sfs_sync dv)
     (\<lambda>_ s'. settled dinv sec nsec N s' \<and> on_disk sec N s' \<and> \<not> sfs_superdirty s' \<and> \<not> sfs_freemapdirty s' \<and>
        sfs_super s' = sfs_super s \<and> sfs_freemap s' = sfs_freemap s \<and> sfs_vnodes s' = sfs_vnodes s \<and> flushed s (sfs_heap s') \<and>
        meta_only N (sp_nblocks (sfs_super s)) (sec (sfs_device s)) (sec (sfs_device s')))
     (\<lambda>_ _. False) s" (is "wpK _ ?Q _ s")
proof -
  let ?nb = "sp_nblocks (sfs_super s)"
  let ?super = "\<lambda>superdirty. if superdirty then
         bindK (getK sfs_super) (\<lambda>super.
         bindK (sfs_wblock dv (enc_super super) SFS_SB_LOCATION) (\<lambda>_.
         modK (\<lambda>s. s\<lparr>sfs_superdirty := False\<rparr>)))
       else retK ()"
  let ?map = "\<lambda>mapdirty. if mapdirty then bindK (sfs_mapio dv UIO_WRITE) (\<lambda>_. modK (\<lambda>s. s\<lparr>sfs_freemapdirty := False\<rparr>)) else retK ()"
  define J where "J s' \<longleftrightarrow> settled dinv sec nsec N s' \<and> flags_ok sec s' \<and> (\<forall>n i. N n = Some i \<longrightarrow> sec (sfs_device s') n = enc_inode i) \<and>
     sfs_super s' = sfs_super s \<and> sfs_freemap s' = sfs_freemap s \<and> sfs_vnodes s' = sfs_vnodes s \<and> flushed s (sfs_heap s') \<and>
     meta_only N ?nb (sec (sfs_device s)) (sec (sfs_device s'))" for s'
  have mo: "map_ok nsec s" using st by (auto simp: settled_def fs_ok_def)
  have len: "length (bm_v (sfs_freemap s)) = SFS_BITBLOCKS ?nb * 512" using geom_length [OF g] mo by (simp add: map_ok_def)
  have bb: "2 + SFS_BITBLOCKS ?nb \<le> nsec" "0 < nsec" using g mo by (auto simp: geom_def map_ok_def)
  have el: "length (enc_super (sfs_super s)) = 512" using g by (simp add: geom_def)
  have sup: "wpK (?super (sfs_superdirty s1)) ?Q (\<lambda>_ _. False) s1" if J: "J s1" "\<not> sfs_freemapdirty s1" for s1
  proof (cases "sfs_superdirty s1")
    case True
    have st1: "settled dinv sec nsec N s1" and s1: "sfs_super s1 = sfs_super s" using J(1) by (auto simp: J_def)
    have dn: "dinv (sfs_device s1)" using st1 by (simp add: settled_def)
    have "wpK (sfs_wblock dv (enc_super (sfs_super s)) 0) (\<lambda>u s2. ?Q u (s2\<lparr>sfs_superdirty := False\<rparr>)) (\<lambda>_ _. False) s1"
    proof (rule wp_mono [OF wblock_wp [OF dn bb(2) el]])
      fix u s2 assume d: "dev_step dinv sec (\<lambda>f. f(0 := enc_super (sfs_super s))) s1 s2"
      note dd = dev_stepD [OF d]
      have f: "((sec (sfs_device s1))(0 := enc_super (sfs_super s))) b = sec (sfs_device s1) b"
        if "b \<notin> sys_blocks (sp_nblocks (sfs_super s1))" for b using that by (auto simp: sys_blocks_def)
      note ss = settled_sys [OF st1 d, OF f]
      have m: "meta_only N ?nb (sec (sfs_device s)) (sec (sfs_device s2))"
        using J(1) ss(2) s1 unfolding J_def by (auto intro: meta_only_trans)
      have "map_on_disk (sec (sfs_device s2)) ?nb (bm_v (sfs_freemap s))"
        using J s1 dd(2) by (auto simp: J_def flags_ok_def map_on_disk_def)
      then show "?Q u (s2\<lparr>sfs_superdirty := False\<rparr>)"
        using J ss(1,3) m s1 dd by (auto simp: J_def on_disk_def)
    qed simp
    then show ?thesis using True s1 by (simp add: wp SFS_SB_LOCATION_def)
  next
    case False
    then have "?Q () s1" using J by (auto simp: J_def flags_ok_def on_disk_def)
    then show ?thesis using False by (simp add: wp)
  qed
  have map: "wpK (?map (sfs_freemapdirty s1)) (\<lambda>_ s2. J s2 \<and> \<not> sfs_freemapdirty s2) (\<lambda>_ _. False) s1" if J: "J s1" for s1
  proof (cases "sfs_freemapdirty s1")
    case True
    let ?f = "\<lambda>f b. if 2 \<le> b \<and> b < 2 + SFS_BITBLOCKS ?nb then map_sector (b - 2) (bm_v (sfs_freemap s)) else f b"
    have st1: "settled dinv sec nsec N s1" and s1: "sfs_super s1 = sfs_super s" "sfs_freemap s1 = sfs_freemap s" using J by (auto simp: J_def)
    have dn: "dinv (sfs_device s1)" using st1 by (simp add: settled_def)
    have io: "wpK (sfs_mapio dv UIO_WRITE) (\<lambda>_. dev_step dinv sec ?f s1) (\<lambda>_ _. False) s1"
      using mapio_write_wp [OF dn] len bb unfolding s1 by blast
    have "wpK (sfs_mapio dv UIO_WRITE) (\<lambda>_ s2. J (s2\<lparr>sfs_freemapdirty := False\<rparr>)) (\<lambda>_ _. False) s1"
    proof (rule wp_mono [OF io])
      fix u s2 assume d: "dev_step dinv sec ?f s1 s2"
      note dd = dev_stepD [OF d]
      have f: "?f (sec (sfs_device s1)) b = sec (sfs_device s1) b" if "b \<notin> sys_blocks (sp_nblocks (sfs_super s1))" for b
        using that s1 by (auto simp: sys_blocks_def)
      note ss = settled_sys [OF st1 d, OF f]
      have m: "meta_only N ?nb (sec (sfs_device s)) (sec (sfs_device s2))"
        using J ss(2) s1 unfolding J_def by (auto intro: meta_only_trans)
      have "map_on_disk (sec (sfs_device s2)) ?nb (bm_v (sfs_freemap s))" by (simp add: map_on_disk_def dd(2))
      moreover have "\<not> sfs_superdirty s1 \<Longrightarrow> sec (sfs_device s2) 0 = enc_super (sfs_super s)"
        using J s1 by (simp add: J_def flags_ok_def dd(2))
      ultimately show "J (s2\<lparr>sfs_freemapdirty := False\<rparr>)"
        using J ss(1,3) m s1 dd by (auto simp: J_def flags_ok_def)
    qed simp
    then show ?thesis using True by (simp add: wp)
  next
    case False
    then show ?thesis using J by (simp add: wp)
  qed
  have "wpK (foldK (\<lambda>i _. sfs_sync_vnode dv i) [0..<nat (array_getnum (sfs_vnodes s))] ()) (\<lambda>_. J) (\<lambda>_ _. False) s"
  proof (rule wp_mono [OF sync_vnodes_wp [OF st]])
    fix u s' assume "\<exists>d' h'. s' = s\<lparr>sfs_device := d', sfs_heap := h'\<rparr> \<and> settled dinv sec nsec N s' \<and>
        (\<forall>b. b \<notin> dom N \<longrightarrow> sec d' b = sec (sfs_device s) b) \<and> flushed s h' \<and> (\<forall>p v. h' p = Some v \<longrightarrow> \<not> sv_dirty v)"
    then obtain d' h' where s': "s' = s\<lparr>sfs_device := d', sfs_heap := h'\<rparr>" and st': "settled dinv sec nsec N s'"
      and dk: "\<forall>b. b \<notin> dom N \<longrightarrow> sec d' b = sec (sfs_device s) b" and h: "flushed s h'" "\<forall>p v. h' p = Some v \<longrightarrow> \<not> sv_dirty v" by blast
    have ok': "fs_ok nsec (sec d') N s'" using st' by (simp add: settled_def s')
    have "sec d' n = enc_inode i" if "N n = Some i" for n i
      using heap_okD(1,2,4) [OF fs_okD(2) [OF ok']] h(2) that unfolding s' by (metis option.inject sfs_fs.select_convs(7) sfs_fs.surjective sfs_fs.update_convs(7))
    moreover have "flags_ok sec s'"
    proof -
      have "b \<notin> dom N" if "b \<in> sys_blocks ?nb" for b
        using that inode_ok_self(3) [OF fs_okD(3) [OF ok']] by (auto simp: s')
      then have "sec d' b = sec (sfs_device s) b" if "b \<in> sys_blocks ?nb" for b using dk that by blast
      then show ?thesis using fl by (simp add: flags_ok_def s' map_on_disk_def sys_blocks_def)
    qed
    ultimately show "J s'" using st' h(1) dk by (simp add: J_def s' meta_only_def)
  qed simp
  then show ?thesis
    unfolding sfs_sync_def wp_bind wp_get
  proof (rule wp_mono)
    fix u s1 assume "J s1"
    from map [OF this] show "wpK (?map (sfs_freemapdirty s1)) (\<lambda>_ s2. wpK (?super (sfs_superdirty s2)) ?Q (\<lambda>_ _. False) s2) (\<lambda>_ _. False) s1"
      by (rule wp_mono) (rule sup, auto)
  qed
qed

end

section \<open>Mount\<close>

lemma map_sector_glue:
  assumes "length v' = length v" "take (k * 512) v' = take (k * 512) v" "k * 512 + 512 \<le> length v"
  shows "take (k * 512 + 512) (take (k * 512) v' @ map_sector k v @ drop (k * 512 + 512) v') = take (k * 512 + 512) v"
    "length (take (k * 512) v' @ map_sector k v @ drop (k * 512 + 512) v') = length v"
proof -
  have "take (k * 512 + 512) v = take (k * 512) v @ map_sector k v" by (simp add: map_sector_def take_add)
  then show "take (k * 512 + 512) (take (k * 512) v' @ map_sector k v @ drop (k * 512 + 512) v') = take (k * 512 + 512) v"
    using assms by (simp add: map_sector_def)
  show "length (take (k * 512) v' @ map_sector k v @ drop (k * 512 + 512) v') = length v"
    using assms by (simp add: map_sector_def)
qed

context sfs_disk begin

lemma mapio_read_wp:
  assumes dn: "dinv (sfs_device s)" and len: "length (bm_v (sfs_freemap s)) = SFS_BITBLOCKS (sp_nblocks (sfs_super s)) * 512"
    "length v = SFS_BITBLOCKS (sp_nblocks (sfs_super s)) * 512"
    and ns: "2 + SFS_BITBLOCKS (sp_nblocks (sfs_super s)) \<le> nsec"
    and dk: "map_on_disk (sec (sfs_device s)) (sp_nblocks (sfs_super s)) v"
  shows "wpK (sfs_mapio dv UIO_READ)
     (\<lambda>_ s'. \<exists>d'. s' = s\<lparr>sfs_device := d', sfs_freemap := (sfs_freemap s)\<lparr>bm_v := v\<rparr>\<rparr> \<and> dinv d' \<and> sec d' = sec (sfs_device s))
     (\<lambda>e s'. e = EIO \<and> sec (sfs_device s') = sec (sfs_device s)) s"
proof -
  let ?m = "SFS_BITBLOCKS (sp_nblocks (sfs_super s))"
  let ?E = "\<lambda>e s'. e = EIO \<and> sec (sfs_device s') = sec (sfs_device s)"
  define I where "I k (u :: unit) s' \<longleftrightarrow> (\<exists>d' v'. s' = s\<lparr>sfs_device := d', sfs_freemap := (sfs_freemap s)\<lparr>bm_v := v'\<rparr>\<rparr> \<and> dinv d' \<and>
     sec d' = sec (sfs_device s) \<and> length v' = length v \<and> take (k * 512) v' = take (k * 512) v)" for k u s'
  have "wpK (foldK (\<lambda>j _. sfs_map_sector dv UIO_READ j) [0..<?m] ()) (I ?m) ?E s"
  proof (rule foldK_upt_wp)
    show "I 0 () s" unfolding I_def using dn len
      by (intro exI [of _ "sfs_device s"] exI [of _ "bm_v (sfs_freemap s)"]) simp
  next
    fix k u s1 assume k: "k < ?m" and "I k u s1"
    then obtain d' v' where s1: "s1 = s\<lparr>sfs_device := d', sfs_freemap := (sfs_freemap s)\<lparr>bm_v := v'\<rparr>\<rparr>"
      and d: "dinv d'" "sec d' = sec (sfs_device s)" and v': "length v' = length v" "take (k * 512) v' = take (k * 512) v"
      by (auto simp: I_def)
    have b: "2 + k < nsec" using k ns by simp
    have kl: "k * 512 + 512 \<le> length v" using k len(2) by simp
    have dn1: "dinv (sfs_device s1)" by (simp add: s1 d)
    have "sec (sfs_device s) (2 + k) = map_sector k v" using dk k by (simp add: map_on_disk_def)
    then have dkk: "sec (sfs_device s1) (2 + k) = map_sector k v" using d by (simp add: s1)
    let ?v = "take (k * 512) v' @ map_sector k v @ drop (k * 512 + 512) v'"
    have "wpK (sfs_rblock dv (2 + k)) (\<lambda>bs s2. I (Suc k) () (s2\<lparr>sfs_freemap := (sfs_freemap s2)\<lparr>bm_v :=
        take (k * 512) v' @ bs @ drop (k * 512 + 512) v'\<rparr>\<rparr>)) ?E s1"
    proof (rule wp_mono [OF rblock_wp [OF dn1 b]])
      fix bs s2 assume "bs = sec (sfs_device s1) (2 + k) \<and> dev_step dinv sec (\<lambda>f. f) s1 s2"
      then obtain d2 where d2: "s2 = s1\<lparr>sfs_device := d2\<rparr>" "dinv d2" "sec d2 = sec (sfs_device s)" "bs = map_sector k v"
        using d dkk by (auto simp: dev_step_def s1)
      have "take (Suc k * 512) ?v = take (Suc k * 512) v" "length ?v = length v"
        using map_sector_glue [OF v' kl] by (simp_all only: mult_Suc add.commute)
      then show "I (Suc k) () (s2\<lparr>sfs_freemap := (sfs_freemap s2)\<lparr>bm_v := take (k * 512) v' @ bs @ drop (k * 512 + 512) v'\<rparr>\<rparr>)"
        unfolding I_def using d2 s1 by (intro exI [of _ d2] exI [of _ ?v]) simp
    next
      fix e s2 assume "e = EIO \<and> dev_step dinv sec (\<lambda>f. f) s1 s2"
      then show "?E e s2" using d by (auto simp: dev_step_def s1)
    qed
    then show "wpK (sfs_map_sector dv UIO_READ k) (I (Suc k)) ?E s1"
      using kl v'(1) by (simp add: sfs_map_sector_def wp sfs_consts bitmap_getdata_def s1)
  qed simp
  then have io: "wpK (sfs_mapio dv UIO_READ) (I ?m) ?E s" by (simp add: sfs_mapio_def wp)
  show ?thesis by (rule wp_mono [OF io]) (use len(2) in \<open>auto simp: I_def\<close>)
qed

lemma domount_wp:
  assumes dn: "dinv (sfs_device s)" and bs: "d_blocksize dv = 512" and g: "geom sp bm" "bitmap_ok bm" "sp_nblocks sp \<le> nsec"
    and dk: "sec (sfs_device s) 0 = enc_super sp" "map_on_disk (sec (sfs_device s)) (sp_nblocks sp) (bm_v bm)"
  shows "wpK (sfs_domount dv)
     (\<lambda>_ s'. \<exists>d' km. s' = s\<lparr>sfs_super := sp, sfs_superdirty := False, sfs_device := d', sfs_vnodes := \<lparr>arr_num = 0, arr_max = 0, arr_v = None\<rparr>,
        sfs_freemap := bm, sfs_freemapdirty := False, sfs_km := km\<rparr> \<and> dinv d' \<and> sec d' = sec (sfs_device s))
     (\<lambda>e s'. e \<in> {ENOMEM, EIO} \<and> sec (sfs_device s') = sec (sfs_device s)) s" (is "wpK _ ?Q ?E s")
proof -
  let ?s = "\<lambda>k. s\<lparr>sfs_km := k, sfs_vnodes := \<lparr>arr_num = 0, arr_max = 0, arr_v = None\<rparr>\<rparr>"
  let ?map = "\<lambda>b. case b of None \<Rightarrow> failK ENOMEM | Some freemap \<Rightarrow>
     bindK (modK (\<lambda>s. s\<lparr>sfs_freemap := freemap\<rparr>)) (\<lambda>_.
     bindK (sfs_mapio dv UIO_READ) (\<lambda>_.
     modK (\<lambda>s. s\<lparr>sfs_superdirty := False, sfs_freemapdirty := False\<rparr>)))"
  have wf: "super_wf sp" "sp_magic sp = SFS_MAGIC" "sp_volname sp ! 31 = 0" and nb: "nbits bm = SFS_BITMAPSIZE (sp_nblocks sp)"
    "2 + SFS_BITBLOCKS (sp_nblocks sp) \<le> nsec" using g(1,3) by (auto simp: geom_def)
  have vn: "sp\<lparr>sp_volname := (sp_volname sp)[31 := 0]\<rparr> = sp" using wf(3) list_update_id [of "sp_volname sp" 31] by (cases sp) simp
  have nb8: "SFS_BITMAPSIZE (sp_nblocks sp) \<le> 4294967288" using g(2) nb(1) by (simp add: bitmap_ok_def)
  note len = geom_length [OF g(1,2)]
  have bn: "length (bm_v (bm_new (SFS_BITMAPSIZE (sp_nblocks sp)))) = SFS_BITBLOCKS (sp_nblocks sp) * 512"
    "nbits (bm_new (SFS_BITMAPSIZE (sp_nblocks sp))) = nbits bm"
    using len g(2) nb(1) by (simp_all add: bm_new_def bitmap_ok_def)
  have bme: "(bm_new (SFS_BITMAPSIZE (sp_nblocks sp)))\<lparr>bm_v := bm_v bm\<rparr> = bm" using bn(2) by simp
  have map: "wpK (?map (Some (bm_new (SFS_BITMAPSIZE (sp_nblocks sp))))) ?Q ?E ((?s k)\<lparr>sfs_device := d', sfs_super := sp\<rparr>)"
    if d: "dinv d'" "sec d' = sec (sfs_device s)" for d' k
  proof -
    let ?t = "(?s k)\<lparr>sfs_device := d', sfs_super := sp, sfs_freemap := bm_new (SFS_BITMAPSIZE (sp_nblocks sp))\<rparr>"
    have "wpK (sfs_mapio dv UIO_READ) (\<lambda>_ t. ?Q () (t\<lparr>sfs_superdirty := False, sfs_freemapdirty := False\<rparr>)) ?E ?t"
    proof (rule wp_mono [OF mapio_read_wp [where v = "bm_v bm"]])
      fix u t assume "\<exists>d2. t = ?t\<lparr>sfs_device := d2, sfs_freemap := (sfs_freemap ?t)\<lparr>bm_v := bm_v bm\<rparr>\<rparr> \<and> dinv d2 \<and> sec d2 = sec (sfs_device ?t)"
      then obtain d2 where "t = ?t\<lparr>sfs_device := d2, sfs_freemap := bm\<rparr>" "dinv d2" "sec d2 = sec (sfs_device s)" using d bme by auto
      then show "?Q () (t\<lparr>sfs_superdirty := False, sfs_freemapdirty := False\<rparr>)" by (intro exI [of _ d2] exI [of _ k]) simp
    qed (use d bn(1) len nb(2) dk(2) in simp_all)
    then show ?thesis by (simp add: wp)
  qed
  have crt: "wpK (on_km (bitmap_create (SFS_BITMAPSIZE (sp_nblocks sp)))) (\<lambda>b. wpK (?map b) ?Q ?E) ?E ((?s k)\<lparr>sfs_device := d', sfs_super := sp\<rparr>)"
    if d: "dinv d'" "sec d' = sec (sfs_device s)" for d' k
    unfolding wp_on_km
  proof (rule wp_mono [OF bitmap_create_eq [OF nb8]])
    fix r m'
    assume "r = (if km_oracle (sfs_km ((?s k)\<lparr>sfs_device := d', sfs_super := sp\<rparr>)) (km_calls (sfs_km ((?s k)\<lparr>sfs_device := d', sfs_super := sp\<rparr>))) 8 \<and>
        km_oracle (sfs_km ((?s k)\<lparr>sfs_device := d', sfs_super := sp\<rparr>)) (Suc (km_calls (sfs_km ((?s k)\<lparr>sfs_device := d', sfs_super := sp\<rparr>))))
          ((SFS_BITMAPSIZE (sp_nblocks sp) + 7) div 8) then Some (bm_new (SFS_BITMAPSIZE (sp_nblocks sp))) else None)"
    then have "r = None \<or> r = Some (bm_new (SFS_BITMAPSIZE (sp_nblocks sp)))" by (simp split: if_splits)
    moreover have e: "(?s k)\<lparr>sfs_device := d', sfs_super := sp, sfs_km := m'\<rparr> = (?s m')\<lparr>sfs_device := d', sfs_super := sp\<rparr>" by simp
    have "wpK (?map None) ?Q ?E ((?s m')\<lparr>sfs_device := d', sfs_super := sp\<rparr>)" using d by (simp add: wp)
    ultimately show "wpK (?map r) ?Q ?E ((?s k)\<lparr>sfs_device := d', sfs_super := sp, sfs_km := m'\<rparr>)"
      unfolding e using map [OF d, of m'] by blast
  qed simp
  have "wpK (sfs_rblock dv 0) (\<lambda>bs s1. bs = enc_super sp \<and> (\<exists>d'. s1 = (?s k)\<lparr>sfs_device := d'\<rparr> \<and> dinv d' \<and> sec d' = sec (sfs_device s))) ?E (?s k)" for k
    by (rule wp_mono [OF rblock_wp]) (use dn dk nb in \<open>auto simp: dev_step_def\<close>)
  then have "wpK (bindK (sfs_rblock dv 0) (\<lambda>bs.
            bindK (modK (\<lambda>s. s\<lparr>sfs_super := dec_super bs\<rparr>)) (\<lambda>_.
            if sp_magic (dec_super bs) \<noteq> SFS_MAGIC then failK EINVAL
            else
              bindK (modK (\<lambda>s. s\<lparr>sfs_super := (sfs_super s)\<lparr>sp_volname := (sp_volname (sfs_super s))[31 := 0]\<rparr>\<rparr>)) (\<lambda>_.
              bindK (getK (\<lambda>s. SFS_BITMAPSIZE (sp_nblocks (sfs_super s)))) (\<lambda>nbits.
              bindK (on_km (bitmap_create nbits)) ?map))))) ?Q ?E (?s k)" for k
    unfolding wp_bind
    by (rule wp_mono) (use wf vn crt [of _ k] dk in \<open>auto simp: wp\<close>)
  then show ?thesis using bs by (auto simp: sfs_domount_def wp array_create_def sfs_consts SFS_SB_LOCATION_def)
qed

text \<open>A volume that is on the disk, seen through a mount of that disk.\<close>

lemma vol_mounted:
  assumes v: "vol dinv sec nsec M N {} s" and od: "on_disk sec N s" and d: "dinv (sfs_device r)" "sec (sfs_device r) = sec (sfs_device s)"
    and r: "sfs_super r = sfs_super s" "sfs_freemap r = sfs_freemap s" "sfs_heap r = Map.empty"
      "sfs_vnodes r = \<lparr>arr_num = 0, arr_max = 0, arr_v = None\<rparr>"
  shows "vol dinv sec nsec M N {} r"
proof -
  have ok: "fs_ok nsec (sec (sfs_device s)) N s" using volD(1) [OF v] by (simp add: settled_def)
  have "heap_ok (sec (sfs_device s)) N (sfs_heap r)" using od r(3) by (simp add: heap_ok_def on_disk_def)
  then have "fs_ok nsec (sec (sfs_device r)) N r" using fs_ok_meta [OF ok meta_only_refl r(1,2)] d(2) by simp
  moreover have "array_rep (sfs_vnodes r) []" by (simp add: r(4) array_rep_def array_ok_def array_cells_def)
  then have "vt_ok r" unfolding vt_ok_def r(3) by (intro conjI exI [of _ "[]"]) auto
  ultimately have "settled dinv sec nsec N r" using d(1) by (simp add: settled_def)
  then show ?thesis using v d(2) unfolding vol_def by simp
qed

lemma sync_remount_wp:
  assumes v: "vol dinv sec nsec M N {} s" and g: "geom (sfs_super s) (sfs_freemap s)" and fl: "flags_ok sec s" and bs: "d_blocksize dv = 512"
  shows "wpK (sfs_sync dv)
     (\<lambda>_ s'. vol dinv sec nsec M N {} s' \<and> vref s' = vref s \<and>
        (\<forall>n i k. N n = Some i \<longrightarrow> fblk (sec (sfs_device s')) i k = fblk (sec (sfs_device s)) i k) \<and>
        (\<forall>r. sfs_device r = sfs_device s' \<and> sfs_heap r = Map.empty \<longrightarrow>
           wpK (sfs_domount dv)
             (\<lambda>_ r'. vol dinv sec nsec M N {} r' \<and> sfs_super r' = sfs_super s \<and> sfs_freemap r' = sfs_freemap s \<and>
                \<not> sfs_superdirty r' \<and> \<not> sfs_freemapdirty r' \<and> sec (sfs_device r') = sec (sfs_device s'))
             (\<lambda>e r'. e \<in> {ENOMEM, EIO} \<and> sec (sfs_device r') = sec (sfs_device s')) r))
     (\<lambda>_ _. False) s"
proof (rule wp_mono [OF sync_wp [OF volD(1) [OF v] g fl]])
  have ok: "fs_ok nsec (sec (sfs_device s)) N s" using volD(1) [OF v] by (simp add: settled_def)
  obtain ri where ri: "N 1 = Some ri" "dir_ok (sec (sfs_device s)) ri" "dir_map (dents (sec (sfs_device s)) ri) = M" using v by (rule volE)
  fix u s'
  assume "settled dinv sec nsec N s' \<and> on_disk sec N s' \<and> \<not> sfs_superdirty s' \<and> \<not> sfs_freemapdirty s' \<and>
        sfs_super s' = sfs_super s \<and> sfs_freemap s' = sfs_freemap s \<and> sfs_vnodes s' = sfs_vnodes s \<and> flushed s (sfs_heap s') \<and>
        meta_only N (sp_nblocks (sfs_super s)) (sec (sfs_device s)) (sec (sfs_device s'))"
  then have st: "settled dinv sec nsec N s'" and od: "on_disk sec N s'" and same: "sfs_super s' = sfs_super s" "sfs_freemap s' = sfs_freemap s"
    and fd: "flushed s (sfs_heap s')" and mo: "meta_only N (sp_nblocks (sfs_super s)) (sec (sfs_device s)) (sec (sfs_device s'))" by blast+
  have fb: "fblk (sec (sfs_device s')) i k = fblk (sec (sfs_device s)) i k" if "N n = Some i" for n i k
    by (rule meta_only_ptrs(3) [OF ok mo that])
  have "fbyte (sec (sfs_device s')) ri = fbyte (sec (sfs_device s)) ri" by (rule ext) (simp add: fbyte_def fb [OF ri(1)])
  then have ds: "dents (sec (sfs_device s')) ri = dents (sec (sfs_device s)) ri" by (simp add: dents_def dent_def fbytes_def)
  have v': "vol dinv sec nsec M N {} s'"
    unfolding vol_def using st ri ds volD(2,3,4) [OF v] by (intro conjI exI [of _ ri]) (auto simp: dir_ok_def)
  have vr: "vref s' = vref s"
  proof
    fix p
    have "map_option (\<lambda>v. v\<lparr>sv_dirty := False\<rparr>) (sfs_heap s' p) = map_option (\<lambda>v. v\<lparr>sv_dirty := False\<rparr>) (sfs_heap s p)"
      using fd by (simp add: flushed_def)
    from arg_cong [OF this, of "map_option (\<lambda>v. (vn_refcount v, vn_opencount v, vn_ops v, sv_ino v))"]
    show "vref s' p = vref s p" by (simp add: vref_def option.map_comp comp_def)
  qed
  have mo': "map_ok nsec s" using fs_okD(1) [OF ok] .
  have mt: "wpK (sfs_domount dv)
             (\<lambda>_ r'. vol dinv sec nsec M N {} r' \<and> sfs_super r' = sfs_super s \<and> sfs_freemap r' = sfs_freemap s \<and>
                \<not> sfs_superdirty r' \<and> \<not> sfs_freemapdirty r' \<and> sec (sfs_device r') = sec (sfs_device s'))
             (\<lambda>e r'. e \<in> {ENOMEM, EIO} \<and> sec (sfs_device r') = sec (sfs_device s')) r"
    if r: "sfs_device r = sfs_device s'" "sfs_heap r = Map.empty" for r
  proof (rule wp_mono [OF domount_wp [where sp = "sfs_super s" and bm = "sfs_freemap s"]])
    fix t r' assume "\<exists>d' km. r' = r\<lparr>sfs_super := sfs_super s, sfs_superdirty := False, sfs_device := d',
        sfs_vnodes := \<lparr>arr_num = 0, arr_max = 0, arr_v = None\<rparr>, sfs_freemap := sfs_freemap s, sfs_freemapdirty := False, sfs_km := km\<rparr> \<and>
        dinv d' \<and> sec d' = sec (sfs_device r)"
    then show "vol dinv sec nsec M N {} r' \<and> sfs_super r' = sfs_super s \<and> sfs_freemap r' = sfs_freemap s \<and>
        \<not> sfs_superdirty r' \<and> \<not> sfs_freemapdirty r' \<and> sec (sfs_device r') = sec (sfs_device s')"
      using vol_mounted [OF v' od, of r'] r same by auto
  qed (use r st g bs mo' od same in \<open>auto simp: settled_def map_ok_def on_disk_def\<close>)
  show "vol dinv sec nsec M N {} s' \<and> vref s' = vref s \<and>
        (\<forall>n i k. N n = Some i \<longrightarrow> fblk (sec (sfs_device s')) i k = fblk (sec (sfs_device s)) i k) \<and>
        (\<forall>r. sfs_device r = sfs_device s' \<and> sfs_heap r = Map.empty \<longrightarrow>
           wpK (sfs_domount dv)
             (\<lambda>_ r'. vol dinv sec nsec M N {} r' \<and> sfs_super r' = sfs_super s \<and> sfs_freemap r' = sfs_freemap s \<and>
                \<not> sfs_superdirty r' \<and> \<not> sfs_freemapdirty r' \<and> sec (sfs_device r') = sec (sfs_device s'))
             (\<lambda>e r'. e \<in> {ENOMEM, EIO} \<and> sec (sfs_device r') = sec (sfs_device s')) r)"
    using v' vr fb mt by blast
qed simp

text \<open>A disk without the magic number is refused.\<close>

lemma domount_refuses_wp:
  assumes dn: "dinv (sfs_device s)" and m: "sp_magic (dec_super (sec (sfs_device s) 0)) \<noteq> SFS_MAGIC" and ns: "0 < nsec"
  shows "wpK (sfs_domount dv) (\<lambda>_ _. False)
     (\<lambda>e s'. e \<in> {ENXIO, ENOMEM, EIO, EINVAL} \<and> (e = ENXIO \<longleftrightarrow> d_blocksize dv \<noteq> SFS_BLOCKSIZE) \<and> sec (sfs_device s') = sec (sfs_device s)) s"
proof -
  let ?E = "\<lambda>e s'. e = EIO \<and> sec (sfs_device s') = sec (sfs_device s)"
  have "wpK (sfs_rblock dv 0) (\<lambda>bs s1. sp_magic (dec_super bs) \<noteq> SFS_MAGIC \<and> sec (sfs_device s1) = sec (sfs_device s)) ?E
      (s\<lparr>sfs_km := k, sfs_vnodes := a\<rparr>)" for k a
    by (rule wp_mono [OF rblock_wp]) (use dn m ns in \<open>auto simp: dev_step_def\<close>)
  note rb = this
  show ?thesis by (auto simp: sfs_domount_def wp array_create_def SFS_SB_LOCATION_def intro!: wp_mono [OF rb])
qed

end

section \<open>Properties\<close>

text \<open>
  Property C3. A sync writes the volume out: it always succeeds on a disk that stores what it is told to, changes no name, no
  contents and no reference count, and leaves a disk that, mounted afresh, has the same names, inodes, contents, superblock and free
  block map. The mount fails only for lack of memory or because the disk cannot be read.
\<close>

theorem sfs_sync_remount:
  assumes "sfs_disk dv sec nsec dinv" and "vol dinv sec nsec M N {} s" and "geom (sfs_super s) (sfs_freemap s)" and "flags_ok sec s"
    and "d_blocksize dv = 512"
  shows "wpK (sfs_sync dv)
     (\<lambda>_ s'. vol dinv sec nsec M N {} s' \<and> vref s' = vref s \<and>
        (\<forall>n i k. N n = Some i \<longrightarrow> fblk (sec (sfs_device s')) i k = fblk (sec (sfs_device s)) i k) \<and>
        (\<forall>r. sfs_device r = sfs_device s' \<and> sfs_heap r = Map.empty \<longrightarrow>
           wpK (sfs_domount dv)
             (\<lambda>_ r'. vol dinv sec nsec M N {} r' \<and> sfs_super r' = sfs_super s \<and> sfs_freemap r' = sfs_freemap s \<and>
                \<not> sfs_superdirty r' \<and> \<not> sfs_freemapdirty r' \<and> sec (sfs_device r') = sec (sfs_device s'))
             (\<lambda>e r'. e \<in> {ENOMEM, EIO} \<and> sec (sfs_device r') = sec (sfs_device s')) r))
     (\<lambda>_ _. False) s"
  by (rule sfs_disk.sync_remount_wp [OF assms])

lemma example_vol_geom:
  "geom (sfs_super example_vol) (sfs_freemap example_vol)" "flags_ok (lhd_sec sd_disk) (example_vol\<lparr>sfs_superdirty := True, sfs_freemapdirty := True\<rparr>)"
  "vol (lhd_inv sim_idle 2048) (lhd_sec sd_disk) 2048 [[97] \<mapsto> 3] example_inodes {} (example_vol\<lparr>sfs_superdirty := True, sfs_freemapdirty := True\<rparr>)"
proof -
  show "geom (sfs_super example_vol) (sfs_freemap example_vol)"
    by (simp add: geom_def example_vol_def example_fs_def super_wf_def sfs_consts SFS_BITMAPSIZE_def SFS_BITBLOCKS_def SFS_ROUNDUP_def SFS_BLOCKBITS_def)
  show "flags_ok (lhd_sec sd_disk) (example_vol\<lparr>sfs_superdirty := True, sfs_freemapdirty := True\<rparr>)" by (simp add: flags_ok_def)
  show "vol (lhd_inv sim_idle 2048) (lhd_sec sd_disk) 2048 [[97] \<mapsto> 3] example_inodes {} (example_vol\<lparr>sfs_superdirty := True, sfs_freemapdirty := True\<rparr>)"
    using example_vol_ok by (simp add: vol_def settled_def fs_ok_def map_ok_def vt_ok_def)
qed

lemma mounted_at:
  "\<forall>r. sfs_device r = sfs_device s \<and> sfs_heap r = Map.empty \<longrightarrow> wpK m Q E r \<Longrightarrow> wpK m Q E (s\<lparr>sfs_heap := Map.empty\<rparr>)"
  by simp

theorem sfs_sync_remount_witness:
  "wpK (sfs_sync (lhd_device (sim_hw (\<lambda>_. False) (\<lambda>_. False)) 2048))
     (\<lambda>_ s'. wpK (sfs_domount (lhd_device (sim_hw (\<lambda>_. False) (\<lambda>_. False)) 2048))
        (\<lambda>_ r'. vol (lhd_inv sim_idle 2048) (lhd_sec sd_disk) 2048 [[97] \<mapsto> 3] example_inodes {} r')
        (\<lambda>e _. e \<in> {ENOMEM, EIO}) (s'\<lparr>sfs_heap := Map.empty\<rparr>))
     (\<lambda>_ _. False) (example_vol\<lparr>sfs_superdirty := True, sfs_freemapdirty := True\<rparr>)"
proof (rule wp_mono [OF sfs_sync_remount [OF simd.sd.sfs_disk_axioms example_vol_geom(3) _ example_vol_geom(2)]])
  show "geom (sfs_super (example_vol\<lparr>sfs_superdirty := True, sfs_freemapdirty := True\<rparr>))
      (sfs_freemap (example_vol\<lparr>sfs_superdirty := True, sfs_freemapdirty := True\<rparr>))" using example_vol_geom(1) by simp
  show "d_blocksize (lhd_device (sim_hw (\<lambda>_. False) (\<lambda>_. False)) 2048) = 512" by (simp add: lhd_device_def LHD_SECTSIZE_def)
qed (elim conjE, drule mounted_at, rule wp_mono, assumption, blast+)

text \<open>
  A disk without the magic number of SFS in its first sector is never mounted: the mount ends with an error, which is
  ENXIO exactly when the sector size does not fit, and changes nothing on the disk.
\<close>

theorem sfs_domount_refuses:
  assumes "sfs_disk dv sec nsec dinv" and "dinv (sfs_device s)" and "sp_magic (dec_super (sec (sfs_device s) 0)) \<noteq> SFS_MAGIC" and "0 < nsec"
  shows "wpK (sfs_domount dv) (\<lambda>_ _. False)
     (\<lambda>e s'. e \<in> {ENXIO, ENOMEM, EIO, EINVAL} \<and> (e = ENXIO \<longleftrightarrow> d_blocksize dv \<noteq> SFS_BLOCKSIZE) \<and>
        sec (sfs_device s') = sec (sfs_device s)) s"
  by (rule sfs_disk.domount_refuses_wp [OF assms])

theorem sfs_domount_refuses_witness:
  "wpK (sfs_domount (lhd_device (sim_hw (\<lambda>_. False) (\<lambda>_. False)) 2048)) (\<lambda>_ _. False) (\<lambda>e _. e \<in> {ENOMEM, EIO, EINVAL}) example_fs"
proof (rule wp_mono [OF sfs_domount_refuses [OF simd.sd.sfs_disk_axioms]])
  show "lhd_inv sim_idle 2048 (sfs_device example_fs)" using example_disk_inv by (simp add: example_fs_def)
  have "replicate 512 (0 :: byte) = [0, 0, 0, 0] @ replicate 508 0" by (simp add: numeral_eq_Suc)
  then show "sp_magic (dec_super (lhd_sec sd_disk (sfs_device example_fs) 0)) \<noteq> SFS_MAGIC"
    by (simp add: dec_super_def example_fs_def example_disk_def lhd_sec_def SFS_MAGIC_def)
qed (auto simp: lhd_device_def LHD_SECTSIZE_def SFS_BLOCKSIZE_def)

end
