(* ===== verification/Cmem.thy ===== *)
theory Cmem
  imports Copyinout
begin

text \<open>
  The memory functions shared by libc and the kernel (\<^verbatim>\<open>lib/libc/memcpy.c\<close>, \<^verbatim>\<open>memmove.c\<close>, \<^verbatim>\<open>bzero.c\<close>, \<^verbatim>\<open>memset.c\<close>,
  \<^verbatim>\<open>memcmp.c\<close>), on a flat memory of bytes. Both ways of each routine are modelled, the one that goes by words when everything
  is aligned and the one that goes by bytes. Objects do not wrap around the top of the address space, so addresses are natural numbers.
\<close>

section \<open>Operations\<close>

type_synonym memory = "nat \<Rightarrow> byte"

text \<open>Loads and stores of a \<^verbatim>\<open>long\<close>, as its four bytes.\<close>

definition ld_long :: "memory \<Rightarrow> nat \<Rightarrow> byte list" where
  "ld_long m a = get_at a 4 m"

definition st_long :: "nat \<Rightarrow> byte list \<Rightarrow> memory \<Rightarrow> memory" where
  "st_long a l m = put_at a l m"

definition memcpy :: "nat \<Rightarrow> nat \<Rightarrow> nat \<Rightarrow> memory \<Rightarrow> memory" where
  "memcpy dst src len m =
     (if dst mod 4 = 0 \<and> src mod 4 = 0 \<and> len mod 4 = 0
      then fold (\<lambda>i m. st_long (dst + 4 * i) (ld_long m (src + 4 * i)) m) [0..<len div 4] m
      else fold (\<lambda>i m. m(dst + i := m (src + i))) [0..<len] m)"

definition memmove :: "nat \<Rightarrow> nat \<Rightarrow> nat \<Rightarrow> memory \<Rightarrow> memory" where
  "memmove dst src len m =
     (if dst < src then memcpy dst src len m
      else if dst mod 4 = 0 \<and> src mod 4 = 0 \<and> len mod 4 = 0
      then fold (\<lambda>i m. st_long (dst + 4 * i) (ld_long m (src + 4 * i)) m) (rev [0..<len div 4]) m
      else fold (\<lambda>i m. m(dst + i := m (src + i))) (rev [0..<len]) m)"

definition bzero :: "nat \<Rightarrow> nat \<Rightarrow> memory \<Rightarrow> memory" where
  "bzero block len m =
     (if block mod 4 = 0 \<and> len mod 4 = 0
      then fold (\<lambda>i. st_long (block + 4 * i) (replicate 4 0)) [0..<len div 4] m
      else fold (\<lambda>i m. m(block + i := 0)) [0..<len] m)"

text \<open>\<^verbatim>\<open>p[i] = ch\<close> keeps the low eight bits of the \<^verbatim>\<open>int\<close>.\<close>

definition memset :: "nat \<Rightarrow> int \<Rightarrow> nat \<Rightarrow> memory \<Rightarrow> memory" where
  "memset ptr ch len m = fold (\<lambda>i m. m(ptr + i := word_of_int ch)) [0..<len] m"

function memcmp_from :: "memory \<Rightarrow> nat \<Rightarrow> nat \<Rightarrow> nat \<Rightarrow> nat \<Rightarrow> int" where
  "memcmp_from m a b len i =
     (if i < len then
        if m (a + i) \<noteq> m (b + i) then uint (m (a + i)) - uint (m (b + i)) else memcmp_from m a b len (Suc i)
      else 0)"
  by pat_completeness auto
termination
  by (relation "measure (\<lambda>(m, a, b, len, i). len - i)") auto

declare memcmp_from.simps [simp del]

definition memcmp :: "memory \<Rightarrow> nat \<Rightarrow> nat \<Rightarrow> nat \<Rightarrow> int" where
  "memcmp m a b len = memcmp_from m a b len 0"

section \<open>Copying piece by piece\<close>

text \<open>Both element sizes at once: pieces of \<open>w\<close> bytes.\<close>

definition copy_piece :: "nat \<Rightarrow> nat \<Rightarrow> nat \<Rightarrow> nat \<Rightarrow> memory \<Rightarrow> memory" where
  "copy_piece w dst src i m = put_at (dst + w * i) (get_at (src + w * i) w m) m"

lemma piece_long: "(\<lambda>i m. st_long (dst + 4 * i) (ld_long m (src + 4 * i)) m) = copy_piece 4 dst src"
  by (intro ext) (simp add: copy_piece_def st_long_def ld_long_def)

lemma piece_byte: "(\<lambda>i m. m(dst + i := m (src + i))) = copy_piece 1 dst src"
  by (intro ext) (auto simp: copy_piece_def put_at_def get_at_def)

lemma get_at_put_away: "src + n \<le> dst \<or> dst + length bs \<le> src \<Longrightarrow> get_at src n (put_at dst bs m) = get_at src n m"
  by (auto simp: get_at_def)

text \<open>Upwards, when no piece is read after it was overwritten.\<close>

lemma copy_up:
  assumes "dst < src \<or> src + w * n \<le> dst"
  shows "fold (copy_piece w dst src) [0..<n] m = put_at dst (get_at src (w * n) m) m"
  using assms
proof (induction n)
  case 0
  then show ?case by (simp add: get_at_def)
next
  case (Suc n)
  let ?m = "put_at dst (get_at src (w * n) m) m"
  have "fold (copy_piece w dst src) [0..<n] m = ?m" using Suc by auto
  moreover have "get_at (src + w * n) w ?m = get_at (src + w * n) w m"
    using Suc.prems by (intro get_at_put_away) (auto simp: add.commute)
  ultimately have "fold (copy_piece w dst src) [0..<Suc n] m = put_at (dst + w * n) (get_at (src + w * n) w m) ?m"
    by (simp add: copy_piece_def)
  also have "\<dots> = put_at dst (get_at src (w * n) m @ get_at (src + w * n) w m) m"
    using put_at_append [of dst "get_at src (w * n) m"] by simp
  finally show ?case by (simp add: get_at_append add.commute)
qed

text \<open>Downwards, when the destination is not below the source.\<close>

lemma copy_down:
  assumes "src \<le> dst"
  shows "fold (copy_piece w dst src) (rev [0..<n]) m = put_at dst (get_at src (w * n) m) m"
proof (induction n arbitrary: m)
  case 0
  then show ?case by (simp add: get_at_def)
next
  case (Suc n)
  let ?m = "copy_piece w dst src n m"
  have "get_at src (w * n) ?m = get_at src (w * n) m"
    unfolding copy_piece_def using assms by (intro get_at_put_away) simp
  then have "fold (copy_piece w dst src) (rev [0..<Suc n]) m = put_at dst (get_at src (w * n) m) ?m"
    using Suc by simp
  also have "\<dots> = put_at dst (get_at src (w * n + w) m) m"
    by (rule ext) (auto simp: copy_piece_def put_at_def add.commute)
  finally show ?case by (simp add: add.commute)
qed

lemma memcpy_spec: "dst < src \<or> src + len \<le> dst \<Longrightarrow> memcpy dst src len m = put_at dst (get_at src len m) m"
  unfolding memcpy_def piece_long piece_byte by (auto simp: copy_up)

lemma memmove_spec: "memmove dst src len m = put_at dst (get_at src len m) m"
  unfolding memmove_def piece_long piece_byte by (auto simp: copy_down memcpy_spec)

lemma put_zeros: "fold (\<lambda>i. put_at (a + w * i) (replicate w x)) [0..<n] m = put_at a (replicate (w * n) x) m"
proof (induction n)
  case (Suc n)
  then show ?case using put_at_append [of a "replicate (w * n) x" "replicate w x" m] by (simp add: replicate_add [symmetric] add.commute)
qed simp

lemma put_one: "put_at a [x] = (\<lambda>m. m(a := x))"
  by (intro ext) (auto simp: put_at_def)

lemma memset_spec: "memset ptr ch len m = put_at ptr (replicate len (word_of_int ch)) m"
  using put_zeros [of ptr 1 "word_of_int ch" len m] by (simp add: memset_def put_one)

lemma st_long_eq: "st_long = put_at"
  by (intro ext) (simp add: st_long_def)

lemma bzero_spec: "bzero block len m = put_at block (replicate len 0) m"
  using put_zeros [of block 1 0 len m] put_zeros [of block 4 0 "len div 4" m]
  by (auto simp: bzero_def st_long_eq put_one)

text \<open>What the comparison is meant to be: that of the first bytes that differ, as unsigned numbers.\<close>

fun bytecmp :: "byte list \<Rightarrow> byte list \<Rightarrow> int" where
  "bytecmp (x # xs) (y # ys) = (if x \<noteq> y then uint x - uint y else bytecmp xs ys)"
| "bytecmp _ _ = 0"

lemma memcmp_from_spec: "i \<le> len \<Longrightarrow> memcmp_from m a b len i = bytecmp (get_at (a + i) (len - i) m) (get_at (b + i) (len - i) m)"
proof (induction "len - i" arbitrary: i)
  case 0
  then show ?case by (subst memcmp_from.simps) (simp add: get_at_def)
next
  case (Suc d)
  then have "len - i = Suc (len - Suc i)" "i < len" by auto
  then show ?case using Suc by (subst memcmp_from.simps) (simp add: get_at_Suc)
qed

lemma memcmp_spec: "memcmp m a b len = bytecmp (get_at a len m) (get_at b len m)"
  by (simp add: memcmp_def memcmp_from_spec)

lemma bytecmp_0: "length xs = length ys \<Longrightarrow> bytecmp xs ys = 0 \<longleftrightarrow> xs = ys"
  by (induction xs ys rule: list_induct2) (auto simp: word_uint_eq_iff)

section \<open>Properties\<close>

text \<open>
  Property C24. \<^verbatim>\<open>memmove\<close> moves what the source held at the call, wherever the two regions lie, aligned or not, overlapping or
  not, and changes no byte outside the destination; \<^verbatim>\<open>bzero\<close> and \<^verbatim>\<open>memset\<close> fill exactly their region.
\<close>

theorem memmove_exact:
  "memmove dst src len m = (\<lambda>a. if dst \<le> a \<and> a < dst + len then m (src + (a - dst)) else m a) \<and>
   bzero dst len m = (\<lambda>a. if dst \<le> a \<and> a < dst + len then 0 else m a) \<and>
   memset dst ch len m = (\<lambda>a. if dst \<le> a \<and> a < dst + len then word_of_int ch else m a)"
  by (auto simp: memmove_spec bzero_spec memset_spec put_at_def fun_eq_iff)

end
