(* ===== verification/Cstring.thy ===== *)
theory Cstring
  imports Cmem
begin

text \<open>
  The string functions shared by libc and the kernel (\<^verbatim>\<open>lib/libc/str*.c\<close>, \<^verbatim>\<open>atoi.c\<close>), on the memory of the previous theory. A loop
  that looks for the terminator runs on when there is none: the functions are partial, and that they return on strings is part
  of what is shown. \<^verbatim>\<open>char\<close> is signed, as it is for the MIPS compiler, wherever the sources compare characters or widen them.
\<close>

section \<open>Operations\<close>

partial_function (option) strlen_from :: "memory \<Rightarrow> nat \<Rightarrow> nat \<Rightarrow> nat option" where
  "strlen_from m s ret = (if m (s + ret) \<noteq> 0 then strlen_from m s (Suc ret) else Some ret)"

definition strlen :: "memory \<Rightarrow> nat \<Rightarrow> nat option" where
  "strlen m s = strlen_from m s 0"

partial_function (option) strcpy_from :: "nat \<Rightarrow> nat \<Rightarrow> nat \<Rightarrow> memory \<Rightarrow> memory option" where
  "strcpy_from dest src i m =
     (if m (src + i) \<noteq> 0 then strcpy_from dest src (Suc i) (m(dest + i := m (src + i)))
      else Some (m(dest + i := 0)))"

definition strcpy :: "nat \<Rightarrow> nat \<Rightarrow> memory \<Rightarrow> memory option" where
  "strcpy dest src m = strcpy_from dest src 0 m"

definition strcat :: "nat \<Rightarrow> nat \<Rightarrow> memory \<Rightarrow> memory option" where
  "strcat dest src m = (case strlen m dest of None \<Rightarrow> None | Some offset \<Rightarrow> strcpy (dest + offset) src m)"

partial_function (option) strcmp_from :: "memory \<Rightarrow> nat \<Rightarrow> nat \<Rightarrow> nat \<Rightarrow> int option" where
  "strcmp_from m a b i =
     (if m (a + i) \<noteq> 0 \<and> m (a + i) = m (b + i) then strcmp_from m a b (Suc i)
      else Some (if sint (m (a + i)) > sint (m (b + i)) then 1
                 else if m (a + i) = m (b + i) then 0 else -1))"

definition strcmp :: "memory \<Rightarrow> nat \<Rightarrow> nat \<Rightarrow> int option" where
  "strcmp m a b = strcmp_from m a b 0"

text \<open>The pointer a search returns is an address or \<^verbatim>\<open>NULL\<close>; \<^verbatim>\<open>ch\<close> is an \<^verbatim>\<open>int\<close>.\<close>

partial_function (option) strchr :: "memory \<Rightarrow> nat \<Rightarrow> int \<Rightarrow> nat option option" where
  "strchr m s ch =
     (if m s \<noteq> 0 then if sint (m s) = ch then Some (Some s) else strchr m (Suc s) ch
      else if sint (m s) = ch then Some (Some s)
      else Some None)"

fun strrchr_from :: "memory \<Rightarrow> nat \<Rightarrow> int \<Rightarrow> nat \<Rightarrow> nat option" where
  "strrchr_from m s ch 0 = None"
| "strrchr_from m s ch (Suc i) = (if sint (m (s + i)) = ch then Some (s + i) else strrchr_from m s ch i)"

definition strrchr :: "memory \<Rightarrow> nat \<Rightarrow> int \<Rightarrow> nat option option" where
  "strrchr m s ch = (case strlen m s of None \<Rightarrow> None | Some n \<Rightarrow> Some (strrchr_from m s ch (n + 1)))"

text \<open>\<^verbatim>\<open>strtok_r\<close>: the two loops, then the function. The context is the variable the caller passes a pointer to.\<close>

partial_function (option) strtok_skip :: "memory \<Rightarrow> nat \<Rightarrow> nat \<Rightarrow> nat option" where
  "strtok_skip m seps head =
     (if m head = 0 then Some head
      else case strchr m seps (sint (m head)) of
             None \<Rightarrow> None
           | Some None \<Rightarrow> Some head
           | Some (Some _) \<Rightarrow> strtok_skip m seps (Suc head))"

partial_function (option) strtok_word :: "memory \<Rightarrow> nat \<Rightarrow> nat \<Rightarrow> nat option" where
  "strtok_word m seps tail =
     (if m tail = 0 then Some tail
      else case strchr m seps (sint (m tail)) of
             None \<Rightarrow> None
           | Some (Some _) \<Rightarrow> Some tail
           | Some None \<Rightarrow> strtok_word m seps (Suc tail))"

definition strtok_r :: "nat option \<Rightarrow> nat \<Rightarrow> nat option \<Rightarrow> memory \<Rightarrow> (nat option \<times> nat option \<times> memory) option" where
  "strtok_r string seps context m =
     (let context = (case string of Some s \<Rightarrow> Some s | None \<Rightarrow> context) in
      case context of
        None \<Rightarrow> Some (None, None, m)
      | Some head0 \<Rightarrow>
          (case strtok_skip m seps head0 of
             None \<Rightarrow> None
           | Some head \<Rightarrow>
               if m head = 0 then Some (None, None, m)
               else (case strtok_word m seps head of
                       None \<Rightarrow> None
                     | Some tail \<Rightarrow>
                         if m tail = 0 then Some (Some head, None, m)
                         else Some (Some head, Some (Suc tail), m(tail := 0)))))"

text \<open>\<^verbatim>\<open>strtok\<close>: the context is the static variable \<^verbatim>\<open>__strtok_context\<close>.\<close>

definition strtok :: "nat option \<Rightarrow> nat \<Rightarrow> nat option \<Rightarrow> memory \<Rightarrow> (nat option \<times> nat option \<times> memory) option" where
  "strtok str seps strtok_context m = strtok_r str seps strtok_context m"

text \<open>\<^verbatim>\<open>atoi\<close>. The digits are looked up in a constant string, whose characters are listed here.\<close>

definition atoi_digit :: "byte \<Rightarrow> nat option" where
  "atoi_digit c = (case filter (\<lambda>(ch, _). ch = c) (zip [48, 49, 50, 51, 52, 53, 54, 55, 56, 57] [0..<10]) of
     [] \<Rightarrow> None | (_, d) # _ \<Rightarrow> Some d)"

partial_function (option) atoi_skip :: "memory \<Rightarrow> nat \<Rightarrow> nat option" where
  "atoi_skip m s = (if m s = 32 \<or> m s = 9 then atoi_skip m (Suc s) else Some s)"

partial_function (option) atoi_digits :: "memory \<Rightarrow> nat \<Rightarrow> nat \<Rightarrow> nat option" where
  "atoi_digits m s val =
     (if m s = 0 then Some val
      else case atoi_digit (m s) of
             None \<Rightarrow> Some val
           | Some digit \<Rightarrow> atoi_digits m (Suc s) (u32 (val * 10 + digit)))"

definition atoi :: "memory \<Rightarrow> nat \<Rightarrow> int option" where
  "atoi m s =
     (case atoi_skip m s of
        None \<Rightarrow> None
      | Some s \<Rightarrow>
          let neg = (m s = 45); s = (if m s = 45 \<or> m s = 43 then Suc s else s) in
          (case atoi_digits m s 0 of
             None \<Rightarrow> None
           | Some val \<Rightarrow> Some (if neg then s32 (- int val) else s32 (int val))))"

section \<open>Strings in memory\<close>

definition str_at :: "memory \<Rightarrow> nat \<Rightarrow> byte list \<Rightarrow> bool" where
  "str_at m s cs \<longleftrightarrow> get_at s (length cs) m = cs \<and> m (s + length cs) = 0 \<and> 0 \<notin> set cs"

lemma str_at_Nil: "str_at m s [] \<longleftrightarrow> m s = 0"
  by (simp add: str_at_def get_at_def)

lemma str_at_Cons: "str_at m s (c # cs) \<longleftrightarrow> m s = c \<and> c \<noteq> 0 \<and> str_at m (Suc s) cs"
  by (auto simp: str_at_def get_at_Suc)

lemmas str_at_simps = str_at_Nil str_at_Cons

lemma str_at_append: "str_at m s (cs @ ds) \<Longrightarrow> str_at m (s + length cs) ds"
proof (induction cs arbitrary: s)
  case (Cons c cs)
  then show ?case using Cons.IH [of "Suc s"] by (simp add: str_at_simps)
qed simp

lemma str_at_cong: "str_at m s cs \<Longrightarrow> (\<And>a. s \<le> a \<Longrightarrow> a \<le> s + length cs \<Longrightarrow> m' a = m a) \<Longrightarrow> str_at m' s cs"
  by (auto simp: str_at_def get_at_def cong: map_cong) (metis add_leE atLeastLessThan_iff less_imp_le map_cong set_upt)

lemma sint_eq [simp]: "sint (a :: byte) = sint b \<longleftrightarrow> a = b"
  by (metis signed_word_eqI)

section \<open>What the functions do on strings\<close>

lemma strlen_from: "str_at m (s + i) cs \<Longrightarrow> strlen_from m s i = Some (i + length cs)"
proof (induction cs arbitrary: i)
  case Nil
  then show ?case by (subst strlen_from.simps) (simp add: str_at_simps)
next
  case (Cons c cs)
  then have "strlen_from m s (Suc i) = Some (Suc i + length cs)" by (simp add: str_at_simps)
  then show ?case using Cons.prems by (subst strlen_from.simps) (simp add: str_at_simps)
qed

lemma strlen_spec: "str_at m s cs \<Longrightarrow> strlen m s = Some (length cs)"
  using strlen_from [of m s 0 cs] by (simp add: strlen_def)

lemma strcpy_from:
  assumes "str_at m (src + i) cs" "src + i + length cs < dest + i \<or> dest + i + length cs < src + i"
  shows "strcpy_from dest src i m = Some (put_at (dest + i) (cs @ [0]) m)"
  using assms
proof (induction cs arbitrary: i m)
  case Nil
  then show ?case by (subst strcpy_from.simps) (simp add: str_at_simps put_one)
next
  case (Cons c cs)
  let ?m = "m(dest + i := c)"
  have "str_at ?m (src + Suc i) cs"
    by (rule str_at_cong [of m]) (use Cons.prems in \<open>auto simp: str_at_simps\<close>)
  then have "strcpy_from dest src (Suc i) ?m = Some (put_at (dest + Suc i) (cs @ [0]) ?m)"
    by (rule Cons.IH) (use Cons.prems in auto)
  then show ?case
    using Cons.prems by (subst strcpy_from.simps) (simp add: str_at_simps put_at_Cons)
qed

lemma strcpy_spec:
  "str_at m src cs \<Longrightarrow> src + length cs < dest \<or> dest + length cs < src \<Longrightarrow> strcpy dest src m = Some (put_at dest (cs @ [0]) m)"
  using strcpy_from [of m src 0 cs dest] by (simp add: strcpy_def)

lemma str_at_put: "0 \<notin> set cs \<Longrightarrow> str_at (put_at a (cs @ [0]) m) a cs"
  by (auto simp: str_at_def put_at_def get_at_def nth_append intro!: nth_equalityI)

lemma put_get_same: "put_at a (get_at a n m) m = m"
  by (rule ext) (auto simp: put_at_def get_at_def)

lemma strcat_spec:
  assumes "str_at m dest cs" "str_at m src ds" "src + length ds < dest \<or> dest + length cs + length ds < src"
  shows "\<exists>m'. strcat dest src m = Some m' \<and> str_at m' dest (cs @ ds) \<and> (\<forall>a. a < dest \<or> dest + length cs + length ds < a \<longrightarrow> m' a = m a)"
proof -
  let ?m = "put_at (dest + length cs) (ds @ [0]) m"
  have "strcat dest src m = Some ?m"
    using strlen_spec [OF assms(1)] strcpy_spec [OF assms(2), of "dest + length cs"] assms(3) by (auto simp: strcat_def)
  moreover have "?m = put_at dest ((cs @ ds) @ [0]) m"
  proof -
    have "get_at dest (length cs) m = cs" using assms(1) by (simp add: str_at_def)
    then have "put_at dest cs m = m" by (metis put_get_same)
    then show ?thesis using put_at_append [of dest cs "ds @ [0]" m] by simp
  qed
  moreover have "0 \<notin> set (cs @ ds)" using assms(1,2) by (simp add: str_at_def)
  ultimately show ?thesis using str_at_put [of "cs @ ds" dest m] by (intro exI [of _ ?m]) auto
qed

text \<open>The order of \<^verbatim>\<open>strcmp\<close>: by the first difference, the end of a string counting as the character 0.\<close>

fun charcmp :: "byte list \<Rightarrow> byte list \<Rightarrow> int" where
  "charcmp [] [] = 0"
| "charcmp [] (d # ds) = (if sint d < 0 then 1 else -1)"
| "charcmp (c # cs) [] = (if sint c > 0 then 1 else -1)"
| "charcmp (c # cs) (d # ds) = (if c = d then charcmp cs ds else if sint c > sint d then 1 else -1)"

lemma strcmp_from: "str_at m (a + i) cs \<Longrightarrow> str_at m (b + i) ds \<Longrightarrow> strcmp_from m a b i = Some (charcmp cs ds)"
proof (induction cs ds arbitrary: i rule: charcmp.induct)
  case (4 c cs d ds)
  show ?case using 4(2,3) 4(1) [of "Suc i"] by (subst strcmp_from.simps) (auto simp: str_at_simps)
qed (subst strcmp_from.simps, auto simp: str_at_simps)+

lemma strcmp_spec: "str_at m a cs \<Longrightarrow> str_at m b ds \<Longrightarrow> strcmp m a b = Some (charcmp cs ds)"
  using strcmp_from [of m a 0 cs b ds] by (simp add: strcmp_def)

lemma charcmp_0: "charcmp cs ds = 0 \<longleftrightarrow> cs = ds"
  by (induction cs ds rule: charcmp.induct) auto

text \<open>The first and the last place of a character, the terminator included.\<close>

fun find_first :: "int \<Rightarrow> byte list \<Rightarrow> nat option" where
  "find_first ch [] = (if ch = 0 then Some 0 else None)"
| "find_first ch (c # cs) = (if sint c = ch then Some 0 else map_option Suc (find_first ch cs))"

fun find_last :: "int \<Rightarrow> byte list \<Rightarrow> nat option" where
  "find_last ch [] = (if ch = 0 then Some 0 else None)"
| "find_last ch (c # cs) = (case find_last ch cs of Some i \<Rightarrow> Some (Suc i) | None \<Rightarrow> if sint c = ch then Some 0 else None)"

lemma strchr_spec: "str_at m s cs \<Longrightarrow> strchr m s ch = Some (map_option ((+) s) (find_first ch cs))"
proof (induction cs arbitrary: s)
  case Nil
  then show ?case by (subst strchr.simps) (simp add: str_at_simps)
next
  case (Cons c cs)
  then show ?case by (subst strchr.simps) (auto simp: str_at_simps option.map_comp comp_def)
qed

lemma strrchr_from_Suc: "strrchr_from m s ch (Suc n) =
    (case strrchr_from m (Suc s) ch n of Some p \<Rightarrow> Some p | None \<Rightarrow> if sint (m s) = ch then Some s else None)"
  by (induction n) auto

lemma strrchr_spec:
  assumes "str_at m s cs"
  shows "strrchr m s ch = Some (map_option ((+) s) (find_last ch cs))"
proof -
  have "strrchr_from m s ch (Suc (length cs)) = map_option ((+) s) (find_last ch cs)" using assms
  proof (induction cs arbitrary: s)
    case Nil
    then show ?case by (simp add: str_at_simps)
  next
    case (Cons c cs)
    then show ?case
      using strrchr_from_Suc [of m s ch "Suc (length cs)"]
      by (auto simp: str_at_simps split: option.splits simp del: strrchr_from.simps)
  qed
  then show ?thesis using strlen_spec [OF assms] by (simp add: strrchr_def)
qed

lemma sint_zero [simp]: "sint (a :: byte) = 0 \<longleftrightarrow> a = 0"
  using sint_eq [of a 0] by (simp del: sint_eq)

lemma find_first_None: "c \<noteq> 0 \<Longrightarrow> find_first (sint c) cs = None \<longleftrightarrow> c \<notin> set cs"
  by (induction cs) auto

section \<open>Splitting a string into words\<close>

function words :: "byte set \<Rightarrow> byte list \<Rightarrow> byte list list" where
  "words S cs =
     (let r = dropWhile (\<lambda>c. c \<in> S) cs in
      if r = [] then [] else takeWhile (\<lambda>c. c \<notin> S) r # words S (dropWhile (\<lambda>c. c \<notin> S) r))"
  by pat_completeness auto
termination
proof (relation "measure (\<lambda>(S, cs). length cs)")
  fix S :: "byte set" and cs r
  assume r: "r = dropWhile (\<lambda>c. c \<in> S) cs" "r \<noteq> []"
  then obtain c r' where cr: "r = c # r'" "c \<notin> S" by (metis hd_dropWhile list.exhaust_sel)
  have "length (dropWhile (\<lambda>c. c \<notin> S) r) < length r" using cr by (simp add: length_dropWhile_le less_Suc_eq_le)
  also have "\<dots> \<le> length cs" by (simp add: r length_dropWhile_le)
  finally show "((S, dropWhile (\<lambda>c. c \<notin> S) r), (S, cs)) \<in> measure (\<lambda>(S, cs). length cs)" by simp
qed simp

declare words.simps [simp del]

lemma strtok_skip_spec:
  assumes "str_at m seps ss" "str_at m a cs"
  shows "strtok_skip m seps a = Some (a + length (takeWhile (\<lambda>c. c \<in> set ss) cs))"
  using assms(2)
proof (induction cs arbitrary: a)
  case Nil
  then show ?case by (subst strtok_skip.simps) (simp add: str_at_simps)
next
  case (Cons c cs)
  then show ?case
    using strchr_spec [OF assms(1), of "sint c"] find_first_None [of c ss]
    by (subst strtok_skip.simps) (auto simp: str_at_simps split: option.splits)
qed

lemma strtok_word_spec:
  assumes "str_at m seps ss" "str_at m a cs"
  shows "strtok_word m seps a = Some (a + length (takeWhile (\<lambda>c. c \<notin> set ss) cs))"
  using assms(2)
proof (induction cs arbitrary: a)
  case Nil
  then show ?case by (subst strtok_word.simps) (simp add: str_at_simps)
next
  case (Cons c cs)
  then show ?case
    using strchr_spec [OF assms(1), of "sint c"] find_first_None [of c ss]
    by (subst strtok_word.simps) (auto simp: str_at_simps split: option.splits)
qed

lemma words_skip: "words S cs = words S (dropWhile (\<lambda>c. c \<in> S) cs)"
proof -
  have "dropWhile (\<lambda>c. c \<in> S) (dropWhile (\<lambda>c. c \<in> S) cs) = dropWhile (\<lambda>c. c \<in> S) cs"
    by (induction cs) auto
  then show ?thesis by (subst (1 2) words.simps) simp
qed

text \<open>One call: the next word, if there is one, cut off from the rest of the string, which is where the context then points.\<close>

definition word_cut :: "memory \<Rightarrow> nat \<Rightarrow> byte list \<Rightarrow> memory \<Rightarrow> bool" where
  "word_cut m a cs m' \<longleftrightarrow> (\<forall>b. b < a \<or> a + length cs \<le> b \<longrightarrow> m' b = m b)"

lemma word_cut_refl: "word_cut m a cs m"
  by (simp add: word_cut_def)

lemma strtok_r_none:
  assumes "str_at m seps ss" "str_at m a cs" "dropWhile (\<lambda>c. c \<in> set ss) cs = []"
  shows "strtok_r None seps (Some a) m = Some (None, None, m)"
proof -
  have "takeWhile (\<lambda>c. c \<in> set ss) cs = cs" using assms(3) by (metis append_Nil2 takeWhile_dropWhile_id)
  then have "strtok_skip m seps a = Some (a + length cs)" using strtok_skip_spec [OF assms(1,2)] by metis
  then show ?thesis using assms(2) by (simp add: strtok_r_def str_at_def)
qed

lemma strtok_r_some:
  assumes "str_at m seps ss" "str_at m a cs" "dropWhile (\<lambda>c. c \<in> set ss) cs = r" "r \<noteq> []"
    and h: "h = a + length (takeWhile (\<lambda>c. c \<in> set ss) cs)" and w: "w = takeWhile (\<lambda>c. c \<notin> set ss) r"
    and d: "d = dropWhile (\<lambda>c. c \<notin> set ss) r"
  shows "strtok_r None seps (Some a) m =
    Some (Some h, if d = [] then None else Some (h + length w + 1), if d = [] then m else m(h + length w := 0))"
    and "str_at m h r" and "words (set ss) cs = w # words (set ss) d" and "0 \<notin> set w" and "r = w @ d" and "w \<noteq> []"
proof -
  let ?p = "takeWhile (\<lambda>c. c \<in> set ss) cs"
  have cs: "cs = ?p @ r" using assms(3) by (metis takeWhile_dropWhile_id)
  show r: "str_at m h r" using str_at_append [of m a ?p r] assms(2) cs h by simp
  show rwd: "r = w @ d" by (simp add: w d)
  show "0 \<notin> set w" using r rwd by (auto simp: str_at_def)
  obtain c r' where c: "r = c # r'" "c \<notin> set ss" using assms(3,4) by (metis hd_dropWhile list.exhaust_sel)
  show "w \<noteq> []" using c w by simp
  have "m h \<noteq> 0" using r c by (simp add: str_at_simps)
  moreover have "str_at m (h + length w) d" using str_at_append [of m h w d] r rwd by simp
  then have "m (h + length w) = 0 \<longleftrightarrow> d = []" by (cases d) (auto simp: str_at_simps)
  ultimately show "strtok_r None seps (Some a) m =
    Some (Some h, if d = [] then None else Some (h + length w + 1), if d = [] then m else m(h + length w := 0))"
    using strtok_skip_spec [OF assms(1,2)] strtok_word_spec [OF assms(1) r] h w by (simp add: strtok_r_def)
  show "words (set ss) cs = w # words (set ss) d" using assms(3,4) w d by (subst words.simps) (simp add: Let_def)
qed

lemma strtok_r_start: "strtok_r (Some a) seps c m = strtok_r None seps (Some a) m"
  by (simp add: strtok_r_def)

section \<open>Numbers\<close>

text \<open>What \<open>atoi\<close> reads: the digits up to the first character that is none, as a decimal number.\<close>

definition digit :: "nat \<Rightarrow> byte" where
  "digit d = of_nat (48 + d)"

primrec decimal :: "nat \<Rightarrow> nat list \<Rightarrow> nat" where
  "decimal v [] = v"
| "decimal v (d # ds) = decimal (10 * v + d) ds"

lemma atoi_digit_all: "\<forall>d \<in> set [0..<10]. atoi_digit (digit d) = Some d"
  by code_simp

lemma atoi_digit_digit: "d < 10 \<Longrightarrow> atoi_digit (digit d) = Some d"
  using atoi_digit_all by simp

lemma digit_neq [simp]: "d < 10 \<Longrightarrow> digit d \<noteq> 0" "d < 10 \<Longrightarrow> digit d \<noteq> 32" "d < 10 \<Longrightarrow> digit d \<noteq> 9"
    "d < 10 \<Longrightarrow> digit d \<noteq> 45" "d < 10 \<Longrightarrow> digit d \<noteq> 43"
  using atoi_digit_digit [of d] by (auto simp: atoi_digit_def upt_rec)

lemma decimal_u32: "decimal (u32 v) ds mod 2 ^ 32 = decimal v ds mod 2 ^ 32"
proof (induction ds arbitrary: v)
  case Nil
  then show ?case by (simp add: u32_def)
next
  case (Cons d ds)
  have "u32 (10 * u32 v + d) = u32 (10 * v + d)" unfolding u32_def by (metis mod_add_left_eq mod_mult_right_eq)
  then show ?case using Cons.IH [of "10 * u32 v + d"] Cons.IH [of "10 * v + d"] by simp
qed

lemma atoi_digits_spec:
  assumes "str_at m s (map digit ds @ gunk)" "\<forall>d \<in> set ds. d < 10" "gunk = [] \<or> atoi_digit (hd gunk) = None" "v < 2 ^ 32"
  shows "atoi_digits m s v = Some (u32 (decimal v ds))"
  using assms(1,2,4)
proof (induction ds arbitrary: s v)
  case Nil
  then show ?case using assms(3) by (subst atoi_digits.simps) (cases gunk; auto simp: str_at_simps u32_def)
next
  case (Cons d ds)
  have "u32 (decimal (u32 (v * 10 + d)) ds) = u32 (decimal (v * 10 + d) ds)" using decimal_u32 by (simp add: u32_def)
  then show ?case
    using Cons.prems Cons.IH [of "Suc s" "u32 (v * 10 + d)"]
    by (subst atoi_digits.simps) (simp add: str_at_simps atoi_digit_digit u32_def mult.commute)
qed

lemma atoi_skip_spec:
  assumes "str_at m s (ws @ cs)" "set ws \<subseteq> {32, 9}" "cs = [] \<or> hd cs \<notin> {32, 9}"
  shows "atoi_skip m s = Some (s + length ws)"
  using assms(1,2)
proof (induction ws arbitrary: s)
  case Nil
  then show ?case using assms(3) by (subst atoi_skip.simps) (cases cs; auto simp: str_at_simps)
next
  case (Cons w ws)
  then show ?case by (subst atoi_skip.simps) (auto simp: str_at_simps)
qed

text \<open>\<^verbatim>\<open>atoi\<close> on blanks, an optional sign, digits and whatever follows; the value wraps around.\<close>

lemma atoi_spec:
  assumes "str_at m s (ws @ sign @ map digit ds @ gunk)" "set ws \<subseteq> {32, 9}" "sign \<in> {[], [43], [45]}"
    and "ds \<noteq> []" "\<forall>d \<in> set ds. d < 10" "gunk = [] \<or> atoi_digit (hd gunk) = None"
  shows "atoi m s = Some (s32 (if sign = [45] then - int (u32 (decimal 0 ds)) else int (u32 (decimal 0 ds))))"
proof -
  obtain d ds' where ds: "ds = d # ds'" "d < 10" using assms(4,5) by (cases ds) auto
  have skip: "atoi_skip m s = Some (s + length ws)"
    by (rule atoi_skip_spec [OF assms(1,2)]) (use assms(3) ds in auto)
  have sg: "str_at m (s + length ws) (sign @ map digit ds @ gunk)" using assms(1) by (rule str_at_append)
  then have "str_at m (s + length ws + length sign) (map digit ds @ gunk)" by (rule str_at_append)
  then have val: "atoi_digits m (s + length ws + length sign) 0 = Some (u32 (decimal 0 ds))"
    by (rule atoi_digits_spec [OF _ assms(5,6)]) simp
  consider "sign = []" "m (s + length ws) = digit d" | "sign = [43]" "m (s + length ws) = 43" | "sign = [45]" "m (s + length ws) = 45"
    using assms(3) sg ds by (auto simp: str_at_simps)
  then show ?thesis by cases (use skip val ds in \<open>auto simp: atoi_def\<close>)
qed

end
