(* ===== verification/Cprintf.thy ===== *)
theory Cprintf
  imports Cstring
begin

text \<open>
  Formatted output (\<^verbatim>\<open>lib/libc/__printf.c\<close>, \<^verbatim>\<open>snprintf.c\<close>, \<^verbatim>\<open>printf.c\<close>), shared by the kernel and libc. The printf state
  is the record \<open>PF\<close>; the client data of the send function is kept beside it, so that the same code runs with every send
  function. A failed assertion, an access outside the number buffer, a division by zero and a missing or mistyped argument
  are all the value \<open>None\<close>.
\<close>

section \<open>The state\<close>

datatype pfsize = INTSZ | LONGSZ

text \<open>An argument of a variadic call is a 32-bit word (\<^verbatim>\<open>int\<close>, \<^verbatim>\<open>long\<close> and pointers) or a string, which may be \<^verbatim>\<open>NULL\<close>.\<close>

datatype vararg = Word nat | Str "byte list option"

record PF =
  ap :: "vararg list"
  charcount :: int
  in_pct :: bool
  pf_size :: pfsize
  num :: nat
  pf_sign :: int
  spacing :: int
  rightspc :: bool
  fillchar :: byte
  base :: nat
  baseprefix :: bool
  altformat :: bool

text \<open>\<^verbatim>\<open>NUMBER_BUF_SIZE\<close> for a 32-bit \<^verbatim>\<open>long\<close>.\<close>

definition NUMBER_BUF_SIZE :: nat where
  "NUMBER_BUF_SIZE = (4 * 8) div 3 + 2"

section \<open>The formatter\<close>

definition pf_print :: "('c \<Rightarrow> byte list \<Rightarrow> 'c) \<Rightarrow> byte list \<Rightarrow> PF \<times> 'c \<Rightarrow> PF \<times> 'c" where
  "pf_print send txt = (\<lambda>(pf, c). (pf\<lparr>charcount := s32 (charcount pf + int (length txt))\<rparr>, send c txt))"

definition pf_endfield :: "PF \<Rightarrow> PF" where
  "pf_endfield pf = pf\<lparr>in_pct := False, pf_size := INTSZ, num := 0, pf_sign := 0, spacing := 0, rightspc := False,
     fillchar := 32, base := 0, baseprefix := False, altformat := False\<rparr>"

definition pf_modifier :: "byte \<Rightarrow> PF \<Rightarrow> PF option" where
  "pf_modifier ch pf =
     (if ch = 35 then Some (pf\<lparr>altformat := True\<rparr>)
      else if ch = 45 then Some (pf\<lparr>rightspc := True\<rparr>)
      else if ch = 108 then Some (if pf_size pf = LONGSZ then pf else pf\<lparr>pf_size := LONGSZ\<rparr>)
      else if ch = 113 then Some (pf\<lparr>pf_size := LONGSZ\<rparr>)
      else if ch = 48 then
        Some (if spacing pf > 0 then pf\<lparr>spacing := s32 (spacing pf * 10)\<rparr> else pf\<lparr>fillchar := 48\<rparr>)
      else if \<not> (sint ch > 48 \<and> sint ch \<le> 57) then None
      else Some (pf\<lparr>spacing := s32 (spacing pf * 10 + (sint ch - 48))\<rparr>))"

fun va_word :: "PF \<Rightarrow> (nat \<times> PF) option" where
  "va_word pf = (case ap pf of Word n # rest \<Rightarrow> Some (u32 n, pf\<lparr>ap := rest\<rparr>) | _ \<Rightarrow> None)"

definition pf_getnum :: "byte \<Rightarrow> PF \<Rightarrow> PF option" where
  "pf_getnum ch pf =
     (case va_word pf of
        None \<Rightarrow> None
      | Some (n, pf) \<Rightarrow>
          if ch = 112 then Some (pf\<lparr>num := n\<rparr>)
          else if ch = 100 then
            (let signednum = s32 (int n) in
             if signednum < 0 then Some (pf\<lparr>pf_sign := -1, num := i2u32 (s32 (- signednum))\<rparr>)
             else Some (pf\<lparr>num := i2u32 signednum\<rparr>))
          else Some (pf\<lparr>num := n\<rparr>))"

definition pf_setbase :: "byte \<Rightarrow> PF \<Rightarrow> PF" where
  "pf_setbase ch pf =
     (let pf = (if ch = 100 \<or> ch = 117 then pf\<lparr>base := 10\<rparr>
                else if ch = 120 \<or> ch = 112 then pf\<lparr>base := 16\<rparr>
                else if ch = 111 then pf\<lparr>base := 8\<rparr>
                else pf) in
      if altformat pf \<or> ch = 112 then pf\<lparr>baseprefix := True\<rparr> else pf)"

primrec pf_fill_loop :: "('c \<Rightarrow> byte list \<Rightarrow> 'c) \<Rightarrow> byte \<Rightarrow> nat \<Rightarrow> PF \<times> 'c \<Rightarrow> PF \<times> 'c" where
  "pf_fill_loop send f 0 s = s"
| "pf_fill_loop send f (Suc n) s = pf_fill_loop send f n (pf_print send [f] s)"

definition pf_fill :: "('c \<Rightarrow> byte list \<Rightarrow> 'c) \<Rightarrow> int \<Rightarrow> PF \<times> 'c \<Rightarrow> PF \<times> 'c" where
  "pf_fill send spc s = pf_fill_loop send (fillchar (fst s)) (nat spc) s"

definition pf_spc :: "PF \<Rightarrow> int \<Rightarrow> int" where
  "pf_spc pf len = (if spacing pf > len then s32 (spacing pf - len) else 0)"

definition pf_printstuff :: "('c \<Rightarrow> byte list \<Rightarrow> 'c) \<Rightarrow> byte list \<Rightarrow> byte list \<Rightarrow> byte list \<Rightarrow> PF \<times> 'c \<Rightarrow> PF \<times> 'c" where
  "pf_printstuff send prefix prefix2 stuff s =
     (let pf = fst s;
          len = s32 (int (length prefix + length prefix2 + length stuff));
          spc = pf_spc pf len;
          s = (if spc > 0 \<and> \<not> rightspc pf \<and> fillchar pf \<noteq> 48 then pf_fill send spc s else s);
          s = pf_print send prefix s;
          s = pf_print send prefix2 s;
          s = (if spc > 0 \<and> \<not> rightspc pf \<and> fillchar pf = 48 then pf_fill send spc s else s);
          s = pf_print send stuff s in
      if spc > 0 \<and> rightspc pf then pf_fill send spc s else s)"

text \<open>
  The number is written from right to left into a buffer of \<open>NUMBER_BUF_SIZE\<close> bytes. The buffer is the number of slots that
  are still free on the left and the bytes stored to the right of them; a store with no slot free is outside the buffer.
\<close>

definition pf_digit_chars :: "byte list" where
  "pf_digit_chars = [48, 49, 50, 51, 52, 53, 54, 55, 56, 57, 97, 98, 99, 100, 101, 102]"

primrec pf_digits :: "nat \<Rightarrow> nat \<Rightarrow> nat \<Rightarrow> byte list \<Rightarrow> byte list option" where
  "pf_digits 0 b xnum buf = None"
| "pf_digits (Suc free) b xnum buf =
     (if b = 0 then None
      else let buf = pf_digit_chars ! (xnum mod b) # buf; xnum = xnum div b in
           if xnum > 0 then pf_digits free b xnum buf else Some buf)"

definition pf_printnum :: "('c \<Rightarrow> byte list \<Rightarrow> 'c) \<Rightarrow> PF \<times> 'c \<Rightarrow> (PF \<times> 'c) option" where
  "pf_printnum send s =
     (let pf = fst s in
      case pf_digits (NUMBER_BUF_SIZE - 1) (base pf) (num pf) [0] of
        None \<Rightarrow> None
      | Some x \<Rightarrow>
          let bprefix = (if baseprefix pf \<and> base pf = 16 then [48, 120] else if baseprefix pf \<and> base pf = 8 then [48] else []);
              sprefix = (if pf_sign pf \<noteq> 0 then [45] else []) in
          Some (pf_printstuff send sprefix bprefix (takeWhile (\<lambda>ch. ch \<noteq> 0) x) s))"

definition pf_modifiers :: "byte list" where
  "pf_modifiers = [35, 45, 113, 108, 48, 49, 50, 51, 52, 53, 54, 55, 56, 57]"

definition pf_integers :: "byte list" where
  "pf_integers = [100, 111, 117, 112, 120]"

definition pf_null :: "byte list" where
  "pf_null = [40, 110, 117, 108, 108, 41]"

text \<open>The branches of \<^verbatim>\<open>__pf_send\<close> that print a field: integers, strings, and single characters.\<close>

definition pf_field :: "(PF \<times> 'c) option \<Rightarrow> (PF \<times> 'c) option" where
  "pf_field r = map_option (apfst pf_endfield) r"

definition pf_integer :: "('c \<Rightarrow> byte list \<Rightarrow> 'c) \<Rightarrow> byte \<Rightarrow> PF \<times> 'c \<Rightarrow> (PF \<times> 'c) option" where
  "pf_integer send ch = (\<lambda>(pf, c).
     case pf_getnum ch pf of None \<Rightarrow> None | Some pf \<Rightarrow> pf_field (pf_printnum send (pf_setbase ch pf, c)))"

definition pf_string :: "('c \<Rightarrow> byte list \<Rightarrow> 'c) \<Rightarrow> PF \<times> 'c \<Rightarrow> (PF \<times> 'c) option" where
  "pf_string send = (\<lambda>(pf, c).
     case ap pf of
       Str str # rest \<Rightarrow>
         pf_field (Some (pf_printstuff send [] [] (case str of None \<Rightarrow> pf_null | Some s \<Rightarrow> s) (pf\<lparr>ap := rest\<rparr>, c)))
     | _ \<Rightarrow> None)"

definition pf_char :: "('c \<Rightarrow> byte list \<Rightarrow> 'c) \<Rightarrow> byte \<Rightarrow> PF \<times> 'c \<Rightarrow> (PF \<times> 'c) option" where
  "pf_char send ch = (\<lambda>(pf, c).
     if ch = 99 then
       (case va_word pf of
          None \<Rightarrow> None
        | Some (n, pf) \<Rightarrow> pf_field (Some (pf_printstuff send [] [] (takeWhile (\<lambda>x. x \<noteq> 0) [of_nat n]) (pf, c))))
     else pf_field (Some (pf_printstuff send [] [] [ch] (pf, c))))"

definition pf_send :: "('c \<Rightarrow> byte list \<Rightarrow> 'c) \<Rightarrow> byte \<Rightarrow> PF \<times> 'c \<Rightarrow> (PF \<times> 'c) option" where
  "pf_send send ch = (\<lambda>(pf, c).
     if ch = 0 then None
     else if \<not> in_pct pf \<and> ch \<noteq> 37 then Some (pf_print send [ch] (pf, c))
     else if \<not> in_pct pf then Some (pf\<lparr>in_pct := True\<rparr>, c)
     else if ch \<in> set pf_modifiers then map_option (\<lambda>pf. (pf, c)) (pf_modifier ch pf)
     else if ch \<in> set pf_integers then pf_integer send ch (pf, c)
     else if ch = 115 then pf_string send (pf, c)
     else pf_char send ch (pf, c))"

fun pf_loop :: "('c \<Rightarrow> byte list \<Rightarrow> 'c) \<Rightarrow> byte list \<Rightarrow> PF \<times> 'c \<Rightarrow> (PF \<times> 'c) option" where
  "pf_loop send [] s = Some s"
| "pf_loop send (ch # format) s = (case pf_send send ch s of None \<Rightarrow> None | Some s \<Rightarrow> pf_loop send format s)"

definition pf_start :: "vararg list \<Rightarrow> PF" where
  "pf_start args = pf_endfield \<lparr>ap = args, charcount = 0, in_pct = False, pf_size = INTSZ, num = 0, pf_sign = 0, spacing = 0,
     rightspc = False, fillchar = 0, base = 0, baseprefix = False, altformat = False\<rparr>"

definition vprintf_guts :: "('c \<Rightarrow> byte list \<Rightarrow> 'c) \<Rightarrow> 'c \<Rightarrow> byte list \<Rightarrow> vararg list \<Rightarrow> (int \<times> 'c) option" where
  "vprintf_guts func clientdata format args =
     (case pf_loop func format (pf_start args, clientdata) of
        None \<Rightarrow> None
      | Some (pf, clientdata) \<Rightarrow> Some (charcount pf, clientdata))"

section \<open>Send functions\<close>

text \<open>\<^verbatim>\<open>snprintf\<close>: the context, the send function, and the function with the terminator it adds. The buffer is in memory.\<close>

record SNP =
  snp_buf :: nat
  buflen :: nat
  bufpos :: nat

fun snprintf_send :: "SNP \<times> memory \<Rightarrow> byte list \<Rightarrow> SNP \<times> memory" where
  "snprintf_send (snp, m) [] = (snp, m)"
| "snprintf_send (snp, m) (d # data) =
     snprintf_send (if bufpos snp < buflen snp
                    then (snp\<lparr>bufpos := bufpos snp + 1\<rparr>, m(snp_buf snp + bufpos snp := d)) else (snp, m)) data"

definition vsnprintf :: "nat \<Rightarrow> nat \<Rightarrow> byte list \<Rightarrow> vararg list \<Rightarrow> memory \<Rightarrow> (int \<times> memory) option" where
  "vsnprintf buf len fmt args m =
     (let snp = \<lparr>snp_buf = buf, buflen = (if len = 0 then 0 else len - 1), bufpos = 0\<rparr> in
      case vprintf_guts snprintf_send (snp, m) fmt args of
        None \<Rightarrow> None
      | Some (chars, (snp, m)) \<Rightarrow> Some (chars, if len > 0 then m(buf + bufpos snp := 0) else m))"

definition snprintf :: "nat \<Rightarrow> nat \<Rightarrow> byte list \<Rightarrow> vararg list \<Rightarrow> memory \<Rightarrow> (int \<times> memory) option" where
  "snprintf buf len fmt args m = vsnprintf buf len fmt args m"

text \<open>\<^verbatim>\<open>printf\<close> in libc: \<^verbatim>\<open>putchar\<close> for each character; what \<^verbatim>\<open>putchar\<close> does to the standard output is a parameter.\<close>

fun printf_send :: "('c \<Rightarrow> byte \<Rightarrow> 'c) \<Rightarrow> 'c \<Rightarrow> byte list \<Rightarrow> 'c" where
  "printf_send putchar out [] = out"
| "printf_send putchar out (d # data) = printf_send putchar (putchar out d) data"

definition vprintf :: "('c \<Rightarrow> byte \<Rightarrow> 'c) \<Rightarrow> byte list \<Rightarrow> vararg list \<Rightarrow> 'c \<Rightarrow> (int \<times> 'c) option" where
  "vprintf putchar fmt args out = vprintf_guts (printf_send putchar) out fmt args"

definition printf :: "('c \<Rightarrow> byte \<Rightarrow> 'c) \<Rightarrow> byte list \<Rightarrow> vararg list \<Rightarrow> 'c \<Rightarrow> (int \<times> 'c) option" where
  "printf putchar fmt args out = vprintf putchar fmt args out"

section \<open>Every send function prints the same text\<close>

text \<open>
  The contract of a send function: a text may be sent in pieces. Under it the formatter does with any client data what it
  does when the text is collected in a list.
\<close>

locale sender =
  fixes send :: "'c \<Rightarrow> byte list \<Rightarrow> 'c"
  assumes send_nil: "send c [] = c"
    and send_append: "send (send c xs) ys = send c (xs @ ys)"
begin

lemma print_sim: "pf_print send txt (pf, send c out) = apsnd (send c) (pf_print (@) txt (pf, out))"
  by (simp add: pf_print_def send_append)

lemma fill_loop_sim: "pf_fill_loop send f n (pf, send c out) = apsnd (send c) (pf_fill_loop (@) f n (pf, out))"
proof (induction n arbitrary: pf out)
  case (Suc n)
  show ?case using Suc.IH by (simp add: pf_print_def send_append)
qed simp

lemma print_sim_apsnd: "pf_print send txt (apsnd (send c) s) = apsnd (send c) (pf_print (@) txt s)"
  by (cases s) (simp add: print_sim)

lemma fill_sim_apsnd: "pf_fill send spc (apsnd (send c) s) = apsnd (send c) (pf_fill (@) spc s)"
  by (cases s) (simp add: pf_fill_def fill_loop_sim)

lemma printstuff_sim: "pf_printstuff send p p2 t (apsnd (send c) s) = apsnd (send c) (pf_printstuff (@) p p2 t s)"
  unfolding pf_printstuff_def Let_def fst_apsnd
  by (cases "rightspc (fst s)"; cases "fillchar (fst s) = 48";
      cases "0 < pf_spc (fst s) (s32 (int (length p + length p2 + length t)))")
     (simp_all only: print_sim_apsnd fill_sim_apsnd if_True if_False simp_thms)

lemma printnum_sim: "pf_printnum send (apsnd (send c) s) = map_option (apsnd (send c)) (pf_printnum (@) s)"
  by (simp add: pf_printnum_def Let_def printstuff_sim split: option.splits)

lemma field_sim: "pf_field (map_option (apsnd (send c)) r) = map_option (apsnd (send c)) (pf_field r)"
  by (cases r) (auto simp: pf_field_def)

lemma printstuff_pair: "pf_printstuff send p p2 t (pf, send c out) = apsnd (send c) (pf_printstuff (@) p p2 t (pf, out))"
  using printstuff_sim [of p p2 t c "(pf, out)"] by simp

lemma printnum_pair: "pf_printnum send (pf, send c out) = map_option (apsnd (send c)) (pf_printnum (@) (pf, out))"
  using printnum_sim [of c "(pf, out)"] by simp

lemma stuff_sim: "pf_field (Some (pf_printstuff send p p2 t (pf, send c out))) =
    map_option (apsnd (send c)) (pf_field (Some (pf_printstuff (@) p p2 t (pf, out))))"
  using field_sim [of c "Some (pf_printstuff (@) p p2 t (pf, out))"] by (simp add: printstuff_pair)

lemma integer_sim: "pf_integer send ch (pf, send c out) = map_option (apsnd (send c)) (pf_integer (@) ch (pf, out))"
  by (cases "pf_getnum ch pf") (simp_all add: pf_integer_def printnum_pair field_sim)

lemma string_sim: "pf_string send (pf, send c out) = map_option (apsnd (send c)) (pf_string (@) (pf, out))"
  unfolding pf_string_def prod.case stuff_sim by (simp split: list.split vararg.split)

lemma char_sim: "pf_char send ch (pf, send c out) = map_option (apsnd (send c)) (pf_char (@) ch (pf, out))"
  unfolding pf_char_def prod.case stuff_sim by (simp split: option.split prod.split)

lemma send_sim: "pf_send send ch (pf, send c out) = map_option (apsnd (send c)) (pf_send (@) ch (pf, out))"
  unfolding pf_send_def prod.case integer_sim string_sim char_sim print_sim by (simp add: option.map_comp comp_def)

lemma loop_sim: "pf_loop send fmt (pf, send c out) = map_option (apsnd (send c)) (pf_loop (@) fmt (pf, out))"
proof (induction fmt arbitrary: pf out)
  case (Cons ch fmt)
  show ?case using Cons.IH send_sim [of ch pf c out] by (auto split: option.splits)
qed simp

lemma guts_sim: "vprintf_guts send c fmt args = map_option (apsnd (send c)) (vprintf_guts (@) [] fmt args)"
  using loop_sim [of fmt "pf_start args" c "[]"] by (auto simp: vprintf_guts_def send_nil split: option.splits)

end

lemma snprintf_send_nil: "snprintf_send c [] = c"
  by (cases c) simp

lemma snprintf_send_append: "snprintf_send (snprintf_send c xs) ys = snprintf_send c (xs @ ys)"
  by (induction c xs rule: snprintf_send.induct) auto

interpretation sn: sender snprintf_send
  by unfold_locales (simp_all add: snprintf_send_nil snprintf_send_append)

lemma printf_send_append: "printf_send f (printf_send f c xs) ys = printf_send f c (xs @ ys)"
  by (induction f c xs rule: printf_send.induct) auto

interpretation pr: sender "printf_send f"
  by unfold_locales (simp_all add: printf_send_append)

lemma snprintf_send_take:
  "snprintf_send (snp, m) data =
     (let t = take (buflen snp - bufpos snp) data in
      (snp\<lparr>bufpos := bufpos snp + length t\<rparr>, put_at (snp_buf snp + bufpos snp) t m))"
proof (induction data arbitrary: snp m)
  case (Cons d data)
  show ?case
  proof (cases "bufpos snp < buflen snp")
    case True
    then have "buflen snp - bufpos snp = Suc (buflen snp - Suc (bufpos snp))" by simp
    then show ?thesis using True Cons.IH by (simp add: Let_def put_at_Cons)
  qed (use Cons.IH in \<open>simp add: Let_def\<close>)
qed simp

section \<open>Numbers\<close>

text \<open>The digits of a number in a base, most significant first, without leading zeros.\<close>

fun digs :: "nat \<Rightarrow> nat \<Rightarrow> nat list" where
  "digs b n = (if n < b \<or> b < 2 then [n] else digs b (n div b) @ [n mod b])"

declare digs.simps [simp del]

definition in_base :: "nat \<Rightarrow> nat list \<Rightarrow> nat" where
  "in_base b ds = foldl (\<lambda>v d. b * v + d) 0 ds"

lemma in_base_digs: "in_base b (digs b n) = n"
proof (induction b n rule: digs.induct)
  case (1 b n)
  then show ?case by (subst digs.simps) (simp add: in_base_def)
qed

lemma digs_less: "2 \<le> b \<Longrightarrow> d \<in> set (digs b n) \<Longrightarrow> d < b"
proof (induction b n rule: digs.induct)
  case (1 b n)
  from 1(3) have "d = n \<and> n < b \<or> \<not> n < b \<and> (d \<in> set (digs b (n div b)) \<or> d = n mod b)"
    using 1(2) by (subst (asm) digs.simps) (auto split: if_splits)
  then show ?case using 1(1,2) by auto
qed

lemma digs_not_Nil [simp]: "digs b n \<noteq> []"
  by (subst digs.simps) simp

lemma digs_length: "2 \<le> b \<Longrightarrow> 0 < k \<Longrightarrow> n < b ^ k \<Longrightarrow> length (digs b n) \<le> k"
proof (induction k arbitrary: n)
  case (Suc k)
  show ?case
  proof (cases "n < b")
    case False
    then have "n div b < b ^ k" using Suc.prems by (simp add: less_mult_imp_div_less mult.commute)
    moreover have "0 < k" using Suc.prems False by (cases k) auto
    ultimately show ?thesis using Suc.IH [of "n div b"] False Suc.prems(1) by (subst digs.simps) simp
  qed (use Suc.prems in \<open>subst digs.simps, simp\<close>)
qed simp

lemma pf_digits_spec:
  "2 \<le> b \<Longrightarrow> length (digs b n) \<le> free \<Longrightarrow> pf_digits free b n buf = Some (map ((!) pf_digit_chars) (digs b n) @ buf)"
proof (induction free arbitrary: n buf)
  case (Suc free)
  show ?case
  proof (cases "n < b")
    case True
    then have "digs b n = [n]" by (subst digs.simps) simp
    then show ?thesis using Suc.prems(1) True by simp
  next
    case False
    then have d: "digs b n = digs b (n div b) @ [n mod b]" using Suc.prems(1) by (subst digs.simps) simp
    have "pf_digits free b (n div b) (pf_digit_chars ! (n mod b) # buf) =
        Some (map ((!) pf_digit_chars) (digs b (n div b)) @ pf_digit_chars ! (n mod b) # buf)"
      by (rule Suc.IH) (use Suc.prems d in auto)
    then show ?thesis using Suc.prems(1) False d by (simp add: div_greater_zero_iff)
  qed
qed simp

definition int_base :: "nat \<Rightarrow> bool" where
  "int_base b \<longleftrightarrow> b = 8 \<or> b = 10 \<or> b = 16"

lemma digs_fit: "int_base b \<Longrightarrow> n < 2 ^ 32 \<Longrightarrow> length (digs b n) \<le> 11"
  by (rule digs_length) (auto simp: int_base_def)

lemma NUMBER_BUF_SIZE: "NUMBER_BUF_SIZE = 12"
  by (simp add: NUMBER_BUF_SIZE_def)

lemma pf_digits_fit: "int_base b \<Longrightarrow> n < 2 ^ 32 \<Longrightarrow>
    pf_digits (NUMBER_BUF_SIZE - 1) b n [0] = Some (map ((!) pf_digit_chars) (digs b n) @ [0])"
  using pf_digits_spec [of b n 11 "[0]"] digs_fit [of b n] by (auto simp: NUMBER_BUF_SIZE int_base_def)

section \<open>The formatter returns, and counts what it prints\<close>

text \<open>The arguments a format asks for, in order: a word for every integer and character conversion, a string for every \<^verbatim>\<open>%s\<close>.\<close>

fun conv_args :: "bool \<Rightarrow> byte list \<Rightarrow> vararg list \<Rightarrow> bool" where
  "conv_args q [] args = True"
| "conv_args q (ch # fmt) args =
     (if \<not> q then conv_args (ch = 37) fmt args
      else if ch \<in> set pf_modifiers then conv_args True fmt args
      else if ch \<in> set pf_integers \<or> ch = 99 then (case args of Word n # rest \<Rightarrow> conv_args False fmt rest | _ \<Rightarrow> False)
      else if ch = 115 then (case args of Str str # rest \<Rightarrow> conv_args False fmt rest | _ \<Rightarrow> False)
      else conv_args False fmt args)"

lemma pf_print_fst [simp]: "fst (pf_print send txt s) = (fst s)\<lparr>charcount := s32 (charcount (fst s) + int (length txt))\<rparr>"
  by (cases s) (simp add: pf_print_def)

lemma pf_fill_loop_ap [simp]: "ap (fst (pf_fill_loop send f n s)) = ap (fst s)"
  by (induction n arbitrary: s) auto

lemma pf_printstuff_ap [simp]: "ap (fst (pf_printstuff send p p2 t s)) = ap (fst s)"
  by (simp add: pf_printstuff_def pf_fill_def Let_def)

lemma pf_endfield_simps [simp]: "ap (pf_endfield pf) = ap pf" "in_pct (pf_endfield pf) = False" "charcount (pf_endfield pf) = charcount pf"
  by (simp_all add: pf_endfield_def)

lemma pf_field_Some: "\<exists>pf' c'. pf_field (Some s) = Some (pf', c') \<and> in_pct pf' = False \<and> ap pf' = ap (fst s)"
  by (cases s) (simp add: pf_field_def)

lemma pf_modifier_ok:
  "ch \<in> set pf_modifiers \<Longrightarrow> \<exists>pf'. pf_modifier ch pf = Some pf' \<and> in_pct pf' = in_pct pf \<and> ap pf' = ap pf"
  by (auto simp: pf_modifiers_def pf_modifier_def)

lemma pf_getnum_ok:
  assumes "ap pf = Word n # rest"
  shows "\<exists>pf'. pf_getnum ch pf = Some pf' \<and> ap pf' = rest \<and> num pf' < 2 ^ 32"
  using assms i2u32_less u32_less by (auto simp: pf_getnum_def Let_def)

lemma pf_setbase_ok: "ch \<in> set pf_integers \<Longrightarrow> int_base (base (pf_setbase ch pf))" "ap (pf_setbase ch pf) = ap pf" "num (pf_setbase ch pf) = num pf"
  by (auto simp: pf_integers_def pf_setbase_def int_base_def)

lemma digit_chars_nonzero: "d < 16 \<Longrightarrow> pf_digit_chars ! d \<noteq> 0"
proof -
  assume "d < 16"
  then have "pf_digit_chars ! d \<in> set pf_digit_chars" by (intro nth_mem) (simp add: pf_digit_chars_def)
  then show ?thesis by (auto simp: pf_digit_chars_def)
qed

lemma pf_printnum_spec:
  assumes "int_base (base (fst s))" "num (fst s) < 2 ^ 32"
  shows "pf_printnum send s = Some (pf_printstuff send (if pf_sign (fst s) \<noteq> 0 then [45] else [])
    (if baseprefix (fst s) \<and> base (fst s) = 16 then [48, 120] else if baseprefix (fst s) \<and> base (fst s) = 8 then [48] else [])
    (map ((!) pf_digit_chars) (digs (base (fst s)) (num (fst s)))) s)"
proof -
  have "\<forall>d \<in> set (digs (base (fst s)) (num (fst s))). pf_digit_chars ! d \<noteq> 0"
    using digs_less [of "base (fst s)"] assms(1) by (force simp: int_base_def intro!: digit_chars_nonzero)
  then have "takeWhile (\<lambda>ch. ch \<noteq> 0) (map ((!) pf_digit_chars) (digs (base (fst s)) (num (fst s))) @ [0])
      = map ((!) pf_digit_chars) (digs (base (fst s)) (num (fst s)))"
    by (subst takeWhile_append2) auto
  then show ?thesis using pf_digits_fit [OF assms] by (simp add: pf_printnum_def Let_def)
qed

lemma pf_integer_ok:
  assumes "ap pf = Word n # rest" "ch \<in> set pf_integers"
  shows "\<exists>pf' c'. pf_integer send ch (pf, c) = Some (pf', c') \<and> in_pct pf' = False \<and> ap pf' = rest"
proof -
  obtain pf1 where g: "pf_getnum ch pf = Some pf1" "ap pf1 = rest" "num pf1 < 2 ^ 32"
    using pf_getnum_ok [OF assms(1), of ch] by blast
  obtain s where s: "pf_printnum send (pf_setbase ch pf1, c) = Some s" "ap (fst s) = rest"
    using pf_printnum_spec [of "(pf_setbase ch pf1, c)" send] pf_setbase_ok [of ch pf1] assms(2) g by simp
  show ?thesis using pf_field_Some [of s] g s by (simp add: pf_integer_def)
qed

lemma pf_send_ok:
  assumes "ch \<noteq> 0" "conv_args (in_pct pf) (ch # fmt) (ap pf)"
  shows "\<exists>pf' c'. pf_send send ch (pf, c) = Some (pf', c') \<and> conv_args (in_pct pf') fmt (ap pf')"
proof -
  consider "\<not> in_pct pf" | "in_pct pf" "ch \<in> set pf_modifiers" | n rest where "in_pct pf" "ch \<notin> set pf_modifiers" "ch \<in> set pf_integers"
      "ap pf = Word n # rest" "conv_args False fmt rest"
    | str rest where "in_pct pf" "ch \<notin> set pf_modifiers" "ch \<notin> set pf_integers" "ch = 115" "ap pf = Str str # rest" "conv_args False fmt rest"
    | n rest where "in_pct pf" "ch \<notin> set pf_modifiers" "ch \<notin> set pf_integers" "ch = 99" "ap pf = Word n # rest" "conv_args False fmt rest"
    | "in_pct pf" "ch \<notin> set pf_modifiers" "ch \<notin> set pf_integers" "ch \<noteq> 115" "ch \<noteq> 99" "conv_args False fmt (ap pf)"
    using assms(2) by (force split: if_splits list.splits vararg.splits)
  then show ?thesis
  proof cases
    case 1
    then show ?thesis using assms by (auto simp: pf_send_def pf_print_def)
  next
    case 2
    then show ?thesis using assms pf_modifier_ok [of ch pf] by (auto simp: pf_send_def)
  next
    case 3
    then show ?thesis using assms pf_integer_ok [of pf _ _ ch send c] by (force simp: pf_send_def)
  qed (use assms in \<open>auto simp: pf_send_def pf_string_def pf_char_def pf_field_def apfst_def map_prod_def split_beta\<close>)
qed

lemma pf_loop_ok: "0 \<notin> set fmt \<Longrightarrow> conv_args (in_pct pf) fmt (ap pf) \<Longrightarrow> \<exists>pf' c'. pf_loop send fmt (pf, c) = Some (pf', c')"
proof (induction fmt arbitrary: pf c)
  case (Cons ch fmt)
  obtain pf' c' where "pf_send send ch (pf, c) = Some (pf', c')" "conv_args (in_pct pf') fmt (ap pf')"
    using pf_send_ok [of ch pf fmt send c] Cons.prems by auto
  then show ?case using Cons.IH [of pf' c'] Cons.prems(1) by simp
qed simp

definition counted :: "PF \<times> byte list \<Rightarrow> bool" where
  "counted s \<longleftrightarrow> charcount (fst s) = s32 (int (length (snd s)))"

lemma counted_print [simp]: "counted s \<Longrightarrow> counted (pf_print (@) txt s)"
  by (cases s) (simp add: counted_def pf_print_def)

lemma counted_fill [simp]: "counted s \<Longrightarrow> counted (pf_fill (@) spc s)"
proof -
  have "counted s \<Longrightarrow> counted (pf_fill_loop (@) f n s)" for f n
    by (induction n arbitrary: s) simp_all
  then show "counted s \<Longrightarrow> counted (pf_fill (@) spc s)" by (simp add: pf_fill_def)
qed

lemma counted_printstuff: "counted s \<Longrightarrow> counted (pf_printstuff (@) p p2 t s)"
  by (simp add: pf_printstuff_def Let_def)

lemma counted_field: "pf_field r = Some s' \<Longrightarrow> (\<And>s. r = Some s \<Longrightarrow> counted s) \<Longrightarrow> counted s'"
  by (auto simp: pf_field_def counted_def)

lemma counted_stuff:
  "pf_field (Some (pf_printstuff (@) p p2 t (pf, c))) = Some s' \<Longrightarrow> charcount pf = s32 (int (length c)) \<Longrightarrow> counted s'"
  using counted_field [of "Some (pf_printstuff (@) p p2 t (pf, c))" s'] counted_printstuff [of "(pf, c)" p p2 t]
  by (auto simp: counted_def [of "(pf, c)"])

lemma counted_printnum: "pf_printnum (@) s = Some s' \<Longrightarrow> counted s \<Longrightarrow> counted s'"
  by (auto simp: pf_printnum_def Let_def split: option.splits intro!: counted_printstuff)

lemma charcount_steps:
  "pf_modifier ch pf = Some pf' \<Longrightarrow> charcount pf' = charcount pf"
  "va_word pf = Some (n, pf') \<Longrightarrow> charcount pf' = charcount pf"
  "pf_getnum ch pf = Some pf' \<Longrightarrow> charcount pf' = charcount pf"
  "charcount (pf_setbase ch pf) = charcount pf"
  by (auto simp: pf_modifier_def pf_getnum_def pf_setbase_def Let_def split: if_splits list.splits vararg.splits)

lemma counted_send:
  assumes "pf_send (@) ch s = Some s'" "counted s"
  shows "counted s'"
proof -
  obtain pf c where s: "s = (pf, c)" by (cases s)
  have int: "pf_integer (@) ch (pf, c) = Some s' \<Longrightarrow> counted s'"
    using assms(2) charcount_steps(3,4) s
    by (auto simp: pf_integer_def counted_def [of "(_, c)"] split: option.splits elim!: counted_field counted_printnum)
  have str: "pf_string (@) (pf, c) = Some s' \<Longrightarrow> counted s'"
    using assms(2) s by (auto simp: pf_string_def counted_def [of "(_, c)"] split: list.splits vararg.splits dest!: counted_stuff)
  have chr: "pf_char (@) ch (pf, c) = Some s' \<Longrightarrow> counted s'"
    using assms(2) charcount_steps(2) s
    by (auto simp: pf_char_def counted_def [of "(_, c)"] simp del: va_word.simps split: if_splits option.splits prod.splits dest!: counted_stuff)
  show ?thesis
    using assms s int str chr charcount_steps(1)
    by (auto simp: pf_send_def split: if_splits intro: counted_print) (auto simp: counted_def)
qed

lemma counted_loop: "pf_loop (@) fmt s = Some s' \<Longrightarrow> counted s \<Longrightarrow> counted s'"
  by (induction fmt arbitrary: s) (auto split: option.splits dest: counted_send)

lemma vprintf_guts_ok:
  assumes "0 \<notin> set fmt" "conv_args False fmt args"
  shows "\<exists>out. vprintf_guts (@) [] fmt args = Some (s32 (int (length out)), out)"
proof -
  obtain pf out where l: "pf_loop (@) fmt (pf_start args, []) = Some (pf, out)"
    using pf_loop_ok [of fmt "pf_start args" "(@)" "[]"] assms by (auto simp: pf_start_def pf_endfield_def)
  have "counted (pf_start args, [])" by (simp add: counted_def pf_start_def pf_endfield_def)
  then have "charcount pf = s32 (int (length out))" using counted_loop [OF l] by (simp add: counted_def)
  then show ?thesis using l by (simp add: vprintf_guts_def)
qed

section \<open>Properties\<close>

lemma vsnprintf_put:
  assumes "vprintf_guts (@) [] fmt args = Some (chars, out)"
  shows "vsnprintf buf len fmt args m = Some (chars, if len = 0 then m else put_at buf (take (len - 1) out @ [0]) m)"
  using assms put_at_append [of buf "take (len - 1) out" "[0]" m]
  by (simp add: vsnprintf_def Let_def sn.guts_sim snprintf_send_take put_one)

text \<open>
  Property C22. \<^verbatim>\<open>vsnprintf\<close> on any format whose conversions have arguments of the right kind returns, trips no assertion and
  never stores outside its number buffer or beyond the given length: with \<open>out\<close> the whole formatted text, it stores the first
  \<open>len - 1\<close> bytes of \<open>out\<close> and a terminator after them, changes no other byte, and returns the length of all of \<open>out\<close>, as C99
  asks; with a length of 0 it stores nothing. Every other send function receives the same \<open>out\<close>.
\<close>

theorem vsnprintf_bounded:
  assumes "0 \<notin> set fmt" "conv_args False fmt args"
  shows "\<exists>out. vsnprintf buf len fmt args m =
        Some (s32 (int (length out)), if len = 0 then m else put_at buf (take (len - 1) out @ [0]) m) \<and>
      (\<forall>(putchar :: 'c \<Rightarrow> byte \<Rightarrow> 'c) c. printf putchar fmt args c = Some (s32 (int (length out)), foldl putchar c out))"
proof -
  obtain out where o: "vprintf_guts (@) [] fmt args = Some (s32 (int (length out)), out)"
    using vprintf_guts_ok [OF assms] by blast
  have "printf_send f c xs = foldl f c xs" for f :: "'c \<Rightarrow> byte \<Rightarrow> 'c" and c xs
    by (induction f c xs rule: printf_send.induct) auto
  then show ?thesis
    using o vsnprintf_put [OF o] by (auto simp: printf_def vprintf_def pr.guts_sim)
qed

text \<open>The format is \<^verbatim>\<open>"%5s|%x"\<close>.\<close>

theorem vsnprintf_bounded_witness:
  "\<exists>out. vsnprintf 1000 8 [37, 53, 115, 124, 37, 120] [Str (Some [104, 105]), Word 48879] (\<lambda>_. 1) =
        Some (s32 (int (length out)), put_at 1000 (take 7 out @ [0]) (\<lambda>_. 1)) \<and>
      (\<forall>putchar c. printf putchar [37, 53, 115, 124, 37, 120] [Str (Some [104, 105]), Word 48879] c
         = Some (s32 (int (length out)), foldl putchar (c :: byte list) out))"
  using vsnprintf_bounded [of "[37, 53, 115, 124, 37, 120]" "[Str (Some [104, 105]), Word 48879]" 1000 8 "\<lambda>_. 1"]
  by (simp add: pf_modifiers_def pf_integers_def)

text \<open>What \<^verbatim>\<open>%d\<close> prints.\<close>

definition dec_text :: "int \<Rightarrow> byte list" where
  "dec_text i = (if i < 0 then [45] else []) @ map digit (digs 10 (nat \<bar>i\<bar>))"

lemma digit_char_eq: "d < 10 \<Longrightarrow> pf_digit_chars ! d = digit d"
proof -
  have "\<forall>d \<in> set [0..<10]. pf_digit_chars ! d = digit d" by code_simp
  then show "d < 10 \<Longrightarrow> pf_digit_chars ! d = digit d" by simp
qed

lemma s32_i2u32: "- 2147483648 \<le> i \<Longrightarrow> i < 2147483648 \<Longrightarrow> s32 (int (i2u32 i)) = i"
  by (simp add: s32_def i2u32_def mod_add_left_eq)

lemma getnum_d:
  assumes "- 2147483648 \<le> i" "i < 2147483648" "ap pf = Word (i2u32 i) # rest" "pf_sign pf = 0"
  shows "pf_getnum 100 pf = Some (pf\<lparr>ap := rest, pf_sign := (if i < 0 then -1 else 0), num := nat \<bar>i\<bar>\<rparr>)"
proof -
  have n: "u32 (i2u32 i) = i2u32 i" by simp
  have neg: "i < 0 \<Longrightarrow> i2u32 (s32 (- i)) = nat (- i)"
    using assms(1) by (cases "i = -2147483648") (auto simp: i2u32_def s32_def)
  have pos: "0 \<le> i \<Longrightarrow> i2u32 i = nat i" using assms(2) by (simp add: i2u32_def)
  show ?thesis using assms(3,4) s32_i2u32 [OF assms(1,2)] neg pos by (auto simp: pf_getnum_def n Let_def)
qed

lemma pf_print_snd [simp]: "snd (pf_print (@) txt s) = snd s @ txt"
  by (cases s) (simp add: pf_print_def)

lemma printstuff_narrow:
  assumes "spacing (fst s) = 0" "length p + length p2 + length t < 2147483648"
  shows "snd (pf_printstuff (@) p p2 t s) = snd s @ p @ p2 @ t"
  using assms by (simp add: pf_printstuff_def pf_spc_def Let_def flip: of_nat_add)

lemma vprintf_d:
  assumes "- 2147483648 \<le> i" "i < 2147483648"
  shows "vprintf_guts (@) [] [37, 100] [Word (i2u32 i)] = Some (s32 (int (length (dec_text i))), dec_text i)"
proof -
  define pf where "pf = (pf_start [Word (i2u32 i)])\<lparr>in_pct := True\<rparr>"
  have pf: "ap pf = [Word (i2u32 i)]" "pf_sign pf = 0" "spacing pf = 0" "baseprefix pf = False" "altformat pf = False" "in_pct pf"
    by (simp_all add: pf_def pf_start_def pf_endfield_def)
  define q where "q = pf_setbase 100 (pf\<lparr>ap := [], pf_sign := (if i < 0 then -1 else 0), num := nat \<bar>i\<bar>\<rparr>)"
  have q: "pf_sign q = (if i < 0 then -1 else 0)" "num q = nat \<bar>i\<bar>" "spacing q = 0" "baseprefix q = False" "base q = 10"
    using pf by (simp_all add: q_def pf_setbase_def)
  have g: "pf_getnum 100 pf = Some (pf\<lparr>ap := [], pf_sign := (if i < 0 then -1 else 0), num := nat \<bar>i\<bar>\<rparr>)"
    by (rule getnum_d [OF assms pf(1,2)])
  have ds: "map ((!) pf_digit_chars) (digs 10 (nat \<bar>i\<bar>)) = map digit (digs 10 (nat \<bar>i\<bar>))"
    using digs_less [of 10] by (auto intro: digit_char_eq)
  define s where "s = pf_printstuff (@) (if i < 0 then [45] else []) [] (map digit (digs 10 (nat \<bar>i\<bar>))) (q, [])"
  have "pf_printnum (@) (q, []) = Some s"
    using pf_printnum_spec [of "(q, [])" "(@)"] q ds assms by (auto simp: int_base_def s_def)
  then have "pf_integer (@) 100 (pf, []) = pf_field (Some s)" using g by (simp add: pf_integer_def q_def)
  moreover have "length (digs 10 (nat \<bar>i\<bar>)) \<le> 11" by (rule digs_fit) (use assms in \<open>auto simp: int_base_def\<close>)
  then have "snd s = dec_text i" unfolding s_def by (subst printstuff_narrow) (auto simp: q dec_text_def)
  moreover have "pf_loop (@) [37, 100] (pf_start [Word (i2u32 i)], []) = pf_integer (@) 100 (pf, [])"
    using pf by (auto simp: pf_send_def pf_modifiers_def pf_integers_def pf_def pf_start_def pf_endfield_def split: option.split)
  ultimately have "\<exists>pf'. pf_loop (@) [37, 100] (pf_start [Word (i2u32 i)], []) = Some (pf', dec_text i)"
    by (cases s) (auto simp: pf_field_def)
  moreover obtain out where "vprintf_guts (@) [] [37, 100] [Word (i2u32 i)] = Some (s32 (int (length out)), out)"
    using vprintf_guts_ok [of "[37, 100]" "[Word (i2u32 i)]"] by (auto simp: pf_modifiers_def pf_integers_def)
  ultimately show ?thesis by (auto simp: vprintf_guts_def)
qed

lemma decimal_in_base: "decimal 0 ds = in_base 10 ds"
proof -
  have "decimal v ds = foldl (\<lambda>v d. 10 * v + d) v ds" for v by (induction ds arbitrary: v) auto
  then show ?thesis by (simp add: in_base_def)
qed

lemma atoi_dec_text:
  assumes "- 2147483648 \<le> i" "i < 2147483648" "str_at m s (dec_text i)"
  shows "atoi m s = Some i"
proof -
  let ?ds = "digs 10 (nat \<bar>i\<bar>)" and ?sg = "if i < 0 then [45] else [] :: byte list"
  have "atoi m s = Some (s32 (if ?sg = [45] then - int (u32 (decimal 0 ?ds)) else int (u32 (decimal 0 ?ds))))"
    by (rule atoi_spec [of m s "[]" _ _ "[]"]) (use assms(3) digs_less [of 10] in \<open>auto simp: dec_text_def\<close>)
  moreover have "u32 (decimal 0 ?ds) = nat \<bar>i\<bar>" using assms(1,2) by (simp add: decimal_in_base in_base_digs)
  ultimately show ?thesis using assms(1,2) by auto
qed

text \<open>
  Property C23. Printing a number with \<^verbatim>\<open>%d\<close> into a buffer of 12 bytes and reading the buffer with \<^verbatim>\<open>atoi\<close> gives the number back, for
  every 32-bit \<^verbatim>\<open>int\<close>, the most negative one included; nothing outside the buffer changes.
\<close>

theorem snprintf_atoi:
  assumes "- 2147483648 \<le> i" "i < 2147483648"
  shows "\<exists>m'. snprintf buf 12 [37, 100] [Word (i2u32 i)] m = Some (int (length (dec_text i)), m') \<and> atoi m' buf = Some i \<and>
      (\<forall>a. a < buf \<or> buf + 12 \<le> a \<longrightarrow> m' a = m a)"
proof -
  have l: "length (dec_text i) \<le> 11"
  proof -
    have "length (digs 10 (nat \<bar>i\<bar>)) \<le> 10" by (rule digs_length) (use assms in auto)
    then show ?thesis by (auto simp: dec_text_def)
  qed
  let ?m = "put_at buf (dec_text i @ [0]) m"
  have "snprintf buf 12 [37, 100] [Word (i2u32 i)] m = Some (int (length (dec_text i)), ?m)"
    using vsnprintf_put [OF vprintf_d [OF assms], of buf 12 m] l by (simp add: snprintf_def)
  moreover have "0 \<notin> set (dec_text i)" using digs_less [of 10 _ "nat \<bar>i\<bar>"] by (force simp: dec_text_def)
  then have "atoi ?m buf = Some i" by (rule atoi_dec_text [OF assms str_at_put])
  ultimately show ?thesis using l by (intro exI [of _ ?m]) (auto simp: put_at_def)
qed

theorem snprintf_atoi_witness:
  "\<exists>m'. snprintf 64 12 [37, 100] [Word (i2u32 (- 2147483648))] (\<lambda>_. 7) = Some (int (length (dec_text (- 2147483648))), m')
      \<and> atoi m' 64 = Some (- 2147483648) \<and> (\<forall>a. a < 64 \<or> 76 \<le> a \<longrightarrow> m' a = 7)"
  using snprintf_atoi [of "- 2147483648" 64 "\<lambda>_. 7"] by simp

end
