(* ===== verification/Kthread.thy ===== *)
theory Kthread
  imports Kqueue Karray Klock
begin

text \<open>
  The thread system: \<^verbatim>\<open>kern/thread/thread.c\<close>, the scheduler \<^verbatim>\<open>kern/thread/scheduler.c\<close>, the interrupt level
  \<^verbatim>\<open>kern/arch/mips/mips/spl.c\<close> and the context switch \<^verbatim>\<open>md_switch\<close> of \<^verbatim>\<open>pcb.c\<close>, on one state with the global variables of these
  files. A thread is the address of its structure, 0 is \<^verbatim>\<open>NULL\<close>.

  What a thread does outside the thread system is a list of calls into it. \<^verbatim>\<open>mi_switch\<close> stops a thread in the middle of such a
  call: where it goes on when it is switched to again is kept as its context, the part of the stack that matters. The function
  is cut at the two points where control leaves it, the idle loop of the scheduler and the switch itself: \<open>mi_switch\<close> is the
  part up to the call of \<^verbatim>\<open>scheduler\<close>, \<open>mi_switch_to\<close> picks and switches, \<open>mi_switch_back\<close> is what the thread switched to
  does before it returns to its caller. Calls that may switch report whether they returned to the caller.

  Address spaces and current directories are handled by functions of the virtual memory system and of the file systems, which
  are a parameter here, as is the address of the variable \<^verbatim>\<open>lbolt\<close>. Messages to the console are left out.
\<close>

section \<open>State\<close>

text \<open>Calls of a kernel thread. \<open>OpFork\<close> has the calls of the function the new thread runs.\<close>

datatype op =
    OpP nat | OpV nat
  | OpAcquire nat | OpTry nat | OpRelease nat
  | OpYield | OpClocksleep int
  | OpFork "op list"

text \<open>
  Where a thread is stopped: in \<^verbatim>\<open>thread_yield\<close> called directly or from a timer interrupt, or in \<^verbatim>\<open>thread_sleep\<close> called from one
  of the functions that wait; with the local variables they still need.
\<close>

datatype ctx =
    CtxYield int
  | CtxIntr int bool int
  | CtxP nat int
  | CtxAcquire nat int
  | CtxClocksleep int int
  | CtxDead

datatype cont = Running | AtStart | InSwitch ctx

datatype threadstate = S_RUN | S_READY | S_SLEEP | S_ZOMB

record thread =
  pcb_ininterrupt :: bool
  t_cont :: cont
  t_prog :: "op list"
  t_sleepaddr :: nat
  t_stack :: "byte list option"
  t_vmspace :: nat
  t_cwd :: nat

record 'w kstate =
  curthread :: nat
  switching :: nat
  threads :: "nat \<rightharpoonup> thread"
  sleepers :: "nat karray option"
  zombies :: "nat karray option"
  runqueue :: "nat kqueue option"
  numthreads :: int
  curspl :: int
  in_interrupt :: bool
  sems :: "nat \<rightharpoonup> int"
  locks :: "nat \<rightharpoonup> lock"
  lbolt_counter :: int
  km :: kmem
  world :: 'w

record 'w kenv =
  lbolt :: nat
  as_activate :: "nat \<Rightarrow> 'w \<Rightarrow> 'w"
  as_destroy :: "nat \<Rightarrow> 'w \<Rightarrow> 'w"
  vop_incref :: "nat \<Rightarrow> 'w \<Rightarrow> 'w"
  vop_decref :: "nat \<Rightarrow> 'w \<Rightarrow> 'w"

text \<open>Access through a pointer, which must point to a live structure.\<close>

definition get_thread :: "nat \<Rightarrow> ('w kstate, thread) kern" where
  "get_thread t s = (case threads s t of None \<Rightarrow> None | Some th \<Rightarrow> Some (Inr th, s))"

definition mod_thread :: "nat \<Rightarrow> (thread \<Rightarrow> thread) \<Rightarrow> ('w kstate, unit) kern" where
  "mod_thread t f s =
     (case threads s t of None \<Rightarrow> None | Some th \<Rightarrow> Some (Inr (), s\<lparr>threads := (threads s)(t \<mapsto> f th)\<rparr>))"

definition on_km :: "(kmem, 'a) kern \<Rightarrow> ('w kstate, 'a) kern" where
  "on_km m = zoomK km (\<lambda>k s. s\<lparr>km := k\<rparr>) m"

text \<open>A call on one of the three tables, which may call \<^verbatim>\<open>kmalloc\<close>.\<close>

definition km_now :: "'w kstate \<Rightarrow> kmalloc_oracle" where
  "km_now s = km_oracle (km s) (km_calls (km s))"

definition km_tick :: "'w kstate \<Rightarrow> 'w kstate" where
  "km_tick s = s\<lparr>km := (km s)\<lparr>km_calls := Suc (km_calls (km s))\<rparr>\<rparr>"

definition on_sleepers :: "(kmalloc_oracle \<Rightarrow> (nat karray, 'a) kern) \<Rightarrow> ('w kstate, 'a) kern" where
  "on_sleepers f s =
     (case sleepers s of
        None \<Rightarrow> None
      | Some a \<Rightarrow> (case f (km_now s) a of None \<Rightarrow> None | Some (r, a) \<Rightarrow> Some (r, (km_tick s)\<lparr>sleepers := Some a\<rparr>)))"

definition on_zombies :: "(kmalloc_oracle \<Rightarrow> (nat karray, 'a) kern) \<Rightarrow> ('w kstate, 'a) kern" where
  "on_zombies f s =
     (case zombies s of
        None \<Rightarrow> None
      | Some a \<Rightarrow> (case f (km_now s) a of None \<Rightarrow> None | Some (r, a) \<Rightarrow> Some (r, (km_tick s)\<lparr>zombies := Some a\<rparr>)))"

definition on_runqueue :: "(kmalloc_oracle \<Rightarrow> (nat kqueue, 'a) kern) \<Rightarrow> ('w kstate, 'a) kern" where
  "on_runqueue f s =
     (case runqueue s of
        None \<Rightarrow> None
      | Some q \<Rightarrow> (case f (km_now s) q of None \<Rightarrow> None | Some (r, q) \<Rightarrow> Some (r, (km_tick s)\<lparr>runqueue := Some q\<rparr>)))"

section \<open>Interrupt level\<close>

definition SPL_HIGH :: int where
  "SPL_HIGH = 15"

definition splx :: "int \<Rightarrow> ('w kstate, int) kern" where
  "splx newspl = bindK (getK curspl) (\<lambda>oldspl. bindK (modK (\<lambda>s. s\<lparr>curspl := newspl\<rparr>)) (\<lambda>_. retK oldspl))"

definition splhigh :: "('w kstate, int) kern" where
  "splhigh = splx SPL_HIGH"

definition spl0 :: "('w kstate, int) kern" where
  "spl0 = splx 0"

definition spl_off :: "('w kstate, unit) kern" where
  "spl_off s = (if curspl s > 0 then Some (Inr (), s) else None)"

section \<open>Scheduler\<close>

definition scheduler_bootstrap :: "('w kstate, unit) kern" where
  "scheduler_bootstrap =
     bindK (on_km (q_create 32)) (\<lambda>q.
     case q of None \<Rightarrow> panicK | Some q \<Rightarrow> modK (\<lambda>s. s\<lparr>runqueue := Some q\<rparr>))"

definition scheduler_preallocate :: "int \<Rightarrow> ('w kstate, unit) kern" where
  "scheduler_preallocate nthreads =
     bindK spl_off (\<lambda>_. on_runqueue (\<lambda>km. q_preallocate 2 km nthreads))"

text \<open>The queue is emptied one by one; there are never more waiting than it has cells.\<close>

primrec q_drain :: "nat \<Rightarrow> ('a kqueue, unit) kern" where
  "q_drain 0 = (\<lambda>q. if q_empty q then Some (Inr (), q) else None)"
| "q_drain (Suc n) = (\<lambda>q. if q_empty q then Some (Inr (), q) else bindK q_remhead (\<lambda>_. q_drain n) q)"

definition scheduler_killall :: "('w kstate, unit) kern" where
  "scheduler_killall =
     bindK spl_off (\<lambda>_. on_runqueue (\<lambda>km q. q_drain (nat (q_size q)) q))"

definition scheduler_shutdown :: "('w kstate, unit) kern" where
  "scheduler_shutdown =
     bindK scheduler_killall (\<lambda>_.
     bindK spl_off (\<lambda>_.
     bindK (on_runqueue (\<lambda>km. bindK (getK q_empty) assertK)) (\<lambda>_.
     modK (\<lambda>s. s\<lparr>runqueue := None\<rparr>))))"

text \<open>\<^verbatim>\<open>scheduler\<close>: the next thread, or \<open>None\<close> while nothing is ready and \<^verbatim>\<open>cpu_idle\<close> waits for an interrupt.\<close>

definition scheduler :: "('w kstate, nat option) kern" where
  "scheduler =
     bindK spl_off (\<lambda>_.
     on_runqueue (\<lambda>km. bindK (getK q_empty) (\<lambda>e. if e then retK None else bindK q_remhead (\<lambda>t. retK (Some t)))))"

definition make_runnable :: "nat \<Rightarrow> ('w kstate, unit) kern" where
  "make_runnable t =
     bindK spl_off (\<lambda>_. on_runqueue (\<lambda>km. q_addtail 3 km t))"

section \<open>Threads\<close>

definition SIZEOF_THREAD :: nat where
  "SIZEOF_THREAD = (4 + 11) * 4 + 5 * 4"

definition STACK_SIZE :: nat where
  "STACK_SIZE = 4096"

text \<open>\<open>addr\<close> is where \<^verbatim>\<open>kmalloc\<close> puts the structure, when it succeeds.\<close>

definition thread_create :: "nat \<Rightarrow> nat \<Rightarrow> ('w kstate, bool) kern" where
  "thread_create addr namelen =
     bindK (on_km (kmalloc SIZEOF_THREAD)) (\<lambda>ok.
     if \<not> ok then retK False else
     bindK (on_km (kmalloc (namelen + 1))) (\<lambda>ok.
     if \<not> ok then retK False else
     bindK (modK (\<lambda>s. s\<lparr>threads := (threads s)(addr \<mapsto>
        \<lparr>pcb_ininterrupt = False, t_cont = AtStart, t_prog = [], t_sleepaddr = 0, t_stack = None, t_vmspace = 0, t_cwd = 0\<rparr>)\<rparr>)) (\<lambda>_.
     retK True)))"

definition free_thread :: "nat \<Rightarrow> ('w kstate, unit) kern" where
  "free_thread t = modK (\<lambda>s. s\<lparr>threads := (threads s)(t := None)\<rparr>)"

definition thread_destroy :: "nat \<Rightarrow> ('w kstate, unit) kern" where
  "thread_destroy t =
     bindK (getK curthread) (\<lambda>cur.
     bindK (assertK (t \<noteq> cur)) (\<lambda>_.
     bindK (get_thread t) (\<lambda>th.
     bindK (assertK (t_vmspace th = 0)) (\<lambda>_.
     bindK (assertK (t_cwd th = 0)) (\<lambda>_.
     free_thread t)))))"

text \<open>The rounds \<open>i, i + 1, \<dots>\<close> of the loop over the zombies.\<close>

primrec exorcise_loop :: "nat \<Rightarrow> nat \<Rightarrow> ('w kstate, unit) kern" where
  "exorcise_loop 0 i = retK ()"
| "exorcise_loop (Suc n) i =
     bindK (on_zombies (\<lambda>km. array_getguy (int i))) (\<lambda>z.
     bindK (getK curthread) (\<lambda>cur.
     bindK (assertK (z \<noteq> cur)) (\<lambda>_.
     bindK (thread_destroy z) (\<lambda>_.
     exorcise_loop n (Suc i)))))"

definition exorcise :: "('w kstate, unit) kern" where
  "exorcise =
     bindK spl_off (\<lambda>_.
     bindK (on_zombies (\<lambda>km. getK array_getnum)) (\<lambda>n.
     bindK (exorcise_loop (nat n) 0) (\<lambda>_.
     bindK (tryK (on_zombies (\<lambda>km. array_setsize km 0))) (\<lambda>result.
     assertK (\<not> isl result)))))"

definition thread_killall :: "('w kstate, unit) kern" where
  "thread_killall =
     bindK spl_off (\<lambda>_.
     bindK (on_sleepers (\<lambda>km. getK array_getnum)) (\<lambda>n.
     bindK (foldK (\<lambda>i _. bindK (on_sleepers (\<lambda>km. array_getguy (int i))) (\<lambda>t. bindK (get_thread t) (\<lambda>_. retK ()))) [0..<nat n] ()) (\<lambda>_.
     bindK (tryK (on_sleepers (\<lambda>km. array_setsize km 0))) (\<lambda>result.
     assertK (\<not> isl result)))))"

definition thread_panic :: "('w kstate, unit) kern" where
  "thread_panic = bindK spl_off (\<lambda>_. bindK thread_killall (\<lambda>_. scheduler_killall))"

definition thread_bootstrap :: "nat \<Rightarrow> ('w kstate, nat) kern" where
  "thread_bootstrap me =
     bindK (getK km_now) (\<lambda>km.
     bindK (modK (\<lambda>s. (km_tick s)\<lparr>sleepers := array_create km\<rparr>)) (\<lambda>_.
     bindK (getK sleepers) (\<lambda>a.
     if a = None then panicK else
     bindK (getK km_now) (\<lambda>km.
     bindK (modK (\<lambda>s. (km_tick s)\<lparr>zombies := array_create km\<rparr>)) (\<lambda>_.
     bindK (getK zombies) (\<lambda>a.
     if a = None then panicK else
     bindK (thread_create me 11) (\<lambda>ok.
     if \<not> ok then panicK else
     bindK (mod_thread me (\<lambda>th. th\<lparr>pcb_ininterrupt := False, t_cont := Running\<rparr>)) (\<lambda>_.
     bindK (modK (\<lambda>s. s\<lparr>curthread := me, numthreads := 1\<rparr>)) (\<lambda>_.
     retK me)))))))))"

definition thread_shutdown :: "('w kstate, unit) kern" where
  "thread_shutdown =
     bindK (on_sleepers (\<lambda>km. retK ())) (\<lambda>_.
     bindK (modK (\<lambda>s. s\<lparr>sleepers := None\<rparr>)) (\<lambda>_.
     bindK (on_zombies (\<lambda>km. retK ())) (\<lambda>_.
     modK (\<lambda>s. s\<lparr>zombies := None\<rparr>))))"

definition stack_magic :: "byte list" where
  "stack_magic = [174, 17, 218, 51]"

text \<open>The atomic part of \<^verbatim>\<open>thread_fork\<close>.\<close>

definition thread_fork_atomic :: "nat \<Rightarrow> ('w kstate, unit) kern" where
  "thread_fork_atomic newguy =
     bindK (getK numthreads) (\<lambda>n.
     bindK (on_sleepers (\<lambda>km. array_preallocate km (s32 (n + 1)))) (\<lambda>_.
     bindK (on_zombies (\<lambda>km. array_preallocate km (s32 (n + 1)))) (\<lambda>_.
     bindK (scheduler_preallocate (s32 (n + 1))) (\<lambda>_.
     bindK (make_runnable newguy) (\<lambda>_.
     modK (\<lambda>s. s\<lparr>numthreads := s32 (numthreads s + 1)\<rparr>))))))"

definition thread_fork :: "'w kenv \<Rightarrow> nat \<Rightarrow> nat \<Rightarrow> op list \<Rightarrow> ('w kstate, nat) kern" where
  "thread_fork env newguy namelen func =
     bindK (thread_create newguy namelen) (\<lambda>ok.
     if \<not> ok then failK ENOMEM else
     bindK (on_km (kmalloc STACK_SIZE)) (\<lambda>ok.
     if \<not> ok then bindK (free_thread newguy) (\<lambda>_. failK ENOMEM) else
     bindK (mod_thread newguy (\<lambda>th. th\<lparr>t_stack := Some stack_magic\<rparr>)) (\<lambda>_.
     bindK (getK curthread) (\<lambda>cur.
     bindK (get_thread cur) (\<lambda>me.
     bindK (if t_cwd me \<noteq> 0
            then bindK (modK (\<lambda>s. s\<lparr>world := vop_incref env (t_cwd me) (world s)\<rparr>)) (\<lambda>_.
                 mod_thread newguy (\<lambda>th. th\<lparr>t_cwd := t_cwd me\<rparr>))
            else retK ()) (\<lambda>_.
     bindK (mod_thread newguy (\<lambda>th. th\<lparr>pcb_ininterrupt := False, t_cont := AtStart, t_prog := func\<rparr>)) (\<lambda>_.
     bindK splhigh (\<lambda>s.
     bindK (tryK (thread_fork_atomic newguy)) (\<lambda>result.
     bindK (splx s) (\<lambda>_.
     case result of
       Inr _ \<Rightarrow> retK newguy
     | Inl e \<Rightarrow>
         bindK (get_thread newguy) (\<lambda>th.
         bindK (if t_cwd th \<noteq> 0 then modK (\<lambda>s. s\<lparr>world := vop_decref env (t_cwd th) (world s)\<rparr>) else retK ()) (\<lambda>_.
         bindK (free_thread newguy) (\<lambda>_. failK e)))))))))))))"

definition stack_check :: "nat \<Rightarrow> ('w kstate, unit) kern" where
  "stack_check cur =
     (if cur = 0 then retK () else
      bindK (get_thread cur) (\<lambda>th.
      case t_stack th of None \<Rightarrow> retK () | Some b \<Rightarrow> assertK (take 4 b = stack_magic)))"

definition mi_switch_stash :: "threadstate \<Rightarrow> nat \<Rightarrow> ('w kstate, unit) kern" where
  "mi_switch_stash nextstate cur =
     (case nextstate of
        S_READY \<Rightarrow> make_runnable cur
      | S_SLEEP \<Rightarrow> on_sleepers (\<lambda>km. array_add km cur)
      | S_ZOMB \<Rightarrow> on_zombies (\<lambda>km. array_add km cur)
      | S_RUN \<Rightarrow> panicK)"

definition mi_switch :: "threadstate \<Rightarrow> ctx \<Rightarrow> ('w kstate, bool) kern" where
  "mi_switch nextstate ctx =
     bindK spl_off (\<lambda>_.
     bindK (getK curthread) (\<lambda>cur.
     bindK (stack_check cur) (\<lambda>_.
     if cur = 0 then retK True else
     bindK (modK (\<lambda>s. s\<lparr>curthread := 0, switching := cur\<rparr>)) (\<lambda>_.
     bindK (mod_thread cur (\<lambda>th. th\<lparr>t_cont := InSwitch ctx\<rparr>)) (\<lambda>_.
     bindK (tryK (mi_switch_stash nextstate cur)) (\<lambda>result.
     bindK (assertK (\<not> isl result)) (\<lambda>_.
     retK False)))))))"

definition md_switch :: "nat \<Rightarrow> nat \<Rightarrow> ('w kstate, unit) kern" where
  "md_switch old nu =
     (if old = nu then retK () else
      bindK (getK in_interrupt) (\<lambda>i.
      bindK (mod_thread old (\<lambda>th. th\<lparr>pcb_ininterrupt := i\<rparr>)) (\<lambda>_.
      bindK (get_thread nu) (\<lambda>th.
      modK (\<lambda>s. s\<lparr>in_interrupt := pcb_ininterrupt th\<rparr>)))))"

definition mi_switch_to :: "('w kstate, unit) kern" where
  "mi_switch_to =
     bindK scheduler (\<lambda>next.
     case next of
       None \<Rightarrow> retK ()
     | Some next \<Rightarrow>
         bindK (modK (\<lambda>s. s\<lparr>curthread := next\<rparr>)) (\<lambda>_.
         bindK (getK switching) (\<lambda>cur.
         bindK (md_switch cur next) (\<lambda>_.
         modK (\<lambda>s. s\<lparr>switching := 0\<rparr>)))))"

definition activate :: "'w kenv \<Rightarrow> ('w kstate, unit) kern" where
  "activate env =
     bindK (getK curthread) (\<lambda>cur.
     bindK (get_thread cur) (\<lambda>th.
     if t_vmspace th \<noteq> 0 then modK (\<lambda>s. s\<lparr>world := as_activate env (t_vmspace th) (world s)\<rparr>) else retK ()))"

definition mi_switch_back :: "'w kenv \<Rightarrow> ('w kstate, unit) kern" where
  "mi_switch_back env = bindK exorcise (\<lambda>_. activate env)"

definition thread_exit :: "'w kenv \<Rightarrow> ('w kstate, unit) kern" where
  "thread_exit env =
     bindK (getK curthread) (\<lambda>cur.
     bindK (get_thread cur) (\<lambda>th.
     bindK (stack_check cur) (\<lambda>_.
     bindK splhigh (\<lambda>_.
     bindK (if t_vmspace th \<noteq> 0
            then bindK (mod_thread cur (\<lambda>th. th\<lparr>t_vmspace := 0\<rparr>)) (\<lambda>_.
                 modK (\<lambda>s. s\<lparr>world := as_destroy env (t_vmspace th) (world s)\<rparr>))
            else retK ()) (\<lambda>_.
     bindK (if t_cwd th \<noteq> 0
            then bindK (modK (\<lambda>s. s\<lparr>world := vop_decref env (t_cwd th) (world s)\<rparr>)) (\<lambda>_.
                 mod_thread cur (\<lambda>th. th\<lparr>t_cwd := 0\<rparr>))
            else retK ()) (\<lambda>_.
     bindK (getK numthreads) (\<lambda>n.
     bindK (assertK (n > 0)) (\<lambda>_.
     bindK (modK (\<lambda>s. s\<lparr>numthreads := n - 1\<rparr>)) (\<lambda>_.
     bindK (mi_switch S_ZOMB CtxDead) (\<lambda>back.
     if back then panicK else retK ()))))))))))"

definition thread_yield :: "(int \<Rightarrow> ctx) \<Rightarrow> ('w kstate, bool) kern" where
  "thread_yield ctx =
     bindK splhigh (\<lambda>spl.
     bindK (getK sleepers) (\<lambda>a.
     bindK (assertK (a \<noteq> None)) (\<lambda>_.
     bindK (mi_switch S_READY (ctx spl)) (\<lambda>back.
     if back then bindK (splx spl) (\<lambda>_. retK True) else retK False))))"

definition thread_sleep :: "nat \<Rightarrow> ctx \<Rightarrow> ('w kstate, bool) kern" where
  "thread_sleep addr ctx =
     bindK (getK in_interrupt) (\<lambda>i.
     bindK (assertK (\<not> i)) (\<lambda>_.
     bindK (getK curthread) (\<lambda>cur.
     bindK (mod_thread cur (\<lambda>th. th\<lparr>t_sleepaddr := addr\<rparr>)) (\<lambda>_.
     mi_switch S_SLEEP ctx))))"

text \<open>What \<^verbatim>\<open>thread_sleep\<close> does when its \<^verbatim>\<open>mi_switch\<close> returns.\<close>

definition thread_sleep_back :: "('w kstate, unit) kern" where
  "thread_sleep_back = bindK (getK curthread) (\<lambda>cur. mod_thread cur (\<lambda>th. th\<lparr>t_sleepaddr := 0\<rparr>))"

text \<open>\<^verbatim>\<open>thread_wakeup\<close>: every round either goes on to the next entry or takes one out, so as many rounds as there are entries do.\<close>

primrec thread_wakeup_loop :: "nat \<Rightarrow> nat \<Rightarrow> int \<Rightarrow> ('w kstate, unit) kern" where
  "thread_wakeup_loop 0 addr i =
     bindK (on_sleepers (\<lambda>km. getK array_getnum)) (\<lambda>n. assertK (\<not> i < n))"
| "thread_wakeup_loop (Suc rounds) addr i =
     bindK (on_sleepers (\<lambda>km. getK array_getnum)) (\<lambda>n.
     if \<not> i < n then retK () else
     bindK (on_sleepers (\<lambda>km. array_getguy i)) (\<lambda>t.
     bindK (get_thread t) (\<lambda>th.
     if t_sleepaddr th = addr then
       bindK (on_sleepers (\<lambda>km. array_remove i)) (\<lambda>_.
       bindK (tryK (make_runnable t)) (\<lambda>result.
       bindK (assertK (\<not> isl result)) (\<lambda>_.
       thread_wakeup_loop rounds addr i)))
     else thread_wakeup_loop rounds addr (i + 1))))"

definition thread_wakeup :: "nat \<Rightarrow> ('w kstate, unit) kern" where
  "thread_wakeup addr =
     bindK spl_off (\<lambda>_.
     bindK (on_sleepers (\<lambda>km. getK array_getnum)) (\<lambda>n.
     thread_wakeup_loop (nat n) addr 0))"

primrec thread_hassleepers_loop :: "nat \<Rightarrow> nat \<Rightarrow> nat \<Rightarrow> ('w kstate, bool) kern" where
  "thread_hassleepers_loop 0 addr i = retK False"
| "thread_hassleepers_loop (Suc n) addr i =
     bindK (on_sleepers (\<lambda>km. array_getguy (int i))) (\<lambda>t.
     bindK (get_thread t) (\<lambda>th.
     if t_sleepaddr th = addr then retK True else thread_hassleepers_loop n addr (Suc i)))"

definition thread_hassleepers :: "nat \<Rightarrow> ('w kstate, bool) kern" where
  "thread_hassleepers addr =
     bindK spl_off (\<lambda>_.
     bindK (on_sleepers (\<lambda>km. getK array_getnum)) (\<lambda>n.
     thread_hassleepers_loop (nat n) addr 0))"

text \<open>\<^verbatim>\<open>mi_threadstart\<close> up to the call of the function (without \<^verbatim>\<open>OPT_SYNCHPROBS\<close>); \<^verbatim>\<open>thread_exit\<close> follows when its calls are done.\<close>

definition mi_threadstart :: "'w kenv \<Rightarrow> ('w kstate, unit) kern" where
  "mi_threadstart env = bindK (activate env) (\<lambda>_. bindK spl0 (\<lambda>_. retK ()))"

end
