(* ===== verification/Ksynch.thy ===== *)
theory Ksynch
  imports Kthread
begin

text \<open>
  Semaphores and locks (\<^verbatim>\<open>kern/thread/synch.c\<close>), the clock (\<^verbatim>\<open>kern/thread/hardclock.c\<close>) and interrupts (\<^verbatim>\<open>mips_trap\<close> and
  \<^verbatim>\<open>mips_interrupt\<close>), and the machine as a whole: a step relation in which the running thread makes its next call, an interrupt
  arrives while interrupts are on, the scheduler picks a thread, or the thread just switched to goes on where it stopped. Everything
  between \<^verbatim>\<open>splhigh\<close> and \<^verbatim>\<open>splx\<close> that does not switch is one step, since no interrupt can come in between. A step is labelled with the
  call that returned in it, if one did.
\<close>

section \<open>Semaphores\<close>

definition get_sem :: "nat \<Rightarrow> ('w kstate, int) kern" where
  "get_sem sem s = (case sems s sem of None \<Rightarrow> None | Some n \<Rightarrow> Some (Inr n, s))"

definition set_sem :: "nat \<Rightarrow> int \<Rightarrow> ('w kstate, unit) kern" where
  "set_sem sem n = modK (\<lambda>s. s\<lparr>sems := (sems s)(sem \<mapsto> n)\<rparr>)"

text \<open>\<open>addr\<close> is where \<^verbatim>\<open>kmalloc\<close> puts the structure; the result says whether there was memory.\<close>

definition sem_create :: "nat \<Rightarrow> nat \<Rightarrow> int \<Rightarrow> ('w kstate, bool) kern" where
  "sem_create addr namelen initial_count =
     bindK (assertK (initial_count \<ge> 0)) (\<lambda>_.
     bindK (on_km (kmalloc 8)) (\<lambda>ok.
     if \<not> ok then retK False else
     bindK (on_km (kmalloc (namelen + 1))) (\<lambda>ok.
     if \<not> ok then retK False else
     bindK (set_sem addr initial_count) (\<lambda>_.
     retK True))))"

definition sem_destroy :: "nat \<Rightarrow> ('w kstate, unit) kern" where
  "sem_destroy sem =
     bindK (assertK (sem \<noteq> 0)) (\<lambda>_.
     bindK splhigh (\<lambda>spl.
     bindK (thread_hassleepers sem) (\<lambda>b.
     bindK (assertK (\<not> b)) (\<lambda>_.
     bindK (splx spl) (\<lambda>_.
     modK (\<lambda>s. s\<lparr>sems := (sems s)(sem := None)\<rparr>))))))"

text \<open>The loop of \<^verbatim>\<open>P\<close>, from the test on: the thread comes back to it when it was woken.\<close>

definition P_loop :: "nat \<Rightarrow> int \<Rightarrow> ('w kstate, bool) kern" where
  "P_loop sem spl =
     bindK (get_sem sem) (\<lambda>count.
     if count = 0 then thread_sleep sem (CtxP sem spl) else
     bindK (assertK (count > 0)) (\<lambda>_.
     bindK (set_sem sem (count - 1)) (\<lambda>_.
     bindK (splx spl) (\<lambda>_.
     retK True))))"

definition P :: "nat \<Rightarrow> ('w kstate, bool) kern" where
  "P sem =
     bindK (assertK (sem \<noteq> 0)) (\<lambda>_.
     bindK (getK in_interrupt) (\<lambda>i.
     bindK (assertK (\<not> i)) (\<lambda>_.
     bindK splhigh (\<lambda>spl.
     P_loop sem spl))))"

definition V :: "nat \<Rightarrow> ('w kstate, unit) kern" where
  "V sem =
     bindK (assertK (sem \<noteq> 0)) (\<lambda>_.
     bindK splhigh (\<lambda>spl.
     bindK (get_sem sem) (\<lambda>count.
     bindK (set_sem sem (s32 (count + 1))) (\<lambda>_.
     bindK (assertK (s32 (count + 1) > 0)) (\<lambda>_.
     bindK (thread_wakeup sem) (\<lambda>_.
     bindK (splx spl) (\<lambda>_.
     retK ())))))))"

section \<open>Locks\<close>

definition TestAndSet :: "nat \<Rightarrow> int \<Rightarrow> (nat \<Rightarrow> int) \<Rightarrow> int \<times> (nat \<Rightarrow> int)" where
  "TestAndSet old_ptr new m = (m old_ptr, m(old_ptr := new))"

definition get_lock :: "nat \<Rightarrow> ('w kstate, lock) kern" where
  "get_lock lk s = (case locks s lk of None \<Rightarrow> None | Some l \<Rightarrow> Some (Inr l, s))"

definition set_lock :: "nat \<Rightarrow> nat \<Rightarrow> nat \<Rightarrow> ('w kstate, unit) kern" where
  "set_lock lk available holder = modK (\<lambda>s. s\<lparr>locks := (locks s)(lk \<mapsto> \<lparr>lk_available = available, lk_holder = holder\<rparr>)\<rparr>)"

definition lock_do_i_hold :: "nat \<Rightarrow> ('w kstate, bool) kern" where
  "lock_do_i_hold lk =
     bindK (assertK (lk \<noteq> 0)) (\<lambda>_.
     bindK (get_lock lk) (\<lambda>l.
     bindK (getK curthread) (\<lambda>cur.
     retK (lk_holder l = cur))))"

definition lock_acquire_loop :: "nat \<Rightarrow> int \<Rightarrow> ('w kstate, bool) kern" where
  "lock_acquire_loop lk spl =
     bindK (get_lock lk) (\<lambda>l.
     if lk_available l = 0 then thread_sleep lk (CtxAcquire lk spl) else
     bindK (assertK (lk_available l = 1)) (\<lambda>_.
     bindK (getK curthread) (\<lambda>cur.
     bindK (set_lock lk 0 cur) (\<lambda>_.
     bindK (splx spl) (\<lambda>_.
     retK True)))))"

definition lock_acquire :: "nat \<Rightarrow> ('w kstate, bool) kern" where
  "lock_acquire lk =
     bindK (assertK (lk \<noteq> 0)) (\<lambda>_.
     bindK splhigh (\<lambda>spl.
     lock_acquire_loop lk spl))"

definition lock_try_acquire_alert :: "nat \<Rightarrow> ('w kstate, int) kern" where
  "lock_try_acquire_alert lk =
     bindK (assertK (lk \<noteq> 0)) (\<lambda>_.
     bindK (lock_do_i_hold lk) (\<lambda>held.
     if held then retK 0 else
     bindK splhigh (\<lambda>spl.
     bindK (get_lock lk) (\<lambda>l.
     if lk_available l = 0 then bindK (splx spl) (\<lambda>_. retK 0) else
     bindK (assertK (lk_available l = 1)) (\<lambda>_.
     bindK (getK curthread) (\<lambda>cur.
     bindK (set_lock lk 0 cur) (\<lambda>_.
     bindK (splx spl) (\<lambda>_.
     retK 1))))))))"

definition lock_release :: "nat \<Rightarrow> ('w kstate, unit) kern" where
  "lock_release lk =
     bindK (assertK (lk \<noteq> 0)) (\<lambda>_.
     bindK splhigh (\<lambda>spl.
     bindK (lock_do_i_hold lk) (\<lambda>held.
     bindK (if held then bindK (set_lock lk 1 0) (\<lambda>_. thread_wakeup lk) else retK ()) (\<lambda>_.
     bindK (splx spl) (\<lambda>_.
     retK ())))))"

section \<open>Condition variables\<close>

text \<open>A condition variable has only a name. Waiting and signalling are empty in the sources.\<close>

definition cv_create :: "nat \<Rightarrow> (kmem, bool) kern" where
  "cv_create namelen =
     bindK (kmalloc 4) (\<lambda>ok. if \<not> ok then retK False else bindK (kmalloc (namelen + 1)) (\<lambda>ok. retK ok))"

definition cv_destroy :: "nat \<Rightarrow> (kmem, unit) kern" where
  "cv_destroy cv = assertK (cv \<noteq> 0)"

definition cv_wait :: "nat \<Rightarrow> nat \<Rightarrow> ('w kstate, unit) kern" where
  "cv_wait cv lk = retK ()"

definition cv_signal :: "nat \<Rightarrow> nat \<Rightarrow> ('w kstate, unit) kern" where
  "cv_signal cv lk = retK ()"

definition cv_broadcast :: "nat \<Rightarrow> nat \<Rightarrow> ('w kstate, unit) kern" where
  "cv_broadcast cv lk = retK ()"

section \<open>Clock and interrupts\<close>

definition HZ :: int where
  "HZ = 100"

definition hardclock :: "'w kenv \<Rightarrow> (int \<Rightarrow> ctx) \<Rightarrow> ('w kstate, bool) kern" where
  "hardclock env ctx =
     bindK (modK (\<lambda>s. s\<lparr>lbolt_counter := s32 (lbolt_counter s + 1)\<rparr>)) (\<lambda>_.
     bindK (getK lbolt_counter) (\<lambda>c.
     bindK (if c \<ge> HZ then bindK (modK (\<lambda>s. s\<lparr>lbolt_counter := 0\<rparr>)) (\<lambda>_. thread_wakeup (lbolt env)) else retK ()) (\<lambda>_.
     thread_yield ctx)))"

definition clocksleep_loop :: "'w kenv \<Rightarrow> int \<Rightarrow> int \<Rightarrow> ('w kstate, bool) kern" where
  "clocksleep_loop env num_secs spl =
     (if num_secs > 0 then thread_sleep (lbolt env) (CtxClocksleep num_secs spl)
      else bindK (splx spl) (\<lambda>_. retK True))"

definition clocksleep :: "'w kenv \<Rightarrow> int \<Rightarrow> ('w kstate, bool) kern" where
  "clocksleep env num_secs = bindK splhigh (\<lambda>spl. clocksleep_loop env num_secs spl)"

text \<open>\<^verbatim>\<open>mips_trap\<close> and \<^verbatim>\<open>mips_interrupt\<close> around the handler of a device: on the way in, and on the way out.\<close>

definition intr_enter :: "('w kstate, int \<times> bool) kern" where
  "intr_enter =
     bindK (getK curspl) (\<lambda>savespl.
     bindK (modK (\<lambda>s. s\<lparr>curspl := SPL_HIGH\<rparr>)) (\<lambda>_.
     bindK (getK in_interrupt) (\<lambda>old_in.
     bindK (modK (\<lambda>s. s\<lparr>in_interrupt := True\<rparr>)) (\<lambda>_.
     retK (savespl, old_in)))))"

definition intr_leave :: "int \<Rightarrow> bool \<Rightarrow> ('w kstate, unit) kern" where
  "intr_leave savespl old_in =
     bindK (modK (\<lambda>s. s\<lparr>in_interrupt := old_in\<rparr>)) (\<lambda>_.
     bindK splhigh (\<lambda>_.
     modK (\<lambda>s. s\<lparr>curspl := savespl\<rparr>)))"

definition intr_timer :: "'w kenv \<Rightarrow> ('w kstate, unit) kern" where
  "intr_timer env =
     bindK intr_enter (\<lambda>(savespl, old_in).
     bindK (hardclock env (CtxIntr savespl old_in)) (\<lambda>back.
     if back then intr_leave savespl old_in else retK ()))"

text \<open>A device whose handler does \<^verbatim>\<open>V\<close> on the semaphore its driver waits for.\<close>

definition intr_device :: "nat \<Rightarrow> ('w kstate, unit) kern" where
  "intr_device sem =
     bindK intr_enter (\<lambda>(savespl, old_in).
     bindK (V sem) (\<lambda>_.
     intr_leave savespl old_in))"

section \<open>The machine\<close>

text \<open>A call that returned: the thread (0 for an interrupt), the call, the value.\<close>

type_synonym event = "nat \<times> op \<times> int"

definition returned :: "('w kstate, bool) kern \<Rightarrow> ('w kstate, int option) kern" where
  "returned m = bindK m (\<lambda>b. retK (if b then Some 0 else None))"

definition unit_call :: "('w kstate, unit) kern \<Rightarrow> ('w kstate, int option) kern" where
  "unit_call m = bindK m (\<lambda>_. retK (Some 0))"

fun run_call :: "'w kenv \<Rightarrow> nat \<Rightarrow> op \<Rightarrow> ('w kstate, int option) kern" where
  "run_call env newguy (OpP sem) = returned (P sem)"
| "run_call env newguy (OpV sem) = unit_call (V sem)"
| "run_call env newguy (OpAcquire lk) = returned (lock_acquire lk)"
| "run_call env newguy (OpTry lk) = bindK (lock_try_acquire_alert lk) (\<lambda>r. retK (Some r))"
| "run_call env newguy (OpRelease lk) = unit_call (lock_release lk)"
| "run_call env newguy OpYield = returned (thread_yield CtxYield)"
| "run_call env newguy (OpClocksleep n) = returned (clocksleep env n)"
| "run_call env newguy (OpFork func) = bindK (tryK (thread_fork env newguy 4 func)) (\<lambda>r. retK (Some (if isl r then 1 else 0)))"

text \<open>The running thread makes its next call, or exits after the last one.\<close>

definition thread_run :: "'w kenv \<Rightarrow> nat \<Rightarrow> ('w kstate, event option) kern" where
  "thread_run env newguy =
     bindK (getK curthread) (\<lambda>cur.
     bindK (get_thread cur) (\<lambda>th.
     case t_prog th of
       [] \<Rightarrow> bindK (thread_exit env) (\<lambda>_. retK None)
     | c # rest \<Rightarrow>
         bindK (mod_thread cur (\<lambda>th. th\<lparr>t_prog := rest\<rparr>)) (\<lambda>_.
         bindK (run_call env newguy c) (\<lambda>r.
         retK (map_option (\<lambda>r. (cur, c, r)) r)))))"

fun resume_ctx :: "'w kenv \<Rightarrow> ctx \<Rightarrow> ('w kstate, (op \<times> int) option) kern" where
  "resume_ctx env (CtxYield spl) = bindK (splx spl) (\<lambda>_. retK (Some (OpYield, 0)))"
| "resume_ctx env (CtxIntr savespl old_in spl) = bindK (splx spl) (\<lambda>_. bindK (intr_leave savespl old_in) (\<lambda>_. retK None))"
| "resume_ctx env (CtxP sem spl) =
     bindK thread_sleep_back (\<lambda>_. bindK (P_loop sem spl) (\<lambda>b. retK (if b then Some (OpP sem, 0) else None)))"
| "resume_ctx env (CtxAcquire lk spl) =
     bindK thread_sleep_back (\<lambda>_. bindK (lock_acquire_loop lk spl) (\<lambda>b. retK (if b then Some (OpAcquire lk, 0) else None)))"
| "resume_ctx env (CtxClocksleep n spl) =
     bindK thread_sleep_back (\<lambda>_. bindK (clocksleep_loop env (n - 1) spl) (\<lambda>b. retK (if b then Some (OpClocksleep n, 0) else None)))"
| "resume_ctx env CtxDead = panicK"

text \<open>The thread just switched to goes on.\<close>

definition thread_resume :: "'w kenv \<Rightarrow> ('w kstate, event option) kern" where
  "thread_resume env =
     bindK (getK curthread) (\<lambda>cur.
     bindK (get_thread cur) (\<lambda>th.
     case t_cont th of
       Running \<Rightarrow> panicK
     | AtStart \<Rightarrow>
         bindK (mod_thread cur (\<lambda>th. th\<lparr>t_cont := Running\<rparr>)) (\<lambda>_.
         bindK (mi_threadstart env) (\<lambda>_. retK None))
     | InSwitch ctx \<Rightarrow>
         bindK (mi_switch_back env) (\<lambda>_.
         bindK (mod_thread cur (\<lambda>th. th\<lparr>t_cont := Running\<rparr>)) (\<lambda>_.
         bindK (resume_ctx env ctx) (\<lambda>r.
         retK (map_option (\<lambda>(c, r). (cur, c, r)) r))))))"

text \<open>What can happen next: a thread runs; the scheduler is in the idle loop.\<close>

definition on_cpu :: "'w kstate \<Rightarrow> bool" where
  "on_cpu s \<longleftrightarrow> curthread s \<noteq> 0 \<and> map_option t_cont (threads s (curthread s)) = Some Running \<and> curspl s = 0"

definition stopped :: "'w kstate \<Rightarrow> bool" where
  "stopped s \<longleftrightarrow> curthread s \<noteq> 0 \<and> map_option t_cont (threads s (curthread s)) \<noteq> Some Running"

definition idle :: "'w kstate \<Rightarrow> bool" where
  "idle s \<longleftrightarrow> curthread s = 0 \<and> (case runqueue s of None \<Rightarrow> False | Some q \<Rightarrow> q_empty q)"

definition heap_addr :: "nat \<Rightarrow> bool" where
  "heap_addr a \<longleftrightarrow> 0 < a \<and> a < 4294967296 \<and> a mod 16 = 0"

datatype action = Run nat | Resume | Pick | Timer | Device nat

fun enabled :: "'w kstate \<Rightarrow> action \<Rightarrow> bool" where
  "enabled s (Run a) \<longleftrightarrow> on_cpu s \<and> heap_addr a \<and> threads s a = None"
| "enabled s Resume \<longleftrightarrow> stopped s"
| "enabled s Pick \<longleftrightarrow> curthread s = 0"
| "enabled s Timer \<longleftrightarrow> on_cpu s \<or> idle s"
| "enabled s (Device sem) \<longleftrightarrow> (on_cpu s \<or> idle s) \<and> sems s sem \<noteq> None"

fun perform :: "'w kenv \<Rightarrow> action \<Rightarrow> ('w kstate, event option) kern" where
  "perform env (Run a) = thread_run env a"
| "perform env Resume = thread_resume env"
| "perform env Pick = bindK mi_switch_to (\<lambda>_. retK None)"
| "perform env Timer = bindK (intr_timer env) (\<lambda>_. retK None)"
| "perform env (Device sem) = bindK (intr_device sem) (\<lambda>_. retK (Some (0, OpV sem, 0)))"

inductive kstep :: "'w kenv \<Rightarrow> 'w kstate \<Rightarrow> event list \<Rightarrow> 'w kstate \<Rightarrow> bool" for env where
  kstep: "enabled s a \<Longrightarrow> perform env a s = Some (Inr ev, s') \<Longrightarrow> kstep env s (case ev of None \<Rightarrow> [] | Some e \<Rightarrow> [e]) s'"

text \<open>A run: the events of its steps, in order.\<close>

inductive krun :: "'w kenv \<Rightarrow> 'w kstate \<Rightarrow> event list \<Rightarrow> 'w kstate \<Rightarrow> bool" for env s0 where
  krun_refl: "krun env s0 [] s0"
| krun_step: "krun env s0 evs s \<Longrightarrow> kstep env s es s' \<Longrightarrow> krun env s0 (evs @ es) s'"

text \<open>The start: the tables are made, the first thread runs with interrupts on.\<close>

definition boot :: "nat \<Rightarrow> op list \<Rightarrow> ('w kstate, unit) kern" where
  "boot me prog =
     bindK scheduler_bootstrap (\<lambda>_.
     bindK (thread_bootstrap me) (\<lambda>_.
     bindK spl0 (\<lambda>_.
     mod_thread me (\<lambda>th. th\<lparr>t_prog := prog\<rparr>))))"

end
