(* ===== verification/Ksched.thy ===== *)
theory Ksched
  imports Ksynch
begin

text \<open>
  The thread system keeps its tables and its promises whatever its threads do. The first part says what each routine does to the
  three tables, as lists; the second has the invariant of the machine and shows that every step keeps it. A routine may panic
  only when \<open>B\<close> holds; the lemmas take \<open>B\<close> to hold when memory can run out.
\<close>

section \<open>What the routines do\<close>

definition tables :: "'w kstate \<Rightarrow> nat list \<Rightarrow> nat list \<Rightarrow> nat list \<Rightarrow> bool" where
  "tables s sl zs rq \<longleftrightarrow> (\<exists>a. sleepers s = Some a \<and> array_rep a sl) \<and> (\<exists>a. zombies s = Some a \<and> array_rep a zs) \<and>
     (\<exists>q. runqueue s = Some q \<and> q_rep q rq)"

text \<open>Everything but the tables, the clock, the world and the number of calls of \<^verbatim>\<open>kmalloc\<close>.\<close>

definition core :: "'w kstate \<Rightarrow> nat \<times> nat \<times> (nat \<rightharpoonup> thread) \<times> int \<times> int \<times> bool \<times> (nat \<rightharpoonup> int) \<times> (nat \<rightharpoonup> lock) \<times> (nat \<Rightarrow> kmalloc_oracle)" where
  "core s = (curthread s, switching s, threads s, numthreads s, curspl s, in_interrupt s, sems s, locks s, km_oracle (km s))"

definition mem :: "bool \<Rightarrow> 'w kstate \<Rightarrow> bool" where
  "mem B s \<longleftrightarrow> B \<or> (\<forall>n sz. km_oracle (km s) n sz)"

lemma core_tick [simp]: "core (km_tick s) = core s" "core ((km_tick s)\<lparr>sleepers := a\<rparr>) = core s"
    "core ((km_tick s)\<lparr>zombies := a\<rparr>) = core s" "core ((km_tick s)\<lparr>runqueue := q\<rparr>) = core s"
  by (simp_all add: core_def km_tick_def)

lemma tick_simps [simp]: "sleepers (km_tick s) = sleepers s" "zombies (km_tick s) = zombies s" "runqueue (km_tick s) = runqueue s"
  by (simp_all add: km_tick_def)

lemma wpP_get_thread [wpp]: "wpP B (get_thread t) Q E = (\<lambda>s. case threads s t of None \<Rightarrow> B | Some th \<Rightarrow> Q th s)"
  by (rule ext) (simp add: wpP_def get_thread_def split: option.split)

lemma wpP_mod_thread [wpp]:
  "wpP B (mod_thread t f) Q E = (\<lambda>s. case threads s t of None \<Rightarrow> B | Some th \<Rightarrow> Q () (s\<lparr>threads := (threads s)(t \<mapsto> f th)\<rparr>))"
  by (rule ext) (simp add: wpP_def mod_thread_def split: option.split)

lemma wpP_get_sem [wpp]: "wpP B (get_sem t) Q E = (\<lambda>s. case sems s t of None \<Rightarrow> B | Some n \<Rightarrow> Q n s)"
  by (rule ext) (simp add: wpP_def get_sem_def split: option.split)

lemma wpP_get_lock [wpp]: "wpP B (get_lock t) Q E = (\<lambda>s. case locks s t of None \<Rightarrow> B | Some n \<Rightarrow> Q n s)"
  by (rule ext) (simp add: wpP_def get_lock_def split: option.split)

lemma wpP_spl_off [wpp]: "wpP B spl_off Q E = (\<lambda>s. if curspl s > 0 then Q () s else B)"
  by (rule ext) (simp add: wpP_def spl_off_def)

lemma wpP_splx [wpp]: "wpP B (splx n) Q E = (\<lambda>s. Q (curspl s) (s\<lparr>curspl := n\<rparr>))"
  unfolding splx_def wpp ..

lemma wpP_splhigh [wpp]: "wpP B splhigh Q E = (\<lambda>s. Q (curspl s) (s\<lparr>curspl := 15\<rparr>))"
  unfolding splhigh_def wpp SPL_HIGH_def ..

lemma wpP_spl0 [wpp]: "wpP B spl0 Q E = (\<lambda>s. Q (curspl s) (s\<lparr>curspl := 0\<rparr>))"
  unfolding spl0_def wpp ..

lemma wpP_set_sem [wpp]: "wpP B (set_sem x n) Q E = (\<lambda>s. Q () (s\<lparr>sems := (sems s)(x \<mapsto> n)\<rparr>))"
  unfolding set_sem_def wpp ..

lemma wpP_set_lock [wpp]:
  "wpP B (set_lock x a h) Q E = (\<lambda>s. Q () (s\<lparr>locks := (locks s)(x \<mapsto> \<lparr>lk_available = a, lk_holder = h\<rparr>)\<rparr>))"
  unfolding set_lock_def wpp ..

text \<open>Calls on the tables.\<close>

lemma on_sleepers_wpP:
  assumes "sleepers s = Some a" "wpK (f (km_now s)) (\<lambda>r a'. Q r ((km_tick s)\<lparr>sleepers := Some a'\<rparr>))
    (\<lambda>e a'. E e ((km_tick s)\<lparr>sleepers := Some a'\<rparr>)) a"
  shows "wpP B (on_sleepers f) Q E s"
  using assms by (auto simp: wpK_def wpP_def on_sleepers_def split: option.splits sum.splits)

lemma on_zombies_wpP:
  assumes "zombies s = Some a" "wpK (f (km_now s)) (\<lambda>r a'. Q r ((km_tick s)\<lparr>zombies := Some a'\<rparr>))
    (\<lambda>e a'. E e ((km_tick s)\<lparr>zombies := Some a'\<rparr>)) a"
  shows "wpP B (on_zombies f) Q E s"
  using assms by (auto simp: wpK_def wpP_def on_zombies_def split: option.splits sum.splits)

lemma on_runqueue_wpP:
  assumes "runqueue s = Some a" "wpK (f (km_now s)) (\<lambda>r a'. Q r ((km_tick s)\<lparr>runqueue := Some a'\<rparr>))
    (\<lambda>e a'. E e ((km_tick s)\<lparr>runqueue := Some a'\<rparr>)) a"
  shows "wpP B (on_runqueue f) Q E s"
  using assms by (auto simp: wpK_def wpP_def on_runqueue_def split: option.splits sum.splits)

lemma tablesE:
  assumes "tables s sl zs rq"
  obtains a b q where "sleepers s = Some a" "array_rep a sl" "zombies s = Some b" "array_rep b zs" "runqueue s = Some q" "q_rep q rq"
  using assms by (auto simp: tables_def)

definition nomem :: "'w kstate \<Rightarrow> bool" where
  "nomem s \<longleftrightarrow> (\<exists>n sz. \<not> km_oracle (km s) n sz)"

lemma mem_nomem: "mem B s \<Longrightarrow> nomem s \<Longrightarrow> B"
  by (auto simp: mem_def nomem_def)

lemma make_runnable_wp:
  assumes "tables s sl zs rq" "0 < curspl s" "length rq < 536870911"
  shows "wpP B (make_runnable t) (\<lambda>_ s'. core s' = core s \<and> tables s' sl zs (rq @ [t]))
    (\<lambda>e s'. core s' = core s \<and> tables s' sl zs rq \<and> nomem s) s"
proof -
  obtain a b q where t: "sleepers s = Some a" "array_rep a sl" "zombies s = Some b" "array_rep b zs" "runqueue s = Some q" "q_rep q rq"
    using assms(1) by (rule tablesE)
  have "wpP B (on_runqueue (\<lambda>km. q_addtail 3 km t)) (\<lambda>_ s'. core s' = core s \<and> tables s' sl zs (rq @ [t]))
      (\<lambda>e s'. core s' = core s \<and> tables s' sl zs rq \<and> nomem s) s"
    by (rule on_runqueue_wpP [OF t(5)], unfold numeral_3_eq_3, rule wp_mono [OF q_addtail_strong [OF t(6) assms(3)]])
      (use t in \<open>auto simp: tables_def nomem_def km_now_def\<close>)
  then show ?thesis using assms(2) by (simp add: make_runnable_def wpp)
qed

lemma sleepers_add_wp:
  assumes "tables s sl zs rq" "length sl < 536870911"
  shows "wpP B (on_sleepers (\<lambda>km. array_add km t)) (\<lambda>_ s'. core s' = core s \<and> tables s' (sl @ [t]) zs rq)
    (\<lambda>e s'. core s' = core s \<and> tables s' sl zs rq \<and> nomem s) s"
proof -
  obtain a b q where t: "sleepers s = Some a" "array_rep a sl" "zombies s = Some b" "array_rep b zs" "runqueue s = Some q" "q_rep q rq"
    using assms(1) by (rule tablesE)
  show ?thesis
    by (rule on_sleepers_wpP [OF t(1)], rule wp_mono [OF array_add_strong [OF t(2) assms(2)]])
      (use t in \<open>auto simp: tables_def nomem_def km_now_def\<close>)
qed

lemma zombies_add_wp:
  assumes "tables s sl zs rq" "length zs < 536870911"
  shows "wpP B (on_zombies (\<lambda>km. array_add km t)) (\<lambda>_ s'. core s' = core s \<and> tables s' sl (zs @ [t]) rq)
    (\<lambda>e s'. core s' = core s \<and> tables s' sl zs rq \<and> nomem s) s"
proof -
  obtain a b q where t: "sleepers s = Some a" "array_rep a sl" "zombies s = Some b" "array_rep b zs" "runqueue s = Some q" "q_rep q rq"
    using assms(1) by (rule tablesE)
  show ?thesis
    by (rule on_zombies_wpP [OF t(3)], rule wp_mono [OF array_add_strong [OF t(4) assms(2)]])
      (use t in \<open>auto simp: tables_def nomem_def km_now_def\<close>)
qed

lemma sleepers_num_wp:
  assumes "tables s sl zs rq" "\<And>s'. core s' = core s \<Longrightarrow> tables s' sl zs rq \<Longrightarrow> Q (int (length sl)) s'"
  shows "wpP B (on_sleepers (\<lambda>km. getK array_getnum)) Q E s"
proof -
  obtain a b q where t: "sleepers s = Some a" "array_rep a sl" "zombies s = Some b" "array_rep b zs" "runqueue s = Some q" "q_rep q rq"
    using assms(1) by (rule tablesE)
  show ?thesis
    by (rule on_sleepers_wpP [OF t(1)]) (use t assms(2) in \<open>auto simp: wp tables_def array_getnum_spec\<close>)
qed

lemma sleepers_get_wp:
  assumes "tables s sl zs rq" "i < length sl" "\<And>s'. core s' = core s \<Longrightarrow> tables s' sl zs rq \<Longrightarrow> Q (sl ! i) s'"
  shows "wpP B (on_sleepers (\<lambda>km. array_getguy (int i))) Q E s"
proof -
  obtain a b q where t: "sleepers s = Some a" "array_rep a sl" "zombies s = Some b" "array_rep b zs" "runqueue s = Some q" "q_rep q rq"
    using assms(1) by (rule tablesE)
  show ?thesis
    by (rule on_sleepers_wpP [OF t(1)]) (use t assms in \<open>auto simp: wpK_def tables_def array_getguy_spec\<close>)
qed

lemma sleepers_remove_wp:
  assumes "tables s sl zs rq" "i < length sl" "\<And>s'. core s' = core s \<Longrightarrow> tables s' (take i sl @ drop (Suc i) sl) zs rq \<Longrightarrow> Q () s'"
  shows "wpP B (on_sleepers (\<lambda>km. array_remove (int i))) Q E s"
proof -
  obtain a b q where t: "sleepers s = Some a" "array_rep a sl" "zombies s = Some b" "array_rep b zs" "runqueue s = Some q" "q_rep q rq"
    using assms(1) by (rule tablesE)
  show ?thesis
    by (rule on_sleepers_wpP [OF t(1)], rule wp_mono [OF array_remove_spec [OF t(2) assms(2)]])
      (use t assms(3) in \<open>auto simp: tables_def\<close>)
qed

lemma zombies_get_wp:
  assumes "tables s sl zs rq" "i < length zs" "\<And>s'. core s' = core s \<Longrightarrow> tables s' sl zs rq \<Longrightarrow> Q (zs ! i) s'"
  shows "wpP B (on_zombies (\<lambda>km. array_getguy (int i))) Q E s"
proof -
  obtain a b q where t: "sleepers s = Some a" "array_rep a sl" "zombies s = Some b" "array_rep b zs" "runqueue s = Some q" "q_rep q rq"
    using assms(1) by (rule tablesE)
  show ?thesis
    by (rule on_zombies_wpP [OF t(3)]) (use t assms in \<open>auto simp: wpK_def tables_def array_getguy_spec\<close>)
qed

lemma zombies_num_wp:
  assumes "tables s sl zs rq" "\<And>s'. core s' = core s \<Longrightarrow> tables s' sl zs rq \<Longrightarrow> Q (int (length zs)) s'"
  shows "wpP B (on_zombies (\<lambda>km. getK array_getnum)) Q E s"
proof -
  obtain a b q where t: "sleepers s = Some a" "array_rep a sl" "zombies s = Some b" "array_rep b zs" "runqueue s = Some q" "q_rep q rq"
    using assms(1) by (rule tablesE)
  show ?thesis
    by (rule on_zombies_wpP [OF t(3)]) (use t assms(2) in \<open>auto simp: wp tables_def array_getnum_spec\<close>)
qed

lemma array_clear: "array_rep a xs \<Longrightarrow> \<exists>a'. array_setsize oracle 0 a = Some (Inr (), a') \<and> array_rep a' []"
  by (auto simp: array_setsize_def array_rep_def array_ok_def bindK_def assertK_def modK_def array_cells_def)

lemma zombies_clear_wp:
  assumes "tables s sl zs rq" "\<And>s'. core s' = core s \<Longrightarrow> tables s' sl [] rq \<Longrightarrow> Q () s'"
  shows "wpP B (on_zombies (\<lambda>km. array_setsize km 0)) Q E s"
proof -
  obtain a b q where t: "sleepers s = Some a" "array_rep a sl" "zombies s = Some b" "array_rep b zs" "runqueue s = Some q" "q_rep q rq"
    using assms(1) by (rule tablesE)
  show ?thesis
    by (rule on_zombies_wpP [OF t(3)]) (use t assms(2) array_clear [OF t(4), of "km_now s"] in \<open>auto simp: wpK_def tables_def\<close>)
qed

text \<open>Fields of the core.\<close>

lemma core_eq: "core s' = core s \<longleftrightarrow> curthread s' = curthread s \<and> switching s' = switching s \<and> threads s' = threads s \<and>
    numthreads s' = numthreads s \<and> curspl s' = curspl s \<and> in_interrupt s' = in_interrupt s \<and> sems s' = sems s \<and>
    locks s' = locks s \<and> km_oracle (km s') = km_oracle (km s)"
  by (simp add: core_def)

lemma nomem_core: "core s' = core s \<Longrightarrow> nomem s' = nomem s"
  by (simp add: core_eq nomem_def)

lemma tables_simps [simp]:
  "tables (s\<lparr>curthread := x1\<rparr>) = tables s" "tables (s\<lparr>switching := x1\<rparr>) = tables s" "tables (s\<lparr>threads := x2\<rparr>) = tables s"
  "tables (s\<lparr>numthreads := x3\<rparr>) = tables s" "tables (s\<lparr>curspl := x3\<rparr>) = tables s" "tables (s\<lparr>in_interrupt := x4\<rparr>) = tables s"
  "tables (s\<lparr>sems := x5\<rparr>) = tables s" "tables (s\<lparr>locks := x6\<rparr>) = tables s" "tables (s\<lparr>lbolt_counter := x3\<rparr>) = tables s"
  "tables (s\<lparr>km := x7\<rparr>) = tables s" "tables (s\<lparr>world := x8\<rparr>) = tables s"
  by (simp_all add: tables_def fun_eq_iff)

text \<open>The sleepers with a given address, in the order of the table, move to the end of the run queue.\<close>

definition sleeps_on :: "(nat \<rightharpoonup> thread) \<Rightarrow> nat \<Rightarrow> nat \<Rightarrow> bool" where
  "sleeps_on thr addr t \<longleftrightarrow> map_option t_sleepaddr (thr t) = Some addr"

definition wakes :: "'w kstate \<Rightarrow> nat \<Rightarrow> nat list \<Rightarrow> nat list \<Rightarrow> nat list \<Rightarrow> nat list \<Rightarrow> 'w kstate \<Rightarrow> bool" where
  "wakes s addr ys xs zs rq s' \<longleftrightarrow> core s' = core s \<and>
     tables s' (ys @ filter (\<lambda>t. \<not> sleeps_on (threads s) addr t) xs) zs (rq @ filter (sleeps_on (threads s) addr) xs)"

lemma wakes_core: "core s2 = core s \<Longrightarrow> wakes s2 = wakes s"
  by (intro ext) (simp add: wakes_def core_eq)

lemma wakeup_loop_wp:
  fixes s :: "'w kstate"
  assumes "tables s (ys @ xs) zs rq" "0 < curspl s" "length rq + length xs < 536870911" "length xs \<le> rounds"
    and "\<forall>t \<in> set xs. threads s t \<noteq> None" "nomem s \<Longrightarrow> B"
  shows "wpP B (thread_wakeup_loop rounds addr (int (length ys))) (\<lambda>_. wakes s addr ys xs zs rq) (\<lambda>_ _. False) s"
  using assms
proof (induction rounds arbitrary: ys xs rq s)
  case 0
  show ?case unfolding thread_wakeup_loop.simps wpp
    by (rule sleepers_num_wp [OF "0.prems"(1)]) (use "0.prems"(4) in \<open>simp add: wakes_def\<close>)
next
  case (Suc rounds)
  show ?case
  proof (cases xs)
    case Nil
    show ?thesis unfolding thread_wakeup_loop.simps wpp
      by (rule sleepers_num_wp [OF Suc.prems(1)]) (use Nil in \<open>simp add: wakes_def\<close>)
  next
    case (Cons t xs')
    obtain th where th: "threads s t = Some th" using Suc.prems(5) Cons by auto
    have woken: "wpP B (tryK (make_runnable t)) (\<lambda>r. wpP B (bindK (assertK (\<not> isl r)) (\<lambda>_. thread_wakeup_loop rounds addr (int (length ys))))
        (\<lambda>_. wakes s addr ys xs zs rq) (\<lambda>_ _. False)) (\<lambda>_ _. False) s3"
      if s3: "core s3 = core s" "tables s3 (ys @ xs') zs rq" and on: "sleeps_on (threads s) addr t" for s3 :: "'w kstate"
      unfolding wpp
    proof (rule wpP_mono [OF make_runnable_wp [OF s3(2)]])
      fix a and s4 :: "'w kstate"
      assume s4: "core s4 = core s3 \<and> tables s4 (ys @ xs') zs (rq @ [t])"
      then have c4: "core s4 = core s" using s3 by simp
      have "wpP B (thread_wakeup_loop rounds addr (int (length ys))) (\<lambda>_. wakes s4 addr ys xs' zs (rq @ [t])) (\<lambda>_ _. False) s4"
        by (rule Suc.IH) (use s4 c4 Suc.prems Cons nomem_core [OF c4] in \<open>auto simp: core_eq\<close>)
      moreover have "wakes s addr ys xs' zs (rq @ [t]) = wakes s addr ys xs zs rq"
        using on Cons by (intro ext) (simp add: wakes_def)
      ultimately show "if \<not> isl (Inr a :: errno + unit) then wpP B (thread_wakeup_loop rounds addr (int (length ys)))
          (\<lambda>_. wakes s addr ys xs zs rq) (\<lambda>_ _. False) s4 else B"
        using wakes_core [OF c4] by simp
    qed (use s3 Suc.prems Cons nomem_core [OF s3(1)] in \<open>auto simp: core_eq\<close>)
    have left: "wpP B (thread_wakeup_loop rounds addr (int (length ys) + 1)) (\<lambda>_. wakes s addr ys xs zs rq) (\<lambda>_ _. False) s2"
      if s2: "core s2 = core s" "tables s2 (ys @ t # xs') zs rq" and on: "\<not> sleeps_on (threads s) addr t" for s2 :: "'w kstate"
    proof -
      have "wpP B (thread_wakeup_loop rounds addr (int (length (ys @ [t])))) (\<lambda>_. wakes s2 addr (ys @ [t]) xs' zs rq) (\<lambda>_ _. False) s2"
        by (rule Suc.IH) (use s2 Suc.prems Cons nomem_core [OF s2(1)] in \<open>auto simp: core_eq\<close>)
      moreover have "wakes s addr (ys @ [t]) xs' zs rq = wakes s addr ys xs zs rq"
        using on Cons by (intro ext) (simp add: wakes_def)
      ultimately show ?thesis using wakes_core [OF s2(1)] by (simp add: add.commute)
    qed
    show ?thesis unfolding thread_wakeup_loop.simps wpP_bind_eq
    proof (rule sleepers_num_wp [OF Suc.prems(1)])
      fix s1 :: "'w kstate"
      assume s1: "core s1 = core s" "tables s1 (ys @ xs) zs rq"
      have n: "int (length ys) < int (length (ys @ xs))" "length ys < length (ys @ xs)" "(ys @ xs) ! length ys = t" using Cons by simp_all
      show "wpP B (if \<not> int (length ys) < int (length (ys @ xs)) then retK () else
         bindK (on_sleepers (\<lambda>km. array_getguy (int (length ys)))) (\<lambda>t.
         bindK (get_thread t) (\<lambda>th.
         if t_sleepaddr th = addr then
           bindK (on_sleepers (\<lambda>km. array_remove (int (length ys)))) (\<lambda>_.
           bindK (tryK (make_runnable t)) (\<lambda>result.
           bindK (assertK (\<not> isl result)) (\<lambda>_.
           thread_wakeup_loop rounds addr (int (length ys)))))
         else thread_wakeup_loop rounds addr (int (length ys) + 1)))) (\<lambda>_. wakes s addr ys xs zs rq) (\<lambda>_ _. False) s1"
        unfolding wpP_if_eq wpP_bind_eq
        using n(1) s1 th Cons left woken
        by (auto simp: core_eq sleeps_on_def wpP_get_thread wpP_bind_eq intro!: sleepers_get_wp [OF s1(2) n(2)] sleepers_remove_wp)
    qed
  qed
qed

lemma thread_wakeup_wp:
  fixes s :: "'w kstate"
  assumes "tables s sl zs rq" "0 < curspl s" "length rq + length sl < 536870911" "\<forall>t \<in> set sl. threads s t \<noteq> None" "nomem s \<Longrightarrow> B"
  shows "wpP B (thread_wakeup addr) (\<lambda>_. wakes s addr [] sl zs rq) (\<lambda>_ _. False) s"
proof -
  have "wpP B (thread_wakeup_loop (nat (int (length sl))) addr 0) (\<lambda>_. wakes s addr [] sl zs rq) (\<lambda>_ _. False) s1"
    if s1: "core s1 = core s" "tables s1 sl zs rq" for s1 :: "'w kstate"
    using wakeup_loop_wp [of s1 "[]" sl zs rq "nat (int (length sl))" B addr] s1 assms wakes_core [OF s1(1)] nomem_core [OF s1(1)]
    by (simp add: core_eq)
  then show ?thesis unfolding thread_wakeup_def wpp using assms(2) by (auto intro!: sleepers_num_wp [OF assms(1)])
qed

text \<open>Zombies are freed.\<close>

definition dead :: "(nat \<rightharpoonup> thread) \<Rightarrow> nat \<Rightarrow> bool" where
  "dead thr z \<longleftrightarrow> (\<exists>th. thr z = Some th \<and> t_vmspace th = 0 \<and> t_cwd th = 0)"

lemma exorcise_loop_wp:
  fixes s :: "'w kstate"
  assumes "tables s sl zs rq" "i + n = length zs" "distinct zs" "curthread s \<notin> set zs" "\<forall>z \<in> set (drop i zs). dead (threads s) z"
  shows "wpP B (exorcise_loop n i)
    (\<lambda>_ s'. core s' = core (s\<lparr>threads := threads s |` (- set (drop i zs))\<rparr>) \<and> tables s' sl zs rq) (\<lambda>_ _. False) s"
  using assms
proof (induction n arbitrary: i s)
  case 0
  then show ?case by (simp add: wpp core_def restrict_map_def)
next
  case (Suc n)
  then have i: "i < length zs" and d: "drop i zs = zs ! i # drop (Suc i) zs" by (simp_all add: Cons_nth_drop_Suc)
  obtain th where th: "threads s (zs ! i) = Some th" "t_vmspace th = 0" "t_cwd th = 0" using Suc.prems(5) d by (auto simp: dead_def)
  have ni: "zs ! i \<noteq> curthread s" using Suc.prems(4) i by (metis nth_mem)
  have nd: "zs ! i \<notin> set (drop (Suc i) zs)" using Suc.prems(3) d by (metis distinct.simps(2) distinct_drop)
  show ?case unfolding exorcise_loop.simps wpP_bind_eq
  proof (rule zombies_get_wp [OF Suc.prems(1) i])
    fix s1 :: "'w kstate"
    assume s1: "core s1 = core s" "tables s1 sl zs rq"
    let ?s2 = "s1\<lparr>threads := (threads s1)(zs ! i := None)\<rparr>"
    have "wpP B (exorcise_loop n (Suc i))
      (\<lambda>_ s'. core s' = core (?s2\<lparr>threads := threads ?s2 |` (- set (drop (Suc i) zs))\<rparr>) \<and> tables s' sl zs rq) (\<lambda>_ _. False) ?s2"
      by (rule Suc.IH) (use Suc.prems s1 d nd in \<open>auto simp: core_eq dead_def\<close>)
    moreover have "core (?s2\<lparr>threads := threads ?s2 |` (- set (drop (Suc i) zs))\<rparr>) = core (s\<lparr>threads := threads s |` (- set (drop i zs))\<rparr>)"
      using s1 d by (simp add: core_eq) (auto simp: restrict_map_def fun_eq_iff)
    ultimately show "wpP B (getK curthread) (\<lambda>a. wpP B (assertK (zs ! i \<noteq> a)) (\<lambda>a. wpP B (thread_destroy (zs ! i)) (\<lambda>a. wpP B (exorcise_loop n (Suc i))
        (\<lambda>_ s'. core s' = core (s\<lparr>threads := threads s |` (- set (drop i zs))\<rparr>) \<and> tables s' sl zs rq) (\<lambda>_ _. False)) (\<lambda>_ _. False)) (\<lambda>_ _. False)) (\<lambda>_ _. False) s1"
      using s1 th ni by (simp add: wpp thread_destroy_def free_thread_def core_eq)
  qed
qed

lemma exorcise_wp:
  fixes s :: "'w kstate"
  assumes "tables s sl zs rq" "0 < curspl s" "distinct zs" "curthread s \<notin> set zs" "\<forall>z \<in> set zs. dead (threads s) z"
  shows "wpP B exorcise (\<lambda>_ s'. core s' = core (s\<lparr>threads := threads s |` (- set zs)\<rparr>) \<and> tables s' sl [] rq) (\<lambda>_ _. False) s"
proof -
  have "wpP B (exorcise_loop (nat (int (length zs))) 0) (\<lambda>_. wpP B (on_zombies (\<lambda>km. array_setsize km 0))
      (\<lambda>_ s'. core s' = core (s\<lparr>threads := threads s |` (- set zs)\<rparr>) \<and> tables s' sl [] rq) (\<lambda>_ _. B)) (\<lambda>_ _. False) s1"
    if s1: "core s1 = core s" "tables s1 sl zs rq" for s1 :: "'w kstate"
  proof (rule wpP_mono [OF exorcise_loop_wp [OF s1(2)]])
    fix s2 :: "'w kstate"
    assume "core s2 = core (s1\<lparr>threads := threads s1 |` (- set (drop 0 zs))\<rparr>) \<and> tables s2 sl zs rq"
    then show "wpP B (on_zombies (\<lambda>km. array_setsize km 0))
      (\<lambda>_ s'. core s' = core (s\<lparr>threads := threads s |` (- set zs)\<rparr>) \<and> tables s' sl [] rq) (\<lambda>_ _. B) s2"
      using s1 by (auto intro!: zombies_clear_wp simp: core_eq)
  qed (use s1 assms in \<open>auto simp: core_eq\<close>)
  then show ?thesis unfolding exorcise_def wpp using assms(2) by (auto intro!: zombies_num_wp [OF assms(1)])
qed

section \<open>Switching\<close>

definition magic_ok :: "thread \<Rightarrow> bool" where
  "magic_ok th \<longleftrightarrow> (case t_stack th of None \<Rightarrow> True | Some b \<Rightarrow> take 4 b = stack_magic)"

lemma stack_check_wp: "threads s cur = Some th \<Longrightarrow> magic_ok th \<Longrightarrow> Q () s \<Longrightarrow> wpP B (stack_check cur) Q E s"
  by (simp add: stack_check_def wpp magic_ok_def split: option.splits)

text \<open>The state after \<^verbatim>\<open>mi_switch\<close> has put the current thread away.\<close>

definition put_away :: "nat \<Rightarrow> thread \<Rightarrow> ctx \<Rightarrow> 'w kstate \<Rightarrow> 'w kstate" where
  "put_away cur th c s = s\<lparr>curthread := 0, switching := cur, threads := (threads s)(cur \<mapsto> th\<lparr>t_cont := InSwitch c\<rparr>)\<rparr>"

fun stash :: "threadstate \<Rightarrow> nat \<Rightarrow> nat list \<times> nat list \<times> nat list \<Rightarrow> nat list \<times> nat list \<times> nat list" where
  "stash S_READY t (sl, zs, rq) = (sl, zs, rq @ [t])"
| "stash S_SLEEP t (sl, zs, rq) = (sl @ [t], zs, rq)"
| "stash S_ZOMB t (sl, zs, rq) = (sl, zs @ [t], rq)"
| "stash S_RUN t (sl, zs, rq) = (sl, zs, rq)"

lemma mi_switch_stash_wp:
  assumes "tables s sl zs rq" "0 < curspl s" "length sl + length zs + length rq < 536870911" "st \<noteq> S_RUN"
  shows "wpP B (mi_switch_stash st t)
    (\<lambda>_ s'. core s' = core s \<and> (case stash st t (sl, zs, rq) of (sl', zs', rq') \<Rightarrow> tables s' sl' zs' rq')) (\<lambda>e s'. nomem s) s"
  using assms
  by (cases st) (auto simp: mi_switch_stash_def intro: wpP_mono [OF make_runnable_wp] wpP_mono [OF sleepers_add_wp] wpP_mono [OF zombies_add_wp])

lemma mi_switch_wp:
  fixes s :: "'w kstate"
  assumes "tables s sl zs rq" "0 < curspl s" "length sl + length zs + length rq < 536870911" "st \<noteq> S_RUN"
    and "curthread s = cur" "cur \<noteq> 0" "threads s cur = Some th" "magic_ok th" "nomem s \<Longrightarrow> B"
  shows "wpP B (mi_switch st c) (\<lambda>r s'. \<not> r \<and> core s' = core (put_away cur th c s) \<and>
      (case stash st cur (sl, zs, rq) of (sl', zs', rq') \<Rightarrow> tables s' sl' zs' rq')) (\<lambda>_ _. False) s"
proof -
  let ?s1 = "put_away cur th c s"
  have n: "nomem ?s1 = nomem s" by (simp add: nomem_def put_away_def)
  have t: "tables ?s1 sl zs rq" "0 < curspl ?s1" using assms(1,2) by (simp_all add: put_away_def)
  have "wpP B (tryK (mi_switch_stash st cur)) (\<lambda>r. wpP B (bindK (assertK (\<not> isl r)) (\<lambda>_. retK False)) (\<lambda>r s'. \<not> r \<and> core s' = core ?s1 \<and>
      (case stash st cur (sl, zs, rq) of (sl', zs', rq') \<Rightarrow> tables s' sl' zs' rq')) (\<lambda>_ _. False)) (\<lambda>_ _. False) ?s1"
    unfolding wpp by (rule wpP_mono [OF mi_switch_stash_wp [OF t assms(3,4)]]) (use n assms(9) in auto)
  then show ?thesis using assms(2,5-8) unfolding mi_switch_def wpp
    by (auto intro!: stack_check_wp [where th = th] simp: put_away_def)
qed

section \<open>The invariant\<close>

text \<open>The current thread, as a list with at most one element.\<close>

definition here :: "'w kstate \<Rightarrow> nat list" where
  "here s = (if curthread s = 0 then [] else [curthread s])"

fun intr_ctx :: "ctx \<Rightarrow> bool" where
  "intr_ctx (CtxIntr _ _ _) = True"
| "intr_ctx _ = False"

fun cont_intr :: "cont \<Rightarrow> bool" where
  "cont_intr (InSwitch c) = intr_ctx c"
| "cont_intr _ = False"

text \<open>A thread that may be picked: it is stopped where it can go on.\<close>

fun ready_ctx :: "'w kstate \<Rightarrow> ctx \<Rightarrow> bool" where
  "ready_ctx s (CtxYield spl) \<longleftrightarrow> spl = 0"
| "ready_ctx s (CtxIntr savespl old_in spl) \<longleftrightarrow> savespl = 0 \<and> \<not> old_in \<and> spl = 15"
| "ready_ctx s (CtxP sem spl) \<longleftrightarrow> spl = 0 \<and> sem \<in> dom (sems s)"
| "ready_ctx s (CtxAcquire lk spl) \<longleftrightarrow> spl = 0 \<and> lk \<in> dom (locks s)"
| "ready_ctx s (CtxClocksleep n spl) \<longleftrightarrow> spl = 0"
| "ready_ctx s CtxDead \<longleftrightarrow> False"

fun ready_cont :: "'w kstate \<Rightarrow> cont \<Rightarrow> bool" where
  "ready_cont s Running \<longleftrightarrow> False"
| "ready_cont s AtStart \<longleftrightarrow> True"
| "ready_cont s (InSwitch c) \<longleftrightarrow> ready_ctx s c"

text \<open>A thread that sleeps: on a semaphore that is 0, on a lock that is held, or on the clock.\<close>

fun asleep_ctx :: "'w kenv \<Rightarrow> 'w kstate \<Rightarrow> nat \<Rightarrow> ctx \<Rightarrow> bool" where
  "asleep_ctx env s addr (CtxP sem spl) \<longleftrightarrow> spl = 0 \<and> addr = sem \<and> sems s sem = Some 0"
| "asleep_ctx env s addr (CtxAcquire lk spl) \<longleftrightarrow> spl = 0 \<and> addr = lk \<and> (\<exists>l. locks s lk = Some l \<and> lk_available l = 0)"
| "asleep_ctx env s addr (CtxClocksleep n spl) \<longleftrightarrow> spl = 0 \<and> addr = lbolt env"
| "asleep_ctx env s addr _ \<longleftrightarrow> False"

definition asleep :: "'w kenv \<Rightarrow> 'w kstate \<Rightarrow> thread \<Rightarrow> bool" where
  "asleep env s th \<longleftrightarrow> (\<exists>c. t_cont th = InSwitch c \<and> asleep_ctx env s (t_sleepaddr th) c)"

fun op_ok :: "nat set \<Rightarrow> nat set \<Rightarrow> op \<Rightarrow> bool" where
  "op_ok S L (OpP x) \<longleftrightarrow> x \<in> S"
| "op_ok S L (OpV x) \<longleftrightarrow> x \<in> S"
| "op_ok S L (OpAcquire x) \<longleftrightarrow> x \<in> L"
| "op_ok S L (OpTry x) \<longleftrightarrow> x \<in> L"
| "op_ok S L (OpRelease x) \<longleftrightarrow> x \<in> L"
| "op_ok S L OpYield \<longleftrightarrow> True"
| "op_ok S L (OpClocksleep n) \<longleftrightarrow> True"
| "op_ok S L (OpFork f) \<longleftrightarrow> (\<forall>c \<in> set f. op_ok S L c)"

definition prog_ok :: "'w kstate \<Rightarrow> op list \<Rightarrow> bool" where
  "prog_ok s p \<longleftrightarrow> (\<forall>c \<in> set p. op_ok (dom (sems s)) (dom (locks s)) c)"

definition lock_ok :: "lock \<Rightarrow> bool" where
  "lock_ok l \<longleftrightarrow> lk_available l = 1 \<and> lk_holder l = 0 \<or> lk_available l = 0 \<and> lk_holder l \<noteq> 0"

definition sync_ok :: "'w kenv \<Rightarrow> 'w kstate \<Rightarrow> bool" where
  "sync_ok env s \<longleftrightarrow> (\<forall>n \<in> ran (sems s). 0 \<le> n \<and> n \<le> 2147483647) \<and> (\<forall>l \<in> ran (locks s). lock_ok l) \<and>
     dom (sems s) \<inter> dom (locks s) = {} \<and> 0 \<notin> dom (sems s) \<and> 0 \<notin> dom (locks s) \<and> lbolt env \<notin> dom (sems s) \<and> lbolt env \<notin> dom (locks s)"

text \<open>
  The part that also holds in the middle of a step: every thread structure is in exactly one place, and every thread that does not
  run is stopped in a way that fits its place. \<open>i\<close> is what \<^verbatim>\<open>in_interrupt\<close> will be saved as for the thread that is being switched away.
\<close>

definition saved :: "bool \<Rightarrow> 'w kstate \<Rightarrow> nat \<Rightarrow> thread \<Rightarrow> bool" where
  "saved i s t th = (if t = switching s then i else pcb_ininterrupt th)"

definition base_inv :: "'w kenv \<Rightarrow> bool \<Rightarrow> 'w kstate \<Rightarrow> nat list \<Rightarrow> nat list \<Rightarrow> nat list \<Rightarrow> bool" where
  "base_inv env i s sl zs rq \<longleftrightarrow> tables s sl zs rq \<and> distinct (here s @ sl @ zs @ rq) \<and> dom (threads s) = set (here s @ sl @ zs @ rq) \<and>
     (\<forall>t \<in> dom (threads s). heap_addr t) \<and>
     (\<forall>t \<in> set sl. \<exists>th. threads s t = Some th \<and> asleep env s th \<and> \<not> saved i s t th) \<and>
     (\<forall>t \<in> set rq. \<exists>th. threads s t = Some th \<and> ready_cont s (t_cont th) \<and> saved i s t th = cont_intr (t_cont th)) \<and>
     (\<forall>t \<in> set zs. dead (threads s) t) \<and>
     (\<forall>th \<in> ran (threads s). magic_ok th \<and> prog_ok s (t_prog th)) \<and>
     sync_ok env s"

text \<open>Between two steps: somebody is current and runs or is about to go on, or the scheduler runs.\<close>

definition cpu_ok :: "'w kstate \<Rightarrow> bool" where
  "cpu_ok s \<longleftrightarrow>
     (if curthread s = 0 then curspl s = 15 \<and> switching s \<noteq> 0 \<and> threads s (switching s) \<noteq> None
      else switching s = 0 \<and> (\<exists>th. threads s (curthread s) = Some th \<and>
         (t_cont th = Running \<and> curspl s = 0 \<and> \<not> in_interrupt s \<or>
          ready_cont s (t_cont th) \<and> curspl s = 15 \<and> in_interrupt s = cont_intr (t_cont th))))"

definition kinv :: "'w kenv \<Rightarrow> 'w kstate \<Rightarrow> nat list \<Rightarrow> nat list \<Rightarrow> nat list \<Rightarrow> bool" where
  "kinv env s sl zs rq \<longleftrightarrow> base_inv env (in_interrupt s) s sl zs rq \<and> cpu_ok s \<and>
     numthreads s = int (length (here s) + length sl + length rq)"

definition good :: "'w kenv \<Rightarrow> 'w kstate \<Rightarrow> bool" where
  "good env s \<longleftrightarrow> (\<exists>sl zs rq. kinv env s sl zs rq)"

text \<open>There are fewer threads than an array can hold.\<close>

lemma heap_addr_finite: "finite {t. heap_addr t}" and heap_addr_card: "card {t. heap_addr t} \<le> 268435456"
proof -
  have "{t. heap_addr t} \<subseteq> (\<lambda>k. 16 * k) ` {..<268435456}"
  proof
    fix t assume "t \<in> {t. heap_addr t}"
    then have "t = 16 * (t div 16)" "t div 16 < 268435456" by (auto simp: heap_addr_def)
    then show "t \<in> (\<lambda>k. 16 * k) ` {..<268435456}" by blast
  qed
  then show "finite {t. heap_addr t}" "card {t. heap_addr t} \<le> 268435456"
    using finite_subset [of _ "(\<lambda>k. 16 * k) ` {..<268435456::nat}"] surj_card_le [of "{..<268435456::nat}" _ "\<lambda>k. 16 * k"] by auto
qed

lemma base_bound:
  assumes "base_inv env i s sl zs rq"
  shows "length (here s) + length sl + length zs + length rq \<le> 268435456"
proof -
  have "set (here s @ sl @ zs @ rq) \<subseteq> {t. heap_addr t}" using assms by (auto simp: base_inv_def)
  then have "card (set (here s @ sl @ zs @ rq)) \<le> 268435456" using card_mono [OF heap_addr_finite] heap_addr_card by (meson le_trans)
  moreover have "card (set (here s @ sl @ zs @ rq)) = length (here s @ sl @ zs @ rq)"
    by (rule distinct_card) (use assms in \<open>simp add: base_inv_def\<close>)
  ultimately show ?thesis by simp
qed

text \<open>Only these parts of the state matter.\<close>

lemma ready_cong: "dom (sems s') = dom (sems s) \<Longrightarrow> dom (locks s') = dom (locks s) \<Longrightarrow> ready_cont s' c = ready_cont s c"
proof -
  assume d: "dom (sems s') = dom (sems s)" "dom (locks s') = dom (locks s)"
  have "ready_ctx s' x = ready_ctx s x" for x by (cases x) (simp_all add: d)
  then show ?thesis by (cases c) auto
qed

lemma asleep_cong: "sems s' = sems s \<Longrightarrow> locks s' = locks s \<Longrightarrow> asleep env s' th = asleep env s th"
proof -
  assume d: "sems s' = sems s" "locks s' = locks s"
  have "asleep_ctx env s' a x = asleep_ctx env s a x" for a x by (cases x) (simp_all add: d)
  then show ?thesis by (simp add: asleep_def)
qed

lemma asleep_ready: "asleep env s th \<Longrightarrow> ready_cont s (t_cont th) \<and> \<not> cont_intr (t_cont th)"
proof -
  assume "asleep env s th"
  then obtain c where c: "t_cont th = InSwitch c" "asleep_ctx env s (t_sleepaddr th) c" by (auto simp: asleep_def)
  then show ?thesis by (cases c) (auto simp: domIff)
qed

lemma base_cong:
  assumes "base_inv env i s sl zs rq" "tables s' sl zs rq" "curthread s' = curthread s" "switching s' = switching s" "threads s' = threads s"
    and "sems s' = sems s" "locks s' = locks s"
  shows "base_inv env i s' sl zs rq"
proof -
  have "here s' = here s" using assms(3) by (simp add: here_def)
  then show ?thesis
    using assms by (simp add: base_inv_def saved_def sync_ok_def prog_ok_def ready_cong [of s' s] asleep_cong [of s' s])
qed

text \<open>Waking all sleepers of an address after the state of a semaphore or lock has changed.\<close>

lemma base_wake:
  fixes s :: "'w kstate"
  assumes b: "base_inv env i s sl zs rq" and t: "tables s' (filter (\<lambda>t. \<not> sleeps_on (threads s) x t) sl) zs (rq @ filter (sleeps_on (threads s) x) sl)"
    and e: "curthread s' = curthread s" "switching s' = switching s" "threads s' = threads s"
    and d: "dom (sems s') = dom (sems s)" "dom (locks s') = dom (locks s)" and k: "sync_ok env s'"
    and a: "\<And>th. asleep env s th \<Longrightarrow> t_sleepaddr th \<noteq> x \<Longrightarrow> asleep env s' th"
  shows "base_inv env i s' (filter (\<lambda>t. \<not> sleeps_on (threads s) x t) sl) zs (rq @ filter (sleeps_on (threads s) x) sl)"
proof -
  let ?on = "sleeps_on (threads s) x"
  have h: "here s' = here s" using e by (simp add: here_def)
  have 1: "\<exists>th. threads s' t = Some th \<and> asleep env s' th \<and> \<not> saved i s' t th" if u: "t \<in> set (filter (\<lambda>t. \<not> ?on t) sl)" for t
  proof -
    obtain th where "threads s t = Some th" "asleep env s th" "\<not> saved i s t th" using u b by (auto simp: base_inv_def)
    moreover from this u have "t_sleepaddr th \<noteq> x" by (auto simp: sleeps_on_def)
    ultimately show ?thesis using a e by (auto simp: saved_def)
  qed
  have 2: "\<exists>th. threads s' t = Some th \<and> ready_cont s' (t_cont th) \<and> saved i s' t th = cont_intr (t_cont th)"
    if u: "t \<in> set (rq @ filter ?on sl)" for t
  proof (cases "t \<in> set rq")
    case True
    then show ?thesis using b e ready_cong [OF d] by (auto simp: base_inv_def saved_def)
  next
    case False
    then obtain th where "threads s t = Some th" "asleep env s th" "\<not> saved i s t th" using u b by (auto simp: base_inv_def)
    then show ?thesis using e ready_cong [OF d] asleep_ready [of env s th] by (auto simp: saved_def)
  qed
  have 3: "distinct (here s' @ filter (\<lambda>t. \<not> ?on t) sl @ zs @ rq @ filter ?on sl)"
    and 4: "dom (threads s') = set (here s' @ filter (\<lambda>t. \<not> ?on t) sl @ zs @ rq @ filter ?on sl)"
    using b h e by (auto simp: base_inv_def)
  show ?thesis unfolding base_inv_def
    using t b e k 1 2 3 4 d by (simp add: prog_ok_def) (auto simp: base_inv_def prog_ok_def)
qed

text \<open>The current thread is put away.\<close>

definition fits :: "'w kenv \<Rightarrow> 'w kstate \<Rightarrow> threadstate \<Rightarrow> thread \<Rightarrow> ctx \<Rightarrow> bool \<Rightarrow> bool" where
  "fits env s st th c j \<longleftrightarrow>
     (case st of
        S_READY \<Rightarrow> ready_ctx s c \<and> j = intr_ctx c
      | S_SLEEP \<Rightarrow> asleep env s (th\<lparr>t_cont := InSwitch c\<rparr>) \<and> \<not> j
      | S_ZOMB \<Rightarrow> t_vmspace th = 0 \<and> t_cwd th = 0
      | S_RUN \<Rightarrow> False)"

lemma base_away:
  fixes s s' :: "'w kstate"
  assumes b: "base_inv env i s sl zs rq" and c: "curthread s = cur" "cur \<noteq> 0" "switching s = 0" "threads s cur = Some th"
    and s': "core s' = core (put_away cur th c s)" "stash st cur (sl, zs, rq) = (sl', zs', rq')" "tables s' sl' zs' rq'"
    and f: "fits env s st th c j"
  shows "base_inv env j s' sl' zs' rq'"
proof -
  have e: "curthread s' = 0" "switching s' = cur" "threads s' = (threads s)(cur \<mapsto> th\<lparr>t_cont := InSwitch c\<rparr>)" "sems s' = sems s" "locks s' = locks s"
    using s'(1) by (simp_all add: core_eq put_away_def)
  have h: "here s' = []" "here s = [cur]" using e c by (simp_all add: here_def)
  have n: "cur \<notin> set sl" "cur \<notin> set zs" "cur \<notin> set rq" "0 \<notin> dom (threads s)" using b h by (auto simp: base_inv_def heap_addr_def)
  have sav: "saved j s' t u = saved i s t u" if "t \<noteq> cur" "t \<in> dom (threads s)" for t u
    using that c(3) e(2) n(4) by (auto simp: saved_def)
  have sl: "\<exists>u. threads s' t = Some u \<and> asleep env s' u \<and> \<not> saved j s' t u" if t: "t \<in> set sl" for t
  proof -
    obtain u where "threads s t = Some u" "asleep env s u" "\<not> saved i s t u" using b t by (auto simp: base_inv_def)
    then show ?thesis using sav [of t u] e n t asleep_cong [of s' s] by auto
  qed
  have rq: "\<exists>u. threads s' t = Some u \<and> ready_cont s' (t_cont u) \<and> saved j s' t u = cont_intr (t_cont u)" if t: "t \<in> set rq" for t
  proof -
    obtain u where "threads s t = Some u" "ready_cont s (t_cont u)" "saved i s t u = cont_intr (t_cont u)" using b t by (auto simp: base_inv_def)
    then show ?thesis using sav [of t u] e n t ready_cong [of s' s] by auto
  qed
  have zs: "dead (threads s') t" if "t \<in> set zs" for t using b e n that by (auto simp: base_inv_def dead_def)
  have cur: "threads s' cur = Some (th\<lparr>t_cont := InSwitch c\<rparr>)" "saved j s' cur (th\<lparr>t_cont := InSwitch c\<rparr>) = j"
    using e by (simp_all add: saved_def)
  have all: "\<forall>u \<in> ran (threads s'). magic_ok u \<and> prog_ok s' (t_prog u)"
  proof
    fix u assume "u \<in> ran (threads s')"
    then have "u \<in> ran (threads s) \<or> u = th\<lparr>t_cont := InSwitch c\<rparr>" by (auto simp: e(3) ran_def split: if_splits)
    moreover have "magic_ok th \<and> prog_ok s (t_prog th)" using b c(4) by (auto simp: base_inv_def ranI)
    ultimately show "magic_ok u \<and> prog_ok s' (t_prog u)" using b e by (auto simp: base_inv_def prog_ok_def magic_ok_def)
  qed
  have rest: "sync_ok env s'" "\<forall>t \<in> dom (threads s'). heap_addr t" "dom (threads s') = insert cur (set sl \<union> set zs \<union> set rq)" "distinct (sl @ zs @ rq)"
    using b e h c(4) by (auto simp: base_inv_def sync_ok_def domIff)
  have place: "ready_ctx s' c = ready_ctx s c" "asleep env s' (th\<lparr>t_cont := InSwitch c\<rparr>) = asleep env s (th\<lparr>t_cont := InSwitch c\<rparr>)"
    using e ready_cong [of s' s "InSwitch c"] asleep_cong [of s' s] by simp_all
  show ?thesis
  proof (cases st)
    case S_READY
    then show ?thesis unfolding base_inv_def h using s'(2,3) f rest all sl rq zs n(1-3) cur place by (auto simp: fits_def)
  next
    case S_SLEEP
    then show ?thesis unfolding base_inv_def h using s'(2,3) f rest all sl rq zs n(1-3) cur place by (auto simp: fits_def)
  next
    case S_ZOMB
    then show ?thesis unfolding base_inv_def h using s'(2,3) f rest all sl rq zs n(1-3) cur by (auto simp: fits_def dead_def)
  qed (use f in \<open>simp add: fits_def\<close>)
qed

text \<open>A change of the current thread's structure; of a semaphore or lock nobody sleeps on.\<close>

lemma base_cur:
  assumes b: "base_inv env i s sl zs rq" and c: "curthread s = cur" "cur \<noteq> 0" and th: "magic_ok th'" "prog_ok s (t_prog th')"
    and e: "core s' = core (s\<lparr>threads := (threads s)(cur \<mapsto> th')\<rparr>)" "tables s' sl zs rq"
  shows "base_inv env i s' sl zs rq"
proof -
  have h: "here s = [cur]" "here s' = [cur]" using c e(1) by (simp_all add: here_def core_eq)
  have f: "switching s' = switching s" "sems s' = sems s" "locks s' = locks s" using e(1) by (simp_all add: core_eq)
  have n: "cur \<notin> set sl" "cur \<notin> set zs" "cur \<notin> set rq" "cur \<in> dom (threads s)" using b h by (auto simp: base_inv_def)
  have thr: "t \<noteq> cur \<Longrightarrow> threads s' t = threads s t" "ran (threads s') \<subseteq> insert th' (ran (threads s))" "dom (threads s') = dom (threads s)" for t
    using e(1) n(4) by (auto simp: core_eq ran_def)
  have sv: "saved i s' t u = saved i s t u" for t u using f by (simp add: saved_def)
  have ok: "\<forall>u \<in> ran (threads s'). magic_ok u \<and> prog_ok s' (t_prog u)"
    using thr(2) th b f by (auto simp: base_inv_def prog_ok_def)
  have "\<forall>t \<in> set sl. \<exists>u. threads s' t = Some u \<and> asleep env s' u \<and> \<not> saved i s' t u"
    "\<forall>t \<in> set rq. \<exists>u. threads s' t = Some u \<and> ready_cont s' (t_cont u) \<and> saved i s' t u = cont_intr (t_cont u)"
    "\<forall>t \<in> set zs. dead (threads s') t"
    using b n thr(1) f sv asleep_cong [of s' s] ready_cong [of s' s] unfolding base_inv_def dead_def by metis+
  moreover have "sync_ok env s'" using b f by (simp add: base_inv_def sync_ok_def)
  ultimately show ?thesis using b h e(2) ok thr(3) unfolding base_inv_def by simp
qed

lemma base_sync:
  assumes b: "base_inv env i s sl zs rq" and e: "curthread s' = curthread s" "switching s' = switching s" "threads s' = threads s" "tables s' sl zs rq"
    and d: "dom (sems s') = dom (sems s)" "dom (locks s') = dom (locks s)" and k: "sync_ok env s'" and a: "\<And>th. asleep env s th \<Longrightarrow> asleep env s' th"
  shows "base_inv env i s' sl zs rq"
proof -
  have "here s' = here s" using e(1) by (simp add: here_def)
  moreover have sv: "saved i s' = saved i s" using e(2) by (intro ext) (simp add: saved_def)
  moreover have "\<forall>t \<in> set sl. \<exists>u. threads s' t = Some u \<and> asleep env s' u \<and> \<not> saved i s' t u"
    using b a e(3) sv unfolding base_inv_def by metis
  ultimately show ?thesis using b e d k ready_cong [OF d] by (simp add: base_inv_def prog_ok_def)
qed

lemma asleep_sem:
  "asleep env s th \<Longrightarrow> sems s x = Some n \<Longrightarrow> n \<noteq> 0 \<Longrightarrow> locks s' = locks s \<Longrightarrow> sems s' = (sems s)(x \<mapsto> m) \<Longrightarrow> asleep env s' th"
  unfolding asleep_def by (elim exE conjE, rule exI, rule conjI, assumption) (case_tac c; auto)

lemma asleep_lock:
  "asleep env s th \<Longrightarrow> locks s x = Some l \<Longrightarrow> lk_available l \<noteq> 0 \<Longrightarrow> sems s' = sems s \<Longrightarrow> locks s' = (locks s)(x \<mapsto> l') \<Longrightarrow> asleep env s' th"
  unfolding asleep_def by (elim exE conjE, rule exI, rule conjI, assumption) (case_tac c; auto)

lemma sync_sem:
  "sync_ok env s \<Longrightarrow> sems s x = Some n \<Longrightarrow> 0 \<le> m \<Longrightarrow> m \<le> 2147483647 \<Longrightarrow> locks s' = locks s \<Longrightarrow> sems s' = (sems s)(x \<mapsto> m) \<Longrightarrow>
    sync_ok env s' \<and> dom (sems s') = dom (sems s) \<and> dom (locks s') = dom (locks s)"
  by (auto simp: sync_ok_def ran_def domIff split: if_splits)

lemma sync_lock:
  "sync_ok env s \<Longrightarrow> locks s x = Some l \<Longrightarrow> lock_ok l' \<Longrightarrow> sems s' = sems s \<Longrightarrow> locks s' = (locks s)(x \<mapsto> l') \<Longrightarrow>
    sync_ok env s' \<and> dom (sems s') = dom (sems s) \<and> dom (locks s') = dom (locks s)"
  by (auto simp: sync_ok_def ran_def domIff split: if_splits)

section \<open>Calls of the running thread\<close>

text \<open>The running thread is inside the kernel; \<open>j\<close> says whether in an interrupt handler.\<close>

definition inside :: "'w kenv \<Rightarrow> bool \<Rightarrow> 'w kstate \<Rightarrow> nat list \<Rightarrow> nat list \<Rightarrow> nat list \<Rightarrow> bool" where
  "inside env j s sl zs rq \<longleftrightarrow> base_inv env j s sl zs rq \<and> curthread s \<noteq> 0 \<and> switching s = 0 \<and>
     (\<exists>th. threads s (curthread s) = Some th \<and> t_cont th = Running) \<and> in_interrupt s = j \<and> numthreads s = int (Suc (length sl + length rq))"

lemma base_any: "base_inv env i s sl zs rq \<Longrightarrow> switching s = 0 \<Longrightarrow> base_inv env j s sl zs rq"
proof -
  assume b: "base_inv env i s sl zs rq" and s: "switching s = 0"
  have "0 \<notin> dom (threads s)" using b by (auto simp: base_inv_def heap_addr_def)
  then have "t \<in> dom (threads s) \<Longrightarrow> saved j s t th = saved i s t th" for t th using s by (auto simp: saved_def)
  then show ?thesis using b unfolding base_inv_def by (metis domI)
qed

lemma inside_kinv: "inside env False s sl zs rq \<Longrightarrow> curspl s = 0 \<Longrightarrow> kinv env s sl zs rq"
  by (auto simp: inside_def kinv_def cpu_ok_def here_def)

lemma on_cpu_inside: "kinv env s sl zs rq \<Longrightarrow> on_cpu s \<Longrightarrow> inside env False s sl zs rq \<and> curspl s = 0"
proof -
  assume k: "kinv env s sl zs rq" and o: "on_cpu s"
  then have "in_interrupt s = False \<and> switching s = 0" by (auto simp: kinv_def cpu_ok_def on_cpu_def)
  then show ?thesis using k o by (auto simp: inside_def kinv_def on_cpu_def here_def)
qed

text \<open>What a step leaves alone: semaphores, locks, and the supply of memory.\<close>

definition sync_same :: "'w kstate \<Rightarrow> 'w kstate \<Rightarrow> bool" where
  "sync_same s s' \<longleftrightarrow> sems s' = sems s \<and> locks s' = locks s \<and> km_oracle (km s') = km_oracle (km s)"

lemma inside_switch:
  fixes s :: "'w kstate"
  assumes r: "inside env j s sl zs rq" and th: "threads s (curthread s) = Some th" and spl: "curspl s = 15" and f: "fits env s st th c j"
    and st: "st = S_READY \<or> st = S_SLEEP" and m: "nomem s \<Longrightarrow> B"
  shows "wpP B (mi_switch st c) (\<lambda>b s'. \<not> b \<and> good env s' \<and> sync_same s s') (\<lambda>_ _. False) s"
proof -
  let ?cur = "curthread s"
  have b: "base_inv env j s sl zs rq" and c: "?cur \<noteq> 0" "switching s = 0" using r by (auto simp: inside_def)
  have bound: "length sl + length zs + length rq < 536870911" using base_bound [OF b] by simp
  have mg: "magic_ok th" using b th by (auto simp: base_inv_def ranI)
  have t: "tables s sl zs rq" using b by (simp add: base_inv_def)
  show ?thesis
  proof (rule wpP_mono [OF mi_switch_wp [OF t _ bound _ refl c(1) th mg]])
    fix x and s' :: "'w kstate"
    assume a: "\<not> x \<and> core s' = core (put_away ?cur th c s) \<and> (case stash st ?cur (sl, zs, rq) of (sl', zs', rq') \<Rightarrow> tables s' sl' zs' rq')"
    obtain sl' zs' rq' where q: "stash st ?cur (sl, zs, rq) = (sl', zs', rq')" using prod_cases3 by blast
    have "base_inv env j s' sl' zs' rq'" using base_away [OF b refl c th _ q _ f] a q by auto
    moreover have "cpu_ok s'" "in_interrupt s' = j" using a spl c(1) r by (auto simp: cpu_ok_def core_eq put_away_def inside_def)
    moreover have "numthreads s' = int (length (here s') + length sl' + length rq')"
      using a r q st by (auto simp: inside_def core_eq put_away_def here_def)
    ultimately have "kinv env s' sl' zs' rq'" by (simp add: kinv_def)
    then have "good env s'" unfolding good_def by blast
    then show "\<not> x \<and> good env s' \<and> sync_same s s'"
      using a by (simp add: sync_same_def core_eq put_away_def)
  qed (use spl st m in auto)
qed

text \<open>A change of the running thread's structure, or of one that keeps it inside.\<close>

lemma inside_thread:
  assumes r: "inside env j s sl zs rq" and th: "threads s (curthread s) = Some th" "t_cont th' = Running" "magic_ok th'" "prog_ok s (t_prog th')"
  shows "inside env j (s\<lparr>threads := (threads s)(curthread s \<mapsto> th')\<rparr>) sl zs rq"
proof -
  have b: "base_inv env j s sl zs rq" "tables s sl zs rq" using r by (auto simp: inside_def base_inv_def)
  have "base_inv env j (s\<lparr>threads := (threads s)(curthread s \<mapsto> th')\<rparr>) sl zs rq"
    by (rule base_cur [OF b(1) refl _ th(3,4)]) (use r b in \<open>auto simp: inside_def\<close>)
  then show ?thesis using r th by (auto simp: inside_def)
qed

lemma inside_cong:
  assumes "inside env j s sl zs rq" "tables s' sl zs rq" "curthread s' = curthread s" "switching s' = switching s" "threads s' = threads s"
    and "sems s' = sems s" "locks s' = locks s" "numthreads s' = numthreads s" "in_interrupt s' = k"
  shows "inside env k s' sl zs rq"
proof -
  have b: "base_inv env j s sl zs rq" "switching s = 0" using assms(1) by (auto simp: inside_def)
  have "base_inv env k s' sl zs rq" by (rule base_cong [OF base_any [OF b]]) (use assms in auto)
  then show ?thesis using assms by (auto simp: inside_def)
qed

lemma inside_tables: "inside env j s sl zs rq \<Longrightarrow> tables s sl zs rq"
  by (simp add: inside_def base_inv_def)

lemma inside_th:
  "inside env j s sl zs rq \<Longrightarrow> \<exists>th. threads s (curthread s) = Some th \<and> t_cont th = Running \<and> magic_ok th \<and> prog_ok s (t_prog th)"
  by (auto simp: inside_def base_inv_def ranI)

lemma thread_sleep_wp:
  fixes s :: "'w kstate"
  assumes r: "inside env False s sl zs rq" and spl: "curspl s = 15" and a: "asleep_ctx env s addr c" and m: "nomem s \<Longrightarrow> B"
  shows "wpP B (thread_sleep addr c) (\<lambda>b s'. \<not> b \<and> good env s' \<and> sync_same s s') (\<lambda>_ _. False) s"
proof -
  obtain th where th: "threads s (curthread s) = Some th" "t_cont th = Running" "magic_ok th" "prog_ok s (t_prog th)" using inside_th [OF r] by blast
  let ?s = "s\<lparr>threads := (threads s)(curthread s \<mapsto> th\<lparr>t_sleepaddr := addr\<rparr>)\<rparr>"
  have i: "inside env False ?s sl zs rq" by (rule inside_thread [OF r th(1)]) (use th in \<open>auto simp: magic_ok_def\<close>)
  have "asleep_ctx env ?s addr c = asleep_ctx env s addr c" by (cases c) auto
  then have f: "fits env ?s S_SLEEP (th\<lparr>t_sleepaddr := addr\<rparr>) c False" using a by (auto simp: fits_def asleep_def)
  have "wpP B (mi_switch S_SLEEP c) (\<lambda>b s'. \<not> b \<and> good env s' \<and> sync_same ?s s') (\<lambda>_ _. False) ?s"
    by (rule inside_switch [OF i _ _ f]) (use spl m in \<open>auto simp: nomem_def\<close>)
  then show ?thesis using r th by (simp add: thread_sleep_def wpp inside_def sync_same_def)
qed

lemma thread_yield_wp:
  fixes s :: "'w kstate"
  assumes r: "inside env j s sl zs rq" and a: "ready_ctx s (ctx (curspl s))" "intr_ctx (ctx (curspl s)) = j" and m: "nomem s \<Longrightarrow> B"
  shows "wpP B (thread_yield ctx) (\<lambda>b s'. \<not> b \<and> good env s' \<and> sync_same s s') (\<lambda>_ _. False) s"
proof -
  let ?s = "s\<lparr>curspl := 15\<rparr>" and ?c = "ctx (curspl s)"
  have i: "inside env j ?s sl zs rq" by (rule inside_cong [OF r]) (use r in \<open>auto simp: inside_def base_inv_def\<close>)
  obtain th where th: "threads ?s (curthread ?s) = Some th" using inside_th [OF i] by blast
  have "ready_ctx ?s ?c = ready_ctx s ?c" by (cases ?c) auto
  then have f: "fits env ?s S_READY th ?c j" using a by (simp add: fits_def)
  have "wpP B (mi_switch S_READY ?c) (\<lambda>b s'. \<not> b \<and> good env s' \<and> sync_same ?s s') (\<lambda>_ _. False) ?s"
    by (rule inside_switch [OF i th _ f]) (use m in \<open>auto simp: nomem_def\<close>)
  moreover have "sleepers s \<noteq> None" using inside_tables [OF r] by (auto simp: tables_def)
  ultimately show ?thesis unfolding thread_yield_def wpp
    by simp (erule wpP_mono, auto simp: sync_same_def wpp)
qed

end
