(* ===== verification/Kmachine.thy ===== *)
theory Kmachine
  imports Ksched
begin

text \<open>
  Every step of the machine keeps the invariant, and does to the semaphores and locks what the call that returned in it promises.
  From this: mutual exclusion, the counting of semaphores, no lost wake-up, and that nothing panics while memory lasts.
\<close>

section \<open>Waking up\<close>

lemma filter_lengths: "length (filter (\<lambda>t. \<not> p t) xs) + length (filter p xs) = length xs"
  by (induction xs) auto

lemma sleepers_exist: "base_inv env i s sl zs rq \<Longrightarrow> \<forall>t \<in> set sl. threads s t \<noteq> None"
  by (fastforce simp: base_inv_def)

lemma asleep_other_sem:
  "asleep env s th \<Longrightarrow> t_sleepaddr th \<noteq> x \<Longrightarrow> locks s' = locks s \<Longrightarrow> sems s' = (sems s)(x \<mapsto> m) \<Longrightarrow> asleep env s' th"
  unfolding asleep_def by (elim exE conjE, rule exI, rule conjI, assumption) (case_tac c; auto)

lemma asleep_other_lock:
  "asleep env s th \<Longrightarrow> t_sleepaddr th \<noteq> x \<Longrightarrow> sems s' = sems s \<Longrightarrow> locks s' = (locks s)(x \<mapsto> l) \<Longrightarrow> asleep env s' th"
  unfolding asleep_def by (elim exE conjE, rule exI, rule conjI, assumption) (case_tac c; auto)

lemma sync_cong: "sems s' = sems s \<Longrightarrow> locks s' = locks s \<Longrightarrow> sync_ok env s' = sync_ok env s"
  by (simp add: sync_ok_def)

lemma wake_wp:
  fixes s s1 :: "'w kstate"
  assumes b: "base_inv env i s sl zs rq" and t: "tables s1 sl zs rq"
    and e: "curthread s1 = curthread s" "switching s1 = switching s" "threads s1 = threads s"
    and d: "sync_ok env s1 \<and> dom (sems s1) = dom (sems s) \<and> dom (locks s1) = dom (locks s)"
    and a: "\<And>th. asleep env s th \<Longrightarrow> t_sleepaddr th \<noteq> x \<Longrightarrow> asleep env s1 th" and spl: "0 < curspl s1" and m: "nomem s1 \<Longrightarrow> B"
  shows "wpP B (thread_wakeup x) (\<lambda>_ s'. core s' = core s1 \<and>
      (\<exists>sl' rq'. base_inv env i s' sl' zs rq' \<and> length sl' + length rq' = length sl + length rq)) (\<lambda>_ _. False) s1"
proof -
  have bound: "length rq + length sl < 536870911" using base_bound [OF b] by simp
  have ex: "\<forall>t \<in> set sl. threads s1 t \<noteq> None" using sleepers_exist [OF b] e(3) by simp
  show ?thesis
  proof (rule wpP_mono [OF thread_wakeup_wp [OF t spl bound ex m]])
    fix s' :: "'w kstate"
    assume w: "wakes s1 x [] sl zs rq s'"
    let ?sl = "filter (\<lambda>t. \<not> sleeps_on (threads s) x t) sl" and ?rq = "rq @ filter (sleeps_on (threads s) x) sl"
    have c: "core s' = core s1" "tables s' ?sl zs ?rq" using w e(3) by (auto simp: wakes_def)
    have k: "sync_ok env s'" "dom (sems s') = dom (sems s)" "dom (locks s') = dom (locks s)"
      using d c(1) sync_cong [of s' s1] by (simp_all add: core_eq)
    have "base_inv env i s' ?sl zs ?rq"
      by (rule base_wake [OF b c(2) _ _ _ k(2,3,1)]) (use c(1) e a asleep_cong [of s' s1] in \<open>auto simp: core_eq\<close>)
    moreover have "length ?sl + length ?rq = length sl + length rq" using filter_lengths [of "sleeps_on (threads s) x" sl] by simp
    ultimately show "core s' = core s1 \<and> (\<exists>sl' rq'. base_inv env i s' sl' zs rq' \<and> length sl' + length rq' = length sl + length rq)"
      using c(1) by blast
  qed auto
qed

lemma V_wp:
  fixes s :: "'w kstate"
  assumes b: "base_inv env i s sl zs rq" and x: "sems s x = Some n" and n: "n < 2147483647 \<or> B" and m: "nomem s \<Longrightarrow> B"
  shows "wpP B (V x) (\<lambda>_ s'. core s' = core (s\<lparr>sems := (sems s)(x \<mapsto> n + 1)\<rparr>) \<and>
      (\<exists>sl' rq'. base_inv env i s' sl' zs rq' \<and> length sl' + length rq' = length sl + length rq)) (\<lambda>_ _. False) s"
proof -
  have k: "sync_ok env s" "tables s sl zs rq" using b by (auto simp: base_inv_def)
  then have xn: "x \<noteq> 0" "0 \<le> n" "n \<le> 2147483647" using x by (auto simp: sync_ok_def domIff ranI)
  show ?thesis
  proof (cases "n < 2147483647")
    case False
    then have "n = 2147483647" using xn by simp
    then have "\<not> s32 (n + 1) > 0" by (simp add: s32_def)
    then show ?thesis using x xn n False by (simp add: V_def wpp)
  next
    case True
    then have sn: "s32 (n + 1) = n + 1" "s32 (n + 1) > 0" using xn by simp_all
    let ?s1 = "(s\<lparr>curspl := 15\<rparr>)\<lparr>sems := (sems s)(x \<mapsto> n + 1)\<rparr>"
    have d: "sync_ok env ?s1 \<and> dom (sems ?s1) = dom (sems s) \<and> dom (locks ?s1) = dom (locks s)"
      by (rule sync_sem [OF k(1) x, of "n + 1"]) (use True xn in auto)
    have a: "asleep env ?s1 th" if "asleep env s th" "t_sleepaddr th \<noteq> x" for th
      using that by (rule asleep_other_sem [where m = "n + 1"]) auto
    have "wpP B (thread_wakeup x) (\<lambda>_ s'. core s' = core ?s1 \<and>
        (\<exists>sl' rq'. base_inv env i s' sl' zs rq' \<and> length sl' + length rq' = length sl + length rq)) (\<lambda>_ _. False) ?s1"
      by (rule wake_wp [OF b _ _ _ _ d a]) (use k m in \<open>auto simp: nomem_def\<close>)
    then have "wpP B (thread_wakeup x) (\<lambda>_ s'. core (s'\<lparr>curspl := curspl s\<rparr>) = core (s\<lparr>sems := (sems s)(x \<mapsto> n + 1)\<rparr>) \<and>
        (\<exists>sl' rq'. base_inv env i (s'\<lparr>curspl := curspl s\<rparr>) sl' zs rq' \<and> length sl' + length rq' = length sl + length rq)) (\<lambda>_ _. False) ?s1"
    proof (rule wpP_mono)
      fix s' :: "'w kstate"
      assume q: "core s' = core ?s1 \<and> (\<exists>sl' rq'. base_inv env i s' sl' zs rq' \<and> length sl' + length rq' = length sl + length rq)"
      then obtain sl' rq' where z: "base_inv env i s' sl' zs rq'" "length sl' + length rq' = length sl + length rq" by blast
      have "base_inv env i (s'\<lparr>curspl := curspl s\<rparr>) sl' zs rq'" by (rule base_cong [OF z(1)]) (use z in \<open>auto simp: base_inv_def\<close>)
      then show "core (s'\<lparr>curspl := curspl s\<rparr>) = core (s\<lparr>sems := (sems s)(x \<mapsto> n + 1)\<rparr>) \<and>
        (\<exists>sl' rq'. base_inv env i (s'\<lparr>curspl := curspl s\<rparr>) sl' zs rq' \<and> length sl' + length rq' = length sl + length rq)"
        using q z by (auto simp: core_eq)
    qed auto
    then show ?thesis using x xn sn by (simp add: V_def wpp)
  qed
qed

section \<open>Calls of the running thread\<close>

lemma inside_good: "inside env False s sl zs rq \<Longrightarrow> curspl s = 0 \<Longrightarrow> good env s"
  using inside_kinv unfolding good_def by blast

lemma inside_spl:
  assumes "inside env j s sl zs rq"
  shows "inside env j (s\<lparr>curspl := p\<rparr>) sl zs rq"
  by (rule inside_cong [OF assms]) (use assms inside_tables [OF assms] in \<open>auto simp: inside_def\<close>)

lemma inside_wake:
  assumes "inside env j s sl zs rq" "core s' = core (s\<lparr>sems := S, locks := L, curspl := p\<rparr>)" "base_inv env j s' sl' zs rq'"
    and "length sl' + length rq' = length sl + length rq"
  shows "inside env j s' sl' zs rq'"
  using assms by (auto simp: inside_def core_eq)

lemma inside_free_sem:
  assumes r: "inside env j s sl zs rq" and x: "sems s x = Some n" "n \<noteq> 0" "0 \<le> m" "m \<le> 2147483647"
  shows "inside env j (s\<lparr>sems := (sems s)(x \<mapsto> m)\<rparr>) sl zs rq"
proof -
  let ?s = "s\<lparr>sems := (sems s)(x \<mapsto> m)\<rparr>"
  have b: "base_inv env j s sl zs rq" "tables s sl zs rq" "sync_ok env s" using r by (auto simp: inside_def base_inv_def)
  have k: "sync_ok env ?s \<and> dom (sems ?s) = dom (sems s) \<and> dom (locks ?s) = dom (locks s)" by (rule sync_sem [OF b(3) x(1,3,4)]) auto
  have "base_inv env j ?s sl zs rq"
    by (rule base_sync [OF b(1)]) (use b k asleep_sem [OF _ x(1,2)] in auto)
  then show ?thesis using r by (auto simp: inside_def)
qed

lemma inside_free_lock:
  assumes r: "inside env j s sl zs rq" and x: "locks s x = Some l" "lk_available l \<noteq> 0" "lock_ok l'"
  shows "inside env j (s\<lparr>locks := (locks s)(x \<mapsto> l')\<rparr>) sl zs rq"
proof -
  let ?s = "s\<lparr>locks := (locks s)(x \<mapsto> l')\<rparr>"
  have b: "base_inv env j s sl zs rq" "tables s sl zs rq" "sync_ok env s" using r by (auto simp: inside_def base_inv_def)
  have k: "sync_ok env ?s \<and> dom (sems ?s) = dom (sems s) \<and> dom (locks ?s) = dom (locks s)" by (rule sync_lock [OF b(3) x(1,3)]) auto
  have "base_inv env j ?s sl zs rq"
    by (rule base_sync [OF b(1)]) (use b k asleep_lock [OF _ x(1,2)] in auto)
  then show ?thesis using r by (auto simp: inside_def)
qed

lemma P_loop_wp:
  fixes s :: "'w kstate"
  assumes r: "inside env False s sl zs rq" and spl: "curspl s = 15" and x: "sems s x = Some n" and m: "nomem s \<Longrightarrow> B"
  shows "wpP B (P_loop x 0) (\<lambda>b s'. good env s' \<and> locks s' = locks s \<and> km_oracle (km s') = km_oracle (km s) \<and>
      (if b then 0 < n \<and> sems s' = (sems s)(x \<mapsto> n - 1) else sems s' = sems s)) (\<lambda>_ _. False) s"
proof -
  have n: "0 \<le> n" "n \<le> 2147483647" using r x by (auto simp: inside_def base_inv_def sync_ok_def ranI)
  show ?thesis
  proof (cases "n = 0")
    case True
    have "wpP B (thread_sleep x (CtxP x 0)) (\<lambda>b s'. \<not> b \<and> good env s' \<and> sync_same s s') (\<lambda>_ _. False) s"
      by (rule thread_sleep_wp [OF r spl _ m]) (use x True in auto)
    then show ?thesis unfolding P_loop_def wpp x option.case if_P [OF True]
      by (simp add: True) (erule wpP_mono, auto simp: sync_same_def)
  next
    case False
    let ?s = "s\<lparr>sems := (sems s)(x \<mapsto> n - 1)\<rparr>\<lparr>curspl := 0\<rparr>"
    have "inside env False ?s sl zs rq" by (rule inside_spl [OF inside_free_sem [OF r x False]]) (use n False in auto)
    then have "good env ?s" by (rule inside_good) simp
    then show ?thesis using x n False by (simp add: P_loop_def wpp)
  qed
qed

lemma lock_acquire_loop_wp:
  fixes s :: "'w kstate"
  assumes r: "inside env False s sl zs rq" and spl: "curspl s = 15" and x: "locks s x = Some l" and m: "nomem s \<Longrightarrow> B"
  shows "wpP B (lock_acquire_loop x 0) (\<lambda>b s'. good env s' \<and> sems s' = sems s \<and> km_oracle (km s') = km_oracle (km s) \<and>
      (if b then lk_available l = 1 \<and> locks s' = (locks s)(x \<mapsto> \<lparr>lk_available = 0, lk_holder = curthread s\<rparr>) else locks s' = locks s)) (\<lambda>_ _. False) s"
proof -
  have l: "lock_ok l" using r x by (auto simp: inside_def base_inv_def sync_ok_def ranI)
  show ?thesis
  proof (cases "lk_available l = 0")
    case True
    have "wpP B (thread_sleep x (CtxAcquire x 0)) (\<lambda>b s'. \<not> b \<and> good env s' \<and> sync_same s s') (\<lambda>_ _. False) s"
      by (rule thread_sleep_wp [OF r spl _ m]) (use x True in auto)
    then show ?thesis unfolding lock_acquire_loop_def wpp x option.case
      by (simp add: True) (erule wpP_mono, auto simp: sync_same_def)
  next
    case False
    let ?s = "s\<lparr>locks := (locks s)(x \<mapsto> \<lparr>lk_available = 0, lk_holder = curthread s\<rparr>)\<rparr>\<lparr>curspl := 0\<rparr>"
    have "curthread s \<noteq> 0" using r by (simp add: inside_def)
    then have "inside env False ?s sl zs rq" by (intro inside_spl inside_free_lock [OF r x False]) (simp add: lock_ok_def)
    then have "good env ?s" by (rule inside_good) simp
    then show ?thesis using x l False by (simp add: lock_acquire_loop_def wpp lock_ok_def)
  qed
qed

lemma clocksleep_loop_wp:
  fixes s :: "'w kstate"
  assumes r: "inside env False s sl zs rq" and spl: "curspl s = 15" and m: "nomem s \<Longrightarrow> B"
  shows "wpP B (clocksleep_loop env n 0) (\<lambda>b s'. good env s' \<and> sync_same s s') (\<lambda>_ _. False) s"
proof (cases "n > 0")
  case True
  have "wpP B (thread_sleep (lbolt env) (CtxClocksleep n 0)) (\<lambda>b s'. \<not> b \<and> good env s' \<and> sync_same s s') (\<lambda>_ _. False) s"
    by (rule thread_sleep_wp [OF r spl _ m]) simp
  then show ?thesis using True by (auto simp: clocksleep_loop_def elim: wpP_mono)
next
  case False
  then show ?thesis using inside_good [OF inside_spl [OF r, of 0]] by (simp add: clocksleep_loop_def wpp sync_same_def)
qed

lemma lock_try_wp:
  fixes s :: "'w kstate"
  assumes r: "inside env False s sl zs rq" and spl: "curspl s = 0" and x: "locks s x = Some l" "x \<noteq> 0"
  shows "wpP B (lock_try_acquire_alert x) (\<lambda>b s'. good env s' \<and> sems s' = sems s \<and> km_oracle (km s') = km_oracle (km s) \<and>
      (if b = 1 then lk_available l = 1 \<and> locks s' = (locks s)(x \<mapsto> \<lparr>lk_available = 0, lk_holder = curthread s\<rparr>) else locks s' = locks s)) (\<lambda>_ _. False) s"
proof -
  have l: "lock_ok l" using r x by (auto simp: inside_def base_inv_def sync_ok_def ranI)
  let ?s = "s\<lparr>curspl := 15\<rparr>\<lparr>locks := (locks s)(x \<mapsto> \<lparr>lk_available = 0, lk_holder = curthread s\<rparr>)\<rparr>\<lparr>curspl := 0\<rparr>"
  have "good env ?s" if "lk_available l \<noteq> 0"
  proof -
    have "curthread s \<noteq> 0" using r by (simp add: inside_def)
    then have "inside env False (s\<lparr>locks := (locks s)(x \<mapsto> \<lparr>lk_available = 0, lk_holder = curthread s\<rparr>)\<rparr>) sl zs rq"
      by (intro inside_free_lock [OF r x(1) that]) (simp add: lock_ok_def)
    then have "inside env False ?s sl zs rq" using inside_spl [of env False _ sl zs rq 0] by simp
    then show ?thesis by (rule inside_good) simp
  qed
  moreover have "good env s" "good env (s\<lparr>curspl := 0\<rparr>)" using inside_good [OF r spl] inside_good [OF inside_spl [OF r, of 0]] by simp_all
  ultimately show ?thesis using x l spl by (auto simp: lock_try_acquire_alert_def lock_do_i_hold_def wpp lock_ok_def)
qed

lemma lock_release_wp:
  fixes s :: "'w kstate"
  assumes r: "inside env False s sl zs rq" and spl: "curspl s = 0" and x: "locks s x = Some l" "x \<noteq> 0" and m: "nomem s \<Longrightarrow> B"
  shows "wpP B (lock_release x) (\<lambda>_ s'. good env s' \<and> sems s' = sems s \<and> km_oracle (km s') = km_oracle (km s) \<and>
      locks s' = (if lk_holder l = curthread s then (locks s)(x \<mapsto> \<lparr>lk_available = 1, lk_holder = 0\<rparr>) else locks s)) (\<lambda>_ _. False) s"
proof (cases "lk_holder l = curthread s")
  case False
  then show ?thesis using x inside_good [OF inside_spl [OF r, of 0]] spl by (simp add: lock_release_def lock_do_i_hold_def wpp)
next
  case True
  let ?s1 = "s\<lparr>curspl := 15\<rparr>\<lparr>locks := (locks s)(x \<mapsto> \<lparr>lk_available = 1, lk_holder = 0\<rparr>)\<rparr>"
  have b: "base_inv env False s sl zs rq" "tables s sl zs rq" "sync_ok env s" using r by (auto simp: inside_def base_inv_def)
  have k: "sync_ok env ?s1 \<and> dom (sems ?s1) = dom (sems s) \<and> dom (locks ?s1) = dom (locks s)"
    by (rule sync_lock [OF b(3) x(1), of "\<lparr>lk_available = 1, lk_holder = 0\<rparr>"]) (auto simp: lock_ok_def)
  have a: "asleep env ?s1 th" if "asleep env s th" "t_sleepaddr th \<noteq> x" for th
    using that by (rule asleep_other_lock [where l = "\<lparr>lk_available = 1, lk_holder = 0\<rparr>"]) auto
  have "wpP B (thread_wakeup x) (\<lambda>_ s'. core s' = core ?s1 \<and>
        (\<exists>sl' rq'. base_inv env False s' sl' zs rq' \<and> length sl' + length rq' = length sl + length rq)) (\<lambda>_ _. False) ?s1"
    by (rule wake_wp [OF b(1) _ _ _ _ k a]) (use b m in \<open>auto simp: nomem_def\<close>)
  then have "wpP B (thread_wakeup x) (\<lambda>_ s'. good env (s'\<lparr>curspl := 0\<rparr>) \<and> sems s' = sems s \<and> km_oracle (km s') = km_oracle (km s) \<and>
      locks s' = (locks s)(x \<mapsto> \<lparr>lk_available = 1, lk_holder = 0\<rparr>)) (\<lambda>_ _. False) ?s1"
  proof (rule wpP_mono)
    fix s' :: "'w kstate"
    assume q: "core s' = core ?s1 \<and> (\<exists>sl' rq'. base_inv env False s' sl' zs rq' \<and> length sl' + length rq' = length sl + length rq)"
    then obtain sl' rq' where z: "base_inv env False s' sl' zs rq'" "length sl' + length rq' = length sl + length rq" by blast
    have "inside env False s' sl' zs rq'"
      by (rule inside_wake [OF r _ z, where S = "sems s" and L = "locks ?s1" and p = 15]) (use q in \<open>simp add: core_eq\<close>)
    from inside_good [OF inside_spl [OF this, of 0]] have "good env (s'\<lparr>curspl := 0\<rparr>)" by simp
    then show "good env (s'\<lparr>curspl := 0\<rparr>) \<and> sems s' = sems s \<and> km_oracle (km s') = km_oracle (km s) \<and>
        locks s' = (locks s)(x \<mapsto> \<lparr>lk_available = 1, lk_holder = 0\<rparr>)" using q by (simp add: core_eq)
  qed auto
  then show ?thesis using True x spl by (simp add: lock_release_def lock_do_i_hold_def wpp)
qed

section \<open>New threads\<close>

lemma sleepers_pre_wp:
  assumes t: "tables s sl zs rq" and n: "n < 536870912"
  shows "wpP B (on_sleepers (\<lambda>km. array_preallocate km n)) (\<lambda>_ s'. core s' = core s \<and> tables s' sl zs rq) (\<lambda>_ s'. core s' = core s \<and> tables s' sl zs rq) s"
proof -
  obtain a b q where t: "sleepers s = Some a" "array_rep a sl" "zombies s = Some b" "array_rep b zs" "runqueue s = Some q" "q_rep q rq"
    using t by (rule tablesE)
  show ?thesis
    by (rule on_sleepers_wpP [OF t(1)], rule wp_mono [OF array_preallocate_spec [OF t(2) n]]) (use t in \<open>auto simp: tables_def\<close>)
qed

lemma zombies_pre_wp:
  assumes t: "tables s sl zs rq" and n: "n < 536870912"
  shows "wpP B (on_zombies (\<lambda>km. array_preallocate km n)) (\<lambda>_ s'. core s' = core s \<and> tables s' sl zs rq) (\<lambda>_ s'. core s' = core s \<and> tables s' sl zs rq) s"
proof -
  obtain a b q where t: "sleepers s = Some a" "array_rep a sl" "zombies s = Some b" "array_rep b zs" "runqueue s = Some q" "q_rep q rq"
    using t by (rule tablesE)
  show ?thesis
    by (rule on_zombies_wpP [OF t(3)], rule wp_mono [OF array_preallocate_spec [OF t(4) n]]) (use t in \<open>auto simp: tables_def\<close>)
qed

lemma runqueue_pre_wp:
  assumes t: "tables s sl zs rq" and n: "n < 536870912" and spl: "0 < curspl s"
  shows "wpP B (scheduler_preallocate n) (\<lambda>_ s'. core s' = core s \<and> tables s' sl zs rq) (\<lambda>_ s'. core s' = core s \<and> tables s' sl zs rq) s"
proof -
  obtain a b q where t: "sleepers s = Some a" "array_rep a sl" "zombies s = Some b" "array_rep b zs" "runqueue s = Some q" "q_rep q rq"
    using t by (rule tablesE)
  have "wpP B (on_runqueue (\<lambda>km. q_preallocate 2 km n)) (\<lambda>_ s'. core s' = core s \<and> tables s' sl zs rq) (\<lambda>_ s'. core s' = core s \<and> tables s' sl zs rq) s"
    by (rule on_runqueue_wpP [OF t(5)], unfold numeral_2_eq_2, rule wp_mono [OF q_preallocate_spec [OF t(6)]]) (use t n in \<open>auto simp: tables_def\<close>)
  then show ?thesis using spl by (simp add: scheduler_preallocate_def wpp)
qed

lemma thread_fork_atomic_wp:
  fixes s :: "'w kstate"
  assumes t: "tables s sl zs rq" and spl: "0 < curspl s" and n: "0 \<le> numthreads s" "numthreads s \<le> 268435456" "length rq < 536870911"
  shows "wpP B (thread_fork_atomic a) (\<lambda>_ s'. core s' = core (s\<lparr>numthreads := numthreads s + 1\<rparr>) \<and> tables s' sl zs (rq @ [a]))
    (\<lambda>_ s'. core s' = core s \<and> tables s' sl zs rq) s"
proof -
  let ?E = "\<lambda>_ s'. core s' = core s \<and> tables s' sl zs rq" and ?n = "numthreads s + 1"
  have n32: "s32 ?n = ?n" using n by simp
  have 4: "wpP B (make_runnable a) (\<lambda>_ s'. core (s'\<lparr>numthreads := s32 (numthreads s' + 1)\<rparr>) = core (s\<lparr>numthreads := ?n\<rparr>) \<and>
      tables s' sl zs (rq @ [a])) ?E s1" if "core s1 = core s" "tables s1 sl zs rq" for s1 :: "'w kstate"
    by (rule wpP_mono [OF make_runnable_wp [OF that(2)]]) (use that spl n n32 in \<open>auto simp: core_eq\<close>)
  have 3: "wpP B (scheduler_preallocate ?n) (\<lambda>_. wpP B (make_runnable a) (\<lambda>_ s'. core (s'\<lparr>numthreads := s32 (numthreads s' + 1)\<rparr>) = core (s\<lparr>numthreads := ?n\<rparr>) \<and>
      tables s' sl zs (rq @ [a])) ?E) ?E s1" if "core s1 = core s" "tables s1 sl zs rq" for s1 :: "'w kstate"
    by (rule wpP_mono [OF runqueue_pre_wp [OF that(2)]]) (use that spl n 4 in \<open>auto simp: core_eq\<close>)
  have 2: "wpP B (on_zombies (\<lambda>km. array_preallocate km ?n)) (\<lambda>_. wpP B (scheduler_preallocate ?n) (\<lambda>_. wpP B (make_runnable a) (\<lambda>_ s'.
      core (s'\<lparr>numthreads := s32 (numthreads s' + 1)\<rparr>) = core (s\<lparr>numthreads := ?n\<rparr>) \<and> tables s' sl zs (rq @ [a])) ?E) ?E) ?E s1"
    if "core s1 = core s" "tables s1 sl zs rq" for s1 :: "'w kstate"
    by (rule wpP_mono [OF zombies_pre_wp [OF that(2)]]) (use that n 3 in auto)
  show ?thesis unfolding thread_fork_atomic_def wpp n32 tables_simps
    by (rule wpP_mono [OF sleepers_pre_wp [OF t]]) (use n 2 in auto)
qed

lemma base_fork:
  assumes b: "base_inv env i s sl zs rq" and a: "threads s a = None" "heap_addr a" "switching s \<noteq> a" "curthread s \<noteq> a"
    and th: "t_cont th = AtStart" "\<not> pcb_ininterrupt th" "magic_ok th" "prog_ok s (t_prog th)"
    and e: "threads s' = (threads s)(a \<mapsto> th)" "curthread s' = curthread s" "switching s' = switching s" "sems s' = sems s" "locks s' = locks s"
      "tables s' sl zs (rq @ [a])"
  shows "base_inv env i s' sl zs (rq @ [a])"
proof -
  have h: "here s' = here s" using e by (simp add: here_def)
  have n: "a \<notin> dom (threads s)" using a by auto
  have na: "t \<in> set (sl @ zs @ rq) \<Longrightarrow> t \<noteq> a" for t using b n by (auto simp: base_inv_def)
  have sv: "saved i s' t u = saved i s t u" for t u using e by (simp add: saved_def)
  have "\<forall>t \<in> set sl. \<exists>u. threads s' t = Some u \<and> asleep env s' u \<and> \<not> saved i s' t u"
    using b na e(1,4,5) sv asleep_cong [of s' s] by (fastforce simp: base_inv_def)
  moreover have "\<forall>t \<in> set rq. \<exists>u. threads s' t = Some u \<and> ready_cont s' (t_cont u) \<and> saved i s' t u = cont_intr (t_cont u)"
    using b na e(1,4,5) sv ready_cong [of s' s] by (fastforce simp: base_inv_def)
  moreover have "\<forall>t \<in> set zs. dead (threads s') t" using b na e(1) by (auto simp: base_inv_def dead_def)
  moreover have "threads s' a = Some th" "\<not> saved i s' a th" using e a(3) th(2) by (auto simp: saved_def)
  moreover have "\<forall>u \<in> ran (threads s'). magic_ok u \<and> prog_ok s' (t_prog u)"
    using b th e by (auto simp: base_inv_def prog_ok_def ran_def split: if_splits)
  moreover have "sync_ok env s'" using b e sync_cong [of s' s] by (simp add: base_inv_def)
  moreover have "dom (threads s') = insert a (dom (threads s))" using e by auto
  ultimately show ?thesis unfolding base_inv_def h using b a n th(1) e(6) by (auto simp: base_inv_def)
qed

lemma inside_frame:
  assumes r: "inside env False s sl zs rq" and e: "core s' = core s" "tables s' sl zs rq" and spl: "curspl s = 0"
  shows "good env s' \<and> sync_same s s'"
proof -
  have "inside env False s' sl zs rq" by (rule inside_cong [OF r]) (use e r in \<open>auto simp: core_eq inside_def\<close>)
  then show ?thesis using inside_good e spl by (auto simp: core_eq sync_same_def)
qed

lemma fork_done:
  fixes s s' :: "'w kstate"
  assumes r: "inside env False s sl zs rq" and spl: "curspl s = 0" and a: "threads s a = None" "heap_addr a"
    and th: "t_cont th = AtStart" "\<not> pcb_ininterrupt th" "magic_ok th" "prog_ok s (t_prog th)"
    and e: "core s' = core (s\<lparr>threads := (threads s)(a \<mapsto> th), numthreads := numthreads s + 1\<rparr>)" "tables s' sl zs (rq @ [a])"
  shows "good env s' \<and> sync_same s s'"
proof -
  have b: "base_inv env False s sl zs rq" "curthread s \<noteq> a" "switching s \<noteq> a" using r a by (auto simp: inside_def heap_addr_def)
  have "base_inv env False s' sl zs (rq @ [a])" by (rule base_fork [OF b(1) a b(3,2) th]) (use e in \<open>auto simp: core_eq\<close>)
  then have "inside env False s' sl zs (rq @ [a])" using r e b(2) by (auto simp: inside_def core_eq)
  then show ?thesis using inside_good e spl by (auto simp: core_eq sync_same_def)
qed

lemma fork_tail_wp:
  fixes s s2 :: "'w kstate"
  assumes r: "inside env False s sl zs rq" and spl: "curspl s = 0" and a: "threads s a = None" "heap_addr a"
    and th: "t_cont th = AtStart" "\<not> pcb_ininterrupt th" "magic_ok th" "prog_ok s (t_prog th)"
    and e: "core s2 = core (s\<lparr>threads := (threads s)(a \<mapsto> th)\<rparr>)" "tables s2 sl zs rq"
  shows "wpP B (bindK splhigh (\<lambda>p. bindK (tryK (thread_fork_atomic a)) (\<lambda>result. bindK (splx p) (\<lambda>_.
      case result of Inr _ \<Rightarrow> retK a
      | Inl err \<Rightarrow> bindK (get_thread a) (\<lambda>th.
         bindK (if t_cwd th \<noteq> 0 then modK (\<lambda>s. s\<lparr>world := vop_decref env (t_cwd th) (world s)\<rparr>) else retK ()) (\<lambda>_.
         bindK (free_thread a) (\<lambda>_. failK err))))))) (\<lambda>_ s'. good env s' \<and> sync_same s s') (\<lambda>_ s'. good env s' \<and> sync_same s s') s2"
  unfolding wpP_bind_eq wpP_splhigh wpP_try_eq
proof (rule wpP_mono [OF thread_fork_atomic_wp, of "s2\<lparr>curspl := 15\<rparr>" sl zs rq])
  have bound: "length sl + length zs + length rq \<le> 268435455" using r base_bound [of env False s sl zs rq] by (auto simp: inside_def here_def)
  show "tables (s2\<lparr>curspl := 15\<rparr>) sl zs rq" "0 < curspl (s2\<lparr>curspl := 15\<rparr>)" "length rq < 536870911" using e bound by auto
  show "0 \<le> numthreads (s2\<lparr>curspl := 15\<rparr>)" "numthreads (s2\<lparr>curspl := 15\<rparr>) \<le> 268435456" using e r bound by (auto simp: core_eq inside_def)
  have spl2: "curspl s2 = 0" using e spl by (simp add: core_eq)
  fix x and s3 :: "'w kstate"
  assume q: "core s3 = core (s2\<lparr>curspl := 15, numthreads := numthreads (s2\<lparr>curspl := 15\<rparr>) + 1\<rparr>) \<and> tables s3 sl zs (rq @ [a])"
  have "good env (s3\<lparr>curspl := 0\<rparr>) \<and> sync_same s (s3\<lparr>curspl := 0\<rparr>)"
    by (rule fork_done [OF r spl a th]) (use q e spl in \<open>auto simp: core_eq\<close>)
  then show "wpP B (splx (curspl s2)) (\<lambda>_. wpP B (case (Inr x :: errno + unit) of Inr _ \<Rightarrow> retK a
      | Inl err \<Rightarrow> bindK (get_thread a) (\<lambda>th.
         bindK (if t_cwd th \<noteq> 0 then modK (\<lambda>s. s\<lparr>world := vop_decref env (t_cwd th) (world s)\<rparr>) else retK ()) (\<lambda>_.
         bindK (free_thread a) (\<lambda>_. failK err)))) (\<lambda>_ s'. good env s' \<and> sync_same s s') (\<lambda>_ s'. good env s' \<and> sync_same s s'))
      (\<lambda>_ s'. good env s' \<and> sync_same s s') s3" using spl2 by (simp add: wpp)
next
  have spl2: "curspl s2 = 0" using e spl by (simp add: core_eq)
  fix err and s3 :: "'w kstate"
  assume q: "core s3 = core (s2\<lparr>curspl := 15\<rparr>) \<and> tables s3 sl zs rq"
  have t3: "threads s3 a = Some th" using q e by (simp add: core_eq)
  have "good env s' \<and> sync_same s s'" if "core s' = core (s3\<lparr>curspl := 0, threads := (threads s3)(a := None)\<rparr>)" "tables s' sl zs rq" for s' :: "'w kstate"
    by (rule inside_frame [OF r _ that(2) spl]) (use that q e spl a(1) in \<open>auto simp: core_eq fun_eq_iff\<close>)
  then show "wpP B (splx (curspl s2)) (\<lambda>_. wpP B (case (Inl err :: errno + unit) of Inr _ \<Rightarrow> retK a
      | Inl err \<Rightarrow> bindK (get_thread a) (\<lambda>th.
         bindK (if t_cwd th \<noteq> 0 then modK (\<lambda>s. s\<lparr>world := vop_decref env (t_cwd th) (world s)\<rparr>) else retK ()) (\<lambda>_.
         bindK (free_thread a) (\<lambda>_. failK err)))) (\<lambda>_ s'. good env s' \<and> sync_same s s') (\<lambda>_ s'. good env s' \<and> sync_same s s'))
      (\<lambda>_ s'. good env s' \<and> sync_same s s') s3" using spl2 t3 q by (auto simp: wpp free_thread_def core_eq)
qed

lemma thread_fork_wp:
  fixes s :: "'w kstate"
  assumes r: "inside env False s sl zs rq" and spl: "curspl s = 0" and a: "threads s a = None" "heap_addr a" and f: "prog_ok s func"
  shows "wpP B (thread_fork env a len func) (\<lambda>_ s'. good env s' \<and> sync_same s s') (\<lambda>_ s'. good env s' \<and> sync_same s s') s"
proof -
  have same: "good env s' \<and> sync_same s s'" if "core s' = core s" "tables s' sl zs rq" for s' :: "'w kstate"
    using inside_frame [OF r that spl] .
  have t: "tables s sl zs rq" using r by (simp add: inside_def base_inv_def)
  obtain me where me: "threads s (curthread s) = Some me" using r by (auto simp: inside_def)
  have ne: "curthread s \<noteq> a" using me a(1) by auto
  have none: "(threads s)(a := None) = threads s" using a(1) by auto
  note tail = fork_tail_wp [OF r spl a, of "\<lparr>pcb_ininterrupt = False, t_cont = AtStart, t_prog = func, t_sleepaddr = 0, t_stack = Some stack_magic,
      t_vmspace = 0, t_cwd = _\<rparr>"]
  have mg: "magic_ok \<lparr>pcb_ininterrupt = False, t_cont = AtStart, t_prog = func, t_sleepaddr = 0, t_stack = Some stack_magic, t_vmspace = 0, t_cwd = d\<rparr>" for d
    by (simp add: magic_ok_def stack_magic_def)
  show ?thesis unfolding thread_fork_def thread_create_def on_km_def free_thread_def wpP_bind_eq wpP_zoom_eq wpP_kmalloc_eq wpP_if_eq
      wpP_mod_thread wpP_get_thread wpP_get_eq wpP_mod_eq wpP_ret_eq wpP_fail_eq
    using me ne none t a f mg
    by (auto simp: core_eq intro!: same tail [unfolded wpP_bind_eq free_thread_def])
qed

section \<open>The end of a thread\<close>

lemma exit_switch_wp:
  fixes s s2 :: "'w kstate"
  assumes r: "inside env False s sl zs rq" and th: "magic_ok th" "prog_ok s (t_prog th)" "t_vmspace th = 0" "t_cwd th = 0"
    and e: "core s2 = core (s\<lparr>threads := (threads s)(curthread s \<mapsto> th), curspl := 15, numthreads := numthreads s - 1\<rparr>)" "tables s2 sl zs rq"
    and m: "nomem s \<Longrightarrow> B"
  shows "wpP B (mi_switch S_ZOMB CtxDead) (\<lambda>b s'. \<not> b \<and> good env s' \<and> sync_same s s') (\<lambda>_ _. False) s2"
proof -
  let ?cur = "curthread s"
  have b: "base_inv env False s sl zs rq" "?cur \<noteq> 0" "switching s = 0" using r by (auto simp: inside_def)
  have "base_inv env False (s\<lparr>threads := (threads s)(?cur \<mapsto> th)\<rparr>) sl zs rq"
    by (rule base_cur [OF b(1) refl b(2) th(1,2)]) (use b in \<open>auto simp: base_inv_def\<close>)
  then have b2: "base_inv env False s2 sl zs rq" by (rule base_cong) (use e in \<open>auto simp: core_eq\<close>)
  have bound: "length sl + length zs + length rq < 536870911" using base_bound [OF b(1)] by simp
  have c: "curthread s2 = ?cur" "threads s2 ?cur = Some th" "switching s2 = 0" "0 < curspl s2" using e b by (auto simp: core_eq)
  have nm: "nomem s2 = nomem s" using e(1) by (simp add: core_eq nomem_def)
  show ?thesis
  proof (rule wpP_mono [OF mi_switch_wp [OF e(2) c(4) bound _ c(1) b(2) c(2) th(1)]])
    fix x and s' :: "'w kstate"
    assume a: "\<not> x \<and> core s' = core (put_away ?cur th CtxDead s2) \<and> (case stash S_ZOMB ?cur (sl, zs, rq) of (sl', zs', rq') \<Rightarrow> tables s' sl' zs' rq')"
    have "base_inv env (in_interrupt s') s' sl (zs @ [?cur]) rq"
      by (rule base_away [OF b2 c(1) b(2) c(3,2) _ _ _, of s' CtxDead S_ZOMB]) (use a th in \<open>auto simp: fits_def\<close>)
    moreover have "cpu_ok s'" using a e b by (auto simp: cpu_ok_def core_eq put_away_def)
    moreover have "numthreads s' = int (length (here s') + length sl + length rq)" using a e r by (auto simp: core_eq put_away_def here_def inside_def)
    ultimately have "good env s'" unfolding good_def kinv_def by blast
    then show "\<not> x \<and> good env s' \<and> sync_same s s'" using a e by (auto simp: sync_same_def core_eq put_away_def)
  qed (use nm m in auto)
qed

lemma thread_exit_wp:
  fixes s :: "'w kstate"
  assumes r: "inside env False s sl zs rq" and spl: "curspl s = 0" and m: "nomem s \<Longrightarrow> B"
  shows "wpP B (thread_exit env) (\<lambda>_ s'. good env s' \<and> sync_same s s') (\<lambda>_ _. False) s"
proof -
  obtain th where th: "threads s (curthread s) = Some th" "magic_ok th" "prog_ok s (t_prog th)" using inside_th [OF r] by blast
  let ?th = "th\<lparr>t_vmspace := 0, t_cwd := 0\<rparr>"
  have n: "0 < numthreads s" "tables s sl zs rq" using r by (auto simp: inside_def base_inv_def)
  have sw: "wpP B (mi_switch S_ZOMB CtxDead) (\<lambda>b s'. (b \<longrightarrow> B) \<and> (\<not> b \<longrightarrow> good env s' \<and> sync_same s s')) (\<lambda>_ _. False) s2"
    if "core s2 = core (s\<lparr>threads := (threads s)(curthread s \<mapsto> ?th), curspl := 15, numthreads := numthreads s - 1\<rparr>)" "tables s2 sl zs rq"
    for s2 :: "'w kstate"
    by (rule wpP_mono [OF exit_switch_wp [OF r _ _ _ _ that m]]) (use th in \<open>auto simp: magic_ok_def\<close>)
  have q: "(threads s)(curthread s \<mapsto> th) = threads s" using th by auto
  have u: "t_vmspace th = 0 \<Longrightarrow> th\<lparr>t_vmspace := 0\<rparr> = th" "t_cwd th = 0 \<Longrightarrow> th\<lparr>t_cwd := 0\<rparr> = th"
      "t_cwd th = 0 \<Longrightarrow> ?th = th\<lparr>t_vmspace := 0\<rparr>"
    by (cases th; simp)+
  show ?thesis unfolding thread_exit_def wpP_bind_eq wpP_get_eq wpP_get_thread th option.case
    using th n q
    by (intro stack_check_wp [OF th(1,2)]) (auto simp: wpP_splhigh wpP_if_eq wpP_bind_eq wpP_mod_thread wpP_mod_eq wpP_ret_eq wpP_get_eq wpP_assert_eq
        wpP_panic_eq core_eq u intro!: sw)
qed

section \<open>The scheduler picks a thread\<close>

lemma scheduler_wp:
  assumes t: "tables s sl zs rq" and spl: "0 < curspl s"
    and "\<And>s'. rq = [] \<Longrightarrow> core s' = core s \<Longrightarrow> tables s' sl zs rq \<Longrightarrow> Q None s'"
    and "\<And>t rq' s'. rq = t # rq' \<Longrightarrow> core s' = core s \<Longrightarrow> tables s' sl zs rq' \<Longrightarrow> Q (Some t) s'"
  shows "wpP B scheduler Q E s"
proof -
  obtain a b q where t: "sleepers s = Some a" "array_rep a sl" "zombies s = Some b" "array_rep b zs" "runqueue s = Some q" "q_rep q rq"
    using t by (rule tablesE)
  have "wpK (bindK (getK q_empty) (\<lambda>e. if e then retK None else bindK q_remhead (\<lambda>t. retK (Some t))))
      (\<lambda>r a'. Q r ((km_tick s)\<lparr>runqueue := Some a'\<rparr>)) (\<lambda>e a'. E e ((km_tick s)\<lparr>runqueue := Some a'\<rparr>)) q"
  proof (cases rq)
    case Nil
    then have "q_empty q" using q_empty_iff [OF t(6)] by simp
    then show ?thesis using assms(3) Nil t by (auto simp: wp tables_def)
  next
    case (Cons u rq')
    then have ne: "\<not> q_empty q" using q_empty_iff [OF t(6)] by simp
    have "wpK q_remhead (\<lambda>y q'. Q (Some y) ((km_tick s)\<lparr>runqueue := Some q'\<rparr>)) (\<lambda>e a'. E e ((km_tick s)\<lparr>runqueue := Some a'\<rparr>)) q"
      by (rule wp_mono [OF q_remhead_spec [OF t(6) [unfolded Cons]]]) (use assms(4) [OF Cons] t in \<open>auto simp: tables_def\<close>)
    then show ?thesis using ne by (simp add: wp)
  qed
  then show ?thesis unfolding scheduler_def using spl on_runqueue_wpP [OF t(5)] by (simp add: wpp)
qed

lemma base_pick:
  assumes b: "base_inv env i s sl zs (t # rq)" and c: "curthread s = 0" "switching s = old" "threads s old = Some tho"
    and e: "curthread s' = t" "switching s' = 0" "threads s' = (if old = t then threads s else (threads s)(old \<mapsto> tho\<lparr>pcb_ininterrupt := i\<rparr>))"
      "sems s' = sems s" "locks s' = locks s" "tables s' sl zs rq"
  shows "base_inv env j s' sl zs rq"
proof -
  have h: "here s = []" using c by (simp add: here_def)
  have t: "t \<noteq> 0" "0 \<notin> dom (threads s)" using b h by (auto simp: base_inv_def heap_addr_def)
  have h': "here s' = [t]" using t e by (simp add: here_def)
  have d: "distinct (sl @ zs @ t # rq)" "dom (threads s) = set (sl @ zs @ t # rq)" using b h by (auto simp: base_inv_def)
  have old: "old \<in> dom (threads s)" using c by auto
  have keep: "\<exists>u'. threads s' x = Some u' \<and> t_cont u' = t_cont u \<and> t_sleepaddr u' = t_sleepaddr u \<and> t_vmspace u' = t_vmspace u \<and> t_cwd u' = t_cwd u \<and>
      saved j s' x u' = saved i s x u" if "threads s x = Some u" "x \<noteq> t" for x u
    using that c e t by (auto simp: saved_def)
  have keep': "\<exists>u'. threads s' x = Some u' \<and> asleep env s' u' = asleep env s u \<and> ready_cont s' (t_cont u') = ready_cont s (t_cont u) \<and>
      cont_intr (t_cont u') = cont_intr (t_cont u) \<and> saved j s' x u' = saved i s x u" if x: "threads s x = Some u" "x \<noteq> t" for x u
  proof -
    obtain u' where u': "threads s' x = Some u'" "t_cont u' = t_cont u" "t_sleepaddr u' = t_sleepaddr u" "saved j s' x u' = saved i s x u"
      using keep [OF x] by blast
    have "asleep env s' u' = asleep env s u" using u' asleep_cong [of s' s env u'] e by (simp add: asleep_def)
    then show ?thesis using u' ready_cong [of s' s] e by auto
  qed
  have "\<forall>x \<in> set sl. \<exists>u. threads s' x = Some u \<and> asleep env s' u \<and> \<not> saved j s' x u"
    using b d(1) keep' unfolding base_inv_def by (metis UnCI disjoint_iff distinct_append list.set_intros(1) set_append)
  moreover have "\<forall>x \<in> set rq. \<exists>u. threads s' x = Some u \<and> ready_cont s' (t_cont u) \<and> saved j s' x u = cont_intr (t_cont u)"
    using b d(1) keep' unfolding base_inv_def by (metis distinct.simps(2) distinct_append list.set_intros(2))
  moreover have "\<forall>x \<in> set zs. dead (threads s') x"
  proof
    fix x assume x: "x \<in> set zs"
    then obtain u where "threads s x = Some u" "t_vmspace u = 0" "t_cwd u = 0" using b by (auto simp: base_inv_def dead_def)
    moreover have "x \<noteq> t" using d(1) x by auto
    ultimately show "dead (threads s') x" using keep [of x u] by (auto simp: dead_def)
  qed
  moreover have "\<forall>u \<in> ran (threads s'). magic_ok u \<and> prog_ok s' (t_prog u)"
  proof
    fix u assume "u \<in> ran (threads s')"
    then have "u \<in> ran (threads s) \<or> u = tho\<lparr>pcb_ininterrupt := i\<rparr>" by (auto simp: e(3) ran_def split: if_splits)
    moreover have "magic_ok tho \<and> prog_ok s (t_prog tho)" using b c(3) by (auto simp: base_inv_def ranI)
    ultimately show "magic_ok u \<and> prog_ok s' (t_prog u)" using b e(4,5) by (auto simp: base_inv_def prog_ok_def magic_ok_def)
  qed
  moreover have "sync_ok env s'" using b e sync_cong [of s' s] by (simp add: base_inv_def)
  moreover have "dom (threads s') = dom (threads s)" using e(3) old by auto
  ultimately show ?thesis unfolding base_inv_def h' using b d e(6) by (auto simp: base_inv_def)
qed

lemma pick_wp:
  fixes s :: "'w kstate"
  assumes k: "kinv env s sl zs rq" and c: "curthread s = 0"
  shows "wpP B mi_switch_to (\<lambda>_ s'. good env s' \<and> sync_same s s') (\<lambda>_ _. False) s"
proof -
  have b: "base_inv env (in_interrupt s) s sl zs rq" "tables s sl zs rq" "curspl s = 15" using k c by (auto simp: kinv_def base_inv_def cpu_ok_def)
  obtain tho where old: "threads s (switching s) = Some tho" using k c by (auto simp: kinv_def cpu_ok_def)
  have h: "here s = []" "numthreads s = int (length sl + length rq)" using c k by (simp_all add: here_def kinv_def)
  show ?thesis unfolding mi_switch_to_def wpP_bind_eq
  proof (rule scheduler_wp [OF b(2)])
    show "0 < curspl s" using b by simp
  next
    fix s' :: "'w kstate"
    assume e: "rq = []" "core s' = core s" "tables s' sl zs rq"
    have "base_inv env (in_interrupt s') s' sl zs rq" using base_cong [OF b(1) e(3)] e(2) by (simp add: core_eq)
    then have "kinv env s' sl zs rq" using k e c by (auto simp: kinv_def cpu_ok_def core_eq here_def)
    then have "good env s' \<and> sync_same s s'" using e(2) unfolding good_def by (auto simp: sync_same_def core_eq)
    then show "wpP B (case None of None \<Rightarrow> retK () | Some next \<Rightarrow> bindK (modK (curthread_update (\<lambda>_. next))) (\<lambda>_. bindK (getK switching) (\<lambda>cur.
        bindK (md_switch cur next) (\<lambda>_. modK (switching_update (\<lambda>_. 0)))))) (\<lambda>_ s'. good env s' \<and> sync_same s s') (\<lambda>_ _. False) s'"
      by (simp add: wpp)
  next
    fix t rq' and s1 :: "'w kstate"
    assume e: "rq = t # rq'" "core s1 = core s" "tables s1 sl zs rq'"
    obtain th where th: "threads s t = Some th" "ready_cont s (t_cont th)" "saved (in_interrupt s) s t th = cont_intr (t_cont th)"
      using b(1) e(1) by (auto simp: base_inv_def)
    have t0: "t \<noteq> 0" using b(1) th by (auto simp: base_inv_def heap_addr_def)
    have fin: "good env s' \<and> sync_same s s'" if
      "core s' = core (s\<lparr>curthread := t, switching := 0, threads := (if switching s = t then threads s else (threads s)(switching s \<mapsto> tho\<lparr>pcb_ininterrupt := in_interrupt s\<rparr>)),
         in_interrupt := cont_intr (t_cont th)\<rparr>)" "tables s' sl zs rq'" for s' :: "'w kstate"
    proof -
      have "base_inv env (in_interrupt s') s' sl zs rq'"
        by (rule base_pick [OF b(1) [unfolded e(1)] c refl old]) (use that in \<open>auto simp: core_eq\<close>)
      moreover have "threads s' t = Some th" using that th by (simp add: core_eq)
      then have "cpu_ok s'" using that t0 b(3) th ready_cong [of s' s] by (auto simp: cpu_ok_def core_eq)
      ultimately have "kinv env s' sl zs rq'" using that t0 h e(1) by (simp add: kinv_def core_eq here_def)
      then show ?thesis using that unfolding good_def by (auto simp: sync_same_def core_eq)
    qed
    show "wpP B (case Some t of None \<Rightarrow> retK () | Some next \<Rightarrow> bindK (modK (curthread_update (\<lambda>_. next))) (\<lambda>_. bindK (getK switching) (\<lambda>cur.
        bindK (md_switch cur next) (\<lambda>_. modK (switching_update (\<lambda>_. 0)))))) (\<lambda>_ s'. good env s' \<and> sync_same s s') (\<lambda>_ _. False) s1"
      using e old th by (auto simp: wpp md_switch_def core_eq saved_def intro!: fin)
  qed
qed

end
