(* ===== verification/Krun.thy ===== *)
theory Krun
  imports Kmachine
begin

text \<open>
  Runs of the thread system. Every step keeps the invariant and does to the semaphores and locks what the call that returned in it
  says; over a whole run this gives mutual exclusion, the counting of semaphores, no lost wake-up, and that nothing panics while
  memory lasts.
\<close>

section \<open>Going on after a switch\<close>

lemma base_exorcise:
  assumes b: "base_inv env i s sl zs rq" and w: "switching s = 0"
    and e: "core s' = core (s\<lparr>threads := threads s |` (- set zs)\<rparr>)" "tables s' sl [] rq"
  shows "base_inv env i s' sl [] rq"
proof -
  have f: "curthread s' = curthread s" "switching s' = switching s" "threads s' = threads s |` (- set zs)" "sems s' = sems s" "locks s' = locks s"
    using e(1) by (simp_all add: core_eq)
  have h: "here s' = here s" using f by (simp add: here_def)
  have d: "distinct (here s @ sl @ zs @ rq)" "dom (threads s) = set (here s @ sl @ zs @ rq)" using b by (simp_all add: base_inv_def)
  have thr: "t \<in> set sl \<union> set rq \<Longrightarrow> threads s' t = threads s t" for t using d(1) f(3) by (auto simp: restrict_map_def)
  have sv: "saved i s' = saved i s" using f by (intro ext) (simp add: saved_def)
  have "\<forall>t \<in> set sl. \<exists>u. threads s' t = Some u \<and> asleep env s' u \<and> \<not> saved i s' t u"
    using b thr sv asleep_cong [of s' s] f unfolding base_inv_def by (metis UnCI)
  moreover have "\<forall>t \<in> set rq. \<exists>u. threads s' t = Some u \<and> ready_cont s' (t_cont u) \<and> saved i s' t u = cont_intr (t_cont u)"
    using b thr sv ready_cong [of s' s] f unfolding base_inv_def by (metis UnCI)
  moreover have "\<forall>u \<in> ran (threads s'). magic_ok u \<and> prog_ok s' (t_prog u)"
    using b f by (auto simp: base_inv_def prog_ok_def ran_def restrict_map_def split: if_splits)
  moreover have "sync_ok env s'" using b f sync_cong [of s' s] by (simp add: base_inv_def)
  moreover have "dom (threads s') = set (here s @ sl @ rq)" using d f(3) by auto
  ultimately show ?thesis unfolding base_inv_def h using b e(2) d by (auto simp: base_inv_def)
qed

text \<open>The thread switched to, about to go on, has cleaned up and is on its way back to its caller.\<close>

definition came_back :: "'w kenv \<Rightarrow> 'w kstate \<Rightarrow> bool \<Rightarrow> nat list \<Rightarrow> nat list \<Rightarrow> 'w kstate \<Rightarrow> bool" where
  "came_back env s j sl rq s' \<longleftrightarrow> inside env j s' sl [] rq \<and> curthread s' = curthread s \<and> curspl s' = 15 \<and> sync_same s s'"

lemma switch_back_wp:
  fixes s :: "'w kstate"
  assumes k: "kinv env s sl zs rq" and c: "stopped s" and th: "threads s (curthread s) = Some th"
  shows "wpP B (bindK (mi_switch_back env) (\<lambda>_. mod_thread (curthread s) (\<lambda>th. th\<lparr>t_cont := Running\<rparr>)))
    (\<lambda>_. came_back env s (cont_intr (t_cont th)) sl rq) (\<lambda>_ _. False) s"
proof -
  let ?j = "cont_intr (t_cont th)" and ?cur = "curthread s"
  have b: "base_inv env (in_interrupt s) s sl zs rq" "tables s sl zs rq" using k by (auto simp: kinv_def base_inv_def)
  have s: "?cur \<noteq> 0" "switching s = 0" "curspl s = 15" "in_interrupt s = ?j" "ready_cont s (t_cont th)" "numthreads s = int (Suc (length sl + length rq))"
    using k c th by (auto simp: stopped_def kinv_def cpu_ok_def here_def)
  have d: "distinct zs" "?cur \<notin> set zs" "\<forall>z \<in> set zs. dead (threads s) z" using b s by (auto simp: base_inv_def here_def)
  have ok: "magic_ok th" "prog_ok s (t_prog th)" using b(1) th by (auto simp: base_inv_def ranI)
  have fin: "came_back env s ?j sl rq s'"
    if e: "core s' = core (s\<lparr>threads := (threads s |` (- set zs))(?cur \<mapsto> th\<lparr>t_cont := Running\<rparr>)\<rparr>)" "tables s' sl [] rq" for s' :: "'w kstate"
  proof -
    let ?s1 = "s'\<lparr>threads := threads s |` (- set zs)\<rparr>"
    have "base_inv env ?j ?s1 sl [] rq"
      by (rule base_exorcise [OF base_any [OF b(1) s(2)] s(2)]) (use e in \<open>auto simp: core_eq\<close>)
    then have "base_inv env ?j s' sl [] rq"
      by (rule base_cur [of _ _ _ _ _ _ ?cur "th\<lparr>t_cont := Running\<rparr>"]) (use e s ok in \<open>auto simp: core_eq magic_ok_def prog_ok_def\<close>)
    then show ?thesis using e s by (auto simp: came_back_def inside_def sync_same_def core_eq)
  qed
  show ?thesis unfolding wpP_bind_eq mi_switch_back_def
  proof (rule wpP_mono [OF exorcise_wp [OF b(2) _ d]])
    fix s1 :: "'w kstate"
    assume e: "core s1 = core (s\<lparr>threads := threads s |` (- set zs)\<rparr>) \<and> tables s1 sl [] rq"
    have "threads s1 ?cur = Some th" "curthread s1 = ?cur" using e th d(2) by (auto simp: core_eq)
    then show "wpP B (activate env) (\<lambda>_. wpP B (mod_thread ?cur (\<lambda>th. th\<lparr>t_cont := Running\<rparr>)) (\<lambda>_. came_back env s ?j sl rq) (\<lambda>_ _. False)) (\<lambda>_ _. False) s1"
      using e by (auto simp: activate_def wpp core_eq intro!: fin)
  qed (use s in auto)
qed

section \<open>What a returned call has done\<close>

fun sem_eff :: "event option \<Rightarrow> (nat \<rightharpoonup> int) \<Rightarrow> (nat \<rightharpoonup> int)" where
  "sem_eff (Some (t, OpP x, r)) S = S(x := map_option (\<lambda>n. n - 1) (S x))"
| "sem_eff (Some (t, OpV x, r)) S = S(x := map_option (\<lambda>n. n + 1) (S x))"
| "sem_eff _ S = S"

fun lock_eff :: "event option \<Rightarrow> (nat \<rightharpoonup> lock) \<Rightarrow> (nat \<rightharpoonup> lock)" where
  "lock_eff (Some (t, OpAcquire x, r)) L = L(x \<mapsto> \<lparr>lk_available = 0, lk_holder = t\<rparr>)"
| "lock_eff (Some (t, OpTry x, r)) L = (if r = 1 then L(x \<mapsto> \<lparr>lk_available = 0, lk_holder = t\<rparr>) else L)"
| "lock_eff (Some (t, OpRelease x, r)) L =
     (if map_option lk_holder (L x) = Some t then L(x \<mapsto> \<lparr>lk_available = 1, lk_holder = 0\<rparr>) else L)"
| "lock_eff _ L = L"

text \<open>When a call may return.\<close>

fun ev_ok :: "event option \<Rightarrow> 'w kstate \<Rightarrow> bool" where
  "ev_ok (Some (t, OpP x, r)) s \<longleftrightarrow> (\<exists>n > 0. sems s x = Some n)"
| "ev_ok (Some (t, OpV x, r)) s \<longleftrightarrow> sems s x \<noteq> None"
| "ev_ok (Some (t, OpAcquire x, r)) s \<longleftrightarrow> map_option lk_available (locks s x) = Some 1 \<and> t \<noteq> 0"
| "ev_ok (Some (t, OpTry x, r)) s \<longleftrightarrow> r = 1 \<longrightarrow> map_option lk_available (locks s x) = Some 1 \<and> t \<noteq> 0"
| "ev_ok _ s \<longleftrightarrow> True"

definition step_post :: "'w kenv \<Rightarrow> 'w kstate \<Rightarrow> event option \<Rightarrow> 'w kstate \<Rightarrow> bool" where
  "step_post env s ev s' \<longleftrightarrow> good env s' \<and> sems s' = sem_eff ev (sems s) \<and> locks s' = lock_eff ev (locks s) \<and> ev_ok ev s \<and>
     km_oracle (km s') = km_oracle (km s)"

lemma quiet_post: "good env s' \<Longrightarrow> sync_same s s' \<Longrightarrow> step_post env s None s'"
  by (simp add: step_post_def sync_same_def)

lemma quiet_yield: "good env s' \<Longrightarrow> sync_same s s' \<Longrightarrow> step_post env s (Some (t, OpYield, r)) s'"
  by (simp add: step_post_def sync_same_def)

lemma quiet_clock: "good env s' \<Longrightarrow> sync_same s s' \<Longrightarrow> step_post env s (Some (t, OpClocksleep n, r)) s'"
  by (simp add: step_post_def sync_same_def)

lemma quiet_fork: "good env s' \<Longrightarrow> sync_same s s' \<Longrightarrow> step_post env s (Some (t, OpFork f, r)) s'"
  by (simp add: step_post_def sync_same_def)

lemma sleep_back_inside:
  assumes "came_back env s j sl rq s1"
  shows "wpP B thread_sleep_back (\<lambda>_. came_back env s j sl rq) (\<lambda>_ _. False) s1"
proof -
  have i: "inside env j s1 sl [] rq" using assms by (simp add: came_back_def)
  obtain th where th: "threads s1 (curthread s1) = Some th" "t_cont th = Running" "magic_ok th" "prog_ok s1 (t_prog th)" using inside_th [OF i] by blast
  have "inside env j (s1\<lparr>threads := (threads s1)(curthread s1 \<mapsto> th\<lparr>t_sleepaddr := 0\<rparr>)\<rparr>) sl [] rq"
    by (rule inside_thread [OF i th(1)]) (use th in \<open>auto simp: magic_ok_def\<close>)
  then show ?thesis using th assms by (simp add: thread_sleep_back_def wpp came_back_def sync_same_def)
qed

lemma resume_ctx_wp:
  fixes s s1 :: "'w kstate"
  assumes cb: "came_back env s (intr_ctx c) sl rq s1" and c: "ready_ctx s c" and m: "nomem s \<Longrightarrow> B"
  shows "wpP B (resume_ctx env c) (\<lambda>r. step_post env s (map_option (\<lambda>(c, r). (curthread s, c, r)) r)) (\<lambda>_ _. False) s1"
proof -
  have ne: "curthread s \<noteq> 0" using cb by (auto simp: came_back_def inside_def)
  have nm: "nomem s2 \<Longrightarrow> B" if "came_back env s j sl rq s2" for s2 :: "'w kstate" and j
    using that m by (auto simp: came_back_def sync_same_def nomem_def)
  show ?thesis
  proof (cases c)
    case (CtxYield spl)
    then have "inside env False s1 sl [] rq" using cb by (simp add: came_back_def)
    from inside_good [OF inside_spl [OF this, of 0]] have "good env (s1\<lparr>curspl := 0\<rparr>)" by simp
    then show ?thesis using CtxYield c cb by (simp add: wpp came_back_def sync_same_def step_post_def)
  next
    case (CtxIntr a b d)
    then have i: "inside env True s1 sl [] rq" using cb by (simp add: came_back_def)
    have "inside env False (s1\<lparr>in_interrupt := False, curspl := 0\<rparr>) sl [] rq"
      by (rule inside_cong [OF i]) (use i inside_tables [OF i] in auto)
    then have "good env (s1\<lparr>in_interrupt := False, curspl := 0\<rparr>)" by (rule inside_good) simp
    then show ?thesis using CtxIntr c cb by (simp add: wpp intr_leave_def came_back_def sync_same_def step_post_def)
  next
    case (CtxP x spl)
    then obtain n where n: "sems s x = Some n" using c by auto
    have "wpP B (P_loop x 0) (\<lambda>b. step_post env s (if b then Some (curthread s, OpP x, 0) else None)) (\<lambda>_ _. False) s2"
      if "came_back env s False sl rq s2" for s2 :: "'w kstate"
      by (rule wpP_mono [OF P_loop_wp [of env s2 sl "[]" rq x n B]])
        (use that n nm [OF that] in \<open>auto simp: came_back_def sync_same_def step_post_def split: if_splits\<close>)
    then show ?thesis using CtxP c cb unfolding CtxP resume_ctx.simps wpP_bind_eq
      by (auto intro!: wpP_mono [OF sleep_back_inside] simp: wpp if_distrib [of "map_option _"] cong: if_cong)
  next
    case (CtxAcquire x spl)
    then obtain l where l: "locks s x = Some l" using c by auto
    have "wpP B (lock_acquire_loop x 0) (\<lambda>b. step_post env s (if b then Some (curthread s, OpAcquire x, 0) else None)) (\<lambda>_ _. False) s2"
      if "came_back env s False sl rq s2" for s2 :: "'w kstate"
      by (rule wpP_mono [OF lock_acquire_loop_wp [of env s2 sl "[]" rq x l B]])
        (use that l ne nm [OF that] in \<open>auto simp: came_back_def sync_same_def step_post_def split: if_splits\<close>)
    then show ?thesis using CtxAcquire c cb unfolding CtxAcquire resume_ctx.simps wpP_bind_eq
      by (auto intro!: wpP_mono [OF sleep_back_inside] simp: wpp if_distrib [of "map_option _"] cong: if_cong)
  next
    case (CtxClocksleep n spl)
    have "wpP B (clocksleep_loop env (n - 1) 0) (\<lambda>b. step_post env s (if b then Some (curthread s, OpClocksleep n, 0) else None)) (\<lambda>_ _. False) s2"
      if "came_back env s False sl rq s2" for s2 :: "'w kstate"
      by (rule wpP_mono [OF clocksleep_loop_wp [of env s2 sl "[]" rq B]])
        (use that nm [OF that] in \<open>auto simp: came_back_def sync_same_def step_post_def\<close>)
    then show ?thesis using CtxClocksleep c cb unfolding CtxClocksleep resume_ctx.simps wpP_bind_eq
      by (auto intro!: wpP_mono [OF sleep_back_inside] simp: wpp if_distrib [of "map_option _"] cong: if_cong)
  qed (use c in simp)
qed

section \<open>Steps\<close>

lemma resume_wp:
  fixes s :: "'w kstate"
  assumes k: "kinv env s sl zs rq" and c: "stopped s" and m: "nomem s \<Longrightarrow> B"
  shows "wpP B (thread_resume env) (step_post env s) (\<lambda>_ _. False) s"
proof -
  obtain th where th: "threads s (curthread s) = Some th" "ready_cont s (t_cont th)" using k c by (auto simp: stopped_def kinv_def cpu_ok_def)
  show ?thesis
  proof (cases "t_cont th")
    case (InSwitch x)
    have q: "wpP B (resume_ctx env x) (\<lambda>r. step_post env s (map_option (\<lambda>(c, r). (curthread s, c, r)) r)) (\<lambda>_ _. False) s1"
      if "came_back env s (intr_ctx x) sl rq s1" for s1 :: "'w kstate"
      by (rule resume_ctx_wp [OF that _ m]) (use th InSwitch in auto)
    have "wpP B (bindK (mi_switch_back env) (\<lambda>_. mod_thread (curthread s) (\<lambda>th. th\<lparr>t_cont := Running\<rparr>)))
        (\<lambda>_. wpP B (resume_ctx env x) (\<lambda>r. step_post env s (map_option (\<lambda>(c, r). (curthread s, c, r)) r)) (\<lambda>_ _. False)) (\<lambda>_ _. False) s"
      by (rule wpP_mono [OF switch_back_wp [OF k c th(1)]]) (use q InSwitch in auto)
    then show ?thesis using th InSwitch by (simp add: thread_resume_def wpp)
  next
    case AtStart
    have b: "base_inv env (in_interrupt s) s sl zs rq" "tables s sl zs rq" using k by (auto simp: kinv_def base_inv_def)
    have s: "curthread s \<noteq> 0" "switching s = 0" "\<not> in_interrupt s" "numthreads s = int (Suc (length sl + length rq))"
      using k c th AtStart by (auto simp: stopped_def kinv_def cpu_ok_def here_def)
    have ok: "magic_ok th" "prog_ok s (t_prog th)" using b(1) th by (auto simp: base_inv_def ranI)
    have fin: "step_post env s None s'" if e: "core s' = core (s\<lparr>threads := (threads s)(curthread s \<mapsto> th\<lparr>t_cont := Running\<rparr>), curspl := 0\<rparr>)" "tables s' sl zs rq"
      for s' :: "'w kstate"
    proof -
      let ?s1 = "s'\<lparr>threads := threads s\<rparr>"
      have "base_inv env False ?s1 sl zs rq" by (rule base_cong [OF base_any [OF b(1) s(2)]]) (use e in \<open>auto simp: core_eq\<close>)
      then have "base_inv env False s' sl zs rq"
        by (rule base_cur [of _ _ _ _ _ _ "curthread s" "th\<lparr>t_cont := Running\<rparr>"]) (use e s ok in \<open>auto simp: core_eq magic_ok_def prog_ok_def\<close>)
      then have "inside env False s' sl zs rq" using e s by (auto simp: inside_def core_eq)
      then show ?thesis using inside_good e by (intro quiet_post) (auto simp: core_eq sync_same_def)
    qed
    show ?thesis using th AtStart b(2) by (auto simp: thread_resume_def mi_threadstart_def activate_def wpp core_eq intro!: fin)
  qed (use th in simp)
qed

lemma call_wp:
  fixes s :: "'w kstate"
  assumes i: "inside env False s sl zs rq" and spl: "curspl s = 0" and a: "threads s a = None" "heap_addr a"
    and c: "op_ok (dom (sems s)) (dom (locks s)) c" and m: "nomem s \<Longrightarrow> B" and v: "B \<or> (\<forall>n \<in> ran (sems s). n < 2147483647)"
  shows "wpP B (run_call env a c) (\<lambda>r. step_post env s (map_option (\<lambda>r. (curthread s, c, r)) r)) (\<lambda>_ _. False) s"
proof -
  have k: "sync_ok env s" "curthread s \<noteq> 0" "\<not> in_interrupt s" using i by (auto simp: inside_def base_inv_def)
  have nz: "0 \<notin> dom (sems s)" "0 \<notin> dom (locks s)" using k(1) unfolding sync_ok_def by blast+
  have i15: "inside env False (s\<lparr>curspl := 15\<rparr>) sl zs rq" by (rule inside_spl [OF i])
  show ?thesis
  proof (cases c)
    case (OpP x)
    then obtain n where n: "sems s x = Some n" "x \<noteq> 0" using c nz by (cases "x = 0") auto
    have "wpP B (P_loop x 0) (\<lambda>b. step_post env s (if b then Some (curthread s, OpP x, 0) else None)) (\<lambda>_ _. False) (s\<lparr>curspl := 15\<rparr>)"
      by (rule wpP_mono [OF P_loop_wp [OF i15 _ _ , of x n]]) (use n m in \<open>auto simp: step_post_def nomem_def split: if_splits\<close>)
    then show ?thesis using OpP n k spl by (simp add: returned_def P_def wpp if_distrib [of "map_option _"] cong: if_cong)
  next
    case (OpV x)
    then obtain n where n: "sems s x = Some n" using c by auto
    have b: "base_inv env False s sl zs rq" using i by (simp add: inside_def)
    have nv: "n < 2147483647 \<or> B" using v n by (auto simp: ranI)
    have "wpP B (V x) (\<lambda>_. step_post env s (Some (curthread s, OpV x, 0))) (\<lambda>_ _. False) s"
    proof (rule wpP_mono [OF V_wp [OF b n nv m]])
      fix s' :: "'w kstate"
      assume q: "core s' = core (s\<lparr>sems := (sems s)(x \<mapsto> n + 1)\<rparr>) \<and> (\<exists>sl' rq'. base_inv env False s' sl' zs rq' \<and> length sl' + length rq' = length sl + length rq)"
      then obtain sl' rq' where z: "base_inv env False s' sl' zs rq'" "length sl' + length rq' = length sl + length rq" by blast
      have "inside env False s' sl' zs rq'"
        by (rule inside_wake [OF i _ z, where S = "(sems s)(x \<mapsto> n + 1)" and L = "locks s" and p = 0]) (use q spl in \<open>simp add: core_eq\<close>)
      then have "good env s'" by (rule inside_good) (use q spl in \<open>simp add: core_eq\<close>)
      then show "step_post env s (Some (curthread s, OpV x, 0)) s'" using q n by (auto simp: step_post_def core_eq)
    qed auto
    then show ?thesis using OpV by (simp add: unit_call_def wpp)
  next
    case (OpAcquire x)
    then obtain l where l: "locks s x = Some l" "x \<noteq> 0" using c nz by (cases "x = 0") auto
    have "wpP B (lock_acquire_loop x 0) (\<lambda>b. step_post env s (if b then Some (curthread s, OpAcquire x, 0) else None)) (\<lambda>_ _. False) (s\<lparr>curspl := 15\<rparr>)"
      by (rule wpP_mono [OF lock_acquire_loop_wp [OF i15 _ _, of x l]]) (use l m k in \<open>auto simp: step_post_def nomem_def split: if_splits\<close>)
    then show ?thesis using OpAcquire l spl by (simp add: returned_def lock_acquire_def wpp if_distrib [of "map_option _"] cong: if_cong)
  next
    case (OpTry x)
    then obtain l where l: "locks s x = Some l" "x \<noteq> 0" using c nz by (cases "x = 0") auto
    have "wpP B (lock_try_acquire_alert x) (\<lambda>r. step_post env s (Some (curthread s, OpTry x, r))) (\<lambda>_ _. False) s"
      by (rule wpP_mono [OF lock_try_wp [OF i spl l]]) (use l k in \<open>auto simp: step_post_def split: if_splits\<close>)
    then show ?thesis using OpTry by (simp add: wpp)
  next
    case (OpRelease x)
    then obtain l where l: "locks s x = Some l" "x \<noteq> 0" using c nz by (cases "x = 0") auto
    have "wpP B (lock_release x) (\<lambda>r. step_post env s (Some (curthread s, OpRelease x, 0))) (\<lambda>_ _. False) s"
      by (rule wpP_mono [OF lock_release_wp [OF i spl l m]]) (use l k in \<open>auto simp: step_post_def split: if_splits\<close>)
    then show ?thesis using OpRelease by (simp add: unit_call_def wpp)
  next
    case OpYield
    have "wpP B (thread_yield CtxYield) (\<lambda>b. step_post env s (if b then Some (curthread s, OpYield, 0) else None)) (\<lambda>_ _. False) s"
      by (rule wpP_mono [OF thread_yield_wp [OF i _ _ m]]) (use spl quiet_post in auto)
    then show ?thesis using OpYield by (simp add: returned_def wpp if_distrib [of "map_option _"] cong: if_cong)
  next
    case (OpClocksleep n)
    have "wpP B (clocksleep_loop env n 0) (\<lambda>b. step_post env s (if b then Some (curthread s, OpClocksleep n, 0) else None)) (\<lambda>_ _. False) (s\<lparr>curspl := 15\<rparr>)"
      by (rule wpP_mono [OF clocksleep_loop_wp [OF i15]]) (use m in \<open>auto simp: nomem_def sync_same_def step_post_def\<close>)
    then show ?thesis using OpClocksleep spl by (simp add: returned_def clocksleep_def wpp if_distrib [of "map_option _"] cong: if_cong)
  next
    case (OpFork f)
    have "wpP B (thread_fork env a 4 f) (\<lambda>_. step_post env s (Some (curthread s, OpFork f, 0))) (\<lambda>_. step_post env s (Some (curthread s, OpFork f, 1))) s"
      by (rule wpP_mono [OF thread_fork_wp [OF i spl a]]) (use c OpFork quiet_fork in \<open>auto simp: prog_ok_def\<close>)
    then show ?thesis using OpFork by (simp add: wpp)
  qed
qed

lemma ev_ok_cong: "sems s' = sems s \<Longrightarrow> locks s' = locks s \<Longrightarrow> ev_ok ev s' = ev_ok ev s"
  by (induction ev s rule: ev_ok.induct) auto

lemma step_post_cong:
  "step_post env s1 ev s' \<Longrightarrow> sems s1 = sems s \<Longrightarrow> locks s1 = locks s \<Longrightarrow> km_oracle (km s1) = km_oracle (km s) \<Longrightarrow> step_post env s ev s'"
  using ev_ok_cong [of s1 s ev] by (simp add: step_post_def)

lemma run_wp:
  fixes s :: "'w kstate"
  assumes i: "inside env False s sl zs rq" and spl: "curspl s = 0" and a: "threads s a = None" "heap_addr a"
    and m: "nomem s \<Longrightarrow> B" and v: "B \<or> (\<forall>n \<in> ran (sems s). n < 2147483647)"
  shows "wpP B (thread_run env a) (step_post env s) (\<lambda>_ _. False) s"
proof -
  obtain th where th: "threads s (curthread s) = Some th" "t_cont th = Running" "magic_ok th" "prog_ok s (t_prog th)" using inside_th [OF i] by blast
  show ?thesis
  proof (cases "t_prog th")
    case Nil
    have "wpP B (thread_exit env) (\<lambda>_. step_post env s None) (\<lambda>_ _. False) s"
      by (rule wpP_mono [OF thread_exit_wp [OF i spl m]]) (auto intro: quiet_post)
    then show ?thesis using th Nil by (simp add: thread_run_def wpp)
  next
    case (Cons c rest)
    let ?s = "s\<lparr>threads := (threads s)(curthread s \<mapsto> th\<lparr>t_prog := rest\<rparr>)\<rparr>"
    have "inside env False ?s sl zs rq" by (rule inside_thread [OF i th(1)]) (use th Cons in \<open>auto simp: magic_ok_def prog_ok_def\<close>)
    then have "wpP B (run_call env a c) (\<lambda>r. step_post env ?s (map_option (\<lambda>r. (curthread ?s, c, r)) r)) (\<lambda>_ _. False) ?s"
      by (rule call_wp) (use spl a th Cons m v in \<open>auto simp: prog_ok_def nomem_def\<close>)
    then have "wpP B (run_call env a c) (\<lambda>r. step_post env s (map_option (\<lambda>r. (curthread s, c, r)) r)) (\<lambda>_ _. False) ?s"
      by (rule wpP_mono) (auto elim: step_post_cong)
    then show ?thesis using th Cons by (simp add: thread_run_def wpp)
  qed
qed

text \<open>Interrupts, which come when a thread runs or in the idle loop.\<close>

lemma kinv_wake:
  assumes k: "kinv env s sl zs rq" and b: "base_inv env (in_interrupt s) s' sl' zs rq'" and l: "length sl' + length rq' = length sl + length rq"
    and e: "core s' = core (s\<lparr>sems := S, locks := L\<rparr>)" "dom S = dom (sems s)" "dom L = dom (locks s)"
  shows "kinv env s' sl' zs rq'"
proof -
  have f: "curthread s' = curthread s" "switching s' = switching s" "threads s' = threads s" "curspl s' = curspl s" "in_interrupt s' = in_interrupt s"
      "numthreads s' = numthreads s" "dom (sems s') = dom (sems s)" "dom (locks s') = dom (locks s)" using e by (simp_all add: core_eq)
  have h: "here s' = here s" using f by (simp add: here_def)
  have "cpu_ok s'" using k f(1-5) ready_cong [OF f(7,8)] by (simp add: kinv_def cpu_ok_def)
  then show ?thesis using k b l f h by (simp add: kinv_def)
qed

lemma intr_base:
  assumes "kinv env s sl zs rq"
  shows "base_inv env (in_interrupt s) (s\<lparr>curspl := 15, in_interrupt := True\<rparr>) sl zs rq"
proof -
  have b: "base_inv env (in_interrupt s) s sl zs rq" "tables s sl zs rq" using assms by (auto simp: kinv_def base_inv_def)
  show ?thesis by (rule base_cong [OF b(1)]) (use b in auto)
qed

lemma leave_base:
  assumes "base_inv env i s1 sl zs rq"
  shows "base_inv env i (s1\<lparr>in_interrupt := i', curspl := p\<rparr>) sl zs rq"
proof -
  have b: "tables s1 sl zs rq" using assms by (auto simp: base_inv_def)
  show ?thesis by (rule base_cong [OF assms]) (use b in auto)
qed

lemma device_wp:
  fixes s :: "'w kstate"
  assumes k: "kinv env s sl zs rq" and x: "sems s x = Some n" and v: "n < 2147483647 \<or> B" and m: "nomem s \<Longrightarrow> B"
  shows "wpP B (intr_device x) (\<lambda>_. step_post env s (Some (0, OpV x, 0))) (\<lambda>_ _. False) s"
proof -
  let ?s = "s\<lparr>curspl := 15, in_interrupt := True\<rparr>"
  have "wpP B (V x) (\<lambda>_ s'. step_post env s (Some (0, OpV x, 0)) (s'\<lparr>in_interrupt := in_interrupt s, curspl := curspl s\<rparr>)) (\<lambda>_ _. False) ?s"
  proof (rule wpP_mono [OF V_wp [OF intr_base [OF k], of x n]])
    fix s' :: "'w kstate"
    assume q: "core s' = core (?s\<lparr>sems := (sems ?s)(x \<mapsto> n + 1)\<rparr>) \<and>
      (\<exists>sl' rq'. base_inv env (in_interrupt s) s' sl' zs rq' \<and> length sl' + length rq' = length sl + length rq)"
    then obtain sl' rq' where z: "base_inv env (in_interrupt s) s' sl' zs rq'" "length sl' + length rq' = length sl + length rq" by blast
    let ?s' = "s'\<lparr>in_interrupt := in_interrupt s, curspl := curspl s\<rparr>"
    have "kinv env ?s' sl' zs rq'"
      by (rule kinv_wake [OF k leave_base [OF z(1)] z(2), where S = "(sems s)(x \<mapsto> n + 1)" and L = "locks s"]) (use q x in \<open>auto simp: core_eq\<close>)
    then show "step_post env s (Some (0, OpV x, 0)) ?s'" using q x unfolding step_post_def good_def by (auto simp: core_eq)
  qed (use x v m in \<open>auto simp: nomem_def\<close>)
  then show ?thesis by (simp add: intr_device_def intr_enter_def intr_leave_def wpp SPL_HIGH_def)
qed

text \<open>The clock wakes the threads that sleep on it, once a second.\<close>

lemma tick_wp:
  fixes s :: "'w kstate"
  assumes b: "base_inv env i s sl zs rq" and spl: "0 < curspl s" and m: "nomem s \<Longrightarrow> B"
  shows "wpP B (bindK (modK (\<lambda>s. s\<lparr>lbolt_counter := s32 (lbolt_counter s + 1)\<rparr>)) (\<lambda>_. bindK (getK lbolt_counter) (\<lambda>c.
       if c \<ge> HZ then bindK (modK (\<lambda>s. s\<lparr>lbolt_counter := 0\<rparr>)) (\<lambda>_. thread_wakeup (lbolt env)) else retK ())))
    (\<lambda>_ s'. core s' = core s \<and> (\<exists>sl' rq'. base_inv env i s' sl' zs rq' \<and> length sl' + length rq' = length sl + length rq)) (\<lambda>_ _. False) s"
proof -
  have t: "tables s sl zs rq" "sync_ok env s" using b by (auto simp: base_inv_def)
  have w: "wpP B (thread_wakeup (lbolt env)) (\<lambda>_ s'. core s' = core s \<and>
      (\<exists>sl' rq'. base_inv env i s' sl' zs rq' \<and> length sl' + length rq' = length sl + length rq)) (\<lambda>_ _. False) (s\<lparr>lbolt_counter := 0\<rparr>)"
  proof (rule wpP_mono [OF wake_wp [OF b, of "s\<lparr>lbolt_counter := 0\<rparr>" "lbolt env"]])
    show "sync_ok env (s\<lparr>lbolt_counter := 0\<rparr>) \<and> dom (sems (s\<lparr>lbolt_counter := 0\<rparr>)) = dom (sems s) \<and> dom (locks (s\<lparr>lbolt_counter := 0\<rparr>)) = dom (locks s)"
      using t(2) sync_cong [of "s\<lparr>lbolt_counter := 0\<rparr>" s] by simp
    show "asleep env s th \<Longrightarrow> asleep env (s\<lparr>lbolt_counter := 0\<rparr>) th" for th using asleep_cong [of "s\<lparr>lbolt_counter := 0\<rparr>" s] by simp
  qed (use t spl m in \<open>auto simp: nomem_def core_eq\<close>)
  have "base_inv env i (s\<lparr>lbolt_counter := c\<rparr>) sl zs rq" for c by (rule base_cong [OF b]) (use t in auto)
  then show ?thesis using w by (auto simp: wpp core_eq)
qed

lemma timer_wp:
  fixes s :: "'w kstate"
  assumes k: "kinv env s sl zs rq" and c: "on_cpu s \<or> idle s" and m: "nomem s \<Longrightarrow> B"
  shows "wpP B (intr_timer env) (\<lambda>_. step_post env s None) (\<lambda>_ _. False) s"
proof -
  let ?s = "s\<lparr>curspl := 15, in_interrupt := True\<rparr>" and ?i = "in_interrupt s"
  have yield: "wpP B (thread_yield (CtxIntr (curspl s) ?i)) (\<lambda>back. wpP B (if back then intr_leave (curspl s) ?i else retK ()) (\<lambda>_. step_post env s None) (\<lambda>_ _. False)) (\<lambda>_ _. False) s1"
    if s1: "core s1 = core ?s" "base_inv env ?i s1 sl' zs rq'" "length sl' + length rq' = length sl + length rq" for s1 :: "'w kstate" and sl' rq'
  proof (cases "on_cpu s")
    case True
    then have i: "inside env False s sl zs rq" "curspl s = 0" using on_cpu_inside [OF k] by auto
    have "base_inv env True s1 sl' zs rq'" by (rule base_any [OF s1(2)]) (use s1(1) i in \<open>simp add: core_eq inside_def\<close>)
    then have i1: "inside env True s1 sl' zs rq'" using i(1) s1 by (auto simp: inside_def core_eq)
    show ?thesis
      by (rule wpP_mono [OF thread_yield_wp [OF i1]])
        (use i s1 m in \<open>auto simp: core_eq inside_def nomem_def sync_same_def wpp intro!: quiet_post\<close>)
  next
    case False
    then have c0: "curthread s = 0" "curspl s = 15" using c k by (auto simp: idle_def kinv_def cpu_ok_def)
    have t: "sleepers s1 \<noteq> None" using s1(2) by (auto simp: base_inv_def tables_def)
    let ?s' = "s1\<lparr>in_interrupt := ?i, curspl := 15\<rparr>"
    have "kinv env ?s' sl' zs rq'"
      by (rule kinv_wake [OF k leave_base [OF s1(2)] s1(3), where S = "sems s" and L = "locks s"]) (use s1 c0 in \<open>auto simp: core_eq\<close>)
    then have "step_post env s None ?s'" using s1(1) unfolding step_post_def good_def by (auto simp: core_eq)
    moreover have "curthread s1 = 0" "curspl s1 = 15" using s1(1) c0 by (auto simp: core_eq)
    ultimately show ?thesis using t c0 by (simp add: thread_yield_def mi_switch_def stack_check_def intr_leave_def wpp)
  qed
  have "wpP B (bindK (modK (\<lambda>s. s\<lparr>lbolt_counter := s32 (lbolt_counter s + 1)\<rparr>)) (\<lambda>_. bindK (getK lbolt_counter) (\<lambda>c.
       if c \<ge> HZ then bindK (modK (\<lambda>s. s\<lparr>lbolt_counter := 0\<rparr>)) (\<lambda>_. thread_wakeup (lbolt env)) else retK ())))
    (\<lambda>_. wpP B (thread_yield (CtxIntr (curspl s) ?i)) (\<lambda>back. wpP B (if back then intr_leave (curspl s) ?i else retK ())
       (\<lambda>_. step_post env s None) (\<lambda>_ _. False)) (\<lambda>_ _. False)) (\<lambda>_ _. False) ?s"
    by (rule wpP_mono [OF tick_wp [OF intr_base [OF k]]]) (use m yield in \<open>auto simp: nomem_def\<close>)
  then show ?thesis unfolding intr_timer_def intr_enter_def hardclock_def SPL_HIGH_def wpp prod.case
    by (cases "HZ \<le> s32 (lbolt_counter s + 1)") (simp_all split del: if_split cong: if_cong)
qed

text \<open>Every step that can happen.\<close>

lemma perform_wp:
  fixes s :: "'w kstate"
  assumes g: "good env s" and a: "enabled s a" and m: "nomem s \<Longrightarrow> B" and v: "B \<or> (\<forall>n \<in> ran (sems s). n < 2147483647)"
  shows "wpP B (perform env a) (step_post env s) (\<lambda>_ _. False) s"
proof -
  obtain sl zs rq where k: "kinv env s sl zs rq" using g unfolding good_def by blast
  show ?thesis
  proof (cases a)
    case (Run x)
    then show ?thesis using a run_wp [of env s sl zs rq x B] on_cpu_inside [OF k] m v by auto
  next
    case Resume
    then show ?thesis using a resume_wp [OF k _ m] by auto
  next
    case Pick
    have "wpP B mi_switch_to (\<lambda>_. step_post env s None) (\<lambda>_ _. False) s"
      by (rule wpP_mono [OF pick_wp [OF k]]) (use Pick a in \<open>auto intro: quiet_post\<close>)
    then show ?thesis using Pick by (simp add: wpp)
  next
    case Timer
    then show ?thesis using timer_wp [OF k _ m] a by (simp add: wpp)
  next
    case (Device x)
    then obtain n where n: "sems s x = Some n" "n < 2147483647 \<or> B" using a v by (auto simp: ranI)
    then show ?thesis using Device device_wp [OF k n m] by (simp add: wpp)
  qed
qed

end
