(* ===== verification/Kconc.thy ===== *)
theory Kconc
  imports Krun
begin

text \<open>
  What the thread system guarantees to its clients, for every run from boot on, whatever calls the threads make, whenever
  interrupts come, and whichever allocations fail.
\<close>

section \<open>From boot on\<close>

text \<open>
  The state in which \<open>boot\<close> starts: no thread exists, the semaphores and locks the threads will use are there. \<open>me\<close> is
  the address of the first thread's structure, \<open>prog\<close> the calls it makes.
\<close>

definition cold :: "'w kenv \<Rightarrow> nat \<Rightarrow> op list \<Rightarrow> 'w kstate \<Rightarrow> bool" where
  "cold env me prog s \<longleftrightarrow> threads s = Map.empty \<and> switching s = 0 \<and> \<not> in_interrupt s \<and> sync_ok env s \<and> heap_addr me \<and> prog_ok s prog"

definition started :: "'w kenv \<Rightarrow> 'w kstate \<Rightarrow> 'w kstate \<Rightarrow> bool" where
  "started env s s' \<longleftrightarrow> good env s' \<and> sync_same s s' \<and> on_cpu s'"

lemma empty_queue: "q_rep \<lparr>q_size = 32, q_nextwrite = 0, q_nextread = 0, q_data = replicate 32 None\<rparr> []"
  by (rule q_repI [where n = 32 and r = 0]) auto

lemma empty_array: "array_rep \<lparr>arr_num = 0, arr_max = 0, arr_v = None\<rparr> []"
  by (simp add: array_rep_def array_ok_def array_cells_def)

lemma boot_wp:
  fixes s :: "'w kstate"
  assumes c: "cold env me prog s"
  shows "wpP True (boot me prog) (\<lambda>_. started env s) (\<lambda>_ _. False) s"
proof -
  have fin: "started env s s'"
    if "core s' = core (s\<lparr>curthread := me, numthreads := 1, curspl := 0, threads := [me \<mapsto> th]\<rparr>)" "tables s' [] [] []"
      "t_cont th = Running" "t_stack th = None" "t_prog th = prog" for s' :: "'w kstate" and th
  proof -
    have f: "curthread s' = me" "switching s' = 0" "threads s' = [me \<mapsto> th]" "sems s' = sems s" "locks s' = locks s" "\<not> in_interrupt s'" "me \<noteq> 0"
      using that c by (auto simp: core_eq cold_def heap_addr_def)
    have "base_inv env False s' [] [] []"
      using that f c sync_cong [of s' s] by (auto simp: base_inv_def here_def cold_def magic_ok_def prog_ok_def)
    then have "inside env False s' [] [] []" using that f by (auto simp: inside_def core_eq)
    then show ?thesis using that f inside_good [of env s'] by (auto simp: started_def core_eq sync_same_def on_cpu_def)
  qed
  show ?thesis using c
    by (auto simp: boot_def scheduler_bootstrap_def q_create_def thread_bootstrap_def thread_create_def on_km_def wpp array_create_def
        cold_def tables_def core_eq km_tick_def km_now_def empty_queue empty_array intro!: fin split: option.splits)
qed

lemma boot_started: "cold env me prog s0 \<Longrightarrow> boot me prog s0 = Some (Inr (), s) \<Longrightarrow> started env s0 s"
  using boot_wp [of env me prog s0] by (simp add: wpP_def)

lemma kstep_post:
  assumes "good env s" "kstep env s es s'"
  obtains ev where "es = (case ev of None \<Rightarrow> [] | Some e \<Rightarrow> [e])" "step_post env s ev s'"
proof -
  from assms(2) obtain a ev where a: "enabled s a" "perform env a s = Some (Inr ev, s')" "es = (case ev of None \<Rightarrow> [] | Some e \<Rightarrow> [e])"
    by (auto elim: kstep.cases)
  have "wpP True (perform env a) (step_post env s) (\<lambda>_ _. False) s" using perform_wp [OF assms(1) a(1), of True] by simp
  then have "step_post env s ev s'" using a(2) by (simp add: wpP_def)
  then show ?thesis using that a(3) by blast
qed

text \<open>Induction over runs: the invariant \<open>I\<close> relates the calls that returned so far with the state.\<close>

lemma krun_inv:
  assumes r: "krun env s0 evs s" and g: "good env s0" and 0: "I [] s0"
    and quiet: "\<And>evs s s'. good env s \<Longrightarrow> I evs s \<Longrightarrow> step_post env s None s' \<Longrightarrow> I evs s'"
    and ev: "\<And>evs s e s'. good env s \<Longrightarrow> I evs s \<Longrightarrow> step_post env s (Some e) s' \<Longrightarrow> I (evs @ [e]) s'"
  shows "good env s \<and> I evs s"
  using r
proof (induction rule: krun.induct)
  case krun_refl
  then show ?case using g 0 by simp
next
  case (krun_step evs s es s')
  then have k: "good env s" "I evs s" by auto
  obtain ev' where e: "es = (case ev' of None \<Rightarrow> [] | Some e \<Rightarrow> [e])" "step_post env s ev' s'" using kstep_post [OF k(1) krun_step(2)] .
  have "good env s'" using e(2) by (simp add: step_post_def)
  then show ?case using k e quiet [OF k, of s'] ev [OF k, of _ s'] by (cases ev') auto
qed

section \<open>Mutual exclusion\<close>

text \<open>Who owns a lock, seen from outside: the thread whose \<^verbatim>\<open>lock_acquire\<close> returned last, until its \<^verbatim>\<open>lock_release\<close> returns.\<close>

fun owner_step :: "nat \<Rightarrow> event \<Rightarrow> nat option \<Rightarrow> nat option" where
  "owner_step lk (t, OpAcquire x, r) h = (if x = lk then Some t else h)"
| "owner_step lk (t, OpTry x, r) h = (if x = lk \<and> r = 1 then Some t else h)"
| "owner_step lk (t, OpRelease x, r) h = (if x = lk \<and> h = Some t then None else h)"
| "owner_step lk _ h = h"

definition owner :: "nat \<Rightarrow> event list \<Rightarrow> nat option" where
  "owner lk evs = fold (owner_step lk) evs None"

fun acquires :: "nat \<Rightarrow> event \<Rightarrow> bool" where
  "acquires lk (t, OpAcquire x, r) \<longleftrightarrow> x = lk"
| "acquires lk (t, OpTry x, r) \<longleftrightarrow> x = lk \<and> r = 1"
| "acquires lk _ \<longleftrightarrow> False"

definition lock_view :: "lock \<Rightarrow> nat option" where
  "lock_view l = (if lk_available l = 0 then Some (lk_holder l) else None)"

lemma owner_view:
  assumes v: "\<forall>l. locks s lk = Some l \<longrightarrow> lock_view l = h" and ok: "\<forall>l \<in> ran (locks s). lock_ok l" and e: "ev_ok (Some ev) s"
    and l: "lock_eff (Some ev) (locks s) lk = Some l'"
  shows "lock_view l' = owner_step lk ev h"
proof -
  obtain t c r where ev: "ev = (t, c, r)" by (cases ev)
  show ?thesis
  proof (cases c)
    case (OpRelease x)
    show ?thesis
    proof (cases "x = lk \<and> map_option lk_holder (locks s lk) = Some t")
      case True
      then obtain l0 where l0: "locks s lk = Some l0" "lk_holder l0 = t" by auto
      then have "lock_ok l0" "lock_view l0 = h" using ok v by (auto simp: ranI)
      then show ?thesis using True l l0 ev OpRelease by (auto simp: lock_ok_def lock_view_def split: if_splits)
    next
      case False
      then have eq: "locks s lk = Some l'" using l ev OpRelease by (auto split: if_splits)
      then have "lock_ok l'" "lock_view l' = h" using ok v by (auto simp: ranI)
      then show ?thesis using False eq ev OpRelease by (auto simp: lock_ok_def lock_view_def split: if_splits)
    qed
  qed (use l v ev in \<open>auto simp: lock_view_def split: if_splits\<close>)
qed

lemma acquires_free:
  assumes "ev_ok (Some ev) s" "acquires lk ev" "\<forall>l. locks s lk = Some l \<longrightarrow> lock_view l = h"
  shows "h = None"
proof -
  obtain t c r where ev: "ev = (t, c, r)" by (cases ev)
  show ?thesis by (cases c) (use assms ev in \<open>auto simp: lock_view_def\<close>)
qed

lemma owner_append: "owner lk (evs @ [e]) = owner_step lk e (owner lk evs)"
  by (simp add: owner_def)

text \<open>
  Property C1. Mutual exclusion: in every run from boot, whenever a call of \<^verbatim>\<open>lock_acquire\<close> (or a successful \<^verbatim>\<open>lock_try_acquire_alert\<close>)
  returns, nobody owns the lock: every thread that got it before has released it since. At the end the lock's structure says who owns it.
\<close>

theorem mutual_exclusion:
  fixes env :: "'w kenv"
  assumes "cold env me prog s0" and "boot me prog s0 = Some (Inr (), s1)" and "\<forall>l \<in> ran (locks s0). lk_available l = 1"
    and "krun env s1 evs s"
  shows "(\<forall>xs e ys lk. evs = xs @ e # ys \<longrightarrow> acquires lk e \<longrightarrow> owner lk xs = None) \<and>
    (\<forall>lk l. locks s lk = Some l \<longrightarrow> owner lk evs = (if lk_available l = 0 then Some (lk_holder l) else None))"
proof -
  let ?I = "\<lambda>evs s. (\<forall>xs e ys lk. evs = xs @ e # ys \<longrightarrow> acquires lk e \<longrightarrow> owner lk xs = None) \<and>
      (\<forall>lk l. locks s lk = Some l \<longrightarrow> lock_view l = owner lk evs)"
  have st: "good env s1" "locks s1 = locks s0" using boot_started [OF assms(1,2)] by (auto simp: started_def sync_same_def)
  have "good env s \<and> ?I evs s"
  proof (rule krun_inv [OF assms(4) st(1)])
    show "?I [] s1" using assms(3) st(2) by (auto simp: lock_view_def owner_def ranI)
  next
    fix evs and s s' :: "'w kstate"
    assume "?I evs s" "step_post env s None s'"
    then show "?I evs s'" by (simp add: step_post_def)
  next
    fix evs e and s s' :: "'w kstate"
    assume g: "good env s" and I: "?I evs s" and p: "step_post env s (Some e) s'"
    have ok: "\<forall>l \<in> ran (locks s). lock_ok l" using g by (auto simp: good_def kinv_def base_inv_def sync_ok_def)
    have "lock_view l = owner lk (evs @ [e])" if "locks s' lk = Some l" for lk l
      using owner_view [of s lk "owner lk evs" e l] I ok p that by (simp add: step_post_def owner_append)
    moreover have "owner lk xs = None" if "evs @ [e] = xs @ e' # ys" "acquires lk e'" for xs e' ys lk
    proof (cases ys rule: rev_cases)
      case Nil
      then show ?thesis using that acquires_free [of e s lk "owner lk evs"] I p by (simp add: step_post_def)
    next
      case (snoc ys' y)
      then have "evs = xs @ e' # ys'" using that(1) by simp
      then show ?thesis using I that(2) by blast
    qed
    ultimately show "?I (evs @ [e]) s'" by blast
  qed
  then show ?thesis by (simp add: lock_view_def)
qed

section \<open>An example run\<close>

text \<open>One thread, at address 16, with a semaphore at 48 and a lock at 64.\<close>

definition ex_env :: "unit kenv" where
  "ex_env = \<lparr>lbolt = 8, as_activate = (\<lambda>_ w. w), as_destroy = (\<lambda>_ w. w), vop_incref = (\<lambda>_ w. w), vop_decref = (\<lambda>_ w. w)\<rparr>"

definition ex_prog :: "op list" where
  "ex_prog = [OpAcquire 64, OpP 48, OpRelease 64]"

definition ex_cold :: "unit kstate" where
  "ex_cold = \<lparr>curthread = 0, switching = 0, threads = (\<lambda>_. None), sleepers = None, zombies = None, runqueue = None, numthreads = 0, curspl = 15,
     in_interrupt = False, sems = [48 \<mapsto> 1], locks = [64 \<mapsto> \<lparr>lk_available = 1, lk_holder = 0\<rparr>],
     lbolt_counter = 0, km = \<lparr>km_oracle = (\<lambda>_ _. True), km_calls = 0, km_pages = (\<lambda>_. None)\<rparr>, world = ()\<rparr>"

text \<open>The state in which the thread runs and has the calls \<open>p\<close> before it.\<close>

definition ex_state :: "op list \<Rightarrow> (nat \<rightharpoonup> int) \<Rightarrow> (nat \<rightharpoonup> lock) \<Rightarrow> unit kstate" where
  "ex_state p S L = ex_cold\<lparr>curthread := 16,
     threads := [16 \<mapsto> \<lparr>pcb_ininterrupt = False, t_cont = Running, t_prog = p, t_sleepaddr = 0, t_stack = None, t_vmspace = 0, t_cwd = 0\<rparr>],
     sleepers := Some \<lparr>arr_num = 0, arr_max = 0, arr_v = None\<rparr>, zombies := Some \<lparr>arr_num = 0, arr_max = 0, arr_v = None\<rparr>,
     runqueue := Some \<lparr>q_size = 32, q_nextwrite = 0, q_nextread = 0, q_data = replicate 32 None\<rparr>,
     numthreads := 1, curspl := 0, sems := S, locks := L, km := \<lparr>km_oracle = (\<lambda>_ _. True), km_calls = 6, km_pages = (\<lambda>_. None)\<rparr>\<rparr>"

lemmas call_defs = km_tick_def km_now_def kmalloc_def spl0_def splx_def splhigh_def mod_thread_def get_thread_def SPL_HIGH_def
  thread_run_def returned_def P_def P_loop_def lock_acquire_def lock_acquire_loop_def get_sem_def set_sem_def get_lock_def set_lock_def

lemma ex_boot: "boot 16 p ex_cold = Some (Inr (), ex_state p [48 \<mapsto> 1] [64 \<mapsto> \<lparr>lk_available = 1, lk_holder = 0\<rparr>])"
  by (simp add: boot_def scheduler_bootstrap_def q_create_def thread_bootstrap_def thread_create_def on_km_def array_create_def
      call_defs kern_defs ex_cold_def ex_state_def)

lemma ex_cold: "cold ex_env 16 ex_prog ex_cold"
  by (auto simp: cold_def ex_cold_def ex_env_def ex_prog_def sync_ok_def lock_ok_def heap_addr_def prog_ok_def)

lemma ex_acquire:
  "kstep ex_env (ex_state (OpAcquire 64 # p) S [64 \<mapsto> \<lparr>lk_available = 1, lk_holder = 0\<rparr>]) [(16, OpAcquire 64, 0)]
     (ex_state p S [64 \<mapsto> \<lparr>lk_available = 0, lk_holder = 16\<rparr>])"
  using kstep.intros [of "ex_state (OpAcquire 64 # p) S [64 \<mapsto> \<lparr>lk_available = 1, lk_holder = 0\<rparr>]" "Run 32" ex_env "Some (16, OpAcquire 64, 0)"
      "ex_state p S [64 \<mapsto> \<lparr>lk_available = 0, lk_holder = 16\<rparr>]"]
  by (simp add: on_cpu_def heap_addr_def call_defs kern_defs ex_cold_def ex_state_def)

lemma ex_P: "kstep ex_env (ex_state (OpP 48 # p) [48 \<mapsto> 1] L) [(16, OpP 48, 0)] (ex_state p [48 \<mapsto> 0] L)"
  using kstep.intros [of "ex_state (OpP 48 # p) [48 \<mapsto> 1] L" "Run 32" ex_env "Some (16, OpP 48, 0)" "ex_state p [48 \<mapsto> 0] L"]
  by (simp add: on_cpu_def heap_addr_def call_defs kern_defs ex_cold_def ex_state_def)

lemma ex_run:
  "krun ex_env (ex_state ex_prog [48 \<mapsto> 1] [64 \<mapsto> \<lparr>lk_available = 1, lk_holder = 0\<rparr>]) [(16, OpAcquire 64, 0), (16, OpP 48, 0)]
     (ex_state [OpRelease 64] [48 \<mapsto> 0] [64 \<mapsto> \<lparr>lk_available = 0, lk_holder = 16\<rparr>])"
  using krun_step [OF krun_step [OF krun_refl ex_acquire] ex_P] by (simp add: ex_prog_def)

text \<open>The thread waits for a semaphore that is 0: it is in the table of sleepers and the scheduler runs.\<close>

definition ex_asleep :: "(nat \<rightharpoonup> lock) \<Rightarrow> unit kstate" where
  "ex_asleep L = (ex_state [] [48 \<mapsto> 0] L)\<lparr>curspl := 15, curthread := 0, switching := 16,
     threads := [16 \<mapsto> \<lparr>pcb_ininterrupt = False, t_cont = InSwitch (CtxP 48 0), t_prog = [], t_sleepaddr = 48, t_stack = None, t_vmspace = 0, t_cwd = 0\<rparr>],
     km := \<lparr>km_oracle = (\<lambda>_ _. True), km_calls = 7, km_pages = (\<lambda>_. None)\<rparr>,
     sleepers := Some \<lparr>arr_num = 1, arr_max = 2, arr_v = Some [Some 16, None]\<rparr>\<rparr>"

lemma ex_newmax: "array_newmax 1 0 = Some 2"
  by (subst array_newmax.simps, simp, subst array_newmax.simps, simp)

lemma ex_sleep: "kstep ex_env (ex_state [OpP 48] [48 \<mapsto> 0] L) [] (ex_asleep L)"
  using kstep.intros [of "ex_state [OpP 48] [48 \<mapsto> 0] L" "Run 32" ex_env None "ex_asleep L"]
  by (simp add: on_cpu_def heap_addr_def call_defs thread_sleep_def mi_switch_def mi_switch_stash_def stack_check_def on_sleepers_def spl_off_def
      array_add_def array_setsize_def array_preallocate_def ex_newmax cell_write_def Let_def kern_defs ex_cold_def ex_state_def ex_asleep_def
      numeral_2_eq_2)

lemma ex_cold_wait: "cold ex_env 16 [OpP 48, OpP 48] ex_cold"
  by (auto simp: cold_def ex_cold_def ex_env_def sync_ok_def lock_ok_def heap_addr_def prog_ok_def)

lemma ex_wait: "krun ex_env (ex_state [OpP 48, OpP 48] [48 \<mapsto> 1] L) [(16, OpP 48, 0)] (ex_asleep L)"
  using krun_step [OF krun_step [OF krun_refl ex_P] ex_sleep] by simp

lemma wpP_total:
  assumes "wpP False m Q (\<lambda>_ _. False) s"
  shows "\<exists>x s'. m s = Some (Inr x, s')"
proof (cases "m s")
  case (Some p)
  then show ?thesis using assms by (cases p; cases "fst p") (auto simp: wpP_def)
qed (use assms in \<open>simp add: wpP_def\<close>)

section \<open>What holds in every run\<close>

theorem mutual_exclusion_witness:
  "krun ex_env (ex_state ex_prog [48 \<mapsto> 1] [64 \<mapsto> \<lparr>lk_available = 1, lk_holder = 0\<rparr>]) [(16, OpAcquire 64, 0), (16, OpP 48, 0)]
     (ex_state [OpRelease 64] [48 \<mapsto> 0] [64 \<mapsto> \<lparr>lk_available = 0, lk_holder = 16\<rparr>]) \<and>
   owner 64 [(16, OpAcquire 64, 0), (16, OpP 48, 0)] = Some 16"
proof -
  have "\<forall>l \<in> ran (locks ex_cold). lk_available l = 1" by (simp add: ex_cold_def)
  from mutual_exclusion [OF ex_cold ex_boot this ex_run] show ?thesis using ex_run by (simp add: ex_state_def)
qed

fun is_P :: "nat \<Rightarrow> event \<Rightarrow> bool" where
  "is_P x (t, OpP y, r) \<longleftrightarrow> y = x"
| "is_P x _ \<longleftrightarrow> False"

fun is_V :: "nat \<Rightarrow> event \<Rightarrow> bool" where
  "is_V x (t, OpV y, r) \<longleftrightarrow> y = x"
| "is_V x _ \<longleftrightarrow> False"

definition sem_balance :: "nat \<Rightarrow> event list \<Rightarrow> int" where
  "sem_balance x evs = int (length (filter (is_V x) evs)) - int (length (filter (is_P x) evs))"

lemma sem_eff_step: "sem_eff (Some e) S x = map_option (\<lambda>n. n + sem_balance x [e]) (S x)"
proof -
  obtain t c r where e: "e = (t, c, r)" by (cases e)
  show ?thesis by (cases c) (auto simp: e sem_balance_def option.map_id0 [unfolded id_def] option.map_ident)
qed

lemma sem_balance_append: "sem_balance x (evs @ [e]) = sem_balance x evs + sem_balance x [e]"
  by (simp add: sem_balance_def)

text \<open>
  Property C12. In every run from boot, the count of a semaphore is its initial count plus the number of \<^verbatim>\<open>V\<close> calls minus the number of
  \<^verbatim>\<open>P\<close> calls that returned, at every moment of the run: \<^verbatim>\<open>P\<close> never returns more often than \<^verbatim>\<open>V\<close> and the initial count allow.
\<close>

theorem semaphore_count:
  fixes env :: "'w kenv"
  assumes "cold env me prog s0" and "boot me prog s0 = Some (Inr (), s1)" and "krun env s1 evs s" and "sems s0 x = Some n"
  shows "sems s x = Some (n + sem_balance x evs) \<and> (\<forall>xs ys. evs = xs @ ys \<longrightarrow> 0 \<le> n + sem_balance x xs)"
proof -
  let ?I = "\<lambda>evs s. sems s x = Some (n + sem_balance x evs) \<and> (\<forall>xs ys. evs = xs @ ys \<longrightarrow> 0 \<le> n + sem_balance x xs)"
  have st: "good env s1" "sems s1 = sems s0" using boot_started [OF assms(1,2)] by (auto simp: started_def sync_same_def)
  have pos: "0 \<le> k" if "good env u" "sems u x = Some k" for u k
    using that by (auto simp: good_def kinv_def base_inv_def sync_ok_def ranI)
  have "good env s \<and> ?I evs s"
  proof (rule krun_inv [OF assms(3) st(1)])
    show "?I [] s1" using assms(4) st pos [OF st(1)] by (simp add: sem_balance_def)
  next
    fix evs and s s' :: "'w kstate"
    assume "?I evs s" "step_post env s None s'"
    then show "?I evs s'" by (simp add: step_post_def)
  next
    fix evs e and s s' :: "'w kstate"
    assume I: "?I evs s" and p: "step_post env s (Some e) s'"
    then have n': "sems s' x = Some (n + sem_balance x (evs @ [e]))"
      using sem_eff_step [of e "sems s" x] by (simp add: step_post_def sem_balance_append)
    have "0 \<le> n + sem_balance x xs" if "evs @ [e] = xs @ ys" for xs ys
    proof (cases ys rule: rev_cases)
      case Nil
      then show ?thesis using that n' pos [of s'] p by (simp add: step_post_def)
    next
      case (snoc ys' y)
      then have "evs = xs @ ys'" using that by simp
      then show ?thesis using I by blast
    qed
    then show "?I (evs @ [e]) s'" using n' by blast
  qed
  then show ?thesis by simp
qed

theorem semaphore_count_witness:
  "sems (ex_state [OpRelease 64] [48 \<mapsto> 0] [64 \<mapsto> \<lparr>lk_available = 0, lk_holder = 16\<rparr>]) 48
     = Some (1 + sem_balance 48 [(16, OpAcquire 64, 0), (16, OpP 48, 0)])"
  using semaphore_count [OF ex_cold ex_boot ex_run, of 48 1] by (simp add: ex_cold_def)

text \<open>
  Property C8. No wake-up is lost: in every state of every run from boot, a thread that sleeps in \<^verbatim>\<open>P\<close> sleeps on a semaphore whose count is 0,
  and a thread that sleeps in \<^verbatim>\<open>lock_acquire\<close> on a lock that is held. As soon as \<^verbatim>\<open>V\<close> or \<^verbatim>\<open>lock_release\<close> have returned, nobody who could go on
  is left asleep.
\<close>

theorem no_lost_wakeup:
  fixes env :: "'w kenv"
  assumes "cold env me prog s0" and "boot me prog s0 = Some (Inr (), s1)" and "krun env s1 evs s"
    and "sleepers s = Some a" and "array_rep a sl" and "t \<in> set sl"
  shows "\<exists>th. threads s t = Some th \<and> (\<forall>n. sems s (t_sleepaddr th) = Some n \<longrightarrow> n = 0) \<and>
    (\<forall>l. locks s (t_sleepaddr th) = Some l \<longrightarrow> lk_available l = 0)"
proof -
  have "good env s1" using boot_started [OF assms(1,2)] by (simp add: started_def)
  then have "good env s" using krun_inv [OF assms(3), of "\<lambda>_ _. True"] by simp
  then obtain sl' zs rq where k: "kinv env s sl' zs rq" unfolding good_def by blast
  then have b: "base_inv env (in_interrupt s) s sl' zs rq" by (simp add: kinv_def)
  have "array_rep a sl'" using b assms(4) by (auto simp: base_inv_def tables_def)
  then have "map Some sl' = map Some sl" using assms(5) unfolding array_rep_def by (metis length_map of_nat_eq_iff)
  then have "sl' = sl" by (rule map_injective) simp
  then obtain th where th: "threads s t = Some th" "asleep env s th" using b assms(6) by (auto simp: base_inv_def)
  then obtain c where c: "asleep_ctx env s (t_sleepaddr th) c" by (auto simp: asleep_def)
  have d: "dom (sems s) \<inter> dom (locks s) = {}" "lbolt env \<notin> dom (sems s)" "lbolt env \<notin> dom (locks s)"
    using b unfolding base_inv_def sync_ok_def by blast+
  have "(\<forall>n. sems s (t_sleepaddr th) = Some n \<longrightarrow> n = 0) \<and> (\<forall>l. locks s (t_sleepaddr th) = Some l \<longrightarrow> lk_available l = 0)"
    using c d by (cases c) (auto simp: domIff)
  then show ?thesis using th(1) by blast
qed

theorem no_lost_wakeup_witness:
  "\<exists>th. threads (ex_asleep [64 \<mapsto> \<lparr>lk_available = 1, lk_holder = 0\<rparr>]) 16 = Some th \<and> t_sleepaddr th = 48 \<and>
     (\<forall>n. sems (ex_asleep [64 \<mapsto> \<lparr>lk_available = 1, lk_holder = 0\<rparr>]) (t_sleepaddr th) = Some n \<longrightarrow> n = 0)"
proof -
  have "sleepers (ex_asleep [64 \<mapsto> \<lparr>lk_available = 1, lk_holder = 0\<rparr>]) = Some \<lparr>arr_num = 1, arr_max = 2, arr_v = Some [Some 16, None]\<rparr>"
    by (simp add: ex_asleep_def)
  moreover have "array_rep \<lparr>arr_num = 1, arr_max = 2, arr_v = Some [Some 16, None]\<rparr> [16 :: nat]"
    by (simp add: array_rep_def array_ok_def array_cells_def)
  ultimately show ?thesis
    using no_lost_wakeup [OF ex_cold_wait ex_boot ex_wait, of "\<lparr>arr_num = 1, arr_max = 2, arr_v = Some [Some 16, None]\<rparr>" "[16]" 16]
    by (auto simp: ex_asleep_def)
qed

text \<open>
  Property C11. Every thread structure is accounted for: in every state of every run from boot, each live thread is in exactly one place -- it is
  the current thread, or once in the run queue, among the sleepers or among the zombies -- nothing else is in these tables, and
  \<^verbatim>\<open>numthreads\<close> is the number of threads that have not exited.
\<close>

theorem threads_accounted:
  fixes env :: "'w kenv"
  assumes "cold env me prog s0" and "boot me prog s0 = Some (Inr (), s1)" and "krun env s1 evs s"
  shows "\<exists>sl zs rq. tables s sl zs rq \<and> distinct (here s @ sl @ zs @ rq) \<and> dom (threads s) = set (here s @ sl @ zs @ rq) \<and>
    numthreads s = int (length (here s) + length sl + length rq)"
proof -
  have "good env s1" using boot_started [OF assms(1,2)] by (simp add: started_def)
  then have "good env s" using krun_inv [OF assms(3), of "\<lambda>_ _. True"] by simp
  then show ?thesis unfolding good_def kinv_def base_inv_def by blast
qed

theorem threads_accounted_witness:
  "\<exists>sl zs rq. tables (ex_asleep [64 \<mapsto> \<lparr>lk_available = 1, lk_holder = 0\<rparr>]) sl zs rq \<and> set (sl @ zs @ rq) = {16} \<and> length sl + length rq = 1"
  using threads_accounted [OF ex_cold_wait ex_boot ex_wait] by (force simp: ex_asleep_def ex_state_def here_def)

text \<open>
  Property C13. As long as \<^verbatim>\<open>kmalloc\<close> does not fail and no semaphore has reached the largest \<^verbatim>\<open>int\<close>, nothing panics: in every state of every run from
  boot, each call of the running thread, each interrupt, the scheduler and the switch come back without tripping an assertion.
\<close>

theorem no_panic:
  fixes env :: "'w kenv"
  assumes "cold env me prog s0" and "boot me prog s0 = Some (Inr (), s1)" and "krun env s1 evs s"
    and "\<forall>n sz. km_oracle (km s0) n sz" and "\<forall>n \<in> ran (sems s). n < 2147483647" and "enabled s act"
  shows "\<exists>ev s'. perform env act s = Some (Inr ev, s')"
proof -
  have st: "good env s1" "km_oracle (km s1) = km_oracle (km s0)" using boot_started [OF assms(1,2)] by (auto simp: started_def sync_same_def)
  have "good env s \<and> km_oracle (km s) = km_oracle (km s0)"
    by (rule krun_inv [OF assms(3) st(1)]) (use st(2) in \<open>auto simp: step_post_def\<close>)
  then have "wpP False (perform env act) (step_post env s) (\<lambda>_ _. False) s"
    using perform_wp [of env s act False] assms(4,5,6) by (auto simp: nomem_def)
  then show ?thesis by (rule wpP_total)
qed

theorem no_panic_witness:
  "\<exists>ev s'. perform ex_env Pick (ex_asleep [64 \<mapsto> \<lparr>lk_available = 1, lk_holder = 0\<rparr>]) = Some (Inr ev, s')"
  by (rule no_panic [OF ex_cold_wait ex_boot ex_wait]) (auto simp: ex_cold_def ex_asleep_def ex_state_def)

text \<open>
  Property C37. The room for zombies that \<^verbatim>\<open>thread_fork\<close> reserves does not last: \<^verbatim>\<open>exorcise\<close> empties the array with \<^verbatim>\<open>array_setsize\<close>, which gives
  back the storage of an array of more than 16 cells. With memory exhausted a thread that exits just before is put away as intended; one that
  exits just after fails the assertion that \<^verbatim>\<open>array_add\<close> succeeded, and the kernel panics.
\<close>

theorem exorcise_drops_room:
  assumes "zombies s = Some a" and "array_rep a []" and "16 < arr_max a" and "0 < curspl s" and "curthread s = cur" and "cur \<noteq> 0"
    and "threads s cur = Some th" and "t_stack th = None \<or> t_stack th = Some stack_magic" and "\<forall>n sz. \<not> km_oracle (km s) n sz"
  shows "mi_switch S_ZOMB CtxDead s \<noteq> None \<and> bindK exorcise (\<lambda>_. mi_switch S_ZOMB CtxDead) s = None"
proof -
  obtain v where v: "arr_num a = 0" "arr_v a = Some v" "length v = nat (arr_max a)"
    using assms(2,3) by (cases "arr_v a") (auto simp: array_rep_def array_ok_def array_cells_def)
  have stk: "stack_check cur s2 = Some (Inr (), s2)" if "threads s2 = threads s" for s2 :: "'a kstate"
    using that assms(6-8) by (auto simp: stack_check_def get_thread_def kern_defs stack_magic_def)
  have "array_add (km_now s2) cur a = Some (Inr (), a\<lparr>arr_num := 1, arr_v := Some (v[0 := Some cur])\<rparr>)" for s2 :: "'a kstate"
    using v assms(3) by (simp add: array_add_def array_setsize_def Let_def kern_defs cell_write_def)
  then have "mi_switch S_ZOMB CtxDead s \<noteq> None"
    using assms stk by (simp add: mi_switch_def mi_switch_stash_def on_zombies_def spl_off_def mod_thread_def kern_defs)
  moreover obtain s1 where s1: "exorcise s = Some (Inr (), s1)" "zombies s1 = Some (a\<lparr>arr_v := None, arr_max := 0, arr_num := 0\<rparr>)" "core s1 = core s"
    using v assms(1,3,4) by (simp add: exorcise_def on_zombies_def spl_off_def array_getnum_def array_setsize_def kern_defs core_eq km_tick_def)
  obtain m where "array_newmax 1 0 = Some m" using ex_newmax by blast
  then have "array_add (km_now s2) cur (a\<lparr>arr_v := None, arr_max := 0, arr_num := 0\<rparr>) = Some (Inl ENOMEM, a\<lparr>arr_v := None, arr_max := 0, arr_num := 0\<rparr>)"
    if "km_oracle (km s2) = km_oracle (km s)" for s2 :: "'a kstate"
    using that assms(9) by (simp add: array_add_def array_setsize_def array_preallocate_def Let_def kern_defs km_now_def)
  then have "mi_switch S_ZOMB CtxDead s1 = None"
    using s1 assms stk by (simp add: mi_switch_def mi_switch_stash_def on_zombies_def spl_off_def mod_thread_def kern_defs core_eq)
  ultimately show ?thesis using s1(1) by (simp add: bindK_def)
qed

theorem exorcise_drops_room_witness:
  "\<exists>s :: unit kstate. mi_switch S_ZOMB CtxDead s \<noteq> None \<and> bindK exorcise (\<lambda>_. mi_switch S_ZOMB CtxDead) s = None"
proof -
  let ?s = "(ex_state [] (\<lambda>_. None) (\<lambda>_. None))\<lparr>curspl := 15, km := \<lparr>km_oracle = (\<lambda>_ _. False), km_calls = 7, km_pages = (\<lambda>_. None)\<rparr>,
    zombies := Some \<lparr>arr_num = 0, arr_max = 32, arr_v = Some (replicate 32 None)\<rparr>\<rparr>"
  have "mi_switch S_ZOMB CtxDead ?s \<noteq> None \<and> bindK exorcise (\<lambda>_. mi_switch S_ZOMB CtxDead) ?s = None"
    by (rule exorcise_drops_room) (auto simp: ex_state_def ex_cold_def array_rep_def array_ok_def array_cells_def)
  then show ?thesis by blast
qed

end
