(* ===== verification/Kheap.thy ===== *)
theory Kheap
  imports Kthread Cmem SFS_Layout
begin

text \<open>
  The kernel heap: \<^verbatim>\<open>kmalloc\<close> and \<^verbatim>\<open>kfree\<close> of \<^verbatim>\<open>kern/lib/kheap.c\<close> (without the consistency checks \<^verbatim>\<open>SLOW\<close> and \<^verbatim>\<open>SLOWER\<close>, which the file
  turns off), on the page allocator of \<^verbatim>\<open>dumbvm.c\<close> and \<^verbatim>\<open>ram.c\<close> in \<^verbatim>\<open>kern/arch/mips/mips\<close>. The state is the pool of page
  references with its map of those in use, the lists through them, the two bounds of free physical memory, and the memory itself,
  where the blocks that are free are linked through their first words. It is the world of the thread system's state, whose interrupt level
  the allocator raises and restores.

  A pointer to a page reference is its index, or none for \<^verbatim>\<open>NULL\<close>. The lists have at most 256 entries, and a walk gets 257 rounds; one that
  would need more does not come back. Addresses are natural numbers, arithmetic on them is cut to 32 bits.
\<close>

unbundle bit_operations_syntax

section \<open>Memory\<close>

definition ld_word :: "memory \<Rightarrow> nat \<Rightarrow> nat" where
  "ld_word m a = de32 (get_at a 4 m)"

definition st_word :: "nat \<Rightarrow> nat \<Rightarrow> memory \<Rightarrow> memory" where
  "st_word a w m = put_at a (be32 w) m"

text \<open>Subtraction of \<^verbatim>\<open>u_int32_t\<close>.\<close>

definition sub32 :: "nat \<Rightarrow> nat \<Rightarrow> nat" where
  "sub32 a b = u32 (a + (4294967296 - b))"

definition PAGE_SIZE :: nat where "PAGE_SIZE = 4096"
definition PAGE_FRAME :: nat where "PAGE_FRAME = 0xfffff000"
definition MIPS_KSEG0 :: nat where "MIPS_KSEG0 = 0x80000000"

definition PADDR_TO_KVADDR :: "nat \<Rightarrow> nat" where
  "PADDR_TO_KVADDR paddr = u32 (paddr + MIPS_KSEG0)"

section \<open>State\<close>

record pageref =
  next_samesize :: "nat option"
  next_all :: "nat option"
  pageaddr_and_blocktype :: nat
  freelist_offset :: nat
  nfree :: nat

definition INVALID_OFFSET :: nat where "INVALID_OFFSET = 0xffff"

definition PR_PAGEADDR :: "pageref \<Rightarrow> nat" where
  "PR_PAGEADDR pr = pageaddr_and_blocktype pr AND PAGE_FRAME"

definition PR_BLOCKTYPE :: "pageref \<Rightarrow> nat" where
  "PR_BLOCKTYPE pr = pageaddr_and_blocktype pr AND 0xfff"

definition MKPAB :: "nat \<Rightarrow> nat \<Rightarrow> nat" where
  "MKPAB pa blk = (pa AND PAGE_FRAME) OR (blk AND 0xfff)"

definition NSIZES :: nat where "NSIZES = 8"
definition sizes :: "nat list" where "sizes = [16, 32, 64, 128, 256, 512, 1024, 2048]"
definition LARGEST_SUBPAGE_SIZE :: nat where "LARGEST_SUBPAGE_SIZE = 2048"
definition NPAGEREFS :: nat where "NPAGEREFS = 256"
definition INUSE_WORDS :: nat where "INUSE_WORDS = 8"

record heap =
  pagerefs :: "pageref list"
  pagerefs_inuse :: "32 word list"
  sizebases :: "nat option list"
  allbase :: "nat option"
  heap_mem :: memory
  firstpaddr :: nat
  lastpaddr :: nat

definition on_heap :: "(heap, 'a) kern \<Rightarrow> (heap kstate, 'a) kern" where
  "on_heap m = zoomK world (\<lambda>h s. s\<lparr>world := h\<rparr>) m"

section \<open>Physical memory\<close>

definition ram_bootstrap :: "nat \<Rightarrow> nat \<Rightarrow> (heap, unit) kern" where
  "ram_bootstrap ramsize firstfree =
     modK (\<lambda>h. h\<lparr>lastpaddr := (if ramsize > 508 * 1024 * 1024 then 508 * 1024 * 1024 else ramsize), firstpaddr := sub32 firstfree MIPS_KSEG0\<rparr>)"

definition ram_stealmem :: "nat \<Rightarrow> (heap, nat) kern" where
  "ram_stealmem npages =
     bindK (getK firstpaddr) (\<lambda>first.
     bindK (getK lastpaddr) (\<lambda>last.
     let size = u32 (npages * PAGE_SIZE) in
     if u32 (first + size) > last then retK 0 else
     bindK (modK (\<lambda>h. h\<lparr>firstpaddr := u32 (first + size)\<rparr>)) (\<lambda>_.
     retK first)))"

definition ram_getsize :: "(heap, nat \<times> nat) kern" where
  "ram_getsize =
     bindK (getK firstpaddr) (\<lambda>lo.
     bindK (getK lastpaddr) (\<lambda>hi.
     bindK (modK (\<lambda>h. h\<lparr>firstpaddr := 0, lastpaddr := 0\<rparr>)) (\<lambda>_.
     retK (lo, hi))))"

definition getppages :: "nat \<Rightarrow> (heap kstate, nat) kern" where
  "getppages npages =
     bindK splhigh (\<lambda>spl.
     bindK (on_heap (ram_stealmem npages)) (\<lambda>addr.
     bindK (splx spl) (\<lambda>_.
     retK addr)))"

definition alloc_kpages :: "nat \<Rightarrow> (heap kstate, nat) kern" where
  "alloc_kpages npages =
     bindK (getppages npages) (\<lambda>pa.
     if pa = 0 then retK 0 else retK (PADDR_TO_KVADDR pa))"

definition free_kpages :: "nat \<Rightarrow> (heap, unit) kern" where
  "free_kpages addr = retK ()"

section \<open>Page references\<close>

primrec inuse_scan :: "nat \<Rightarrow> 32 word \<Rightarrow> 32 word \<Rightarrow> nat \<Rightarrow> (nat \<times> 32 word) option" where
  "inuse_scan 0 w k j = None"
| "inuse_scan (Suc n) w k j =
     (if k = 0 then None else if w AND k = 0 then Some (j, k) else inuse_scan n w (push_bit 1 k) (Suc j))"

primrec allocpageref_from :: "nat list \<Rightarrow> (heap, nat option) kern" where
  "allocpageref_from [] = retK None"
| "allocpageref_from (i # is) =
     bindK (getK (\<lambda>h. pagerefs_inuse h ! i)) (\<lambda>w.
     if w = 0xffffffff then allocpageref_from is else
     case inuse_scan 33 w 1 0 of
       None \<Rightarrow> panicK
     | Some (j, k) \<Rightarrow>
         bindK (modK (\<lambda>h. h\<lparr>pagerefs_inuse := (pagerefs_inuse h)[i := w OR k]\<rparr>)) (\<lambda>_.
         retK (Some (i * 32 + j))))"

definition allocpageref :: "(heap, nat option) kern" where
  "allocpageref = allocpageref_from [0..<INUSE_WORDS]"

definition freepageref :: "nat \<Rightarrow> (heap, unit) kern" where
  "freepageref j =
     bindK (assertK (j < NPAGEREFS)) (\<lambda>_.
     bindK (getK (\<lambda>h. pagerefs_inuse h ! (j div 32))) (\<lambda>w.
     let k = push_bit (j mod 32) 1 in
     bindK (assertK (w AND k \<noteq> 0)) (\<lambda>_.
     modK (\<lambda>h. h\<lparr>pagerefs_inuse := (pagerefs_inuse h)[j div 32 := w AND NOT k]\<rparr>))))"

text \<open>
  \<^verbatim>\<open>struct pageref **guy\<close>: the place that holds a pointer, the base of a list or the link of a page reference. \<^verbatim>\<open>remove_lists\<close> walks
  two lists in the same way, given how such a place is read and written.
\<close>

definition same_get :: "nat \<Rightarrow> heap \<Rightarrow> nat option \<Rightarrow> nat option" where
  "same_get blktype h guy = (case guy of None \<Rightarrow> sizebases h ! blktype | Some i \<Rightarrow> next_samesize (pagerefs h ! i))"

definition same_set :: "nat \<Rightarrow> nat option \<Rightarrow> nat option \<Rightarrow> heap \<Rightarrow> heap" where
  "same_set blktype guy v h = (case guy of
       None \<Rightarrow> h\<lparr>sizebases := (sizebases h)[blktype := v]\<rparr>
     | Some i \<Rightarrow> h\<lparr>pagerefs := (pagerefs h)[i := (pagerefs h ! i)\<lparr>next_samesize := v\<rparr>]\<rparr>)"

definition all_get :: "heap \<Rightarrow> nat option \<Rightarrow> nat option" where
  "all_get h guy = (case guy of None \<Rightarrow> allbase h | Some i \<Rightarrow> next_all (pagerefs h ! i))"

definition all_set :: "nat option \<Rightarrow> nat option \<Rightarrow> heap \<Rightarrow> heap" where
  "all_set guy v h = (case guy of
       None \<Rightarrow> h\<lparr>allbase := v\<rparr>
     | Some i \<Rightarrow> h\<lparr>pagerefs := (pagerefs h)[i := (pagerefs h ! i)\<lparr>next_all := v\<rparr>]\<rparr>)"

primrec remove_from :: "nat \<Rightarrow> (heap \<Rightarrow> nat option \<Rightarrow> nat option) \<Rightarrow> (nat option \<Rightarrow> nat option \<Rightarrow> heap \<Rightarrow> heap) \<Rightarrow> nat \<Rightarrow> nat option \<Rightarrow> (heap, unit) kern" where
  "remove_from 0 rd wr pr guy = panicK"
| "remove_from (Suc n) rd wr pr guy =
     bindK (getK (\<lambda>h. rd h guy)) (\<lambda>v.
     case v of
       None \<Rightarrow> retK ()
     | Some i \<Rightarrow> if i = pr then modK (\<lambda>h. wr guy (rd h (Some pr)) h) else remove_from n rd wr pr (Some i))"

definition remove_lists :: "nat \<Rightarrow> nat \<Rightarrow> (heap, unit) kern" where
  "remove_lists pr blktype =
     bindK (assertK (blktype < NSIZES)) (\<lambda>_.
     bindK (remove_from 257 (same_get blktype) (same_set blktype) pr None) (\<lambda>_.
     remove_from 257 all_get all_set pr None))"

section \<open>Blocks\<close>

definition blocktype :: "nat \<Rightarrow> ('s, nat) kern" where
  "blocktype sz = (case find (\<lambda>i. sz \<le> sizes ! i) [0..<NSIZES] of Some i \<Rightarrow> retK i | None \<Rightarrow> panicK)"

primrec find_free :: "nat \<Rightarrow> nat \<Rightarrow> nat option \<Rightarrow> (heap, nat option) kern" where
  "find_free 0 blktype pr = panicK"
| "find_free (Suc n) blktype pr =
     (case pr of
        None \<Rightarrow> retK None
      | Some i \<Rightarrow>
          bindK (getK (\<lambda>h. pagerefs h ! i)) (\<lambda>p.
          bindK (assertK (PR_BLOCKTYPE p = blktype)) (\<lambda>_.
          if nfree p > 0 then retK (Some i) else find_free n blktype (next_samesize p))))"

definition mod_pageref :: "nat \<Rightarrow> (pageref \<Rightarrow> pageref) \<Rightarrow> (heap, unit) kern" where
  "mod_pageref i f = modK (\<lambda>h. h\<lparr>pagerefs := (pagerefs h)[i := f (pagerefs h ! i)]\<rparr>)"

definition doalloc :: "nat \<Rightarrow> (heap, nat) kern" where
  "doalloc pr =
     bindK (getK (\<lambda>h. pagerefs h ! pr)) (\<lambda>p.
     bindK (assertK (freelist_offset p < PAGE_SIZE)) (\<lambda>_.
     let prpage = PR_PAGEADDR p; retptr = u32 (prpage + freelist_offset p); n = u16 (nfree p + 65535) in
     bindK (getK (\<lambda>h. ld_word (heap_mem h) retptr)) (\<lambda>fl.
     bindK (mod_pageref pr (\<lambda>p. p\<lparr>nfree := n\<rparr>)) (\<lambda>_.
     bindK (if fl \<noteq> 0 then
              bindK (assertK (n > 0)) (\<lambda>_.
              bindK (assertK (sub32 fl prpage < PAGE_SIZE)) (\<lambda>_.
              mod_pageref pr (\<lambda>p. p\<lparr>freelist_offset := u16 (sub32 fl prpage)\<rparr>)))
            else
              bindK (assertK (n = 0)) (\<lambda>_.
              mod_pageref pr (\<lambda>p. p\<lparr>freelist_offset := INVALID_OFFSET\<rparr>))) (\<lambda>_.
     retK retptr)))))"

text \<open>A fresh page: every block is put on its free list, the last one first; the page goes to the front of the two lists.\<close>

definition newpage :: "nat \<Rightarrow> nat \<Rightarrow> nat \<Rightarrow> (heap, unit) kern" where
  "newpage pr prpage blktype =
     (let sz = sizes ! blktype; n = u16 (PAGE_SIZE div sz) in
     bindK (mod_pageref pr (\<lambda>p. p\<lparr>pageaddr_and_blocktype := MKPAB prpage blktype, nfree := n\<rparr>)) (\<lambda>_.
     bindK (modK (\<lambda>h. h\<lparr>heap_mem := st_word prpage 0 (heap_mem h)\<rparr>)) (\<lambda>_.
     bindK (foldK (\<lambda>i _.
              bindK (modK (\<lambda>h. h\<lparr>heap_mem := st_word (u32 (prpage + i * sz)) (u32 (prpage + (i - 1) * sz)) (heap_mem h)\<rparr>)) (\<lambda>_.
              bindK (assertK (u32 (prpage + i * sz) \<noteq> u32 (prpage + (i - 1) * sz))) (\<lambda>_.
              retK (u32 (prpage + i * sz)))))
            [1..<n] prpage) (\<lambda>fl.
     bindK (mod_pageref pr (\<lambda>p. p\<lparr>freelist_offset := u16 (sub32 fl prpage)\<rparr>)) (\<lambda>_.
     bindK (getK (\<lambda>h. pagerefs h ! pr)) (\<lambda>p.
     bindK (assertK (freelist_offset p = (n - 1) * sz)) (\<lambda>_.
     bindK (modK (\<lambda>h. (h\<lparr>pagerefs := (pagerefs h)[pr := (pagerefs h ! pr)\<lparr>next_samesize := sizebases h ! blktype\<rparr>]\<rparr>)\<lparr>sizebases := (sizebases h)[blktype := Some pr]\<rparr>)) (\<lambda>_.
     modK (\<lambda>h. (h\<lparr>pagerefs := (pagerefs h)[pr := (pagerefs h ! pr)\<lparr>next_all := allbase h\<rparr>]\<rparr>)\<lparr>allbase := Some pr\<rparr>)))))))))"

definition subpage_kmalloc :: "nat \<Rightarrow> (heap kstate, nat) kern" where
  "subpage_kmalloc sz =
     bindK (blocktype sz) (\<lambda>blktype.
     bindK splhigh (\<lambda>spl.
     bindK (on_heap (bindK (getK (\<lambda>h. sizebases h ! blktype)) (find_free 257 blktype))) (\<lambda>pr.
     case pr of
       Some pr \<Rightarrow> bindK (on_heap (doalloc pr)) (\<lambda>retptr. bindK (splx spl) (\<lambda>_. retK retptr))
     | None \<Rightarrow>
         bindK (on_heap allocpageref) (\<lambda>pr.
         case pr of
           None \<Rightarrow> bindK (splx spl) (\<lambda>_. retK 0)
         | Some pr \<Rightarrow>
             bindK (alloc_kpages 1) (\<lambda>prpage.
             if prpage = 0 then
               bindK (on_heap (freepageref pr)) (\<lambda>_. bindK (splx spl) (\<lambda>_. retK 0))
             else
               bindK (on_heap (newpage pr prpage blktype)) (\<lambda>_.
               bindK (on_heap (doalloc pr)) (\<lambda>retptr.
               bindK (splx spl) (\<lambda>_. retK retptr))))))))"

primrec find_page :: "nat \<Rightarrow> nat \<Rightarrow> nat option \<Rightarrow> (heap, nat option) kern" where
  "find_page 0 ptraddr pr = panicK"
| "find_page (Suc n) ptraddr pr =
     (case pr of
        None \<Rightarrow> retK None
      | Some i \<Rightarrow>
          bindK (getK (\<lambda>h. pagerefs h ! i)) (\<lambda>p.
          bindK (assertK (PR_BLOCKTYPE p < NSIZES)) (\<lambda>_.
          if ptraddr \<ge> PR_PAGEADDR p \<and> ptraddr < u32 (PR_PAGEADDR p + PAGE_SIZE) then retK (Some i)
          else find_page n ptraddr (next_all p))))"

definition fill_deadbeef :: "nat \<Rightarrow> nat \<Rightarrow> (heap, unit) kern" where
  "fill_deadbeef ptr len =
     foldK (\<lambda>i _. modK (\<lambda>h. h\<lparr>heap_mem := st_word (u32 (ptr + 4 * i)) 0xdeadbeef (heap_mem h)\<rparr>)) [0..<len div 4] ()"

definition subpage_free :: "nat \<Rightarrow> nat \<Rightarrow> (heap, unit) kern" where
  "subpage_free ptraddr pr =
     bindK (getK (\<lambda>h. pagerefs h ! pr)) (\<lambda>p.
     let prpage = PR_PAGEADDR p; blktype = PR_BLOCKTYPE p; offset = sub32 ptraddr prpage in
     if offset \<ge> PAGE_SIZE \<or> offset mod sizes ! blktype \<noteq> 0 then panicK else
     bindK (fill_deadbeef ptraddr (sizes ! blktype)) (\<lambda>_.
     bindK (modK (\<lambda>h. h\<lparr>heap_mem := st_word (u32 (prpage + offset))
              (if freelist_offset p = INVALID_OFFSET then 0 else u32 (prpage + freelist_offset p)) (heap_mem h)\<rparr>)) (\<lambda>_.
     bindK (mod_pageref pr (\<lambda>p. p\<lparr>freelist_offset := u16 offset, nfree := u16 (nfree p + 1)\<rparr>)) (\<lambda>_.
     bindK (getK (\<lambda>h. nfree (pagerefs h ! pr))) (\<lambda>n.
     bindK (assertK (n \<le> PAGE_SIZE div sizes ! blktype)) (\<lambda>_.
     if n = PAGE_SIZE div sizes ! blktype then
       bindK (remove_lists pr blktype) (\<lambda>_.
       bindK (free_kpages prpage) (\<lambda>_.
       freepageref pr))
     else retK ()))))))"

text \<open>\<^verbatim>\<open>subpage_kfree\<close> returns 0 when the pointer is on one of its pages.\<close>

definition subpage_kfree :: "nat \<Rightarrow> (heap kstate, bool) kern" where
  "subpage_kfree ptr =
     bindK splhigh (\<lambda>spl.
     bindK (on_heap (bindK (getK allbase) (find_page 257 ptr))) (\<lambda>pr.
     case pr of
       None \<Rightarrow> bindK (splx spl) (\<lambda>_. retK False)
     | Some pr \<Rightarrow>
         bindK (on_heap (subpage_free ptr pr)) (\<lambda>_.
         bindK (splx spl) (\<lambda>_. retK True))))"

definition kmalloc_heap :: "nat \<Rightarrow> (heap kstate, nat) kern" where
  "kmalloc_heap sz =
     (if sz \<ge> LARGEST_SUBPAGE_SIZE then
        bindK (alloc_kpages (u32 (sz + PAGE_SIZE - 1) div PAGE_SIZE)) (\<lambda>address.
        if address = 0 then retK 0 else retK address)
      else subpage_kmalloc sz)"

definition kfree_heap :: "nat \<Rightarrow> (heap kstate, unit) kern" where
  "kfree_heap ptr =
     (if ptr = 0 then retK () else
      bindK (subpage_kfree ptr) (\<lambda>freed.
      if \<not> freed then
        bindK (assertK (ptr mod PAGE_SIZE = 0)) (\<lambda>_.
        on_heap (free_kpages ptr))
      else retK ()))"

end
