(* ===== verification/Kheap_Inv.thy ===== *)
theory Kheap_Inv
  imports Kheap
begin

text \<open>
  The invariant of the kernel heap and what each of its routines does to it: the lists run through exactly the page references in use, every
  page has a free list of distinct blocks that is linked in memory and as long as its count says, the pages are distinct and below the free
  physical memory.
\<close>

section \<open>Lists through places\<close>

text \<open>\<open>chain f g xs\<close>: starting at place \<open>g\<close>, following the pointers read by \<open>f\<close> visits \<open>xs\<close>.\<close>

fun chain :: "(nat option \<Rightarrow> nat option) \<Rightarrow> nat option \<Rightarrow> nat list \<Rightarrow> bool" where
  "chain f g [] \<longleftrightarrow> f g = None"
| "chain f g (i # is) \<longleftrightarrow> f g = Some i \<and> chain f (Some i) is"

lemma chain_cong: "chain f g xs \<Longrightarrow> f' g = f g \<Longrightarrow> (\<And>i. i \<in> set xs \<Longrightarrow> f' (Some i) = f (Some i)) \<Longrightarrow> chain f' g xs"
  by (induction xs arbitrary: g) auto

lemma chain_shift: "chain f g xs \<Longrightarrow> f' g' = f g \<Longrightarrow> (\<And>i. i \<in> set xs \<Longrightarrow> f' (Some i) = f (Some i)) \<Longrightarrow> chain f' g' xs"
  by (cases xs) (auto intro: chain_cong)

lemma remove_from_run:
  assumes "chain (rd h) g xs" and "distinct xs" and "g \<notin> Some ` set xs" and "pr \<in> set xs" and "length xs < n"
  shows "\<exists>g'. remove_from n rd wr pr g h = Some (Inr (), wr g' (rd h (Some pr)) h) \<and> (g' = g \<or> g' \<in> Some ` set xs) \<and> g' \<noteq> Some pr \<and>
    chain ((rd h)(g' := rd h (Some pr))) g (remove1 pr xs)"
  using assms
proof (induction xs arbitrary: n g)
  case (Cons x xs)
  obtain n' where n: "n = Suc n'" using Cons.prems(5) by (cases n) auto
  show ?case
  proof (cases "x = pr")
    case True
    have "chain ((rd h)(g := rd h (Some pr))) g xs"
      by (rule chain_shift [of "rd h" "Some pr" xs]) (use True Cons.prems in auto)
    moreover have "remove_from n rd wr pr g h = Some (Inr (), wr g (rd h (Some pr)) h)" using True Cons.prems(1) by (simp add: n kern_defs)
    ultimately show ?thesis using True Cons.prems(3) by (intro exI [of _ g]) (auto simp: fun_upd_def)
  next
    case False
    have "\<exists>g'. remove_from n' rd wr pr (Some x) h = Some (Inr (), wr g' (rd h (Some pr)) h) \<and> (g' = Some x \<or> g' \<in> Some ` set xs) \<and> g' \<noteq> Some pr \<and>
      chain ((rd h)(g' := rd h (Some pr))) (Some x) (remove1 pr xs)"
      by (rule Cons.IH) (use Cons.prems False n in auto)
    then obtain g' where g': "remove_from n' rd wr pr (Some x) h = Some (Inr (), wr g' (rd h (Some pr)) h)" "g' = Some x \<or> g' \<in> Some ` set xs"
      "g' \<noteq> Some pr" "chain ((rd h)(g' := rd h (Some pr))) (Some x) (remove1 pr xs)" by blast
    moreover have "remove_from n rd wr pr g h = remove_from n' rd wr pr (Some x) h" using False Cons.prems(1) by (simp add: n kern_defs)
    moreover have "g' \<noteq> g" using g'(2) Cons.prems(3) by auto
    ultimately show ?thesis using False Cons.prems(1) by (intro exI [of _ g']) (auto simp: fun_upd_def)
  qed
qed simp

section \<open>Page references in use\<close>

definition inuse :: "32 word list \<Rightarrow> nat \<Rightarrow> bool" where
  "inuse ws i \<longleftrightarrow> i < 256 \<and> bit (ws ! (i div 32)) (i mod 32)"

lemma inuse_scan_found:
  assumes "\<exists>j'. j \<le> j' \<and> j' < 32 \<and> \<not> bit w j'" and "n + j = 33"
  shows "\<exists>k. k < 32 \<and> \<not> bit w k \<and> inuse_scan n w (push_bit j 1) j = Some (k, push_bit k 1)"
  using assms
proof (induction n arbitrary: j)
  case (Suc n)
  have j: "j < 32" using Suc.prems by auto
  have z: "w AND push_bit j 1 = 0 \<longleftrightarrow> \<not> bit w j" by (simp add: and_exp_eq_0_iff_not_bit)
  have k: "push_bit j (1 :: 32 word) \<noteq> 0" using j by simp
  show ?case
  proof (cases "bit w j")
    case True
    then have "\<exists>j'. Suc j \<le> j' \<and> j' < 32 \<and> \<not> bit w j'" using Suc.prems by (metis Suc_leI le_neq_implies_less)
    then have "\<exists>k. k < 32 \<and> \<not> bit w k \<and> inuse_scan n w (push_bit (Suc j) 1) (Suc j) = Some (k, push_bit k 1)"
      using Suc.prems(2) by (intro Suc.IH) auto
    then show ?thesis using True z k by (simp add: push_bit_push_bit mult.commute)
  qed (use j z k in auto)
qed auto

lemma inuse_set:
  assumes "i < 8" "k < 32" "length ws = 8" "b \<longleftrightarrow> (\<forall>j < 32. bit w j = (if j = k then v else bit (ws ! i) j))" b
  shows "inuse (ws[i := w]) j = (if j = i * 32 + k then v else inuse ws j)"
proof -
  have "j = i * 32 + k \<longleftrightarrow> j div 32 = i \<and> j mod 32 = k" using assms(2) by auto
  moreover have "j < 256 \<longleftrightarrow> j div 32 < 8" by auto
  ultimately show ?thesis using assms by (auto simp: inuse_def nth_list_update)
qed

lemma full_word: "(w :: 32 word) \<noteq> 0xffffffff \<Longrightarrow> \<exists>j. j < 32 \<and> \<not> bit w j"
proof (rule ccontr)
  assume w: "w \<noteq> 0xffffffff" and "\<not> (\<exists>j. j < 32 \<and> \<not> bit w j)"
  then have "w = - 1" by (intro bit_word_eqI) simp
  then show False using w by simp
qed

lemma allocpageref_from_run:
  assumes "length (pagerefs_inuse h) = 8" and "set is \<subseteq> {..<8}"
  shows "(\<exists>i \<in> set is. pagerefs_inuse h ! i \<noteq> 0xffffffff \<and> (\<exists>k w. k < 32 \<and> \<not> inuse (pagerefs_inuse h) (i * 32 + k) \<and>
       (\<forall>j. inuse w j = (j = i * 32 + k \<or> inuse (pagerefs_inuse h) j)) \<and> length w = 8 \<and>
       allocpageref_from is h = Some (Inr (Some (i * 32 + k)), h\<lparr>pagerefs_inuse := w\<rparr>))) \<or>
     (\<forall>i \<in> set is. pagerefs_inuse h ! i = 0xffffffff) \<and> allocpageref_from is h = Some (Inr None, h)"
  using assms(2)
proof (induction "is")
  case (Cons i "is")
  let ?w = "pagerefs_inuse h ! i"
  show ?case
  proof (cases "?w = 0xffffffff")
    case False
    then obtain k where k: "k < 32" "\<not> bit ?w k" "inuse_scan 33 ?w 1 0 = Some (k, push_bit k 1)"
      using inuse_scan_found [of 0 ?w 33] full_word [OF False] by auto
    have "inuse ((pagerefs_inuse h)[i := ?w OR push_bit k 1]) j = (if j = i * 32 + k then True else inuse (pagerefs_inuse h) j)" for j
      by (rule inuse_set [OF _ k(1) assms(1)]) (use Cons.prems k in \<open>auto simp: bit_or_iff bit_push_bit_iff bit_1_iff bit_exp_iff\<close>)
    moreover have "\<not> inuse (pagerefs_inuse h) (i * 32 + k)" using k by (simp add: inuse_def)
    moreover have "allocpageref_from (i # is) h = Some (Inr (Some (i * 32 + k)), h\<lparr>pagerefs_inuse := (pagerefs_inuse h)[i := ?w OR push_bit k 1]\<rparr>)"
      using False k(3) by (simp add: kern_defs)
    moreover have "length ((pagerefs_inuse h)[i := ?w OR push_bit k 1]) = 8" using assms(1) by simp
    ultimately show ?thesis using False k(1) 
      by (intro disjI1 bexI [of _ i] conjI exI [of _ k] exI [of _ "(pagerefs_inuse h)[i := ?w OR push_bit k 1]"]) simp_all
  next
    case True
    then have "allocpageref_from (i # is) h = allocpageref_from is h" by (simp add: kern_defs)
    then show ?thesis using Cons.IH Cons.prems True by simp
  qed
qed (simp add: kern_defs)

lemma allocpageref_wp:
  assumes "length (pagerefs_inuse h) = 8"
    and "\<And>i w. i < 256 \<Longrightarrow> \<not> inuse (pagerefs_inuse h) i \<Longrightarrow> length w = 8 \<Longrightarrow> (\<And>j. inuse w j = (j = i \<or> inuse (pagerefs_inuse h) j)) \<Longrightarrow>
      Q (Some i) (h\<lparr>pagerefs_inuse := w\<rparr>)"
    and "(\<And>i. i < 256 \<Longrightarrow> inuse (pagerefs_inuse h) i) \<Longrightarrow> Q None h"
  shows "wpK allocpageref Q E h"
proof -
  have "set [0..<8] \<subseteq> {..<8 :: nat}" by auto
  from allocpageref_from_run [OF assms(1) this] show ?thesis
  proof
    assume "\<exists>i \<in> set [0..<8]. pagerefs_inuse h ! i \<noteq> 0xffffffff \<and> (\<exists>k w. k < 32 \<and> \<not> inuse (pagerefs_inuse h) (i * 32 + k) \<and>
         (\<forall>j. inuse w j = (j = i * 32 + k \<or> inuse (pagerefs_inuse h) j)) \<and> length w = 8 \<and>
         allocpageref_from [0..<8] h = Some (Inr (Some (i * 32 + k)), h\<lparr>pagerefs_inuse := w\<rparr>))"
    then obtain i k w where a: "i < 8" "k < 32" "\<not> inuse (pagerefs_inuse h) (i * 32 + k)" "\<forall>j. inuse w j = (j = i * 32 + k \<or> inuse (pagerefs_inuse h) j)"
        "length w = 8" "allocpageref_from [0..<8] h = Some (Inr (Some (i * 32 + k)), h\<lparr>pagerefs_inuse := w\<rparr>)"
      unfolding set_upt by (blast dest: atLeastLessThan_iff [THEN iffD1])
    then have "i * 32 + k < 256" by linarith
    then show ?thesis using a assms(2) [of "i * 32 + k" w] by (simp add: wpK_def allocpageref_def INUSE_WORDS_def)
  next
    assume f: "(\<forall>i \<in> set [0..<8]. pagerefs_inuse h ! i = 0xffffffff) \<and> allocpageref_from [0..<8] h = Some (Inr None, h)"
    have "inuse (pagerefs_inuse h) i" if i: "i < 256" for i
    proof -
      have "pagerefs_inuse h ! (i div 32) = - 1" using f i by simp
      then show ?thesis using i by (simp add: inuse_def bit_minus_1_iff)
    qed
    then show ?thesis using f assms(3) by (simp add: wpK_def allocpageref_def INUSE_WORDS_def)
  qed
qed

lemma freepageref_wp:
  assumes "length (pagerefs_inuse h) = 8" and "inuse (pagerefs_inuse h) i"
    and "\<And>w. length w = 8 \<Longrightarrow> (\<And>j. inuse w j = (j \<noteq> i \<and> inuse (pagerefs_inuse h) j)) \<Longrightarrow> Q () (h\<lparr>pagerefs_inuse := w\<rparr>)"
  shows "wpK (freepageref i) Q E h"
proof -
  let ?ws = "pagerefs_inuse h" and ?k = "push_bit (i mod 32) 1 :: 32 word"
  have i: "i < 256" "bit (?ws ! (i div 32)) (i mod 32)" using assms(2) by (auto simp: inuse_def)
  have "inuse (?ws[i div 32 := ?ws ! (i div 32) AND NOT ?k]) j = (if j = i div 32 * 32 + i mod 32 then False else inuse ?ws j)" for j
    by (rule inuse_set) (use i assms(1) in \<open>auto simp: bit_and_iff bit_not_iff bit_push_bit_iff bit_1_iff bit_exp_iff\<close>)
  then have "Q () (h\<lparr>pagerefs_inuse := ?ws[i div 32 := ?ws ! (i div 32) AND NOT ?k]\<rparr>)" using assms(1) by (intro assms(3)) auto
  moreover have "?ws ! (i div 32) AND ?k \<noteq> 0" using i(2) by (simp add: and_exp_eq_0_iff_not_bit)
  ultimately show ?thesis using i by (simp add: freepageref_def wp NPAGEREFS_def Let_def)
qed

section \<open>Pages and their free lists\<close>

lemma sizes_ok:
  assumes "b < 8"
  shows "16 \<le> sizes ! b" "sizes ! b \<le> 2048" "sizes ! b dvd 4096" "16 dvd sizes ! b" "4 dvd sizes ! b"
proof -
  have "b \<in> {0, 1, 2, 3, 4, 5, 6, 7}" using assms by auto
  then show "16 \<le> sizes ! b" "sizes ! b \<le> 2048" "sizes ! b dvd 4096" "16 dvd sizes ! b" "4 dvd sizes ! b"
    by (auto simp: sizes_def)
qed

lemma frame_bits: "bit (0xfffff000 :: nat) n \<longleftrightarrow> 12 \<le> n \<and> n < 32"
proof -
  have "(0xfffff000 :: nat) = push_bit 12 (mask 20)" by (simp add: mask_eq_exp_minus_1 push_bit_eq_mult)
  then show ?thesis by (simp only: bit_push_bit_iff bit_mask_iff) auto
qed

lemma low_bits: "bit (0xfff :: nat) n \<longleftrightarrow> n < 12"
proof -
  have "(0xfff :: nat) = mask 12" by (simp add: mask_eq_exp_minus_1)
  then show ?thesis by (simp only: bit_mask_iff) simp
qed

lemma page_bits:
  fixes pa :: nat
  assumes "pa mod 4096 = 0" and "pa < 4294967296" and "bit pa n"
  shows "12 \<le> n \<and> n < 32"
proof -
  have "take_bit 12 pa = 0" "take_bit 32 pa = pa" using assms(1,2) by (simp_all add: take_bit_eq_mod)
  then have "\<not> bit (take_bit 12 pa) n" "bit (take_bit 32 pa) n" using assms(3) by simp_all
  then show ?thesis using assms(3) by (simp add: bit_take_bit_iff)
qed

lemma MKPAB_fields:
  assumes "pa mod 4096 = 0" and "pa < 4294967296" and "b < 8"
  shows "MKPAB pa b AND PAGE_FRAME = pa" "MKPAB pa b AND 0xfff = b"
proof -
  have b: "bit b n \<Longrightarrow> n < 12" for n
  proof -
    have "take_bit 12 b = b" using assms(3) by (simp add: take_bit_eq_mod)
    then show "bit b n \<Longrightarrow> n < 12" by (metis bit_take_bit_iff)
  qed
  show "MKPAB pa b AND PAGE_FRAME = pa" unfolding MKPAB_def PAGE_FRAME_def
    by (rule bit_eqI) (use page_bits [OF assms(1,2)] in \<open>auto simp only: bit_and_iff bit_or_iff frame_bits low_bits\<close>)
  show "MKPAB pa b AND 0xfff = b" unfolding MKPAB_def PAGE_FRAME_def
    by (rule bit_eqI) (use b in \<open>auto simp only: bit_and_iff bit_or_iff frame_bits low_bits\<close>)
qed

lemma ld_st_word [simp]: "w < 4294967296 \<Longrightarrow> ld_word (st_word a w m) a = w"
  using get_put_at [of a "be32 w" m] by (simp add: ld_word_def st_word_def)

lemma ld_st_other [simp]: "a + 4 \<le> b \<or> b + 4 \<le> a \<Longrightarrow> ld_word (st_word b w m) a = ld_word m a"
  by (simp add: ld_word_def st_word_def get_put_disjoint)

lemma st_word_outside [simp]: "x < a \<or> a + 4 \<le> x \<Longrightarrow> st_word a w m x = m x"
  by (simp add: st_word_def)

definition block_at :: "nat \<Rightarrow> nat \<Rightarrow> nat \<Rightarrow> bool" where
  "block_at page sz a \<longleftrightarrow> page \<le> a \<and> a < page + 4096 \<and> (a - page) mod sz = 0"

fun fchain :: "memory \<Rightarrow> nat \<Rightarrow> nat list \<Rightarrow> bool" where
  "fchain m a [] \<longleftrightarrow> a = 0"
| "fchain m a (x # xs) \<longleftrightarrow> a = x \<and> fchain m (ld_word m x) xs"

lemma fchain_cong: "fchain m a xs \<Longrightarrow> (\<And>x. x \<in> set xs \<Longrightarrow> ld_word m' x = ld_word m x) \<Longrightarrow> fchain m' a xs"
  by (induction xs arbitrary: a) auto

definition bsize :: "pageref \<Rightarrow> nat" where
  "bsize p = sizes ! PR_BLOCKTYPE p"

definition first_free :: "nat list \<Rightarrow> nat" where
  "first_free fs = (case fs of [] \<Rightarrow> 0 | a # _ \<Rightarrow> a)"

definition page_ok :: "nat \<Rightarrow> memory \<Rightarrow> pageref \<Rightarrow> nat list \<Rightarrow> bool" where
  "page_ok lim m p fs \<longleftrightarrow> PR_BLOCKTYPE p < 8 \<and> PR_PAGEADDR p mod 4096 = 0 \<and> 2147483648 \<le> PR_PAGEADDR p \<and> PR_PAGEADDR p + 4096 \<le> lim \<and>
     distinct fs \<and> (\<forall>a \<in> set fs. block_at (PR_PAGEADDR p) (bsize p) a) \<and> nfree p = length fs \<and>
     freelist_offset p = (case fs of [] \<Rightarrow> INVALID_OFFSET | a # _ \<Rightarrow> a - PR_PAGEADDR p) \<and> fchain m (first_free fs) fs"

text \<open>The blocks of a page; a page has room for 4096 / size of them.\<close>

lemma block_at_iff:
  assumes "sz dvd 4096" and "0 < sz"
  shows "{a. block_at page sz a} = (\<lambda>k. page + k * sz) ` {..<4096 div sz}"
proof (intro equalityI subsetI)
  fix a assume "a \<in> {a. block_at page sz a}"
  then have a: "page \<le> a" "a - page < 4096" "sz dvd a - page" by (auto simp: block_at_def)
  then have "a = page + (a - page) div sz * sz" "(a - page) div sz < 4096 div sz"
    using assms by (auto simp: div_less_iff_less_mult elim!: dvdE)
  then show "a \<in> (\<lambda>k. page + k * sz) ` {..<4096 div sz}" by blast
next
  fix a assume "a \<in> (\<lambda>k. page + k * sz) ` {..<4096 div sz}"
  then obtain k where k: "a = page + k * sz" "k < 4096 div sz" by auto
  then have "k * sz < 4096 div sz * sz" using assms(2) by simp
  then have "k * sz < 4096" using assms(1) by (simp add: dvd_div_mult_self)
  then show "a \<in> {a. block_at page sz a}" using k by (simp add: block_at_def)
qed

lemma card_blocks: "sz dvd 4096 \<Longrightarrow> 0 < sz \<Longrightarrow> card {a. block_at page sz a} = 4096 div sz \<and> finite {a. block_at page sz a}"
  unfolding block_at_iff by (auto simp: card_image inj_on_def)

lemma page_count:
  assumes "page_ok lim m p fs"
  shows "length fs \<le> 4096 div bsize p" "4096 div bsize p \<le> 256" "length fs = 4096 div bsize p \<Longrightarrow> block_at (PR_PAGEADDR p) (bsize p) a \<Longrightarrow> a \<in> set fs"
proof -
  have sz: "16 \<le> bsize p" "bsize p dvd 4096" using assms sizes_ok by (auto simp: page_ok_def bsize_def)
  have c: "card {a. block_at (PR_PAGEADDR p) (bsize p) a} = 4096 div bsize p" "finite {a. block_at (PR_PAGEADDR p) (bsize p) a}"
    using card_blocks [of "bsize p"] sz by auto
  have s: "set fs \<subseteq> {a. block_at (PR_PAGEADDR p) (bsize p) a}" "card (set fs) = length fs"
    using assms by (auto simp: page_ok_def distinct_card)
  then show "length fs \<le> 4096 div bsize p" using card_mono [OF c(2) s(1)] c(1) by simp
  show "4096 div bsize p \<le> 256" using sz(1) div_le_mono2 [of 16 "bsize p" 4096] by simp
  show "a \<in> set fs" if "length fs = 4096 div bsize p" "block_at (PR_PAGEADDR p) (bsize p) a"
    using card_subset_eq [OF c(2) s(1)] s(2) c(1) that by auto
qed

lemma sub32_id [simp]: "b \<le> a \<Longrightarrow> a < 4294967296 \<Longrightarrow> sub32 a b = a - b"
proof -
  assume a: "b \<le> a" "a < 4294967296"
  then have "a + (4294967296 - b) = (a - b) + 4294967296" by simp
  then show ?thesis using a unfolding sub32_def u32_def by (metis less_imp_diff_less mod_add_self2 mod_less)
qed

lemma fchain_head: "fchain m a xs \<Longrightarrow> a = first_free xs"
  by (cases xs) (auto simp: first_free_def)

definition taken :: "pageref \<Rightarrow> nat list \<Rightarrow> pageref" where
  "taken p fs = p\<lparr>nfree := length fs, freelist_offset := (case fs of [] \<Rightarrow> INVALID_OFFSET | a # _ \<Rightarrow> a - PR_PAGEADDR p)\<rparr>"

lemma taken_fields [simp]:
  "next_samesize (taken p fs) = next_samesize p" "next_all (taken p fs) = next_all p" "PR_PAGEADDR (taken p fs) = PR_PAGEADDR p"
  "PR_BLOCKTYPE (taken p fs) = PR_BLOCKTYPE p" "bsize (taken p fs) = bsize p"
  by (simp_all add: taken_def PR_PAGEADDR_def PR_BLOCKTYPE_def bsize_def)

lemma page_ok_taken:
  "page_ok lim m p gs \<Longrightarrow> distinct fs \<Longrightarrow> (\<And>a. a \<in> set fs \<Longrightarrow> block_at (PR_PAGEADDR p) (bsize p) a) \<Longrightarrow> fchain m' (first_free fs) fs \<Longrightarrow>
     page_ok lim m' (taken p fs) fs"
  by (auto simp: page_ok_def taken_def PR_PAGEADDR_def PR_BLOCKTYPE_def bsize_def split: list.splits)

lemma doalloc_run:
  assumes "page_ok lim (heap_mem h) (pagerefs h ! i) (a # fs)" and "i < length (pagerefs h)" and "lim \<le> 4294967296"
  shows "doalloc i h = Some (Inr a, h\<lparr>pagerefs := (pagerefs h)[i := taken (pagerefs h ! i) fs]\<rparr>)"
    and "page_ok lim (heap_mem h) (taken (pagerefs h ! i) fs) fs"
proof -
  let ?p = "pagerefs h ! i"
  have p: "distinct (a # fs)" "\<forall>x \<in> set (a # fs). block_at (PR_PAGEADDR ?p) (bsize ?p) x" "nfree ?p = Suc (length fs)"
    "freelist_offset ?p = a - PR_PAGEADDR ?p" "fchain (heap_mem h) (ld_word (heap_mem h) a) fs" "PR_PAGEADDR ?p + 4096 \<le> lim" "2147483648 \<le> PR_PAGEADDR ?p"
    using assms(1) by (auto simp: page_ok_def)
  have n: "length fs < 256" using page_count [OF assms(1)] by simp
  have a: "PR_PAGEADDR ?p \<le> a" "a < PR_PAGEADDR ?p + 4096" "a - PR_PAGEADDR ?p < 4096" using p(2) by (auto simp: block_at_def)
  have u: "u16 (nfree ?p + 65535) = length fs" using n p(3) by (simp add: u16_def)
  have ld: "ld_word (heap_mem h) a = first_free fs" by (rule fchain_head [OF p(5)])
  show "doalloc i h = Some (Inr a, h\<lparr>pagerefs := (pagerefs h)[i := taken ?p fs]\<rparr>)"
  proof (cases fs)
    case Nil
    then show ?thesis using a p(3,4,6) u ld assms(2,3)
      by (simp add: doalloc_def mod_pageref_def kern_defs PAGE_SIZE_def Let_def first_free_def taken_def)
  next
    case (Cons b gs)
    then have b: "PR_PAGEADDR ?p \<le> b" "b < PR_PAGEADDR ?p + 4096" "0 < b" "b - PR_PAGEADDR ?p < 4096" using p(2,7) by (auto simp: block_at_def)
    then show ?thesis using Cons a p(3,4,6) u ld assms(2,3)
      by (simp add: doalloc_def mod_pageref_def kern_defs PAGE_SIZE_def Let_def first_free_def taken_def)
  qed
  show "page_ok lim (heap_mem h) (taken ?p fs) fs"
    by (rule page_ok_taken [OF assms(1)]) (use p ld in auto)
qed

lemma fill_deadbeef_wp:
  assumes "4 dvd len" and "ptr + len \<le> 4294967296" and "\<And>m. (\<And>x. x < ptr \<or> ptr + len \<le> x \<Longrightarrow> m x = heap_mem h x) \<Longrightarrow> Q () (h\<lparr>heap_mem := m\<rparr>)"
  shows "wpK (fill_deadbeef ptr len) Q E h"
proof -
  let ?I = "\<lambda>k (_ :: unit) h'. \<exists>m. h' = h\<lparr>heap_mem := m\<rparr> \<and> (\<forall>x. x < ptr \<or> ptr + len \<le> x \<longrightarrow> m x = heap_mem h x)"
  have "wpK (fill_deadbeef ptr len) (?I (len div 4)) E h" unfolding fill_deadbeef_def
  proof (rule foldK_upt_wp)
    fix k b s assume k: "0 \<le> k" "k < len div 4" and i: "?I k b s"
    then have "4 * k + 4 \<le> len" by auto
    then have "\<And>x m. x < ptr \<or> ptr + len \<le> x \<Longrightarrow> st_word (u32 (ptr + 4 * k)) 0xdeadbeef m x = m x" using assms(2) by (intro st_word_outside) auto
    then show "wpK (modK (\<lambda>h. h\<lparr>heap_mem := st_word (u32 (ptr + 4 * k)) 0xdeadbeef (heap_mem h)\<rparr>)) (?I (Suc k)) E s"
      using i by (auto simp: wp)
  next
    show "?I 0 () h" by (intro exI [of _ "heap_mem h"]) simp
  qed simp
  then show ?thesis by (rule wp_mono) (use assms(3) in auto)
qed

lemma newpage_run:
  assumes "pr < length (pagerefs h)" and "prpage mod 4096 = 0" and "2147483648 \<le> prpage" and "prpage + 4096 \<le> lim" and "lim \<le> 4294967296" and "b < 8"
  shows "\<exists>m p fs. newpage pr prpage b h = Some (Inr (), h\<lparr>pagerefs := (pagerefs h)[pr := p], sizebases := (sizebases h)[b := Some pr], allbase := Some pr, heap_mem := m\<rparr>) \<and>
    next_samesize p = sizebases h ! b \<and> next_all p = allbase h \<and> PR_PAGEADDR p = prpage \<and> PR_BLOCKTYPE p = b \<and>
    (\<forall>x. x < prpage \<or> prpage + 4096 \<le> x \<longrightarrow> m x = heap_mem h x) \<and> page_ok lim m p fs \<and> fs \<noteq> [] \<and> length fs = 4096 div sizes ! b"
proof -
  define sz where "sz = sizes ! b"
  define n where "n = 4096 div sz"
  let ?p0 = "(pagerefs h ! pr)\<lparr>pageaddr_and_blocktype := MKPAB prpage b, nfree := n\<rparr>" and ?blk = "\<lambda>k. prpage + k * sz"
  let ?h0 = "h\<lparr>pagerefs := (pagerefs h)[pr := ?p0]\<rparr>"
  note sz = sizes_ok [OF assms(6), folded sz_def]
  have n: "n * sz = 4096" using sz(3) by (simp add: n_def)
  have n0: "0 < n" using n by (cases n) auto
  have n1: "n \<le> 256" using sz(1) div_le_mono2 [of 16 sz 4096] by (simp add: n_def)
  have lt: "?blk k + sz \<le> prpage + 4096" if "k < n" for k
  proof -
    have "Suc k * sz \<le> n * sz" using that by (intro mult_le_mono1) simp
    then show ?thesis using n by simp
  qed
  let ?I = "\<lambda>k fl h'. fl = ?blk (k - 1) \<and> (\<exists>m. h' = ?h0\<lparr>heap_mem := m\<rparr> \<and> fchain m fl (rev (map ?blk [0..<k])) \<and>
      (\<forall>x. x < prpage \<or> prpage + 4096 \<le> x \<longrightarrow> m x = heap_mem h x))"
  let ?body = "\<lambda>i (_ :: nat). bindK (modK (\<lambda>h. h\<lparr>heap_mem := st_word (u32 (?blk i)) (u32 (?blk (i - 1))) (heap_mem h)\<rparr>)) (\<lambda>_.
              bindK (assertK (u32 (?blk i) \<noteq> u32 (?blk (i - 1)))) (\<lambda>_. retK (u32 (?blk i))))"
  have loop: "wpK (foldK ?body [1..<n] prpage) (?I n) (\<lambda>_ _. False) (?h0\<lparr>heap_mem := st_word prpage 0 (heap_mem ?h0)\<rparr>)"
  proof (rule foldK_upt_wp [where I = ?I])
    fix k fl s assume k: "1 \<le> k" "k < n" and i: "?I k fl s"
    then obtain m where m: "s = ?h0\<lparr>heap_mem := m\<rparr>" "fchain m (?blk (k - 1)) (rev (map ?blk [0..<k]))" "\<forall>x. x < prpage \<or> prpage + 4096 \<le> x \<longrightarrow> m x = heap_mem h x"
      by auto
    have b: "?blk k + sz \<le> prpage + 4096" "?blk (k - 1) + sz = ?blk k" using lt [OF k(2)] k(1) by (auto simp: mult_eq_if)
    have "ld_word (st_word (?blk k) (?blk (k - 1)) m) x = ld_word m x" if x: "x \<in> set (rev (map ?blk [0..<k]))" for x
    proof -
      have "\<exists>j < k. x = ?blk j" using x by auto
      then obtain j where j: "x = ?blk j" "j < k" by blast
      then have "Suc j * sz \<le> k * sz" by (intro mult_le_mono1) simp
      then show ?thesis using j sz(1) by (intro ld_st_other) simp
    qed
    then have "fchain (st_word (?blk k) (?blk (k - 1)) m) (?blk (k - 1)) (rev (map ?blk [0..<k]))" by (rule fchain_cong [OF m(2)])
    moreover have "\<forall>x. x < prpage \<or> prpage + 4096 \<le> x \<longrightarrow> st_word (?blk k) (?blk (k - 1)) m x = heap_mem h x" using m(3) b sz(1) by auto
    ultimately show "wpK (?body k fl) (?I (Suc k)) (\<lambda>_ _. False) s" using b m(1) sz(1) assms(4,5) by (auto simp: wp)
  next
    show "?I 1 prpage (?h0\<lparr>heap_mem := st_word prpage 0 (heap_mem ?h0)\<rparr>)" by (auto intro!: exI [of _ "st_word prpage 0 (heap_mem h)"])
  qed (use n0 in simp)
  have bits: "MKPAB prpage b AND PAGE_FRAME = prpage" "MKPAB prpage b AND 0xfff = b"
    using MKPAB_fields [of prpage b] assms by auto
  let ?Q = "\<lambda>(_ :: unit) h'. \<exists>m p fs. h' = h\<lparr>pagerefs := (pagerefs h)[pr := p], sizebases := (sizebases h)[b := Some pr], allbase := Some pr, heap_mem := m\<rparr> \<and>
    next_samesize p = sizebases h ! b \<and> next_all p = allbase h \<and> PR_PAGEADDR p = prpage \<and> PR_BLOCKTYPE p = b \<and>
    (\<forall>x. x < prpage \<or> prpage + 4096 \<le> x \<longrightarrow> m x = heap_mem h x) \<and> page_ok lim m p fs \<and> fs \<noteq> [] \<and> length fs = n"
  have un: "u16 n = n" using n1 by simp
  have "wpK (newpage pr prpage b) ?Q (\<lambda>_ _. False) h"
    unfolding newpage_def Let_def mod_pageref_def wp_bind wp_mod PAGE_SIZE_def sz_def [symmetric] n_def [symmetric] un
    apply (rule wp_mono [OF loop])
    subgoal premises prems for fl s
    proof -
      obtain m where m: "fl = ?blk (n - 1)" "s = ?h0\<lparr>heap_mem := m\<rparr>" "fchain m fl (rev (map ?blk [0..<n]))" "\<forall>x. x < prpage \<or> prpage + 4096 \<le> x \<longrightarrow> m x = heap_mem h x"
        using prems by blast
      have "(n - 1) * sz + sz = 4096" using n n0 by (cases n) auto
      then have off: "u16 (sub32 fl prpage) = (n - 1) * sz" "(n - 1) * sz < 4096" using m(1) sz(1) assms(4,5) by auto
      let ?p = "(pagerefs h ! pr)\<lparr>pageaddr_and_blocktype := MKPAB prpage b, nfree := n, freelist_offset := (n - 1) * sz, next_samesize := sizebases h ! b, next_all := allbase h\<rparr>"
      let ?fs = "rev (map ?blk [0..<n])"
      have f: "?fs = ?blk (n - 1) # rev (map ?blk [0..<n - 1])" using n0 by (cases n) auto
      have "PR_PAGEADDR ?p = prpage" "PR_BLOCKTYPE ?p = b" "bsize ?p = sz" using bits by (auto simp: PR_PAGEADDR_def PR_BLOCKTYPE_def bsize_def sz_def)
      moreover have "block_at prpage sz a" if "a \<in> set ?fs" for a using that block_at_iff [OF sz(3), of prpage] sz(1) by (auto simp: n_def)
      moreover have "distinct ?fs" using sz(1) by (auto simp: distinct_map inj_on_def)
      ultimately have pg: "page_ok lim m ?p ?fs" using m(1,3) f assms n0 by (simp add: page_ok_def first_free_def)
      show ?thesis
        using assms(1) m(2,4) off pg bits n0 \<open>PR_PAGEADDR ?p = prpage\<close> \<open>PR_BLOCKTYPE ?p = b\<close>
        by (simp add: wp) (intro exI [of _ m] exI [of _ ?p] exI [of _ ?fs] conjI; simp)
    qed
    by simp
  then show ?thesis unfolding sz_def [symmetric] n_def [symmetric] using wp_no_error by fastforce
qed

end
