(* ===== verification/Kheap_Rep.thy ===== *)
theory Kheap_Rep
  imports Kheap_Inv
begin

text \<open>
  The kernel heap as a whole: what ties its lists, its map of page references, its pages and its memory together, how each routine changes
  that, and when a block is in use.
\<close>

section \<open>The whole heap\<close>

definition heap_rep :: "nat set \<Rightarrow> heap \<Rightarrow> nat list \<Rightarrow> (nat \<Rightarrow> nat list) \<Rightarrow> (nat \<Rightarrow> nat list) \<Rightarrow> bool" where
  "heap_rep X h al sm fs \<longleftrightarrow> length (pagerefs h) = 256 \<and> length (pagerefs_inuse h) = 8 \<and> length (sizebases h) = 8 \<and>
     chain (all_get h) None al \<and> distinct al \<and> X \<inter> set al = {} \<and> (\<forall>i. inuse (pagerefs_inuse h) i \<longleftrightarrow> i \<in> set al \<union> X) \<and>
     (\<forall>b < 8. chain (same_get b h) None (sm b) \<and> distinct (sm b) \<and> set (sm b) = {i \<in> set al. PR_BLOCKTYPE (pagerefs h ! i) = b}) \<and>
     (\<forall>i \<in> set al. page_ok (2147483648 + firstpaddr h) (heap_mem h) (pagerefs h ! i) (fs i)) \<and>
     inj_on (\<lambda>i. PR_PAGEADDR (pagerefs h ! i)) (set al) \<and>
     0 < firstpaddr h \<and> firstpaddr h mod 4096 = 0 \<and> firstpaddr h \<le> lastpaddr h \<and> lastpaddr h \<le> 532676608"

lemma rep_index: "heap_rep X h al sm fs \<Longrightarrow> i \<in> set al \<union> X \<Longrightarrow> i < 256"
  unfolding heap_rep_def inuse_def by blast

lemma rep_length:
  assumes "heap_rep X h al sm fs"
  shows "length al \<le> 256" "b < 8 \<Longrightarrow> length (sm b) \<le> 256"
proof -
  have "set al \<subseteq> {..<256}" using rep_index [OF assms] by auto
  moreover have "b < 8 \<Longrightarrow> set (sm b) \<subseteq> set al \<and> distinct (sm b)" using assms by (auto simp: heap_rep_def)
  moreover have "distinct al" using assms by (simp add: heap_rep_def)
  ultimately show "length al \<le> 256" "b < 8 \<Longrightarrow> length (sm b) \<le> 256"
    using card_mono [of "{..<256 :: nat}" "set al"] card_mono [of "{..<256 :: nat}" "set (sm b)"] distinct_card by fastforce+
qed

lemma nth_upd_field: "f p = f (xs ! i) \<Longrightarrow> f (xs[i := p] ! j) = f (xs ! j)"
  by (cases "i < length xs") (auto simp: nth_list_update list_update_beyond not_less)

lemma rep_page_ok: "heap_rep X h al sm fs \<Longrightarrow> i \<in> set al \<Longrightarrow> page_ok (2147483648 + firstpaddr h) (heap_mem h) (pagerefs h ! i) (fs i)"
  by (simp add: heap_rep_def)

lemma rep_inj: "heap_rep X h al sm fs \<Longrightarrow> inj_on (\<lambda>i. PR_PAGEADDR (pagerefs h ! i)) (set al)"
  by (simp add: heap_rep_def)

lemma multiples_apart: "(x :: nat) mod 4096 = 0 \<Longrightarrow> y mod 4096 = 0 \<Longrightarrow> x \<noteq> y \<Longrightarrow> x + 4096 \<le> y \<or> y + 4096 \<le> x"
proof -
  assume xy: "x mod 4096 = 0" "y mod 4096 = 0" "x \<noteq> y"
  obtain a b where "x = 4096 * a" "y = 4096 * b" using xy(1,2) unfolding mod_eq_0_iff_dvd by (auto elim!: dvdE)
  then show ?thesis using xy(3) by (cases "a < b") auto
qed

text \<open>Pages do not overlap.\<close>

lemma pages_apart:
  assumes "heap_rep X h al sm fs" and "i \<in> set al" and "j \<in> set al" and "i \<noteq> j"
  shows "PR_PAGEADDR (pagerefs h ! i) + 4096 \<le> PR_PAGEADDR (pagerefs h ! j) \<or> PR_PAGEADDR (pagerefs h ! j) + 4096 \<le> PR_PAGEADDR (pagerefs h ! i)"
proof -
  have "PR_PAGEADDR (pagerefs h ! i) mod 4096 = 0" "PR_PAGEADDR (pagerefs h ! j) mod 4096 = 0" "PR_PAGEADDR (pagerefs h ! i) \<noteq> PR_PAGEADDR (pagerefs h ! j)"
    using rep_page_ok [OF assms(1)] rep_inj [OF assms(1)] assms(2-4) by (auto simp: page_ok_def dest: inj_onD)
  then show ?thesis by (rule multiples_apart)
qed

lemma block_in_page: "block_at page sz a \<Longrightarrow> sz dvd 4096 \<Longrightarrow> page \<le> a \<and> a + sz \<le> page + 4096"
proof -
  assume b: "block_at page sz a" and sz: "sz dvd 4096"
  have "sz dvd a - page" using b by (auto simp: block_at_def)
  then obtain k where k: "a - page = sz * k" ..
  obtain n where n: "4096 = sz * n" using sz ..
  have "sz * k < sz * n" using b k n by (auto simp: block_at_def)
  then have "sz * Suc k \<le> sz * n" by (intro mult_le_mono2) simp
  then show ?thesis using b k n by (simp add: block_at_def)
qed

lemma page_ok_mem:
  assumes p: "page_ok lim m p fs" and m: "\<And>x. PR_PAGEADDR p \<le> x \<Longrightarrow> x < PR_PAGEADDR p + 4096 \<Longrightarrow> m' x = m x"
  shows "page_ok lim m' p fs"
proof -
  have sz: "bsize p dvd 4096" "16 \<le> bsize p" using p sizes_ok by (auto simp: page_ok_def bsize_def)
  have "ld_word m' a = ld_word m a" if a: "a \<in> set fs" for a
  proof -
    have "PR_PAGEADDR p \<le> a \<and> a + 16 \<le> PR_PAGEADDR p + 4096"
      using p a block_in_page [OF _ sz(1)] sz(2) by (fastforce simp: page_ok_def)
    then have "get_at a 4 m' = get_at a 4 m" by (intro nth_equalityI) (auto intro!: m)
    then show ?thesis by (simp add: ld_word_def)
  qed
  then show ?thesis using p by (auto simp: page_ok_def intro: fchain_cong)
qed

lemma page_ok_fields:
  "pageaddr_and_blocktype p' = pageaddr_and_blocktype p \<Longrightarrow> nfree p' = nfree p \<Longrightarrow> freelist_offset p' = freelist_offset p \<Longrightarrow>
     page_ok lim m p' fs = page_ok lim m p fs"
  by (simp add: page_ok_def bsize_def PR_PAGEADDR_def PR_BLOCKTYPE_def cong: list.case_cong)

text \<open>A change of one page: its free list and count, and memory only there.\<close>

lemma rep_page:
  assumes r: "heap_rep X h al sm fs" and i: "i \<in> set al"
    and p: "next_samesize p = next_samesize (pagerefs h ! i)" "next_all p = next_all (pagerefs h ! i)" "pageaddr_and_blocktype p = pageaddr_and_blocktype (pagerefs h ! i)"
    and m: "\<And>x. x < PR_PAGEADDR p \<or> PR_PAGEADDR p + 4096 \<le> x \<Longrightarrow> m x = heap_mem h x"
    and ok: "page_ok (2147483648 + firstpaddr h) m p gs"
  shows "heap_rep X (h\<lparr>pagerefs := (pagerefs h)[i := p], heap_mem := m\<rparr>) al sm (fs(i := gs))"
proof -
  let ?h = "h\<lparr>pagerefs := (pagerefs h)[i := p], heap_mem := m\<rparr>"
  have f: "PR_PAGEADDR ((pagerefs h)[i := p] ! j) = PR_PAGEADDR (pagerefs h ! j)" "PR_BLOCKTYPE ((pagerefs h)[i := p] ! j) = PR_BLOCKTYPE (pagerefs h ! j)" for j
    using p(3) by (auto intro!: nth_upd_field simp: PR_PAGEADDR_def PR_BLOCKTYPE_def)
  have g: "all_get ?h = all_get h" "same_get b ?h = same_get b h" for b
    using p(1,2) by (auto simp: fun_eq_iff all_get_def same_get_def nth_upd_field split: option.splits)
  have "page_ok (2147483648 + firstpaddr h) m ((pagerefs h)[i := p] ! j) ((fs(i := gs)) j)" if j: "j \<in> set al" for j
  proof (cases "j = i")
    case True
    then show ?thesis using ok rep_index [OF r] i r by (simp add: heap_rep_def)
  next
    case False
    have "PR_PAGEADDR p = PR_PAGEADDR (pagerefs h ! i)" using p(3) by (simp add: PR_PAGEADDR_def)
    then show ?thesis using pages_apart [OF r i j] False by (auto intro!: page_ok_mem [OF rep_page_ok [OF r j]] m)
  qed
  then show ?thesis using r by (simp add: heap_rep_def f g)
qed

text \<open>The two searches.\<close>

lemma find_free_run:
  assumes "chain (same_get b h) g xs" and "length xs < n" and "\<And>i. i \<in> set xs \<Longrightarrow> PR_BLOCKTYPE (pagerefs h ! i) = b"
  shows "\<exists>r. find_free n b (same_get b h g) h = Some (Inr r, h) \<and>
    (case r of None \<Rightarrow> \<forall>i \<in> set xs. nfree (pagerefs h ! i) = 0 | Some i \<Rightarrow> i \<in> set xs \<and> 0 < nfree (pagerefs h ! i))"
  using assms
proof (induction xs arbitrary: g n)
  case Nil
  then show ?case by (cases n) (auto simp: kern_defs)
next
  case (Cons x xs)
  obtain n' where n: "n = Suc n'" using Cons.prems(2) by (cases n) auto
  show ?case
  proof (cases "0 < nfree (pagerefs h ! x)")
    case True
    then show ?thesis using Cons.prems(1,3) by (auto simp: n kern_defs)
  next
    case False
    have "\<exists>r. find_free n' b (same_get b h (Some x)) h = Some (Inr r, h) \<and>
      (case r of None \<Rightarrow> \<forall>i \<in> set xs. nfree (pagerefs h ! i) = 0 | Some i \<Rightarrow> i \<in> set xs \<and> 0 < nfree (pagerefs h ! i))"
      by (rule Cons.IH) (use Cons.prems n in auto)
    moreover have "find_free n b (same_get b h g) h = find_free n' b (same_get b h (Some x)) h"
      using Cons.prems(1,3) False by (simp add: n kern_defs same_get_def)
    ultimately show ?thesis using False by (auto split: option.splits)
  qed
qed

definition in_page :: "heap \<Rightarrow> nat \<Rightarrow> nat \<Rightarrow> bool" where
  "in_page h i a \<longleftrightarrow> PR_PAGEADDR (pagerefs h ! i) \<le> a \<and> a < PR_PAGEADDR (pagerefs h ! i) + 4096"

lemma find_page_run:
  assumes "chain (all_get h) g xs" and "length xs < n" and "\<And>i. i \<in> set xs \<Longrightarrow> PR_BLOCKTYPE (pagerefs h ! i) < 8 \<and> PR_PAGEADDR (pagerefs h ! i) + 4096 < 4294967296"
  shows "\<exists>r. find_page n a (all_get h g) h = Some (Inr r, h) \<and>
    (case r of None \<Rightarrow> \<forall>i \<in> set xs. \<not> in_page h i a | Some i \<Rightarrow> i \<in> set xs \<and> in_page h i a)"
  using assms
proof (induction xs arbitrary: g n)
  case Nil
  then show ?case by (cases n) (auto simp: kern_defs)
next
  case (Cons x xs)
  obtain n' where n: "n = Suc n'" using Cons.prems(2) by (cases n) auto
  have x: "PR_BLOCKTYPE (pagerefs h ! x) < 8" "PR_PAGEADDR (pagerefs h ! x) + 4096 < 4294967296" using Cons.prems(3) by auto
  show ?case
  proof (cases "in_page h x a")
    case True
    then show ?thesis using Cons.prems(1) x by (auto simp: n kern_defs in_page_def NSIZES_def PAGE_SIZE_def)
  next
    case False
    have "\<exists>r. find_page n' a (all_get h (Some x)) h = Some (Inr r, h) \<and>
      (case r of None \<Rightarrow> \<forall>i \<in> set xs. \<not> in_page h i a | Some i \<Rightarrow> i \<in> set xs \<and> in_page h i a)"
      by (rule Cons.IH) (use Cons.prems n in auto)
    moreover have "find_page n a (all_get h g) h = find_page n' a (all_get h (Some x)) h"
      using Cons.prems(1) x False by (auto simp: n kern_defs all_get_def in_page_def NSIZES_def PAGE_SIZE_def)
    ultimately show ?thesis using False by (auto split: option.splits)
  qed
qed

text \<open>A page reference taken or given back, and a page added or removed.\<close>

lemma rep_inuse:
  assumes "heap_rep X h al sm fs" and "length w = 8" and "\<And>i. inuse w i \<longleftrightarrow> i \<in> set al \<union> Y" and "Y \<inter> set al = {}"
  shows "heap_rep Y (h\<lparr>pagerefs_inuse := w\<rparr>) al sm fs"
proof -
  have "all_get (h\<lparr>pagerefs_inuse := w\<rparr>) = all_get h" "same_get b (h\<lparr>pagerefs_inuse := w\<rparr>) = same_get b h" for b
    by (auto simp: fun_eq_iff all_get_def same_get_def split: option.splits)
  then show ?thesis using assms by (simp add: heap_rep_def)
qed

lemma page_ok_lim: "page_ok lim m p fs \<Longrightarrow> lim \<le> lim' \<Longrightarrow> page_ok lim' m p fs"
  by (auto simp: page_ok_def)

lemma rep_first:
  assumes "heap_rep X h al sm fs" and "firstpaddr h + n \<le> lastpaddr h" and "n mod 4096 = 0"
  shows "heap_rep X (h\<lparr>firstpaddr := firstpaddr h + n\<rparr>) al sm fs"
proof -
  have "all_get (h\<lparr>firstpaddr := firstpaddr h + n\<rparr>) = all_get h" "same_get b (h\<lparr>firstpaddr := firstpaddr h + n\<rparr>) = same_get b h" for b
    by (auto simp: fun_eq_iff all_get_def same_get_def split: option.splits)
  moreover have "(firstpaddr h + n) mod 4096 = 0" using assms by (simp add: heap_rep_def mod_add_eq [symmetric])
  ultimately show ?thesis using assms page_ok_lim [of "2147483648 + firstpaddr h" _ _ _ "2147483648 + (firstpaddr h + n)"] by (auto simp: heap_rep_def)
qed

lemma newpage_rep:
  assumes r: "heap_rep {pr} h al sm fs" and lt: "firstpaddr h + 4096 \<le> lastpaddr h" and b: "b < 8"
  defines "page \<equiv> 2147483648 + firstpaddr h"
  shows "\<exists>h' f. newpage pr page b (h\<lparr>firstpaddr := firstpaddr h + 4096\<rparr>) = Some (Inr (), h') \<and>
    heap_rep {} h' (pr # al) (sm(b := pr # sm b)) (fs(pr := f)) \<and> f \<noteq> [] \<and> length f = 4096 div sizes ! b \<and>
    PR_PAGEADDR (pagerefs h' ! pr) = page \<and> PR_BLOCKTYPE (pagerefs h' ! pr) = b \<and> (\<forall>i. i \<noteq> pr \<longrightarrow> pagerefs h' ! i = pagerefs h ! i) \<and>
    (\<forall>x. x < page \<or> page + 4096 \<le> x \<longrightarrow> heap_mem h' x = heap_mem h x) \<and> firstpaddr h' = firstpaddr h + 4096 \<and> lastpaddr h' = lastpaddr h"
proof -
  let ?h0 = "h\<lparr>firstpaddr := firstpaddr h + 4096\<rparr>"
  have pr: "pr < 256" "pr \<notin> set al" using rep_index [OF r] r by (auto simp: heap_rep_def)
  have len: "length (pagerefs h) = 256" "length (sizebases h) = 8" using r by (auto simp: heap_rep_def)
  have fp: "firstpaddr h mod 4096 = 0" "lastpaddr h \<le> 532676608" using r by (auto simp: heap_rep_def)
  have "page mod 4096 = 0" using fp(1) by (simp add: page_def mod_add_eq [symmetric])
  moreover have "page + 4096 \<le> 2147483648 + firstpaddr ?h0" "2147483648 + firstpaddr ?h0 \<le> 4294967296" using lt fp by (auto simp: page_def)
  moreover have "2147483648 \<le> page" "pr < length (pagerefs ?h0)" using pr len by (simp_all add: page_def)
  ultimately have "\<exists>m p fs. newpage pr page b ?h0 = Some (Inr (), ?h0\<lparr>pagerefs := (pagerefs ?h0)[pr := p], sizebases := (sizebases ?h0)[b := Some pr], allbase := Some pr, heap_mem := m\<rparr>) \<and>
    next_samesize p = sizebases ?h0 ! b \<and> next_all p = allbase ?h0 \<and> PR_PAGEADDR p = page \<and> PR_BLOCKTYPE p = b \<and>
    (\<forall>x. x < page \<or> page + 4096 \<le> x \<longrightarrow> m x = heap_mem ?h0 x) \<and> page_ok (2147483648 + firstpaddr ?h0) m p fs \<and> fs \<noteq> [] \<and> length fs = 4096 div sizes ! b"
    using b by (intro newpage_run)
  then obtain m p f where n: "newpage pr page b ?h0 = Some (Inr (), ?h0\<lparr>pagerefs := (pagerefs ?h0)[pr := p], sizebases := (sizebases ?h0)[b := Some pr], allbase := Some pr, heap_mem := m\<rparr>)"
    and p: "next_samesize p = sizebases ?h0 ! b" "next_all p = allbase ?h0" "PR_PAGEADDR p = page" "PR_BLOCKTYPE p = b"
    and m: "\<forall>x. x < page \<or> page + 4096 \<le> x \<longrightarrow> m x = heap_mem ?h0 x" and f: "page_ok (2147483648 + firstpaddr ?h0) m p f" "f \<noteq> []" "length f = 4096 div sizes ! b"
    by blast
  let ?h' = "?h0\<lparr>pagerefs := (pagerefs h)[pr := p], sizebases := (sizebases h)[b := Some pr], allbase := Some pr, heap_mem := m\<rparr>"
  have old: "pagerefs ?h' ! i = pagerefs h ! i" if "i \<noteq> pr" for i using that by simp
  have oldal: "(pagerefs h)[pr := p] ! i = pagerefs h ! i" if "i \<in> set al" for i using that pr(2) by (metis nth_list_update_neq)
  have new: "pagerefs ?h' ! pr = p" using pr len by simp
  have below: "PR_PAGEADDR (pagerefs h ! i) + 4096 \<le> page" if "i \<in> set al" for i using rep_page_ok [OF r that] by (simp add: page_ok_def page_def)
  have ca: "chain (all_get h) None al" using r by (simp add: heap_rep_def)
  have "chain (all_get ?h') (Some pr) al"
    by (rule chain_shift [OF ca]) (use p pr len in \<open>auto simp: all_get_def nth_list_update\<close>)
  then have c1: "chain (all_get ?h') None (pr # al)" by (simp add: all_get_def)
  have c2: "chain (same_get c ?h') None ((sm(b := pr # sm b)) c) \<and> distinct ((sm(b := pr # sm b)) c) \<and>
      set ((sm(b := pr # sm b)) c) = {i \<in> set (pr # al). PR_BLOCKTYPE (pagerefs ?h' ! i) = c}" if c: "c < 8" for c
  proof -
    have s: "chain (same_get c h) None (sm c)" "distinct (sm c)" "set (sm c) = {i \<in> set al. PR_BLOCKTYPE (pagerefs h ! i) = c}"
      using r c unfolding heap_rep_def by blast+
    have "chain (same_get c ?h') (if c = b then Some pr else None) (sm c)"
      by (rule chain_shift [OF s(1)]) (use s(3) pr len c p in \<open>auto simp: same_get_def nth_list_update\<close>)
    moreover have "{i \<in> set (pr # al). PR_BLOCKTYPE (pagerefs ?h' ! i) = c} = (if c = b then insert pr (set (sm c)) else set (sm c))"
      unfolding s(3) using new p(4) by (auto simp: oldal)
    moreover have "same_get b ?h' None = Some pr" using len(2) b by (simp add: same_get_def)
    ultimately show ?thesis using s(2,3) pr(2) by (cases "c = b") simp_all
  qed
  have "page_ok (2147483648 + firstpaddr ?h0) m (pagerefs ?h' ! i) ((fs(pr := f)) i)" if i: "i \<in> set (pr # al)" for i
  proof (cases "i = pr")
    case False
    then have al: "i \<in> set al" using i by simp
    have "page_ok (2147483648 + firstpaddr ?h0) m (pagerefs h ! i) (fs i)"
      by (rule page_ok_mem [OF page_ok_lim [OF rep_page_ok [OF r al]]]) (use below [OF al] m in auto)
    then show ?thesis using False old [OF False] by simp
  qed (use f new in simp)
  moreover have "inj_on (\<lambda>i. PR_PAGEADDR (pagerefs ?h' ! i)) (set (pr # al))"
  proof -
    have "inj_on (\<lambda>i. PR_PAGEADDR (pagerefs ?h' ! i)) (set al)" using rep_inj [OF r] by (simp add: inj_on_def oldal)
    moreover have "PR_PAGEADDR (pagerefs ?h' ! pr) \<notin> (\<lambda>i. PR_PAGEADDR (pagerefs ?h' ! i)) ` set al"
    proof
      assume "PR_PAGEADDR (pagerefs ?h' ! pr) \<in> (\<lambda>i. PR_PAGEADDR (pagerefs ?h' ! i)) ` set al"
      then obtain i where i: "i \<in> set al" "page = PR_PAGEADDR (pagerefs h ! i)" using new p(3) oldal by auto
      then show False using below [OF i(1)] by simp
    qed
    ultimately show ?thesis unfolding list.set inj_on_insert by blast
  qed
  moreover have "(firstpaddr h + 4096) mod 4096 = 0" using fp by simp
  moreover have "\<forall>i. inuse (pagerefs_inuse ?h') i \<longleftrightarrow> i \<in> set (pr # al) \<union> {}" using r by (auto simp: heap_rep_def)
  ultimately have "heap_rep {} ?h' (pr # al) (sm(b := pr # sm b)) (fs(pr := f))"
    using r c1 c2 pr lt fp by (simp add: heap_rep_def)
  then show ?thesis using n f new p m old by (intro exI [of _ ?h'] exI [of _ f]) simp
qed

text \<open>Writing a link.\<close>

definition links_only :: "heap \<Rightarrow> heap \<Rightarrow> bool" where
  "links_only h h' \<longleftrightarrow> length (pagerefs h') = length (pagerefs h) \<and> length (sizebases h') = length (sizebases h) \<and> pagerefs_inuse h' = pagerefs_inuse h \<and>
     heap_mem h' = heap_mem h \<and> firstpaddr h' = firstpaddr h \<and> lastpaddr h' = lastpaddr h \<and>
     (\<forall>i. pageaddr_and_blocktype (pagerefs h' ! i) = pageaddr_and_blocktype (pagerefs h ! i) \<and> nfree (pagerefs h' ! i) = nfree (pagerefs h ! i) \<and>
        freelist_offset (pagerefs h' ! i) = freelist_offset (pagerefs h ! i))"

lemma links_only_set: "links_only h (same_set b g v h)" "links_only h (all_set g v h)"
  by (auto simp: links_only_def same_set_def all_set_def nth_upd_field split: option.splits)

lemma links_only_trans: "links_only h h' \<Longrightarrow> links_only h' h'' \<Longrightarrow> links_only h h''"
  by (simp add: links_only_def)

lemma get_set:
  assumes "b < length (sizebases h)" and "\<And>i. g = Some i \<Longrightarrow> i < length (pagerefs h)"
  shows "same_get b (same_set b g v h) = (same_get b h)(g := v)" "all_get (all_set g v h) = (all_get h)(g := v)"
  using assms by (auto simp: fun_eq_iff same_get_def same_set_def all_get_def all_set_def nth_list_update split: option.splits)

lemma get_set_other:
  "all_get (same_set b g v h) = all_get h" "same_get c (all_set g v h) = same_get c h"
  "c \<noteq> b \<Longrightarrow> g \<noteq> Some i \<Longrightarrow> same_get c (same_set b g v h) (Some i) = same_get c h (Some i)" "c \<noteq> b \<Longrightarrow> same_get c (same_set b g v h) None = same_get c h None"
  by (auto simp: fun_eq_iff same_get_def same_set_def all_get_def all_set_def nth_upd_field split: option.splits) (metis nth_list_update_neq)

lemma rep_same:
  assumes "heap_rep X h al sm fs" and "c < 8"
  shows "chain (same_get c h) None (sm c)" "distinct (sm c)" "set (sm c) = {i \<in> set al. PR_BLOCKTYPE (pagerefs h ! i) = c}"
  using assms unfolding heap_rep_def by blast+

lemma rep_all:
  assumes "heap_rep X h al sm fs"
  shows "chain (all_get h) None al" "distinct al" "length (pagerefs h) = 256" "length (sizebases h) = 8" "length (pagerefs_inuse h) = 8"
  using assms unfolding heap_rep_def by blast+

lemma remove_rep:
  assumes r: "heap_rep {} h al sm fs" and pr: "pr \<in> set al" and b: "b = PR_BLOCKTYPE (pagerefs h ! pr)"
  shows "\<exists>h'. remove_lists pr b h = Some (Inr (), h') \<and> links_only h h' \<and> heap_rep {pr} h' (remove1 pr al) (sm(b := remove1 pr (sm b))) fs"
proof -
  note a = rep_all [OF r]
  have b8: "b < 8" using rep_page_ok [OF r pr] b by (simp add: page_ok_def)
  note sb = rep_same [OF r b8]
  have "pr \<in> set (sm b)" using sb(3) pr b by simp
  moreover have "length (sm b) < 257" using rep_length(2) [OF r b8] by simp
  ultimately obtain g where g: "remove_from 257 (same_get b) (same_set b) pr None h = Some (Inr (), same_set b g (same_get b h (Some pr)) h)"
    "g = None \<or> g \<in> Some ` set (sm b)" "chain ((same_get b h)(g := same_get b h (Some pr))) None (remove1 pr (sm b))"
    using remove_from_run [of "same_get b" h None "sm b" pr 257 "same_set b"] sb(1,2) by blast
  define h1 where "h1 = same_set b g (same_get b h (Some pr)) h"
  have gi: "i < 256" if "g = Some i" for i using that g(2) sb(3) rep_index [OF r] by auto
  have h1: "same_get b h1 = (same_get b h)(g := same_get b h (Some pr))" "all_get h1 = all_get h" "links_only h h1"
    using get_set(1) [of b h g] a b8 gi links_only_set by (auto simp: h1_def get_set_other)
  have "length al < 257" using rep_length(1) [OF r] by simp
  moreover have "chain (all_get h1) None al" using a(1) h1(2) by simp
  ultimately obtain g' where g': "remove_from 257 all_get all_set pr None h1 = Some (Inr (), all_set g' (all_get h1 (Some pr)) h1)"
    "g' = None \<or> g' \<in> Some ` set al" "chain ((all_get h1)(g' := all_get h1 (Some pr))) None (remove1 pr al)"
    using remove_from_run [of all_get h1 None al pr 257 all_set] a(2) pr by blast
  define h2 where "h2 = all_set g' (all_get h1 (Some pr)) h1"
  have l1: "length (sizebases h1) = 8" "length (pagerefs h1) = 256" using h1(3) a by (auto simp: links_only_def)
  have gi': "i < 256" if "g' = Some i" for i using that g'(2) rep_index [OF r] by auto
  have h2: "all_get h2 = (all_get h1)(g' := all_get h1 (Some pr))" "\<And>c. same_get c h2 = same_get c h1" "links_only h h2"
    using get_set(2) [of b h1 g'] l1 b8 gi' links_only_trans [OF h1(3) links_only_set(2)] by (auto simp: h2_def get_set_other)
  have pg: "PR_PAGEADDR (pagerefs h2 ! i) = PR_PAGEADDR (pagerefs h ! i)" "PR_BLOCKTYPE (pagerefs h2 ! i) = PR_BLOCKTYPE (pagerefs h ! i)"
    "page_ok lim m (pagerefs h2 ! i) f = page_ok lim m (pagerefs h ! i) f" for i lim m f
    using h2(3) page_ok_fields [of "pagerefs h2 ! i" "pagerefs h ! i"] by (simp_all add: links_only_def PR_PAGEADDR_def PR_BLOCKTYPE_def)
  have same: "chain (same_get c h2) None ((sm(b := remove1 pr (sm b))) c) \<and> distinct ((sm(b := remove1 pr (sm b))) c) \<and>
      set ((sm(b := remove1 pr (sm b))) c) = {i \<in> set (remove1 pr al). PR_BLOCKTYPE (pagerefs h2 ! i) = c}" if c: "c < 8" for c
  proof (cases "c = b")
    case True
    then show ?thesis using h1(1) h2(2) g(3) sb a(2) pg by (auto simp: set_remove1_eq)
  next
    case False
    note sc = rep_same [OF r c]
    have "chain (same_get c h1) None (sm c)"
      by (rule chain_cong [OF sc(1)]) (use False g(2) sc(3) sb(3) in \<open>auto simp: h1_def intro!: get_set_other\<close>)
    then show ?thesis using False h2(2) sc a(2) pg b by (auto simp: set_remove1_eq)
  qed
  have "heap_rep {pr} h2 (remove1 pr al) (sm(b := remove1 pr (sm b))) fs"
    using r same g'(3) h2(1,3) pg a(2) pr
    by (simp add: heap_rep_def links_only_def set_remove1_eq inj_on_def) blast
  moreover have "remove_lists pr b h = Some (Inr (), h2)" using g(1) g'(1) b8 by (simp add: remove_lists_def kern_defs NSIZES_def h1_def h2_def)
  ultimately show ?thesis using h2(3) by blast
qed

section \<open>Blocks in use\<close>

definition pagea :: "heap \<Rightarrow> nat \<Rightarrow> nat" where
  "pagea h i = PR_PAGEADDR (pagerefs h ! i)"

definition blks :: "heap \<Rightarrow> nat \<Rightarrow> nat" where
  "blks h i = bsize (pagerefs h ! i)"

text \<open>\<open>n\<close> bytes at \<open>p\<close> are in use: on a page, in a block that is not free; or on pages of their own.\<close>

definition live_at :: "heap \<Rightarrow> nat list \<Rightarrow> (nat \<Rightarrow> nat list) \<Rightarrow> nat \<Rightarrow> nat \<Rightarrow> bool" where
  "live_at h al fs p n \<longleftrightarrow>
     (\<exists>i \<in> set al. block_at (pagea h i) (blks h i) p \<and> p \<notin> set (fs i) \<and> n \<le> blks h i) \<or>
     p mod 4096 = 0 \<and> 2147483648 \<le> p \<and> p + n \<le> 2147483648 + firstpaddr h \<and> 0 < n \<and> (\<forall>i \<in> set al. pagea h i + 4096 \<le> p \<or> p + n \<le> pagea h i)"

definition apart :: "(nat \<rightharpoonup> nat) \<Rightarrow> bool" where
  "apart L \<longleftrightarrow> (\<forall>p q n m. L p = Some n \<longrightarrow> L q = Some m \<longrightarrow> p \<noteq> q \<longrightarrow> p + n \<le> q \<or> q + m \<le> p)"

definition room :: "heap \<Rightarrow> nat set \<Rightarrow> (nat \<Rightarrow> nat list) \<Rightarrow> bool" where
  "room h A fs \<longleftrightarrow> (\<forall>i \<in> A. length (fs i) < 4096 div blks h i)"

definition heap_inv :: "heap \<Rightarrow> (nat \<rightharpoonup> nat) \<Rightarrow> bool" where
  "heap_inv h L \<longleftrightarrow> (\<exists>al sm fs. heap_rep {} h al sm fs \<and> room h (set al) fs \<and> (\<forall>p n. L p = Some n \<longrightarrow> live_at h al fs p n)) \<and> apart L"

lemma page_facts:
  assumes "heap_rep X h al sm fs" and "i \<in> set al"
  shows "pagea h i mod 4096 = 0" "2147483648 \<le> pagea h i" "pagea h i + 4096 \<le> 2147483648 + firstpaddr h" "blks h i dvd 4096" "16 dvd blks h i" "16 \<le> blks h i"
    "a \<in> set (fs i) \<Longrightarrow> block_at (pagea h i) (blks h i) a" "distinct (fs i)"
  using rep_page_ok [OF assms] sizes_ok by (auto simp: page_ok_def pagea_def blks_def bsize_def)

lemma live_bounds:
  assumes r: "heap_rep X h al sm fs" and l: "live_at h al fs p n"
  shows "2147483648 \<le> p" "p < 2147483648 + firstpaddr h" "p + n \<le> 2147483648 + firstpaddr h" "p mod 16 = 0"
proof -
  have "2147483648 \<le> p \<and> p < 2147483648 + firstpaddr h \<and> p + n \<le> 2147483648 + firstpaddr h \<and> 16 dvd p"
    using l unfolding live_at_def
  proof
    assume "\<exists>i \<in> set al. block_at (pagea h i) (blks h i) p \<and> p \<notin> set (fs i) \<and> n \<le> blks h i"
    then obtain i where i: "i \<in> set al" "block_at (pagea h i) (blks h i) p" "n \<le> blks h i" by blast
    note f = page_facts [OF r i(1)]
    have "16 dvd p - pagea h i" using i(2) f(5) by (auto simp: block_at_def intro: dvd_trans)
    moreover have "16 dvd pagea h i" using f(1) by (auto intro: dvd_trans [of _ 4096])
    ultimately have "16 dvd p - pagea h i + pagea h i" by (rule dvd_add)
    then show ?thesis using block_in_page [OF i(2) f(4)] f i(3) by simp
  next
    assume "p mod 4096 = 0 \<and> 2147483648 \<le> p \<and> p + n \<le> 2147483648 + firstpaddr h \<and> 0 < n \<and> (\<forall>i \<in> set al. pagea h i + 4096 \<le> p \<or> p + n \<le> pagea h i)"
    then show ?thesis by (auto intro: dvd_trans [of _ 4096])
  qed
  then show "2147483648 \<le> p" "p < 2147483648 + firstpaddr h" "p + n \<le> 2147483648 + firstpaddr h" "p mod 16 = 0" by auto
qed

lemma blocks_apart:
  assumes "block_at page sz a" and "block_at page sz b" and "a \<noteq> b"
  shows "a + sz \<le> b \<or> b + sz \<le> a"
proof -
  have "sz dvd a - page" "sz dvd b - page" using assms(1,2) by (auto simp: block_at_def)
  then obtain j k where jk: "a - page = sz * j" "b - page = sz * k" by (auto elim!: dvdE)
  then have "j \<noteq> k" using assms by (auto simp: block_at_def)
  then have "sz * Suc j \<le> sz * k \<or> sz * Suc k \<le> sz * j" by (auto simp: not_less_eq_eq intro!: mult_le_mono2 simp del: mult_Suc_right)
  then show ?thesis using jk assms(1,2) by (auto simp: block_at_def)
qed

text \<open>A block of a page does not overlap any other block in use.\<close>

lemma live_apart:
  assumes r: "heap_rep X h al sm fs" and l: "live_at h al fs q m" and i: "i \<in> set al" and a: "block_at (pagea h i) (blks h i) a" and ne: "q \<noteq> a"
  shows "q + m \<le> a \<or> a + blks h i \<le> q"
  using l unfolding live_at_def
proof
  assume "\<exists>i \<in> set al. block_at (pagea h i) (blks h i) q \<and> q \<notin> set (fs i) \<and> m \<le> blks h i"
  then obtain j where j: "j \<in> set al" "block_at (pagea h j) (blks h j) q" "m \<le> blks h j" by blast
  show ?thesis
  proof (cases "j = i")
    case True
    then show ?thesis using blocks_apart [of "pagea h i" "blks h i" q a] j a ne by auto
  next
    case False
    then show ?thesis using pages_apart [OF r i j(1)] block_in_page [OF a page_facts(4) [OF r i]] block_in_page [OF j(2) page_facts(4) [OF r j(1)]] j(3)
      by (auto simp: pagea_def)
  qed
next
  assume "q mod 4096 = 0 \<and> 2147483648 \<le> q \<and> q + m \<le> 2147483648 + firstpaddr h \<and> 0 < m \<and> (\<forall>i \<in> set al. pagea h i + 4096 \<le> q \<or> q + m \<le> pagea h i)"
  then show ?thesis using i block_in_page [OF a page_facts(4) [OF r i]] by fastforce
qed

lemma free_not_live:
  assumes r: "heap_rep X h al sm fs" and l: "live_at h al fs q m" and i: "i \<in> set al" and a: "a \<in> set (fs i)"
  shows "q \<noteq> a"
proof
  assume "q = a"
  note b = block_in_page [OF page_facts(7) [OF r i a] page_facts(4) [OF r i]]
  have "16 \<le> blks h i" by (rule page_facts(6) [OF r i])
  show False using l unfolding live_at_def
  proof
    assume "\<exists>i \<in> set al. block_at (pagea h i) (blks h i) q \<and> q \<notin> set (fs i) \<and> m \<le> blks h i"
    then obtain j where j: "j \<in> set al" "block_at (pagea h j) (blks h j) q" "q \<notin> set (fs j)" by blast
    then have "j \<noteq> i" using a \<open>q = a\<close> by auto
    then show False using pages_apart [OF r i j(1)] b block_in_page [OF j(2) page_facts(4) [OF r j(1)]] page_facts(6) [OF r j(1)] \<open>q = a\<close> \<open>16 \<le> blks h i\<close>
      by (auto simp: pagea_def)
  next
    assume "q mod 4096 = 0 \<and> 2147483648 \<le> q \<and> q + m \<le> 2147483648 + firstpaddr h \<and> 0 < m \<and> (\<forall>i \<in> set al. pagea h i + 4096 \<le> q \<or> q + m \<le> pagea h i)"
    then show False using i b \<open>q = a\<close> \<open>16 \<le> blks h i\<close> by fastforce
  qed
qed

end
