(* ===== verification/Kheap_Safe.thy ===== *)
theory Kheap_Safe
  imports Kheap_Rep
begin

text \<open>
  \<^verbatim>\<open>kmalloc\<close> and \<^verbatim>\<open>kfree\<close> on a heap in order: what each returns, that the blocks of the caller are disjoint and left alone, and that the heap is in
  order afterwards. The caller's blocks are a map from addresses to sizes.
\<close>

section \<open>Allocation\<close>

lemma taken_pab [simp]: "pageaddr_and_blocktype (taken p fs) = pageaddr_and_blocktype p" "nfree (taken p fs) = length fs"
  by (simp_all add: taken_def)

lemma heap_invI:
  "heap_rep {} h al sm fs \<Longrightarrow> room h (set al) fs \<Longrightarrow> (\<And>p n. L p = Some n \<Longrightarrow> live_at h al fs p n) \<Longrightarrow> apart L \<Longrightarrow> heap_inv h L"
  unfolding heap_inv_def by blast

lemma apart_insert:
  assumes "apart L" and "\<And>q m. L q = Some m \<Longrightarrow> q + m \<le> a \<or> a + n \<le> q"
  shows "apart (L(a \<mapsto> n))"
  using assms unfolding apart_def by (auto; meson)

lemma apart_delete: "apart L \<Longrightarrow> apart (L(a := None))"
  by (auto simp: apart_def)

text \<open>A block stays in use while pages are added above the memory used so far, and free lists shrink.\<close>

lemma live_grow:
  assumes "live_at h al fs q m" and h': "firstpaddr h \<le> firstpaddr h'" "\<And>i. i \<in> set al \<Longrightarrow> pagea h' i = pagea h i \<and> blks h' i = blks h i"
    and al: "set al \<subseteq> set al'" "\<And>i. i \<in> set al' - set al \<Longrightarrow> 2147483648 + firstpaddr h \<le> pagea h' i" and fs: "\<And>i. i \<in> set al \<Longrightarrow> set (fs' i) \<subseteq> set (fs i)"
  shows "live_at h' al' fs' q m"
  using assms(1) unfolding live_at_def
proof
  assume "\<exists>i \<in> set al. block_at (pagea h i) (blks h i) q \<and> q \<notin> set (fs i) \<and> m \<le> blks h i"
  then show "(\<exists>i \<in> set al'. block_at (pagea h' i) (blks h' i) q \<and> q \<notin> set (fs' i) \<and> m \<le> blks h' i) \<or>
     q mod 4096 = 0 \<and> 2147483648 \<le> q \<and> q + m \<le> 2147483648 + firstpaddr h' \<and> 0 < m \<and> (\<forall>i \<in> set al'. pagea h' i + 4096 \<le> q \<or> q + m \<le> pagea h' i)"
    using h'(2) al(1) fs by (metis in_mono)
next
  assume b: "q mod 4096 = 0 \<and> 2147483648 \<le> q \<and> q + m \<le> 2147483648 + firstpaddr h \<and> 0 < m \<and> (\<forall>i \<in> set al. pagea h i + 4096 \<le> q \<or> q + m \<le> pagea h i)"
  have "pagea h' i + 4096 \<le> q \<or> q + m \<le> pagea h' i" if "i \<in> set al'" for i
    using b h'(2) al(2) [of i] that by (cases "i \<in> set al") fastforce+
  then show "(\<exists>i \<in> set al'. block_at (pagea h' i) (blks h' i) q \<and> q \<notin> set (fs' i) \<and> m \<le> blks h' i) \<or>
     q mod 4096 = 0 \<and> 2147483648 \<le> q \<and> q + m \<le> 2147483648 + firstpaddr h' \<and> 0 < m \<and> (\<forall>i \<in> set al'. pagea h' i + 4096 \<le> q \<or> q + m \<le> pagea h' i)"
    using b h'(1) by auto
qed

text \<open>From a page with a free block.\<close>

lemma alloc_page:
  assumes r: "heap_rep {} h al sm fs" and rm: "room h (set al - {i}) fs" and l: "\<And>p n. L p = Some n \<Longrightarrow> live_at h al fs p n" and d: "apart L"
    and i: "i \<in> set al" and f: "fs i = a # gs" and sz: "sz \<le> blks h i"
  shows "\<exists>h'. doalloc i h = Some (Inr a, h') \<and> heap_mem h' = heap_mem h \<and> lastpaddr h' = lastpaddr h \<and> firstpaddr h' = firstpaddr h \<and>
    heap_inv h' (L(a \<mapsto> sz)) \<and> a \<notin> dom L \<and> a \<noteq> 0"
proof -
  let ?p = "taken (pagerefs h ! i) gs" and ?h = "h\<lparr>pagerefs := (pagerefs h)[i := taken (pagerefs h ! i) gs]\<rparr>"
  have lim: "2147483648 + firstpaddr h \<le> 4294967296" "i < length (pagerefs h)" using r rep_index [OF r] i by (auto simp: heap_rep_def)
  have p: "page_ok (2147483648 + firstpaddr h) (heap_mem h) (pagerefs h ! i) (a # gs)" using rep_page_ok [OF r i] f by simp
  note d' = doalloc_run [OF p lim(2,1)]
  have "heap_rep {} (h\<lparr>pagerefs := (pagerefs h)[i := ?p], heap_mem := heap_mem h\<rparr>) al sm (fs(i := gs))"
    by (rule rep_page [OF r i]) (use d'(2) in auto)
  then have r': "heap_rep {} ?h al sm (fs(i := gs))" by simp
  have pg: "pagea ?h j = pagea h j" "blks ?h j = blks h j" for j
    by (auto simp: pagea_def blks_def bsize_def PR_PAGEADDR_def PR_BLOCKTYPE_def nth_upd_field [of pageaddr_and_blocktype])
  note fi = page_facts [OF r i]
  have a: "block_at (pagea h i) (blks h i) a" using fi(7) f by simp
  have new: "live_at ?h al (fs(i := gs)) a sz" using i a sz pg fi(8) f by (auto simp: live_at_def)
  have old: "live_at ?h al (fs(i := gs)) q m" if "L q = Some m" for q m
    by (rule live_grow [OF l [OF that]]) (use f pg in auto)
  have ne: "q \<noteq> a" if "L q = Some m" for q m using free_not_live [OF r l [OF that] i] f by simp
  have "apart (L(a \<mapsto> sz))"
  proof (rule apart_insert [OF d])
    fix q m assume "L q = Some m"
    then show "q + m \<le> a \<or> a + sz \<le> q" using live_apart [OF r l i a] ne sz by fastforce
  qed
  moreover have "room ?h (set al) (fs(i := gs))"
  proof -
    have "length gs < 4096 div blks h i" using page_count(1) [OF p] by (simp add: blks_def)
    then show ?thesis using rm pg by (auto simp: room_def)
  qed
  ultimately have "heap_inv ?h (L(a \<mapsto> sz))" using new old by (intro heap_invI [OF r']) (auto split: if_splits)
  moreover have "a \<notin> dom L" using ne by blast
  moreover have "a \<noteq> 0" using a fi(2) by (auto simp: block_at_def)
  ultimately show ?thesis using d'(1) by (intro exI [of _ ?h]) simp
qed


text \<open>From a fresh page.\<close>

lemma alloc_fresh:
  assumes r: "heap_rep {pr} h al sm fs" and rm: "room h (set al) fs" and l: "\<And>p n. L p = Some n \<Longrightarrow> live_at h al fs p n" and d: "apart L"
    and lt: "firstpaddr h + 4096 \<le> lastpaddr h" and b: "b < 8" and sz: "sz \<le> sizes ! b"
  shows "\<exists>h1 a h2. newpage pr (2147483648 + firstpaddr h) b (h\<lparr>firstpaddr := firstpaddr h + 4096\<rparr>) = Some (Inr (), h1) \<and> doalloc pr h1 = Some (Inr a, h2) \<and>
    (\<forall>x < 2147483648 + firstpaddr h. heap_mem h2 x = heap_mem h x) \<and> lastpaddr h2 = lastpaddr h \<and> firstpaddr h2 = firstpaddr h + 4096 \<and> heap_inv h2 (L(a \<mapsto> sz)) \<and> a \<notin> dom L \<and> a \<noteq> 0"
proof -
  obtain h1 f where n: "newpage pr (2147483648 + firstpaddr h) b (h\<lparr>firstpaddr := firstpaddr h + 4096\<rparr>) = Some (Inr (), h1)"
    and r1: "heap_rep {} h1 (pr # al) (sm(b := pr # sm b)) (fs(pr := f))" and f: "f \<noteq> []"
    and pr: "PR_PAGEADDR (pagerefs h1 ! pr) = 2147483648 + firstpaddr h" "PR_BLOCKTYPE (pagerefs h1 ! pr) = b"
    and old: "\<forall>i. i \<noteq> pr \<longrightarrow> pagerefs h1 ! i = pagerefs h ! i" and m: "\<forall>x. x < 2147483648 + firstpaddr h \<or> 2147483648 + firstpaddr h + 4096 \<le> x \<longrightarrow> heap_mem h1 x = heap_mem h x"
    and fp: "firstpaddr h1 = firstpaddr h + 4096" "lastpaddr h1 = lastpaddr h"
    using newpage_rep [OF r lt b] by blast
  have nal: "pr \<notin> set al" using r by (auto simp: heap_rep_def)
  then have pg: "pagea h1 i = pagea h i" "blks h1 i = blks h i" if "i \<in> set al" for i using old that by (auto simp: pagea_def blks_def)
  have l1: "live_at h1 (pr # al) (fs(pr := f)) q n" if "L q = Some n" for q n
    by (rule live_grow [OF l [OF that]]) (use pg fp pr nal in \<open>auto simp: pagea_def\<close>)
  obtain a gs where ag: "f = a # gs" using f by (cases f) auto
  have "room h1 (set (pr # al) - {pr}) (fs(pr := f))" using rm pg by (auto simp: room_def)
  moreover have "sz \<le> blks h1 pr" using sz pr by (simp add: blks_def bsize_def)
  ultimately obtain h2 where "doalloc pr h1 = Some (Inr a, h2)" "heap_mem h2 = heap_mem h1" "lastpaddr h2 = lastpaddr h1" "firstpaddr h2 = firstpaddr h1" "heap_inv h2 (L(a \<mapsto> sz))" "a \<notin> dom L" "a \<noteq> 0"
    using alloc_page [OF r1 _ l1 d, of pr a gs sz] ag by auto
  then show ?thesis using n m fp by (intro exI [of _ h1] exI [of _ a] exI [of _ h2]) auto
qed

text \<open>Whole pages.\<close>

lemma ram_run:
  assumes "heap_rep X h al sm fs" and "n \<le> 524288"
  shows "ram_stealmem n h = (if firstpaddr h + n * 4096 > lastpaddr h then Some (Inr 0, h)
    else Some (Inr (firstpaddr h), h\<lparr>firstpaddr := firstpaddr h + n * 4096\<rparr>))" "0 < firstpaddr h" "firstpaddr h < 532676609"
proof -
  show fp: "0 < firstpaddr h" "firstpaddr h < 532676609" using assms(1) by (auto simp: heap_rep_def)
  have "n * 4096 \<le> 2147483648" using assms(2) by simp
  then show "ram_stealmem n h = (if firstpaddr h + n * 4096 > lastpaddr h then Some (Inr 0, h)
    else Some (Inr (firstpaddr h), h\<lparr>firstpaddr := firstpaddr h + n * 4096\<rparr>))"
    using fp by (simp add: ram_stealmem_def PAGE_SIZE_def kern_defs Let_def)
qed

lemma alloc_kpages_run:
  assumes "heap_rep X (world s) al sm fs" and "n \<le> 524288"
  shows "alloc_kpages n s = (if firstpaddr (world s) + n * 4096 > lastpaddr (world s) then Some (Inr 0, s)
    else Some (Inr (2147483648 + firstpaddr (world s)), s\<lparr>world := (world s)\<lparr>firstpaddr := firstpaddr (world s) + n * 4096\<rparr>\<rparr>))"
  using ram_run [OF assms]
  by (simp add: alloc_kpages_def getppages_def on_heap_def splhigh_def splx_def kern_defs PADDR_TO_KVADDR_def MIPS_KSEG0_def add.commute)

lemma alloc_big:
  assumes r: "heap_rep {} h al sm fs" and rm: "room h (set al) fs" and l: "\<And>p n. L p = Some n \<Longrightarrow> live_at h al fs p n" and d: "apart L"
    and lt: "firstpaddr h + n * 4096 \<le> lastpaddr h" and sz: "0 < sz" "sz \<le> n * 4096"
  shows "heap_inv (h\<lparr>firstpaddr := firstpaddr h + n * 4096\<rparr>) (L(2147483648 + firstpaddr h \<mapsto> sz)) \<and> 2147483648 + firstpaddr h \<notin> dom L"
proof -
  let ?h = "h\<lparr>firstpaddr := firstpaddr h + n * 4096\<rparr>" and ?a = "2147483648 + firstpaddr h"
  have r': "heap_rep {} ?h al sm fs" by (rule rep_first [OF r lt]) simp
  have pg: "pagea ?h i = pagea h i" "blks ?h i = blks h i" for i by (simp_all add: pagea_def blks_def)
  have old: "live_at ?h al fs q m" if "L q = Some m" for q m
    by (rule live_grow [OF l [OF that]]) (use pg in auto)
  have "firstpaddr h mod 4096 = 0" using r by (simp add: heap_rep_def)
  then have "?a mod 4096 = 0" by (simp add: mod_add_eq [symmetric])
  then have new: "live_at ?h al fs ?a sz" using page_facts(3) [OF r] sz by (auto simp: live_at_def pg)
  have "q \<noteq> ?a \<and> q + m \<le> ?a" if "L q = Some m" for q m using live_bounds [OF r l [OF that]] by auto
  then have "apart (L(?a \<mapsto> sz))" "?a \<notin> dom L" using apart_insert [OF d] by blast+
  moreover have "room ?h (set al) fs" using rm pg by (simp add: room_def)
  ultimately show ?thesis using new old by (intro conjI heap_invI [OF r']) (auto split: if_splits)
qed

lemma blocktype_run:
  assumes "sz < 2048"
  shows "\<exists>b < 8. sz \<le> sizes ! b \<and> blocktype sz s = Some (Inr b, s)"
proof -
  have "[0..<NSIZES] = [0, 1, 2, 3, 4, 5, 6, 7]" by (simp add: NSIZES_def upt_rec)
  then show ?thesis using assms by (simp add: blocktype_def sizes_def retK_def)
qed

definition kept :: "(nat \<rightharpoonup> nat) \<Rightarrow> heap \<Rightarrow> heap \<Rightarrow> bool" where
  "kept L h h' \<longleftrightarrow> lastpaddr h' = lastpaddr h \<and> (\<forall>q m x. L q = Some m \<longrightarrow> q \<le> x \<longrightarrow> x < q + m \<longrightarrow> heap_mem h' x = heap_mem h x)"

text \<open>The fresh memory an allocation can need, and when it may fail: without that much memory left, or for a small block with all page references in use.\<close>

definition fresh :: "nat \<Rightarrow> nat" where
  "fresh sz = (if sz < 2048 then 4096 else (sz + 4095) div 4096 * 4096)"

definition exhausted :: "nat \<Rightarrow> heap \<Rightarrow> bool" where
  "exhausted sz h \<longleftrightarrow> lastpaddr h < firstpaddr h + fresh sz \<or> sz < 2048 \<and> (\<forall>i < 256. inuse (pagerefs_inuse h) i)"

definition allocated :: "(nat \<rightharpoonup> nat) \<Rightarrow> nat \<Rightarrow> heap \<Rightarrow> nat \<Rightarrow> heap \<Rightarrow> bool" where
  "allocated L sz h r h' \<longleftrightarrow> kept L h h' \<and> firstpaddr h \<le> firstpaddr h' \<and> firstpaddr h' \<le> firstpaddr h + fresh sz \<and> (r = 0 \<longrightarrow> exhausted sz h) \<and> (if r = 0 then heap_inv h' L else r \<notin> dom L \<and> heap_inv h' (L(r \<mapsto> sz)))"

lemma subpage_new_run:
  assumes inv: "heap_inv (world s) L" and small: "sz < 2048" and r: "heap_rep {} (world s) al sm fs" and rm: "room (world s) (set al) fs"
    and l: "\<And>p n. L p = Some n \<Longrightarrow> live_at (world s) al fs p n" and d: "apart L"
    and b: "b < 8" "sz \<le> sizes ! b" "\<And>t :: heap kstate. blocktype sz t = Some (Inr b, t)"
    and f: "find_free 257 b (sizebases (world s) ! b) (world s) = Some (Inr None, world s)"
  shows "\<exists>r h'. subpage_kmalloc sz s = Some (Inr r, s\<lparr>world := h'\<rparr>) \<and> allocated L sz (world s) r h'"
proof -
  let ?h = "world s"
  have ext: "live_at (?h\<lparr>pagerefs_inuse := w\<rparr>) al fs q n = live_at ?h al fs q n" "room (?h\<lparr>pagerefs_inuse := w\<rparr>) A fs = room ?h A fs" for w q n A
    by (simp_all add: live_at_def room_def pagea_def blks_def)
  have ap: "wpK allocpageref (\<lambda>r h'. (\<exists>i w. r = Some i \<and> h' = ?h\<lparr>pagerefs_inuse := w\<rparr> \<and> i < 256 \<and> \<not> inuse (pagerefs_inuse ?h) i \<and> length w = 8 \<and>
      (\<forall>j. inuse w j = (j = i \<or> inuse (pagerefs_inuse ?h) j))) \<or> r = None \<and> h' = ?h \<and> (\<forall>i < 256. inuse (pagerefs_inuse ?h) i)) (\<lambda>_ _. False) ?h"
    by (rule allocpageref_wp [OF rep_all(5) [OF r]]) auto
  from wp_no_error [OF ap] consider (full) "allocpageref ?h = Some (Inr None, ?h)" "\<forall>i < 256. inuse (pagerefs_inuse ?h) i"
    | (ref) i w where "allocpageref ?h = Some (Inr (Some i), ?h\<lparr>pagerefs_inuse := w\<rparr>)" "\<not> inuse (pagerefs_inuse ?h) i" "length w = 8"
        "\<forall>j. inuse w j = (j = i \<or> inuse (pagerefs_inuse ?h) j)"
    by blast
  then show ?thesis
  proof cases
    case full
    then have "subpage_kmalloc sz s = Some (Inr 0, s)" using f b(3) by (simp add: subpage_kmalloc_def on_heap_def splhigh_def splx_def kern_defs)
    then show ?thesis using inv full(2) small by (intro exI [of _ 0] exI [of _ ?h]) (simp add: allocated_def kept_def exhausted_def)
  next
    case ref
    let ?h1 = "?h\<lparr>pagerefs_inuse := w\<rparr>"
    have u: "inuse (pagerefs_inuse ?h) j \<longleftrightarrow> j \<in> set al" for j using r by (auto simp: heap_rep_def)
    have r1: "heap_rep {i} ?h1 al sm fs" by (rule rep_inuse [OF r ref(3)]) (use ref(2,4) u in auto)
    have fp: "firstpaddr ?h1 = firstpaddr ?h" "lastpaddr ?h1 = lastpaddr ?h" "heap_mem ?h1 = heap_mem ?h" by simp_all
    have ak: "alloc_kpages 1 (s\<lparr>curspl := 15, world := ?h1\<rparr>) = (if firstpaddr ?h + 4096 > lastpaddr ?h then Some (Inr 0, s\<lparr>curspl := 15, world := ?h1\<rparr>)
        else Some (Inr (2147483648 + firstpaddr ?h), s\<lparr>curspl := 15, world := ?h1\<lparr>firstpaddr := firstpaddr ?h + 4096\<rparr>\<rparr>))"
      using alloc_kpages_run [of "{i}" "s\<lparr>curspl := 15, world := ?h1\<rparr>" al sm fs 1] r1 by simp
    show ?thesis
    proof (cases "firstpaddr ?h + 4096 > lastpaddr ?h")
      case True
      have fr: "wpK (freepageref i) (\<lambda>_ h'. \<exists>w'. h' = ?h1\<lparr>pagerefs_inuse := w'\<rparr> \<and> length w' = 8 \<and> (\<forall>j. inuse w' j = (j \<noteq> i \<and> inuse w j))) (\<lambda>_ _. False) ?h1"
        by (rule freepageref_wp) (use ref in auto)
      from wp_no_error [OF fr] obtain w' where w': "freepageref i ?h1 = Some (Inr (), ?h\<lparr>pagerefs_inuse := w'\<rparr>)" "length w' = 8" "\<forall>j. inuse w' j = (j \<noteq> i \<and> inuse w j)"
        by fastforce
      have "heap_rep {} (?h\<lparr>pagerefs_inuse := w'\<rparr>) al sm fs" by (rule rep_inuse [OF r w'(2)]) (use w'(3) ref u in auto)
      then have "heap_inv (?h\<lparr>pagerefs_inuse := w'\<rparr>) L" by (rule heap_invI) (use ext rm l d in auto)
      then show ?thesis using f b(3) ref(1) ak True w'(1) small
        by (intro exI [of _ 0] exI [of _ "?h\<lparr>pagerefs_inuse := w'\<rparr>"])
          (simp add: subpage_kmalloc_def on_heap_def splhigh_def splx_def SPL_HIGH_def kern_defs allocated_def kept_def exhausted_def fresh_def)
    next
      case False
      then obtain h1 a h2 where n: "newpage i (2147483648 + firstpaddr ?h) b (?h1\<lparr>firstpaddr := firstpaddr ?h + 4096\<rparr>) = Some (Inr (), h1)" "doalloc i h1 = Some (Inr a, h2)"
        "\<forall>x < 2147483648 + firstpaddr ?h. heap_mem h2 x = heap_mem ?h x" "lastpaddr h2 = lastpaddr ?h" "firstpaddr h2 = firstpaddr ?h + 4096" "heap_inv h2 (L(a \<mapsto> sz))" "a \<notin> dom L" "a \<noteq> 0"
        using alloc_fresh [OF r1 _ _ d, of b sz] ext rm l b fp by (auto simp: not_less)
      have "kept L ?h h2" using n(3,4) live_bounds(3) [OF r l] by (fastforce simp: kept_def)
      then show ?thesis using f b(3) ref(1) ak False n small
        by (intro exI [of _ a] exI [of _ h2]) (simp add: subpage_kmalloc_def on_heap_def splhigh_def splx_def SPL_HIGH_def kern_defs allocated_def fresh_def)
    qed
  qed
qed

lemma subpage_kmalloc_run:
  assumes inv: "heap_inv (world s) L" and sz: "sz < 2048"
  shows "\<exists>r h'. subpage_kmalloc sz s = Some (Inr r, s\<lparr>world := h'\<rparr>) \<and> allocated L sz (world s) r h'"
proof -
  let ?h = "world s"
  obtain al sm fs where r: "heap_rep {} ?h al sm fs" and rm: "room ?h (set al) fs" and l: "\<And>p n. L p = Some n \<Longrightarrow> live_at ?h al fs p n" and d: "apart L"
    using inv unfolding heap_inv_def by blast
  obtain b where b: "b < 8" "sz \<le> sizes ! b" "\<And>t :: heap kstate. blocktype sz t = Some (Inr b, t)"
    using blocktype_run [OF sz] by (fastforce simp: blocktype_def retK_def panicK_def split: option.splits)
  note sb = rep_same [OF r b(1)]
  have "length (sm b) < 257" using rep_length(2) [OF r b(1)] by simp
  then obtain f where f: "find_free 257 b (sizebases ?h ! b) ?h = Some (Inr f, ?h)"
    "case f of None \<Rightarrow> \<forall>i \<in> set (sm b). nfree (pagerefs ?h ! i) = 0 | Some i \<Rightarrow> i \<in> set (sm b) \<and> 0 < nfree (pagerefs ?h ! i)"
    using find_free_run [OF sb(1)] sb(3) by (fastforce simp: same_get_def)
  show ?thesis
  proof (cases f)
    case (Some i)
    then have i: "i \<in> set al" "blks ?h i = sizes ! b" using f(2) sb(3) by (auto simp: blks_def bsize_def)
    have "0 < length (fs i)" using f(2) Some rep_page_ok [OF r i(1)] by (simp add: page_ok_def)
    then obtain a gs where "fs i = a # gs" by (cases "fs i") auto
    then obtain h' where "doalloc i ?h = Some (Inr a, h')" "heap_mem h' = heap_mem ?h" "lastpaddr h' = lastpaddr ?h" "firstpaddr h' = firstpaddr ?h" "heap_inv h' (L(a \<mapsto> sz))" "a \<notin> dom L" "a \<noteq> 0"
      using alloc_page [OF r _ l d i(1), of a gs sz] rm i(2) b(2) by (auto simp: room_def)
    then show ?thesis using Some f(1) b(3)
      by (intro exI [of _ a] exI [of _ h']) (simp add: subpage_kmalloc_def on_heap_def splhigh_def splx_def kern_defs allocated_def kept_def)
  next
    case None
    then show ?thesis using subpage_new_run [OF inv sz r rm l d b] f(1) by simp
  qed
qed

lemma kmalloc_run:
  assumes inv: "heap_inv (world s) L" and sz: "sz \<le> 2147483648"
  shows "\<exists>r h'. kmalloc_heap sz s = Some (Inr r, s\<lparr>world := h'\<rparr>) \<and> allocated L sz (world s) r h'"
proof (cases "sz < 2048")
  case True
  then show ?thesis using subpage_kmalloc_run [OF inv True] by (simp add: kmalloc_heap_def LARGEST_SUBPAGE_SIZE_def)
next
  case False
  let ?h = "world s" and ?n = "(sz + 4095) div 4096"
  obtain al sm fs where r: "heap_rep {} ?h al sm fs" and rm: "room ?h (set al) fs" and l: "\<And>p n. L p = Some n \<Longrightarrow> live_at ?h al fs p n" and d: "apart L"
    using inv unfolding heap_inv_def by blast
  have n: "?n \<le> 524288" "sz \<le> ?n * 4096" using sz by auto
  have k: "kmalloc_heap sz s = alloc_kpages ?n s"
    using False sz by (auto simp: kmalloc_heap_def LARGEST_SUBPAGE_SIZE_def PAGE_SIZE_def kern_defs add.commute split: option.splits sum.splits prod.splits)
  show ?thesis
  proof (cases "firstpaddr ?h + ?n * 4096 > lastpaddr ?h")
    case True
    then show ?thesis unfolding k alloc_kpages_run [OF r n(1)] using inv False by (intro exI [of _ 0] exI [of _ ?h]) (simp add: allocated_def kept_def exhausted_def fresh_def)
  next
    case lt: False
    have "heap_inv (?h\<lparr>firstpaddr := firstpaddr ?h + ?n * 4096\<rparr>) (L(2147483648 + firstpaddr ?h \<mapsto> sz)) \<and> 2147483648 + firstpaddr ?h \<notin> dom L"
      by (rule alloc_big [OF r rm l d]) (use lt False n in auto)
    then show ?thesis unfolding k alloc_kpages_run [OF r n(1)] using lt False
      by (intro exI [of _ "2147483648 + firstpaddr ?h"] exI [of _ "?h\<lparr>firstpaddr := firstpaddr ?h + ?n * 4096\<rparr>"]) (auto simp: allocated_def kept_def fresh_def)
  qed
qed

section \<open>Release\<close>

text \<open>The block goes to the front of its page's free list.\<close>

lemma push_page:
  assumes r: "heap_rep {} h al sm fs" and i: "i \<in> set al" and a: "block_at (pagea h i) (blks h i) a" and nf: "a \<notin> set (fs i)"
    and m: "\<And>x. x < a \<or> a + blks h i \<le> x \<Longrightarrow> m x = heap_mem h x" "ld_word m a = first_free (fs i)"
  shows "heap_rep {} (h\<lparr>pagerefs := (pagerefs h)[i := taken (pagerefs h ! i) (a # fs i)], heap_mem := m\<rparr>) al sm (fs(i := a # fs i))"
    "page_ok (2147483648 + firstpaddr h) m (taken (pagerefs h ! i) (a # fs i)) (a # fs i)"
proof -
  note f = page_facts [OF r i] and p = rep_page_ok [OF r i]
  note b = block_in_page [OF a f(4)]
  have "ld_word m x = ld_word (heap_mem h) x" if x: "x \<in> set (fs i)" for x
  proof -
    have "x + blks h i \<le> a \<or> a + blks h i \<le> x" using blocks_apart [OF f(7) [OF x] a] nf x by auto
    then have "get_at x 4 m = get_at x 4 (heap_mem h)" using f(6) by (intro nth_equalityI) (auto intro!: m(1))
    then show ?thesis by (simp add: ld_word_def)
  qed
  then have "fchain m (first_free (fs i)) (fs i)" using p by (auto simp: page_ok_def intro: fchain_cong)
  then have "fchain m (first_free (a # fs i)) (a # fs i)" using m(2) by (simp add: first_free_def)
  then show ok: "page_ok (2147483648 + firstpaddr h) m (taken (pagerefs h ! i) (a # fs i)) (a # fs i)"
    by (intro page_ok_taken [OF p]) (use f(7,8) a nf in \<open>auto simp: pagea_def blks_def\<close>)
  show "heap_rep {} (h\<lparr>pagerefs := (pagerefs h)[i := taken (pagerefs h ! i) (a # fs i)], heap_mem := m\<rparr>) al sm (fs(i := a # fs i))"
    by (rule rep_page [OF r i _ _ _ _ ok]) (use b m(1) in \<open>auto simp: pagea_def\<close>)
qed

definition released :: "(nat \<rightharpoonup> nat) \<Rightarrow> nat \<Rightarrow> heap \<Rightarrow> heap \<Rightarrow> bool" where
  "released L a h h' \<longleftrightarrow> kept (L(a := None)) h h' \<and> heap_inv h' (L(a := None))"

lemma release_page:
  assumes r: "heap_rep {} h al sm fs" and rm: "room h (set al) fs" and l: "\<And>p n. L p = Some n \<Longrightarrow> live_at h al fs p n" and d: "apart L"
    and i: "i \<in> set al" and a: "block_at (pagea h i) (blks h i) a" and nf: "a \<notin> set (fs i)"
    and m: "\<And>x. x < a \<or> a + blks h i \<le> x \<Longrightarrow> m x = heap_mem h x" "ld_word m a = first_free (fs i)"
  defines "h1 \<equiv> h\<lparr>pagerefs := (pagerefs h)[i := taken (pagerefs h ! i) (a # fs i)], heap_mem := m\<rparr>"
  shows "if Suc (length (fs i)) = 4096 div blks h i
    then wpK (remove_lists i (PR_BLOCKTYPE (pagerefs h ! i))) (\<lambda>_. wpK (freepageref i) (\<lambda>_ h'. released L a h h') (\<lambda>_ _. False)) (\<lambda>_ _. False) h1
    else released L a h h1"
proof -
  note pp = push_page [OF r i a nf m, folded h1_def]
  have pg: "pagea h1 j = pagea h j" "blks h1 j = blks h j" for j
    by (auto simp: h1_def pagea_def blks_def bsize_def PR_PAGEADDR_def PR_BLOCKTYPE_def nth_upd_field [of pageaddr_and_blocktype])
  have keep: "kept (L(a := None)) h h'" if "heap_mem h' = m" "lastpaddr h' = lastpaddr h" for h'
    using that m(1) live_apart [OF r l i a] by (fastforce simp: kept_def split: if_splits)
  have d': "apart (L(a := None))" by (rule apart_delete [OF d])
  show ?thesis
  proof (cases "Suc (length (fs i)) = 4096 div blks h i")
    case False
    have lv: "live_at h1 al (fs(i := a # fs i)) q n" if "(L(a := None)) q = Some n" for q n
    proof -
      have q: "q \<noteq> a" "live_at h al fs q n" using that l by (auto split: if_splits)
      then show ?thesis unfolding live_at_def pg using h1_def by auto
    qed
    have "room h1 (set al) (fs(i := a # fs i))" using rm i False pg by (fastforce simp: room_def)
    then have "heap_inv h1 (L(a := None))" using heap_invI [OF pp(1) _ lv d'] by blast
    then show ?thesis using False keep [of h1] by (simp add: released_def h1_def)
  next
    case True
    have bt: "PR_BLOCKTYPE (pagerefs h ! i) = PR_BLOCKTYPE (pagerefs h1 ! i)"
      by (auto simp: h1_def PR_BLOCKTYPE_def nth_upd_field [of pageaddr_and_blocktype])
    obtain h2 where h2: "remove_lists i (PR_BLOCKTYPE (pagerefs h ! i)) h1 = Some (Inr (), h2)" "links_only h1 h2"
      and r2: "heap_rep {i} h2 (remove1 i al) (sm(PR_BLOCKTYPE (pagerefs h ! i) := remove1 i (sm (PR_BLOCKTYPE (pagerefs h ! i))))) (fs(i := a # fs i))"
      using remove_rep [OF pp(1) i bt] by blast
    have pg2: "pagea h2 j = pagea h j" "blks h2 j = blks h j" for j
      using h2(2) pg [of j] by (auto simp: links_only_def pagea_def blks_def bsize_def PR_PAGEADDR_def PR_BLOCKTYPE_def)
    have al: "set (remove1 i al) = set al - {i}" using rep_all(2) [OF r] by (rule set_remove1_eq)
    have ext: "live_at (h2\<lparr>pagerefs_inuse := w\<rparr>) A F q n = live_at h2 A F q n" "room (h2\<lparr>pagerefs_inuse := w\<rparr>) B F = room h2 B F" for w q n A F B
      by (simp_all add: live_at_def room_def pagea_def blks_def)
    have lv: "live_at h2 (remove1 i al) (fs(i := a # fs i)) q n" if "(L(a := None)) q = Some n" for q n
    proof -
      have q: "q \<noteq> a" "live_at h al fs q n" using that l by (auto split: if_splits)
      have "\<not> block_at (pagea h i) (blks h i) q \<or> q \<in> set (fs i)"
        using page_count(3) [OF pp(2), of q] True q(1) by (auto simp: pagea_def blks_def)
      then show ?thesis using q(2) h2(2) unfolding live_at_def pg2 al by (auto simp: links_only_def h1_def)
    qed
    have rm2: "room h2 (set (remove1 i al)) (fs(i := a # fs i))" using rm al pg2 by (auto simp: room_def)
    have "wpK (freepageref i) (\<lambda>_ h'. released L a h h') (\<lambda>_ _. False) h2"
    proof (rule freepageref_wp)
      show "inuse (pagerefs_inuse h2) i" using r2 by (auto simp: heap_rep_def)
      fix w :: "32 word list" assume w: "length w = 8" "\<And>j. inuse w j = (j \<noteq> i \<and> inuse (pagerefs_inuse h2) j)"
      have "heap_rep {} (h2\<lparr>pagerefs_inuse := w\<rparr>) (remove1 i al) (sm(PR_BLOCKTYPE (pagerefs h ! i) := remove1 i (sm (PR_BLOCKTYPE (pagerefs h ! i))))) (fs(i := a # fs i))"
        by (rule rep_inuse [OF r2 w(1)]) (use w(2) r2 al in \<open>auto simp: heap_rep_def\<close>)
      then have "heap_inv (h2\<lparr>pagerefs_inuse := w\<rparr>) (L(a := None))" by (rule heap_invI) (use ext rm2 lv d' in auto)
      then show "released L a h (h2\<lparr>pagerefs_inuse := w\<rparr>)" using keep [of "h2\<lparr>pagerefs_inuse := w\<rparr>"] h2(2) by (simp add: released_def links_only_def h1_def)
    qed (rule rep_all(5) [OF r2])
    then show ?thesis using True h2(1) by (simp add: wp_eqI)
  qed
qed

lemma subpage_free_run:
  assumes r: "heap_rep {} h al sm fs" and rm: "room h (set al) fs" and l: "\<And>p n. L p = Some n \<Longrightarrow> live_at h al fs p n" and d: "apart L"
    and i: "i \<in> set al" and a: "block_at (pagea h i) (blks h i) a" and nf: "a \<notin> set (fs i)"
  shows "wpK (subpage_free a i) (\<lambda>_ h'. released L a h h') (\<lambda>_ _. False) h"
proof -
  let ?p = "pagerefs h ! i"
  note f = page_facts [OF r i] and pk = rep_page_ok [OF r i]
  note b = block_in_page [OF a f(4)]
  have len: "length (pagerefs h) = 256" "i < 256" "firstpaddr h \<le> 532676608" using rep_all [OF r] rep_index [OF r] i r by (auto simp: heap_rep_def)
  have n: "length (fs i) < 4096 div blks h i" "nfree ?p = length (fs i)" "4096 div blks h i \<le> 256"
    using rm i pk page_count [OF pk] by (auto simp: room_def page_ok_def blks_def)
  have off: "sub32 a (PR_PAGEADDR ?p) = a - pagea h i" "a - pagea h i < 4096" "(a - pagea h i) mod blks h i = 0"
    using b f(3) len(3) a by (auto simp: pagea_def block_at_def)
  have nxt: "(if freelist_offset ?p = INVALID_OFFSET then 0 else u32 (PR_PAGEADDR ?p + freelist_offset ?p)) = first_free (fs i)"
  proof (cases "fs i")
    case (Cons c gs)
    then have "pagea h i \<le> c \<and> c < pagea h i + 4096" "freelist_offset ?p = c - pagea h i" using f(7) [of c] pk by (auto simp: block_at_def page_ok_def pagea_def)
    then show ?thesis using Cons f(3) len(3) by (auto simp: first_free_def INVALID_OFFSET_def pagea_def)
  qed (use pk in \<open>simp add: page_ok_def first_free_def\<close>)
  define tail where "tail = bindK (modK (\<lambda>h'. h'\<lparr>heap_mem := st_word (u32 (PR_PAGEADDR ?p + (a - pagea h i))) (first_free (fs i)) (heap_mem h')\<rparr>)) (\<lambda>_.
     bindK (mod_pageref i (\<lambda>p. p\<lparr>freelist_offset := u16 (a - pagea h i), nfree := u16 (nfree p + 1)\<rparr>)) (\<lambda>_.
     bindK (getK (\<lambda>h. nfree (pagerefs h ! i))) (\<lambda>n.
     bindK (assertK (n \<le> 4096 div blks h i)) (\<lambda>_.
     if n = 4096 div blks h i then
       bindK (remove_lists i (PR_BLOCKTYPE ?p)) (\<lambda>_. bindK (free_kpages (PR_PAGEADDR ?p)) (\<lambda>_. freepageref i))
     else retK ()))))"
  have "subpage_free a i h = bindK (fill_deadbeef a (blks h i)) (\<lambda>_. tail) h"
    using off nxt by (simp add: subpage_free_def bindK_def [of "getK (\<lambda>h. pagerefs h ! i)"] getK_def [of "\<lambda>h. pagerefs h ! i"] Let_def PAGE_SIZE_def blks_def bsize_def tail_def)
  then have eq: "wpK (subpage_free a i) Q E h = wpK (bindK (fill_deadbeef a (blks h i)) (\<lambda>_. tail)) Q E h" for Q E by (rule wp_at)
  have ff: "first_free (fs i) < 4294967296" using f(7) [of "first_free (fs i)"] f(3) len(3) by (cases "fs i") (auto simp: first_free_def block_at_def)
  show ?thesis unfolding eq wp_bind
  proof (rule fill_deadbeef_wp)
    fix m assume m: "\<And>x. x < a \<or> a + blks h i \<le> x \<Longrightarrow> m x = heap_mem h x"
    let ?m = "st_word a (first_free (fs i)) m"
    let ?h1 = "h\<lparr>pagerefs := (pagerefs h)[i := taken ?p (a # fs i)], heap_mem := ?m\<rparr>"
    have m': "\<And>x. x < a \<or> a + blks h i \<le> x \<Longrightarrow> ?m x = heap_mem h x" "ld_word ?m a = first_free (fs i)" using m f(6) ff by auto
    have step: "wpK tail (\<lambda>_ h'. released L a h h') (\<lambda>_ _. False) (h\<lparr>heap_mem := m\<rparr>) =
      wpK (if Suc (length (fs i)) = 4096 div blks h i then
       bindK (remove_lists i (PR_BLOCKTYPE ?p)) (\<lambda>_. bindK (free_kpages (PR_PAGEADDR ?p)) (\<lambda>_. freepageref i)) else retK ()) (\<lambda>_ h'. released L a h h') (\<lambda>_ _. False) ?h1"
    proof -
      have "?p\<lparr>freelist_offset := u16 (a - pagea h i), nfree := u16 (nfree ?p + 1)\<rparr> = taken ?p (a # fs i)"
        using off(2) n by (simp add: taken_def pagea_def)
      moreover have "u32 (PR_PAGEADDR ?p + (a - pagea h i)) = a" using b f(3) len(3) by (simp add: pagea_def)
      moreover have sw: "h\<lparr>heap_mem := x, pagerefs := y\<rparr> = h\<lparr>pagerefs := y, heap_mem := x\<rparr>" for x y by simp
      ultimately show ?thesis using n(1) len by (simp add: tail_def mod_pageref_def wp sw)
    qed
    show "wpK tail (\<lambda>_ h'. released L a h h') (\<lambda>_ _. False) (h\<lparr>heap_mem := m\<rparr>)"
      unfolding step using n(1) release_page [OF r rm l d i a nf m'] by (simp add: wp free_kpages_def)
  qed (use f b len(3) in auto)
qed

lemma kfree_run:
  assumes inv: "heap_inv (world s) L" and p: "L a = Some k"
  shows "\<exists>h'. kfree_heap a s = Some (Inr (), s\<lparr>world := h'\<rparr>) \<and> released L a (world s) h'"
proof -
  let ?h = "world s"
  obtain al sm fs where r: "heap_rep {} ?h al sm fs" and rm: "room ?h (set al) fs" and l: "\<And>p n. L p = Some n \<Longrightarrow> live_at ?h al fs p n" and d: "apart L"
    using inv unfolding heap_inv_def by blast
  have fp: "firstpaddr ?h \<le> 532676608" using r by (auto simp: heap_rep_def)
  have a0: "a \<noteq> 0" using live_bounds(1) [OF r l [OF p]] by auto
  have "PR_BLOCKTYPE (pagerefs ?h ! i) < 8 \<and> PR_PAGEADDR (pagerefs ?h ! i) + 4096 < 4294967296" if "i \<in> set al" for i
    using rep_page_ok [OF r that] fp by (simp add: page_ok_def)
  moreover have "length al < 257" using rep_length(1) [OF r] by simp
  ultimately obtain f where f: "find_page 257 a (all_get ?h None) ?h = Some (Inr f, ?h)"
    "case f of None \<Rightarrow> \<forall>i \<in> set al. \<not> in_page ?h i a | Some i \<Rightarrow> i \<in> set al \<and> in_page ?h i a"
    using find_page_run [OF rep_all(1) [OF r], of 257 a] by blast
  have ag: "all_get ?h None = allbase ?h" by (simp add: all_get_def)
  show ?thesis
  proof (cases f)
    case None
    have "\<not> block_at (pagea ?h i) (blks ?h i) a" if "i \<in> set al" for i using None f(2) that by (auto simp: in_page_def block_at_def pagea_def)
    then have "a mod 4096 = 0" using l [OF p] by (auto simp: live_at_def)
    moreover have "heap_inv ?h (L(a := None))" by (rule heap_invI [OF r rm _ apart_delete [OF d]]) (use l in \<open>auto split: if_splits\<close>)
    moreover have "released L a ?h ?h \<longleftrightarrow> heap_inv ?h (L(a := None))" by (simp add: released_def kept_def)
    ultimately show ?thesis using None f(1) a0 ag
      by (intro exI [of _ ?h]) (simp add: kfree_heap_def subpage_kfree_def on_heap_def splhigh_def splx_def kern_defs free_kpages_def PAGE_SIZE_def)
  next
    case (Some i)
    then have i: "i \<in> set al" "in_page ?h i a" using f(2) by auto
    have same: "j = i" if "j \<in> set al" "block_at (pagea ?h j) (blks ?h j) a" for j
      using pages_apart [OF r that(1) i(1)] that(2) i(2) by (auto simp: in_page_def block_at_def pagea_def)
    have "\<not> (0 < k \<and> (\<forall>i \<in> set al. pagea ?h i + 4096 \<le> a \<or> a + k \<le> pagea ?h i))"
      using bspec [of "set al" "\<lambda>i. pagea ?h i + 4096 \<le> a \<or> a + k \<le> pagea ?h i", OF _ i(1)] i(2) by (auto simp: in_page_def pagea_def)
    then have "block_at (pagea ?h i) (blks ?h i) a \<and> a \<notin> set (fs i)" using l [OF p] same unfolding live_at_def by blast
    then have w: "wpK (subpage_free a i) (\<lambda>_ h'. released L a ?h h') (\<lambda>_ _. False) ?h" using subpage_free_run [OF r rm l d i(1)] by blast
    from wp_no_error [OF w] obtain h' where "subpage_free a i ?h = Some (Inr (), h')" "released L a ?h h'" by auto
    then show ?thesis using Some f(1) a0 ag
      by (intro exI [of _ h']) (simp add: kfree_heap_def subpage_kfree_def on_heap_def splhigh_def splx_def kern_defs)
  qed
qed

end
