(* ===== verification/Kheap_Client.thy ===== *)
theory Kheap_Client
  imports Kheap_Safe
begin

text \<open>
  The users of the kernel heap, as a transition system: they allocate, free each block at most once, and write to blocks they own. The
  requests of a run are at most 2 GB each, more than any machine of this kind has. What holds in every such run from boot, and what goes wrong
  with sizes close to 2^32.
\<close>

section \<open>Runs\<close>

text \<open>The heap before the first call: static data is zero, \<^verbatim>\<open>ram_bootstrap\<close> has set the bounds of free memory.\<close>

definition heap0 :: "memory \<Rightarrow> heap" where
  "heap0 m = \<lparr>pagerefs = replicate 256 \<lparr>next_samesize = None, next_all = None, pageaddr_and_blocktype = 0, freelist_offset = 0, nfree = 0\<rparr>,
     pagerefs_inuse = replicate 8 0, sizebases = replicate 8 None, allbase = None, heap_mem = m, firstpaddr = 0, lastpaddr = 0\<rparr>"

text \<open>\<^verbatim>\<open>start.S\<close> leaves a page address above the kernel in \<^verbatim>\<open>firstfree\<close>; there is more memory than that.\<close>

definition heap_boot :: "nat \<Rightarrow> nat \<Rightarrow> heap kstate \<Rightarrow> bool" where
  "heap_boot ramsize firstfree s \<longleftrightarrow> firstfree mod 4096 = 0 \<and> 2147483648 < firstfree \<and> firstfree - 2147483648 \<le> ramsize \<and> firstfree - 2147483648 \<le> 508 * 1024 * 1024 \<and>
     ram_bootstrap ramsize firstfree (heap0 (heap_mem (world s))) = Some (Inr (), world s)"

datatype hop = Malloc nat | Free nat | Store nat byte

inductive hstep :: "heap kstate \<times> (nat \<rightharpoonup> nat) \<Rightarrow> hop \<Rightarrow> heap kstate \<times> (nat \<rightharpoonup> nat) \<Rightarrow> bool" where
  malloc: "sz \<le> 2147483648 \<Longrightarrow> kmalloc_heap sz s = Some (Inr p, s') \<Longrightarrow> hstep (s, L) (Malloc sz) (s', if p = 0 then L else L(p \<mapsto> sz))"
| free: "L p = Some n \<Longrightarrow> kfree_heap p s = Some (Inr (), s') \<Longrightarrow> hstep (s, L) (Free p) (s', L(p := None))"
| store: "L p = Some n \<Longrightarrow> p \<le> x \<Longrightarrow> x < p + n \<Longrightarrow>
    hstep (s, L) (Store x v) (s\<lparr>world := (world s)\<lparr>heap_mem := (heap_mem (world s))(x := v)\<rparr>\<rparr>, L)"

inductive_cases hstep_elims: "hstep (s, L) op (s', L')"

inductive hrun :: "heap kstate \<Rightarrow> hop list \<Rightarrow> heap kstate \<times> (nat \<rightharpoonup> nat) \<Rightarrow> bool" for s0 where
  hrun_refl: "hrun s0 [] (s0, \<lambda>_. None)"
| hrun_step: "hrun s0 ops c \<Longrightarrow> hstep c op c' \<Longrightarrow> hrun s0 (ops @ [op]) c'"

section \<open>The invariant holds\<close>

lemma heap_boot_rep:
  assumes b: "heap_boot ramsize firstfree s"
  shows "heap_rep {} (world s) [] (\<lambda>_. []) (\<lambda>_. [])" "firstpaddr (world s) = firstfree - 2147483648"
proof -
  let ?h = "(heap0 (heap_mem (world s)))\<lparr>lastpaddr := min ramsize (508 * 1024 * 1024), firstpaddr := firstfree - 2147483648\<rparr>"
  have w: "world s = ?h"
    using b by (auto simp: heap_boot_def ram_bootstrap_def modK_def MIPS_KSEG0_def min_def)
  have "(firstfree - 2147483648) mod 4096 = 0" using b by (auto simp: heap_boot_def mod_diff_eq dvd_diff_nat)
  then have "heap_rep {} ?h [] (\<lambda>_. []) (\<lambda>_. [])"
    using b by (auto simp: heap_rep_def heap0_def all_get_def same_get_def inuse_def heap_boot_def)
  with w show "heap_rep {} (world s) [] (\<lambda>_. []) (\<lambda>_. [])" by simp
  show "firstpaddr (world s) = firstfree - 2147483648" by (subst w) simp
qed

lemma heap_boot_inv: "heap_boot ramsize firstfree s \<Longrightarrow> heap_inv (world s) (\<lambda>_. None)"
  by (drule heap_boot_rep(1), erule heap_invI) (auto simp: room_def apart_def)

text \<open>A write to a block in use does not touch a free list.\<close>

lemma store_inv:
  assumes inv: "heap_inv h L" and p: "L p = Some n" and x: "p \<le> x" "x < p + n"
  shows "heap_inv (h\<lparr>heap_mem := (heap_mem h)(x := v)\<rparr>) L"
proof -
  let ?h = "h\<lparr>heap_mem := (heap_mem h)(x := v)\<rparr>"
  obtain al sm fs where r: "heap_rep {} h al sm fs" and rm: "room h (set al) fs" and l: "\<And>p n. L p = Some n \<Longrightarrow> live_at h al fs p n" and d: "apart L"
    using inv unfolding heap_inv_def by blast
  have "page_ok (2147483648 + firstpaddr h) ((heap_mem h)(x := v)) (pagerefs h ! i) (fs i)" if i: "i \<in> set al" for i
  proof -
    have "ld_word ((heap_mem h)(x := v)) a = ld_word (heap_mem h) a" if a: "a \<in> set (fs i)" for a
    proof -
      have "p + n \<le> a \<or> a + blks h i \<le> p" using live_apart [OF r l [OF p] i page_facts(7) [OF r i a]] free_not_live [OF r l [OF p] i a] by blast
      then have "get_at a 4 ((heap_mem h)(x := v)) = get_at a 4 (heap_mem h)" using x page_facts(6) [OF r i] by (intro nth_equalityI) auto
      then show ?thesis by (simp add: ld_word_def)
    qed
    then show ?thesis using rep_page_ok [OF r i] by (auto simp: page_ok_def intro: fchain_cong)
  qed
  moreover have "all_get ?h = all_get h" "same_get b ?h = same_get b h" for b
    by (auto simp: fun_eq_iff all_get_def same_get_def split: option.splits)
  ultimately have "heap_rep {} ?h al sm fs" using r by (simp add: heap_rep_def)
  moreover have "live_at ?h al fs q m = live_at h al fs q m" "room ?h A fs = room h A fs" for q m A
    by (simp_all add: live_at_def room_def pagea_def blks_def)
  ultimately show ?thesis using rm l d by (intro heap_invI) auto
qed

lemma hstep_inv:
  assumes "hstep (s, L) op (s', L')" and "heap_inv (world s) L"
  shows "heap_inv (world s') L' \<and> lastpaddr (world s') = lastpaddr (world s)"
  using assms(1)
proof (elim hstep_elims)
  fix sz p
  assume "sz \<le> 2147483648" "kmalloc_heap sz s = Some (Inr p, s')" "L' = (if p = 0 then L else L(p \<mapsto> sz))"
  then show ?thesis using kmalloc_run [OF assms(2), of sz] by (auto simp: allocated_def kept_def)
next
  fix p n
  assume "L p = Some n" "kfree_heap p s = Some (Inr (), s')" "L' = L(p := None)"
  then show ?thesis using kfree_run [OF assms(2), of p n] by (auto simp: released_def kept_def)
next
  fix p n x v
  assume "L' p = Some n" "p \<le> x" "x < p + n" "s' = s\<lparr>world := (world s)\<lparr>heap_mem := (heap_mem (world s))(x := v)\<rparr>\<rparr>" "L = L'"
  then show ?thesis using store_inv [OF assms(2), of p n x v] by simp
qed

lemma hrun_inv:
  assumes "hrun s0 ops c" and "heap_inv (world s0) (\<lambda>_. None)"
  shows "heap_inv (world (fst c)) (snd c) \<and> lastpaddr (world (fst c)) = lastpaddr (world s0)"
  using assms(1)
proof induction
  case (hrun_step ops c op c')
  then show ?case using hstep_inv [of "fst c" "snd c" op "fst c'" "snd c'"] by simp
qed (simp add: assms(2))





section \<open>An example run\<close>

text \<open>A machine with 1 MB of memory whose kernel ends at 64 KB: two allocations, a write and a release.\<close>

definition ex_heap :: heap where
  "ex_heap = (heap0 (\<lambda>_. 0))\<lparr>lastpaddr := 1048576, firstpaddr := 65536\<rparr>"

definition ex_kst :: "heap \<Rightarrow> heap kstate" where
  "ex_kst h = \<lparr>curthread = 0, switching = 0, threads = (\<lambda>_. None), sleepers = None, zombies = None, runqueue = None, numthreads = 0, curspl = 0,
     in_interrupt = False, sems = (\<lambda>_. None), locks = (\<lambda>_. None), lbolt_counter = 0,
     km = \<lparr>km_oracle = (\<lambda>_ _. True), km_calls = 0, km_pages = (\<lambda>_. None)\<rparr>, world = h\<rparr>"

lemma ex_heap_boot: "heap_boot 1048576 2147549184 (ex_kst ex_heap)"
  by (simp add: heap_boot_def ex_heap_def ex_kst_def heap0_def ram_bootstrap_def modK_def MIPS_KSEG0_def sub32_def u32_def)

lemma ex_malloc: "kmalloc_heap 4096 (ex_kst ex_heap) = Some (Inr 2147549184, ex_kst (ex_heap\<lparr>firstpaddr := 69632\<rparr>))"
  "kmalloc_heap 5000 (ex_kst (ex_heap\<lparr>firstpaddr := 69632\<rparr>)) = Some (Inr 2147553280, ex_kst (ex_heap\<lparr>firstpaddr := 77824\<rparr>))"
  by (simp_all add: kmalloc_heap_def alloc_kpages_def getppages_def ram_stealmem_def on_heap_def splhigh_def splx_def kern_defs Let_def u32_def
      LARGEST_SUBPAGE_SIZE_def PAGE_SIZE_def PADDR_TO_KVADDR_def MIPS_KSEG0_def ex_heap_def heap0_def ex_kst_def)

lemma ex_hrun: "hrun (ex_kst ex_heap) [Malloc 4096, Malloc 5000] (ex_kst (ex_heap\<lparr>firstpaddr := 77824\<rparr>), [2147549184 \<mapsto> 4096, 2147553280 \<mapsto> 5000])"
  using hrun_step [OF hrun_step [OF hrun_refl hstep.malloc [OF _ ex_malloc(1)]] hstep.malloc [OF _ ex_malloc(2)]] by simp

section \<open>What the users get\<close>





text \<open>
  Property C17. The heap always answers: in every run from boot in which no request exceeds 2 GB, \<^verbatim>\<open>kmalloc\<close> of up to 2 GB and \<^verbatim>\<open>kfree\<close> of a block the user holds return
  without tripping an assertion, with the interrupt level and everything outside the heap as before. \<^verbatim>\<open>kmalloc\<close> returns a null pointer only when less memory is left than the
  pages it may need, or, for a small block, when all 256 page references are in use.
\<close>

theorem kheap_answers:
  assumes "heap_boot ramsize firstfree s0" and "hrun s0 ops (s, L)" and "sz \<le> 2147483648"
  shows "(\<exists>p h'. kmalloc_heap sz s = Some (Inr p, s\<lparr>world := h'\<rparr>) \<and> (p = 0 \<longrightarrow> exhausted sz (world s))) \<and>
    (\<forall>p. p \<in> dom L \<longrightarrow> (\<exists>h'. kfree_heap p s = Some (Inr (), s\<lparr>world := h'\<rparr>)))"
proof -
  have inv: "heap_inv (world s) L" using hrun_inv [OF assms(2) heap_boot_inv [OF assms(1)]] by simp
  then show ?thesis using kmalloc_run [OF inv assms(3)] kfree_run [OF inv] unfolding allocated_def by blast
qed

theorem kheap_answers_witness:
  "(\<exists>h'. kfree_heap 2147549184 (ex_kst (ex_heap\<lparr>firstpaddr := 77824\<rparr>)) = Some (Inr (), (ex_kst (ex_heap\<lparr>firstpaddr := 77824\<rparr>))\<lparr>world := h'\<rparr>)) \<and>
   (\<exists>p h'. kmalloc_heap 16 (ex_kst (ex_heap\<lparr>firstpaddr := 77824\<rparr>)) = Some (Inr p, (ex_kst (ex_heap\<lparr>firstpaddr := 77824\<rparr>))\<lparr>world := h'\<rparr>) \<and> p \<noteq> 0)"
proof -
  have "\<not> exhausted 16 (world (ex_kst (ex_heap\<lparr>firstpaddr := 77824\<rparr>)))"
    by (auto simp: exhausted_def fresh_def ex_kst_def ex_heap_def heap0_def inuse_def intro: exI [of _ 0])
  then show ?thesis using kheap_answers [OF ex_heap_boot ex_hrun, of 16] by fastforce
qed

text \<open>
  Property C38. Sizes close to 2^32 wrap around: \<^verbatim>\<open>kmalloc\<close> rounds them up to 0 pages and returns an address without setting any memory
  aside. The next allocation of a page gets the same address.
\<close>

theorem kmalloc_huge_overlaps:
  assumes "heap_inv (world s) L" and "4294963200 < sz" and "sz < 4294967296" and "firstpaddr (world s) + 4096 \<le> lastpaddr (world s)"
  shows "\<exists>p h'. p \<noteq> 0 \<and> kmalloc_heap sz s = Some (Inr p, s) \<and> kmalloc_heap 4096 s = Some (Inr p, s\<lparr>world := h'\<rparr>)"
proof -
  obtain al sm fs where r: "heap_rep {} (world s) al sm fs" using assms(1) unfolding heap_inv_def by blast
  have "u32 (sz + PAGE_SIZE - 1) div PAGE_SIZE = 0"
  proof -
    have "sz + 4095 = (sz + 4095 - 4294967296) + 4294967296" using assms(2) by simp
    then have "(sz + 4095) mod 4294967296 = (sz + 4095 - 4294967296) mod 4294967296" by (metis mod_add_self2)
    also have "\<dots> = sz + 4095 - 4294967296" using assms(3) by (intro mod_less) simp
    finally have "(sz + 4095) mod 4294967296 = sz + 4095 - 4294967296" .
    then show ?thesis using assms(3) by (simp add: u32_def PAGE_SIZE_def add.commute)
  qed
  then have "kmalloc_heap sz s = Some (Inr (2147483648 + firstpaddr (world s)), s)"
    using alloc_kpages_run [OF r, of 0] assms(2,4) by (simp add: kmalloc_heap_def LARGEST_SUBPAGE_SIZE_def kern_defs)
  moreover have "kmalloc_heap 4096 s = Some (Inr (2147483648 + firstpaddr (world s)), s\<lparr>world := (world s)\<lparr>firstpaddr := firstpaddr (world s) + 4096\<rparr>\<rparr>)"
    using alloc_kpages_run [OF r, of 1] assms(4) by (simp add: kmalloc_heap_def LARGEST_SUBPAGE_SIZE_def PAGE_SIZE_def kern_defs)
  ultimately show ?thesis by auto
qed

theorem kmalloc_huge_overlaps_witness:
  "\<exists>p h'. p \<noteq> 0 \<and> kmalloc_heap 4294967295 (ex_kst ex_heap) = Some (Inr p, ex_kst ex_heap) \<and>
     kmalloc_heap 4096 (ex_kst ex_heap) = Some (Inr p, (ex_kst ex_heap)\<lparr>world := h'\<rparr>)"
  by (rule kmalloc_huge_overlaps [OF heap_boot_inv [OF ex_heap_boot]]) (simp_all add: ex_kst_def ex_heap_def heap0_def)

end
