(* ===== verification/Mksfs.thy ===== *)
theory Mksfs
  imports SFS_Fs
begin

text \<open>
  \<^verbatim>\<open>sbin/mksfs\<close>, the program that makes an empty SFS volume on a disk, as it is built for OS/161 itself (without \<^verbatim>\<open>HOST\<close>).
  The system calls it makes are a parameter: whether opening, looking at and closing the disk succeed, how large the disk is, which
  positions \<^verbatim>\<open>lseek\<close> accepts (a negative one never), and what each \<^verbatim>\<open>write\<close> does, which may store a part of what it is given, be interrupted, or fail. The disk is a file of bytes.

  \<^verbatim>\<open>err\<close> and \<^verbatim>\<open>errx\<close> print a message and end the program with status 1; \<open>exit1\<close> stands for both, and the error number in it has no
  meaning. The main property is about two programs: a disk \<^verbatim>\<open>mksfs\<close> has written is one the kernel mounts, as an empty volume.
\<close>

unbundle bit_operations_syntax

section \<open>Definitions\<close>

text \<open>What a call of \<^verbatim>\<open>write\<close> gives: a number of bytes stored, \<^verbatim>\<open>EINTR\<close> or \<^verbatim>\<open>EAGAIN\<close>, or another error.\<close>

datatype wres = Wrote nat | Again | Failed

record oscalls =
  os_open :: bool
  os_fstat :: bool
  os_size :: nat
  os_lseek :: "nat \<Rightarrow> bool"
  os_write :: "nat \<Rightarrow> nat \<Rightarrow> wres"
  os_close :: bool

record mkstate =
  mk_open :: bool
  mk_nblocks :: nat
  mk_bytes :: "nat \<Rightarrow> byte"
  mk_pos :: nat
  mk_calls :: nat
  bitbuf :: "byte list"

definition exit1 :: "('s, 'a) kern" where
  "exit1 = failK EINVAL"

definition MAXBITBLOCKS :: nat where "MAXBITBLOCKS = 32"

definition BLOCKSIZE :: nat where "BLOCKSIZE = 512"

definition opendisk :: "oscalls \<Rightarrow> (mkstate, unit) kern" where
  "opendisk os =
     bindK (getK mk_open) (\<lambda>op.
     bindK (assertK (\<not> op)) (\<lambda>_.
     if \<not> os_open os then exit1 else
     bindK (modK (\<lambda>s. s\<lparr>mk_open := True\<rparr>)) (\<lambda>_.
     if \<not> os_fstat os then exit1 else
     modK (\<lambda>s. s\<lparr>mk_nblocks := u32 (os_size os div BLOCKSIZE)\<rparr>))))"

definition diskblocksize :: "(mkstate, nat) kern" where
  "diskblocksize = bindK (getK mk_open) (\<lambda>op. bindK (assertK op) (\<lambda>_. retK BLOCKSIZE))"

definition diskblocks :: "(mkstate, nat) kern" where
  "diskblocks = bindK (getK mk_open) (\<lambda>op. bindK (assertK op) (\<lambda>_. getK mk_nblocks))"

text \<open>\<^verbatim>\<open>write\<close> stores the first bytes it is given at the position of the file and moves the position on.\<close>

definition put_bytes :: "nat \<Rightarrow> byte list \<Rightarrow> mkstate \<Rightarrow> mkstate" where
  "put_bytes len cdata s = s\<lparr>mk_bytes := put_at (mk_pos s) (take len cdata) (mk_bytes s), mk_pos := mk_pos s + len\<rparr>"

partial_function (option) diskwrite_loop :: "oscalls \<Rightarrow> byte list \<Rightarrow> nat \<Rightarrow> mkstate \<Rightarrow> ((errno + unit) \<times> mkstate) option" where
  "diskwrite_loop os cdata tot s =
     (if tot < BLOCKSIZE then
        (case os_write os (mk_calls s) (BLOCKSIZE - tot) of
           Again \<Rightarrow> diskwrite_loop os cdata tot (s\<lparr>mk_calls := Suc (mk_calls s)\<rparr>)
         | Failed \<Rightarrow> exit1 (s\<lparr>mk_calls := Suc (mk_calls s)\<rparr>)
         | Wrote len \<Rightarrow>
             if len = 0 then exit1 (s\<lparr>mk_calls := Suc (mk_calls s)\<rparr>)
             else diskwrite_loop os cdata (tot + len) (put_bytes len (drop tot cdata) (s\<lparr>mk_calls := Suc (mk_calls s)\<rparr>)))
      else Some (Inr (), s))"

definition diskwrite :: "oscalls \<Rightarrow> byte list \<Rightarrow> nat \<Rightarrow> (mkstate, unit) kern" where
  "diskwrite os cdata block =
     bindK (getK mk_open) (\<lambda>op.
     bindK (assertK op) (\<lambda>_.
     if s32 (int (u32 (block * BLOCKSIZE))) < 0 \<or> \<not> os_lseek os (u32 (block * BLOCKSIZE)) then exit1 else
     bindK (modK (\<lambda>s. s\<lparr>mk_pos := u32 (block * BLOCKSIZE)\<rparr>)) (\<lambda>_.
     diskwrite_loop os cdata 0)))"

definition closedisk :: "oscalls \<Rightarrow> (mkstate, unit) kern" where
  "closedisk os =
     bindK (getK mk_open) (\<lambda>op.
     bindK (assertK op) (\<lambda>_.
     if \<not> os_close os then exit1 else modK (\<lambda>s. s\<lparr>mk_open := False\<rparr>)))"

definition writesuper :: "oscalls \<Rightarrow> byte list \<Rightarrow> nat \<Rightarrow> (mkstate, unit) kern" where
  "writesuper os volname nblocks =
     (if length volname \<ge> SFS_VOLNAME_SIZE then exit1 else
      diskwrite os (enc_super \<lparr>sp_magic = SFS_MAGIC, sp_nblocks = nblocks,
        sp_volname = volname @ replicate (SFS_VOLNAME_SIZE - length volname) 0, sp_reserved = replicate 118 0\<rparr>) SFS_SB_LOCATION)"

definition writerootdir :: "oscalls \<Rightarrow> (mkstate, unit) kern" where
  "writerootdir os =
     diskwrite os (enc_inode \<lparr>sfi_size = 0, sfi_type = SFS_TYPE_DIR, sfi_linkcount = 1, sfi_direct = replicate SFS_NDIRECT 0,
       sfi_indirect = 0, sfi_waste = replicate 110 0\<rparr>) SFS_ROOT_LOCATION"

definition doallocbit :: "nat \<Rightarrow> (mkstate, unit) kern" where
  "doallocbit bt =
     bindK (getK bitbuf) (\<lambda>buf.
     if bt div 8 \<ge> length buf then panicK else
     bindK (assertK (buf ! (bt div 8) AND push_bit (bt mod 8) 1 = 0)) (\<lambda>_.
     modK (\<lambda>s. s\<lparr>bitbuf := (bitbuf s)[bt div 8 := bitbuf s ! (bt div 8) OR push_bit (bt mod 8) 1]\<rparr>)))"

definition writebitmap :: "oscalls \<Rightarrow> nat \<Rightarrow> (mkstate, unit) kern" where
  "writebitmap os fsblocks =
     (let nbits = SFS_BITMAPSIZE fsblocks; nblocks = SFS_BITBLOCKS fsblocks in
      if nblocks > MAXBITBLOCKS then exit1 else
      bindK (doallocbit SFS_SB_LOCATION) (\<lambda>_.
      bindK (doallocbit SFS_ROOT_LOCATION) (\<lambda>_.
      bindK (foldK (\<lambda>i _. doallocbit (SFS_MAP_LOCATION + i)) [0..<nblocks] ()) (\<lambda>_.
      bindK (foldK (\<lambda>i _. doallocbit i) [fsblocks..<nbits] ()) (\<lambda>_.
      foldK (\<lambda>i _. bindK (getK bitbuf) (\<lambda>buf.
        diskwrite os (take SFS_BLOCKSIZE (drop (i * SFS_BLOCKSIZE) buf)) (SFS_MAP_LOCATION + i))) [0..<nblocks] ())))))"

text \<open>
  \<^verbatim>\<open>main\<close>. The strings of \<^verbatim>\<open>argv\<close> are lists of bytes; 58 is a colon and 47 a slash. \<^verbatim>\<open>strchr(volname, ':')\<close> is what is left of the name
  from its first colon on.
\<close>

definition volname_of :: "byte list \<Rightarrow> byte list option" where
  "volname_of arg =
     (let s = dropWhile (\<lambda>c. c \<noteq> 58) arg;
          volname = takeWhile (\<lambda>c. c \<noteq> 58) arg in
      if s \<noteq> [] \<and> length s \<noteq> 1 then None
      else if dropWhile (\<lambda>c. c \<noteq> 47) volname \<noteq> [] then None
      else Some volname)"

definition mksfs :: "oscalls \<Rightarrow> byte list list \<Rightarrow> (mkstate, unit) kern" where
  "mksfs os argv =
     (if length argv \<noteq> 3 then exit1 else
      case volname_of (argv ! 2) of None \<Rightarrow> exit1 | Some volname \<Rightarrow>
      bindK (opendisk os) (\<lambda>_.
      bindK diskblocksize (\<lambda>blocksize.
      if blocksize \<noteq> SFS_BLOCKSIZE then exit1 else
      bindK diskblocks (\<lambda>size.
      bindK (writesuper os volname size) (\<lambda>_.
      bindK (writerootdir os) (\<lambda>_.
      bindK (writebitmap os size) (\<lambda>_.
      closedisk os)))))))"

text \<open>The state the program starts in.\<close>

definition mk_start :: "(nat \<Rightarrow> byte) \<Rightarrow> mkstate" where
  "mk_start bytes = \<lparr>mk_open = False, mk_nblocks = 0, mk_bytes = bytes, mk_pos = 0, mk_calls = 0,
     bitbuf = replicate (MAXBITBLOCKS * SFS_BLOCKSIZE) 0\<rparr>"

section \<open>Writing a block\<close>

text \<open>What the manual pages say of \<^verbatim>\<open>write\<close>: it stores at most what it is given, and does not answer ``interrupted'' for ever.\<close>

definition os_ok :: "oscalls \<Rightarrow> bool" where
  "os_ok os \<longleftrightarrow> (\<forall>k n len. os_write os k n = Wrote len \<longrightarrow> len \<le> n) \<and> (\<forall>k n. \<exists>j \<ge> k. os_write os j n \<noteq> Again)"

definition os_fails :: "oscalls \<Rightarrow> bool" where
  "os_fails os \<longleftrightarrow> \<not> os_open os \<or> \<not> os_fstat os \<or> \<not> os_close os \<or> (\<exists>off. \<not> os_lseek os off) \<or> (\<exists>k n. 0 < n \<and> os_write os k n \<in> {Failed, Wrote 0})"

lemma wp_exit1 [wp]: "wpK exit1 Q E s \<longleftrightarrow> E EINVAL s"
  by (simp add: exit1_def wp)

lemma wp_diskwrite_loop:
  "wpK (diskwrite_loop os cdata tot) Q E s \<longleftrightarrow>
     (if tot < 512 then
        (case os_write os (mk_calls s) (512 - tot) of
           Again \<Rightarrow> wpK (diskwrite_loop os cdata tot) Q E (s\<lparr>mk_calls := Suc (mk_calls s)\<rparr>)
         | Failed \<Rightarrow> E EINVAL (s\<lparr>mk_calls := Suc (mk_calls s)\<rparr>)
         | Wrote len \<Rightarrow>
             if len = 0 then E EINVAL (s\<lparr>mk_calls := Suc (mk_calls s)\<rparr>)
             else wpK (diskwrite_loop os cdata (tot + len)) Q E (put_bytes len (drop tot cdata) (s\<lparr>mk_calls := Suc (mk_calls s)\<rparr>)))
      else Q () s)"
  unfolding wpK_def by (subst diskwrite_loop.simps) (simp add: BLOCKSIZE_def exit1_def failK_def split: wres.split)

lemma diskwrite_loop_wp:
  assumes os: "os_ok os" and len: "length cdata = 512" and t: "tot \<le> 512"
  shows "wpK (diskwrite_loop os cdata tot)
     (\<lambda>_ t. \<exists>c. t = s\<lparr>mk_calls := c, mk_pos := mk_pos s + (512 - tot), mk_bytes := put_at (mk_pos s) (drop tot cdata) (mk_bytes s)\<rparr>)
     (\<lambda>_ _. os_fails os) s"
  using t
proof (induction "512 - tot" arbitrary: tot s rule: less_induct)
  case less
  let ?Q = "\<lambda>s _ t. \<exists>c. t = s\<lparr>mk_calls := c, mk_pos := mk_pos s + (512 - tot), mk_bytes := put_at (mk_pos s) (drop tot cdata) (mk_bytes s)\<rparr>"
  show ?case
  proof (cases "tot < 512")
    case False
    then have "drop tot cdata = []" using less.prems len by simp
    then have "s = s\<lparr>mk_calls := mk_calls s, mk_pos := mk_pos s + (512 - tot), mk_bytes := put_at (mk_pos s) (drop tot cdata) (mk_bytes s)\<rparr>"
      using False by simp
    then have "?Q s () s" by blast
    then show ?thesis using False by (subst wp_diskwrite_loop) simp
  next
    case True
    obtain j where j: "mk_calls s \<le> j" "os_write os j (512 - tot) \<noteq> Again" using os unfolding os_ok_def by blast
    have "wpK (diskwrite_loop os cdata tot) (?Q s') (\<lambda>_ _. os_fails os) s'" if "mk_calls s' \<le> j" for s'
      using that
    proof (induction "j - mk_calls s'" arbitrary: s' rule: less_induct)
      case inner: less
      let ?s = "s'\<lparr>mk_calls := Suc (mk_calls s')\<rparr>"
      show ?case
      proof (cases "os_write os (mk_calls s') (512 - tot)")
        case (Wrote l)
        then have l: "l \<le> 512 - tot" using os by (auto simp: os_ok_def)
        show ?thesis
        proof (cases "l = 0")
          case True
          then have "os_fails os" using Wrote \<open>tot < 512\<close> unfolding os_fails_def by (metis insert_iff zero_less_diff)
          then show ?thesis using \<open>tot < 512\<close> Wrote True by (subst wp_diskwrite_loop) simp
        next
          case False
          let ?t = "put_bytes l (drop tot cdata) ?s"
          have "wpK (diskwrite_loop os cdata (tot + l)) (?Q s') (\<lambda>_ _. os_fails os) ?t"
          proof (rule wp_mono [OF less.hyps])
            fix u t assume "\<exists>c. t = ?t\<lparr>mk_calls := c, mk_pos := mk_pos ?t + (512 - (tot + l)), mk_bytes := put_at (mk_pos ?t) (drop (tot + l) cdata) (mk_bytes ?t)\<rparr>"
            then obtain c where "t = ?t\<lparr>mk_calls := c, mk_pos := mk_pos ?t + (512 - (tot + l)), mk_bytes := put_at (mk_pos ?t) (drop (tot + l) cdata) (mk_bytes ?t)\<rparr>" by blast
            moreover have "drop tot cdata = take l (drop tot cdata) @ drop (tot + l) cdata"
              using append_take_drop_id [of l "drop tot cdata"] by (simp add: add.commute)
            then have "put_at (mk_pos s') (drop tot cdata) (mk_bytes s') =
                put_at (mk_pos s' + l) (drop (tot + l) cdata) (put_at (mk_pos s') (take l (drop tot cdata)) (mk_bytes s'))"
              using put_at_append [of "mk_pos s'" "take l (drop tot cdata)" "drop (tot + l) cdata" "mk_bytes s'"] l len by simp
            ultimately show "?Q s' u t" using l by (intro exI [of _ c]) (simp add: put_bytes_def)
          qed (use True False l in auto)
          then show ?thesis using \<open>tot < 512\<close> Wrote False by (subst wp_diskwrite_loop) simp
        qed
      next
        case Again
        then have "mk_calls s' \<noteq> j" using j(2) by auto
        then have "wpK (diskwrite_loop os cdata tot) (?Q ?s) (\<lambda>_ _. os_fails os) ?s" using inner.prems by (intro inner.hyps) auto
        then have "wpK (diskwrite_loop os cdata tot) (?Q s') (\<lambda>_ _. os_fails os) ?s" by (rule wp_mono) auto
        then show ?thesis using True Again by (subst wp_diskwrite_loop) simp
      next
        case Failed
        then have "os_fails os" using True unfolding os_fails_def by (metis insert_iff zero_less_diff)
        then show ?thesis using True Failed by (subst wp_diskwrite_loop) simp
      qed
    qed
    from this [OF j(1)] show ?thesis .
  qed
qed

text \<open>A block written has the data, and no other block changes.\<close>

definition blk :: "mkstate \<Rightarrow> nat \<Rightarrow> byte list" where
  "blk s b = get_at (b * 512) 512 (mk_bytes s)"

lemma diskwrite_wp:
  assumes os: "os_ok os" and len: "length cdata = 512" and op: "mk_open s" and b: "b < 4194304"
  shows "wpK (diskwrite os cdata b)
     (\<lambda>_ t. blk t = (blk s)(b := cdata) \<and> mk_open t \<and> mk_nblocks t = mk_nblocks s \<and> bitbuf t = bitbuf s) (\<lambda>_ _. os_fails os) s"
proof -
  have u: "u32 (b * BLOCKSIZE) = b * 512" "\<not> s32 (int (b * 512)) < 0" using b by (simp_all add: u32_def s32_def BLOCKSIZE_def)
  let ?t = "s\<lparr>mk_pos := b * 512\<rparr>"
  have "wpK (diskwrite_loop os cdata 0)
     (\<lambda>_ t. blk t = (blk s)(b := cdata) \<and> mk_open t \<and> mk_nblocks t = mk_nblocks s \<and> bitbuf t = bitbuf s) (\<lambda>_ _. os_fails os) ?t"
  proof (rule wp_mono [OF diskwrite_loop_wp [OF os len]])
    fix u t assume "\<exists>c. t = ?t\<lparr>mk_calls := c, mk_pos := mk_pos ?t + (512 - 0), mk_bytes := put_at (mk_pos ?t) (drop 0 cdata) (mk_bytes ?t)\<rparr>"
    then have t: "mk_bytes t = put_at (b * 512) cdata (mk_bytes s)" "mk_open t = mk_open s" "mk_nblocks t = mk_nblocks s" "bitbuf t = bitbuf s" by auto
    have "blk t c = ((blk s)(b := cdata)) c" for c
    proof (cases "c = b")
      case True
      have "get_at (b * 512) 512 (put_at (b * 512) cdata (mk_bytes s)) = cdata"
        using get_put_at [of "b * 512" cdata "mk_bytes s"] unfolding len .
      then show ?thesis unfolding True fun_upd_same blk_def t(1) .
    next
      case False
      then have "c * 512 + 512 \<le> b * 512 \<or> b * 512 + 512 \<le> c * 512" by (cases "c < b") simp_all
      then have "c * 512 + 512 \<le> b * 512 \<or> b * 512 + length cdata \<le> c * 512" unfolding len .
      then show ?thesis unfolding fun_upd_other [OF False] blk_def t(1) by (rule get_put_disjoint)
    qed
    then show "blk t = (blk s)(b := cdata) \<and> mk_open t \<and> mk_nblocks t = mk_nblocks s \<and> bitbuf t = bitbuf s"
      using t op by auto
  qed simp_all
  moreover have "os_fails os" if "\<not> os_lseek os (b * 512)" using that unfolding os_fails_def by blast
  ultimately show ?thesis using op u by (simp add: diskwrite_def wp)
qed

section \<open>The bitmap\<close>

definition bb :: "mkstate \<Rightarrow> bitmap" where
  "bb s = \<lparr>nbits = 8 * length (bitbuf s), bm_v = bitbuf s\<rparr>"

lemma bb_ok: "length (bitbuf s) = 16384 \<Longrightarrow> bitmap_ok (bb s)"
  by (auto simp: bitmap_ok_def bb_def)

lemma doallocbit_wp:
  assumes "length (bitbuf s) = 16384" "i < 131072" "i \<notin> bits (bb s)"
  shows "wpK (doallocbit i) (\<lambda>_ t. \<exists>v. t = s\<lparr>bitbuf := v\<rparr> \<and> length v = 16384 \<and> bits (bb t) = insert i (bits (bb s))) E s"
proof -
  have n: "nbits (bb s) = 131072" using assms(1) by (simp add: bb_def)
  have d: "i div 8 < length (bitbuf s)" "\<not> bit (bitbuf s ! (i div 8)) (i mod 8)"
    using assms n by (auto simp: bits_def bitat_def bb_def)
  let ?t = "s\<lparr>bitbuf := (bitbuf s)[i div 8 := bitbuf s ! (i div 8) OR 2 ^ (i mod 8)]\<rparr>"
  have "bb ?t = bm_set i (bb s)" by (simp add: bb_def bm_set_def)
  then have "bits (bb ?t) = insert i (bits (bb s))" using bits_bm_set [OF bb_ok [OF assms(1)]] n assms(2) by simp
  then have "\<exists>v. ?t = s\<lparr>bitbuf := v\<rparr> \<and> length v = 16384 \<and> bits (bb ?t) = insert i (bits (bb s))"
    using assms(1) by (intro exI [of _ "(bitbuf s)[i div 8 := bitbuf s ! (i div 8) OR 2 ^ (i mod 8)]"]) simp
  then show ?thesis using d by (simp add: doallocbit_def wp and_mask_bit push_bit_eq_mult)
qed

text \<open>A range of bits that are all clear.\<close>

lemma doallocbits_wp:
  assumes "length (bitbuf s) = 16384" "c \<le> d" "d + off \<le> 131072" "{c + off..<d + off} \<inter> bits (bb s) = {}"
  shows "wpK (foldK (\<lambda>i _. doallocbit (off + i)) [c..<d] ())
     (\<lambda>_ t. \<exists>v. t = s\<lparr>bitbuf := v\<rparr> \<and> length v = 16384 \<and> bits (bb t) = bits (bb s) \<union> {c + off..<d + off}) E s"
proof (rule foldK_upt_wp [where I = "\<lambda>k _ t. \<exists>v. t = s\<lparr>bitbuf := v\<rparr> \<and> length v = 16384 \<and> bits (bb t) = bits (bb s) \<union> {c + off..<k + off}"])
  fix k b t
  assume k: "c \<le> k" "k < d" and "\<exists>v. t = s\<lparr>bitbuf := v\<rparr> \<and> length v = 16384 \<and> bits (bb t) = bits (bb s) \<union> {c + off..<k + off}"
  then obtain v where v: "t = s\<lparr>bitbuf := v\<rparr>" "length v = 16384" "bits (bb t) = bits (bb s) \<union> {c + off..<k + off}" by blast
  have "k + off \<in> {c + off..<d + off}" using k by simp
  then have "off + k \<notin> bits (bb s)" using assms(4) unfolding add.commute [of off k] by blast
  then have nb: "off + k \<notin> bits (bb t)" unfolding v(3) by simp
  have ins: "insert (off + k) (bits (bb s) \<union> {c + off..<k + off}) = bits (bb s) \<union> {c + off..<Suc k + off}" using k(1) by auto
  have "length (bitbuf t) = 16384" "off + k < 131072" using v k(2) assms(3) by simp_all
  from doallocbit_wp [OF this nb]
  show "wpK (doallocbit (off + k)) (\<lambda>_ t. \<exists>v. t = s\<lparr>bitbuf := v\<rparr> \<and> length v = 16384 \<and> bits (bb t) = bits (bb s) \<union> {c + off..<Suc k + off}) E t"
  proof (rule wp_mono)
    fix x u assume "\<exists>va. u = t\<lparr>bitbuf := va\<rparr> \<and> length va = 16384 \<and> bits (bb u) = insert (off + k) (bits (bb t))"
    then obtain va where "u = t\<lparr>bitbuf := va\<rparr>" "length va = 16384" "bits (bb u) = insert (off + k) (bits (bb t))" by blast
    then show "\<exists>v. u = s\<lparr>bitbuf := v\<rparr> \<and> length v = 16384 \<and> bits (bb u) = bits (bb s) \<union> {c + off..<Suc k + off}"
      unfolding v(3) ins using v(1) by (intro exI [of _ va]) simp
  qed
qed (use assms in auto)

lemma bitblocks_eq:
  assumes "n \<le> 131072"
  shows "SFS_BITBLOCKS n = (n + 4095) div 4096" "SFS_BITMAPSIZE n = SFS_BITBLOCKS n * 4096" "SFS_BITBLOCKS n \<le> 32" "n \<le> SFS_BITMAPSIZE n"
proof -
  have a: "(n + 4095) div 4096 \<le> 32" using div_le_mono [of "n + 4095" 135167 4096] assms by simp
  then have "SFS_BITMAPSIZE n = (n + 4095) div 4096 * 4096"
    using assms by (simp add: SFS_BITMAPSIZE_def SFS_ROUNDUP_def SFS_BLOCKBITS_def u32_def)
  then show "SFS_BITBLOCKS n = (n + 4095) div 4096" "SFS_BITMAPSIZE n = SFS_BITBLOCKS n * 4096" "SFS_BITBLOCKS n \<le> 32" "n \<le> SFS_BITMAPSIZE n"
    using a by (simp_all add: SFS_BITBLOCKS_def SFS_BLOCKBITS_def)
qed

text \<open>The map as it is written: the file system's own blocks and the root's inode, and everything past the end.\<close>

definition mk_used :: "nat \<Rightarrow> nat set" where
  "mk_used n = {..<2 + SFS_BITBLOCKS n} \<union> {n..<SFS_BITMAPSIZE n}"

lemma writebitmap_wp:
  assumes os: "os_ok os" and op: "mk_open s" and z: "bitbuf s = replicate 16384 0" and n: "n \<le> 131072" "2 + SFS_BITBLOCKS n \<le> n"
  shows "wpK (writebitmap os n)
     (\<lambda>_ t. \<exists>v. length v = 16384 \<and> bits \<lparr>nbits = 131072, bm_v = v\<rparr> = mk_used n \<and>
        (\<forall>j < SFS_BITBLOCKS n. blk t (2 + j) = map_sector j v) \<and> blk t 0 = blk s 0 \<and> blk t 1 = blk s 1 \<and> mk_open t)
     (\<lambda>_ _. os_fails os) s"
proof -
  note bq = bitblocks_eq [OF n(1)]
  let ?bb = "SFS_BITBLOCKS n" and ?E = "\<lambda>_ _. os_fails os"
  have ms: "SFS_BITMAPSIZE n \<le> 131072" using bq(2,3) by simp
  let ?A = "\<lambda>B _ t. \<exists>v. t = s\<lparr>bitbuf := v\<rparr> \<and> length v = 16384 \<and> bits (bb t) = B"
  have b0: "bits (bb s) = {}" by (auto simp: bits_def bitat_def bb_def z)
  have one: "wpK (doallocbit i) (?A (insert i B)) ?E t" if "?A B () t" "i < 131072" "i \<notin> B" for i B t
    using that by (intro wp_mono [OF doallocbit_wp]) auto
  have many: "wpK (foldK (\<lambda>i _. doallocbit (off + i)) [c..<d] ()) (?A (B \<union> {c + off..<d + off})) ?E t"
    if "?A B () t" "c \<le> d" "d + off \<le> 131072" "{c + off..<d + off} \<inter> B = {}" for c d off B t
    using that by (intro wp_mono [OF doallocbits_wp]) auto
  let ?w = "foldK (\<lambda>i _. bindK (getK bitbuf) (\<lambda>buf. diskwrite os (take 512 (drop (i * 512) buf)) (2 + i))) [0..<?bb] ()"
  have wr: "wpK ?w (\<lambda>_ t. \<exists>v. length v = 16384 \<and> bits \<lparr>nbits = 131072, bm_v = v\<rparr> = mk_used n \<and>
        (\<forall>j < ?bb. blk t (2 + j) = map_sector j v) \<and> blk t 0 = blk s 0 \<and> blk t 1 = blk s 1 \<and> mk_open t) ?E t"
    if "?A (mk_used n) () t" for t
  proof -
    from that obtain v where v: "t = s\<lparr>bitbuf := v\<rparr>" "length v = 16384" "bits (bb t) = mk_used n" by blast
    have "wpK ?w (\<lambda>_ u. bitbuf u = v \<and> mk_open u \<and> (\<forall>j < ?bb. blk u (2 + j) = map_sector j v) \<and> blk u 0 = blk s 0 \<and> blk u 1 = blk s 1) ?E t"
    proof (rule foldK_upt_wp [where I = "\<lambda>k _ u. bitbuf u = v \<and> mk_open u \<and> (\<forall>j < k. blk u (2 + j) = map_sector j v) \<and>
          blk u 0 = blk s 0 \<and> blk u 1 = blk s 1"])
      fix k b u
      assume k: "0 \<le> k" "k < ?bb" and "bitbuf u = v \<and> mk_open u \<and> (\<forall>j < k. blk u (2 + j) = map_sector j v) \<and> blk u 0 = blk s 0 \<and> blk u 1 = blk s 1"
      moreover have "length (take 512 (drop (k * 512) v)) = 512" using k bq(3) v(2) by simp
      ultimately show "wpK (bindK (getK bitbuf) (\<lambda>buf. diskwrite os (take 512 (drop (k * 512) buf)) (2 + k)))
          (\<lambda>_ u. bitbuf u = v \<and> mk_open u \<and> (\<forall>j < Suc k. blk u (2 + j) = map_sector j v) \<and> blk u 0 = blk s 0 \<and> blk u 1 = blk s 1) ?E u"
        using bq(3) by (simp add: wp, intro wp_mono [OF diskwrite_wp [OF os]]) (auto simp: map_sector_def less_Suc_eq)
    qed (use v op in \<open>simp_all add: blk_def\<close>)
    then show ?thesis by (rule wp_mono) (use v in \<open>auto simp: bb_def intro!: exI [of _ v]\<close>)
  qed
  let ?Q = "\<lambda>_ t. \<exists>v. length v = 16384 \<and> bits \<lparr>nbits = 131072, bm_v = v\<rparr> = mk_used n \<and>
        (\<forall>j < ?bb. blk t (2 + j) = map_sector j v) \<and> blk t 0 = blk s 0 \<and> blk t 1 = blk s 1 \<and> mk_open t"
  have u: "mk_used n = {1, 0} \<union> {0 + 2..<?bb + 2} \<union> {n + 0..<SFS_BITMAPSIZE n + 0}" using n(2) by (auto simp: mk_used_def)
  have s4: "wpK (bindK (foldK (\<lambda>i _. doallocbit (0 + i)) [n..<SFS_BITMAPSIZE n] ()) (\<lambda>_. ?w)) ?Q ?E t"
    if "?A ({1, 0} \<union> {0 + 2..<?bb + 2}) () t" for t
    unfolding wp_bind by (rule wp_mono [OF many [OF that bq(4)] wr]) (use n ms u in auto)
  have s3: "wpK (bindK (foldK (\<lambda>i _. doallocbit (2 + i)) [0..<?bb] ())
      (\<lambda>_. bindK (foldK (\<lambda>i _. doallocbit (0 + i)) [n..<SFS_BITMAPSIZE n] ()) (\<lambda>_. ?w))) ?Q ?E t"
    if "?A {1, 0} () t" for t
    unfolding wp_bind by (rule wp_mono [OF many [OF that] s4 [unfolded wp_bind]]) (use bq(3) in auto)
  have s2: "wpK (bindK (doallocbit 1) (\<lambda>_. bindK (foldK (\<lambda>i _. doallocbit (2 + i)) [0..<?bb] ())
      (\<lambda>_. bindK (foldK (\<lambda>i _. doallocbit (0 + i)) [n..<SFS_BITMAPSIZE n] ()) (\<lambda>_. ?w)))) ?Q ?E t"
    if "?A {0} () t" for t
    unfolding wp_bind by (rule wp_mono [OF one [OF that] s3 [unfolded wp_bind]]) auto
  have st: "?A {} () s" using z b0 by (intro exI [of _ "bitbuf s"]) simp
  have "wpK (bindK (doallocbit 0) (\<lambda>_. bindK (doallocbit 1) (\<lambda>_. bindK (foldK (\<lambda>i _. doallocbit (2 + i)) [0..<?bb] ())
      (\<lambda>_. bindK (foldK (\<lambda>i _. doallocbit (0 + i)) [n..<SFS_BITMAPSIZE n] ()) (\<lambda>_. ?w))))) ?Q ?E s"
    unfolding wp_bind by (rule wp_mono [OF one [OF st] s2 [unfolded wp_bind]]) auto
  then show ?thesis using bq(3) by (simp add: writebitmap_def Let_def sfs_consts MAXBITBLOCKS_def)
qed

section \<open>The whole program\<close>

definition mk_super :: "byte list \<Rightarrow> nat \<Rightarrow> sfs_super" where
  "mk_super volname n = \<lparr>sp_magic = SFS_MAGIC, sp_nblocks = n, sp_volname = volname @ replicate (32 - length volname) 0,
     sp_reserved = replicate 118 0\<rparr>"

definition mk_root :: sfs_inode where
  "mk_root = \<lparr>sfi_size = 0, sfi_type = SFS_TYPE_DIR, sfi_linkcount = 1, sfi_direct = replicate 15 0, sfi_indirect = 0,
     sfi_waste = replicate 110 0\<rparr>"

lemma mk_wf: "length v < 32 \<Longrightarrow> n < 4294967296 \<Longrightarrow> super_wf (mk_super v n)" "inode_wf mk_root"
  by (simp_all add: super_wf_def mk_super_def sfs_consts inode_wf_def mk_root_def)

definition formatted :: "(nat \<Rightarrow> byte list) \<Rightarrow> byte list \<Rightarrow> nat \<Rightarrow> bool" where
  "formatted dk volname n \<longleftrightarrow> dk 0 = enc_super (mk_super volname n) \<and> dk 1 = enc_inode mk_root \<and>
     (\<exists>v. length v = 16384 \<and> bits \<lparr>nbits = 131072, bm_v = v\<rparr> = mk_used n \<and> (\<forall>j < SFS_BITBLOCKS n. dk (2 + j) = map_sector j v))"

lemma mksfs_wp:
  assumes os: "os_ok os" and name: "volname_of (argv ! 2) = Some v" "length v < 32" "length argv = 3"
    and n: "n = os_size os div 512" "n \<le> 131072" "2 + SFS_BITBLOCKS n \<le> n"
  shows "wpK (mksfs os argv) (\<lambda>_ t. formatted (blk t) v n) (\<lambda>_ _. os_fails os) (mk_start bytes)"
proof -
  let ?E = "\<lambda>_ _. os_fails os"
  have u: "u32 (os_size os div BLOCKSIZE) = n" using n(1,2) by (simp add: u32_def BLOCKSIZE_def)
  have sb: "enc_super (mk_super v n) = enc_super \<lparr>sp_magic = SFS_MAGIC, sp_nblocks = n,
        sp_volname = v @ replicate (SFS_VOLNAME_SIZE - length v) 0, sp_reserved = replicate 118 0\<rparr>"
    by (simp add: mk_super_def sfs_consts)
  have rt: "enc_inode mk_root = enc_inode \<lparr>sfi_size = 0, sfi_type = SFS_TYPE_DIR, sfi_linkcount = 1, sfi_direct = replicate SFS_NDIRECT 0,
       sfi_indirect = 0, sfi_waste = replicate 110 0\<rparr>"
    by (simp add: mk_root_def sfs_consts)
  let ?z = "replicate 16384 (0 :: byte)"
  have cl: "wpK (closedisk os) (\<lambda>_ t. formatted (blk t) v n) ?E s" if "mk_open s" "formatted (blk s) v n" for s
  proof -
    have "blk (s\<lparr>mk_open := False\<rparr>) = blk s" by (simp add: blk_def fun_eq_iff)
    then show ?thesis using that by (auto simp: closedisk_def wp os_fails_def)
  qed
  have s3: "wpK (bindK (writebitmap os n) (\<lambda>_. closedisk os)) (\<lambda>_ t. formatted (blk t) v n) ?E s"
    if "mk_open s" "bitbuf s = ?z" "blk s 0 = enc_super (mk_super v n)" "blk s 1 = enc_inode mk_root" for s
    unfolding wp_bind by (rule wp_mono [OF writebitmap_wp [OF os that(1,2) n(2,3)] cl]) (use that in \<open>auto simp: formatted_def\<close>)
  have s2: "wpK (bindK (writerootdir os) (\<lambda>_. bindK (writebitmap os n) (\<lambda>_. closedisk os))) (\<lambda>_ t. formatted (blk t) v n) ?E s"
    if "mk_open s" "bitbuf s = ?z" "blk s 0 = enc_super (mk_super v n)" for s
    unfolding wp_bind writerootdir_def rt [symmetric]
    by (rule wp_mono [OF diskwrite_wp [OF os _ that(1)] s3 [unfolded wp_bind]])
      (use that mk_wf(2) in \<open>auto simp: sfs_consts\<close>)
  have s1: "wpK (bindK (writesuper os v n) (\<lambda>_. bindK (writerootdir os) (\<lambda>_. bindK (writebitmap os n) (\<lambda>_. closedisk os))))
      (\<lambda>_ t. formatted (blk t) v n) ?E s" if "mk_open s" "bitbuf s = ?z" for s
  proof -
    have "wpK (diskwrite os (enc_super (mk_super v n)) 0) (\<lambda>_. wpK (bindK (writerootdir os) (\<lambda>_. bindK (writebitmap os n) (\<lambda>_. closedisk os)))
        (\<lambda>_ t. formatted (blk t) v n) ?E) ?E s"
      by (rule wp_mono [OF diskwrite_wp [OF os _ that(1)] s2]) (use that mk_wf(1) [OF name(2)] n(2) in auto)
    then show ?thesis using name(2) unfolding wp_bind writesuper_def sb [symmetric] by (simp add: sfs_consts)
  qed
  let ?s = "(mk_start bytes)\<lparr>mk_open := True, mk_nblocks := n\<rparr>"
  have "wpK (bindK (writesuper os v n) (\<lambda>_. bindK (writerootdir os) (\<lambda>_. bindK (writebitmap os n) (\<lambda>_. closedisk os))))
      (\<lambda>_ t. formatted (blk t) v n) ?E ?s" by (rule s1) (simp_all add: mk_start_def MAXBITBLOCKS_def sfs_consts)
  then show ?thesis
    using name u by (auto simp: mksfs_def opendisk_def diskblocksize_def diskblocks_def wp os_fails_def sfs_consts BLOCKSIZE_def mk_start_def)
qed

section \<open>Mounting what was made\<close>

text \<open>The blocks of the map together are the map of a volume of that size.\<close>

lemma bits_take:
  assumes "length v = 16384" "k \<le> 16384"
  shows "bits \<lparr>nbits = k * 8, bm_v = take k v\<rparr> = bits \<lparr>nbits = 131072, bm_v = v\<rparr> \<inter> {..<k * 8}"
proof (rule set_eqI)
  fix i
  show "i \<in> bits \<lparr>nbits = k * 8, bm_v = take k v\<rparr> \<longleftrightarrow> i \<in> bits \<lparr>nbits = 131072, bm_v = v\<rparr> \<inter> {..<k * 8}"
  proof (cases "i < k * 8")
    case True
    then have "i div 8 < k" by (rule less_mult_imp_div_less)
    then show ?thesis using True assms by (simp add: bits_def bitat_def)
  qed (simp add: bits_def)
qed

lemma formatted_map:
  assumes f: "formatted dk volname n" and n: "n \<le> 131072" "2 + SFS_BITBLOCKS n \<le> n" and v: "length volname < 32"
  obtains bm where "geom (mk_super volname n) bm" "bitmap_ok bm" "map_on_disk dk n (bm_v bm)" "bits bm = mk_used n"
proof -
  obtain v where vl: "length v = 16384" and vb: "bits \<lparr>nbits = 131072, bm_v = v\<rparr> = mk_used n"
    and vd: "\<forall>j < SFS_BITBLOCKS n. dk (2 + j) = map_sector j v" using f unfolding formatted_def by blast
  note bq = bitblocks_eq [OF n(1)]
  define bm where "bm = \<lparr>nbits = SFS_BITBLOCKS n * 512 * 8, bm_v = take (SFS_BITBLOCKS n * 512) v\<rparr>"
  have len: "length (bm_v bm) = SFS_BITBLOCKS n * 512" using vl bq(3) by (simp add: bm_def)
  have ok: "bitmap_ok bm" using len bq(3) by (auto simp: bitmap_ok_def bm_def)
  have g: "geom (mk_super volname n) bm"
    using mk_wf(1) [OF v, of n] n bq(2) v by (simp add: geom_def bm_def mk_super_def nth_append)
  have "map_sector j (take (SFS_BITBLOCKS n * 512) v) = map_sector j v" if "j < SFS_BITBLOCKS n" for j
  proof -
    have "j * 512 + 512 \<le> SFS_BITBLOCKS n * 512" using that by simp
    then show ?thesis by (simp add: map_sector_def drop_take take_take min_def)
  qed
  then have m: "map_on_disk dk n (bm_v bm)" using vd by (simp add: map_on_disk_def bm_def)
  have "mk_used n \<subseteq> {..<SFS_BITBLOCKS n * 512 * 8}" using n bq(2,4) by (auto simp: mk_used_def)
  then have "bits bm = mk_used n" using bits_take [OF vl, of "SFS_BITBLOCKS n * 512"] bq(3) vb by (auto simp: bm_def)
  then show ?thesis using that ok g m by blast
qed

lemma mk_root_blocks: "ptrs dk mk_root = replicate 144 0" "own dk 1 mk_root = {1}" "dents dk mk_root = []"
proof -
  show p: "ptrs dk mk_root = replicate 144 0" by (simp add: ptrs_def mk_root_def id_words_def numeral_eq_Suc)
  show "own dk 1 mk_root = {1}" by (simp add: own_def p)
  show "dents dk mk_root = []" by (simp add: dents_def mk_root_def)
qed

text \<open>An empty volume: nothing but the root directory, and the map that goes with it.\<close>

lemma vol_formatted:
  assumes d: "dinv (sfs_device r)" "sec (sfs_device r) 1 = enc_inode mk_root" and n: "n \<le> nsec" "2 + SFS_BITBLOCKS n \<le> n" "n \<le> 131072"
    and bm: "bitmap_ok bm" "bits bm = mk_used n" "nbits bm = SFS_BITMAPSIZE n"
    and r: "sfs_super r = mk_super volname n" "sfs_freemap r = bm" "sfs_heap r = Map.empty" "sfs_vnodes r = \<lparr>arr_num = 0, arr_max = 0, arr_v = None\<rparr>"
  shows "vol dinv sec nsec Map.empty [1 \<mapsto> mk_root] {} r"
proof -
  note bq = bitblocks_eq [OF n(3)]
  have sb: "sp_nblocks (sfs_super r) = n" by (simp add: r(1) mk_super_def)
  have "map_ok nsec r" unfolding map_ok_def sb r(2) bm(2,3) using bm(1) n(1) bq(4) by (auto simp: mk_used_def sys_blocks_def)
  moreover have "inode_ok (bits bm) n dk 1 mk_root" for dk
    unfolding inode_ok_def mk_root_blocks bm(2) using mk_wf(2) n(2)
    by (auto simp: mk_used_def sys_blocks_def nzdistinct_def) (simp add: mk_root_def)
  moreover have "heap_ok (sec (sfs_device r)) [1 \<mapsto> mk_root] (sfs_heap r)" using d(2) by (simp add: heap_ok_def r(3))
  ultimately have ok: "fs_ok nsec (sec (sfs_device r)) [1 \<mapsto> mk_root] r" by (auto simp: fs_ok_def sb r(2) split: if_splits)
  have "array_rep (sfs_vnodes r) []" by (simp add: r(4) array_rep_def array_ok_def array_cells_def)
  then have "vt_ok r" unfolding vt_ok_def r(3) by (intro conjI exI [of _ "[]"]) auto
  then have st: "settled dinv sec nsec [1 \<mapsto> mk_root] r" using ok d(1) by (simp add: settled_def)
  have "dir_ok dk mk_root" "dir_map (dents dk mk_root) = Map.empty" for dk
    unfolding dir_ok_def mk_root_blocks(3) by (simp_all add: dir_distinct_def dir_map_def) (simp_all add: mk_root_def)
  then show ?thesis unfolding vol_def using st by (intro conjI exI [of _ mk_root]) (auto split: if_splits)
qed

context sfs_disk
begin

lemma formatted_mount_wp:
  assumes f: "formatted (sec (sfs_device s)) volname n" and n: "n \<le> nsec" "2 + SFS_BITBLOCKS n \<le> n" "n \<le> 131072"
    and v: "length volname < 32" "0 \<notin> set volname" and s: "dinv (sfs_device s)" "d_blocksize dv = 512" "sfs_heap s = Map.empty"
  shows "wpK (sfs_domount dv)
     (\<lambda>_ r. vol dinv sec nsec Map.empty [1 \<mapsto> mk_root] {} r \<and> cstr (sp_volname (sfs_super r)) = volname \<and> sp_nblocks (sfs_super r) = n \<and>
        bits (sfs_freemap r) = mk_used n)
     (\<lambda>e r. e \<in> {ENOMEM, EIO} \<and> sec (sfs_device r) = sec (sfs_device s)) s"
proof -
  obtain bm where bm: "geom (mk_super volname n) bm" "bitmap_ok bm" "map_on_disk (sec (sfs_device s)) n (bm_v bm)" "bits bm = mk_used n"
    using formatted_map [OF f n(3,2) v(1)] by blast
  have nb: "sp_nblocks (mk_super volname n) = n" by (simp add: mk_super_def)
  have nm: "cstr (sp_volname (mk_super volname n)) = volname" using cstr_name [OF v(2)] by (simp add: mk_super_def)
  have b3: "nbits bm = SFS_BITMAPSIZE n" using bm(1) by (simp add: geom_def nb)
  show ?thesis
  proof (rule wp_mono [OF domount_wp [OF s(1,2) bm(1,2)]])
    fix u r assume "\<exists>d' km. r = s\<lparr>sfs_super := mk_super volname n, sfs_superdirty := False, sfs_device := d',
        sfs_vnodes := \<lparr>arr_num = 0, arr_max = 0, arr_v = None\<rparr>, sfs_freemap := bm, sfs_freemapdirty := False, sfs_km := km\<rparr> \<and>
        dinv d' \<and> sec d' = sec (sfs_device s)"
    then have r: "sfs_super r = mk_super volname n" "sfs_freemap r = bm" "sfs_heap r = Map.empty"
      "sfs_vnodes r = \<lparr>arr_num = 0, arr_max = 0, arr_v = None\<rparr>" "dinv (sfs_device r)" "sec (sfs_device r) = sec (sfs_device s)"
      using s(3) by auto
    have "sec (sfs_device r) 1 = enc_inode mk_root" using f r(6) by (simp add: formatted_def)
    then show "vol dinv sec nsec Map.empty [1 \<mapsto> mk_root] {} r \<and> cstr (sp_volname (sfs_super r)) = volname \<and> sp_nblocks (sfs_super r) = n \<and>
        bits (sfs_freemap r) = mk_used n"
      using vol_formatted [of dinv r sec, OF r(5) _ n bm(2,4) b3 r(1-4)] r nm nb bm(4) by simp
  qed (use n bm nb f in \<open>auto simp: formatted_def\<close>)
qed

end

lemma formatted_cong: "(\<And>b. b < n \<Longrightarrow> dk' b = dk b) \<Longrightarrow> 2 + SFS_BITBLOCKS n \<le> n \<Longrightarrow> formatted dk v n \<Longrightarrow> formatted dk' v n"
  by (auto simp: formatted_def)

section \<open>Properties\<close>

text \<open>
  Property C7. What \<^verbatim>\<open>mksfs\<close> leaves on a disk is an empty volume: after it has ended without an error, a mount of that disk gives a
  volume that satisfies the invariant of SFS, with the name it was given, with no file in its root directory, and with exactly the blocks of
  the file system itself and those past the end marked in use. The mount fails only for lack of memory or because the disk cannot be read.
  \<^verbatim>\<open>mksfs\<close> itself always ends, and with an error only when a system call failed, if the name has no slash, no inner colon and less than 32
  bytes, and the size fits the map buffer and leaves room for the map.
\<close>

theorem mksfs_mounts:
  assumes "os_ok os" and "volname_of arg = Some v" and "length v < 32" and "0 \<notin> set v"
    and "os_size os div 512 \<le> 131072" and "2 + SFS_BITBLOCKS (os_size os div 512) \<le> os_size os div 512"
    and "sfs_disk dv sec nsec dinv" and "d_blocksize dv = 512" and "os_size os div 512 \<le> nsec"
  shows "wpK (mksfs os [prog, path, arg])
     (\<lambda>_ t. \<forall>s. dinv (sfs_device s) \<and> sfs_heap s = Map.empty \<and> (\<forall>b < os_size os div 512. sec (sfs_device s) b = blk t b) \<longrightarrow>
        wpK (sfs_domount dv)
          (\<lambda>_ r. vol dinv sec nsec Map.empty [1 \<mapsto> mk_root] {} r \<and> cstr (sp_volname (sfs_super r)) = v \<and>
             sp_nblocks (sfs_super r) = os_size os div 512 \<and> bits (sfs_freemap r) = mk_used (os_size os div 512))
          (\<lambda>e r. e \<in> {ENOMEM, EIO} \<and> sec (sfs_device r) = sec (sfs_device s)) s)
     (\<lambda>_ _. os_fails os) (mk_start bytes)"
proof (rule wp_mono [OF mksfs_wp [OF assms(1) _ assms(3) _ refl assms(5,6)]])
  fix u t assume f: "formatted (blk t) v (os_size os div 512)"
  show "\<forall>s. dinv (sfs_device s) \<and> sfs_heap s = Map.empty \<and> (\<forall>b < os_size os div 512. sec (sfs_device s) b = blk t b) \<longrightarrow>
        wpK (sfs_domount dv)
          (\<lambda>_ r. vol dinv sec nsec Map.empty [1 \<mapsto> mk_root] {} r \<and> cstr (sp_volname (sfs_super r)) = v \<and>
             sp_nblocks (sfs_super r) = os_size os div 512 \<and> bits (sfs_freemap r) = mk_used (os_size os div 512))
          (\<lambda>e r. e \<in> {ENOMEM, EIO} \<and> sec (sfs_device r) = sec (sfs_device s)) s"
    using sfs_disk.formatted_mount_wp [OF assms(7) formatted_cong [OF _ assms(6) f] assms(9,6,5,3,4) _ assms(8)] by blast
qed (use assms(2) in auto)

text \<open>A disk of 64 blocks behind a system that writes everything at once, in software; the kernel's disk then has these blocks.\<close>

definition example_os :: oscalls where
  "example_os = \<lparr>os_open = True, os_fstat = True, os_size = 32768, os_lseek = (\<lambda>_. True),
     os_write = (\<lambda>k n. if even k then Again else Wrote (if n = 512 then 100 else n)), os_close = True\<rparr>"

lemma example_os_ok: "os_ok example_os" "\<not> os_fails example_os"
proof -
  have w: "os_write example_os k n = (if even k then Again else Wrote (if n = 512 then 100 else n))" for k n by (simp add: example_os_def)
  have "\<exists>j \<ge> k. os_write example_os j n \<noteq> Again" for k n by (rule exI [of _ "2 * k + 1"]) (simp add: w)
  moreover have "os_write example_os k n = Wrote len \<longrightarrow> len \<le> n" for k n len by (auto simp: w)
  ultimately show "os_ok example_os" unfolding os_ok_def by blast
  have "0 < n \<longrightarrow> os_write example_os k n \<notin> {Failed, Wrote 0}" for k n by (simp add: w)
  then show "\<not> os_fails example_os" unfolding os_fails_def by (auto simp: example_os_def)
qed

definition formatted_disk :: "mkstate \<Rightarrow> simdisk lhd_softc" where
  "formatted_disk t = example_disk\<lparr>lh_card := (lh_card example_disk)\<lparr>sd_disk := blk t\<rparr>\<rparr>"

theorem mksfs_mounts_witness:
  "wpK (mksfs example_os [[109], [100], [118, 111, 108, 58]])
     (\<lambda>_ t. wpK (sfs_domount (lhd_device (sim_hw (\<lambda>_. False) (\<lambda>_. False)) 2048))
        (\<lambda>_ r. vol (lhd_inv sim_idle 2048) (lhd_sec sd_disk) 2048 Map.empty [1 \<mapsto> mk_root] {} r \<and>
           cstr (sp_volname (sfs_super r)) = [118, 111, 108] \<and> bits (sfs_freemap r) = {..<3} \<union> {64..<4096})
        (\<lambda>e _. e \<in> {ENOMEM, EIO}) (example_fs\<lparr>sfs_device := formatted_disk t, sfs_heap := Map.empty\<rparr>))
     (\<lambda>_ _. False) (mk_start (\<lambda>_. 7))"
proof (rule wp_mono [OF mksfs_mounts [of _ _ "[118, 111, 108]", OF example_os_ok(1) _ _ _ _ _ simd.sd.sfs_disk_axioms [where rbad = "\<lambda>_. False"]]])
  show "volname_of [118, 111, 108, 58] = Some [118, 111, 108]" by (simp add: volname_of_def)
  show "d_blocksize (lhd_device (sim_hw (\<lambda>_. False) (\<lambda>_. False)) 2048) = 512" by (simp add: lhd_device_def LHD_SECTSIZE_def)
  fix u t
  let ?s = "example_fs\<lparr>sfs_device := formatted_disk t, sfs_heap := Map.empty\<rparr>"
  have bl: "SFS_BITBLOCKS 64 = 1" "SFS_BITMAPSIZE 64 = 4096"
    by (simp_all add: SFS_BITBLOCKS_def SFS_BITMAPSIZE_def SFS_ROUNDUP_def SFS_BLOCKBITS_def)
  have us: "mk_used (os_size example_os div 512) = {..<3} \<union> {64..<4096}" by (simp add: mk_used_def example_os_def bl)
  have "lhd_inv sim_idle 2048 (formatted_disk t)" by (simp add: lhd_inv_def sim_idle_def formatted_disk_def example_disk_def blk_def)
  then have s: "lhd_inv sim_idle 2048 (sfs_device ?s) \<and> sfs_heap ?s = Map.empty \<and>
      (\<forall>b < os_size example_os div 512. lhd_sec sd_disk (sfs_device ?s) b = blk t b)"
    by (simp add: lhd_sec_def formatted_disk_def)
  assume A: "\<forall>s. lhd_inv sim_idle 2048 (sfs_device s) \<and> sfs_heap s = Map.empty \<and>
        (\<forall>b < os_size example_os div 512. lhd_sec sd_disk (sfs_device s) b = blk t b) \<longrightarrow>
        wpK (sfs_domount (lhd_device (sim_hw (\<lambda>_. False) (\<lambda>_. False)) 2048))
          (\<lambda>_ r. vol (lhd_inv sim_idle 2048) (lhd_sec sd_disk) 2048 Map.empty [1 \<mapsto> mk_root] {} r \<and> cstr (sp_volname (sfs_super r)) = [118, 111, 108] \<and>
             sp_nblocks (sfs_super r) = os_size example_os div 512 \<and> bits (sfs_freemap r) = mk_used (os_size example_os div 512))
          (\<lambda>e r. e \<in> {ENOMEM, EIO} \<and> lhd_sec sd_disk (sfs_device r) = lhd_sec sd_disk (sfs_device s)) s"
  show "wpK (sfs_domount (lhd_device (sim_hw (\<lambda>_. False) (\<lambda>_. False)) 2048))
        (\<lambda>_ r. vol (lhd_inv sim_idle 2048) (lhd_sec sd_disk) 2048 Map.empty [1 \<mapsto> mk_root] {} r \<and>
           cstr (sp_volname (sfs_super r)) = [118, 111, 108] \<and> bits (sfs_freemap r) = {..<3} \<union> {64..<4096})
        (\<lambda>e _. e \<in> {ENOMEM, EIO}) ?s"
    by (rule wp_mono [OF A [THEN spec, THEN mp, OF s], unfolded us]) blast+
qed (use example_os_ok(2) in \<open>simp_all add: example_os_def SFS_BITBLOCKS_def SFS_BITMAPSIZE_def SFS_ROUNDUP_def SFS_BLOCKBITS_def\<close>)

text \<open>
  Property C39. \<^verbatim>\<open>mksfs\<close> ends on every command line and every disk of less than 2 GB whose size leaves room for the map, although its loop over partial and interrupted
  writes has no bound of its own: it is enough that a write is not interrupted for ever.
\<close>

theorem mksfs_returns:
  assumes "os_ok os" and "os_size os < 2147483648" and "2 + SFS_BITBLOCKS (os_size os div 512) \<le> os_size os div 512"
  shows "\<exists>r t. mksfs os argv (mk_start bytes) = Some (r, t)"
proof -
  let ?n = "os_size os div 512" and ?T = "\<lambda>_ _. True"
  have n: "?n < 4194304" using assms(2) div_le_mono [of "os_size os" 2147483647 512] by simp
  have cl: "wpK (closedisk os) ?T ?T s" if "mk_open s" for s using that by (simp add: closedisk_def wp)
  have s3: "wpK (bindK (writebitmap os ?n) (\<lambda>_. closedisk os)) ?T ?T s" if s: "mk_open s" "bitbuf s = replicate 16384 0" for s
  proof (cases "?n \<le> 131072")
    case True
    then show ?thesis unfolding wp_bind by (intro wp_mono [OF writebitmap_wp [OF assms(1) s True assms(3)]]) (auto intro: cl)
  next
    case False
    have "SFS_BITBLOCKS ?n = (?n + 4095) div 4096" using n by (simp add: SFS_BITBLOCKS_def SFS_BITMAPSIZE_def SFS_ROUNDUP_def SFS_BLOCKBITS_def u32_def)
    then have "32 < SFS_BITBLOCKS ?n" using False div_le_mono [of 135168 "?n + 4095" 4096] by simp
    then show ?thesis by (simp add: writebitmap_def wp MAXBITBLOCKS_def)
  qed
  have dw: "wpK (bindK (diskwrite os (enc_inode mk_root) 1) (\<lambda>_. bindK (writebitmap os ?n) (\<lambda>_. closedisk os))) ?T ?T s"
    if "mk_open s" "bitbuf s = replicate 16384 0" for s
    unfolding wp_bind by (rule wp_mono [OF diskwrite_wp [OF assms(1) _ that(1)] s3 [unfolded wp_bind]]) (use that mk_wf(2) in auto)
  have ws: "wpK (bindK (writesuper os v ?n) (\<lambda>_. bindK (writerootdir os) (\<lambda>_. bindK (writebitmap os ?n) (\<lambda>_. closedisk os)))) ?T ?T s"
    if s: "mk_open s" "bitbuf s = replicate 16384 0" for v s
  proof (cases "length v < 32")
    case True
    have "wpK (diskwrite os (enc_super (mk_super v ?n)) 0) (\<lambda>_. wpK (bindK (writerootdir os) (\<lambda>_. bindK (writebitmap os ?n) (\<lambda>_. closedisk os))) ?T ?T) ?T s"
      by (rule wp_mono [OF diskwrite_wp [OF assms(1) _ s(1)]])
        (use s mk_wf(1) [OF True] n dw in \<open>auto simp: writerootdir_def mk_root_def sfs_consts\<close>)
    then show ?thesis using True by (simp add: writesuper_def wp mk_super_def sfs_consts)
  qed (simp add: writesuper_def wp sfs_consts)
  let ?s = "(mk_start bytes)\<lparr>mk_open := True, mk_nblocks := ?n\<rparr>"
  have u: "u32 (os_size os div BLOCKSIZE) = ?n" using n by (simp add: u32_def BLOCKSIZE_def)
  have "wpK (bindK (writesuper os v ?n) (\<lambda>_. bindK (writerootdir os) (\<lambda>_. bindK (writebitmap os ?n) (\<lambda>_. closedisk os)))) ?T ?T ?s" for v
    by (rule ws) (simp_all add: mk_start_def MAXBITBLOCKS_def sfs_consts)
  then have "wpK (mksfs os argv) ?T ?T (mk_start bytes)"
    using u by (simp add: mksfs_def opendisk_def diskblocksize_def diskblocks_def wp sfs_consts BLOCKSIZE_def mk_start_def split: option.split)
  then show ?thesis by (auto simp: wpK_def split: option.splits)
qed

theorem mksfs_returns_witness: "\<exists>r t. mksfs example_os [[109], [100], [47]] (mk_start (\<lambda>_. 7)) = Some (r, t)"
  by (rule mksfs_returns [OF example_os_ok(1)])
    (simp_all add: example_os_def SFS_BITBLOCKS_def SFS_BITMAPSIZE_def SFS_ROUNDUP_def SFS_BLOCKBITS_def)

end
