(* ===== verification/Dumbvm.thy ===== *)
theory Dumbvm
  imports Kheap_Client
begin

text \<open>
  Virtual memory: the address spaces and the fault handler of \<^verbatim>\<open>kern/arch/mips/mips/dumbvm.c\<close>, on the kernel heap and the page
  allocator, with the translation buffer of the processor (\<^verbatim>\<open>tlb_mips1.S\<close>, \<^verbatim>\<open>kern/arch/mips/include/tlb.h\<close>).

  The state is that of the heap and the thread system, the address space structures by their address, and the 64 entries of the translation buffer,
  each a pair of the words \<^verbatim>\<open>entryhi\<close> and \<^verbatim>\<open>entrylo\<close>. \<open>as_activate\<close> and \<open>as_destroy\<close> are parameters of the thread system; their definitions here
  have the names \<open>dumb_activate\<close> and \<open>dumb_destroy\<close>.
\<close>

unbundle bit_operations_syntax

section \<open>Definitions\<close>

record addrspace =
  as_vbase1 :: nat
  as_pbase1 :: nat
  as_npages1 :: nat
  as_vbase2 :: nat
  as_pbase2 :: nat
  as_npages2 :: nat
  as_stackpbase :: nat

record vmstate =
  vm_k :: "heap kstate"
  vm_as :: "nat \<rightharpoonup> addrspace"
  vm_tlb :: "(nat \<times> nat) list"

definition on_k :: "(heap kstate, 'a) kern \<Rightarrow> (vmstate, 'a) kern" where
  "on_k m = zoomK vm_k (\<lambda>k s. s\<lparr>vm_k := k\<rparr>) m"

definition get_as :: "nat \<Rightarrow> (vmstate, addrspace) kern" where
  "get_as p s = (case vm_as s p of None \<Rightarrow> None | Some a \<Rightarrow> Some (Inr a, s))"

definition mod_as :: "nat \<Rightarrow> (addrspace \<Rightarrow> addrspace) \<Rightarrow> (vmstate, unit) kern" where
  "mod_as p f s = (case vm_as s p of None \<Rightarrow> None | Some a \<Rightarrow> Some (Inr (), s\<lparr>vm_as := (vm_as s)(p \<mapsto> f a)\<rparr>))"

definition NUM_TLB :: nat where "NUM_TLB = 64"
definition TLBLO_DIRTY :: nat where "TLBLO_DIRTY = 0x400"
definition TLBLO_VALID :: nat where "TLBLO_VALID = 0x200"
definition TLBHI_INVALID :: "nat \<Rightarrow> nat" where "TLBHI_INVALID entryno = push_bit 12 (0x80000 + entryno)"
definition TLBLO_INVALID :: nat where "TLBLO_INVALID = 0"

definition TLB_Read :: "nat \<Rightarrow> (vmstate, nat \<times> nat) kern" where
  "TLB_Read i = getK (\<lambda>s. vm_tlb s ! i)"

definition TLB_Write :: "nat \<Rightarrow> nat \<Rightarrow> nat \<Rightarrow> (vmstate, unit) kern" where
  "TLB_Write entryhi entrylo i = modK (\<lambda>s. s\<lparr>vm_tlb := (vm_tlb s)[i := (entryhi, entrylo)]\<rparr>)"

definition VM_FAULT_READ :: int where "VM_FAULT_READ = 0"
definition VM_FAULT_WRITE :: int where "VM_FAULT_WRITE = 1"
definition VM_FAULT_READONLY :: int where "VM_FAULT_READONLY = 2"
definition USERSTACK :: nat where "USERSTACK = MIPS_KSEG0"
definition DUMBVM_STACKPAGES :: nat where "DUMBVM_STACKPAGES = 12"

text \<open>\<^verbatim>\<open>curthread->t_vmspace\<close>.\<close>

definition cur_space :: "(vmstate, nat) kern" where
  "cur_space = on_k (bindK (getK curthread) (\<lambda>cur. bindK (get_thread cur) (\<lambda>th. retK (t_vmspace th))))"

text \<open>The assertions of \<^verbatim>\<open>vm_fault\<close> that the address space is complete.\<close>

definition as_set_up :: "addrspace \<Rightarrow> bool" where
  "as_set_up as \<longleftrightarrow> as_vbase1 as \<noteq> 0 \<and> as_pbase1 as \<noteq> 0 \<and> as_npages1 as \<noteq> 0 \<and> as_vbase2 as \<noteq> 0 \<and> as_pbase2 as \<noteq> 0 \<and> as_npages2 as \<noteq> 0 \<and>
     as_stackpbase as \<noteq> 0 \<and> as_vbase1 as AND PAGE_FRAME = as_vbase1 as \<and> as_pbase1 as AND PAGE_FRAME = as_pbase1 as \<and>
     as_vbase2 as AND PAGE_FRAME = as_vbase2 as \<and> as_pbase2 as AND PAGE_FRAME = as_pbase2 as \<and> as_stackpbase as AND PAGE_FRAME = as_stackpbase as"

text \<open>Where a page of the address space lies in physical memory.\<close>

definition as_paddr :: "addrspace \<Rightarrow> nat \<Rightarrow> nat option" where
  "as_paddr as faultaddress =
     (let vbase1 = as_vbase1 as; vtop1 = u32 (vbase1 + u32 (as_npages1 as * PAGE_SIZE));
          vbase2 = as_vbase2 as; vtop2 = u32 (vbase2 + u32 (as_npages2 as * PAGE_SIZE));
          stackbase = USERSTACK - DUMBVM_STACKPAGES * PAGE_SIZE; stacktop = USERSTACK in
      if faultaddress \<ge> vbase1 \<and> faultaddress < vtop1 then Some (u32 ((faultaddress - vbase1) + as_pbase1 as))
      else if faultaddress \<ge> vbase2 \<and> faultaddress < vtop2 then Some (u32 ((faultaddress - vbase2) + as_pbase2 as))
      else if faultaddress \<ge> stackbase \<and> faultaddress < stacktop then Some (u32 ((faultaddress - stackbase) + as_stackpbase as))
      else None)"

text \<open>The loop that looks for an entry not in use.\<close>

primrec tlb_load :: "nat list \<Rightarrow> nat \<Rightarrow> nat \<Rightarrow> (vmstate, bool) kern" where
  "tlb_load [] faultaddress paddr = retK False"
| "tlb_load (i # is) faultaddress paddr =
     bindK (TLB_Read i) (\<lambda>(ehi, elo).
     if elo AND TLBLO_VALID \<noteq> 0 then tlb_load is faultaddress paddr
     else bindK (TLB_Write faultaddress (paddr OR TLBLO_DIRTY OR TLBLO_VALID) i) (\<lambda>_. retK True))"

definition vm_fault :: "int \<Rightarrow> nat \<Rightarrow> (vmstate, unit) kern" where
  "vm_fault faulttype faultaddr =
     bindK (on_k splhigh) (\<lambda>spl.
     let faultaddress = faultaddr AND PAGE_FRAME in
     if faulttype = VM_FAULT_READONLY then panicK
     else if faulttype \<noteq> VM_FAULT_READ \<and> faulttype \<noteq> VM_FAULT_WRITE then bindK (on_k (splx spl)) (\<lambda>_. failK EINVAL)
     else
     bindK cur_space (\<lambda>p.
     if p = 0 then failK EFAULT else
     bindK (get_as p) (\<lambda>as.
     bindK (assertK (as_set_up as)) (\<lambda>_.
     case as_paddr as faultaddress of
       None \<Rightarrow> bindK (on_k (splx spl)) (\<lambda>_. failK EFAULT)
     | Some paddr \<Rightarrow>
         bindK (assertK (paddr AND PAGE_FRAME = paddr)) (\<lambda>_.
         bindK (tlb_load [0..<NUM_TLB] faultaddress paddr) (\<lambda>found.
         bindK (on_k (splx spl)) (\<lambda>_.
         if found then retK () else failK EFAULT)))))))"

text \<open>\<^verbatim>\<open>sizeof(struct addrspace)\<close> is 28; a null pointer is 0.\<close>

definition as_create :: "(vmstate, nat) kern" where
  "as_create =
     bindK (on_k (kmalloc_heap 28)) (\<lambda>as.
     if as = 0 then retK 0 else
     bindK (modK (\<lambda>s. s\<lparr>vm_as := (vm_as s)(as \<mapsto> \<lparr>as_vbase1 = 0, as_pbase1 = 0, as_npages1 = 0, as_vbase2 = 0, as_pbase2 = 0, as_npages2 = 0,
        as_stackpbase = 0\<rparr>)\<rparr>)) (\<lambda>_.
     retK as))"

definition dumb_destroy :: "nat \<Rightarrow> (vmstate, unit) kern" where
  "dumb_destroy as = bindK (modK (\<lambda>s. s\<lparr>vm_as := (vm_as s)(as := None)\<rparr>)) (\<lambda>_. on_k (kfree_heap as))"

definition dumb_activate :: "nat \<Rightarrow> (vmstate, unit) kern" where
  "dumb_activate as =
     bindK (on_k splhigh) (\<lambda>spl.
     bindK (foldK (\<lambda>i _. TLB_Write (TLBHI_INVALID i) TLBLO_INVALID i) [0..<NUM_TLB] ()) (\<lambda>_.
     bindK (on_k (splx spl)) (\<lambda>_. retK ())))"

definition as_define_region :: "nat \<Rightarrow> nat \<Rightarrow> nat \<Rightarrow> (vmstate, unit) kern" where
  "as_define_region as vaddr sz =
     (let sz = u32 (sz + (vaddr AND 0xfff));
          vaddr = vaddr AND PAGE_FRAME;
          sz = u32 (sz + PAGE_SIZE - 1) AND PAGE_FRAME;
          npages = sz div PAGE_SIZE in
      bindK (get_as as) (\<lambda>a.
      if as_vbase1 a = 0 then mod_as as (\<lambda>a. a\<lparr>as_vbase1 := vaddr, as_npages1 := npages\<rparr>)
      else if as_vbase2 a = 0 then mod_as as (\<lambda>a. a\<lparr>as_vbase2 := vaddr, as_npages2 := npages\<rparr>)
      else failK EUNIMP))"

definition as_prepare_load :: "nat \<Rightarrow> (vmstate, unit) kern" where
  "as_prepare_load as =
     bindK (get_as as) (\<lambda>a.
     bindK (assertK (as_pbase1 a = 0)) (\<lambda>_.
     bindK (assertK (as_pbase2 a = 0)) (\<lambda>_.
     bindK (assertK (as_stackpbase a = 0)) (\<lambda>_.
     bindK (on_k (getppages (as_npages1 a))) (\<lambda>pa.
     bindK (mod_as as (\<lambda>a. a\<lparr>as_pbase1 := pa\<rparr>)) (\<lambda>_.
     if pa = 0 then failK ENOMEM else
     bindK (on_k (getppages (as_npages2 a))) (\<lambda>pa.
     bindK (mod_as as (\<lambda>a. a\<lparr>as_pbase2 := pa\<rparr>)) (\<lambda>_.
     if pa = 0 then failK ENOMEM else
     bindK (on_k (getppages DUMBVM_STACKPAGES)) (\<lambda>pa.
     bindK (mod_as as (\<lambda>a. a\<lparr>as_stackpbase := pa\<rparr>)) (\<lambda>_.
     if pa = 0 then failK ENOMEM else retK ()))))))))))"

definition as_complete_load :: "nat \<Rightarrow> (vmstate, unit) kern" where
  "as_complete_load as = retK ()"

definition as_define_stack :: "nat \<Rightarrow> (vmstate, nat) kern" where
  "as_define_stack as =
     bindK (get_as as) (\<lambda>a.
     bindK (assertK (as_stackpbase a \<noteq> 0)) (\<lambda>_.
     retK USERSTACK))"

definition move_pages :: "nat \<Rightarrow> nat \<Rightarrow> nat \<Rightarrow> (vmstate, unit) kern" where
  "move_pages dst src len =
     on_k (on_heap (modK (\<lambda>h. h\<lparr>heap_mem := memmove (PADDR_TO_KVADDR dst) (PADDR_TO_KVADDR src) len (heap_mem h)\<rparr>)))"

definition as_copy :: "nat \<Rightarrow> (vmstate, nat) kern" where
  "as_copy old =
     bindK as_create (\<lambda>new.
     if new = 0 then failK ENOMEM else
     bindK (get_as old) (\<lambda>od.
     bindK (mod_as new (\<lambda>a. a\<lparr>as_vbase1 := as_vbase1 od, as_npages1 := as_npages1 od, as_vbase2 := as_vbase2 od, as_npages2 := as_npages2 od\<rparr>)) (\<lambda>_.
     bindK (tryK (as_prepare_load new)) (\<lambda>result.
     case result of
       Inl _ \<Rightarrow> bindK (dumb_destroy new) (\<lambda>_. failK ENOMEM)
     | Inr _ \<Rightarrow>
         bindK (get_as new) (\<lambda>n.
         bindK (assertK (as_pbase1 n \<noteq> 0)) (\<lambda>_.
         bindK (assertK (as_pbase2 n \<noteq> 0)) (\<lambda>_.
         bindK (assertK (as_stackpbase n \<noteq> 0)) (\<lambda>_.
         bindK (move_pages (as_pbase1 n) (as_pbase1 od) (u32 (as_npages1 od * PAGE_SIZE))) (\<lambda>_.
         bindK (move_pages (as_pbase2 n) (as_pbase2 od) (u32 (as_npages2 od * PAGE_SIZE))) (\<lambda>_.
         bindK (move_pages (as_stackpbase n) (as_stackpbase od) (u32 (DUMBVM_STACKPAGES * PAGE_SIZE))) (\<lambda>_.
         retK new)))))))))))"

end
