(* ===== verification/Dumbvm_Inv.thy ===== *)
theory Dumbvm_Inv
  imports Dumbvm
begin

text \<open>
  The invariant of virtual memory and that every operation keeps it: the kernel heap is in order, every block of memory in use has one owner, the ranges of an
  address space own their physical pages, and the translation buffer has translations of the current address space only.
\<close>

unbundle bit_operations_syntax

section \<open>Words\<close>

lemma frame_and: "x < 4294967296 \<Longrightarrow> x AND PAGE_FRAME = x div 4096 * 4096"
proof -
  assume x: "x < 4294967296"
  have "bit (x AND PAGE_FRAME) n \<longleftrightarrow> bit (push_bit 12 (drop_bit 12 x)) n" for n
  proof -
    have "take_bit 32 x = x" using x by (simp add: take_bit_eq_mod)
    then have "bit x n \<Longrightarrow> n < 32" by (metis bit_take_bit_iff)
    then show ?thesis unfolding PAGE_FRAME_def by (auto simp: bit_and_iff frame_bits bit_push_bit_iff bit_drop_bit_eq)
  qed
  then have "x AND PAGE_FRAME = push_bit 12 (drop_bit 12 x)" by (rule bit_eqI)
  then show ?thesis by (simp add: push_bit_eq_mult drop_bit_eq_div)
qed

lemma frame_and_iff: "x < 4294967296 \<Longrightarrow> x AND PAGE_FRAME = x \<longleftrightarrow> x mod 4096 = 0"
  by (simp add: frame_and) (metis div_mult_mod_eq add_cancel_right_right)

lemma frame_page: "x AND PAGE_FRAME = x \<Longrightarrow> x mod 4096 = 0 \<and> x < 4294967296"
proof -
  assume "x AND PAGE_FRAME = x"
  then have b: "bit x n \<Longrightarrow> 12 \<le> n \<and> n < 32" for n by (metis PAGE_FRAME_def bit_and_iff frame_bits)
  have "\<not> bit (take_bit 12 x) n" "bit (take_bit 32 x) n = bit x n" for n using b [of n] by (auto simp: bit_take_bit_iff)
  then have "take_bit 12 x = 0" "take_bit 32 x = x" by (auto intro: bit_eqI)
  then have "x mod 4096 = 0" "x mod 4294967296 = x" by (simp_all add: take_bit_eq_mod)
  then show ?thesis by (metis mod_less_divisor zero_less_numeral)
qed

lemma entrylo:
  assumes "pa mod 4096 = 0" "pa < 4294967296"
  shows "(pa OR TLBLO_DIRTY OR TLBLO_VALID) AND PAGE_FRAME = pa" "(pa OR TLBLO_DIRTY OR TLBLO_VALID) AND TLBLO_VALID \<noteq> 0"
proof -
  have d: "bit (0x400 :: nat) n \<longleftrightarrow> n = 10" "bit (0x200 :: nat) n \<longleftrightarrow> n = 9" for n
    using bit_exp_iff [of 10 n, where 'a = nat] bit_exp_iff [of 9 n, where 'a = nat] by (simp_all add: eq_commute)
  show "(pa OR TLBLO_DIRTY OR TLBLO_VALID) AND PAGE_FRAME = pa" unfolding TLBLO_DIRTY_def TLBLO_VALID_def PAGE_FRAME_def
    by (rule bit_eqI) (use page_bits [OF assms] in \<open>auto simp only: bit_and_iff bit_or_iff frame_bits d\<close>)
  have "bit ((pa OR TLBLO_DIRTY OR TLBLO_VALID) AND TLBLO_VALID) 9" unfolding TLBLO_VALID_def by (simp only: bit_and_iff bit_or_iff d) simp
  moreover have "\<not> bit (0 :: nat) 9" by simp
  ultimately show "(pa OR TLBLO_DIRTY OR TLBLO_VALID) AND TLBLO_VALID \<noteq> 0" by metis
qed

section \<open>Memory in use\<close>

text \<open>Writes to blocks in use leave the heap in order, and giving blocks up does.\<close>

lemma mem_inv:
  assumes inv: "heap_inv h L" and m: "\<And>x. m x \<noteq> heap_mem h x \<Longrightarrow> \<exists>p n. L p = Some n \<and> p \<le> x \<and> x < p + n"
  shows "heap_inv (h\<lparr>heap_mem := m\<rparr>) L"
proof -
  let ?h = "h\<lparr>heap_mem := m\<rparr>"
  obtain al sm fs where r: "heap_rep {} h al sm fs" and rm: "room h (set al) fs" and l: "\<And>p n. L p = Some n \<Longrightarrow> live_at h al fs p n" and d: "apart L"
    using inv unfolding heap_inv_def by blast
  have "page_ok (2147483648 + firstpaddr h) m (pagerefs h ! i) (fs i)" if i: "i \<in> set al" for i
  proof -
    have "ld_word m a = ld_word (heap_mem h) a" if a: "a \<in> set (fs i)" for a
    proof -
      have "m x = heap_mem h x" if x: "a \<le> x" "x < a + 4" for x
      proof (rule ccontr)
        assume "m x \<noteq> heap_mem h x"
        then obtain p n where p: "L p = Some n" "p \<le> x" "x < p + n" using m by blast
        have "p + n \<le> a \<or> a + blks h i \<le> p" using live_apart [OF r l [OF p(1)] i page_facts(7) [OF r i a]] free_not_live [OF r l [OF p(1)] i a] by blast
        then show False using p x page_facts(6) [OF r i] by linarith
      qed
      then have "get_at a 4 m = get_at a 4 (heap_mem h)" by (intro nth_equalityI) auto
      then show ?thesis by (simp add: ld_word_def)
    qed
    then show ?thesis using rep_page_ok [OF r i] by (auto simp: page_ok_def intro: fchain_cong)
  qed
  moreover have "all_get ?h = all_get h" "same_get b ?h = same_get b h" for b
    by (auto simp: fun_eq_iff all_get_def same_get_def split: option.splits)
  ultimately have "heap_rep {} ?h al sm fs" using r by (simp add: heap_rep_def)
  moreover have "live_at ?h al fs q n = live_at h al fs q n" "room ?h A fs = room h A fs" for q n A
    by (simp_all add: live_at_def room_def pagea_def blks_def)
  ultimately show ?thesis using rm l d by (intro heap_invI) auto
qed

lemma heap_inv_bounds:
  assumes "heap_inv h L" and "L p = Some n"
  shows "2147483648 \<le> p" "p + n \<le> 2147483648 + 532676608"
proof -
  obtain al sm fs where r: "heap_rep {} h al sm fs" and l: "live_at h al fs p n" using assms unfolding heap_inv_def by blast
  show "2147483648 \<le> p" "p + n \<le> 2147483648 + 532676608" using live_bounds [OF r l] r by (auto simp: heap_rep_def)
qed

lemma getppages_run:
  assumes inv: "heap_inv (world k) L" and n: "n \<le> 524288"
  shows "\<exists>pa h. getppages n k = Some (Inr pa, k\<lparr>world := h\<rparr>) \<and> heap_mem h = heap_mem (world k) \<and> lastpaddr h = lastpaddr (world k) \<and> pa mod 4096 = 0 \<and> pa \<le> 532676608 \<and>
    (if pa = 0 \<or> n = 0 then heap_inv h L else 2147483648 + pa \<notin> dom L \<and> heap_inv h (L(2147483648 + pa \<mapsto> n * 4096)))"
proof -
  obtain al sm fs where r: "heap_rep {} (world k) al sm fs" and rm: "room (world k) (set al) fs"
    and l: "\<And>p n. L p = Some n \<Longrightarrow> live_at (world k) al fs p n" and d: "apart L"
    using inv unfolding heap_inv_def by blast
  note ram = ram_run [OF r n]
  have fp: "firstpaddr (world k) mod 4096 = 0" "firstpaddr (world k) \<le> lastpaddr (world k)" "lastpaddr (world k) \<le> 532676608" using r by (auto simp: heap_rep_def)
  have e: "getppages n k = (if firstpaddr (world k) + n * 4096 > lastpaddr (world k) then Some (Inr 0, k)
      else Some (Inr (firstpaddr (world k)), k\<lparr>world := (world k)\<lparr>firstpaddr := firstpaddr (world k) + n * 4096\<rparr>\<rparr>))"
    using ram by (simp add: getppages_def on_heap_def splhigh_def splx_def kern_defs)
  show ?thesis
  proof (cases "firstpaddr (world k) + n * 4096 > lastpaddr (world k)")
    case True
    then show ?thesis using e inv by (intro exI [of _ 0] exI [of _ "world k"]) simp
  next
    case False
    then have lt: "firstpaddr (world k) + n * 4096 \<le> lastpaddr (world k)" by simp
    show ?thesis
      using e False fp inv ram(2) alloc_big [OF r rm l d lt, of "n * 4096"]
      by (intro exI [of _ "firstpaddr (world k)"] exI [of _ "(world k)\<lparr>firstpaddr := firstpaddr (world k) + n * 4096\<rparr>"]) auto
  qed
qed

section \<open>The invariant\<close>

text \<open>
  The three ranges of an address space: where it is in virtual memory, its physical memory, and how many pages it has. Every block of kernel memory
  in use has one owner: a user of the heap, an address space structure, or a range of an address space.
\<close>

definition as_range :: "addrspace \<Rightarrow> nat \<Rightarrow> nat \<times> nat \<times> nat" where
  "as_range a k = (if k = 0 then (as_vbase1 a, as_pbase1 a, as_npages1 a) else if k = 1 then (as_vbase2 a, as_pbase2 a, as_npages2 a)
     else (2147434496, as_stackpbase a, 12))"

abbreviation vbase :: "addrspace \<Rightarrow> nat \<Rightarrow> nat" where "vbase a k \<equiv> fst (as_range a k)"
abbreviation pbase :: "addrspace \<Rightarrow> nat \<Rightarrow> nat" where "pbase a k \<equiv> fst (snd (as_range a k))"
abbreviation npages :: "addrspace \<Rightarrow> nat \<Rightarrow> nat" where "npages a k \<equiv> snd (snd (as_range a k))"

datatype owner = Kern | Struct | Range nat nat

definition as_ok :: "(nat \<rightharpoonup> nat) \<Rightarrow> (nat \<Rightarrow> owner) \<Rightarrow> nat \<Rightarrow> addrspace \<Rightarrow> bool" where
  "as_ok L ow p a \<longleftrightarrow> (\<forall>k < 3. npages a k \<le> 524288 \<and> pbase a k mod 4096 = 0 \<and> pbase a k \<le> 532676608 \<and>
     (pbase a k \<noteq> 0 \<and> npages a k \<noteq> 0 \<longrightarrow> L (2147483648 + pbase a k) = Some (npages a k * 4096) \<and> ow (2147483648 + pbase a k) = Range p k))"

definition cur_as :: "vmstate \<Rightarrow> nat" where
  "cur_as s = (case threads (vm_k s) (curthread (vm_k s)) of None \<Rightarrow> 0 | Some th \<Rightarrow> t_vmspace th)"

text \<open>The translation buffer has translations of the current address space only.\<close>

definition tlb_ok :: "vmstate \<Rightarrow> bool" where
  "tlb_ok s \<longleftrightarrow> length (vm_tlb s) = 64 \<and> (cur_as s \<noteq> 0 \<longrightarrow> (\<forall>hi lo. (hi, lo) \<in> set (vm_tlb s) \<longrightarrow> lo AND TLBLO_VALID \<noteq> 0 \<longrightarrow>
     (\<exists>a. vm_as s (cur_as s) = Some a \<and> as_set_up a \<and> hi mod 4096 = 0 \<and> as_paddr a hi = Some (lo AND PAGE_FRAME))))"

definition spaces_ok :: "(nat \<rightharpoonup> thread) \<Rightarrow> (nat \<rightharpoonup> addrspace) \<Rightarrow> bool" where
  "spaces_ok ths as \<longleftrightarrow> (\<forall>t th. ths t = Some th \<and> t_vmspace th \<noteq> 0 \<longrightarrow> t_vmspace th \<in> dom as \<and>
     (\<forall>u th'. ths u = Some th' \<and> t_vmspace th' = t_vmspace th \<longrightarrow> u = t))"

definition vm_rep :: "vmstate \<Rightarrow> (nat \<rightharpoonup> nat) \<Rightarrow> (nat \<rightharpoonup> nat) \<Rightarrow> (nat \<Rightarrow> owner) \<Rightarrow> bool" where
  "vm_rep s K L ow \<longleftrightarrow> heap_inv (world (vm_k s)) L \<and> (\<forall>p n. K p = Some n \<longrightarrow> L p = Some n \<and> ow p = Kern) \<and>
     (\<forall>p a. vm_as s p = Some a \<longrightarrow> L p = Some 28 \<and> ow p = Struct \<and> as_ok L ow p a) \<and> tlb_ok s \<and> spaces_ok (threads (vm_k s)) (vm_as s) \<and>
     curthread (vm_k s) \<in> dom (threads (vm_k s))"

definition vm_inv :: "vmstate \<Rightarrow> (nat \<rightharpoonup> nat) \<Rightarrow> bool" where
  "vm_inv s K \<longleftrightarrow> (\<exists>L ow. vm_rep s K L ow)"

lemma vm_repD:
  assumes "vm_rep s K L ow"
  shows "heap_inv (world (vm_k s)) L" "K p = Some n \<Longrightarrow> L p = Some n \<and> ow p = Kern"
    "vm_as s p = Some a \<Longrightarrow> L p = Some 28 \<and> ow p = Struct \<and> as_ok L ow p a" "tlb_ok s" "spaces_ok (threads (vm_k s)) (vm_as s)"
    "curthread (vm_k s) \<in> dom (threads (vm_k s))"
  using assms unfolding vm_rep_def by blast+

lemma vm_repI:
  assumes "heap_inv (world (vm_k s)) L" "\<And>p n. K p = Some n \<Longrightarrow> L p = Some n \<and> ow p = Kern"
    "\<And>p a. vm_as s p = Some a \<Longrightarrow> L p = Some 28 \<and> ow p = Struct \<and> as_ok L ow p a" "tlb_ok s" "spaces_ok (threads (vm_k s)) (vm_as s)"
    "curthread (vm_k s) \<in> dom (threads (vm_k s))"
  shows "vm_rep s K L ow"
  using assms unfolding vm_rep_def by blast

lemma all3: "(\<forall>k < 3. P k) \<longleftrightarrow> P 0 \<and> P 1 \<and> P (2 :: nat)"
  by (simp add: numeral_3_eq_3 numeral_2_eq_2 less_Suc_eq all_conj_distrib)

lemma as_ok_ranges:
  "as_ok L ow p a \<longleftrightarrow> (\<forall>(k, pb, n) \<in> {(0, as_pbase1 a, as_npages1 a), (1, as_pbase2 a, as_npages2 a), (2, as_stackpbase a, 12)}.
     n \<le> 524288 \<and> pb mod 4096 = 0 \<and> pb \<le> 532676608 \<and> (pb \<noteq> 0 \<and> n \<noteq> 0 \<longrightarrow> L (2147483648 + pb) = Some (n * 4096) \<and> ow (2147483648 + pb) = Range p k))"
  unfolding as_ok_def all3 by (simp add: as_range_def)

text \<open>A new block disturbs nobody.\<close>

lemma as_ok_grow:
  assumes "as_ok L ow p a" and "\<And>x n. L x = Some n \<Longrightarrow> L' x = Some n \<and> ow' x = ow x"
  shows "as_ok L' ow' p a"
  unfolding as_ok_def
proof (intro allI impI)
  fix k :: nat assume "k < 3"
  then have k: "npages a k \<le> 524288 \<and> pbase a k mod 4096 = 0 \<and> pbase a k \<le> 532676608 \<and>
     (pbase a k \<noteq> 0 \<and> npages a k \<noteq> 0 \<longrightarrow> L (2147483648 + pbase a k) = Some (npages a k * 4096) \<and> ow (2147483648 + pbase a k) = Range p k)"
    using assms(1) unfolding as_ok_def by blast
  then show "npages a k \<le> 524288 \<and> pbase a k mod 4096 = 0 \<and> pbase a k \<le> 532676608 \<and>
     (pbase a k \<noteq> 0 \<and> npages a k \<noteq> 0 \<longrightarrow> L' (2147483648 + pbase a k) = Some (npages a k * 4096) \<and> ow' (2147483648 + pbase a k) = Range p k)"
    using assms(2) [of "2147483648 + pbase a k" "npages a k * 4096"] by auto
qed

lemma as_ok_new: "as_ok L ow p a \<Longrightarrow> x \<notin> dom L \<Longrightarrow> as_ok (L(x \<mapsto> n)) (ow(x := w)) p a"
  by (erule as_ok_grow) auto

lemma as_ok_cong:
  "as_ok L ow p a \<Longrightarrow> (\<And>k. k < 3 \<Longrightarrow> pbase a k \<noteq> 0 \<Longrightarrow> npages a k \<noteq> 0 \<Longrightarrow> L' (2147483648 + pbase a k) = L (2147483648 + pbase a k)) \<Longrightarrow> as_ok L' ow p a"
  unfolding as_ok_def by metis

text \<open>Only the fields the invariant is about matter.\<close>

lemma cur_as_k [simp]: "cur_as (s\<lparr>vm_as := A\<rparr>) = cur_as s" "cur_as (s\<lparr>vm_tlb := T\<rparr>) = cur_as s" "cur_as (s\<lparr>vm_k := (vm_k s)\<lparr>world := h\<rparr>\<rparr>) = cur_as s"
  by (simp_all add: cur_as_def)

lemma tlb_ok_k [simp]: "tlb_ok (s\<lparr>vm_k := (vm_k s)\<lparr>world := h\<rparr>\<rparr>) = tlb_ok s"
  by (simp add: tlb_ok_def)

text \<open>An address space that is not complete, or not there yet, has no translations.\<close>

lemma tlb_ok_as:
  assumes "tlb_ok s" and "\<And>a. vm_as s p = Some a \<Longrightarrow> \<not> as_set_up a \<or> p \<noteq> cur_as s"
  shows "tlb_ok (s\<lparr>vm_as := (vm_as s)(p := x)\<rparr>)"
proof -
  have "\<exists>a. ((vm_as s)(p := x)) (cur_as s) = Some a \<and> as_set_up a \<and> hi mod 4096 = 0 \<and> as_paddr a hi = Some (lo AND PAGE_FRAME)"
    if v: "cur_as s \<noteq> 0" "(hi, lo) \<in> set (vm_tlb s)" "lo AND TLBLO_VALID \<noteq> 0" for hi lo
  proof -
    obtain a where "vm_as s (cur_as s) = Some a" "as_set_up a" "hi mod 4096 = 0" "as_paddr a hi = Some (lo AND PAGE_FRAME)"
      using assms(1) v unfolding tlb_ok_def by metis
    then show ?thesis using assms(2) by (intro exI [of _ a]) auto
  qed
  then show ?thesis using assms(1) by (auto simp: tlb_ok_def)
qed

text \<open>The memory of the users of the heap and of the address spaces is as before, and the threads are.\<close>

abbreviation mem :: "vmstate \<Rightarrow> memory" where "mem s \<equiv> heap_mem (world (vm_k s))"
abbreviation set_mem :: "memory \<Rightarrow> vmstate \<Rightarrow> vmstate" where
  "set_mem m s \<equiv> s\<lparr>vm_k := (vm_k s)\<lparr>world := (world (vm_k s))\<lparr>heap_mem := m\<rparr>\<rparr>\<rparr>"

definition same_mem :: "vmstate \<Rightarrow> (nat \<rightharpoonup> nat) \<Rightarrow> vmstate \<Rightarrow> bool" where
  "same_mem s K s' \<longleftrightarrow> (\<forall>p n x. K p = Some n \<longrightarrow> p \<le> x \<longrightarrow> x < p + n \<longrightarrow> mem s' x = mem s x) \<and>
     (\<forall>p a k i. vm_as s p = Some a \<longrightarrow> k < 3 \<longrightarrow> pbase a k \<noteq> 0 \<longrightarrow> i < npages a k * 4096 \<longrightarrow> mem s' (2147483648 + pbase a k + i) = mem s (2147483648 + pbase a k + i))"

definition same_threads :: "vmstate \<Rightarrow> vmstate \<Rightarrow> bool" where
  "same_threads s s' \<longleftrightarrow> threads (vm_k s') = threads (vm_k s) \<and> curthread (vm_k s') = curthread (vm_k s)"

lemma same_memI:
  assumes rep: "vm_rep s K L ow" and m: "\<And>q n x. L q = Some n \<Longrightarrow> q \<le> x \<Longrightarrow> x < q + n \<Longrightarrow> mem s' x = mem s x"
  shows "same_mem s K s'"
  unfolding same_mem_def
proof (intro conjI allI impI)
  fix p a k i
  assume p: "vm_as s p = Some a" "k < 3" "pbase a k \<noteq> 0" "i < npages a k * 4096"
  then have "L (2147483648 + pbase a k) = Some (npages a k * 4096)" using vm_repD(3) [OF rep p(1)] unfolding as_ok_def by (metis mult_0 not_less_zero)
  then show "mem s' (2147483648 + pbase a k + i) = mem s (2147483648 + pbase a k + i)" by (rule m) (use p in auto)
qed (use vm_repD(2) [OF rep] m in blast)

section \<open>Every operation keeps the invariant\<close>

lemma wp_on_k [wp]: "wpK (on_k m) Q E s \<longleftrightarrow> wpK m (\<lambda>r k. Q r (s\<lparr>vm_k := k\<rparr>)) (\<lambda>e k. E e (s\<lparr>vm_k := k\<rparr>)) (vm_k s)"
  by (simp add: on_k_def wp)

lemma wp_get_as [wp]: "wpK (get_as p) Q E s \<longleftrightarrow> (\<exists>a. vm_as s p = Some a \<and> Q a s)"
  by (auto simp: wpK_def get_as_def split: option.splits)

lemma wp_mod_as [wp]: "wpK (mod_as p f) Q E s \<longleftrightarrow> (\<exists>a. vm_as s p = Some a \<and> Q () (s\<lparr>vm_as := (vm_as s)(p \<mapsto> f a)\<rparr>))"
  by (auto simp: wpK_def mod_as_def split: option.splits)

subsection \<open>Creating and destroying\<close>

definition no_as :: addrspace where
  "no_as = \<lparr>as_vbase1 = 0, as_pbase1 = 0, as_npages1 = 0, as_vbase2 = 0, as_pbase2 = 0, as_npages2 = 0, as_stackpbase = 0\<rparr>"

lemma spaces_ok_more: "spaces_ok ths as \<Longrightarrow> dom as \<subseteq> dom as' \<Longrightarrow> spaces_ok ths as'"
  unfolding spaces_ok_def by blast

lemma as_create_wp:
  assumes "vm_rep s K L ow"
  shows "wpK as_create (\<lambda>p s'. vm_inv s' K \<and> same_mem s K s' \<and> same_threads s s' \<and>
       (if p = 0 then vm_as s' = vm_as s else p \<notin> dom (vm_as s) \<and> vm_as s' = (vm_as s)(p \<mapsto> no_as))) (\<lambda>_ _. False) s"
proof -
  note r = vm_repD [OF assms]
  obtain p h where e: "kmalloc_heap 28 (vm_k s) = Some (Inr p, (vm_k s)\<lparr>world := h\<rparr>)" and al: "allocated L 28 (world (vm_k s)) p h"
    using kmalloc_run [OF r(1), of 28] by auto
  let ?s = "s\<lparr>vm_k := (vm_k s)\<lparr>world := h\<rparr>\<rparr>"
  have sm: "same_mem s K ?s" by (rule same_memI [OF assms]) (use al in \<open>auto simp: allocated_def kept_def\<close>)
  show ?thesis
  proof (cases "p = 0")
    case True
    then have "vm_rep ?s K L ow" using al r by (intro vm_repI) (auto simp: allocated_def)
    then show ?thesis using e True sm unfolding as_create_def wp by (auto simp: wpK_def vm_inv_def same_threads_def)
  next
    case False
    then have a: "p \<notin> dom L" "heap_inv h (L(p \<mapsto> 28))" using al by (simp_all add: allocated_def)
    have np: "p \<notin> dom (vm_as s)" using r(3) a(1) by blast
    let ?t = "?s\<lparr>vm_as := (vm_as s)(p \<mapsto> no_as)\<rparr>"
    have "as_ok L' w p no_as" for L' w by (simp add: as_ok_def as_range_def no_as_def)
    then have "vm_as ?t q = Some b \<Longrightarrow> (L(p \<mapsto> 28)) q = Some 28 \<and> (ow(p := Struct)) q = Struct \<and> as_ok (L(p \<mapsto> 28)) (ow(p := Struct)) q b" for q b
      using r(3) [of q b] as_ok_new [OF _ a(1)] by (auto split: if_splits)
    moreover have "K q = Some n \<Longrightarrow> (L(p \<mapsto> 28)) q = Some n \<and> (ow(p := Struct)) q = Kern" for q n using r(2) [of q n] a(1) by auto
    moreover have "tlb_ok (?s\<lparr>vm_as := (vm_as ?s)(p \<mapsto> no_as)\<rparr>)" by (rule tlb_ok_as) (use r(4) np in auto)
    then have "tlb_ok ?t" by simp
    moreover have "spaces_ok (threads (vm_k ?t)) (vm_as ?t)" using spaces_ok_more [OF r(5), of "(vm_as s)(p \<mapsto> no_as)"] by auto
    ultimately have "vm_rep ?t K (L(p \<mapsto> 28)) (ow(p := Struct))" using a(2) r(6) by (intro vm_repI) auto
    moreover have "same_mem s K ?t" using sm by (simp add: same_mem_def)
    ultimately show ?thesis using e False np unfolding as_create_def wp no_as_def [symmetric] by (auto simp: wpK_def vm_inv_def same_threads_def)
  qed
qed

lemma dumb_destroy_wp:
  assumes rep: "vm_rep s K L ow" and p: "p \<in> dom (vm_as s)" "p \<noteq> cur_as s" "\<And>t th. threads (vm_k s) t = Some th \<Longrightarrow> t_vmspace th \<noteq> p"
  shows "wpK (dumb_destroy p) (\<lambda>_ s'. vm_inv s' K \<and> vm_as s' = (vm_as s)(p := None) \<and> same_threads s s' \<and>
     same_mem (s\<lparr>vm_as := (vm_as s)(p := None)\<rparr>) K s') (\<lambda>_ _. False) s"
proof -
  note r = vm_repD [OF rep]
  obtain a where a: "vm_as s p = Some a" using p(1) by blast
  have lp: "L p = Some 28" "ow p = Struct" using r(3) [OF a] by blast+
  obtain h where e: "kfree_heap p (vm_k s) = Some (Inr (), (vm_k s)\<lparr>world := h\<rparr>)" and rl: "released L p (world (vm_k s)) h"
    using kfree_run [OF r(1) lp(1)] by blast
  let ?s = "s\<lparr>vm_as := (vm_as s)(p := None)\<rparr>"
  let ?t = "?s\<lparr>vm_k := (vm_k s)\<lparr>world := h\<rparr>\<rparr>"
  have "K q = Some n \<Longrightarrow> (L(p := None)) q = Some n \<and> ow q = Kern" for q n using r(2) [of q n] lp(2) by auto
  moreover have "(L(p := None)) q = Some 28 \<and> ow q = Struct \<and> as_ok (L(p := None)) ow q b" if "vm_as ?t q = Some b" for q b
  proof -
    have q: "q \<noteq> p" "vm_as s q = Some b" using that by (auto split: if_splits)
    have ok: "as_ok L ow q b" using r(3) [OF q(2)] by blast
    then have "2147483648 + pbase b k \<noteq> p" if "k < 3" "pbase b k \<noteq> 0" "npages b k \<noteq> 0" for k using that lp(2) unfolding as_ok_def by (metis owner.distinct(5))
    then have "as_ok (L(p := None)) ow q b" by (intro as_ok_cong [OF ok]) auto
    then show ?thesis using r(3) [OF q(2)] q(1) by simp
  qed
  moreover have "tlb_ok ?s" by (rule tlb_ok_as) (use r(4) p(2) in auto)
  then have "tlb_ok ?t" using tlb_ok_k [where s = ?s and h = h] by simp
  moreover have "spaces_ok (threads (vm_k ?t)) (vm_as ?t)" using r(5) p(3) unfolding spaces_ok_def by (auto; metis)
  ultimately have t: "vm_rep ?t K (L(p := None)) ow" using rl r(6) by (intro vm_repI) (auto simp: released_def)
  have "mem ?t x = mem s x" if "(L(p := None)) q = Some n" "q \<le> x" "x < q + n" for q n x using rl that by (simp add: released_def kept_def)
  then have "same_mem ?t K s" using same_memI [OF t, of s] by auto
  then have "same_mem ?s K ?t" by (simp add: same_mem_def)
  then show ?thesis using e t unfolding dumb_destroy_def wp by (auto simp: wpK_def vm_inv_def same_threads_def)
qed

subsection \<open>The translation buffer\<close>

lemma tlb_writes:
  "foldK (\<lambda>i _. TLB_Write (hi i) lo i) [0..<n] () s = Some (Inr (), s\<lparr>vm_tlb := fold (\<lambda>i T. T[i := (hi i, lo)]) [0..<n] (vm_tlb s)\<rparr>)"
proof -
  have "foldK (\<lambda>i _. TLB_Write (hi i) lo i) is () s = Some (Inr (), s\<lparr>vm_tlb := fold (\<lambda>i T. T[i := (hi i, lo)]) is (vm_tlb s)\<rparr>)" for "is" s
    by (induction "is" arbitrary: s) (simp_all add: TLB_Write_def kern_defs)
  then show ?thesis .
qed

lemma fold_upd:
  "n \<le> length T \<Longrightarrow> length (fold (\<lambda>i T. T[i := f i]) [0..<n] T) = length T \<and> (\<forall>i < length T. fold (\<lambda>i T. T[i := f i]) [0..<n] T ! i = (if i < n then f i else T ! i))"
  by (induction n) (auto simp: nth_list_update less_Suc_eq)

text \<open>After \<^verbatim>\<open>as_activate\<close> no entry is valid.\<close>

lemma dumb_activate_run:
  assumes "length (vm_tlb s) = 64"
  shows "\<exists>T. dumb_activate p s = Some (Inr (), s\<lparr>vm_tlb := T\<rparr>) \<and> length T = 64 \<and> (\<forall>(hi, lo) \<in> set T. lo AND TLBLO_VALID = 0)"
proof -
  let ?T = "fold (\<lambda>i T. T[i := (TLBHI_INVALID i, TLBLO_INVALID)]) [0..<64] (vm_tlb s)"
  have T: "length ?T = 64" "\<And>i. i < 64 \<Longrightarrow> ?T ! i = (TLBHI_INVALID i, TLBLO_INVALID)"
    using fold_upd [of 64 "vm_tlb s" "\<lambda>i. (TLBHI_INVALID i, TLBLO_INVALID)"] assms by auto
  then have "\<forall>(hi, lo) \<in> set ?T. lo AND TLBLO_VALID = 0" by (auto simp: in_set_conv_nth TLBLO_INVALID_def)
  moreover have "dumb_activate p s = Some (Inr (), s\<lparr>vm_tlb := ?T\<rparr>)"
    by (simp add: dumb_activate_def NUM_TLB_def on_k_def splhigh_def splx_def kern_defs tlb_writes)
  ultimately show ?thesis using T(1) by (intro exI [of _ ?T]) simp
qed

text \<open>Once the translation buffer is empty, nothing can be wrong with it.\<close>

lemma tlb_ok_flushed: "length (vm_tlb s) = 64 \<Longrightarrow> (\<forall>(hi, lo) \<in> set (vm_tlb s). lo AND TLBLO_VALID = 0) \<Longrightarrow> tlb_ok s"
  by (auto simp: tlb_ok_def)

definition free_slot :: "(nat \<times> nat) list \<Rightarrow> nat list \<Rightarrow> nat option" where
  "free_slot T is = find (\<lambda>i. snd (T ! i) AND TLBLO_VALID = 0) is"

lemma tlb_load_run:
  "tlb_load is fa pa s = (case free_slot (vm_tlb s) is of
       None \<Rightarrow> Some (Inr False, s)
     | Some i \<Rightarrow> Some (Inr True, s\<lparr>vm_tlb := (vm_tlb s)[i := (fa, pa OR TLBLO_DIRTY OR TLBLO_VALID)]\<rparr>))"
  by (induction "is") (auto simp: free_slot_def TLB_Read_def TLB_Write_def kern_defs split: prod.splits option.splits)

text \<open>\<^verbatim>\<open>vm_fault\<close>, on every path.\<close>

lemma splx_k: "splhigh k = Some (Inr (curspl k), k\<lparr>curspl := SPL_HIGH\<rparr>)" "splx x k = Some (Inr (curspl k), k\<lparr>curspl := x\<rparr>)"
  by (simp_all add: splhigh_def splx_def kern_defs)

definition spl_up :: "vmstate \<Rightarrow> vmstate" where
  "spl_up s = s\<lparr>vm_k := (vm_k s)\<lparr>curspl := SPL_HIGH\<rparr>\<rparr>"

lemma vm_fault_eq:
  assumes th: "threads (vm_k s) (curthread (vm_k s)) = Some th" and as: "t_vmspace th \<noteq> 0 \<longrightarrow> vm_as s (t_vmspace th) = Some a"
  shows "vm_fault ft va s =
     (if ft = 2 then None else if ft \<noteq> 0 \<and> ft \<noteq> 1 then Some (Inl EINVAL, s)
      else if t_vmspace th = 0 then Some (Inl EFAULT, spl_up s)
      else if \<not> as_set_up a then None
      else case as_paddr a (va AND PAGE_FRAME) of
          None \<Rightarrow> Some (Inl EFAULT, s)
        | Some pa \<Rightarrow> if pa AND PAGE_FRAME \<noteq> pa then None
            else case free_slot (vm_tlb s) [0..<64] of
                None \<Rightarrow> Some (Inl EFAULT, s)
              | Some i \<Rightarrow> Some (Inr (), s\<lparr>vm_tlb := (vm_tlb s)[i := (va AND PAGE_FRAME, pa OR TLBLO_DIRTY OR TLBLO_VALID)]\<rparr>))"
proof -
  let ?s = "spl_up s"
  have hi: "on_k splhigh s = Some (Inr (curspl (vm_k s)), ?s)" by (simp add: on_k_def zoomK_def splx_k spl_up_def)
  have sx: "on_k (splx (curspl (vm_k s))) (?s\<lparr>vm_tlb := T\<rparr>) = Some (Inr SPL_HIGH, s\<lparr>vm_tlb := T\<rparr>)" for T
    by (simp add: on_k_def zoomK_def splx_k spl_up_def)
  have sx': "on_k (splx (curspl (vm_k s))) ?s = Some (Inr SPL_HIGH, s)" by (simp add: on_k_def zoomK_def splx_k spl_up_def)
  have cs: "cur_space ?s = Some (Inr (t_vmspace th), ?s)" using th by (simp add: cur_space_def on_k_def get_thread_def kern_defs spl_up_def)
  have ga: "t_vmspace th \<noteq> 0 \<Longrightarrow> get_as (t_vmspace th) ?s = Some (Inr a, ?s)" using as by (simp add: get_as_def spl_up_def)
  have tl: "vm_tlb ?s = vm_tlb s" by (simp add: spl_up_def)
  show ?thesis
    using ga by (simp add: vm_fault_def bindK_def hi sx sx' cs tlb_load_run tl NUM_TLB_def Let_def assertK_def retK_def failK_def panicK_def
        VM_FAULT_READ_def VM_FAULT_WRITE_def VM_FAULT_READONLY_def split: option.split)
qed

lemma free_slotD: "free_slot T [0..<n] = Some i \<Longrightarrow> i < n \<and> snd (T ! i) AND TLBLO_VALID = 0"
  unfolding free_slot_def find_Some_iff by auto

lemma free_slot_None: "free_slot T [0..<n] = None \<longleftrightarrow> (\<forall>i < n. snd (T ! i) AND TLBLO_VALID \<noteq> 0)"
  unfolding free_slot_def find_None_iff by auto

text \<open>The page a translation leads to is in a range of the address space.\<close>

lemma as_paddr_range:
  assumes ok: "as_ok L ow p a" and su: "as_set_up a" and fa: "fa mod 4096 = 0" and tr: "as_paddr a fa = Some pa"
  shows "\<exists>k < 3. pbase a k \<noteq> 0 \<and> npages a k \<noteq> 0 \<and> vbase a k \<le> fa \<and> pa = fa - vbase a k + pbase a k \<and> fa + 4096 \<le> vbase a k + npages a k * 4096 \<and>
    pa mod 4096 = 0 \<and> pa < 4294967296"
proof -
  have vb: "vbase a k mod 4096 = 0" "pbase a k \<noteq> 0" "npages a k \<noteq> 0" if "k < 3" for k
    using su that frame_page [of "as_vbase1 a"] frame_page [of "as_vbase2 a"] by (auto simp: as_range_def as_set_up_def)
  have okk: "npages a k \<le> 524288" "pbase a k mod 4096 = 0" "pbase a k \<le> 532676608" if "k < 3" for k using ok that unfolding as_ok_def by blast+
  have main: ?thesis if k: "k < 3" and lo: "vbase a k \<le> fa" and hi: "fa < u32 (vbase a k + u32 (npages a k * 4096))" and pa: "pa = u32 (fa - vbase a k + pbase a k)" for k
  proof -
    have "u32 (npages a k * 4096) = npages a k * 4096" using okk(1) [OF k] by (simp add: u32_def)
    then have h: "fa < vbase a k + npages a k * 4096" using hi by (simp add: u32_def)
    have al: "(vbase a k + npages a k * 4096) mod 4096 = 0" using vb(1) [OF k] by simp
    have up: "fa + 4096 \<le> vbase a k + npages a k * 4096" using multiples_apart [OF fa al] h by auto
    have "fa - vbase a k + pbase a k < 4294967296" using up okk [OF k] by linarith
    then have e: "pa = fa - vbase a k + pbase a k" using pa by (simp add: u32_def)
    have "(fa - vbase a k) mod 4096 = 0" using fa vb(1) [OF k] by (metis dvd_diff_nat mod_0_imp_dvd dvd_imp_mod_0)
    then have "pa mod 4096 = 0" using okk(2) [OF k] unfolding e by (simp add: mod_add_eq [symmetric])
    then show ?thesis using k lo up e vb(2,3) [OF k] \<open>fa - vbase a k + pbase a k < 4294967296\<close> by (intro exI [of _ k]) simp
  qed
  consider "fa \<ge> as_vbase1 a" "fa < u32 (as_vbase1 a + u32 (as_npages1 a * 4096))" "pa = u32 (fa - as_vbase1 a + as_pbase1 a)"
    | "fa \<ge> as_vbase2 a" "fa < u32 (as_vbase2 a + u32 (as_npages2 a * 4096))" "pa = u32 (fa - as_vbase2 a + as_pbase2 a)"
    | "fa \<ge> 2147434496" "fa < 2147483648" "pa = u32 (fa - 2147434496 + as_stackpbase a)"
    using tr by (auto simp: as_paddr_def Let_def PAGE_SIZE_def USERSTACK_def MIPS_KSEG0_def DUMBVM_STACKPAGES_def split: if_splits)
  then show ?thesis
  proof cases
    case 1 then show ?thesis by (intro main [of 0]) (simp_all add: as_range_def)
  next
    case 2 then show ?thesis by (intro main [of 1]) (simp_all add: as_range_def)
  next
    case 3 then show ?thesis by (intro main [of 2]) (simp_all add: as_range_def u32_def)
  qed
qed

lemma cur_as_thread: "cur_as s \<noteq> 0 \<Longrightarrow> \<exists>th. threads (vm_k s) (curthread (vm_k s)) = Some th \<and> t_vmspace th = cur_as s"
  by (auto simp: cur_as_def split: option.splits)

lemma vm_fault_keeps:
  assumes rep: "vm_rep s K L ow" and e: "vm_fault ft va s = Some (r, s')" and va: "va < 4294967296"
  shows "vm_rep s' K L ow \<and> world (vm_k s') = world (vm_k s)"
proof -
  note r = vm_repD [OF rep]
  obtain th where th: "threads (vm_k s) (curthread (vm_k s)) = Some th" using r(6) by blast
  then have ca: "cur_as s = t_vmspace th" by (simp add: cur_as_def)
  have "\<exists>a. t_vmspace th \<noteq> 0 \<longrightarrow> vm_as s (t_vmspace th) = Some a" using r(5) th unfolding spaces_ok_def by blast
  then obtain a where az: "t_vmspace th \<noteq> 0 \<longrightarrow> vm_as s (t_vmspace th) = Some a" by blast
  note a = az [rule_format]
  have up: "vm_rep (spl_up s) K L ow" using rep by (simp add: vm_rep_def tlb_ok_def cur_as_def spl_up_def)
  have fp: "(va AND PAGE_FRAME) mod 4096 = 0" using frame_and [OF va] by simp
  let ?T = "\<lambda>i pa. (vm_tlb s)[i := (va AND PAGE_FRAME, pa OR TLBLO_DIRTY OR TLBLO_VALID)]"
  have wr: "vm_rep (s\<lparr>vm_tlb := ?T i pa\<rparr>) K L ow" if tr: "as_paddr a (va AND PAGE_FRAME) = Some pa" and z: "t_vmspace th \<noteq> 0" and su: "as_set_up a" for i pa
  proof -
    have ok: "as_ok L ow (t_vmspace th) a" using r(3) [OF a [OF z]] by blast
    have p: "pa mod 4096 = 0" "pa < 4294967296" using as_paddr_range [OF ok su fp tr] by blast+
    have "\<exists>a. vm_as s (cur_as s) = Some a \<and> as_set_up a \<and> hi mod 4096 = 0 \<and> as_paddr a hi = Some (lo AND PAGE_FRAME)"
      if m: "(hi, lo) \<in> set (?T i pa)" "lo AND TLBLO_VALID \<noteq> 0" for hi lo
    proof (cases "(hi, lo) \<in> set (vm_tlb s)")
      case True
      then show ?thesis using r(4) m(2) z unfolding tlb_ok_def ca by metis
    next
      case False
      then have "hi = va AND PAGE_FRAME" "lo = pa OR TLBLO_DIRTY OR TLBLO_VALID" using m(1) set_update_subset_insert [of "vm_tlb s" i] by blast+
      then show ?thesis using a [OF z] su fp tr entrylo(1) [OF p] unfolding ca by simp
    qed
    then have "tlb_ok (s\<lparr>vm_tlb := ?T i pa\<rparr>)" using r(4) by (simp add: tlb_ok_def)
    then show ?thesis using rep by (simp add: vm_rep_def)
  qed
  show ?thesis
    using e rep up wr unfolding vm_fault_eq [OF th az] by (auto simp: spl_up_def split: if_splits option.splits)
qed

subsection \<open>Setting up an address space\<close>

text \<open>A change of an address space that is not complete.\<close>

lemma vm_rep_as:
  assumes rep: "vm_rep s K L ow" and a: "vm_as s p = Some a" "\<not> as_set_up a" and ok: "as_ok L ow p a'"
  shows "vm_rep (s\<lparr>vm_as := (vm_as s)(p \<mapsto> a')\<rparr>) K L ow"
proof (rule vm_repI)
  note r = vm_repD [OF rep]
  show "tlb_ok (s\<lparr>vm_as := (vm_as s)(p \<mapsto> a')\<rparr>)" by (rule tlb_ok_as) (use r(4) a in auto)
  show "spaces_ok (threads (vm_k (s\<lparr>vm_as := (vm_as s)(p \<mapsto> a')\<rparr>))) (vm_as (s\<lparr>vm_as := (vm_as s)(p \<mapsto> a')\<rparr>))"
    using spaces_ok_more [OF r(5), of "(vm_as s)(p \<mapsto> a')"] by auto
  show "L q = Some 28 \<and> ow q = Struct \<and> as_ok L ow q b" if "vm_as (s\<lparr>vm_as := (vm_as s)(p \<mapsto> a')\<rparr>) q = Some b" for q b
    using that r(3) [of q b] r(3) [OF a(1)] ok by (auto split: if_splits)
qed (use vm_repD [OF rep] in auto)

lemma as_define_region_keeps:
  assumes rep: "vm_rep s K L ow" and a: "vm_as s p = Some a" "as_pbase1 a = 0" "as_pbase2 a = 0"
    and sz: "sz + (vaddr AND 0xfff) + 4095 \<le> 2147483648"
  shows "wpK (as_define_region p vaddr sz) (\<lambda>_ s'. vm_rep s' K L ow) (\<lambda>e s'. e = EUNIMP \<and> s' = s) s"
proof -
  let ?n = "(u32 (u32 (sz + (vaddr AND 0xfff)) + PAGE_SIZE - 1) AND PAGE_FRAME) div PAGE_SIZE"
  have "u32 (sz + (vaddr AND 0xfff)) + PAGE_SIZE - 1 \<le> 2147483648" using sz by (simp add: u32_def PAGE_SIZE_def)
  then have "u32 (u32 (sz + (vaddr AND 0xfff)) + PAGE_SIZE - 1) \<le> 2147483648" by (simp add: u32_def)
  then have n: "?n \<le> 524288" using frame_and [of "u32 (u32 (sz + (vaddr AND 0xfff)) + PAGE_SIZE - 1)"] div_le_mono [of _ 2147483648 4096] by (simp add: PAGE_SIZE_def)
  have ok: "as_ok L ow p a" using vm_repD(3) [OF rep a(1)] by blast
  have "as_ok L ow p (a\<lparr>as_vbase1 := v, as_npages1 := ?n\<rparr>)" "as_ok L ow p (a\<lparr>as_vbase2 := v, as_npages2 := ?n\<rparr>)" for v
    using ok n a(2,3) by (simp_all add: as_ok_ranges)
  then show ?thesis
    using a vm_rep_as [OF rep a(1)] by (auto simp: as_define_region_def Let_def wp as_set_up_def)
qed

definition set_pbase :: "nat \<Rightarrow> nat \<Rightarrow> addrspace \<Rightarrow> addrspace" where
  "set_pbase k pa a = (if k = 0 then a\<lparr>as_pbase1 := pa\<rparr> else if k = 1 then a\<lparr>as_pbase2 := pa\<rparr> else a\<lparr>as_stackpbase := pa\<rparr>)"

lemma set_pbase_range: "k < 3 \<Longrightarrow> j < 3 \<Longrightarrow> as_range (set_pbase k pa a) j = (vbase a j, if j = k then pa else pbase a j, npages a j)"
  by (auto simp: set_pbase_def as_range_def)

text \<open>Pages for one range.\<close>

lemma grab_wp:
  assumes rep: "vm_rep s K L ow" and a: "vm_as s p = Some a" and k: "k < 3" "pbase a k = 0"
  shows "wpK (on_k (getppages (npages a k)))
     (\<lambda>pa s'. vm_as s' = vm_as s \<and> mem s' = mem s \<and> same_threads s s' \<and>
        (\<exists>L' ow'. vm_rep (s'\<lparr>vm_as := (vm_as s)(p \<mapsto> set_pbase k pa a)\<rparr>) K L' ow' \<and> (\<forall>q n. L q = Some n \<longrightarrow> L' q = Some n \<and> ow' q = ow q)))
     (\<lambda>_ _. False) s"
proof -
  note r = vm_repD [OF rep]
  have ok: "as_ok L ow p a" using r(3) [OF a] by blast
  have n: "npages a k \<le> 524288" using ok k unfolding as_ok_def by blast
  obtain pa h where e: "getppages (npages a k) (vm_k s) = Some (Inr pa, (vm_k s)\<lparr>world := h\<rparr>)" and m: "heap_mem h = heap_mem (world (vm_k s))"
    and pa: "pa mod 4096 = 0" "pa \<le> 532676608"
    and h: "if pa = 0 \<or> npages a k = 0 then heap_inv h L else 2147483648 + pa \<notin> dom L \<and> heap_inv h (L(2147483648 + pa \<mapsto> npages a k * 4096))"
    using getppages_run [OF r(1) n] by metis
  let ?s = "s\<lparr>vm_k := (vm_k s)\<lparr>world := h\<rparr>\<rparr>" and ?a = "set_pbase k pa a"
  define L' where "L' = (if pa = 0 \<or> npages a k = 0 then L else L(2147483648 + pa \<mapsto> npages a k * 4096))"
  define ow' where "ow' = (if pa = 0 \<or> npages a k = 0 then ow else ow(2147483648 + pa := Range p k))"
  have grow: "L q = Some n \<Longrightarrow> L' q = Some n \<and> ow' q = ow q" for q n using h by (auto simp: L'_def ow'_def split: if_splits)
  have okq: "as_ok L ow q b \<Longrightarrow> as_ok L' ow' q b" for q b by (erule as_ok_grow) (use grow in auto)
  have "vm_rep ?s K L' ow'"
    by (rule vm_repI) (use r h grow okq in \<open>auto simp: L'_def split: if_splits\<close>)
  moreover have "\<not> as_set_up a" using k by (auto simp: as_range_def as_set_up_def split: if_splits)
  moreover have "as_ok L' ow' p ?a"
    using okq [OF ok] pa k n by (auto simp: as_ok_def set_pbase_range [OF k(1)] L'_def ow'_def)
  ultimately have "vm_rep (?s\<lparr>vm_as := (vm_as ?s)(p \<mapsto> ?a)\<rparr>) K L' ow'" using a by (intro vm_rep_as) auto
  then show ?thesis unfolding wp using e m grow by (intro wp_eqI) (auto simp: same_threads_def)
qed

text \<open>What \<^verbatim>\<open>as_prepare_load\<close> has done when it returns: some of the physical bases are set.\<close>

definition loaded :: "vmstate \<Rightarrow> (nat \<rightharpoonup> nat) \<Rightarrow> nat \<Rightarrow> addrspace \<Rightarrow> vmstate \<Rightarrow> addrspace \<Rightarrow> bool" where
  "loaded s K p a s' a' \<longleftrightarrow> vm_inv s' K \<and> vm_as s' = (vm_as s)(p \<mapsto> a') \<and> mem s' = mem s \<and> same_threads s s' \<and>
     (\<forall>k < 3. vbase a' k = vbase a k \<and> npages a' k = npages a k)"

lemma as_prepare_load_wp:
  assumes inv: "vm_inv s K" and a: "vm_as s p = Some a" "as_pbase1 a = 0" "as_pbase2 a = 0" "as_stackpbase a = 0"
  shows "wpK (as_prepare_load p) (\<lambda>_ s'. \<exists>a'. loaded s K p a s' a' \<and> (\<forall>k < 3. pbase a' k \<noteq> 0)) (\<lambda>e s'. e = ENOMEM \<and> (\<exists>a'. loaded s K p a s' a')) s"
proof -
  have grab: "wpK (on_k (getppages (npages b k))) (\<lambda>pa t'. vm_as t' p = Some b \<and> loaded s K p a (t'\<lparr>vm_as := (vm_as t')(p \<mapsto> set_pbase k pa b)\<rparr>) (set_pbase k pa b))
      (\<lambda>_ _. False) t" if l: "loaded s K p a t b" and k: "k < 3" "pbase b k = 0" for t b k
  proof -
    obtain L ow where rep: "vm_rep t K L ow" using l unfolding loaded_def vm_inv_def by blast
    have b: "vm_as t p = Some b" using l by (simp add: loaded_def)
    show ?thesis
      by (rule wp_mono [OF grab_wp [OF rep b k]])
        (use l b k(1) in \<open>auto simp: loaded_def vm_inv_def set_pbase_range same_threads_def\<close>)
  qed
  have step: "wpK (bindK (on_k (getppages n)) (\<lambda>pa. bindK (mod_as p (set_pbase k pa)) (\<lambda>_. if pa = 0 then failK ENOMEM else m))) Q E t"
    if l: "loaded s K p a t b" and k: "k < 3" "pbase b k = 0" "n = npages b k" and Q: "\<And>pa t'. pa \<noteq> 0 \<Longrightarrow> loaded s K p a t' (set_pbase k pa b) \<Longrightarrow> wpK m Q E t'"
      and E: "\<And>t' a'. loaded s K p a t' a' \<Longrightarrow> E ENOMEM t'" for t b k n m Q E
    unfolding wp_bind k(3) by (rule wp_mono [OF grab [OF l k(1,2)]]) (use Q E in \<open>auto simp: wp\<close>)
  have l0: "loaded s K p a s a" using inv a(1) by (auto simp: loaded_def same_threads_def)
  let ?Q = "\<lambda>_ s'. \<exists>a'. loaded s K p a s' a' \<and> (\<forall>k < 3. pbase a' k \<noteq> 0)" and ?E = "\<lambda>e s'. e = ENOMEM \<and> (\<exists>a'. loaded s K p a s' a')"
  have set: "set_pbase 0 pa = (\<lambda>a. a\<lparr>as_pbase1 := pa\<rparr>)" "set_pbase 1 pa = (\<lambda>a. a\<lparr>as_pbase2 := pa\<rparr>)" "set_pbase 2 pa = (\<lambda>a. a\<lparr>as_stackpbase := pa\<rparr>)" for pa
    by (simp_all add: set_pbase_def fun_eq_iff)
  have "wpK (bindK (on_k (getppages (as_npages1 a))) (\<lambda>pa. bindK (mod_as p (set_pbase 0 pa)) (\<lambda>_. if pa = 0 then failK ENOMEM else (bindK (on_k (getppages (as_npages2 a))) (\<lambda>pa. bindK (mod_as p (set_pbase 1 pa)) (\<lambda>_. if pa = 0 then failK ENOMEM else (bindK (on_k (getppages 12)) (\<lambda>pa. bindK (mod_as p (set_pbase 2 pa)) (\<lambda>_. if pa = 0 then failK ENOMEM else retK ()))))))))) ?Q ?E s"
  proof (rule step [OF l0])
    fix pa1 t1 assume p1: "pa1 \<noteq> 0" and l1: "loaded s K p a t1 (set_pbase 0 pa1 a)"
    show "wpK (bindK (on_k (getppages (as_npages2 a))) (\<lambda>pa. bindK (mod_as p (set_pbase 1 pa)) (\<lambda>_. if pa = 0 then failK ENOMEM else (bindK (on_k (getppages 12)) (\<lambda>pa. bindK (mod_as p (set_pbase 2 pa)) (\<lambda>_. if pa = 0 then failK ENOMEM else retK ())))))) ?Q ?E t1"
    proof (rule step [OF l1])
      fix pa2 t2 assume p2: "pa2 \<noteq> 0" and l2: "loaded s K p a t2 (set_pbase 1 pa2 (set_pbase 0 pa1 a))"
      show "wpK (bindK (on_k (getppages 12)) (\<lambda>pa. bindK (mod_as p (set_pbase 2 pa)) (\<lambda>_. if pa = 0 then failK ENOMEM else retK ()))) ?Q ?E t2"
      proof (rule step [OF l2])
        fix pa3 t3 assume p3: "pa3 \<noteq> 0" and l3: "loaded s K p a t3 (set_pbase 2 pa3 (set_pbase 1 pa2 (set_pbase 0 pa1 a)))"
        have "\<forall>k < 3. pbase (set_pbase 2 pa3 (set_pbase 1 pa2 (set_pbase 0 pa1 a))) k \<noteq> 0" using p1 p2 p3 by (simp add: as_range_def set_pbase_def)
        then show "wpK (retK ()) ?Q ?E t3" unfolding wp using l3 by blast
      qed (use a in \<open>auto simp: as_range_def set_pbase_def\<close>)
    qed (use a in \<open>auto simp: as_range_def set_pbase_def\<close>)
  qed (use a in \<open>auto simp: as_range_def\<close>)
  moreover have "bindK (get_as p) g s = g a s" "bindK (assertK True) h s = h () s" for g :: "addrspace \<Rightarrow> (vmstate, unit) kern" and h :: "unit \<Rightarrow> (vmstate, unit) kern"
    using a(1) by (simp_all add: bindK_def get_as_def assertK_def retK_def)
  ultimately show ?thesis unfolding as_prepare_load_def set DUMBVM_STACKPAGES_def wpK_def using a(2-4) by simp
qed

subsection \<open>Copying an address space\<close>

lemma vm_rep_mem:
  assumes rep: "vm_rep s K L ow" and m: "\<And>x. m x \<noteq> mem s x \<Longrightarrow> \<exists>p n. L p = Some n \<and> p \<le> x \<and> x < p + n"
  shows "vm_rep (set_mem m s) K L ow"
  by (rule vm_repI) (use vm_repD [OF rep] mem_inv [OF vm_repD(1) [OF rep] m] in auto)

lemma apartD: "heap_inv h L \<Longrightarrow> L p = Some n \<Longrightarrow> L q = Some m \<Longrightarrow> p \<noteq> q \<Longrightarrow> p \<le> x \<Longrightarrow> x < p + n \<Longrightarrow> \<not> (q \<le> x \<and> x < q + m)"
  unfolding heap_inv_def apart_def by (meson le_less_trans not_le order_trans)

text \<open>One of the three copies: into range \<open>k\<close> of the space at \<open>p\<close>.\<close>

definition moved :: "addrspace \<Rightarrow> addrspace \<Rightarrow> nat \<Rightarrow> memory \<Rightarrow> memory" where
  "moved d od k m = put_at (2147483648 + pbase d k) (get_at (2147483648 + pbase od k) (npages od k * 4096) m) m"

lemma moved_out:
  assumes inv: "heap_inv h L" and ok: "as_ok L ow p d" and k: "k < 3" "pbase d k \<noteq> 0" "npages d k = npages od k"
    and q: "L q = Some n" "ow q \<noteq> Range p k" "q \<le> x" "x < q + n"
  shows "moved d od k m x = m x"
proof (cases "npages d k = 0")
  case False
  then have b: "L (2147483648 + pbase d k) = Some (npages d k * 4096)" "ow (2147483648 + pbase d k) = Range p k" using ok k unfolding as_ok_def by blast+
  then have "q \<noteq> 2147483648 + pbase d k" using q(2) by auto
  then have "\<not> (2147483648 + pbase d k \<le> x \<and> x < 2147483648 + pbase d k + npages d k * 4096)" using apartD [OF inv q(1) b(1) _ q(3,4)] by blast
  then show ?thesis using k(3) by (auto simp: moved_def intro!: put_at_outside)
qed (use k in \<open>simp add: moved_def get_at_def\<close>)

lemma moved_in: "i < npages od k * 4096 \<Longrightarrow> moved d od k m (2147483648 + pbase d k + i) = m (2147483648 + pbase od k + i)"
  by (simp add: moved_def put_at_def)

lemma moved_changes:
  assumes ok: "as_ok L ow p d" and k: "k < 3" "pbase d k \<noteq> 0" "npages d k = npages od k" and x: "moved d od k m x \<noteq> m x"
  shows "\<exists>q n. L q = Some n \<and> ow q = Range p k \<and> q \<le> x \<and> x < q + n"
proof -
  have "2147483648 + pbase d k \<le> x \<and> x < 2147483648 + pbase d k + npages d k * 4096"
  proof (rule ccontr)
    assume "\<not> ?thesis"
    then have "x < 2147483648 + pbase d k \<or> 2147483648 + pbase d k + length (get_at (2147483648 + pbase od k) (npages od k * 4096) m) \<le> x"
      using k(3) by auto
    then show False using x put_at_outside unfolding moved_def by blast
  qed
  then have r: "2147483648 + pbase d k \<le> x" "x < 2147483648 + pbase d k + npages d k * 4096" by blast+
  then have "npages d k \<noteq> 0" by auto
  then show ?thesis using ok k r unfolding as_ok_def by blast
qed

lemma move_pages_wp:
  assumes rep: "vm_rep s K L ow" and d: "vm_as s p = Some d" and k: "k < 3" "pbase d k \<noteq> 0" "npages d k = npages od k" and od: "pbase od k \<le> 532676608"
  shows "wpK (move_pages (pbase d k) (pbase od k) (u32 (npages od k * PAGE_SIZE))) (\<lambda>_ s'. s' = set_mem (moved d od k (mem s)) s \<and> vm_rep s' K L ow) (\<lambda>_ _. False) s"
proof -
  have ok: "as_ok L ow p d" using vm_repD(3) [OF rep d] by blast
  then have b: "pbase d k \<le> 532676608" "npages od k \<le> 524288" using k unfolding as_ok_def by metis+
  have "u32 (npages od k * PAGE_SIZE) = npages od k * 4096" using b(2) by (simp add: u32_def PAGE_SIZE_def)
  moreover have "PADDR_TO_KVADDR (pbase d k) = 2147483648 + pbase d k" "PADDR_TO_KVADDR (pbase od k) = 2147483648 + pbase od k"
    using b(1) od by (simp_all add: PADDR_TO_KVADDR_def MIPS_KSEG0_def u32_def)
  ultimately have "move_pages (pbase d k) (pbase od k) (u32 (npages od k * PAGE_SIZE)) s = Some (Inr (), set_mem (moved d od k (mem s)) s)"
    by (simp add: move_pages_def on_k_def on_heap_def kern_defs moved_def memmove_spec)
  moreover have "vm_rep (set_mem (moved d od k (mem s)) s) K L ow"
    by (rule vm_rep_mem [OF rep]) (use moved_changes [OF ok k] in blast)
  ultimately show ?thesis by (intro wp_eqI) auto
qed

text \<open>What \<^verbatim>\<open>as_copy\<close> promises: an address space with the same ranges and the same contents in other physical memory.\<close>

definition copied :: "vmstate \<Rightarrow> addrspace \<Rightarrow> vmstate \<Rightarrow> addrspace \<Rightarrow> bool" where
  "copied s a s' b \<longleftrightarrow> (\<forall>k < 3. vbase b k = vbase a k \<and> npages b k = npages a k \<and> pbase b k \<noteq> 0 \<and>
     (\<forall>i < npages a k * 4096. mem s' (2147483648 + pbase b k + i) = mem s (2147483648 + pbase a k + i)))"

text \<open>The three copies, once the new space has its memory.\<close>

lemma copy_pages_wp:
  assumes inv: "vm_inv s K" and q: "vm_as s q = Some b" "\<forall>k < 3. pbase b k \<noteq> 0" and p: "vm_as s p = Some a" "\<forall>k < 3. pbase a k \<noteq> 0" "p \<noteq> q"
    and n: "\<forall>k < 3. vbase b k = vbase a k \<and> npages b k = npages a k"
  shows "wpK (bindK (move_pages (as_pbase1 b) (as_pbase1 a) (u32 (as_npages1 a * PAGE_SIZE))) (\<lambda>_.
         bindK (move_pages (as_pbase2 b) (as_pbase2 a) (u32 (as_npages2 a * PAGE_SIZE))) (\<lambda>_.
         bindK (move_pages (as_stackpbase b) (as_stackpbase a) (u32 (DUMBVM_STACKPAGES * PAGE_SIZE))) (\<lambda>_.
         retK q))))
     (\<lambda>r s'. r = q \<and> vm_inv s' K \<and> same_mem (s\<lparr>vm_as := (vm_as s)(q := None)\<rparr>) K s' \<and> vm_as s' = vm_as s \<and> copied s a s' b) (\<lambda>_ _. False) s"
proof -
  obtain L ow where rep: "vm_rep s K L ow" using inv unfolding vm_inv_def by blast
  let ?m0 = "moved b a 0 (mem s)"
  let ?m1 = "moved b a 1 ?m0"
  let ?m2 = "moved b a 2 ?m1"
  have okb: "as_ok L ow q b" and oka: "as_ok L ow p a" using vm_repD(3) [OF rep] q(1) p(1) by blast+
  have pa: "pbase a k \<le> 532676608" if "k < 3" for k using oka that unfolding as_ok_def by blast
  have mv: "wpK (move_pages (pbase b k) (pbase a k) (u32 (npages a k * PAGE_SIZE))) (\<lambda>_ s'. s' = set_mem (moved b a k (mem t)) t \<and> vm_rep s' K L ow) (\<lambda>_ _. False) t"
    if "vm_rep t K L ow" "vm_as t = vm_as s" "k < 3" for t k
    using that q n pa by (intro move_pages_wp) auto
  have rs: "pbase c 0 = as_pbase1 c" "pbase c 1 = as_pbase2 c" "pbase c 2 = as_stackpbase c" "npages c 0 = as_npages1 c" "npages c 1 = as_npages2 c"
    "npages c 2 = DUMBVM_STACKPAGES" for c by (simp_all add: as_range_def DUMBVM_STACKPAGES_def)
  have run: "wpK (bindK (move_pages (pbase b 0) (pbase a 0) (u32 (npages a 0 * PAGE_SIZE))) (\<lambda>_.
         bindK (move_pages (pbase b 1) (pbase a 1) (u32 (npages a 1 * PAGE_SIZE))) (\<lambda>_.
         bindK (move_pages (pbase b 2) (pbase a 2) (u32 (npages a 2 * PAGE_SIZE))) (\<lambda>_. retK q))))
       (\<lambda>r s'. r = q \<and> s' = set_mem ?m2 s \<and> vm_rep s' K L ow) (\<lambda>_ _. False) s"
    unfolding wp_bind
    by (rule wp_mono [OF mv [OF rep refl]], simp, rule wp_mono [OF mv], blast, simp, simp, rule wp_mono [OF mv], blast, simp, simp) (auto simp: wp)
  note h = vm_repD(1) [OF rep]
  have out: "?m2 x = mem s x" if "L z = Some l" "z \<le> x" "x < z + l" "\<forall>k < 3. ow z \<noteq> Range q k" for z l x
    using moved_out [OF h okb _ _ _ that(1) _ that(2,3)] that(4) q(2) n by simp
  have blk: "L (2147483648 + pbase c k) = Some (npages c k * 4096)" "ow (2147483648 + pbase c k) = Range r k"
    if "as_ok L ow r c" "k < 3" "pbase c k \<noteq> 0" "i < npages c k * 4096" for r c k i
    using that unfolding as_ok_def by (metis mult_0 not_less_zero)+
  have inb: "?m2 (2147483648 + pbase b k + i) = mem s (2147483648 + pbase a k + i)" if k: "k < 3" and i: "i < npages a k * 4096" for k i
  proof -
    have ib: "i < npages b k * 4096" using n k i by simp
    note lb = blk [OF okb k _ ib] and la = blk [OF oka k _ i]
    have nb: "moved b a j m (2147483648 + pbase b k + i) = m (2147483648 + pbase b k + i)" if "j < 3" "j \<noteq> k" for j m
      by (rule moved_out [OF h okb that(1) _ _ lb(1)]) (use q(2) n lb k ib that in auto)
    have na: "moved b a j m (2147483648 + pbase a k + i) = m (2147483648 + pbase a k + i)" if "j < 3" for j m
      by (rule moved_out [OF h okb that(1) _ _ la(1)]) (use q(2) p n la k i that in auto)
    consider "k = 0" | "k = 1" | "k = 2" using k by linarith
    then show ?thesis
    proof cases
      case 1 then show ?thesis using nb [of 2] nb [of 1] moved_in [OF i, of b "mem s"] by simp
    next
      case 2 then show ?thesis using nb [of 2] moved_in [OF i, of b ?m0] na [of 0] by simp
    next
      case 3 then show ?thesis using moved_in [OF i, of b ?m1] na [of 1] na [of 0] by simp
    qed
  qed
  have cp: "copied s a (set_mem ?m2 s) b" using n q(2) inb by (simp add: copied_def)
  have sm: "same_mem (s\<lparr>vm_as := (vm_as s)(q := None)\<rparr>) K (set_mem ?m2 s)"
    unfolding same_mem_def
  proof (intro conjI allI impI)
    fix z l x assume "K z = Some l" "z \<le> x" "x < z + l"
    then show "mem (set_mem ?m2 s) x = mem (s\<lparr>vm_as := (vm_as s)(q := None)\<rparr>) x" using out [of z l x] vm_repD(2) [OF rep, of z l] by simp
  next
    fix z c k i
    assume z: "vm_as (s\<lparr>vm_as := (vm_as s)(q := None)\<rparr>) z = Some c" "k < 3" "pbase c k \<noteq> 0" "i < npages c k * 4096"
    then have zq: "z \<noteq> q" "as_ok L ow z c" using vm_repD(3) [OF rep, of z c] by (auto split: if_splits)
    show "mem (set_mem ?m2 s) (2147483648 + pbase c k + i) = mem (s\<lparr>vm_as := (vm_as s)(q := None)\<rparr>) (2147483648 + pbase c k + i)"
      using out [OF blk(1) [OF zq(2) z(2-4)]] blk(2) [OF zq(2) z(2-4)] zq(1) z(4) by simp
  qed
  have "wpK (bindK (move_pages (pbase b 0) (pbase a 0) (u32 (npages a 0 * PAGE_SIZE))) (\<lambda>_.
         bindK (move_pages (pbase b 1) (pbase a 1) (u32 (npages a 1 * PAGE_SIZE))) (\<lambda>_.
         bindK (move_pages (pbase b 2) (pbase a 2) (u32 (npages a 2 * PAGE_SIZE))) (\<lambda>_. retK q))))
     (\<lambda>r s'. r = q \<and> vm_inv s' K \<and> same_mem (s\<lparr>vm_as := (vm_as s)(q := None)\<rparr>) K s' \<and> vm_as s' = vm_as s \<and> copied s a s' b) (\<lambda>_ _. False) s"
    by (rule wp_mono [OF run]) (use cp sm in \<open>auto simp: vm_inv_def\<close>)
  then show ?thesis unfolding rs .
qed

lemma same_mem_trans:
  assumes "same_mem s K t" and "same_mem (t\<lparr>vm_as := vm_as s\<rparr>) K u"
  shows "same_mem s K u"
  using assms unfolding same_mem_def by simp

text \<open>\<^verbatim>\<open>as_copy\<close> from the point on where the new structure is there.\<close>

definition copy_into :: "nat \<Rightarrow> addrspace \<Rightarrow> (vmstate, nat) kern" where
  "copy_into q a =
     bindK (mod_as q (\<lambda>x. x\<lparr>as_vbase1 := as_vbase1 a, as_npages1 := as_npages1 a, as_vbase2 := as_vbase2 a, as_npages2 := as_npages2 a\<rparr>)) (\<lambda>_.
     bindK (tryK (as_prepare_load q)) (\<lambda>result.
     case result of
       Inl _ \<Rightarrow> bindK (dumb_destroy q) (\<lambda>_. failK ENOMEM)
     | Inr _ \<Rightarrow>
         bindK (get_as q) (\<lambda>n.
         bindK (assertK (as_pbase1 n \<noteq> 0)) (\<lambda>_.
         bindK (assertK (as_pbase2 n \<noteq> 0)) (\<lambda>_.
         bindK (assertK (as_stackpbase n \<noteq> 0)) (\<lambda>_.
         bindK (move_pages (as_pbase1 n) (as_pbase1 a) (u32 (as_npages1 a * PAGE_SIZE))) (\<lambda>_.
         bindK (move_pages (as_pbase2 n) (as_pbase2 a) (u32 (as_npages2 a * PAGE_SIZE))) (\<lambda>_.
         bindK (move_pages (as_stackpbase n) (as_stackpbase a) (u32 (DUMBVM_STACKPAGES * PAGE_SIZE))) (\<lambda>_.
         retK q)))))))))"

definition ranges_of :: "addrspace \<Rightarrow> addrspace" where
  "ranges_of a = no_as\<lparr>as_vbase1 := as_vbase1 a, as_npages1 := as_npages1 a, as_vbase2 := as_vbase2 a, as_npages2 := as_npages2 a\<rparr>"

lemma ranges_of: "vbase (ranges_of a) k = vbase a k" "npages (ranges_of a) k = npages a k" "as_pbase1 (ranges_of a) = 0" "as_pbase2 (ranges_of a) = 0"
  "as_stackpbase (ranges_of a) = 0"
  by (simp_all add: as_range_def ranges_of_def no_as_def)

text \<open>The state in between: the old state with a new structure at \<open>q\<close>.\<close>

definition between :: "vmstate \<Rightarrow> (nat \<rightharpoonup> nat) \<Rightarrow> nat \<Rightarrow> vmstate \<Rightarrow> addrspace \<Rightarrow> bool" where
  "between s K q s' b \<longleftrightarrow> vm_inv s' K \<and> same_mem s K s' \<and> same_threads s s' \<and> q \<notin> dom (vm_as s) \<and> vm_as s' = (vm_as s)(q \<mapsto> b)"

lemma between_threads:
  assumes inv: "vm_inv s K" and b: "between s K q t b"
  shows "threads (vm_k t) u = Some th \<Longrightarrow> t_vmspace th \<noteq> q" "q \<noteq> cur_as t"
proof -
  obtain L ow where rep: "vm_rep s K L ow" using inv unfolding vm_inv_def by blast
  obtain L1 ow1 where r1: "vm_rep t K L1 ow1" using b unfolding between_def vm_inv_def by blast
  have th: "threads (vm_k t) = threads (vm_k s)" "vm_as t q = Some b" using b by (simp_all add: between_def same_threads_def)
  have "q \<noteq> 0" using heap_inv_bounds(1) [OF vm_repD(1) [OF r1]] vm_repD(3) [OF r1 th(2)] by fastforce
  then show *: "threads (vm_k t) u = Some th \<Longrightarrow> t_vmspace th \<noteq> q" for u th
    using vm_repD(5) [OF rep] b unfolding spaces_ok_def between_def th(1) by blast
  show "q \<noteq> cur_as t" using * vm_repD(6) [OF r1] unfolding cur_as_def by (auto split: option.splits)
qed

lemma copy_fail_wp:
  assumes inv: "vm_inv s K" and b: "between s K q t b"
  shows "wpK (dumb_destroy q) (\<lambda>_ s'. vm_inv s' K \<and> same_mem s K s' \<and> vm_as s' = vm_as s) (\<lambda>_ _. False) t"
proof -
  obtain L ow where r: "vm_rep t K L ow" using b unfolding between_def vm_inv_def by blast
  show ?thesis
    by (rule wp_mono [OF dumb_destroy_wp [OF r _ between_threads(2) [OF inv b]]])
      (use b between_threads(1) [OF inv b] in \<open>auto simp: between_def domIff intro: same_mem_trans\<close>)
qed

lemma copy_into_wp:
  assumes inv: "vm_inv s K" and a: "vm_as s p = Some a" "\<forall>k < 3. pbase a k \<noteq> 0" and b: "between s K q s1 no_as"
  shows "wpK (copy_into q a)
     (\<lambda>q s'. vm_inv s' K \<and> same_mem s K s' \<and> q \<notin> dom (vm_as s) \<and> (\<exists>b. vm_as s' = (vm_as s)(q \<mapsto> b) \<and> copied s a s' b))
     (\<lambda>e s'. e = ENOMEM \<and> vm_inv s' K \<and> same_mem s K s' \<and> vm_as s' = vm_as s) s1" (is "wpK _ ?Q ?E s1")
proof -
  let ?s2 = "s1\<lparr>vm_as := (vm_as s)(q \<mapsto> ranges_of a)\<rparr>"
  have s1: "vm_inv s1 K" "same_mem s K s1" "same_threads s s1" "q \<notin> dom (vm_as s)" "vm_as s1 = (vm_as s)(q \<mapsto> no_as)" using b by (simp_all add: between_def)
  have pq: "p \<noteq> q" using s1(4) a(1) by auto
  obtain L1 ow1 where r1: "vm_rep s1 K L1 ow1" using s1(1) unfolding vm_inv_def by blast
  have "as_ok L1 ow1 p a" using vm_repD(3) [OF r1, of p a] s1(5) a(1) pq by simp
  then have "as_ok L1 ow1 q (ranges_of a)" by (simp add: as_ok_ranges ranges_of_def no_as_def)
  then have "vm_rep (s1\<lparr>vm_as := (vm_as s1)(q \<mapsto> ranges_of a)\<rparr>) K L1 ow1"
    using s1(5) by (intro vm_rep_as [OF r1, of q no_as]) (auto simp: as_set_up_def no_as_def)
  then have i2: "vm_inv ?s2 K" unfolding vm_inv_def s1(5) by auto
  have btw: "between s K q t c" if "loaded ?s2 K q (ranges_of a) t c" for t c
    using that s1 by (simp add: between_def loaded_def same_mem_def same_threads_def)
  have prep: "wpK (as_prepare_load q) (\<lambda>_ t. \<exists>c. loaded ?s2 K q (ranges_of a) t c \<and> (\<forall>k < 3. pbase c k \<noteq> 0))
      (\<lambda>e t. e = ENOMEM \<and> (\<exists>c. loaded ?s2 K q (ranges_of a) t c)) ?s2"
    by (rule as_prepare_load_wp [OF i2 _ ranges_of(3-5)]) simp
  have good: "wpK (bindK (move_pages (as_pbase1 c) (as_pbase1 a) (u32 (as_npages1 a * PAGE_SIZE))) (\<lambda>_.
       bindK (move_pages (as_pbase2 c) (as_pbase2 a) (u32 (as_npages2 a * PAGE_SIZE))) (\<lambda>_.
       bindK (move_pages (as_stackpbase c) (as_stackpbase a) (u32 (DUMBVM_STACKPAGES * PAGE_SIZE))) (\<lambda>_. retK q)))) ?Q ?E t"
    if l: "loaded ?s2 K q (ranges_of a) t c" and nz: "\<forall>k < 3. pbase c k \<noteq> 0" for t c
  proof -
    note bt = btw [OF l, unfolded between_def]
    have r: "\<forall>k < 3. vbase c k = vbase a k \<and> npages c k = npages a k" using l by (auto simp: loaded_def ranges_of)
    have "copied t a u c \<Longrightarrow> copied s a u c" for u using bt a unfolding copied_def same_mem_def by metis
    moreover have "(vm_as s)(q := None) = vm_as s" using s1(4) by auto
    ultimately show ?thesis
      by (intro wp_mono [OF copy_pages_wp [of t K q c p a, OF _ _ nz _ a(2) pq r]]) (use bt s1(4) a pq in \<open>auto intro: same_mem_trans\<close>)
  qed
  have pb: "\<forall>k < 3. pbase c k \<noteq> 0 \<Longrightarrow> as_pbase1 c \<noteq> 0 \<and> as_pbase2 c \<noteq> 0 \<and> as_stackpbase c \<noteq> 0" for c by (simp add: all3 as_range_def)
  let ?rest = "\<lambda>result. case result of Inl _ \<Rightarrow> bindK (dumb_destroy q) (\<lambda>_. failK ENOMEM)
     | Inr _ \<Rightarrow>
         bindK (get_as q) (\<lambda>n.
         bindK (assertK (as_pbase1 n \<noteq> 0)) (\<lambda>_.
         bindK (assertK (as_pbase2 n \<noteq> 0)) (\<lambda>_.
         bindK (assertK (as_stackpbase n \<noteq> 0)) (\<lambda>_.
         bindK (move_pages (as_pbase1 n) (as_pbase1 a) (u32 (as_npages1 a * PAGE_SIZE))) (\<lambda>_.
         bindK (move_pages (as_pbase2 n) (as_pbase2 a) (u32 (as_npages2 a * PAGE_SIZE))) (\<lambda>_.
         bindK (move_pages (as_stackpbase n) (as_stackpbase a) (u32 (DUMBVM_STACKPAGES * PAGE_SIZE))) (\<lambda>_.
         retK q)))))))"
  have "wpK (as_prepare_load q) (\<lambda>r. wpK (?rest (Inr r)) ?Q ?E) (\<lambda>e. wpK (?rest (Inl e :: errno + unit)) ?Q ?E) ?s2"
  proof (rule wp_mono [OF prep])
    fix r t assume "\<exists>c. loaded ?s2 K q (ranges_of a) t c \<and> (\<forall>k < 3. pbase c k \<noteq> 0)"
    then obtain c where c: "loaded ?s2 K q (ranges_of a) t c" "\<forall>k < 3. pbase c k \<noteq> 0" by blast
    have "vm_as t q = Some c" using btw [OF c(1)] by (simp add: between_def)
    then show "wpK (?rest (Inr r)) ?Q ?E t" using good [OF c] pb [OF c(2)] by (simp add: wp_bind wp_get_as wp_assert)
  next
    fix e t assume "e = ENOMEM \<and> (\<exists>c. loaded ?s2 K q (ranges_of a) t c)"
    then show "wpK (?rest (Inl e :: errno + unit)) ?Q ?E t" by (auto simp: wp_bind wp_fail intro!: wp_mono [OF copy_fail_wp [OF inv btw]])
  qed
  then show ?thesis unfolding copy_into_def wp_bind wp_mod_as wp_try using s1(5) by (intro exI [of _ no_as] conjI) (simp_all add: ranges_of_def)
qed

lemma as_copy_eq: "as_copy p = bindK as_create (\<lambda>q. if q = 0 then failK ENOMEM else bindK (get_as p) (copy_into q))"
  unfolding as_copy_def copy_into_def by simp

lemma as_copy_wp:
  assumes inv: "vm_inv s K" and a: "vm_as s p = Some a" "\<forall>k < 3. pbase a k \<noteq> 0"
  shows "wpK (as_copy p)
     (\<lambda>q s'. vm_inv s' K \<and> same_mem s K s' \<and> q \<notin> dom (vm_as s) \<and> (\<exists>b. vm_as s' = (vm_as s)(q \<mapsto> b) \<and> copied s a s' b))
     (\<lambda>e s'. e = ENOMEM \<and> vm_inv s' K \<and> same_mem s K s' \<and> vm_as s' = vm_as s) s" (is "wpK _ ?Q ?E s")
proof -
  obtain L ow where rep: "vm_rep s K L ow" using inv unfolding vm_inv_def by blast
  show ?thesis unfolding as_copy_eq wp_bind
  proof (rule wp_mono [OF as_create_wp [OF rep]])
    fix q t assume t: "vm_inv t K \<and> same_mem s K t \<and> same_threads s t \<and>
       (if q = 0 then vm_as t = vm_as s else q \<notin> dom (vm_as s) \<and> vm_as t = (vm_as s)(q \<mapsto> no_as))"
    show "wpK (if q = 0 then failK ENOMEM else bindK (get_as p) (copy_into q)) ?Q ?E t"
    proof (cases "q = 0")
      case False
      then have b: "between s K q t no_as" using t by (simp add: between_def)
      then have "vm_as t p = Some a" using a(1) by (auto simp: between_def)
      then show ?thesis using False copy_into_wp [OF inv a b] by (simp add: wp_bind wp_get_as)
    qed (use t in \<open>simp add: wp\<close>)
  qed simp
qed

end
