(* ===== verification/Dumbvm_Run.thy ===== *)
theory Dumbvm_Run
  imports Dumbvm_Inv
begin

text \<open>
  Virtual memory in use, as a transition system: threads get address spaces, fault, are switched and exit, while the kernel allocates and frees memory. The invariant
  holds in every run. How the processor translates the addresses of user programs.
\<close>

unbundle bit_operations_syntax

section \<open>The processor\<close>

text \<open>How the processor translates a user address: through a valid entry for its page.\<close>

definition tlb_translate :: "(nat \<times> nat) list \<Rightarrow> nat \<Rightarrow> nat option" where
  "tlb_translate T va =
     (case find (\<lambda>(hi, lo). hi AND PAGE_FRAME = va AND PAGE_FRAME \<and> lo AND TLBLO_VALID \<noteq> 0) T of
        None \<Rightarrow> None
      | Some (hi, lo) \<Rightarrow> Some ((lo AND PAGE_FRAME) + va mod 4096))"

text \<open>A new entry for a page that had none translates its addresses.\<close>

lemma translate_enter:
  assumes va: "va < 4294967296" and pa: "pa mod 4096 = 0" "pa < 4294967296" and i: "i < length T" and n: "tlb_translate T va = None"
  shows "tlb_translate (T[i := (va AND PAGE_FRAME, pa OR TLBLO_DIRTY OR TLBLO_VALID)]) va = Some (pa + va mod 4096)"
proof -
  let ?e = "(va AND PAGE_FRAME, pa OR TLBLO_DIRTY OR TLBLO_VALID)" and ?P = "\<lambda>(hi, lo). hi AND PAGE_FRAME = va AND PAGE_FRAME \<and> lo AND TLBLO_VALID \<noteq> 0"
  have "find ?P T = None" using n unfolding tlb_translate_def by (simp split: option.splits prod.splits)
  then have none: "\<forall>x \<in> set T. \<not> ?P x" unfolding find_None_iff by blast
  have "(va AND PAGE_FRAME) mod 4096 = 0" "va AND PAGE_FRAME < 4294967296" using frame_and [OF va] va by simp_all
  then have "?P ?e" using frame_and_iff entrylo(2) [OF pa] by simp
  then have "find ?P (T[i := ?e]) = Some ?e"
    unfolding find_Some_iff using none i by (intro exI [of _ i]) (simp add: nth_list_update)
  then show ?thesis using entrylo(1) [OF pa] by (simp add: tlb_translate_def)
qed

section \<open>Steps\<close>

text \<open>
  \<open>Enter\<close> is what \<^verbatim>\<open>runprogram\<close> does with a new address space, \<open>Switch\<close> what \<^verbatim>\<open>mi_switch\<close> does when it has chosen a thread, \<open>Exit\<close> what \<^verbatim>\<open>thread_exit\<close>
  does with the address space. As in \<^verbatim>\<open>load_elf\<close>, regions are defined before the memory is allocated; the size of a region is limited here to 2 GB, and so are the requests of the heap's
  other users. As in \<^verbatim>\<open>runprogram\<close>, an address space is entered by one thread only.
  \<open>K\<close> are the blocks of the other users of the heap.
\<close>

datatype vop = Create | Region nat nat nat | Prepare nat | Copy nat | Enter nat | Switch nat | Exit | Fault int nat | UStore nat byte | Kernel hop

inductive vstep :: "vmstate \<times> (nat \<rightharpoonup> nat) \<Rightarrow> vop \<Rightarrow> vmstate \<times> (nat \<rightharpoonup> nat) \<Rightarrow> bool" where
  create: "as_create s = Some (r, s') \<Longrightarrow> vstep (s, K) Create (s', K)"
| region: "vm_as s p = Some a \<Longrightarrow> as_pbase1 a = 0 \<Longrightarrow> as_pbase2 a = 0 \<Longrightarrow> sz + (vaddr AND 0xfff) + 4095 \<le> 2147483648 \<Longrightarrow>
    as_define_region p vaddr sz s = Some (r, s') \<Longrightarrow> vstep (s, K) (Region p vaddr sz) (s', K)"
| prepare: "vm_as s p = Some a \<Longrightarrow> as_prepare_load p s = Some (r, s') \<Longrightarrow> vstep (s, K) (Prepare p) (s', K)"
| copy: "vm_as s p = Some a \<Longrightarrow> \<forall>k < 3. pbase a k \<noteq> 0 \<Longrightarrow> as_copy p s = Some (r, s') \<Longrightarrow> vstep (s, K) (Copy p) (s', K)"
| enter: "p \<in> dom (vm_as s) \<Longrightarrow> \<forall>t th. threads (vm_k s) t = Some th \<longrightarrow> t_vmspace th \<noteq> p \<Longrightarrow>
    threads (vm_k s) (curthread (vm_k s)) = Some th \<Longrightarrow> t_vmspace th = 0 \<Longrightarrow>
    dumb_activate p (s\<lparr>vm_k := (vm_k s)\<lparr>threads := (threads (vm_k s))(curthread (vm_k s) \<mapsto> th\<lparr>t_vmspace := p\<rparr>)\<rparr>\<rparr>) = Some (r, s') \<Longrightarrow>
    vstep (s, K) (Enter p) (s', K)"
| switch: "threads (vm_k s) t = Some th \<Longrightarrow>
    (if t_vmspace th \<noteq> 0 then dumb_activate (t_vmspace th) else retK ()) (s\<lparr>vm_k := (vm_k s)\<lparr>curthread := t\<rparr>\<rparr>) = Some (r, s') \<Longrightarrow>
    vstep (s, K) (Switch t) (s', K)"
| exit: "threads (vm_k s) (curthread (vm_k s)) = Some th \<Longrightarrow> t_vmspace th \<noteq> 0 \<Longrightarrow>
    dumb_destroy (t_vmspace th) (s\<lparr>vm_k := (vm_k s)\<lparr>threads := (threads (vm_k s))(curthread (vm_k s) \<mapsto> th\<lparr>t_vmspace := 0\<rparr>)\<rparr>\<rparr>) = Some (r, s') \<Longrightarrow>
    vstep (s, K) Exit (s', K)"
| fault: "va < 4294967296 \<Longrightarrow> vm_fault ft va s = Some (r, s') \<Longrightarrow> vstep (s, K) (Fault ft va) (s', K)"
| ustore: "cur_as s \<noteq> 0 \<Longrightarrow> va < 2147483648 \<Longrightarrow> tlb_translate (vm_tlb s) va = Some pa \<Longrightarrow>
    vstep (s, K) (UStore va v) (set_mem ((mem s)(2147483648 + pa := v)) s, K)"
| kernel: "hstep (vm_k s, K) hop (k', K') \<Longrightarrow> vstep (s, K) (Kernel hop) (s\<lparr>vm_k := k'\<rparr>, K')"

inductive_cases vstep_elims: "vstep (s, K) op (s', K')"

inductive vrun :: "vmstate \<Rightarrow> vop list \<Rightarrow> vmstate \<times> (nat \<rightharpoonup> nat) \<Rightarrow> bool" for s0 where
  vrun_refl: "vrun s0 [] (s0, \<lambda>_. None)"
| vrun_step: "vrun s0 ops c \<Longrightarrow> vstep c op c' \<Longrightarrow> vrun s0 (ops @ [op]) c'"

definition vm_boot :: "nat \<Rightarrow> nat \<Rightarrow> vmstate \<Rightarrow> bool" where
  "vm_boot ramsize firstfree s \<longleftrightarrow> heap_boot ramsize firstfree (vm_k s) \<and> vm_as s = (\<lambda>_. None) \<and> length (vm_tlb s) = 64 \<and>
     curthread (vm_k s) \<in> dom (threads (vm_k s)) \<and> (\<forall>t th. threads (vm_k s) t = Some th \<longrightarrow> t_vmspace th = 0)"

lemma vm_boot_inv:
  assumes "vm_boot ramsize firstfree s"
  shows "vm_inv s (\<lambda>_. None)"
proof -
  have "heap_inv (world (vm_k s)) (\<lambda>_. None)" using assms heap_boot_inv unfolding vm_boot_def by blast
  moreover have "cur_as s = 0" using assms by (auto simp: vm_boot_def cur_as_def split: option.splits)
  ultimately have "vm_rep s (\<lambda>_. None) (\<lambda>_. None) (\<lambda>_. Kern)"
    using assms by (intro vm_repI) (auto simp: vm_boot_def tlb_ok_def spaces_ok_def)
  then show ?thesis unfolding vm_inv_def by blast
qed

lemma wp_result: "wpK m Q E s \<Longrightarrow> m s = Some (r, s') \<Longrightarrow> (case r of Inl e \<Rightarrow> E e s' | Inr a \<Rightarrow> Q a s')"
  by (auto simp: wpK_def split: sum.splits)

section \<open>The invariant holds in every run\<close>

text \<open>The steps that change threads.\<close>

lemma vm_rep_flushed:
  assumes rep: "vm_rep s K L ow" and t: "vm_as t = vm_as s" "world (vm_k t) = world (vm_k s)" "tlb_ok t" "spaces_ok (threads (vm_k t)) (vm_as t)"
    "curthread (vm_k t) \<in> dom (threads (vm_k t))"
  shows "vm_rep t K L ow"
  by (rule vm_repI) (use vm_repD [OF rep] t in auto)

lemma enter_keeps:
  assumes rep: "vm_rep s K L ow" and p: "p \<in> dom (vm_as s)" "\<forall>t th. threads (vm_k s) t = Some th \<longrightarrow> t_vmspace th \<noteq> p"
    and th: "threads (vm_k s) (curthread (vm_k s)) = Some th"
    and e: "dumb_activate p (s\<lparr>vm_k := (vm_k s)\<lparr>threads := (threads (vm_k s))(curthread (vm_k s) \<mapsto> th\<lparr>t_vmspace := p\<rparr>)\<rparr>\<rparr>) = Some (r, s')"
  shows "vm_rep s' K L ow"
proof -
  let ?s = "s\<lparr>vm_k := (vm_k s)\<lparr>threads := (threads (vm_k s))(curthread (vm_k s) \<mapsto> th\<lparr>t_vmspace := p\<rparr>)\<rparr>\<rparr>"
  have "length (vm_tlb ?s) = 64" using vm_repD(4) [OF rep] by (simp add: tlb_ok_def)
  then obtain T where T: "s' = ?s\<lparr>vm_tlb := T\<rparr>" "length T = 64" "\<forall>(hi, lo) \<in> set T. lo AND TLBLO_VALID = 0"
    using dumb_activate_run [of ?s p] e by auto
  have "spaces_ok (threads (vm_k s')) (vm_as s')" using vm_repD(5) [OF rep] p th unfolding spaces_ok_def T(1) by (simp; metis)
  moreover have "tlb_ok s'" using tlb_ok_flushed [of s'] T by simp
  ultimately show ?thesis by (intro vm_rep_flushed [OF rep]) (use T th in auto)
qed

lemma switch_keeps:
  assumes rep: "vm_rep s K L ow" and th: "threads (vm_k s) t = Some th"
    and e: "(if t_vmspace th \<noteq> 0 then dumb_activate (t_vmspace th) else retK ()) (s\<lparr>vm_k := (vm_k s)\<lparr>curthread := t\<rparr>\<rparr>) = Some (r, s')"
  shows "vm_rep s' K L ow"
proof -
  let ?s = "s\<lparr>vm_k := (vm_k s)\<lparr>curthread := t\<rparr>\<rparr>"
  have l: "length (vm_tlb ?s) = 64" using vm_repD(4) [OF rep] by (simp add: tlb_ok_def)
  have "tlb_ok s' \<and> vm_as s' = vm_as s \<and> vm_k s' = vm_k ?s"
  proof (cases "t_vmspace th = 0")
    case True
    then have "s' = ?s" using e by (simp add: retK_def)
    then show ?thesis using True th l by (simp add: tlb_ok_def cur_as_def)
  next
    case False
    then obtain T where T: "s' = ?s\<lparr>vm_tlb := T\<rparr>" "length T = 64" "\<forall>(hi, lo) \<in> set T. lo AND TLBLO_VALID = 0"
      using dumb_activate_run [OF l, of "t_vmspace th"] e by auto
    then show ?thesis using tlb_ok_flushed [of s'] by simp
  qed
  then show ?thesis by (intro vm_rep_flushed [OF rep]) (use vm_repD(5) [OF rep] th in auto)
qed

lemma exit_keeps:
  assumes rep: "vm_rep s K L ow" and th: "threads (vm_k s) (curthread (vm_k s)) = Some th" "t_vmspace th \<noteq> 0"
    and e: "dumb_destroy (t_vmspace th) (s\<lparr>vm_k := (vm_k s)\<lparr>threads := (threads (vm_k s))(curthread (vm_k s) \<mapsto> th\<lparr>t_vmspace := 0\<rparr>)\<rparr>\<rparr>) = Some (r, s')"
  shows "vm_inv s' K"
proof -
  let ?s = "s\<lparr>vm_k := (vm_k s)\<lparr>threads := (threads (vm_k s))(curthread (vm_k s) \<mapsto> th\<lparr>t_vmspace := 0\<rparr>)\<rparr>\<rparr>"
  note sp = vm_repD(5) [OF rep, unfolded spaces_ok_def, rule_format]
  have c: "cur_as ?s = 0" by (simp add: cur_as_def)
  have other: "t_vmspace th' \<noteq> t_vmspace th" if "threads (vm_k ?s) t = Some th'" for t th'
    using that th sp [of "curthread (vm_k s)" th] by (auto split: if_splits)
  have "spaces_ok (threads (vm_k ?s)) (vm_as ?s)" using vm_repD(5) [OF rep] unfolding spaces_ok_def by (simp; metis)
  then have rep': "vm_rep ?s K L ow"
    using vm_repD(4) [OF rep] c by (intro vm_rep_flushed [OF rep]) (auto simp: tlb_ok_def)
  have d: "t_vmspace th \<in> dom (vm_as ?s)" "t_vmspace th \<noteq> cur_as ?s" using sp th c by auto
  have "wpK (dumb_destroy (t_vmspace th)) (\<lambda>_ s'. vm_inv s' K) (\<lambda>_ s'. vm_inv s' K) ?s"
    by (rule wp_mono [OF dumb_destroy_wp [OF rep' d other]]) blast+
  from wp_result [OF this e] show ?thesis by (auto split: sum.splits)
qed

text \<open>A user program's write goes to a page of its own address space.\<close>

lemma translate_own:
  assumes rep: "vm_rep s K L ow" and c: "cur_as s \<noteq> 0" and t: "tlb_translate (vm_tlb s) va = Some pa"
  shows "\<exists>a k. vm_as s (cur_as s) = Some a \<and> k < 3 \<and> pbase a k \<noteq> 0 \<and> L (2147483648 + pbase a k) = Some (npages a k * 4096) \<and>
    ow (2147483648 + pbase a k) = Range (cur_as s) k \<and> pbase a k \<le> pa \<and> pa < pbase a k + npages a k * 4096"
proof -
  obtain hi lo where f: "find (\<lambda>(hi, lo). hi AND PAGE_FRAME = va AND PAGE_FRAME \<and> lo AND TLBLO_VALID \<noteq> 0) (vm_tlb s) = Some (hi, lo)"
    and pa: "pa = (lo AND PAGE_FRAME) + va mod 4096" using t by (auto simp: tlb_translate_def split: option.splits)
  then have e: "(hi, lo) \<in> set (vm_tlb s)" "lo AND TLBLO_VALID \<noteq> 0" unfolding find_Some_iff by (auto, metis nth_mem)
  obtain a where a: "vm_as s (cur_as s) = Some a" "as_set_up a" "hi mod 4096 = 0" "as_paddr a hi = Some (lo AND PAGE_FRAME)"
    using vm_repD(4) [OF rep] c e unfolding tlb_ok_def by metis
  have ok: "as_ok L ow (cur_as s) a" using vm_repD(3) [OF rep a(1)] by blast
  obtain k where k: "k < 3" "pbase a k \<noteq> 0" "npages a k \<noteq> 0" "vbase a k \<le> hi" "lo AND PAGE_FRAME = hi - vbase a k + pbase a k" "hi + 4096 \<le> vbase a k + npages a k * 4096"
    using as_paddr_range [OF ok a(2-4)] by blast
  have "va mod 4096 < 4096" by simp
  then have "pbase a k \<le> pa" "pa < pbase a k + npages a k * 4096" using k(4-6) pa by linarith+
  moreover have "L (2147483648 + pbase a k) = Some (npages a k * 4096)" "ow (2147483648 + pbase a k) = Range (cur_as s) k" using ok k(1-3) unfolding as_ok_def by blast+
  ultimately show ?thesis using a(1) k(1,2) by blast
qed

lemma kernel_keeps:
  assumes rep: "vm_rep s K L ow" and h: "hstep (vm_k s, K) hop (k', K')"
  shows "vm_inv (s\<lparr>vm_k := k'\<rparr>) K'"
  using h
proof (elim hstep_elims)
  note r = vm_repD [OF rep]
  fix sz p
  assume sz: "sz \<le> 2147483648" and e: "kmalloc_heap sz (vm_k s) = Some (Inr p, k')" and K': "K' = (if p = 0 then K else K(p \<mapsto> sz))"
  obtain h where k': "k' = (vm_k s)\<lparr>world := h\<rparr>" and al: "allocated L sz (world (vm_k s)) p h" using kmalloc_run [OF r(1) sz] e by auto
  show ?thesis
  proof (cases "p = 0")
    case True
    then have "vm_rep (s\<lparr>vm_k := k'\<rparr>) K' L ow" unfolding k' K' using al r by (intro vm_repI) (auto simp: allocated_def)
    then show ?thesis unfolding vm_inv_def by blast
  next
    case False
    then have p: "p \<notin> dom L" "heap_inv h (L(p \<mapsto> sz))" using al by (simp_all add: allocated_def)
    have "(L(p \<mapsto> sz)) q = Some 28 \<and> (ow(p := Kern)) q = Struct \<and> as_ok (L(p \<mapsto> sz)) (ow(p := Kern)) q a" if "vm_as s q = Some a" for q a
      using r(3) [OF that] as_ok_new [OF _ p(1)] p(1) by auto
    then have "vm_rep (s\<lparr>vm_k := k'\<rparr>) K' (L(p \<mapsto> sz)) (ow(p := Kern))"
      unfolding k' K' using False p r by (intro vm_repI) auto
    then show ?thesis unfolding vm_inv_def by blast
  qed
next
  note r = vm_repD [OF rep]
  fix p n
  assume p: "K p = Some n" and e: "kfree_heap p (vm_k s) = Some (Inr (), k')" and K': "K' = K(p := None)"
  have lp: "L p = Some n" "ow p = Kern" using r(2) [OF p] by blast+
  obtain h where k': "k' = (vm_k s)\<lparr>world := h\<rparr>" and rl: "released L p (world (vm_k s)) h" using kfree_run [OF r(1) lp(1)] e by auto
  have "as_ok (L(p := None)) ow q a" if q: "vm_as s q = Some a" for q a
  proof -
    have ok: "as_ok L ow q a" using r(3) [OF q] by blast
    then have "2147483648 + pbase a k \<noteq> p" if "k < 3" "pbase a k \<noteq> 0" "npages a k \<noteq> 0" for k using that lp(2) unfolding as_ok_def by (metis owner.distinct(3))
    then show ?thesis by (intro as_ok_cong [OF ok]) auto
  qed
  moreover have "q \<noteq> p" if "vm_as s q = Some a" for q a using r(3) [OF that] lp(2) by auto
  ultimately have "vm_rep (s\<lparr>vm_k := k'\<rparr>) K' (L(p := None)) ow"
    unfolding k' K' using rl r by (intro vm_repI) (auto simp: released_def)
  then show ?thesis unfolding vm_inv_def by blast
next
  fix p n x v
  assume p: "K' p = Some n" "p \<le> x" "x < p + n" and k': "k' = (vm_k s)\<lparr>world := (world (vm_k s))\<lparr>heap_mem := (mem s)(x := v)\<rparr>\<rparr>" and K: "K = K'"
  have "vm_rep (set_mem ((mem s)(x := v)) s) K L ow"
    by (rule vm_rep_mem [OF rep]) (use vm_repD(2) [OF rep, of p n] p K in \<open>auto split: if_splits\<close>)
  then show ?thesis unfolding vm_inv_def k' K by blast
qed

lemma ustore_keeps:
  assumes rep: "vm_rep s K L ow" and c: "cur_as s \<noteq> 0" and t: "tlb_translate (vm_tlb s) va = Some pa"
  shows "vm_rep (set_mem ((mem s)(2147483648 + pa := v)) s) K L ow"
proof (rule vm_rep_mem [OF rep])
  fix x assume "((mem s)(2147483648 + pa := v)) x \<noteq> mem s x"
  then have x: "x = 2147483648 + pa" by (auto split: if_splits)
  obtain a k where "L (2147483648 + pbase a k) = Some (npages a k * 4096)" "pbase a k \<le> pa" "pa < pbase a k + npages a k * 4096"
    using translate_own [OF rep c t] by blast
  then show "\<exists>p n. L p = Some n \<and> p \<le> x \<and> x < p + n" unfolding x by (intro exI [of _ "2147483648 + pbase a k"] exI [of _ "npages a k * 4096"]) auto
qed

lemma prepare_keeps:
  assumes inv: "vm_inv s K" and a: "vm_as s p = Some a" and e: "as_prepare_load p s = Some (r, s')"
  shows "vm_inv s' K"
proof (cases "as_pbase1 a = 0 \<and> as_pbase2 a = 0 \<and> as_stackpbase a = 0")
  case True
  then have "wpK (as_prepare_load p) (\<lambda>_ s'. vm_inv s' K) (\<lambda>_ s'. vm_inv s' K) s"
    by (intro wp_mono [OF as_prepare_load_wp [OF inv a]]) (auto simp: loaded_def)
  from wp_result [OF this e] show ?thesis by (auto split: sum.splits)
next
  case False
  then have "as_prepare_load p s = None" using a by (auto simp: as_prepare_load_def kern_defs get_as_def)
  then show ?thesis using e by simp
qed

lemma vstep_inv:
  assumes st: "vstep (s, K) op (s', K')" and inv: "vm_inv s K"
  shows "vm_inv s' K'"
proof -
  obtain L ow where rep: "vm_rep s K L ow" using inv unfolding vm_inv_def by blast
  from st show ?thesis
  proof cases
    case (create r)
    have "wpK as_create (\<lambda>_ s'. vm_inv s' K) (\<lambda>_ s'. vm_inv s' K) s" by (rule wp_mono [OF as_create_wp [OF rep]]) auto
    from wp_result [OF this] create show ?thesis by (auto split: sum.splits)
  next
    case (region p a sz vaddr r)
    have "wpK (as_define_region p vaddr sz) (\<lambda>_ s'. vm_inv s' K) (\<lambda>_ s'. vm_inv s' K) s"
      by (rule wp_mono [OF as_define_region_keeps [OF rep region(3-6)]]) (use inv in \<open>auto simp: vm_inv_def\<close>)
    from wp_result [OF this] region show ?thesis by (auto split: sum.splits)
  next
    case (copy p a r)
    have "wpK (as_copy p) (\<lambda>_ s'. vm_inv s' K) (\<lambda>_ s'. vm_inv s' K) s" by (rule wp_mono [OF as_copy_wp [OF inv copy(3,4)]]) auto
    from wp_result [OF this] copy show ?thesis by (auto split: sum.splits)
  next
    case (enter p th r)
    then show ?thesis using enter_keeps [OF rep] unfolding vm_inv_def by blast
  next
    case (switch t th r)
    then show ?thesis using switch_keeps [OF rep] unfolding vm_inv_def by blast
  next
    case (fault va ft r)
    then show ?thesis using vm_fault_keeps [OF rep] unfolding vm_inv_def by blast
  next
    case (ustore va pa v)
    then show ?thesis using ustore_keeps [OF rep] unfolding vm_inv_def by blast
  qed (use inv prepare_keeps exit_keeps [OF rep] kernel_keeps [OF rep] in auto)
qed

lemma vrun_inv:
  assumes "vrun s0 ops c" and "vm_inv s0 (\<lambda>_. None)"
  shows "vm_inv (fst c) (snd c)"
  using assms(1)
proof induction
  case (vrun_step ops c op c')
  then show ?case using vstep_inv [of "fst c" "snd c" op "fst c'" "snd c'"] by simp
qed (simp add: assms(2))

section \<open>A program gets its memory\<close>

text \<open>\<^verbatim>\<open>getppages\<close> and \<^verbatim>\<open>as_prepare_load\<close> while memory lasts.\<close>

lemma getppages_calc:
  assumes "u32 (firstpaddr (world k) + u32 (n * 4096)) \<le> lastpaddr (world k)"
  shows "getppages n k = Some (Inr (firstpaddr (world k)), k\<lparr>world := (world k)\<lparr>firstpaddr := u32 (firstpaddr (world k) + u32 (n * 4096))\<rparr>\<rparr>)"
  using assms by (simp add: getppages_def ram_stealmem_def on_heap_def splhigh_def splx_def kern_defs PAGE_SIZE_def Let_def)

lemma on_k_getppages:
  assumes "u32 (firstpaddr (world (vm_k s)) + u32 (n * 4096)) \<le> lastpaddr (world (vm_k s))"
  shows "bindK (on_k (getppages n)) g s =
    g (firstpaddr (world (vm_k s))) (s\<lparr>vm_k := (vm_k s)\<lparr>world := (world (vm_k s))\<lparr>firstpaddr := u32 (firstpaddr (world (vm_k s)) + u32 (n * 4096))\<rparr>\<rparr>\<rparr>)"
  using assms by (simp add: bindK_def on_k_def zoomK_def getppages_calc)

lemma as_prepare_load_calc:
  assumes a: "vm_as s p = Some a" "as_pbase1 a = 0" "as_pbase2 a = 0" "as_stackpbase a = 0"
    and h: "h = world (vm_k s)" and f: "f1 = u32 (firstpaddr h + u32 (as_npages1 a * 4096))" "f2 = u32 (f1 + u32 (as_npages2 a * 4096))" "f3 = u32 (f2 + 49152)"
    and le: "f1 \<le> lastpaddr h" "f2 \<le> lastpaddr h" "f3 \<le> lastpaddr h" and nz: "firstpaddr h \<noteq> 0" "f1 \<noteq> 0" "f2 \<noteq> 0"
  shows "as_prepare_load p s = Some (Inr (), s\<lparr>vm_k := (vm_k s)\<lparr>world := h\<lparr>firstpaddr := f3\<rparr>\<rparr>,
    vm_as := (vm_as s)(p \<mapsto> a\<lparr>as_pbase1 := firstpaddr h, as_pbase2 := f1, as_stackpbase := f2\<rparr>)\<rparr>)"
proof -
  have m: "vm_as t p = Some b \<Longrightarrow> bindK (mod_as p u) g t = g () (t\<lparr>vm_as := (vm_as t)(p \<mapsto> u b)\<rparr>)" for t b u and g :: "unit \<Rightarrow> (vmstate, unit) kern"
    by (simp add: bindK_def mod_as_def)
  have t: "bindK (assertK True) g t = g () t" for t :: vmstate and g :: "unit \<Rightarrow> (vmstate, unit) kern" by (simp add: bindK_def assertK_def retK_def)
  have "u32 49152 = 49152" by (simp add: u32_def)
  then show ?thesis
    using a le nz by (simp add: as_prepare_load_def DUMBVM_STACKPAGES_def bindK_def [of "get_as p"] get_as_def t retK_def m
      on_k_getppages f [symmetric] h [symmetric])
qed

end
