(* ===== verification/Dumbvm_Safe.thy ===== *)
theory Dumbvm_Safe
  imports Dumbvm_Run
begin

text \<open>
  What holds in every run of virtual memory: a user program reaches its own memory only. What the fault handler does on each path.
\<close>

unbundle bit_operations_syntax

section \<open>An example run\<close>

text \<open>A machine with 1 MB of memory and one thread, which gets an address space with two regions of one page each.\<close>

definition ex_thread :: "nat \<Rightarrow> thread" where
  "ex_thread v = \<lparr>pcb_ininterrupt = False, t_cont = Running, t_prog = [], t_sleepaddr = 0, t_stack = None, t_vmspace = v, t_cwd = 0\<rparr>"

definition ex_vm :: "heap \<Rightarrow> nat \<Rightarrow> (nat \<rightharpoonup> addrspace) \<Rightarrow> (nat \<times> nat) list \<Rightarrow> vmstate" where
  "ex_vm h v A T = \<lparr>vm_k = (ex_kst h)\<lparr>curthread := 16, threads := [16 \<mapsto> ex_thread v]\<rparr>, vm_as = A, vm_tlb = T\<rparr>"

lemma ex_vm_sel [simp]: "world (vm_k (ex_vm h v A T)) = h" "vm_as (ex_vm h v A T) = A" "vm_tlb (ex_vm h v A T) = T" "curthread (vm_k (ex_vm h v A T)) = 16"
  "threads (vm_k (ex_vm h v A T)) = [16 \<mapsto> ex_thread v]" "t_vmspace (ex_thread v) = v" "cur_as (ex_vm h v A T) = v"
  by (simp_all add: ex_vm_def ex_kst_def ex_thread_def cur_as_def)

lemma ex_vm_upd [simp]: "ex_vm h v A T\<lparr>vm_k := (vm_k (ex_vm h v A T))\<lparr>world := h'\<rparr>\<rparr> = ex_vm h' v A T" "ex_vm h v A T\<lparr>vm_as := A'\<rparr> = ex_vm h v A' T"
  "ex_vm h v A T\<lparr>vm_tlb := T'\<rparr> = ex_vm h v A T'" "(ex_thread v)\<lparr>t_vmspace := v'\<rparr> = ex_thread v'"
  "ex_vm h v A T\<lparr>vm_k := (vm_k (ex_vm h v A T))\<lparr>threads := [16 \<mapsto> ex_thread v']\<rparr>\<rparr> = ex_vm h v' A T"
  by (simp_all add: ex_vm_def ex_kst_def ex_thread_def)

definition ex_T0 :: "(nat \<times> nat) list" where "ex_T0 = replicate 64 (0, 0)"

lemma ex_vm_boot: "vm_boot 1048576 2147549184 (ex_vm ex_heap 0 (\<lambda>_. None) ex_T0)"
  using ex_heap_boot by (auto simp: vm_boot_def heap_boot_def ex_T0_def ex_kst_def split: if_splits)

lemma ex_create:
  "\<exists>p h. as_create (ex_vm ex_heap 0 (\<lambda>_. None) ex_T0) = Some (Inr p, ex_vm h 0 [p \<mapsto> no_as] ex_T0) \<and> p \<noteq> 0 \<and>
     65536 \<le> firstpaddr h \<and> firstpaddr h \<le> 69632 \<and> firstpaddr h mod 4096 = 0 \<and> lastpaddr h = 1048576"
proof -
  let ?s = "ex_vm ex_heap 0 (\<lambda>_. None) ex_T0"
  have inv: "heap_inv (world (vm_k ?s)) (\<lambda>_. None)" using heap_boot_inv [OF ex_heap_boot] by (simp add: ex_kst_def)
  have ex: "firstpaddr ex_heap = 65536" "lastpaddr ex_heap = 1048576" by (simp_all add: ex_heap_def)
  have x: "\<not> exhausted 28 ex_heap" using ex by (auto simp: exhausted_def fresh_def ex_heap_def heap0_def inuse_def intro: exI [of _ 0])
  obtain p h where e: "kmalloc_heap 28 (vm_k ?s) = Some (Inr p, (vm_k ?s)\<lparr>world := h\<rparr>)" and al: "allocated (\<lambda>_. None) 28 ex_heap p h"
    using kmalloc_run [OF inv, of 28] by auto
  have p: "p \<noteq> 0" using al x by (auto simp: allocated_def)
  have b: "65536 \<le> firstpaddr h" "firstpaddr h \<le> 69632" "lastpaddr h = 1048576" "heap_inv h [p \<mapsto> 28]" using al p ex by (auto simp: allocated_def kept_def fresh_def)
  then have "firstpaddr h mod 4096 = 0" unfolding heap_inv_def heap_rep_def by blast
  moreover have "as_create ?s = Some (Inr p, ex_vm h 0 [p \<mapsto> no_as] ex_T0)"
    using e p by (simp add: as_create_def on_k_def kern_defs no_as_def)
  ultimately show ?thesis using b p by (intro exI [of _ p] exI [of _ h]) simp
qed

definition ex_as :: "nat \<Rightarrow> addrspace" where
  "ex_as f = \<lparr>as_vbase1 = 4194304, as_pbase1 = f, as_npages1 = 1, as_vbase2 = 268435456, as_pbase2 = f + 4096, as_npages2 = 1, as_stackpbase = f + 8192\<rparr>"


definition ex_ops :: "nat \<Rightarrow> vop list" where
  "ex_ops p = [Create, Region p 4194304 4096, Region p 268435456 4096, Prepare p, Enter p]"

lemma ex_entered:
  "\<exists>p h f T. vrun (ex_vm ex_heap 0 (\<lambda>_. None) ex_T0) (ex_ops p) (ex_vm h p [p \<mapsto> ex_as f] T, \<lambda>_. None) \<and> p \<noteq> 0 \<and> 65536 \<le> f \<and> f \<le> 69632 \<and> f mod 4096 = 0 \<and>
     length T = 64 \<and> (\<forall>(hi, lo) \<in> set T. lo AND TLBLO_VALID = 0)"
proof -
  let ?s0 = "ex_vm ex_heap 0 (\<lambda>_. None) ex_T0"
  obtain p h where c: "as_create ?s0 = Some (Inr p, ex_vm h 0 [p \<mapsto> no_as] ex_T0)" and p: "p \<noteq> 0"
    and f: "65536 \<le> firstpaddr h" "firstpaddr h \<le> 69632" "firstpaddr h mod 4096 = 0" "lastpaddr h = 1048576" using ex_create by (elim exE conjE)
  let ?f = "firstpaddr h" and ?a1 = "no_as\<lparr>as_vbase1 := 4194304, as_npages1 := 1\<rparr>"
  let ?a2 = "?a1\<lparr>as_vbase2 := 268435456, as_npages2 := 1\<rparr>" and ?h = "h\<lparr>firstpaddr := firstpaddr h + 57344\<rparr>"
  have "vrun ?s0 ([] @ [Create]) (ex_vm h 0 [p \<mapsto> no_as] ex_T0, \<lambda>_. None)" by (rule vrun_step [OF vrun_refl vstep.create [OF c]])
  moreover have "as_define_region p 4194304 4096 (ex_vm h 0 [p \<mapsto> no_as] ex_T0) = Some (Inr (), ex_vm h 0 [p \<mapsto> ?a1] ex_T0)"
    by (simp add: as_define_region_def kern_defs get_as_def mod_as_def no_as_def PAGE_SIZE_def PAGE_FRAME_def u32_def Let_def)
  ultimately have "vrun ?s0 (([] @ [Create]) @ [Region p 4194304 4096]) (ex_vm h 0 [p \<mapsto> ?a1] ex_T0, \<lambda>_. None)"
    by (elim vrun_step) (rule vstep.region, auto simp: no_as_def)
  moreover have "as_define_region p 268435456 4096 (ex_vm h 0 [p \<mapsto> ?a1] ex_T0) = Some (Inr (), ex_vm h 0 [p \<mapsto> ?a2] ex_T0)"
    by (simp add: as_define_region_def kern_defs get_as_def mod_as_def no_as_def PAGE_SIZE_def PAGE_FRAME_def u32_def Let_def)
  ultimately have "vrun ?s0 ((([] @ [Create]) @ [Region p 4194304 4096]) @ [Region p 268435456 4096]) (ex_vm h 0 [p \<mapsto> ?a2] ex_T0, \<lambda>_. None)"
    by (elim vrun_step) (rule vstep.region, auto simp: no_as_def)
  moreover have "as_prepare_load p (ex_vm h 0 [p \<mapsto> ?a2] ex_T0) = Some (Inr (), ex_vm ?h 0 [p \<mapsto> ex_as ?f] ex_T0)"
    using as_prepare_load_calc [of "ex_vm h 0 [p \<mapsto> ?a2] ex_T0" p ?a2 h "?f + 4096" "?f + 8192" "?f + 57344"] f
    by (simp add: no_as_def ex_as_def u32_def)
  ultimately have r: "vrun ?s0 (((([] @ [Create]) @ [Region p 4194304 4096]) @ [Region p 268435456 4096]) @ [Prepare p]) (ex_vm ?h 0 [p \<mapsto> ex_as ?f] ex_T0, \<lambda>_. None)"
    by (elim vrun_step) (rule vstep.prepare, auto)
  obtain T where T: "dumb_activate p (ex_vm ?h p [p \<mapsto> ex_as ?f] ex_T0) = Some (Inr (), ex_vm ?h p [p \<mapsto> ex_as ?f] T)" "length T = 64" "\<forall>(hi, lo) \<in> set T. lo AND TLBLO_VALID = 0"
    using dumb_activate_run [of "ex_vm ?h p [p \<mapsto> ex_as ?f] ex_T0" p] by (auto simp: ex_T0_def)
  have "vstep (ex_vm ?h 0 [p \<mapsto> ex_as ?f] ex_T0, \<lambda>_. None) (Enter p) (ex_vm ?h p [p \<mapsto> ex_as ?f] T, \<lambda>_. None)"
    by (rule vstep.enter [of p _ "ex_thread 0" "Inr ()"]) (use p T(1) in auto)
  from vrun_step [OF r this] show ?thesis using p f T by (intro exI [of _ p] exI [of _ ?h] exI [of _ ?f] exI [of _ T]) (simp add: ex_ops_def)
qed


lemma translate_none: "\<forall>(hi, lo) \<in> set T. lo AND TLBLO_VALID = 0 \<Longrightarrow> tlb_translate T va = None"
proof -
  assume "\<forall>(hi, lo) \<in> set T. lo AND TLBLO_VALID = 0"
  then have "find (\<lambda>(hi, lo). hi AND PAGE_FRAME = va AND PAGE_FRAME \<and> lo AND TLBLO_VALID \<noteq> 0) T = None" unfolding find_None_iff by fastforce
  then show ?thesis by (simp add: tlb_translate_def)
qed

text \<open>The first fault of the program.\<close>

lemma ex_fault:
  assumes T: "length T = 64" "\<forall>(hi, lo) \<in> set T. lo AND TLBLO_VALID = 0" and f: "f \<noteq> 0" "f \<le> 69632" "f mod 4096 = 0" and p: "p \<noteq> 0"
  shows "\<exists>T'. vm_fault 1 4194304 (ex_vm h p [p \<mapsto> ex_as f] T) = Some (Inr (), ex_vm h p [p \<mapsto> ex_as f] T') \<and> tlb_translate T' 4194320 = Some (f + 16)"
proof -
  let ?s = "ex_vm h p [p \<mapsto> ex_as f] T"
  have z: "snd (T ! i) AND TLBLO_VALID = 0" if "i < 64" for i using T that nth_mem [of i T] by (cases "T ! i") auto
  then have i: "free_slot T [0..<64] = Some 0" unfolding free_slot_def by (simp add: upt_rec)
  have fr: "f AND PAGE_FRAME = f" "(f + 4096) AND PAGE_FRAME = f + 4096" "(f + 8192) AND PAGE_FRAME = f + 8192" using f by (simp_all add: frame_and_iff mod_add_eq [symmetric])
  have n: "(4194304 :: nat) AND PAGE_FRAME = 4194304" "(4194320 :: nat) AND PAGE_FRAME = 4194304" "(268435456 :: nat) AND PAGE_FRAME = 268435456" by (simp_all add: frame_and)
  have su: "as_set_up (ex_as f)" "as_paddr (ex_as f) 4194304 = Some f" using f fr n by (simp_all add: as_set_up_def ex_as_def as_paddr_def PAGE_SIZE_def u32_def Let_def)
  have "vm_fault 1 4194304 ?s = Some (Inr (), ex_vm h p [p \<mapsto> ex_as f] (T[0 := (4194304, f OR TLBLO_DIRTY OR TLBLO_VALID)]))"
    using vm_fault_eq [of ?s "ex_thread p" "ex_as f" 1 4194304] su fr n i p by simp
  moreover have "tlb_translate T 4194320 = None" using T(2) by (rule translate_none)
  ultimately show ?thesis using translate_enter [of 4194320 f 0 T] f T(1) n
    by (intro exI [of _ "T[0 := (4194304, f OR TLBLO_DIRTY OR TLBLO_VALID)]"]) simp
qed

section \<open>Properties\<close>

text \<open>
  Property C5. User programs are isolated: in every run from boot, whatever address spaces were created, copied and destroyed, threads switched and kernel memory
  allocated and freed, a write of a user program changes memory of its own address space only. It changes no byte of a block the kernel has allocated, of an address space structure,
  or of the pages of another address space. In these runs a region is at most 2 GB long and is defined before its address space is given memory, a request to \<^verbatim>\<open>kmalloc\<close> is at most
  2 GB, only complete address spaces are copied, and an address space belongs to one thread. (Regions of almost 4 GB break the isolation, as \<^verbatim>\<open>Dumbvm_Copy\<close> shows.)
\<close>

theorem vm_isolation:
  assumes "vm_boot ramsize firstfree s0" and "vrun s0 ops (s, K)" and "vstep (s, K) (UStore va v) (s', K')" and "mem s' x \<noteq> mem s x"
  shows "(\<exists>a k. vm_as s (cur_as s) = Some a \<and> k < 3 \<and> pbase a k \<noteq> 0 \<and> 2147483648 + pbase a k \<le> x \<and> x < 2147483648 + pbase a k + npages a k * 4096) \<and>
    (\<forall>p n. K p = Some n \<longrightarrow> \<not> (p \<le> x \<and> x < p + n)) \<and>
    (\<forall>q b. vm_as s q = Some b \<longrightarrow> \<not> (q \<le> x \<and> x < q + 28)) \<and>
    (\<forall>q b k. vm_as s q = Some b \<and> q \<noteq> cur_as s \<and> k < 3 \<and> pbase b k \<noteq> 0 \<longrightarrow> \<not> (2147483648 + pbase b k \<le> x \<and> x < 2147483648 + pbase b k + npages b k * 4096))"
proof -
  obtain L ow where rep: "vm_rep s K L ow" using vrun_inv [OF assms(2) vm_boot_inv [OF assms(1)]] unfolding vm_inv_def by auto
  obtain pa where c: "cur_as s \<noteq> 0" and t: "tlb_translate (vm_tlb s) va = Some pa" and s': "s' = set_mem ((mem s)(2147483648 + pa := v)) s"
    using assms(3) by (auto elim: vstep.cases)
  have x: "x = 2147483648 + pa" using assms(4) s' by (auto split: if_splits)
  obtain a k where a: "vm_as s (cur_as s) = Some a" "k < 3" "pbase a k \<noteq> 0" "L (2147483648 + pbase a k) = Some (npages a k * 4096)"
    "ow (2147483648 + pbase a k) = Range (cur_as s) k" "pbase a k \<le> pa" "pa < pbase a k + npages a k * 4096"
    using translate_own [OF rep c t] by blast
  have xr: "2147483648 + pbase a k \<le> x" "x < 2147483648 + pbase a k + npages a k * 4096" using a(6,7) x by auto
  have out: "\<not> (q \<le> x \<and> x < q + n)" if "L q = Some n" "ow q \<noteq> Range (cur_as s) k" for q n
    using apartD [OF vm_repD(1) [OF rep] a(4) that(1) _ xr] a(5) that(2) by auto
  have "\<not> (2147483648 + pbase b j \<le> x \<and> x < 2147483648 + pbase b j + npages b j * 4096)"
    if q: "vm_as s q = Some b" "q \<noteq> cur_as s" "j < 3" "pbase b j \<noteq> 0" for q b j
  proof (cases "npages b j = 0")
    case False
    then have "L (2147483648 + pbase b j) = Some (npages b j * 4096)" "ow (2147483648 + pbase b j) = Range q j"
      using vm_repD(3) [OF rep q(1)] q(3,4) unfolding as_ok_def by blast+
    then show ?thesis using out q(2) by simp
  qed simp
  moreover have "\<not> (q \<le> x \<and> x < q + 28)" if "vm_as s q = Some b" for q b using out [of q 28] vm_repD(3) [OF rep that] by simp
  moreover have "\<not> (p \<le> x \<and> x < p + n)" if "K p = Some n" for p n using out [of p n] vm_repD(2) [OF rep that] by simp
  ultimately show ?thesis using a(1-3) xr by blast
qed

theorem vm_isolation_witness:
  "\<exists>p s s' x v. vrun (ex_vm ex_heap 0 (\<lambda>_. None) ex_T0) (ex_ops p @ [Fault 1 4194304]) (s, \<lambda>_. None) \<and> vstep (s, \<lambda>_. None) (UStore 4194320 v) (s', \<lambda>_. None) \<and>
     mem s' x \<noteq> mem s x \<and> cur_as s = p \<and> \<not> (p \<le> x \<and> x < p + 28)"
proof -
  obtain p h f T where r: "vrun (ex_vm ex_heap 0 (\<lambda>_. None) ex_T0) (ex_ops p) (ex_vm h p [p \<mapsto> ex_as f] T, \<lambda>_. None)" "p \<noteq> 0" "65536 \<le> f" "f \<le> 69632" "f mod 4096 = 0"
    and T: "length T = 64" "\<forall>(hi, lo) \<in> set T. lo AND TLBLO_VALID = 0"
    using ex_entered by (elim exE conjE)
  then obtain T' where T': "vm_fault 1 4194304 (ex_vm h p [p \<mapsto> ex_as f] T) = Some (Inr (), ex_vm h p [p \<mapsto> ex_as f] T')" "tlb_translate T' 4194320 = Some (f + 16)"
    using ex_fault [of T f p h] by auto
  let ?s = "ex_vm h p [p \<mapsto> ex_as f] T'" and ?x = "2147483648 + (f + 16)"
  let ?v = "mem ?s ?x + 1"
  have run: "vrun (ex_vm ex_heap 0 (\<lambda>_. None) ex_T0) (ex_ops p @ [Fault 1 4194304]) (?s, \<lambda>_. None)"
    by (rule vrun_step [OF r(1) vstep.fault [OF _ T'(1)]]) simp
  have st: "vstep (?s, \<lambda>_. None) (UStore 4194320 ?v) (set_mem ((mem ?s)(?x := ?v)) ?s, \<lambda>_. None)"
    by (rule vstep.ustore) (use T'(2) r(2) in auto)
  have ne: "mem (set_mem ((mem ?s)(?x := ?v)) ?s) ?x \<noteq> mem ?s ?x" by simp
  show ?thesis
    using run st ne vm_isolation [OF ex_vm_boot run st ne] by (intro exI [of _ p] exI [of _ ?s] exI [of _ "set_mem ((mem ?s)(?x := ?v)) ?s"] exI [of _ ?x] exI [of _ ?v]) auto
qed



end
