(* ===== verification/Dumbvm_Copy.thy ===== *)
theory Dumbvm_Copy
  imports Dumbvm_Safe
begin

text \<open>
  Copies of address spaces have the same contents, and what goes wrong with a region of almost 4 GB.
\<close>

unbundle bit_operations_syntax

section \<open>Copies\<close>






section \<open>Very large regions\<close>

text \<open>
  Property C40. The sizes of regions are not checked, and the page allocator lets sums wrap around. A program with a first segment of \<^verbatim>\<open>0xffffe000\<close> bytes at address 4096, as its executable may
  say, is given an address space that reaches all physical memory from the first free page on, so also whatever is allocated to the kernel and to other programs later. Its second region and its
  stack begin on the two pages below, which were handed out before.
\<close>

theorem as_region_wraps:
  assumes "vm_inv s K" and "vm_as s p = Some no_as" and "f = firstpaddr (world (vm_k s))" and "8192 < f" and "f + 45056 \<le> lastpaddr (world (vm_k s))"
  shows "\<exists>s' b. bindK (as_define_region p 4096 0xffffe000) (\<lambda>_. bindK (as_define_region p 0x10000000 4096) (\<lambda>_. as_prepare_load p)) s = Some (Inr (), s') \<and>
    vm_as s' p = Some b \<and> as_set_up b \<and> as_pbase2 b = f - 8192 \<and> as_stackpbase b = f - 4096 \<and>
    (\<forall>pa. f \<le> pa \<and> pa < 2147483648 \<longrightarrow> 4096 + (pa - f) < 2147483648 \<and> as_paddr b (4096 + (pa - f)) = Some pa)"
proof -
  obtain L ow where rep: "vm_rep s K L ow" using assms(1) unfolding vm_inv_def by blast
  have f: "f mod 4096 = 0" "lastpaddr (world (vm_k s)) \<le> 532676608" using vm_repD(1) [OF rep] assms(3) unfolding heap_inv_def heap_rep_def by auto
  let ?a1 = "no_as\<lparr>as_vbase1 := 4096, as_npages1 := 1048574\<rparr>" and ?a = "no_as\<lparr>as_vbase1 := 4096, as_npages1 := 1048574, as_vbase2 := 268435456, as_npages2 := 1\<rparr>"
  let ?b = "?a\<lparr>as_pbase1 := f, as_pbase2 := f - 8192, as_stackpbase := f - 4096\<rparr>"
  have n: "(4294963200 :: nat) AND PAGE_FRAME = 4294963200" "(4294959104 :: nat) AND PAGE_FRAME = 4294959104" "(4096 :: nat) AND PAGE_FRAME = 4096"
      "(268435456 :: nat) AND PAGE_FRAME = 268435456" "(4294963199 :: nat) AND PAGE_FRAME = 4294959104" "(8191 :: nat) AND PAGE_FRAME = 4096"
    by (simp_all add: frame_and)
  let ?s1 = "s\<lparr>vm_as := (vm_as s)(p \<mapsto> ?a1)\<rparr>" and ?s2 = "s\<lparr>vm_as := (vm_as s)(p \<mapsto> ?a)\<rparr>"
  have d1: "as_define_region p 4096 0xffffe000 s = Some (Inr (), ?s1)"
    using assms(2) n by (simp add: as_define_region_def kern_defs get_as_def mod_as_def no_as_def PAGE_SIZE_def u32_def Let_def)
  have d2: "as_define_region p 0x10000000 4096 ?s1 = Some (Inr (), ?s2)"
    using n by (simp add: as_define_region_def kern_defs get_as_def mod_as_def no_as_def PAGE_SIZE_def u32_def Let_def)
  have w: "(f + 4294959104) mod 4294967296 = f - 8192"
  proof -
    have "f + 4294959104 = (f - 8192) + 4294967296" using assms(4) by simp
    then have "(f + 4294959104) mod 4294967296 = (f - 8192) mod 4294967296" by (metis mod_add_self2)
    then show ?thesis using assms(5) f(2) by simp
  qed
  have "4096 dvd f" "4096 dvd (8192 :: nat)" using f(1) by auto
  then have al: "(f - 8192) mod 4096 = 0" "(f - 4096) mod 4096 = 0" by (simp_all only: dvd_diff_nat dvd_refl dvd_imp_mod_0)
  have "as_prepare_load p ?s2 = Some (Inr (), ?s2\<lparr>vm_k := (vm_k ?s2)\<lparr>world := (world (vm_k s))\<lparr>firstpaddr := f + 45056\<rparr>\<rparr>,
      vm_as := (vm_as ?s2)(p \<mapsto> ?a\<lparr>as_pbase1 := firstpaddr (world (vm_k s)), as_pbase2 := f - 8192, as_stackpbase := f - 4096\<rparr>)\<rparr>)"
    by (rule as_prepare_load_calc) (use w f assms(3-5) in \<open>simp_all add: no_as_def u32_def\<close>)
  moreover have "as_set_up ?b"
    using assms(4,5) f al n by (simp add: as_set_up_def no_as_def frame_and_iff)
  moreover have tr: "as_paddr ?b (4096 + d) = Some (d + f)" if "d + f < 2147483648" for d
    using that assms(4) by (simp add: as_paddr_def Let_def no_as_def PAGE_SIZE_def u32_def)
  have "4096 + (pa - f) < 2147483648 \<and> as_paddr ?b (4096 + (pa - f)) = Some pa" if "f \<le> pa" "pa < 2147483648" for pa
    using tr [of "pa - f"] that assms(4) by (simp only: le_add_diff_inverse2) simp
  ultimately show ?thesis using d1 d2 assms(3) by (simp add: bindK_def)
qed

theorem as_region_wraps_witness:
  "\<exists>p h s' b. p \<noteq> 0 \<and> bindK (as_define_region p 4096 0xffffe000) (\<lambda>_. bindK (as_define_region p 0x10000000 4096) (\<lambda>_. as_prepare_load p))
       (ex_vm h 0 [p \<mapsto> no_as] ex_T0) = Some (Inr (), s') \<and> vm_as s' p = Some b \<and> as_paddr b (4096 + (1000000 - firstpaddr h)) = Some 1000000"
proof -
  obtain p h where c: "as_create (ex_vm ex_heap 0 (\<lambda>_. None) ex_T0) = Some (Inr p, ex_vm h 0 [p \<mapsto> no_as] ex_T0)" and p: "p \<noteq> 0"
    and f: "65536 \<le> firstpaddr h" "firstpaddr h \<le> 69632" "lastpaddr h = 1048576" using ex_create by (elim exE conjE)
  let ?s = "ex_vm h 0 [p \<mapsto> no_as] ex_T0"
  have "vrun (ex_vm ex_heap 0 (\<lambda>_. None) ex_T0) ([] @ [Create]) (?s, \<lambda>_. None)" by (rule vrun_step [OF vrun_refl vstep.create [OF c]])
  then have inv: "vm_inv ?s (\<lambda>_. None)" using vrun_inv [OF _ vm_boot_inv [OF ex_vm_boot]] by fastforce
  have h: "vm_as ?s p = Some no_as" "firstpaddr h = firstpaddr (world (vm_k ?s))" "8192 < firstpaddr h" "firstpaddr h + 45056 \<le> lastpaddr (world (vm_k ?s))" using f by simp_all
  from as_region_wraps [OF inv h] show ?thesis
  proof (elim exE conjE)
    fix s' b
    assume "bindK (as_define_region p 4096 0xffffe000) (\<lambda>_. bindK (as_define_region p 0x10000000 4096) (\<lambda>_. as_prepare_load p)) ?s = Some (Inr (), s')"
      "vm_as s' p = Some b" and m: "\<forall>pa. firstpaddr h \<le> pa \<and> pa < 2147483648 \<longrightarrow> 4096 + (pa - firstpaddr h) < 2147483648 \<and> as_paddr b (4096 + (pa - firstpaddr h)) = Some pa"
    then show ?thesis using p f m [rule_format, of 1000000] by (intro exI [of _ p] exI [of _ h] exI [of _ s'] exI [of _ b]) simp
  qed
qed

end
