(* ===== verification/Spec2Isabelle.thy ===== *)
theory Spec2Isabelle
  imports Klock Bitmap Karray Kqueue Copyinout Uio Lhd SFS_Layout SFS_Core SFS_Block SFS_Inv SFS_Bmap SFS_File SFS_Rw SFS_Dir
    SFS_Trunc SFS_Vnode SFS_Load SFS_Names SFS_Ops SFS_Fs Cmem Cstring Cprintf
    Kthread Ksynch Ksched Kmachine Krun Kconc Kheap Kheap_Inv Kheap_Rep Kheap_Safe Kheap_Client Mksfs Dumbvm Dumbvm_Inv Dumbvm_Run Dumbvm_Safe Dumbvm_Copy
begin

text \<open>
  A verification of the kernel of OS/161 1.11, a teaching operating system in C for a MIPS-1 machine with one
  processor, and of the part of its C library the kernel shares with user programs.

  \<^bold>\<open>The program.\<close> Threads run in kernel mode, are switched by \<^verbatim>\<open>kern/thread\<close> and wait for each other with semaphores and locks.
  Kernel memory comes from the heap of \<^verbatim>\<open>kern/lib/kheap.c\<close>, which takes pages from \<^verbatim>\<open>kern/arch/mips/mips\<close>. Files live in SFS
  (\<^verbatim>\<open>kern/fs/sfs\<close>), which keeps a bitmap of blocks in use (\<^verbatim>\<open>kern/lib/bitmap.c\<close>) and an array of loaded vnodes
  (\<^verbatim>\<open>kern/lib/array.c\<close>) and reaches the disk through the driver \<^verbatim>\<open>kern/dev/lamebus/lhd.c\<close>. Data moves between the parts, and to and
  from user memory, through \<^verbatim>\<open>struct uio\<close> (\<^verbatim>\<open>kern/userprog/uio.c\<close>) and \<^verbatim>\<open>kern/lib/copyinout.c\<close>.

  \<^bold>\<open>The form of the model.\<close> A kernel routine is a function of type \<open>('s, 'a) kern\<close> (\<^verbatim>\<open>OS_Prelude\<close>): from a state it gives no
  result (a panic, a failed assertion, an access outside an object, an endless wait), an error number, or a value, in the
  last two cases with the new state. Machine integers are words, or numbers cut by \<open>u32\<close>, \<open>u16\<close> and \<open>s32\<close> wherever the
  sources can leave their range. Whether \<^verbatim>\<open>kmalloc\<close> fails is an oracle for every caller but the heap itself. Statements about
  routines use the weakest preconditions \<open>wpK\<close> (the routine returns and ...) and \<open>wpP\<close> (the same, with the cases named in
  which it may panic), so a theorem about a result always includes that there is one.

  \<^bold>\<open>The theories.\<close> Names of definitions are those of the C functions; a loop of a function is a definition of its own
  with a suffix.

  \<^item> \<^verbatim>\<open>OS_Prelude\<close>: error numbers, integer conversions, the monad and its calculus, memory, lists.
  \<^item> \<^verbatim>\<open>Bitmap\<close>, \<^verbatim>\<open>Karray\<close>, \<^verbatim>\<open>Kqueue\<close>: the containers of \<^verbatim>\<open>kern/lib\<close>. Each has a record for its structure, a relation to the set or
    list it stands for, and a locale with its contract (\<open>block_allocator\<close>, \<open>dyn_array\<close>, \<open>fifo\<close>), interpreted on the code. SFS
    and the scheduler use the contracts.
  \<^item> \<^verbatim>\<open>Cmem\<close>, \<^verbatim>\<open>Cstring\<close>, \<^verbatim>\<open>Cprintf\<close>: the memory, string and printing functions of \<^verbatim>\<open>lib/libc\<close>. The optimised loops copy what a
    plain copy would; the string loops return on terminated strings; the output of \<^verbatim>\<open>__vprintf\<close> is the same for every
    function the characters are sent to (locale \<open>sender\<close>), and \<^verbatim>\<open>snprintf\<close> stays in its buffer.
  \<^item> \<^verbatim>\<open>Copyinout\<close>, \<^verbatim>\<open>Uio\<close>: transfers to and from user memory. They touch user addresses only, move exactly the bytes asked for, and
    give EFAULT when a page is not there, with memory as before but for a prefix of the range.
  \<^item> \<^verbatim>\<open>Lhd\<close>: the disk driver on a disk that is a parameter. The locale \<open>lhd_hardware\<close> has what the driver relies on, \<open>lhd_reliable\<close> adds
    that writes succeed, and \<open>block_device\<close> is what the driver then provides for SFS. A simulated disk shows that they can be met.
  \<^item> \<^verbatim>\<open>Klock\<close>, \<^verbatim>\<open>Kthread\<close>, \<^verbatim>\<open>Ksynch\<close>: threads, scheduler, interrupt level, semaphores, locks, clock, and the machine as a step relation
    whose steps are calls of the running thread, interrupts, the choice of the next thread, and the return into it. \<^verbatim>\<open>Ksched\<close>, \<^verbatim>\<open>Kmachine\<close>,
    \<^verbatim>\<open>Krun\<close> have the invariant of this machine and its preservation, \<^verbatim>\<open>Kconc\<close> what follows for all runs from boot: mutual
    exclusion, the counting of semaphores, no lost wake-up, every thread in exactly one table, no panic while memory lasts.
  \<^item> \<^verbatim>\<open>Kheap\<close>: the heap and the page allocator. \<^verbatim>\<open>Kheap_Inv\<close>, \<^verbatim>\<open>Kheap_Rep\<close>, \<^verbatim>\<open>Kheap_Safe\<close> have its invariant and what each routine does to it,
    \<^verbatim>\<open>Kheap_Client\<close> what holds in all runs of its users whose requests are at most 2 GB: blocks are disjoint and in the memory free at
    boot, keep their contents, and every call answers.
  \<^item> \<^verbatim>\<open>Dumbvm\<close>: address spaces and the fault handler (\<^verbatim>\<open>kern/arch/mips/mips/dumbvm.c\<close>) on the heap and the page allocator, with the translation buffer
    of the processor. \<^verbatim>\<open>Dumbvm_Inv\<close> has the invariant (every block of memory has one owner, the translation buffer has translations of the
    current address space only) and what each operation does to it, \<^verbatim>\<open>Dumbvm_Run\<close> a machine whose steps are these operations, thread
    switches, writes of user programs and the other users of the heap, \<^verbatim>\<open>Dumbvm_Safe\<close> and \<^verbatim>\<open>Dumbvm_Copy\<close> what follows: user programs are isolated, the
    fault handler on every path, copies have the same contents.
  \<^item> \<^verbatim>\<open>Mksfs\<close>: the program \<^verbatim>\<open>sbin/mksfs\<close>, on system calls that are a parameter. It ends, and the disk it leaves mounts as an empty volume.
  \<^item> \<^verbatim>\<open>SFS_Layout\<close>: the structures on disk and their bytes. \<^verbatim>\<open>SFS_Core\<close>, \<^verbatim>\<open>SFS_File\<close>, \<^verbatim>\<open>SFS_Dir\<close>, \<^verbatim>\<open>SFS_Trunc\<close>, \<^verbatim>\<open>SFS_Vnode\<close>, \<^verbatim>\<open>SFS_Fs\<close>: all functions of
    \<^verbatim>\<open>sfs_io.c\<close>, \<^verbatim>\<open>sfs_vnode.c\<close> and \<^verbatim>\<open>sfs_fs.c\<close>, with the vnode counts of \<^verbatim>\<open>kern/fs/vfs/vnode.c\<close>. \<^verbatim>\<open>SFS_Inv\<close> has the invariant of a
    mounted volume (\<open>fs_ok\<close>: no block has two owners, every block with an owner is marked), \<^verbatim>\<open>SFS_Block\<close>, \<^verbatim>\<open>SFS_Bmap\<close>, \<^verbatim>\<open>SFS_Rw\<close>, \<^verbatim>\<open>SFS_Load\<close>,
    \<^verbatim>\<open>SFS_Names\<close>, \<^verbatim>\<open>SFS_Ops\<close> what each operation does to the abstract volume, a map from names to inode numbers and from these to
    contents: reading and writing, truncation, lookup, creation, links, removal, renaming, sync and remount.

  \<^bold>\<open>Bounds and fuel.\<close> \<open>q_grow\<close> and \<open>q_addtail\<close> call each other and carry a depth; three is shown to be enough. The copying loop of
  \<open>q_grow\<close> gets as many rounds as the ring has cells, since its index runs modulo that number. Walks over the lists of the heap
  get 257 rounds, one more than there are page references; \<open>kheap_answers\<close> shows that no call runs out. The retry loop of
  \<^verbatim>\<open>sfs_rwblock\<close> has the source's own limit of ten. Loops that search for a terminator are partial functions.

  \<^bold>\<open>Conditions.\<close> The properties of SFS are about a disk that never refuses a write, since SFS does not notice one that does (shown in
  \<^verbatim>\<open>SFS_Bmap\<close>); reads may fail. Operations that load a vnode assume a spare cell in the table of vnodes or memory that does not run out, and
  removal and renaming assume that the file is in use: without these, the release of a vnode panics in destroying its lock. Runs of the heap have
  requests of at most 2 GB, and runs of virtual memory regions of at most 2 GB, defined before memory is given to the address space: larger ones
  wrap around (shown in \<^verbatim>\<open>Kheap_Client\<close> and \<^verbatim>\<open>Dumbvm_Copy\<close>).

  \<^bold>\<open>Not modelled.\<close>
  The VFS layer above the file systems and with it loading of executables, since it works through tables of functions the model does not have; the emulator
  file system, console, timer and other devices and the bus, whose behaviour is not in the sources; assembly code, whose effect is part of the
  machines of \<^verbatim>\<open>Ksynch\<close> and \<^verbatim>\<open>Dumbvm_Run\<close>; the menu, start-up, kernel tests and exercises; user programs other than \<^verbatim>\<open>mksfs\<close>. Two machines are kept
  apart: the thread system leaves address spaces to parameters, and the machine of virtual memory has thread switches as single steps. Operations
  of SFS run to completion, since \<^verbatim>\<open>kern/fs/sfs\<close> takes no lock but that of the vnode counts, and expects one caller at a time.

  \<^bold>\<open>Flaws found.\<close> Where a run shows it, it is stated as a theorem: a failed block write is reported as
  success (\<^verbatim>\<open>sfs_io.c\<close>); truncation keeps a block too many; destroying a free lock panics, and with it giving up the
  last reference of a vnode; a queue preallocated for n elements holds n - 1; \<^verbatim>\<open>exorcise\<close> gives back storage the next
  exiting thread needs; a huge \<^verbatim>\<open>kmalloc\<close> hands out memory it did not reserve; \<^verbatim>\<open>uiomove\<close> does not stop at \<^verbatim>\<open>uio_resid\<close>;
  a fault without an address space leaves interrupts off; a region of almost 4 GB gives a program access to all later memory.
\<close>

end
